(* ===== verification/Rheo_Prelude.thy ===== *)
theory Rheo_Prelude
  imports Main "HOL-Library.Word" "HOL-Library.Monad_Syntax"
begin

text \<open>
  Shared vocabulary of the development: the machine integer types of the Rust sources, the
  saturating and checked operations on them, bounds-checked reads, the first-match scan that
  every fixed table of the kernel uses, and the generic induction over operation sequences.

  A \<^verbatim>\<open>usize\<close> that only counts or indexes is a \<^typ>\<open>nat\<close>; where the source saturates, checks or
  wraps at 64 bits the operation below says so. Values whose bits matter are words.
\<close>

unbundle bit_operations_syntax

type_synonym u8 = "8 word"
type_synonym u16 = "16 word"
type_synonym u32 = "32 word"
type_synonym u64 = "64 word"
type_synonym u128 = "128 word"

named_theorems scan_simps \<open>facts about first-match scans and bounds-checked reads\<close>
named_theorems arith64 \<open>unfolding of the saturating and checked 64-bit operations\<close>

section \<open>64-bit arithmetic on naturals\<close>

definition usize_max :: nat where
  "usize_max = 2 ^ 64 - 1"

definition sat_add :: "nat \<Rightarrow> nat \<Rightarrow> nat" where
  "sat_add a b = min (a + b) usize_max"

definition sat_mul :: "nat \<Rightarrow> nat \<Rightarrow> nat" where
  "sat_mul a b = min (a * b) usize_max"

definition checked_add :: "nat \<Rightarrow> nat \<Rightarrow> nat option" where
  "checked_add a b = (if a + b \<le> usize_max then Some (a + b) else None)"

definition wrap_add :: "nat \<Rightarrow> nat \<Rightarrow> nat" where
  "wrap_add a b = (a + b) mod 2 ^ 64"

declare sat_add_def [arith64] sat_mul_def [arith64] checked_add_def [arith64]

lemma sat_add_exact [simp]: "a + b \<le> usize_max \<Longrightarrow> sat_add a b = a + b"
  by (simp add: sat_add_def)

lemma sat_add_le_max [simp]: "sat_add a b \<le> usize_max"
  by (simp add: sat_add_def)

lemma sat_add_ge_left: "a \<le> usize_max \<Longrightarrow> a \<le> sat_add a b"
  by (simp add: sat_add_def)

lemma sat_mul_exact [simp]: "a * b \<le> usize_max \<Longrightarrow> sat_mul a b = a * b"
  by (simp add: sat_mul_def)

lemma sat_mul_mono: "a \<le> a' \<Longrightarrow> b \<le> b' \<Longrightarrow> sat_mul a b \<le> sat_mul a' b'"
  unfolding sat_mul_def by (rule min.mono) (auto intro: mult_le_mono)

lemma sat_add_mono: "a \<le> a' \<Longrightarrow> b \<le> b' \<Longrightarrow> sat_add a b \<le> sat_add a' b'"
  unfolding sat_add_def by (rule min.mono) auto

lemma checked_add_Some [simp]: "checked_add a b = Some c \<longleftrightarrow> c = a + b \<and> a + b \<le> usize_max"
  by (auto simp: checked_add_def)

text \<open>The saturating increment of a 16-bit counter.\<close>

definition sat_inc16 :: "u16 \<Rightarrow> u16" where
  "sat_inc16 w = (if w = - 1 then w else w + 1)"

lemma unat_sat_inc16: "unat (sat_inc16 w) = min 65535 (unat w + 1)"
proof (cases "w = - 1")
  case False
  then have "unat w \<noteq> 65535" using word_unat_eq_iff [of w "- 1"] by (simp add: unsigned_minus_1_eq_mask mask_eq_exp_minus_1)
  then show ?thesis using False unsigned_less [of w, where 'a = nat] by (simp add: sat_inc16_def unat_word_ariths)
qed (simp add: sat_inc16_def unsigned_minus_1_eq_mask mask_eq_exp_minus_1)

text \<open>The bytes of a string literal.\<close>

definition ascii :: "string \<Rightarrow> u8 list" where
  "ascii cs = map (\<lambda>c. of_nat (of_char c)) cs"

section \<open>Bounds-checked reads and first-match scans\<close>

definition nth_opt :: "'a list \<Rightarrow> nat \<Rightarrow> 'a option" where
  "nth_opt xs i = (if i < length xs then Some (xs ! i) else None)"

lemma nth_opt_Some [scan_simps]: "nth_opt xs i = Some x \<longleftrightarrow> i < length xs \<and> xs ! i = x"
  by (auto simp: nth_opt_def)

lemma nth_opt_None [scan_simps]: "nth_opt xs i = None \<longleftrightarrow> length xs \<le> i"
  by (auto simp: nth_opt_def)

fun find_idx :: "('a \<Rightarrow> bool) \<Rightarrow> 'a list \<Rightarrow> nat option" where
  "find_idx P [] = None"
| "find_idx P (x # xs) = (if P x then Some 0 else map_option Suc (find_idx P xs))"

lemma find_idx_Some [scan_simps]:
  "find_idx P xs = Some i \<longleftrightarrow> i < length xs \<and> P (xs ! i) \<and> (\<forall>j < i. \<not> P (xs ! j))"
proof (induction xs arbitrary: i)
  case Nil
  then show ?case by simp
next
  case (Cons x xs)
  show ?case
  proof (cases i)
    case 0
    then show ?thesis by (auto split: option.splits)
  next
    case (Suc k)
    have "(\<forall>j < Suc k. \<not> P ((x # xs) ! j)) \<longleftrightarrow> \<not> P x \<and> (\<forall>j < k. \<not> P (xs ! j))"
      by (auto simp: less_Suc_eq_0_disj)
    with Suc Cons.IH [of k] show ?thesis by auto
  qed
qed

lemma find_idx_None [scan_simps]: "find_idx P xs = None \<longleftrightarrow> (\<forall>x \<in> set xs. \<not> P x)"
  by (induction xs) auto

lemma find_idx_None_nth: "find_idx P xs = None \<longleftrightarrow> (\<forall>i < length xs. \<not> P (xs ! i))"
  by (simp add: find_idx_None all_set_conv_all_nth)

lemma find_upt_Some:
  "find P [a..<b] = Some i \<longleftrightarrow> a \<le> i \<and> i < b \<and> P i \<and> (\<forall>j. a \<le> j \<and> j < i \<longrightarrow> \<not> P j)"
proof -
  have "find P [a..<b] = Some i \<longleftrightarrow>
      (\<exists>k < b - a. P (a + k) \<and> i = a + k \<and> (\<forall>j < k. \<not> P (a + j)))"
    by (auto simp: find_Some_iff)
  also have "\<dots> \<longleftrightarrow> a \<le> i \<and> i < b \<and> P i \<and> (\<forall>j. a \<le> j \<and> j < i \<longrightarrow> \<not> P j)"
  proof
    assume "\<exists>k < b - a. P (a + k) \<and> i = a + k \<and> (\<forall>j < k. \<not> P (a + j))"
    then obtain k where k: "k < b - a" "P (a + k)" "i = a + k" "\<forall>j < k. \<not> P (a + j)" by blast
    have "\<not> P j" if "a \<le> j" "j < i" for j
      using k(4) [rule_format, of "j - a"] k(3) that by simp
    with k show "a \<le> i \<and> i < b \<and> P i \<and> (\<forall>j. a \<le> j \<and> j < i \<longrightarrow> \<not> P j)" by auto
  next
    assume "a \<le> i \<and> i < b \<and> P i \<and> (\<forall>j. a \<le> j \<and> j < i \<longrightarrow> \<not> P j)"
    then show "\<exists>k < b - a. P (a + k) \<and> i = a + k \<and> (\<forall>j < k. \<not> P (a + j))"
      by (intro exI [of _ "i - a"]) auto
  qed
  finally show ?thesis .
qed

lemma find_upt_None: "find P [a..<b] = None \<longleftrightarrow> (\<forall>i. a \<le> i \<and> i < b \<longrightarrow> \<not> P i)"
  by (auto simp: find_None_iff)

lemma update_range:
  assumes "a \<le> b" and "b \<le> length xs"
  shows "foldl (\<lambda>xs i. xs[i := v]) xs [a..<b] = take a xs @ replicate (b - a) v @ drop b xs"
  using assms
proof (induction b)
  case 0
  then show ?case by simp
next
  case (Suc b)
  show ?case
  proof (cases "a = Suc b")
    case True
    then show ?thesis by simp
  next
    case False
    with Suc have "foldl (\<lambda>xs i. xs[i := v]) xs [a..<Suc b] = (take a xs @ replicate (b - a) v @ drop b xs)[b := v]"
      by simp
    also have "\<dots> = take a xs @ replicate (b - a) v @ v # drop (Suc b) xs"
      using False Suc.prems by (simp add: list_update_append Cons_nth_drop_Suc [symmetric] del: upt_Suc)
    also have "\<dots> = take a xs @ replicate (Suc b - a) v @ drop (Suc b) xs"
      using False Suc.prems by (simp add: Suc_diff_le replicate_app_Cons_same)
    finally show ?thesis .
  qed
qed

section \<open>Scans for the first best element\<close>

text \<open>
  A loop that keeps the best element seen so far and replaces it only by a strictly better one. With a strict weak order it ends with the
  first of the best elements.
\<close>

definition scan_best :: "('k \<Rightarrow> 'k \<Rightarrow> bool) \<Rightarrow> ('a \<Rightarrow> 'k option) \<Rightarrow> ('a \<times> 'k) option \<Rightarrow> 'a \<Rightarrow> ('a \<times> 'k) option" where
  "scan_best better key best x = (case key x of None \<Rightarrow> best
     | Some k \<Rightarrow> (case best of None \<Rightarrow> Some (x, k) | Some (_, b) \<Rightarrow> if better k b then Some (x, k) else best))"

definition first_best :: "('k \<Rightarrow> 'k \<Rightarrow> bool) \<Rightarrow> ('a \<Rightarrow> 'k option) \<Rightarrow> 'a list \<Rightarrow> 'a \<Rightarrow> 'k \<Rightarrow> bool" where
  "first_best better key xs x k \<longleftrightarrow> (\<exists>ys zs. xs = ys @ x # zs \<and> key x = Some k \<and>
     (\<forall>y \<in> set ys. \<forall>k'. key y = Some k' \<longrightarrow> better k k') \<and> (\<forall>z \<in> set zs. \<forall>k'. key z = Some k' \<longrightarrow> \<not> better k' k))"

locale best_scan =
  fixes better :: "'k \<Rightarrow> 'k \<Rightarrow> bool"
  assumes trans: "better a b \<Longrightarrow> better b c \<Longrightarrow> better a c"
    and weak: "better a c \<Longrightarrow> better a b \<or> better b c"
    and asym: "better a b \<Longrightarrow> \<not> better b a"
begin

lemma scan_first_best:
  "case foldl (scan_best better key) None xs of None \<Rightarrow> \<forall>x \<in> set xs. key x = None | Some (x, k) \<Rightarrow> first_best better key xs x k"
proof (induction xs rule: rev_induct)
  case (snoc y xs)
  let ?f = "foldl (scan_best better key) None xs"
  have fx: "foldl (scan_best better key) None (xs @ [y]) = scan_best better key ?f y" by simp
  show ?case
  proof (cases "key y")
    case None
    show ?thesis
    proof (cases ?f)
      case (Some p)
      obtain x k where p: "p = (x, k)" by force
      with snoc Some obtain ys zs where "xs = ys @ x # zs" "key x = Some k" "\<forall>y \<in> set ys. \<forall>k'. key y = Some k' \<longrightarrow> better k k'"
        "\<forall>z \<in> set zs. \<forall>k'. key z = Some k' \<longrightarrow> \<not> better k' k" by (auto simp: first_best_def)
      then have "first_best better key (xs @ [y]) x k" unfolding first_best_def using None by (intro exI [of _ ys] exI [of _ "zs @ [y]"]) auto
      then show ?thesis unfolding fx Some p by (simp add: scan_best_def None)
    next
      case empty: None
      show ?thesis using snoc None unfolding fx empty by (simp add: scan_best_def)
    qed
  next
    case (Some k)
    show ?thesis
    proof (cases ?f)
      case None
      then have "first_best better key (xs @ [y]) y k" using snoc Some unfolding first_best_def by (intro exI [of _ xs] exI [of _ "[]"]) auto
      then show ?thesis unfolding fx None by (simp add: scan_best_def Some)
    next
      case f: (Some p)
      obtain x b where p: "p = (x, b)" by force
      with snoc f obtain ys zs where x: "xs = ys @ x # zs" "key x = Some b" "\<forall>y \<in> set ys. \<forall>k'. key y = Some k' \<longrightarrow> better b k'"
        "\<forall>z \<in> set zs. \<forall>k'. key z = Some k' \<longrightarrow> \<not> better k' b" by (auto simp: first_best_def)
      show ?thesis
      proof (cases "better k b")
        case True
        have "better k k'" if "z \<in> set xs" "key z = Some k'" for z k'
        proof -
          consider "z \<in> set ys" | "z = x" | "z \<in> set zs" using \<open>z \<in> set xs\<close> x(1) by auto
          then show ?thesis using x that(2) True trans [OF True] weak [OF True, of k'] by cases auto
        qed
        then have "first_best better key (xs @ [y]) y k" using Some unfolding first_best_def by (intro exI [of _ xs] exI [of _ "[]"]) auto
        then show ?thesis using True unfolding fx f p by (simp add: scan_best_def Some)
      next
        case False
        then have "first_best better key (xs @ [y]) x b" using x Some unfolding first_best_def by (intro exI [of _ ys] exI [of _ "zs @ [y]"]) auto
        then show ?thesis using False unfolding fx f p by (simp add: scan_best_def Some)
      qed
    qed
  qed
qed simp

lemma first_best_all:
  assumes "first_best better key xs x k"
  shows "x \<in> set xs" "key x = Some k" "\<And>y k'. y \<in> set xs \<Longrightarrow> key y = Some k' \<Longrightarrow> \<not> better k' k"
proof -
  from assms obtain ys zs where x: "xs = ys @ x # zs" "key x = Some k" "\<forall>y \<in> set ys. \<forall>k'. key y = Some k' \<longrightarrow> better k k'"
    "\<forall>z \<in> set zs. \<forall>k'. key z = Some k' \<longrightarrow> \<not> better k' k" by (auto simp: first_best_def)
  then show "x \<in> set xs" "key x = Some k" by auto
  show "\<not> better k' k" if "y \<in> set xs" "key y = Some k'" for y k'
  proof -
    consider "y \<in> set ys" | "y = x" | "y \<in> set zs" using \<open>y \<in> set xs\<close> x(1) by auto
    then show ?thesis using x \<open>key y = Some k'\<close> asym [of k k'] asym [of k' k'] by cases auto
  qed
qed

end

interpretation least: best_scan "(<) :: 'a::linorder \<Rightarrow> 'a \<Rightarrow> bool"
  by unfold_locales auto

interpretation greatest: best_scan "\<lambda>a b :: 'a::linorder. b < a"
  by unfold_locales auto

section \<open>Lists cut into pages of one size\<close>

lemma length_concat_uniform:
  "(\<And>xs. xs \<in> set xss \<Longrightarrow> length xs = m) \<Longrightarrow> length (concat xss) = length xss * m"
  by (induction xss) auto

lemma nth_concat_uniform:
  assumes "\<And>xs. xs \<in> set xss \<Longrightarrow> length xs = m" and "i < length xss * m"
  shows "concat xss ! i = xss ! (i div m) ! (i mod m)"
  using assms
proof (induction xss arbitrary: i)
  case Nil
  then show ?case by simp
next
  case (Cons xs xss)
  then have len: "length xs = m" by simp
  show ?case
  proof (cases "i < m")
    case True
    then show ?thesis using len by (simp add: nth_append)
  next
    case False
    then have "0 < m" "i - m < length xss * m" "i div m = Suc ((i - m) div m)" "i mod m = (i - m) mod m"
      using Cons.prems(2) by (cases "m = 0"; simp add: le_div_geq le_mod_geq)+
    with False Cons.IH [of "i - m"] Cons.prems(1) len show ?thesis by (simp add: nth_append)
  qed
qed

lemma concat_update_uniform:
  assumes "\<And>xs. xs \<in> set xss \<Longrightarrow> length xs = m" and "i < length xss * m"
  shows "concat (xss[i div m := (xss ! (i div m))[i mod m := v]]) = (concat xss)[i := v]"
  using assms
proof (induction xss arbitrary: i)
  case Nil
  then show ?case by simp
next
  case (Cons xs xss)
  then have len: "length xs = m" by simp
  show ?case
  proof (cases "i < m")
    case True
    then show ?thesis using len by (simp add: list_update_append)
  next
    case False
    then have "0 < m" "i - m < length xss * m" "i div m = Suc ((i - m) div m)" "i mod m = (i - m) mod m"
      using Cons.prems(2) by (cases "m = 0"; simp add: le_div_geq le_mod_geq)+
    with False Cons.IH [of "i - m"] Cons.prems(1) len show ?thesis by (simp add: list_update_append)
  qed
qed

section \<open>Loops that may panic\<close>

text \<open>A \<^verbatim>\<open>for\<close> loop over \<open>xs\<close> whose body may panic: \<open>None\<close> stops it.\<close>

fun for_each :: "('a \<Rightarrow> 's \<Rightarrow> 's option) \<Rightarrow> 'a list \<Rightarrow> 's \<Rightarrow> 's option" where
  "for_each f [] s = Some s"
| "for_each f (x # xs) s = Option.bind (f x s) (for_each f xs)"

lemma for_each_append: "for_each f (xs @ ys) s = Option.bind (for_each f xs s) (for_each f ys)"
  by (induction xs arbitrary: s) (auto split: bind_splits)

section \<open>Operation sequences\<close>

text \<open>
  \<open>run_ops\<close> applies a sequence of operations; \<open>ok_run\<close> says that every operation's guard
  holds in the state it is applied in. The locale lifts a one-step invariant to sequences; each
  stateful component interprets it on its own step function.
\<close>

fun run_ops :: "('s \<Rightarrow> 'op \<Rightarrow> 's) \<Rightarrow> 's \<Rightarrow> 'op list \<Rightarrow> 's" where
  "run_ops step s [] = s"
| "run_ops step s (x # xs) = run_ops step (step s x) xs"

fun ok_run :: "('s \<Rightarrow> 'op \<Rightarrow> 's) \<Rightarrow> ('s \<Rightarrow> 'op \<Rightarrow> bool) \<Rightarrow> 's \<Rightarrow> 'op list \<Rightarrow> bool" where
  "ok_run step pre s [] = True"
| "ok_run step pre s (x # xs) = (pre s x \<and> ok_run step pre (step s x) xs)"

lemma ok_run_True [simp]: "ok_run step (\<lambda>_ _. True) s xs"
  by (induction xs arbitrary: s) auto

lemma run_ops_append [simp]: "run_ops step s (xs @ ys) = run_ops step (run_ops step s xs) ys"
  by (induction xs arbitrary: s) auto

locale machine =
  fixes step :: "'s \<Rightarrow> 'op \<Rightarrow> 's"
    and pre :: "'s \<Rightarrow> 'op \<Rightarrow> bool"
    and inv :: "'s \<Rightarrow> bool"
  assumes step_inv: "inv s \<Longrightarrow> pre s x \<Longrightarrow> inv (step s x)"
begin

lemma run_inv: "inv s \<Longrightarrow> ok_run step pre s xs \<Longrightarrow> inv (run_ops step s xs)"
proof (induction xs arbitrary: s)
  case Nil
  then show ?case by simp
next
  case (Cons x xs)
  then have "inv (step s x)" by (auto intro: step_inv)
  with Cons show ?case by simp
qed

lemma run_keeps:
  assumes keep: "\<And>s x. inv s \<Longrightarrow> pre s x \<Longrightarrow> Q s \<Longrightarrow> Q (step s x)"
  shows "inv s \<Longrightarrow> ok_run step pre s xs \<Longrightarrow> Q s \<Longrightarrow> Q (run_ops step s xs)"
proof (induction xs arbitrary: s)
  case Nil
  then show ?case by simp
next
  case (Cons x xs)
  then have "inv (step s x)" and "Q (step s x)" by (auto intro: step_inv keep)
  with Cons show ?case by simp
qed

end

text \<open>The same for steps that could panic: a step that is defined wherever the invariant holds, and keeps it.\<close>

locale total_machine =
  fixes step :: "'op \<Rightarrow> 's \<Rightarrow> 's option"
    and ok :: "'op \<Rightarrow> bool"
    and inv :: "'s \<Rightarrow> bool"
  assumes total: "inv s \<Longrightarrow> ok x \<Longrightarrow> \<exists>s'. step x s = Some s' \<and> inv s'"
begin

lemma run_total: "inv s \<Longrightarrow> list_all ok xs \<Longrightarrow> \<exists>s'. for_each step xs s = Some s' \<and> inv s'"
proof (induction xs arbitrary: s)
  case (Cons x xs)
  from total [OF Cons.prems(1), of x] Cons.prems(2) obtain s1 where "step x s = Some s1" "inv s1" by auto
  with Cons.IH [of s1] Cons.prems(2) show ?case by simp
qed simp

lemma run_inv: "inv s \<Longrightarrow> list_all ok xs \<Longrightarrow> for_each step xs s = Some s' \<Longrightarrow> inv s'"
  using run_total [of s xs] by auto

end

end
