(* ===== verification/Bitmap.thy ===== *)
theory Bitmap
  imports Rheo_Prelude
begin

text \<open>
  The free-frame searches of \<^verbatim>\<open>kernel/src/mm/bitmap.rs\<close>: a set bit is an allocated frame, bit
  \<open>i\<close> is bit \<open>i mod 64\<close> of word \<open>i div 64\<close>. The word-at-a-time searches are proved equal to
  the bit-by-bit scans they replaced.
\<close>

section \<open>The searches\<close>

text \<open>\<open>u64::trailing_zeros\<close>: the index of the lowest set bit, the width for 0.\<close>

definition trailing_zeros :: "u64 \<Rightarrow> nat" where
  "trailing_zeros v = (case find (bit v) [0..<64] of None \<Rightarrow> 64 | Some i \<Rightarrow> i)"

definition low_mask :: "nat \<Rightarrow> u64" where
  "low_mask b = (if b \<ge> 64 then - 1 else push_bit b 1 - 1)"

function find_in_loop ::
  "u64 list \<Rightarrow> nat \<Rightarrow> nat \<Rightarrow> nat \<Rightarrow> nat \<Rightarrow> nat \<Rightarrow> nat option" where
  "find_in_loop words lo hi first lst w =
     (if w \<le> lst \<and> w < length words then
        let v0 = words ! w;
            v1 = (if w = first then v0 OR low_mask (lo - w * 64) else v0);
            v = (if w = lst then v1 OR NOT (low_mask (hi - w * 64)) else v1)
        in if v \<noteq> - 1 then Some (w * 64 + trailing_zeros (NOT v))
           else find_in_loop words lo hi first lst (w + 1)
      else None)"
  by pat_completeness auto
termination
  by (relation "measure (\<lambda>(words, lo, hi, first, lst, w). length words - w)") auto

definition find_in :: "u64 list \<Rightarrow> nat \<Rightarrow> nat \<Rightarrow> nat \<Rightarrow> nat option" where
  "find_in words nbits lo hi0 =
     (let hi = min hi0 nbits
      in if lo \<ge> hi then None
         else let first = lo div 64; lst = (hi - 1) div 64
              in find_in_loop words lo hi first lst first)"

definition find_from :: "u64 list \<Rightarrow> nat \<Rightarrow> nat \<Rightarrow> nat option" where
  "find_from words nbits from0 =
     (if nbits = 0 then None
      else let from = (if from0 \<ge> nbits then 0 else from0)
           in (case find_in words nbits from nbits of
                 Some i \<Rightarrow> Some i
               | None \<Rightarrow> find_in words nbits 0 from))"

function find_run_loop :: "u64 list \<Rightarrow> nat \<Rightarrow> nat \<Rightarrow> nat \<Rightarrow> nat \<Rightarrow> nat option" where
  "find_run_loop words nbits n run i =
     (if i < nbits then
        let w = i div 64; b = i mod 64
        in if w \<ge> length words then None
           else if words ! w AND push_bit b 1 \<noteq> 0 then find_run_loop words nbits n 0 (i + 1)
           else if run + 1 = n then Some (i + 1 - n)
           else find_run_loop words nbits n (run + 1) (i + 1)
      else None)"
  by pat_completeness auto
termination
  by (relation "measure (\<lambda>(words, nbits, n, run, i). nbits - i)") auto

definition find_run :: "u64 list \<Rightarrow> nat \<Rightarrow> nat \<Rightarrow> nat option" where
  "find_run words nbits n =
     (if n = 0 \<or> n > nbits then None else find_run_loop words nbits n 0 0)"

declare find_in_loop.simps [simp del] find_run_loop.simps [simp del]

section \<open>The bit-by-bit reference\<close>

text \<open>Frame \<open>i\<close> is allocated when its bit is set.\<close>

definition frame_bit :: "u64 list \<Rightarrow> nat \<Rightarrow> bool" where
  "frame_bit words i \<longleftrightarrow> bit (words ! (i div 64)) (i mod 64)"

definition free_bit :: "u64 list \<Rightarrow> nat \<Rightarrow> bool" where
  "free_bit words i \<longleftrightarrow> i < 64 * length words \<and> \<not> frame_bit words i"

definition find_in_ref :: "u64 list \<Rightarrow> nat \<Rightarrow> nat \<Rightarrow> nat \<Rightarrow> nat option" where
  "find_in_ref words nbits lo hi = find (free_bit words) [lo..<min hi nbits]"

definition run_free :: "u64 list \<Rightarrow> nat \<Rightarrow> nat \<Rightarrow> bool" where
  "run_free words s n \<longleftrightarrow> (\<forall>i \<in> {s..<s + n}. free_bit words i)"

section \<open>Word-level facts\<close>

lemma trailing_zeros_spec:
  assumes "v \<noteq> 0"
  shows "trailing_zeros v < 64" and "bit v (trailing_zeros v)"
    and "\<And>k. k < trailing_zeros v \<Longrightarrow> \<not> bit v k"
proof -
  from assms obtain k where "bit v k" by (metis bit_0_eq bit_eq_iff bot_apply bot_bool_def)
  then have "k < 64" using bit_imp_le_length by fastforce
  with \<open>bit v k\<close> have "find (bit v) [0..<64] \<noteq> None" by (auto simp: find_None_iff)
  then obtain i where i: "find (bit v) [0..<64] = Some i" by blast
  then have "trailing_zeros v = i" by (simp add: trailing_zeros_def)
  with i show "trailing_zeros v < 64" "bit v (trailing_zeros v)"
    "\<And>k. k < trailing_zeros v \<Longrightarrow> \<not> bit v k"
    by (auto simp: find_upt_Some)
qed

lemma bit_low_mask: "k < 64 \<Longrightarrow> bit (low_mask b) k \<longleftrightarrow> k < b"
proof -
  assume k: "k < 64"
  have "push_bit b 1 - 1 = (mask b :: u64)" by (simp add: mask_eq_decr_exp push_bit_eq_mult)
  with k show ?thesis by (auto simp: low_mask_def bit_mask_iff bit_simps)
qed

lemma not_all_ones_iff: "(v :: u64) \<noteq> - 1 \<longleftrightarrow> (\<exists>k < 64. \<not> bit v k)"
proof -
  have "v = - 1 \<longleftrightarrow> (\<forall>k < 64. bit v k)"
    by (auto simp: bit_eq_iff bit_minus_1_iff)
  then show ?thesis by blast
qed

lemma bit_test_word: "k < 64 \<Longrightarrow> (x AND push_bit k 1 \<noteq> (0 :: u64)) \<longleftrightarrow> bit x k"
  by (simp add: bit_iff_and_push_bit_not_eq_0)

section \<open>find\_in\<close>

text \<open>The bits a word of the walk can return are exactly its candidates.\<close>

lemma find_in_word:
  assumes "lo < hi" and "first = lo div 64" and "lst = (hi - 1) div 64"
    and "first \<le> w" and "w \<le> lst" and "w < length words" and "k < 64"
  defines "v \<equiv> (let v0 = words ! w;
            v1 = (if w = first then v0 OR low_mask (lo - w * 64) else v0)
        in if w = lst then v1 OR NOT (low_mask (hi - w * 64)) else v1)"
  shows "\<not> bit v k \<longleftrightarrow> lo \<le> w * 64 + k \<and> w * 64 + k < hi \<and> free_bit words (w * 64 + k)"
proof -
  have lo: "lo \<le> w * 64 + k \<longleftrightarrow> \<not> (w = first \<and> k < lo - w * 64)"
    using assms(1-7) by (cases "w = first") (auto, linarith)
  have hi: "w * 64 + k < hi \<longleftrightarrow> \<not> (w = lst \<and> \<not> k < hi - w * 64)"
    using assms(1-7) by (cases "w = lst") (auto, linarith+)
  have fb: "free_bit words (w * 64 + k) \<longleftrightarrow> \<not> bit (words ! w) k"
    using assms(6,7) by (auto simp: free_bit_def frame_bit_def)
  show ?thesis
    using \<open>k < 64\<close>
    by (auto simp: v_def Let_def lo hi fb bit_or_iff bit_not_iff bit_low_mask)
qed

lemma find_upt_skip:
  assumes "a \<le> b" and "\<And>i. a \<le> i \<Longrightarrow> i < b \<Longrightarrow> i < c \<Longrightarrow> \<not> P i"
  shows "find P [a..<c] = find P [b..<c]"
proof (cases "find P [b..<c]")
  case None
  with assms have "find P [a..<c] = None"
    unfolding find_upt_None by (metis not_less)
  with None show ?thesis by simp
next
  case (Some i)
  with assms have "find P [a..<c] = Some i"
    unfolding find_upt_Some by (metis le_trans less_trans not_less)
  with Some show ?thesis by simp
qed

lemma find_in_loop_spec:
  assumes "lo < hi" and "first = lo div 64" and "lst = (hi - 1) div 64" and "first \<le> w"
  shows "find_in_loop words lo hi first lst w = find (free_bit words) [max lo (w * 64)..<hi]"
  using assms(4)
proof (induction "length words - w" arbitrary: w rule: less_induct)
  case less
  let ?v = "let v0 = words ! w;
            v1 = (if w = first then v0 OR low_mask (lo - w * 64) else v0)
        in if w = lst then v1 OR NOT (low_mask (hi - w * 64)) else v1"
  let ?from = "max lo (w * 64)"
  show ?case
  proof (cases "w \<le> lst \<and> w < length words")
    case False
    have "\<not> free_bit words i" if "?from \<le> i" "i < hi" for i
    proof -
      have "i div 64 \<le> lst" using assms(3) that(2) by (simp add: div_le_mono)
      moreover have "w \<le> i div 64" using that(1) by auto
      ultimately have "length words \<le> i div 64" using False by linarith
      then show ?thesis by (auto simp: free_bit_def)
    qed
    then have "find (free_bit words) [?from..<hi] = None" by (simp add: find_upt_None)
    moreover have "find_in_loop words lo hi first lst w = None"
      using False by (subst find_in_loop.simps) (simp only: if_False)
    ultimately show ?thesis by simp
  next
    case True
    have cand: "\<not> bit ?v k \<longleftrightarrow> lo \<le> w * 64 + k \<and> w * 64 + k < hi \<and> free_bit words (w * 64 + k)"
      if "k < 64" for k
      using assms less.prems True that by (intro find_in_word) auto
    have offset: "w * 64 + (i - w * 64) = i \<and> i - w * 64 < 64" if "w * 64 \<le> i" "i < w * 64 + 64" for i
      using that by auto
    show ?thesis
    proof (cases "?v = - 1")
      case False
      let ?t = "trailing_zeros (NOT ?v)"
      from False have "NOT ?v \<noteq> 0" by (metis bit.compl_zero bit.double_compl)
      then have t: "?t < 64" "\<not> bit ?v ?t" "\<And>k. k < ?t \<Longrightarrow> bit ?v k"
        using trailing_zeros_spec [of "NOT ?v"] by (auto simp: bit_not_iff)
      have "\<not> free_bit words j" if "?from \<le> j" "j < w * 64 + ?t" for j
        using cand [of "j - w * 64"] t(3) [of "j - w * 64"] t cand [of ?t] that by auto
      then have "find (free_bit words) [?from..<hi] = Some (w * 64 + ?t)"
        using cand [OF t(1)] t(2) by (auto simp: find_upt_Some)
      moreover have "find_in_loop words lo hi first lst w = Some (w * 64 + ?t)"
        using True False by (simp add: find_in_loop.simps [of words lo hi first lst w] Let_def)
      ultimately show ?thesis by simp
    next
      case all: True
      then have none: "\<not> free_bit words j" if "?from \<le> j" "j < (w + 1) * 64" "j < hi" for j
        using cand [of "j - w * 64"] offset [of j] that by (auto simp: bit_minus_1_iff)
      have "find_in_loop words lo hi first lst w = find_in_loop words lo hi first lst (w + 1)"
        using True all by (simp add: find_in_loop.simps [of words lo hi first lst w] Let_def)
      also have "\<dots> = find (free_bit words) [max lo ((w + 1) * 64)..<hi]"
        using less.hyps [of "w + 1"] less.prems True by (simp add: diff_less_mono2)
      also have "\<dots> = find (free_bit words) [?from..<hi]"
        using none by (intro find_upt_skip [symmetric]) (auto simp: max_def split: if_splits)
      finally show ?thesis .
    qed
  qed
qed

lemma find_in_correct: "find_in words nbits lo hi = find_in_ref words nbits lo hi"
proof (cases "lo < min hi nbits")
  case True
  have "max lo (lo div 64 * 64) = lo" by simp
  with True show ?thesis
    by (simp add: find_in_def find_in_ref_def Let_def find_in_loop_spec not_le)
next
  case False
  then have "min hi nbits \<le> lo" by arith
  then show ?thesis by (simp add: find_in_def find_in_ref_def Let_def)
qed

lemma find_in_Some:
  "find_in words nbits lo hi = Some i \<longleftrightarrow>
     lo \<le> i \<and> i < hi \<and> i < nbits \<and> free_bit words i \<and> (\<forall>j. lo \<le> j \<and> j < i \<longrightarrow> \<not> free_bit words j)"
  by (auto simp: find_in_correct find_in_ref_def find_upt_Some)

lemma find_in_None:
  "find_in words nbits lo hi = None \<longleftrightarrow>
     (\<forall>i. lo \<le> i \<and> i < hi \<and> i < nbits \<longrightarrow> \<not> free_bit words i)"
  by (auto simp: find_in_correct find_in_ref_def find_upt_None)

section \<open>find\_from\<close>

lemma find_from_Some_free: "find_from words nbits h = Some i \<Longrightarrow> i < nbits \<and> free_bit words i"
  by (auto simp: find_from_def Let_def find_in_Some split: if_splits option.splits)

lemma find_from_None_iff: "find_from words nbits h = None \<longleftrightarrow> (\<forall>i < nbits. \<not> free_bit words i)"
proof -
  define f where "f = (if h \<ge> nbits then 0 else h)"
  have "find_from words nbits h = None \<longleftrightarrow>
    nbits = 0 \<or> find_in words nbits f nbits = None \<and> find_in words nbits 0 f = None"
    by (auto simp: find_from_def Let_def f_def split: option.splits)
  also have "\<dots> \<longleftrightarrow> (\<forall>i < nbits. \<not> free_bit words i)"
    unfolding find_in_None by (metis less_nat_zero_code not_less zero_le)
  finally show ?thesis .
qed

section \<open>find\_run\<close>

lemma run_free_member: "run_free words s n \<Longrightarrow> s \<le> i \<Longrightarrow> i < s + n \<Longrightarrow> free_bit words i"
  by (simp add: run_free_def)

lemma find_run_loop_spec:
  assumes "run < n" and "run \<le> i" and "run_free words (i - run) run"
  shows "find_run_loop words nbits n run i =
    find (\<lambda>s. run_free words s n) [i - run..<nbits + 1 - n]"
  using assms
proof (induction words nbits n run i rule: find_run_loop.induct)
  case (1 words nbits n run i)
  note unfold = find_run_loop.simps [of words nbits n run i]
  consider (ended) "nbits \<le> i" | (off) "i < nbits" "length words \<le> i div 64"
    | (used) "i < nbits" "i div 64 < length words" "frame_bit words i"
    | (free) "i < nbits" "i div 64 < length words" "\<not> frame_bit words i" by linarith
  then show ?case
  proof cases
    case ended
    then have "nbits + 1 - n \<le> i - run" using "1.prems" by simp
    then have "find (\<lambda>s. run_free words s n) [i - run..<nbits + 1 - n] = None"
      by (simp add: find_upt_None)
    with ended show ?thesis by (simp add: unfold)
  next
    case off
    have "\<not> run_free words s n" if "i - run \<le> s" for s
    proof -
      have "\<not> free_bit words (max i s)"
        using off by (auto simp: free_bit_def max_def)
      moreover have "s \<le> max i s" "max i s < s + n" using that "1.prems" by auto
      ultimately show ?thesis using run_free_member by blast
    qed
    then have "find (\<lambda>s. run_free words s n) [i - run..<nbits + 1 - n] = None"
      by (simp add: find_upt_None)
    with off show ?thesis by (simp add: unfold Let_def)
  next
    case used
    then have test: "words ! (i div 64) AND push_bit (i mod 64) 1 \<noteq> 0"
      using bit_test_word [of "i mod 64" "words ! (i div 64)"] by (simp add: frame_bit_def)
    have "find_run_loop words nbits n run i = find_run_loop words nbits n 0 (i + 1)"
      using used test by (simp add: unfold Let_def)
    also have "\<dots> = find (\<lambda>s. run_free words s n) [i + 1..<nbits + 1 - n]"
      using "1.IH"(1) [OF used(1) refl refl _ test] used(2) "1.prems" by (simp add: run_free_def)
    also have "\<dots> = find (\<lambda>s. run_free words s n) [i - run..<nbits + 1 - n]"
    proof (rule find_upt_skip [symmetric])
      fix s assume "i - run \<le> s" "s < i + 1"
      then have "s \<le> i" "i < s + n" using "1.prems" by auto
      moreover have "\<not> free_bit words i" using used by (simp add: free_bit_def)
      ultimately show "\<not> run_free words s n" using run_free_member by blast
    qed simp
    finally show ?thesis .
  next
    case free
    then have test: "\<not> words ! (i div 64) AND push_bit (i mod 64) 1 \<noteq> 0"
      using bit_test_word [of "i mod 64" "words ! (i div 64)"] by (simp add: frame_bit_def)
    have fi: "free_bit words i" using free by (auto simp: free_bit_def)
    have "{i - run..<i - run + (run + 1)} = insert i {i - run..<i - run + run}"
      using "1.prems" by auto
    then have grown: "run_free words (i - run) (run + 1)"
      using "1.prems"(3) fi by (simp add: run_free_def)
    show ?thesis
    proof (cases "run + 1 = n")
      case True
      then have "find (\<lambda>s. run_free words s n) [i - run..<nbits + 1 - n] = Some (i - run)"
        using grown free "1.prems" by (auto simp: find_upt_Some)
      moreover have "i + 1 - n = i - run" using True by auto
      ultimately show ?thesis using free test True by (simp add: unfold Let_def)
    next
      case False
      then have "run + 1 < n" using "1.prems" by simp
      moreover have "i + 1 - (run + 1) = i - run" by simp
      ultimately have "find_run_loop words nbits n (run + 1) (i + 1) =
          find (\<lambda>s. run_free words s n) [i - run..<nbits + 1 - n]"
        using "1.IH"(2) [OF free(1) refl refl _ test False] free(2) grown "1.prems" by simp
      with free test False show ?thesis by (simp add: unfold Let_def)
    qed
  qed
qed

lemma find_run_correct:
  "0 < n \<Longrightarrow> find_run words nbits n = find (\<lambda>s. run_free words s n) [0..<nbits + 1 - n]"
  by (auto simp: find_run_def find_run_loop_spec run_free_def)

lemma find_run_Some:
  "find_run words nbits n = Some s \<longleftrightarrow>
     0 < n \<and> s + n \<le> nbits \<and> run_free words s n \<and> (\<forall>t < s. \<not> run_free words t n)"
proof (cases "n = 0")
  case True
  then show ?thesis by (simp add: find_run_def)
next
  case False
  then show ?thesis by (auto simp: find_run_correct find_upt_Some)
qed

section \<open>Properties\<close>

text \<open>
  C39: the word-at-a-time search \<^verbatim>\<open>find_in\<close> returns exactly what the bit-by-bit
  scan returns, for every bitmap, size and range: the lowest free bit of \<open>[lo, hi)\<close> that is below
  \<open>nbits\<close> and inside the words. No free bit is missed and none outside the range is returned.
\<close>

theorem find_in_is_reference: "find_in words nbits lo hi = find_in_ref words nbits lo hi"
  by (rule find_in_correct)

text \<open>
  \<^verbatim>\<open>find_from\<close> is the cyclic search: the first free bit at or after the
  hint, else the first free bit below it; a hint past the end starts at 0.
\<close>

theorem find_from_is_cyclic:
  "find_from words nbits h =
    (let from = (if nbits \<le> h then 0 else h)
     in (case find (free_bit words) [from..<nbits] of
           Some i \<Rightarrow> Some i
         | None \<Rightarrow> find (free_bit words) [0..<from]))"
proof -
  have "min (if nbits \<le> h then 0 else h) nbits = (if nbits \<le> h then 0 else h)" by auto
  then show ?thesis
    by (auto simp: find_from_def find_in_correct find_in_ref_def Let_def split: option.splits)
qed

text \<open>
  \<^verbatim>\<open>find_run\<close> is first fit: it returns \<open>s\<close> exactly when \<open>s\<close> is the lowest
  start of \<open>n > 0\<close> free bits that end by \<open>nbits\<close>; it returns nothing exactly when no such run exists.
\<close>

theorem find_run_first_fit:
  "find_run words nbits n =
    (if n = 0 then None else find (\<lambda>s. run_free words s n) [0..<nbits + 1 - n])"
  by (cases "n = 0") (simp_all add: find_run_correct, simp add: find_run_def)

end
