(* ===== verification/Frames.thy ===== *)
theory Frames
  imports Bitmap
begin

text \<open>
  The physical frame allocator of \<^verbatim>\<open>kernel/src/mm/frames.rs\<close>: the bitmap, the reference counts,
  the used counter, the rotating hint and the NUMA ranges as one record, with the lock-held
  primitives and the public operations as state transformers. Each public operation runs one
  primitive under the pool lock (the uncontended arm of \<^verbatim>\<open>fc_run\<close>); the flat-combining batch
  executes the same primitives. The outer option is a panic (\<open>None\<close>), so the asserts of the
  source are branches of the model. \<^verbatim>\<open>arch::FRAME_POOL_BASE\<close> differs per ISA and is the field
  \<open>FRAME_POOL_BASE\<close>.
\<close>

section \<open>State\<close>

definition FRAME_SIZE :: nat where "FRAME_SIZE = 4096"
definition POOL_FRAMES :: nat where "POOL_FRAMES = 131072"
definition MAX_NUMA_NODES :: nat where "MAX_NUMA_NODES = 8"
definition NODE_ANY :: nat where "NODE_ANY = 255"
definition SHARE_MAX :: nat where "SHARE_MAX = 255"
definition USER_RESERVE_FRAMES :: nat where "USER_RESERVE_FRAMES = 4096"

record pool =
  FRAME_POOL_BASE :: nat
  BITMAP :: "u64 list"
  NEXT_HINT :: nat
  INITIALIZED :: bool
  NODE_RANGE :: "(nat \<times> nat) list"
  NODES_KNOWN :: nat
  FALLBACKS :: nat
  REFS :: "nat list"
  USED :: nat
  RAM :: "nat \<Rightarrow> u8"

definition pool_new :: "nat \<Rightarrow> pool" where
  "pool_new base = \<lparr> FRAME_POOL_BASE = base, BITMAP = replicate (POOL_FRAMES div 64) 0, NEXT_HINT = 0,
     INITIALIZED = False, NODE_RANGE = replicate MAX_NUMA_NODES (0, 0), NODES_KNOWN = 0,
     FALLBACKS = 0, REFS = replicate POOL_FRAMES 0, USED = 0, RAM = (\<lambda>_. 0) \<rparr>"

text \<open>\<^verbatim>\<open>init\<close> panics when the kernel image overlaps the pool.\<close>

definition frames_init :: "nat \<Rightarrow> pool \<Rightarrow> pool option" where
  "frames_init kernel_end p =
     (if kernel_end \<le> FRAME_POOL_BASE p then Some (p\<lparr>INITIALIZED := True\<rparr>) else None)"

section \<open>NUMA ranges\<close>

datatype mem_kind = Ram | Reserved_mem | AcpiReclaim | AcpiNvs | Pmem

record mem_region =
  mr_base :: nat
  mr_len :: nat
  mr_kind :: mem_kind
  mr_node :: nat

text \<open>One region of the RAM map widens the range of its node.\<close>

definition widen_node :: "nat \<Rightarrow> nat \<Rightarrow> (nat \<times> nat) list \<Rightarrow> mem_region \<Rightarrow> (nat \<times> nat) list" where
  "widen_node pool_lo pool_hi ranges r =
     (if mr_kind r \<noteq> Ram \<or> mr_node r \<ge> length ranges then ranges
      else let lo = max (mr_base r) pool_lo; hi = min (mr_base r + mr_len r) pool_hi
           in if lo \<ge> hi then ranges
              else let flo = (lo - pool_lo) div FRAME_SIZE; fhi = (hi - pool_lo) div FRAME_SIZE;
                       e = ranges ! mr_node r
                   in if fst e = snd e then ranges[mr_node r := (flo, fhi)]
                      else ranges[mr_node r := (min (fst e) flo, max (snd e) fhi)])"

definition ranges_clash :: "(nat \<times> nat) \<Rightarrow> (nat \<times> nat) \<Rightarrow> bool" where
  "ranges_clash x y \<longleftrightarrow> fst x < snd x \<and> fst y < snd y \<and> fst x < snd y \<and> fst y < snd x"

definition any_clash :: "(nat \<times> nat) list \<Rightarrow> bool" where
  "any_clash ranges \<longleftrightarrow>
     (\<exists>a \<in> set [0..<length ranges]. \<exists>b \<in> set [Suc a..<length ranges].
        ranges_clash (ranges ! a) (ranges ! b))"

definition init_numa :: "nat \<Rightarrow> mem_region list \<Rightarrow> pool \<Rightarrow> pool" where
  "init_numa nnodes mem p =
     (if nnodes < 2 then p
      else let pool_lo = FRAME_POOL_BASE p; pool_hi = pool_lo + POOL_FRAMES * FRAME_SIZE;
               ranges = foldl (widen_node pool_lo pool_hi) (NODE_RANGE p) mem
           in if any_clash ranges then p\<lparr>NODE_RANGE := replicate MAX_NUMA_NODES (0, 0)\<rparr>
              else p\<lparr>NODE_RANGE := ranges, NODES_KNOWN := nnodes\<rparr>)"

definition node_range :: "pool \<Rightarrow> nat \<Rightarrow> nat \<times> nat" where
  "node_range p node =
     (case nth_opt (NODE_RANGE p) node of Some r \<Rightarrow> r | None \<Rightarrow> (0, 0))"

definition in_pool :: "pool \<Rightarrow> nat \<Rightarrow> bool" where
  "in_pool p pa \<longleftrightarrow> pa \<ge> FRAME_POOL_BASE p \<and>
     (let offset = pa - FRAME_POOL_BASE p
      in offset mod FRAME_SIZE = 0 \<and> offset div FRAME_SIZE < POOL_FRAMES)"

definition frame_of :: "pool \<Rightarrow> nat \<Rightarrow> nat" where
  "frame_of p pa = (pa - FRAME_POOL_BASE p) div FRAME_SIZE"

definition pa_of :: "pool \<Rightarrow> nat \<Rightarrow> nat" where
  "pa_of p frame = FRAME_POOL_BASE p + frame * FRAME_SIZE"

definition node_of :: "pool \<Rightarrow> nat \<Rightarrow> nat" where
  "node_of p pa0 =
     (let pa = pa0 - pa0 mod FRAME_SIZE
      in if \<not> in_pool p pa then NODE_ANY
         else let frame = frame_of p pa
              in (case find_idx (\<lambda>(lo, hi). lo < hi \<and> frame \<ge> lo \<and> frame < hi) (NODE_RANGE p) of
                    Some n \<Rightarrow> n | None \<Rightarrow> NODE_ANY))"

definition node_free :: "pool \<Rightarrow> nat \<Rightarrow> nat" where
  "node_free p node =
     (let (lo, hi) = node_range p node
      in length (filter (\<lambda>f. BITMAP p ! (f div 64) AND push_bit (f mod 64) 1 = 0)
           [lo..<min hi POOL_FRAMES]))"

section \<open>Lock-held primitives\<close>

definition set_frame_bit :: "u64 list \<Rightarrow> nat \<Rightarrow> u64 list" where
  "set_frame_bit ws f = ws[f div 64 := ws ! (f div 64) OR push_bit (f mod 64) 1]"

definition clear_frame_bit :: "u64 list \<Rightarrow> nat \<Rightarrow> u64 list" where
  "clear_frame_bit ws f = ws[f div 64 := ws ! (f div 64) AND NOT (push_bit (f mod 64) 1)]"

definition zero_frames :: "nat \<Rightarrow> nat \<Rightarrow> pool \<Rightarrow> pool" where
  "zero_frames pa n p =
     p\<lparr>RAM := (\<lambda>a. if pa \<le> a \<and> a < pa + n * FRAME_SIZE then 0 else RAM p a)\<rparr>"

definition claim_hinted :: "pool \<Rightarrow> (pool \<times> nat option) option" where
  "claim_hinted p =
     (if \<not> INITIALIZED p then None
      else case find_from (BITMAP p) POOL_FRAMES (NEXT_HINT p) of
             None \<Rightarrow> Some (p, None)
           | Some frame \<Rightarrow>
               Some (p\<lparr>BITMAP := set_frame_bit (BITMAP p) frame,
                       REFS := (REFS p)[frame := 1],
                       USED := USED p + 1,
                       NEXT_HINT := frame + 1\<rparr>, Some (pa_of p frame)))"

definition claim_in :: "nat \<Rightarrow> nat \<Rightarrow> pool \<Rightarrow> (pool \<times> nat option) option" where
  "claim_in lo hi p =
     (if \<not> INITIALIZED p then None
      else case find_in (BITMAP p) POOL_FRAMES lo hi of
             None \<Rightarrow> Some (p, None)
           | Some frame \<Rightarrow>
               Some (p\<lparr>BITMAP := set_frame_bit (BITMAP p) frame,
                       REFS := (REFS p)[frame := 1],
                       USED := USED p + 1\<rparr>, Some (pa_of p frame)))"

definition claim_on :: "nat \<Rightarrow> pool \<Rightarrow> (pool \<times> nat option) option" where
  "claim_on node p =
     (let (lo, hi) = node_range p node
      in if lo < hi then
           case claim_in lo hi p of
             None \<Rightarrow> None
           | Some (p', Some pa) \<Rightarrow> Some (p', Some pa)
           | Some (p', None) \<Rightarrow> claim_hinted (p'\<lparr>FALLBACKS := FALLBACKS p' + 1\<rparr>)
         else claim_hinted p)"

definition frame_release :: "nat \<Rightarrow> pool \<Rightarrow> pool option" where
  "frame_release pa p =
     (let frame = frame_of p pa
      in if BITMAP p ! (frame div 64) AND push_bit (frame mod 64) 1 = 0 then None
         else let n = REFS p ! frame - 1; p' = p\<lparr>REFS := (REFS p)[frame := n]\<rparr>
              in if n \<noteq> 0 then Some p'
                 else Some (p'\<lparr>BITMAP := clear_frame_bit (BITMAP p) frame, USED := USED p - 1\<rparr>))"

definition add_ref :: "nat \<Rightarrow> pool \<Rightarrow> pool \<times> bool" where
  "add_ref pa p =
     (let frame = frame_of p pa; n = REFS p ! frame
      in if n = 0 \<or> n = SHARE_MAX then (p, False)
         else (p\<lparr>REFS := (REFS p)[frame := n + 1]\<rparr>, True))"

definition ref_count :: "nat \<Rightarrow> pool \<Rightarrow> nat" where
  "ref_count pa p = REFS p ! frame_of p pa"

datatype cow = Sole | Private nat | NoFrame

definition cow_claim_typed :: "nat \<Rightarrow> pool \<Rightarrow> (pool \<times> cow) option" where
  "cow_claim_typed pa p =
     (if ref_count pa p \<le> 1 then Some (p, Sole)
      else case claim_hinted p of
             None \<Rightarrow> None
           | Some (p', None) \<Rightarrow> Some (p', NoFrame)
           | Some (p', Some dst) \<Rightarrow> Some (p', Private dst))"

section \<open>Public operations\<close>

definition frames_alloc :: "pool \<Rightarrow> (pool \<times> nat option) option" where
  "frames_alloc p =
     (case claim_hinted p of
        None \<Rightarrow> None
      | Some (p', None) \<Rightarrow> Some (p', None)
      | Some (p', Some pa) \<Rightarrow> Some (zero_frames pa 1 p', Some pa))"

definition alloc_on :: "nat \<Rightarrow> pool \<Rightarrow> (pool \<times> nat option) option" where
  "alloc_on node p =
     (if node = NODE_ANY then frames_alloc p
      else case claim_on node p of
             None \<Rightarrow> None
           | Some (p', None) \<Rightarrow> Some (p', None)
           | Some (p', Some pa) \<Rightarrow> Some (zero_frames pa 1 p', Some pa))"

definition mark_one :: "pool \<Rightarrow> nat \<Rightarrow> pool" where
  "mark_one p f = p\<lparr>BITMAP := set_frame_bit (BITMAP p) f, REFS := (REFS p)[f := 1]\<rparr>"

definition claim_run :: "nat \<Rightarrow> nat \<Rightarrow> pool \<Rightarrow> pool" where
  "claim_run first n p = foldl mark_one p [first..<first + n]"

definition alloc_contig :: "nat \<Rightarrow> pool \<Rightarrow> (pool \<times> nat option) option" where
  "alloc_contig n p =
     (if n = 0 \<or> n > POOL_FRAMES then Some (p, None)
      else if \<not> INITIALIZED p then None
      else case find_run (BITMAP p) POOL_FRAMES n of
             None \<Rightarrow> Some (p, None)
           | Some first \<Rightarrow>
               let p' = claim_run first n p; pa = pa_of p first
               in Some (zero_frames pa n (p'\<lparr>USED := USED p' + n\<rparr>), Some pa))"

definition frames_stats :: "pool \<Rightarrow> nat \<times> nat" where
  "frames_stats p = (POOL_FRAMES - USED p, POOL_FRAMES)"

definition user_available :: "pool \<Rightarrow> nat" where
  "user_available p = fst (frames_stats p) - USER_RESERVE_FRAMES"

definition count_ones :: "u64 \<Rightarrow> nat" where
  "count_ones w = length (filter (bit w) [0..<64])"

definition used_matches_bitmap :: "pool \<Rightarrow> bool" where
  "used_matches_bitmap p \<longleftrightarrow> sum_list (map count_ones (BITMAP p)) = USED p"

definition frames_free :: "nat \<Rightarrow> pool \<Rightarrow> pool option" where
  "frames_free pa p = (if \<not> in_pool p pa then None else frame_release pa p)"

definition free_if_pool :: "nat \<Rightarrow> pool \<Rightarrow> (pool \<times> bool) option" where
  "free_if_pool pa p =
     (if \<not> in_pool p pa then Some (p, False) else map_option (\<lambda>p'. (p', True)) (frames_free pa p))"

definition frames_share :: "nat \<Rightarrow> pool \<Rightarrow> pool \<times> bool" where
  "frames_share pa p = (if \<not> in_pool p pa then (p, False) else add_ref pa p)"

definition cow_resolve :: "nat \<Rightarrow> pool \<Rightarrow> (pool \<times> cow) option" where
  "cow_resolve pa p = (if \<not> in_pool p pa then Some (p, Sole) else cow_claim_typed pa p)"

definition frames_refs :: "pool \<Rightarrow> nat \<Rightarrow> nat" where
  "frames_refs p pa = (if \<not> in_pool p pa then 0 else ref_count pa p)"

section \<open>Invariant\<close>

text \<open>
  The bitmap, the counts and the used counter are one data structure: a frame is marked exactly
  when it has a reference, and the counter is the number of marked frames.
\<close>

definition allocated :: "pool \<Rightarrow> nat set" where
  "allocated p = {f. f < POOL_FRAMES \<and> frame_bit (BITMAP p) f}"

definition pool_inv :: "pool \<Rightarrow> bool" where
  "pool_inv p \<longleftrightarrow> INITIALIZED p \<and> length (BITMAP p) = POOL_FRAMES div 64 \<and> length (REFS p) = POOL_FRAMES \<and>
     0 < FRAME_POOL_BASE p \<and>
     (\<forall>f < POOL_FRAMES. frame_bit (BITMAP p) f \<longleftrightarrow> 0 < REFS p ! f) \<and>
     (\<forall>f < POOL_FRAMES. REFS p ! f \<le> SHARE_MAX) \<and>
     USED p = card (allocated p)"

lemma pool_consts: "64 * (POOL_FRAMES div 64) = POOL_FRAMES" "0 < POOL_FRAMES" "0 < FRAME_SIZE"
  "0 < SHARE_MAX"
  by (simp_all add: POOL_FRAMES_def FRAME_SIZE_def SHARE_MAX_def)

lemma finite_allocated [simp]: "finite (allocated p)"
  by (simp add: allocated_def)

lemma pool_invD:
  assumes "pool_inv p"
  shows "INITIALIZED p" "64 * length (BITMAP p) = POOL_FRAMES" "length (REFS p) = POOL_FRAMES"
    "f < POOL_FRAMES \<Longrightarrow> frame_bit (BITMAP p) f \<longleftrightarrow> 0 < REFS p ! f"
    "f < POOL_FRAMES \<Longrightarrow> REFS p ! f \<le> SHARE_MAX"
    "USED p = card (allocated p)" "0 < FRAME_POOL_BASE p"
  using assms pool_consts(1) by (auto simp: pool_inv_def)

lemma bit_push_one: "k < 64 \<Longrightarrow> bit (push_bit k 1 :: u64) j \<longleftrightarrow> j = k"
  by (auto simp: bit_exp_iff)

lemma frame_bit_set:
  "f < 64 * length ws \<Longrightarrow> frame_bit (set_frame_bit ws f) g \<longleftrightarrow> g = f \<or> frame_bit ws g"
proof -
  assume f: "f < 64 * length ws"
  show ?thesis
  proof (cases "g div 64 = f div 64")
    case True
    then have "g mod 64 = f mod 64 \<longleftrightarrow> g = f" by (metis div_mult_mod_eq)
    with True f show ?thesis
      by (auto simp: frame_bit_def set_frame_bit_def bit_or_iff bit_push_one simp del: push_bit_of_1)
  next
    case False
    then show ?thesis by (auto simp: frame_bit_def set_frame_bit_def)
  qed
qed

lemma frame_bit_clear:
  "f < 64 * length ws \<Longrightarrow> frame_bit (clear_frame_bit ws f) g \<longleftrightarrow> g \<noteq> f \<and> frame_bit ws g"
proof -
  assume f: "f < 64 * length ws"
  show ?thesis
  proof (cases "g div 64 = f div 64")
    case True
    then have "g mod 64 = f mod 64 \<longleftrightarrow> g = f" by (metis div_mult_mod_eq)
    with True f show ?thesis
      by (auto simp: frame_bit_def clear_frame_bit_def bit_and_iff bit_not_iff bit_push_one
          simp del: push_bit_of_1)
  next
    case False
    then show ?thesis by (auto simp: frame_bit_def clear_frame_bit_def)
  qed
qed

lemma length_set_frame_bit [simp]: "length (set_frame_bit ws f) = length ws"
  by (simp add: set_frame_bit_def)

lemma length_clear_frame_bit [simp]: "length (clear_frame_bit ws f) = length ws"
  by (simp add: clear_frame_bit_def)

text \<open>Marking a free frame with one reference, and unmarking one with its last, keep the invariant.\<close>

lemma pool_inv_claim:
  assumes "pool_inv p" and "f < POOL_FRAMES" and "\<not> frame_bit (BITMAP p) f"
    and "BITMAP q = set_frame_bit (BITMAP p) f" and "REFS q = (REFS p)[f := 1]"
    and "USED q = USED p + 1" and "INITIALIZED q" and "FRAME_POOL_BASE q = FRAME_POOL_BASE p"
  shows "pool_inv q" and "allocated q = insert f (allocated p)"
proof -
  note inv = pool_invD [OF assms(1)]
  have bits: "frame_bit (BITMAP q) g \<longleftrightarrow> g = f \<or> frame_bit (BITMAP p) g" for g
    using assms(2,4) inv(2) by (simp add: frame_bit_set)
  then show al: "allocated q = insert f (allocated p)"
    using assms(2) by (auto simp: allocated_def)
  have "f \<notin> allocated p" using assms(3) by (simp add: allocated_def)
  then have "USED q = card (allocated q)" using al assms(6) inv(6) by simp
  then show "pool_inv q"
    using assms bits inv(3) pool_consts by (auto simp: pool_inv_def nth_list_update)
qed

lemma pool_inv_unclaim:
  assumes "pool_inv p" and "f < POOL_FRAMES" and "REFS p ! f = 1"
    and "BITMAP q = clear_frame_bit (BITMAP p) f" and "REFS q = (REFS p)[f := 0]"
    and "USED q = USED p - 1" and "INITIALIZED q" and "FRAME_POOL_BASE q = FRAME_POOL_BASE p"
  shows "pool_inv q" and "allocated q = allocated p - {f}"
proof -
  note inv = pool_invD [OF assms(1)]
  have bits: "frame_bit (BITMAP q) g \<longleftrightarrow> g \<noteq> f \<and> frame_bit (BITMAP p) g" for g
    using assms(2,4) inv(2) by (simp add: frame_bit_clear)
  then show al: "allocated q = allocated p - {f}"
    by (auto simp: allocated_def)
  have "f \<in> allocated p" using assms(2,3) inv(4) by (simp add: allocated_def)
  then have "USED q = card (allocated q)" using al assms(6) inv(6) by simp
  then show "pool_inv q"
    using assms bits inv(3) pool_consts by (auto simp: pool_inv_def nth_list_update)
qed

lemma pool_inv_recount:
  assumes "pool_inv p" and "f < POOL_FRAMES" and "0 < REFS p ! f" and "0 < n" and "n \<le> SHARE_MAX"
  shows "pool_inv (p\<lparr>REFS := (REFS p)[f := n]\<rparr>)"
  using assms pool_invD(4) [OF assms(1,2)]
  by (auto simp: pool_inv_def nth_list_update allocated_def)

lemma free_bit_pool: "pool_inv p \<Longrightarrow> f < POOL_FRAMES \<Longrightarrow> free_bit (BITMAP p) f \<longleftrightarrow> \<not> frame_bit (BITMAP p) f"
  by (simp add: free_bit_def pool_invD)

lemma test_frame_bit: "ws ! (f div 64) AND push_bit (f mod 64) 1 = 0 \<longleftrightarrow> \<not> frame_bit ws f"
  using bit_test_word [of "f mod 64" "ws ! (f div 64)"] by (auto simp: frame_bit_def)

section \<open>What the operations do to the reference counts\<close>

text \<open>
  The abstract view of the pool: how many references an address has. An allocation gives one
  reference to an address that had none, a free takes one away.
\<close>

lemma pa_of_in_pool: "f < POOL_FRAMES \<Longrightarrow> in_pool p (pa_of p f) \<and> frame_of p (pa_of p f) = f"
  by (simp add: in_pool_def pa_of_def frame_of_def pool_consts Let_def)

lemma in_pool_pa: "in_pool p pa \<Longrightarrow> frame_of p pa < POOL_FRAMES \<and> pa_of p (frame_of p pa) = pa"
  by (auto simp: in_pool_def frame_of_def pa_of_def Let_def mod_eq_0_iff_dvd)

lemma frames_refs_iff: "pool_inv p \<Longrightarrow> 0 < frames_refs p pa \<longleftrightarrow> in_pool p pa \<and> frame_of p pa \<in> allocated p"
  by (auto simp: frames_refs_def ref_count_def allocated_def pool_invD in_pool_pa)

lemma frames_refs_upd:
  assumes "length (REFS p) = POOL_FRAMES" and "f < POOL_FRAMES"
    and "REFS q = (REFS p)[f := n]" and "FRAME_POOL_BASE q = FRAME_POOL_BASE p"
  shows "frames_refs q = (frames_refs p)(pa_of p f := n)"
proof
  fix pa
  have same: "in_pool q pa = in_pool p pa" "frame_of q pa = frame_of p pa"
    using assms(4) by (simp_all add: in_pool_def frame_of_def)
  show "frames_refs q pa = ((frames_refs p)(pa_of p f := n)) pa"
  proof (cases "pa = pa_of p f")
    case True
    with assms pa_of_in_pool [of f p] same show ?thesis by (simp add: frames_refs_def ref_count_def)
  next
    case False
    then have "in_pool p pa \<Longrightarrow> frame_of p pa \<noteq> f" using in_pool_pa by metis
    with False assms same show ?thesis by (auto simp: frames_refs_def ref_count_def)
  qed
qed

lemma claim_hinted_cases:
  assumes "pool_inv p"
  obtains (full) "claim_hinted p = Some (p, None)" and "allocated p = {..<POOL_FRAMES}"
  | (took) q f where "claim_hinted p = Some (q, Some (pa_of p f))" and "f < POOL_FRAMES"
      and "f \<notin> allocated p" and "pool_inv q" and "allocated q = insert f (allocated p)"
      and "frames_refs q = (frames_refs p)(pa_of p f := 1)" and "FRAME_POOL_BASE q = FRAME_POOL_BASE p"
      and "RAM q = RAM p" and "NODE_RANGE q = NODE_RANGE p" and "FALLBACKS q = FALLBACKS p"
proof (cases "find_from (BITMAP p) POOL_FRAMES (NEXT_HINT p)")
  case None
  then have "\<forall>i < POOL_FRAMES. \<not> free_bit (BITMAP p) i" by (simp add: find_from_None_iff)
  then have "allocated p = {..<POOL_FRAMES}"
    using assms by (auto simp: allocated_def free_bit_pool)
  then show ?thesis using None assms full by (simp add: claim_hinted_def pool_invD)
next
  case (Some f)
  then have f: "f < POOL_FRAMES" "\<not> frame_bit (BITMAP p) f"
    using find_from_Some_free assms free_bit_pool by blast+
  let ?q = "p\<lparr>BITMAP := set_frame_bit (BITMAP p) f, REFS := (REFS p)[f := 1],
      USED := USED p + 1, NEXT_HINT := f + 1\<rparr>"
  have "pool_inv ?q" "allocated ?q = insert f (allocated p)"
    using pool_inv_claim [OF assms f, of ?q] pool_invD(1) [OF assms] by simp_all
  moreover have "frames_refs ?q = (frames_refs p)(pa_of p f := 1)"
    using f assms by (intro frames_refs_upd) (simp_all add: pool_invD(3))
  moreover have "claim_hinted p = Some (?q, Some (pa_of p f))"
    using Some assms by (simp add: claim_hinted_def pool_invD)
  moreover have "f \<notin> allocated p" using f by (simp add: allocated_def)
  ultimately show ?thesis using f(1) by (intro took [of ?q f]) simp_all
qed

lemma claim_in_cases:
  assumes "pool_inv p"
  obtains (full) "claim_in lo hi p = Some (p, None)" and "{lo..<hi} \<inter> {..<POOL_FRAMES} \<subseteq> allocated p"
  | (took) q f where "claim_in lo hi p = Some (q, Some (pa_of p f))" and "f < POOL_FRAMES"
      and "lo \<le> f" and "f < hi"
      and "f \<notin> allocated p" and "pool_inv q" and "allocated q = insert f (allocated p)"
      and "frames_refs q = (frames_refs p)(pa_of p f := 1)" and "FRAME_POOL_BASE q = FRAME_POOL_BASE p"
      and "RAM q = RAM p" and "NODE_RANGE q = NODE_RANGE p" and "FALLBACKS q = FALLBACKS p"
proof (cases "find_in (BITMAP p) POOL_FRAMES lo hi")
  case None
  then have "{lo..<hi} \<inter> {..<POOL_FRAMES} \<subseteq> allocated p"
    using assms by (auto simp: find_in_None allocated_def free_bit_pool)
  then show ?thesis using None assms full by (simp add: claim_in_def pool_invD)
next
  case (Some f)
  then have f: "f < POOL_FRAMES" "\<not> frame_bit (BITMAP p) f" and range: "lo \<le> f" "f < hi"
    using assms by (auto simp: find_in_Some free_bit_pool)
  let ?q = "p\<lparr>BITMAP := set_frame_bit (BITMAP p) f, REFS := (REFS p)[f := 1], USED := USED p + 1\<rparr>"
  have "pool_inv ?q" "allocated ?q = insert f (allocated p)"
    using pool_inv_claim [OF assms f, of ?q] pool_invD(1) [OF assms] by simp_all
  moreover have "frames_refs ?q = (frames_refs p)(pa_of p f := 1)"
    using f assms by (intro frames_refs_upd) (simp_all add: pool_invD(3))
  moreover have "claim_in lo hi p = Some (?q, Some (pa_of p f))"
    using Some assms by (simp add: claim_in_def pool_invD)
  moreover have "f \<notin> allocated p" using f by (simp add: allocated_def)
  ultimately show ?thesis using f(1) range by (intro took [of ?q f]) simp_all
qed

lemma pool_inv_fields:
  "pool_inv (p\<lparr>FALLBACKS := a\<rparr>) = pool_inv p" "pool_inv (p\<lparr>RAM := m\<rparr>) = pool_inv p"
  "pool_inv (p\<lparr>NODE_RANGE := r\<rparr>) = pool_inv p" "pool_inv (p\<lparr>NODES_KNOWN := k\<rparr>) = pool_inv p"
  "frames_refs (p\<lparr>FALLBACKS := a\<rparr>) = frames_refs p" "frames_refs (p\<lparr>RAM := m\<rparr>) = frames_refs p"
  "allocated (p\<lparr>FALLBACKS := a\<rparr>) = allocated p" "allocated (p\<lparr>RAM := m\<rparr>) = allocated p"
  by (auto simp: pool_inv_def allocated_def frames_refs_def in_pool_def ref_count_def frame_of_def
      fun_eq_iff)

lemma pool_inv_zero [simp]:
  "pool_inv (zero_frames a n p) = pool_inv p" "frames_refs (zero_frames a n p) = frames_refs p"
  "allocated (zero_frames a n p) = allocated p" "FRAME_POOL_BASE (zero_frames a n p) = FRAME_POOL_BASE p"
  by (simp_all add: zero_frames_def pool_inv_fields)

lemma claim_on_cases:
  assumes "pool_inv p"
  obtains (full) q where "claim_on node p = Some (q, None)" and "allocated p = {..<POOL_FRAMES}"
      and "pool_inv q" and "allocated q = allocated p" and "frames_refs q = frames_refs p"
      and "FRAME_POOL_BASE q = FRAME_POOL_BASE p"
  | (took) q f where "claim_on node p = Some (q, Some (pa_of p f))" and "f < POOL_FRAMES"
      and "f \<notin> allocated p" and "pool_inv q" and "allocated q = insert f (allocated p)"
      and "frames_refs q = (frames_refs p)(pa_of p f := 1)" and "FRAME_POOL_BASE q = FRAME_POOL_BASE p"
      and "fst (node_range p node) \<le> f \<and> f < snd (node_range p node) \<and> FALLBACKS q = FALLBACKS p \<or>
           {fst (node_range p node)..<snd (node_range p node)} \<inter> {..<POOL_FRAMES} \<subseteq> allocated p \<and>
           FALLBACKS q = FALLBACKS p +
             (if fst (node_range p node) < snd (node_range p node) then 1 else 0)"
proof -
  obtain lo hi where range: "node_range p node = (lo, hi)" by force
  show ?thesis
  proof (cases "lo < hi")
    case False
    then have on: "claim_on node p = claim_hinted p" by (simp add: claim_on_def range)
    from assms show ?thesis
    proof (cases rule: claim_hinted_cases)
      case full
      then show ?thesis using on assms by (intro that(1)) simp_all
    next
      case (took q f)
      then show ?thesis using on False range by (intro that(2) [of q f]) simp_all
    qed
  next
    case True
    from assms show ?thesis
    proof (cases rule: claim_in_cases [of p lo hi])
      case (took q f)
      then show ?thesis using True range by (intro that(2) [of q f]) (simp_all add: claim_on_def)
    next
      case nodefull: full
      let ?p = "p\<lparr>FALLBACKS := FALLBACKS p + 1\<rparr>"
      have on: "claim_on node p = claim_hinted ?p"
        using True nodefull by (simp add: claim_on_def range)
      have inv: "pool_inv ?p" using assms by (simp add: pool_inv_fields)
      have pa: "pa_of ?p = pa_of p" by (simp add: pa_of_def fun_eq_iff)
      from inv show ?thesis
      proof (cases rule: claim_hinted_cases)
        case full
        then show ?thesis using on inv by (intro that(1) [of ?p]) (simp_all add: pool_inv_fields)
      next
        case (took q f)
        note took = took [unfolded pa pool_inv_fields]
        show ?thesis using took on True range nodefull
          by (intro that(2) [of q f]) simp_all
      qed
    qed
  qed
qed

section \<open>The frame-source interface\<close>

text \<open>
  What a client of a frame allocator relies on: an allocation hands out an address nobody holds
  and raises the count of what is owed by one, a refusal changes neither, and giving back a singly
  held address frees it and lowers the count. \<open>rest\<close> is what no operation of the allocator touches.
\<close>

locale frame_source =
  fixes get :: "'s \<Rightarrow> ('s \<times> nat option) option"
    and put :: "nat \<Rightarrow> 's \<Rightarrow> 's option"
    and cnt :: "'s \<Rightarrow> nat \<Rightarrow> nat"
    and owed :: "'s \<Rightarrow> nat"
    and rest :: "'s \<Rightarrow> 'r"
    and inv :: "'s \<Rightarrow> bool"
  assumes get_total: "inv s \<Longrightarrow> \<exists>s' r. get s = Some (s', r)"
    and get_none: "inv s \<Longrightarrow> get s = Some (s', None) \<Longrightarrow>
      inv s' \<and> cnt s' = cnt s \<and> owed s' = owed s \<and> rest s' = rest s"
    and get_some: "inv s \<Longrightarrow> get s = Some (s', Some a) \<Longrightarrow>
      inv s' \<and> a \<noteq> 0 \<and> cnt s a = 0 \<and> cnt s' = (cnt s)(a := 1) \<and> owed s' = owed s + 1 \<and> rest s' = rest s"
    and put_some: "inv s \<Longrightarrow> cnt s a = 1 \<Longrightarrow> 0 < owed s \<Longrightarrow>
      \<exists>s'. put a s = Some s' \<and> inv s' \<and> cnt s' = (cnt s)(a := 0) \<and> owed s' = owed s - 1 \<and> rest s' = rest s"
begin

lemma get_cases:
  assumes "inv s"
  obtains (refused) s' where "get s = Some (s', None)" and "inv s'" and "cnt s' = cnt s"
      and "owed s' = owed s" and "rest s' = rest s"
  | (took) s' a where "get s = Some (s', Some a)" and "inv s'" and "a \<noteq> 0" and "cnt s a = 0"
      and "cnt s' = (cnt s)(a := 1)" and "owed s' = owed s + 1" and "rest s' = rest s"
proof -
  from get_total [OF assms] obtain s' r where got: "get s = Some (s', r)" by blast
  show ?thesis
  proof (cases r)
    case None
    with got get_none [OF assms, of s'] show ?thesis by (intro that(1) [of s']) simp_all
  next
    case (Some a)
    with got get_some [OF assms, of s' a] show ?thesis by (intro that(2) [of s' a]) simp_all
  qed
qed

text \<open>Giving back a set of singly held addresses never fails and clears exactly them.\<close>

lemma put_each_clears:
  assumes "inv s" and "distinct as" and "\<And>a. a \<in> set as \<Longrightarrow> cnt s a = 1" and "length as \<le> owed s"
  shows "\<exists>s'. for_each put as s = Some s' \<and> inv s' \<and> owed s' = owed s - length as \<and> rest s' = rest s \<and>
    cnt s' = (\<lambda>a. if a \<in> set as then 0 else cnt s a)"
  using assms
proof (induction as arbitrary: s)
  case Nil
  then show ?case by simp
next
  case (Cons a as)
  from Cons.prems have "cnt s a = 1" "0 < owed s" by auto
  from put_some [OF Cons.prems(1) this] obtain s1 where
    s1: "put a s = Some s1" "inv s1" "cnt s1 = (cnt s)(a := 0)" "owed s1 = owed s - 1" "rest s1 = rest s"
    by blast
  have "cnt s1 b = 1" if "b \<in> set as" for b using Cons.prems that s1(3) by auto
  moreover have "length as \<le> owed s1" and "distinct as" using Cons.prems(2,4) s1(4) by auto
  ultimately obtain s' where "for_each put as s1 = Some s'" "inv s'" "owed s' = owed s1 - length as" "rest s' = rest s1"
    "cnt s' = (\<lambda>a. if a \<in> set as then 0 else cnt s1 a)"
    using Cons.IH [OF s1(2)] by blast
  with s1 show ?case by (intro exI [of _ s']) (auto simp: fun_eq_iff)
qed

end

lemma frames_alloc_cases:
  assumes "pool_inv p"
  obtains (full) "frames_alloc p = Some (p, None)" and "allocated p = {..<POOL_FRAMES}"
  | (took) q f where "frames_alloc p = Some (q, Some (pa_of p f))" and "f < POOL_FRAMES"
      and "f \<notin> allocated p" and "pool_inv q" and "allocated q = insert f (allocated p)"
      and "frames_refs q = (frames_refs p)(pa_of p f := 1)" and "FRAME_POOL_BASE q = FRAME_POOL_BASE p"
      and "RAM q = (\<lambda>a. if pa_of p f \<le> a \<and> a < pa_of p f + FRAME_SIZE then 0 else RAM p a)"
  using assms
proof (cases rule: claim_hinted_cases)
  case full
  then show ?thesis by (intro that(1)) (simp_all add: frames_alloc_def)
next
  case (took q f)
  then show ?thesis
    by (intro that(2) [of "zero_frames (pa_of p f) 1 q" f])
       (simp_all add: frames_alloc_def, simp add: zero_frames_def fun_eq_iff)
qed

lemma pa_of_nonzero: "pool_inv p \<Longrightarrow> 0 < pa_of p f"
  by (simp add: pa_of_def pool_invD(7))

lemma frames_refs_zero: "pool_inv p \<Longrightarrow> f < POOL_FRAMES \<Longrightarrow> f \<notin> allocated p \<Longrightarrow> frames_refs p (pa_of p f) = 0"
  using frames_refs_iff [of p "pa_of p f"] pa_of_in_pool [of f p] by auto

lemma frame_release_spec:
  assumes "pool_inv p" and "0 < frames_refs p pa"
  shows "\<exists>q. frame_release pa p = Some q \<and> pool_inv q \<and>
    frames_refs q = (frames_refs p)(pa := frames_refs p pa - 1) \<and> FRAME_POOL_BASE q = FRAME_POOL_BASE p \<and>
    RAM q = RAM p \<and> USED q = (if frames_refs p pa = 1 then USED p - 1 else USED p)"
proof -
  let ?f = "frame_of p pa"
  note inv = pool_invD [OF assms(1)]
  from assms have pool: "in_pool p pa" by (simp add: frames_refs_def split: if_splits)
  then have f: "?f < POOL_FRAMES" "pa_of p ?f = pa" using in_pool_pa by blast+
  have pos: "0 < REFS p ! ?f" and cnt: "frames_refs p pa = REFS p ! ?f"
    using assms pool by (simp_all add: frames_refs_def ref_count_def)
  then have bit: "frame_bit (BITMAP p) ?f" using inv(4) f by blast
  show ?thesis
  proof (cases "REFS p ! ?f = 1")
    case True
    let ?q = "p\<lparr>REFS := (REFS p)[?f := 0], BITMAP := clear_frame_bit (BITMAP p) ?f, USED := USED p - 1\<rparr>"
    have "frame_release pa p = Some ?q"
      using True bit by (simp add: frame_release_def Let_def test_frame_bit del: push_bit_of_1)
    moreover have "pool_inv ?q"
      using pool_inv_unclaim(1) [OF assms(1) f(1) True, of ?q] inv(1) by simp
    moreover have "frames_refs ?q = (frames_refs p)(pa := 0)"
      using frames_refs_upd [OF inv(3) f(1), of ?q 0] f(2) by simp
    ultimately show ?thesis using True cnt by simp
  next
    case False
    let ?q = "p\<lparr>REFS := (REFS p)[?f := REFS p ! ?f - 1]\<rparr>"
    have "frame_release pa p = Some ?q"
      using False pos bit by (simp add: frame_release_def Let_def test_frame_bit del: push_bit_of_1)
    moreover have "pool_inv ?q"
      using pool_inv_recount [OF assms(1) f(1) pos] False pos inv(5) [OF f(1)] by simp
    moreover have "frames_refs ?q = (frames_refs p)(pa := REFS p ! ?f - 1)"
      using frames_refs_upd [OF inv(3) f(1), of ?q "REFS p ! ?f - 1"] f(2) by simp
    ultimately show ?thesis using cnt False by simp
  qed
qed

lemma frames_free_spec:
  assumes "pool_inv p" and "0 < frames_refs p pa"
  shows "\<exists>q. frames_free pa p = Some q \<and> pool_inv q \<and>
    frames_refs q = (frames_refs p)(pa := frames_refs p pa - 1) \<and> FRAME_POOL_BASE q = FRAME_POOL_BASE p \<and>
    RAM q = RAM p \<and> USED q = (if frames_refs p pa = 1 then USED p - 1 else USED p)"
  using frame_release_spec [OF assms] assms(2) by (simp add: frames_free_def frames_refs_def split: if_splits)

lemma USED_insert:
  assumes "pool_inv p" and "pool_inv q" and "f \<notin> allocated p" and "allocated q = insert f (allocated p)"
  shows "USED q = USED p + 1"
  using assms by (simp add: pool_invD(6))

interpretation fp: frame_source frames_alloc frames_free frames_refs USED FRAME_POOL_BASE pool_inv
proof
  fix s assume "pool_inv s"
  then show "\<exists>s' r. frames_alloc s = Some (s', r)" by (cases rule: frames_alloc_cases) auto
next
  fix s s' assume inv: "pool_inv s" and got: "frames_alloc s = Some (s', None)"
  from inv show "pool_inv s' \<and> frames_refs s' = frames_refs s \<and> USED s' = USED s \<and>
      FRAME_POOL_BASE s' = FRAME_POOL_BASE s"
    using got inv by (cases rule: frames_alloc_cases) auto
next
  fix s s' a assume inv: "pool_inv s" and got: "frames_alloc s = Some (s', Some a)"
  from inv show "pool_inv s' \<and> a \<noteq> 0 \<and> frames_refs s a = 0 \<and> frames_refs s' = (frames_refs s)(a := 1) \<and>
      USED s' = USED s + 1 \<and> FRAME_POOL_BASE s' = FRAME_POOL_BASE s"
  proof (cases rule: frames_alloc_cases)
    case full
    with got show ?thesis by simp
  next
    case (took q f)
    with got USED_insert [OF inv took(4,3,5)] pa_of_nonzero [OF inv, of f] frames_refs_zero [OF inv took(2,3)]
    show ?thesis by auto
  qed
next
  fix s a assume "pool_inv s" "frames_refs s a = 1" "0 < USED s"
  then show "\<exists>s'. frames_free a s = Some s' \<and> pool_inv s' \<and> frames_refs s' = (frames_refs s)(a := 0) \<and>
      USED s' = USED s - 1 \<and> FRAME_POOL_BASE s' = FRAME_POOL_BASE s"
    using frames_free_spec [of s a] by auto
qed

lemma alloc_on_cases:
  assumes "pool_inv p"
  obtains (full) q where "alloc_on node p = Some (q, None)" and "allocated p = {..<POOL_FRAMES}"
      and "pool_inv q" and "frames_refs q = frames_refs p" and "allocated q = allocated p"
  | (took) q f where "alloc_on node p = Some (q, Some (pa_of p f))" and "f < POOL_FRAMES"
      and "f \<notin> allocated p" and "pool_inv q" and "allocated q = insert f (allocated p)"
      and "frames_refs q = (frames_refs p)(pa_of p f := 1)"
proof (cases "node = NODE_ANY")
  case True
  then have on: "alloc_on node p = frames_alloc p" by (simp add: alloc_on_def)
  from assms show ?thesis
  proof (cases rule: frames_alloc_cases)
    case full
    then show ?thesis using on assms by (intro that(1) [of p]) simp_all
  next
    case (took q f)
    then show ?thesis using on by (intro that(2) [of q f]) simp_all
  qed
next
  case False
  from assms show ?thesis
  proof (cases rule: claim_on_cases [of p node])
    case (full q)
    then show ?thesis using False by (intro that(1) [of q]) (simp_all add: alloc_on_def)
  next
    case (took q f)
    then show ?thesis using False
      by (intro that(2) [of "zero_frames (pa_of p f) 1 q" f]) (simp_all add: alloc_on_def)
  qed
qed

lemma free_if_pool_spec:
  assumes "pool_inv p" and "0 < frames_refs p pa"
  shows "\<exists>q. free_if_pool pa p = Some (q, True) \<and> pool_inv q \<and>
    frames_refs q = (frames_refs p)(pa := frames_refs p pa - 1) \<and>
    USED q = (if frames_refs p pa = 1 then USED p - 1 else USED p)"
proof -
  from frames_free_spec [OF assms] obtain q where "frames_free pa p = Some q" "pool_inv q"
    "frames_refs q = (frames_refs p)(pa := frames_refs p pa - 1)"
    "USED q = (if frames_refs p pa = 1 then USED p - 1 else USED p)" by blast
  moreover have "in_pool p pa" using assms(2) by (simp add: frames_refs_def split: if_splits)
  ultimately show ?thesis by (simp add: free_if_pool_def)
qed

section \<open>Contiguous runs\<close>

definition claim_one :: "pool \<Rightarrow> nat \<Rightarrow> pool" where
  "claim_one p f = (mark_one p f)\<lparr>USED := USED p + 1\<rparr>"

lemma mark_one_used: "mark_one (p\<lparr>USED := u\<rparr>) f = (mark_one p f)\<lparr>USED := u\<rparr>"
  by (cases p) (simp add: mark_one_def)

lemma mark_each_used: "foldl mark_one (p\<lparr>USED := u\<rparr>) fs = (foldl mark_one p fs)\<lparr>USED := u\<rparr>"
  by (induction fs arbitrary: p) (simp_all add: mark_one_used)

lemma claim_run_counted: "(foldl mark_one p fs)\<lparr>USED := USED p + length fs\<rparr> = foldl claim_one p fs"
proof (induction fs arbitrary: p)
  case Nil
  then show ?case by simp
next
  case (Cons f fs)
  show ?case
    using Cons [of "claim_one p f"] mark_each_used [where p = "mark_one p f" and u = "USED p + 1" and fs = fs]
    by (simp add: claim_one_def)
qed

lemma claim_run_used [simp]: "USED (claim_run first n p) = USED p"
proof -
  have "USED (foldl mark_one p fs) = USED p" for fs
    by (induction fs arbitrary: p) (auto simp: mark_one_def)
  then show ?thesis by (simp add: claim_run_def)
qed

lemma claim_each:
  assumes "pool_inv p" and "distinct fs" and "\<And>f. f \<in> set fs \<Longrightarrow> f < POOL_FRAMES \<and> f \<notin> allocated p"
  shows "pool_inv (foldl claim_one p fs) \<and> allocated (foldl claim_one p fs) = allocated p \<union> set fs \<and>
    FRAME_POOL_BASE (foldl claim_one p fs) = FRAME_POOL_BASE p \<and>
    frames_refs (foldl claim_one p fs) = (\<lambda>a. if a \<in> pa_of p ` set fs then 1 else frames_refs p a)"
  using assms
proof (induction fs arbitrary: p)
  case Nil
  then show ?case by simp
next
  case (Cons f fs)
  let ?q = "claim_one p f"
  have f: "f < POOL_FRAMES" "\<not> frame_bit (BITMAP p) f"
    using Cons.prems(3) [of f] by (auto simp: allocated_def)
  have q: "pool_inv ?q" "allocated ?q = insert f (allocated p)"
    using pool_inv_claim [OF Cons.prems(1) f, of ?q] pool_invD(1) [OF Cons.prems(1)]
    by (simp_all add: claim_one_def mark_one_def)
  have base: "FRAME_POOL_BASE ?q = FRAME_POOL_BASE p" by (simp add: claim_one_def mark_one_def)
  then have pa: "pa_of ?q = pa_of p" by (simp add: pa_of_def fun_eq_iff)
  have refs: "frames_refs ?q = (frames_refs p)(pa_of p f := 1)"
    using frames_refs_upd [OF pool_invD(3) [OF Cons.prems(1)] f(1), of ?q 1]
    by (simp add: claim_one_def mark_one_def)
  have "f' < POOL_FRAMES \<and> f' \<notin> allocated ?q" if "f' \<in> set fs" for f'
    using Cons.prems(2,3) that q(2) by auto
  from Cons.IH [OF q(1) _ this] Cons.prems(2) have
    "pool_inv (foldl claim_one ?q fs)" "allocated (foldl claim_one ?q fs) = allocated ?q \<union> set fs"
    "FRAME_POOL_BASE (foldl claim_one ?q fs) = FRAME_POOL_BASE ?q"
    "frames_refs (foldl claim_one ?q fs) = (\<lambda>a. if a \<in> pa_of ?q ` set fs then 1 else frames_refs ?q a)"
    by auto
  with q(2) base pa refs show ?case by (auto simp: fun_eq_iff)
qed

lemma alloc_contig_spec:
  assumes "pool_inv p"
  shows "alloc_contig n p = Some (p, None) \<and>
      (n = 0 \<or> POOL_FRAMES < n \<or> (\<forall>s. s + n \<le> POOL_FRAMES \<longrightarrow> \<not> {s..<s + n} \<inter> allocated p = {})) \<or>
    (\<exists>q first. alloc_contig n p = Some (q, Some (pa_of p first)) \<and> 0 < n \<and> first + n \<le> POOL_FRAMES \<and>
      {first..<first + n} \<inter> allocated p = {} \<and> pool_inv q \<and>
      allocated q = allocated p \<union> {first..<first + n} \<and>
      (\<forall>a. pa_of p first \<le> a \<and> a < pa_of p first + n * FRAME_SIZE \<longrightarrow> RAM q a = 0))"
proof -
  have free: "run_free (BITMAP p) s n \<longleftrightarrow> {s..<s + n} \<inter> allocated p = {}" if "s + n \<le> POOL_FRAMES" for s
    using that assms by (auto simp: run_free_def allocated_def free_bit_pool)
  show ?thesis
  proof (cases "n = 0 \<or> POOL_FRAMES < n")
    case True
    then show ?thesis by (auto simp: alloc_contig_def)
  next
    case n: False
    show ?thesis
    proof (cases "find_run (BITMAP p) POOL_FRAMES n")
      case None
      have "\<not> run_free (BITMAP p) s n" if "s + n \<le> POOL_FRAMES" for s
        using None n that by (auto simp: find_run_correct find_upt_None)
      moreover have "alloc_contig n p = Some (p, None)"
        using None n assms by (simp add: alloc_contig_def pool_invD(1))
      ultimately show ?thesis using free by blast
    next
      case (Some first)
      then have first: "0 < n" "first + n \<le> POOL_FRAMES" "{first..<first + n} \<inter> allocated p = {}"
        using free by (auto simp: find_run_Some)
      let ?r = "foldl claim_one p [first..<first + n]"
      have "f < POOL_FRAMES \<and> f \<notin> allocated p" if "f \<in> set [first..<first + n]" for f
        using first that by auto
      from claim_each [OF assms distinct_upt this]
      have r: "pool_inv ?r" "allocated ?r = allocated p \<union> {first..<first + n}" by simp_all
      have "(claim_run first n p)\<lparr>USED := USED p + n\<rparr> = ?r"
        using claim_run_counted [of p "[first..<first + n]"] by (simp add: claim_run_def)
      then have "alloc_contig n p = Some (zero_frames (pa_of p first) n ?r, Some (pa_of p first))"
        using Some n assms by (simp add: alloc_contig_def pool_invD(1) Let_def)
      with r first show ?thesis
        by (intro disjI2 exI [of _ "zero_frames (pa_of p first) n ?r"] exI [of _ first])
           (simp add: zero_frames_def pool_inv_fields)
    qed
  qed
qed

section \<open>Operation sequences\<close>

datatype pool_op = OpAlloc | OpAllocOn nat | OpFree nat | OpShare nat | OpCow nat | OpContig nat

text \<open>One operation; a panic leaves the kernel stopped, so nothing changes.\<close>

fun pool_step :: "pool \<Rightarrow> pool_op \<Rightarrow> pool" where
  "pool_step p OpAlloc = (case frames_alloc p of Some (q, _) \<Rightarrow> q | None \<Rightarrow> p)"
| "pool_step p (OpAllocOn node) = (case alloc_on node p of Some (q, _) \<Rightarrow> q | None \<Rightarrow> p)"
| "pool_step p (OpFree pa) = (case frames_free pa p of Some q \<Rightarrow> q | None \<Rightarrow> p)"
| "pool_step p (OpShare pa) = fst (frames_share pa p)"
| "pool_step p (OpCow pa) = (case cow_resolve pa p of Some (q, _) \<Rightarrow> q | None \<Rightarrow> p)"
| "pool_step p (OpContig n) = (case alloc_contig n p of Some (q, _) \<Rightarrow> q | None \<Rightarrow> p)"

lemma frames_free_panic:
  assumes "pool_inv p" and "frames_refs p pa = 0"
  shows "frames_free pa p = None"
proof (cases "in_pool p pa")
  case True
  then have "\<not> frame_bit (BITMAP p) (frame_of p pa)"
    using assms pool_invD(4) in_pool_pa by (auto simp: frames_refs_def ref_count_def)
  with True show ?thesis
    by (simp add: frames_free_def frame_release_def Let_def test_frame_bit del: push_bit_of_1)
qed (simp add: frames_free_def)

lemma frames_share_spec:
  assumes "pool_inv p"
  shows "pool_inv (fst (frames_share pa p)) \<and>
    (snd (frames_share pa p) \<longleftrightarrow> 0 < frames_refs p pa \<and> frames_refs p pa < SHARE_MAX) \<and>
    frames_refs (fst (frames_share pa p)) =
      (if snd (frames_share pa p) then (frames_refs p)(pa := frames_refs p pa + 1) else frames_refs p)"
proof (cases "in_pool p pa")
  case False
  then show ?thesis using assms by (simp add: frames_share_def frames_refs_def)
next
  case True
  let ?f = "frame_of p pa"
  have f: "?f < POOL_FRAMES" "pa_of p ?f = pa" using in_pool_pa [OF True] by auto
  have cnt: "frames_refs p pa = REFS p ! ?f" using True by (simp add: frames_refs_def ref_count_def)
  have le: "REFS p ! ?f \<le> SHARE_MAX" using pool_invD(5) [OF assms f(1)] .
  show ?thesis
  proof (cases "REFS p ! ?f = 0 \<or> REFS p ! ?f = SHARE_MAX")
    case refused: True
    then show ?thesis using True assms cnt by (auto simp: frames_share_def add_ref_def)
  next
    case False
    have "pool_inv (p\<lparr>REFS := (REFS p)[?f := REFS p ! ?f + 1]\<rparr>)"
      using pool_inv_recount [OF assms f(1), of "REFS p ! ?f + 1"] False le by simp
    moreover have "frames_refs (p\<lparr>REFS := (REFS p)[?f := REFS p ! ?f + 1]\<rparr>) =
        (frames_refs p)(pa := REFS p ! ?f + 1)"
      using frames_refs_upd [OF pool_invD(3) [OF assms] f(1),
          of "p\<lparr>REFS := (REFS p)[?f := REFS p ! ?f + 1]\<rparr>"] f(2) by simp
    ultimately show ?thesis using True False cnt le
      by (auto simp: frames_share_def add_ref_def Let_def)
  qed
qed

lemma cow_resolve_spec:
  assumes "pool_inv p"
  shows "(frames_refs p pa \<le> 1 \<and> cow_resolve pa p = Some (p, Sole)) \<or>
    (1 < frames_refs p pa \<and> allocated p = {..<POOL_FRAMES} \<and> cow_resolve pa p = Some (p, NoFrame)) \<or>
    (1 < frames_refs p pa \<and> (\<exists>q dst. cow_resolve pa p = Some (q, Private dst) \<and> pool_inv q \<and>
       frames_refs p dst = 0 \<and> dst \<noteq> pa \<and> frames_refs q = (frames_refs p)(dst := 1)))"
proof (cases "1 < frames_refs p pa")
  case False
  then show ?thesis
    by (auto simp: cow_resolve_def cow_claim_typed_def frames_refs_def split: if_splits)
next
  case True
  then have res: "cow_resolve pa p = (case claim_hinted p of None \<Rightarrow> None
      | Some (p', None) \<Rightarrow> Some (p', NoFrame) | Some (p', Some dst) \<Rightarrow> Some (p', Private dst))"
    by (auto simp: cow_resolve_def cow_claim_typed_def frames_refs_def split: if_splits)
  from assms show ?thesis
  proof (cases rule: claim_hinted_cases)
    case full
    then show ?thesis using res True by simp
  next
    case (took q f)
    moreover have "frames_refs p (pa_of p f) = 0"
      using frames_refs_zero [OF assms] took by blast
    ultimately show ?thesis using res True by auto
  qed
qed

interpretation pm: machine pool_step "\<lambda>_ _. True" pool_inv
proof
  fix p x assume inv: "pool_inv p"
  show "pool_inv (pool_step p x)"
  proof (cases x)
    case OpAlloc
    from inv show ?thesis using inv by (cases rule: frames_alloc_cases) (simp_all add: OpAlloc)
  next
    case (OpAllocOn node)
    from inv show ?thesis by (cases rule: alloc_on_cases [of p node]) (simp_all add: OpAllocOn)
  next
    case (OpFree pa)
    then show ?thesis
      using inv frames_free_spec [OF inv, of pa] frames_free_panic [OF inv, of pa]
      by (cases "frames_refs p pa = 0") auto
  next
    case (OpShare pa)
    then show ?thesis using frames_share_spec [OF inv] by simp
  next
    case (OpCow pa)
    from cow_resolve_spec [OF inv, of pa] inv have "pool_inv (pool_step p (OpCow pa))"
      by (elim disjE conjE exE) simp_all
    with OpCow show ?thesis by simp
  next
    case (OpContig n)
    from alloc_contig_spec [OF inv, of n] inv have "pool_inv (pool_step p (OpContig n))"
      by (elim disjE conjE exE) simp_all
    with OpContig show ?thesis by simp
  qed
qed

lemma count_ones_card: "count_ones w = card {k. k < 64 \<and> bit w k}"
proof -
  have "set (filter (bit w) [0..<64]) = {k. k < 64 \<and> bit w k}" by auto
  then show ?thesis
    by (metis count_ones_def distinct_card distinct_filter distinct_upt)
qed

lemma sum_count_ones: "sum_list (map count_ones ws) = card {f. f < 64 * length ws \<and> frame_bit ws f}"
proof (induction ws rule: rev_induct)
  case Nil
  then show ?case by simp
next
  case (snoc w ws)
  let ?n = "64 * length ws"
  have low: "frame_bit (ws @ [w]) f = frame_bit ws f" if "f < ?n" for f
    using that by (simp add: frame_bit_def nth_append less_mult_imp_div_less mult.commute)
  have high: "frame_bit (ws @ [w]) (?n + k) = bit w k" if "k < 64" for k
    using that by (simp add: frame_bit_def nth_append)
  have "{f. f < 64 * length (ws @ [w]) \<and> frame_bit (ws @ [w]) f} =
      {f. f < ?n \<and> frame_bit ws f} \<union> (\<lambda>k. ?n + k) ` {k. k < 64 \<and> bit w k}" (is "?L = ?A \<union> ?B")
  proof (rule set_eqI)
    fix f
    show "f \<in> ?L \<longleftrightarrow> f \<in> ?A \<union> ?B"
    proof (cases "f < ?n")
      case True
      then show ?thesis using low by auto
    next
      case False
      then obtain k where "f = ?n + k" using le_Suc_ex not_less by blast
      then show ?thesis using high by auto
    qed
  qed
  moreover have "card (?A \<union> ?B) = card ?A + card ?B" by (rule card_Un_disjoint) auto
  moreover have "card ?B = count_ones w" by (simp add: card_image count_ones_card)
  ultimately show ?case using snoc by simp
qed

lemma pool_inv_used_matches: "pool_inv p \<Longrightarrow> used_matches_bitmap p"
  using sum_count_ones [of "BITMAP p"]
  by (simp add: used_matches_bitmap_def pool_invD(2,6) allocated_def)

lemma pool_inv_boot:
  assumes "0 < base" and "kernel_end \<le> base"
  shows "\<exists>p. frames_init kernel_end (pool_new base) = Some p \<and> pool_inv p"
proof -
  have "allocated (pool_new base) = {}"
    by (auto simp: allocated_def pool_new_def frame_bit_def POOL_FRAMES_def)
  then have "allocated (pool_new base\<lparr>INITIALIZED := True\<rparr>) = {}" by (simp add: allocated_def)
  then have "pool_inv (pool_new base\<lparr>INITIALIZED := True\<rparr>)"
    using assms(1)
    by (auto simp: pool_inv_def pool_new_def frame_bit_def POOL_FRAMES_def)
  then show ?thesis using assms(2) by (simp add: frames_init_def pool_new_def)
qed

section \<open>Properties\<close>

text \<open>
  On a consistent pool \<^verbatim>\<open>alloc\<close> never panics; it refuses exactly when every
  frame is in use, and otherwise returns a pool frame nobody held, now held once, with all of its
  4096 bytes zero and no other frame's count or byte changed.
\<close>

theorem frames_alloc_fresh:
  assumes "pool_inv p"
  shows "(USED p = POOL_FRAMES \<and> frames_alloc p = Some (p, None)) \<or>
    (USED p < POOL_FRAMES \<and> (\<exists>q pa. frames_alloc p = Some (q, Some pa) \<and> in_pool p pa \<and>
       frames_refs p pa = 0 \<and> frames_refs q = (frames_refs p)(pa := 1) \<and>
       RAM q = (\<lambda>a. if pa \<le> a \<and> a < pa + FRAME_SIZE then 0 else RAM p a) \<and>
       USED q = USED p + 1 \<and> pool_inv q))"
  using assms
proof (cases rule: frames_alloc_cases)
  case full
  then show ?thesis using assms by (simp add: pool_invD(6))
next
  case (took q f)
  have "card (allocated p) < card (insert f (allocated p))" using took(3) by simp
  also have "\<dots> \<le> card {..<POOL_FRAMES}"
    using took(2) by (intro card_mono) (auto simp: allocated_def)
  finally have "USED p < POOL_FRAMES" using assms by (simp add: pool_invD(6))
  moreover have "USED q = USED p + 1" using took(3-5) assms by (simp add: pool_invD(6))
  moreover have "in_pool p (pa_of p f)" using pa_of_in_pool took(2) by blast
  moreover have "frames_refs p (pa_of p f) = 0" using frames_refs_zero assms took(2,3) by blast
  ultimately show ?thesis using took by blast
qed

theorem frames_alloc_fresh_witness:
  "\<exists>p. frames_init 4096 (pool_new 67108864) = Some p \<and> pool_inv p \<and>
    ((USED p = POOL_FRAMES \<and> frames_alloc p = Some (p, None)) \<or>
     (USED p < POOL_FRAMES \<and> (\<exists>q pa. frames_alloc p = Some (q, Some pa) \<and> in_pool p pa \<and>
       frames_refs p pa = 0 \<and> frames_refs q = (frames_refs p)(pa := 1) \<and>
       RAM q = (\<lambda>a. if pa \<le> a \<and> a < pa + FRAME_SIZE then 0 else RAM p a) \<and>
       USED q = USED p + 1 \<and> pool_inv q)))"
proof -
  obtain p where p: "frames_init 4096 (pool_new 67108864) = Some p" "pool_inv p"
    using pool_inv_boot [of 67108864 4096] by auto
  then show ?thesis using frames_alloc_fresh [OF p(2)] by blast
qed

text \<open>
  C6: after any sequence of allocations (anywhere, on a node, contiguous),
  frees, shares and copy-on-write decisions on a booted pool, the used counter equals the population
  count of the bitmap, and a frame is marked exactly when it has a reference.
\<close>

theorem pool_run_consistent:
  assumes "0 < base" and "kernel_end \<le> base" and "frames_init kernel_end (pool_new base) = Some p"
  shows "used_matches_bitmap (run_ops pool_step p ops) \<and>
    (\<forall>f < POOL_FRAMES. frame_bit (BITMAP (run_ops pool_step p ops)) f \<longleftrightarrow>
       0 < REFS (run_ops pool_step p ops) ! f)"
proof -
  have "pool_inv p" using pool_inv_boot [OF assms(1,2)] assms(3) by auto
  then have "pool_inv (run_ops pool_step p ops)" by (rule pm.run_inv) simp
  then show ?thesis using pool_inv_used_matches by (auto simp: pool_invD(4))
qed

theorem pool_run_consistent_witness:
  "\<exists>p. frames_init 4096 (pool_new 67108864) = Some p \<and>
    used_matches_bitmap (run_ops pool_step p [OpAlloc, OpContig 3, OpShare 67108864, OpFree 67108864])"
proof -
  obtain p where p: "frames_init 4096 (pool_new 67108864) = Some p"
    using pool_inv_boot [of 67108864 4096] by auto
  have "used_matches_bitmap (run_ops pool_step p [OpAlloc, OpContig 3, OpShare 67108864, OpFree 67108864])"
    by (rule conjunct1 [OF pool_run_consistent [OF _ _ p]]) simp_all
  with p show ?thesis by blast
qed

lemma no_frames_left: "{} \<noteq> {..<POOL_FRAMES}"
  by (metis POOL_FRAMES_def lessThan_empty_iff zero_neq_numeral)

text \<open>
  An allocation for a node whose range still has a free frame returns a
  frame of that range and counts no fallback; when the node's range is non-empty but full, the frame
  comes from elsewhere and the fallback counter rises by one. So a misplaced frame is always counted.
\<close>

theorem alloc_on_placement:
  assumes "pool_inv p" and "node \<noteq> NODE_ANY" and "node_range p node = (lo, hi)" and "lo < hi"
    and "alloc_on node p = Some (q, Some pa)"
  shows "if \<exists>f < POOL_FRAMES. lo \<le> f \<and> f < hi \<and> f \<notin> allocated p
    then lo \<le> frame_of p pa \<and> frame_of p pa < hi \<and> FALLBACKS q = FALLBACKS p
    else FALLBACKS q = FALLBACKS p + 1 \<and> \<not> (lo \<le> frame_of p pa \<and> frame_of p pa < hi)"
  using assms(1)
proof (cases rule: claim_on_cases [of p node])
  case (full r)
  then show ?thesis using assms(2,5) by (simp add: alloc_on_def)
next
  case (took r f)
  then have q: "pa = pa_of p f" "FALLBACKS q = FALLBACKS r"
    using assms(2,5) by (auto simp: alloc_on_def zero_frames_def)
  then have frame: "frame_of p pa = f" using pa_of_in_pool took(2) by simp
  show ?thesis using took(2,3,8) assms(3,4) q frame by auto
qed

theorem alloc_on_placement_witness:
  "\<exists>p q pa. pool_inv p \<and> node_range p 0 = (0, 65536) \<and> alloc_on 0 p = Some (q, Some pa) \<and>
     frame_of p pa < 65536 \<and> FALLBACKS q = FALLBACKS p"
proof -
  obtain p0 where p0: "frames_init 4096 (pool_new 67108864) = Some p0" "pool_inv p0"
    using pool_inv_boot [of 67108864 4096] by auto
  define p where "p = p0\<lparr>NODE_RANGE := [(0, 65536)]\<rparr>"
  have inv: "pool_inv p" using p0(2) by (simp add: p_def pool_inv_fields)
  have range: "node_range p 0 = (0, 65536)" by (simp add: p_def node_range_def nth_opt_def)
  have "p0 = pool_new 67108864\<lparr>INITIALIZED := True\<rparr>"
    using p0(1) by (simp add: frames_init_def pool_new_def)
  then have empty: "allocated p = {}"
    by (auto simp: p_def allocated_def pool_new_def frame_bit_def POOL_FRAMES_def)
  have "\<exists>q pa. alloc_on 0 p = Some (q, Some pa)"
    using inv by (cases rule: alloc_on_cases [of p 0]) (auto simp: empty no_frames_left)
  then obtain q pa where q: "alloc_on 0 p = Some (q, Some pa)" by blast
  have "\<exists>f < POOL_FRAMES. 0 \<le> f \<and> f < 65536 \<and> f \<notin> allocated p"
    by (intro exI [of _ 0]) (simp add: empty pool_consts)
  then have "frame_of p pa < 65536 \<and> FALLBACKS q = FALLBACKS p"
    using alloc_on_placement [OF inv _ range _ q] by (simp add: NODE_ANY_def)
  with inv range q show ?thesis by blast
qed

text \<open>
  A copy-on-write decision keeps a sole holder's frame, refuses without
  changing anything when the pool is full, and otherwise hands out a different frame nobody held;
  the shared frame keeps its references, and freeing it afterwards leaves the other holders one fewer.
\<close>

theorem cow_break_private:
  assumes "pool_inv p" and "1 < frames_refs p pa" and "USED p < POOL_FRAMES"
  shows "\<exists>q dst r. cow_resolve pa p = Some (q, Private dst) \<and> dst \<noteq> pa \<and> frames_refs p dst = 0 \<and>
    frames_refs q = (frames_refs p)(dst := 1) \<and>
    frames_free pa q = Some r \<and> pool_inv r \<and>
    frames_refs r = (frames_refs p)(dst := 1, pa := frames_refs p pa - 1) \<and> 0 < frames_refs r pa"
proof -
  have "allocated p \<noteq> {..<POOL_FRAMES}" using assms(1,3) pool_invD(6) [OF assms(1)] by force
  then obtain q dst where q: "cow_resolve pa p = Some (q, Private dst)" "pool_inv q" "dst \<noteq> pa"
    "frames_refs p dst = 0" "frames_refs q = (frames_refs p)(dst := 1)"
    using cow_resolve_spec [OF assms(1), of pa] assms(2) by (metis leD)
  then have "0 < frames_refs q pa" using assms(2) by simp
  from frames_free_spec [OF q(2) this] obtain r where r: "frames_free pa q = Some r" "pool_inv r"
    "frames_refs r = (frames_refs q)(pa := frames_refs q pa - 1)" by blast
  have "frames_refs r = (frames_refs p)(dst := 1, pa := frames_refs p pa - 1)"
    using r(3) q(3,5) by simp
  moreover have "0 < frames_refs r pa" using r(3) q(3,5) assms(2) by simp
  ultimately show ?thesis using q r by blast
qed

theorem cow_break_private_witness:
  "\<exists>p pa q dst. pool_inv p \<and> frames_refs p pa = 2 \<and> cow_resolve pa p = Some (q, Private dst) \<and> dst \<noteq> pa"
proof -
  obtain p0 where p0: "frames_init 4096 (pool_new 67108864) = Some p0" "pool_inv p0"
    using pool_inv_boot [of 67108864 4096] by auto
  have "p0 = pool_new 67108864\<lparr>INITIALIZED := True\<rparr>"
    using p0(1) by (simp add: frames_init_def pool_new_def)
  then have empty: "allocated p0 = {}"
    by (auto simp: allocated_def pool_new_def frame_bit_def POOL_FRAMES_def)
  obtain p1 f where p1: "pool_inv p1" "allocated p1 = {f}" "f < POOL_FRAMES"
    "frames_refs p1 = (frames_refs p0)(pa_of p0 f := 1)"
    using p0(2) by (cases rule: frames_alloc_cases) (auto simp: empty no_frames_left)
  define p where "p = fst (frames_share (pa_of p0 f) p1)"
  have p: "pool_inv p" "frames_refs p (pa_of p0 f) = 2"
    using frames_share_spec [OF p1(1), of "pa_of p0 f"] p1(4) by (simp_all add: p_def SHARE_MAX_def)
  have "allocated p = allocated p1"
    by (auto simp: p_def frames_share_def add_ref_def allocated_def Let_def)
  then have "USED p < POOL_FRAMES" using p1(2) p(1) by (simp add: pool_invD(6) POOL_FRAMES_def)
  with cow_break_private [OF p(1), of "pa_of p0 f"] p show ?thesis by fastforce
qed

end
