(* ===== verification/Kmeta.thy ===== *)
theory Kmeta
  imports Frames
begin

text \<open>
  Kernel metadata memory, \<^verbatim>\<open>kernel/src/mm/kmeta.rs\<close>: the per-owner ledger of frames taken for the
  kernel's own tables, the funded table (pages reached through an inline directory and one overflow
  directory frame) and the elastic table (an inline array in front of a funded tail).

  Addresses are physical here: the source stores \<^verbatim>\<open>phys_to_virt\<close> of them and undoes it before
  every free, and the linear map is a bijection on the pool. The contents of the data frames are kept
  with the table that owns them, as elements of the table's type. The outer option is a panic (a
  failed assertion or a double free). The trace events are not modelled.
\<close>

section \<open>Owners and the ledger\<close>

type_synonym owner = nat

definition PTRS_PER_DIR :: nat where "PTRS_PER_DIR = FRAME_SIZE div 8"
definition MAX_OWNERS :: nat where "MAX_OWNERS = 1024"
definition META_RESERVE_FRAMES :: nat where "META_RESERVE_FRAMES = 1024"
definition OWNER_KERNEL :: owner where "OWNER_KERNEL = 65535"

definition owner_cell :: "nat \<Rightarrow> owner" where
  "owner_cell index = index AND (MAX_OWNERS - 1)"

definition is_kernel :: "owner \<Rightarrow> bool" where
  "is_kernel ow \<longleftrightarrow> ow = OWNER_KERNEL"

definition cell_index :: "owner \<Rightarrow> nat option" where
  "cell_index ow = (if is_kernel ow then None else Some ow)"

definition ledger_slot :: "owner \<Rightarrow> nat" where
  "ledger_slot ow = (if is_kernel ow then MAX_OWNERS - 1 else min ow (MAX_OWNERS - 2))"

record kmem =
  POOL :: pool
  CHARGED :: "nat list"
  META_FRAMES :: nat
  META_ALLOCS :: u64
  META_FREES :: u64
  OWNER_NODE :: "nat list"

definition kmem_new :: "pool \<Rightarrow> kmem" where
  "kmem_new p = \<lparr> POOL = p, CHARGED = replicate MAX_OWNERS 0, META_FRAMES = 0, META_ALLOCS = 0,
     META_FREES = 0, OWNER_NODE = replicate MAX_OWNERS NODE_ANY \<rparr>"

definition u32_max :: nat where "u32_max = 2 ^ 32 - 1"

definition charged :: "owner \<Rightarrow> kmem \<Rightarrow> nat" where
  "charged ow k = CHARGED k ! ledger_slot ow"

definition total_frames :: "kmem \<Rightarrow> nat" where
  "total_frames k = META_FRAMES k"

definition set_owner_node :: "owner \<Rightarrow> nat \<Rightarrow> kmem \<Rightarrow> kmem" where
  "set_owner_node ow node k = k\<lparr>OWNER_NODE := (OWNER_NODE k)[ledger_slot ow := node]\<rparr>"

definition owner_node :: "owner \<Rightarrow> kmem \<Rightarrow> nat" where
  "owner_node ow k = OWNER_NODE k ! ledger_slot ow"

definition alloc_frame :: "owner \<Rightarrow> kmem \<Rightarrow> (kmem \<times> nat option) option" where
  "alloc_frame ow k =
     (let (free, _) = frames_stats (POOL k)
      in if free \<le> META_RESERVE_FRAMES then Some (k, None)
         else case alloc_on (owner_node ow k) (POOL k) of
                None \<Rightarrow> None
              | Some (p, None) \<Rightarrow> Some (k\<lparr>POOL := p\<rparr>, None)
              | Some (p, Some pa) \<Rightarrow>
                  let slot = ledger_slot ow
                  in Some (k\<lparr>POOL := p,
                             CHARGED := (CHARGED k)[slot := min (CHARGED k ! slot + 1) u32_max],
                             META_FRAMES := META_FRAMES k + 1,
                             META_ALLOCS := META_ALLOCS k + 1\<rparr>, Some pa))"

definition move_charge :: "owner \<Rightarrow> owner \<Rightarrow> nat \<Rightarrow> kmem \<Rightarrow> kmem" where
  "move_charge from_ow to_ow n k =
     (if from_ow = to_ow \<or> n = 0 then k
      else let f = ledger_slot from_ow; t = ledger_slot to_ow; n32 = n mod 2 ^ 32;
               c1 = (CHARGED k)[f := CHARGED k ! f - n32];
               c2 = c1[t := min (c1 ! t + n32) u32_max]
           in k\<lparr>CHARGED := c2\<rparr>)"

definition free_frame :: "nat \<Rightarrow> owner \<Rightarrow> kmem \<Rightarrow> kmem option" where
  "free_frame pa ow k =
     (let slot = ledger_slot ow;
          k' = k\<lparr>CHARGED := (CHARGED k)[slot := CHARGED k ! slot - 1],
                 META_FREES := META_FREES k + 1,
                 META_FRAMES := (if 0 < META_FRAMES k then META_FRAMES k - 1 else META_FRAMES k)\<rparr>
      in map_option (\<lambda>(p, _). k'\<lparr>POOL := p\<rparr>) (free_if_pool pa (POOL k)))"

definition reset_ledger :: "kmem \<Rightarrow> kmem" where
  "reset_ledger k = k\<lparr>CHARGED := replicate MAX_OWNERS 0, META_FRAMES := 0, META_ALLOCS := 0, META_FREES := 0\<rparr>"

definition ledger_consistent :: "kmem \<Rightarrow> bool" where
  "ledger_consistent k \<longleftrightarrow> sum_list (CHARGED k) = META_FRAMES k"

section \<open>Funded tables\<close>

text \<open>The element type of a table: its size and alignment in bytes, and the value of an all-zero slot.\<close>

record 'a elem_ty =
  ty_size :: nat
  ty_align :: nat
  ty_zero :: 'a

definition elems_per_page :: "'a elem_ty \<Rightarrow> nat" where
  "elems_per_page ty = (if ty_size ty = 0 \<or> FRAME_SIZE < ty_size ty then 0 else FRAME_SIZE div ty_size ty)"

definition INLINE_PAGES :: nat where "INLINE_PAGES = 8"

text \<open>
  \<open>dir_slots\<close> is the content of the overflow frame at \<open>dir\<close> and \<open>frame_data\<close> the content of the
  data frames, by address.
\<close>

record 'a funded =
  dir_inline :: "nat list"
  dir :: nat
  dir_slots :: "nat list"
  pages :: nat
  cap :: nat
  fowner :: owner
  frame_data :: "nat \<Rightarrow> 'a list"

definition funded_new :: "'a funded" where
  "funded_new = \<lparr> dir_inline = replicate INLINE_PAGES 0, dir = 0, dir_slots = replicate PTRS_PER_DIR 0,
     pages = 0, cap = 0, fowner = OWNER_KERNEL, frame_data = (\<lambda>_. []) \<rparr>"

definition frames_held :: "'a funded \<Rightarrow> nat" where
  "frames_held t = pages t + (if dir t \<noteq> 0 then 1 else 0)"

definition funded_set_owner :: "owner \<Rightarrow> kmem \<times> 'a funded \<Rightarrow> kmem \<times> 'a funded" where
  "funded_set_owner ow = (\<lambda>(k, t). (move_charge (fowner t) ow (frames_held t) k, t\<lparr>fowner := ow\<rparr>))"

definition max_capacity :: "'a elem_ty \<Rightarrow> nat" where
  "max_capacity ty = (INLINE_PAGES + PTRS_PER_DIR) * elems_per_page ty"

definition page_of :: "'a funded \<Rightarrow> nat \<Rightarrow> nat" where
  "page_of t page =
     (if page < INLINE_PAGES then dir_inline t ! page
      else if dir t = 0 \<or> PTRS_PER_DIR \<le> page - INLINE_PAGES then 0
      else dir_slots t ! (page - INLINE_PAGES))"

definition set_page :: "nat \<Rightarrow> nat \<Rightarrow> 'a funded \<Rightarrow> 'a funded" where
  "set_page page va t =
     (if page < INLINE_PAGES then t\<lparr>dir_inline := (dir_inline t)[page := va]\<rparr>
      else if dir t = 0 \<or> PTRS_PER_DIR \<le> page - INLINE_PAGES then t
      else t\<lparr>dir_slots := (dir_slots t)[page - INLINE_PAGES := va]\<rparr>)"

text \<open>A frame arrives zeroed: as elements, \<open>per_page\<close> zero values; as a directory, null entries.\<close>

definition take_page :: "'a elem_ty \<Rightarrow> nat \<Rightarrow> nat \<Rightarrow> 'a funded \<Rightarrow> 'a funded" where
  "take_page ty page va t =
     (set_page page va t)\<lparr>frame_data := (frame_data t)(va := replicate (elems_per_page ty) (ty_zero ty))\<rparr>"

lemma set_page_fields [simp]:
  "pages (set_page i va t) = pages t" "cap (set_page i va t) = cap t" "fowner (set_page i va t) = fowner t"
  "dir (set_page i va t) = dir t" "frame_data (set_page i va t) = frame_data t"
  by (simp_all add: set_page_def)

lemma take_page_fields [simp]:
  "pages (take_page ty i va t) = pages t" "cap (take_page ty i va t) = cap t"
  "fowner (take_page ty i va t) = fowner t" "dir (take_page ty i va t) = dir t"
  by (simp_all add: take_page_def)

function reserve_loop ::
  "'a elem_ty \<Rightarrow> nat \<Rightarrow> nat \<Rightarrow> kmem \<times> 'a funded \<Rightarrow> ((kmem \<times> 'a funded) \<times> nat \<times> bool) option" where
  "reserve_loop ty need_pages added (k, t) =
     (if need_pages \<le> pages t + added then Some ((k, t), added, True)
      else case alloc_frame (fowner t) k of
             None \<Rightarrow> None
           | Some (k', None) \<Rightarrow> Some ((k', t), added, False)
           | Some (k', Some va) \<Rightarrow> reserve_loop ty need_pages (added + 1) (k', take_page ty (pages t + added) va t))"
  by pat_completeness auto

termination
  by (relation "measure (\<lambda>(ty, need, added, k, t). need - (pages t + added))") auto

text \<open>One step of the loops that hand pages back, in \<^verbatim>\<open>reserve\<close>'s roll-back and in \<^verbatim>\<open>release\<close>.\<close>

definition drop_page :: "nat \<Rightarrow> kmem \<times> 'a funded \<Rightarrow> (kmem \<times> 'a funded) option" where
  "drop_page page = (\<lambda>(k, t).
     let va = page_of t page; t' = set_page page 0 t
     in if va \<noteq> 0 then map_option (\<lambda>k'. (k', t')) (free_frame va (fowner t) k) else Some (k, t'))"

definition drop_dir :: "kmem \<times> 'a funded \<Rightarrow> (kmem \<times> 'a funded) option" where
  "drop_dir = (\<lambda>(k, t). map_option (\<lambda>k'. (k', t\<lparr>dir := 0\<rparr>)) (free_frame (dir t) (fowner t) k))"

definition take_dir ::
  "nat \<Rightarrow> kmem \<times> 'a funded \<Rightarrow> ((kmem \<times> 'a funded) \<times> bool option) option" where
  "take_dir need_pages = (\<lambda>(k, t).
     if INLINE_PAGES < need_pages \<and> dir t = 0
     then case alloc_frame (fowner t) k of
            None \<Rightarrow> None
          | Some (k', Some va) \<Rightarrow> Some ((k', t\<lparr>dir := va, dir_slots := replicate PTRS_PER_DIR 0\<rparr>), Some True)
          | Some (k', None) \<Rightarrow> Some ((k', t), None)
     else Some ((k, t), Some False))"

text \<open>The part of \<^verbatim>\<open>reserve\<close> after its early returns: directory, pages, roll-back or commit.\<close>

definition reserve_pages :: "'a elem_ty \<Rightarrow> nat \<Rightarrow> kmem \<times> 'a funded \<Rightarrow> ((kmem \<times> 'a funded) \<times> bool) option" where
  "reserve_pages ty need_pages s =
     (case take_dir need_pages s of
        None \<Rightarrow> None
      | Some (s1, None) \<Rightarrow> Some (s1, False)
      | Some (s1, Some fresh_dir) \<Rightarrow>
          (case reserve_loop ty need_pages 0 s1 of
             None \<Rightarrow> None
           | Some ((k, t), added, True) \<Rightarrow>
               Some ((k, t\<lparr>pages := pages t + added, cap := (pages t + added) * elems_per_page ty\<rparr>), True)
           | Some (s2, added, False) \<Rightarrow>
               do { s3 \<leftarrow> for_each drop_page [pages (snd s2)..<pages (snd s2) + added] s2;
                    s4 \<leftarrow> (if fresh_dir then drop_dir s3 else Some s3);
                    Some (s4, False) }))"

definition reserve :: "'a elem_ty \<Rightarrow> nat \<Rightarrow> kmem \<times> 'a funded \<Rightarrow> ((kmem \<times> 'a funded) \<times> bool) option" where
  "reserve ty want s =
     (let per_page = elems_per_page ty; need_pages = (want + per_page - 1) div per_page
      in if per_page = 0 \<or> FRAME_SIZE < ty_align ty then Some (s, False)
         else if want \<le> cap (snd s) then Some (s, True)
         else if INLINE_PAGES + PTRS_PER_DIR < need_pages then Some (s, False)
         else reserve_pages ty need_pages s)"

definition slot_ptr :: "'a elem_ty \<Rightarrow> 'a funded \<Rightarrow> nat \<Rightarrow> (nat \<times> nat) option option" where
  "slot_ptr ty t index =
     (if cap t \<le> index then Some None
      else let page = index div elems_per_page ty; offset = index mod elems_per_page ty;
               base = page_of t page
           in if INLINE_PAGES \<le> page \<and> dir t = 0 then None
              else if base = 0 then None
              else Some (Some (base, offset)))"

definition funded_get :: "'a elem_ty \<Rightarrow> 'a funded \<Rightarrow> nat \<Rightarrow> 'a option option" where
  "funded_get ty t index =
     map_option (map_option (\<lambda>(base, offset). frame_data t base ! offset)) (slot_ptr ty t index)"

definition funded_set :: "'a elem_ty \<Rightarrow> nat \<Rightarrow> 'a \<Rightarrow> 'a funded \<Rightarrow> ('a funded \<times> bool) option" where
  "funded_set ty index v t =
     map_option (\<lambda>r. case r of
         None \<Rightarrow> (t, False)
       | Some (base, offset) \<Rightarrow>
           (t\<lparr>frame_data := (frame_data t)(base := (frame_data t base)[offset := v])\<rparr>, True)) (slot_ptr ty t index)"

definition set_growing ::
  "'a elem_ty \<Rightarrow> nat \<Rightarrow> 'a \<Rightarrow> kmem \<times> 'a funded \<Rightarrow> ((kmem \<times> 'a funded) \<times> bool) option" where
  "set_growing ty index v s =
     do { (s1, ok) \<leftarrow> (if cap (snd s) \<le> index then reserve ty (index + 1) s else Some (s, True));
          if \<not> ok then Some (s1, False)
          else map_option (\<lambda>(t, ok). ((fst s1, t), ok)) (funded_set ty index v (snd s1)) }"

definition funded_fill :: "'a elem_ty \<Rightarrow> 'a \<Rightarrow> 'a funded \<Rightarrow> 'a funded option" where
  "funded_fill ty v t = for_each (\<lambda>i t. map_option fst (funded_set ty i v t)) [0..<cap t] t"

definition funded_release :: "kmem \<times> 'a funded \<Rightarrow> (kmem \<times> 'a funded) option" where
  "funded_release = (\<lambda>(k, t).
     do { s \<leftarrow> for_each drop_page [0..<pages t] (k, t\<lparr>cap := 0, pages := 0\<rparr>);
          if dir (snd s) \<noteq> 0 then drop_dir s else Some s })"

section \<open>Elastic tables\<close>

record 'a elastic =
  inline :: "'a list"
  tail :: "'a funded"

definition with_inline :: "'a list \<Rightarrow> 'a elastic" where
  "with_inline xs = \<lparr> inline = xs, tail = funded_new \<rparr>"

definition elastic_capacity :: "'a elastic \<Rightarrow> nat" where
  "elastic_capacity e = length (inline e) + cap (tail e)"

definition elastic_get :: "'a elem_ty \<Rightarrow> 'a elastic \<Rightarrow> nat \<Rightarrow> 'a option option" where
  "elastic_get ty e i =
     (if i < length (inline e) then Some (nth_opt (inline e) i) else funded_get ty (tail e) (i - length (inline e)))"

definition elastic_set :: "'a elem_ty \<Rightarrow> nat \<Rightarrow> 'a \<Rightarrow> 'a elastic \<Rightarrow> ('a elastic \<times> bool) option" where
  "elastic_set ty i v e =
     (if i < length (inline e) then Some (e\<lparr>inline := (inline e)[i := v]\<rparr>, True)
      else map_option (\<lambda>(t, ok). (e\<lparr>tail := t\<rparr>, ok)) (funded_set ty (i - length (inline e)) v (tail e)))"

definition elastic_grow ::
  "'a elem_ty \<Rightarrow> 'a \<Rightarrow> kmem \<times> 'a elastic \<Rightarrow> ((kmem \<times> 'a elastic) \<times> nat option) option" where
  "elastic_grow ty em = (\<lambda>(k, e).
     let want = cap (tail e)
     in do { ((k', t), ok) \<leftarrow> set_growing ty want em (k, tail e);
             if \<not> ok then Some ((k', e\<lparr>tail := t\<rparr>), None)
             else do { t' \<leftarrow> for_each (\<lambda>i t. map_option fst (funded_set ty i em t)) [want..<cap t] t;
                       Some ((k', e\<lparr>tail := t'\<rparr>), Some (length (inline e) + want)) } })"

fun scan_from :: "'a elem_ty \<Rightarrow> ('a \<Rightarrow> bool) \<Rightarrow> 'a elastic \<Rightarrow> nat list \<Rightarrow> nat option option" where
  "scan_from ty P e [] = Some None"
| "scan_from ty P e (i # is) =
     do { r \<leftarrow> elastic_get ty e i;
          if (case r of Some x \<Rightarrow> P x | None \<Rightarrow> False) then Some (Some i) else scan_from ty P e is }"

definition elastic_position :: "'a elem_ty \<Rightarrow> ('a \<Rightarrow> bool) \<Rightarrow> 'a elastic \<Rightarrow> nat option option" where
  "elastic_position ty P e = scan_from ty P e [0..<elastic_capacity e]"

definition elastic_alloc ::
  "'a elem_ty \<Rightarrow> 'a \<Rightarrow> ('a \<Rightarrow> bool) \<Rightarrow> kmem \<times> 'a elastic \<Rightarrow> ((kmem \<times> 'a elastic) \<times> nat option) option" where
  "elastic_alloc ty em is_free s =
     do { r \<leftarrow> elastic_position ty is_free (snd s);
          case r of Some i \<Rightarrow> Some (s, Some i) | None \<Rightarrow> elastic_grow ty em s }"

definition elastic_set_owner :: "owner \<Rightarrow> kmem \<times> 'a elastic \<Rightarrow> kmem \<times> 'a elastic" where
  "elastic_set_owner ow = (\<lambda>(k, e). let (k', t) = funded_set_owner ow (k, tail e) in (k', e\<lparr>tail := t\<rparr>))"

text \<open>The \<^verbatim>\<open>while\<close> loop of \<^verbatim>\<open>grow_to\<close>; not returning would be \<open>None\<close>.\<close>

partial_function (option) elastic_grow_to ::
  "'a elem_ty \<Rightarrow> 'a \<Rightarrow> nat \<Rightarrow> kmem \<times> 'a elastic \<Rightarrow> ((kmem \<times> 'a elastic) \<times> nat option) option" where
  "elastic_grow_to ty em i s =
     (if elastic_capacity (snd s) \<le> i
      then do { (s', r) \<leftarrow> elastic_grow ty em s;
                case r of None \<Rightarrow> Some (s', None) | Some _ \<Rightarrow> elastic_grow_to ty em i s' }
      else Some (s, Some (elastic_capacity (snd s))))"

definition elastic_for_each_mut :: "'a elem_ty \<Rightarrow> ('a \<Rightarrow> 'a) \<Rightarrow> 'a elastic \<Rightarrow> 'a elastic option" where
  "elastic_for_each_mut ty f e =
     for_each (\<lambda>i e. do { r \<leftarrow> elastic_get ty e i;
                          case r of None \<Rightarrow> Some e | Some x \<Rightarrow> map_option fst (elastic_set ty i (f x) e) })
       [0..<elastic_capacity e] e"

definition elastic_reset :: "'a \<Rightarrow> kmem \<times> 'a elastic \<Rightarrow> (kmem \<times> 'a elastic) option" where
  "elastic_reset em = (\<lambda>(k, e).
     do { (k', t) \<leftarrow> funded_release (k, tail e);
          Some (k', e\<lparr>inline := replicate (length (inline e)) em, tail := t\<rparr>) })"

section \<open>The ledger's invariant\<close>

text \<open>
  The charges add up to the number of metadata frames, each of which is an allocated frame of the
  pool: so no charge ever reaches the saturation point of its 32-bit counter.
\<close>

definition km_inv :: "kmem \<Rightarrow> bool" where
  "km_inv k \<longleftrightarrow> pool_inv (POOL k) \<and> length (CHARGED k) = MAX_OWNERS \<and>
     ledger_consistent k \<and> META_FRAMES k \<le> USED (POOL k)"

abbreviation refs_of :: "kmem \<Rightarrow> nat \<Rightarrow> nat" where
  "refs_of k \<equiv> frames_refs (POOL k)"

definition others :: "owner \<Rightarrow> kmem \<Rightarrow> nat list \<times> nat list" where
  "others ow k = ((CHARGED k)[ledger_slot ow := 0], OWNER_NODE k)"

lemma ledger_slot_less [simp]: "ledger_slot ow < MAX_OWNERS"
  by (auto simp: ledger_slot_def MAX_OWNERS_def min_def)

lemma pool_used_le: "pool_inv p \<Longrightarrow> USED p \<le> POOL_FRAMES"
  using card_mono [of "{..<POOL_FRAMES}" "allocated p"] pool_invD(6) [of p]
  by (auto simp: allocated_def)

lemma charge_le:
  assumes "km_inv k" and "s < MAX_OWNERS"
  shows "CHARGED k ! s \<le> META_FRAMES k" "CHARGED k ! s < u32_max"
proof -
  show le: "CHARGED k ! s \<le> META_FRAMES k"
    using elem_le_sum_list [of s "CHARGED k"] assms by (simp add: km_inv_def ledger_consistent_def)
  have "META_FRAMES k \<le> POOL_FRAMES" using pool_used_le [of "POOL k"] assms by (simp add: km_inv_def)
  with le show "CHARGED k ! s < u32_max" by (simp add: u32_max_def POOL_FRAMES_def)
qed

lemma km_inv_new: "pool_inv p \<Longrightarrow> km_inv (kmem_new p)"
  by (simp add: km_inv_def kmem_new_def ledger_consistent_def)

lemma alloc_frame_cases:
  assumes "km_inv k"
  obtains (refused) k' where "alloc_frame ow k = Some (k', None)" and "km_inv k'"
      and "refs_of k' = refs_of k" and "CHARGED k' = CHARGED k" and "OWNER_NODE k' = OWNER_NODE k"
  | (took) k' a where "alloc_frame ow k = Some (k', Some a)" and "km_inv k'" and "a \<noteq> 0"
      and "refs_of k a = 0" and "refs_of k' = (refs_of k)(a := 1)" and "OWNER_NODE k' = OWNER_NODE k"
      and "CHARGED k' = (CHARGED k)[ledger_slot ow := charged ow k + 1]"
proof (cases "POOL_FRAMES - USED (POOL k) \<le> META_RESERVE_FRAMES")
  case True
  then show ?thesis using assms by (intro that(1) [of k]) (simp_all add: alloc_frame_def frames_stats_def)
next
  case room: False
  from assms have pool: "pool_inv (POOL k)" by (simp add: km_inv_def)
  show ?thesis
    using pool
  proof (cases rule: alloc_on_cases [of "POOL k" "owner_node ow k"])
    case (full q)
    have "USED q = USED (POOL k)" using full(3,5) pool by (simp add: pool_invD(6))
    with full room assms show ?thesis
      by (intro that(1) [of "k\<lparr>POOL := q\<rparr>"])
         (simp_all add: alloc_frame_def frames_stats_def km_inv_def ledger_consistent_def)
  next
    case (took q f)
    let ?c = "(CHARGED k)[ledger_slot ow := charged ow k + 1]"
    let ?k = "k\<lparr>POOL := q, CHARGED := ?c, META_FRAMES := META_FRAMES k + 1, META_ALLOCS := META_ALLOCS k + 1\<rparr>"
    have "min (CHARGED k ! ledger_slot ow + 1) u32_max = charged ow k + 1"
      using charge_le(2) [OF assms, of "ledger_slot ow"] by (simp add: charged_def)
    then have "alloc_frame ow k = Some (?k, Some (pa_of (POOL k) f))"
      using room took(1) by (simp add: alloc_frame_def frames_stats_def Let_def)
    moreover have "USED q = USED (POOL k) + 1" by (rule USED_insert [OF pool took(4,3,5)])
    then have "km_inv ?k"
      using assms took(4) elem_le_sum_list [of "ledger_slot ow" "CHARGED k"]
      by (simp add: km_inv_def ledger_consistent_def sum_list_update charged_def)
    ultimately show ?thesis
      using took(2,3,6) pool pa_of_nonzero [of "POOL k" f] frames_refs_zero [of "POOL k" f]
      by (intro that(2) [of ?k "pa_of (POOL k) f"]) simp_all
  qed
qed

lemma free_frame_spec:
  assumes inv: "km_inv k" and ref: "refs_of k a = 1" and owed: "0 < charged ow k"
  shows "\<exists>k'. free_frame a ow k = Some k' \<and> km_inv k' \<and> refs_of k' = (refs_of k)(a := 0) \<and>
    CHARGED k' = (CHARGED k)[ledger_slot ow := charged ow k - 1] \<and> OWNER_NODE k' = OWNER_NODE k"
proof -
  from inv have pool: "pool_inv (POOL k)" by (simp add: km_inv_def)
  have meta: "charged ow k \<le> META_FRAMES k"
    using charge_le(1) [OF inv, of "ledger_slot ow"] by (simp add: charged_def)
  from free_if_pool_spec [OF pool, of a] ref obtain q where
    q: "free_if_pool a (POOL k) = Some (q, True)" "pool_inv q" "frames_refs q = (refs_of k)(a := 0)"
      "USED q = USED (POOL k) - 1" by auto
  let ?k = "k\<lparr>CHARGED := (CHARGED k)[ledger_slot ow := charged ow k - 1], META_FREES := META_FREES k + 1,
      META_FRAMES := META_FRAMES k - 1, POOL := q\<rparr>"
  have "free_frame a ow k = Some ?k"
    using q(1) meta owed by (simp add: free_frame_def charged_def Let_def)
  moreover have "km_inv ?k"
    using inv q(2,4) owed meta elem_le_sum_list [of "ledger_slot ow" "CHARGED k"]
    by (auto simp: km_inv_def ledger_consistent_def sum_list_update charged_def)
  ultimately show ?thesis using q(3) by (intro exI [of _ ?k]) simp
qed

lemma charged_update:
  "length (CHARGED k) = MAX_OWNERS \<Longrightarrow> CHARGED k' = (CHARGED k)[ledger_slot ow := c] \<Longrightarrow> charged ow k' = c"
  by (simp add: charged_def)

lemma km_inv_length: "km_inv k \<Longrightarrow> length (CHARGED k) = MAX_OWNERS"
  by (simp add: km_inv_def)

interpretation kf: frame_source "alloc_frame ow" "\<lambda>a. free_frame a ow" refs_of "charged ow" "others ow" km_inv
  for ow
proof
  fix s assume "km_inv s"
  then show "\<exists>s' r. alloc_frame ow s = Some (s', r)" by (cases rule: alloc_frame_cases [of s ow]) auto
next
  fix s s' assume inv: "km_inv s" and got: "alloc_frame ow s = Some (s', None)"
  from inv show "km_inv s' \<and> refs_of s' = refs_of s \<and> charged ow s' = charged ow s \<and> others ow s' = others ow s"
    using got by (cases rule: alloc_frame_cases [of s ow]) (auto simp: charged_def others_def)
next
  fix s s' a assume inv: "km_inv s" and got: "alloc_frame ow s = Some (s', Some a)"
  from inv show "km_inv s' \<and> a \<noteq> 0 \<and> refs_of s a = 0 \<and> refs_of s' = (refs_of s)(a := 1) \<and>
      charged ow s' = charged ow s + 1 \<and> others ow s' = others ow s"
    using got charged_update [OF km_inv_length [OF inv], of s' ow]
    by (cases rule: alloc_frame_cases [of s ow]) (auto simp: others_def)
next
  fix s a assume inv: "km_inv s" and "refs_of s a = 1" "0 < charged ow s"
  from free_frame_spec [OF this] obtain s' where
    s': "free_frame a ow s = Some s'" "km_inv s'" "refs_of s' = (refs_of s)(a := 0)"
      "CHARGED s' = (CHARGED s)[ledger_slot ow := charged ow s - 1]" "OWNER_NODE s' = OWNER_NODE s" by blast
  then show "\<exists>s'. free_frame a ow s = Some s' \<and> km_inv s' \<and> refs_of s' = (refs_of s)(a := 0) \<and>
      charged ow s' = charged ow s - 1 \<and> others ow s' = others ow s"
    using charged_update [OF km_inv_length [OF inv] s'(4)] by (auto simp: others_def)
qed

section \<open>The table's invariant\<close>

abbreviation dir_frames :: "'a funded \<Rightarrow> nat list" where
  "dir_frames t \<equiv> (if dir t \<noteq> 0 then [dir t] else [])"

definition frames_of :: "'a funded \<Rightarrow> nat \<Rightarrow> nat list" where
  "frames_of t n = dir_frames t @ map (page_of t) [0..<n]"

definition tab_inv :: "'a elem_ty \<Rightarrow> kmem \<Rightarrow> 'a funded \<Rightarrow> nat \<Rightarrow> bool" where
  "tab_inv ty k t n \<longleftrightarrow> 0 < elems_per_page ty \<and>
     length (dir_inline t) = INLINE_PAGES \<and> length (dir_slots t) = PTRS_PER_DIR \<and>
     n \<le> INLINE_PAGES + PTRS_PER_DIR \<and> (INLINE_PAGES < n \<longrightarrow> dir t \<noteq> 0) \<and>
     distinct (frames_of t n) \<and> (\<forall>a \<in> set (frames_of t n). a \<noteq> 0 \<and> refs_of k a = 1) \<and>
     (\<forall>i < n. length (frame_data t (page_of t i)) = elems_per_page ty) \<and>
     length (frames_of t n) \<le> charged (fowner t) k"

definition funded_inv :: "'a elem_ty \<Rightarrow> kmem \<Rightarrow> 'a funded \<Rightarrow> bool" where
  "funded_inv ty k t \<longleftrightarrow> tab_inv ty k t (pages t) \<and> cap t = pages t * elems_per_page ty"

abbreviation held :: "'a funded \<Rightarrow> nat list" where
  "held t \<equiv> frames_of t (pages t)"

lemma length_held: "length (held t) = frames_held t"
  by (simp add: frames_of_def frames_held_def)

lemma tab_invD:
  assumes "tab_inv ty k t n"
  shows "0 < elems_per_page ty" "length (dir_inline t) = INLINE_PAGES" "length (dir_slots t) = PTRS_PER_DIR"
    "n \<le> INLINE_PAGES + PTRS_PER_DIR" "INLINE_PAGES < n \<Longrightarrow> dir t \<noteq> 0" "distinct (frames_of t n)"
    "a \<in> set (frames_of t n) \<Longrightarrow> a \<noteq> 0 \<and> refs_of k a = 1"
    "i < n \<Longrightarrow> length (frame_data t (page_of t i)) = elems_per_page ty"
    "length (frames_of t n) \<le> charged (fowner t) k"
  using assms by (auto simp: tab_inv_def)

lemma page_of_frames: "i < n \<Longrightarrow> page_of t i \<in> set (frames_of t n)"
  by (auto simp: frames_of_def)

definition addressable :: "'a funded \<Rightarrow> nat \<Rightarrow> bool" where
  "addressable t i \<longleftrightarrow> i < INLINE_PAGES \<or> dir t \<noteq> 0 \<and> i < INLINE_PAGES + PTRS_PER_DIR"

lemma page_of_set_page:
  assumes "length (dir_inline t) = INLINE_PAGES" and "length (dir_slots t) = PTRS_PER_DIR"
  shows "page_of (set_page i va t) j = (if j = i \<and> addressable t i then va else page_of t j)"
  using assms by (auto simp: page_of_def set_page_def addressable_def nth_list_update)

lemma set_page_lengths [simp]:
  "length (dir_inline (set_page i va t)) = length (dir_inline t)"
  "length (dir_slots (set_page i va t)) = length (dir_slots t)"
  by (simp_all add: set_page_def)

lemma frames_of_set_page:
  assumes "length (dir_inline t) = INLINE_PAGES" and "length (dir_slots t) = PTRS_PER_DIR" and "n \<le> i"
  shows "frames_of (set_page i va t) n = frames_of t n"
  using assms by (auto simp: frames_of_def page_of_set_page)

lemma page_of_data [simp]: "page_of (t\<lparr>frame_data := d\<rparr>) = page_of t"
  "page_of (t\<lparr>cap := c\<rparr>) = page_of t" "page_of (t\<lparr>pages := n\<rparr>) = page_of t" "page_of (t\<lparr>fowner := ow\<rparr>) = page_of t"
  by (simp_all add: page_of_def fun_eq_iff)

lemma frames_of_data [simp]: "frames_of (t\<lparr>frame_data := d\<rparr>) = frames_of t"
  "frames_of (t\<lparr>cap := c\<rparr>) = frames_of t" "frames_of (t\<lparr>pages := m\<rparr>) = frames_of t"
  "frames_of (t\<lparr>fowner := ow\<rparr>) = frames_of t"
  by (simp_all add: frames_of_def fun_eq_iff)

text \<open>Handing back a list of pages is handing back their frames and clearing their entries.\<close>

lemma drop_pages_split:
  assumes "distinct is" and "\<And>i. i \<in> set is \<Longrightarrow> page_of t i \<noteq> 0"
    and "length (dir_inline t) = INLINE_PAGES" and "length (dir_slots t) = PTRS_PER_DIR"
  shows "for_each drop_page is (k, t) =
    map_option (\<lambda>k'. (k', foldl (\<lambda>t i. set_page i 0 t) t is))
      (for_each (\<lambda>a. free_frame a (fowner t)) (map (page_of t) is) k)"
  using assms
proof (induction "is" arbitrary: k t)
  case Nil
  then show ?case by simp
next
  case (Cons i "is")
  have same: "map (page_of (set_page i 0 t)) is = map (page_of t) is"
    using Cons.prems by (auto simp: page_of_set_page)
  have "page_of (set_page i 0 t) j \<noteq> 0" if "j \<in> set is" for j
    using Cons.prems that by (auto simp: page_of_set_page)
  then have IH: "for_each drop_page is (k', set_page i 0 t) =
      map_option (\<lambda>k''. (k'', foldl (\<lambda>t i. set_page i 0 t) (set_page i 0 t) is))
        (for_each (\<lambda>a. free_frame a (fowner t)) (map (page_of t) is) k')" for k'
    using Cons.IH [of "set_page i 0 t" k'] Cons.prems same by simp
  show ?case
  proof (cases "free_frame (page_of t i) (fowner t) k")
    case None
    then show ?thesis using Cons.prems(2) [of i] by (simp add: drop_page_def)
  next
    case (Some k')
    then have "drop_page i (k, t) = Some (k', set_page i 0 t)"
      using Cons.prems(2) [of i] by (simp add: drop_page_def)
    with Some IH [of k'] show ?thesis by simp
  qed
qed

lemma clear_pages:
  assumes "length (dir_inline t) = INLINE_PAGES" and "length (dir_slots t) = PTRS_PER_DIR"
    and "\<And>i. i \<in> set is \<Longrightarrow> n \<le> i"
  shows "let t' = foldl (\<lambda>t i. set_page i 0 t) t is
    in (\<forall>i < n. page_of t' i = page_of t i) \<and> frames_of t' n = frames_of t n \<and>
       dir t' = dir t \<and> pages t' = pages t \<and> cap t' = cap t \<and> fowner t' = fowner t \<and>
       frame_data t' = frame_data t \<and> length (dir_inline t') = INLINE_PAGES \<and> length (dir_slots t') = PTRS_PER_DIR"
  using assms
proof (induction "is" arbitrary: t)
  case Nil
  then show ?case by simp
next
  case (Cons i "is")
  have "n \<le> i" using Cons.prems(3) by simp
  with Cons.IH [of "set_page i 0 t"] Cons.prems show ?case
    by (simp add: frames_of_set_page page_of_set_page Let_def)
qed

section \<open>Growing a table\<close>

text \<open>
  \<open>extends ty k0 t0 n0 k t n\<close>: from the table \<open>t0\<close> with \<open>n0\<close> pages the state \<open>(k, t)\<close> with \<open>n\<close>
  pages was reached by taking fresh zeroed frames only.
\<close>

definition extends ::
  "'a elem_ty \<Rightarrow> kmem \<Rightarrow> 'a funded \<Rightarrow> nat \<Rightarrow> kmem \<Rightarrow> 'a funded \<Rightarrow> nat \<Rightarrow> bool" where
  "extends ty k0 t0 n0 k t n \<longleftrightarrow> km_inv k \<and> tab_inv ty k t n \<and> n0 \<le> n \<and>
     fowner t = fowner t0 \<and> pages t = pages t0 \<and> cap t = cap t0 \<and> (dir t0 \<noteq> 0 \<longrightarrow> dir t = dir t0) \<and>
     others (fowner t0) k = others (fowner t0) k0 \<and>
     (\<forall>i < n0. page_of t i = page_of t0 i \<and> frame_data t (page_of t0 i) = frame_data t0 (page_of t0 i)) \<and>
     (\<forall>i < n. n0 \<le> i \<longrightarrow> frame_data t (page_of t i) = replicate (elems_per_page ty) (ty_zero ty)) \<and>
     set (frames_of t0 n0) \<subseteq> set (frames_of t n) \<and>
     refs_of k = (\<lambda>a. if a \<in> set (frames_of t n) then 1 else refs_of k0 a) \<and>
     (\<forall>a \<in> set (frames_of t n) - set (frames_of t0 n0). refs_of k0 a = 0) \<and>
     charged (fowner t0) k + length (frames_of t0 n0) = charged (fowner t0) k0 + length (frames_of t n)"

lemma extendsD:
  assumes "extends ty k0 t0 n0 k t n"
  shows "km_inv k" "tab_inv ty k t n" "n0 \<le> n" "fowner t = fowner t0" "pages t = pages t0" "cap t = cap t0"
    "dir t0 \<noteq> 0 \<Longrightarrow> dir t = dir t0" "others (fowner t0) k = others (fowner t0) k0"
    "i < n0 \<Longrightarrow> page_of t i = page_of t0 i"
    "i < n0 \<Longrightarrow> frame_data t (page_of t0 i) = frame_data t0 (page_of t0 i)"
    "i < n \<Longrightarrow> n0 \<le> i \<Longrightarrow> frame_data t (page_of t i) = replicate (elems_per_page ty) (ty_zero ty)"
    "set (frames_of t0 n0) \<subseteq> set (frames_of t n)"
    "refs_of k = (\<lambda>a. if a \<in> set (frames_of t n) then 1 else refs_of k0 a)"
    "a \<in> set (frames_of t n) \<Longrightarrow> a \<notin> set (frames_of t0 n0) \<Longrightarrow> refs_of k0 a = 0"
    "charged (fowner t0) k + length (frames_of t0 n0) = charged (fowner t0) k0 + length (frames_of t n)"
  using assms by (auto simp: extends_def)

lemma extends_refl:
  assumes "km_inv k" and "tab_inv ty k t n"
  shows "extends ty k t n k t n"
  using assms tab_invD(7) [OF assms(2)] by (auto simp: extends_def fun_eq_iff)

lemma extends_pool:
  assumes ext: "extends ty k0 t0 n0 k t n" and k': "km_inv k'" "refs_of k' = refs_of k"
    "charged (fowner t0) k' = charged (fowner t0) k" "others (fowner t0) k' = others (fowner t0) k"
  shows "extends ty k0 t0 n0 k' t n"
proof -
  have "tab_inv ty k' t n"
    using extendsD(2,4) [OF ext] k'(2,3) by (auto simp: tab_inv_def)
  with ext k' show ?thesis by (auto simp: extends_def)
qed

lemma frames_of_take_page:
  assumes "tab_inv ty k t n" and "addressable t n"
  shows "frames_of (take_page ty n a t) (Suc n) = frames_of t n @ [a]"
  using assms tab_invD(2,3) [OF assms(1)]
  by (auto simp: frames_of_def take_page_def page_of_set_page)

lemma extends_take_page:
  assumes ext: "extends ty k0 t0 n0 k t n" and room: "addressable t n"
    and k': "km_inv k'" and fresh: "a \<noteq> 0" "refs_of k a = 0" "refs_of k' = (refs_of k)(a := 1)"
    and owed: "charged (fowner t0) k' = charged (fowner t0) k + 1" "others (fowner t0) k' = others (fowner t0) k"
  shows "extends ty k0 t0 n0 k' (take_page ty n a t) (Suc n)"
proof -
  let ?t = "take_page ty n a t"
  note ext = extendsD [OF ext]
  note tab = tab_invD [OF ext(2)]
  have fr: "frames_of ?t (Suc n) = frames_of t n @ [a]"
    by (rule frames_of_take_page [OF ext(2) room])
  have page: "page_of ?t i = (if i = n then a else page_of t i)" for i
    using tab(2,3) room by (simp add: take_page_def page_of_set_page)
  have new: "a \<notin> set (frames_of t n)" using tab(7) fresh(2) by auto
  have data: "frame_data ?t (page_of t i) = frame_data t (page_of t i)" if "i < n" for i
    using new page_of_frames [OF that, of t] by (auto simp: take_page_def)
  have at: "frame_data ?t a = replicate (elems_per_page ty) (ty_zero ty)" by (simp add: take_page_def)
  have "Suc n \<le> INLINE_PAGES + PTRS_PER_DIR" "INLINE_PAGES < Suc n \<Longrightarrow> dir t \<noteq> 0"
    using room by (auto simp: addressable_def)
  moreover have "length (frame_data ?t (page_of ?t i)) = elems_per_page ty" if "i < Suc n" for i
    using that data tab(8) at by (cases "i = n") (auto simp: page)
  moreover have "length (frames_of t n) \<le> charged (fowner t0) k" using tab(9) ext(4) by simp
  ultimately have "tab_inv ty k' ?t (Suc n)"
    using tab(1-3,6,7) new fresh owed(1) ext(4)
    unfolding tab_inv_def fr by (auto simp: take_page_def)
  moreover have "refs_of k0 a = 0" using fresh(2) ext(13) new by auto
  moreover have "frame_data ?t (page_of t0 i) = frame_data t0 (page_of t0 i)" if "i < n0" for i
    using that ext(3,9,10) data [of i] by simp
  moreover have "frame_data ?t (page_of ?t i) = replicate (elems_per_page ty) (ty_zero ty)"
    if "i < Suc n" "n0 \<le> i" for i
    using that ext(11) data [of i] at by (cases "i = n") (auto simp: page)
  ultimately show ?thesis
    using ext fresh k' owed new unfolding extends_def fr by (auto simp: page fun_eq_iff)
qed

lemma reserve_loop_spec:
  assumes "extends ty k0 t0 n0 k t (pages t + added)" and "need \<le> INLINE_PAGES + PTRS_PER_DIR"
    and "INLINE_PAGES < need \<Longrightarrow> dir t \<noteq> 0"
  shows "\<exists>k' t' added' ok. reserve_loop ty need added (k, t) = Some ((k', t'), added', ok) \<and>
    extends ty k0 t0 n0 k' t' (pages t0 + added') \<and> dir t' = dir t \<and> (ok \<longrightarrow> need \<le> pages t0 + added') \<and>
    (\<not> ok \<longrightarrow> pages t0 + added' < need)"
  using assms
proof (induction ty need added "(k, t)" arbitrary: k t rule: reserve_loop.induct)
  case (1 ty need added k t)
  show ?case
  proof (cases "need \<le> pages t + added")
    case True
    with "1.prems"(1) show ?thesis using extendsD(5) [OF "1.prems"(1)] by (auto intro!: exI)
  next
    case more: False
    have inv: "km_inv k" and ow: "fowner t = fowner t0" "pages t = pages t0"
      using extendsD [OF "1.prems"(1)] by auto
    from inv show ?thesis
    proof (cases rule: kf.get_cases [of k "fowner t"])
      case (refused k')
      then have "extends ty k0 t0 n0 k' t (pages t + added)"
        using extends_pool [OF "1.prems"(1)] ow by simp
      with refused(1) more ow show ?thesis by auto
    next
      case (took k' a)
      let ?t = "take_page ty (pages t + added) a t"
      have "addressable t (pages t + added)" using more "1.prems"(2,3)
        by (cases "INLINE_PAGES < need") (auto simp: addressable_def)
      then have "extends ty k0 t0 n0 k' ?t (Suc (pages t + added))"
        using extends_take_page [OF "1.prems"(1) _ took(2,3,4,5)] took(6,7) ow by simp
      then have "extends ty k0 t0 n0 k' ?t (pages ?t + (added + 1))" by simp
      from "1.hyps" [OF more took(1) refl refl this] "1.prems"(2,3) more took(1)
      show ?thesis by (auto simp del: reserve_loop.simps simp: reserve_loop.simps [of ty need added k t])
    qed
  qed
qed

lemma page_of_inline: "i < INLINE_PAGES \<Longrightarrow> page_of (t\<lparr>dir := d, dir_slots := ds\<rparr>) i = page_of t i"
  "i < INLINE_PAGES \<Longrightarrow> page_of (t\<lparr>dir := d\<rparr>) i = page_of t i"
  by (simp_all add: page_of_def)

lemma extends_take_dir:
  assumes inv: "km_inv k" "tab_inv ty k t n" and dir: "dir t = 0"
    and k': "km_inv k'" and fresh: "a \<noteq> 0" "refs_of k a = 0" "refs_of k' = (refs_of k)(a := 1)"
    and owed: "charged (fowner t) k' = charged (fowner t) k + 1" "others (fowner t) k' = others (fowner t) k"
  shows "extends ty k t n k' (t\<lparr>dir := a, dir_slots := replicate PTRS_PER_DIR 0\<rparr>) n"
proof -
  let ?t = "t\<lparr>dir := a, dir_slots := replicate PTRS_PER_DIR 0\<rparr>"
  note tab = tab_invD [OF inv(2)]
  have n: "n \<le> INLINE_PAGES" using tab(5) dir by (metis not_le)
  then have page: "page_of ?t i = page_of t i" if "i < n" for i using that by (intro page_of_inline(1)) simp
  then have fr: "frames_of ?t n = a # frames_of t n" using dir fresh(1) by (simp add: frames_of_def)
  have new: "a \<notin> set (frames_of t n)" using tab(7) fresh(2) by auto
  have "tab_inv ty k' ?t n"
    unfolding tab_inv_def fr using tab new fresh owed(1) page n by auto
  then show ?thesis
    unfolding extends_def fr using tab(7) fresh k' owed new page dir by (auto simp: fun_eq_iff)
qed

section \<open>Shrinking a table\<close>

lemma drop_pages_spec:
  assumes inv: "km_inv k" "tab_inv ty k t n" and m: "m \<le> n"
  shows "\<exists>k' t'. for_each drop_page [m..<n] (k, t) = Some (k', t') \<and> km_inv k' \<and> tab_inv ty k' t' m \<and>
    refs_of k' = (\<lambda>a. if a \<in> page_of t ` {m..<n} then 0 else refs_of k a) \<and>
    charged (fowner t) k' = charged (fowner t) k - (n - m) \<and> others (fowner t) k' = others (fowner t) k \<and>
    (\<forall>i < m. page_of t' i = page_of t i) \<and> frames_of t' m = frames_of t m \<and>
    dir t' = dir t \<and> pages t' = pages t \<and> cap t' = cap t \<and> fowner t' = fowner t \<and> frame_data t' = frame_data t"
proof -
  note tab = tab_invD [OF inv(2)]
  let ?as = "map (page_of t) [m..<n]"
  let ?t = "foldl (\<lambda>t i. set_page i 0 t) t [m..<n]"
  have split: "frames_of t n = frames_of t m @ ?as"
    using m upt_add_eq_append [of 0 m "n - m"] by (simp add: frames_of_def)
  have as: "distinct ?as" "set ?as \<inter> set (frames_of t m) = {}" "length ?as \<le> charged (fowner t) k"
    using tab(6,9) unfolding split by auto
  have "refs_of k a = 1" if "a \<in> set ?as" for a using tab(7) that unfolding split by auto
  from kf.put_each_clears [OF inv(1) as(1) this as(3)] obtain k' where
    k': "for_each (\<lambda>a. free_frame a (fowner t)) ?as k = Some k'" "km_inv k'"
      "charged (fowner t) k' = charged (fowner t) k - (n - m)" "others (fowner t) k' = others (fowner t) k"
      "refs_of k' = (\<lambda>a. if a \<in> set ?as then 0 else refs_of k a)" by auto
  have "page_of t i \<noteq> 0" if "i \<in> set [m..<n]" for i using tab(7) page_of_frames [of i n t] that by auto
  then have "for_each drop_page [m..<n] (k, t) = Some (k', ?t)"
    using drop_pages_split [OF distinct_upt _ tab(2,3)] k'(1) by simp
  moreover have t: "\<forall>i < m. page_of ?t i = page_of t i" "frames_of ?t m = frames_of t m" "dir ?t = dir t"
    "pages ?t = pages t" "cap ?t = cap t" "fowner ?t = fowner t" "frame_data ?t = frame_data t"
    "length (dir_inline ?t) = INLINE_PAGES" "length (dir_slots ?t) = PTRS_PER_DIR"
    using clear_pages [OF tab(2,3), of "[m..<n]" m] by (simp_all add: Let_def)
  have "tab_inv ty k' ?t m"
    unfolding tab_inv_def t(2)
  proof (intro conjI ballI allI impI)
    fix a assume "a \<in> set (frames_of t m)"
    then show "a \<noteq> 0" "refs_of k' a = 1" using tab(7) [of a] as(2) k'(5) unfolding split by auto
  next
    show "length (frames_of t m) \<le> charged (fowner ?t) k'"
      using tab(9) k'(3) m unfolding split t(6) by simp
  qed (use tab m t split in auto)
  ultimately show ?thesis using k' by (intro exI [of _ k'] exI [of _ ?t]) (simp add: t)
qed

lemma drop_dir_spec:
  assumes inv: "km_inv k" "tab_inv ty k t n" and dir: "dir t \<noteq> 0" and n: "n \<le> INLINE_PAGES"
  shows "\<exists>k'. drop_dir (k, t) = Some (k', t\<lparr>dir := 0\<rparr>) \<and> km_inv k' \<and> tab_inv ty k' (t\<lparr>dir := 0\<rparr>) n \<and>
    refs_of k' = (refs_of k)(dir t := 0) \<and> charged (fowner t) k' = charged (fowner t) k - 1 \<and>
    others (fowner t) k' = others (fowner t) k"
proof -
  note tab = tab_invD [OF inv(2)]
  have page: "page_of (t\<lparr>dir := 0\<rparr>) i = page_of t i" if "i < n" for i
    using that n by (intro page_of_inline(2)) simp
  then have fr: "frames_of t n = dir t # frames_of (t\<lparr>dir := 0\<rparr>) n" using dir by (simp add: frames_of_def)
  have "refs_of k (dir t) = 1" "0 < charged (fowner t) k" using tab(7) [of "dir t"] tab(9) fr by auto
  from kf.put_some [OF inv(1) this] obtain k' where
    k': "free_frame (dir t) (fowner t) k = Some k'" "km_inv k'" "refs_of k' = (refs_of k)(dir t := 0)"
      "charged (fowner t) k' = charged (fowner t) k - 1" "others (fowner t) k' = others (fowner t) k" by blast
  have "tab_inv ty k' (t\<lparr>dir := 0\<rparr>) n"
    unfolding tab_inv_def using tab k' page n fr by auto
  with k' show ?thesis by (simp add: drop_dir_def)
qed

text \<open>Undoing a growth restores the counts, the charges and the table.\<close>

lemma undo_extends:
  assumes inv: "tab_inv ty k0 t0 n0" and ext: "extends ty k0 t0 n0 k t n"
    and fresh: "fresh \<longleftrightarrow> dir t0 = 0 \<and> dir t \<noteq> 0"
  shows "\<exists>k' t'. do { s3 \<leftarrow> for_each drop_page [n0..<n] (k, t); if fresh then drop_dir s3 else Some s3 } = Some (k', t') \<and>
    km_inv k' \<and> extends ty k0 t0 n0 k' t' n0 \<and> refs_of k' = refs_of k0 \<and> frames_of t' n0 = frames_of t0 n0 \<and>
    charged (fowner t0) k' = charged (fowner t0) k0"
proof -
  note ext = extendsD [OF ext]
  note tab0 = tab_invD [OF inv]
  from drop_pages_spec [OF ext(1,2,3)] obtain k1 t1 where
    1: "for_each drop_page [n0..<n] (k, t) = Some (k1, t1)" "km_inv k1" "tab_inv ty k1 t1 n0"
      "refs_of k1 = (\<lambda>a. if a \<in> page_of t ` {n0..<n} then 0 else refs_of k a)"
      "charged (fowner t0) k1 = charged (fowner t0) k - (n - n0)" "others (fowner t0) k1 = others (fowner t0) k"
      "\<And>i. i < n0 \<Longrightarrow> page_of t1 i = page_of t i" "frames_of t1 n0 = frames_of t n0"
      "dir t1 = dir t" "pages t1 = pages t" "cap t1 = cap t" "fowner t1 = fowner t0" "frame_data t1 = frame_data t"
    using ext(4) by auto
  have split: "frames_of t n = frames_of t n0 @ map (page_of t) [n0..<n]"
    using ext(3) upt_add_eq_append [of 0 n0 "n - n0"] by (simp add: frames_of_def)
  have old: "map (page_of t) [0..<n0] = map (page_of t0) [0..<n0]" using ext(9) by auto
  have new: "page_of t ` {n0..<n} \<inter> set (frames_of t n0) = {}"
    using tab_invD(6) [OF ext(2)] unfolding split by auto
  show ?thesis
  proof (cases fresh)
    case False
    then have "dir t = dir t0" using fresh ext(7) by auto
    then have fr: "frames_of t n0 = frames_of t0 n0" using old by (simp add: frames_of_def)
    have refs: "refs_of k1 = refs_of k0"
    proof
      fix a
      show "refs_of k1 a = refs_of k0 a"
        using 1(4) ext(13) ext(14) [of a] tab0(7) [of a] new unfolding split fr by (auto simp: fun_eq_iff)
    qed
    have chg: "charged (fowner t0) k1 = charged (fowner t0) k0"
      using 1(5) ext(3,15) tab_invD(9) [OF ext(2)] ext(4) unfolding split fr by simp
    have "extends ty k0 t0 n0 k1 t1 n0"
      unfolding extends_def using 1 ext tab0 refs chg fr \<open>dir t = dir t0\<close> by (auto simp: fun_eq_iff)
    with 1 False refs chg fr show ?thesis by auto
  next
    case True
    then have d: "dir t0 = 0" "dir t \<noteq> 0" using fresh by auto
    then have n0: "n0 \<le> INLINE_PAGES" using tab0(5) by (metis not_le)
    from drop_dir_spec [OF 1(2,3) _ n0] d 1(9,12) obtain k2 where
      2: "drop_dir (k1, t1) = Some (k2, t1\<lparr>dir := 0\<rparr>)" "km_inv k2" "tab_inv ty k2 (t1\<lparr>dir := 0\<rparr>) n0"
        "refs_of k2 = (refs_of k1)(dir t := 0)" "charged (fowner t0) k2 = charged (fowner t0) k1 - 1"
        "others (fowner t0) k2 = others (fowner t0) k1" by auto
    have page: "page_of (t1\<lparr>dir := 0\<rparr>) i = page_of t0 i" if "i < n0" for i
      using page_of_inline(2) [where t = t1 and i = i and d = 0] 1(7) ext(9) that n0 by simp
    then have fr1: "frames_of (t1\<lparr>dir := 0\<rparr>) n0 = frames_of t0 n0" using d(1) by (simp add: frames_of_def)
    have fr: "frames_of t n0 = dir t # frames_of t0 n0" using old d by (simp add: frames_of_def)
    have refs: "refs_of k2 = refs_of k0"
    proof
      fix a
      have "dir t \<notin> set (frames_of t0 n0)" using tab_invD(6) [OF ext(2)] unfolding split fr by auto
      then show "refs_of k2 a = refs_of k0 a"
        using 1(4) 2(4) ext(13) ext(14) [of a] tab0(7) [of a] new unfolding split fr by (auto simp: fun_eq_iff)
    qed
    have chg: "charged (fowner t0) k2 = charged (fowner t0) k0"
      using 1(5) 2(5) ext(3,15) tab_invD(9) [OF ext(2)] ext(4) unfolding split fr by simp
    have "extends ty k0 t0 n0 k2 (t1\<lparr>dir := 0\<rparr>) n0"
      unfolding extends_def fr1 using 1 2 ext tab0 refs chg d(1) page by (auto simp: fun_eq_iff)
    with 1 2 True refs chg fr1 show ?thesis by auto
  qed
qed

section \<open>The table as a list\<close>

definition page_data :: "'a funded \<Rightarrow> nat \<Rightarrow> 'a list list" where
  "page_data t n = map (\<lambda>i. frame_data t (page_of t i)) [0..<n]"

definition contents :: "'a funded \<Rightarrow> 'a list" where
  "contents t = concat (page_data t (pages t))"

lemma funded_invD:
  assumes "funded_inv ty k t"
  shows "tab_inv ty k t (pages t)" "cap t = pages t * elems_per_page ty" "0 < elems_per_page ty"
  using assms by (auto simp: funded_inv_def dest: tab_invD(1))

lemma page_data_uniform:
  assumes "tab_inv ty k t n"
  shows "xs \<in> set (page_data t n) \<Longrightarrow> length xs = elems_per_page ty" "length (page_data t n) = n"
  using tab_invD(8) [OF assms] by (auto simp: page_data_def)

lemma length_contents:
  assumes "funded_inv ty k t"
  shows "length (contents t) = cap t"
  using length_concat_uniform [of "page_data t (pages t)", OF page_data_uniform(1) [OF funded_invD(1) [OF assms]]]
  by (simp add: contents_def page_data_uniform(2) [OF funded_invD(1) [OF assms]] funded_invD(2) [OF assms])

lemma slot_ptr_inv:
  assumes "funded_inv ty k t"
  shows "slot_ptr ty t i = Some (if i < cap t then Some (page_of t (i div elems_per_page ty), i mod elems_per_page ty)
    else None)"
proof (cases "i < cap t")
  case True
  note inv = funded_invD [OF assms]
  let ?p = "i div elems_per_page ty"
  from True have p: "?p < pages t" using inv(2) by (simp add: less_mult_imp_div_less)
  then have "page_of t ?p \<noteq> 0" using page_of_frames [OF p, of t] tab_invD(7) [OF inv(1)] by blast
  moreover have "\<not> (INLINE_PAGES \<le> ?p \<and> dir t = 0)" using tab_invD(5) [OF inv(1)] p by auto
  ultimately show ?thesis using True by (simp add: slot_ptr_def Let_def)
next
  case False
  then show ?thesis by (simp add: slot_ptr_def)
qed

lemma funded_get_inv:
  assumes "funded_inv ty k t"
  shows "funded_get ty t i = Some (nth_opt (contents t) i)"
proof (cases "i < cap t")
  case True
  note inv = funded_invD [OF assms]
  from True have "i < length (page_data t (pages t)) * elems_per_page ty"
    using inv(2) by (simp add: page_data_def)
  from nth_concat_uniform [OF page_data_uniform(1) [OF inv(1)] this]
  have "contents t ! i = page_data t (pages t) ! (i div elems_per_page ty) ! (i mod elems_per_page ty)"
    by (simp add: contents_def)
  also have "\<dots> = frame_data t (page_of t (i div elems_per_page ty)) ! (i mod elems_per_page ty)"
    using True inv(2) by (simp add: page_data_def less_mult_imp_div_less)
  finally show ?thesis
    using True length_contents [OF assms] slot_ptr_inv [OF assms, of i] by (simp add: funded_get_def nth_opt_def)
next
  case False
  then show ?thesis
    using length_contents [OF assms] slot_ptr_inv [OF assms, of i] by (simp add: funded_get_def nth_opt_def)
qed

lemma page_of_inj:
  assumes "tab_inv ty k t n" and "i < n" and "j < n" and "page_of t i = page_of t j"
  shows "i = j"
proof -
  have "inj_on (page_of t) {0..<n}" using tab_invD(6) [OF assms(1)] by (simp add: frames_of_def distinct_map)
  with assms(2-4) show ?thesis by (auto dest: inj_onD)
qed

lemma funded_set_inv:
  assumes "funded_inv ty k t"
  shows "\<exists>t'. funded_set ty i v t = Some (t', i < cap t) \<and> funded_inv ty k t' \<and>
    contents t' = (contents t)[i := v] \<and> held t' = held t \<and> cap t' = cap t \<and> pages t' = pages t \<and>
    fowner t' = fowner t \<and> dir t' = dir t"
proof (cases "i < cap t")
  case True
  note inv = funded_invD [OF assms]
  let ?pp = "elems_per_page ty" and ?p = "i div elems_per_page ty" and ?o = "i mod elems_per_page ty"
  let ?t = "t\<lparr>frame_data := (frame_data t)(page_of t ?p := (frame_data t (page_of t ?p))[?o := v])\<rparr>"
  have p: "?p < pages t" using True inv(2) by (simp add: less_mult_imp_div_less)
  have set: "funded_set ty i v t = Some (?t, True)"
    using True slot_ptr_inv [OF assms, of i] by (simp add: funded_set_def)
  have "frame_data ?t (page_of ?t j) = (page_data t (pages t))[?p := (page_data t (pages t) ! ?p)[?o := v]] ! j"
    if "j < pages t" for j
    using that p page_of_inj [OF inv(1) that p] by (auto simp: page_data_def nth_list_update)
  then have "page_data ?t (pages t) = (page_data t (pages t))[?p := (page_data t (pages t) ! ?p)[?o := v]]"
    unfolding page_data_def [of ?t] by (intro map_upt_eqI) (simp_all add: page_data_uniform(2) [OF inv(1)])
  moreover have "i < length (page_data t (pages t)) * ?pp" using True inv(2) by (simp add: page_data_def)
  ultimately have "contents ?t = (contents t)[i := v]"
    using concat_update_uniform [OF page_data_uniform(1) [OF inv(1)], where i = i and v = v] by (simp add: contents_def)
  moreover have "funded_inv ty k ?t"
    using assms by (auto simp: funded_inv_def tab_inv_def)
  ultimately show ?thesis using set True by (intro exI [of _ ?t]) simp
next
  case False
  then show ?thesis
    using slot_ptr_inv [OF assms, of i] assms length_contents [OF assms]
    by (simp add: funded_set_def list_update_beyond)
qed

section \<open>Reservation and release\<close>

definition table_grew :: "'a elem_ty \<Rightarrow> kmem \<times> 'a funded \<Rightarrow> kmem \<times> 'a funded \<Rightarrow> bool" where
  "table_grew ty = (\<lambda>(k, t) (k', t').
     km_inv k' \<and> funded_inv ty k' t' \<and> fowner t' = fowner t \<and> cap t \<le> cap t' \<and>
     contents t' = contents t @ replicate (cap t' - cap t) (ty_zero ty) \<and>
     set (held t) \<subseteq> set (held t') \<and> (\<forall>a \<in> set (held t') - set (held t). refs_of k a = 0) \<and>
     refs_of k' = (\<lambda>a. if a \<in> set (held t') then 1 else refs_of k a) \<and>
     charged (fowner t) k' + frames_held t = charged (fowner t) k + frames_held t' \<and>
     others (fowner t) k' = others (fowner t) k)"

lemma extends_grew:
  assumes inv: "funded_inv ty k t" and ext: "extends ty k t (pages t) k' t' n"
  shows "table_grew ty (k, t) (k', t'\<lparr>pages := n, cap := n * elems_per_page ty\<rparr>)"
proof -
  let ?t = "t'\<lparr>pages := n, cap := n * elems_per_page ty\<rparr>"
  note ext = extendsD [OF ext] and inv = funded_invD [OF inv]
  have "page_data t' n = page_data t (pages t) @ replicate (n - pages t) (replicate (elems_per_page ty) (ty_zero ty))"
    using ext(3,9,10,11) by (intro nth_equalityI) (auto simp: page_data_def nth_append)
  moreover have "concat (replicate m (replicate j x)) = replicate (m * j) x" for m j and x :: 'a
    by (induction m) (simp_all add: replicate_add)
  moreover have "page_data ?t n = page_data t' n" by (simp add: page_data_def page_of_def)
  ultimately have "contents ?t = contents t @ replicate (n * elems_per_page ty - cap t) (ty_zero ty)"
    using inv(2) by (simp add: contents_def diff_mult_distrib)
  moreover have fr: "frames_of ?t n = frames_of t' n" by (simp add: frames_of_def page_of_def)
  moreover have "funded_inv ty k' ?t"
    using ext(2) fr unfolding funded_inv_def tab_inv_def by (simp add: page_of_def)
  ultimately show ?thesis
    using ext inv(2) length_held [of t] length_held [of ?t]
    by (simp add: table_grew_def)
qed

lemma table_grew_refl: "km_inv k \<Longrightarrow> funded_inv ty k t \<Longrightarrow> table_grew ty (k, t) (k, t)"
  using tab_invD(7) [of ty k t "pages t"] by (auto simp: table_grew_def funded_inv_def fun_eq_iff)

lemma div_ceil_le: "0 < pp \<Longrightarrow> (want + pp - 1) div pp \<le> n \<Longrightarrow> want \<le> n * (pp :: nat)"
proof -
  assume pp: "0 < pp" and "(want + pp - 1) div pp \<le> n"
  then have "want + pp - 1 < Suc n * pp" using less_Suc_eq_le div_less_iff_less_mult by blast
  with pp show "want \<le> n * pp" by simp
qed

lemma take_dir_cases:
  assumes inv: "km_inv k" "tab_inv ty k t n"
  obtains (refused) k' where "take_dir need (k, t) = Some ((k', t), None)" and "extends ty k t n k' t n"
  | (ready) k' t' fresh where "take_dir need (k, t) = Some ((k', t'), Some fresh)" and "extends ty k t n k' t' n"
      and "INLINE_PAGES < need \<Longrightarrow> dir t' \<noteq> 0" and "fresh \<longleftrightarrow> dir t = 0 \<and> dir t' \<noteq> 0"
proof (cases "INLINE_PAGES < need \<and> dir t = 0")
  case False
  then show ?thesis using extends_refl [OF inv] by (intro that(2) [of k t False]) (auto simp: take_dir_def)
next
  case True
  from inv(1) show ?thesis
  proof (cases rule: kf.get_cases [of k "fowner t"])
    case (refused k')
    then show ?thesis
      using True extends_pool [OF extends_refl [OF inv] refused(2-5)]
      by (intro that(1) [of k']) (simp_all add: take_dir_def)
  next
    case (took k' a)
    then show ?thesis
      using True extends_take_dir [OF inv _ took(2-7)]
      by (intro that(2) [of k' "t\<lparr>dir := a, dir_slots := replicate PTRS_PER_DIR 0\<rparr>" True])
         (simp_all add: take_dir_def)
  qed
qed

lemma extends_same_pages: "extends ty k t (pages t) k' t' n \<Longrightarrow> cap t = pages t * elems_per_page ty \<Longrightarrow>
    t'\<lparr>pages := pages t, cap := pages t * elems_per_page ty\<rparr> = t'"
  by (simp add: extends_def)

lemma reserve_pages_spec:
  assumes inv: "km_inv k" "funded_inv ty k t" and need: "need \<le> INLINE_PAGES + PTRS_PER_DIR"
  shows "\<exists>k' t' ok. reserve_pages ty need (k, t) = Some ((k', t'), ok) \<and> table_grew ty (k, t) (k', t') \<and>
    (ok \<longrightarrow> need * elems_per_page ty \<le> cap t') \<and> (\<not> ok \<longrightarrow> held t' = held t \<and> cap t' = cap t)"
proof -
  note tab = funded_invD [OF inv(2)]
  show ?thesis
    using inv(1) tab(1)
  proof (cases rule: take_dir_cases [of k ty t "pages t" need])
    case (refused k1)
    from extends_grew [OF inv(2) refused(2)] extends_same_pages [OF refused(2) tab(2)]
    show ?thesis using refused(1)
      by (intro exI [of _ k1] exI [of _ t] exI [of _ False]) (simp add: reserve_pages_def)
  next
    case (ready k1 t1 fresh)
    have "pages t1 = pages t" using extendsD(5) [OF ready(2)] .
    with ready(2) have "extends ty k t (pages t) k1 t1 (pages t1 + 0)" by simp
    from reserve_loop_spec [OF this need ready(3)] \<open>pages t1 = pages t\<close> obtain k2 t2 added ok where
      loop: "reserve_loop ty need 0 (k1, t1) = Some ((k2, t2), added, ok)"
        "extends ty k t (pages t) k2 t2 (pages t + added)" "dir t2 = dir t1" "ok \<longrightarrow> need \<le> pages t + added"
      by auto
    have p2: "pages t2 = pages t" using extendsD(5) [OF loop(2)] .
    show ?thesis
    proof (cases ok)
      case True
      then have "reserve_pages ty need (k, t) =
          Some ((k2, t2\<lparr>pages := pages t + added, cap := (pages t + added) * elems_per_page ty\<rparr>), True)"
        using ready(1) loop(1) p2 by (simp add: reserve_pages_def)
      with extends_grew [OF inv(2) loop(2)] True loop(4) show ?thesis by auto
    next
      case False
      have "fresh \<longleftrightarrow> dir t = 0 \<and> dir t2 \<noteq> 0" using ready(4) loop(3) by simp
      from undo_extends [OF tab(1) loop(2) this] obtain k3 t3 where
        undo: "do { s3 \<leftarrow> for_each drop_page [pages t..<pages t + added] (k2, t2);
            if fresh then drop_dir s3 else Some s3 } = Some (k3, t3)"
          "extends ty k t (pages t) k3 t3 (pages t)" "frames_of t3 (pages t) = held t" by blast
      then have "do { s3 \<leftarrow> for_each drop_page [pages t..<pages t + added] (k2, t2);
          s4 \<leftarrow> (if fresh then drop_dir s3 else Some s3); Some (s4, False) } = Some ((k3, t3), False)"
        by (auto split: bind_splits)
      then have "reserve_pages ty need (k, t) = Some ((k3, t3), False)"
        using ready(1) loop(1) False p2 by (simp add: reserve_pages_def)
      moreover have "table_grew ty (k, t) (k3, t3)"
        using extends_grew [OF inv(2) undo(2)] extends_same_pages [OF undo(2) tab(2)] by simp
      ultimately show ?thesis using undo(3) extendsD(5,6) [OF undo(2)] by auto
    qed
  qed
qed

text \<open>
  The contract of \<^verbatim>\<open>reserve\<close>: it never panics; on success the capacity reaches the request and the
  new slots are zero; on refusal the table and every count and charge are as before.
\<close>

lemma reserve_spec:
  assumes inv: "km_inv k" "funded_inv ty k t"
  shows "\<exists>k' t' ok. reserve ty want (k, t) = Some ((k', t'), ok) \<and> table_grew ty (k, t) (k', t') \<and>
    (ok \<longrightarrow> want \<le> cap t') \<and> (\<not> ok \<longrightarrow> held t' = held t \<and> cap t' = cap t)"
proof -
  let ?need = "(want + elems_per_page ty - 1) div elems_per_page ty"
  note tab = funded_invD [OF inv(2)]
  show ?thesis
  proof (cases "FRAME_SIZE < ty_align ty \<or> want \<le> cap t \<or> INLINE_PAGES + PTRS_PER_DIR < ?need")
    case True
    then show ?thesis using table_grew_refl [OF inv] tab(3) by (auto simp: reserve_def Let_def)
  next
    case False
    then have "?need \<le> INLINE_PAGES + PTRS_PER_DIR" by simp
    from reserve_pages_spec [OF inv this] div_ceil_le [OF tab(3), of want ?need]
    show ?thesis using False tab(3) by (fastforce simp: reserve_def Let_def)
  qed
qed

text \<open>
  What every operation of a table does to the pool and the ledger: frames it added were free, frames
  it dropped are free again, its owner's charge follows its number of frames, nothing else moves.
\<close>

definition table_acct :: "'a elem_ty \<Rightarrow> kmem \<times> 'a funded \<Rightarrow> kmem \<times> 'a funded \<Rightarrow> bool" where
  "table_acct ty = (\<lambda>(k, t) (k', t').
     km_inv k' \<and> funded_inv ty k' t' \<and> fowner t' = fowner t \<and>
     (\<forall>a \<in> set (held t') - set (held t). refs_of k a = 0) \<and>
     refs_of k' = (\<lambda>a. if a \<in> set (held t') then 1 else if a \<in> set (held t) then 0 else refs_of k a) \<and>
     charged (fowner t) k' + frames_held t = charged (fowner t) k + frames_held t' \<and>
     others (fowner t) k' = others (fowner t) k)"

lemma table_grew_acct: "table_grew ty s s' \<Longrightarrow> table_acct ty s s'"
  by (auto simp: table_grew_def table_acct_def fun_eq_iff split: prod.splits)

lemma table_acct_upd:
  assumes "table_acct ty s (k, t)" and "funded_inv ty k t'" and "held t' = held t" and "pages t' = pages t"
    and "dir t' = dir t" and "fowner t' = fowner t"
  shows "table_acct ty s (k, t')"
  using assms by (auto simp: table_acct_def frames_held_def split: prod.splits)

lemma table_acct_trans:
  assumes "table_acct ty (k, t) (k1, t1)" and "table_acct ty (k1, t1) (k2, t2)"
  shows "table_acct ty (k, t) (k2, t2)"
proof -
  from assms have a: "fowner t1 = fowner t" "fowner t2 = fowner t" "km_inv k2" "funded_inv ty k2 t2"
    and new1: "\<And>a. a \<in> set (held t1) \<Longrightarrow> a \<notin> set (held t) \<Longrightarrow> refs_of k a = 0"
    and new2: "\<And>a. a \<in> set (held t2) \<Longrightarrow> a \<notin> set (held t1) \<Longrightarrow> refs_of k1 a = 0"
    and refs1: "\<And>a. refs_of k1 a = (if a \<in> set (held t1) then 1 else if a \<in> set (held t) then 0 else refs_of k a)"
    and refs2: "\<And>a. refs_of k2 a = (if a \<in> set (held t2) then 1 else if a \<in> set (held t1) then 0 else refs_of k1 a)"
    and chg: "charged (fowner t) k2 + frames_held t = charged (fowner t) k + frames_held t2"
      "others (fowner t) k2 = others (fowner t) k"
    by (auto simp: table_acct_def)
  have "refs_of k a = 0" if "a \<in> set (held t2)" "a \<notin> set (held t)" for a
    using that new1 new2 [of a] refs1 [of a] by (cases "a \<in> set (held t1)") auto
  moreover have "refs_of k2 a = (if a \<in> set (held t2) then 1 else if a \<in> set (held t) then 0 else refs_of k a)" for a
    using refs1 [of a] refs2 [of a] new1 [of a] by auto
  ultimately show ?thesis using a chg by (auto simp: table_acct_def fun_eq_iff)
qed

lemma set_growing_spec:
  assumes inv: "km_inv k" "funded_inv ty k t"
  shows "\<exists>k' t' ok. set_growing ty i v (k, t) = Some ((k', t'), ok) \<and> table_acct ty (k, t) (k', t') \<and>
    cap t \<le> cap t' \<and> (ok \<longrightarrow> i < cap t') \<and> (\<not> ok \<longrightarrow> held t' = held t \<and> cap t' = cap t) \<and>
    contents t' = (if ok then (contents t @ replicate (cap t' - cap t) (ty_zero ty))[i := v] else contents t)"
proof -
  obtain k1 t1 ok where 1: "(if cap t \<le> i then reserve ty (i + 1) (k, t) else Some ((k, t), True)) = Some ((k1, t1), ok)"
    "table_grew ty (k, t) (k1, t1)" "ok \<Longrightarrow> i < cap t1" "\<not> ok \<Longrightarrow> held t1 = held t \<and> cap t1 = cap t"
  proof (cases "cap t \<le> i")
    case True
    from reserve_spec [OF inv, of "i + 1"] True that show ?thesis by (auto simp: Suc_le_eq)
  next
    case False
    with table_grew_refl [OF inv] that [of k t True] show ?thesis by simp
  qed
  have g: "funded_inv ty k1 t1" "contents t1 = contents t @ replicate (cap t1 - cap t) (ty_zero ty)" "cap t \<le> cap t1"
    using 1(2) by (auto simp: table_grew_def)
  show ?thesis
  proof (cases ok)
    case False
    with 1 g table_grew_acct [OF 1(2)] show ?thesis by (auto simp: set_growing_def)
  next
    case True
    from funded_set_inv [OF g(1), of i v] obtain t2 where
      t2: "funded_set ty i v t1 = Some (t2, i < cap t1)" "funded_inv ty k1 t2" "contents t2 = (contents t1)[i := v]"
        "held t2 = held t1" "cap t2 = cap t1" "pages t2 = pages t1" "fowner t2 = fowner t1" "dir t2 = dir t1" by blast
    have "table_acct ty (k, t) (k1, t2)"
      by (rule table_acct_upd [OF table_grew_acct [OF 1(2)] t2(2,4,6,8,7)])
    with True 1 g t2 show ?thesis by (auto simp: set_growing_def)
  qed
qed

lemma set_each_spec:
  assumes "funded_inv ty k t"
  shows "\<exists>t'. for_each (\<lambda>i t. map_option fst (funded_set ty i v t)) is t = Some t' \<and> funded_inv ty k t' \<and>
    contents t' = foldl (\<lambda>xs i. xs[i := v]) (contents t) is \<and> held t' = held t \<and> cap t' = cap t \<and>
    pages t' = pages t \<and> fowner t' = fowner t \<and> dir t' = dir t"
  using assms
proof (induction "is" arbitrary: t)
  case Nil
  then show ?case by simp
next
  case (Cons i "is")
  from funded_set_inv [OF Cons.prems, of i v] obtain t1 where
    t1: "funded_set ty i v t = Some (t1, i < cap t)" "funded_inv ty k t1" "contents t1 = (contents t)[i := v]"
      "held t1 = held t" "cap t1 = cap t" "pages t1 = pages t" "fowner t1 = fowner t" "dir t1 = dir t" by blast
  with Cons.IH [OF t1(2)] show ?case by auto
qed

lemma funded_fill_spec:
  assumes "funded_inv ty k t"
  shows "\<exists>t'. funded_fill ty v t = Some t' \<and> funded_inv ty k t' \<and> contents t' = replicate (cap t) v"
  using set_each_spec [OF assms, of v "[0..<cap t]"] length_contents [OF assms]
    update_range [of 0 "cap t" "contents t" v] by (auto simp: funded_fill_def)

lemma funded_release_spec:
  assumes inv: "km_inv k" "funded_inv ty k t"
  shows "\<exists>k' t'. funded_release (k, t) = Some (k', t') \<and> table_acct ty (k, t) (k', t') \<and>
    cap t' = 0 \<and> held t' = []"
proof -
  let ?t = "t\<lparr>cap := 0, pages := 0\<rparr>"
  note tab = funded_invD [OF inv(2)]
  have pg: "page_of ?t = page_of t" by (simp add: page_of_def fun_eq_iff)
  have fr: "frames_of ?t n = frames_of t n" for n by (simp add: frames_of_def pg)
  have t: "tab_inv ty k ?t (pages t)" using tab(1) by (simp add: tab_inv_def fr pg)
  from drop_pages_spec [OF inv(1) t, of 0] obtain k1 t1 where
    1: "for_each drop_page [0..<pages t] (k, ?t) = Some (k1, t1)" "km_inv k1" "tab_inv ty k1 t1 0"
      "refs_of k1 = (\<lambda>a. if a \<in> page_of t ` {0..<pages t} then 0 else refs_of k a)"
      "charged (fowner t) k1 = charged (fowner t) k - pages t" "others (fowner t) k1 = others (fowner t) k"
      "dir t1 = dir t" "pages t1 = 0" "cap t1 = 0" "fowner t1 = fowner t" by (auto simp: pg)
  have held: "set (held t) = set (dir_frames t) \<union> page_of t ` {0..<pages t}" by (auto simp: frames_of_def)
  have owed: "frames_held t \<le> charged (fowner t) k" using tab_invD(9) [OF tab(1)] by (simp add: length_held)
  show ?thesis
  proof (cases "dir t = 0")
    case True
    then have "held t1 = []" using 1 by (simp add: frames_of_def)
    moreover have "funded_inv ty k1 t1" using 1 by (simp add: funded_inv_def)
    moreover have "funded_release (k, t) = Some (k1, t1)" using 1 True by (simp add: funded_release_def)
    ultimately show ?thesis using 1 True owed
      by (auto simp: table_acct_def held frames_held_def fun_eq_iff)
  next
    case False
    let ?t2 = "t1\<lparr>dir := 0\<rparr>"
    from drop_dir_spec [OF 1(2,3)] False 1(7,10) obtain k2 where
      2: "drop_dir (k1, t1) = Some (k2, ?t2)" "km_inv k2" "tab_inv ty k2 ?t2 0"
        "refs_of k2 = (refs_of k1)(dir t := 0)" "charged (fowner t) k2 = charged (fowner t) k1 - 1"
        "others (fowner t) k2 = others (fowner t) k1" by auto
    have "held ?t2 = []" using 1 by (simp add: frames_of_def)
    moreover have "funded_inv ty k2 ?t2" using 1 2 by (simp add: funded_inv_def)
    moreover have "funded_release (k, t) = Some (k2, ?t2)" using 1 2 False by (simp add: funded_release_def)
    ultimately show ?thesis using 1 2 False owed
      by (auto simp: table_acct_def held frames_held_def fun_eq_iff)
  qed
qed

section \<open>The slot-table interface\<close>

text \<open>
  What the tables built on this memory promise their clients: reads and writes behave like those of
  a list, without panics. Funded and elastic tables both provide it.
\<close>

locale slot_table =
  fixes get :: "'s \<Rightarrow> nat \<Rightarrow> 'a option option"
    and set :: "nat \<Rightarrow> 'a \<Rightarrow> 's \<Rightarrow> ('s \<times> bool) option"
    and view :: "'s \<Rightarrow> 'a list"
    and inv :: "'s \<Rightarrow> bool"
  assumes get_view: "inv s \<Longrightarrow> get s i = Some (nth_opt (view s) i)"
    and set_view: "inv s \<Longrightarrow> \<exists>s'. set i v s = Some (s', i < length (view s)) \<and> inv s' \<and> view s' = (view s)[i := v]"
begin

lemma get_set:
  assumes "inv s"
  shows "\<exists>s'. set i v s = Some (s', i < length (view s)) \<and> inv s' \<and>
    get s' j = (if i = j \<and> i < length (view s) then Some (Some v) else get s j)"
proof -
  from set_view [OF assms] obtain s' where
    s': "set i v s = Some (s', i < length (view s))" "inv s'" "view s' = (view s)[i := v]" by blast
  then have "get s' j = (if i = j \<and> i < length (view s) then Some (Some v) else get s j)"
    using get_view [OF s'(2), of j] get_view [OF assms, of j] by (auto simp: nth_opt_def)
  with s' show ?thesis by blast
qed

end

interpretation ft: slot_table "funded_get ty" "funded_set ty" contents "funded_inv ty k" for ty k
proof
  fix t i assume inv: "funded_inv ty k t"
  show "funded_get ty t i = Some (nth_opt (contents t) i)" by (rule funded_get_inv [OF inv])
next
  fix t i v assume inv: "funded_inv ty k t"
  from funded_set_inv [OF inv, of i v] length_contents [OF inv]
  show "\<exists>t'. funded_set ty i v t = Some (t', i < length (contents t)) \<and> funded_inv ty k t' \<and>
      contents t' = (contents t)[i := v]" by auto
qed

definition el_view :: "'a elastic \<Rightarrow> 'a list" where
  "el_view e = inline e @ contents (tail e)"

definition el_inv :: "'a elem_ty \<Rightarrow> kmem \<Rightarrow> 'a elastic \<Rightarrow> bool" where
  "el_inv ty k e \<longleftrightarrow> funded_inv ty k (tail e)"

lemma el_capacity: "el_inv ty k e \<Longrightarrow> elastic_capacity e = length (el_view e)"
  using length_contents [of ty k "tail e"] by (simp add: el_inv_def el_view_def elastic_capacity_def)

interpretation et: slot_table "elastic_get ty" "elastic_set ty" el_view "el_inv ty k" for ty k
proof
  fix e i assume "el_inv ty k e"
  then show "elastic_get ty e i = Some (nth_opt (el_view e) i)"
    by (auto simp: el_inv_def elastic_get_def ft.get_view [of ty k] el_view_def nth_opt_def nth_append)
next
  fix e i v assume "el_inv ty k e"
  then have inv: "funded_inv ty k (tail e)" by (simp add: el_inv_def)
  show "\<exists>e'. elastic_set ty i v e = Some (e', i < length (el_view e)) \<and> el_inv ty k e' \<and> el_view e' = (el_view e)[i := v]"
  proof (cases "i < length (inline e)")
    case True
    with inv show ?thesis by (simp add: elastic_set_def el_inv_def el_view_def list_update_append)
  next
    case False
    from ft.set_view [OF inv, of "i - length (inline e)" v] False show ?thesis
      by (auto simp: elastic_set_def el_inv_def el_view_def list_update_append)
  qed
qed

lemma scan_from_find:
  assumes "el_inv ty k e"
  shows "scan_from ty P e is = Some (find (\<lambda>i. i < length (el_view e) \<and> P (el_view e ! i)) is)"
  by (induction "is") (auto simp: et.get_view [OF assms] nth_opt_def)

lemma find_upt_find_idx: "find (\<lambda>i. i < length xs \<and> P (xs ! i)) [0..<length xs] = find_idx P xs"
proof (cases "find_idx P xs")
  case None
  then have "find (\<lambda>i. i < length xs \<and> P (xs ! i)) [0..<length xs] = None"
    by (simp add: find_idx_None_nth find_upt_None)
  with None show ?thesis by simp
next
  case (Some i)
  then have "find (\<lambda>i. i < length xs \<and> P (xs ! i)) [0..<length xs] = Some i"
    by (auto simp: find_idx_Some find_upt_Some)
  with Some show ?thesis by simp
qed

lemma elastic_position_view:
  "el_inv ty k e \<Longrightarrow> elastic_position ty P e = Some (find_idx P (el_view e))"
  using scan_from_find [of ty k e P] find_upt_find_idx [of "el_view e" P]
  by (simp add: elastic_position_def el_capacity [of ty k e])

lemma elastic_grow_spec:
  assumes inv: "km_inv k" "el_inv ty k e"
  shows "\<exists>k' e' r. elastic_grow ty em (k, e) = Some ((k', e'), r) \<and> el_inv ty k' e' \<and>
    table_acct ty (k, tail e) (k', tail e') \<and> inline e' = inline e \<and>
    (case r of None \<Rightarrow> el_view e' = el_view e \<and> held (tail e') = held (tail e)
     | Some i \<Rightarrow> i = length (el_view e) \<and> (\<exists>m > 0. el_view e' = el_view e @ replicate m em))"
proof -
  let ?c = "cap (tail e)"
  from inv(2) have t: "funded_inv ty k (tail e)" by (simp add: el_inv_def)
  note len = length_contents [OF t]
  from set_growing_spec [OF inv(1) t, of ?c em] obtain k1 t1 ok where
    1: "set_growing ty ?c em (k, tail e) = Some ((k1, t1), ok)" "table_acct ty (k, tail e) (k1, t1)"
      "?c \<le> cap t1" "ok \<longrightarrow> ?c < cap t1" "\<not> ok \<longrightarrow> held t1 = held (tail e) \<and> cap t1 = ?c"
      "contents t1 = (if ok then (contents (tail e) @ replicate (cap t1 - ?c) (ty_zero ty))[?c := em] else contents (tail e))"
    by blast
  have inv1: "funded_inv ty k1 t1" using 1(2) by (simp add: table_acct_def)
  show ?thesis
  proof (cases ok)
    case False
    with 1 inv1 show ?thesis by (auto simp: elastic_grow_def el_inv_def el_view_def)
  next
    case True
    from set_each_spec [OF inv1, of em "[?c..<cap t1]"] obtain t2 where
      2: "for_each (\<lambda>i t. map_option fst (funded_set ty i em t)) [?c..<cap t1] t1 = Some t2" "funded_inv ty k1 t2"
        "contents t2 = foldl (\<lambda>xs i. xs[i := em]) (contents t1) [?c..<cap t1]" "held t2 = held t1" "cap t2 = cap t1"
        "pages t2 = pages t1" "fowner t2 = fowner t1" "dir t2 = dir t1" by blast
    have "take ?c (contents t1) = contents (tail e)" using 1(6) True len by simp
    then have "contents t2 = contents (tail e) @ replicate (cap t1 - ?c) em"
      using 2(3) 1(3) update_range [of ?c "cap t1" "contents t1" em] length_contents [OF inv1] by simp
    moreover have "table_acct ty (k, tail e) (k1, t2)" by (rule table_acct_upd [OF 1(2) 2(2,4,6,8,7)])
    moreover have "elastic_grow ty em (k, e) = Some ((k1, e\<lparr>tail := t2\<rparr>), Some (length (inline e) + ?c))"
      using 1(1) 2(1) True by (simp add: elastic_grow_def)
    ultimately show ?thesis using 2(2) len 1(4) True
      by (auto simp: el_inv_def el_view_def intro!: exI [of _ "cap t1 - ?c"])
  qed
qed

lemma elastic_set_spec:
  assumes inv: "km_inv k" "el_inv ty k e"
  shows "\<exists>e'. elastic_set ty i v e = Some (e', i < length (el_view e)) \<and> el_inv ty k e' \<and>
    el_view e' = (el_view e)[i := v] \<and> table_acct ty (k, tail e) (k, tail e')"
proof (cases "i < length (inline e)")
  case True
  with inv show ?thesis
    by (simp add: elastic_set_def el_inv_def el_view_def list_update_append table_grew_acct table_grew_refl)
next
  case False
  from inv(2) have t: "funded_inv ty k (tail e)" by (simp add: el_inv_def)
  from funded_set_inv [OF t, of "i - length (inline e)" v] obtain t' where
    t': "funded_set ty (i - length (inline e)) v (tail e) = Some (t', i - length (inline e) < cap (tail e))"
      "funded_inv ty k t'" "contents t' = (contents (tail e))[i - length (inline e) := v]" "held t' = held (tail e)"
      "pages t' = pages (tail e)" "fowner t' = fowner (tail e)" "dir t' = dir (tail e)" by blast
  have "table_acct ty (k, tail e) (k, t')"
    by (rule table_acct_upd [OF table_grew_acct [OF table_grew_refl [OF inv(1) t]] t'(2,4,5,7,6)])
  with False t' length_contents [OF t] show ?thesis
    by (auto simp: elastic_set_def el_inv_def el_view_def list_update_append)
qed

lemma elastic_alloc_spec:
  assumes "km_inv k" and "el_inv ty k e"
  shows "\<exists>k' e' r. elastic_alloc ty em is_free (k, e) = Some ((k', e'), r) \<and> el_inv ty k' e' \<and>
    table_acct ty (k, tail e) (k', tail e') \<and>
    (case find_idx is_free (el_view e) of
       Some i \<Rightarrow> k' = k \<and> e' = e \<and> r = Some i
     | None \<Rightarrow> r = None \<and> el_view e' = el_view e \<or>
         r = Some (length (el_view e)) \<and> (\<exists>m > 0. el_view e' = el_view e @ replicate m em))"
proof (cases "find_idx is_free (el_view e)")
  case (Some i)
  then show ?thesis
    using assms elastic_position_view [OF assms(2), of is_free] table_grew_acct [OF table_grew_refl, of k ty "tail e"]
    by (simp add: elastic_alloc_def el_inv_def)
next
  case None
  from elastic_grow_spec [OF assms, of em] obtain k' e' r where
    g: "elastic_grow ty em (k, e) = Some ((k', e'), r)" "el_inv ty k' e'" "table_acct ty (k, tail e) (k', tail e')"
      "case r of None \<Rightarrow> el_view e' = el_view e \<and> held (tail e') = held (tail e)
       | Some i \<Rightarrow> i = length (el_view e) \<and> (\<exists>m > 0. el_view e' = el_view e @ replicate m em)" by blast
  have "elastic_alloc ty em is_free (k, e) = Some ((k', e'), r)"
    using None g(1) elastic_position_view [OF assms(2), of is_free] by (simp add: elastic_alloc_def)
  with None g show ?thesis by (auto split: option.splits)
qed

text \<open>The loop of \<^verbatim>\<open>grow_to\<close> ends: each round that is not refused adds a slot.\<close>

lemma elastic_grow_to_spec:
  assumes "km_inv k" and "el_inv ty k e"
  shows "\<exists>k' e' r. elastic_grow_to ty em i (k, e) = Some ((k', e'), r) \<and> km_inv k' \<and> el_inv ty k' e' \<and>
    (\<exists>m. el_view e' = el_view e @ replicate m em) \<and>
    (case r of None \<Rightarrow> True | Some n \<Rightarrow> n = length (el_view e') \<and> i < n)"
  using assms
proof (induction "Suc i - length (el_view e)" arbitrary: k e rule: less_induct)
  case less
  note cap = el_capacity [OF less.prems(2)]
  show ?case
  proof (cases "length (el_view e) \<le> i")
    case False
    then show ?thesis using less.prems cap by (subst elastic_grow_to.simps) auto
  next
    case more: True
    from elastic_grow_spec [OF less.prems, of em] obtain k1 e1 r where
      g: "elastic_grow ty em (k, e) = Some ((k1, e1), r)" "el_inv ty k1 e1" "table_acct ty (k, tail e) (k1, tail e1)"
        "case r of None \<Rightarrow> el_view e1 = el_view e \<and> held (tail e1) = held (tail e)
         | Some i \<Rightarrow> i = length (el_view e) \<and> (\<exists>m > 0. el_view e1 = el_view e @ replicate m em)" by blast
    have km: "km_inv k1" using g(3) by (simp add: table_acct_def)
    show ?thesis
    proof (cases r)
      case None
      then show ?thesis using more cap g km by (subst elastic_grow_to.simps) (auto intro: exI [of _ 0])
    next
      case (Some n)
      with g(4) obtain m where m: "0 < m" "el_view e1 = el_view e @ replicate m em" by auto
      then have "Suc i - length (el_view e1) < Suc i - length (el_view e)" using more by simp
      from less.hyps [OF this km g(2)] obtain k' e' r' m' where
        "elastic_grow_to ty em i (k1, e1) = Some ((k', e'), r')" "km_inv k'" "el_inv ty k' e'"
        "el_view e' = el_view e1 @ replicate m' em" "case r' of None \<Rightarrow> True | Some n \<Rightarrow> n = length (el_view e') \<and> i < n"
        by blast
      then show ?thesis using more cap g(1) Some m(2)
        by (subst elastic_grow_to.simps) (auto simp: replicate_add [symmetric])
    qed
  qed
qed

section \<open>Many tables on one ledger\<close>

type_synonym 'a tables = "kmem \<times> 'a funded list"

datatype 'a table_op = TReserve nat nat | TSetGrowing nat nat 'a | TSet nat nat 'a | TRelease nat | TSetOwner nat owner

text \<open>One operation on table \<open>i\<close>; a panic stops the machine, so nothing changes.\<close>

definition on_table :: "(kmem \<times> 'a funded \<Rightarrow> (kmem \<times> 'a funded) option) \<Rightarrow> nat \<Rightarrow> 'a tables \<Rightarrow> 'a tables" where
  "on_table f i = (\<lambda>(k, ts). if i < length ts
     then case f (k, ts ! i) of None \<Rightarrow> (k, ts) | Some (k', t') \<Rightarrow> (k', ts[i := t'])
     else (k, ts))"

fun table_step :: "'a elem_ty \<Rightarrow> 'a tables \<Rightarrow> 'a table_op \<Rightarrow> 'a tables" where
  "table_step ty s (TReserve i want) = on_table (\<lambda>s. map_option fst (reserve ty want s)) i s"
| "table_step ty s (TSetGrowing i ix v) = on_table (\<lambda>s. map_option fst (set_growing ty ix v s)) i s"
| "table_step ty s (TSet i ix v) = on_table (\<lambda>(k, t). map_option (\<lambda>(t', _). (k, t')) (funded_set ty ix v t)) i s"
| "table_step ty s (TRelease i) = on_table funded_release i s"
| "table_step ty s (TSetOwner i ow) = on_table (\<lambda>s. Some (funded_set_owner ow s)) i s"

definition share_of :: "nat \<Rightarrow> 'a funded \<Rightarrow> nat" where
  "share_of slot t = (if ledger_slot (fowner t) = slot then frames_held t else 0)"

definition tables_inv :: "'a elem_ty \<Rightarrow> 'a tables \<Rightarrow> bool" where
  "tables_inv ty = (\<lambda>(k, ts). km_inv k \<and> (\<forall>t \<in> set ts. funded_inv ty k t) \<and>
     (\<forall>i < length ts. \<forall>j < length ts. i \<noteq> j \<longrightarrow> set (held (ts ! i)) \<inter> set (held (ts ! j)) = {}) \<and>
     (\<forall>slot < MAX_OWNERS. CHARGED k ! slot = sum_list (map (share_of slot) ts)))"

lemma sum_shares_update:
  assumes "i < length ts"
  shows "sum_list (map (share_of slot) (ts[i := t])) + share_of slot (ts ! i) =
    sum_list (map (share_of slot) ts) + share_of slot t"
proof -
  let ?m = "map (share_of slot) ts"
  have "share_of slot (ts ! i) \<le> sum_list ?m" using elem_le_sum_list [of i ?m] assms by simp
  then show ?thesis using assms sum_list_update [of i ?m "share_of slot t"] by (simp add: map_update)
qed

lemma charged_others:
  assumes "others ow k' = others ow k" and "slot \<noteq> ledger_slot ow"
  shows "CHARGED k' ! slot = CHARGED k ! slot"
proof -
  have "(CHARGED k')[ledger_slot ow := 0] ! slot = (CHARGED k)[ledger_slot ow := 0] ! slot"
    using assms(1) by (simp add: others_def)
  with assms(2) show ?thesis by simp
qed

lemma funded_inv_transfer:
  assumes "funded_inv ty k t" and "\<And>a. a \<in> set (held t) \<Longrightarrow> refs_of k' a = 1"
    and "frames_held t \<le> charged (fowner t) k'"
  shows "funded_inv ty k' t"
  using assms by (simp add: funded_inv_def tab_inv_def length_held)

lemma share_le_charge:
  assumes "\<forall>slot < MAX_OWNERS. CHARGED k ! slot = sum_list (map (share_of slot) ts)" and "t \<in> set ts"
  shows "frames_held t \<le> charged (fowner t) k"
proof -
  let ?s = "ledger_slot (fowner t)"
  have "share_of ?s t \<le> sum_list (map (share_of ?s) ts)" using assms(2) by (intro member_le_sum_list) simp_all
  then show ?thesis using assms(1) by (simp add: share_of_def charged_def)
qed

lemma tables_inv_acct:
  assumes inv: "tables_inv ty (k, ts)" and i: "i < length ts" and acct: "table_acct ty (k, ts ! i) (k', t')"
  shows "tables_inv ty (k', ts[i := t'])"
proof -
  let ?ts = "ts[i := t']" and ?ow = "fowner (ts ! i)"
  from inv have tab: "\<And>t. t \<in> set ts \<Longrightarrow> funded_inv ty k t"
    and disj: "\<And>j. j < length ts \<Longrightarrow> j \<noteq> i \<Longrightarrow> set (held (ts ! i)) \<inter> set (held (ts ! j)) = {}"
    and shares: "\<And>s. s < MAX_OWNERS \<Longrightarrow> CHARGED k ! s = sum_list (map (share_of s) ts)"
    using i by (auto simp: tables_inv_def)
  from acct have k': "km_inv k'" "funded_inv ty k' t'" "fowner t' = ?ow"
    and new: "\<And>a. a \<in> set (held t') \<Longrightarrow> a \<notin> set (held (ts ! i)) \<Longrightarrow> refs_of k a = 0"
    and refs: "\<And>a. refs_of k' a = (if a \<in> set (held t') then 1 else if a \<in> set (held (ts ! i)) then 0 else refs_of k a)"
    and chg: "charged ?ow k' + frames_held (ts ! i) = charged ?ow k + frames_held t'"
    and oth: "others ?ow k' = others ?ow k"
    by (auto simp: table_acct_def)
  have one: "refs_of k a = 1" if "j < length ts" "a \<in> set (held (ts ! j))" for j a
    using tab [of "ts ! j"] that tab_invD(7) [OF funded_invD(1)] by auto
  have apart: "set (held t') \<inter> set (held (ts ! j)) = {}" if "j < length ts" "j \<noteq> i" for j
    using new one [OF that(1)] disj [OF that] by fastforce
  have shares': "CHARGED k' ! s = sum_list (map (share_of s) ?ts)" if "s < MAX_OWNERS" for s
  proof (cases "s = ledger_slot ?ow")
    case True
    then show ?thesis
      using chg shares [OF that] sum_shares_update [OF i, of s t'] k'(3) by (simp add: charged_def share_of_def)
  next
    case False
    then show ?thesis
      using charged_others [OF oth False] shares [OF that] sum_shares_update [OF i, of s t'] k'(3)
      by (simp add: share_of_def)
  qed
  have "funded_inv ty k' (?ts ! j)" if "j < length ts" for j
  proof (cases "j = i")
    case True
    then show ?thesis using i k'(2) by simp
  next
    case False
    then have mem: "ts ! j \<in> set ?ts" using that nth_mem [of j ?ts] by simp
    have "funded_inv ty k' (ts ! j)"
    proof (rule funded_inv_transfer [of ty k])
      show "funded_inv ty k (ts ! j)" using tab that by simp
      show "frames_held (ts ! j) \<le> charged (fowner (ts ! j)) k'"
        using share_le_charge [OF _ mem, of k'] shares' by blast
      fix a assume a: "a \<in> set (held (ts ! j))"
      then have "a \<notin> set (held t')" "a \<notin> set (held (ts ! i))"
        using apart [OF that False] disj [OF that False] by auto
      then show "refs_of k' a = 1" using refs one [OF that a] by simp
    qed
    with False show ?thesis by simp
  qed
  then have "\<forall>t \<in> set ?ts. funded_inv ty k' t" by (auto simp: in_set_conv_nth)
  moreover have "set (held (?ts ! a)) \<inter> set (held (?ts ! b)) = {}" if "a < length ts" "b < length ts" "a \<noteq> b" for a b
    using that apart inv i by (cases "a = i"; cases "b = i") (auto simp: tables_inv_def)
  ultimately show ?thesis using k'(1) shares' by (simp add: tables_inv_def)
qed

lemma move_charge_spec:
  assumes inv: "km_inv k" and n: "n \<le> charged from_ow k" and slot: "slot < MAX_OWNERS"
  shows "km_inv (move_charge from_ow to_ow n k)" "POOL (move_charge from_ow to_ow n k) = POOL k"
    "CHARGED (move_charge from_ow to_ow n k) ! slot + (if slot = ledger_slot from_ow then n else 0) =
     CHARGED k ! slot + (if slot = ledger_slot to_ow then n else 0)"
proof -
  let ?f = "ledger_slot from_ow" and ?t = "ledger_slot to_ow"
  let ?c = "(CHARGED k)[?f := CHARGED k ! ?f - n]"
  have len: "length (CHARGED k) = MAX_OWNERS" and sum: "sum_list (CHARGED k) = META_FRAMES k"
    using inv by (simp_all add: km_inv_def ledger_consistent_def)
  have le: "n \<le> CHARGED k ! ?f" using n by (simp add: charged_def)
  have meta: "META_FRAMES k \<le> POOL_FRAMES" using pool_used_le [of "POOL k"] inv by (simp add: km_inv_def)
  have small: "n < 2 ^ 32"
    using charge_le(2) [OF inv, of ?f] le by (simp add: u32_max_def)
  have csum: "sum_list ?c + n = META_FRAMES k"
    using sum_list_update [of ?f "CHARGED k" "CHARGED k ! ?f - n"] elem_le_sum_list [of ?f "CHARGED k"] le len sum by simp
  have bound: "?c ! ?t + n \<le> u32_max"
    using elem_le_sum_list [of ?t ?c] csum meta len by (simp add: u32_max_def POOL_FRAMES_def)
  have c: "CHARGED (move_charge from_ow to_ow n k) = (if from_ow = to_ow \<or> n = 0 then CHARGED k else ?c[?t := ?c ! ?t + n])"
    using small bound by (simp add: move_charge_def Let_def)
  have rest: "META_FRAMES (move_charge from_ow to_ow n k) = META_FRAMES k"
    and pool: "POOL (move_charge from_ow to_ow n k) = POOL k" by (simp_all add: move_charge_def Let_def)
  have "sum_list (?c[?t := ?c ! ?t + n]) = META_FRAMES k"
    using sum_list_update [of ?t ?c "?c ! ?t + n"] csum len elem_le_sum_list [of ?t ?c] by simp
  with inv show "km_inv (move_charge from_ow to_ow n k)"
    by (simp add: km_inv_def ledger_consistent_def c rest pool len)
  show "POOL (move_charge from_ow to_ow n k) = POOL k" by (rule pool)
  show "CHARGED (move_charge from_ow to_ow n k) ! slot + (if slot = ?f then n else 0) =
      CHARGED k ! slot + (if slot = ?t then n else 0)"
    using slot le len by (auto simp: c nth_list_update)
qed

lemma tables_inv_set_owner:
  assumes inv: "tables_inv ty (k, ts)" and i: "i < length ts"
  shows "tables_inv ty (move_charge (fowner (ts ! i)) ow (frames_held (ts ! i)) k, ts[i := (ts ! i)\<lparr>fowner := ow\<rparr>])"
    (is "tables_inv ty (?k, ?ts)")
proof -
  let ?t = "(ts ! i)\<lparr>fowner := ow\<rparr>"
  from inv have km: "km_inv k" and tab: "\<And>t. t \<in> set ts \<Longrightarrow> funded_inv ty k t"
    and shares: "\<And>s. s < MAX_OWNERS \<Longrightarrow> CHARGED k ! s = sum_list (map (share_of s) ts)"
    by (auto simp: tables_inv_def)
  have "frames_held (ts ! i) \<le> charged (fowner (ts ! i)) k"
    using share_le_charge [of k ts "ts ! i"] shares i by simp
  note mv = move_charge_spec [OF km this]
  have fh: "frames_held ?t = frames_held (ts ! i)" by (simp add: frames_held_def)
  have shares': "CHARGED ?k ! s = sum_list (map (share_of s) ?ts)" if "s < MAX_OWNERS" for s
    using mv(3) [OF that, of ow] shares [OF that] sum_shares_update [OF i, of s ?t] fh
    by (auto simp: share_of_def split: if_splits)
  have heldj: "held (?ts ! j) = held (ts ! j)" for j using i by (cases "j = i") auto
  have "funded_inv ty ?k t" if "t \<in> set ?ts" for t
  proof -
    from that obtain j where j: "j < length ts" "t = ?ts ! j" by (auto simp: in_set_conv_nth)
    have base: "funded_inv ty k (ts ! j)" using tab j(1) by simp
    have chg: "frames_held t \<le> charged (fowner t) ?k" using share_le_charge [OF _ that, of ?k] shares' by blast
    have core: "length (dir_inline t) = length (dir_inline (ts ! j))" "length (dir_slots t) = length (dir_slots (ts ! j))"
      "dir t = dir (ts ! j)" "pages t = pages (ts ! j)" "cap t = cap (ts ! j)" "frame_data t = frame_data (ts ! j)"
      "page_of t = page_of (ts ! j)" "frames_of t = frames_of (ts ! j)"
      using j by (cases "j = i"; simp)+
    show ?thesis
      using base chg mv(2) [of 0] length_held [of t]
      unfolding funded_inv_def tab_inv_def core by (simp add: MAX_OWNERS_def core)
  qed
  then show ?thesis
    using inv mv(1) [of 0] shares' heldj by (simp add: tables_inv_def MAX_OWNERS_def)
qed

lemma tables_inv_on:
  assumes inv: "tables_inv ty s"
    and f: "\<And>k t. km_inv k \<Longrightarrow> funded_inv ty k t \<Longrightarrow> \<exists>s'. f (k, t) = Some s' \<and> table_acct ty (k, t) s'"
  shows "tables_inv ty (on_table f i s)"
proof (cases s)
  case (Pair k ts)
  show ?thesis
  proof (cases "i < length ts")
    case False
    with Pair inv show ?thesis by (simp add: on_table_def)
  next
    case True
    with inv Pair have "km_inv k" "funded_inv ty k (ts ! i)" by (auto simp: tables_inv_def)
    from f [OF this] obtain k' t' where "f (k, ts ! i) = Some (k', t')" "table_acct ty (k, ts ! i) (k', t')" by auto
    with tables_inv_acct [of ty k ts i k' t'] inv Pair True show ?thesis by (simp add: on_table_def)
  qed
qed

lemma table_acct_refl: "km_inv k \<Longrightarrow> funded_inv ty k t \<Longrightarrow> table_acct ty (k, t) (k, t)"
  by (intro table_grew_acct table_grew_refl)

interpretation tm: machine "table_step ty" "\<lambda>_ _. True" "tables_inv ty" for ty
proof
  fix s x assume inv: "tables_inv ty s"
  show "tables_inv ty (table_step ty s x)"
  proof (cases x)
    case (TReserve i want)
    then show ?thesis using reserve_spec table_grew_acct
      by (fastforce intro!: tables_inv_on [OF inv])
  next
    case (TSetGrowing i ix v)
    then show ?thesis using set_growing_spec
      by (fastforce intro!: tables_inv_on [OF inv])
  next
    case (TSet i ix v)
    have "\<exists>s'. (\<lambda>(k, t). map_option (\<lambda>(t', _). (k, t')) (funded_set ty ix v t)) (k, t) = Some s' \<and>
        table_acct ty (k, t) s'" if "km_inv k" "funded_inv ty k t" for k t
    proof -
      from funded_set_inv [OF that(2), of ix v] obtain t' where
        "funded_set ty ix v t = Some (t', ix < cap t)" "funded_inv ty k t'" "held t' = held t"
        "pages t' = pages t" "dir t' = dir t" "fowner t' = fowner t" by blast
      then show ?thesis using table_acct_upd [OF table_acct_refl [OF that]] by simp
    qed
    then show ?thesis using TSet by (simp add: tables_inv_on [OF inv])
  next
    case (TRelease i)
    then show ?thesis using funded_release_spec by (fastforce intro!: tables_inv_on [OF inv])
  next
    case (TSetOwner i ow)
    obtain k ts where s: "s = (k, ts)" by force
    show ?thesis
      using TSetOwner s inv tables_inv_set_owner [of ty k ts i ow]
      by (simp add: on_table_def funded_set_owner_def)
  qed
qed

lemma funded_inv_new: "0 < elems_per_page ty \<Longrightarrow> funded_inv ty k funded_new"
  by (simp add: funded_inv_def tab_inv_def funded_new_def frames_of_def)

lemma tables_inv_new:
  assumes "pool_inv p" and "0 < elems_per_page ty"
  shows "tables_inv ty (kmem_new p, replicate n funded_new)"
proof -
  have "share_of slot (funded_new :: 'a funded) = 0" for slot
    by (simp add: share_of_def frames_held_def funded_new_def)
  moreover have "frames_of (funded_new :: 'a funded) 0 = []" by (simp add: frames_of_def funded_new_def)
  moreover have "pages (funded_new :: 'a funded) = 0" by (simp add: funded_new_def)
  ultimately show ?thesis
    using km_inv_new [OF assms(1)] funded_inv_new [OF assms(2)]
    by (auto simp: tables_inv_def sum_list_replicate kmem_new_def)
qed

lemma alloc_frame_spec:
  assumes "km_inv k"
  shows "\<exists>k' r. alloc_frame ow k = Some (k', r) \<and> km_inv k' \<and>
    (case r of None \<Rightarrow> refs_of k' = refs_of k \<and> CHARGED k' = CHARGED k
     | Some a \<Rightarrow> a \<noteq> 0 \<and> refs_of k a = 0 \<and> refs_of k' = (refs_of k)(a := 1) \<and>
         CHARGED k' = (CHARGED k)[ledger_slot ow := charged ow k + 1])"
  using assms by (cases rule: alloc_frame_cases [of k ow]) auto

lemma funded_inv_same_refs:
  assumes "funded_inv ty k t" and "\<And>a. a \<in> set (held t) \<Longrightarrow> refs_of k' a = refs_of k a"
    and "charged (fowner t) k \<le> charged (fowner t) k'"
  shows "funded_inv ty k' t"
proof (rule funded_inv_transfer [OF assms(1)])
  show "refs_of k' a = 1" if "a \<in> set (held t)" for a
    using that assms(2) tab_invD(7) [OF funded_invD(1) [OF assms(1)]] by simp
  show "frames_held t \<le> charged (fowner t) k'"
    using assms(1,3) by (simp add: funded_inv_def tab_inv_def length_held)
qed

lemma held_refs:
  assumes "funded_inv ty k t" and "a \<in> set (held t)"
  shows "refs_of k a = 1" "a \<noteq> 0"
  using tab_invD(7) [OF funded_invD(1) [OF assms(1)]] assms(2) by auto

lemma funded_set_owner_inv:
  assumes "km_inv k" and "funded_inv ty k t" and "funded_set_owner ow (k, t) = (k', t')"
  shows "km_inv k'" "funded_inv ty k' t'" "contents t' = contents t" "refs_of k' = refs_of k" "held t' = held t"
    "share_of s t' + CHARGED k ! s \<le> share_of s t + CHARGED k' ! s \<or> MAX_OWNERS \<le> s"
proof -
  let ?f = "fowner t" and ?n = "frames_held t"
  have k': "k' = move_charge ?f ow ?n k" and t': "t' = t\<lparr>fowner := ow\<rparr>"
    using assms(3) by (simp_all add: funded_set_owner_def)
  have n: "?n \<le> charged ?f k" using assms(2) by (simp add: funded_inv_def tab_inv_def length_held)
  note mv = move_charge_spec [OF assms(1) n]
  have po: "page_of t' = page_of t" by (simp add: fun_eq_iff page_of_def t')
  show km: "km_inv k'" using mv(1) [of 0] by (simp add: k' MAX_OWNERS_def)
  show refs: "refs_of k' = refs_of k" using mv(2) [of 0] by (simp add: k' MAX_OWNERS_def)
  show c: "contents t' = contents t" by (simp add: contents_def page_data_def po) (simp add: t')
  show h: "held t' = held t" by (simp add: frames_of_def po) (simp add: t')
  have fh: "frames_held t' = ?n" by (simp add: frames_held_def t')
  have "?n \<le> charged ow k'" using mv(3) [of "ledger_slot ow" ow] n by (auto simp: k' charged_def split: if_splits)
  moreover have "fowner t' = ow" "dir_inline t' = dir_inline t" "dir_slots t' = dir_slots t" "pages t' = pages t"
    "dir t' = dir t" "frame_data t' = frame_data t" "cap t' = cap t" by (simp_all add: t')
  ultimately show "funded_inv ty k' t'"
    using assms(2) h fh length_held [of t] unfolding funded_inv_def tab_inv_def refs po by simp
  show "share_of s t' + CHARGED k ! s \<le> share_of s t + CHARGED k' ! s \<or> MAX_OWNERS \<le> s"
    using mv(3) [of s ow] fh by (auto simp: k' share_of_def t' split: if_splits)
qed

text \<open>Growing one table leaves another table of the same memory as it is.\<close>

lemma set_growing_held:
  assumes inv: "km_inv k" "funded_inv ty k t" and g: "set_growing ty i v (k, t) = Some ((k', t'), ok)"
  shows "set (held t) \<subseteq> set (held t')"
proof -
  obtain k1 t1 ok1 where 1: "(if cap t \<le> i then reserve ty (i + 1) (k, t) else Some ((k, t), True)) = Some ((k1, t1), ok1)"
    "table_grew ty (k, t) (k1, t1)"
  proof (cases "cap t \<le> i")
    case True
    from reserve_spec [OF inv, of "i + 1"] True that show ?thesis by auto
  next
    case False
    with table_grew_refl [OF inv] that [of k t True] show ?thesis by simp
  qed
  then have h: "set (held t) \<subseteq> set (held t1)" "funded_inv ty k1 t1" by (auto simp: table_grew_def)
  from funded_set_inv [OF h(2), of i v] obtain t2 where "funded_set ty i v t1 = Some (t2, i < cap t1)" "held t2 = held t1" by blast
  with 1(1) g h(1) show ?thesis by (cases ok1) (auto simp: set_growing_def)
qed

lemma set_growing_other:
  assumes inv: "km_inv k" "funded_inv ty k t" and other: "funded_inv ty2 k t2" "set (held t) \<inter> set (held t2) = {}"
    and g: "set_growing ty i v (k, t) = Some ((k', t'), ok)"
  shows "funded_inv ty2 k' t2" "set (held t') \<inter> set (held t2) = {}"
proof -
  from set_growing_spec [OF inv, of i v] g have acct: "table_acct ty (k, t) (k', t')" by auto
  then have new: "a \<in> set (held t') \<Longrightarrow> a \<notin> set (held t) \<Longrightarrow> refs_of k a = 0"
    and refs: "refs_of k' a = (if a \<in> set (held t') then 1 else if a \<in> set (held t) then 0 else refs_of k a)" for a by (auto simp: table_acct_def)
  have one: "a \<in> set (held t2) \<Longrightarrow> refs_of k a = 1" for a using held_refs(1) [OF other(1)] .
  show "set (held t') \<inter> set (held t2) = {}" using new one other(2) by fastforce
  have "funded_inv ty k' t'" "charged (fowner t) k' + frames_held t = charged (fowner t) k + frames_held t'" "others (fowner t) k' = others (fowner t) k"
    using acct by (auto simp: table_acct_def)
  note k' = this
  have "distinct (held t)" "distinct (held t')" using tab_invD(6) funded_invD(1) inv(2) k'(1) by blast+
  then have "frames_held t \<le> frames_held t'"
    using set_growing_held [OF inv g] card_mono [of "set (held t')" "set (held t)"] by (simp add: distinct_card length_held)
  then have "charged (fowner t2) k \<le> charged (fowner t2) k'"
    using k'(2,3) charged_others [OF k'(3), of "ledger_slot (fowner t2)"] by (cases "ledger_slot (fowner t2) = ledger_slot (fowner t)") (simp_all add: charged_def)
  moreover have "frames_held t2 \<le> charged (fowner t2) k" using other(1) by (simp add: funded_inv_def tab_inv_def length_held)
  ultimately show "funded_inv ty2 k' t2"
    by (intro funded_inv_transfer [OF other(1)]) (use refs one other(2) in \<open>auto split: if_splits\<close>)
qed

text \<open>On a freshly booted pool the first page of a table can always be had.\<close>

definition roomy :: "kmem \<Rightarrow> bool" where
  "roomy k \<longleftrightarrow> META_RESERVE_FRAMES < POOL_FRAMES - USED (POOL k)"

lemma boot_memory: "\<exists>k. km_inv k \<and> roomy k"
proof -
  obtain p where p: "frames_init 4096 (pool_new 67108864) = Some p" "pool_inv p"
    using pool_inv_boot [of 67108864 4096] by auto
  then have "USED p = 0" by (auto simp: frames_init_def pool_new_def)
  then have "roomy (kmem_new p)" by (simp add: roomy_def kmem_new_def META_RESERVE_FRAMES_def POOL_FRAMES_def)
  with km_inv_new [OF p(2)] show ?thesis by blast
qed

lemma alloc_frame_roomy:
  assumes "km_inv k" and "roomy k"
  shows "\<exists>k' a. alloc_frame ow k = Some (k', Some a)"
proof -
  from assms have pool: "pool_inv (POOL k)" by (simp add: km_inv_def)
  have ne: "allocated (POOL k) \<noteq> {..<POOL_FRAMES}"
  proof
    assume "allocated (POOL k) = {..<POOL_FRAMES}"
    then have "USED (POOL k) = POOL_FRAMES" using pool_invD(6) [OF pool] by simp
    with assms(2) show False by (simp add: roomy_def)
  qed
  have "\<exists>q a. alloc_on (owner_node ow k) (POOL k) = Some (q, Some a)"
    using pool by (cases rule: alloc_on_cases [of "POOL k" "owner_node ow k"]) (use ne in auto)
  then obtain q a where "alloc_on (owner_node ow k) (POOL k) = Some (q, Some a)" by blast
  with assms(2) show ?thesis by (simp add: alloc_frame_def frames_stats_def roomy_def Let_def)
qed

lemma set_growing_first:
  assumes "km_inv k" and "roomy k" and "funded_inv ty k t" and "pages t = 0" and "i < elems_per_page ty"
    and "ty_align ty \<le> FRAME_SIZE"
  shows "\<exists>s'. set_growing ty i v (k, t) = Some (s', True)"
proof -
  let ?pp = "elems_per_page ty"
  have cap: "cap t = 0" using funded_invD(2) [OF assms(3)] assms(4) by simp
  have need: "(i + 1 + ?pp - 1) div ?pp = 1" using assms(5) by (intro div_nat_eqI) simp_all
  from alloc_frame_roomy [OF assms(1,2), of "fowner t"] obtain k' a where "alloc_frame (fowner t) k = Some (k', Some a)" by blast
  moreover have "reserve_loop ty 1 1 (k', take_page ty 0 a t) = Some ((k', take_page ty 0 a t), 1, True)"
    by (subst reserve_loop.simps) simp
  ultimately have loop: "reserve_loop ty 1 0 (k, t) = Some ((k', take_page ty 0 a t), 1, True)"
    using assms(4) by (subst reserve_loop.simps) simp
  have "take_dir 1 (k, t) = Some ((k, t), Some False)" by (simp add: take_dir_def INLINE_PAGES_def)
  with loop have rp: "\<exists>s'. reserve_pages ty 1 (k, t) = Some (s', True)" by (simp add: reserve_pages_def)
  have "reserve ty (i + 1) (k, t) = reserve_pages ty 1 (k, t)"
    using need assms(5,6) cap by (simp add: reserve_def Let_def INLINE_PAGES_def)
  with rp obtain s' where s': "reserve ty (i + 1) (k, t) = Some (s', True)" by auto
  from set_growing_spec [OF assms(1,3), of i v] obtain k1 t1 ok where
    g: "set_growing ty i v (k, t) = Some ((k1, t1), ok)" by blast
  obtain k2 t2 where s2: "s' = (k2, t2)" by force
  from reserve_spec [OF assms(1,3), of "i + 1"] s' s2 have t2: "funded_inv ty k2 t2" "i < cap t2"
    by (auto simp: table_grew_def)
  from funded_set_inv [OF t2(1), of i v] t2(2) s' s2 cap show ?thesis by (auto simp: set_growing_def)
qed

section \<open>Properties\<close>

text \<open>
  \<^verbatim>\<open>Funded::reserve\<close> is all or nothing. It never panics; when it
  succeeds the capacity reaches the request, the old slots are kept and every new slot is zero; when it
  refuses, even half-way through, the table's slots, every frame's reference count and every owner's
  charge are what they were.
\<close>

theorem reserve_all_or_nothing:
  assumes "km_inv k" and "funded_inv ty k t"
  shows "\<exists>k' t' ok. reserve ty want (k, t) = Some ((k', t'), ok) \<and> km_inv k' \<and> funded_inv ty k' t' \<and>
    (if ok then want \<le> cap t' \<and> contents t' = contents t @ replicate (cap t' - cap t) (ty_zero ty)
     else cap t' = cap t \<and> contents t' = contents t \<and> frames_refs (POOL k') = frames_refs (POOL k) \<and>
       CHARGED k' = CHARGED k)"
proof -
  from reserve_spec [OF assms, of want] obtain k' t' ok where
    r: "reserve ty want (k, t) = Some ((k', t'), ok)" "table_grew ty (k, t) (k', t')" "ok \<longrightarrow> want \<le> cap t'"
      "\<not> ok \<longrightarrow> held t' = held t \<and> cap t' = cap t" by blast
  have g: "km_inv k'" "funded_inv ty k' t'" "contents t' = contents t @ replicate (cap t' - cap t) (ty_zero ty)"
    "refs_of k' = (\<lambda>a. if a \<in> set (held t') then 1 else refs_of k a)"
    "charged (fowner t) k' + frames_held t = charged (fowner t) k + frames_held t'"
    "others (fowner t) k' = others (fowner t) k" using r(2) by (auto simp: table_grew_def)
  have "refs_of k' = refs_of k \<and> CHARGED k' = CHARGED k" if "\<not> ok"
  proof
    show "refs_of k' = refs_of k"
      using that r(4) g(4) tab_invD(7) [OF funded_invD(1) [OF assms(2)]] by (auto simp: fun_eq_iff)
    have "frames_held t' = frames_held t" using that r(4) by (metis length_held)
    then have "CHARGED k' ! s = CHARGED k ! s" for s
      using g(5) charged_others [OF g(6), of s] by (cases "s = ledger_slot (fowner t)") (auto simp: charged_def)
    then show "CHARGED k' = CHARGED k"
      using km_inv_length [OF g(1)] km_inv_length [OF assms(1)] by (intro nth_equalityI) auto
  qed
  with r g show ?thesis by auto
qed

theorem reserve_all_or_nothing_witness:
  "\<exists>p k' t' ok. reserve \<lparr>ty_size = 64, ty_align = 8, ty_zero = 0 :: nat\<rparr> 700 (kmem_new p, funded_new) = Some ((k', t'), ok) \<and>
    (ok \<longrightarrow> 700 \<le> cap t')"
proof -
  obtain p where "pool_inv p" using pool_inv_boot [of 67108864 4096] by auto
  then show ?thesis
    using reserve_all_or_nothing [OF km_inv_new funded_inv_new, of p "\<lparr>ty_size = 64, ty_align = 8, ty_zero = 0 :: nat\<rparr>" 700]
    by (auto simp: elems_per_page_def FRAME_SIZE_def split: if_splits)
qed

text \<open>
  C5: for any number of tables sharing the pool and the ledger, after any
  sequence of reservations, growing writes, writes, releases and changes of owner, the charges add up to
  the number of metadata frames, and what an owner is charged is the number of frames the tables on its
  ledger slot hold.
\<close>

theorem tables_run_ledger:
  fixes ty :: "'a elem_ty"
  assumes "pool_inv p" and "0 < elems_per_page ty"
    and "run_ops (table_step ty) (kmem_new p, replicate n funded_new) ops = (k, ts)"
  shows "ledger_consistent k \<and>
    (\<forall>ow. charged ow k = (\<Sum>t\<leftarrow>ts. if ledger_slot (fowner t) = ledger_slot ow then frames_held t else 0))"
proof -
  have "tables_inv ty (k, ts)"
    using tm.run_inv [OF tables_inv_new [OF assms(1,2), of n], of ops] assms(3) by simp
  then show ?thesis
    unfolding tables_inv_def charged_def by (auto simp: km_inv_def share_of_def [abs_def])
qed

theorem tables_run_ledger_witness:
  "\<exists>p k ts. run_ops (table_step \<lparr>ty_size = 64, ty_align = 8, ty_zero = 0 :: nat\<rparr>) (kmem_new p, replicate 2 funded_new)
     [TReserve 0 700, TSetOwner 0 3, TSetGrowing 1 5 9, TRelease 0] = (k, ts) \<and> ledger_consistent k"
proof -
  let ?ty = "\<lparr>ty_size = 64, ty_align = 8, ty_zero = 0 :: nat\<rparr>"
  obtain p where p: "pool_inv p" using pool_inv_boot [of 67108864 4096] by auto
  obtain k ts where r: "run_ops (table_step ?ty) (kmem_new p, replicate 2 funded_new)
     [TReserve 0 700, TSetOwner 0 3, TSetGrowing 1 5 9, TRelease 0] = (k, ts)" by force
  have "0 < elems_per_page ?ty" by (simp add: elems_per_page_def FRAME_SIZE_def)
  from tables_run_ledger [OF p this r] r show ?thesis by blast
qed

text \<open>
  \<^verbatim>\<open>Funded::release\<close> never panics and gives everything back: the table
  is empty, each frame it held is unreferenced again, no other frame changes, and the owner's charge
  drops by the number of frames held.
\<close>

theorem release_returns_frames:
  assumes "km_inv k" and "funded_inv ty k t"
  shows "\<exists>k' t'. funded_release (k, t) = Some (k', t') \<and> km_inv k' \<and> cap t' = 0 \<and> frames_held t' = 0 \<and>
    frames_refs (POOL k') = (\<lambda>a. if a \<in> set (frames_of t (pages t)) then 0 else frames_refs (POOL k) a) \<and>
    charged (fowner t) k' + frames_held t = charged (fowner t) k"
proof -
  from funded_release_spec [OF assms] obtain k' t' where
    "funded_release (k, t) = Some (k', t')" "table_acct ty (k, t) (k', t')" "cap t' = 0" "held t' = []" by blast
  moreover from this(4) have "frames_held t' = 0" by (metis length_held list.size(3))
  ultimately show ?thesis by (auto simp: table_acct_def)
qed

theorem release_returns_frames_witness:
  "\<exists>p k' t'. funded_release (kmem_new p, funded_new :: nat funded) = Some (k', t') \<and> frames_held t' = 0"
proof -
  obtain p where "pool_inv p" using pool_inv_boot [of 67108864 4096] by auto
  then show ?thesis
    using release_returns_frames [OF km_inv_new funded_inv_new, of p "\<lparr>ty_size = 64, ty_align = 8, ty_zero = 0 :: nat\<rparr>"]
    by (auto simp: elems_per_page_def FRAME_SIZE_def)
qed

text \<open>
  \<^verbatim>\<open>Elastic::alloc\<close> returns the lowest free slot when there is one and
  changes nothing; otherwise it either refuses, leaving every slot as it was, or grows and returns a new
  slot behind all existing ones, which keep their values while the new slots all hold \<open>empty\<close>.
\<close>

theorem elastic_alloc_slot:
  assumes "km_inv k" and "el_inv ty k e"
  shows "\<exists>k' e' r. elastic_alloc ty em is_free (k, e) = Some ((k', e'), r) \<and> km_inv k' \<and> el_inv ty k' e' \<and>
    (case find_idx is_free (el_view e) of
       Some i \<Rightarrow> k' = k \<and> e' = e \<and> r = Some i
     | None \<Rightarrow> r = None \<and> el_view e' = el_view e \<or>
         r = Some (length (el_view e)) \<and> (\<exists>m > 0. el_view e' = el_view e @ replicate m em))"
proof -
  from elastic_alloc_spec [OF assms, of em is_free] obtain k' e' r where
    "elastic_alloc ty em is_free (k, e) = Some ((k', e'), r)" "el_inv ty k' e'" "table_acct ty (k, tail e) (k', tail e')"
    "case find_idx is_free (el_view e) of
       Some i \<Rightarrow> k' = k \<and> e' = e \<and> r = Some i
     | None \<Rightarrow> r = None \<and> el_view e' = el_view e \<or>
         r = Some (length (el_view e)) \<and> (\<exists>m > 0. el_view e' = el_view e @ replicate m em)" by blast
  then show ?thesis by (auto simp: table_acct_def)
qed

theorem elastic_alloc_slot_witness:
  "\<exists>p. pool_inv p \<and> find_idx (\<lambda>x. x = 0) (el_view (with_inline [7, 0, 0 :: nat])) = Some 1 \<and>
    elastic_alloc \<lparr>ty_size = 64, ty_align = 8, ty_zero = 0 :: nat\<rparr> 0 (\<lambda>x. x = 0) (kmem_new p, with_inline [7, 0, 0]) =
      Some ((kmem_new p, with_inline [7, 0, 0]), Some 1)"
proof -
  let ?ty = "\<lparr>ty_size = 64, ty_align = 8, ty_zero = 0 :: nat\<rparr>"
  obtain p where p: "pool_inv p" using pool_inv_boot [of 67108864 4096] by auto
  have "0 < elems_per_page ?ty" by (simp add: elems_per_page_def FRAME_SIZE_def)
  then have inv: "el_inv ?ty (kmem_new p) (with_inline [7, 0, 0])"
    by (simp add: el_inv_def with_inline_def funded_inv_new)
  have idx: "find_idx (\<lambda>x. x = 0) (el_view (with_inline [7, 0, 0 :: nat])) = Some 1"
    by (simp add: el_view_def with_inline_def)
  from elastic_alloc_slot [OF km_inv_new [OF p] inv, of 0 "\<lambda>x. x = 0"] idx p show ?thesis by auto
qed

end
