(* ===== verification/Capability.thy ===== *)
theory Capability
  imports Kmeta
begin

text \<open>
  Capabilities, \<^verbatim>\<open>kernel/src/capability/mod.rs\<close>: kernel objects with revocation epochs, the handle
  packing, and a cell's capability table, an elastic table of slots, with minting, grant checks,
  derivation, delegation, dropping and the copy made by \<^verbatim>\<open>fork\<close>. Every operation works on the
  metadata memory and the table together, because a table may grow. The outer option is a panic.
  Where the source adds one to a generation or an epoch the model wraps, as a release build does.
\<close>

section \<open>Rights, errors, handles\<close>

definition RIGHT_READ :: u32 where "RIGHT_READ = 1"
definition RIGHT_WRITE :: u32 where "RIGHT_WRITE = 2"
definition RIGHT_EXECUTE :: u32 where "RIGHT_EXECUTE = 4"
definition RIGHT_DELEGATE :: u32 where "RIGHT_DELEGATE = 8"
definition RIGHT_MAP :: u32 where "RIGHT_MAP = 16"
definition RIGHT_REVOKE :: u32 where "RIGHT_REVOKE = 32"
definition BUDGET_UNLIMITED :: u64 where "BUDGET_UNLIMITED = - 1"

datatype cap_error = BadHandle | Revoked | InsufficientRights | WidenAttempt | NotDelegatable
  | Exhausted | TableFull | TooManyObjects

definition handle_new :: "nat \<Rightarrow> u64 \<Rightarrow> u64" where
  "handle_new slot gen = push_bit 16 gen OR of_nat slot"

definition handle_slot :: "u64 \<Rightarrow> nat" where
  "handle_slot h = unat (h AND 0xFFFF)"

definition handle_generation :: "u64 \<Rightarrow> u64" where
  "handle_generation h = drop_bit 16 h"

definition raw_low32 :: "u64 \<Rightarrow> u32" where
  "raw_low32 h = push_bit 16 (ucast (handle_generation h) AND 0xFFFF) OR of_nat (handle_slot h)"

section \<open>Kernel objects\<close>

datatype object_kind = MemoryGrant | QueuePair | FileObj | StreamObj | ReservationObj | CellObj

fun abi_code :: "object_kind \<Rightarrow> u32" where
  "abi_code MemoryGrant = 0"
| "abi_code QueuePair = 1"
| "abi_code FileObj = 2"
| "abi_code StreamObj = 3"
| "abi_code ReservationObj = 4"
| "abi_code CellObj = 5"

record kobject =
  ob_kind :: object_kind
  ob_epoch :: u32

definition MAX_OBJECTS :: nat where "MAX_OBJECTS = 512"

record object_table =
  objects :: "kobject list"
  ob_next :: nat

definition objects_new :: object_table where
  "objects_new = \<lparr> objects = replicate MAX_OBJECTS \<lparr>ob_kind = MemoryGrant, ob_epoch = 0\<rparr>, ob_next = 0 \<rparr>"

definition ob_create :: "object_kind \<Rightarrow> object_table \<Rightarrow> object_table \<times> (cap_error + u32)" where
  "ob_create knd o1 =
     (if MAX_OBJECTS \<le> ob_next o1 then (o1, Inl TooManyObjects)
      else (o1\<lparr>objects := (objects o1)[ob_next o1 := \<lparr>ob_kind = knd, ob_epoch = 0\<rparr>], ob_next := ob_next o1 + 1\<rparr>,
            Inr (of_nat (ob_next o1))))"

definition revoke_epoch :: "u32 \<Rightarrow> object_table \<Rightarrow> object_table option" where
  "revoke_epoch ob o1 =
     (if unat ob < length (objects o1)
      then Some (o1\<lparr>objects := (objects o1)[unat ob := (objects o1 ! unat ob)\<lparr>ob_epoch := ob_epoch (objects o1 ! unat ob) + 1\<rparr>]\<rparr>)
      else None)"

definition object_kind_of :: "object_table \<Rightarrow> u32 \<Rightarrow> object_kind option" where
  "object_kind_of o1 ob = map_option ob_kind (nth_opt (objects o1) (unat ob))"

definition epoch_of :: "object_table \<Rightarrow> u32 \<Rightarrow> u32 option" where
  "epoch_of o1 ob = map_option ob_epoch (nth_opt (objects o1) (unat ob))"

section \<open>Capability tables\<close>

record cap_slot =
  cs_object :: u32
  cs_rights :: u32
  cs_epoch :: u32
  cs_generation :: u64
  cs_budget :: u64
  cs_in_use :: bool

definition EMPTY_SLOT :: cap_slot where
  "EMPTY_SLOT = \<lparr> cs_object = 0, cs_rights = 0, cs_epoch = 0, cs_generation = 0, cs_budget = 0, cs_in_use = False \<rparr>"

definition CAPS_INLINE :: nat where "CAPS_INLINE = 32"

text \<open>A slot is 32 bytes, and \<^verbatim>\<open>EMPTY_SLOT\<close> is its all-zero value.\<close>

definition CAP_TY :: "cap_slot elem_ty" where
  "CAP_TY = \<lparr> ty_size = 32, ty_align = 8, ty_zero = EMPTY_SLOT \<rparr>"

type_synonym cap_table = "cap_slot elastic"
type_synonym caps = "kmem \<times> cap_table"

definition captable_new :: cap_table where
  "captable_new = with_inline (replicate CAPS_INLINE EMPTY_SLOT)"

definition captable_release :: "caps \<Rightarrow> caps option" where
  "captable_release s = elastic_reset EMPTY_SLOT s"

definition alloc_slot :: "caps \<Rightarrow> (caps \<times> (cap_error + nat)) option" where
  "alloc_slot s =
     map_option (\<lambda>(s', r). (s', case r of Some i \<Rightarrow> Inr i | None \<Rightarrow> Inl TableFull))
       (elastic_alloc CAP_TY EMPTY_SLOT (\<lambda>x. \<not> cs_in_use x) s)"

definition mint :: "object_table \<Rightarrow> u32 \<Rightarrow> u32 \<Rightarrow> u64 \<Rightarrow> caps \<Rightarrow> (caps \<times> (cap_error + u64)) option" where
  "mint obs ob rights budget s =
     do { (s1, r) \<leftarrow> alloc_slot s;
          case r of
            Inl e \<Rightarrow> Some (s1, Inl e)
          | Inr slot \<Rightarrow>
              do { old \<leftarrow> elastic_get CAP_TY (snd s1) slot;
                   ep \<leftarrow> epoch_of obs ob;
                   let generation = (case old of None \<Rightarrow> 0 | Some x \<Rightarrow> cs_generation x) + 1;
                       write = \<lparr> cs_object = ob, cs_rights = rights, cs_epoch = ep,
                                 cs_generation = generation, cs_budget = budget, cs_in_use = True \<rparr>
                   in do { (e', ok) \<leftarrow> elastic_set CAP_TY slot write (snd s1);
                           Some ((fst s1, e'), if ok then Inr (handle_new slot generation) else Inl TableFull) } } }"

text \<open>\<^verbatim>\<open>mint_derived\<close> has the body of \<^verbatim>\<open>mint\<close>.\<close>

definition mint_derived :: "object_table \<Rightarrow> u32 \<Rightarrow> u32 \<Rightarrow> u64 \<Rightarrow> caps \<Rightarrow> (caps \<times> (cap_error + u64)) option" where
  "mint_derived obs ob rights budget s = mint obs ob rights budget s"

text \<open>
  The checks that \<^verbatim>\<open>grant_check\<close> and \<^verbatim>\<open>grant_check_low32\<close> share, after the generation: rights,
  epoch, budget. The result is the slot with the budget spent.
\<close>

definition check_slot :: "object_table \<Rightarrow> cap_slot \<Rightarrow> u32 \<Rightarrow> (cap_error + cap_slot) option" where
  "check_slot obs slot required =
     (if cs_rights slot AND required \<noteq> required then Some (Inl InsufficientRights)
      else do { ep \<leftarrow> epoch_of obs (cs_object slot);
                Some (if cs_epoch slot \<noteq> ep then Inl Revoked
                      else if cs_budget slot \<noteq> BUDGET_UNLIMITED
                        then if cs_budget slot = 0 then Inl Exhausted
                             else Inr (slot\<lparr>cs_budget := cs_budget slot - 1\<rparr>)
                      else Inr slot) })"

definition grant_check_at ::
  "object_table \<Rightarrow> nat \<Rightarrow> (cap_slot \<Rightarrow> bool) \<Rightarrow> u32 \<Rightarrow> caps \<Rightarrow> (caps \<times> (cap_error + u32)) option" where
  "grant_check_at obs index live required = (\<lambda>(k, e).
     do { r \<leftarrow> elastic_get CAP_TY e index;
          case r of
            None \<Rightarrow> Some ((k, e), Inl BadHandle)
          | Some slot \<Rightarrow>
              if \<not> live slot then Some ((k, e), Inl BadHandle)
              else do { c \<leftarrow> check_slot obs slot required;
                        case c of
                          Inl er \<Rightarrow> Some ((k, e), Inl er)
                        | Inr slot' \<Rightarrow> do { (e', _) \<leftarrow> elastic_set CAP_TY index slot' e;
                                           Some ((k, e'), Inr (cs_object slot)) } } })"

definition live64 :: "u64 \<Rightarrow> cap_slot \<Rightarrow> bool" where
  "live64 handle slot \<longleftrightarrow> cs_in_use slot \<and> cs_generation slot = handle_generation handle"

definition live32 :: "u32 \<Rightarrow> cap_slot \<Rightarrow> bool" where
  "live32 cap_id slot \<longleftrightarrow> cs_in_use slot \<and> (ucast (cs_generation slot) AND 0xFFFF) = drop_bit 16 cap_id"

definition grant_check :: "object_table \<Rightarrow> u64 \<Rightarrow> u32 \<Rightarrow> caps \<Rightarrow> (caps \<times> (cap_error + u32)) option" where
  "grant_check obs handle required s = grant_check_at obs (handle_slot handle) (live64 handle) required s"

definition grant_check_low32 :: "object_table \<Rightarrow> u32 \<Rightarrow> u32 \<Rightarrow> caps \<Rightarrow> (caps \<times> (cap_error + u32)) option" where
  "grant_check_low32 obs cap_id required s =
     grant_check_at obs (unat (cap_id AND 0xFFFF)) (live32 cap_id) required s"

definition derive_subset ::
  "object_table \<Rightarrow> u64 \<Rightarrow> u32 \<Rightarrow> u64 \<Rightarrow> caps \<Rightarrow> (caps \<times> (cap_error + u64)) option" where
  "derive_subset obs parent rights budget s =
     do { (s1, r) \<leftarrow> grant_check obs parent 0 s;
          case r of
            Inl er \<Rightarrow> Some (s1, Inl er)
          | Inr ob \<Rightarrow>
              do { p \<leftarrow> elastic_get CAP_TY (snd s1) (handle_slot parent);
                   case p of
                     None \<Rightarrow> Some (s1, Inl BadHandle)
                   | Some ps \<Rightarrow>
                       if rights AND cs_rights ps \<noteq> rights then Some (s1, Inl WidenAttempt)
                       else mint_derived obs ob rights budget s1 } }"

definition cap_free :: "u64 \<Rightarrow> cap_table \<Rightarrow> cap_table option" where
  "cap_free handle e =
     do { r \<leftarrow> elastic_get CAP_TY e (handle_slot handle);
          case r of
            None \<Rightarrow> Some e
          | Some slot \<Rightarrow>
              if live64 handle slot
              then map_option fst (elastic_set CAP_TY (handle_slot handle) (slot\<lparr>cs_in_use := False\<rparr>) e)
              else Some e }"

text \<open>\<^verbatim>\<open>delegate\<close> works on two tables, both exclusively borrowed, over the one metadata memory.\<close>

definition delegate ::
  "object_table \<Rightarrow> u64 \<Rightarrow> kmem \<times> cap_table \<times> cap_table \<Rightarrow>
   ((kmem \<times> cap_table \<times> cap_table) \<times> (cap_error + u64)) option" where
  "delegate obs handle = (\<lambda>(k, e, tg).
     do { ((k1, e1), r) \<leftarrow> grant_check obs handle 0 (k, e);
          case r of
            Inl er \<Rightarrow> Some ((k1, e1, tg), Inl er)
          | Inr ob \<Rightarrow>
              do { p \<leftarrow> elastic_get CAP_TY e1 (handle_slot handle);
                   case p of
                     None \<Rightarrow> Some ((k1, e1, tg), Inl BadHandle)
                   | Some slot \<Rightarrow>
                       if cs_rights slot AND RIGHT_DELEGATE = 0 then Some ((k1, e1, tg), Inl NotDelegatable)
                       else do { ((k2, tg2), m) \<leftarrow> mint_derived obs ob (cs_rights slot) (cs_budget slot) (k1, tg);
                                 case m of
                                   Inl er \<Rightarrow> Some ((k2, e1, tg2), Inl er)
                                 | Inr new \<Rightarrow> do { e2 \<leftarrow> cap_free handle e1; Some ((k2, e2, tg2), Inr new) } } } })"

definition slot_of_low32 :: "object_table \<Rightarrow> u32 \<Rightarrow> cap_table \<Rightarrow> (cap_error + nat) option" where
  "slot_of_low32 obs cap_id e =
     do { r \<leftarrow> elastic_get CAP_TY e (unat (cap_id AND 0xFFFF));
          case r of
            None \<Rightarrow> Some (Inl BadHandle)
          | Some slot \<Rightarrow>
              if \<not> live32 cap_id slot then Some (Inl BadHandle)
              else do { ep \<leftarrow> epoch_of obs (cs_object slot);
                        Some (if cs_epoch slot \<noteq> ep then Inl Revoked else Inr (unat (cap_id AND 0xFFFF))) } }"

definition inspect_low32 :: "object_table \<Rightarrow> u32 \<Rightarrow> cap_table \<Rightarrow> (cap_error + u32 \<times> u32 \<times> u64) option" where
  "inspect_low32 obs cap_id e =
     do { i \<leftarrow> slot_of_low32 obs cap_id e;
          case i of
            Inl er \<Rightarrow> Some (Inl er)
          | Inr i \<Rightarrow> map_option (\<lambda>r. case r of None \<Rightarrow> Inl BadHandle
                                   | Some s \<Rightarrow> Inr (cs_object s, cs_rights s, cs_budget s)) (elastic_get CAP_TY e i) }"

definition derive_subset_low32 ::
  "object_table \<Rightarrow> u32 \<Rightarrow> u32 \<Rightarrow> u64 \<Rightarrow> caps \<Rightarrow> (caps \<times> (cap_error + u32)) option" where
  "derive_subset_low32 obs parent rights budget s =
     do { i \<leftarrow> slot_of_low32 obs parent (snd s);
          case i of
            Inl er \<Rightarrow> Some (s, Inl er)
          | Inr i \<Rightarrow>
              do { r \<leftarrow> elastic_get CAP_TY (snd s) i;
                   case r of
                     None \<Rightarrow> Some (s, Inl BadHandle)
                   | Some p \<Rightarrow>
                       if rights AND cs_rights p \<noteq> rights then Some (s, Inl WidenAttempt)
                       else if cs_budget p \<noteq> BUDGET_UNLIMITED \<and> (budget = BUDGET_UNLIMITED \<or> cs_budget p < budget)
                         then Some (s, Inl WidenAttempt)
                       else map_option (\<lambda>(s', m). (s', map_sum id raw_low32 m))
                              (mint_derived obs (cs_object p) rights budget s) } }"

definition free_low32 :: "object_table \<Rightarrow> u32 \<Rightarrow> cap_table \<Rightarrow> (cap_table \<times> (cap_error + unit)) option" where
  "free_low32 obs cap_id e =
     do { i \<leftarrow> slot_of_low32 obs cap_id e;
          case i of
            Inl er \<Rightarrow> Some (e, Inl er)
          | Inr i \<Rightarrow>
              do { r \<leftarrow> elastic_get CAP_TY e i;
                   case r of
                     None \<Rightarrow> Some (e, Inr ())
                   | Some x \<Rightarrow> map_option (\<lambda>(e', _). (e', Inr ())) (elastic_set CAP_TY i (x\<lparr>cs_in_use := False\<rparr>) e) } }"

text \<open>The loop of \<^verbatim>\<open>copy_from\<close>; \<open>False\<close> is its early return.\<close>

fun copy_slots :: "cap_table \<Rightarrow> nat list \<Rightarrow> caps \<Rightarrow> (caps \<times> bool) option" where
  "copy_slots src [] s = Some (s, True)"
| "copy_slots src (i # is) s =
     do { r \<leftarrow> elastic_get CAP_TY src i;
          case r of
            None \<Rightarrow> copy_slots src is s
          | Some x \<Rightarrow>
              if \<not> cs_in_use x then copy_slots src is s
              else do { (s1, g) \<leftarrow> elastic_grow_to CAP_TY EMPTY_SLOT i s;
                        if g = None then Some (s1, False)
                        else do { (e', ok) \<leftarrow> elastic_set CAP_TY i x (snd s1);
                                  if ok then copy_slots src is (fst s1, e') else Some ((fst s1, e'), False) } } }"

definition copy_from :: "cap_table \<Rightarrow> caps \<Rightarrow> (caps \<times> bool) option" where
  "copy_from other s = do { s1 \<leftarrow> captable_release s; copy_slots other [0..<elastic_capacity other] s1 }"

definition captable_clear :: "caps \<Rightarrow> caps option" where
  "captable_clear s = elastic_reset EMPTY_SLOT s"

definition live_count :: "cap_table \<Rightarrow> nat" where
  "live_count e = length (filter (\<lambda>i. case elastic_get CAP_TY e i of Some (Some s) \<Rightarrow> cs_in_use s | _ \<Rightarrow> False)
     [0..<elastic_capacity e])"

text \<open>
  In the two scans below an object number outside the table would be a panic of the source; the
  tables' invariant rules it out.
\<close>

definition holds :: "object_table \<Rightarrow> object_kind \<Rightarrow> u32 \<Rightarrow> cap_table \<Rightarrow> bool" where
  "holds obs knd required e = list_ex (\<lambda>i. case elastic_get CAP_TY e i of
       Some (Some s) \<Rightarrow> cs_in_use s \<and> cs_rights s AND required = required \<and>
         object_kind_of obs (cs_object s) = Some knd \<and> epoch_of obs (cs_object s) = Some (cs_epoch s)
     | _ \<Rightarrow> False) [0..<elastic_capacity e]"

section \<open>A table as a function from slots\<close>

text \<open>
  Slots beyond a table's capacity behave like empty ones, and growth only adds empty ones: so a
  table is the function from slot numbers to slots, and growth does not change it.
\<close>

definition cap_fn :: "cap_table \<Rightarrow> nat \<Rightarrow> cap_slot" where
  "cap_fn e i = (if i < length (el_view e) then el_view e ! i else EMPTY_SLOT)"

definition objects_ok :: "object_table \<Rightarrow> bool" where
  "objects_ok obs \<longleftrightarrow> length (objects obs) = MAX_OBJECTS"

definition caps_inv :: "caps \<Rightarrow> bool" where
  "caps_inv = (\<lambda>(k, e). km_inv k \<and> el_inv CAP_TY k e \<and> (\<forall>i. unat (cs_object (cap_fn e i)) < MAX_OBJECTS))"

abbreviation caps_acct :: "caps \<Rightarrow> caps \<Rightarrow> bool" where
  "caps_acct \<equiv> \<lambda>(k, e) (k', e'). table_acct CAP_TY (k, tail e) (k', tail e')"

definition cur_epoch :: "object_table \<Rightarrow> u32 \<Rightarrow> u32" where
  "cur_epoch obs ob = ob_epoch (objects obs ! unat ob)"

lemma epoch_of_cur: "objects_ok obs \<Longrightarrow> unat ob < MAX_OBJECTS \<Longrightarrow> epoch_of obs ob = Some (cur_epoch obs ob)"
  by (simp add: epoch_of_def nth_opt_def objects_ok_def cur_epoch_def)

lemma EMPTY_SLOT_fields [simp]:
  "cs_object EMPTY_SLOT = 0" "\<not> cs_in_use EMPTY_SLOT" "cs_generation EMPTY_SLOT = 0" "cs_rights EMPTY_SLOT = 0"
  by (simp_all add: EMPTY_SLOT_def)

lemma caps_invD:
  assumes "caps_inv (k, e)"
  shows "km_inv k" "el_inv CAP_TY k e" "unat (cs_object (cap_fn e i)) < MAX_OBJECTS"
  using assms by (auto simp: caps_inv_def)

lemma caps_acct_refl: "caps_inv (k, e) \<Longrightarrow> caps_acct (k, e) (k, e)"
  by (simp add: caps_inv_def el_inv_def table_grew_acct table_grew_refl)

lemma caps_acct_inv:
  assumes "table_acct CAP_TY (k, tail e) (k', tail e')" and "\<And>i. unat (cs_object (cap_fn e' i)) < MAX_OBJECTS"
  shows "caps_inv (k', e')"
  using assms by (auto simp: caps_inv_def table_acct_def el_inv_def)

lemma cap_get:
  assumes "caps_inv (k, e)"
  shows "elastic_get CAP_TY e i = Some (if i < length (el_view e) then Some (cap_fn e i) else None)"
  using et.get_view [OF caps_invD(2) [OF assms], of i] by (simp add: nth_opt_def cap_fn_def)

lemma cap_set:
  assumes "caps_inv (k, e)" and "i < length (el_view e)" and "unat (cs_object x) < MAX_OBJECTS"
  shows "\<exists>e'. elastic_set CAP_TY i x e = Some (e', True) \<and> caps_inv (k, e') \<and> cap_fn e' = (cap_fn e)(i := x) \<and>
    caps_acct (k, e) (k, e') \<and> length (el_view e') = length (el_view e)"
proof -
  note inv = caps_invD [OF assms(1)]
  from elastic_set_spec [OF inv(1,2), of i x] assms(2) obtain e' where
    e': "elastic_set CAP_TY i x e = Some (e', True)" "el_view e' = (el_view e)[i := x]"
      "table_acct CAP_TY (k, tail e) (k, tail e')" by auto
  have fn: "cap_fn e' = (cap_fn e)(i := x)" using e'(2) assms(2) by (auto simp: cap_fn_def fun_eq_iff nth_list_update)
  have "caps_inv (k, e')" using inv(3) assms(3) by (intro caps_acct_inv [OF e'(3)]) (simp add: fn)
  with e' fn show ?thesis by simp
qed

lemma cap_fn_pad: "el_view e' = el_view e @ replicate m EMPTY_SLOT \<Longrightarrow> cap_fn e' = cap_fn e"
  by (auto simp: cap_fn_def fun_eq_iff nth_append)

lemma alloc_slot_spec:
  assumes "caps_inv (k, e)"
  shows "\<exists>k' e' r. alloc_slot (k, e) = Some ((k', e'), r) \<and> caps_inv (k', e') \<and> caps_acct (k, e) (k', e') \<and>
    cap_fn e' = cap_fn e \<and>
    (case r of Inl er \<Rightarrow> er = TableFull | Inr i \<Rightarrow> i < length (el_view e') \<and> \<not> cs_in_use (cap_fn e i))"
proof -
  note inv = caps_invD [OF assms]
  from elastic_alloc_spec [OF inv(1,2), of EMPTY_SLOT "\<lambda>x. \<not> cs_in_use x"] obtain k' e' r where
    a: "elastic_alloc CAP_TY EMPTY_SLOT (\<lambda>x. \<not> cs_in_use x) (k, e) = Some ((k', e'), r)"
      "table_acct CAP_TY (k, tail e) (k', tail e')"
      "case find_idx (\<lambda>x. \<not> cs_in_use x) (el_view e) of
         Some i \<Rightarrow> k' = k \<and> e' = e \<and> r = Some i
       | None \<Rightarrow> r = None \<and> el_view e' = el_view e \<or>
           r = Some (length (el_view e)) \<and> (\<exists>m > 0. el_view e' = el_view e @ replicate m EMPTY_SLOT)" by blast
  have fn: "cap_fn e' = cap_fn e"
    using a(3) by (auto simp: cap_fn_def fun_eq_iff nth_append split: option.splits)
  moreover have "caps_inv (k', e')" using inv(3) by (intro caps_acct_inv [OF a(2)]) (simp add: fn)
  moreover have "case r of None \<Rightarrow> True | Some i \<Rightarrow> i < length (el_view e') \<and> \<not> cs_in_use (cap_fn e i)"
    using a(3) by (auto simp: cap_fn_def find_idx_Some split: option.splits)
  ultimately show ?thesis using a(1,2) by (auto simp: alloc_slot_def split: option.splits)
qed

section \<open>Each operation on the slots\<close>

definition minted :: "object_table \<Rightarrow> u32 \<Rightarrow> u32 \<Rightarrow> u64 \<Rightarrow> cap_slot \<Rightarrow> cap_slot" where
  "minted obs ob rights budget old = \<lparr> cs_object = ob, cs_rights = rights, cs_epoch = cur_epoch obs ob,
     cs_generation = cs_generation old + 1, cs_budget = budget, cs_in_use = True \<rparr>"

lemma minted_fields [simp]:
  "cs_object (minted obs ob r b old) = ob" "cs_rights (minted obs ob r b old) = r"
  "cs_epoch (minted obs ob r b old) = cur_epoch obs ob" "cs_budget (minted obs ob r b old) = b"
  "cs_generation (minted obs ob r b old) = cs_generation old + 1" "cs_in_use (minted obs ob r b old)"
  by (simp_all add: minted_def)

lemma mint_spec:
  assumes inv: "caps_inv (k, e)" and obs: "objects_ok obs" "unat ob < MAX_OBJECTS"
  shows "\<exists>k' e' r. mint obs ob rights budget (k, e) = Some ((k', e'), r) \<and> caps_inv (k', e') \<and>
    caps_acct (k, e) (k', e') \<and>
    (case r of
       Inl er \<Rightarrow> er = TableFull \<and> cap_fn e' = cap_fn e
     | Inr h \<Rightarrow> \<exists>i. \<not> cs_in_use (cap_fn e i) \<and> h = handle_new i (cs_generation (cap_fn e i) + 1) \<and>
         cap_fn e' = (cap_fn e)(i := minted obs ob rights budget (cap_fn e i)))"
proof -
  from alloc_slot_spec [OF inv] obtain k1 e1 r where
    a: "alloc_slot (k, e) = Some ((k1, e1), r)" "caps_inv (k1, e1)" "caps_acct (k, e) (k1, e1)" "cap_fn e1 = cap_fn e"
      "case r of Inl er \<Rightarrow> er = TableFull | Inr i \<Rightarrow> i < length (el_view e1) \<and> \<not> cs_in_use (cap_fn e i)" by blast
  show ?thesis
  proof (cases r)
    case (Inl er)
    with a show ?thesis by (auto simp: mint_def)
  next
    case (Inr i)
    let ?x = "minted obs ob rights budget (cap_fn e i)"
    from Inr a(5) have i: "i < length (el_view e1)" "\<not> cs_in_use (cap_fn e i)" by auto
    have "unat (cs_object ?x) < MAX_OBJECTS" using obs(2) by simp
    from cap_set [OF a(2) i(1) this] obtain e2 where
      e2: "elastic_set CAP_TY i ?x e1 = Some (e2, True)" "caps_inv (k1, e2)" "cap_fn e2 = (cap_fn e1)(i := ?x)"
        "caps_acct (k1, e1) (k1, e2)" by blast
    have "mint obs ob rights budget (k, e) = Some ((k1, e2), Inr (handle_new i (cs_generation (cap_fn e i) + 1)))"
      using a(1) Inr cap_get [OF a(2), of i] i(1) epoch_of_cur [OF obs] e2(1)
      by (simp add: mint_def a(4) minted_def Let_def)
    moreover have "caps_acct (k, e) (k1, e2)" using table_acct_trans a(3) e2(4) by fastforce
    ultimately show ?thesis using i e2(2,3) a(4) by auto
  qed
qed

lemma mint_free_slot:
  assumes inv: "caps_inv (k, e)" and obs: "objects_ok obs" "unat ob < MAX_OBJECTS"
    and free: "find_idx (\<lambda>x. \<not> cs_in_use x) (el_view e) = Some i"
  shows "\<exists>s' h. mint obs ob rights budget (k, e) = Some (s', Inr h)"
proof -
  let ?x = "minted obs ob rights budget (cap_fn e i)"
  have i: "i < length (el_view e)" using free by (simp add: find_idx_Some)
  have "alloc_slot (k, e) = Some ((k, e), Inr i)"
    using elastic_position_view [OF caps_invD(2) [OF inv], of "\<lambda>x. \<not> cs_in_use x"] free
    by (simp add: alloc_slot_def elastic_alloc_def)
  moreover obtain e' where "elastic_set CAP_TY i ?x e = Some (e', True)"
    using elastic_set_spec [OF caps_invD(1,2) [OF inv], of i ?x] i by auto
  ultimately show ?thesis
    using cap_get [OF inv, of i] i epoch_of_cur [OF obs] by (simp add: mint_def minted_def Let_def)
qed

text \<open>What a grant check decides from the slot alone.\<close>

definition verdict :: "object_table \<Rightarrow> (cap_slot \<Rightarrow> bool) \<Rightarrow> u32 \<Rightarrow> cap_slot \<Rightarrow> cap_error option" where
  "verdict obs live required x =
     (if \<not> live x then Some BadHandle
      else if cs_rights x AND required \<noteq> required then Some InsufficientRights
      else if cs_epoch x \<noteq> cur_epoch obs (cs_object x) then Some Revoked
      else if cs_budget x = 0 then Some Exhausted
      else None)"

definition spend :: "cap_slot \<Rightarrow> cap_slot" where
  "spend x = (if cs_budget x = BUDGET_UNLIMITED then x else x\<lparr>cs_budget := cs_budget x - 1\<rparr>)"

lemma spend_fields [simp]:
  "cs_object (spend x) = cs_object x" "cs_rights (spend x) = cs_rights x" "cs_epoch (spend x) = cs_epoch x"
  "cs_generation (spend x) = cs_generation x" "cs_in_use (spend x) = cs_in_use x"
  by (simp_all add: spend_def)

lemma check_slot_verdict:
  assumes "objects_ok obs" and "unat (cs_object x) < MAX_OBJECTS" and "live x"
  shows "check_slot obs x required = Some (case verdict obs live required x of Some er \<Rightarrow> Inl er | None \<Rightarrow> Inr (spend x))"
  using epoch_of_cur [OF assms(1,2)] assms(3)
  by (auto simp: check_slot_def verdict_def spend_def BUDGET_UNLIMITED_def)

lemma grant_check_at_spec:
  assumes inv: "caps_inv (k, e)" and obs: "objects_ok obs" and live: "\<And>x. live x \<Longrightarrow> cs_in_use x"
  shows "\<exists>e'. grant_check_at obs i live required (k, e) = Some ((k, e'),
      case verdict obs live required (cap_fn e i) of Some er \<Rightarrow> Inl er | None \<Rightarrow> Inr (cs_object (cap_fn e i))) \<and>
    caps_inv (k, e') \<and> caps_acct (k, e) (k, e') \<and>
    (case verdict obs live required (cap_fn e i) of Some er \<Rightarrow> e' = e
     | None \<Rightarrow> cap_fn e' = (cap_fn e)(i := spend (cap_fn e i)))"
proof (cases "i < length (el_view e) \<and> live (cap_fn e i)")
  case False
  have "\<not> live EMPTY_SLOT" using live by fastforce
  with False have dead: "\<not> live (cap_fn e i)" by (auto simp: cap_fn_def)
  then have "grant_check_at obs i live required (k, e) = Some ((k, e), Inl BadHandle)"
    using cap_get [OF inv, of i] by (auto simp: grant_check_at_def)
  with dead inv caps_acct_refl [OF inv] show ?thesis by (simp add: verdict_def)
next
  case True
  let ?x = "cap_fn e i"
  have get: "elastic_get CAP_TY e i = Some (Some ?x)" using cap_get [OF inv, of i] True by simp
  have chk: "check_slot obs ?x required = Some (case verdict obs live required ?x of Some er \<Rightarrow> Inl er | None \<Rightarrow> Inr (spend ?x))"
    using True caps_invD(3) [OF inv] by (intro check_slot_verdict [OF obs]) auto
  show ?thesis
  proof (cases "verdict obs live required ?x")
    case (Some er)
    with get chk True inv caps_acct_refl [OF inv] show ?thesis by (simp add: grant_check_at_def)
  next
    case None
    have "unat (cs_object (spend ?x)) < MAX_OBJECTS" using caps_invD(3) [OF inv] by simp
    from cap_set [OF inv _ this] True obtain e' where
      "elastic_set CAP_TY i (spend ?x) e = Some (e', True)" "caps_inv (k, e')" "cap_fn e' = (cap_fn e)(i := spend ?x)"
      "caps_acct (k, e) (k, e')" by blast
    with None get chk True show ?thesis by (simp add: grant_check_at_def)
  qed
qed

lemma live64_in_use: "live64 h x \<Longrightarrow> cs_in_use x"
  by (simp add: live64_def)

lemma in_use_length: "cs_in_use (cap_fn e i) \<Longrightarrow> i < length (el_view e)"
  by (auto simp: cap_fn_def split: if_splits)

lemma live32_in_use: "live32 h x \<Longrightarrow> cs_in_use x"
  by (simp add: live32_def)

lemma grant_check_spec:
  assumes "caps_inv (k, e)" and "objects_ok obs"
  shows "\<exists>e'. grant_check obs h required (k, e) = Some ((k, e'),
      case verdict obs (live64 h) required (cap_fn e (handle_slot h)) of Some er \<Rightarrow> Inl er
      | None \<Rightarrow> Inr (cs_object (cap_fn e (handle_slot h)))) \<and>
    caps_inv (k, e') \<and> caps_acct (k, e) (k, e') \<and>
    (case verdict obs (live64 h) required (cap_fn e (handle_slot h)) of Some er \<Rightarrow> e' = e
     | None \<Rightarrow> cap_fn e' = (cap_fn e)(handle_slot h := spend (cap_fn e (handle_slot h))))"
  unfolding grant_check_def by (rule grant_check_at_spec [OF assms live64_in_use])

lemma grant_check_low32_spec:
  assumes "caps_inv (k, e)" and "objects_ok obs"
  shows "\<exists>e'. grant_check_low32 obs c required (k, e) = Some ((k, e'),
      case verdict obs (live32 c) required (cap_fn e (unat (c AND 0xFFFF))) of Some er \<Rightarrow> Inl er
      | None \<Rightarrow> Inr (cs_object (cap_fn e (unat (c AND 0xFFFF))))) \<and>
    caps_inv (k, e') \<and> caps_acct (k, e) (k, e') \<and>
    (case verdict obs (live32 c) required (cap_fn e (unat (c AND 0xFFFF))) of Some er \<Rightarrow> e' = e
     | None \<Rightarrow> cap_fn e' = (cap_fn e)(unat (c AND 0xFFFF) := spend (cap_fn e (unat (c AND 0xFFFF)))))"
  unfolding grant_check_low32_def by (rule grant_check_at_spec [OF assms live32_in_use])

lemma cap_free_spec:
  assumes inv: "caps_inv (k, e)"
  shows "\<exists>e'. cap_free h e = Some e' \<and> caps_inv (k, e') \<and> caps_acct (k, e) (k, e') \<and>
    cap_fn e' = (let i = handle_slot h; x = cap_fn e i
      in if live64 h x then (cap_fn e)(i := x\<lparr>cs_in_use := False\<rparr>) else cap_fn e)"
proof (cases "handle_slot h < length (el_view e) \<and> live64 h (cap_fn e (handle_slot h))")
  case False
  have "\<not> live64 h EMPTY_SLOT" by (simp add: live64_def)
  with False have dead: "\<not> live64 h (cap_fn e (handle_slot h))" by (auto simp: cap_fn_def)
  then have "cap_free h e = Some e" using cap_get [OF inv, of "handle_slot h"] by (auto simp: cap_free_def)
  with dead inv caps_acct_refl [OF inv] show ?thesis by simp
next
  case True
  let ?x = "(cap_fn e (handle_slot h))\<lparr>cs_in_use := False\<rparr>"
  have "unat (cs_object ?x) < MAX_OBJECTS" using caps_invD(3) [OF inv] by simp
  from cap_set [OF inv _ this] True obtain e' where
    "elastic_set CAP_TY (handle_slot h) ?x e = Some (e', True)" "caps_inv (k, e')"
    "cap_fn e' = (cap_fn e)(handle_slot h := ?x)" "caps_acct (k, e) (k, e')" by blast
  with True cap_get [OF inv, of "handle_slot h"] show ?thesis by (simp add: cap_free_def Let_def)
qed

lemma slot_of_low32_spec:
  assumes inv: "caps_inv (k, e)" and obs: "objects_ok obs"
  shows "slot_of_low32 obs c e = Some (let i = unat (c AND 0xFFFF); x = cap_fn e i
    in if \<not> live32 c x then Inl BadHandle
       else if cs_epoch x \<noteq> cur_epoch obs (cs_object x) then Inl Revoked else Inr i)"
proof -
  have "\<not> live32 c EMPTY_SLOT" by (simp add: live32_def)
  then show ?thesis
    using cap_get [OF inv, of "unat (c AND 0xFFFF)"] epoch_of_cur [OF obs caps_invD(3) [OF inv, of "unat (c AND 0xFFFF)"]]
    by (auto simp: slot_of_low32_def Let_def cap_fn_def)
qed

lemma live32_get:
  assumes "caps_inv (k, e)" and "live32 c (cap_fn e i)"
  shows "elastic_get CAP_TY e i = Some (Some (cap_fn e i))" "i < length (el_view e)"
proof -
  show i: "i < length (el_view e)" using assms(2) by (auto simp: cap_fn_def live32_def split: if_splits)
  then show "elastic_get CAP_TY e i = Some (Some (cap_fn e i))" using cap_get [OF assms(1), of i] by simp
qed

lemma inspect_low32_spec:
  assumes inv: "caps_inv (k, e)" and obs: "objects_ok obs"
  shows "inspect_low32 obs c e = Some (let x = cap_fn e (unat (c AND 0xFFFF))
    in if \<not> live32 c x then Inl BadHandle
       else if cs_epoch x \<noteq> cur_epoch obs (cs_object x) then Inl Revoked
       else Inr (cs_object x, cs_rights x, cs_budget x))"
  using slot_of_low32_spec [OF inv obs, of c] live32_get [OF inv, of c "unat (c AND 0xFFFF)"]
  by (auto simp: inspect_low32_def Let_def)

lemma free_low32_spec:
  assumes inv: "caps_inv (k, e)" and obs: "objects_ok obs"
  shows "\<exists>e' r. free_low32 obs c e = Some (e', r) \<and> caps_inv (k, e') \<and> caps_acct (k, e) (k, e') \<and>
    (case r of Inl _ \<Rightarrow> cap_fn e' = cap_fn e
     | Inr _ \<Rightarrow> (let i = unat (c AND 0xFFFF); x = cap_fn e i
         in live32 c x \<and> cap_fn e' = (cap_fn e)(i := x\<lparr>cs_in_use := False\<rparr>)))"
proof -
  let ?i = "unat (c AND 0xFFFF)"
  let ?x = "(cap_fn e ?i)\<lparr>cs_in_use := False\<rparr>"
  show ?thesis
  proof (cases "live32 c (cap_fn e ?i) \<and> cs_epoch (cap_fn e ?i) = cur_epoch obs (cs_object (cap_fn e ?i))")
    case False
    then have "\<exists>er. free_low32 obs c e = Some (e, Inl er)"
      using slot_of_low32_spec [OF inv obs, of c] by (auto simp: free_low32_def Let_def)
    then show ?thesis using inv caps_acct_refl [OF inv] by auto
  next
    case True
    note get = live32_get [OF inv conjunct1 [OF True]]
    have "unat (cs_object ?x) < MAX_OBJECTS" using caps_invD(3) [OF inv] by simp
    from cap_set [OF inv get(2) this] obtain e' where
      "elastic_set CAP_TY ?i ?x e = Some (e', True)" "caps_inv (k, e')" "cap_fn e' = (cap_fn e)(?i := ?x)"
      "caps_acct (k, e) (k, e')" by blast
    with True get slot_of_low32_spec [OF inv obs, of c] show ?thesis by (simp add: free_low32_def Let_def)
  qed
qed

section \<open>What one slot may become\<close>

text \<open>
  \<open>slot_step obs live x x'\<close>: the changes any operation but \<^verbatim>\<open>mint\<close> makes to a slot, given the
  live capabilities of the system: nothing, a budget unit, a drop or both, or a new capability in an unused slot
  that narrows a live one whose epoch is current.
\<close>

inductive slot_step :: "object_table \<Rightarrow> cap_slot set \<Rightarrow> cap_slot \<Rightarrow> cap_slot \<Rightarrow> bool" for obs live where
  stay: "slot_step obs live x x"
| use: "slot_step obs live x (spend x)"
| drop: "slot_step obs live x (x\<lparr>cs_in_use := False\<rparr>)"
| move: "slot_step obs live x ((spend x)\<lparr>cs_in_use := False\<rparr>)"
| derive: "\<not> cs_in_use x \<Longrightarrow> p \<in> live \<Longrightarrow> cs_in_use p \<Longrightarrow> cs_epoch p = cur_epoch obs (cs_object p) \<Longrightarrow>
    r AND cs_rights p = r \<Longrightarrow> slot_step obs live x (minted obs (cs_object p) r b x)"

inductive_cases slot_stepE: "slot_step obs live x x'"

text \<open>A live slot after a step comes from a live slot with the same object and epoch and at least its rights.\<close>

lemma slot_step_origin:
  assumes "slot_step obs live x x'" and "x \<in> live" and "cs_in_use x'"
  obtains p where "p \<in> live" and "cs_in_use p" and "cs_object x' = cs_object p" and "cs_epoch x' = cs_epoch p"
    and "cs_rights x' AND cs_rights p = cs_rights x'"
  using assms(1)
proof (cases rule: slot_step.cases)
  case (derive p r b)
  then show ?thesis by (intro that [of p]) simp_all
qed (use assms in \<open>auto intro: that [of x]\<close>)

lemma derive_subset_spec:
  assumes inv: "caps_inv (k, e)" and obs: "objects_ok obs" and live: "range (cap_fn e) \<subseteq> live"
  shows "\<exists>k' e' r. derive_subset obs h rights budget (k, e) = Some ((k', e'), r) \<and> caps_inv (k', e') \<and>
    caps_acct (k, e) (k', e') \<and>
    (\<forall>i. slot_step obs live (cap_fn e i) (cap_fn e' i))"
proof -
  let ?i = "handle_slot h"
  let ?x = "cap_fn e ?i"
  from grant_check_spec [OF inv obs, of h 0] obtain e1 where
    g: "grant_check obs h 0 (k, e) = Some ((k, e1), case verdict obs (live64 h) 0 ?x of Some er \<Rightarrow> Inl er | None \<Rightarrow> Inr (cs_object ?x))"
      "caps_inv (k, e1)" "caps_acct (k, e) (k, e1)"
      "case verdict obs (live64 h) 0 ?x of Some er \<Rightarrow> e1 = e | None \<Rightarrow> cap_fn e1 = (cap_fn e)(?i := spend ?x)"
    by blast
  show ?thesis
  proof (cases "verdict obs (live64 h) 0 ?x")
    case (Some er)
    then show ?thesis using g caps_acct_refl [OF inv] inv
      by (fastforce simp: derive_subset_def intro: slot_step.stay)
  next
    case None
    then have x: "live64 h ?x" "cs_epoch ?x = cur_epoch obs (cs_object ?x)"
      by (auto simp: verdict_def split: if_splits)
    have fn1: "cap_fn e1 = (cap_fn e)(?i := spend ?x)" using g(4) None by simp
    then have "live64 h (cap_fn e1 ?i)" using x(1) by (simp add: live64_def)
    then have "?i < length (el_view e1)" by (intro in_use_length) (simp add: live64_def)
    then have get: "elastic_get CAP_TY e1 ?i = Some (Some (spend ?x))" using cap_get [OF g(2), of ?i] fn1 by simp
    have use: "slot_step obs live (cap_fn e i) (cap_fn e1 i)" for i
      by (cases "i = ?i") (auto simp: fn1 intro: slot_step.intros)
    show ?thesis
    proof (cases "rights AND cs_rights ?x = rights")
      case False
      then have "derive_subset obs h rights budget (k, e) = Some ((k, e1), Inl WidenAttempt)"
        using g(1) None get by (simp add: derive_subset_def)
      with g use show ?thesis by blast
    next
      case True
      from mint_spec [OF g(2) obs, of "cs_object ?x" rights budget] caps_invD(3) [OF inv, of ?i] obtain k2 e2 r where
        m: "mint obs (cs_object ?x) rights budget (k, e1) = Some ((k2, e2), r)" "caps_inv (k2, e2)" "caps_acct (k, e1) (k2, e2)"
          "case r of Inl er \<Rightarrow> er = TableFull \<and> cap_fn e2 = cap_fn e1
           | Inr h \<Rightarrow> \<exists>i. \<not> cs_in_use (cap_fn e1 i) \<and> h = handle_new i (cs_generation (cap_fn e1 i) + 1) \<and>
             cap_fn e2 = (cap_fn e1)(i := minted obs (cs_object ?x) rights budget (cap_fn e1 i))" by blast
      have "derive_subset obs h rights budget (k, e) = Some ((k2, e2), r)"
        using g(1) None get True m(1) by (simp add: derive_subset_def mint_derived_def)
      moreover have "slot_step obs live (cap_fn e i) (cap_fn e2 i)" for i
      proof (cases "cap_fn e2 i = cap_fn e1 i")
        case True
        then show ?thesis using use [of i] by simp
      next
        case False
        with m(4) have new: "\<not> cs_in_use (cap_fn e1 i)" "cap_fn e2 i = minted obs (cs_object ?x) rights budget (cap_fn e1 i)"
          by (auto split: sum.splits if_splits)
        have "i \<noteq> ?i" using new(1) fn1 x(1) by (auto simp: live64_def)
        then have "cap_fn e1 i = cap_fn e i" by (simp add: fn1)
        with new x True live show ?thesis by (auto intro!: slot_step.derive simp: live64_def)
      qed
      moreover have "caps_acct (k, e) (k2, e2)" using table_acct_trans g(3) m(3) by fastforce
      ultimately show ?thesis using m(2) by blast
    qed
  qed
qed

lemma derive_subset_low32_spec:
  assumes inv: "caps_inv (k, e)" and obs: "objects_ok obs"
    and p_def: "p = cap_fn e (unat (c AND 0xFFFF))"
  shows "\<exists>k' e' r. derive_subset_low32 obs c rights budget (k, e) = Some ((k', e'), r) \<and> caps_inv (k', e') \<and>
    caps_acct (k, e) (k', e') \<and>
    (case r of
       Inl er \<Rightarrow> cap_fn e' = cap_fn e
     | Inr c' \<Rightarrow> live32 c p \<and> cs_epoch p = cur_epoch obs (cs_object p) \<and> rights AND cs_rights p = rights \<and>
         budget \<le> cs_budget p \<and>
         (\<exists>i. \<not> cs_in_use (cap_fn e i) \<and> c' = raw_low32 (handle_new i (cs_generation (cap_fn e i) + 1)) \<and>
           cap_fn e' = (cap_fn e)(i := minted obs (cs_object p) rights budget (cap_fn e i))))"
proof -
  let ?i = "unat (c AND 0xFFFF)"
  have top: "b \<le> BUDGET_UNLIMITED" for b by (simp add: BUDGET_UNLIMITED_def)
  show ?thesis
  proof (cases "live32 c p \<and> cs_epoch p = cur_epoch obs (cs_object p)")
    case False
    then have "\<exists>er. derive_subset_low32 obs c rights budget (k, e) = Some ((k, e), Inl er)"
      using slot_of_low32_spec [OF inv obs, of c] by (auto simp: derive_subset_low32_def Let_def p_def)
    then show ?thesis using inv caps_acct_refl [OF inv] by auto
  next
    case True
    then have get: "elastic_get CAP_TY e ?i = Some (Some p)" using live32_get(1) [OF inv, of c ?i] by (simp add: p_def)
    have slot: "slot_of_low32 obs c e = Some (Inr ?i)"
      using True slot_of_low32_spec [OF inv obs, of c] by (simp add: Let_def p_def)
    show ?thesis
    proof (cases "rights AND cs_rights p = rights \<and> budget \<le> cs_budget p")
      case False
      have "derive_subset_low32 obs c rights budget (k, e) = Some ((k, e), Inl WidenAttempt)"
      proof (cases "cs_budget p = BUDGET_UNLIMITED")
        case True
        with False get slot top show ?thesis by (auto simp: derive_subset_low32_def)
      next
        case notop: False
        with False get slot show ?thesis by (auto simp: derive_subset_low32_def not_le)
      qed
      then show ?thesis using inv caps_acct_refl [OF inv] by auto
    next
      case ok: True
      then have "\<not> (cs_budget p \<noteq> BUDGET_UNLIMITED \<and> (budget = BUDGET_UNLIMITED \<or> cs_budget p < budget))"
        using top [of "cs_budget p"] by (auto simp: not_less antisym)
      then have der: "derive_subset_low32 obs c rights budget (k, e) =
          map_option (\<lambda>(s', m). (s', map_sum id raw_low32 m)) (mint obs (cs_object p) rights budget (k, e))"
        using ok get slot by (auto simp: derive_subset_low32_def mint_derived_def)
      have "unat (cs_object p) < MAX_OBJECTS" using caps_invD(3) [OF inv] by (simp add: p_def)
      from mint_spec [OF inv obs this, of rights budget] obtain k2 e2 r where
        m: "mint obs (cs_object p) rights budget (k, e) = Some ((k2, e2), r)" "caps_inv (k2, e2)" "caps_acct (k, e) (k2, e2)"
          "case r of Inl er \<Rightarrow> er = TableFull \<and> cap_fn e2 = cap_fn e
           | Inr h \<Rightarrow> \<exists>i. \<not> cs_in_use (cap_fn e i) \<and> h = handle_new i (cs_generation (cap_fn e i) + 1) \<and>
             cap_fn e2 = (cap_fn e)(i := minted obs (cs_object p) rights budget (cap_fn e i))" by blast
      show ?thesis
      proof (cases r)
        case (Inl er)
        with der m show ?thesis by auto
      next
        case (Inr h)
        with der m True ok show ?thesis by auto
      qed
    qed
  qed
qed

section \<open>The system of tables\<close>

record cap_sys =
  sy_mem :: kmem
  sy_objs :: object_table
  sy_tabs :: "cap_table list"

datatype cap_op = CGrant nat u64 u32 | CGrant32 nat u32 u32 | CDerive nat u64 u32 u64 | CDerive32 nat u32 u32 u64
  | CDelegate nat u64 nat | CFree nat u64 | CFree32 nat u32 | CRevoke u32 | CMint nat u32 u32 u64 | CCreate object_kind

definition on_cap :: "(caps \<Rightarrow> caps option) \<Rightarrow> nat \<Rightarrow> cap_sys \<Rightarrow> cap_sys" where
  "on_cap f c s = (if c < length (sy_tabs s)
     then case f (sy_mem s, sy_tabs s ! c) of None \<Rightarrow> s
          | Some (k, e) \<Rightarrow> s\<lparr>sy_mem := k, sy_tabs := (sy_tabs s)[c := e]\<rparr>
     else s)"

text \<open>One operation of a cell \<open>c\<close>; a delegation names a different target cell (two exclusive borrows).\<close>

fun cap_step :: "cap_sys \<Rightarrow> cap_op \<Rightarrow> cap_sys" where
  "cap_step s (CGrant c h req) = on_cap (\<lambda>x. map_option fst (grant_check (sy_objs s) h req x)) c s"
| "cap_step s (CGrant32 c h req) = on_cap (\<lambda>x. map_option fst (grant_check_low32 (sy_objs s) h req x)) c s"
| "cap_step s (CDerive c h r b) = on_cap (\<lambda>x. map_option fst (derive_subset (sy_objs s) h r b x)) c s"
| "cap_step s (CDerive32 c h r b) = on_cap (\<lambda>x. map_option fst (derive_subset_low32 (sy_objs s) h r b x)) c s"
| "cap_step s (CDelegate c h d) = (if c < length (sy_tabs s) \<and> d < length (sy_tabs s) \<and> c \<noteq> d
     then case delegate (sy_objs s) h (sy_mem s, sy_tabs s ! c, sy_tabs s ! d) of
            None \<Rightarrow> s
          | Some ((k, e, tg), _) \<Rightarrow> s\<lparr>sy_mem := k, sy_tabs := (sy_tabs s)[c := e, d := tg]\<rparr>
     else s)"
| "cap_step s (CFree c h) = on_cap (\<lambda>(k, e). map_option (Pair k) (cap_free h e)) c s"
| "cap_step s (CFree32 c h) = on_cap (\<lambda>(k, e). map_option (\<lambda>(e', _). (k, e')) (free_low32 (sy_objs s) h e)) c s"
| "cap_step s (CRevoke ob) = (case revoke_epoch ob (sy_objs s) of None \<Rightarrow> s | Some o1 \<Rightarrow> s\<lparr>sy_objs := o1\<rparr>)"
| "cap_step s (CMint c ob r b) = on_cap (\<lambda>x. map_option fst (mint (sy_objs s) ob r b x)) c s"
| "cap_step s (CCreate knd) = s\<lparr>sy_objs := fst (ob_create knd (sy_objs s))\<rparr>"

definition tabs_inv :: "kmem \<Rightarrow> cap_table list \<Rightarrow> bool" where
  "tabs_inv k es \<longleftrightarrow> tables_inv CAP_TY (k, map tail es) \<and> (\<forall>e \<in> set es. \<forall>i. unat (cs_object (cap_fn e i)) < MAX_OBJECTS)"

lemma tabs_caps_inv: "tabs_inv k es \<Longrightarrow> c < length es \<Longrightarrow> caps_inv (k, es ! c)"
  by (simp add: tabs_inv_def tables_inv_def caps_inv_def el_inv_def)

lemma tabs_inv_upd:
  assumes "tabs_inv k es" and "c < length es" and "caps_acct (k, es ! c) (k', e')" and "caps_inv (k', e')"
  shows "tabs_inv k' (es[c := e'])"
proof -
  have "tables_inv CAP_TY (k', (map tail es)[c := tail e'])"
    using assms(1-3) by (intro tables_inv_acct [of CAP_TY k]) (auto simp: tabs_inv_def)
  moreover have "unat (cs_object (cap_fn e i)) < MAX_OBJECTS" if "e \<in> set (es[c := e'])" for e i
  proof (cases "e = e'")
    case True
    then show ?thesis using caps_invD(3) [OF assms(4)] by simp
  next
    case False
    then have "e \<in> set es" using that set_update_subset_insert [of es c e'] by auto
    then show ?thesis using assms(1) by (simp add: tabs_inv_def)
  qed
  ultimately show ?thesis by (simp add: tabs_inv_def map_update)
qed

definition sys_inv :: "cap_sys \<Rightarrow> bool" where
  "sys_inv s \<longleftrightarrow> objects_ok (sy_objs s) \<and> tabs_inv (sy_mem s) (sy_tabs s)"

abbreviation slot_fn :: "cap_sys \<Rightarrow> nat \<Rightarrow> nat \<Rightarrow> cap_slot" where
  "slot_fn s c \<equiv> cap_fn (sy_tabs s ! c)"

definition sys_slots :: "cap_sys \<Rightarrow> cap_slot set" where
  "sys_slots s = {slot_fn s c i |c i. c < length (sy_tabs s)}"

text \<open>Every slot of every table moved by one of the slot steps, and the objects stayed.\<close>

definition slots_step :: "cap_sys \<Rightarrow> cap_sys \<Rightarrow> bool" where
  "slots_step s s' \<longleftrightarrow> sys_inv s' \<and> sy_objs s' = sy_objs s \<and> length (sy_tabs s') = length (sy_tabs s) \<and>
     (\<forall>c < length (sy_tabs s). \<forall>i. slot_step (sy_objs s) (sys_slots s) (slot_fn s c i) (slot_fn s' c i))"

lemma slots_step_refl: "sys_inv s \<Longrightarrow> slots_step s s"
  by (simp add: slots_step_def slot_step.stay)

lemma on_cap_slots:
  assumes inv: "sys_inv s"
    and f: "\<And>k e. caps_inv (k, e) \<Longrightarrow> range (cap_fn e) \<subseteq> sys_slots s \<Longrightarrow> \<exists>k' e'. f (k, e) = Some (k', e') \<and>
      caps_inv (k', e') \<and> caps_acct (k, e) (k', e') \<and>
      (\<forall>i. slot_step (sy_objs s) (sys_slots s) (cap_fn e i) (cap_fn e' i))"
  shows "slots_step s (on_cap f c s)"
proof (cases "c < length (sy_tabs s)")
  case False
  with slots_step_refl [OF inv] show ?thesis by (simp add: on_cap_def)
next
  case True
  let ?e = "sy_tabs s ! c"
  have tabs: "tabs_inv (sy_mem s) (sy_tabs s)" using inv by (simp add: sys_inv_def)
  have "range (cap_fn ?e) \<subseteq> sys_slots s" using True by (auto simp: sys_slots_def)
  from f [OF tabs_caps_inv [OF tabs True] this] obtain k' e' where
    e': "f (sy_mem s, ?e) = Some (k', e')" "caps_inv (k', e')" "caps_acct (sy_mem s, ?e) (k', e')"
      "\<And>i. slot_step (sy_objs s) (sys_slots s) (cap_fn ?e i) (cap_fn e' i)" by blast
  have "tabs_inv k' ((sy_tabs s)[c := e'])" by (rule tabs_inv_upd [OF tabs True e'(3,2)])
  then show ?thesis
    using True inv e'(1,4) by (auto simp: slots_step_def on_cap_def sys_inv_def nth_list_update slot_step.stay)
qed

lemma grant_use_steps:
  assumes "case v of Some er \<Rightarrow> e' = e | None \<Rightarrow> cap_fn e' = (cap_fn e)(j := spend (cap_fn e j))"
  shows "slot_step obs live (cap_fn e i) (cap_fn e' i)"
  using assms by (cases "i = j") (auto split: option.splits intro: slot_step.intros)

lemma grant_slots: "sys_inv s \<Longrightarrow> slots_step s (cap_step s (CGrant c h req))"
  unfolding cap_step.simps
proof (rule on_cap_slots)
  fix k e assume inv: "sys_inv s" and e: "caps_inv (k, e)"
  from grant_check_spec [OF e, of "sy_objs s" h req] inv
  show "\<exists>k' e'. map_option fst (grant_check (sy_objs s) h req (k, e)) = Some (k', e') \<and> caps_inv (k', e') \<and>
      caps_acct (k, e) (k', e') \<and> (\<forall>i. slot_step (sy_objs s) (sys_slots s) (cap_fn e i) (cap_fn e' i))"
    using grant_use_steps by (force simp: sys_inv_def)
qed

lemma grant32_slots: "sys_inv s \<Longrightarrow> slots_step s (cap_step s (CGrant32 c h req))"
  unfolding cap_step.simps
proof (rule on_cap_slots)
  fix k e assume inv: "sys_inv s" and e: "caps_inv (k, e)"
  from grant_check_low32_spec [OF e, of "sy_objs s" h req] inv
  show "\<exists>k' e'. map_option fst (grant_check_low32 (sy_objs s) h req (k, e)) = Some (k', e') \<and> caps_inv (k', e') \<and>
      caps_acct (k, e) (k', e') \<and> (\<forall>i. slot_step (sy_objs s) (sys_slots s) (cap_fn e i) (cap_fn e' i))"
    using grant_use_steps by (force simp: sys_inv_def)
qed

lemma derive_slots: "sys_inv s \<Longrightarrow> slots_step s (cap_step s (CDerive c h r b))"
  unfolding cap_step.simps
proof (rule on_cap_slots)
  fix k e assume inv: "sys_inv s" and e: "caps_inv (k, e)" and live: "range (cap_fn e) \<subseteq> sys_slots s"
  from derive_subset_spec [OF e _ live, of "sy_objs s" h r b] inv
  show "\<exists>k' e'. map_option fst (derive_subset (sy_objs s) h r b (k, e)) = Some (k', e') \<and> caps_inv (k', e') \<and>
      caps_acct (k, e) (k', e') \<and> (\<forall>i. slot_step (sy_objs s) (sys_slots s) (cap_fn e i) (cap_fn e' i))"
    by (force simp: sys_inv_def)
qed

lemma derive32_slots: "sys_inv s \<Longrightarrow> slots_step s (cap_step s (CDerive32 c h r b))"
  unfolding cap_step.simps
proof (rule on_cap_slots)
  fix k e assume inv: "sys_inv s" and e: "caps_inv (k, e)" and live: "range (cap_fn e) \<subseteq> sys_slots s"
  have obs: "objects_ok (sy_objs s)" using inv by (simp add: sys_inv_def)
  let ?p = "cap_fn e (unat (h AND 0xFFFF))"
  from derive_subset_low32_spec [OF e obs refl, of h r b] obtain k' e' v where
    d: "derive_subset_low32 (sy_objs s) h r b (k, e) = Some ((k', e'), v)" "caps_inv (k', e')" "caps_acct (k, e) (k', e')"
      "case v of Inl er \<Rightarrow> cap_fn e' = cap_fn e
       | Inr c' \<Rightarrow> live32 h ?p \<and> cs_epoch ?p = cur_epoch (sy_objs s) (cs_object ?p) \<and> r AND cs_rights ?p = r \<and>
         b \<le> cs_budget ?p \<and>
         (\<exists>i. \<not> cs_in_use (cap_fn e i) \<and> c' = raw_low32 (handle_new i (cs_generation (cap_fn e i) + 1)) \<and>
           cap_fn e' = (cap_fn e)(i := minted (sy_objs s) (cs_object ?p) r b (cap_fn e i)))" by blast
  have "slot_step (sy_objs s) (sys_slots s) (cap_fn e i) (cap_fn e' i)" for i
  proof (cases "cap_fn e' i = cap_fn e i")
    case True
    then show ?thesis by (simp add: slot_step.stay)
  next
    case False
    with d(4) have "\<not> cs_in_use (cap_fn e i)" "cap_fn e' i = minted (sy_objs s) (cs_object ?p) r b (cap_fn e i)"
      "live32 h ?p" "cs_epoch ?p = cur_epoch (sy_objs s) (cs_object ?p)" "r AND cs_rights ?p = r"
      by (auto split: sum.splits if_splits)
    then show ?thesis using live by (auto intro!: slot_step.derive simp: live32_def)
  qed
  with d(1-3) show "\<exists>k' e'. map_option fst (derive_subset_low32 (sy_objs s) h r b (k, e)) = Some (k', e') \<and>
      caps_inv (k', e') \<and> caps_acct (k, e) (k', e') \<and>
      (\<forall>i. slot_step (sy_objs s) (sys_slots s) (cap_fn e i) (cap_fn e' i))" by auto
qed

lemma free_slots: "sys_inv s \<Longrightarrow> slots_step s (cap_step s (CFree c h))"
  unfolding cap_step.simps
proof (rule on_cap_slots)
  fix k e assume inv: "sys_inv s" and e: "caps_inv (k, e)"
  from cap_free_spec [OF e, of h]
  show "\<exists>k' e'. (\<lambda>(k, e). map_option (Pair k) (cap_free h e)) (k, e) = Some (k', e') \<and> caps_inv (k', e') \<and>
      caps_acct (k, e) (k', e') \<and> (\<forall>i. slot_step (sy_objs s) (sys_slots s) (cap_fn e i) (cap_fn e' i))"
    by (auto simp: Let_def intro: slot_step.intros)
qed

lemma free32_slots: "sys_inv s \<Longrightarrow> slots_step s (cap_step s (CFree32 c h))"
  unfolding cap_step.simps
proof (rule on_cap_slots)
  fix k e assume inv: "sys_inv s" and e: "caps_inv (k, e)"
  from inv have "objects_ok (sy_objs s)" by (simp add: sys_inv_def)
  from free_low32_spec [OF e this, of h] obtain e' r where
    f: "free_low32 (sy_objs s) h e = Some (e', r)" "caps_inv (k, e')" "caps_acct (k, e) (k, e')"
      "case r of Inl _ \<Rightarrow> cap_fn e' = cap_fn e
       | Inr _ \<Rightarrow> (let i = unat (h AND 0xFFFF); x = cap_fn e i
           in live32 h x \<and> cap_fn e' = (cap_fn e)(i := x\<lparr>cs_in_use := False\<rparr>))" by blast
  have "slot_step (sy_objs s) (sys_slots s) (cap_fn e i) (cap_fn e' i)" for i
    using f(4) by (cases r) (auto simp: Let_def intro: slot_step.intros)
  with f(1-3) show "\<exists>k' e'. (\<lambda>(k, e). map_option (\<lambda>(e', _). (k, e')) (free_low32 (sy_objs s) h e)) (k, e) = Some (k', e') \<and>
      caps_inv (k', e') \<and> caps_acct (k, e) (k', e') \<and>
      (\<forall>i. slot_step (sy_objs s) (sys_slots s) (cap_fn e i) (cap_fn e' i))"
    by auto
qed

lemma delegate_slots:
  assumes inv: "sys_inv s"
  shows "slots_step s (cap_step s (CDelegate c h d))"
proof (cases "c < length (sy_tabs s) \<and> d < length (sy_tabs s) \<and> c \<noteq> d")
  case False
  then show ?thesis using slots_step_refl [OF inv] by auto
next
  case True
  let ?k = "sy_mem s" and ?o = "sy_objs s" and ?e = "sy_tabs s ! c" and ?t = "sy_tabs s ! d" and ?es = "sy_tabs s"
  let ?i = "handle_slot h"
  let ?x = "cap_fn ?e ?i"
  have tabs: "tabs_inv ?k ?es" and obs: "objects_ok ?o" using inv by (auto simp: sys_inv_def)
  note caps = tabs_caps_inv [OF tabs]
  from grant_check_spec [OF caps [OF conjunct1 [OF True]] obs, of h 0] obtain e1 where
    g: "grant_check ?o h 0 (?k, ?e) = Some ((?k, e1), case verdict ?o (live64 h) 0 ?x of Some er \<Rightarrow> Inl er | None \<Rightarrow> Inr (cs_object ?x))"
      "caps_inv (?k, e1)" "caps_acct (?k, ?e) (?k, e1)"
      "case verdict ?o (live64 h) 0 ?x of Some er \<Rightarrow> e1 = ?e | None \<Rightarrow> cap_fn e1 = (cap_fn ?e)(?i := spend ?x)"
    by blast
  have tabs1: "tabs_inv ?k (?es[c := e1])" using tabs_inv_upd [OF tabs _ g(3,2)] True by blast
  have use: "slot_step ?o (sys_slots s) (cap_fn ?e i) (cap_fn e1 i)" for i by (rule grant_use_steps [OF g(4)])
  have result: "slots_step s (s\<lparr>sy_mem := k2, sy_tabs := ?es[c := e2, d := t2]\<rparr>)"
    if "tabs_inv k2 (?es[c := e2, d := t2])" "\<And>i. slot_step ?o (sys_slots s) (cap_fn ?e i) (cap_fn e2 i)"
      "\<And>i. slot_step ?o (sys_slots s) (cap_fn ?t i) (cap_fn t2 i)" for k2 e2 t2
    using that obs True by (auto simp: slots_step_def sys_inv_def nth_list_update slot_step.stay)
  show ?thesis
  proof (cases "verdict ?o (live64 h) 0 ?x = None \<and> cs_rights ?x AND RIGHT_DELEGATE \<noteq> 0")
    case False
    have "\<exists>er. delegate ?o h (?k, ?e, ?t) = Some ((?k, e1, ?t), Inl er)"
    proof (cases "verdict ?o (live64 h) 0 ?x")
      case (Some er)
      then show ?thesis using g(1) by (simp add: delegate_def)
    next
      case None
      then have "cap_fn e1 = (cap_fn ?e)(?i := spend ?x)" "live64 h ?x" using g(4) by (auto simp: verdict_def split: if_splits)
      moreover from this have "?i < length (el_view e1)" by (auto intro!: in_use_length simp: live64_def)
      ultimately have "elastic_get CAP_TY e1 ?i = Some (Some (spend ?x))" using cap_get [OF g(2), of ?i] by simp
      then show ?thesis using g(1) None False by (simp add: delegate_def)
    qed
    moreover have "?es[c := e1, d := ?t] = ?es[c := e1]" using True by (simp add: list_update_same_conv)
    ultimately show ?thesis using True result [of ?k e1 ?t] tabs1 use slot_step.stay by auto
  next
    case ok: True
    let ?u = "spend ?x"
    have fn1: "cap_fn e1 = (cap_fn ?e)(?i := ?u)" and x: "live64 h ?x" "cs_epoch ?x = cur_epoch ?o (cs_object ?x)"
      using g(4) ok by (auto simp: verdict_def split: if_splits)
    then have u: "live64 h (cap_fn e1 ?i)" by (simp add: live64_def)
    then have "?i < length (el_view e1)" by (intro in_use_length) (simp add: live64_def)
    then have get: "elastic_get CAP_TY e1 ?i = Some (Some ?u)" using cap_get [OF g(2), of ?i] fn1 by simp
    have t: "caps_inv (?k, ?t)" using caps True by blast
    from mint_spec [OF t obs, of "cs_object ?x" "cs_rights ?x" "cs_budget ?u"]
      caps_invD(3) [OF caps [OF conjunct1 [OF True]], of ?i] obtain k2 t2 r where
      m: "mint ?o (cs_object ?x) (cs_rights ?x) (cs_budget ?u) (?k, ?t) = Some ((k2, t2), r)" "caps_inv (k2, t2)"
        "caps_acct (?k, ?t) (k2, t2)"
        "case r of Inl er \<Rightarrow> er = TableFull \<and> cap_fn t2 = cap_fn ?t
         | Inr h \<Rightarrow> \<exists>i. \<not> cs_in_use (cap_fn ?t i) \<and> h = handle_new i (cs_generation (cap_fn ?t i) + 1) \<and>
             cap_fn t2 = (cap_fn ?t)(i := minted ?o (cs_object ?x) (cs_rights ?x) (cs_budget ?u) (cap_fn ?t i))" by blast
    have tabs2: "tabs_inv k2 (?es[c := e1, d := t2])"
      using tabs_inv_upd [OF tabs1, of d k2 t2] m(2,3) True by simp
    have mem: "?x \<in> sys_slots s" using True by (auto simp: sys_slots_def)
    have tgt: "slot_step ?o (sys_slots s) (cap_fn ?t i) (cap_fn t2 i)" for i
    proof (cases "cap_fn t2 i = cap_fn ?t i")
      case True
      then show ?thesis by (simp add: slot_step.stay)
    next
      case False
      with m(4) have "\<not> cs_in_use (cap_fn ?t i)"
        "cap_fn t2 i = minted ?o (cs_object ?x) (cs_rights ?x) (cs_budget ?u) (cap_fn ?t i)"
        by (auto split: sum.splits if_splits)
      then show ?thesis using mem x slot_step.derive [of "cap_fn ?t i" ?x] by (simp add: live64_def)
    qed
    show ?thesis
    proof (cases r)
      case (Inl er)
      then have "delegate ?o h (?k, ?e, ?t) = Some ((k2, e1, t2), Inl er)"
        using g(1) ok get m(1) by (simp add: delegate_def mint_derived_def)
      then show ?thesis using True result [OF tabs2 use tgt] by simp
    next
      case (Inr new)
      have c1: "caps_inv (k2, e1)" using tabs_caps_inv [OF tabs2, of c] True by simp
      from cap_free_spec [OF c1, of h] u obtain e2 where
        e2: "cap_free h e1 = Some e2" "caps_inv (k2, e2)" "caps_acct (k2, e1) (k2, e2)"
          "cap_fn e2 = (cap_fn e1)(?i := (cap_fn e1 ?i)\<lparr>cs_in_use := False\<rparr>)" by (auto simp: Let_def)
      have "delegate ?o h (?k, ?e, ?t) = Some ((k2, e2, t2), Inr new)"
        using g(1) ok get m(1) Inr e2(1) by (simp add: delegate_def mint_derived_def)
      moreover have "tabs_inv k2 (?es[c := e2, d := t2])"
      proof -
        have "?es[c := e1, d := t2, c := e2] = ?es[c := e2, d := t2]"
          using True by (metis list_update_overwrite list_update_swap)
        then show ?thesis using tabs_inv_upd [OF tabs2, of c k2 e2] e2(2,3) True by simp
      qed
      moreover have "slot_step ?o (sys_slots s) (cap_fn ?e i) (cap_fn e2 i)" for i
        by (cases "i = ?i") (auto simp: e2(4) fn1 intro: slot_step.intros)
      ultimately show ?thesis using True result [of k2 e2 t2] tgt by simp
    qed
  qed
qed

text \<open>The operations that do not mint, create or revoke move every slot by a slot step.\<close>

fun derived_op :: "cap_op \<Rightarrow> bool" where
  "derived_op (CRevoke _) = False"
| "derived_op (CMint _ _ _ _) = False"
| "derived_op (CCreate _) = False"
| "derived_op _ = True"

lemma derived_slots:
  assumes "sys_inv s" and "derived_op x"
  shows "slots_step s (cap_step s x)"
  using assms grant_slots grant32_slots derive_slots derive32_slots delegate_slots free_slots free32_slots
  by (cases x) (simp_all del: cap_step.simps)

lemma mint_slots:
  assumes inv: "sys_inv s" and ob: "unat ob < MAX_OBJECTS"
  shows "sys_inv (cap_step s (CMint c ob r b)) \<and> sy_objs (cap_step s (CMint c ob r b)) = sy_objs s \<and>
    length (sy_tabs (cap_step s (CMint c ob r b))) = length (sy_tabs s) \<and>
    (\<forall>d < length (sy_tabs s). \<forall>i. slot_fn (cap_step s (CMint c ob r b)) d i = slot_fn s d i \<or>
       \<not> cs_in_use (slot_fn s d i) \<and> slot_fn (cap_step s (CMint c ob r b)) d i = minted (sy_objs s) ob r b (slot_fn s d i))"
proof (cases "c < length (sy_tabs s)")
  case False
  with inv show ?thesis by (simp add: on_cap_def)
next
  case True
  have tabs: "tabs_inv (sy_mem s) (sy_tabs s)" and obs: "objects_ok (sy_objs s)" using inv by (auto simp: sys_inv_def)
  from mint_spec [OF tabs_caps_inv [OF tabs True] obs ob, of r b] obtain k' e' v where
    m: "mint (sy_objs s) ob r b (sy_mem s, sy_tabs s ! c) = Some ((k', e'), v)" "caps_inv (k', e')"
      "caps_acct (sy_mem s, sy_tabs s ! c) (k', e')"
      "case v of Inl er \<Rightarrow> er = TableFull \<and> cap_fn e' = slot_fn s c
       | Inr h \<Rightarrow> \<exists>i. \<not> cs_in_use (slot_fn s c i) \<and> h = handle_new i (cs_generation (slot_fn s c i) + 1) \<and>
         cap_fn e' = (slot_fn s c)(i := minted (sy_objs s) ob r b (slot_fn s c i))" by blast
  have step: "cap_step s (CMint c ob r b) = s\<lparr>sy_mem := k', sy_tabs := (sy_tabs s)[c := e']\<rparr>"
    using m(1) True by (simp add: on_cap_def)
  have "cap_fn e' i = slot_fn s c i \<or>
      \<not> cs_in_use (slot_fn s c i) \<and> cap_fn e' i = minted (sy_objs s) ob r b (slot_fn s c i)" for i
    using m(4) by (cases v) (auto split: if_splits)
  then have "\<forall>i. cap_fn ((sy_tabs s)[c := e'] ! d) i = slot_fn s d i \<or>
      \<not> cs_in_use (slot_fn s d i) \<and> cap_fn ((sy_tabs s)[c := e'] ! d) i = minted (sy_objs s) ob r b (slot_fn s d i)" for d
    using True by (cases "d = c") simp_all
  with tabs_inv_upd [OF tabs True m(3,2)] obs show ?thesis
    by (simp add: step sys_inv_def del: cap_step.simps)
qed

section \<open>Epochs and generations over runs\<close>

text \<open>
  The epochs carried by live capabilities never run ahead of their objects, as long as no epoch
  wraps; only created objects are minted.
\<close>

definition slot_ok :: "object_table \<Rightarrow> cap_slot \<Rightarrow> bool" where
  "slot_ok obs x \<longleftrightarrow> (cs_in_use x \<longrightarrow> unat (cs_object x) < ob_next obs \<and> cs_epoch x \<le> cur_epoch obs (cs_object x))"

definition sys_ok :: "cap_sys \<Rightarrow> bool" where
  "sys_ok s \<longleftrightarrow> sys_inv s \<and> ob_next (sy_objs s) \<le> MAX_OBJECTS \<and>
     (\<forall>c < length (sy_tabs s). \<forall>i. slot_ok (sy_objs s) (slot_fn s c i))"

fun cap_pre :: "cap_sys \<Rightarrow> cap_op \<Rightarrow> bool" where
  "cap_pre s (CRevoke ob) = (cur_epoch (sy_objs s) ob \<noteq> - 1)"
| "cap_pre s (CMint c ob r b) = (unat ob < ob_next (sy_objs s))"
| "cap_pre s _ = True"

lemma slot_step_ok:
  assumes "slot_step obs live x x'" and "slot_ok obs x" and "\<And>p. p \<in> live \<Longrightarrow> slot_ok obs p"
  shows "slot_ok obs x'"
  using assms by (cases rule: slot_step.cases) (auto simp: slot_ok_def)

lemma sys_slots_ok: "sys_ok s \<Longrightarrow> p \<in> sys_slots s \<Longrightarrow> slot_ok (sy_objs s) p"
  by (auto simp: sys_ok_def sys_slots_def)

lemma inc_no_wrap: "(w :: 32 word) \<noteq> - 1 \<Longrightarrow> w < w + 1"
proof -
  assume "w \<noteq> - 1"
  moreover have "unat (- 1 :: 32 word) = 2 ^ 32 - 1" by (simp add: unsigned_minus_1_eq_mask mask_eq_exp_minus_1)
  ultimately have "unat w \<noteq> 2 ^ 32 - 1" by (metis word_unat_eq_iff)
  moreover have "unat w < 2 ^ 32" using unsigned_less [of w] by simp
  ultimately have "unat (w + 1) = unat w + 1" by (simp add: unat_word_ariths)
  then show "w < w + 1" by (simp add: word_less_nat_alt)
qed

lemma revoke_epoch_cur:
  assumes "revoke_epoch ob obs = Some obs'"
  shows "cur_epoch obs' ob' = (if ob' = ob then cur_epoch obs ob + 1 else cur_epoch obs ob')"
    "ob_next obs' = ob_next obs" "objects_ok obs \<Longrightarrow> objects_ok obs'"
  using assms
  by (auto simp: revoke_epoch_def cur_epoch_def objects_ok_def nth_list_update word_unat_eq_iff split: if_splits)

lemma create_cur:
  assumes "objects_ok obs"
  shows "unat ob < ob_next obs \<Longrightarrow> cur_epoch (fst (ob_create knd obs)) ob = cur_epoch obs ob"
    "ob_next obs \<le> ob_next (fst (ob_create knd obs))" "ob_next obs \<le> MAX_OBJECTS \<Longrightarrow> ob_next (fst (ob_create knd obs)) \<le> MAX_OBJECTS"
    "objects_ok (fst (ob_create knd obs))"
  using assms by (auto simp: ob_create_def cur_epoch_def objects_ok_def)

interpretation cm: machine cap_step cap_pre sys_ok
proof
  fix s x assume ok: "sys_ok s" and pre: "cap_pre s x"
  then have inv: "sys_inv s" by (simp add: sys_ok_def)
  show "sys_ok (cap_step s x)"
  proof (cases "derived_op x")
    case True
    let ?t = "cap_step s x"
    have st: "sys_inv ?t" "sy_objs ?t = sy_objs s" "length (sy_tabs ?t) = length (sy_tabs s)"
      "\<And>c i. c < length (sy_tabs s) \<Longrightarrow> slot_step (sy_objs s) (sys_slots s) (slot_fn s c i) (slot_fn ?t c i)"
      using derived_slots [OF inv True] by (auto simp: slots_step_def)
    have "slot_ok (sy_objs s) (slot_fn ?t c i)" if "c < length (sy_tabs s)" for c i
      using slot_step_ok [OF st(4) [OF that]] ok that sys_slots_ok [OF ok] by (simp add: sys_ok_def)
    with st(1-3) ok show ?thesis by (simp add: sys_ok_def)
  next
    case False
    then consider (revoke) ob where "x = CRevoke ob" | (mnt) c ob r b where "x = CMint c ob r b" | (create) knd where "x = CCreate knd"
      by (cases x) auto
    then show ?thesis
    proof cases
      case (revoke ob)
      show ?thesis
      proof (cases "revoke_epoch ob (sy_objs s)")
        case None
        then show ?thesis using revoke ok by simp
      next
        case (Some o1)
        have "cur_epoch (sy_objs s) ob' \<le> cur_epoch o1 ob'" for ob'
          using revoke_epoch_cur(1) [OF Some, of ob'] inc_no_wrap pre revoke by (auto intro: less_imp_le)
        then show ?thesis using ok revoke Some revoke_epoch_cur(2,3) [OF Some]
          by (auto simp: sys_ok_def sys_inv_def slot_ok_def intro: order_trans)
      qed
    next
      case (mnt c ob r b)
      have "unat ob < MAX_OBJECTS" using pre mnt ok by (auto simp: sys_ok_def)
      note st = mint_slots [OF inv this, of c r b, folded mnt]
      have "slot_ok (sy_objs s) (slot_fn (cap_step s x) d i)" if "d < length (sy_tabs s)" for d i
      proof -
        have "slot_ok (sy_objs s) (slot_fn s d i)" using ok that by (simp add: sys_ok_def)
        moreover have "slot_ok (sy_objs s) (minted (sy_objs s) ob r b (slot_fn s d i))"
          using pre mnt by (simp add: slot_ok_def)
        ultimately show ?thesis using st that by metis
      qed
      with st ok show ?thesis by (simp add: sys_ok_def)
    next
      case (create knd)
      have "objects_ok (sy_objs s)" using inv by (simp add: sys_inv_def)
      note cr = create_cur [OF this, where knd = knd]
      have "slot_ok (fst (ob_create knd (sy_objs s))) x" if "slot_ok (sy_objs s) x" for x
        using that cr(1) [of "cs_object x"] cr(2) by (auto simp: slot_ok_def intro: less_le_trans)
      with cr(3,4) ok create show ?thesis by (simp add: sys_ok_def sys_inv_def)
    qed
  qed
qed

lemma sys_ok_boot:
  assumes "pool_inv p"
  shows "sys_ok \<lparr>sy_mem = kmem_new p, sy_objs = objects_new, sy_tabs = replicate n captable_new\<rparr>"
proof -
  have ty: "0 < elems_per_page CAP_TY" by (simp add: elems_per_page_def CAP_TY_def FRAME_SIZE_def)
  have "cap_fn captable_new i = EMPTY_SLOT" for i
    by (simp add: cap_fn_def captable_new_def el_view_def with_inline_def contents_def page_data_def funded_new_def)
  moreover have "tail captable_new = funded_new" by (simp add: captable_new_def with_inline_def)
  ultimately show ?thesis
    using tables_inv_new [OF assms ty, of n]
    by (auto simp: sys_ok_def sys_inv_def objects_ok_def objects_new_def tabs_inv_def MAX_OBJECTS_def slot_ok_def
        in_set_conv_nth)
qed

lemma step_generation:
  assumes "sys_ok s" and "cap_pre s x" and "c < length (sy_tabs s)"
    and a_def: "a = slot_fn s c i" and b_def: "b = slot_fn (cap_step s x) c i"
  shows "cs_generation b = cs_generation a \<and> (cs_in_use b \<longrightarrow> cs_in_use a) \<or> cs_generation b = cs_generation a + 1 \<and> \<not> cs_in_use a"
proof -
  have inv: "sys_inv s" using assms(1) by (simp add: sys_ok_def)
  show ?thesis
  proof (cases "derived_op x")
    case True
    then have "slot_step (sy_objs s) (sys_slots s) a b"
      using derived_slots [OF inv True] assms(3) by (simp add: slots_step_def a_def b_def)
    then show ?thesis by (cases rule: slot_step.cases) auto
  next
    case False
    then consider (revoke) ob where "x = CRevoke ob" | (mnt) d ob r v where "x = CMint d ob r v" | (create) knd where "x = CCreate knd"
      by (cases x) auto
    then show ?thesis
    proof cases
      case (mnt d ob r v)
      have "unat ob < MAX_OBJECTS" using assms(1,2) mnt by (auto simp: sys_ok_def)
      from mint_slots [OF inv this, of d r v, folded mnt] assms(3) have
        "b = a \<or> \<not> cs_in_use a \<and> b = minted (sy_objs s) ob r v a" by (simp add: a_def b_def)
      then show ?thesis by auto
    qed (auto simp: a_def b_def split: option.splits)
  qed
qed

lemma run_tabs_length: "sys_ok s \<Longrightarrow> ok_run cap_step cap_pre s xs \<Longrightarrow>
    length (sy_tabs (run_ops cap_step s xs)) = length (sy_tabs s)"
proof (rule cm.run_keeps [of "\<lambda>t. length (sy_tabs t) = length (sy_tabs s)"])
  fix t x assume t: "sys_ok t" "cap_pre t x" and len: "length (sy_tabs t) = length (sy_tabs s)"
  then have inv: "sys_inv t" by (simp add: sys_ok_def)
  show "length (sy_tabs (cap_step t x)) = length (sy_tabs s)"
  proof (cases "derived_op x")
    case True
    from derived_slots [OF inv this] len show ?thesis by (simp add: slots_step_def)
  next
    case False
    then show ?thesis using len by (cases x) (auto simp: on_cap_def split: option.splits)
  qed
qed simp_all

text \<open>Once a slot has moved past a generation it stays past it, until the 64-bit counter wraps.\<close>

lemma run_stale:
  assumes "sys_ok s" and "ok_run cap_step cap_pre s xs" and "c < length (sy_tabs s)"
    and "unat g \<le> unat (cs_generation (slot_fn s c i))"
    and "cs_in_use (slot_fn s c i) \<longrightarrow> unat g < unat (cs_generation (slot_fn s c i))"
    and "unat (cs_generation (slot_fn s c i)) + length xs < 2 ^ 64"
  shows "cs_in_use (slot_fn (run_ops cap_step s xs) c i) \<longrightarrow>
    unat g < unat (cs_generation (slot_fn (run_ops cap_step s xs) c i))"
  using assms
proof (induction xs arbitrary: s)
  case Nil
  then show ?case by simp
next
  case (Cons x xs)
  let ?a = "slot_fn s c i" and ?t = "cap_step s x"
  let ?b = "slot_fn ?t c i"
  have t: "sys_ok ?t" "ok_run cap_step cap_pre ?t xs" using Cons.prems(1,2) cm.step_inv by auto
  have len: "length (sy_tabs ?t) = length (sy_tabs s)"
    using run_tabs_length [OF Cons.prems(1), of "[x]"] Cons.prems(2) by simp
  have wrap: "unat (cs_generation ?a + 1) = unat (cs_generation ?a) + 1"
    using Cons.prems(6) by (simp add: unat_word_ariths)
  from step_generation [OF Cons.prems(1) _ Cons.prems(3) refl refl, of x i] Cons.prems(2)
  have "cs_generation ?b = cs_generation ?a \<and> (cs_in_use ?b \<longrightarrow> cs_in_use ?a) \<or>
      cs_generation ?b = cs_generation ?a + 1 \<and> \<not> cs_in_use ?a" by simp
  then have "unat g \<le> unat (cs_generation ?b)" "cs_in_use ?b \<longrightarrow> unat g < unat (cs_generation ?b)"
    "unat (cs_generation ?b) + length xs < 2 ^ 64"
    using Cons.prems(4-6) wrap by auto
  from Cons.IH [OF t _ this] Cons.prems(3) len show ?case by simp
qed

section \<open>Handle bits\<close>

lemma mask16: "(0xFFFF :: 'a :: len word) = mask 16"
  by (simp add: mask_eq_exp_minus_1)

lemma handle_slot_take: "handle_slot h = take_bit 16 (unat h)"
  by (simp add: handle_slot_def mask16 unsigned_take_bit_eq flip: take_bit_eq_mask)

lemma handle_slot_less: "handle_slot h < 2 ^ 16"
  unfolding handle_slot_take by (rule take_bit_nat_less_exp)

lemma handle_generation_less: "unat (handle_generation h) < 2 ^ 48"
proof -
  have "unat h < 2 ^ 48 * 2 ^ 16" using unsigned_less [of h] by simp
  then show ?thesis
    using less_mult_imp_div_less [of "unat h" "2 ^ 48" "2 ^ 16"]
    by (simp add: handle_generation_def drop_bit_eq_div unat_div_distrib)
qed

lemma bit_nat_small: "s < 2 ^ m \<Longrightarrow> m \<le> n \<Longrightarrow> \<not> bit (s :: nat) n"
proof -
  assume "s < 2 ^ m" and "m \<le> n"
  then have "s < 2 ^ n" by (meson less_le_trans one_le_numeral power_increasing)
  then show "\<not> bit s n" by (simp add: bit_iff_odd)
qed

lemma bit_small_word: "unat (g :: u64) < 2 ^ m \<Longrightarrow> m \<le> n \<Longrightarrow> \<not> bit g n"
  using bit_nat_small [of "unat g" m n] by (simp add: bit_unsigned_iff)

lemma handle_new_slot: "s < 2 ^ 16 \<Longrightarrow> handle_slot (handle_new s g) = s"
proof (rule bit_eqI)
  fix n assume "s < 2 ^ 16"
  then show "bit (handle_slot (handle_new s g)) n = bit s n"
    using bit_nat_small [of s 16 n] by (cases "n < 16") (auto simp: handle_slot_take handle_new_def bit_simps)
qed

lemma handle_new_generation: "s < 2 ^ 16 \<Longrightarrow> unat g < 2 ^ 48 \<Longrightarrow> handle_generation (handle_new s g) = g"
proof (rule bit_word_eqI)
  fix n assume "s < 2 ^ 16" "unat g < 2 ^ 48"
  then show "bit (handle_generation (handle_new s g)) n = bit g n"
    using bit_nat_small [of s 16 "16 + n"] bit_small_word [of g 48 n]
    by (cases "n < 48") (auto simp: handle_generation_def handle_new_def bit_simps)
qed

lemma low32_slot: "unat (raw_low32 h AND 0xFFFF) = handle_slot h"
proof (rule bit_eqI)
  fix n
  show "bit (unat (raw_low32 h AND 0xFFFF)) n = bit (handle_slot h) n"
    using bit_nat_small [OF handle_slot_less, of n h]
    by (cases "n < 16") (auto simp: raw_low32_def mask16 bit_simps)
qed

lemma low32_generation: "drop_bit 16 (raw_low32 h) = (ucast (handle_generation h) AND 0xFFFF :: u32)"
proof (rule bit_word_eqI)
  fix n
  show "bit (drop_bit 16 (raw_low32 h)) n = bit (ucast (handle_generation h) AND 0xFFFF :: u32) n"
    using bit_nat_small [OF handle_slot_less, of "16 + n" h]
    by (auto simp: raw_low32_def mask16 bit_simps)
qed

lemma live32_live64:
  assumes "unat (handle_generation h) < 2 ^ 16" and "unat (cs_generation x) < 2 ^ 16"
  shows "live32 (raw_low32 h) x \<longleftrightarrow> live64 h x"
proof -
  have "(ucast a AND 0xFFFF :: u32) = ucast b AND 0xFFFF \<longleftrightarrow> a = b" if "unat a < 2 ^ 16" "unat b < 2 ^ 16" for a b :: u64
  proof
    assume eq: "(ucast a AND 0xFFFF :: u32) = ucast b AND 0xFFFF"
    show "a = b"
    proof (rule bit_word_eqI)
      fix n
      show "bit a n = bit b n"
        using bit_small_word [OF that(1), of n] bit_small_word [OF that(2), of n] arg_cong [OF eq, of "\<lambda>w. bit w n"]
        by (cases "n < 16") (auto simp: mask16 bit_simps)
    qed
  qed simp
  with assms show ?thesis by (auto simp: live32_def live64_def low32_generation)
qed

section \<open>The copy made by fork\<close>

lemma captable_release_spec:
  assumes inv: "caps_inv (k, e)"
  shows "\<exists>k' e'. captable_release (k, e) = Some (k', e') \<and> caps_inv (k', e') \<and> caps_acct (k, e) (k', e') \<and>
    cap_fn e' = (\<lambda>_. EMPTY_SLOT)"
proof -
  have t: "funded_inv CAP_TY k (tail e)" using caps_invD(2) [OF inv] by (simp add: el_inv_def)
  from funded_release_spec [OF caps_invD(1) [OF inv] t] obtain k' t' where
    r: "funded_release (k, tail e) = Some (k', t')" "table_acct CAP_TY (k, tail e) (k', t')" "cap t' = 0" by blast
  let ?e = "e\<lparr>inline := replicate (length (inline e)) EMPTY_SLOT, tail := t'\<rparr>"
  have "funded_inv CAP_TY k' t'" using r(2) by (simp add: table_acct_def)
  then have "contents t' = []" using length_contents [of CAP_TY k' t'] r(3) by simp
  then have fn: "cap_fn ?e = (\<lambda>_. EMPTY_SLOT)" by (auto simp: cap_fn_def el_view_def)
  have "caps_inv (k', ?e)" using r(2) by (intro caps_acct_inv [of k e]) (auto simp: fn MAX_OBJECTS_def)
  with r fn show ?thesis by (simp add: captable_release_def elastic_reset_def)
qed

lemma copy_slots_spec:
  assumes src: "caps_inv (k0, src)" and inv: "caps_inv (k, e)"
  shows "\<exists>k' e' ok. copy_slots src is (k, e) = Some ((k', e'), ok) \<and> caps_inv (k', e') \<and>
    (ok \<longrightarrow> cap_fn e' = (\<lambda>i. if i \<in> set is \<and> cs_in_use (cap_fn src i) then cap_fn src i else cap_fn e i))"
  using inv
proof (induction "is" arbitrary: k e)
  case Nil
  then show ?case by auto
next
  case (Cons i "is")
  let ?x = "cap_fn src i"
  show ?case
  proof (cases "cs_in_use ?x")
    case False
    then have "copy_slots src (i # is) (k, e) = copy_slots src is (k, e)" using cap_get [OF src, of i] by auto
    moreover from False have "(j = i \<or> j \<in> set is) \<and> cs_in_use (cap_fn src j) \<longleftrightarrow> j \<in> set is \<and> cs_in_use (cap_fn src j)" for j
      by auto
    ultimately show ?thesis using Cons.IH [OF Cons.prems] by simp
  next
    case True
    have get: "elastic_get CAP_TY src i = Some (Some ?x)" using cap_get [OF src, of i] in_use_length [OF True] by simp
    note inv = caps_invD [OF Cons.prems]
    from elastic_grow_to_spec [OF inv(1,2), of EMPTY_SLOT i] obtain k1 e1 r m where
      g: "elastic_grow_to CAP_TY EMPTY_SLOT i (k, e) = Some ((k1, e1), r)" "km_inv k1" "el_inv CAP_TY k1 e1"
        "el_view e1 = el_view e @ replicate m EMPTY_SLOT" "case r of None \<Rightarrow> True | Some n \<Rightarrow> n = length (el_view e1) \<and> i < n"
      by blast
    have fn1: "cap_fn e1 = cap_fn e" by (rule cap_fn_pad [OF g(4)])
    have inv1: "caps_inv (k1, e1)" using g(2,3) inv(3) by (simp add: caps_inv_def fn1)
    show ?thesis
    proof (cases r)
      case None
      then show ?thesis using get True g(1) inv1 by auto
    next
      case (Some n)
      then have i: "i < length (el_view e1)" using g(5) by simp
      from cap_set [OF inv1 i caps_invD(3) [OF src, of i]] obtain e2 where
        e2: "elastic_set CAP_TY i ?x e1 = Some (e2, True)" "caps_inv (k1, e2)" "cap_fn e2 = (cap_fn e1)(i := ?x)" by blast
      have "copy_slots src (i # is) (k, e) = copy_slots src is (k1, e2)" using get True g(1) Some e2(1) by simp
      with Cons.IH [OF e2(2)] True show ?thesis by (fastforce simp: e2(3) fn1 fun_eq_iff)
    qed
  qed
qed

section \<open>A concrete system\<close>

text \<open>Two cells on a freshly booted pool; the first has been given a capability to the first object.\<close>

definition boot_sys :: "pool \<Rightarrow> cap_sys" where
  "boot_sys p = \<lparr>sy_mem = kmem_new p, sy_objs = objects_new, sy_tabs = replicate 2 captable_new\<rparr>"

definition granted_sys :: "pool \<Rightarrow> cap_sys" where
  "granted_sys p = run_ops cap_step (boot_sys p) [CCreate CellObj, CMint 0 0 0x3F 7]"

lemma granted_sys_ok:
  assumes "pool_inv p"
  shows "sys_ok (granted_sys p)" "length (sy_tabs (granted_sys p)) = 2" "ob_next (sy_objs (granted_sys p)) = 1"
    "slot_fn (granted_sys p) 0 0 = \<lparr>cs_object = 0, cs_rights = 0x3F, cs_epoch = 0, cs_generation = 1, cs_budget = 7, cs_in_use = True\<rparr>"
    "cur_epoch (sy_objs (granted_sys p)) 0 = 0"
    "find_idx (\<lambda>x. \<not> cs_in_use x) (el_view (sy_tabs (granted_sys p) ! 0)) = Some 1"
proof -
  let ?s = "cap_step (boot_sys p) (CCreate CellObj)"
  let ?x = "\<lparr>cs_object = 0, cs_rights = 0x3F, cs_epoch = 0, cs_generation = 1, cs_budget = 7, cs_in_use = True\<rparr>"
  have boot: "sys_ok (boot_sys p)" using sys_ok_boot [OF assms, of 2] by (simp add: boot_sys_def)
  have ok: "ok_run cap_step cap_pre (boot_sys p) [CCreate CellObj, CMint 0 0 0x3F 7]"
    by (simp add: boot_sys_def ob_create_def objects_new_def MAX_OBJECTS_def)
  show "sys_ok (granted_sys p)" unfolding granted_sys_def by (rule cm.run_inv [OF boot ok])
  show "length (sy_tabs (granted_sys p)) = 2"
    unfolding granted_sys_def using run_tabs_length [OF boot ok] by (simp add: boot_sys_def del: cap_step.simps)
  have inv: "el_inv CAP_TY (kmem_new p) captable_new"
    using boot by (simp add: sys_ok_def sys_inv_def boot_sys_def tabs_inv_def tables_inv_def el_inv_def)
  have view: "el_view captable_new = replicate 32 EMPTY_SLOT"
    by (simp add: el_view_def captable_new_def with_inline_def contents_def page_data_def funded_new_def CAPS_INLINE_def)
  have idx: "find_idx (\<lambda>x. \<not> cs_in_use x) (replicate 32 EMPTY_SLOT) = Some 0" by (simp add: find_idx_Some)
  have "elastic_alloc CAP_TY EMPTY_SLOT (\<lambda>x. \<not> cs_in_use x) (kmem_new p, captable_new) = Some ((kmem_new p, captable_new), Some 0)"
    using elastic_position_view [OF inv] view idx by (simp add: elastic_alloc_def)
  moreover have "elastic_get CAP_TY captable_new 0 = Some (Some EMPTY_SLOT)"
    using et.get_view [OF inv] view by (simp add: nth_opt_def)
  moreover have "epoch_of (sy_objs ?s) 0 = Some 0"
    by (simp add: epoch_of_def nth_opt_def boot_sys_def ob_create_def objects_new_def MAX_OBJECTS_def)
  moreover have "elastic_set CAP_TY 0 ?x captable_new = Some (captable_new\<lparr>inline := (inline captable_new)[0 := ?x]\<rparr>, True)"
    by (simp add: elastic_set_def captable_new_def with_inline_def CAPS_INLINE_def)
  ultimately have step: "granted_sys p = ?s\<lparr>sy_tabs := (sy_tabs ?s)[0 := captable_new\<lparr>inline := (inline captable_new)[0 := ?x]\<rparr>]\<rparr>"
    by (simp add: granted_sys_def on_cap_def mint_def alloc_slot_def boot_sys_def)
  show "ob_next (sy_objs (granted_sys p)) = 1" "cur_epoch (sy_objs (granted_sys p)) 0 = 0"
    unfolding step by (simp_all add: boot_sys_def ob_create_def objects_new_def MAX_OBJECTS_def cur_epoch_def)
  have "replicate 32 EMPTY_SLOT = EMPTY_SLOT # replicate 31 EMPTY_SLOT" by (simp add: numeral_eq_Suc)
  then have "el_view (sy_tabs (granted_sys p) ! 0) = ?x # replicate 31 EMPTY_SLOT"
    unfolding step by (simp add: boot_sys_def el_view_def captable_new_def with_inline_def CAPS_INLINE_def
        contents_def page_data_def funded_new_def)
  then show "find_idx (\<lambda>x. \<not> cs_in_use x) (el_view (sy_tabs (granted_sys p) ! 0)) = Some 1"
    by (simp add: find_idx_Some)
  show "slot_fn (granted_sys p) 0 0 = ?x"
    unfolding step by (simp add: boot_sys_def cap_fn_def el_view_def captable_new_def with_inline_def CAPS_INLINE_def nth_append)
qed

section \<open>Properties\<close>

text \<open>
  C1: there is no ambient authority. Over any number of cells, after any
  sequence of grant checks, derivations, delegations and drops, by 64-bit or 32-bit handles the cells make
  up, and of revocations, every live capability names an object some cell could already reach, and carries
  no right that an initial live capability to that object did not carry.
\<close>

theorem no_forged_authority:
  assumes "sys_ok s" and "ok_run cap_step cap_pre s ops" and "\<forall>x \<in> set ops. derived_op x \<or> (\<exists>ob. x = CRevoke ob)"
    and "c < length (sy_tabs s)" and "cs_in_use (cap_fn (sy_tabs (run_ops cap_step s ops) ! c) i)"
  shows "\<exists>d < length (sy_tabs s). \<exists>j. cs_in_use (cap_fn (sy_tabs s ! d) j) \<and>
    cs_object (cap_fn (sy_tabs (run_ops cap_step s ops) ! c) i) = cs_object (cap_fn (sy_tabs s ! d) j) \<and>
    cs_rights (cap_fn (sy_tabs (run_ops cap_step s ops) ! c) i) AND cs_rights (cap_fn (sy_tabs s ! d) j) =
      cs_rights (cap_fn (sy_tabs (run_ops cap_step s ops) ! c) i)"
  using assms
proof (induction ops arbitrary: s)
  case Nil
  then show ?case by (intro exI [of _ c] conjI exI [of _ i]) simp_all
next
  case (Cons x xs)
  let ?t = "cap_step s x" and ?y = "cap_fn (sy_tabs (run_ops cap_step s (x # xs)) ! c) i"
  have t: "sys_ok ?t" "ok_run cap_step cap_pre ?t xs" using Cons.prems(1,2) cm.step_inv by auto
  have len: "length (sy_tabs ?t) = length (sy_tabs s)"
    using run_tabs_length [OF Cons.prems(1), of "[x]"] Cons.prems(2) by simp
  from Cons.IH [OF t] Cons.prems(3-5) len obtain d j where
    d: "d < length (sy_tabs s)" "cs_in_use (slot_fn ?t d j)" "cs_object ?y = cs_object (slot_fn ?t d j)"
      "cs_rights ?y AND cs_rights (slot_fn ?t d j) = cs_rights ?y" by auto
  have inv: "sys_inv s" using Cons.prems(1) by (simp add: sys_ok_def)
  show ?case
  proof (cases "derived_op x")
    case False
    then have "sy_tabs ?t = sy_tabs s" using Cons.prems(3) by (auto split: option.splits)
    with d show ?thesis by auto
  next
    case True
    have "slot_step (sy_objs s) (sys_slots s) (slot_fn s d j) (slot_fn ?t d j)" "slot_fn s d j \<in> sys_slots s"
      using derived_slots [OF inv True] d(1) by (auto simp: slots_step_def sys_slots_def)
    from slot_step_origin [OF this d(2)] obtain p where
      p: "p \<in> sys_slots s" "cs_in_use p" "cs_object (slot_fn ?t d j) = cs_object p"
        "cs_rights (slot_fn ?t d j) AND cs_rights p = cs_rights (slot_fn ?t d j)" by blast
    have "cs_rights ?y AND cs_rights p = cs_rights ?y" using d(4) p(4) by (metis and.assoc)
    moreover obtain d' j' where "d' < length (sy_tabs s)" "p = slot_fn s d' j'" using p(1) by (auto simp: sys_slots_def)
    ultimately show ?thesis using d(3) p(2,3) by (intro exI [of _ d'] conjI exI [of _ j']) simp_all
  qed
qed

theorem no_forged_authority_witness:
  "\<exists>p. cs_in_use (cap_fn (sy_tabs (run_ops cap_step (granted_sys p) [CRevoke 0]) ! 0) 0) \<and>
    (\<exists>d < length (sy_tabs (granted_sys p)). \<exists>j. cs_in_use (cap_fn (sy_tabs (granted_sys p) ! d) j) \<and>
      cs_object (cap_fn (sy_tabs (run_ops cap_step (granted_sys p) [CRevoke 0]) ! 0) 0) = cs_object (cap_fn (sy_tabs (granted_sys p) ! d) j))"
proof -
  obtain p where p: "pool_inv p" using pool_inv_boot [of 67108864 4096] by auto
  note g = granted_sys_ok [OF p]
  let ?t = "run_ops cap_step (granted_sys p) [CRevoke 0]"
  have ok: "ok_run cap_step cap_pre (granted_sys p) [CRevoke 0]" using g(5) by simp
  have live: "cs_in_use (cap_fn (sy_tabs ?t ! 0) 0)" using g(4) by (simp split: option.splits)
  have "\<exists>d < length (sy_tabs (granted_sys p)). \<exists>j. cs_in_use (cap_fn (sy_tabs (granted_sys p) ! d) j) \<and>
      cs_object (cap_fn (sy_tabs ?t ! 0) 0) = cs_object (cap_fn (sy_tabs (granted_sys p) ! d) j)"
    using no_forged_authority [OF g(1) ok _ _ live] g(2) by (auto simp del: run_ops.simps)
  with live show ?thesis by blast
qed

text \<open>
  C3: a freed handle stays dead. Whatever the cells do afterwards, minting
  and reusing the slot included, the table refuses the handle with \<^verbatim>\<open>BadHandle\<close> and is not changed by
  the attempt, for as many operations as the generation counter has values left.
\<close>

theorem stale_handle_refused:
  assumes "sys_ok s" and "c < length (sy_tabs s)" and "live64 h (cap_fn (sy_tabs s ! c) (handle_slot h))"
    and "ok_run cap_step cap_pre s (CFree c h # ops)" and "unat (handle_generation h) + length ops < 2 ^ 64"
    and "t = run_ops cap_step s (CFree c h # ops)"
  shows "grant_check (sy_objs t) h required (sy_mem t, sy_tabs t ! c) = Some ((sy_mem t, sy_tabs t ! c), Inl BadHandle)"
proof -
  let ?s1 = "cap_step s (CFree c h)" and ?i = "handle_slot h"
  have tabs: "tabs_inv (sy_mem s) (sy_tabs s)" using assms(1) by (simp add: sys_ok_def sys_inv_def)
  have run: "sys_ok ?s1" "ok_run cap_step cap_pre ?s1 ops" using cm.step_inv [OF assms(1), of "CFree c h"] assms(4) by (simp_all del: cap_step.simps)
  from cap_free_spec [OF tabs_caps_inv [OF tabs assms(2)], of h] assms(3) obtain e' where
    e': "cap_free h (sy_tabs s ! c) = Some e'" "cap_fn e' = (slot_fn s c)(?i := (slot_fn s c ?i)\<lparr>cs_in_use := False\<rparr>)"
    by (auto simp: Let_def)
  have s1: "slot_fn ?s1 c ?i = (slot_fn s c ?i)\<lparr>cs_in_use := False\<rparr>" "length (sy_tabs ?s1) = length (sy_tabs s)"
    using e' assms(2) by (simp_all add: on_cap_def)
  have gen: "cs_generation (slot_fn s c ?i) = handle_generation h" using assms(3) by (simp add: live64_def)
  from run_stale [OF run, of c "handle_generation h" ?i] s1 gen assms(2,5)
  have "cs_in_use (slot_fn t c ?i) \<longrightarrow> unat (handle_generation h) < unat (cs_generation (slot_fn t c ?i))"
    by (simp add: assms(6) del: cap_step.simps)
  then have dead: "verdict (sy_objs t) (live64 h) required (slot_fn t c ?i) = Some BadHandle"
    by (auto simp: verdict_def live64_def)
  have "sys_ok t" using cm.run_inv [OF assms(1,4)] assms(6) by simp
  moreover have "c < length (sy_tabs t)" using run_tabs_length [OF assms(1,4)] assms(2,6) by simp
  ultimately have "caps_inv (sy_mem t, sy_tabs t ! c)" "objects_ok (sy_objs t)"
    by (auto simp: sys_ok_def sys_inv_def intro: tabs_caps_inv)
  from grant_check_spec [OF this, of h required] dead show ?thesis by auto
qed

theorem stale_handle_refused_witness:
  "\<exists>p t. t = run_ops cap_step (granted_sys p) [CFree 0 65536, CMint 0 0 1 1, CGrant 0 65536 0] \<and>
    grant_check (sy_objs t) 65536 0 (sy_mem t, sy_tabs t ! 0) = Some ((sy_mem t, sy_tabs t ! 0), Inl BadHandle)"
proof -
  obtain p where p: "pool_inv p" using pool_inv_boot [of 67108864 4096] by auto
  note g = granted_sys_ok [OF p]
  let ?ops = "[CMint 0 0 1 1, CGrant 0 65536 0]"
  have slot: "handle_slot 65536 = 0" "handle_generation 65536 = 1"
    by (simp_all add: handle_slot_def handle_generation_def drop_bit_eq_div)
  have live: "live64 65536 (cap_fn (sy_tabs (granted_sys p) ! 0) (handle_slot 65536))"
    by (simp add: slot g(4) live64_def)
  have "ok_run cap_step cap_pre (granted_sys p) (CFree 0 65536 # ?ops)"
    using derived_slots [of "granted_sys p" "CFree 0 65536"] g(1,3)
    by (simp add: sys_ok_def slots_step_def del: cap_step.simps)
  from stale_handle_refused [OF g(1) _ live this _ refl, of 0] g(2) show ?thesis
    by (auto simp: slot simp del: run_ops.simps cap_step.simps)
qed

text \<open>
  C2: after an object's epoch is bumped, no grant check on any handle in
  any cell ever returns that object again, whatever the cells derive, delegate, drop or revoke afterwards,
  until the object is minted anew or an epoch counter wraps.
\<close>

theorem revoked_never_granted:
  assumes "sys_ok s" and "unat ob < MAX_OBJECTS" and "ok_run cap_step cap_pre s (CRevoke ob # ops)"
    and "\<forall>x \<in> set ops. derived_op x \<or> (\<exists>ob. x = CRevoke ob)"
    and "t = run_ops cap_step s (CRevoke ob # ops)" and "c < length (sy_tabs s)"
  shows "\<nexists>s'. grant_check (sy_objs t) h required (sy_mem t, sy_tabs t ! c) = Some (s', Inr ob)"
proof -
  define dead where "dead = (\<lambda>s. \<forall>c < length (sy_tabs s). \<forall>i. cs_in_use (slot_fn s c i) \<and> cs_object (slot_fn s c i) = ob \<longrightarrow>
    cs_epoch (slot_fn s c i) < cur_epoch (sy_objs s) ob)"
  have keep: "dead (run_ops cap_step s xs)"
    if "sys_ok s" "ok_run cap_step cap_pre s xs" "\<forall>x \<in> set xs. derived_op x \<or> (\<exists>ob. x = CRevoke ob)" "dead s" for s xs
    using that
  proof (induction xs arbitrary: s)
    case Nil
    then show ?case by simp
  next
    case (Cons x xs)
    let ?t = "cap_step s x"
    have inv: "sys_inv s" using Cons.prems(1) by (simp add: sys_ok_def)
    have "dead ?t"
    proof (cases "derived_op x")
      case True
      have "cs_epoch (slot_fn ?t c i) < cur_epoch (sy_objs s) ob"
        if "c < length (sy_tabs s)" "cs_in_use (slot_fn ?t c i)" "cs_object (slot_fn ?t c i) = ob" for c i
      proof -
        have "slot_step (sy_objs s) (sys_slots s) (slot_fn s c i) (slot_fn ?t c i)" "slot_fn s c i \<in> sys_slots s"
          using derived_slots [OF inv True] that(1) by (auto simp: slots_step_def sys_slots_def)
        from slot_step_origin [OF this that(2)] that(3) obtain p where
          p: "p \<in> sys_slots s" "cs_in_use p" "ob = cs_object p" "cs_epoch (slot_fn ?t c i) = cs_epoch p"
          by blast
        from p(1) obtain d j where "d < length (sy_tabs s)" "p = slot_fn s d j" by (auto simp: sys_slots_def)
        then show ?thesis using Cons.prems(4) [unfolded dead_def, rule_format, of d j] p by simp
      qed
      then show ?thesis using derived_slots [OF inv True] by (simp add: dead_def slots_step_def)
    next
      case False
      then obtain ob' where x: "x = CRevoke ob'" using Cons.prems(3) by auto
      show ?thesis
      proof (cases "revoke_epoch ob' (sy_objs s)")
        case None
        then show ?thesis using x Cons.prems(4) by simp
      next
        case (Some o1)
        have "cur_epoch (sy_objs s) ob \<le> cur_epoch o1 ob"
          using revoke_epoch_cur(1) [OF Some, of ob] inc_no_wrap Cons.prems(2) x by (auto intro: less_imp_le)
        then show ?thesis using x Some Cons.prems(4) by (auto simp: dead_def intro: less_le_trans)
      qed
    qed
    with Cons cm.step_inv show ?case by auto
  qed
  have "objects_ok (sy_objs s)" using assms(1) by (simp add: sys_ok_def sys_inv_def)
  then obtain o1 where o1: "revoke_epoch ob (sy_objs s) = Some o1"
    using assms(2) by (simp add: revoke_epoch_def objects_ok_def)
  have up: "cur_epoch (sy_objs s) ob < cur_epoch o1 ob"
    using revoke_epoch_cur(1) [OF o1, of ob] inc_no_wrap assms(3) by auto
  have "dead (cap_step s (CRevoke ob))"
    using assms(1) o1 up by (auto simp: dead_def sys_ok_def slot_ok_def intro: le_less_trans)
  then have dead_t: "dead t"
    using keep [of "cap_step s (CRevoke ob)" ops] cm.step_inv [OF assms(1)] assms(3-5) by (simp del: cap_step.simps)
  have "sys_ok t" using cm.run_inv [OF assms(1,3)] assms(5) by simp
  moreover have len: "c < length (sy_tabs t)" using run_tabs_length [OF assms(1,3)] assms(5,6) by simp
  ultimately have "caps_inv (sy_mem t, sy_tabs t ! c)" "objects_ok (sy_objs t)"
    by (auto simp: sys_ok_def sys_inv_def intro: tabs_caps_inv)
  moreover have "\<not> (cs_in_use (slot_fn t c i) \<and> cs_object (slot_fn t c i) = ob \<and> cs_epoch (slot_fn t c i) = cur_epoch (sy_objs t) ob)" for i
    using dead_t [unfolded dead_def, rule_format, OF len, of i] by auto
  ultimately show ?thesis using grant_check_spec [of "sy_mem t" "sy_tabs t ! c" "sy_objs t" h required]
    by (auto simp: verdict_def live64_def split: if_splits option.splits)
qed

theorem revoked_never_granted_witness:
  "\<exists>p t. t = run_ops cap_step (granted_sys p) [CRevoke 0, CDerive 0 65536 1 1, CDelegate 0 65536 1] \<and>
    \<not> (\<exists>s'. grant_check (sy_objs t) 65536 0 (sy_mem t, sy_tabs t ! 0) = Some (s', Inr 0))"
proof -
  obtain p where p: "pool_inv p" using pool_inv_boot [of 67108864 4096] by auto
  note g = granted_sys_ok [OF p]
  let ?ops = "[CDerive 0 65536 1 1, CDelegate 0 65536 1]"
  have ok: "ok_run cap_step cap_pre (granted_sys p) (CRevoke 0 # ?ops)" using g(5) by (simp del: cap_step.simps)
  have "\<nexists>s'. grant_check (sy_objs (run_ops cap_step (granted_sys p) (CRevoke 0 # ?ops))) 65536 0
      (sy_mem (run_ops cap_step (granted_sys p) (CRevoke 0 # ?ops)), sy_tabs (run_ops cap_step (granted_sys p) (CRevoke 0 # ?ops)) ! 0) =
      Some (s', Inr 0)"
    by (rule revoked_never_granted [OF g(1) _ ok _ refl]) (simp_all add: MAX_OBJECTS_def g(2))
  then show ?thesis by blast
qed

text \<open>
  \<^verbatim>\<open>grant_check\<close> never panics on a well-formed table, and its verdict
  is decided by the slot the handle names, in this order: liveness and generation, rights, epoch, budget. It
  returns the object exactly when all hold; then the slot loses one budget unit unless it is unlimited, and
  no other slot changes. A refusal leaves the table as it was.
\<close>

theorem grant_check_decides:
  assumes "caps_inv (k, e)" and "objects_ok obs" and "x = cap_fn e (handle_slot h)"
  shows "\<exists>e'. grant_check obs h required (k, e) = Some ((k, e'),
      if \<not> cs_in_use x \<or> cs_generation x \<noteq> handle_generation h then Inl BadHandle
      else if cs_rights x AND required \<noteq> required then Inl InsufficientRights
      else if cs_epoch x \<noteq> cur_epoch obs (cs_object x) then Inl Revoked
      else if cs_budget x = 0 then Inl Exhausted
      else Inr (cs_object x)) \<and>
    cap_fn e' = (if cs_in_use x \<and> cs_generation x = handle_generation h \<and> cs_rights x AND required = required \<and>
        cs_epoch x = cur_epoch obs (cs_object x) \<and> cs_budget x \<noteq> 0 \<and> cs_budget x \<noteq> BUDGET_UNLIMITED
      then (cap_fn e)(handle_slot h := x\<lparr>cs_budget := cs_budget x - 1\<rparr>) else cap_fn e)"
  using grant_check_spec [OF assms(1,2), of h required] assms(3)
  by (auto simp: verdict_def live64_def spend_def split: if_splits)

theorem grant_check_decides_witness:
  "\<exists>p e'. grant_check (sy_objs (granted_sys p)) 65536 3 (sy_mem (granted_sys p), sy_tabs (granted_sys p) ! 0) =
    Some ((sy_mem (granted_sys p), e'), Inr 0) \<and> cs_budget (cap_fn e' 0) = 6"
proof -
  obtain p where p: "pool_inv p" using pool_inv_boot [of 67108864 4096] by auto
  note g = granted_sys_ok [OF p]
  have slot: "handle_slot 65536 = 0" "handle_generation 65536 = 1"
    by (simp_all add: handle_slot_def handle_generation_def drop_bit_eq_div)
  have "caps_inv (sy_mem (granted_sys p), sy_tabs (granted_sys p) ! 0)" "objects_ok (sy_objs (granted_sys p))"
    using g(1,2) by (auto simp: sys_ok_def sys_inv_def intro!: tabs_caps_inv)
  from grant_check_decides [OF this refl, of 65536 3] obtain e' where
    "grant_check (sy_objs (granted_sys p)) 65536 3 (sy_mem (granted_sys p), sy_tabs (granted_sys p) ! 0) =
      Some ((sy_mem (granted_sys p), e'), Inr 0)" "cs_budget (cap_fn e' 0) = 6"
    by (auto simp: slot g(4,5) BUDGET_UNLIMITED_def)
  then show ?thesis by blast
qed

text \<open>
  A successful \<^verbatim>\<open>derive_subset_low32\<close> puts one new capability
  into an unused slot: to the parent's object, with a subset of the parent's rights and no more than the
  parent's remaining budget; the parent was live and unrevoked, and it and every other slot are unchanged.
\<close>

theorem derive_low32_attenuates:
  assumes "caps_inv (k, e)" and "objects_ok obs" and "p = cap_fn e (unat (c AND 0xFFFF))"
    and "derive_subset_low32 obs c rights budget (k, e) = Some ((k', e'), Inr c')"
  shows "cs_in_use p \<and> cs_epoch p = cur_epoch obs (cs_object p) \<and> rights AND cs_rights p = rights \<and>
    budget \<le> cs_budget p \<and>
    (\<exists>i. \<not> cs_in_use (cap_fn e i) \<and> cap_fn e' = (cap_fn e)(i := \<lparr> cs_object = cs_object p, cs_rights = rights,
       cs_epoch = cs_epoch p, cs_generation = cs_generation (cap_fn e i) + 1, cs_budget = budget, cs_in_use = True \<rparr>))"
  using derive_subset_low32_spec [OF assms(1-3), of rights budget] assms(4)
  by (auto simp: live32_def minted_def)

theorem derive_low32_attenuates_witness:
  "\<exists>p s' c'. derive_subset_low32 (sy_objs (granted_sys p)) 65536 3 5 (sy_mem (granted_sys p), sy_tabs (granted_sys p) ! 0) =
    Some (s', Inr c') \<and> 5 \<le> cs_budget (cap_fn (sy_tabs (granted_sys p) ! 0) (unat (65536 AND 0xFFFF :: u32)))"
proof -
  obtain p where p: "pool_inv p" using pool_inv_boot [of 67108864 4096] by auto
  note g = granted_sys_ok [OF p]
  let ?k = "sy_mem (granted_sys p)" and ?e = "sy_tabs (granted_sys p) ! 0" and ?o = "sy_objs (granted_sys p)"
  have inv: "caps_inv (?k, ?e)" and obs: "objects_ok ?o"
    using g(1,2) by (auto simp: sys_ok_def sys_inv_def intro!: tabs_caps_inv)
  have live: "live32 65536 (cap_fn ?e 0)" by (simp add: g(4) live32_def drop_bit_eq_div)
  have "slot_of_low32 ?o 65536 ?e = Some (Inr 0)"
    using slot_of_low32_spec [OF inv obs, of 65536] live g(4,5) by (simp add: Let_def)
  moreover have "elastic_get CAP_TY ?e 0 = Some (Some (cap_fn ?e 0))" by (rule live32_get(1) [OF inv live])
  moreover from mint_free_slot [OF inv obs _ g(6), of 0 3 5] obtain s' h where
    "mint ?o 0 3 5 (?k, ?e) = Some (s', Inr h)" by (auto simp: MAX_OBJECTS_def)
  ultimately have d: "derive_subset_low32 ?o 65536 3 5 (?k, ?e) = Some ((fst s', snd s'), Inr (raw_low32 h))"
    by (simp add: derive_subset_low32_def mint_derived_def g(4) BUDGET_UNLIMITED_def)
  from derive_low32_attenuates [OF inv obs refl d] d show ?thesis by blast
qed

text \<open>
  As long as generations stay below 65536, the 32-bit form of a handle and the
  64-bit form are checked alike: \<^verbatim>\<open>grant_check_low32\<close> on the one and \<^verbatim>\<open>grant_check\<close> on the other
  give the same result and the same table.
\<close>

theorem low32_agrees:
  assumes "unat (handle_generation h) < 2 ^ 16"
    and "\<And>x. elastic_get CAP_TY e (handle_slot h) = Some (Some x) \<Longrightarrow> unat (cs_generation x) < 2 ^ 16"
  shows "grant_check_low32 obs (raw_low32 h) required (k, e) = grant_check obs h required (k, e)"
proof -
  have "live32 (raw_low32 h) x \<longleftrightarrow> live64 h x" if "elastic_get CAP_TY e (handle_slot h) = Some (Some x)" for x
    using live32_live64 assms(1) assms(2) [OF that] by blast
  then show ?thesis
    by (auto simp: grant_check_low32_def grant_check_def grant_check_at_def low32_slot split: bind_splits option.splits)
qed

theorem low32_agrees_witness:
  "\<exists>p. grant_check_low32 (sy_objs (granted_sys p)) (raw_low32 65536) 3 (sy_mem (granted_sys p), sy_tabs (granted_sys p) ! 0) =
    grant_check (sy_objs (granted_sys p)) 65536 3 (sy_mem (granted_sys p), sy_tabs (granted_sys p) ! 0)"
proof -
  obtain p where p: "pool_inv p" using pool_inv_boot [of 67108864 4096] by auto
  note g = granted_sys_ok [OF p]
  have slot: "handle_slot 65536 = 0" "handle_generation 65536 = 1"
    by (simp_all add: handle_slot_def handle_generation_def drop_bit_eq_div)
  have inv: "caps_inv (sy_mem (granted_sys p), sy_tabs (granted_sys p) ! 0)"
    using g(1,2) by (auto simp: sys_ok_def sys_inv_def intro!: tabs_caps_inv)
  have
    "unat (cs_generation x) < 2 ^ 16" if "elastic_get CAP_TY (sy_tabs (granted_sys p) ! 0) (handle_slot 65536) = Some (Some x)" for x
  proof -
    have "x = slot_fn (granted_sys p) 0 0" using that cap_get [OF inv, of 0] by (simp add: slot split: if_splits)
    then show ?thesis by (simp add: g(4))
  qed
  then have "grant_check_low32 (sy_objs (granted_sys p)) (raw_low32 65536) 3 (sy_mem (granted_sys p), sy_tabs (granted_sys p) ! 0) =
      grant_check (sy_objs (granted_sys p)) 65536 3 (sy_mem (granted_sys p), sy_tabs (granted_sys p) ! 0)"
    by (intro low32_agrees) (simp_all add: slot)
  then show ?thesis by blast
qed

text \<open>
  Packing a slot and a generation into a handle and unpacking them again gives
  them back exactly when the slot fits 16 bits and the generation 48. A table can grow past 65536 slots, and
  beyond that a handle names another slot.
\<close>

theorem handle_roundtrip:
  "handle_slot (handle_new slot gen) = slot \<and> handle_generation (handle_new slot gen) = gen \<longleftrightarrow>
    slot < 2 ^ 16 \<and> unat gen < 2 ^ 48"
  using handle_new_slot handle_new_generation handle_slot_less handle_generation_less by metis

text \<open>
  When \<^verbatim>\<open>copy_from\<close> succeeds, the child's table holds exactly the
  parent's live capabilities, each in its parent's slot with its generation, rights, epoch and budget, and
  nothing of what the child's table held before.
\<close>

theorem fork_copies_live:
  assumes "caps_inv (k0, src)" and "caps_inv (k, e)"
  shows "\<exists>k' e' ok. copy_from src (k, e) = Some ((k', e'), ok) \<and> caps_inv (k', e') \<and>
    (ok \<longrightarrow> (\<forall>i. cap_fn e' i = (if cs_in_use (cap_fn src i) then cap_fn src i else EMPTY_SLOT)))"
proof -
  from captable_release_spec [OF assms(2)] obtain k1 e1 where
    1: "captable_release (k, e) = Some (k1, e1)" "caps_inv (k1, e1)" "cap_fn e1 = (\<lambda>_. EMPTY_SLOT)" by blast
  have all: "i < elastic_capacity src" if "cs_in_use (cap_fn src i)" for i
    using in_use_length [OF that] el_capacity [OF caps_invD(2) [OF assms(1)]] by simp
  from copy_slots_spec [OF assms(1) 1(2), of "[0..<elastic_capacity src]"] 1 all show ?thesis
    by (fastforce simp: copy_from_def)
qed

theorem fork_copies_live_witness:
  "\<exists>p k' e' ok. copy_from (sy_tabs (granted_sys p) ! 0) (sy_mem (granted_sys p), sy_tabs (granted_sys p) ! 1) = Some ((k', e'), ok) \<and>
    (ok \<longrightarrow> cs_in_use (cap_fn e' 0))"
proof -
  obtain p where p: "pool_inv p" using pool_inv_boot [of 67108864 4096] by auto
  note g = granted_sys_ok [OF p]
  have "caps_inv (sy_mem (granted_sys p), sy_tabs (granted_sys p) ! c)" if "c < 2" for c
    using g(1,2) that by (auto simp: sys_ok_def sys_inv_def intro!: tabs_caps_inv)
  from fork_copies_live [OF this [of 0] this [of 1]] obtain k' e' ok where
    f: "copy_from (sy_tabs (granted_sys p) ! 0) (sy_mem (granted_sys p), sy_tabs (granted_sys p) ! 1) = Some ((k', e'), ok)"
      "ok \<longrightarrow> (\<forall>i. cap_fn e' i = (if cs_in_use (slot_fn (granted_sys p) 0 i) then slot_fn (granted_sys p) 0 i else EMPTY_SLOT))"
    by auto
  from f(2) have "ok \<longrightarrow> cs_in_use (cap_fn e' 0)" by (simp add: g(4))
  with f(1) show ?thesis by blast
qed

end
