(* ===== verification/Queue.thy ===== *)
theory Queue
  imports Capability
begin

text \<open>
  Queue pairs, \<^verbatim>\<open>kernel/src/queue/mod.rs\<close>: the single-producer single-consumer ring with its
  free-running 32-bit indices, submission and reaping, and the kernel side that pops submissions,
  checks their capability, runs them and pushes completions. The services behind the opcodes (file,
  network and display operations, the check of a cell's buffers) are registered functions: they
  are a parameter here, over a world of their own. Metrics and observation events are not modelled.
\<close>

section \<open>Rings\<close>

record 'a ring =
  entries :: "'a list"
  head :: u32
  rtail :: u32

definition ring_push :: "'a \<Rightarrow> 'a ring \<Rightarrow> 'a ring \<times> bool" where
  "ring_push x r =
     (if length (entries r) \<le> unat (head r - rtail r) then (r, False)
      else let idx = unat (head r) AND (length (entries r) - 1)
           in (r\<lparr>entries := (entries r)[idx := x], head := head r + 1\<rparr>, True))"

definition ring_pop :: "'a ring \<Rightarrow> 'a ring \<times> 'a option" where
  "ring_pop r =
     (if rtail r = head r then (r, None)
      else let idx = unat (rtail r) AND (length (entries r) - 1)
           in (r\<lparr>rtail := rtail r + 1\<rparr>, Some (entries r ! idx)))"

section \<open>Entries and opcodes\<close>

definition RING_DEPTH :: nat where "RING_DEPTH = 64"

definition OP_NOP :: u8 where "OP_NOP = 0"
definition OP_ECHO :: u8 where "OP_ECHO = 1"
definition OP_OPEN :: u8 where "OP_OPEN = 2"
definition OP_READ :: u8 where "OP_READ = 3"
definition OP_WRITE :: u8 where "OP_WRITE = 4"
definition OP_CLOSE :: u8 where "OP_CLOSE = 5"
definition OP_FSTAT :: u8 where "OP_FSTAT = 6"
definition OP_GRAPH_SUBMIT :: u8 where "OP_GRAPH_SUBMIT = 7"
definition OP_NET_TX :: u8 where "OP_NET_TX = 8"
definition OP_NET_RX :: u8 where "OP_NET_RX = 9"
definition OP_NET_MAC :: u8 where "OP_NET_MAC = 10"
definition OP_GPU_PRESENT :: u8 where "OP_GPU_PRESENT = 11"
definition FLAG_INLINE :: u8 where "FLAG_INLINE = 1"
definition INLINE_MAX :: nat where "INLINE_MAX = 16"

definition STATUS_OK :: u32 where "STATUS_OK = 0"
definition STATUS_BAD_OPCODE :: u32 where "STATUS_BAD_OPCODE = 1"
definition STATUS_DENIED :: u32 where "STATUS_DENIED = 2"
definition STATUS_REVOKED :: u32 where "STATUS_REVOKED = 3"
definition STATUS_EXHAUSTED :: u32 where "STATUS_EXHAUSTED = 4"
definition STATUS_BAD_HANDLE :: u32 where "STATUS_BAD_HANDLE = 5"
definition STATUS_IO :: u32 where "STATUS_IO = 6"

lemmas status_defs = STATUS_OK_def STATUS_BAD_OPCODE_def STATUS_DENIED_def STATUS_REVOKED_def
  STATUS_EXHAUSTED_def STATUS_BAD_HANDLE_def STATUS_IO_def

record sq_entry =
  sq_opcode :: u8
  sq_flags :: u8
  sq_engine_id :: u16
  sq_cap_id :: u32
  sq_flow_id :: u128
  sq_user_data :: u64
  sq_payload :: "u8 list"

record cq_entry =
  cq_flow_id :: u128
  cq_user_data :: u64
  cq_status :: u32
  cq_result :: u32

record queue_pair =
  sq :: "sq_entry ring"
  cq :: "cq_entry ring"

fun cap_status :: "cap_error \<Rightarrow> u32" where
  "cap_status BadHandle = STATUS_BAD_HANDLE"
| "cap_status Revoked = STATUS_REVOKED"
| "cap_status Exhausted = STATUS_EXHAUSTED"
| "cap_status _ = STATUS_DENIED"

text \<open>\<^verbatim>\<open>submit\<close> writes only the fields it names; the others keep what the slot held.\<close>

definition submit :: "u8 \<Rightarrow> u32 \<Rightarrow> u128 \<Rightarrow> u64 \<Rightarrow> queue_pair \<Rightarrow> queue_pair \<times> bool" where
  "submit op cid flow user q =
     (let r = sq q
      in if RING_DEPTH \<le> unat (head r - rtail r) then (q, False)
         else let idx = unat (head r) AND (RING_DEPTH - 1);
                  slot = (entries r ! idx)\<lparr>sq_opcode := op, sq_cap_id := cid, sq_flow_id := flow, sq_user_data := user\<rparr>
              in (q\<lparr>sq := r\<lparr>entries := (entries r)[idx := slot], head := head r + 1\<rparr>\<rparr>, True))"

definition submit_args :: "u8 \<Rightarrow> u32 \<Rightarrow> u128 \<Rightarrow> u64 \<Rightarrow> u8 list \<Rightarrow> queue_pair \<Rightarrow> queue_pair \<times> bool" where
  "submit_args op cid flow user args q =
     (let r = sq q
      in if RING_DEPTH \<le> unat (head r - rtail r) then (q, False)
         else let idx = unat (head r) AND (RING_DEPTH - 1);
                  n = min (length args) 24;
                  slot = \<lparr>sq_opcode = op, sq_flags = 0, sq_engine_id = 0, sq_cap_id = cid, sq_flow_id = flow,
                          sq_user_data = user, sq_payload = take n args @ replicate (24 - n) 0\<rparr>
              in (q\<lparr>sq := r\<lparr>entries := (entries r)[idx := slot], head := head r + 1\<rparr>\<rparr>, True))"

definition reap :: "queue_pair \<Rightarrow> queue_pair \<times> u32 option" where
  "reap q =
     (let r = cq q
      in if rtail r = head r then (q, None)
         else let idx = unat (rtail r) AND (RING_DEPTH - 1)
              in (q\<lparr>cq := r\<lparr>rtail := rtail r + 1\<rparr>\<rparr>, Some (cq_status (entries r ! idx))))"

definition opcode_right :: "u8 \<Rightarrow> u32" where
  "opcode_right op =
     (if op = OP_READ \<or> op = OP_FSTAT \<or> op = OP_OPEN \<or> op = OP_CLOSE \<or> op = OP_NET_RX \<or> op = OP_NET_MAC
      then RIGHT_READ else RIGHT_WRITE)"

section \<open>The services behind the opcodes\<close>

text \<open>Where the bytes of a write come from: the cell's memory, or the entry's own payload.\<close>

datatype buf_src = CellBuf u64 | InlineBuf "u8 list"

record 'w file_ops =
  fo_open :: "u64 \<Rightarrow> u64 \<Rightarrow> u64 \<Rightarrow> 'w \<Rightarrow> u64 \<times> 'w"
  fo_close :: "u64 \<Rightarrow> 'w \<Rightarrow> u64 \<times> 'w"
  fo_read :: "u64 \<Rightarrow> u64 \<Rightarrow> u64 \<Rightarrow> 'w \<Rightarrow> u64 \<times> 'w"
  fo_write :: "u64 \<Rightarrow> buf_src \<Rightarrow> u64 \<Rightarrow> 'w \<Rightarrow> u64 \<times> 'w"
  fo_lseek :: "u64 \<Rightarrow> u64 \<Rightarrow> u64 \<Rightarrow> 'w \<Rightarrow> u64 \<times> 'w"
  fo_fstat :: "u64 \<Rightarrow> u64 \<Rightarrow> 'w \<Rightarrow> u64 \<times> 'w"

record 'w nic_ops =
  no_tx :: "u64 \<Rightarrow> u64 \<Rightarrow> 'w \<Rightarrow> (u32 \<times> u32) \<times> 'w"
  no_rx :: "u64 \<Rightarrow> u64 \<Rightarrow> 'w \<Rightarrow> (u32 \<times> u32) \<times> 'w"
  no_mac :: "u64 \<Rightarrow> 'w \<Rightarrow> (u32 \<times> u32) \<times> 'w"

record 'w services =
  user_buf :: "u64 \<Rightarrow> nat \<Rightarrow> 'w \<Rightarrow> bool"
  user_buf_mut :: "u64 \<Rightarrow> nat \<Rightarrow> 'w \<Rightarrow> bool"
  user_out_stat :: "u64 \<Rightarrow> 'w \<Rightarrow> bool"
  sv_file :: "'w file_ops option"
  sv_nic :: "'w nic_ops option"
  sv_present :: "(u64 \<Rightarrow> u32 \<Rightarrow> u32 \<Rightarrow> 'w \<Rightarrow> (u32 \<times> u32) \<times> 'w) option"
  sv_graph_submit :: "u64 \<Rightarrow> u32 \<Rightarrow> u64 \<Rightarrow> 'w \<Rightarrow> (u32 \<times> u32) \<times> 'w"

definition le_word :: "u8 list \<Rightarrow> 'a :: len word" where
  "le_word bs = foldr (\<lambda>b acc. ucast b OR push_bit 8 acc) bs 0"

definition rd_u32 :: "u8 list \<Rightarrow> nat \<Rightarrow> u32" where
  "rd_u32 p off = le_word (take 4 (drop off p))"

definition rd_u64 :: "u8 list \<Rightarrow> nat \<Rightarrow> u64" where
  "rd_u64 p off = le_word (take 8 (drop off p))"

text \<open>An \<^verbatim>\<open>i64\<close> result: negative is an error, and the count keeps its low 32 bits.\<close>

fun io_result :: "(u64 \<times> 'w) option \<Rightarrow> 'w \<Rightarrow> (u32 \<times> u32) \<times> 'w" where
  "io_result None w = ((STATUS_IO, 0), w)"
| "io_result (Some (n, w')) w = (if 0 \<le> sint n then ((STATUS_OK, ucast n), w') else ((STATUS_IO, 0), w'))"

fun bridged :: "((u32 \<times> u32) \<times> 'w) option \<Rightarrow> 'w \<Rightarrow> (u32 \<times> u32) \<times> 'w" where
  "bridged None w = ((STATUS_IO, 0), w)"
| "bridged (Some r) w = r"

definition run_opcode :: "'w services \<Rightarrow> sq_entry \<Rightarrow> 'w \<Rightarrow> (u32 \<times> u32) \<times> 'w" where
  "run_opcode sv entry w =
     (let p = sq_payload entry; op = sq_opcode entry; denied = ((STATUS_DENIED, 0), w)
      in if op = OP_NOP then ((STATUS_OK, 0), w)
         else if op = OP_ECHO then ((STATUS_OK, rd_u32 p 0), w)
         else if op = OP_OPEN then
           (let path_va = rd_u64 p 0; path_len = ucast (rd_u32 p 8); flags = ucast (rd_u32 p 12)
            in if \<not> user_buf sv path_va (unat path_len) w then denied
               else io_result (map_option (\<lambda>f. fo_open f path_va path_len flags w) (sv_file sv)) w)
         else if op = OP_READ then
           (let buf_va = rd_u64 p 0; offset = rd_u64 p 8; len = ucast (rd_u32 p 16); fd = ucast (rd_u32 p 20)
            in if \<not> user_buf_mut sv buf_va (unat len) w then denied
               else io_result (map_option (\<lambda>f. fo_read f fd buf_va len (snd (fo_lseek f fd offset 0 w))) (sv_file sv)) w)
         else if op = OP_WRITE then
           (if sq_flags entry AND FLAG_INLINE \<noteq> 0 then
              (let fd = ucast (rd_u32 p 0); len = min (unat (rd_u32 p 4)) INLINE_MAX
               in io_result (map_option (\<lambda>f. fo_write f fd (InlineBuf (take len (drop 8 p))) (of_nat len) w) (sv_file sv)) w)
            else
              (let buf_va = rd_u64 p 0; offset = rd_u64 p 8; len = ucast (rd_u32 p 16); fd = ucast (rd_u32 p 20)
               in if \<not> user_buf sv buf_va (unat len) w then denied
                  else io_result (map_option (\<lambda>f. fo_write f fd (CellBuf buf_va) len (snd (fo_lseek f fd offset 0 w))) (sv_file sv)) w))
         else if op = OP_CLOSE then io_result (map_option (\<lambda>f. fo_close f (ucast (rd_u32 p 0)) w) (sv_file sv)) w
         else if op = OP_FSTAT then
           (let statbuf_va = rd_u64 p 0; fd = ucast (rd_u32 p 8)
            in if \<not> user_out_stat sv statbuf_va w then denied
               else io_result (map_option (\<lambda>f. fo_fstat f fd statbuf_va w) (sv_file sv)) w)
         else if op = OP_GRAPH_SUBMIT then sv_graph_submit sv (rd_u64 p 0) (rd_u32 p 8) (rd_u64 p 12) w
         else if op = OP_NET_TX then
           (let buf_va = rd_u64 p 0; len = ucast (rd_u32 p 8)
            in if \<not> user_buf sv buf_va (unat len) w then denied
               else bridged (map_option (\<lambda>f. no_tx f buf_va len w) (sv_nic sv)) w)
         else if op = OP_NET_RX then
           (let buf_va = rd_u64 p 0; len = ucast (rd_u32 p 8)
            in if \<not> user_buf_mut sv buf_va (unat len) w then denied
               else bridged (map_option (\<lambda>f. no_rx f buf_va len w) (sv_nic sv)) w)
         else if op = OP_NET_MAC then
           (let buf_va = rd_u64 p 0
            in if \<not> user_buf_mut sv buf_va 6 w then denied
               else bridged (map_option (\<lambda>f. no_mac f buf_va w) (sv_nic sv)) w)
         else if op = OP_GPU_PRESENT then
           (let buf_va = rd_u64 p 0; wd = rd_u32 p 8; ht = rd_u32 p 12;
                fb_len = sat_mul (sat_mul (unat wd) (unat ht)) 4
            in if \<not> user_buf sv buf_va fb_len w then denied
               else bridged (map_option (\<lambda>f. f buf_va wd ht w) (sv_present sv)) w)
         else ((STATUS_BAD_OPCODE, 0), w))"

section \<open>Draining a submission queue\<close>

text \<open>One entry: the capability check, the kind of the object, the opcode.\<close>

definition run_entry ::
  "'w services \<Rightarrow> object_table \<Rightarrow> sq_entry \<Rightarrow> caps \<times> 'w \<Rightarrow> ((caps \<times> 'w) \<times> u32 \<times> u32) option" where
  "run_entry sv obs entry = (\<lambda>(cs, w).
     do { (cs', r) \<leftarrow> grant_check_low32 obs (sq_cap_id entry) (opcode_right (sq_opcode entry)) cs;
          case r of
            Inl e \<Rightarrow> Some ((cs', w), cap_status e, 0)
          | Inr ob \<Rightarrow>
              do { knd \<leftarrow> object_kind_of obs ob;
                   if knd \<noteq> QueuePair then Some ((cs', w), STATUS_DENIED, 0)
                   else let ((status, result), w') = run_opcode sv entry w in Some ((cs', w'), status, result) } })"

text \<open>
  The loop pops until the ring is empty. The submission ring is only popped here, so it runs at
  most as many rounds as entries are queued: that number is the fuel, and running out of it is \<open>None\<close>.
  The result of pushing the completion is ignored, as in the source.
\<close>

fun process_loop ::
  "nat \<Rightarrow> 'w services \<Rightarrow> object_table \<Rightarrow> queue_pair \<times> caps \<times> 'w \<Rightarrow> nat \<Rightarrow> ((queue_pair \<times> caps \<times> 'w) \<times> nat) option" where
  "process_loop fuel sv obs (q, cs, w) processed =
     (case ring_pop (sq q) of
        (r, None) \<Rightarrow> Some ((q\<lparr>sq := r\<rparr>, cs, w), processed)
      | (r, Some entry) \<Rightarrow>
          (case fuel of
             0 \<Rightarrow> None
           | Suc fuel' \<Rightarrow>
               do { ((cs', w'), status, result) \<leftarrow> run_entry sv obs entry (cs, w);
                    let compl = \<lparr>cq_flow_id = sq_flow_id entry, cq_user_data = sq_user_data entry,
                                cq_status = status, cq_result = result\<rparr>;
                        q' = q\<lparr>sq := r, cq := fst (ring_push compl (cq q))\<rparr>
                    in process_loop fuel' sv obs (q', cs', w') (processed + 1) }))"

definition kernel_process ::
  "'w services \<Rightarrow> object_table \<Rightarrow> queue_pair \<times> caps \<times> 'w \<Rightarrow> ((queue_pair \<times> caps \<times> 'w) \<times> nat) option" where
  "kernel_process sv obs s = process_loop (unat (head (sq (fst s)) - rtail (sq (fst s)))) sv obs s 0"

section \<open>The bounded queue interface\<close>

text \<open>
  What a bounded first-in first-out queue promises, and what a client gets from it: the answers to
  any sequence of operations are those of a list.
\<close>

datatype 'a fifo_op = Push 'a | Pop

datatype 'a fifo_out = Pushed bool | Popped "'a option"

fun fifo_run :: "('a \<Rightarrow> 's \<Rightarrow> 's \<times> bool) \<Rightarrow> ('s \<Rightarrow> 's \<times> 'a option) \<Rightarrow> 's \<Rightarrow> 'a fifo_op list \<Rightarrow> 's \<times> 'a fifo_out list" where
  "fifo_run push pop s [] = (s, [])"
| "fifo_run push pop s (Push x # ops) =
     (let (s1, ok) = push x s; (s2, outs) = fifo_run push pop s1 ops in (s2, Pushed ok # outs))"
| "fifo_run push pop s (Pop # ops) =
     (let (s1, r) = pop s; (s2, outs) = fifo_run push pop s1 ops in (s2, Popped r # outs))"

definition list_push :: "nat \<Rightarrow> 'a \<Rightarrow> 'a list \<Rightarrow> 'a list \<times> bool" where
  "list_push n x xs = (if length xs < n then (xs @ [x], True) else (xs, False))"

fun list_pop :: "'a list \<Rightarrow> 'a list \<times> 'a option" where
  "list_pop [] = ([], None)"
| "list_pop (x # xs) = (xs, Some x)"

locale bounded_fifo =
  fixes push :: "'a \<Rightarrow> 's \<Rightarrow> 's \<times> bool"
    and pop :: "'s \<Rightarrow> 's \<times> 'a option"
    and view :: "'s \<Rightarrow> 'a list"
    and bound :: nat
    and inv :: "'s \<Rightarrow> bool"
  assumes push_view: "inv s \<Longrightarrow> push x s = (s', ok) \<Longrightarrow> inv s' \<and> (view s', ok) = list_push bound x (view s)"
    and pop_view: "inv s \<Longrightarrow> pop s = (s', r) \<Longrightarrow> inv s' \<and> (view s', r) = list_pop (view s)"
begin

lemma run_view:
  "inv s \<Longrightarrow> fifo_run push pop s ops = (s', outs) \<Longrightarrow>
    inv s' \<and> fifo_run (list_push bound) list_pop (view s) ops = (view s', outs)"
proof (induction ops arbitrary: s s' outs)
  case Nil
  then show ?case by simp
next
  case (Cons x ops)
  show ?case
  proof (cases x)
    case (Push v)
    obtain s1 ok where p: "push v s = (s1, ok)" by force
    obtain s2 os where r: "fifo_run push pop s1 ops = (s2, os)" by force
    have "list_push bound v (view s) = (view s1, ok)" and i: "inv s1" using push_view [OF Cons.prems(1) p] by simp_all
    with Cons.IH [OF i r] Cons.prems(2) Push p r show ?thesis by simp
  next
    case Pop
    obtain s1 v where p: "pop s = (s1, v)" by force
    obtain s2 os where r: "fifo_run push pop s1 ops = (s2, os)" by force
    have "list_pop (view s) = (view s1, v)" and i: "inv s1" using pop_view [OF Cons.prems(1) p] by simp_all
    with Cons.IH [OF i r] Cons.prems(2) Pop p r show ?thesis by simp
  qed
qed

end

section \<open>The ring is a bounded queue\<close>

definition ring_len :: "'a ring \<Rightarrow> nat" where
  "ring_len r = unat (head r - rtail r)"

definition ring_list :: "'a ring \<Rightarrow> 'a list" where
  "ring_list r = map (\<lambda>k. entries r ! ((unat (rtail r) + k) mod length (entries r))) [0..<ring_len r]"

definition pow2 :: "nat \<Rightarrow> bool" where
  "pow2 n \<longleftrightarrow> (\<exists>m < 32. n = 2 ^ m)"

definition ring_inv :: "nat \<Rightarrow> 'a ring \<Rightarrow> bool" where
  "ring_inv n r \<longleftrightarrow> pow2 n \<and> length (entries r) = n \<and> ring_len r \<le> n"

lemma mask_index: "pow2 n \<Longrightarrow> (x :: nat) AND (n - 1) = x mod n"
  by (auto simp only: pow2_def mask_eq_exp_minus_1 [symmetric] take_bit_eq_mask [symmetric] take_bit_eq_mod)

lemma pow2_bounds: "pow2 n \<Longrightarrow> 0 < n \<and> n < 2 ^ 32 \<and> n dvd 2 ^ 32"
proof -
  assume "pow2 n"
  then obtain m where m: "m < 32" "n = 2 ^ m" by (auto simp: pow2_def)
  have "(2 :: nat) ^ m < 2 ^ 32" by (rule power_strict_increasing) (use m in simp_all)
  moreover have "(2 :: nat) ^ m dvd 2 ^ 32" by (rule le_imp_power_dvd) (use m in simp)
  ultimately show ?thesis using m(2) by simp
qed

lemma unat_add_mod:
  assumes "pow2 n"
  shows "unat (w + v :: u32) mod n = (unat w + unat v) mod n"
proof -
  have "unat (w + v) = (unat w + unat v) mod 2 ^ 32" by (simp add: unat_word_ariths)
  then show ?thesis using pow2_bounds [OF assms] by (simp add: mod_mod_cancel)
qed

lemma head_index:
  assumes "pow2 n"
  shows "unat (head r) mod n = (unat (rtail r) + ring_len r) mod n"
  using unat_add_mod [OF assms, of "rtail r" "head r - rtail r"] by (simp add: ring_len_def)

lemma unat_suc: "unat (w :: u32) < 2 ^ 32 - 1 \<Longrightarrow> unat (w + 1) = unat w + 1"
  by (simp add: unat_word_ariths)

lemma ring_len_push: "ring_len r < 2 ^ 32 - 1 \<Longrightarrow> ring_len (r\<lparr>entries := es, head := head r + 1\<rparr>) = ring_len r + 1"
  using unat_suc [of "head r - rtail r"] by (simp add: ring_len_def algebra_simps)

lemma ring_len_pop: "rtail r \<noteq> head r \<Longrightarrow> ring_len (r\<lparr>rtail := rtail r + 1\<rparr>) = ring_len r - 1 \<and> 0 < ring_len r"
proof -
  assume "rtail r \<noteq> head r"
  then have "head r - rtail r \<noteq> 0" by simp
  then have "0 < ring_len r" by (simp add: ring_len_def word_greater_zero_iff unat_gt_0)
  moreover have "head r - (rtail r + 1) = (head r - rtail r) - 1" by (simp add: algebra_simps)
  moreover have "unat (head r - rtail r - 1) = unat (head r - rtail r) - 1"
    using \<open>head r - rtail r \<noteq> 0\<close> by (rule unat_minus_one)
  moreover have "head (r\<lparr>rtail := rtail r + 1\<rparr>) = head r" "rtail (r\<lparr>rtail := rtail r + 1\<rparr>) = rtail r + 1" by simp_all
  ultimately show ?thesis by (simp only: ring_len_def)
qed

lemma mod_offset_inj:
  assumes "j < n" and "k < n" and "(a + j) mod n = (a + k) mod (n :: nat)"
  shows "j = k"
proof -
  have "x = y" if "x \<le> y" "y < n" "(a + y) mod n = (a + x) mod n" for x y
  proof -
    have "n dvd (a + y) - (a + x)" using that by (subst mod_eq_dvd_iff_nat [symmetric]) auto
    then show ?thesis using that by (auto dest: dvd_imp_le)
  qed
  from this [of j k] this [of k j] assms show ?thesis by (metis nat_le_linear)
qed

text \<open>Writing the slot at the head does not touch what is queued while the ring is not full.\<close>

lemma ring_list_write:
  assumes "pow2 (length (entries r))" and "ring_len r < length (entries r)"
  shows "ring_list (r\<lparr>entries := (entries r)[unat (head r) mod length (entries r) := x]\<rparr>) = ring_list r"
proof -
  let ?n = "length (entries r)"
  have "unat (head r) mod ?n \<noteq> (unat (rtail r) + k) mod ?n" if "k < ring_len r" for k
    using mod_offset_inj [of k ?n "ring_len r" "unat (rtail r)"] head_index [OF assms(1), of r] that assms(2) by auto
  then show ?thesis by (auto simp: ring_list_def ring_len_def)
qed

lemma ring_list_publish:
  assumes "pow2 (length (entries r))" and "ring_len r < length (entries r)"
  shows "ring_list (r\<lparr>head := head r + 1\<rparr>) = ring_list r @ [entries r ! (unat (head r) mod length (entries r))]"
    "ring_len (r\<lparr>head := head r + 1\<rparr>) = ring_len r + 1"
proof -
  have "ring_len r < 2 ^ 32 - 1" using assms pow2_bounds [OF assms(1)] by simp
  from ring_len_push [OF this, of "entries r"] show len: "ring_len (r\<lparr>head := head r + 1\<rparr>) = ring_len r + 1" by simp
  show "ring_list (r\<lparr>head := head r + 1\<rparr>) = ring_list r @ [entries r ! (unat (head r) mod length (entries r))]"
    using head_index [OF assms(1), of r] by (simp add: ring_list_def len)
qed

lemma ring_list_release:
  assumes "pow2 (length (entries r))" and "rtail r \<noteq> head r"
  shows "ring_list r = entries r ! (unat (rtail r) mod length (entries r)) # ring_list (r\<lparr>rtail := rtail r + 1\<rparr>)"
proof -
  let ?n = "length (entries r)" and ?r = "r\<lparr>rtail := rtail r + 1\<rparr>"
  have len: "ring_len r = Suc (ring_len ?r)" using ring_len_pop [OF assms(2)] by simp
  have "(unat (rtail r + 1) + k) mod ?n = (unat (rtail r) + Suc k) mod ?n" for k
  proof -
    have "(unat (rtail r + 1) + k) mod ?n = (unat (rtail r + 1) mod ?n + k) mod ?n" by (simp add: mod_add_left_eq)
    also have "\<dots> = ((unat (rtail r) + 1) mod ?n + k) mod ?n" using unat_add_mod [OF assms(1), of "rtail r" 1] by simp
    also have "\<dots> = (unat (rtail r) + Suc k) mod ?n" by (simp add: mod_add_left_eq)
    finally show ?thesis .
  qed
  then show ?thesis unfolding ring_list_def len upt_conv_Cons [OF zero_less_Suc]
    by (simp add: map_Suc_upt [symmetric] del: upt_Suc)
qed

lemma ring_push_list:
  assumes "ring_inv n r"
  shows "ring_inv n (fst (ring_push x r)) \<and> (ring_list (fst (ring_push x r)), snd (ring_push x r)) = list_push n x (ring_list r)"
proof (cases "ring_len r < n")
  case False
  then show ?thesis using assms by (simp add: ring_push_def ring_inv_def list_push_def ring_len_def ring_list_def)
next
  case True
  have n: "pow2 n" "length (entries r) = n" using assms by (auto simp: ring_inv_def)
  let ?i = "unat (head r) mod n"
  let ?w = "r\<lparr>entries := (entries r)[?i := x]\<rparr>"
  have i: "unat (head r) AND (n - 1) = ?i" by (rule mask_index [OF n(1)])
  have push: "ring_push x r = (?w\<lparr>head := head r + 1\<rparr>, True)"
    using True n i by (simp add: ring_push_def ring_len_def Let_def)
  have w: "pow2 (length (entries ?w))" "ring_len ?w < length (entries ?w)" "ring_list ?w = ring_list r"
    using ring_list_write [of r x] True n by (simp_all add: ring_len_def)
  have "?i < n" using pow2_bounds [OF n(1)] by simp
  then have "ring_list (?w\<lparr>head := head r + 1\<rparr>) = ring_list r @ [x]"
    using ring_list_publish(1) [OF w(1,2)] w(3) n(2) by simp
  moreover have "ring_inv n (?w\<lparr>head := head r + 1\<rparr>)"
    using ring_list_publish(2) [OF w(1,2)] True n by (simp add: ring_inv_def ring_len_def)
  moreover have "length (ring_list r) = ring_len r" by (simp add: ring_list_def)
  ultimately show ?thesis using push True by (simp add: list_push_def)
qed

lemma ring_pop_list:
  assumes "ring_inv n r"
  shows "ring_inv n (fst (ring_pop r)) \<and> (ring_list (fst (ring_pop r)), snd (ring_pop r)) = list_pop (ring_list r)"
proof (cases "rtail r = head r")
  case True
  then have "ring_list r = []" by (simp add: ring_list_def ring_len_def)
  with True assms show ?thesis by (simp add: ring_pop_def)
next
  case False
  have n: "pow2 n" "length (entries r) = n" "ring_len r \<le> n" using assms by (auto simp: ring_inv_def)
  have "ring_pop r = (r\<lparr>rtail := rtail r + 1\<rparr>, Some (entries r ! (unat (rtail r) mod n)))"
    using False n mask_index [OF n(1)] by (simp add: ring_pop_def)
  moreover have "ring_inv n (r\<lparr>rtail := rtail r + 1\<rparr>)" using n ring_len_pop [OF False] by (simp add: ring_inv_def)
  moreover have "ring_list r = entries r ! (unat (rtail r) mod n) # ring_list (r\<lparr>rtail := rtail r + 1\<rparr>)"
    using ring_list_release [OF _ False] n by simp
  ultimately show ?thesis by simp
qed

interpretation rq: bounded_fifo ring_push ring_pop ring_list n "ring_inv n" for n
proof
  fix s s' :: "'a ring" and x ok
  assume "ring_inv n s" "ring_push x s = (s', ok)"
  with ring_push_list [of n s x] show "ring_inv n s' \<and> (ring_list s', ok) = list_push n x (ring_list s)" by simp
next
  fix s s' :: "'a ring" and r
  assume "ring_inv n s" "ring_pop s = (s', r)"
  with ring_pop_list [of n s] show "ring_inv n s' \<and> (ring_list s', r) = list_pop (ring_list s)" by simp
qed

section \<open>Producer and consumer interleaved\<close>

text \<open>
  The two sides run on different cores. Each memory access of \<^verbatim>\<open>push\<close> and \<^verbatim>\<open>pop\<close> is a step of its
  own: the producer loads both indices, writes the slot, publishes the head; the consumer loads both
  indices, reads the slot, releases the tail. The other side may run between any two of them, so a
  loaded index may be out of date. \<open>sent\<close> and \<open>got\<close> record what was pushed and popped so far.
\<close>

datatype 'a producer = PIdle | PLoaded 'a u32 u32 | PWritten 'a u32

datatype 'a consumer = CIdle | CLoaded u32 u32 | CRead u32 'a

record 'a spsc =
  the_ring :: "'a ring"
  prod :: "'a producer"
  cons :: "'a consumer"
  sent :: "'a list"
  got :: "'a list"

inductive spsc_step :: "'a spsc \<Rightarrow> 'a spsc \<Rightarrow> bool" where
  p_load: "prod s = PIdle \<Longrightarrow> spsc_step s (s\<lparr>prod := PLoaded x (head (the_ring s)) (rtail (the_ring s))\<rparr>)"
| p_full: "prod s = PLoaded x h t \<Longrightarrow> length (entries (the_ring s)) \<le> unat (h - t) \<Longrightarrow> spsc_step s (s\<lparr>prod := PIdle\<rparr>)"
| p_write: "prod s = PLoaded x h t \<Longrightarrow> unat (h - t) < length (entries (the_ring s)) \<Longrightarrow> r = the_ring s \<Longrightarrow>
    spsc_step s (s\<lparr>the_ring := r\<lparr>entries := (entries r)[unat h AND (length (entries r) - 1) := x]\<rparr>, prod := PWritten x h\<rparr>)"
| p_publish: "prod s = PWritten x h \<Longrightarrow>
    spsc_step s (s\<lparr>the_ring := (the_ring s)\<lparr>head := h + 1\<rparr>, prod := PIdle, sent := sent s @ [x]\<rparr>)"
| c_load: "cons s = CIdle \<Longrightarrow> spsc_step s (s\<lparr>cons := CLoaded (rtail (the_ring s)) (head (the_ring s))\<rparr>)"
| c_empty: "cons s = CLoaded t h \<Longrightarrow> t = h \<Longrightarrow> spsc_step s (s\<lparr>cons := CIdle\<rparr>)"
| c_read: "cons s = CLoaded t h \<Longrightarrow> t \<noteq> h \<Longrightarrow> r = the_ring s \<Longrightarrow>
    spsc_step s (s\<lparr>cons := CRead t (entries r ! (unat t AND (length (entries r) - 1)))\<rparr>)"
| c_release: "cons s = CRead t x \<Longrightarrow>
    spsc_step s (s\<lparr>the_ring := (the_ring s)\<lparr>rtail := t + 1\<rparr>, cons := CIdle, got := got s @ [x]\<rparr>)"

inductive_cases spsc_stepE: "spsc_step s s'"

text \<open>A local copy of the other side's index lags behind it, on the safe side.\<close>

fun prod_inv :: "'a ring \<Rightarrow> 'a producer \<Rightarrow> bool" where
  "prod_inv r PIdle = True"
| "prod_inv r (PLoaded x h t) = (h = head r \<and> ring_len r \<le> unat (h - t))"
| "prod_inv r (PWritten x h) = (h = head r \<and> ring_len r < length (entries r) \<and> entries r ! (unat h mod length (entries r)) = x)"

fun cons_inv :: "'a ring \<Rightarrow> 'a consumer \<Rightarrow> bool" where
  "cons_inv r CIdle = True"
| "cons_inv r (CLoaded t h) = (t = rtail r \<and> unat (h - t) \<le> ring_len r)"
| "cons_inv r (CRead t x) = (t = rtail r \<and> rtail r \<noteq> head r \<and> entries r ! (unat t mod length (entries r)) = x)"

definition spsc_inv :: "nat \<Rightarrow> 'a spsc \<Rightarrow> bool" where
  "spsc_inv n s \<longleftrightarrow> ring_inv n (the_ring s) \<and> sent s = got s @ ring_list (the_ring s) \<and>
     prod_inv (the_ring s) (prod s) \<and> cons_inv (the_ring s) (cons s)"

lemma ring_len_pos: "0 < ring_len r \<longleftrightarrow> rtail r \<noteq> head r"
  using ring_len_pop [of r] by (auto simp: ring_len_def)

lemma spsc_step_inv:
  assumes step: "spsc_step s s'" and inv: "spsc_inv n s"
  shows "spsc_inv n s'"
proof -
  let ?r = "the_ring s"
  from inv have n: "pow2 n" "length (entries ?r) = n" "ring_len ?r \<le> n" and rec: "sent s = got s @ ring_list ?r"
    and p: "prod_inv ?r (prod s)" and c: "cons_inv ?r (cons s)"
    by (auto simp: spsc_inv_def ring_inv_def)
  note idx = mask_index [OF n(1)]
  have n0: "0 < n" using pow2_bounds [OF n(1)] by simp
  from step show ?thesis
  proof (cases rule: spsc_step.cases)
    case (p_load x)
    then show ?thesis using inv by (simp add: spsc_inv_def ring_len_def)
  next
    case (p_full x h t)
    then show ?thesis using inv by (simp add: spsc_inv_def)
  next
    case (p_write x h t r)
    then have h: "h = head ?r" "ring_len ?r < n" using p n(2) by auto
    let ?w = "?r\<lparr>entries := (entries ?r)[unat h mod n := x]\<rparr>"
    have list: "ring_list ?w = ring_list ?r" using ring_list_write [of ?r x] n h by simp
    have len: "ring_len ?w = ring_len ?r" by (simp add: ring_len_def)
    have other: "unat h mod n \<noteq> unat (rtail ?r) mod n" if "0 < ring_len ?r"
      using mod_offset_inj [of 0 n "ring_len ?r" "unat (rtail ?r)"] head_index [OF n(1), of ?r] that h n0 by auto
    have "cons_inv ?w (cons s)"
      using c other ring_len_pos [of ?r] n(2) len by (cases "cons s") auto
    then show ?thesis using p_write n list len h rec n0 idx by (simp add: spsc_inv_def ring_inv_def)
  next
    case (p_publish x h)
    then have h: "h = head ?r" "ring_len ?r < length (entries ?r)" "entries ?r ! (unat h mod length (entries ?r)) = x" using p by auto
    have pw: "pow2 (length (entries ?r))" using n by simp
    note pub = ring_list_publish [OF pw h(2)]
    have "cons_inv (?r\<lparr>head := head ?r + 1\<rparr>) (cons s)"
    proof (cases "cons s")
      case (CRead t y)
      then show ?thesis using c pub(2) ring_len_pos [of "?r\<lparr>head := head ?r + 1\<rparr>"] by auto
    qed (use c pub(2) in auto)
    then show ?thesis using p_publish pub h n rec by (simp add: spsc_inv_def ring_inv_def)
  next
    case c_load
    then show ?thesis using inv by (simp add: spsc_inv_def ring_len_def)
  next
    case (c_empty t h)
    then show ?thesis using inv by (simp add: spsc_inv_def)
  next
    case (c_read t h r)
    then have t: "t = rtail ?r" "unat (h - t) \<le> ring_len ?r" using c by auto
    have "h - t \<noteq> 0" using c_read(3) by simp
    then have "0 < unat (h - t)" by (simp add: unat_gt_0)
    then have "rtail ?r \<noteq> head ?r" using t(2) ring_len_pos [of ?r] by linarith
    then show ?thesis using c_read inv t n idx by (simp add: spsc_inv_def)
  next
    case (c_release t x)
    then have t: "t = rtail ?r" "rtail ?r \<noteq> head ?r" "entries ?r ! (unat t mod n) = x" using c n(2) by auto
    have list: "ring_list ?r = x # ring_list (?r\<lparr>rtail := rtail ?r + 1\<rparr>)"
      using ring_list_release [OF _ t(2)] n t by simp
    have len: "ring_len (?r\<lparr>rtail := rtail ?r + 1\<rparr>) = ring_len ?r - 1" using ring_len_pop [OF t(2)] by simp
    have "prod_inv (?r\<lparr>rtail := rtail ?r + 1\<rparr>) (prod s)" using p len by (cases "prod s") auto
    then show ?thesis using c_release list len n rec t by (simp add: spsc_inv_def ring_inv_def)
  qed
qed

lemma spsc_reach_inv: "spsc_step\<^sup>*\<^sup>* s s' \<Longrightarrow> spsc_inv n s \<Longrightarrow> spsc_inv n s'"
  by (induction rule: rtranclp_induct) (auto intro: spsc_step_inv)

section \<open>Draining\<close>

definition completion :: "sq_entry \<Rightarrow> u32 \<Rightarrow> u32 \<Rightarrow> cq_entry" where
  "completion entry status result = \<lparr>cq_flow_id = sq_flow_id entry, cq_user_data = sq_user_data entry,
     cq_status = status, cq_result = result\<rparr>"

text \<open>The specification of a drain: run the entries in order and collect their completions.\<close>

fun run_entries ::
  "'w services \<Rightarrow> object_table \<Rightarrow> sq_entry list \<Rightarrow> caps \<times> 'w \<Rightarrow> ((caps \<times> 'w) \<times> cq_entry list) option" where
  "run_entries sv obs [] s = Some (s, [])"
| "run_entries sv obs (e # es) s =
     do { (s1, status, result) \<leftarrow> run_entry sv obs e s;
          (s2, cs) \<leftarrow> run_entries sv obs es s1;
          Some (s2, completion e status result # cs) }"

lemma object_kind_total: "objects_ok obs \<Longrightarrow> unat ob < MAX_OBJECTS \<Longrightarrow> \<exists>knd. object_kind_of obs ob = Some knd"
  by (simp add: object_kind_of_def nth_opt_def objects_ok_def)

lemma run_entry_spec:
  assumes inv: "caps_inv (k, e)" and obs: "objects_ok obs" and x_def: "x = cap_fn e (unat (sq_cap_id en AND 0xFFFF))"
  shows "\<exists>e' w' status result. run_entry sv obs en ((k, e), w) = Some (((k, e'), w'), status, result) \<and> caps_inv (k, e') \<and>
    caps_acct (k, e) (k, e') \<and>
    (case verdict obs (live32 (sq_cap_id en)) (opcode_right (sq_opcode en)) x of
       Some er \<Rightarrow> e' = e \<and> w' = w \<and> status = cap_status er \<and> result = 0
     | None \<Rightarrow> if object_kind_of obs (cs_object x) = Some QueuePair then ((status, result), w') = run_opcode sv en w
         else w' = w \<and> status = STATUS_DENIED \<and> result = 0)"
proof -
  let ?v = "verdict obs (live32 (sq_cap_id en)) (opcode_right (sq_opcode en)) x"
  from grant_check_low32_spec [OF inv obs, of "sq_cap_id en" "opcode_right (sq_opcode en)"] obtain e' where
    g: "grant_check_low32 obs (sq_cap_id en) (opcode_right (sq_opcode en)) (k, e) =
        Some ((k, e'), case ?v of Some er \<Rightarrow> Inl er | None \<Rightarrow> Inr (cs_object x))"
      "caps_inv (k, e')" "caps_acct (k, e) (k, e')"
      "case ?v of Some er \<Rightarrow> e' = e | None \<Rightarrow> cap_fn e' = (cap_fn e)(unat (sq_cap_id en AND 0xFFFF) := spend x)"
    unfolding x_def by blast
  show ?thesis
  proof (cases ?v)
    case (Some er)
    with g show ?thesis by (simp add: run_entry_def)
  next
    case None
    obtain knd where k: "object_kind_of obs (cs_object x) = Some knd"
      using object_kind_total [OF obs caps_invD(3) [OF inv]] x_def by blast
    obtain s1 s2 w' where r: "run_opcode sv en w = ((s1, s2), w')" by (metis surj_pair)
    show ?thesis using g None k r by (cases "knd = QueuePair") (simp_all add: run_entry_def)
  qed
qed

lemma run_entries_total:
  assumes "caps_inv (k, e)" and "objects_ok obs"
  shows "\<exists>e' w' cs. run_entries sv obs es ((k, e), w) = Some (((k, e'), w'), cs) \<and> caps_inv (k, e') \<and>
    map (\<lambda>c. (cq_flow_id c, cq_user_data c)) cs = map (\<lambda>en. (sq_flow_id en, sq_user_data en)) es"
  using assms(1)
proof (induction es arbitrary: e w)
  case Nil
  then show ?case by simp
next
  case (Cons en es)
  from run_entry_spec [OF Cons.prems assms(2) refl, of sv en w] obtain e1 w1 status result where
    1: "run_entry sv obs en ((k, e), w) = Some (((k, e1), w1), status, result)" "caps_inv (k, e1)" by blast
  from Cons.IH [OF 1(2), of w1] 1(1) show ?case by (auto simp: completion_def)
qed

lemma take_push: "length xs \<le> n \<Longrightarrow> fst (list_push n x xs) = take n (xs @ [x])"
  by (auto simp: list_push_def)

lemma take_take_append: "take n (take n ys @ zs) = take n (ys @ zs)"
  by (cases "length ys \<le> n") auto

lemma process_loop_spec:
  assumes "pow2 (length (entries (sq q)))" and "ring_inv n (cq q)" and "ring_len (sq q) \<le> fuel"
    and "run_entries sv obs (ring_list (sq q)) (cs, w) = Some ((cs', w'), cmpl)"
  shows "\<exists>q'. process_loop fuel sv obs (q, cs, w) done = Some ((q', cs', w'), done + ring_len (sq q)) \<and>
    rtail (sq q') = head (sq q) \<and> head (sq q') = head (sq q) \<and> ring_inv n (cq q') \<and>
    ring_list (cq q') = take n (ring_list (cq q) @ cmpl)"
  using assms
proof (induction fuel arbitrary: q cs w cmpl "done")
  case 0
  then have "rtail (sq q) = head (sq q)" using ring_len_pos [of "sq q"] by simp
  moreover from this have "ring_list (sq q) = []" by (simp add: ring_list_def ring_len_def)
  moreover have "length (ring_list (cq q)) \<le> n" using 0(2) by (simp add: ring_inv_def ring_list_def)
  ultimately show ?case using 0 by (simp add: ring_pop_def ring_len_def)
next
  case (Suc fuel)
  show ?case
  proof (cases "rtail (sq q) = head (sq q)")
    case True
    then have "ring_list (sq q) = []" by (simp add: ring_list_def ring_len_def)
    moreover have "length (ring_list (cq q)) \<le> n" using Suc.prems(2) by (simp add: ring_inv_def ring_list_def)
    ultimately show ?thesis using True Suc.prems by (simp add: ring_pop_def ring_len_def)
  next
    case False
    let ?r = "(sq q)\<lparr>rtail := rtail (sq q) + 1\<rparr>"
    let ?en = "entries (sq q) ! (unat (rtail (sq q)) mod length (entries (sq q)))"
    have pop: "ring_pop (sq q) = (?r, Some ?en)"
      using False mask_index [OF Suc.prems(1)] by (simp add: ring_pop_def)
    have list: "ring_list (sq q) = ?en # ring_list ?r" by (rule ring_list_release [OF Suc.prems(1) False])
    have len: "ring_len ?r = ring_len (sq q) - 1" "0 < ring_len (sq q)" using ring_len_pop [OF False] by auto
    from Suc.prems(4) list obtain cs1 w1 status result cmpl1 where
      r: "run_entry sv obs ?en (cs, w) = Some ((cs1, w1), status, result)"
        "run_entries sv obs (ring_list ?r) (cs1, w1) = Some ((cs', w'), cmpl1)" "cmpl = completion ?en status result # cmpl1"
      by (auto split: bind_splits)
    let ?q = "q\<lparr>sq := ?r, cq := fst (ring_push (completion ?en status result) (cq q))\<rparr>"
    note push = ring_push_list [OF Suc.prems(2), of "completion ?en status result"]
    have "length (ring_list (cq q)) \<le> n" using Suc.prems(2) by (simp add: ring_inv_def ring_list_def)
    then have cq: "ring_list (cq ?q) = take n (ring_list (cq q) @ [completion ?en status result])"
      using arg_cong [OF conjunct2 [OF push], of fst] take_push [of "ring_list (cq q)" n] by simp
    have "process_loop (Suc fuel) sv obs (q, cs, w) done = process_loop fuel sv obs (?q, cs1, w1) (done + 1)"
      using pop r(1) by (simp add: completion_def Let_def)
    moreover have pre: "pow2 (length (entries (sq ?q)))" "ring_inv n (cq ?q)" "ring_len (sq ?q) \<le> fuel"
      "run_entries sv obs (ring_list (sq ?q)) (cs1, w1) = Some ((cs', w'), cmpl1)"
      using Suc.prems(1,3) len push r(2) by simp_all
    from Suc.IH [OF pre, of "done + 1"] obtain q' where
      "process_loop fuel sv obs (?q, cs1, w1) (done + 1) = Some ((q', cs', w'), done + 1 + ring_len ?r)"
      "rtail (sq q') = head (sq q)" "head (sq q') = head (sq q)" "ring_inv n (cq q')"
      "ring_list (cq q') = take n (ring_list (cq ?q) @ cmpl1)" by fastforce
    moreover have "take n (ring_list (cq ?q) @ cmpl1) = take n (ring_list (cq q) @ cmpl)"
      using take_take_append [of n "ring_list (cq q) @ [completion ?en status result]" cmpl1] cq r(3) by simp
    ultimately show ?thesis using len by auto
  qed
qed

section \<open>Properties\<close>

text \<open>
  The ring with free-running, wrapping 32-bit indices is a bounded queue: for
  any sequence of pushes and pops from any consistent state, wherever the indices stand, its answers
  and its contents are those of a list of at most \<open>n\<close> elements.
\<close>

theorem ring_refines_list:
  assumes "ring_inv n r" and "fifo_run ring_push ring_pop r ops = (r', outs)"
  shows "fifo_run (list_push n) list_pop (ring_list r) ops = (ring_list r', outs)"
  using rq.run_view [OF assms] by blast

theorem ring_refines_list_witness:
  "\<exists>r' outs. fifo_run ring_push ring_pop \<lparr>entries = [0, 0, 0, 0 :: nat], head = - 1, rtail = - 1\<rparr> [Push 5, Push 6, Pop, Pop, Pop] = (r', outs) \<and>
    fifo_run (list_push 4) list_pop [] [Push 5, Push 6, Pop, Pop, Pop] = (ring_list r', outs)"
proof -
  let ?r = "\<lparr>entries = [0, 0, 0, 0 :: nat], head = - 1, rtail = - 1\<rparr>"
  have "pow2 4" unfolding pow2_def by (intro exI [of _ 2]) simp
  then have inv: "ring_inv 4 ?r" by (simp add: ring_inv_def ring_len_def)
  obtain r' outs where r: "fifo_run ring_push ring_pop ?r [Push 5, Push 6, Pop, Pop, Pop] = (r', outs)" by (metis surj_pair)
  have "ring_list ?r = []" by (simp add: ring_list_def ring_len_def)
  with ring_refines_list [OF inv r] r show ?thesis by auto
qed

text \<open>
  C4: with the producer and the consumer on different cores, and every load and store of
  \<^verbatim>\<open>push\<close> and \<^verbatim>\<open>pop\<close> interleaved in any order, what the consumer got is always a prefix of what the
  producer sent, and what is missing is exactly what is still in the ring: nothing is lost, repeated,
  reordered or torn, also across the wrap of the indices.
\<close>

theorem spsc_fifo:
  assumes "ring_inv n r" and "ring_list r = []"
    and "spsc_step\<^sup>*\<^sup>* \<lparr>the_ring = r, prod = PIdle, cons = CIdle, sent = [], got = []\<rparr> s"
  shows "sent s = got s @ ring_list (the_ring s) \<and> length (ring_list (the_ring s)) \<le> n"
proof -
  have "spsc_inv n \<lparr>the_ring = r, prod = PIdle, cons = CIdle, sent = [], got = []\<rparr>"
    using assms(1,2) by (simp add: spsc_inv_def)
  from spsc_reach_inv [OF assms(3) this] show ?thesis
    by (simp add: spsc_inv_def ring_inv_def ring_list_def)
qed

theorem spsc_fifo_witness:
  "\<exists>s. spsc_step\<^sup>*\<^sup>* \<lparr>the_ring = \<lparr>entries = [0, 0 :: nat], head = - 1, rtail = - 1\<rparr>, prod = PIdle, cons = CIdle, sent = [], got = []\<rparr> s \<and>
    sent s = got s @ ring_list (the_ring s)"
proof -
  let ?r = "\<lparr>entries = [0, 0 :: nat], head = - 1, rtail = - 1\<rparr>"
  let ?s = "\<lparr>the_ring = ?r, prod = PIdle, cons = CIdle, sent = [], got = []\<rparr>"
  have "pow2 2" unfolding pow2_def by (intro exI [of _ 1]) simp
  then have "ring_inv 2 ?r" "ring_list ?r = []" by (simp_all add: ring_inv_def ring_len_def ring_list_def)
  moreover have "spsc_step ?s (?s\<lparr>prod := PLoaded 7 (- 1) (- 1)\<rparr>)" using p_load [of ?s 7] by simp
  ultimately show ?thesis using spsc_fifo [of 2 ?r] by (meson r_into_rtranclp)
qed

text \<open>
  C40: a doorbell processes every entry queued at that moment and terminates:
  \<^verbatim>\<open>kernel_process\<close> returns the number of entries, the submission ring is empty, the entries ran in order,
  and each produced one completion with its own flow id and user data. The completions are appended to
  the completion ring as far as it has room; those beyond it are dropped.
\<close>

theorem kernel_process_drains:
  assumes "length (entries (sq q)) = RING_DEPTH" and "ring_inv RING_DEPTH (cq q)" and "caps_inv (k, e)" and "objects_ok obs"
  shows "\<exists>q' e' w' cmpl. kernel_process sv obs (q, (k, e), w) = Some ((q', (k, e'), w'), ring_len (sq q)) \<and>
    caps_inv (k, e') \<and> ring_list (sq q') = [] \<and>
    run_entries sv obs (ring_list (sq q)) ((k, e), w) = Some (((k, e'), w'), cmpl) \<and>
    map (\<lambda>c. (cq_flow_id c, cq_user_data c)) cmpl = map (\<lambda>en. (sq_flow_id en, sq_user_data en)) (ring_list (sq q)) \<and>
    ring_inv RING_DEPTH (cq q') \<and> ring_list (cq q') = take RING_DEPTH (ring_list (cq q) @ cmpl)"
proof -
  have pow: "pow2 (length (entries (sq q)))"
    unfolding assms(1) RING_DEPTH_def pow2_def by (intro exI [of _ 6]) simp
  from run_entries_total [OF assms(3,4), of sv "ring_list (sq q)" w] obtain e' w' cmpl where
    r: "run_entries sv obs (ring_list (sq q)) ((k, e), w) = Some (((k, e'), w'), cmpl)" "caps_inv (k, e')"
      "map (\<lambda>c. (cq_flow_id c, cq_user_data c)) cmpl = map (\<lambda>en. (sq_flow_id en, sq_user_data en)) (ring_list (sq q))" by blast
  from process_loop_spec [OF pow assms(2) order_refl r(1), of 0] obtain q' where
    q: "process_loop (ring_len (sq q)) sv obs (q, (k, e), w) 0 = Some ((q', (k, e'), w'), ring_len (sq q))"
      "rtail (sq q') = head (sq q)" "head (sq q') = head (sq q)" "ring_inv RING_DEPTH (cq q')"
      "ring_list (cq q') = take RING_DEPTH (ring_list (cq q) @ cmpl)" by auto
  have "ring_list (sq q') = []" using q(2,3) by (simp add: ring_list_def ring_len_def)
  with q r show ?thesis by (simp add: kernel_process_def ring_len_def)
qed

text \<open>A queue pair with one submission, and services that answer nothing.\<close>

definition no_services :: "unit services" where
  "no_services = \<lparr>user_buf = \<lambda>_ _ _. True, user_buf_mut = \<lambda>_ _ _. True, user_out_stat = \<lambda>_ _. True, sv_file = None,
     sv_nic = None, sv_present = None, sv_graph_submit = (\<lambda>_ _ _ w. ((0, 0), w))\<rparr>"

definition demo_ring :: "'a \<Rightarrow> 'a ring" where
  "demo_ring x = \<lparr>entries = replicate 64 x, head = 1, rtail = 0\<rparr>"

theorem kernel_process_drains_witness:
  "\<exists>p q' s'. kernel_process no_services (sy_objs (granted_sys p))
      (\<lparr>sq = demo_ring \<lparr>sq_opcode = 0, sq_flags = 0, sq_engine_id = 0, sq_cap_id = 65536, sq_flow_id = 9, sq_user_data = 4, sq_payload = replicate 24 0\<rparr>,
         cq = demo_ring \<lparr>cq_flow_id = 0, cq_user_data = 0, cq_status = 0, cq_result = 0\<rparr>\<rparr>,
       (sy_mem (granted_sys p), sy_tabs (granted_sys p) ! 0), ()) = Some ((q', s'), 1) \<and> ring_list (sq q') = []"
proof -
  obtain p where p: "pool_inv p" using pool_inv_boot [of 67108864 4096] by auto
  note g = granted_sys_ok [OF p]
  have inv: "caps_inv (sy_mem (granted_sys p), sy_tabs (granted_sys p) ! 0)" and obs: "objects_ok (sy_objs (granted_sys p))"
    using g(1,2) by (auto simp: sys_ok_def sys_inv_def intro!: tabs_caps_inv)
  let ?e = "\<lparr>sq_opcode = 0, sq_flags = 0, sq_engine_id = 0, sq_cap_id = 65536, sq_flow_id = 9, sq_user_data = 4, sq_payload = replicate 24 0\<rparr>"
  let ?q = "\<lparr>sq = demo_ring ?e, cq = demo_ring \<lparr>cq_flow_id = 0, cq_user_data = 0, cq_status = 0, cq_result = 0\<rparr>\<rparr>"
  have "pow2 64" unfolding pow2_def by (intro exI [of _ 6]) simp
  then have cq: "ring_inv RING_DEPTH (cq ?q)" by (simp add: ring_inv_def demo_ring_def RING_DEPTH_def ring_len_def)
  have len: "length (entries (sq ?q)) = RING_DEPTH" "ring_len (sq ?q) = 1"
    by (simp_all add: demo_ring_def RING_DEPTH_def ring_len_def)
  show ?thesis
    using kernel_process_drains [OF len(1) cq inv obs, of no_services "()"] unfolding len(2) by blast
qed

text \<open>
  An entry reaches a service only through a capability: unless its \<^verbatim>\<open>cap_id\<close> names a
  live, unrevoked, unexhausted capability of the cell's own table that carries the right the opcode needs
  and whose object is a queue pair, the world behind the opcodes is untouched, the result is zero and the
  status is the refusal's.
\<close>

theorem entry_gate:
  assumes "caps_inv (k, e)" and "objects_ok obs" and "x = cap_fn e (unat (sq_cap_id en AND 0xFFFF))"
    and "\<not> (cs_in_use x \<and> (ucast (cs_generation x) AND 0xFFFF :: u32) = drop_bit 16 (sq_cap_id en) \<and>
      cs_rights x AND opcode_right (sq_opcode en) = opcode_right (sq_opcode en) \<and>
      cs_epoch x = cur_epoch obs (cs_object x) \<and> cs_budget x \<noteq> 0 \<and> object_kind_of obs (cs_object x) = Some QueuePair)"
  shows "\<exists>s' status. run_entry sv obs en ((k, e), w) = Some ((s', w), status, 0) \<and>
    status \<in> {STATUS_BAD_HANDLE, STATUS_DENIED, STATUS_REVOKED, STATUS_EXHAUSTED}"
proof -
  from run_entry_spec [OF assms(1-3), of sv w] obtain e' w' status result where
    r: "run_entry sv obs en ((k, e), w) = Some (((k, e'), w'), status, result)"
      "case verdict obs (live32 (sq_cap_id en)) (opcode_right (sq_opcode en)) x of
         Some er \<Rightarrow> e' = e \<and> w' = w \<and> status = cap_status er \<and> result = 0
       | None \<Rightarrow> if object_kind_of obs (cs_object x) = Some QueuePair then ((status, result), w') = run_opcode sv en w
           else w' = w \<and> status = STATUS_DENIED \<and> result = 0" by blast
  have "cap_status er \<in> {STATUS_BAD_HANDLE, STATUS_DENIED, STATUS_REVOKED, STATUS_EXHAUSTED}" for er by (cases er) auto
  then show ?thesis
    using r assms(4) by (cases "verdict obs (live32 (sq_cap_id en)) (opcode_right (sq_opcode en)) x")
      (auto simp: verdict_def live32_def split: if_splits)
qed

theorem entry_gate_witness:
  "\<exists>p s' status. run_entry no_services (sy_objs (granted_sys p)) \<lparr>sq_opcode = 8, sq_flags = 0, sq_engine_id = 0, sq_cap_id = 0, sq_flow_id = 0,
      sq_user_data = 0, sq_payload = replicate 24 0\<rparr> ((sy_mem (granted_sys p), sy_tabs (granted_sys p) ! 0), ()) = Some ((s', ()), status, 0) \<and>
    status \<in> {STATUS_BAD_HANDLE, STATUS_DENIED, STATUS_REVOKED, STATUS_EXHAUSTED}"
proof -
  obtain p where p: "pool_inv p" using pool_inv_boot [of 67108864 4096] by auto
  note g = granted_sys_ok [OF p]
  have inv: "caps_inv (sy_mem (granted_sys p), sy_tabs (granted_sys p) ! 0)" and obs: "objects_ok (sy_objs (granted_sys p))"
    using g(1,2) by (auto simp: sys_ok_def sys_inv_def intro!: tabs_caps_inv)
  let ?en = "\<lparr>sq_opcode = 8, sq_flags = 0, sq_engine_id = 0, sq_cap_id = 0, sq_flow_id = 0, sq_user_data = 0, sq_payload = replicate 24 0\<rparr>"
  have "\<exists>s' status. run_entry no_services (sy_objs (granted_sys p)) ?en ((sy_mem (granted_sys p), sy_tabs (granted_sys p) ! 0), ()) =
      Some ((s', ()), status, 0) \<and> status \<in> {STATUS_BAD_HANDLE, STATUS_DENIED, STATUS_REVOKED, STATUS_EXHAUSTED}"
    by (rule entry_gate [OF inv obs refl]) (simp add: g(4))
  then show ?thesis by blast
qed

end
