(* ===== verification/Entity.thy ===== *)
theory Entity
  imports Kmeta
begin

text \<open>
  Execution entities, \<^verbatim>\<open>kernel/src/sched/entity.rs\<close>: the one authority on which CPU owns a context,
  which CPU is inside it and whether it may run. The table is a funded table of entities; the FP save
  areas are metadata frames charged to the owning cell.

  The outer option is a panic of the funded table or of the frame pool. The counters that only feed
  reports (double entries, affinity skips) are not modelled.
\<close>

section \<open>Entities\<close>

definition NO_CPU :: u16 where "NO_CPU = 65535"
definition NOT_INSIDE :: u16 where "NOT_INSIDE = 65535"
definition NO_WAKE :: u32 where "NO_WAKE = 0"
definition DEFAULT_SLICE_NS :: u32 where "DEFAULT_SLICE_NS = 1000000"
definition DEFAULT_WEIGHT :: u16 where "DEFAULT_WEIGHT = 1024"
definition FIRST_ID :: nat where "FIRST_ID = 1"

datatype sched_class = Fair | Reserved | Batch
datatype core_class = AnyCore | Performance | Efficiency | LowPower | Engine
datatype estate = Free | Runnable | Parked | Exited

record entity =
  e_cell :: u16
  e_context :: u16
  e_owner :: u16
  e_inside :: u16
  e_state :: estate
  e_class :: sched_class
  e_core_class :: core_class
  e_node :: u8
  e_wake :: u32
  e_slice_ns :: u32
  e_weight :: u16
  e_migrate :: u16
  e_fp :: nat
  e_kstack_top :: nat
  e_service_ns :: nat
  e_dispatches :: nat
  e_preemptions :: nat

definition ENTITY_EMPTY :: entity where
  "ENTITY_EMPTY = \<lparr> e_cell = 0, e_context = 0, e_owner = NO_CPU, e_inside = NOT_INSIDE, e_state = Free,
     e_class = Fair, e_core_class = AnyCore, e_node = 0, e_wake = NO_WAKE, e_slice_ns = DEFAULT_SLICE_NS,
     e_weight = DEFAULT_WEIGHT, e_migrate = 0, e_fp = 0, e_kstack_top = 0, e_service_ns = 0,
     e_dispatches = 0, e_preemptions = 0 \<rparr>"

definition entity_live :: "entity \<Rightarrow> bool" where
  "entity_live e \<longleftrightarrow> e_state e = Runnable \<or> e_state e = Parked"

datatype enter_error = NoEntity | NotYours | NotRunnable | Occupied

datatype violation = I1EnteredTwice nat u16 u16 | I2BadOwner nat u16 | I3InsideNotOwned nat u16 u16
  | I4ParkedNoWake nat | I9ExitedNotClean nat | I7FreeNotClean nat

text \<open>A slot of a frame that has just arrived: every bit zero, which is not the empty entity.\<close>

definition entity_ty :: "entity elem_ty" where
  "entity_ty = \<lparr> ty_size = 56, ty_align = 8,
     ty_zero = \<lparr> e_cell = 0, e_context = 0, e_owner = 0, e_inside = 0, e_state = Free, e_class = Fair,
       e_core_class = AnyCore, e_node = 0, e_wake = 0, e_slice_ns = 0, e_weight = 0, e_migrate = 0, e_fp = 0,
       e_kstack_top = 0, e_service_ns = 0, e_dispatches = 0, e_preemptions = 0 \<rparr> \<rparr>"

record etable =
  slots :: "entity funded"
  ecpus :: u16

definition etable_new :: etable where
  "etable_new = \<lparr> slots = funded_new, ecpus = 0 \<rparr>"

definition ecapacity :: "etable \<Rightarrow> nat" where
  "ecapacity t = cap (slots t)"

section \<open>Operations\<close>

definition etable_init :: "owner \<Rightarrow> u16 \<Rightarrow> kmem \<times> etable \<Rightarrow> kmem \<times> etable" where
  "etable_init ow cpus = (\<lambda>(k, t). let (k', s) = funded_set_owner ow (k, slots t) in (k', t\<lparr>slots := s, ecpus := cpus\<rparr>))"

definition eget :: "etable \<Rightarrow> nat \<Rightarrow> entity option option" where
  "eget t ix = funded_get entity_ty (slots t) ix"

definition eset :: "nat \<Rightarrow> entity \<Rightarrow> etable \<Rightarrow> (etable \<times> bool) option" where
  "eset ix e t = map_option (\<lambda>(s, ok). (t\<lparr>slots := s\<rparr>, ok)) (funded_set entity_ty ix e (slots t))"

text \<open>The iterator over the table: its elements in index order.\<close>

abbreviation entities :: "etable \<Rightarrow> entity list" where
  "entities t \<equiv> contents (slots t)"

definition live_of :: "u16 \<Rightarrow> etable \<Rightarrow> nat" where
  "live_of cell t = length (filter (\<lambda>e. e_cell e = cell \<and> entity_live e) (entities t))"

fun all_parked_from :: "u16 \<Rightarrow> entity list \<Rightarrow> bool \<Rightarrow> bool" where
  "all_parked_from cell [] any = any"
| "all_parked_from cell (e # es) any =
     (if e_cell e \<noteq> cell \<or> \<not> entity_live e then all_parked_from cell es any
      else if e_state e \<noteq> Parked then False else all_parked_from cell es True)"

definition all_parked :: "u16 \<Rightarrow> etable \<Rightarrow> bool" where
  "all_parked cell t = all_parked_from cell (entities t) False"

text \<open>The slot \<^verbatim>\<open>create\<close> uses: the first free one above the floor, or one gained by growing.\<close>

definition create_slot :: "kmem \<times> etable \<Rightarrow> ((kmem \<times> etable) \<times> nat option) option" where
  "create_slot = (\<lambda>(k, t).
     case find (\<lambda>i. e_state (entities t ! i) = Free) [FIRST_ID..<length (entities t)] of
       Some i \<Rightarrow> Some ((k, t), Some i)
     | None \<Rightarrow>
         let want = max (ecapacity t) FIRST_ID; was = ecapacity t
         in do { ((k', s), ok) \<leftarrow> set_growing entity_ty want ENTITY_EMPTY (k, slots t);
                 if \<not> ok then Some ((k', t\<lparr>slots := s\<rparr>), None)
                 else do { s' \<leftarrow> for_each (\<lambda>i s. map_option fst (funded_set entity_ty i ENTITY_EMPTY s)) [was..<cap s] s;
                           Some ((k', t\<lparr>slots := s'\<rparr>), Some want) } })"

definition ecreate :: "u16 \<Rightarrow> u16 \<Rightarrow> kmem \<times> etable \<Rightarrow> ((kmem \<times> etable) \<times> nat option) option" where
  "ecreate cell ctx s =
     do { ((k, t), r) \<leftarrow> create_slot s;
          case r of None \<Rightarrow> Some ((k, t), None)
          | Some ix \<Rightarrow>
              do { (t', ok) \<leftarrow> eset ix (ENTITY_EMPTY\<lparr>e_cell := cell, e_context := ctx, e_state := Runnable\<rparr>) t;
                   Some ((k, t'), if ok then Some ix else None) } }"

definition fund_fp :: "nat \<Rightarrow> owner \<Rightarrow> nat \<Rightarrow> kmem \<times> etable \<Rightarrow> ((kmem \<times> etable) \<times> bool) option" where
  "fund_fp ix ow len = (\<lambda>(k, t).
     do { r \<leftarrow> eget t ix;
          case r of None \<Rightarrow> Some ((k, t), False)
          | Some e \<Rightarrow>
              if e_fp e \<noteq> 0 then Some ((k, t), True)
              else if FRAME_SIZE < len then None
              else do { (k', a) \<leftarrow> alloc_frame ow k;
                        case a of None \<Rightarrow> Some ((k', t), False)
                        | Some va \<Rightarrow> map_option (\<lambda>(t', ok). ((k', t'), ok)) (eset ix (e\<lparr>e_fp := va\<rparr>) t) } })"

definition release_fp :: "nat \<Rightarrow> owner \<Rightarrow> kmem \<times> etable \<Rightarrow> (kmem \<times> etable) option" where
  "release_fp ix ow = (\<lambda>(k, t).
     do { r \<leftarrow> eget t ix;
          case r of None \<Rightarrow> Some (k, t)
          | Some e \<Rightarrow>
              if e_fp e = 0 then Some (k, t)
              else do { k' \<leftarrow> free_frame (e_fp e) ow k;
                        map_option (\<lambda>(t', _). (k', t')) (eset ix (e\<lparr>e_fp := 0\<rparr>) t) } })"

definition fp_of :: "etable \<Rightarrow> nat \<Rightarrow> nat option" where
  "fp_of t ix = map_option (\<lambda>r. case r of Some e \<Rightarrow> e_fp e | None \<Rightarrow> 0) (eget t ix)"

definition owner_of :: "etable \<Rightarrow> nat \<Rightarrow> u16 option" where
  "owner_of t ix = map_option (\<lambda>r. case r of Some e \<Rightarrow> e_owner e | None \<Rightarrow> NO_CPU) (eget t ix)"

definition live_id :: "etable \<Rightarrow> nat \<Rightarrow> bool option" where
  "live_id t ix = map_option (\<lambda>r. case r of Some e \<Rightarrow> entity_live e | None \<Rightarrow> False) (eget t ix)"

text \<open>
  The shape the transitions share: read the slot, refuse with false when it does not exist or the guard
  of \<open>f\<close> fails, and write the new entity.
\<close>

definition transition :: "nat \<Rightarrow> (entity \<Rightarrow> entity option) \<Rightarrow> etable \<Rightarrow> (etable \<times> bool) option" where
  "transition ix f t =
     do { r \<leftarrow> eget t ix;
          case r of None \<Rightarrow> Some (t, False)
          | Some e \<Rightarrow> (case f e of None \<Rightarrow> Some (t, False)
                       | Some e' \<Rightarrow> map_option (\<lambda>(t', _). (t', True)) (eset ix e' t)) }"

definition sat_add_u :: "nat \<Rightarrow> nat \<Rightarrow> nat \<Rightarrow> nat" where
  "sat_add_u bits a b = min (a + b) (2 ^ bits - 1)"

definition claim_to :: "u16 \<Rightarrow> entity \<Rightarrow> entity option" where
  "claim_to cpu e = Some (e\<lparr>e_owner := cpu\<rparr>)"

definition eclaim :: "nat \<Rightarrow> u16 \<Rightarrow> etable \<Rightarrow> (etable \<times> bool) option" where
  "eclaim ix cpu = transition ix (claim_to cpu)"

definition leave_from :: "u16 \<Rightarrow> nat \<Rightarrow> bool \<Rightarrow> entity \<Rightarrow> entity option" where
  "leave_from cpu ns involuntary e =
     (if e_inside e \<noteq> cpu then None
      else let e1 = e\<lparr>e_inside := NOT_INSIDE, e_service_ns := sat_add_u 64 (e_service_ns e) ns\<rparr>
           in Some (if involuntary then e1\<lparr>e_preemptions := sat_add_u 32 (e_preemptions e1) 1\<rparr> else e1))"

definition leave :: "nat \<Rightarrow> u16 \<Rightarrow> nat \<Rightarrow> bool \<Rightarrow> etable \<Rightarrow> (etable \<times> bool) option" where
  "leave ix cpu ns involuntary = transition ix (leave_from cpu ns involuntary)"

definition leave_cpu :: "u16 \<Rightarrow> nat \<Rightarrow> bool \<Rightarrow> etable \<Rightarrow> (etable \<times> nat option) option" where
  "leave_cpu cpu ns involuntary t =
     (case find_idx (\<lambda>e. e_inside e = cpu) (entities t) of
        None \<Rightarrow> Some (t, None)
      | Some ix \<Rightarrow> map_option (\<lambda>(t', _). (t', Some ix)) (leave ix cpu ns involuntary t))"

definition pickable :: "etable \<Rightarrow> nat \<Rightarrow> u16 \<Rightarrow> bool option" where
  "pickable t ix cpu = map_option (\<lambda>r. case r of
       Some e \<Rightarrow> e_state e = Runnable \<and> (e_owner e = NO_CPU \<or> e_owner e = cpu) \<and> e_inside e = NOT_INSIDE
     | None \<Rightarrow> False) (eget t ix)"

definition enter :: "nat \<Rightarrow> u16 \<Rightarrow> etable \<Rightarrow> (etable \<times> (enter_error + unit)) option" where
  "enter ix cpu t =
     do { r \<leftarrow> eget t ix;
          case r of None \<Rightarrow> Some (t, Inl NoEntity)
          | Some e \<Rightarrow>
              if e_state e = Free then Some (t, Inl NoEntity)
              else if e_inside e \<noteq> NOT_INSIDE then Some (t, Inl Occupied)
              else if e_owner e \<noteq> NO_CPU \<and> e_owner e \<noteq> cpu then Some (t, Inl NotYours)
              else if e_state e \<noteq> Runnable then Some (t, Inl NotRunnable)
              else map_option (\<lambda>(t', _). (t', Inr ()))
                     (eset ix (e\<lparr>e_owner := cpu, e_inside := cpu, e_dispatches := sat_add_u 32 (e_dispatches e) 1\<rparr>) t) }"

definition park_on :: "u32 \<Rightarrow> entity \<Rightarrow> entity option" where
  "park_on wk e = (if e_state e \<noteq> Runnable then None else Some (e\<lparr>e_state := Parked, e_wake := wk\<rparr>))"

definition park :: "nat \<Rightarrow> u32 \<Rightarrow> etable \<Rightarrow> (etable \<times> bool) option" where
  "park ix wk t = (if wk = NO_WAKE then Some (t, False) else transition ix (park_on wk) t)"

definition wake_up :: "entity \<Rightarrow> entity option" where
  "wake_up e = (if e_state e \<noteq> Parked then None else Some (e\<lparr>e_state := Runnable, e_wake := NO_WAKE\<rparr>))"

definition wake :: "nat \<Rightarrow> etable \<Rightarrow> (etable \<times> bool) option" where
  "wake ix = transition ix wake_up"

definition exit_from :: "entity \<Rightarrow> entity option" where
  "exit_from e = (if \<not> entity_live e then None
     else Some (e\<lparr>e_state := Exited, e_wake := NO_WAKE, e_inside := NOT_INSIDE\<rparr>))"

definition eexit :: "nat \<Rightarrow> etable \<Rightarrow> (etable \<times> bool) option" where
  "eexit ix = transition ix exit_from"

definition release_slot :: "entity \<Rightarrow> entity option" where
  "release_slot e = (if e_inside e \<noteq> NOT_INSIDE \<or> entity_live e then None else Some ENTITY_EMPTY)"

definition erelease :: "nat \<Rightarrow> etable \<Rightarrow> (etable \<times> bool) option" where
  "erelease ix = transition ix release_slot"

definition steal_to :: "u16 \<Rightarrow> entity \<Rightarrow> entity option" where
  "steal_to cpu e = (if e_inside e \<noteq> NOT_INSIDE \<or> e_state e \<noteq> Runnable \<or> e_owner e = cpu then None
     else Some (e\<lparr>e_owner := cpu\<rparr>))"

definition steal :: "nat \<Rightarrow> u16 \<Rightarrow> etable \<Rightarrow> (etable \<times> bool) option" where
  "steal ix cpu = transition ix (steal_to cpu)"

definition force_free :: "nat \<Rightarrow> etable \<Rightarrow> (etable \<times> bool) option" where
  "force_free ix = eset ix ENTITY_EMPTY"

section \<open>The checker\<close>

definition state_fault :: "nat \<Rightarrow> entity \<Rightarrow> violation option" where
  "state_fault ix e = (case e_state e of
       Free \<Rightarrow> if e_owner e \<noteq> NO_CPU \<or> e_inside e \<noteq> NOT_INSIDE then Some (I7FreeNotClean ix) else None
     | Exited \<Rightarrow> if e_wake e \<noteq> NO_WAKE \<or> e_inside e \<noteq> NOT_INSIDE then Some (I9ExitedNotClean ix) else None
     | Parked \<Rightarrow> if e_wake e = NO_WAKE then Some (I4ParkedNoWake ix) else None
     | Runnable \<Rightarrow> None)"

definition slot_fault :: "etable \<Rightarrow> nat \<Rightarrow> violation option" where
  "slot_fault t ix =
     (let es = entities t; e = es ! ix
      in case state_fault ix e of
           Some v \<Rightarrow> Some v
         | None \<Rightarrow>
             if ecpus t \<noteq> 0 \<and> e_owner e \<noteq> NO_CPU \<and> ecpus t \<le> e_owner e then Some (I2BadOwner ix (e_owner e))
             else if e_inside e \<noteq> NOT_INSIDE
             then if e_owner e \<noteq> e_inside e then Some (I3InsideNotOwned ix (e_owner e) (e_inside e))
                  else case find (\<lambda>j. e_inside (es ! j) = e_inside e) [ix + 1..<length es] of
                         Some other \<Rightarrow> Some (I1EnteredTwice other (e_inside e) (e_inside (es ! other)))
                       | None \<Rightarrow> None
             else None)"

fun first_fault :: "etable \<Rightarrow> nat list \<Rightarrow> violation option" where
  "first_fault t [] = None"
| "first_fault t (i # is) = (case slot_fault t i of Some v \<Rightarrow> Some v | None \<Rightarrow> first_fault t is)"

definition echeck :: "etable \<Rightarrow> violation option" where
  "echeck t = first_fault t [0..<length (entities t)]"

section \<open>The reset between runs\<close>

definition reset_slot :: "nat \<Rightarrow> kmem \<times> etable \<Rightarrow> (kmem \<times> etable) option" where
  "reset_slot ix = (\<lambda>(k, t).
     do { r \<leftarrow> eget t ix;
          (k1, t1) \<leftarrow> (case r of None \<Rightarrow> Some (k, t) | Some e \<Rightarrow> release_fp ix (owner_cell (unat (e_cell e))) (k, t));
          map_option (\<lambda>(t2, _). (k1, t2)) (force_free ix t1) })"

definition reset_table :: "u16 \<Rightarrow> kmem \<times> etable \<Rightarrow> (kmem \<times> etable) option" where
  "reset_table cpus s =
     do { s' \<leftarrow> for_each reset_slot [0..<ecapacity (snd s)] s;
          Some (etable_init OWNER_KERNEL cpus s') }"

section \<open>The invariant\<close>

definition entity_ok :: "u16 \<Rightarrow> entity \<Rightarrow> bool" where
  "entity_ok cpus e \<longleftrightarrow>
     (e_state e = Free \<longrightarrow> e_owner e = NO_CPU \<and> e_inside e = NOT_INSIDE) \<and>
     (e_state e = Exited \<longrightarrow> e_wake e = NO_WAKE \<and> e_inside e = NOT_INSIDE) \<and>
     (e_state e = Parked \<longrightarrow> e_wake e \<noteq> NO_WAKE) \<and>
     (cpus \<noteq> 0 \<and> e_owner e \<noteq> NO_CPU \<longrightarrow> e_owner e < cpus) \<and>
     (e_inside e \<noteq> NOT_INSIDE \<longrightarrow> e_owner e = e_inside e)"

definition apart :: "entity list \<Rightarrow> bool" where
  "apart es \<longleftrightarrow> (\<forall>i < length es. \<forall>j < length es. i \<noteq> j \<and> e_inside (es ! i) \<noteq> NOT_INSIDE \<longrightarrow>
     e_inside (es ! j) \<noteq> e_inside (es ! i))"

lemma case_option_None: "(case r of Some x \<Rightarrow> Some (g x) | None \<Rightarrow> None) = None \<longleftrightarrow> r = None"
  by (simp split: option.splits)

lemma slot_fault_None:
  "slot_fault t i = None \<longleftrightarrow> entity_ok (ecpus t) (entities t ! i) \<and>
     (e_inside (entities t ! i) \<noteq> NOT_INSIDE \<longrightarrow>
        (\<forall>j. i < j \<and> j < length (entities t) \<longrightarrow> e_inside (entities t ! j) \<noteq> e_inside (entities t ! i)))"
  by (cases "e_state (entities t ! i)")
     (auto simp: slot_fault_def state_fault_def entity_ok_def Let_def case_option_None find_upt_None Suc_le_eq not_le)

lemma first_fault_None: "first_fault t is = None \<longleftrightarrow> (\<forall>i \<in> set is. slot_fault t i = None)"
  by (induction "is") (auto split: option.splits)

lemma echeck_None: "echeck t = None \<longleftrightarrow> (\<forall>e \<in> set (entities t). entity_ok (ecpus t) e) \<and> apart (entities t)"
proof -
  have "echeck t = None \<longleftrightarrow> (\<forall>i < length (entities t). slot_fault t i = None)"
    by (auto simp: echeck_def first_fault_None)
  also have "\<dots> \<longleftrightarrow> (\<forall>e \<in> set (entities t). entity_ok (ecpus t) e) \<and> apart (entities t)"
    unfolding slot_fault_None apart_def all_set_conv_all_nth by (metis nat_neq_iff)
  finally show ?thesis .
qed

text \<open>
  The FP areas: every area is an allocated frame with one reference that neither another entity nor the
  table itself holds, and every cell is charged for its areas on top of the table's own frames.
\<close>

definition fp_slot :: "entity \<Rightarrow> nat" where
  "fp_slot e = ledger_slot (owner_cell (unat (e_cell e)))"

definition fp_share :: "nat \<Rightarrow> entity list \<Rightarrow> nat" where
  "fp_share s es = (\<Sum>e\<leftarrow>es. if e_fp e \<noteq> 0 \<and> fp_slot e = s then 1 else 0)"

definition fp_ok :: "kmem \<Rightarrow> entity funded \<Rightarrow> bool" where
  "fp_ok k t \<longleftrightarrow>
     (\<forall>e \<in> set (contents t). e_fp e \<noteq> 0 \<longrightarrow> refs_of k (e_fp e) = 1 \<and> e_fp e \<notin> set (held t)) \<and>
     (\<forall>i < length (contents t). \<forall>j < length (contents t). i \<noteq> j \<and> e_fp (contents t ! i) \<noteq> 0 \<longrightarrow>
        e_fp (contents t ! j) \<noteq> e_fp (contents t ! i)) \<and>
     (\<forall>s < MAX_OWNERS. fp_share s (contents t) + share_of s t \<le> CHARGED k ! s)"

definition ent_inv :: "kmem \<times> etable \<Rightarrow> bool" where
  "ent_inv = (\<lambda>(k, t). km_inv k \<and> funded_inv entity_ty k (slots t) \<and>
     (\<forall>e \<in> set (entities t). entity_ok (ecpus t) e) \<and> apart (entities t) \<and> fp_ok k (slots t))"

lemma apart_update:
  assumes "apart es" and "i < length es"
    and "e_inside e = NOT_INSIDE \<or> e_inside e = e_inside (es ! i) \<or> (\<forall>x \<in> set es. e_inside x \<noteq> e_inside e)"
  shows "apart (es[i := e])"
  using assms unfolding apart_def all_set_conv_all_nth
  by (auto simp: nth_list_update split: if_splits)

lemma fp_share_update:
  assumes "i < length es" and "e_fp e = 0 \<or> e_fp e = e_fp (es ! i) \<and> e_cell e = e_cell (es ! i)"
  shows "fp_share s (es[i := e]) \<le> fp_share s es"
proof -
  have e: "es = take i es @ es ! i # drop (Suc i) es" using assms(1) by (rule id_take_nth_drop)
  have "fp_share s es = fp_share s (take i es @ es ! i # drop (Suc i) es)" using e by simp
  then show ?thesis
    using assms by (auto simp: upd_conv_take_nth_drop fp_share_def fp_slot_def)
qed

lemma entity_ty_page [simp]: "0 < elems_per_page entity_ty"
  by (simp add: elems_per_page_def entity_ty_def FRAME_SIZE_def)

lemma ent_invD:
  assumes "ent_inv (k, t)"
  shows "km_inv k" "funded_inv entity_ty k (slots t)" "\<And>e. e \<in> set (entities t) \<Longrightarrow> entity_ok (ecpus t) e"
    "apart (entities t)" "fp_ok k (slots t)" "length (entities t) = cap (slots t)"
  using assms length_contents [of entity_ty k "slots t"] by (auto simp: ent_inv_def)

lemma eget_view: "ent_inv (k, t) \<Longrightarrow> eget t i = Some (nth_opt (entities t) i)"
  unfolding eget_def by (rule ft.get_view [OF ent_invD(2)])

lemma set_update_mem: "i < length xs \<Longrightarrow> y \<in> set (xs[i := x]) \<Longrightarrow> y = x \<or> y \<in> set xs"
  using set_update_subset_insert [of xs i x] by auto

lemma eset_inv:
  assumes inv: "ent_inv (k, t)" and i: "i < length (entities t)" and ok: "entity_ok (ecpus t) e"
    and ins: "e_inside e = NOT_INSIDE \<or> e_inside e = e_inside (entities t ! i) \<or>
      (\<forall>x \<in> set (entities t). e_inside x \<noteq> e_inside e)"
    and fp: "e_fp e = 0 \<or> e_fp e = e_fp (entities t ! i) \<and> e_cell e = e_cell (entities t ! i)"
  shows "\<exists>t'. eset i e t = Some (t', True) \<and> ent_inv (k, t') \<and> entities t' = (entities t)[i := e] \<and>
    ecpus t' = ecpus t"
proof -
  note inv = ent_invD [OF inv]
  from funded_set_inv [OF inv(2), of i e] obtain s where
    s: "funded_set entity_ty i e (slots t) = Some (s, i < cap (slots t))" "funded_inv entity_ty k s"
      "contents s = (entities t)[i := e]" "held s = held (slots t)" "pages s = pages (slots t)"
      "fowner s = fowner (slots t)" "dir s = dir (slots t)" by blast
  have share: "share_of m s = share_of m (slots t)" for m
    using s by (simp add: share_of_def frames_held_def)
  have same: "e_fp x \<noteq> 0 \<Longrightarrow> x = e \<or> x \<in> set (entities t) \<Longrightarrow> \<exists>y \<in> set (entities t). e_fp y = e_fp x" for x
    using fp i nth_mem [OF i] by auto
  have "fp_ok k s"
    unfolding fp_ok_def s(3,4) share
  proof (intro conjI ballI allI impI)
    fix x assume x: "x \<in> set ((entities t)[i := e])" "e_fp x \<noteq> 0"
    from set_update_mem [OF i x(1)] same [OF x(2)] obtain y where "y \<in> set (entities t)" "e_fp y = e_fp x" by blast
    with inv(5) x(2) show "refs_of k (e_fp x) = 1" "e_fp x \<notin> set (held (slots t))"
      unfolding fp_ok_def by (metis, metis)
  next
    fix a b assume "a < length ((entities t)[i := e])" "b < length ((entities t)[i := e])"
      and "a \<noteq> b \<and> e_fp ((entities t)[i := e] ! a) \<noteq> 0"
    with inv(5) fp i show "e_fp ((entities t)[i := e] ! b) \<noteq> e_fp ((entities t)[i := e] ! a)"
      unfolding fp_ok_def by (auto simp: nth_list_update)
  next
    fix m assume "m < MAX_OWNERS"
    with inv(5) fp_share_update [OF i fp, of m]
    show "fp_share m ((entities t)[i := e]) + share_of m (slots t) \<le> CHARGED k ! m"
      unfolding fp_ok_def by (meson add_le_mono1 order_trans)
  qed
  moreover have "entity_ok (ecpus t) x" if "x \<in> set ((entities t)[i := e])" for x
    using set_update_mem [OF i that] ok inv(3) by blast
  moreover have "apart ((entities t)[i := e])" by (rule apart_update [OF inv(4) i ins])
  ultimately have "ent_inv (k, t\<lparr>slots := s\<rparr>)" using inv(1) s by (simp add: ent_inv_def)
  then show ?thesis using s i inv(6) by (simp add: eset_def)
qed

text \<open>A transition may change what it likes of an entity as long as it keeps this.\<close>

definition keeps_entity :: "etable \<Rightarrow> nat \<Rightarrow> (entity \<Rightarrow> entity option) \<Rightarrow> bool" where
  "keeps_entity t i f \<longleftrightarrow> (\<forall>e e'. e = entities t ! i \<and> entity_ok (ecpus t) e \<and> f e = Some e' \<longrightarrow>
     entity_ok (ecpus t) e' \<and>
     (e_inside e' = NOT_INSIDE \<or> e_inside e' = e_inside e \<or> (\<forall>x \<in> set (entities t). e_inside x \<noteq> e_inside e')) \<and>
     (e_fp e' = 0 \<or> e_fp e' = e_fp e \<and> e_cell e' = e_cell e))"

lemma transition_inv:
  assumes inv: "ent_inv (k, t)" and f: "i < length (entities t) \<Longrightarrow> keeps_entity t i f"
  shows "\<exists>t' ok. transition i f t = Some (t', ok) \<and> ent_inv (k, t') \<and> ecpus t' = ecpus t \<and>
    (ok \<longleftrightarrow> i < length (entities t) \<and> f (entities t ! i) \<noteq> None) \<and>
    entities t' = (if ok then (entities t)[i := the (f (entities t ! i))] else entities t)"
proof (cases "i < length (entities t) \<and> f (entities t ! i) \<noteq> None")
  case False
  then show ?thesis using inv eget_view [OF inv, of i] by (auto simp: transition_def nth_opt_def)
next
  case True
  then obtain e' where e': "f (entities t ! i) = Some e'" and i: "i < length (entities t)" by auto
  have old: "entity_ok (ecpus t) (entities t ! i)" using ent_invD(3) [OF inv] i by simp
  from f [OF i] e' old have ok: "entity_ok (ecpus t) e'"
    and ins: "e_inside e' = NOT_INSIDE \<or> e_inside e' = e_inside (entities t ! i) \<or>
      (\<forall>x \<in> set (entities t). e_inside x \<noteq> e_inside e')"
    and fp: "e_fp e' = 0 \<or> e_fp e' = e_fp (entities t ! i) \<and> e_cell e' = e_cell (entities t ! i)"
    unfolding keeps_entity_def by blast+
  from eset_inv [OF inv i ok ins fp] e' i eget_view [OF inv, of i] show ?thesis
    by (auto simp: transition_def nth_opt_def)
qed

lemmas transition_defs = claim_to_def leave_from_def park_on_def wake_up_def exit_from_def release_slot_def
  steal_to_def entity_live_def

lemma NO_CPU_inside: "NO_CPU = NOT_INSIDE"
  by (simp add: NO_CPU_def NOT_INSIDE_def)

lemma entity_ok_EMPTY [simp]: "entity_ok cpus ENTITY_EMPTY"
  by (simp add: entity_ok_def ENTITY_EMPTY_def NO_CPU_def)

definition may_own :: "etable \<Rightarrow> u16 \<Rightarrow> bool" where
  "may_own t cpu \<longleftrightarrow> cpu = NO_CPU \<or> ecpus t = 0 \<or> cpu < ecpus t"

lemma keeps_leave: "keeps_entity t i (leave_from cpu ns involuntary)"
  by (auto simp: keeps_entity_def entity_ok_def leave_from_def Let_def split: if_splits)

lemma keeps_park: "wk \<noteq> NO_WAKE \<Longrightarrow> keeps_entity t i (park_on wk)"
  by (auto simp: keeps_entity_def entity_ok_def park_on_def split: if_splits)

lemma keeps_wake: "keeps_entity t i wake_up"
  by (auto simp: keeps_entity_def entity_ok_def wake_up_def split: if_splits)

lemma keeps_exit: "keeps_entity t i exit_from"
  by (auto simp: keeps_entity_def entity_ok_def exit_from_def split: if_splits)

lemma keeps_release: "keeps_entity t i release_slot"
  by (auto simp: keeps_entity_def release_slot_def split: if_splits) (simp_all add: ENTITY_EMPTY_def)

lemma keeps_steal: "may_own t cpu \<Longrightarrow> keeps_entity t i (steal_to cpu)"
  by (auto simp: keeps_entity_def entity_ok_def steal_to_def may_own_def split: if_splits)

lemma keeps_claim:
  "may_own t cpu \<Longrightarrow> e_state (entities t ! i) \<noteq> Free \<Longrightarrow>
   e_inside (entities t ! i) = NOT_INSIDE \<or> e_inside (entities t ! i) = cpu \<Longrightarrow> keeps_entity t i (claim_to cpu)"
  by (auto simp: keeps_entity_def entity_ok_def claim_to_def may_own_def)

lemma enter_cases:
  assumes inv: "ent_inv (k, t)" and cpu: "may_own t cpu" and out: "\<forall>x \<in> set (entities t). e_inside x \<noteq> cpu"
  shows "\<exists>t' r. enter i cpu t = Some (t', r) \<and> ent_inv (k, t') \<and> ecpus t' = ecpus t \<and>
    (case r of Inl _ \<Rightarrow> t' = t
     | Inr _ \<Rightarrow> i < length (entities t) \<and> e_state (entities t ! i) = Runnable \<and> e_inside (entities t ! i) = NOT_INSIDE \<and>
         (e_owner (entities t ! i) = NO_CPU \<or> e_owner (entities t ! i) = cpu) \<and>
         entities t' = (entities t)[i := (entities t ! i)\<lparr>e_owner := cpu, e_inside := cpu,
           e_dispatches := sat_add_u 32 (e_dispatches (entities t ! i)) 1\<rparr>])"
proof -
  let ?e = "entities t ! i"
  let ?e' = "?e\<lparr>e_owner := cpu, e_inside := cpu, e_dispatches := sat_add_u 32 (e_dispatches ?e) 1\<rparr>"
  show ?thesis
  proof (cases "i < length (entities t) \<and> e_state ?e = Runnable \<and> e_inside ?e = NOT_INSIDE \<and>
      (e_owner ?e = NO_CPU \<or> e_owner ?e = cpu)")
    case False
    then show ?thesis using inv eget_view [OF inv, of i] by (auto simp: enter_def nth_opt_def)
  next
    case True
    with ent_invD(3) [OF inv, of ?e] cpu have ok: "entity_ok (ecpus t) ?e'"
      by (auto simp: entity_ok_def may_own_def NO_CPU_inside)
    from True obtain t' where "eset i ?e' t = Some (t', True)" "ent_inv (k, t')"
      "entities t' = (entities t)[i := ?e']" "ecpus t' = ecpus t"
      using eset_inv [OF inv _ ok, of i] out by auto
    with True eget_view [OF inv, of i] show ?thesis by (auto simp: enter_def nth_opt_def)
  qed
qed

text \<open>Growing: the table's own frames change hands, the FP areas do not.\<close>

lemma fp_share_append: "fp_share s (xs @ ys) = fp_share s xs + fp_share s ys"
  by (simp add: fp_share_def)

lemma fp_share_none: "(\<And>e. e \<in> set es \<Longrightarrow> e_fp e = 0) \<Longrightarrow> fp_share s es = 0"
  by (induction es) (auto simp: fp_share_def)

lemma share_charge_acct:
  assumes acct: "table_acct ty (k, t) (k', t')" and le: "n + share_of s t \<le> CHARGED k ! s"
  shows "n + share_of s t' \<le> CHARGED k' ! s"
proof -
  from acct have a: "fowner t' = fowner t" "charged (fowner t) k' + frames_held t = charged (fowner t) k + frames_held t'"
    "others (fowner t) k' = others (fowner t) k" by (auto simp: table_acct_def)
  show ?thesis
  proof (cases "s = ledger_slot (fowner t)")
    case True
    then show ?thesis using a le by (simp add: charged_def share_of_def)
  next
    case False
    then show ?thesis using a le charged_others [OF a(3) False] by (simp add: share_of_def)
  qed
qed

lemma fp_ok_grow:
  assumes fp: "fp_ok k t" and acct: "table_acct ty (k, t) (k', t')"
    and c: "contents t' = contents t @ new" and new: "\<And>e. e \<in> set new \<Longrightarrow> e_fp e = 0"
  shows "fp_ok k' t'"
proof -
  from acct have fresh: "\<And>a. a \<in> set (held t') \<Longrightarrow> a \<notin> set (held t) \<Longrightarrow> refs_of k a = 0"
    and refs: "\<And>a. refs_of k' a = (if a \<in> set (held t') then 1 else if a \<in> set (held t) then 0 else refs_of k a)"
    by (auto simp: table_acct_def)
  have old: "refs_of k' (e_fp e) = 1 \<and> e_fp e \<notin> set (held t')" if "e \<in> set (contents t)" "e_fp e \<noteq> 0" for e
  proof -
    from fp that have "refs_of k (e_fp e) = 1" "e_fp e \<notin> set (held t)" unfolding fp_ok_def by blast+
    with fresh [of "e_fp e"] refs [of "e_fp e"] show ?thesis by auto
  qed
  have zero: "e_fp (contents t' ! i) = 0" if "i < length (contents t')" "\<not> i < length (contents t)" for i
    using that new [OF nth_mem] c by (simp add: nth_append)
  have "e_fp (contents t' ! j) \<noteq> e_fp (contents t' ! i)"
    if "i < length (contents t')" "j < length (contents t')" "i \<noteq> j" "e_fp (contents t' ! i) \<noteq> 0" for i j
  proof -
    have i: "i < length (contents t)" using that(1,4) zero [of i] by auto
    show ?thesis
    proof (cases "j < length (contents t)")
      case True
      with i c have "contents t' ! i = contents t ! i" "contents t' ! j = contents t ! j" by (simp_all add: nth_append)
      moreover have "e_fp (contents t ! j) \<noteq> e_fp (contents t ! i)" if "e_fp (contents t ! i) \<noteq> 0"
        using fp i True that \<open>i \<noteq> j\<close> unfolding fp_ok_def by blast
      ultimately show ?thesis using that(4) by simp
    next
      case False
      then show ?thesis using zero [of j] that by simp
    qed
  qed
  moreover have "fp_share s (contents t') + share_of s t' \<le> CHARGED k' ! s" if "s < MAX_OWNERS" for s
    using share_charge_acct [OF acct, of "fp_share s (contents t)" s] fp that fp_share_none [of new s] new c
    by (simp add: fp_ok_def fp_share_append)
  moreover have "refs_of k' (e_fp e) = 1 \<and> e_fp e \<notin> set (held t')" if "e \<in> set (contents t')" "e_fp e \<noteq> 0" for e
    using that old new c by auto
  ultimately show ?thesis unfolding fp_ok_def by blast
qed

lemma create_slot_inv:
  assumes inv: "ent_inv (k, t)"
  shows "\<exists>k' t' r. create_slot (k, t) = Some ((k', t'), r) \<and> ent_inv (k', t') \<and> ecpus t' = ecpus t \<and>
    length (entities t) \<le> length (entities t') \<and>
    entities t' = entities t @ replicate (length (entities t') - length (entities t)) ENTITY_EMPTY \<and>
    (case r of None \<Rightarrow> entities t' = entities t
     | Some i \<Rightarrow> FIRST_ID \<le> i \<and> i < length (entities t') \<and> e_state (entities t' ! i) = Free)"
proof (cases "find (\<lambda>i. e_state (entities t ! i) = Free) [FIRST_ID..<length (entities t)]")
  case (Some i)
  then have "create_slot (k, t) = Some ((k, t), Some i)" by (simp add: create_slot_def)
  moreover have "FIRST_ID \<le> i" "i < length (entities t)" "e_state (entities t ! i) = Free"
    using Some by (auto simp: find_upt_Some)
  ultimately show ?thesis using inv by auto
next
  case None
  note i = ent_invD [OF inv]
  let ?want = "max (ecapacity t) FIRST_ID" and ?s = "slots t"
  from set_growing_spec [OF i(1,2), of ?want ENTITY_EMPTY] obtain k' s ok where
    g: "set_growing entity_ty ?want ENTITY_EMPTY (k, ?s) = Some ((k', s), ok)" "table_acct entity_ty (k, ?s) (k', s)"
      "cap ?s \<le> cap s" "ok \<longrightarrow> ?want < cap s" "\<not> ok \<longrightarrow> held s = held ?s \<and> cap s = cap ?s"
      "contents s = (if ok then (contents ?s @ replicate (cap s - cap ?s) (ty_zero entity_ty))[?want := ENTITY_EMPTY] else contents ?s)"
    by blast
  have km: "km_inv k'" "funded_inv entity_ty k' s" using g(2) by (auto simp: table_acct_def)
  show ?thesis
  proof (cases ok)
    case False
    have "ent_inv (k', t\<lparr>slots := s\<rparr>)"
      using False i g(6) km fp_ok_grow [OF i(5) g(2), of "[]"] by (simp add: ent_inv_def)
    then show ?thesis using False None g(1,6) by (simp add: create_slot_def Let_def)
  next
    case True
    from set_each_spec [OF km(2), of ENTITY_EMPTY "[cap ?s..<cap s]"] obtain s' where
      s': "for_each (\<lambda>i s. map_option fst (funded_set entity_ty i ENTITY_EMPTY s)) [cap ?s..<cap s] s = Some s'"
        "funded_inv entity_ty k' s'" "contents s' = foldl (\<lambda>xs i. xs[i := ENTITY_EMPTY]) (contents s) [cap ?s..<cap s]"
        "held s' = held s" "cap s' = cap s" "pages s' = pages s" "fowner s' = fowner s" "dir s' = dir s" by blast
    let ?new = "replicate (cap s - cap ?s) ENTITY_EMPTY"
    have acct: "table_acct entity_ty (k, ?s) (k', s')"
      by (rule table_acct_upd [OF g(2) s'(2,4,6,8,7)])
    have cs: "contents s' = contents ?s @ ?new"
      using s'(3) update_range [of "cap ?s" "cap s" "contents s" ENTITY_EMPTY] g(3,6) True i(6) length_contents [OF km(2)]
      by (simp add: ecapacity_def take_update_cancel)
    have len: "length (contents s') = cap s" using length_contents [OF s'(2)] s'(5) by simp
    have out: "e_inside e = NOT_INSIDE" "e_fp e = 0" "entity_ok (ecpus t) e" "e_state e = Free"
      if "e \<in> set ?new" for e using that by (auto simp: ENTITY_EMPTY_def entity_ok_def NO_CPU_def)
    have "apart (contents ?s @ ?new)"
      using i(4) unfolding apart_def by (auto simp: nth_append ENTITY_EMPTY_def split: if_splits)
    then have "ent_inv (k', t\<lparr>slots := s'\<rparr>)"
      using km(1) s'(2) i(3) out(3) fp_ok_grow [OF i(5) acct cs out(2)] unfolding ent_inv_def by (auto simp: cs)
    moreover have "e_state (contents s' ! ?want) = Free"
      using True g(3,4) i(6) out(4) by (auto simp: cs nth_append ecapacity_def)
    moreover have "create_slot (k, t) = Some ((k', t\<lparr>slots := s'\<rparr>), Some ?want)"
      using None g(1) s'(1) True by (simp add: create_slot_def Let_def ecapacity_def)
    ultimately show ?thesis using g(3,4) True len cs i(6) by auto
  qed
qed

lemma ecreate_inv:
  assumes inv: "ent_inv (k, t)"
  shows "\<exists>k' t' r. ecreate cell ctx (k, t) = Some ((k', t'), r) \<and> ent_inv (k', t') \<and> ecpus t' = ecpus t \<and>
    (case r of None \<Rightarrow> entities t' = entities t
     | Some i \<Rightarrow> FIRST_ID \<le> i \<and> i < length (entities t') \<and> (i < length (entities t) \<longrightarrow> e_state (entities t ! i) = Free) \<and>
         entities t' = (entities t @ replicate (length (entities t') - length (entities t)) ENTITY_EMPTY)
           [i := ENTITY_EMPTY\<lparr>e_cell := cell, e_context := ctx, e_state := Runnable\<rparr>])"
proof -
  let ?e = "ENTITY_EMPTY\<lparr>e_cell := cell, e_context := ctx, e_state := Runnable\<rparr>"
  from create_slot_inv [OF inv] obtain k1 t1 r where
    c: "create_slot (k, t) = Some ((k1, t1), r)" "ent_inv (k1, t1)" "ecpus t1 = ecpus t"
      "length (entities t) \<le> length (entities t1)"
      "entities t1 = entities t @ replicate (length (entities t1) - length (entities t)) ENTITY_EMPTY"
      "case r of None \<Rightarrow> entities t1 = entities t
       | Some i \<Rightarrow> FIRST_ID \<le> i \<and> i < length (entities t1) \<and> e_state (entities t1 ! i) = Free" by blast
  show ?thesis
  proof (cases r)
    case None
    with c show ?thesis by (auto simp: ecreate_def)
  next
    case (Some i)
    have e: "entity_ok (ecpus t1) ?e" "e_inside ?e = NOT_INSIDE" "e_fp ?e = 0"
      by (simp_all add: entity_ok_def ENTITY_EMPTY_def)
    from Some c(6) have i: "FIRST_ID \<le> i" "i < length (entities t1)" "e_state (entities t1 ! i) = Free" by auto
    from eset_inv [OF c(2) i(2) e(1)] e obtain t2 where
      t2: "eset i ?e t1 = Some (t2, True)" "ent_inv (k1, t2)" "entities t2 = (entities t1)[i := ?e]" "ecpus t2 = ecpus t1"
      by blast
    have "ecreate cell ctx (k, t) = Some ((k1, t2), Some i)" using Some c(1) t2(1) by (simp add: ecreate_def)
    moreover have "e_state (entities t ! i) = Free" if "i < length (entities t)"
    proof -
      have "entities t1 ! i = entities t ! i" by (subst c(5)) (simp add: nth_append that)
      with i(3) show ?thesis by simp
    qed
    moreover have "length (entities t2) = length (entities t1)" using t2(3) by simp
    ultimately show ?thesis using t2 i c(3,5) by auto
  qed
qed

lemma fp_share_change:
  assumes "i < length es"
  shows "fp_share s (es[i := e]) + (if e_fp (es ! i) \<noteq> 0 \<and> fp_slot (es ! i) = s then 1 else 0) =
    fp_share s es + (if e_fp e \<noteq> 0 \<and> fp_slot e = s then 1 else 0)"
proof -
  have e: "es = take i es @ es ! i # drop (Suc i) es" using assms by (rule id_take_nth_drop)
  have "fp_share s es = fp_share s (take i es @ es ! i # drop (Suc i) es)" using e by simp
  then show ?thesis using assms by (auto simp: upd_conv_take_nth_drop fp_share_def)
qed

text \<open>Giving entity \<open>i\<close> the FP area \<open>a\<close>, or taking it away with \<open>a = 0\<close>.\<close>

lemma fp_change:
  assumes inv: "ent_inv (k, t)" and i: "i < length (entities t)" and km: "km_inv k'"
    and e: "e = (entities t ! i)\<lparr>e_fp := a\<rparr>"
    and refs: "\<And>b. b \<noteq> a \<Longrightarrow> b \<noteq> e_fp (entities t ! i) \<Longrightarrow> refs_of k' b = refs_of k b"
    and a: "a \<noteq> 0 \<Longrightarrow> refs_of k a = 0 \<and> refs_of k' a = 1"
    and chg: "\<And>s. s < MAX_OWNERS \<Longrightarrow>
      CHARGED k ! s + (if a \<noteq> 0 \<and> fp_slot (entities t ! i) = s then 1 else 0) \<le>
      CHARGED k' ! s + (if e_fp (entities t ! i) \<noteq> 0 \<and> fp_slot (entities t ! i) = s then 1 else 0)"
  shows "\<exists>t'. eset i e t = Some (t', True) \<and> ent_inv (k', t') \<and> entities t' = (entities t)[i := e] \<and> ecpus t' = ecpus t"
proof -
  let ?e = "entities t ! i" and ?s = "slots t"
  note I = ent_invD [OF inv]
  have fp: "\<And>x. x \<in> set (entities t) \<Longrightarrow> e_fp x \<noteq> 0 \<Longrightarrow> refs_of k (e_fp x) = 1 \<and> e_fp x \<notin> set (held ?s)"
    and dist: "\<And>p q. p < length (entities t) \<Longrightarrow> q < length (entities t) \<Longrightarrow> p \<noteq> q \<Longrightarrow> e_fp (entities t ! p) \<noteq> 0 \<Longrightarrow>
      e_fp (entities t ! q) \<noteq> e_fp (entities t ! p)"
    and share: "\<And>m. m < MAX_OWNERS \<Longrightarrow> fp_share m (entities t) + share_of m ?s \<le> CHARGED k ! m"
    using I(5) unfolding fp_ok_def by blast+
  have other: "refs_of k' b = refs_of k b" if "refs_of k b = 1" "b \<noteq> 0" "b \<noteq> e_fp ?e" for b
    using that refs [of b] a by (cases "b = a") auto
  have heldk: "refs_of k' b = refs_of k b" if "b \<in> set (held ?s)" for b
    using other [of b] held_refs [OF I(2) that] fp [of ?e] i that by (cases "e_fp ?e = 0") auto
  have fslot: "fp_slot e = fp_slot ?e" "e_fp e = a" using e by (simp_all add: fp_slot_def)
  have shares': "fp_share m ((entities t)[i := e]) + share_of m ?s \<le> CHARGED k' ! m" if "m < MAX_OWNERS" for m
    using fp_share_change [OF i, of m e] share [OF that] chg [OF that] fslot by (auto split: if_splits)
  from shares' [of "ledger_slot (fowner ?s)"] have "frames_held ?s \<le> charged (fowner ?s) k'"
    by (simp add: share_of_def charged_def)
  then have fi: "funded_inv entity_ty k' ?s"
    using funded_inv_transfer [OF I(2)] heldk held_refs(1) [OF I(2)] by simp
  from funded_set_inv [OF fi, of i e] obtain s where
    s: "funded_set entity_ty i e ?s = Some (s, i < cap ?s)" "funded_inv entity_ty k' s"
      "contents s = (entities t)[i := e]" "held s = held ?s" "pages s = pages ?s" "fowner s = fowner ?s" "dir s = dir ?s"
    by blast
  have sh: "share_of m s = share_of m ?s" for m using s by (simp add: share_of_def frames_held_def)
  have anew: "a \<notin> set (held ?s)" "e_fp x \<noteq> a" if "a \<noteq> 0" "x \<in> set (entities t)" for x
    using a [OF that(1)] held_refs(1) [OF I(2), of a] fp [OF that(2)] that(1) by auto
  have "fp_ok k' s"
    unfolding fp_ok_def s(3,4) sh
  proof (intro conjI ballI allI impI)
    fix x assume x: "x \<in> set ((entities t)[i := e])" "e_fp x \<noteq> 0"
    then obtain j where j: "j < length (entities t)" "x = (entities t)[i := e] ! j" by (auto simp: in_set_conv_nth)
    have "refs_of k' (e_fp x) = 1 \<and> e_fp x \<notin> set (held ?s)"
    proof (cases "j = i")
      case True
      then show ?thesis using j x(2) fslot a anew(1) [OF _ nth_mem [OF i]] i by auto
    next
      case False
      with j have y: "x \<in> set (entities t)" "x = entities t ! j" by auto
      then show ?thesis using fp [OF y(1) x(2)] other [of "e_fp x"] dist [OF j(1) i False] x(2) by auto
    qed
    then show "refs_of k' (e_fp x) = 1" "e_fp x \<notin> set (held ?s)" by auto
  next
    fix p q assume pq: "p < length ((entities t)[i := e])" "q < length ((entities t)[i := e])"
      "p \<noteq> q \<and> e_fp ((entities t)[i := e] ! p) \<noteq> 0"
    then show "e_fp ((entities t)[i := e] ! q) \<noteq> e_fp ((entities t)[i := e] ! p)"
      using dist [of p q] anew(2) [of "entities t ! p"] anew(2) [of "entities t ! q"] fslot(2) i
      by (auto simp: nth_list_update split: if_splits)
  next
    fix m assume "m < MAX_OWNERS" then show "fp_share m ((entities t)[i := e]) + share_of m ?s \<le> CHARGED k' ! m"
      by (rule shares')
  qed
  moreover have "entity_ok (ecpus t) x" if "x \<in> set ((entities t)[i := e])" for x
    using set_update_mem [OF i that] I(3) [of ?e] I(3) i e by (auto simp: entity_ok_def)
  moreover have "apart ((entities t)[i := e])" by (rule apart_update [OF I(4) i]) (simp add: e)
  ultimately have "ent_inv (k', t\<lparr>slots := s\<rparr>)" using km s by (simp add: ent_inv_def)
  then show ?thesis using s i I(6) by (simp add: eset_def)
qed

lemma fund_fp_inv:
  assumes inv: "ent_inv (k, t)" and len: "len \<le> FRAME_SIZE"
    and ow: "i < length (entities t) \<Longrightarrow> ow = owner_cell (unat (e_cell (entities t ! i)))"
  shows "\<exists>k' t' ok. fund_fp i ow len (k, t) = Some ((k', t'), ok) \<and> ent_inv (k', t') \<and> ecpus t' = ecpus t \<and>
    (ok \<longrightarrow> i < length (entities t) \<and> e_fp (entities t' ! i) \<noteq> 0) \<and>
    (\<not> ok \<longrightarrow> t' = t) \<and>
    (\<exists>a. entities t' = (if ok then (entities t)[i := (entities t ! i)\<lparr>e_fp := a\<rparr>] else entities t))"
proof (cases "i < length (entities t) \<and> e_fp (entities t ! i) = 0")
  case False
  have upd: "es[i := (es ! i)\<lparr>e_fp := e_fp (es ! i)\<rparr>] = es" for es :: "entity list" by simp
  have "fund_fp i ow len (k, t) = Some ((k, t), i < length (entities t))"
    using False eget_view [OF inv, of i] by (auto simp: fund_fp_def nth_opt_def)
  moreover have "\<exists>a. entities t = (if i < length (entities t) then (entities t)[i := (entities t ! i)\<lparr>e_fp := a\<rparr>]
      else entities t)" using upd [of "entities t"] by metis
  ultimately show ?thesis using inv False by (auto split: if_splits)
next
  case True
  let ?e = "entities t ! i"
  from alloc_frame_spec [OF ent_invD(1) [OF inv], of ow] obtain k' r where
    al: "alloc_frame ow k = Some (k', r)" "km_inv k'"
      "case r of None \<Rightarrow> refs_of k' = refs_of k \<and> CHARGED k' = CHARGED k
       | Some a \<Rightarrow> a \<noteq> 0 \<and> refs_of k a = 0 \<and> refs_of k' = (refs_of k)(a := 1) \<and>
           CHARGED k' = (CHARGED k)[ledger_slot ow := charged ow k + 1]" by blast
  have get: "eget t i = Some (Some ?e)" using True eget_view [OF inv, of i] by (simp add: nth_opt_def)
  note kl = km_inv_length [OF ent_invD(1) [OF inv]]
  show ?thesis
  proof (cases r)
    case None
    with al have same: "refs_of k' = refs_of k" "CHARGED k' = CHARGED k" by auto
    have "ent_inv (k', t)"
      using inv al(2) same funded_inv_same_refs [of entity_ty k "slots t" k']
      unfolding ent_inv_def fp_ok_def by (auto simp: charged_def)
    then show ?thesis using None al(1) get True len by (auto simp: fund_fp_def)
  next
    case (Some a)
    with al have a: "a \<noteq> 0" "refs_of k a = 0" "refs_of k' = (refs_of k)(a := 1)"
      "CHARGED k' = (CHARGED k)[ledger_slot ow := charged ow k + 1]" by auto
    have slot: "fp_slot ?e = ledger_slot ow" using ow True by (simp add: fp_slot_def)
    have chg: "CHARGED k ! s + (if a \<noteq> 0 \<and> fp_slot ?e = s then 1 else 0) \<le>
        CHARGED k' ! s + (if e_fp ?e \<noteq> 0 \<and> fp_slot ?e = s then 1 else 0)" if "s < MAX_OWNERS" for s
      using slot kl that by (simp add: a(4) charged_def nth_list_update)
    obtain t' where "eset i (?e\<lparr>e_fp := a\<rparr>) t = Some (t', True)" "ent_inv (k', t')"
      "entities t' = (entities t)[i := ?e\<lparr>e_fp := a\<rparr>]" "ecpus t' = ecpus t"
      using fp_change [OF inv _ al(2) refl _ _ chg] True a by auto
    then show ?thesis using Some al(1) get True len a(1) by (auto simp: fund_fp_def)
  qed
qed

lemma release_fp_inv:
  assumes inv: "ent_inv (k, t)"
    and ow: "i < length (entities t) \<Longrightarrow> ow = owner_cell (unat (e_cell (entities t ! i)))"
  shows "\<exists>k' t'. release_fp i ow (k, t) = Some (k', t') \<and> ent_inv (k', t') \<and> ecpus t' = ecpus t \<and>
    entities t' = (if i < length (entities t) then (entities t)[i := (entities t ! i)\<lparr>e_fp := 0\<rparr>] else entities t) \<and>
    refs_of k' = (if i < length (entities t) \<and> e_fp (entities t ! i) \<noteq> 0 then (refs_of k)(e_fp (entities t ! i) := 0)
      else refs_of k)"
proof (cases "i < length (entities t) \<and> e_fp (entities t ! i) \<noteq> 0")
  case False
  have upd: "e_fp e = 0 \<Longrightarrow> e\<lparr>e_fp := 0\<rparr> = e" for e :: entity by simp
  from False show ?thesis using inv eget_view [OF inv, of i] by (auto simp: release_fp_def nth_opt_def upd)
next
  case True
  let ?e = "entities t ! i"
  note I = ent_invD [OF inv] and kl = km_inv_length [OF ent_invD(1) [OF inv]]
  have get: "eget t i = Some (Some ?e)" using True eget_view [OF inv, of i] by (simp add: nth_opt_def)
  have slot: "fp_slot ?e = ledger_slot ow" using ow True by (simp add: fp_slot_def)
  have one: "refs_of k (e_fp ?e) = 1" using I(5) True unfolding fp_ok_def by simp
  have "fp_share (ledger_slot ow) (entities t) \<le> charged ow k"
    using I(5) unfolding fp_ok_def charged_def by (meson add_leD1 ledger_slot_less)
  moreover have "0 < fp_share (ledger_slot ow) (entities t)"
    using fp_share_change [of i "entities t" "ledger_slot ow" "?e\<lparr>e_fp := 0\<rparr>"] True slot by simp
  ultimately have pos: "0 < charged ow k" by simp
  from free_frame_spec [OF I(1) one pos] obtain k' where
    k': "free_frame (e_fp ?e) ow k = Some k'" "km_inv k'" "refs_of k' = (refs_of k)(e_fp ?e := 0)"
      "CHARGED k' = (CHARGED k)[ledger_slot ow := charged ow k - 1]" by blast
  have chg: "CHARGED k ! s + (if (0 :: nat) \<noteq> 0 \<and> fp_slot ?e = s then 1 else 0) \<le>
      CHARGED k' ! s + (if e_fp ?e \<noteq> 0 \<and> fp_slot ?e = s then 1 else 0)" if "s < MAX_OWNERS" for s
    using slot kl that pos True by (auto simp: k'(4) charged_def nth_list_update)
  obtain t' where "eset i (?e\<lparr>e_fp := 0\<rparr>) t = Some (t', True)" "ent_inv (k', t')"
      "entities t' = (entities t)[i := ?e\<lparr>e_fp := 0\<rparr>]" "ecpus t' = ecpus t"
    using fp_change [OF inv _ k'(2) refl _ _ chg] True k'(3) by auto
  then show ?thesis using k' get True by (auto simp: release_fp_def)
qed

lemma ent_inv_EMPTY_fields [simp]: "e_inside ENTITY_EMPTY = NOT_INSIDE" "e_fp ENTITY_EMPTY = 0" "e_state ENTITY_EMPTY = Free"
  by (simp_all add: ENTITY_EMPTY_def)

lemma force_free_inv:
  assumes inv: "ent_inv (k, t)"
  shows "\<exists>t' ok. force_free i t = Some (t', ok) \<and> ent_inv (k, t') \<and> ecpus t' = ecpus t \<and>
    entities t' = (entities t)[i := ENTITY_EMPTY]"
proof (cases "i < length (entities t)")
  case True
  then show ?thesis using eset_inv [OF inv True entity_ok_EMPTY] by (simp add: force_free_def) blast
next
  case False
  then have "funded_set entity_ty i ENTITY_EMPTY (slots t) = Some (slots t, False)"
    using slot_ptr_inv [OF ent_invD(2) [OF inv], of i] ent_invD(6) [OF inv] by (simp add: funded_set_def)
  with False inv show ?thesis by (auto simp: force_free_def eset_def list_update_beyond)
qed

lemma reset_slot_inv:
  assumes inv: "ent_inv (k, t)"
  shows "\<exists>k' t'. reset_slot i (k, t) = Some (k', t') \<and> ent_inv (k', t') \<and> ecpus t' = ecpus t \<and>
    entities t' = (entities t)[i := ENTITY_EMPTY]"
proof (cases "i < length (entities t)")
  case False
  then show ?thesis using force_free_inv [OF inv, of i] eget_view [OF inv, of i]
    by (auto simp: reset_slot_def nth_opt_def)
next
  case True
  from release_fp_inv [OF inv, of i "owner_cell (unat (e_cell (entities t ! i)))"] True obtain k1 t1 where
    1: "release_fp i (owner_cell (unat (e_cell (entities t ! i)))) (k, t) = Some (k1, t1)" "ent_inv (k1, t1)"
      "ecpus t1 = ecpus t" "entities t1 = (entities t)[i := (entities t ! i)\<lparr>e_fp := 0\<rparr>]" by auto
  from force_free_inv [OF 1(2), of i] obtain t2 ok where
    "force_free i t1 = Some (t2, ok)" "ent_inv (k1, t2)" "ecpus t2 = ecpus t1" "entities t2 = (entities t1)[i := ENTITY_EMPTY]"
    by blast
  with 1 True eget_view [OF inv, of i] show ?thesis by (auto simp: reset_slot_def nth_opt_def)
qed

lemma reset_slots_inv:
  assumes "ent_inv (k, t)"
  shows "\<exists>k' t'. for_each reset_slot is (k, t) = Some (k', t') \<and> ent_inv (k', t') \<and>
    entities t' = foldl (\<lambda>xs i. xs[i := ENTITY_EMPTY]) (entities t) is"
  using assms
proof (induction "is" arbitrary: k t)
  case Nil
  then show ?case by simp
next
  case (Cons i "is")
  from reset_slot_inv [OF Cons.prems, of i] obtain k1 t1 where
    1: "reset_slot i (k, t) = Some (k1, t1)" "ent_inv (k1, t1)" "entities t1 = (entities t)[i := ENTITY_EMPTY]" by blast
  from Cons.IH [OF 1(2)] 1 show ?case by auto
qed

lemma reset_table_inv:
  assumes inv: "ent_inv (k, t)"
  shows "\<exists>k' t'. reset_table cpus (k, t) = Some (k', t') \<and> ent_inv (k', t') \<and> ecpus t' = cpus \<and>
    entities t' = replicate (length (entities t)) ENTITY_EMPTY"
proof -
  from reset_slots_inv [OF inv, of "[0..<ecapacity t]"] obtain k1 t1 where
    1: "for_each reset_slot [0..<ecapacity t] (k, t) = Some (k1, t1)" "ent_inv (k1, t1)"
      "entities t1 = replicate (length (entities t)) ENTITY_EMPTY"
    using update_range [of 0 "length (entities t)" "entities t" ENTITY_EMPTY] ent_invD(6) [OF inv]
    by (auto simp: ecapacity_def)
  obtain k2 s where so: "funded_set_owner OWNER_KERNEL (k1, slots t1) = (k2, s)" by force
  note I = ent_invD [OF 1(2)] and o = funded_set_owner_inv [OF ent_invD(1,2) [OF 1(2)] so]
  have "fp_share m (contents s) + share_of m s \<le> CHARGED k2 ! m" if "m < MAX_OWNERS" for m
  proof -
    have "share_of m (slots t1) \<le> CHARGED k1 ! m" using I(5) that by (auto simp: fp_ok_def dest: add_leD2)
    moreover have "fp_share m (contents s) = 0" by (rule fp_share_none) (simp add: o(3) 1(3))
    ultimately show ?thesis using o(6) [of m] that by linarith
  qed
  moreover have "e_fp e = 0" if "e \<in> set (contents s)" for e using that by (simp add: o(3) 1(3))
  ultimately have "fp_ok k2 s" unfolding fp_ok_def by (metis nth_mem)
  then have "ent_inv (k2, t1\<lparr>slots := s, ecpus := cpus\<rparr>)"
    using o 1(3) by (auto simp: ent_inv_def apart_def)
  then show ?thesis using 1 so o(3) by (simp add: reset_table_def etable_init_def)
qed

section \<open>The table as a machine\<close>

datatype entity_op = OpCreate u16 u16 | OpFundFp nat owner nat | OpReleaseFp nat owner | OpEnter nat u16
  | OpLeave nat u16 nat bool | OpLeaveCpu u16 nat bool | OpPark nat u32 | OpWake nat | OpExit nat | OpRelease nat
  | OpSteal nat u16 | OpClaim nat u16 | OpForceFree nat | OpReset u16

definition on_entities :: "(etable \<Rightarrow> (etable \<times> 'r) option) \<Rightarrow> kmem \<times> etable \<Rightarrow> (kmem \<times> etable) option" where
  "on_entities f = (\<lambda>(k, t). map_option (\<lambda>(t', _). (k, t')) (f t))"

fun entity_exec :: "entity_op \<Rightarrow> kmem \<times> etable \<Rightarrow> (kmem \<times> etable) option" where
  "entity_exec (OpCreate cell ctx) s = map_option fst (ecreate cell ctx s)"
| "entity_exec (OpFundFp i ow len) s = map_option fst (fund_fp i ow len s)"
| "entity_exec (OpReleaseFp i ow) s = release_fp i ow s"
| "entity_exec (OpEnter i cpu) s = on_entities (enter i cpu) s"
| "entity_exec (OpLeave i cpu ns involuntary) s = on_entities (leave i cpu ns involuntary) s"
| "entity_exec (OpLeaveCpu cpu ns involuntary) s = on_entities (leave_cpu cpu ns involuntary) s"
| "entity_exec (OpPark i wk) s = on_entities (park i wk) s"
| "entity_exec (OpWake i) s = on_entities (wake i) s"
| "entity_exec (OpExit i) s = on_entities (eexit i) s"
| "entity_exec (OpRelease i) s = on_entities (erelease i) s"
| "entity_exec (OpSteal i cpu) s = on_entities (steal i cpu) s"
| "entity_exec (OpClaim i cpu) s = on_entities (eclaim i cpu) s"
| "entity_exec (OpForceFree i) s = on_entities (force_free i) s"
| "entity_exec (OpReset cpus) s = reset_table cpus s"

text \<open>
  What the callers owe: a CPU that exists and is inside nothing when it enters; a claim only on a slot
  in use that no other CPU is inside; an FP area funded and released on the account of its cell.
\<close>

definition on_slot :: "(entity \<Rightarrow> bool) \<Rightarrow> etable \<Rightarrow> nat \<Rightarrow> bool" where
  "on_slot P t i \<longleftrightarrow> (case nth_opt (entities t) i of None \<Rightarrow> True | Some e \<Rightarrow> P e)"

fun entity_pre :: "kmem \<times> etable \<Rightarrow> entity_op \<Rightarrow> bool" where
  "entity_pre (k, t) (OpEnter i cpu) = (may_own t cpu \<and> list_all (\<lambda>e. e_inside e \<noteq> cpu) (entities t))"
| "entity_pre (k, t) (OpSteal i cpu) = may_own t cpu"
| "entity_pre (k, t) (OpClaim i cpu) = (may_own t cpu \<and>
     on_slot (\<lambda>e. e_state e \<noteq> Free \<and> (e_inside e = NOT_INSIDE \<or> e_inside e = cpu)) t i)"
| "entity_pre (k, t) (OpFundFp i ow len) = (len \<le> FRAME_SIZE \<and> on_slot (\<lambda>e. ow = owner_cell (unat (e_cell e))) t i)"
| "entity_pre (k, t) (OpReleaseFp i ow) = on_slot (\<lambda>e. ow = owner_cell (unat (e_cell e))) t i"
| "entity_pre (k, t) _ = True"

lemma on_slot_nth: "on_slot P t i \<Longrightarrow> i < length (entities t) \<Longrightarrow> P (entities t ! i)"
  by (simp add: on_slot_def nth_opt_def)

lemma on_transition:
  assumes "ent_inv (k, t)" and "i < length (entities t) \<Longrightarrow> keeps_entity t i f"
  shows "\<exists>s'. on_entities (transition i f) (k, t) = Some s' \<and> ent_inv s'"
  using transition_inv [OF assms] by (auto simp: on_entities_def)

lemma leave_cpu_inv:
  assumes "ent_inv (k, t)"
  shows "\<exists>s'. on_entities (leave_cpu cpu ns involuntary) (k, t) = Some s' \<and> ent_inv s'"
proof (cases "find_idx (\<lambda>e. e_inside e = cpu) (entities t)")
  case None
  then show ?thesis using assms by (simp add: on_entities_def leave_cpu_def)
next
  case (Some i)
  from on_transition [OF assms keeps_leave, of i cpu ns involuntary] Some show ?thesis
    by (auto simp: on_entities_def leave_cpu_def leave_def)
qed

lemma entity_exec_inv:
  assumes inv: "ent_inv (k, t)" and pre: "entity_pre (k, t) x"
  shows "\<exists>s'. entity_exec x (k, t) = Some s' \<and> ent_inv s'"
proof (cases x)
  case (OpCreate c ctx)
  then show ?thesis using ecreate_inv [OF inv, of c ctx] by auto
next
  case (OpFundFp i ow len)
  with pre have "len \<le> FRAME_SIZE" "i < length (entities t) \<Longrightarrow> ow = owner_cell (unat (e_cell (entities t ! i)))"
    by (auto dest: on_slot_nth)
  from fund_fp_inv [OF inv this] OpFundFp show ?thesis by auto
next
  case (OpReleaseFp i ow)
  then show ?thesis using pre release_fp_inv [OF inv, of i ow] by (auto dest: on_slot_nth)
next
  case (OpEnter i cpu)
  then show ?thesis using pre enter_cases [OF inv, of cpu i] by (auto simp: on_entities_def list_all_iff)
next
  case (OpClaim i cpu)
  with pre have "i < length (entities t) \<Longrightarrow> keeps_entity t i (claim_to cpu)"
    by (auto intro!: keeps_claim dest: on_slot_nth)
  from on_transition [OF inv this] OpClaim show ?thesis by (simp add: eclaim_def)
next
  case (OpPark i wk)
  then show ?thesis
    using inv on_transition [OF inv keeps_park [of wk t i]] by (cases "wk = NO_WAKE") (auto simp: park_def on_entities_def)
next
  case (OpLeaveCpu cpu ns iv)
  then show ?thesis using leave_cpu_inv [OF inv] by simp
next
  case (OpForceFree i)
  then show ?thesis using force_free_inv [OF inv, of i] by (auto simp: on_entities_def)
next
  case (OpReset cpus)
  then show ?thesis using reset_table_inv [OF inv, of cpus] by auto
next
  case (OpSteal i cpu)
  then show ?thesis using pre on_transition [OF inv keeps_steal [of t cpu i]] by (simp add: steal_def)
next
  case (OpLeave i cpu ns iv)
  then show ?thesis using on_transition [OF inv keeps_leave] by (simp add: leave_def)
next
  case (OpWake i)
  then show ?thesis using on_transition [OF inv keeps_wake] by (simp add: wake_def)
next
  case (OpExit i)
  then show ?thesis using on_transition [OF inv keeps_exit] by (simp add: eexit_def)
next
  case (OpRelease i)
  then show ?thesis using on_transition [OF inv keeps_release] by (simp add: erelease_def)
qed

definition entity_step :: "kmem \<times> etable \<Rightarrow> entity_op \<Rightarrow> kmem \<times> etable" where
  "entity_step s x = (case entity_exec x s of Some s' \<Rightarrow> s' | None \<Rightarrow> s)"

interpretation em: machine entity_step entity_pre ent_inv
proof
  fix s x assume "ent_inv s" "entity_pre s x"
  then show "ent_inv (entity_step s x)"
    using entity_exec_inv [of "fst s" "snd s" x] by (auto simp: entity_step_def)
qed

lemma ent_inv_new: "km_inv k \<Longrightarrow> ent_inv (k, etable_new)"
  using funded_inv_new [OF entity_ty_page, of k]
  by (simp add: ent_inv_def etable_new_def apart_def fp_ok_def contents_def page_data_def funded_new_def fp_share_def
      share_of_def frames_held_def)

text \<open>A table with one runnable entity, on freshly booted memory.\<close>

lemma demo_entity: "\<exists>k t. ent_inv (k, t) \<and> pickable t 1 0 = Some True"
proof -
  obtain k where k: "km_inv k" "roomy k" using boot_memory by blast
  have inv: "ent_inv (k, etable_new)" by (rule ent_inv_new [OF k(1)])
  have fresh: "pages (slots etable_new) = 0" "entities etable_new = []" "ecapacity etable_new = 0"
    by (simp_all add: etable_new_def funded_new_def contents_def page_data_def ecapacity_def)
  have pp: "1 < elems_per_page entity_ty" by (simp add: elems_per_page_def entity_ty_def FRAME_SIZE_def)
  obtain k1 s1 where "set_growing entity_ty 1 ENTITY_EMPTY (k, slots etable_new) = Some ((k1, s1), True)"
    using set_growing_first [OF k ent_invD(2) [OF inv] fresh(1) pp, of ENTITY_EMPTY]
    by (auto simp: entity_ty_def FRAME_SIZE_def)
  then have grew: "create_slot (k, etable_new) \<noteq> Some (s, None)" for s
    using fresh by (auto simp: create_slot_def Let_def FIRST_ID_def bind_eq_Some_conv)
  from create_slot_inv [OF inv] obtain k1 t1 i where
    c: "create_slot (k, etable_new) = Some ((k1, t1), Some i)" using grew by (metis not_None_eq)
  have i: "i = 1" using c fresh by (auto simp: create_slot_def Let_def FIRST_ID_def bind_eq_Some_conv split: if_splits)
  from ecreate_inv [OF inv, of 7 0] obtain k2 t2 r where
    e: "ecreate 7 0 (k, etable_new) = Some ((k2, t2), r)" "ent_inv (k2, t2)"
      "case r of None \<Rightarrow> entities t2 = entities etable_new
       | Some i \<Rightarrow> FIRST_ID \<le> i \<and> i < length (entities t2) \<and>
           (i < length (entities etable_new) \<longrightarrow> e_state (entities etable_new ! i) = Free) \<and>
           entities t2 = (entities etable_new @ replicate (length (entities t2) - length (entities etable_new)) ENTITY_EMPTY)
             [i := ENTITY_EMPTY\<lparr>e_cell := 7, e_context := 0, e_state := Runnable\<rparr>]" by blast
  from create_slot_inv [OF inv] c have t1: "ent_inv (k1, t1)" "i < length (entities t1)" by auto
  have ee: "entity_ok (ecpus t1) (ENTITY_EMPTY\<lparr>e_cell := 7, e_context := 0, e_state := Runnable\<rparr>)"
    by (simp add: entity_ok_def ENTITY_EMPTY_def)
  from eset_inv [OF t1 ee] have "r = Some 1" using c e(1) i by (auto simp: ecreate_def)
  then have len: "1 < length (entities t2)" and "entities t2 = (replicate (length (entities t2)) ENTITY_EMPTY)
      [1 := ENTITY_EMPTY\<lparr>e_cell := 7, e_context := 0, e_state := Runnable\<rparr>]" using e(3) fresh(2) by auto
  then have "entities t2 ! 1 = ENTITY_EMPTY\<lparr>e_cell := 7, e_context := 0, e_state := Runnable\<rparr>"
    by (metis length_replicate nth_list_update_eq)
  then have "pickable t2 1 0 = Some True"
    using eget_view [OF e(2), of 1] len by (simp add: pickable_def nth_opt_def ENTITY_EMPTY_def)
  with e(2) show ?thesis by blast
qed

section \<open>Properties\<close>

text \<open>
  C7: starting from the empty table, after any sequence of the table's
  operations whose callers keep their side (\<^const>\<open>entity_pre\<close>), no operation panics, \<^verbatim>\<open>check\<close> finds no
  violation (no CPU inside two entities, none inside an entity it does not own, nothing parked without
  a wake source, exited and free slots clean, every owner an existing CPU), and no two entities share an
  FP save area.
\<close>

theorem entity_run_sound:
  assumes "km_inv k" and "ok_run entity_step entity_pre (k, etable_new) ops"
    and "run_ops entity_step (k, etable_new) ops = (k', t)"
  shows "echeck t = None \<and>
    (\<forall>x. entity_pre (k', t) x \<longrightarrow> entity_exec x (k', t) \<noteq> None) \<and>
    (\<forall>i < length (entities t). \<forall>j < length (entities t). i \<noteq> j \<and> e_fp (entities t ! i) \<noteq> 0 \<longrightarrow>
       e_fp (entities t ! i) \<noteq> e_fp (entities t ! j))"
proof -
  have inv: "ent_inv (k', t)"
    using em.run_inv [OF ent_inv_new [OF assms(1)] assms(2)] assms(3) by simp
  have "echeck t = None" using ent_invD(3,4) [OF inv] by (simp add: echeck_None)
  moreover have "entity_exec x (k', t) \<noteq> None" if "entity_pre (k', t) x" for x
    using entity_exec_inv [OF inv that] by auto
  moreover have "e_fp (entities t ! i) \<noteq> e_fp (entities t ! j)"
    if "i < length (entities t)" "j < length (entities t)" "i \<noteq> j" "e_fp (entities t ! i) \<noteq> 0" for i j
    using ent_invD(5) [OF inv] that unfolding fp_ok_def by metis
  ultimately show ?thesis by blast
qed

theorem entity_run_sound_witness:
  "\<exists>k k' t. km_inv k \<and>
     run_ops entity_step (k, etable_new) [OpReset 4, OpCreate 7 0, OpWake 1, OpReset 2] = (k', t) \<and> echeck t = None"
proof -
  obtain p where p: "pool_inv p" using pool_inv_boot [of 67108864 4096] by auto
  let ?s = "(kmem_new p, etable_new)" and ?ops = "[OpReset 4, OpCreate 7 0, OpWake 1, OpReset 2]"
  obtain k' t where run: "run_ops entity_step ?s ?ops = (k', t)" by force
  have "entity_pre s x" if "x \<in> set ?ops" for s x using that by (cases s) auto
  then have "ok_run entity_step entity_pre ?s ?ops" by simp
  from entity_run_sound [OF km_inv_new [OF p] this run] km_inv_new [OF p] run show ?thesis by blast
qed

text \<open>
  C10: \<^verbatim>\<open>enter\<close> and the pick predicate agree, and entering is exclusive. On a
  consistent table \<^verbatim>\<open>enter\<close> never panics and succeeds exactly when \<^verbatim>\<open>pickable\<close> says so; a refusal
  changes nothing; after a success every further \<^verbatim>\<open>enter\<close> of that entity, by any CPU, is refused as
  occupied, and the table says that CPU owns it.
\<close>

theorem enter_exclusive:
  assumes "ent_inv (k, t)" and "cpu \<noteq> NOT_INSIDE"
  shows "\<exists>t' r b. enter i cpu t = Some (t', r) \<and> pickable t i cpu = Some b \<and>
    (if b then r = Inr () \<and> owner_of t' i = Some cpu \<and> (\<forall>c. enter i c t' = Some (t', Inl Occupied)) else (\<exists>err. r = Inl err) \<and> t' = t)"
proof -
  let ?e = "entities t ! i"
  let ?e' = "?e\<lparr>e_owner := cpu, e_inside := cpu, e_dispatches := sat_add_u 32 (e_dispatches ?e) 1\<rparr>"
  note get = eget_view [OF assms(1), of i]
  show ?thesis
  proof (cases "i < length (entities t) \<and> e_state ?e = Runnable \<and> e_inside ?e = NOT_INSIDE \<and>
      (e_owner ?e = NO_CPU \<or> e_owner ?e = cpu)")
    case False
    then show ?thesis using get by (auto simp: enter_def pickable_def nth_opt_def)
  next
    case True
    from funded_set_inv [OF ent_invD(2) [OF assms(1)], of i ?e'] obtain s where
      s: "funded_set entity_ty i ?e' (slots t) = Some (s, i < cap (slots t))" "funded_inv entity_ty k s"
        "contents s = (entities t)[i := ?e']" by blast
    let ?t = "t\<lparr>slots := s\<rparr>"
    have set: "enter i cpu t = Some (?t, Inr ())" using True get s(1) by (auto simp: enter_def nth_opt_def eset_def)
    have get': "eget ?t i = Some (Some ?e')"
      using ft.get_view [OF s(2), of i] True s(3) by (simp add: eget_def nth_opt_def)
    have "enter i c ?t = Some (?t, Inl Occupied)" for c using get' True assms(2) by (simp add: enter_def)
    with set get get' True show ?thesis by (auto simp: pickable_def nth_opt_def owner_of_def)
  qed
qed

theorem enter_exclusive_witness:
  "\<exists>k t t'. ent_inv (k, t) \<and> enter 1 0 t = Some (t', Inr ()) \<and> enter 1 3 t' = Some (t', Inl Occupied)"
proof -
  obtain k t where t: "ent_inv (k, t)" "pickable t 1 0 = Some True" using demo_entity by blast
  from enter_exclusive [OF t(1), of 0 1] t(2) obtain t' where
    "enter 1 0 t = Some (t', Inr ())" "\<forall>c. enter 1 c t' = Some (t', Inl Occupied)"
    by (auto simp: NOT_INSIDE_def split: if_splits)
  with t(1) show ?thesis by blast
qed

end
