(* ===== verification/Runqueue.thy ===== *)
theory Runqueue
  imports Kmeta "HOL-Library.Product_Lexorder"
begin

text \<open>
  The ready queue of a CPU, \<^verbatim>\<open>kernel/src/sched/vcore.rs\<close>, and the burst score that weights it,
  \<^verbatim>\<open>kernel/src/sched/bore.rs\<close>: reserved work by hard deadline, fair work by virtual deadline behind the
  eligibility gate, residual work on slack, all found by one walk over a funded table.

  The 64-bit quantities are naturals; every operation of the source on them saturates, and so do the
  definitions here. The outer option is a panic. Reading or writing a slot of the table cannot panic
  while the table satisfies its invariant, so the walks use the total reads \<open>vc_ref\<close> and \<open>vc_set\<close>.
\<close>

section \<open>Burst scores\<close>

definition PENALTY_OFFSET_BITS :: nat where "PENALTY_OFFSET_BITS = 24"
definition PENALTY_SCALE :: nat where "PENALTY_SCALE = 1536"
definition SCORE_MAX :: nat where "SCORE_MAX = 39"
definition WEIGHT_BASE :: nat where "WEIGHT_BASE = 10240"

fun weight_steps :: "nat \<Rightarrow> nat \<Rightarrow> nat list" where
  "weight_steps 0 w = []"
| "weight_steps (Suc n) w = (if w = 0 then 1 else w) # weight_steps n (w * 4 div 5)"

definition build_weights :: "nat list" where
  "build_weights = weight_steps (SCORE_MAX + 1) WEIGHT_BASE"

definition weight_of :: "nat \<Rightarrow> nat" where
  "weight_of score = build_weights ! (min score SCORE_MAX)"

text \<open>\<^verbatim>\<open>64 - x.leading_zeros()\<close>: the position of the highest set bit, plus one.\<close>

fun bit_length :: "nat \<Rightarrow> nat" where
  "bit_length n = (if n = 0 then 0 else 1 + bit_length (n div 2))"

declare bit_length.simps [simp del]

definition score_of :: "nat \<Rightarrow> nat" where
  "score_of burst_ns =
     (let shifted = drop_bit PENALTY_OFFSET_BITS burst_ns
      in if shifted = 0 then 0
         else let scaled = drop_bit 10 (bit_length shifted * PENALTY_SCALE)
              in if SCORE_MAX < scaled then SCORE_MAX else scaled)"

record burst =
  accumulated_ns :: nat
  history :: nat
  yields :: nat
  peak_ns :: nat

definition burst_new :: burst where
  "burst_new = \<lparr> accumulated_ns = 0, history = 0, yields = 0, peak_ns = 0 \<rparr>"

definition burst_inherit :: "burst \<Rightarrow> burst" where
  "burst_inherit parent = \<lparr> accumulated_ns = 0, history = history parent, yields = 0, peak_ns = 0 \<rparr>"

definition burst_charge :: "nat \<Rightarrow> burst \<Rightarrow> burst" where
  "burst_charge delta b =
     (let a = sat_add (accumulated_ns b) delta
      in b\<lparr>accumulated_ns := a, peak_ns := (if peak_ns b < a then a else peak_ns b)\<rparr>)"

definition burst_relinquish :: "burst \<Rightarrow> burst" where
  "burst_relinquish b =
     (let latest = score_of (accumulated_ns b); decayed = history b - 1
      in b\<lparr>history := (if decayed < latest then latest else decayed), accumulated_ns := 0, yields := sat_add (yields b) 1\<rparr>)"

definition burst_preempted :: "burst \<Rightarrow> burst" where
  "burst_preempted b = b"

definition burst_score :: "burst \<Rightarrow> nat" where
  "burst_score b = (let live = score_of (accumulated_ns b) in if history b < live then live else history b)"

definition burst_weight :: "burst \<Rightarrow> nat" where
  "burst_weight b = weight_of (burst_score b)"

section \<open>Vcores\<close>

datatype vclass = VReserved | VFair | VResidual

record vcore =
  v_cell :: nat
  v_context :: nat
  v_class :: vclass
  vruntime :: nat
  vdeadline :: nat
  slice_ns :: nat
  hard_deadline_ns :: nat
  vburst :: burst
  v_runnable :: bool
  v_live :: bool
  runnable_since_ns :: nat
  v_service_ns :: nat
  v_dispatches :: nat

definition SLICE_NS :: nat where "SLICE_NS = 1000000"

definition VCORE_EMPTY :: vcore where
  "VCORE_EMPTY = \<lparr> v_cell = 0, v_context = 0, v_class = VFair, vruntime = 0, vdeadline = 0, slice_ns = SLICE_NS,
     hard_deadline_ns = usize_max, vburst = burst_new, v_runnable = False, v_live = False, runnable_since_ns = 0,
     v_service_ns = 0, v_dispatches = 0 \<rparr>"

definition vweight :: "vcore \<Rightarrow> nat" where
  "vweight v = (case v_class v of VReserved \<Rightarrow> WEIGHT_BASE | VFair \<Rightarrow> burst_weight (vburst v) | VResidual \<Rightarrow> 1)"

definition vready :: "vcore \<Rightarrow> bool" where
  "vready v \<longleftrightarrow> v_live v \<and> v_runnable v"

definition refresh_deadline :: "vcore \<Rightarrow> vcore" where
  "refresh_deadline v =
     (let w = max (vweight v) 1; scaled = sat_mul (slice_ns v) WEIGHT_BASE div w
      in v\<lparr>vdeadline := sat_add (vruntime v) (max scaled 1)\<rparr>)"

text \<open>The element type of the table; a zeroed slot is not live.\<close>

definition vcore_ty :: "vcore elem_ty" where
  "vcore_ty = \<lparr> ty_size = 96, ty_align = 8,
     ty_zero = \<lparr> v_cell = 0, v_context = 0, v_class = VReserved, vruntime = 0, vdeadline = 0, slice_ns = 0,
       hard_deadline_ns = 0, vburst = burst_new, v_runnable = False, v_live = False, runnable_since_ns = 0,
       v_service_ns = 0, v_dispatches = 0 \<rparr> \<rparr>"

datatype queue_error = NoMetadata | NoSuchVcore

type_synonym vcore_id = nat

record scan_result =
  s_reserved :: "(nat \<times> vcore_id) option"
  s_eligible :: "(nat \<times> vcore_id) option"
  s_ineligible :: "(nat \<times> vcore_id) option"
  s_residual :: "(nat \<times> vcore_id) option"
  s_earliest :: "nat option"
  s_defer :: bool

text \<open>Rust's \<^verbatim>\<open>Option::or\<close>.\<close>

definition or_else :: "'a option \<Rightarrow> 'a option \<Rightarrow> 'a option" where
  "or_else a b = (case a of Some x \<Rightarrow> Some x | None \<Rightarrow> b)"

definition pick_id :: "scan_result \<Rightarrow> vcore_id option" where
  "pick_id s = map_option snd (or_else (or_else (or_else (s_reserved s) (s_eligible s)) (s_ineligible s)) (s_residual s))"

record runq =
  vcores :: "vcore funded"
  high_water :: nat
  vtime :: nat
  total_weight :: nat
  current :: "vcore_id option"
  q_dispatches :: u64
  q_preemptions :: u64
  q_yields :: u64
  q_defers :: u64

definition runq_new :: runq where
  "runq_new = \<lparr> vcores = funded_new, high_water = 0, vtime = 0, total_weight = 0, current = None,
     q_dispatches = 0, q_preemptions = 0, q_yields = 0, q_defers = 0 \<rparr>"

section \<open>Operations\<close>

definition rq_release :: "kmem \<times> runq \<Rightarrow> (kmem \<times> runq) option" where
  "rq_release = (\<lambda>(k, q). do { (k', t) \<leftarrow> funded_release (k, vcores q); Some (k', runq_new\<lparr>vcores := t\<rparr>) })"

definition rq_init :: "owner \<Rightarrow> kmem \<times> runq \<Rightarrow> (kmem \<times> runq) option" where
  "rq_init ow s = do { (k, q) \<leftarrow> rq_release s;
     let (k', t) = funded_set_owner ow (k, vcores q) in Some (k', q\<lparr>vcores := t\<rparr>) }"

definition vc_ref :: "runq \<Rightarrow> nat \<Rightarrow> vcore option" where
  "vc_ref q i = (case funded_get vcore_ty (vcores q) i of Some r \<Rightarrow> r | None \<Rightarrow> None)"

definition rq_get :: "runq \<Rightarrow> vcore_id \<Rightarrow> vcore option" where
  "rq_get q i = (case vc_ref q i of Some v \<Rightarrow> if v_live v then Some v else None | None \<Rightarrow> None)"

definition vc_set :: "vcore_id \<Rightarrow> vcore \<Rightarrow> runq \<Rightarrow> runq" where
  "vc_set i v q = (case funded_set vcore_ty i v (vcores q) of Some (t, _) \<Rightarrow> q\<lparr>vcores := t\<rparr> | None \<Rightarrow> q)"

definition rq_iter :: "runq \<Rightarrow> (vcore_id \<times> vcore) list" where
  "rq_iter q = List.map_filter (\<lambda>i. map_option (Pair i) (rq_get q i)) [0..<high_water q]"

definition rq_len :: "runq \<Rightarrow> nat" where
  "rq_len q = length (rq_iter q)"

definition rq_runnable :: "runq \<Rightarrow> nat" where
  "rq_runnable q = length (filter (\<lambda>(_, v). vready v) (rq_iter q))"

definition free_index :: "runq \<Rightarrow> nat option" where
  "free_index q =
     (case find (\<lambda>i. \<not> (case vc_ref q i of Some v \<Rightarrow> v_live v | None \<Rightarrow> False)) [0..<high_water q] of
        Some i \<Rightarrow> Some i | None \<Rightarrow> Some (high_water q))"

definition admit ::
  "nat \<Rightarrow> nat \<Rightarrow> vclass \<Rightarrow> burst \<Rightarrow> nat \<Rightarrow> kmem \<times> runq \<Rightarrow> ((kmem \<times> runq) \<times> (queue_error + vcore_id)) option" where
  "admit cell ctx cls b now = (\<lambda>(k, q).
     case free_index q of None \<Rightarrow> Some ((k, q), Inl NoMetadata)
     | Some index \<Rightarrow>
         let v = refresh_deadline \<lparr> v_cell = cell, v_context = ctx, v_class = cls, vruntime = vtime q, vdeadline = 0,
               slice_ns = SLICE_NS, hard_deadline_ns = usize_max, vburst = b, v_runnable = True, v_live = True,
               runnable_since_ns = now, v_service_ns = 0, v_dispatches = 0 \<rparr>;
             q1 = q\<lparr>total_weight := sat_add (total_weight q) (vweight v)\<rparr>
         in do { ((k', t), ok) \<leftarrow> set_growing vcore_ty index v (k, vcores q1);
                 let q2 = q1\<lparr>vcores := t\<rparr> in
                 if \<not> ok then Some ((k', q2\<lparr>total_weight := total_weight q2 - vweight v\<rparr>), Inl NoMetadata)
                 else Some ((k', if high_water q2 \<le> index then q2\<lparr>high_water := index + 1\<rparr> else q2), Inr index) })"

definition rq_find :: "nat \<Rightarrow> nat \<Rightarrow> runq \<Rightarrow> vcore_id option" where
  "rq_find cell ctx q =
     map_option fst (find (\<lambda>(_, v). v_live v \<and> v_cell v = cell \<and> v_context v = ctx) (rq_iter q))"

definition any_of_cell :: "nat \<Rightarrow> runq \<Rightarrow> vcore_id option" where
  "any_of_cell cell q = map_option fst (find (\<lambda>(_, v). v_live v \<and> v_cell v = cell) (rq_iter q))"

definition clear_current :: "vcore_id \<Rightarrow> runq \<Rightarrow> runq" where
  "clear_current i q = (if current q = Some i then q\<lparr>current := None\<rparr> else q)"

definition rq_remove :: "vcore_id \<Rightarrow> runq \<Rightarrow> runq \<times> bool" where
  "rq_remove i q = (case rq_get q i of None \<Rightarrow> (q, False)
     | Some v \<Rightarrow>
         let q1 = (if vready v then q\<lparr>total_weight := total_weight q - vweight v\<rparr> else q)
         in (vc_set i VCORE_EMPTY (clear_current i q1), True))"

definition set_slice :: "vcore_id \<Rightarrow> nat \<Rightarrow> runq \<Rightarrow> runq \<times> (queue_error + unit)" where
  "set_slice i ns q = (case rq_get q i of None \<Rightarrow> (q, Inl NoSuchVcore)
     | Some v \<Rightarrow> (vc_set i (refresh_deadline (v\<lparr>slice_ns := max ns 1\<rparr>)) q, Inr ()))"

definition set_hard_deadline :: "vcore_id \<Rightarrow> nat \<Rightarrow> runq \<Rightarrow> runq \<times> (queue_error + unit)" where
  "set_hard_deadline i ns q = (case rq_get q i of None \<Rightarrow> (q, Inl NoSuchVcore)
     | Some v \<Rightarrow> (vc_set i (v\<lparr>hard_deadline_ns := ns\<rparr>) q, Inr ()))"

definition vwake :: "vcore_id \<Rightarrow> nat \<Rightarrow> runq \<Rightarrow> runq \<times> (queue_error + unit)" where
  "vwake i now q = (case rq_get q i of None \<Rightarrow> (q, Inl NoSuchVcore)
     | Some v \<Rightarrow>
         if v_runnable v then (q, Inr ())
         else let credit = sat_mul (slice_ns v) WEIGHT_BASE div max (vweight v) 1;
                  floor = vtime q - credit;
                  v1 = (if vruntime v < floor then v\<lparr>vruntime := floor\<rparr> else v);
                  v2 = refresh_deadline (v1\<lparr>v_runnable := True, runnable_since_ns := now\<rparr>)
              in (vc_set i v2 (q\<lparr>total_weight := sat_add (total_weight q) (vweight v2)\<rparr>), Inr ()))"

definition block :: "vcore_id \<Rightarrow> bool \<Rightarrow> runq \<Rightarrow> runq \<times> (queue_error + unit)" where
  "block i voluntary q = (case rq_get q i of None \<Rightarrow> (q, Inl NoSuchVcore)
     | Some v \<Rightarrow>
         let q1 = (if v_runnable v then q\<lparr>total_weight := total_weight q - vweight v\<rparr> else q);
             v1 = v\<lparr>v_runnable := False\<rparr>;
             (q2, v2) = (if voluntary then (q1\<lparr>q_yields := q_yields q1 + 1\<rparr>, v1\<lparr>vburst := burst_relinquish (vburst v1)\<rparr>)
                         else (q1, v1\<lparr>vburst := burst_preempted (vburst v1)\<rparr>))
         in (vc_set i (refresh_deadline v2) (clear_current i q2), Inr ()))"

text \<open>The weight changed from \<open>w\<close> to that of \<open>v\<close>: keep the cached total in step.\<close>

definition reweigh :: "nat \<Rightarrow> vcore \<Rightarrow> runq \<Rightarrow> runq" where
  "reweigh w v q =
     (let new_w = max (vweight v) 1
      in if new_w \<noteq> w \<and> v_runnable v then q\<lparr>total_weight := sat_add (total_weight q - w) new_w\<rparr> else q)"

definition relinquished :: "vcore_id \<Rightarrow> runq \<Rightarrow> runq" where
  "relinquished i q = (case rq_get q i of None \<Rightarrow> q
     | Some v \<Rightarrow>
         let v1 = v\<lparr>vburst := burst_relinquish (vburst v)\<rparr>;
             q1 = vc_set i (refresh_deadline v1) (clear_current i (reweigh (max (vweight v) 1) v1 q))
         in q1\<lparr>q_yields := q_yields q1 + 1\<rparr>)"

definition was_preempted :: "vcore_id \<Rightarrow> runq \<Rightarrow> runq" where
  "was_preempted i q = (case rq_get q i of None \<Rightarrow> q
     | Some v \<Rightarrow>
         let v1 = v\<lparr>vburst := burst_preempted (vburst v)\<rparr>;
             q1 = vc_set i (refresh_deadline v1) (clear_current i (reweigh (max (vweight v) 1) v1 q))
         in q1\<lparr>q_preemptions := q_preemptions q1 + 1\<rparr>)"

definition rq_charge :: "vcore_id \<Rightarrow> nat \<Rightarrow> runq \<Rightarrow> runq \<times> (queue_error + unit)" where
  "rq_charge i delta q = (case rq_get q i of None \<Rightarrow> (q, Inl NoSuchVcore)
     | Some v \<Rightarrow>
         let w = max (vweight v) 1;
             v1 = v\<lparr>v_service_ns := sat_add (v_service_ns v) delta, vburst := burst_charge delta (vburst v),
                    vruntime := sat_add (vruntime v) (sat_mul delta WEIGHT_BASE div w)\<rparr>;
             q1 = vc_set i (refresh_deadline v1) (reweigh w v1 q)
         in (q1\<lparr>vtime := sat_add (vtime q1) (sat_mul delta WEIGHT_BASE div max (total_weight q1) 1)\<rparr>, Inr ()))"

fun sync_from :: "nat list \<Rightarrow> nat \<Rightarrow> (nat \<Rightarrow> nat \<Rightarrow> bool) \<Rightarrow> runq \<Rightarrow> runq" where
  "sync_from [] now ready q = q"
| "sync_from (i # is) now ready q = sync_from is now ready (case vc_ref q i of
       None \<Rightarrow> q
     | Some v \<Rightarrow>
         if \<not> v_live v then q
         else let want = ready (v_cell v) (v_context v)
              in if want \<and> \<not> v_runnable v then fst (vwake i now q)
                 else if \<not> want \<and> v_runnable v then fst (block i True q) else q)"

definition sync_runnable :: "nat \<Rightarrow> (nat \<Rightarrow> nat \<Rightarrow> bool) \<Rightarrow> runq \<Rightarrow> runq" where
  "sync_runnable now ready q = sync_from [0..<high_water q] now ready q"

section \<open>Picking\<close>

definition eligible :: "runq \<Rightarrow> vcore \<Rightarrow> bool" where
  "eligible q v \<longleftrightarrow> vruntime v \<le> vtime q"

definition keep_earlier :: "vcore_id \<Rightarrow> nat \<Rightarrow> (nat \<times> vcore_id) option \<Rightarrow> (nat \<times> vcore_id) option" where
  "keep_earlier i k slot = (case slot of None \<Rightarrow> Some (k, i) | Some (bk, _) \<Rightarrow> if k < bk then Some (k, i) else slot)"

definition scan_one :: "runq \<Rightarrow> scan_result \<Rightarrow> vcore_id \<times> vcore \<Rightarrow> scan_result" where
  "scan_one q s = (\<lambda>(i, v).
     if \<not> vready v then s
     else case v_class v of
            VReserved \<Rightarrow> s\<lparr>s_reserved := keep_earlier i (hard_deadline_ns v) (s_reserved s)\<rparr>
          | VResidual \<Rightarrow> s\<lparr>s_residual := keep_earlier i (vdeadline v) (s_residual s)\<rparr>
          | VFair \<Rightarrow>
              let e = eligible q v;
                  s1 = (if e then s\<lparr>s_eligible := keep_earlier i (vdeadline v) (s_eligible s)\<rparr>
                        else s\<lparr>s_ineligible := keep_earlier i (vdeadline v) (s_ineligible s)\<rparr>)
              in if (case s_earliest s1 of None \<Rightarrow> True | Some k \<Rightarrow> vdeadline v < k)
                 then s1\<lparr>s_earliest := Some (vdeadline v), s_defer := \<not> e\<rparr> else s1)"

definition scan_empty :: scan_result where
  "scan_empty = \<lparr> s_reserved = None, s_eligible = None, s_ineligible = None, s_residual = None,
     s_earliest = None, s_defer = False \<rparr>"

definition rq_scan :: "runq \<Rightarrow> scan_result" where
  "rq_scan q = foldl (scan_one q) scan_empty (rq_iter q)"

definition pick :: "runq \<Rightarrow> vcore_id option" where
  "pick q = pick_id (rq_scan q)"

definition eligibility_would_defer :: "runq \<Rightarrow> bool" where
  "eligibility_would_defer q = s_defer (rq_scan q)"

definition dispatch :: "nat \<Rightarrow> runq \<Rightarrow> runq \<times> (vcore_id \<times> nat) option" where
  "dispatch now q =
     (let s = rq_scan q; q1 = (if s_defer s then q\<lparr>q_defers := q_defers q + 1\<rparr> else q)
      in case pick_id s of None \<Rightarrow> (q1, None)
         | Some i \<Rightarrow>
             (case rq_get q1 i of None \<Rightarrow> (q1, None)
              | Some v \<Rightarrow>
                  let delay = now - runnable_since_ns v;
                      q2 = vc_set i (v\<lparr>v_dispatches := sat_add (v_dispatches v) 1\<rparr>) q1;
                      q3 = (if current q2 \<noteq> None \<and> current q2 \<noteq> Some i then q2\<lparr>q_preemptions := q_preemptions q2 + 1\<rparr> else q2)
                  in (q3\<lparr>current := Some i, q_dispatches := q_dispatches q3 + 1\<rparr>, Some (i, delay))))"

definition should_preempt :: "runq \<Rightarrow> bool" where
  "should_preempt q = (case current q of
       None \<Rightarrow> pick q \<noteq> None
     | Some cur \<Rightarrow> (case pick q of Some next_id \<Rightarrow> next_id \<noteq> cur | None \<Rightarrow> False))"

definition FLOOR_NS :: nat where "FLOOR_NS = 50000"

definition current_slice_ns :: "runq \<Rightarrow> nat" where
  "current_slice_ns q = (case Option.bind (current q) (rq_get q) of
       None \<Rightarrow> SLICE_NS
     | Some cur \<Rightarrow>
         max (foldl (\<lambda>budget (_, v).
                if \<not> vready v \<or> vdeadline cur \<le> vdeadline v then budget
                else let real = sat_mul (vdeadline cur - vdeadline v) (max (vweight cur) 1) div WEIGHT_BASE
                     in if real < budget then real else budget)
              (slice_ns cur) (rq_iter q)) FLOOR_NS)"

section \<open>The checker\<close>

definition expected_weight :: "vcore \<Rightarrow> nat" where
  "expected_weight v = (case v_class v of VReserved \<Rightarrow> WEIGHT_BASE | VFair \<Rightarrow> weight_of (burst_score (vburst v)) | VResidual \<Rightarrow> 1)"

fun check_from :: "(vcore_id \<times> vcore) list \<Rightarrow> nat \<Rightarrow> nat option" where
  "check_from [] acc = Some acc"
| "check_from ((i, v) # vs) acc =
     (let acc' = (if vready v then sat_add acc (vweight v) else acc);
          expect = sat_add (vruntime v) (max (sat_mul (slice_ns v) WEIGHT_BASE div max (vweight v) 1) 1)
      in if vdeadline v \<noteq> expect then None
         else if vweight v \<noteq> expected_weight v then None
         else check_from vs acc')"

definition invariant_holds :: "runq \<Rightarrow> bool" where
  "invariant_holds q \<longleftrightarrow> check_from (rq_iter q) 0 = Some (total_weight q)"

section \<open>Scores and weights\<close>

lemma weight_steps_length [simp]: "length (weight_steps n w) = n"
  by (induction n w rule: weight_steps.induct) auto

lemma weight_steps_bounds: "x \<in> set (weight_steps n w) \<Longrightarrow> 1 \<le> x \<and> x \<le> max w 1"
proof (induction n w rule: weight_steps.induct)
  case (2 n w)
  have "w * 4 div 5 \<le> w" by simp
  with 2 show ?case by (fastforce split: if_splits)
qed simp

lemma weight_steps_sorted: "sorted_wrt (\<ge>) (weight_steps n w)"
proof (induction n w rule: weight_steps.induct)
  case (2 n w)
  have le: "w * 4 div 5 \<le> w" by simp
  have "x \<le> (if w = 0 then 1 else w)" if "x \<in> set (weight_steps n (w * 4 div 5))" for x
    using weight_steps_bounds [OF that] le by (auto split: if_splits)
  with 2 show ?case by simp
qed simp

lemma weight_of_bounds: "1 \<le> weight_of s" "weight_of s \<le> WEIGHT_BASE"
proof -
  have "weight_of s \<in> set build_weights" unfolding weight_of_def by (rule nth_mem) (simp add: build_weights_def)
  from weight_steps_bounds [OF this [unfolded build_weights_def]]
  show "1 \<le> weight_of s" "weight_of s \<le> WEIGHT_BASE" by (simp_all add: WEIGHT_BASE_def)
qed

lemma weight_of_antimono: "a \<le> b \<Longrightarrow> weight_of b \<le> weight_of a"
proof -
  assume "a \<le> b"
  then have le: "min a SCORE_MAX \<le> min b SCORE_MAX" by simp
  show ?thesis
  proof (cases "min a SCORE_MAX = min b SCORE_MAX")
    case True
    then show ?thesis by (simp add: weight_of_def)
  next
    case False
    with le have "min a SCORE_MAX < min b SCORE_MAX" using le_neq_implies_less by blast
    then show ?thesis
      using sorted_wrt_nth_less [OF weight_steps_sorted, of "min a SCORE_MAX" "min b SCORE_MAX" "SCORE_MAX + 1" WEIGHT_BASE]
      by (simp add: weight_of_def build_weights_def)
  qed
qed

lemma bit_length_mono: "a \<le> b \<Longrightarrow> bit_length a \<le> bit_length b"
proof (induction a arbitrary: b rule: bit_length.induct)
  case (1 n)
  show ?case
  proof (cases "n = 0")
    case True
    then show ?thesis by (simp add: bit_length.simps [of 0])
  next
    case False
    have "n div 2 \<le> b div 2" using 1(2) by (rule div_le_mono)
    from 1(1) [OF False this] False 1(2) show ?thesis by (simp add: bit_length.simps [of n] bit_length.simps [of b])
  qed
qed

lemma score_of_le: "score_of ns \<le> SCORE_MAX"
  by (simp add: score_of_def Let_def)

lemma score_of_mono: "a \<le> b \<Longrightarrow> score_of a \<le> score_of b"
proof -
  assume "a \<le> b"
  then have "drop_bit PENALTY_OFFSET_BITS a \<le> drop_bit PENALTY_OFFSET_BITS b" unfolding drop_bit_eq_div by (rule div_le_mono)
  then have "drop_bit 10 (bit_length (drop_bit PENALTY_OFFSET_BITS a) * PENALTY_SCALE)
      \<le> drop_bit 10 (bit_length (drop_bit PENALTY_OFFSET_BITS b) * PENALTY_SCALE)"
    unfolding drop_bit_eq_div [of 10] by (intro div_le_mono mult_le_mono1 bit_length_mono)
  with \<open>drop_bit PENALTY_OFFSET_BITS a \<le> drop_bit PENALTY_OFFSET_BITS b\<close> show ?thesis by (auto simp: score_of_def Let_def)
qed

lemma vweight_bounds: "1 \<le> vweight v" "vweight v \<le> WEIGHT_BASE"
  using weight_of_bounds by (auto simp: vweight_def burst_weight_def WEIGHT_BASE_def split: vclass.splits)

lemma vweight_max [simp]: "max (vweight v) (Suc 0) = vweight v"
  using vweight_bounds(1) [of v] by simp

section \<open>The invariant\<close>

abbreviation vlist :: "runq \<Rightarrow> vcore list" where
  "vlist q \<equiv> contents (vcores q)"

definition deadline_ok :: "vcore \<Rightarrow> bool" where
  "deadline_ok v \<longleftrightarrow>
     vdeadline v = sat_add (vruntime v) (max (sat_mul (slice_ns v) WEIGHT_BASE div max (vweight v) 1) 1)"

definition ready_weight :: "vcore \<Rightarrow> nat" where
  "ready_weight v = (if vready v then vweight v else 0)"

definition rq_inv :: "kmem \<times> runq \<Rightarrow> bool" where
  "rq_inv = (\<lambda>(k, q). km_inv k \<and> funded_inv vcore_ty k (vcores q) \<and> high_water q \<le> length (vlist q) \<and>
     (\<forall>v \<in> set (vlist q). v_live v \<longrightarrow> deadline_ok v) \<and>
     (\<forall>i. high_water q \<le> i \<and> i < length (vlist q) \<longrightarrow> \<not> v_live (vlist q ! i)) \<and>
     total_weight q = sum_list (map ready_weight (vlist q)) \<and>
     (\<forall>i. current q = Some i \<longrightarrow> i < length (vlist q) \<and> v_live (vlist q ! i)))"

lemma rq_invD:
  assumes "rq_inv (k, q)"
  shows "km_inv k" "funded_inv vcore_ty k (vcores q)" "high_water q \<le> length (vlist q)"
    "\<And>v. v \<in> set (vlist q) \<Longrightarrow> v_live v \<Longrightarrow> deadline_ok v"
    "\<And>i. high_water q \<le> i \<Longrightarrow> i < length (vlist q) \<Longrightarrow> \<not> v_live (vlist q ! i)"
    "total_weight q = sum_list (map ready_weight (vlist q))"
    "\<And>i. current q = Some i \<Longrightarrow> i < length (vlist q) \<and> v_live (vlist q ! i)"
  using assms by (auto simp: rq_inv_def)

lemma vweight_upd [simp]:
  "vweight (v\<lparr>vruntime := n\<rparr>) = vweight v" "vweight (v\<lparr>v_runnable := b\<rparr>) = vweight v"
  "vweight (v\<lparr>runnable_since_ns := n\<rparr>) = vweight v" "vweight (v\<lparr>slice_ns := n\<rparr>) = vweight v"
  "vweight (v\<lparr>hard_deadline_ns := n\<rparr>) = vweight v" "vweight (v\<lparr>v_dispatches := n\<rparr>) = vweight v"
  by (cases "v_class v"; simp add: vweight_def)+

lemma refresh_fields [simp]:
  "vweight (refresh_deadline v) = vweight v" "vready (refresh_deadline v) = vready v"
  "v_live (refresh_deadline v) = v_live v" "v_runnable (refresh_deadline v) = v_runnable v"
  "deadline_ok (refresh_deadline v)"
  by (cases "v_class v"; simp add: refresh_deadline_def vweight_def vready_def deadline_ok_def Let_def)+

lemma vcore_ty_page [simp]: "elems_per_page vcore_ty = 42"
  by (simp add: elems_per_page_def vcore_ty_def FRAME_SIZE_def)

lemma capacity_le: "funded_inv vcore_ty k t \<Longrightarrow> length (contents t) \<le> 21840"
  using length_contents [of vcore_ty k t] funded_invD [of vcore_ty k t] tab_invD(4) [of vcore_ty k t "pages t"]
  by (simp add: INLINE_PAGES_def PTRS_PER_DIR_def FRAME_SIZE_def)

lemma sum_ready_le: "sum_list (map ready_weight vs) \<le> length vs * WEIGHT_BASE"
  using vweight_bounds(2) by (induction vs) (auto simp: ready_weight_def intro: add_mono trans_le_add2)

lemma sum_ready_small: "length vs \<le> 21840 \<Longrightarrow> sum_list (map ready_weight vs) + WEIGHT_BASE \<le> usize_max"
proof -
  assume "length vs \<le> 21840"
  then have "length vs * WEIGHT_BASE \<le> 21840 * WEIGHT_BASE" by (rule mult_le_mono1)
  with sum_ready_le [of vs] show ?thesis by (simp add: WEIGHT_BASE_def usize_max_def)
qed

lemma vc_ref_view: "rq_inv (k, q) \<Longrightarrow> vc_ref q i = nth_opt (vlist q) i"
  using ft.get_view [OF rq_invD(2)] by (simp add: vc_ref_def)

lemma rq_get_view: "rq_inv (k, q) \<Longrightarrow> rq_get q i = Some v \<longleftrightarrow> i < length (vlist q) \<and> vlist q ! i = v \<and> v_live v"
  by (auto simp: rq_get_def vc_ref_view nth_opt_def split: option.splits)

lemma sum_ready_update:
  assumes "i < length vs"
  shows "sum_list (map ready_weight (vs[i := v])) + ready_weight (vs ! i) = sum_list (map ready_weight vs) + ready_weight v"
  using assms elem_le_sum_list [of i "map ready_weight vs"] by (simp add: map_update sum_list_update)

text \<open>Writing slot \<open>i\<close>, with the cached total moved by the change of weight.\<close>

lemma rq_inv_write:
  assumes inv: "rq_inv (k, q)" and i: "i < length (vlist q)" "i < high_water q"
    and q1: "vcores q1 = vcores q" "high_water q1 = high_water q"
    and v: "v_live v \<Longrightarrow> deadline_ok v"
    and tot: "total_weight q1 + ready_weight (vlist q ! i) = total_weight q + ready_weight v"
    and cur: "\<And>j. current q1 = Some j \<Longrightarrow> current q = Some j \<or> j = i" "current q1 = Some i \<Longrightarrow> v_live v"
  shows "rq_inv (k, vc_set i v q1)" "vlist (vc_set i v q1) = (vlist q)[i := v]"
    "vcores (vc_set i v q1\<lparr>current := c, q_yields := y\<rparr>) = vcores (vc_set i v q1)"
proof -
  note I = rq_invD [OF inv]
  from funded_set_inv [OF I(2), of i v] obtain t where
    t: "funded_set vcore_ty i v (vcores q) = Some (t, i < cap (vcores q))" "funded_inv vcore_ty k t"
      "contents t = (vlist q)[i := v]" by blast
  have eq: "vc_set i v q1 = q1\<lparr>vcores := t\<rparr>" using t(1) q1 by (simp add: vc_set_def)
  then show "vlist (vc_set i v q1) = (vlist q)[i := v]" using t(3) by simp
  have "\<forall>x \<in> set ((vlist q)[i := v]). v_live x \<longrightarrow> deadline_ok x"
    using set_update_subset_insert [of "vlist q" i v] I(4) v by blast
  moreover have "total_weight q1 = sum_list (map ready_weight ((vlist q)[i := v]))"
    using tot sum_ready_update [OF i(1), of v] I(6) by simp
  moreover have "j < length (vlist q) \<and> v_live ((vlist q)[i := v] ! j)" if "current q1 = Some j" for j
    using cur(1) [OF that] cur(2) that I(7) [of j] i(1) by (auto simp: nth_list_update)
  moreover have "\<not> v_live ((vlist q)[i := v] ! j)" if "high_water q \<le> j" "j < length (vlist q)" for j
    using I(5) [OF that] that i(2) by (simp add: nth_list_update)
  ultimately show "rq_inv (k, vc_set i v q1)"
    unfolding rq_inv_def eq using I(1,3) t(2,3) q1(2) by simp
qed (simp add: vc_set_def split: option.splits)

lemma rq_inv_fields:
  assumes "rq_inv (k, q)" and "vcores q' = vcores q" and "high_water q' = high_water q"
    and "total_weight q' = total_weight q" and "current q' = current q \<or> current q' = None"
  shows "rq_inv (k, q')"
  using assms unfolding rq_inv_def by (auto simp: split: option.splits)

lemma live_below: "rq_inv (k, q) \<Longrightarrow> i < length (vlist q) \<Longrightarrow> v_live (vlist q ! i) \<Longrightarrow> i < high_water q"
  using rq_invD(5) not_le by blast

lemma rq_get_cases:
  assumes inv: "rq_inv (k, q)"
  obtains (missing) "rq_get q i = None"
  | (found) v where "rq_get q i = Some v" and "i < length (vlist q)" and "i < high_water q" and "vlist q ! i = v"
      and "v_live v" and "deadline_ok v" and "ready_weight v \<le> total_weight q" and "total_weight q + WEIGHT_BASE \<le> usize_max"
proof (cases "rq_get q i")
  case None
  then show ?thesis by (rule missing)
next
  case (Some v)
  with rq_get_view [OF inv] have v: "i < length (vlist q)" "vlist q ! i = v" "v_live v" by auto
  have "ready_weight v \<le> total_weight q"
    using elem_le_sum_list [of i "map ready_weight (vlist q)"] v rq_invD(6) [OF inv] by simp
  then show ?thesis
    using found [OF Some v(1) _ v(2,3)] live_below [OF inv v(1)] v rq_invD(4) [OF inv, of v] nth_mem [OF v(1)]
      sum_ready_small [OF capacity_le [OF rq_invD(2) [OF inv]]] rq_invD(6) [OF inv] by simp
qed

lemma clear_current_fields [simp]:
  "vcores (clear_current i q) = vcores q" "high_water (clear_current i q) = high_water q"
  "total_weight (clear_current i q) = total_weight q" "vtime (clear_current i q) = vtime q"
  "current (clear_current i q) = Some j \<longleftrightarrow> current q = Some j \<and> j \<noteq> i"
  by (auto simp: clear_current_def)

lemma reweigh_fields [simp]:
  "vcores (reweigh w v q) = vcores q" "high_water (reweigh w v q) = high_water q"
  "current (reweigh w v q) = current q" "vtime (reweigh w v q) = vtime q"
  by (simp_all add: reweigh_def Let_def)

lemma reweigh_total:
  assumes "v_live v" and "v_live v'" and "v_runnable v' = v_runnable v" and "ready_weight v \<le> total_weight q"
    and "total_weight q + WEIGHT_BASE \<le> usize_max"
  shows "total_weight (reweigh (vweight v) v' q) + ready_weight v = total_weight q + ready_weight v'"
proof (cases "vweight v' \<noteq> vweight v \<and> v_runnable v'")
  case True
  then have "sat_add (total_weight q - vweight v) (vweight v') = total_weight q - vweight v + vweight v'"
    using assms(5) vweight_bounds(2) [of v'] by (intro sat_add_exact) simp
  then show ?thesis using assms True by (simp add: reweigh_def Let_def ready_weight_def vready_def)
next
  case False
  then show ?thesis using assms by (auto simp: reweigh_def Let_def ready_weight_def vready_def)
qed

lemma vc_set_fields [simp]:
  "high_water (vc_set i v q) = high_water q" "total_weight (vc_set i v q) = total_weight q"
  "current (vc_set i v q) = current q" "vtime (vc_set i v q) = vtime q"
  by (auto simp: vc_set_def split: option.splits)

section \<open>Every operation keeps the invariant\<close>

lemma rq_remove_inv:
  assumes inv: "rq_inv (k, q)"
  shows "rq_inv (k, fst (rq_remove i q))"
  using inv
proof (cases rule: rq_get_cases [of k q i])
  case (found v)
  let ?q = "if vready v then q\<lparr>total_weight := total_weight q - vweight v\<rparr> else q"
  have "rq_inv (k, vc_set i VCORE_EMPTY (clear_current i ?q))"
    using found by (intro rq_inv_write(1) [OF inv]) (auto simp: VCORE_EMPTY_def ready_weight_def vready_def split: if_splits)
  with found show ?thesis by (simp add: rq_remove_def Let_def)
qed (simp_all add: rq_remove_def inv)

lemma set_slice_inv:
  assumes inv: "rq_inv (k, q)"
  shows "rq_inv (k, fst (set_slice i ns q))"
  using inv
proof (cases rule: rq_get_cases [of k q i])
  case (found v)
  have "rq_inv (k, vc_set i (refresh_deadline (v\<lparr>slice_ns := max ns 1\<rparr>)) q)"
    using found by (intro rq_inv_write(1) [OF inv]) (auto simp: ready_weight_def vready_def)
  with found show ?thesis by (simp add: set_slice_def Let_def)
qed (simp_all add: set_slice_def inv)

lemma set_hard_deadline_inv:
  assumes inv: "rq_inv (k, q)"
  shows "rq_inv (k, fst (set_hard_deadline i ns q))"
  using inv
proof (cases rule: rq_get_cases [of k q i])
  case (found v)
  have "rq_inv (k, vc_set i (v\<lparr>hard_deadline_ns := ns\<rparr>) q)"
    using found by (intro rq_inv_write(1) [OF inv]) (auto simp: ready_weight_def vready_def deadline_ok_def)
  with found show ?thesis by (simp add: set_hard_deadline_def Let_def)
qed (simp_all add: set_hard_deadline_def inv)

lemma vwake_inv:
  assumes inv: "rq_inv (k, q)"
  shows "rq_inv (k, fst (vwake i now q))"
  using inv
proof (cases rule: rq_get_cases [of k q i])
  case (found v)
  show ?thesis
  proof (cases "v_runnable v")
    case True
    then show ?thesis using found inv by (simp add: vwake_def)
  next
    case False
    let ?f = "vtime q - sat_mul (slice_ns v) WEIGHT_BASE div vweight v"
    let ?v1 = "if vruntime v < ?f then v\<lparr>vruntime := ?f\<rparr> else v"
    define v2 where "v2 = refresh_deadline (?v1\<lparr>v_runnable := True, runnable_since_ns := now\<rparr>)"
    have w: "vweight v2 = vweight v" "v_live v2" "vready v2" "deadline_ok v2"
      using found(5) by (simp_all add: v2_def vready_def split: if_splits)
    let ?q = "q\<lparr>total_weight := sat_add (total_weight q) (vweight v2)\<rparr>"
    have add: "sat_add (total_weight q) (vweight v2) = total_weight q + vweight v2"
      using found(8) vweight_bounds(2) [of v] w(1) by (intro sat_add_exact) simp
    have "rq_inv (k, vc_set i v2 ?q)"
    proof (rule rq_inv_write(1) [OF inv found(2,3)])
      show "total_weight ?q + ready_weight (vlist q ! i) = total_weight q + ready_weight v2"
        using False found(4) w(3) add by (simp add: ready_weight_def vready_def)
    qed (use w in simp_all)
    moreover have "fst (vwake i now q) = vc_set i v2 ?q" using found(1) False by (simp add: vwake_def Let_def v2_def)
    ultimately show ?thesis by simp
  qed
qed (simp_all add: vwake_def inv)

lemma block_inv:
  assumes inv: "rq_inv (k, q)"
  shows "rq_inv (k, fst (block i voluntary q))"
  using inv
proof (cases rule: rq_get_cases [of k q i])
  case (found v)
  let ?q1 = "if v_runnable v then q\<lparr>total_weight := total_weight q - vweight v\<rparr> else q"
  let ?q2 = "if voluntary then ?q1\<lparr>q_yields := q_yields ?q1 + 1\<rparr> else ?q1"
  let ?v2 = "v\<lparr>v_runnable := False, vburst := (if voluntary then burst_relinquish (vburst v) else burst_preempted (vburst v))\<rparr>"
  have "rq_inv (k, vc_set i (refresh_deadline ?v2) (clear_current i ?q2))"
    using found by (intro rq_inv_write(1) [OF inv]) (auto simp: ready_weight_def vready_def split: if_splits)
  with found show ?thesis by (simp add: block_def Let_def split: if_splits)
qed (simp_all add: block_def inv)

lemma reburst_inv:
  assumes inv: "rq_inv (k, q)" and get: "rq_get q i = Some v" and same: "v_live v' = v_live v" "v_runnable v' = v_runnable v"
  shows "rq_inv (k, vc_set i (refresh_deadline v') (clear_current i (reweigh (vweight v) v' q)))"
    "rq_inv (k, vc_set i (refresh_deadline v') (reweigh (vweight v) v' q))"
proof -
  obtain 1: "i < length (vlist q)" "i < high_water q" "vlist q ! i = v" "v_live v"
    "ready_weight v \<le> total_weight q" "total_weight q + WEIGHT_BASE \<le> usize_max"
    using inv get by (cases rule: rq_get_cases [of k q i]) auto
  have rw: "ready_weight (refresh_deadline v') = ready_weight v'" by (simp add: ready_weight_def)
  note tot = reweigh_total [OF 1(4) _ same(2) 1(5,6)]
  show "rq_inv (k, vc_set i (refresh_deadline v') (clear_current i (reweigh (vweight v) v' q)))"
    "rq_inv (k, vc_set i (refresh_deadline v') (reweigh (vweight v) v' q))"
    using 1 same tot rw by (auto intro!: rq_inv_write(1) [OF inv])
qed

lemma relinquished_inv:
  assumes inv: "rq_inv (k, q)"
  shows "rq_inv (k, relinquished i q)"
  using inv
proof (cases rule: rq_get_cases [of k q i])
  case (found v)
  have "rq_inv (k, vc_set i (refresh_deadline (v\<lparr>vburst := burst_relinquish (vburst v)\<rparr>))
      (clear_current i (reweigh (vweight v) (v\<lparr>vburst := burst_relinquish (vburst v)\<rparr>) q)))"
    by (rule reburst_inv(1) [OF inv found(1)]) simp_all
  then have "rq_inv (k, relinquished i q)"
    by (rule rq_inv_fields) (simp_all add: relinquished_def found(1) Let_def)
  then show ?thesis .
qed (simp_all add: relinquished_def inv)

lemma was_preempted_inv:
  assumes inv: "rq_inv (k, q)"
  shows "rq_inv (k, was_preempted i q)"
  using inv
proof (cases rule: rq_get_cases [of k q i])
  case (found v)
  have "rq_inv (k, vc_set i (refresh_deadline (v\<lparr>vburst := burst_preempted (vburst v)\<rparr>))
      (clear_current i (reweigh (vweight v) (v\<lparr>vburst := burst_preempted (vburst v)\<rparr>) q)))"
    by (rule reburst_inv(1) [OF inv found(1)]) simp_all
  then have "rq_inv (k, was_preempted i q)"
    by (rule rq_inv_fields) (simp_all add: was_preempted_def found(1) Let_def)
  then show ?thesis .
qed (simp_all add: was_preempted_def inv)

lemma rq_charge_inv:
  assumes inv: "rq_inv (k, q)"
  shows "rq_inv (k, fst (rq_charge i delta q))"
  using inv
proof (cases rule: rq_get_cases [of k q i])
  case (found v)
  let ?v = "v\<lparr>v_service_ns := sat_add (v_service_ns v) delta, vburst := burst_charge delta (vburst v),
      vruntime := sat_add (vruntime v) (sat_mul delta WEIGHT_BASE div vweight v)\<rparr>"
  have "rq_inv (k, vc_set i (refresh_deadline ?v) (reweigh (vweight v) ?v q))"
    by (rule reburst_inv(2) [OF inv found(1)]) simp_all
  then show ?thesis by (rule rq_inv_fields) (simp_all add: rq_charge_def found(1) Let_def)
qed (simp_all add: rq_charge_def inv)

lemma sync_from_inv: "rq_inv (k, q) \<Longrightarrow> rq_inv (k, sync_from is now ready q)"
proof (induction "is" arbitrary: q)
  case (Cons i "is")
  then show ?case
    using vwake_inv [OF Cons.prems, of i now] block_inv [OF Cons.prems, of i True]
    by (auto simp: Let_def split: option.splits)
qed simp

lemma rq_release_inv:
  assumes inv: "rq_inv (k, q)"
  shows "\<exists>k' q'. rq_release (k, q) = Some (k', q') \<and> rq_inv (k', q') \<and> vlist q' = []"
proof -
  from funded_release_spec [OF rq_invD(1,2) [OF inv]] obtain k' t where
    r: "funded_release (k, vcores q) = Some (k', t)" "table_acct vcore_ty (k, vcores q) (k', t)" "cap t = 0" by blast
  have t: "km_inv k'" "funded_inv vcore_ty k' t" using r(2) by (auto simp: table_acct_def)
  have "contents t = []" using length_contents [OF t(2)] r(3) by simp
  with t r(1) show ?thesis by (simp add: rq_release_def rq_inv_def runq_new_def)
qed

lemma rq_init_inv:
  assumes inv: "rq_inv (k, q)"
  shows "\<exists>s'. rq_init ow (k, q) = Some s' \<and> rq_inv s'"
proof -
  from rq_release_inv [OF inv] obtain k1 q1 where
    1: "rq_release (k, q) = Some (k1, q1)" "rq_inv (k1, q1)" "vlist q1 = []" by blast
  obtain k2 t where so: "funded_set_owner ow (k1, vcores q1) = (k2, t)" by force
  note o = funded_set_owner_inv [OF rq_invD(1,2) [OF 1(2)] so]
  have "rq_inv (k2, q1\<lparr>vcores := t\<rparr>)" using 1(2) o(1-3) by (simp add: rq_inv_def)
  with 1(1) so show ?thesis by (simp add: rq_init_def)
qed

lemma free_index_spec:
  assumes inv: "rq_inv (k, q)"
  shows "\<exists>i \<le> high_water q. free_index q = Some i \<and> (i < length (vlist q) \<longrightarrow> \<not> v_live (vlist q ! i))"
proof (cases "find (\<lambda>i. \<not> (case vc_ref q i of Some v \<Rightarrow> v_live v | None \<Rightarrow> False)) [0..<high_water q]")
  case None
  then show ?thesis using rq_invD(5) [OF inv, of "high_water q"] by (auto simp: free_index_def)
next
  case (Some i)
  then have "free_index q = Some i" by (simp add: free_index_def)
  moreover have "i < high_water q" "i < length (vlist q) \<longrightarrow> \<not> v_live (vlist q ! i)"
    using Some by (auto simp: find_upt_Some vc_ref_view [OF inv] nth_opt_def split: if_splits)
  ultimately show ?thesis by auto
qed

lemma admit_inv:
  assumes inv: "rq_inv (k, q)"
  shows "\<exists>k' q' r. admit cell ctx cls b now (k, q) = Some ((k', q'), r) \<and> rq_inv (k', q') \<and>
    (case r of Inl _ \<Rightarrow> vlist q' = vlist q
     | Inr i \<Rightarrow> (\<exists>v. rq_get q' i = Some v \<and> vready v \<and> vruntime v = vtime q \<and> v_cell v = cell \<and> v_context v = ctx \<and>
         v_class v = cls \<and> vburst v = b))"
proof -
  note I = rq_invD [OF inv]
  from free_index_spec [OF inv] obtain i where i: "i \<le> high_water q" "free_index q = Some i"
    "i < length (vlist q) \<longrightarrow> \<not> v_live (vlist q ! i)" by blast
  define v where "v = refresh_deadline \<lparr> v_cell = cell, v_context = ctx, v_class = cls, vruntime = vtime q, vdeadline = 0,
               slice_ns = SLICE_NS, hard_deadline_ns = usize_max, vburst = b, v_runnable = True, v_live = True,
               runnable_since_ns = now, v_service_ns = 0, v_dispatches = 0 \<rparr>"
  have v: "v_live v" "vready v" "deadline_ok v" by (simp_all add: v_def vready_def)
  have vf: "vruntime v = vtime q" "v_cell v = cell" "v_context v = ctx" "v_class v = cls" "vburst v = b"
    by (simp_all add: v_def refresh_deadline_def Let_def)
  from set_growing_spec [OF I(1,2), of i v] obtain k' t ok where
    g: "set_growing vcore_ty i v (k, vcores q) = Some ((k', t), ok)" "table_acct vcore_ty (k, vcores q) (k', t)"
      "cap (vcores q) \<le> cap t" "ok \<longrightarrow> i < cap t" "\<not> ok \<longrightarrow> held t = held (vcores q) \<and> cap t = cap (vcores q)"
      "contents t = (if ok then (vlist q @ replicate (cap t - cap (vcores q)) (ty_zero vcore_ty))[i := v] else vlist q)"
    by blast
  have t: "km_inv k'" "funded_inv vcore_ty k' t" using g(2) by (auto simp: table_acct_def)
  have small: "total_weight q + WEIGHT_BASE \<le> usize_max"
    using sum_ready_small [OF capacity_le [OF I(2)]] I(6) by simp
  then have add: "sat_add (total_weight q) (vweight v) = total_weight q + vweight v"
    using vweight_bounds(2) [of v] by (intro sat_add_exact) simp
  show ?thesis
  proof (cases ok)
    case False
    let ?q = "q\<lparr>total_weight := total_weight q, vcores := t\<rparr>"
    have "rq_inv (k', ?q)" using inv t g(6) False by (simp add: rq_inv_def)
    moreover have "admit cell ctx cls b now (k, q) = Some ((k', ?q), Inl NoMetadata)"
      using i(2) g(1) False add by (simp add: admit_def Let_def v_def [symmetric])
    ultimately show ?thesis using g(6) False by simp
  next
    case True
    let ?q = "q\<lparr>total_weight := total_weight q + vweight v, vcores := t, high_water := max (high_water q) (i + 1)\<rparr>"
    have c: "contents t = (vlist q @ replicate (cap t - cap (vcores q)) (ty_zero vcore_ty))[i := v]" using g(6) True by simp
    have len: "length (vlist q) = cap (vcores q)" "length (contents t) = cap t"
      using length_contents [OF I(2)] length_contents [OF t(2)] by simp_all
    let ?new = "vlist q @ replicate (cap t - cap (vcores q)) (ty_zero vcore_ty)"
    have zero: "\<not> v_live (ty_zero vcore_ty)" "ready_weight (ty_zero vcore_ty) = 0"
      by (simp_all add: vcore_ty_def ready_weight_def vready_def)
    have old: "ready_weight (?new ! i) = 0"
      using i(3) zero True g(4) len by (auto simp: nth_append ready_weight_def vready_def)
    have il: "i < length ?new" using True g(3,4) len by simp
    have sum: "sum_list (map ready_weight (contents t)) = total_weight q + vweight v"
      using sum_ready_update [OF il, of v] old zero I(6) v by (simp add: c ready_weight_def sum_list_replicate)
    have live: "v_live x \<longrightarrow> deadline_ok x" if "x \<in> set (contents t)" for x
      using that set_update_subset_insert [of ?new i v] v I(4) zero unfolding c by auto
    have dead: "\<not> v_live (contents t ! j)" if "max (high_water q) (i + 1) \<le> j" "j < length (contents t)" for j
      using that I(5) [of j] zero by (auto simp: c nth_list_update nth_append)
    have cur: "j < length (contents t) \<and> v_live (contents t ! j)" if "current q = Some j" for j
      using I(7) [OF that] v il len g(3) by (auto simp: c nth_list_update nth_append)
    have "rq_inv (k', ?q)"
      using t sum live dead cur True g(4) I(3) len g(3) by (auto simp: rq_inv_def)
    moreover have "admit cell ctx cls b now (k, q) = Some ((k', ?q), Inr i)"
      using i(1,2) g(1) True add by (cases "high_water q \<le> i") (auto simp: admit_def Let_def v_def [symmetric] max_def)
    moreover have "rq_get ?q i = Some v"
      using rq_get_view [OF calculation(1), of i v] v il by (simp add: c)
    ultimately show ?thesis using v vf by auto
  qed
qed

section \<open>The walk\<close>

lemma rq_iter_mem:
  assumes "rq_inv (k, q)"
  shows "(i, v) \<in> set (rq_iter q) \<longleftrightarrow> i < length (vlist q) \<and> vlist q ! i = v \<and> v_live v"
proof -
  have "(i, v) \<in> set (rq_iter q) \<longleftrightarrow> i < high_water q \<and> rq_get q i = Some v"
    by (force simp: rq_iter_def List.map_filter_def)
  then show ?thesis using rq_get_view [OF assms] live_below [OF assms, of i] by auto
qed

lemma rq_iter_sorted: "sorted_wrt (<) (map fst (rq_iter q))"
proof -
  have "map fst (List.map_filter (\<lambda>i. map_option (Pair i) (f i)) xs) = filter (\<lambda>i. f i \<noteq> None) xs" for f :: "nat \<Rightarrow> vcore option" and xs
    by (induction xs) (auto simp: List.map_filter_def)
  then show ?thesis by (simp add: rq_iter_def sorted_wrt_filter)
qed

lemma sum_iter:
  assumes "rq_inv (k, q)"
  shows "sum_list (map (ready_weight \<circ> snd) (rq_iter q)) = total_weight q"
proof -
  let ?w = "\<lambda>i. case rq_get q i of Some v \<Rightarrow> ready_weight v | None \<Rightarrow> 0"
  have "sum_list (map (ready_weight \<circ> snd) (List.map_filter (\<lambda>i. map_option (Pair i) (rq_get q i)) xs)) = sum_list (map ?w xs)" for xs
    by (induction xs) (auto simp: List.map_filter_def split: option.splits)
  then have "sum_list (map (ready_weight \<circ> snd) (rq_iter q)) = sum_list (map ?w [0..<high_water q])" by (simp add: rq_iter_def)
  also have "\<dots> = sum_list (map ?w [0..<length (vlist q)])"
  proof -
    have "?w i = 0" if "high_water q \<le> i" "i < length (vlist q)" for i
      using rq_invD(5) [OF assms that] rq_get_view [OF assms, of i] by (auto split: option.splits)
    then have "sum_list (map ?w [high_water q..<length (vlist q)]) = 0" by (auto intro!: sum_list_0 [THEN trans, rotated] simp: sum_list_eq_0_iff)
    then show ?thesis using upt_add_eq_append [of 0 "high_water q" "length (vlist q) - high_water q"] rq_invD(3) [OF assms] by simp
  qed
  also have "map ?w [0..<length (vlist q)] = map ready_weight (vlist q)"
  proof -
    have "?w i = ready_weight (vlist q ! i)" if "i < length (vlist q)" for i
      using that rq_get_view [OF assms, of i] by (cases "v_live (vlist q ! i)") (auto simp: ready_weight_def vready_def split: option.splits)
    then show ?thesis by (intro map_upt_eqI) simp_all
  qed
  finally show ?thesis using rq_invD(6) [OF assms] by (simp add: comp_def)
qed

lemma check_from_ok:
  "(\<And>i v. (i, v) \<in> set vs \<Longrightarrow> deadline_ok v) \<Longrightarrow> acc + sum_list (map (ready_weight \<circ> snd) vs) \<le> usize_max \<Longrightarrow>
   check_from vs acc = Some (acc + sum_list (map (ready_weight \<circ> snd) vs))"
proof (induction vs arbitrary: acc)
  case (Cons x vs)
  obtain i v where x: "x = (i, v)" by force
  have "vweight v = expected_weight v" by (cases "v_class v") (simp_all add: vweight_def expected_weight_def burst_weight_def)
  moreover have "deadline_ok v" using Cons.prems(1) x by auto
  ultimately have "check_from ((i, v) # vs) acc = check_from vs (if vready v then sat_add acc (vweight v) else acc)"
    by (simp add: deadline_ok_def Let_def del: vweight_max)
  also have "(if vready v then sat_add acc (vweight v) else acc) = acc + ready_weight v"
    using Cons.prems(2) x by (auto simp: ready_weight_def)
  finally have step: "check_from ((i, v) # vs) acc = check_from vs (acc + ready_weight v)" .
  show ?case unfolding x step using Cons.IH [of "acc + ready_weight v"] Cons.prems x by (auto simp: add.assoc)
qed simp

lemma invariant_holds_inv:
  assumes "rq_inv (k, q)"
  shows "invariant_holds q"
proof -
  have "total_weight q \<le> usize_max"
    using sum_ready_small [OF capacity_le [OF rq_invD(2) [OF assms]]] rq_invD(6) [OF assms] by simp
  moreover have "deadline_ok v" if "(i, v) \<in> set (rq_iter q)" for i v
    using that rq_invD(4) [OF assms] rq_iter_mem [OF assms] nth_mem by auto
  ultimately show ?thesis
    using check_from_ok [of "rq_iter q" 0] sum_iter [OF assms] by (auto simp: invariant_holds_def)
qed

text \<open>The order the queue documents, as a lexicographic key: class, deadline, slot.\<close>

definition pick_rank :: "runq \<Rightarrow> vcore \<Rightarrow> nat" where
  "pick_rank q v = (case v_class v of VReserved \<Rightarrow> 0 | VFair \<Rightarrow> if eligible q v then 1 else 2 | VResidual \<Rightarrow> 3)"

definition pick_deadline :: "vcore \<Rightarrow> nat" where
  "pick_deadline v = (case v_class v of VReserved \<Rightarrow> hard_deadline_ns v | _ \<Rightarrow> vdeadline v)"

definition earliest :: "(nat \<times> vcore_id) option \<Rightarrow> (vcore_id \<times> vcore) list \<Rightarrow> (nat \<times> vcore_id) option" where
  "earliest = foldl (\<lambda>slot (i, v). keep_earlier i (pick_deadline v) slot)"

definition of_rank :: "runq \<Rightarrow> nat \<Rightarrow> (vcore_id \<times> vcore) list \<Rightarrow> (vcore_id \<times> vcore) list" where
  "of_rank q r = filter (\<lambda>(i, v). vready v \<and> pick_rank q v = r)"

lemma scan_slots:
  "s_reserved (foldl (scan_one q) s xs) = earliest (s_reserved s) (of_rank q 0 xs)"
  "s_eligible (foldl (scan_one q) s xs) = earliest (s_eligible s) (of_rank q 1 xs)"
  "s_ineligible (foldl (scan_one q) s xs) = earliest (s_ineligible s) (of_rank q 2 xs)"
  "s_residual (foldl (scan_one q) s xs) = earliest (s_residual s) (of_rank q 3 xs)"
proof (induction xs arbitrary: s)
  case (Cons x xs)
  obtain i v where x: "x = (i, v)" by force
  have step: "s_reserved (scan_one q s x) = earliest (s_reserved s) (of_rank q 0 [x])"
    "s_eligible (scan_one q s x) = earliest (s_eligible s) (of_rank q 1 [x])"
    "s_ineligible (scan_one q s x) = earliest (s_ineligible s) (of_rank q 2 [x])"
    "s_residual (scan_one q s x) = earliest (s_residual s) (of_rank q 3 [x])" for s
    by (cases "v_class v"; simp add: x scan_one_def of_rank_def pick_rank_def earliest_def pick_deadline_def Let_def)+
  have split: "of_rank q r (x # xs) = of_rank q r [x] @ of_rank q r xs" for r by (simp add: of_rank_def)
  have app: "earliest s0 (ys @ zs) = earliest (earliest s0 ys) zs" for s0 ys zs by (simp add: earliest_def)
  { case 1 show ?case by (simp only: foldl_Cons split [of 0] app step Cons.IH) }
  { case 2 show ?case by (simp only: foldl_Cons split [of 1] app step Cons.IH) }
  { case 3 show ?case by (simp only: foldl_Cons split [of 2] app step Cons.IH) }
  { case 4 show ?case by (simp only: foldl_Cons split [of 3] app step Cons.IH) }
qed (simp_all add: earliest_def of_rank_def)

lemma earliest_spec:
  "sorted_wrt (<) (map fst xs) \<Longrightarrow>
   (case earliest None xs of None \<Rightarrow> xs = []
    | Some (d, i) \<Rightarrow> (\<exists>v. (i, v) \<in> set xs \<and> d = pick_deadline v) \<and> (\<forall>(j, u) \<in> set xs. (d, i) \<le> (pick_deadline u, j)))"
proof (induction xs rule: rev_induct)
  case Nil
  then show ?case by (simp add: earliest_def)
next
  case (snoc x xs)
  obtain i v where x: "x = (i, v)" by force
  have "earliest None (xs @ [x]) = keep_earlier i (pick_deadline v) (earliest None xs)" by (simp add: earliest_def x)
  moreover have "\<forall>y \<in> set xs. fst y < i" "sorted_wrt (<) (map fst xs)"
    using snoc.prems x by (auto simp: sorted_wrt_append)
  ultimately have step: "earliest None (xs @ [x]) = keep_earlier i (pick_deadline v) (earliest None xs)"
    "\<forall>y \<in> set xs. fst y < i" "sorted_wrt (<) (map fst xs)" by simp_all
  show ?case
  proof (cases "earliest None xs")
    case None
    with snoc.IH [OF step(3)] show ?thesis using step(1) x by (simp add: keep_earlier_def)
  next
    case (Some p)
    obtain d j where p: "p = (d, j)" by force
    from snoc.IH [OF step(3)] Some p obtain w where w: "(j, w) \<in> set xs" "d = pick_deadline w"
      and le: "\<And>l u. (l, u) \<in> set xs \<Longrightarrow> (d, j) \<le> (pick_deadline u, l)" by (auto split: prod.splits)
    have ji: "j < i" using step(2) w(1) by fastforce
    show ?thesis
    proof (cases "pick_deadline v < d")
      case True
      have "(pick_deadline v, i) \<le> (pick_deadline u, l)" if "(l, u) \<in> set xs" for l u using le [OF that] True by auto
      with True Some p step(1) x show ?thesis by (auto simp: keep_earlier_def)
    next
      case False
      with Some p step(1) x w le ji show ?thesis by (auto simp: keep_earlier_def)
    qed
  qed
qed

definition pick_key :: "runq \<Rightarrow> nat \<Rightarrow> nat \<times> nat \<times> nat" where
  "pick_key q i = (pick_rank q (vlist q ! i), pick_deadline (vlist q ! i), i)"

lemma of_rank_earliest:
  assumes inv: "rq_inv (k, q)"
  shows "case earliest None (of_rank q r (rq_iter q)) of
      None \<Rightarrow> (\<forall>i < length (vlist q). vready (vlist q ! i) \<longrightarrow> pick_rank q (vlist q ! i) \<noteq> r)
    | Some (d, i) \<Rightarrow> i < length (vlist q) \<and> vready (vlist q ! i) \<and> pick_rank q (vlist q ! i) = r \<and>
        (\<forall>j < length (vlist q). vready (vlist q ! j) \<and> pick_rank q (vlist q ! j) = r \<longrightarrow> pick_key q i \<le> pick_key q j)"
proof -
  let ?xs = "of_rank q r (rq_iter q)"
  have mem: "(i, v) \<in> set ?xs \<longleftrightarrow> i < length (vlist q) \<and> vlist q ! i = v \<and> vready v \<and> pick_rank q v = r" for i v
    using rq_iter_mem [OF inv] by (auto simp: of_rank_def vready_def)
  have "sorted_wrt (<) (map fst (filter P zs))" if "sorted_wrt (<) (map fst zs)" for P and zs :: "(nat \<times> vcore) list"
    using that by (induction zs) auto
  then have "sorted_wrt (<) (map fst ?xs)" using rq_iter_sorted by (simp add: of_rank_def)
  from earliest_spec [OF this] show ?thesis
  proof (cases "earliest None ?xs")
    case None
    with earliest_spec [OF \<open>sorted_wrt (<) (map fst ?xs)\<close>] have "?xs = []" by simp
    then have "(i, v) \<notin> set ?xs" for i v by simp
    with None mem show ?thesis by auto
  next
    case (Some p)
    obtain d i where p: "p = (d, i)" by force
    from earliest_spec [OF \<open>sorted_wrt (<) (map fst ?xs)\<close>] Some p obtain v where
      v: "(i, v) \<in> set ?xs" "d = pick_deadline v" "\<And>j u. (j, u) \<in> set ?xs \<Longrightarrow> (d, i) \<le> (pick_deadline u, j)"
      by (auto split: prod.splits)
    have "pick_key q i \<le> pick_key q j"
      if "j < length (vlist q)" "vready (vlist q ! j)" "pick_rank q (vlist q ! j) = r" for j
      using v(3) [of j "vlist q ! j"] mem [of j "vlist q ! j"] mem [of i v] v(1,2) that by (auto simp: pick_key_def)
    with Some p v(1) mem [of i v] show ?thesis by auto
  qed
qed

lemma pick_rank_cases: "pick_rank q v \<in> {0, 1, 2, 3}"
  by (simp add: pick_rank_def split: vclass.splits)

lemma pick_cases:
  assumes inv: "rq_inv (k, q)"
  shows "case pick q of
      None \<Rightarrow> (\<forall>i < length (vlist q). \<not> vready (vlist q ! i))
    | Some i \<Rightarrow> i < length (vlist q) \<and> vready (vlist q ! i) \<and>
        (\<forall>j < length (vlist q). vready (vlist q ! j) \<longrightarrow> pick_key q i \<le> pick_key q j)"
proof -
  let ?e = "\<lambda>r. earliest None (of_rank q r (rq_iter q))"
  note R = of_rank_earliest [OF inv]
  have p: "pick q = map_option snd (or_else (or_else (or_else (?e 0) (?e 1)) (?e 2)) (?e 3))"
    by (simp add: pick_def pick_id_def rq_scan_def scan_slots scan_empty_def)
  have found: "case Some i of None \<Rightarrow> (\<forall>i < length (vlist q). \<not> vready (vlist q ! i))
    | Some i \<Rightarrow> i < length (vlist q) \<and> vready (vlist q ! i) \<and>
        (\<forall>j < length (vlist q). vready (vlist q ! j) \<longrightarrow> pick_key q i \<le> pick_key q j)"
    if "?e r = Some (d, i)" "\<And>r'. r' < r \<Longrightarrow> ?e r' = None" for r d i
  proof -
    have i: "i < length (vlist q)" "vready (vlist q ! i)" "pick_rank q (vlist q ! i) = r"
      "\<And>j. j < length (vlist q) \<Longrightarrow> vready (vlist q ! j) \<Longrightarrow> pick_rank q (vlist q ! j) = r \<Longrightarrow> pick_key q i \<le> pick_key q j"
      using R [of r] that(1) by auto
    have "pick_key q i \<le> pick_key q j" if j: "j < length (vlist q)" "vready (vlist q ! j)" for j
    proof -
      have "\<not> pick_rank q (vlist q ! j) < r"
        using R [of "pick_rank q (vlist q ! j)"] that(2) j \<open>\<And>r'. r' < r \<Longrightarrow> ?e r' = None\<close> [of "pick_rank q (vlist q ! j)"] by auto
      then show ?thesis using i(3,4) j by (cases "pick_rank q (vlist q ! j) = r") (auto simp: pick_key_def)
    qed
    with i show ?thesis by simp
  qed
  show ?thesis
  proof (cases "\<exists>r \<le> 3. ?e r \<noteq> None")
    case True
    then obtain r0 where r0: "r0 \<le> 3" "?e r0 \<noteq> None" by blast
    obtain r where r: "?e r \<noteq> None" "\<And>r'. r' < r \<Longrightarrow> ?e r' = None" "r \<le> 3"
      using exists_least_iff [of "\<lambda>r. ?e r \<noteq> None"] r0 by (metis le_trans not_less)
    then obtain d i where e: "?e r = Some (d, i)" by auto
    have "r = 0 \<or> r = 1 \<or> r = 2 \<or> r = 3" using r(3) by auto
    then have "pick q = Some i"
      using e r(2) [of 0] r(2) [of 1] r(2) [of 2] unfolding p by (auto simp: or_else_def)
    with found [OF e r(2)] show ?thesis by simp
  next
    case False
    then have "?e r = None" if "r \<le> 3" for r using that by blast
    then have none: "?e 0 = None" "?e 1 = None" "?e 2 = None" "?e 3 = None" by simp_all
    then have "pick q = None" by (simp add: p or_else_def)
    moreover have "\<not> vready (vlist q ! i)" if "i < length (vlist q)" for i
      using R [of 0] R [of 1] R [of 2] R [of 3] none that pick_rank_cases [of q "vlist q ! i"] by auto
    ultimately show ?thesis by simp
  qed
qed

lemma dispatch_spec:
  assumes inv: "rq_inv (k, q)"
  shows "case pick q of
      None \<Rightarrow> snd (dispatch now q) = None \<and> rq_inv (k, fst (dispatch now q))
    | Some i \<Rightarrow> (\<exists>v. rq_get q i = Some v \<and> snd (dispatch now q) = Some (i, now - runnable_since_ns v)) \<and>
        rq_inv (k, fst (dispatch now q)) \<and> current (fst (dispatch now q)) = Some i"
proof (cases "pick q")
  case None
  then show ?thesis using inv by (auto simp: pick_def dispatch_def Let_def intro: rq_inv_fields)
next
  case (Some i)
  let ?q = "if s_defer (rq_scan q) then q\<lparr>q_defers := q_defers q + 1\<rparr> else q"
  have inv1: "rq_inv (k, ?q)" and get1: "rq_get ?q = rq_get q"
    using inv by (auto intro: rq_inv_fields simp: rq_get_def vc_ref_def fun_eq_iff)
  from pick_cases [OF inv] Some have "i < length (vlist q)" "vready (vlist q ! i)" by auto
  then obtain v where v: "rq_get q i = Some v" using rq_get_view [OF inv, of i] by (auto simp: vready_def)
  from inv v obtain 1: "i < length (vlist q)" "i < high_water q" "vlist q ! i = v" "v_live v" "deadline_ok v"
    by (cases rule: rq_get_cases [of k q i]) auto
  let ?v = "v\<lparr>v_dispatches := sat_add (v_dispatches v) 1\<rparr>"
  have ok: "deadline_ok ?v" "ready_weight ?v = ready_weight v" "v_live ?v"
    using 1 by (simp_all add: deadline_ok_def ready_weight_def vready_def)
  have w: "rq_inv (k, vc_set i ?v (?q\<lparr>current := Some i\<rparr>))"
    using 1 ok by (intro rq_inv_write(1) [OF inv]) auto
  have "rq_inv (k, fst (dispatch now q))"
    by (rule rq_inv_fields [OF w]) (use Some v get1 in \<open>auto simp: dispatch_def pick_def Let_def vc_set_def split: option.splits\<close>)
  then show ?thesis using Some v get1 by (auto simp: dispatch_def pick_def Let_def)
qed

section \<open>The queue as a machine\<close>

datatype rq_op = RAdmit nat nat vclass burst nat | RRemove nat | RSlice nat nat | RHard nat nat | RWake nat nat
  | RBlock nat bool | RYield nat | RPreempted nat | RCharge nat nat | RDispatch nat | RSync nat "(nat \<times> nat) list"
  | RInit owner | RRelease

fun rq_exec :: "rq_op \<Rightarrow> kmem \<times> runq \<Rightarrow> (kmem \<times> runq) option" where
  "rq_exec (RAdmit cell ctx cls b now) s = map_option fst (admit cell ctx cls b now s)"
| "rq_exec (RRemove i) (k, q) = Some (k, fst (rq_remove i q))"
| "rq_exec (RSlice i ns) (k, q) = Some (k, fst (set_slice i ns q))"
| "rq_exec (RHard i ns) (k, q) = Some (k, fst (set_hard_deadline i ns q))"
| "rq_exec (RWake i now) (k, q) = Some (k, fst (vwake i now q))"
| "rq_exec (RBlock i voluntary) (k, q) = Some (k, fst (block i voluntary q))"
| "rq_exec (RYield i) (k, q) = Some (k, relinquished i q)"
| "rq_exec (RPreempted i) (k, q) = Some (k, was_preempted i q)"
| "rq_exec (RCharge i delta) (k, q) = Some (k, fst (rq_charge i delta q))"
| "rq_exec (RDispatch now) (k, q) = Some (k, fst (dispatch now q))"
| "rq_exec (RSync now on) (k, q) = Some (k, sync_runnable now (\<lambda>c x. (c, x) \<in> set on) q)"
| "rq_exec (RInit ow) s = rq_init ow s"
| "rq_exec RRelease s = rq_release s"

lemma rq_exec_inv:
  assumes inv: "rq_inv s"
  shows "\<exists>s'. rq_exec x s = Some s' \<and> rq_inv s'"
proof -
  obtain k q where s: "s = (k, q)" by force
  note inv = inv [unfolded s]
  show ?thesis
  proof (cases x)
    case (RAdmit cell ctx cls b now)
    then show ?thesis using admit_inv [OF inv, of cell ctx cls b now] by (auto simp: s)
  next
    case (RDispatch now)
    then show ?thesis using dispatch_spec [OF inv, of now] by (auto simp: s split: option.splits)
  next
    case RRelease
    then show ?thesis using rq_release_inv [OF inv] by (auto simp: s)
  qed (use rq_remove_inv [OF inv] set_slice_inv [OF inv] set_hard_deadline_inv [OF inv] vwake_inv [OF inv]
      block_inv [OF inv] relinquished_inv [OF inv] was_preempted_inv [OF inv] rq_charge_inv [OF inv]
      sync_from_inv [OF inv] rq_init_inv [OF inv] in \<open>simp_all add: s sync_runnable_def\<close>)
qed

definition rq_step :: "kmem \<times> runq \<Rightarrow> rq_op \<Rightarrow> kmem \<times> runq" where
  "rq_step s x = (case rq_exec x s of Some s' \<Rightarrow> s' | None \<Rightarrow> s)"

interpretation rm: machine rq_step "\<lambda>_ _. True" rq_inv
proof
  fix s x assume "rq_inv s"
  from rq_exec_inv [OF this, of x] show "rq_inv (rq_step s x)" by (auto simp: rq_step_def)
qed

lemma rq_inv_new: "km_inv k \<Longrightarrow> rq_inv (k, runq_new)"
  using funded_inv_new [of vcore_ty k]
  by (simp add: rq_inv_def runq_new_def contents_def page_data_def funded_new_def)

lemma rq_inv_run: "km_inv k \<Longrightarrow> rq_inv (run_ops rq_step (k, runq_new) ops)"
  using rm.run_inv [OF rq_inv_new] by simp

section \<open>The clock moves\<close>

definition charge_all :: "(vcore_id \<times> nat) list \<Rightarrow> runq \<Rightarrow> runq" where
  "charge_all cs q = foldl (\<lambda>q (i, d). fst (rq_charge i d q)) q cs"

text \<open>A charge of at least this many nanoseconds moves the clock of even the heaviest queue.\<close>

definition CLOCK_TICK_NS :: nat where "CLOCK_TICK_NS = 21840"

lemma charge_clock:
  assumes inv: "rq_inv (k, q)" and i: "rq_get q i \<noteq> None" and d: "CLOCK_TICK_NS \<le> d"
  shows "min (vtime q + 1) usize_max \<le> vtime (fst (rq_charge i d q))"
    "j \<noteq> i \<Longrightarrow> rq_get (fst (rq_charge i d q)) j = rq_get q j"
    "rq_get (fst (rq_charge i d q)) i \<noteq> None"
proof -
  from i obtain v where v: "rq_get q i = Some v" by auto
  let ?v = "v\<lparr>v_service_ns := sat_add (v_service_ns v) d, vburst := burst_charge d (vburst v),
      vruntime := sat_add (vruntime v) (sat_mul d WEIGHT_BASE div vweight v)\<rparr>"
  let ?q = "vc_set i (refresh_deadline ?v) (reweigh (vweight v) ?v q)"
  have il: "i < length (vlist q)" "v_live v" using rq_get_view [OF inv] v by auto
  have q': "fst (rq_charge i d q) = ?q\<lparr>vtime := sat_add (vtime ?q) (sat_mul d WEIGHT_BASE div max (total_weight ?q) 1)\<rparr>"
    using v by (simp add: rq_charge_def Let_def)
  have inv': "rq_inv (k, ?q)" by (rule reburst_inv(2) [OF inv v]) simp_all
  have vl: "vlist ?q = (vlist q)[i := refresh_deadline ?v]"
    using funded_set_inv [OF rq_invD(2) [OF inv], of i "refresh_deadline ?v"] by (auto simp: vc_set_def)
  have "total_weight ?q \<le> length (vlist ?q) * WEIGHT_BASE" using sum_ready_le rq_invD(6) [OF inv'] by metis
  also have "\<dots> \<le> CLOCK_TICK_NS * WEIGHT_BASE"
    using capacity_le [OF rq_invD(2) [OF inv']] by (simp add: CLOCK_TICK_NS_def)
  finally have "total_weight ?q \<le> CLOCK_TICK_NS * WEIGHT_BASE" .
  moreover have "CLOCK_TICK_NS * WEIGHT_BASE \<le> sat_mul d WEIGHT_BASE"
    using mult_le_mono1 [OF d, of WEIGHT_BASE] by (simp add: sat_mul_def CLOCK_TICK_NS_def WEIGHT_BASE_def usize_max_def)
  moreover have "1 \<le> CLOCK_TICK_NS * WEIGHT_BASE" by (simp add: CLOCK_TICK_NS_def WEIGHT_BASE_def)
  ultimately have "max (total_weight ?q) 1 \<le> sat_mul d WEIGHT_BASE" by linarith
  then have "0 < sat_mul d WEIGHT_BASE div max (total_weight ?q) 1" by (simp add: div_greater_zero_iff)
  then show "min (vtime q + 1) usize_max \<le> vtime (fst (rq_charge i d q))"
    unfolding q' by (auto simp: sat_add_def min_def)
  have get: "rq_get (fst (rq_charge i d q)) = rq_get ?q" unfolding q' by (simp add: rq_get_def vc_ref_def fun_eq_iff)
  have any: "rq_get q x = Some u \<longleftrightarrow> x < length (vlist q) \<and> vlist q ! x = u \<and> v_live u" for x u
    by (rule rq_get_view [OF inv])
  have any': "rq_get ?q x = Some u \<longleftrightarrow> x < length (vlist ?q) \<and> vlist ?q ! x = u \<and> v_live u" for x u
    by (rule rq_get_view [OF inv'])
  show "rq_get (fst (rq_charge i d q)) i \<noteq> None"
    unfolding get using any' [of i "refresh_deadline ?v"] il by (simp add: vl)
  show "rq_get (fst (rq_charge i d q)) j = rq_get q j" if "j \<noteq> i"
  proof (rule option.expand)
    have eq: "rq_get ?q j = Some u \<longleftrightarrow> rq_get q j = Some u" for u using any [of j u] any' [of j u] that by (auto simp: vl)
    then show "(rq_get (fst (rq_charge i d q)) j = None) = (rq_get q j = None)" unfolding get by (metis option.exhaust)
    show "the (rq_get (fst (rq_charge i d q)) j) = the (rq_get q j)"
      if "rq_get (fst (rq_charge i d q)) j \<noteq> None" unfolding get using eq that get by force
  qed
qed

lemma charge_all_clock:
  assumes "rq_inv (k, q)" and "rq_get q j = Some v" and "\<forall>(i, d) \<in> set cs. i \<noteq> j \<and> rq_get q i \<noteq> None \<and> CLOCK_TICK_NS \<le> d"
  shows "rq_inv (k, charge_all cs q) \<and> rq_get (charge_all cs q) j = Some v \<and>
    min (vtime q + length cs) usize_max \<le> vtime (charge_all cs q)"
  using assms
proof (induction cs arbitrary: q)
  case Nil
  then show ?case by (simp add: charge_all_def)
next
  case (Cons c cs)
  obtain i d where c: "c = (i, d)" by force
  let ?q = "fst (rq_charge i d q)"
  from Cons.prems(3) c have i: "i \<noteq> j" "rq_get q i \<noteq> None" "CLOCK_TICK_NS \<le> d" by auto
  note step = charge_clock [OF Cons.prems(1) i(2,3)]
  have "rq_inv (k, ?q)" by (rule rq_charge_inv [OF Cons.prems(1)])
  moreover have "rq_get ?q j = Some v" using step(2) [of j] i(1) Cons.prems(2) by simp
  moreover have "\<forall>(i', d') \<in> set cs. i' \<noteq> j \<and> rq_get ?q i' \<noteq> None \<and> CLOCK_TICK_NS \<le> d'"
  proof (intro ballI)
    fix x assume x: "x \<in> set cs"
    obtain i' d' where x': "x = (i', d')" by force
    have "i' \<noteq> j" "rq_get q i' \<noteq> None" "CLOCK_TICK_NS \<le> d'" using Cons.prems(3) x x' by auto
    moreover have "rq_get ?q i' \<noteq> None" using step(2) [of i'] step(3) \<open>rq_get q i' \<noteq> None\<close> by (cases "i' = i") simp_all
    ultimately show "case x of (i', d') \<Rightarrow> i' \<noteq> j \<and> rq_get ?q i' \<noteq> None \<and> CLOCK_TICK_NS \<le> d'" by (simp add: x')
  qed
  ultimately have "rq_inv (k, charge_all cs ?q) \<and> rq_get (charge_all cs ?q) j = Some v \<and>
    min (vtime ?q + length cs) usize_max \<le> vtime (charge_all cs ?q)" by (rule Cons.IH)
  moreover have "charge_all (c # cs) q = charge_all cs ?q" by (simp add: charge_all_def c)
  ultimately show ?case using step(1) by auto
qed

text \<open>A queue with two vcores, on freshly booted memory.\<close>

lemma admit_grows:
  assumes inv: "rq_inv (k, q)" and i: "free_index q = Some i"
    and grow: "\<And>v. \<exists>s'. set_growing vcore_ty i v (k, vcores q) = Some (s', True)"
  shows "\<exists>k' q'. admit cell ctx cls b now (k, q) = Some ((k', q'), Inr i) \<and> rq_inv (k', q') \<and>
    (\<exists>v. rq_get q' i = Some v \<and> vready v \<and> vruntime v = vtime q) \<and>
    vlist q' = (vlist q @ replicate (length (vlist q') - length (vlist q)) (ty_zero vcore_ty))[i := the (rq_get q' i)] \<and>
    high_water q' = max (high_water q) (i + 1) \<and> vtime q' = vtime q"
proof -
  define v where "v = refresh_deadline \<lparr> v_cell = cell, v_context = ctx, v_class = cls, vruntime = vtime q, vdeadline = 0,
               slice_ns = SLICE_NS, hard_deadline_ns = usize_max, vburst = b, v_runnable = True, v_live = True,
               runnable_since_ns = now, v_service_ns = 0, v_dispatches = 0 \<rparr>"
  note I = rq_invD [OF inv]
  from set_growing_spec [OF I(1,2), of i v] grow [of v] obtain k' t where
    g: "set_growing vcore_ty i v (k, vcores q) = Some ((k', t), True)" "cap (vcores q) \<le> cap t" "i < cap t"
      "contents t = (vlist q @ replicate (cap t - cap (vcores q)) (ty_zero vcore_ty))[i := v]"
      "table_acct vcore_ty (k, vcores q) (k', t)" by auto
  have len: "length (vlist q) = cap (vcores q)" "length (contents t) = cap t"
    using length_contents [OF I(2)] length_contents [of vcore_ty k' t] g(5) by (auto simp: table_acct_def)
  let ?q = "q\<lparr>total_weight := sat_add (total_weight q) (vweight v), vcores := t, high_water := max (high_water q) (i + 1)\<rparr>"
  have a: "admit cell ctx cls b now (k, q) = Some ((k', ?q), Inr i)"
    using i g(1) by (cases "high_water q \<le> i") (auto simp: admit_def Let_def v_def [symmetric] max_def)
  with admit_inv [OF inv, of cell ctx cls b now] have inv': "rq_inv (k', ?q)" by auto
  have v: "v_live v" "vready v" "vruntime v = vtime q"
    by (simp_all add: v_def vready_def refresh_deadline_def Let_def)
  moreover have "contents t ! i = v" using g(3,4) len by simp
  ultimately have "rq_get ?q i = Some v" using rq_get_view [OF inv', of i v] g(3) len by simp
  with a inv' g(4) len v(2,3) show ?thesis by auto
qed

lemma demo_queue:
  "\<exists>k k' q v w. km_inv k \<and> run_ops rq_step (k, runq_new) [RAdmit 1 0 VFair burst_new 0, RAdmit 2 0 VFair burst_new 0] = (k', q) \<and>
     rq_get q 0 = Some v \<and> rq_get q 1 = Some w \<and> vready v \<and> vruntime v = 0"
proof -
  obtain k where k: "km_inv k" "roomy k" using boot_memory by blast
  have inv: "rq_inv (k, runq_new)" by (rule rq_inv_new [OF k(1)])
  have fresh: "pages (vcores runq_new) = 0" "free_index runq_new = Some 0" "vlist runq_new = []"
    by (simp_all add: runq_new_def funded_new_def free_index_def contents_def page_data_def)
  have "\<exists>s'. set_growing vcore_ty 0 v (k, vcores runq_new) = Some (s', True)" for v
    using set_growing_first [OF k rq_invD(2) [OF inv] fresh(1), of 0 v] by (simp add: vcore_ty_def FRAME_SIZE_def vcore_ty_page [unfolded vcore_ty_def])
  from admit_grows [OF inv fresh(2) this, of 1 0 VFair burst_new 0] obtain k1 q1 v where
    1: "admit 1 0 VFair burst_new 0 (k, runq_new) = Some ((k1, q1), Inr 0)" "rq_inv (k1, q1)" "rq_get q1 0 = Some v"
      "high_water q1 = 1" "vready v" "vruntime v = 0" by (auto simp: runq_new_def)
  have v: "0 < length (vlist q1)" "vlist q1 ! 0 = v" "v_live v" using rq_get_view [OF 1(2)] 1(3) by auto
  have len: "length (vlist q1) = pages (vcores q1) * 42"
    using length_contents [OF rq_invD(2) [OF 1(2)]] funded_invD(2) [OF rq_invD(2) [OF 1(2)]] by simp
  then have one: "1 < length (vlist q1)" using v(1) by (cases "pages (vcores q1)") simp_all
  have "free_index q1 = Some 1" using 1(4) v vc_ref_view [OF 1(2)] by (simp add: free_index_def nth_opt_def)
  moreover have "\<exists>s'. set_growing vcore_ty 1 u (k1, vcores q1) = Some (s', True)" for u
    using funded_set_inv [OF rq_invD(2) [OF 1(2)], of 1 u] one length_contents [OF rq_invD(2) [OF 1(2)]]
    by (auto simp: set_growing_def)
  ultimately obtain k2 q2 w where
    2: "admit 2 0 VFair burst_new 0 (k1, q1) = Some ((k2, q2), Inr 1)" "rq_inv (k2, q2)" "rq_get q2 1 = Some w"
      "vlist q2 = (vlist q1 @ replicate (length (vlist q2) - length (vlist q1)) (ty_zero vcore_ty))[1 := the (rq_get q2 1)]"
    using admit_grows [OF 1(2), of 1 2 0 VFair burst_new 0] by blast
  have "length (vlist q1) \<le> length (vlist q2)" by (subst 2(4)) simp
  moreover have "vlist q2 ! 0 = v" by (subst 2(4)) (use v in \<open>simp add: nth_append\<close>)
  ultimately have "rq_get q2 0 = Some v" using rq_get_view [OF 2(2), of 0 v] v by auto
  with 1(1,5,6) 2(1,3) k(1) show ?thesis by (auto simp: rq_step_def)
qed

text \<open>
  The defer flag does not mean that the gate changed the answer: a lone fair vcore that is ahead of the
  clock raises it although \<^verbatim>\<open>pick\<close> returns that very vcore.
\<close>

lemma lone_ineligible_is_picked:
  assumes "rq_iter q = [(i, v)]" and "vready v" and "v_class v = VFair" and "\<not> eligible q v"
  shows "eligibility_would_defer q \<and> pick q = Some i"
  using assms by (simp add: eligibility_would_defer_def pick_def rq_scan_def scan_one_def scan_empty_def Let_def
      keep_earlier_def pick_id_def or_else_def)

section \<open>Properties\<close>

text \<open>
  C8: from the empty queue, after any sequence of the queue's operations,
  \<^verbatim>\<open>invariant_holds\<close> answers true (the cached total weight is the sum of the runnable weights and every
  virtual deadline agrees with its vruntime, slice and weight), no arithmetic of the total has saturated,
  and no further operation can panic.
\<close>

theorem runqueue_sound:
  assumes "km_inv k" and "run_ops rq_step (k, runq_new) ops = (k', q)"
  shows "invariant_holds q \<and> total_weight q < usize_max \<and> (\<forall>x. rq_exec x (k', q) \<noteq> None)"
proof -
  have inv: "rq_inv (k', q)" using rq_inv_run [OF assms(1), of ops] assms(2) by simp
  have "total_weight q < usize_max"
    using sum_ready_small [OF capacity_le [OF rq_invD(2) [OF inv]]] rq_invD(6) [OF inv] by (simp add: WEIGHT_BASE_def)
  moreover have "rq_exec x (k', q) \<noteq> None" for x using rq_exec_inv [OF inv, of x] by auto
  ultimately show ?thesis using invariant_holds_inv [OF inv] by blast
qed

theorem runqueue_sound_witness:
  "\<exists>k k' q. km_inv k \<and> run_ops rq_step (k, runq_new)
     [RAdmit 1 0 VFair burst_new 0, RDispatch 5, RCharge 0 50000000, RBlock 0 True, RWake 0 9] = (k', q) \<and> invariant_holds q"
proof -
  obtain p where "pool_inv p" using pool_inv_boot [of 67108864 4096] by auto
  then have km: "km_inv (kmem_new p)" by (rule km_inv_new)
  obtain k' q where run: "run_ops rq_step (kmem_new p, runq_new)
     [RAdmit 1 0 VFair burst_new 0, RDispatch 5, RCharge 0 50000000, RBlock 0 True, RWake 0 9] = (k', q)" by force
  from runqueue_sound [OF km run] km run show ?thesis by blast
qed

text \<open>
  C9: on every reachable queue the single walk behind \<^verbatim>\<open>pick\<close> returns a ready
  vcore that is least in the documented order (reserved by hard deadline, then eligible fair, ineligible
  fair and residual work by virtual deadline, the lower slot on a tie), and it returns none only when no
  vcore is ready.
\<close>

theorem pick_is_best:
  assumes "km_inv k" and "run_ops rq_step (k, runq_new) ops = (k', q)"
  shows "case pick q of
      None \<Rightarrow> (\<forall>i < length (vlist q). \<not> vready (vlist q ! i))
    | Some i \<Rightarrow> i < length (vlist q) \<and> vready (vlist q ! i) \<and>
        (\<forall>j < length (vlist q). vready (vlist q ! j) \<longrightarrow> pick_key q i \<le> pick_key q j)"
  using pick_cases rq_inv_run [OF assms(1), of ops] assms(2) by simp

theorem pick_is_best_witness:
  "\<exists>k k' q i. km_inv k \<and> run_ops rq_step (k, runq_new) [RAdmit 1 0 VFair burst_new 0, RAdmit 2 0 VFair burst_new 0] = (k', q) \<and>
     pick q = Some i \<and> vready (vlist q ! i)"
proof -
  obtain k k' q v w where q: "km_inv k"
    "run_ops rq_step (k, runq_new) [RAdmit 1 0 VFair burst_new 0, RAdmit 2 0 VFair burst_new 0] = (k', q)"
    "rq_get q 0 = Some v" "vready v" using demo_queue by blast
  have "rq_inv (k', q)" using rq_inv_run [OF q(1)] q(2) by metis
  with rq_get_view q(3) have "0 < length (vlist q)" "vlist q ! 0 = v" by auto
  with pick_is_best [OF q(1,2)] q(4) have "\<exists>i. pick q = Some i \<and> vready (vlist q ! i)" by (cases "pick q") auto
  with q(1,2) show ?thesis by blast
qed



text \<open>
  Bounds of the burst arithmetic. The score of a burst never exceeds
  39 and grows with the burst; bursts below 2^24 ns score zero; whatever is charged, relinquished or
  inherited, a burst that started within bounds keeps its score at most 39 and its weight between 1 and
  10240, and a higher score never weighs more.
\<close>

theorem burst_weight_bounds:
  assumes "history b \<le> SCORE_MAX" and "accumulated_ns b \<le> usize_max" and "ns \<le> ns'" and "s \<le> s'"
  shows "score_of ns \<le> score_of ns' \<and> score_of ns' \<le> SCORE_MAX \<and> (ns' < 2 ^ 24 \<longrightarrow> score_of ns' = 0) \<and>
    history (burst_relinquish b) \<le> SCORE_MAX \<and> burst_score (burst_inherit b) \<le> SCORE_MAX \<and>
    burst_score b \<le> burst_score (burst_charge ns b) \<and> burst_score (burst_charge ns b) \<le> SCORE_MAX \<and>
    1 \<le> weight_of s' \<and> weight_of s' \<le> weight_of s \<and> weight_of s \<le> WEIGHT_BASE"
proof -
  have short: "score_of ns' = 0" if "ns' < 2 ^ 24"
    using that by (simp add: score_of_def PENALTY_OFFSET_BITS_def drop_bit_eq_div)
  have decay: "history b - 1 \<le> SCORE_MAX" using assms(1) by simp
  have h: "history (burst_relinquish b) \<le> SCORE_MAX"
    using decay score_of_le by (simp add: burst_relinquish_def Let_def)
  have i: "burst_score (burst_inherit b) \<le> SCORE_MAX"
    using assms(1) score_of_le by (simp add: burst_score_def burst_inherit_def Let_def)
  have "score_of (accumulated_ns b) \<le> score_of (sat_add (accumulated_ns b) ns)"
    by (intro score_of_mono sat_add_ge_left assms(2))
  then have m: "burst_score b \<le> burst_score (burst_charge ns b)"
    by (simp add: burst_score_def burst_charge_def Let_def)
  have c: "burst_score (burst_charge ns b) \<le> SCORE_MAX"
    using assms(1) score_of_le by (simp add: burst_score_def burst_charge_def Let_def)
  show ?thesis
    using score_of_mono [OF assms(3)] score_of_le short h i m c weight_of_bounds weight_of_antimono [OF assms(4)] by blast
qed

theorem burst_weight_bounds_witness:
  "history burst_new \<le> SCORE_MAX \<and> score_of 16000000 = 0 \<and> 1 \<le> weight_of 39 \<and> weight_of 39 \<le> weight_of 3"
  using burst_weight_bounds [of burst_new 1000000 16000000 3 39]
  by (simp add: burst_new_def SCORE_MAX_def)

end
