(* ===== verification/Admission.thy ===== *)
theory Admission
  imports Rheo_Prelude Complex_Main
begin

text \<open>
  Contracts: the admission controller of \<^verbatim>\<open>kernel/src/sched/mod.rs\<close> (utilisation in parts per million,
  one ledger per cell and one for the machine, charged together by the reservation system call of
  \<^verbatim>\<open>kernel/src/user.rs\<close>), and the leases of \<^verbatim>\<open>kernel/src/lease.rs\<close> with their fencing tokens.

  Ticks and utilisations are 64-bit quantities kept as naturals; \<^verbatim>\<open>saturating_mul\<close> saturates at
  \<^const>\<open>usize_max\<close>. The clock is an argument. The system ledger's spin lock makes each of its operations
  one step.
\<close>

section \<open>Admission\<close>

datatype admit_error = Overcommit | BadParams

record reservation =
  r_budget :: nat
  r_period :: nat
  r_deadline :: nat
  util_ppm :: nat

definition RESERVATION_ZERO :: reservation where
  "RESERVATION_ZERO = \<lparr> r_budget = 0, r_period = 0, r_deadline = 0, util_ppm = 0 \<rparr>"

record admission =
  committed_ppm :: nat

definition FULL_PPM :: nat where "FULL_PPM = 1000000"

definition admission_new :: admission where
  "admission_new = \<lparr> committed_ppm = 0 \<rparr>"

definition adm_admit :: "nat \<Rightarrow> nat \<Rightarrow> nat \<Rightarrow> admission \<Rightarrow> admission \<times> (admit_error + reservation)" where
  "adm_admit budget period deadline a =
     (if period = 0 \<or> deadline = 0 \<or> period < deadline \<or> period < budget then (a, Inl BadParams)
      else let util = sat_mul budget FULL_PPM div period
           in if FULL_PPM < committed_ppm a + util then (a, Inl Overcommit)
              else (a\<lparr>committed_ppm := committed_ppm a + util\<rparr>,
                    Inr \<lparr> r_budget = budget, r_period = period, r_deadline = deadline, util_ppm = util \<rparr>))"

definition adm_release :: "reservation \<Rightarrow> admission \<Rightarrow> admission" where
  "adm_release r a = a\<lparr>committed_ppm := committed_ppm a - util_ppm r\<rparr>"

text \<open>
  The machine's ledger, the cells' controllers, and the reservations held: each with its cell, what the
  cell's controller returned and what the machine's did.
\<close>

record contracts =
  SYSTEM :: admission
  cell_adm :: "admission list"
  res_held :: "(nat \<times> reservation \<times> reservation) list"

definition system_admit :: "nat \<Rightarrow> nat \<Rightarrow> nat \<Rightarrow> contracts \<Rightarrow> contracts \<times> (admit_error + reservation)" where
  "system_admit budget period deadline s =
     (let (a, r) = adm_admit budget period deadline (SYSTEM s) in (s\<lparr>SYSTEM := a\<rparr>, r))"

definition system_release :: "reservation \<Rightarrow> contracts \<Rightarrow> contracts" where
  "system_release r s = s\<lparr>SYSTEM := adm_release r (SYSTEM s)\<rparr>"

definition system_committed_ppm :: "contracts \<Rightarrow> nat" where
  "system_committed_ppm s = committed_ppm (SYSTEM s)"

definition reset_system :: "contracts \<Rightarrow> contracts" where
  "reset_system s = s\<lparr>SYSTEM := admission_new\<rparr>"

text \<open>
  The charging part of \<^verbatim>\<open>SYS_RESERVE\<close>: the machine first, then the cell, and the machine's charge undone
  when the cell refuses. The status is the system call's: 0 admitted, 1 bad parameters, 2 over-commit.
\<close>

definition status_of :: "admit_error \<Rightarrow> nat" where
  "status_of er = (case er of BadParams \<Rightarrow> 1 | Overcommit \<Rightarrow> 2)"

definition reserve_charge :: "nat \<Rightarrow> nat \<Rightarrow> nat \<Rightarrow> nat \<Rightarrow> contracts \<Rightarrow> contracts \<times> nat" where
  "reserve_charge cell budget period deadline s =
     (case system_admit budget period deadline s of
        (s1, Inl er) \<Rightarrow> (s1, status_of er)
      | (s1, Inr sys_res) \<Rightarrow>
          (case adm_admit budget period deadline (cell_adm s1 ! cell) of
             (a, Inl er) \<Rightarrow> (system_release sys_res (s1\<lparr>cell_adm := (cell_adm s1)[cell := a]\<rparr>), status_of er)
           | (a, Inr res) \<Rightarrow> (s1\<lparr>cell_adm := (cell_adm s1)[cell := a], res_held := (cell, res, sys_res) # res_held s1\<rparr>, 0)))"

text \<open>The tail of \<^verbatim>\<open>SYS_RESERVE_RELEASE\<close>, for the \<open>n\<close>-th reservation held.\<close>

definition reserve_uncharge :: "nat \<Rightarrow> contracts \<Rightarrow> contracts" where
  "reserve_uncharge n s =
     (if n < length (res_held s)
      then let (cell, res, sys_res) = res_held s ! n;
               s1 = s\<lparr>res_held := take n (res_held s) @ drop (Suc n) (res_held s)\<rparr>;
               s2 = s1\<lparr>cell_adm := (cell_adm s1)[cell := adm_release res (cell_adm s1 ! cell)]\<rparr>
           in system_release sys_res s2
      else s)"

section \<open>Leases\<close>

datatype lease_error = Expired | Fenced

record lease =
  token :: u64
  expiry :: u64
  l_epoch :: u32

text \<open>\<^verbatim>\<open>NEXT_TOKEN\<close> is an atomic counter; \<open>fetch_add\<close> wraps.\<close>

definition lease_acquire :: "u64 \<Rightarrow> u64 \<Rightarrow> u32 \<Rightarrow> u64 \<Rightarrow> u64 \<times> lease" where
  "lease_acquire now ttl ep next_token = (next_token + 1, \<lparr> token = next_token, expiry = now + ttl, l_epoch = ep \<rparr>)"

definition lease_renew :: "u64 \<Rightarrow> u64 \<Rightarrow> lease \<Rightarrow> lease" where
  "lease_renew now ttl l = l\<lparr>expiry := now + ttl\<rparr>"

definition valid_at :: "u64 \<Rightarrow> lease \<Rightarrow> bool" where
  "valid_at now l \<longleftrightarrow> now < expiry l"

record fenced_resource =
  highest_token :: u64
  f_epoch :: u32

definition fenced_new :: fenced_resource where
  "fenced_new = \<lparr> highest_token = 0, f_epoch = 0 \<rparr>"

definition act :: "u64 \<Rightarrow> lease \<Rightarrow> fenced_resource \<Rightarrow> fenced_resource \<times> (lease_error + unit)" where
  "act now l f =
     (if \<not> valid_at now l \<or> l_epoch l \<noteq> f_epoch f then (f, Inl Expired)
      else if token l < highest_token f then (f, Inl Fenced)
      else (f\<lparr>highest_token := token l\<rparr>, Inr ()))"

text \<open>\<^verbatim>\<open>self.epoch += 1\<close> panics on overflow in a debug build and wraps in a release build.\<close>

definition lease_revoke_epoch :: "fenced_resource \<Rightarrow> fenced_resource" where
  "lease_revoke_epoch f = f\<lparr>f_epoch := f_epoch f + 1\<rparr>"

section \<open>The ledgers add up\<close>

definition cell_load :: "nat \<Rightarrow> (nat \<times> reservation \<times> reservation) list \<Rightarrow> nat" where
  "cell_load c rs = (\<Sum>(cell, res, sys_res)\<leftarrow>rs. if cell = c then util_ppm res else 0)"

definition sys_load :: "(nat \<times> reservation \<times> reservation) list \<Rightarrow> nat" where
  "sys_load rs = (\<Sum>(cell, res, sys_res)\<leftarrow>rs. util_ppm sys_res)"

definition well_priced :: "reservation \<Rightarrow> bool" where
  "well_priced r \<longleftrightarrow> 0 < r_period r \<and> 0 < r_deadline r \<and> r_deadline r \<le> r_period r \<and> r_budget r \<le> r_period r \<and>
     util_ppm r = sat_mul (r_budget r) FULL_PPM div r_period r"

definition contracts_inv :: "contracts \<Rightarrow> bool" where
  "contracts_inv s \<longleftrightarrow> committed_ppm (SYSTEM s) = sys_load (res_held s) \<and> sys_load (res_held s) \<le> FULL_PPM \<and>
     (\<forall>c < length (cell_adm s). committed_ppm (cell_adm s ! c) = cell_load c (res_held s) \<and> cell_load c (res_held s) \<le> FULL_PPM) \<and>
     (\<forall>(cell, res, sys_res) \<in> set (res_held s). cell < length (cell_adm s) \<and> well_priced res \<and> sys_res = res)"

lemma adm_admit_cases:
  assumes "adm_admit b p d a = (a', x)"
  shows "case x of Inl er \<Rightarrow> a' = a
    | Inr r \<Rightarrow> well_priced r \<and> committed_ppm a' = committed_ppm a + util_ppm r \<and> committed_ppm a' \<le> FULL_PPM \<and>
        r = \<lparr> r_budget = b, r_period = p, r_deadline = d, util_ppm = sat_mul b FULL_PPM div p \<rparr>"
  using assms by (auto simp: adm_admit_def Let_def well_priced_def split: if_splits)

lemma load_drop:
  assumes "n < length rs" and "rs ! n = (cell, res, sys_res)"
  shows "cell_load c (take n rs @ drop (Suc n) rs) + (if cell = c then util_ppm res else 0) = cell_load c rs"
    "sys_load (take n rs @ drop (Suc n) rs) + util_ppm sys_res = sys_load rs"
proof -
  have e: "rs = take n rs @ (cell, res, sys_res) # drop (Suc n) rs" using id_take_nth_drop [OF assms(1)] assms(2) by simp
  have "cell_load c rs = cell_load c (take n rs @ (cell, res, sys_res) # drop (Suc n) rs)"
    "sys_load rs = sys_load (take n rs @ (cell, res, sys_res) # drop (Suc n) rs)" using e by auto
  then show "cell_load c (take n rs @ drop (Suc n) rs) + (if cell = c then util_ppm res else 0) = cell_load c rs"
    "sys_load (take n rs @ drop (Suc n) rs) + util_ppm sys_res = sys_load rs"
    by (simp_all add: cell_load_def sys_load_def)
qed

lemma adm_admit_undo: "adm_admit b p d a = (a', Inr r) \<Longrightarrow> adm_release r a' = a"
  by (auto simp: adm_admit_def adm_release_def Let_def split: if_splits)

lemma reserve_charge_cases:
  obtains (refused) er where "reserve_charge c b p d s = (s, status_of er)"
  | (admitted) a a' r where "adm_admit b p d (SYSTEM s) = (a, Inr r)" and "adm_admit b p d (cell_adm s ! c) = (a', Inr r)"
      and "reserve_charge c b p d s =
        (s\<lparr>SYSTEM := a, cell_adm := (cell_adm s)[c := a'], res_held := (c, r, r) # res_held s\<rparr>, 0)"
proof -
  obtain a r where sys: "adm_admit b p d (SYSTEM s) = (a, r)" by force
  obtain a' r' where cel: "adm_admit b p d (cell_adm s ! c) = (a', r')" by force
  show ?thesis
  proof (cases r)
    case (Inl er)
    with adm_admit_cases [OF sys] have "a = SYSTEM s" by simp
    with sys Inl show ?thesis by (intro refused [of er]) (simp add: reserve_charge_def system_admit_def)
  next
    case (Inr x)
    show ?thesis
    proof (cases r')
      case (Inl er)
      with adm_admit_cases [OF cel] have "a' = cell_adm s ! c" by simp
      with sys cel Inl Inr adm_admit_undo [of b p d "SYSTEM s" a x] show ?thesis
        by (intro refused [of er]) (simp add: reserve_charge_def system_admit_def system_release_def)
    next
      case r': (Inr y)
      have "y = x"
        using adm_admit_cases [OF sys] adm_admit_cases [OF cel] Inr r' by simp
      with sys cel Inr r' show ?thesis
        by (intro admitted [of a x a']) (simp_all add: reserve_charge_def system_admit_def)
    qed
  qed
qed

lemma contracts_invD:
  assumes "contracts_inv s"
  shows "committed_ppm (SYSTEM s) = sys_load (res_held s)" "sys_load (res_held s) \<le> FULL_PPM"
    "\<And>c. c < length (cell_adm s) \<Longrightarrow> committed_ppm (cell_adm s ! c) = cell_load c (res_held s) \<and> cell_load c (res_held s) \<le> FULL_PPM"
    "\<And>cell res sys_res. (cell, res, sys_res) \<in> set (res_held s) \<Longrightarrow> cell < length (cell_adm s) \<and> well_priced res \<and> sys_res = res"
  using assms unfolding contracts_inv_def by auto

lemma reserve_charge_inv:
  assumes inv: "contracts_inv s" and c: "c < length (cell_adm s)"
  shows "contracts_inv (fst (reserve_charge c b p d s))"
proof (cases rule: reserve_charge_cases [of c b p d s])
  case (refused er)
  then show ?thesis using inv by simp
next
  case (admitted a a' r)
  note I = contracts_invD [OF inv]
  from adm_admit_cases [OF admitted(1)] have
    sys: "well_priced r" "committed_ppm a = committed_ppm (SYSTEM s) + util_ppm r" "committed_ppm a \<le> FULL_PPM" by auto
  from adm_admit_cases [OF admitted(2)] have
    cel: "committed_ppm a' = committed_ppm (cell_adm s ! c) + util_ppm r" "committed_ppm a' \<le> FULL_PPM" by auto
  have "committed_ppm ((cell_adm s)[c := a'] ! i) = cell_load i ((c, r, r) # res_held s) \<and>
      cell_load i ((c, r, r) # res_held s) \<le> FULL_PPM" if "i < length (cell_adm s)" for i
    using I(3) [OF that] cel c by (cases "i = c") (auto simp: cell_load_def)
  moreover have "sys_load ((c, r, r) # res_held s) = committed_ppm a" using I(1) sys(2) by (simp add: sys_load_def)
  ultimately show ?thesis using sys I(4) c admitted(3) by (auto simp: contracts_inv_def)
qed

lemma reserve_uncharge_inv:
  assumes inv: "contracts_inv s"
  shows "contracts_inv (reserve_uncharge n s)"
proof (cases "n < length (res_held s)")
  case False
  then show ?thesis using inv by (simp add: reserve_uncharge_def)
next
  case True
  obtain c res sys_res where e: "res_held s ! n = (c, res, sys_res)" by (cases "res_held s ! n") auto
  let ?rs = "take n (res_held s) @ drop (Suc n) (res_held s)"
  note I = contracts_invD [OF inv] and drop = load_drop [OF True e]
  have sub: "set ?rs \<subseteq> set (res_held s)" using set_take_subset set_drop_subset by fastforce
  have c: "c < length (cell_adm s)" "sys_res = res" using I(4) nth_mem [OF True] e by auto
  let ?a = "(cell_adm s)[c := adm_release res (cell_adm s ! c)]"
  have "committed_ppm (?a ! i) = cell_load i ?rs \<and> cell_load i ?rs \<le> FULL_PPM" if "i < length (cell_adm s)" for i
    using I(3) [OF that] drop(1) [of i] c that by (auto simp: nth_list_update adm_release_def)
  moreover have "committed_ppm (SYSTEM s) - util_ppm sys_res = sys_load ?rs" "sys_load ?rs \<le> FULL_PPM"
    using I(1,2) drop(2) by simp_all
  moreover have "reserve_uncharge n s = s\<lparr>SYSTEM := adm_release sys_res (SYSTEM s), cell_adm := ?a, res_held := ?rs\<rparr>"
    using True e by (simp add: reserve_uncharge_def Let_def system_release_def)
  ultimately show ?thesis using I(4) sub by (auto simp: contracts_inv_def adm_release_def)
qed

datatype contract_op = Reserve nat nat nat nat | Unreserve nat

fun contract_step :: "contracts \<Rightarrow> contract_op \<Rightarrow> contracts" where
  "contract_step s (Reserve c b p d) = (if c < length (cell_adm s) then fst (reserve_charge c b p d s) else s)"
| "contract_step s (Unreserve n) = reserve_uncharge n s"

interpretation am: machine contract_step "\<lambda>_ _. True" contracts_inv
proof
  fix s x assume "contracts_inv s"
  then show "contracts_inv (contract_step s x)"
    by (cases x) (auto intro: reserve_charge_inv reserve_uncharge_inv)
qed

definition contracts_new :: "nat \<Rightarrow> contracts" where
  "contracts_new n = \<lparr> SYSTEM = admission_new, cell_adm = replicate n admission_new, res_held = [] \<rparr>"

lemma contracts_inv_new: "contracts_inv (contracts_new n)"
  by (simp add: contracts_inv_def contracts_new_def admission_new_def sys_load_def cell_load_def)

lemma utilisation_of:
  assumes "well_priced r" and "r_budget r * FULL_PPM \<le> usize_max"
  shows "real (r_budget r) / real (r_period r) \<le> (real (util_ppm r) + 1) / real FULL_PPM"
proof -
  have "util_ppm r = r_budget r * FULL_PPM div r_period r" "0 < r_period r"
    using assms by (auto simp: well_priced_def)
  then have "r_budget r * FULL_PPM < (util_ppm r + 1) * r_period r"
    using dividend_less_div_times [of "r_period r" "r_budget r * FULL_PPM"] by (simp add: algebra_simps)
  then have "real (r_budget r) * real FULL_PPM \<le> (real (util_ppm r) + 1) * real (r_period r)"
    by (metis of_nat_1 of_nat_add of_nat_le_iff of_nat_mult less_imp_le)
  then show ?thesis using \<open>0 < r_period r\<close> by (simp add: FULL_PPM_def divide_simps)
qed

lemma utilisation_sum:
  "(\<And>c r q. (c, r, q) \<in> set rs \<Longrightarrow> q = r \<and> well_priced r \<and> r_budget r * FULL_PPM \<le> usize_max) \<Longrightarrow>
   (\<Sum>(c, r, q)\<leftarrow>rs. real (r_budget r) / real (r_period r)) \<le> (real (sys_load rs) + real (length rs)) / real FULL_PPM"
proof (induction rs)
  case Nil
  then show ?case by (simp add: sys_load_def)
next
  case (Cons x rs)
  obtain c r q where x: "x = (c, r, q)" by (cases x) auto
  from Cons.prems x have "q = r" "well_priced r" "r_budget r * FULL_PPM \<le> usize_max" by auto
  with utilisation_of [of r] have "real (r_budget r) / real (r_period r) \<le> (real (util_ppm q) + 1) / real FULL_PPM" by simp
  moreover have "(\<Sum>(c, r, q)\<leftarrow>rs. real (r_budget r) / real (r_period r)) \<le> (real (sys_load rs) + real (length rs)) / real FULL_PPM"
    using Cons by auto
  ultimately show ?case by (simp add: x sys_load_def add_divide_distrib)
qed

text \<open>
  Why the bound below needs small budgets: the product saturates, so a reservation of a whole CPU with
  a period of \<open>2 ^ 63\<close> ticks is priced at one part per million, and a million of them fit.
\<close>

lemma saturated_price:
  "adm_admit (2 ^ 63) (2 ^ 63) (2 ^ 63) admission_new =
     (\<lparr>committed_ppm = 1\<rparr>, Inr \<lparr> r_budget = 2 ^ 63, r_period = 2 ^ 63, r_deadline = 2 ^ 63, util_ppm = 1 \<rparr>)"
  by (simp add: adm_admit_def admission_new_def sat_mul_def usize_max_def FULL_PPM_def Let_def)

text \<open>Reservations below one part per million are free: any number of them is admitted.\<close>

lemma tiny_is_free:
  "adm_admit 1 1000001 1000001 a = (a', r) \<Longrightarrow> committed_ppm a \<le> FULL_PPM \<Longrightarrow>
   a' = a \<and> r = Inr \<lparr> r_budget = 1, r_period = 1000001, r_deadline = 1000001, util_ppm = 0 \<rparr>"
  by (auto simp: adm_admit_def sat_mul_def usize_max_def FULL_PPM_def Let_def split: if_splits)

section \<open>Fencing\<close>

datatype lease_op = Acquire u64 u64 | Renew nat u64 u64 | Act nat u64 | Revoke

text \<open>
  One resource and everyone who holds a lease on it: the token counter, the leases taken (newest first,
  each for the epoch current then), the resource, and the tokens of the actions it accepted (newest
  first). The epoch is counted without wrapping next to the 32-bit one.
\<close>

record lease_world =
  NEXT_TOKEN :: u64
  leases :: "lease list"
  resource :: fenced_resource
  accepted :: "u64 list"
  revocations :: nat

fun lease_step :: "lease_world \<Rightarrow> lease_op \<Rightarrow> lease_world" where
  "lease_step w (Acquire now ttl) =
     (let (t, l) = lease_acquire now ttl (f_epoch (resource w)) (NEXT_TOKEN w)
      in w\<lparr>NEXT_TOKEN := t, leases := l # leases w\<rparr>)"
| "lease_step w (Renew i now ttl) =
     (if i < length (leases w) then w\<lparr>leases := (leases w)[i := lease_renew now ttl (leases w ! i)]\<rparr> else w)"
| "lease_step w (Act i now) =
     (if i < length (leases w)
      then case act now (leases w ! i) (resource w) of
             (f, Inl _) \<Rightarrow> w\<lparr>resource := f\<rparr>
           | (f, Inr _) \<Rightarrow> w\<lparr>resource := f, accepted := token (leases w ! i) # accepted w\<rparr>
      else w)"
| "lease_step w Revoke = w\<lparr>resource := lease_revoke_epoch (resource w), revocations := revocations w + 1\<rparr>"

definition lease_world_new :: lease_world where
  "lease_world_new = \<lparr> NEXT_TOKEN = 1, leases = [], resource = fenced_new, accepted = [], revocations = 0 \<rparr>"

definition lease_inv :: "lease_world \<Rightarrow> bool" where
  "lease_inv w \<longleftrightarrow> sorted_wrt (\<ge>) (accepted w) \<and>
     (\<forall>t \<in> set (accepted w). t \<le> highest_token (resource w)) \<and>
     f_epoch (resource w) = of_nat (revocations w) \<and>
     (\<forall>l \<in> set (leases w). \<exists>e \<le> revocations w. l_epoch l = of_nat e)"

lemma lease_renew_epoch: "i < length ls \<Longrightarrow> l \<in> set (ls[i := lease_renew now ttl (ls ! i)]) \<Longrightarrow> \<exists>l' \<in> set ls. l_epoch l = l_epoch l'"
  using set_update_subset_insert [of ls i "lease_renew now ttl (ls ! i)"] by (force simp: lease_renew_def)

interpretation lw: machine lease_step "\<lambda>_ _. True" lease_inv
proof
  fix w x assume inv: "lease_inv w"
  show "lease_inv (lease_step w x)"
  proof (cases x)
    case (Acquire now ttl)
    then show ?thesis using inv by (auto simp: lease_inv_def lease_acquire_def)
  next
    case (Renew i now ttl)
    then show ?thesis using inv lease_renew_epoch by (fastforce simp: lease_inv_def)
  next
    case (Act i now)
    then show ?thesis using inv by (auto simp: lease_inv_def act_def not_less intro: order_trans)
  next
    case Revoke
    have "\<exists>e \<le> revocations w + 1. l_epoch l = of_nat e" if "l \<in> set (leases w)" for l
      using inv that unfolding lease_inv_def by (meson le_add1 order_trans)
    with Revoke inv show ?thesis by (simp add: lease_inv_def lease_revoke_epoch_def)
  qed
qed

lemma lease_inv_run: "lease_inv (run_ops lease_step lease_world_new ops)"
  by (rule lw.run_inv) (simp_all add: lease_inv_def lease_world_new_def fenced_new_def)

lemma of_nat_u32_eq: "a < 2 ^ 32 \<Longrightarrow> b < 2 ^ 32 \<Longrightarrow> (of_nat a :: u32) = of_nat b \<longleftrightarrow> a = b"
  by (auto dest!: arg_cong [of _ _ unat] simp: unsigned_of_nat take_bit_nat_eq_self)

section \<open>Properties\<close>



text \<open>
  The charging of \<^verbatim>\<open>SYS_RESERVE\<close> is all or nothing. Its status is
  1 exactly for bad parameters, 2 exactly when the machine or the cell would be over-committed, and 0
  otherwise; with a non-zero status neither ledger has moved, with 0 both have moved by the same price.
\<close>

theorem reserve_refused_cleanly:
  assumes "c < length (cell_adm s)" and "reserve_charge c b p d s = (s', st)"
  shows "st = (if p = 0 \<or> d = 0 \<or> p < d \<or> p < b then 1
      else if FULL_PPM < committed_ppm (SYSTEM s) + sat_mul b FULL_PPM div p \<or>
              FULL_PPM < committed_ppm (cell_adm s ! c) + sat_mul b FULL_PPM div p then 2 else 0) \<and>
    (if st = 0 then committed_ppm (SYSTEM s') = committed_ppm (SYSTEM s) + sat_mul b FULL_PPM div p \<and>
       committed_ppm (cell_adm s' ! c) = committed_ppm (cell_adm s ! c) + sat_mul b FULL_PPM div p
     else s' = s)"
proof -
  have st: "st = (if p = 0 \<or> d = 0 \<or> p < d \<or> p < b then 1
      else if FULL_PPM < committed_ppm (SYSTEM s) + sat_mul b FULL_PPM div p \<or>
              FULL_PPM < committed_ppm (cell_adm s ! c) + sat_mul b FULL_PPM div p then 2 else 0)"
    using assms(2) by (auto simp: reserve_charge_def system_admit_def adm_admit_def status_of_def Let_def split: if_splits)
  show ?thesis
  proof (cases rule: reserve_charge_cases [of c b p d s])
    case (refused er)
    then have "s' = s" "st \<noteq> 0" using assms(2) by (auto simp: status_of_def split: admit_error.splits)
    with st show ?thesis by simp
  next
    case (admitted a a' r)
    from adm_admit_cases [OF admitted(1)] adm_admit_cases [OF admitted(2)] admitted(3) assms st show ?thesis by auto
  qed
qed

theorem reserve_refused_cleanly_witness:
  "reserve_charge 0 6 10 10 (fst (reserve_charge 1 6 10 10 (contracts_new 2))) =
     (fst (reserve_charge 1 6 10 10 (contracts_new 2)), 2)"
proof -
  define s where "s = fst (reserve_charge 1 6 10 10 (contracts_new 2))"
  have s: "length (cell_adm s) = 2" "committed_ppm (SYSTEM s) = 600000"
    by (simp_all add: s_def reserve_charge_def system_admit_def adm_admit_def contracts_new_def admission_new_def
        FULL_PPM_def sat_mul_def usize_max_def)
  obtain s' st where r: "reserve_charge 0 6 10 10 s = (s', st)" by force
  have "0 < length (cell_adm s)" using s(1) by simp
  from reserve_refused_cleanly [OF this r] s(2) have "st = 2" "s' = s"
    by (auto simp: FULL_PPM_def sat_mul_def usize_max_def split: if_splits)
  with r show ?thesis unfolding s_def by simp
qed

text \<open>
  C37: a fenced resource honours its holders in token order and never a revoked one. In
  every history of acquisitions, renewals, actions and revocations by any number of holders, the tokens
  of the accepted actions never go back; and a lease taken before a revocation is refused as expired by
  every later action, renewed or not, for the next \<open>2 ^ 32\<close> revocations.
\<close>

theorem fencing:
  assumes "run_ops lease_step lease_world_new ops = w" and "l \<in> set (leases w)"
    and "run_ops lease_step w ops' = w'" and "revocations w < revocations w'" and "revocations w' < 2 ^ 32"
  shows "sorted_wrt (\<ge>) (accepted w') \<and> act now l (resource w') = (resource w', Inl Expired) \<and>
    act now (lease_renew t ttl l) (resource w') = (resource w', Inl Expired)"
proof -
  have inv: "lease_inv w" using lease_inv_run [of ops] assms(1) by simp
  have inv': "lease_inv w'" using lw.run_inv [OF inv, of ops'] assms(3) by simp
  from inv assms(2) obtain e where e: "e \<le> revocations w" "l_epoch l = of_nat e" by (auto simp: lease_inv_def)
  have "l_epoch l \<noteq> f_epoch (resource w')"
    using e inv' assms(4,5) of_nat_u32_eq [of e "revocations w'"] by (auto simp: lease_inv_def)
  with inv' show ?thesis by (simp add: lease_inv_def act_def lease_renew_def)
qed

theorem fencing_witness:
  "act 5 \<lparr> token = 1, expiry = 100, l_epoch = 0 \<rparr> (resource (run_ops lease_step lease_world_new [Acquire 0 100, Act 0 1, Revoke])) =
     (resource (run_ops lease_step lease_world_new [Acquire 0 100, Act 0 1, Revoke]), Inl Expired)"
proof -
  let ?w = "run_ops lease_step lease_world_new [Acquire 0 100, Act 0 1]"
  have w: "\<lparr> token = 1, expiry = 100, l_epoch = 0 \<rparr> \<in> set (leases ?w)" "revocations ?w = 0"
    "revocations (run_ops lease_step ?w [Revoke]) = 1"
    by (simp_all add: lease_world_new_def lease_acquire_def fenced_new_def act_def valid_at_def)
  have "run_ops lease_step lease_world_new [Acquire 0 100, Act 0 1, Revoke] = run_ops lease_step ?w [Revoke]" by simp
  with fencing [OF refl w(1) refl, of "[Revoke]" 5] w(2,3) show ?thesis by simp
qed

end
