(* ===== verification/Spans.thy ===== *)
theory Spans
  imports Rheo_Prelude
begin

text \<open>
  Tables of address spans. The mapping list of a Linux cell and the region table of an address space are
  both lists of slots, each covering some addresses or none, in which no two slots cover the same address.
  Lookup is by first match. \<open>cov r a\<close> says that slot \<open>r\<close> covers address \<open>a\<close>.
\<close>

definition apart_spans :: "('r \<Rightarrow> nat \<Rightarrow> bool) \<Rightarrow> 'r list \<Rightarrow> bool" where
  "apart_spans cov rs \<longleftrightarrow>
     (\<forall>i < length rs. \<forall>j < length rs. i \<noteq> j \<longrightarrow> (\<forall>a. \<not> (cov (rs ! i) a \<and> cov (rs ! j) a)))"

definition span_at :: "('r \<Rightarrow> nat \<Rightarrow> bool) \<Rightarrow> 'r list \<Rightarrow> nat \<Rightarrow> 'r option" where
  "span_at cov rs a = find (\<lambda>r. cov r a) rs"

lemma apart_spans_short [simp]: "apart_spans cov []" "apart_spans cov [r]"
  by (simp_all add: apart_spans_def)

lemma apart_spansD:
  assumes "apart_spans cov rs" and "i < length rs" and "j < length rs" and "cov (rs ! i) a" and "cov (rs ! j) a"
  shows "i = j"
  using assms unfolding apart_spans_def by blast

lemma span_at_None: "span_at cov rs a = None \<longleftrightarrow> (\<forall>i < length rs. \<not> cov (rs ! i) a)"
  by (auto simp: span_at_def find_None_iff in_set_conv_nth)

lemma span_at_SomeD:
  assumes "span_at cov rs a = Some r"
  obtains i where "i < length rs" and "rs ! i = r" and "cov r a"
  using assms unfolding span_at_def find_Some_iff by blast

lemma span_at_Some:
  assumes "apart_spans cov rs" and "i < length rs" and "cov (rs ! i) a"
  shows "span_at cov rs a = Some (rs ! i)"
proof (cases "span_at cov rs a")
  case None
  then show ?thesis using assms(2,3) span_at_None by blast
next
  case (Some r)
  then obtain j where "j < length rs" "rs ! j = r" "cov r a" by (rule span_at_SomeD)
  with apart_spansD [OF assms(1,2), of j a] assms(3) Some show ?thesis by simp
qed

text \<open>Replacing slot \<open>i\<close> by one that keeps clear of the others.\<close>

lemma apart_write:
  assumes ap: "apart_spans cov rs"
    and clear: "\<And>j a. j < length rs \<Longrightarrow> j \<noteq> i \<Longrightarrow> cov r a \<Longrightarrow> \<not> cov (rs ! j) a"
  shows "apart_spans cov (rs[i := r])"
proof -
  have "\<not> (cov (rs[i := r] ! p) a \<and> cov (rs[i := r] ! q) a)" if "p < length rs" "q < length rs" "p \<noteq> q" for p q a
    using that clear [of p a] clear [of q a] apart_spansD [OF ap that(1,2), of a] by (cases "p = i"; cases "q = i") auto
  then show ?thesis unfolding apart_spans_def by simp
qed

lemma span_at_write:
  assumes ap: "apart_spans cov rs" "apart_spans cov (rs[i := r])" and i: "i < length rs"
  shows "span_at cov (rs[i := r]) a =
    (if cov r a then Some r else if cov (rs ! i) a then None else span_at cov rs a)"
proof -
  have new: "span_at cov (rs[i := r]) a = Some r" if "cov r a"
    using span_at_Some [OF ap(2), of i a] that i by simp
  have gone: "span_at cov (rs[i := r]) a = None" if "\<not> cov r a" "cov (rs ! i) a"
  proof -
    have "\<not> cov (rs[i := r] ! j) a" if "j < length rs" for j
      using apart_spansD [OF ap(1) i that \<open>cov (rs ! i) a\<close>] \<open>\<not> cov r a\<close> that by (cases "j = i") auto
    then show ?thesis using span_at_None [of cov "rs[i := r]" a] by simp
  qed
  have same: "span_at cov (rs[i := r]) a = span_at cov rs a" if "\<not> cov r a" "\<not> cov (rs ! i) a"
  proof (cases "span_at cov rs a")
    case None
    then have "\<not> cov (rs[i := r] ! j) a" if "j < length rs" for j
      using that span_at_None \<open>\<not> cov r a\<close> by (cases "j = i") auto
    with None show ?thesis using span_at_None [of cov "rs[i := r]" a] by simp
  next
    case (Some x)
    then obtain j where j: "j < length rs" "rs ! j = x" "cov x a" by (rule span_at_SomeD)
    then have "j \<noteq> i" using that by auto
    with span_at_Some [OF ap(2), of j a] j Some show ?thesis by simp
  qed
  from new gone same show ?thesis by simp
qed

lemma apart_append:
  assumes ap: "apart_spans cov rs" and clear: "\<And>j a. j < length rs \<Longrightarrow> cov r a \<Longrightarrow> \<not> cov (rs ! j) a"
  shows "apart_spans cov (rs @ [r])"
proof -
  have "\<not> (cov ((rs @ [r]) ! p) a \<and> cov ((rs @ [r]) ! q) a)" if "p \<le> length rs" "q \<le> length rs" "p \<noteq> q" for p q a
    using that clear [of p a] clear [of q a] apart_spansD [OF ap, of p q a]
    by (cases "p = length rs"; cases "q = length rs") (auto simp: nth_append)
  then show ?thesis unfolding apart_spans_def by (simp add: less_Suc_eq_le)
qed

lemma span_at_append:
  "span_at cov (rs @ [r]) a = (case span_at cov rs a of Some x \<Rightarrow> Some x | None \<Rightarrow> if cov r a then Some r else None)"
  by (induction rs) (auto simp: span_at_def)

text \<open>Slots that cover nothing may be added.\<close>

lemma apart_empties:
  assumes "apart_spans cov rs" and "\<And>a. \<not> cov z a"
  shows "apart_spans cov (rs @ replicate n z)"
proof (induction n)
  case 0
  then show ?case using assms(1) by simp
next
  case (Suc n)
  then have "apart_spans cov ((rs @ replicate n z) @ [z])" by (rule apart_append) (use assms(2) in blast)
  then show ?case by (simp add: replicate_append_same)
qed

lemma span_at_empties: "(\<And>a. \<not> cov z a) \<Longrightarrow> span_at cov (rs @ replicate n z) a = span_at cov rs a"
  by (induction rs) (auto simp: span_at_def find_None_iff)

end
