(* ===== verification/Vma.thy ===== *)
theory Vma
  imports Kmeta Spans
begin

text \<open>
  The mappings of a Linux cell, \<^verbatim>\<open>kernel/src/linux/vma.rs\<close>: a funded table of records, one per mapping,
  with split and merge, and the reference counts of \<^verbatim>\<open>kernel/src/linux/filemap.rs\<close> that the records hold.

  Addresses, lengths and file offsets are naturals; sums that the source checks or saturates are written
  so, the others are exact for ranges that end inside the address space, which is part of the invariant.
  The outer option is a panic of the table's memory. A diagnostic printed because a record was dropped is
  counted in \<open>lost_tails\<close>. Opening files and reading their bytes is behind the file service and not modelled.
\<close>

section \<open>The registry of mapped files\<close>

type_synonym handle = nat

record mapped_file =
  mf_used :: bool
  mf_refs :: nat

definition mapped_file_new :: mapped_file where
  "mapped_file_new = \<lparr> mf_used = False, mf_refs = 0 \<rparr>"

text \<open>\<open>released\<close> logs the entries whose store was given back to the file service.\<close>

record filereg =
  TBL :: "mapped_file list"
  released :: "handle list"

definition fm_alive :: "handle \<Rightarrow> filereg \<Rightarrow> bool" where
  "fm_alive h f \<longleftrightarrow> h < length (TBL f) \<and> mf_used (TBL f ! h)"

definition fm_addref :: "handle \<Rightarrow> filereg \<Rightarrow> filereg" where
  "fm_addref h f =
     (if h < length (TBL f) \<and> mf_used (TBL f ! h)
      then f\<lparr>TBL := (TBL f)[h := (TBL f ! h)\<lparr>mf_refs := min (mf_refs (TBL f ! h) + 1) 65535\<rparr>]\<rparr> else f)"

definition fm_close :: "handle \<Rightarrow> filereg \<Rightarrow> filereg" where
  "fm_close h f =
     (if h < length (TBL f) \<and> mf_used (TBL f ! h)
      then let e = (TBL f ! h)\<lparr>mf_refs := mf_refs (TBL f ! h) - 1\<rparr>
           in if mf_refs e = 0 then f\<lparr>TBL := (TBL f)[h := mapped_file_new], released := h # released f\<rparr>
              else f\<lparr>TBL := (TBL f)[h := e]\<rparr>
      else f)"

definition close_opt :: "handle option \<Rightarrow> filereg \<Rightarrow> filereg" where
  "close_opt h f = (case h of None \<Rightarrow> f | Some h \<Rightarrow> fm_close h f)"

definition addref_opt :: "handle option \<Rightarrow> filereg \<Rightarrow> filereg" where
  "addref_opt h f = (case h of None \<Rightarrow> f | Some h \<Rightarrow> fm_addref h f)"

section \<open>Records\<close>

definition INITIAL_VMAS :: nat where "INITIAL_VMAS = 128"
definition VMA_CEILING :: nat where "VMA_CEILING = 65536"

record backing =
  b_file :: handle
  b_off :: nat
  b_len :: nat

record vma =
  v_base :: nat
  v_len :: nat
  v_prot :: u64
  v_flags :: u64
  v_file :: "handle option"
  v_file_off :: nat
  v_file_len :: nat
  v_advice :: u16

definition ADV_DONTFORK :: u16 where "ADV_DONTFORK = 1"
definition ADV_WIPEONFORK :: u16 where "ADV_WIPEONFORK = 2"

definition VMA_EMPTY :: vma where
  "VMA_EMPTY = \<lparr> v_base = 0, v_len = 0, v_prot = 0, v_flags = 0, v_file = None, v_file_off = 0, v_file_len = 0,
     v_advice = 0 \<rparr>"

definition has_advice :: "u16 \<Rightarrow> vma \<Rightarrow> bool" where
  "has_advice b m \<longleftrightarrow> v_advice m AND b \<noteq> 0"

definition avail_at :: "vma \<Rightarrow> nat \<Rightarrow> nat" where
  "avail_at m at = v_file_len m - (at - v_base m)"

definition v_end :: "vma \<Rightarrow> nat" where
  "v_end m = v_base m + v_len m"

definition file_page :: "nat \<Rightarrow> vma \<Rightarrow> (handle \<times> nat \<times> nat) option" where
  "file_page addr m = (case v_file m of None \<Rightarrow> None
     | Some h \<Rightarrow>
         let page = addr - addr mod FRAME_SIZE; avail = min (avail_at m page) FRAME_SIZE
         in if 0 < avail then Some (h, v_file_off m + (page - v_base m), avail) else None)"

text \<open>An empty record is all zero bytes, so the slots of a new frame are free.\<close>

definition vma_ty :: "vma elem_ty" where
  "vma_ty = \<lparr> ty_size = 56, ty_align = 8, ty_zero = VMA_EMPTY \<rparr>"

record vmas =
  vmem :: kmem
  vtab :: "vma funded"
  vfiles :: filereg
  lost_tails :: nat

abbreviation records :: "vmas \<Rightarrow> vma list" where
  "records s \<equiv> contents (vtab s)"

definition put_rec :: "nat \<Rightarrow> vma \<Rightarrow> vmas \<Rightarrow> vmas" where
  "put_rec i m s = (case funded_set vma_ty i m (vtab s) of Some (t, _) \<Rightarrow> s\<lparr>vtab := t\<rparr> | None \<Rightarrow> s)"

section \<open>Queries\<close>

definition live_recs :: "vma list \<Rightarrow> vma list" where
  "live_recs ms = filter (\<lambda>m. v_len m \<noteq> 0) ms"

definition rec_position :: "(vma \<Rightarrow> bool) \<Rightarrow> vma list \<Rightarrow> nat option" where
  "rec_position P ms = find_idx (\<lambda>m. v_len m \<noteq> 0 \<and> P m) ms"

definition covers :: "vma \<Rightarrow> nat \<Rightarrow> bool" where
  "covers m a \<longleftrightarrow> v_len m \<noteq> 0 \<and> v_base m \<le> a \<and> a < v_end m"

definition vfind :: "vma list \<Rightarrow> nat \<Rightarrow> vma option" where
  "vfind ms addr = find (\<lambda>m. v_base m \<le> addr \<and> addr < v_end m) (live_recs ms)"

definition vcount :: "vma list \<Rightarrow> nat" where
  "vcount ms = length (live_recs ms)"

definition overlap_ends :: "vma list \<Rightarrow> nat \<Rightarrow> nat \<Rightarrow> nat list" where
  "overlap_ends ms lo hi = map v_end (filter (\<lambda>m. v_base m < hi \<and> lo < v_end m) (live_recs ms))"

lemma overlap_ends_gt: "p \<in> set (overlap_ends ms lo hi) \<Longrightarrow> lo < p"
  by (auto simp: overlap_ends_def)

function find_free_from :: "vma list \<Rightarrow> nat \<Rightarrow> nat \<Rightarrow> nat \<Rightarrow> nat option" where
  "find_free_from ms candidate hi bytes =
     (case checked_add candidate bytes of None \<Rightarrow> None
      | Some e \<Rightarrow>
          if hi < e then None
          else case overlap_ends ms candidate e of
                 [] \<Rightarrow> Some candidate
               | p # ps \<Rightarrow> find_free_from ms (Max (set (p # ps))) hi bytes)"
  by pat_completeness auto

termination
proof (relation "measure (\<lambda>(ms, candidate, hi, bytes). Suc hi - candidate)")
  fix ms candidate hi bytes e p ps
  assume "checked_add candidate bytes = Some e" "\<not> hi < e" and eq: "overlap_ends ms candidate e = p # ps"
  then have "candidate \<le> hi" by simp
  moreover have "Max (set (p # ps)) \<in> set (overlap_ends ms candidate e)" unfolding eq by (rule Max_in) simp_all
  then have "candidate < Max (set (p # ps))" by (rule overlap_ends_gt)
  ultimately show "((ms, Max (set (p # ps)), hi, bytes), ms, candidate, hi, bytes) \<in>
      measure (\<lambda>(ms, candidate, hi, bytes). Suc hi - candidate)" by simp
qed simp

definition find_free :: "vma list \<Rightarrow> nat \<Rightarrow> nat \<Rightarrow> nat \<Rightarrow> nat option" where
  "find_free ms lo hi bytes = find_free_from ms lo hi bytes"

definition overlaps :: "vma list \<Rightarrow> nat \<Rightarrow> nat \<Rightarrow> bool" where
  "overlaps ms base bytes \<longleftrightarrow> list_ex (\<lambda>m. v_base m < sat_add base bytes \<and> base < v_end m) (live_recs ms)"

definition advice_would_widen :: "vma list \<Rightarrow> nat \<Rightarrow> nat \<Rightarrow> bool" where
  "advice_would_widen ms base bytes \<longleftrightarrow>
     (let e = sat_add base bytes
      in list_ex (\<lambda>m. base < v_end m \<and> v_base m < e \<and> (v_base m < base \<or> e < v_end m)) (live_recs ms))"

definition overlapping :: "vma list \<Rightarrow> nat \<Rightarrow> nat \<Rightarrow> vma list" where
  "overlapping ms base bytes = filter (\<lambda>m. base < v_end m \<and> v_base m < sat_add base bytes) (live_recs ms)"

definition with_advice :: "vma list \<Rightarrow> u16 \<Rightarrow> vma list" where
  "with_advice ms b = filter (\<lambda>m. v_advice m AND b \<noteq> 0) (live_recs ms)"

section \<open>Updates\<close>

definition vfree_slot :: "vmas \<Rightarrow> (vmas \<times> nat option) option" where
  "vfree_slot s =
     (case find_idx (\<lambda>m. v_len m = 0) (records s) of
        Some i \<Rightarrow> Some (s, Some i)
      | None \<Rightarrow>
          let c = cap (vtab s); want = (if c = 0 then INITIAL_VMAS else min (c * 2) VMA_CEILING)
          in if want \<le> c then Some (s, None)
             else do { ((k, t), ok) \<leftarrow> reserve vma_ty want (vmem s, vtab s);
                       Some (s\<lparr>vmem := k, vtab := t\<rparr>, if ok then Some c else None) })"

definition trim_tail :: "nat \<Rightarrow> vma \<Rightarrow> vma" where
  "trim_tail base m = m\<lparr>v_len := base - v_base m, v_file_len := min (v_file_len m) (base - v_base m)\<rparr>"

definition trim_head :: "nat \<Rightarrow> vma \<Rightarrow> vma" where
  "trim_head e m = m\<lparr>v_base := e, v_len := v_end m - e, v_file_off := v_file_off m + (e - v_base m),
     v_file_len := avail_at m e\<rparr>"

text \<open>One iteration of the loop of \<^verbatim>\<open>remove\<close> over \<open>[base, e)\<close>.\<close>

definition remove_slot :: "nat \<Rightarrow> nat \<Rightarrow> nat \<Rightarrow> vmas \<Rightarrow> vmas option" where
  "remove_slot base e i s =
     (case nth_opt (records s) i of None \<Rightarrow> Some s
      | Some m \<Rightarrow>
          if v_len m = 0 \<or> e \<le> v_base m \<or> v_end m \<le> base then Some s
          else if v_base m < base \<and> e < v_end m
          then do { (s1, r) \<leftarrow> vfree_slot (put_rec i (trim_tail base m) s);
                    case r of
                      Some j \<Rightarrow> Some (put_rec j (trim_head e m) (s1\<lparr>vfiles := addref_opt (v_file m) (vfiles s1)\<rparr>))
                    | None \<Rightarrow> Some (s1\<lparr>lost_tails := lost_tails s1 + 1\<rparr>) }
          else if v_base m < base then Some (put_rec i (trim_tail base m) s)
          else if e < v_end m then Some (put_rec i (trim_head e m) s)
          else Some (put_rec i VMA_EMPTY (s\<lparr>vfiles := close_opt (v_file m) (vfiles s)\<rparr>)))"

definition vremove :: "nat \<Rightarrow> nat \<Rightarrow> vmas \<Rightarrow> vmas option" where
  "vremove base bytes s =
     (if bytes = 0 then Some s
      else for_each (remove_slot base (base + bytes)) [0..<cap (vtab s)] s)"

definition backing_parts :: "backing option \<Rightarrow> handle option \<times> nat \<times> nat" where
  "backing_parts b = (case b of Some b \<Rightarrow> (Some (b_file b), b_off b, b_len b) | None \<Rightarrow> (None, 0, 0))"

definition joins_below :: "vma \<Rightarrow> vma \<Rightarrow> bool" where
  "joins_below new m \<longleftrightarrow> v_len m \<noteq> 0 \<and> v_end m = v_base new \<and> v_prot m = v_prot new \<and> v_flags m = v_flags new \<and>
     v_file m = v_file new \<and>
     (v_file new = None \<or> v_len new \<le> v_file_len new \<and> v_len m \<le> v_file_len m \<and> v_file_off m + v_len m = v_file_off new)"

definition joins_above :: "vma \<Rightarrow> vma \<Rightarrow> bool" where
  "joins_above new m \<longleftrightarrow> v_len m \<noteq> 0 \<and> v_base m = v_end new \<and> v_prot m = v_prot new \<and> v_flags m = v_flags new \<and>
     v_file m = v_file new \<and>
     (v_file new = None \<or> v_len new \<le> v_file_len new \<and> v_len m \<le> v_file_len m \<and> v_file_off new + v_len new = v_file_off m)"

definition file_len_of :: "handle option \<Rightarrow> nat \<Rightarrow> nat" where
  "file_len_of f n = (if f \<noteq> None then n else 0)"

text \<open>The end of \<^verbatim>\<open>insert_backed\<close>: merge the new record with its neighbours or give it a slot.\<close>

definition place :: "vma \<Rightarrow> vmas \<Rightarrow> (vmas \<times> bool) option" where
  "place new s =
     (let ms = records s;
          before = rec_position (joins_below new) ms;
          after = rec_position (joins_above new) ms;
          s0 = (if before \<noteq> None \<or> after \<noteq> None then s\<lparr>vfiles := close_opt (v_file new) (vfiles s)\<rparr> else s)
      in case (before, after) of
           (Some b, Some a) \<Rightarrow>
             let lo = ms ! b; hi = ms ! a; grown = v_end hi - v_base lo;
                 s1 = put_rec b (lo\<lparr>v_len := grown, v_file_len := file_len_of (v_file new) grown\<rparr>) s0
             in Some (put_rec a VMA_EMPTY (s1\<lparr>vfiles := close_opt (v_file hi) (vfiles s1)\<rparr>), True)
         | (Some b, None) \<Rightarrow>
             let m = ms ! b; n = v_len m + v_len new
             in Some (put_rec b (m\<lparr>v_len := n, v_file_len := file_len_of (v_file new) n\<rparr>) s0, True)
         | (None, Some a) \<Rightarrow>
             let m = ms ! a; n = v_len m + v_len new
             in Some (put_rec a (m\<lparr>v_len := n, v_base := v_base new, v_file_off := v_file_off new,
                                   v_file_len := file_len_of (v_file new) n\<rparr>) s0, True)
         | (None, None) \<Rightarrow>
             do { (s1, r) \<leftarrow> vfree_slot s0;
                  case r of
                    Some i \<Rightarrow> Some (put_rec i new s1, True)
                  | None \<Rightarrow> Some (s1\<lparr>vfiles := close_opt (v_file new) (vfiles s1)\<rparr>, False) })"

definition insert_backed ::
  "nat \<Rightarrow> nat \<Rightarrow> u64 \<Rightarrow> u64 \<Rightarrow> backing option \<Rightarrow> vmas \<Rightarrow> (vmas \<times> bool) option" where
  "insert_backed base bytes prot flags b s =
     (let (file, off, flen) = backing_parts b
      in if bytes = 0 then Some (s\<lparr>vfiles := close_opt file (vfiles s)\<rparr>, True)
         else do { s1 \<leftarrow> vremove base bytes s;
                   place \<lparr> v_base = base, v_len = bytes, v_prot = prot, v_flags = flags, v_file = file,
                           v_file_off = off, v_file_len = flen, v_advice = 0 \<rparr> s1 })"

definition vinsert :: "nat \<Rightarrow> nat \<Rightarrow> u64 \<Rightarrow> u64 \<Rightarrow> vmas \<Rightarrow> (vmas \<times> bool) option" where
  "vinsert base bytes prot flags s = insert_backed base bytes prot flags None s"

definition set_advice :: "nat \<Rightarrow> nat \<Rightarrow> u16 \<Rightarrow> u16 \<Rightarrow> vmas \<Rightarrow> vmas" where
  "set_advice base bytes st clr s =
     (if bytes = 0 then s
      else let e = sat_add base bytes
           in foldl (\<lambda>s i. case nth_opt (records s) i of None \<Rightarrow> s
                | Some m \<Rightarrow> if v_len m = 0 then s
                           else if base < v_base m + v_len m \<and> v_base m < e
                           then put_rec i (m\<lparr>v_advice := (v_advice m OR st) AND NOT clr\<rparr>) s else s) s [0..<cap (vtab s)])"

text \<open>The inner loop of \<^verbatim>\<open>set_prot\<close>: how many bytes share the flags and the file of the first page.\<close>

function prot_run :: "vma list \<Rightarrow> nat \<Rightarrow> nat \<Rightarrow> u64 \<Rightarrow> handle option \<Rightarrow> nat \<Rightarrow> nat" where
  "prot_run ms page e flags file run =
     (if page + run < e \<and> map_option (\<lambda>m. (v_flags m, v_file m)) (vfind ms (page + run)) = Some (flags, file)
      then prot_run ms page e flags file (run + FRAME_SIZE) else run)"
  by pat_completeness auto

termination
  by (relation "measure (\<lambda>(ms, page, e, flags, file, run). e - (page + run))") (auto simp: FRAME_SIZE_def)

declare prot_run.simps [simp del] find_free_from.simps [simp del]

lemma prot_run_ge: "r \<le> prot_run ms p e fl fo r"
proof (induction ms p e fl fo r rule: prot_run.induct)
  case (1 ms p e fl fo r)
  then show ?case by (subst prot_run.simps) auto
qed

definition prot_step :: "nat \<Rightarrow> nat \<Rightarrow> u64 \<Rightarrow> vmas \<Rightarrow> nat \<times> vmas option" where
  "prot_step page e prot s =
     (let (flags, file, avail) = (case vfind (records s) page of
            Some m \<Rightarrow> (v_flags m, v_file m, avail_at m page) | None \<Rightarrow> (0, None, 0));
          off = (case vfind (records s) page of Some m \<Rightarrow> v_file_off m + (page - v_base m) | None \<Rightarrow> 0);
          run = prot_run (records s) page e flags file FRAME_SIZE;
          b = map_option (\<lambda>h. \<lparr> b_file = h, b_off = off, b_len = min avail run \<rparr>) file
      in (run, map_option fst (insert_backed page run prot flags b (s\<lparr>vfiles := addref_opt file (vfiles s)\<rparr>))))"

lemma prot_step_run: "FRAME_SIZE \<le> fst (prot_step page e prot s)"
  using prot_run_ge by (simp add: prot_step_def Let_def split: prod.splits)

function set_prot_from :: "nat \<Rightarrow> nat \<Rightarrow> u64 \<Rightarrow> vmas \<Rightarrow> vmas option" where
  "set_prot_from page e prot s =
     (if page < e
      then case prot_step page e prot s of (run, r) \<Rightarrow>
             (case r of None \<Rightarrow> None | Some s' \<Rightarrow> set_prot_from (page + run) e prot s')
      else Some s)"
  by pat_completeness auto

termination
proof (relation "measure (\<lambda>(page, e, prot, s). e - page)")
  fix page e prot s run r s'
  assume "page < e" and "(run, r) = prot_step page e prot s"
  then have "FRAME_SIZE \<le> run" using prot_step_run [of page e prot s] by (metis fst_conv)
  with \<open>page < e\<close> show "((page + run, e, prot, s'), page, e, prot, s) \<in> measure (\<lambda>(page, e, prot, s). e - page)"
    by (simp add: FRAME_SIZE_def)
qed simp

declare set_prot_from.simps [simp del]

lemma prot_run_dvd: "FRAME_SIZE dvd r \<Longrightarrow> FRAME_SIZE dvd prot_run ms p e fl fo r"
proof (induction ms p e fl fo r rule: prot_run.induct)
  case (1 ms p e fl fo r)
  then show ?case by (subst prot_run.simps) auto
qed

lemma prot_step_dvd: "FRAME_SIZE dvd fst (prot_step page e prot s)"
  using prot_run_dvd [OF dvd_refl] by (simp add: prot_step_def Let_def split: prod.splits)

definition set_prot :: "nat \<Rightarrow> nat \<Rightarrow> u64 \<Rightarrow> vmas \<Rightarrow> vmas option" where
  "set_prot base bytes prot s = (if bytes = 0 then Some s else set_prot_from base (base + bytes) prot s)"

section \<open>Tear-down and fork\<close>

definition close_all :: "vmas \<Rightarrow> vmas" where
  "close_all s = s\<lparr>vfiles := foldl (\<lambda>f m. if v_len m \<noteq> 0 then close_opt (v_file m) f else f) (vfiles s) (records s)\<rparr>"

definition vteardown :: "vmas \<Rightarrow> vmas option" where
  "vteardown s =
     (let s1 = close_all s
      in do { (k, t) \<leftarrow> funded_release (vmem s1, vtab s1); Some (s1\<lparr>vmem := k, vtab := t\<rparr>) })"

definition vreinit :: "owner \<Rightarrow> vmas \<Rightarrow> vmas option" where
  "vreinit ow s = do { s1 \<leftarrow> vteardown s;
     let (k, t) = funded_set_owner ow (vmem s1, vtab s1) in Some (s1\<lparr>vmem := k, vtab := t\<rparr>) }"

definition vclear :: "vmas \<Rightarrow> vmas option" where
  "vclear s = (let s1 = close_all s in map_option (\<lambda>t. s1\<lparr>vtab := t\<rparr>) (funded_fill vma_ty VMA_EMPTY (vtab s1)))"

definition vcopy_from :: "vma list \<Rightarrow> vmas \<Rightarrow> (vmas \<times> bool) option" where
  "vcopy_from src s =
     do { ((k, t), ok) \<leftarrow> (if 0 < length src then reserve vma_ty (length src) (vmem s, vtab s) else Some ((vmem s, vtab s), True));
          let s1 = s\<lparr>vmem := k, vtab := t\<rparr> in
          if \<not> ok then Some (s1, False)
          else Some (foldl (\<lambda>s (i, m). put_rec i m s) s1 (enumerate 0 src), True) }"

definition inherit_files :: "vmas \<Rightarrow> vmas" where
  "inherit_files s = s\<lparr>vfiles := foldl (\<lambda>f m. addref_opt (v_file m) f) (vfiles s) (live_recs (records s))\<rparr>"

section \<open>The maps file\<close>

text \<open>The digits of \<^verbatim>\<open>hex\<close>, last first, as it fills its buffer.\<close>

function hex_buf :: "nat \<Rightarrow> char list" where
  "hex_buf v = (''0123456789abcdef'' ! (v mod 16)) # (if v div 16 = 0 then [] else hex_buf (v div 16))"
  by pat_completeness auto

termination
  by (relation "measure (\<lambda>v. v)") auto

declare hex_buf.simps [simp del]

definition hex :: "nat \<Rightarrow> string" where
  "hex v = rev (hex_buf v)"

definition maps_line :: "vma \<Rightarrow> string" where
  "maps_line m = hex (v_base m) @ ''-'' @ hex (v_end m) @ '' '' @
     (if v_prot m AND 1 \<noteq> 0 then ''r'' else ''-'') @ (if v_prot m AND 2 \<noteq> 0 then ''w'' else ''-'') @
     (if v_prot m AND 4 \<noteq> 0 then ''x'' else ''-'') @ (if v_flags m AND 1 \<noteq> 0 then ''s'' else ''p'') @ '' '' @
     hex (v_file_off m) @ '' 00:00 0 '' @ (if v_file m \<noteq> None then ''[file]'' else ''[anon]'') @ [CHR 0x0A]"

text \<open>
  The loop over the live records, \<open>out\<close> being the bytes counted so far and \<open>room\<close> the buffer's length.
  Bytes that do not fit are dropped; a line that reaches the end of the buffer is dropped whole.
\<close>

fun render_from :: "nat \<Rightarrow> string \<Rightarrow> vma list \<Rightarrow> string" where
  "render_from room out [] = out"
| "render_from room out (m # ms) =
     (let n = take room (out @ maps_line m) in if room \<le> length n then out else render_from room n ms)"

definition render_maps :: "nat \<Rightarrow> vma list \<Rightarrow> string" where
  "render_maps room ms = render_from room [] (live_recs ms)"

section \<open>Reference counts\<close>

text \<open>\<open>refs_are f n\<close>: the registry held_by exactly the entries with a count, at that count.\<close>

definition refs_are :: "filereg \<Rightarrow> (handle \<Rightarrow> nat) \<Rightarrow> bool" where
  "refs_are f n \<longleftrightarrow> (\<forall>h. if n h = 0 then \<not> fm_alive h f else fm_alive h f \<and> mf_refs (TBL f ! h) = n h)"

definition one_if :: "bool \<Rightarrow> nat" where
  "one_if b = (if b then 1 else 0)"

lemma one_if_simps [simp]: "one_if True = 1" "one_if False = 0" "one_if b \<le> 1"
  by (simp_all add: one_if_def)

lemma refs_are_cong: "refs_are f n \<Longrightarrow> (\<And>h. n h = n' h) \<Longrightarrow> refs_are f n'"
  by (simp add: refs_are_def)

lemma refs_areD: "refs_are f n \<Longrightarrow> 0 < n h \<Longrightarrow> h < length (TBL f) \<and> mf_used (TBL f ! h) \<and> mf_refs (TBL f ! h) = n h"
  unfolding refs_are_def fm_alive_def by (metis less_numeral_extra(3))

lemma refs_are_close:
  assumes "refs_are f n" and "\<And>h. fo = Some h \<Longrightarrow> 0 < n h"
  shows "refs_are (close_opt fo f) (\<lambda>h. n h - one_if (fo = Some h))"
proof (cases fo)
  case None
  then show ?thesis using assms(1) by (simp add: close_opt_def)
next
  case (Some x)
  with assms(2) have pos: "0 < n x" by simp
  with refs_areD [OF assms(1)] have x: "x < length (TBL f)" "mf_used (TBL f ! x)" "mf_refs (TBL f ! x) = n x" "0 < n x"
    by auto
  show ?thesis
    unfolding refs_are_def
  proof
    fix h
    show "if n h - one_if (fo = Some h) = 0 then \<not> fm_alive h (close_opt fo f)
        else fm_alive h (close_opt fo f) \<and> mf_refs (TBL (close_opt fo f) ! h) = n h - one_if (fo = Some h)"
      using assms(1) [unfolded refs_are_def, rule_format, of h] x Some
      by (cases "h = x") (auto simp: close_opt_def fm_close_def fm_alive_def Let_def mapped_file_new_def nth_list_update)
  qed
qed

lemma refs_are_addref:
  assumes "refs_are f n" and "\<And>h. fo = Some h \<Longrightarrow> 0 < n h \<and> n h < 65535"
  shows "refs_are (addref_opt fo f) (\<lambda>h. n h + one_if (fo = Some h))"
proof (cases fo)
  case None
  then show ?thesis using assms(1) by (simp add: addref_opt_def)
next
  case (Some x)
  with assms(2) have pos: "0 < n x" "n x < 65535" by simp_all
  with refs_areD [OF assms(1)] have x: "x < length (TBL f)" "mf_used (TBL f ! x)" "mf_refs (TBL f ! x) = n x" "0 < n x" "n x < 65535"
    by auto
  show ?thesis
    unfolding refs_are_def
  proof
    fix h
    show "if n h + one_if (fo = Some h) = 0 then \<not> fm_alive h (addref_opt fo f)
        else fm_alive h (addref_opt fo f) \<and> mf_refs (TBL (addref_opt fo f) ! h) = n h + one_if (fo = Some h)"
      using assms(1) [unfolded refs_are_def, rule_format, of h] x Some
      by (cases "h = x") (auto simp: addref_opt_def fm_addref_def fm_alive_def nth_list_update)
  qed
qed

definition hold1 :: "handle \<Rightarrow> vma \<Rightarrow> nat" where
  "hold1 h m = one_if (v_len m \<noteq> 0 \<and> v_file m = Some h)"

definition held_by :: "handle \<Rightarrow> vma list \<Rightarrow> nat" where
  "held_by h ms = sum_list (map (hold1 h) ms)"

lemma holds_write: "i < length ms \<Longrightarrow> held_by h (ms[i := m]) + hold1 h (ms ! i) = held_by h ms + hold1 h m"
  using elem_le_sum_list [of i "map (hold1 h) ms"] by (simp add: held_by_def map_update sum_list_update)

lemma holds_le: "held_by h ms \<le> length ms"
  by (induction ms) (auto simp: held_by_def hold1_def one_if_def)

lemma hold1_le: "i < length ms \<Longrightarrow> hold1 h (ms ! i) \<le> held_by h ms"
  using elem_le_sum_list [of i "map (hold1 h) ms"] by (simp add: held_by_def)

lemma VMA_EMPTY_len [simp]: "v_len VMA_EMPTY = 0" "hold1 h VMA_EMPTY = 0" "covers VMA_EMPTY a = False"
  by (simp_all add: VMA_EMPTY_def hold1_def covers_def)

section \<open>The address map\<close>

text \<open>
  What a record says about an address: protection, flags, and for a file mapping the file, the offset in
  it, and whether the byte comes from the file or is zero.
\<close>

definition src :: "vma \<Rightarrow> nat \<Rightarrow> u64 \<times> u64 \<times> (handle \<times> nat \<times> bool) option" where
  "src m a = (v_prot m, v_flags m,
     map_option (\<lambda>h. (h, v_file_off m + (a - v_base m), a - v_base m < v_file_len m)) (v_file m))"

definition amap :: "vma list \<Rightarrow> nat \<Rightarrow> (u64 \<times> u64 \<times> (handle \<times> nat \<times> bool) option) option" where
  "amap ms a = map_option (\<lambda>m. src m a) (vfind ms a)"

definition recs_ok :: "vma list \<Rightarrow> bool" where
  "recs_ok ms \<longleftrightarrow> (\<forall>m \<in> set ms. v_len m \<noteq> 0 \<longrightarrow> v_end m \<le> usize_max) \<and> apart_spans covers ms"

lemma vfind_span: "vfind ms a = span_at covers ms a"
  by (induction ms) (auto simp: vfind_def live_recs_def span_at_def covers_def)

lemma recs_okD:
  assumes "recs_ok ms" and "i < length ms" and "j < length ms" and "covers (ms ! i) a" and "covers (ms ! j) a"
  shows "i = j"
  using assms apart_spansD unfolding recs_ok_def by blast

lemma vfind_None: "vfind ms a = None \<longleftrightarrow> (\<forall>i < length ms. \<not> covers (ms ! i) a)"
  by (simp add: vfind_span span_at_None)

lemma vfind_Some: "recs_ok ms \<Longrightarrow> i < length ms \<Longrightarrow> covers (ms ! i) a \<Longrightarrow> vfind ms a = Some (ms ! i)"
  by (simp add: vfind_span recs_ok_def span_at_Some)

lemma vfind_SomeD:
  assumes "vfind ms a = Some m"
  obtains i where "i < length ms" and "ms ! i = m" and "covers m a"
  using assms unfolding vfind_span by (rule span_at_SomeD)

text \<open>Replacing record \<open>i\<close> by one that keeps clear of the others.\<close>

lemma recs_ok_write:
  assumes ok: "recs_ok ms" and fit: "v_len m \<noteq> 0 \<Longrightarrow> v_end m \<le> usize_max"
    and clear: "\<And>j a. j < length ms \<Longrightarrow> j \<noteq> i \<Longrightarrow> covers m a \<Longrightarrow> \<not> covers (ms ! j) a"
  shows "recs_ok (ms[i := m])"
proof -
  have "v_len x \<noteq> 0 \<longrightarrow> v_end x \<le> usize_max" if "x \<in> set (ms[i := m])" for x
    using that set_update_subset_insert [of ms i m] ok fit unfolding recs_ok_def by blast
  moreover have "apart_spans covers (ms[i := m])" using ok clear by (intro apart_write) (auto simp: recs_ok_def)
  ultimately show ?thesis unfolding recs_ok_def by simp
qed

lemma amap_write:
  assumes ok: "recs_ok ms" "recs_ok (ms[i := m])" and i: "i < length ms"
  shows "amap (ms[i := m]) a = (if covers m a then Some (src m a) else if covers (ms ! i) a then None else amap ms a)"
  using span_at_write [of covers ms i m a] ok i by (simp add: amap_def vfind_span recs_ok_def)

lemma nth_empties: "j < length (ms @ replicate n VMA_EMPTY) \<Longrightarrow>
  covers ((ms @ replicate n VMA_EMPTY) ! j) a \<longleftrightarrow> j < length ms \<and> covers (ms ! j) a"
  by (auto simp: nth_append)

lemma recs_ok_empties: "recs_ok ms \<Longrightarrow> recs_ok (ms @ replicate n VMA_EMPTY)"
  using apart_empties [of covers ms VMA_EMPTY n] by (auto simp: recs_ok_def)

lemma vfind_empties: "vfind (ms @ replicate n VMA_EMPTY) a = vfind ms a"
  by (simp add: vfind_span span_at_empties)

lemma holds_empties: "held_by h (ms @ replicate n VMA_EMPTY) = held_by h ms"
  by (simp add: held_by_def sum_list_replicate)

section \<open>The invariant\<close>

definition tab_ok :: "vmas \<Rightarrow> bool" where
  "tab_ok s \<longleftrightarrow> km_inv (vmem s) \<and> funded_inv vma_ty (vmem s) (vtab s)"

text \<open>\<open>ext h\<close> counts the references to \<open>h\<close> held elsewhere: other cells' records and callers.\<close>

definition v_inv :: "(handle \<Rightarrow> nat) \<Rightarrow> vmas \<Rightarrow> bool" where
  "v_inv ext s \<longleftrightarrow> tab_ok s \<and> recs_ok (records s) \<and> refs_are (vfiles s) (\<lambda>h. held_by h (records s) + ext h)"

lemma vma_ty_page [simp]: "elems_per_page vma_ty = 73" "ty_zero vma_ty = VMA_EMPTY"
  by (simp_all add: elems_per_page_def vma_ty_def FRAME_SIZE_def)

lemma records_length: "tab_ok s \<Longrightarrow> length (records s) = cap (vtab s)"
  using length_contents unfolding tab_ok_def by blast

lemma records_le: "tab_ok s \<Longrightarrow> length (records s) \<le> 37960"
  using records_length [of s] funded_invD [of vma_ty "vmem s" "vtab s"] tab_invD(4) [of vma_ty "vmem s" "vtab s" "pages (vtab s)"]
  by (simp add: tab_ok_def INLINE_PAGES_def PTRS_PER_DIR_def FRAME_SIZE_def)

lemma put_rec_view:
  assumes "tab_ok s"
  shows "records (put_rec i m s) = (records s)[i := m]" "tab_ok (put_rec i m s)"
    "vfiles (put_rec i m s) = vfiles s" "lost_tails (put_rec i m s) = lost_tails s" "cap (vtab (put_rec i m s)) = cap (vtab s)"
proof -
  from assms funded_set_inv [of vma_ty "vmem s" "vtab s" i m] obtain t where
    "funded_set vma_ty i m (vtab s) = Some (t, i < cap (vtab s))" "funded_inv vma_ty (vmem s) t"
    "contents t = (records s)[i := m]" "cap t = cap (vtab s)" by (auto simp: tab_ok_def)
  then show "records (put_rec i m s) = (records s)[i := m]" "tab_ok (put_rec i m s)"
    "vfiles (put_rec i m s) = vfiles s" "lost_tails (put_rec i m s) = lost_tails s" "cap (vtab (put_rec i m s)) = cap (vtab s)"
    using assms by (simp_all add: put_rec_def tab_ok_def)
qed

lemma tab_ok_fields [simp]: "tab_ok (s\<lparr>vfiles := f\<rparr>) = tab_ok s" "tab_ok (s\<lparr>lost_tails := n\<rparr>) = tab_ok s"
  by (simp_all add: tab_ok_def)

lemma vfree_slot_spec:
  assumes "tab_ok s"
  shows "\<exists>s' r. vfree_slot s = Some (s', r) \<and> tab_ok s' \<and> vfiles s' = vfiles s \<and> lost_tails s' = lost_tails s \<and>
    (\<exists>n. records s' = records s @ replicate n VMA_EMPTY) \<and>
    (case r of None \<Rightarrow> (\<forall>m \<in> set (records s). v_len m \<noteq> 0)
     | Some j \<Rightarrow> j < length (records s') \<and> v_len (records s' ! j) = 0)"
proof (cases "find_idx (\<lambda>m. v_len m = 0) (records s)")
  case (Some i)
  then have i: "i < length (records s)" "v_len (records s ! i) = 0" by (auto simp: scan_simps)
  with Some assms show ?thesis by (auto simp: vfree_slot_def intro!: exI [of _ 0])
next
  case None
  then have full: "\<forall>m \<in> set (records s). v_len m \<noteq> 0" by (simp add: scan_simps)
  let ?c = "cap (vtab s)"
  let ?want = "if ?c = 0 then INITIAL_VMAS else min (?c * 2) VMA_CEILING"
  show ?thesis
  proof (cases "?want \<le> ?c")
    case True
    then show ?thesis using None full assms by (auto simp: vfree_slot_def Let_def intro!: exI [of _ 0])
  next
    case False
    from assms reserve_spec [of "vmem s" vma_ty "vtab s" ?want] obtain k t ok where
      r: "reserve vma_ty ?want (vmem s, vtab s) = Some ((k, t), ok)" "table_grew vma_ty (vmem s, vtab s) (k, t)"
        "ok \<longrightarrow> ?want \<le> cap t" by (auto simp: tab_ok_def)
    let ?s = "s\<lparr>vmem := k, vtab := t\<rparr>"
    have g: "tab_ok ?s" "contents t = records s @ replicate (cap t - ?c) VMA_EMPTY" "?c \<le> cap t"
      using r(2) by (auto simp: table_grew_def tab_ok_def)
    have "?c < cap t" if ok using r(3) False that by simp
    then have "?c < length (contents t) \<and> v_len (contents t ! ?c) = 0" if ok
      using that g records_length [OF assms] by (simp add: nth_append)
    moreover have "vfree_slot s = Some (?s, if ok then Some ?c else None)"
      using None False r(1) by (simp add: vfree_slot_def Let_def)
    ultimately show ?thesis using g(1,2) full by (cases ok) (auto intro!: exI [of _ "cap t - ?c"])
  qed
qed

section \<open>Removing\<close>

definition hits :: "nat \<Rightarrow> nat \<Rightarrow> vma \<Rightarrow> bool" where
  "hits base e m \<longleftrightarrow> v_len m \<noteq> 0 \<and> v_base m < e \<and> base < v_end m"

lemma trim_tail_props:
  assumes "v_base m < base" and "base < v_end m"
  shows "covers (trim_tail base m) a \<longleftrightarrow> covers m a \<and> a < base" "covers m a \<Longrightarrow> a < base \<Longrightarrow> src (trim_tail base m) a = src m a"
    "hold1 h (trim_tail base m) = hold1 h m" "\<not> hits base e (trim_tail base m)" "v_end (trim_tail base m) \<le> v_end m"
  using assms by (cases "v_file m"; auto simp: covers_def trim_tail_def v_end_def src_def hold1_def hits_def)+

lemma trim_head_props:
  assumes "v_base m < e" and "e < v_end m"
  shows "covers (trim_head e m) a \<longleftrightarrow> covers m a \<and> e \<le> a" "covers m a \<Longrightarrow> e \<le> a \<Longrightarrow> src (trim_head e m) a = src m a"
    "hold1 h (trim_head e m) = hold1 h m" "\<not> hits base e (trim_head e m)" "v_end (trim_head e m) = v_end m"
    "v_file (trim_head e m) = v_file m"
  using assms by (cases "v_file m"; auto simp: covers_def trim_head_def v_end_def src_def hold1_def hits_def avail_at_def)+

text \<open>Replacing record \<open>i\<close> by a part of itself, or by nothing.\<close>

lemma shrink_rec:
  assumes ok: "recs_ok ms" and i: "i < length ms" and sub: "\<And>a. covers m a \<Longrightarrow> covers (ms ! i) a"
    and fit: "v_len m \<noteq> 0 \<Longrightarrow> v_end m \<le> usize_max"
  shows "recs_ok (ms[i := m])"
    "amap (ms[i := m]) a = (if covers m a then Some (src m a) else if covers (ms ! i) a then None else amap ms a)"
proof -
  show w: "recs_ok (ms[i := m])"
    by (rule recs_ok_write [OF ok fit]) (use recs_okD [OF ok i] sub in blast)+
  show "amap (ms[i := m]) a = (if covers m a then Some (src m a) else if covers (ms ! i) a then None else amap ms a)"
    by (rule amap_write [OF ok w i])
qed

lemma live_end: "recs_ok ms \<Longrightarrow> i < length ms \<Longrightarrow> v_len (ms ! i) \<noteq> 0 \<Longrightarrow> v_end (ms ! i) \<le> usize_max"
  unfolding recs_ok_def by simp

lemma amap_covered: "recs_ok ms \<Longrightarrow> i < length ms \<Longrightarrow> covers (ms ! i) a \<Longrightarrow> amap ms a = Some (src (ms ! i) a)"
  by (simp add: amap_def vfind_Some)

text \<open>
  What one iteration guarantees: slot \<open>i\<close> no longer touches the hole, no new record touches it, and
  outside the hole the map is as before, unless the tail of a split mapping was dropped.
\<close>

definition punched :: "nat \<Rightarrow> nat \<Rightarrow> nat set \<Rightarrow> vmas \<Rightarrow> vmas \<Rightarrow> bool" where
  "punched base e done_ix s s' \<longleftrightarrow> length (records s) \<le> length (records s') \<and> lost_tails s \<le> lost_tails s' \<and>
     (\<forall>j < length (records s'). hits base e (records s' ! j) \<longrightarrow>
        j < length (records s) \<and> j \<notin> done_ix \<and> records s' ! j = records s ! j) \<and>
     (\<forall>a. \<not> (base \<le> a \<and> a < e) \<longrightarrow>
        amap (records s') a = amap (records s) a \<or> lost_tails s < lost_tails s' \<and> amap (records s') a = None)"

lemma punched_one:
  assumes ok: "recs_ok (records s)" and i: "i < length (records s)" and r: "records s' = (records s)[i := m]"
    and lost: "lost_tails s' = lost_tails s" and miss: "\<not> hits base e m"
    and sub: "\<And>a. covers m a \<longleftrightarrow> covers (records s ! i) a \<and> \<not> (base \<le> a \<and> a < e)"
    and src: "\<And>a. covers m a \<Longrightarrow> src m a = src (records s ! i) a"
    and fit: "v_len m \<noteq> 0 \<Longrightarrow> v_end m \<le> usize_max"
  shows "recs_ok (records s')" "punched base e {i} s s'"
proof -
  note w = shrink_rec [OF ok i _ fit]
  show "recs_ok (records s')" unfolding r using w(1) sub by blast
  have "amap (records s') a = amap (records s) a" if "\<not> (base \<le> a \<and> a < e)" for a
    using w(2) [of a] sub that src [of a] amap_covered [OF ok i, of a] by (simp add: r)
  moreover have "j \<noteq> i \<and> records s' ! j = records s ! j" if "hits base e (records s' ! j)" "j < length (records s)" for j
    using that miss i by (cases "j = i") (simp_all add: r)
  ultimately show "punched base e {i} s s'" using lost unfolding punched_def by (auto simp: r)
qed

lemma split_slot_spec:
  assumes inv: "v_inv ext s" and i: "i < length (records s)" and m_def: "m = records s ! i"
    and ins: "v_base m < base" "e < v_end m" and be: "base < e" and ext: "\<And>h. ext h \<le> 27000"
  shows "\<exists>s1 r s'. vfree_slot (put_rec i (trim_tail base m) s) = Some (s1, r) \<and>
    s' = (case r of Some j \<Rightarrow> put_rec j (trim_head e m) (s1\<lparr>vfiles := addref_opt (v_file m) (vfiles s1)\<rparr>)
          | None \<Rightarrow> s1\<lparr>lost_tails := lost_tails s1 + 1\<rparr>) \<and> v_inv ext s' \<and> punched base e {i} s s'"
proof -
  from inv have tab: "tab_ok s" and ok: "recs_ok (records s)"
    and refs: "refs_are (vfiles s) (\<lambda>h. held_by h (records s) + ext h)" by (auto simp: v_inv_def)
  have len: "v_len m \<noteq> 0" "v_base m < e" "base < v_end m" using ins be by (auto simp: v_end_def)
  have fit: "v_end m \<le> usize_max" using live_end [OF ok i] len(1) by (simp add: m_def)
  note tt = trim_tail_props [OF ins(1) len(3)] and th = trim_head_props [OF len(2) ins(2)]
  let ?s0 = "put_rec i (trim_tail base m) s"
  note pv = put_rec_view [OF tab, of i "trim_tail base m"]
  from vfree_slot_spec [OF pv(2)] obtain s1 r n where
    f: "vfree_slot ?s0 = Some (s1, r)" "tab_ok s1" "vfiles s1 = vfiles s" "lost_tails s1 = lost_tails s"
      "records s1 = (records s)[i := trim_tail base m] @ replicate n VMA_EMPTY"
      "case r of None \<Rightarrow> True | Some j \<Rightarrow> j < length (records s1) \<and> v_len (records s1 ! j) = 0"
    unfolding pv by (auto split: option.splits)
  have ok0: "recs_ok ((records s)[i := trim_tail base m])"
    and am0: "amap ((records s)[i := trim_tail base m]) a = (if covers (trim_tail base m) a then Some (src (trim_tail base m) a)
        else if covers (records s ! i) a then None else amap (records s) a)" for a
    using shrink_rec [OF ok i, of "trim_tail base m"] tt(1,5) fit by (auto simp: m_def)
  have ok1: "recs_ok (records s1)" unfolding f(5) by (rule recs_ok_empties [OF ok0])
  have am1: "amap (records s1) a = (if covers m a then if a < base then Some (src m a) else None else amap (records s) a)" for a
    using am0 [of a] tt(1,2) [of a] by (simp add: f(5) amap_def vfind_empties m_def)
  have h1: "held_by h (records s1) = held_by h (records s)" for h
    using holds_write [OF i, of h "trim_tail base m"] tt(3) by (simp add: f(5) holds_empties m_def)
  have miss1: "j \<noteq> i \<and> j < length (records s) \<and> records s1 ! j = records s ! j"
    if "j < length (records s1)" "hits base e (records s1 ! j)" for j
    using that tt(4) [of e] i by (cases "j < length (records s)"; cases "j = i") (auto simp: f(5) nth_append hits_def)
  show ?thesis
  proof (cases r)
    case None
    let ?s = "s1\<lparr>lost_tails := lost_tails s1 + 1\<rparr>"
    have "v_inv ext ?s" using f(2,3) ok1 refs h1 by (simp add: v_inv_def)
    moreover have "punched base e {i} s ?s"
      using miss1 f(4,5) am1 amap_covered [OF ok i] by (auto simp: punched_def m_def [symmetric])
    ultimately show ?thesis using f(1) None by auto
  next
    case (Some j)
    with f(6) have j: "j < length (records s1)" "v_len (records s1 ! j) = 0" by auto
    let ?f = "addref_opt (v_file m) (vfiles s1)"
    let ?s1 = "s1\<lparr>vfiles := ?f\<rparr>" let ?s = "put_rec j (trim_head e m) ?s1"
    have tab1: "tab_ok ?s1" using f(2) by simp
    note pv1 = put_rec_view [OF tab1, of j "trim_head e m"]
    have recs: "records ?s = (records s1)[j := trim_head e m]" using pv1(1) by simp
    have apart: "\<not> covers (records s1 ! p) a" if "p < length (records s1)" "covers (trim_head e m) a" for p a
    proof
      assume p: "covers (records s1 ! p) a"
      have "amap (records s1) a = None" using am1 [of a] that(2) th(1) [of a] be by auto
      with p that(1) vfind_None [of "records s1" a] show False by (simp add: amap_def)
    qed
    have ok2: "recs_ok ((records s1)[j := trim_head e m])"
      by (rule recs_ok_write [OF ok1]) (use apart th(5) fit in auto)
    have am2: "amap (records ?s) a = (if covers m a \<and> e \<le> a then Some (src m a) else amap (records s1) a)" for a
      using amap_write [OF ok1 ok2 j(1), of a] th(1,2) [of a] j(2) by (simp add: recs covers_def)
    have bound: "0 < held_by h (records s) + ext h \<and> held_by h (records s) + ext h < 65535" if "v_file m = Some h" for h
      using hold1_le [OF i, of h] holds_le [of h "records s"] records_le [OF tab] ext [of h] that len(1)
      by (simp add: m_def [symmetric] hold1_def)
    have "refs_are ?f (\<lambda>h. held_by h (records s) + ext h + one_if (v_file m = Some h))"
      unfolding f(3) by (rule refs_are_addref [OF refs bound])
    moreover have "held_by h ((records s1)[j := trim_head e m]) = held_by h (records s) + one_if (v_file m = Some h)" for h
      using holds_write [OF j(1), of h "trim_head e m"] h1 [of h] th(3) [of h] j(2) len(1) by (simp add: hold1_def)
    ultimately have "refs_are (vfiles ?s) (\<lambda>h. held_by h (records ?s) + ext h)"
      unfolding recs pv1(3) by (simp add: ac_simps)
    then have "v_inv ext ?s" using pv1(2) ok2 recs by (simp add: v_inv_def)
    moreover have "punched base e {i} s ?s"
    proof -
      have "q \<noteq> i \<and> q < length (records s) \<and> records ?s ! q = records s ! q"
        if "q < length (records ?s)" "hits base e (records ?s ! q)" for q
        using that th(4) [of base] miss1 [of q] by (cases "q = j") (auto simp: recs)
      moreover have "amap (records ?s) a = amap (records s) a" if "\<not> (base \<le> a \<and> a < e)" for a
        using am2 [of a] am1 [of a] that amap_covered [OF ok i, of a] by (auto simp: m_def [symmetric])
      ultimately show ?thesis using f(4,5) pv1(4) by (auto simp: punched_def recs)
    qed
    ultimately show ?thesis using f(1) Some by auto
  qed
qed

lemma remove_slot_spec:
  assumes inv: "v_inv ext s" and be: "base < e" and ext: "\<And>h. ext h \<le> 27000"
  shows "\<exists>s'. remove_slot base e i s = Some s' \<and> v_inv ext s' \<and> punched base e {i} s s'"
proof -
  from inv have tab: "tab_ok s" and ok: "recs_ok (records s)"
    and refs: "refs_are (vfiles s) (\<lambda>h. held_by h (records s) + ext h)" by (auto simp: v_inv_def)
  show ?thesis
  proof (cases "i < length (records s) \<and> hits base e (records s ! i)")
    case False
    then have "remove_slot base e i s = Some s"
      by (auto simp: remove_slot_def nth_opt_def hits_def)
    moreover have "punched base e {i} s s" using False by (auto simp: punched_def)
    ultimately show ?thesis using inv by simp
  next
    case True
    define m where "m = records s ! i"
    have i: "i < length (records s)" and m: "v_len m \<noteq> 0" "v_base m < e" "base < v_end m"
      using True by (auto simp: hits_def m_def)
    have get: "nth_opt (records s) i = Some m" using i by (simp add: nth_opt_def m_def)
    have fit: "v_end m \<le> usize_max" using live_end [OF ok i] m(1) by (simp add: m_def)
    have go: "\<not> (v_len m = 0 \<or> e \<le> v_base m \<or> v_end m \<le> base)" using m by simp
    have one: "hold1 h m \<le> held_by h (records s)" for h using hold1_le [OF i] by (simp add: m_def)
    have holds_same: "held_by h ((records s)[i := x]) = held_by h (records s)" if "\<And>h. hold1 h x = hold1 h m" for x h
      using holds_write [OF i, of h x] that [of h] by (simp add: m_def)
    have fin: "\<exists>s'. remove_slot base e i s = Some s' \<and> v_inv ext s' \<and> punched base e {i} s s'"
      if "remove_slot base e i s = Some s'" "tab_ok s'" "records s' = (records s)[i := x]" "lost_tails s' = lost_tails s"
        "refs_are (vfiles s') (\<lambda>h. held_by h (records s') + ext h)" "\<not> hits base e x"
        "\<And>a. covers x a \<longleftrightarrow> covers m a \<and> \<not> (base \<le> a \<and> a < e)" "\<And>a. covers x a \<Longrightarrow> src x a = src m a"
        "v_len x \<noteq> 0 \<Longrightarrow> v_end x \<le> usize_max" for s' x
      using that punched_one [OF ok i that(3,4,6)] by (auto simp: v_inv_def m_def)
    consider (inside) "v_base m < base" "e < v_end m" | (tail) "v_base m < base" "v_end m \<le> e"
      | (head) "base \<le> v_base m" "e < v_end m" | (all) "base \<le> v_base m" "v_end m \<le> e" by linarith
    then show ?thesis
    proof cases
      case tail
      note t = trim_tail_props [OF tail(1) m(3)] and pv = put_rec_view [OF tab, of i "trim_tail base m"]
      show ?thesis
      proof (rule fin)
        show "remove_slot base e i s = Some (put_rec i (trim_tail base m) s)"
          using get go tail by (simp add: remove_slot_def)
        show "refs_are (vfiles (put_rec i (trim_tail base m) s)) (\<lambda>h. held_by h (records (put_rec i (trim_tail base m) s)) + ext h)"
          unfolding pv(1,3) by (rule refs_are_cong [OF refs]) (simp add: holds_same [OF t(3)])
        show "covers (trim_tail base m) a \<longleftrightarrow> covers m a \<and> \<not> (base \<le> a \<and> a < e)" for a
          using t(1) [of a] tail(2) by (auto simp: covers_def)
      qed (use t fit pv in auto)
    next
      case head
      note t = trim_head_props [OF m(2) head(2)] and pv = put_rec_view [OF tab, of i "trim_head e m"]
      show ?thesis
      proof (rule fin)
        show "remove_slot base e i s = Some (put_rec i (trim_head e m) s)"
          using get go head by (simp add: remove_slot_def)
        show "refs_are (vfiles (put_rec i (trim_head e m) s)) (\<lambda>h. held_by h (records (put_rec i (trim_head e m) s)) + ext h)"
          unfolding pv(1,3) by (rule refs_are_cong [OF refs]) (simp add: holds_same [OF t(3)])
        show "covers (trim_head e m) a \<longleftrightarrow> covers m a \<and> \<not> (base \<le> a \<and> a < e)" for a
          using t(1) [of a] head(1) by (auto simp: covers_def)
      qed (use t fit pv in auto)
    next
      case all
      let ?s0 = "s\<lparr>vfiles := close_opt (v_file m) (vfiles s)\<rparr>"
      have tab0: "tab_ok ?s0" using tab by simp
      note pv = put_rec_view [OF tab0, of i VMA_EMPTY]
      have cl: "refs_are (close_opt (v_file m) (vfiles s)) (\<lambda>h. held_by h (records s) + ext h - one_if (v_file m = Some h))"
      proof (rule refs_are_close [OF refs])
        fix h assume "v_file m = Some h"
        then show "0 < held_by h (records s) + ext h" using one [of h] m(1) by (simp add: hold1_def)
      qed
      show ?thesis
      proof (rule fin [where x = VMA_EMPTY])
        show "remove_slot base e i s = Some (put_rec i VMA_EMPTY ?s0)"
          using get go all by (simp add: remove_slot_def)
        have "held_by h (records s) + ext h - one_if (v_file m = Some h) = held_by h ((records s)[i := VMA_EMPTY]) + ext h" for h
          using holds_write [OF i, of h VMA_EMPTY] m(1) by (simp add: m_def [symmetric] hold1_def one_if_def split: if_splits)
        from refs_are_cong [OF cl this] show "refs_are (vfiles (put_rec i VMA_EMPTY ?s0)) (\<lambda>h. held_by h (records (put_rec i VMA_EMPTY ?s0)) + ext h)"
          unfolding pv(1,3) by simp
        show "covers VMA_EMPTY a \<longleftrightarrow> covers m a \<and> \<not> (base \<le> a \<and> a < e)" for a
          using all by (auto simp: covers_def)
      qed (use pv in \<open>auto simp: hits_def\<close>)
    next
      case inside
      from split_slot_spec [OF inv i m_def inside be ext] get go inside show ?thesis by (auto simp: remove_slot_def split: option.splits)
    qed
  qed
qed


text \<open>The holes punched slot by slot add up.\<close>

lemma punched_refl: "punched base e {} s s"
  by (simp add: punched_def)

lemma punched_trans:
  assumes a: "punched base e A s s1" and b: "punched base e B s1 s2"
  shows "punched base e (A \<union> B) s s2"
  unfolding punched_def
proof (intro conjI allI impI)
  show "length (records s) \<le> length (records s2)" "lost_tails s \<le> lost_tails s2"
    using a b by (auto simp: punched_def)
  fix j assume "j < length (records s2)" "hits base e (records s2 ! j)"
  with b have 1: "j < length (records s1)" "j \<notin> B" "records s2 ! j = records s1 ! j" unfolding punched_def by blast+
  with a \<open>hits base e (records s2 ! j)\<close> have "j < length (records s)" "j \<notin> A" "records s1 ! j = records s ! j"
    unfolding punched_def by metis+
  with 1 show "j < length (records s)" "j \<notin> A \<union> B" "records s2 ! j = records s ! j" by auto
next
  fix x assume x: "\<not> (base \<le> x \<and> x < e)"
  from a x have 1: "amap (records s1) x = amap (records s) x \<or> lost_tails s < lost_tails s1 \<and> amap (records s1) x = None"
    unfolding punched_def by blast
  from b x have 2: "amap (records s2) x = amap (records s1) x \<or> lost_tails s1 < lost_tails s2 \<and> amap (records s2) x = None"
    unfolding punched_def by blast
  have "lost_tails s \<le> lost_tails s1" "lost_tails s1 \<le> lost_tails s2" using a b by (auto simp: punched_def)
  with 1 2 show "amap (records s2) x = amap (records s) x \<or> lost_tails s < lost_tails s2 \<and> amap (records s2) x = None" by auto
qed

lemma remove_slots:
  assumes "v_inv ext s" and "base < e" and "\<And>h. ext h \<le> 27000"
  shows "\<exists>s'. for_each (remove_slot base e) is s = Some s' \<and> v_inv ext s' \<and> punched base e (set is) s s'"
  using assms(1)
proof (induction "is" arbitrary: s)
  case Nil
  then show ?case using punched_refl by simp
next
  case (Cons i "is")
  from remove_slot_spec [OF Cons.prems assms(2,3)] obtain s1 where
    1: "remove_slot base e i s = Some s1" "v_inv ext s1" "punched base e {i} s s1" by blast
  from Cons.IH [OF 1(2)] obtain s2 where
    2: "for_each (remove_slot base e) is s1 = Some s2" "v_inv ext s2" "punched base e (set is) s1 s2" by blast
  from punched_trans [OF 1(3) 2(3)] 1 2 show ?case by auto
qed

lemma vremove_spec:
  assumes inv: "v_inv ext s" and ext: "\<And>h. ext h \<le> 27000"
  shows "\<exists>s'. vremove base bytes s = Some s' \<and> v_inv ext s' \<and> lost_tails s \<le> lost_tails s' \<and>
    (0 < bytes \<longrightarrow> (\<forall>j < length (records s'). \<not> hits base (base + bytes) (records s' ! j))) \<and>
    (\<forall>a. if base \<le> a \<and> a < base + bytes then amap (records s') a = None
         else amap (records s') a = amap (records s) a \<or> lost_tails s < lost_tails s' \<and> amap (records s') a = None)"
proof (cases "bytes = 0")
  case True
  then show ?thesis using inv by (auto simp: vremove_def hits_def)
next
  case False
  have len: "length (records s) = cap (vtab s)" using inv records_length by (auto simp: v_inv_def)
  from remove_slots [OF inv _ ext, of base "base + bytes" "[0..<cap (vtab s)]"] False obtain s' where
    s': "vremove base bytes s = Some s'" "v_inv ext s'" "punched base (base + bytes) {0..<cap (vtab s)} s s'"
    by (auto simp: vremove_def)
  have miss: "\<not> hits base (base + bytes) (records s' ! j)" if "j < length (records s')" for j
    using s'(3) that len unfolding punched_def by auto
  have "amap (records s') a = None" if "base \<le> a" "a < base + bytes" for a
  proof -
    have "\<not> covers (records s' ! j) a" if "j < length (records s')" for j
      using miss [OF that] \<open>base \<le> a\<close> \<open>a < base + bytes\<close> by (auto simp: hits_def covers_def)
    then show ?thesis using vfind_None [of "records s'" a] by (simp add: amap_def)
  qed
  with s' miss show ?thesis unfolding punched_def by (intro exI [of _ s']) auto
qed

section \<open>Placing a record\<close>

lemma grow_rec:
  assumes ok: "recs_ok ms" and i: "i < length ms" and fit: "v_end m \<le> usize_max"
    and cov: "\<And>a. covers m a \<longleftrightarrow> covers (ms ! i) a \<or> X a" and free: "\<And>j a. j < length ms \<Longrightarrow> X a \<Longrightarrow> \<not> covers (ms ! j) a"
  shows "recs_ok (ms[i := m])" "amap (ms[i := m]) a = (if covers m a then Some (src m a) else amap ms a)"
proof -
  show w: "recs_ok (ms[i := m])"
    by (rule recs_ok_write [OF ok fit]) (use recs_okD [OF ok i] cov free in blast)
  show "amap (ms[i := m]) a = (if covers m a then Some (src m a) else amap ms a)"
    using amap_write [OF ok w i, of a] cov [of a] by auto
qed

lemma miss_covers:
  assumes "\<And>j. j < length ms \<Longrightarrow> \<not> hits (v_base new) (v_end new) (ms ! j)"
  shows "j < length ms \<Longrightarrow> covers new a \<Longrightarrow> \<not> covers (ms ! j) a"
  using assms [of j] by (auto simp: hits_def covers_def)

definition merged :: "vma \<Rightarrow> vma \<Rightarrow> vma" where
  "merged new lo = lo\<lparr>v_len := v_len lo + v_len new, v_file_len := file_len_of (v_file new) (v_len lo + v_len new)\<rparr>"

definition merged_up :: "vma \<Rightarrow> vma \<Rightarrow> vma" where
  "merged_up new hi = hi\<lparr>v_len := v_len hi + v_len new, v_base := v_base new, v_file_off := v_file_off new,
     v_file_len := file_len_of (v_file new) (v_len hi + v_len new)\<rparr>"

definition merged_both :: "vma \<Rightarrow> vma \<Rightarrow> vma \<Rightarrow> vma" where
  "merged_both new lo hi = lo\<lparr>v_len := v_end hi - v_base lo, v_file_len := file_len_of (v_file new) (v_end hi - v_base lo)\<rparr>"

lemma merged_props:
  assumes "joins_below new lo" and "v_len new \<noteq> 0"
  shows "covers (merged new lo) a \<longleftrightarrow> covers lo a \<or> covers new a" "covers lo a \<Longrightarrow> src (merged new lo) a = src lo a"
    "covers new a \<Longrightarrow> src (merged new lo) a = src new a" "hold1 h (merged new lo) = hold1 h lo" "v_end (merged new lo) = v_end new"
  using assms by (cases "v_file new"; auto simp: joins_below_def covers_def merged_def v_end_def src_def hold1_def file_len_of_def)+

lemma merged_up_props:
  assumes "joins_above new hi" and "v_len new \<noteq> 0"
  shows "covers (merged_up new hi) a \<longleftrightarrow> covers hi a \<or> covers new a" "covers hi a \<Longrightarrow> src (merged_up new hi) a = src hi a"
    "covers new a \<Longrightarrow> src (merged_up new hi) a = src new a" "hold1 h (merged_up new hi) = hold1 h hi"
    "v_end (merged_up new hi) = v_end hi"
  using assms by (cases "v_file new"; auto simp: joins_above_def covers_def merged_up_def v_end_def src_def hold1_def file_len_of_def)+

lemma merged_both_props:
  assumes "joins_below new lo" and "joins_above new hi" and "v_len new \<noteq> 0"
  shows "covers (merged_both new lo hi) a \<longleftrightarrow> covers lo a \<or> covers new a \<or> covers hi a"
    "covers lo a \<Longrightarrow> src (merged_both new lo hi) a = src lo a" "covers new a \<Longrightarrow> src (merged_both new lo hi) a = src new a"
    "covers hi a \<Longrightarrow> src (merged_both new lo hi) a = src hi a"
    "hold1 h (merged_both new lo hi) = hold1 h lo" "v_end (merged_both new lo hi) = v_end hi"
  using assms
  by (cases "v_file new"; auto simp: joins_below_def joins_above_def covers_def merged_both_def v_end_def src_def hold1_def file_len_of_def)+

text \<open>
  The four ways to place a record that touches no other one. The caller hands over one reference to the
  record's file, counted in the invariant before and, unless the record keeps it, released after.
\<close>

definition placeable :: "(handle \<Rightarrow> nat) \<Rightarrow> vma \<Rightarrow> vmas \<Rightarrow> bool" where
  "placeable ext new s \<longleftrightarrow> v_inv (\<lambda>h. ext h + one_if (v_file new = Some h)) s \<and> v_len new \<noteq> 0 \<and> v_end new \<le> usize_max \<and>
     (\<forall>j < length (records s). \<not> hits (v_base new) (v_end new) (records s ! j))"

definition placed :: "(handle \<Rightarrow> nat) \<Rightarrow> vma \<Rightarrow> vmas \<Rightarrow> vmas \<Rightarrow> bool \<Rightarrow> bool" where
  "placed ext new s s' ok \<longleftrightarrow> v_inv ext s' \<and> lost_tails s' = lost_tails s \<and>
     (\<forall>a. amap (records s') a = (if ok \<and> covers new a then Some (src new a) else amap (records s) a)) \<and>
     (ok \<or> (\<forall>m \<in> set (records s). v_len m \<noteq> 0))"

lemma placeableD:
  assumes "placeable ext new s"
  shows "tab_ok s" "recs_ok (records s)" "v_len new \<noteq> 0" "v_end new \<le> usize_max"
    "refs_are (vfiles s) (\<lambda>h. held_by h (records s) + (ext h + one_if (v_file new = Some h)))"
    "refs_are (close_opt (v_file new) (vfiles s)) (\<lambda>h. held_by h (records s) + ext h)"
    "\<And>j a. j < length (records s) \<Longrightarrow> covers new a \<Longrightarrow> \<not> covers (records s ! j) a"
proof -
  show "tab_ok s" "recs_ok (records s)" "v_len new \<noteq> 0" "v_end new \<le> usize_max"
    and refs: "refs_are (vfiles s) (\<lambda>h. held_by h (records s) + (ext h + one_if (v_file new = Some h)))"
    using assms by (auto simp: placeable_def v_inv_def)
  show "refs_are (close_opt (v_file new) (vfiles s)) (\<lambda>h. held_by h (records s) + ext h)"
    using refs_are_close [OF refs, of "v_file new"] by (auto intro: refs_are_cong)
  show "\<And>j a. j < length (records s) \<Longrightarrow> covers new a \<Longrightarrow> \<not> covers (records s ! j) a"
    using assms miss_covers by (auto simp: placeable_def)
qed

lemma place_between:
  assumes pl: "placeable ext new s"
    and b: "rec_position (joins_below new) (records s) = Some b" and c: "rec_position (joins_above new) (records s) = Some c"
  shows "\<exists>s' ok. place new s = Some (s', ok) \<and> placed ext new s s' ok"
proof -
  note tab = placeableD(1) [OF pl] and ok = placeableD(2) [OF pl] and new = placeableD(3,4) [OF pl]
    and refs = placeableD(5) [OF pl] and refs0 = placeableD(6) [OF pl] and free = placeableD(7) [OF pl]
  let ?ms = "records s" and ?s0 = "s\<lparr>vfiles := close_opt (v_file new) (vfiles s)\<rparr>"
  have tab0: "tab_ok ?s0" using tab by simp
  from b have bi: "b < length ?ms" "joins_below new (?ms ! b)" by (auto simp: rec_position_def find_idx_Some)
  from c have ci: "c < length ?ms" "joins_above new (?ms ! c)" by (auto simp: rec_position_def find_idx_Some)
  have bc: "b \<noteq> c" using bi ci new(1) by (auto simp: joins_below_def joins_above_def v_end_def)
  let ?m = "merged_both new (?ms ! b) (?ms ! c)"
  note mp = merged_both_props [OF bi(2) ci(2) new(1)]
  let ?s1 = "put_rec b ?m ?s0" let ?s1' = "?s1\<lparr>vfiles := close_opt (v_file (?ms ! c)) (vfiles ?s1)\<rparr>" let ?s' = "put_rec c VMA_EMPTY ?s1'"
  note pv1 = put_rec_view [OF tab0, of b ?m]
  have tab1: "tab_ok ?s1'" using pv1(2) by simp
  note pv2 = put_rec_view [OF tab1, of c VMA_EMPTY]
  have recs: "records ?s' = ?ms[c := VMA_EMPTY, b := ?m]" using pv1(1) pv2(1) bc by (simp add: list_update_swap)
  have chi: "v_len (?ms ! c) \<noteq> 0" "v_end (?ms ! c) \<le> usize_max" "v_file (?ms ! c) = v_file new"
    using ci live_end [OF ok ci(1)] by (auto simp: joins_above_def)
  note shr = shrink_rec [OF ok ci(1), of VMA_EMPTY]
  have gone: "\<not> covers (?ms[c := VMA_EMPTY] ! j) a" if "j < length ?ms" "covers new a \<or> covers (?ms ! c) a" for j a
    using that free [of j a] recs_okD [OF ok that(1) ci(1), of a] by (cases "j = c") auto
  note gr = grow_rec [where i = b and ms = "?ms[c := VMA_EMPTY]" and m = ?m and X = "\<lambda>a. covers new a \<or> covers (?ms ! c) a"]
  have g: "recs_ok (records ?s')" "amap (records ?s') a = (if covers ?m a then Some (src ?m a) else amap (?ms[c := VMA_EMPTY]) a)" for a
    unfolding recs using gr shr(1) bi(1) mp(1,6) chi(2) gone bc by simp_all
  have am: "amap (records ?s') a = (if covers new a then Some (src new a) else amap ?ms a)" for a
    using g(2) [of a] mp(1-4) [of a] shr(2) [of a] amap_covered [OF ok bi(1), of a] amap_covered [OF ok ci(1), of a] by auto
  have cl: "refs_are (vfiles ?s1') (\<lambda>h. held_by h ?ms + ext h - one_if (v_file (?ms ! c) = Some h))"
    unfolding pv1(3)
  proof (simp, rule refs_are_close)
    show "refs_are (close_opt (v_file new) (vfiles s)) (\<lambda>h. held_by h ?ms + ext h)" using refs0 by simp
    fix h assume "v_file (?ms ! c) = Some h"
    then show "0 < held_by h ?ms + ext h" using hold1_le [OF ci(1), of h] chi(1) by (simp add: hold1_def)
  qed
  have "held_by h ?ms + ext h - one_if (v_file (?ms ! c) = Some h) = held_by h (records ?s') + ext h" for h
    using holds_write [OF ci(1), of h VMA_EMPTY] holds_write [of b "?ms[c := VMA_EMPTY]" h ?m] bi(1) bc mp(5) [of h] chi(1)
    unfolding recs by (simp add: hold1_def)
  from refs_are_cong [OF cl this] have "refs_are (vfiles ?s') (\<lambda>h. held_by h (records ?s') + ext h)" unfolding pv2(3) .
  then have "v_inv ext ?s'" using pv2(2) g(1) by (simp add: v_inv_def)
  moreover have "place new s = Some (?s', True)"
    using b c by (simp add: place_def Let_def merged_both_def)
  ultimately show ?thesis using am pv1(4) pv2(4) by (auto simp: placed_def)
qed

lemma place_after_lower:
  assumes pl: "placeable ext new s"
    and b: "rec_position (joins_below new) (records s) = Some b" and c: "rec_position (joins_above new) (records s) = None"
  shows "\<exists>s' ok. place new s = Some (s', ok) \<and> placed ext new s s' ok"
proof -
  note tab = placeableD(1) [OF pl] and ok = placeableD(2) [OF pl] and new = placeableD(3,4) [OF pl]
    and refs = placeableD(5) [OF pl] and refs0 = placeableD(6) [OF pl] and free = placeableD(7) [OF pl]
  let ?ms = "records s" and ?s0 = "s\<lparr>vfiles := close_opt (v_file new) (vfiles s)\<rparr>"
  have tab0: "tab_ok ?s0" using tab by simp
  from b have bi: "b < length ?ms" "joins_below new (?ms ! b)" by (auto simp: rec_position_def find_idx_Some)
  let ?m = "merged new (?ms ! b)" let ?s' = "put_rec b ?m ?s0"
  note mp = merged_props [OF bi(2) new(1)] and pv = put_rec_view [OF tab0, of b ?m]
  have recs: "records ?s' = ?ms[b := ?m]" using pv(1) by simp
  have g: "recs_ok (records ?s')" "amap (records ?s') a = (if covers ?m a then Some (src ?m a) else amap ?ms a)" for a
    unfolding recs using grow_rec [OF ok bi(1), of ?m "covers new"] mp(1,5) new(2) free by simp_all
  have am: "amap (records ?s') a = (if covers new a then Some (src new a) else amap ?ms a)" for a
    using g(2) [of a] mp(1-3) [of a] amap_covered [OF ok bi(1), of a] by auto
  have "held_by h ?ms + ext h = held_by h (records ?s') + ext h" for h
    using holds_write [OF bi(1), of h ?m] mp(4) [of h] unfolding recs by simp
  from refs_are_cong [OF refs0 this] have "v_inv ext ?s'" using pv(2,3) g(1) by (simp add: v_inv_def)
  moreover have "place new s = Some (?s', True)" using b c by (simp add: place_def Let_def merged_def)
  ultimately show ?thesis using am pv(4) by (auto simp: placed_def)
qed

lemma place_before_upper:
  assumes pl: "placeable ext new s"
    and b: "rec_position (joins_below new) (records s) = None" and c: "rec_position (joins_above new) (records s) = Some c"
  shows "\<exists>s' ok. place new s = Some (s', ok) \<and> placed ext new s s' ok"
proof -
  note tab = placeableD(1) [OF pl] and ok = placeableD(2) [OF pl] and new = placeableD(3,4) [OF pl]
    and refs = placeableD(5) [OF pl] and refs0 = placeableD(6) [OF pl] and free = placeableD(7) [OF pl]
  let ?ms = "records s" and ?s0 = "s\<lparr>vfiles := close_opt (v_file new) (vfiles s)\<rparr>"
  have tab0: "tab_ok ?s0" using tab by simp
  from c have ci: "c < length ?ms" "joins_above new (?ms ! c)" by (auto simp: rec_position_def find_idx_Some)
  let ?m = "merged_up new (?ms ! c)" let ?s' = "put_rec c ?m ?s0"
  note mp = merged_up_props [OF ci(2) new(1)] and pv = put_rec_view [OF tab0, of c ?m]
  have recs: "records ?s' = ?ms[c := ?m]" using pv(1) by simp
  have fit: "v_end ?m \<le> usize_max" using live_end [OF ok ci(1)] ci(2) mp(5) by (simp add: joins_above_def)
  have g: "recs_ok (records ?s')" "amap (records ?s') a = (if covers ?m a then Some (src ?m a) else amap ?ms a)" for a
    unfolding recs using grow_rec [OF ok ci(1), of ?m "covers new"] mp(1) fit free by simp_all
  have am: "amap (records ?s') a = (if covers new a then Some (src new a) else amap ?ms a)" for a
    using g(2) [of a] mp(1-3) [of a] amap_covered [OF ok ci(1), of a] by auto
  have "held_by h ?ms + ext h = held_by h (records ?s') + ext h" for h
    using holds_write [OF ci(1), of h ?m] mp(4) [of h] unfolding recs by simp
  from refs_are_cong [OF refs0 this] have "v_inv ext ?s'" using pv(2,3) g(1) by (simp add: v_inv_def)
  moreover have "place new s = Some (?s', True)" using b c by (simp add: place_def Let_def merged_up_def)
  ultimately show ?thesis using am pv(4) by (auto simp: placed_def)
qed

lemma place_alone:
  assumes pl: "placeable ext new s"
    and b: "rec_position (joins_below new) (records s) = None" and c: "rec_position (joins_above new) (records s) = None"
  shows "\<exists>s' ok. place new s = Some (s', ok) \<and> placed ext new s s' ok"
proof -
  note tab = placeableD(1) [OF pl] and ok = placeableD(2) [OF pl] and new = placeableD(3,4) [OF pl]
    and refs = placeableD(5) [OF pl] and refs0 = placeableD(6) [OF pl] and free = placeableD(7) [OF pl]
  let ?ms = "records s" and ?s0 = "s\<lparr>vfiles := close_opt (v_file new) (vfiles s)\<rparr>"
  have tab0: "tab_ok ?s0" using tab by simp
  from vfree_slot_spec [OF tab] obtain s1 r n where
    f: "vfree_slot s = Some (s1, r)" "tab_ok s1" "vfiles s1 = vfiles s" "lost_tails s1 = lost_tails s"
      "records s1 = ?ms @ replicate n VMA_EMPTY"
      "case r of None \<Rightarrow> (\<forall>m \<in> set ?ms. v_len m \<noteq> 0) | Some j \<Rightarrow> j < length (records s1) \<and> v_len (records s1 ! j) = 0"
    by (auto split: option.splits)
  have ok1: "recs_ok (records s1)" unfolding f(5) by (rule recs_ok_empties [OF ok])
  have am1: "amap (records s1) a = amap ?ms a" for a by (simp add: f(5) amap_def vfind_empties)
  show ?thesis
  proof (cases r)
    case None
    let ?s' = "s1\<lparr>vfiles := close_opt (v_file new) (vfiles s1)\<rparr>"
    have "place new s = Some (?s', False)" using b c f(1) None by (simp add: place_def Let_def)
    moreover have "v_inv ext ?s'" using f(2,3,5) ok1 refs0 by (simp add: v_inv_def holds_empties)
    ultimately show ?thesis using am1 f(4,6) None by (auto simp: placed_def)
  next
    case (Some j)
    with f(6) have j: "j < length (records s1)" "v_len (records s1 ! j) = 0" by auto
    let ?s' = "put_rec j new s1"
    note pv = put_rec_view [OF f(2), of j new]
    have free1: "\<not> covers (records s1 ! i) a" if "i < length (records s1)" "covers new a" for i a
      using that free [of i a] nth_empties [of i ?ms n a] by (simp add: f(5))
    have nc: "covers (records s1 ! j) a = False" for a using j(2) by (simp add: covers_def)
    have g: "recs_ok (records ?s')" "amap (records ?s') a = (if covers new a then Some (src new a) else amap ?ms a)" for a
      unfolding pv(1) using grow_rec [OF ok1 j(1) new(2), of "covers new"] nc free1 am1 by simp_all
    have "held_by h ?ms + (ext h + one_if (v_file new = Some h)) = held_by h (records ?s') + ext h" for h
      using holds_write [OF j(1), of h new] j(2) new(1) unfolding pv(1) by (simp add: f(5) holds_empties hold1_def)
    from refs_are_cong [OF refs this] have "v_inv ext ?s'" using pv(2,3) g(1) f(3) by (simp add: v_inv_def)
    moreover have "place new s = Some (?s', True)" using b c f(1) Some by (simp add: place_def Let_def)
    ultimately show ?thesis using g(2) pv(4) f(4) by (auto simp: placed_def)
  qed
qed

lemma place_spec:
  assumes "placeable ext new s"
  shows "\<exists>s' ok. place new s = Some (s', ok) \<and> placed ext new s s' ok"
  using place_between [OF assms] place_after_lower [OF assms] place_before_upper [OF assms] place_alone [OF assms]
  by (cases "rec_position (joins_below new) (records s)"; cases "rec_position (joins_above new) (records s)") auto

section \<open>What the operations promise\<close>

text \<open>The abstract operations on address maps that the list implements.\<close>

type_synonym amaps = "nat \<Rightarrow> (u64 \<times> u64 \<times> (handle \<times> nat \<times> bool) option) option"

definition map_over :: "nat \<Rightarrow> nat \<Rightarrow> u64 \<Rightarrow> u64 \<Rightarrow> backing option \<Rightarrow> amaps \<Rightarrow> amaps" where
  "map_over base bytes prot flags b M = (\<lambda>a. if base \<le> a \<and> a < base + bytes
     then Some (prot, flags, map_option (\<lambda>b. (b_file b, b_off b + (a - base), a - base < b_len b)) b) else M a)"

definition unmap :: "nat \<Rightarrow> nat \<Rightarrow> amaps \<Rightarrow> amaps" where
  "unmap base bytes M = (\<lambda>a. if base \<le> a \<and> a < base + bytes then None else M a)"

text \<open>Equal, but for addresses outside the range that a dropped tail took with it.\<close>

definition same_but_lost :: "nat \<Rightarrow> nat \<Rightarrow> vmas \<Rightarrow> vmas \<Rightarrow> amaps \<Rightarrow> bool" where
  "same_but_lost base bytes s s' M \<longleftrightarrow> lost_tails s \<le> lost_tails s' \<and>
     (\<forall>a. amap (records s') a = M a \<or>
          lost_tails s < lost_tails s' \<and> \<not> (base \<le> a \<and> a < base + bytes) \<and> amap (records s') a = None)"

lemma same_but_lostD:
  "same_but_lost base bytes s s' M \<Longrightarrow> lost_tails s' = lost_tails s \<Longrightarrow> amap (records s') = M"
  by (auto simp: same_but_lost_def fun_eq_iff)

lemma insert_backed_spec:
  assumes inv: "v_inv (\<lambda>h. ext h + one_if (map_option b_file b = Some h)) s" and fits: "base + bytes \<le> usize_max"
    and ext: "\<And>h. ext h < 27000"
  shows "\<exists>s' ok. insert_backed base bytes prot flags b s = Some (s', ok) \<and> v_inv ext s' \<and>
    same_but_lost base bytes s s' ((if ok then map_over base bytes prot flags b else unmap base bytes) (amap (records s)))"
proof -
  obtain fl off flen where parts: "backing_parts b = (fl, off, flen)" by (metis prod_cases3)
  then have fl: "fl = map_option b_file b"
    and src: "map_option (\<lambda>h. (h, off + (a - base), a - base < flen)) fl =
      map_option (\<lambda>b. (b_file b, b_off b + (a - base), a - base < b_len b)) b" for a
    by (auto simp: backing_parts_def split: option.splits)
  show ?thesis
  proof (cases "bytes = 0")
    case True
    let ?s' = "s\<lparr>vfiles := close_opt fl (vfiles s)\<rparr>"
    have refs: "refs_are (vfiles s) (\<lambda>h. held_by h (records s) + (ext h + one_if (fl = Some h)))"
      using inv by (simp add: v_inv_def fl)
    have "refs_are (close_opt fl (vfiles s)) (\<lambda>h. held_by h (records s) + ext h)"
      using refs_are_close [OF refs, of fl] by (auto intro: refs_are_cong)
    then have "v_inv ext ?s'" using inv by (simp add: v_inv_def)
    moreover have "insert_backed base bytes prot flags b s = Some (?s', True)"
      using parts True by (simp add: insert_backed_def)
    moreover have "same_but_lost base bytes s ?s' (map_over base bytes prot flags b (amap (records s)))"
      using True by (auto simp: same_but_lost_def map_over_def)
    ultimately show ?thesis by (intro exI [of _ ?s'] exI [of _ True]) simp
  next
    case False
    let ?new = "\<lparr> v_base = base, v_len = bytes, v_prot = prot, v_flags = flags, v_file = fl, v_file_off = off,
      v_file_len = flen, v_advice = 0 \<rparr>"
    have bound: "ext h + one_if (map_option b_file b = Some h) \<le> 27000" for h using ext [of h] by (simp add: one_if_def)
    from vremove_spec [OF inv bound, of base bytes] obtain s1 where
      1: "vremove base bytes s = Some s1" "v_inv (\<lambda>h. ext h + one_if (map_option b_file b = Some h)) s1" "lost_tails s \<le> lost_tails s1"
        "0 < bytes \<longrightarrow> (\<forall>j < length (records s1). \<not> hits base (base + bytes) (records s1 ! j))"
        "\<forall>a. if base \<le> a \<and> a < base + bytes then amap (records s1) a = None
          else amap (records s1) a = amap (records s) a \<or> lost_tails s < lost_tails s1 \<and> amap (records s1) a = None"
      by (elim exE conjE)
    have "placeable ext ?new s1" using 1(2,4) fits False by (simp add: placeable_def v_end_def fl)
    from place_spec [OF this] obtain s' ok where
      2: "place ?new s1 = Some (s', ok)" "v_inv ext s'" "lost_tails s' = lost_tails s1"
        "\<And>a. amap (records s') a = (if ok \<and> covers ?new a then Some (src ?new a) else amap (records s1) a)"
      by (auto simp: placed_def)
    have "insert_backed base bytes prot flags b s = Some (s', ok)"
      using parts False 1(1) 2(1) by (simp add: insert_backed_def)
    moreover have "same_but_lost base bytes s s' ((if ok then map_over base bytes prot flags b else unmap base bytes) (amap (records s)))"
      unfolding same_but_lost_def
    proof (intro conjI allI)
      show "lost_tails s \<le> lost_tails s'" using 1(3) 2(3) by simp
      fix a
      have cov: "covers ?new a \<longleftrightarrow> base \<le> a \<and> a < base + bytes" using False by (simp add: covers_def v_end_def)
      have "src ?new a = (prot, flags, map_option (\<lambda>b. (b_file b, b_off b + (a - base), a - base < b_len b)) b)"
        by (simp add: src_def src)
      then show "amap (records s') a = (if ok then map_over base bytes prot flags b else unmap base bytes) (amap (records s)) a \<or>
          lost_tails s < lost_tails s' \<and> \<not> (base \<le> a \<and> a < base + bytes) \<and> amap (records s') a = None"
        using 1(5) [rule_format, of a] 2(3) 2(4) [of a] by (cases ok; cases "base \<le> a \<and> a < base + bytes") (auto simp: cov map_over_def unmap_def)
    qed
    ultimately show ?thesis using 2(2) by blast
  qed
qed

section \<open>First fit\<close>

definition fits_at :: "vma list \<Rightarrow> nat \<Rightarrow> nat \<Rightarrow> nat \<Rightarrow> bool" where
  "fits_at ms hi bytes a \<longleftrightarrow> a + bytes \<le> usize_max \<and> a + bytes \<le> hi \<and> (\<forall>m \<in> set ms. \<not> hits a (a + bytes) m)"

lemma overlap_ends_empty: "overlap_ends ms lo e = [] \<longleftrightarrow> (\<forall>m \<in> set ms. \<not> hits lo e m)"
  by (auto simp: overlap_ends_def live_recs_def hits_def filter_empty_conv)

text \<open>Skipping to the largest end of the overlapping records skips no address that fits.\<close>

lemma skip_nothing:
  assumes "recs_ok ms" and "0 < bytes" and "overlap_ends ms c (c + bytes) = p # ps" and "c \<le> a" and "a < Max (set (p # ps))"
  shows "\<not> fits_at ms hi bytes a"
proof
  assume fit: "fits_at ms hi bytes a"
  have "Max (set (p # ps)) \<in> set (overlap_ends ms c (c + bytes))" unfolding assms(3) by (rule Max_in) simp_all
  then obtain m where m: "m \<in> set ms" "v_len m \<noteq> 0" "v_base m < c + bytes" "c < v_end m" "Max (set (p # ps)) = v_end m"
    by (auto simp: overlap_ends_def live_recs_def)
  with fit have "\<not> hits a (a + bytes) m" by (simp add: fits_at_def)
  with m assms(4,5) show False by (simp add: hits_def)
qed

lemma find_free_from_spec:
  assumes "recs_ok ms" and "0 < bytes"
  shows "case find_free_from ms c hi bytes of
      Some a \<Rightarrow> c \<le> a \<and> fits_at ms hi bytes a \<and> (\<forall>x. c \<le> x \<and> x < a \<longrightarrow> \<not> fits_at ms hi bytes x)
    | None \<Rightarrow> \<forall>x. c \<le> x \<longrightarrow> \<not> fits_at ms hi bytes x"
  using assms
proof (induction ms c hi bytes rule: find_free_from.induct)
  case (1 ms c hi bytes)
  show ?case
  proof (cases "c + bytes \<le> usize_max \<and> c + bytes \<le> hi")
    case False
    then have "find_free_from ms c hi bytes = None" by (subst find_free_from.simps) (auto simp: checked_add_def)
    moreover have "\<not> fits_at ms hi bytes x" if "c \<le> x" for x using False that by (auto simp: fits_at_def)
    ultimately show ?thesis by simp
  next
    case True
    then have ca: "checked_add c bytes = Some (c + bytes)" by simp
    show ?thesis
    proof (cases "overlap_ends ms c (c + bytes)")
      case Nil
      then have "find_free_from ms c hi bytes = Some c" using True by (subst find_free_from.simps) (simp add: checked_add_def)
      moreover have "fits_at ms hi bytes c" using Nil True by (simp add: fits_at_def overlap_ends_empty)
      ultimately show ?thesis by auto
    next
      case (Cons p ps)
      let ?c = "Max (set (p # ps))"
      have eq: "find_free_from ms c hi bytes = find_free_from ms ?c hi bytes"
        using True Cons by (subst find_free_from.simps) (simp add: checked_add_def)
      have "?c \<in> set (overlap_ends ms c (c + bytes))" unfolding Cons by (rule Max_in) simp_all
      then have lt: "c < ?c" by (rule overlap_ends_gt)
      note skip = skip_nothing [OF 1(2,3) Cons, where hi = hi]
      have "\<not> hi < c + bytes" using True by simp
      note IH = 1(1) [OF ca this Cons 1(2,3)]
      have below: "\<not> fits_at ms hi bytes x" if "c \<le> x" "?c \<le> x \<Longrightarrow> \<not> fits_at ms hi bytes x" for x
        using that(2) skip [OF that(1)] not_le by blast
      show ?thesis
      proof (cases "find_free_from ms ?c hi bytes")
        case None
        with IH below show ?thesis unfolding eq by simp
      next
        case (Some a)
        from IH Some have i: "?c \<le> a" "fits_at ms hi bytes a" "\<And>x. ?c \<le> x \<Longrightarrow> x < a \<Longrightarrow> \<not> fits_at ms hi bytes x"
          by (simp_all del: Max_le_iff Max.bounded_iff)
        have "\<not> fits_at ms hi bytes x" if "c \<le> x" "x < a" for x using below [OF that(1)] i(3) that(2) by blast
        with Some i(2) less_imp_le [OF lt] i(1) show ?thesis unfolding eq by (simp del: Max_le_iff Max.bounded_iff)
      qed
    qed
  qed
qed

section \<open>Protection changes\<close>

lemma prot_run_le:
  assumes "page + r \<le> e" and "FRAME_SIZE dvd e - (page + r)"
  shows "page + prot_run ms page e fl fo r \<le> e"
  using assms
proof (induction ms page e fl fo r rule: prot_run.induct)
  case (1 ms page e fl fo r)
  show ?case
  proof (cases "page + r < e \<and> map_option (\<lambda>m. (v_flags m, v_file m)) (vfind ms (page + r)) = Some (fl, fo)")
    case True
    then have "FRAME_SIZE \<le> e - (page + r)" using 1(3) by (intro dvd_imp_le) simp_all
    then have "page + (r + FRAME_SIZE) \<le> e" by (simp add: FRAME_SIZE_def)
    moreover have "FRAME_SIZE dvd e - (page + (r + FRAME_SIZE))"
      using dvd_diff_nat [OF 1(3) dvd_refl] by (simp add: add.assoc)
    ultimately show ?thesis using 1(1) [OF True] True by (subst prot_run.simps) simp
  next
    case False
    then show ?thesis using 1(2) by (subst prot_run.simps) auto
  qed
qed

text \<open>
  The record found, if any, gains a reference, then its range is inserted again: the invariant is kept,
  every address of the run that stays mapped has the new protection, the others are as before.
\<close>

definition prot_at :: "u64 \<Rightarrow> (u64 \<times> 'a) option \<Rightarrow> bool" where
  "prot_at p x = (case x of None \<Rightarrow> True | Some (q, _) \<Rightarrow> q = p)"

lemma addref_record:
  assumes inv: "v_inv ext s" and ext: "\<And>h. ext h < 27000" and hf: "\<And>h. fo = Some h \<Longrightarrow> 0 < held_by h (records s)"
  shows "v_inv (\<lambda>h. ext h + one_if (fo = Some h)) (s\<lparr>vfiles := addref_opt fo (vfiles s)\<rparr>)"
proof -
  from inv have tab: "tab_ok s" and refs: "refs_are (vfiles s) (\<lambda>h. held_by h (records s) + ext h)" by (auto simp: v_inv_def)
  have "refs_are (addref_opt fo (vfiles s)) (\<lambda>h. held_by h (records s) + ext h + one_if (fo = Some h))"
  proof (rule refs_are_addref [OF refs])
    fix h assume "fo = Some h"
    with hf have "0 < held_by h (records s)" by simp
    with holds_le [of h "records s"] records_le [OF tab] ext [of h]
    show "0 < held_by h (records s) + ext h \<and> held_by h (records s) + ext h < 65535" by simp
  qed
  then show ?thesis using inv by (simp add: v_inv_def add.assoc)
qed

lemma vfind_holds: "vfind ms a = Some m \<Longrightarrow> v_file m = Some h \<Longrightarrow> 0 < held_by h ms"
proof -
  assume "vfind ms a = Some m" "v_file m = Some h"
  then obtain i where "i < length ms" "ms ! i = m" "covers m a" by (elim vfind_SomeD)
  with hold1_le [of i ms h] \<open>v_file m = Some h\<close> show ?thesis by (simp add: hold1_def covers_def)
qed

lemma prot_step_spec:
  assumes inv: "v_inv ext s" and ext: "\<And>h. ext h < 27000" and al: "FRAME_SIZE dvd e - page" "page < e" "e \<le> usize_max"
  shows "\<exists>run s'. prot_step page e prot s = (run, Some s') \<and> 0 < run \<and> page + run \<le> e \<and> v_inv ext s' \<and>
    lost_tails s \<le> lost_tails s' \<and>
    (\<forall>a. if page \<le> a \<and> a < page + run then prot_at prot (amap (records s') a)
         else amap (records s') a = amap (records s) a \<or> lost_tails s < lost_tails s' \<and> amap (records s') a = None)"
proof -
  obtain flags fo avail where look: "(case vfind (records s) page of
      Some m \<Rightarrow> (v_flags m, v_file m, avail_at m page) | None \<Rightarrow> (0, None, 0)) = (flags, fo, avail)"
    by (cases "vfind (records s) page") auto
  define off where "off = (case vfind (records s) page of Some m \<Rightarrow> v_file_off m + (page - v_base m) | None \<Rightarrow> 0)"
  define run where "run = prot_run (records s) page e flags fo FRAME_SIZE"
  define b where "b = map_option (\<lambda>h. \<lparr> b_file = h, b_off = off, b_len = min avail run \<rparr>) fo"
  let ?s = "s\<lparr>vfiles := addref_opt fo (vfiles s)\<rparr>"
  have "FRAME_SIZE \<le> e - page" using al(1,2) by (intro dvd_imp_le) simp_all
  then have pe: "page + FRAME_SIZE \<le> e" using al(2) by simp
  have "FRAME_SIZE dvd e - (page + FRAME_SIZE)" using dvd_diff_nat [OF al(1) dvd_refl] by simp
  from prot_run_le [OF pe this] have run: "page + run \<le> e" by (simp add: run_def)
  have pos: "0 < run" using prot_run_ge [of FRAME_SIZE "records s" page e flags fo] by (simp add: run_def FRAME_SIZE_def)
  have bf: "map_option b_file b = fo" by (simp add: b_def option.map_comp comp_def option.map_ident)
  have "0 < held_by h (records s)" if "fo = Some h" for h
    using look that vfind_holds [of "records s" page _ h] by (auto split: option.splits)
  from addref_record [OF inv ext this] have "v_inv (\<lambda>h. ext h + one_if (map_option b_file b = Some h)) ?s" by (simp add: bf)
  from insert_backed_spec [OF this _ ext, of page run prot flags] run al(3) obtain s' ok where
    1: "insert_backed page run prot flags b ?s = Some (s', ok)" "v_inv ext s'"
      "same_but_lost page run ?s s' ((if ok then map_over page run prot flags b else unmap page run) (amap (records s)))"
    by auto
  have "prot_step page e prot s = (run, Some s')"
    using look 1(1) unfolding prot_step_def Let_def off_def [symmetric] by (simp add: run_def [symmetric] b_def)
  moreover have "if page \<le> a \<and> a < page + run then prot_at prot (amap (records s') a)
      else amap (records s') a = amap (records s) a \<or> lost_tails s < lost_tails s' \<and> amap (records s') a = None" for a
    using 1(3) [unfolded same_but_lost_def, THEN conjunct2, rule_format, of a]
    by (cases ok) (auto simp: prot_at_def map_over_def unmap_def)
  ultimately show ?thesis using pos run 1(2,3) by (auto simp: same_but_lost_def)
qed

lemma set_prot_from_spec:
  assumes "v_inv ext s" and "\<And>h. ext h < 27000" and "FRAME_SIZE dvd e - page" and "e \<le> usize_max"
  shows "\<exists>s'. set_prot_from page e prot s = Some s' \<and> v_inv ext s' \<and> lost_tails s \<le> lost_tails s' \<and>
    (\<forall>a. if page \<le> a \<and> a < e then prot_at prot (amap (records s') a)
         else amap (records s') a = amap (records s) a \<or> lost_tails s < lost_tails s' \<and> amap (records s') a = None)"
  using assms(1,3)
proof (induction "e - page" arbitrary: page s rule: less_induct)
  case less
  show ?case
  proof (cases "page < e")
    case False
    then show ?thesis using less(2) by (subst set_prot_from.simps) auto
  next
    case True
    from prot_step_spec [OF less(2) assms(2) less(3) True assms(4), of prot] obtain run s1 where
      1: "prot_step page e prot s = (run, Some s1)" "0 < run" "page + run \<le> e" "v_inv ext s1" "lost_tails s \<le> lost_tails s1"
        "\<forall>a. if page \<le> a \<and> a < page + run then prot_at prot (amap (records s1) a)
          else amap (records s1) a = amap (records s) a \<or> lost_tails s < lost_tails s1 \<and> amap (records s1) a = None"
      by (elim exE conjE)
    have "FRAME_SIZE dvd e - (page + run)" using prot_step_dvd [of page e prot s] 1(1) less(3) dvd_diff_nat [of FRAME_SIZE "e - page" run] by simp
    moreover have "e - (page + run) < e - page" using 1(2,3) by simp
    ultimately have "\<exists>s'. set_prot_from (page + run) e prot s1 = Some s' \<and> v_inv ext s' \<and> lost_tails s1 \<le> lost_tails s' \<and>
        (\<forall>a. if page + run \<le> a \<and> a < e then prot_at prot (amap (records s') a)
          else amap (records s') a = amap (records s1) a \<or> lost_tails s1 < lost_tails s' \<and> amap (records s') a = None)"
      using less(1) 1(4) by blast
    then obtain s' where
      2: "set_prot_from (page + run) e prot s1 = Some s'" "v_inv ext s'" "lost_tails s1 \<le> lost_tails s'"
        "\<forall>a. if page + run \<le> a \<and> a < e then prot_at prot (amap (records s') a)
          else amap (records s') a = amap (records s1) a \<or> lost_tails s1 < lost_tails s' \<and> amap (records s') a = None"
      by (elim exE conjE)
    have "set_prot_from page e prot s = Some s'" using True 1(1) 2(1) by (subst set_prot_from.simps) simp
    moreover have "if page \<le> a \<and> a < e then prot_at prot (amap (records s') a)
        else amap (records s') a = amap (records s) a \<or> lost_tails s < lost_tails s' \<and> amap (records s') a = None" for a
      using 1(6) [rule_format, of a] 2(4) [rule_format, of a] 1(3,5) 2(3) by (auto simp: prot_at_def split: if_splits)
    ultimately show ?thesis using 1(5) 2(2,3) by auto
  qed
qed

text \<open>Inside one record the run is the whole range, so one insertion does it all.\<close>

lemma prot_run_inside:
  assumes "\<And>a. page \<le> a \<Longrightarrow> a < e \<Longrightarrow> vfind ms a = Some m" and "page + r \<le> e" and "FRAME_SIZE dvd e - (page + r)"
  shows "page + prot_run ms page e (v_flags m) (v_file m) r = e"
  using assms(2,3)
proof (induction "e - (page + r)" arbitrary: r rule: less_induct)
  case less
  show ?case
  proof (cases "page + r < e")
    case True
    then have "FRAME_SIZE \<le> e - (page + r)" using less(3) by (intro dvd_imp_le) simp_all
    then have le: "page + (r + FRAME_SIZE) \<le> e" by (simp add: FRAME_SIZE_def)
    have "FRAME_SIZE dvd e - (page + (r + FRAME_SIZE))" using dvd_diff_nat [OF less(3) dvd_refl] by (simp add: add.assoc)
    moreover have "e - (page + (r + FRAME_SIZE)) < e - (page + r)" using True by (simp add: FRAME_SIZE_def)
    ultimately have "page + prot_run ms page e (v_flags m) (v_file m) (r + FRAME_SIZE) = e" using less(1) le by blast
    then show ?thesis using assms(1) [of "page + r"] True by (subst prot_run.simps) simp
  next
    case False
    then show ?thesis using less(2) by (subst prot_run.simps) simp
  qed
qed

lemma src_prot: "covers m a \<Longrightarrow> v_base m \<le> page \<Longrightarrow> page \<le> a \<Longrightarrow> a < page + run \<Longrightarrow>
    (prot, v_flags m, map_option (\<lambda>h. (h, v_file_off m + (page - v_base m) + (a - page), a - page < min (avail_at m page) run)) (v_file m))
    = (prot, snd (src m a))"
  by (cases "v_file m") (auto simp: src_def avail_at_def)

section \<open>Tear-down and fork\<close>

lemma close_all_refs:
  assumes "refs_are f (\<lambda>h. held_by h ms + ext h)"
  shows "refs_are (foldl (\<lambda>f m. if v_len m \<noteq> 0 then close_opt (v_file m) f else f) f ms) ext"
  using assms
proof (induction ms arbitrary: f)
  case Nil
  then show ?case by (simp add: held_by_def)
next
  case (Cons m ms)
  have hc: "held_by h (m # ms) = hold1 h m + held_by h ms" for h by (simp add: held_by_def)
  show ?case
  proof (cases "v_len m = 0")
    case True
    then show ?thesis using Cons by (simp add: hc hold1_def)
  next
    case False
    have "refs_are (close_opt (v_file m) f) (\<lambda>h. held_by h (m # ms) + ext h - one_if (v_file m = Some h))"
      by (rule refs_are_close [OF Cons.prems]) (simp add: hc hold1_def False)
    then have "refs_are (close_opt (v_file m) f) (\<lambda>h. held_by h ms + ext h)"
      by (rule refs_are_cong) (simp add: hc hold1_def False)
    with Cons.IH False show ?thesis by simp
  qed
qed

lemma inherit_refs:
  assumes "refs_are f n" and "\<And>h. n h + held_by h ms < 65535" and "\<And>h. 0 < held_by h ms \<Longrightarrow> 0 < n h"
  shows "refs_are (foldl (\<lambda>f m. addref_opt (v_file m) f) f (live_recs ms)) (\<lambda>h. held_by h ms + n h)"
  using assms
proof (induction ms arbitrary: f n)
  case Nil
  then show ?case by (simp add: held_by_def live_recs_def)
next
  case (Cons m ms)
  have hc: "held_by h (m # ms) = hold1 h m + held_by h ms" for h by (simp add: held_by_def)
  show ?case
  proof (cases "v_len m = 0")
    case True
    then show ?thesis using Cons by (simp add: hc hold1_def live_recs_def)
  next
    case False
    have "refs_are (addref_opt (v_file m) f) (\<lambda>h. n h + one_if (v_file m = Some h))"
    proof (rule refs_are_addref [OF Cons.prems(1)])
      fix h assume "v_file m = Some h"
      with Cons.prems(2,3) [of h] False show "0 < n h \<and> n h < 65535" by (simp add: hc hold1_def)
    qed
    moreover have "n h + one_if (v_file m = Some h) + held_by h ms < 65535" for h
      using Cons.prems(2) [of h] False by (simp add: hc hold1_def)
    moreover have "0 < n h + one_if (v_file m = Some h)" if "0 < held_by h ms" for h
      using Cons.prems(3) [of h] that by (simp add: hc)
    ultimately have "refs_are (foldl (\<lambda>f m. addref_opt (v_file m) f) (addref_opt (v_file m) f) (live_recs ms))
        (\<lambda>h. held_by h ms + (n h + one_if (v_file m = Some h)))" by (rule Cons.IH)
    then show ?thesis using False by (auto simp: live_recs_def hc hold1_def ac_simps elim!: refs_are_cong)
  qed
qed

lemma vteardown_spec:
  assumes "v_inv ext s"
  shows "\<exists>s'. vteardown s = Some s' \<and> v_inv ext s' \<and> records s' = [] \<and> held (vtab s') = []"
proof -
  from assms have tab: "km_inv (vmem s)" "funded_inv vma_ty (vmem s) (vtab s)"
    and refs: "refs_are (vfiles s) (\<lambda>h. held_by h (records s) + ext h)" by (auto simp: v_inv_def tab_ok_def)
  from funded_release_spec [OF tab] obtain k t where
    r: "funded_release (vmem s, vtab s) = Some (k, t)" "table_acct vma_ty (vmem s, vtab s) (k, t)" "cap t = 0" "held t = []" by blast
  from r(2) have inv: "km_inv k" "funded_inv vma_ty k t" by (auto simp: table_acct_def)
  with length_contents [OF inv(2)] r(3) have "contents t = []" by simp
  moreover note close_all_refs [OF refs]
  ultimately show ?thesis using r(1,4) inv
    by (simp add: vteardown_def close_all_def Let_def v_inv_def tab_ok_def recs_ok_def held_by_def)
qed

lemma put_all:
  assumes "tab_ok s" and "length ms + j \<le> length (records s)"
  shows "let s' = foldl (\<lambda>s (i, m). put_rec i m s) s (enumerate j ms) in
    tab_ok s' \<and> vfiles s' = vfiles s \<and> lost_tails s' = lost_tails s \<and>
    records s' = take j (records s) @ ms @ drop (j + length ms) (records s)"
  using assms
proof (induction ms arbitrary: s j)
  case Nil
  then show ?case by simp
next
  case (Cons m ms)
  note pv = put_rec_view [OF Cons.prems(1), of j m]
  have "length ms + Suc j \<le> length (records (put_rec j m s))" using Cons.prems(2) by (simp add: pv(1))
  from Cons.IH [OF pv(2) this] Cons.prems(2) show ?case
    by (simp add: Let_def pv take_Suc_conv_app_nth)
qed

text \<open>A copy held_by what the source held_by, in the same slots, followed by free ones.\<close>

lemma vcopy_from_spec:
  assumes tab: "tab_ok s" and fresh: "records s = []"
  shows "\<exists>s' ok. vcopy_from ms s = Some (s', ok) \<and> tab_ok s' \<and> vfiles s' = vfiles s \<and> lost_tails s' = lost_tails s \<and>
    (if ok then \<exists>n. records s' = ms @ replicate n VMA_EMPTY else records s' = [])"
proof -
  have c0: "cap (vtab s) = 0" using records_length [OF tab] fresh by simp
  show ?thesis
  proof (cases "ms = []")
    case True
    then show ?thesis using tab fresh by (intro exI [of _ s] exI [of _ True]) (simp add: vcopy_from_def)
  next
    case False
    from reserve_spec [of "vmem s" vma_ty "vtab s" "length ms"] tab obtain k t ok where
      r: "reserve vma_ty (length ms) (vmem s, vtab s) = Some ((k, t), ok)" "table_grew vma_ty (vmem s, vtab s) (k, t)"
        "ok \<longrightarrow> length ms \<le> cap t" "\<not> ok \<longrightarrow> cap t = cap (vtab s)" by (auto simp: tab_ok_def)
    let ?s = "s\<lparr>vmem := k, vtab := t\<rparr>"
    have g: "tab_ok ?s" "contents t = replicate (cap t) VMA_EMPTY" using r(2) fresh c0 by (auto simp: table_grew_def tab_ok_def)
    show ?thesis
    proof (cases ok)
      case False
      with r(1,4) g c0 \<open>ms \<noteq> []\<close> show ?thesis by (intro exI [of _ ?s] exI [of _ False]) (simp add: vcopy_from_def)
    next
      case True
      have "length ms + 0 \<le> length (records ?s)" using r(3) True g(2) by simp
      from put_all [OF g(1) this] r(1) True \<open>ms \<noteq> []\<close> g(2) show ?thesis
        by (auto simp: vcopy_from_def Let_def)
    qed
  qed
qed

lemma fork_spec:
  assumes par: "v_inv ext p" and tab: "tab_ok c" and fresh: "records c = []" and reg: "vfiles c = vfiles p"
    and few: "\<And>h. held_by h (records p) + ext h \<le> 32000" and copy: "vcopy_from (records p) c = Some (c', True)"
  shows "amap (records c') = amap (records p)" "v_inv (\<lambda>h. held_by h (records p) + ext h) (inherit_files c')"
    "records (inherit_files c') = records c'"
proof -
  from vcopy_from_spec [OF tab fresh, of "records p"] copy obtain n where
    c: "tab_ok c'" "vfiles c' = vfiles p" "records c' = records p @ replicate n VMA_EMPTY" using reg by auto
  then show "amap (records c') = amap (records p)" by (simp add: amap_def vfind_empties fun_eq_iff)
  have h: "held_by h (records c') = held_by h (records p)" for h by (simp add: c(3) holds_empties)
  have refs: "refs_are (vfiles c') (\<lambda>h. held_by h (records p) + ext h)" using par c(2) by (simp add: v_inv_def)
  have "refs_are (foldl (\<lambda>f m. addref_opt (v_file m) f) (vfiles c') (live_recs (records c')))
      (\<lambda>h. held_by h (records c') + (held_by h (records p) + ext h))"
  proof (rule inherit_refs [OF refs])
    show "held_by h (records p) + ext h + held_by h (records c') < 65535" for h using few [of h] by (simp add: h)
  qed (simp add: h)
  moreover have "recs_ok (records c')" using par recs_ok_empties by (simp add: c(3) v_inv_def)
  ultimately show "v_inv (\<lambda>h. held_by h (records p) + ext h) (inherit_files c')"
    using c(1) by (simp add: v_inv_def inherit_files_def)
  show "records (inherit_files c') = records c'" by (simp add: inherit_files_def)
qed

section \<open>Properties\<close>

text \<open>A list on a booted machine, with no mapping and no open file.\<close>

definition vmas_new :: "kmem \<Rightarrow> vmas" where
  "vmas_new k = \<lparr> vmem = k, vtab = funded_new, vfiles = \<lparr> TBL = [], released = [] \<rparr>, lost_tails = 0 \<rparr>"

lemma contents_new: "contents funded_new = []"
  by (simp add: contents_def page_data_def funded_new_def)

lemma vmas_new_inv: "km_inv k \<Longrightarrow> v_inv (\<lambda>_. 0) (vmas_new k)"
  by (simp add: v_inv_def vmas_new_def tab_ok_def contents_new recs_ok_def refs_are_def fm_alive_def held_by_def funded_inv_new)



text \<open>
  \<^verbatim>\<open>find_free\<close> is first fit. It returns the lowest address from \<open>lo\<close> up at
  which the range ends by \<open>hi\<close> and touches no mapping, and it answers nothing only when there is none:
  jumping past the end of what overlaps skips no gap, and the loop ends.
\<close>

theorem find_free_first_fit:
  assumes "recs_ok ms" and "0 < bytes"
  shows "case find_free ms lo hi bytes of
      Some a \<Rightarrow> lo \<le> a \<and> fits_at ms hi bytes a \<and> (\<forall>x. lo \<le> x \<and> x < a \<longrightarrow> \<not> fits_at ms hi bytes x)
    | None \<Rightarrow> \<forall>x. lo \<le> x \<longrightarrow> \<not> fits_at ms hi bytes x"
  unfolding find_free_def by (rule find_free_from_spec [OF assms])

theorem find_free_first_fit_witness:
  "case find_free [VMA_EMPTY\<lparr>v_base := 8192, v_len := 4096\<rparr>] 4096 65536 8192 of
      Some a \<Rightarrow> a = 12288 \<and> 4096 \<le> a \<and> fits_at [VMA_EMPTY\<lparr>v_base := 8192, v_len := 4096\<rparr>] 65536 8192 a
    | None \<Rightarrow> False"
proof -
  let ?ms = "[VMA_EMPTY\<lparr>v_base := 8192, v_len := 4096\<rparr>]"
  have "recs_ok ?ms" by (simp add: recs_ok_def v_end_def usize_max_def)
  moreover have "find_free ?ms 4096 65536 8192 = Some 12288"
    unfolding find_free_def
    by (subst find_free_from.simps, subst find_free_from.simps)
       (simp add: checked_add_def usize_max_def overlap_ends_def live_recs_def v_end_def)
  ultimately show ?thesis using find_free_first_fit [of ?ms 8192 4096 65536] by simp
qed



text \<open>
  A protection change inside one mapping is one insertion, and when that
  succeeds every address of the range keeps its flags, its file, its offset in the file and the place
  where the file's bytes end, and gets the new protection.
\<close>

theorem set_prot_in_record:
  assumes inv: "v_inv ext s" and ext: "\<And>h. ext h < 27000" and al: "FRAME_SIZE dvd bytes" "0 < bytes"
    and i: "i < length (records s)" "records s ! i = m" "v_len m \<noteq> 0" "v_base m \<le> base" "base + bytes \<le> v_end m"
  shows "\<exists>s' ok. insert_backed base bytes prot (v_flags m)
      (map_option (\<lambda>h. \<lparr> b_file = h, b_off = v_file_off m + (base - v_base m), b_len = min (avail_at m base) bytes \<rparr>) (v_file m))
      (s\<lparr>vfiles := addref_opt (v_file m) (vfiles s)\<rparr>) = Some (s', ok) \<and> set_prot base bytes prot s = Some s' \<and>
    (ok \<and> lost_tails s' = lost_tails s \<longrightarrow> amap (records s') = (\<lambda>a. if base \<le> a \<and> a < base + bytes
       then map_option (\<lambda>x. (prot, snd x)) (amap (records s) a) else amap (records s) a))"
proof -
  have ok: "recs_ok (records s)" using inv by (simp add: v_inv_def)
  have cov: "covers m a" if "base \<le> a" "a < base + bytes" for a using that i by (simp add: covers_def)
  have look: "vfind (records s) a = Some m" if "base \<le> a" "a < base + bytes" for a
    using vfind_Some [OF ok i(1), of a] cov [OF that] i(2) by simp
  let ?b = "map_option (\<lambda>h. \<lparr> b_file = h, b_off = v_file_off m + (base - v_base m), b_len = min (avail_at m base) bytes \<rparr>) (v_file m)"
  let ?s = "s\<lparr>vfiles := addref_opt (v_file m) (vfiles s)\<rparr>"
  have "FRAME_SIZE \<le> bytes" using al by (intro dvd_imp_le)
  then have "FRAME_SIZE dvd base + bytes - (base + FRAME_SIZE)" "base + FRAME_SIZE \<le> base + bytes"
    using dvd_diff_nat [OF al(1) dvd_refl] by simp_all
  from prot_run_inside [OF look this(2,1)] have run: "prot_run (records s) base (base + bytes) (v_flags m) (v_file m) FRAME_SIZE = bytes"
    by simp
  have step: "prot_step base (base + bytes) prot s = (bytes, map_option fst (insert_backed base bytes prot (v_flags m) ?b ?s))"
    using look [of base] al(2) run by (simp add: prot_step_def Let_def)
  have bf: "map_option b_file ?b = v_file m" by (simp add: option.map_comp comp_def option.map_ident)
  have "0 < held_by h (records s)" if "v_file m = Some h" for h using vfind_holds look [of base] al(2) that by auto
  from addref_record [OF inv ext this] have "v_inv (\<lambda>h. ext h + one_if (map_option b_file ?b = Some h)) ?s" by (simp add: bf)
  moreover have fits: "base + bytes \<le> usize_max" using live_end [OF ok i(1)] i(2,3,5) by simp
  ultimately obtain s' k where
    r: "insert_backed base bytes prot (v_flags m) ?b ?s = Some (s', k)"
      "same_but_lost base bytes ?s s' ((if k then map_over base bytes prot (v_flags m) ?b else unmap base bytes) (amap (records s)))"
    using insert_backed_spec [of ext ?b ?s base bytes prot "v_flags m"] ext by auto
  have "set_prot base bytes prot s = Some s'"
    using al(2) step r(1) by (simp add: set_prot_def set_prot_from.simps [of base "base + bytes"] set_prot_from.simps [of "base + bytes"])
  moreover have "map_over base bytes prot (v_flags m) ?b (amap (records s)) a = map_option (\<lambda>x. (prot, snd x)) (amap (records s) a)"
    if "base \<le> a" "a < base + bytes" for a
    using src_prot [OF cov [OF that] i(4) that, of prot] look [OF that] that by (simp add: map_over_def amap_def option.map_comp comp_def)
  ultimately show ?thesis using r same_but_lostD [OF r(2)] by (auto simp: fun_eq_iff map_over_def)
qed

text \<open>A booted machine whose list held_by one anonymous mapping.\<close>

lemma one_mapping:
  assumes "v_file m = None" and "v_len m \<noteq> 0 \<Longrightarrow> v_end m \<le> usize_max"
  shows "\<exists>s. v_inv (\<lambda>_. 0) s \<and> 0 < length (records s) \<and> records s ! 0 = m \<and> (\<forall>h. held_by h (records s) = 0)"
proof -
  obtain k where k: "km_inv k" "roomy k" using boot_memory by blast
  have inv: "funded_inv vma_ty k funded_new" by (rule funded_inv_new) simp
  from set_growing_first [OF k inv, of 0 m] obtain r where r: "set_growing vma_ty 0 m (k, funded_new) = Some (r, True)"
    using vma_ty_page(1) by (auto simp: funded_new_def vma_ty_def FRAME_SIZE_def)
  from set_growing_spec [OF k(1) inv, of 0 m] r obtain k' t' where
    t: "table_acct vma_ty (k, funded_new) (k', t')" "0 < cap t'"
      "contents t' = (replicate (cap t' - cap (funded_new :: vma funded)) VMA_EMPTY)[0 := m]" by (auto simp: contents_new)
  let ?s = "\<lparr> vmem = k', vtab = t', vfiles = \<lparr> TBL = [], released = [] \<rparr>, lost_tails = 0 \<rparr>"
  have tab: "tab_ok ?s" using t(1) by (auto simp: table_acct_def tab_ok_def)
  have len: "length (contents t') = cap t'" using records_length [OF tab] by simp
  have nth: "contents t' ! j = (if j = 0 then m else VMA_EMPTY)" if "j < cap t'" for j
    using t(3) len that by (simp add: nth_list_update)
  have "recs_ok (contents t')"
    using assms(2) by (auto simp: recs_ok_def apart_spans_def len nth in_set_conv_nth)
  moreover have zero: "held_by h (contents t') = 0" for h
    unfolding held_by_def using assms(1) by (auto simp: in_set_conv_nth len nth hold1_def sum_list_eq_0_iff)
  ultimately have "v_inv (\<lambda>_. 0) ?s" using tab by (simp add: v_inv_def refs_are_def fm_alive_def)
  then show ?thesis using nth [of 0] t(2) len zero by (intro exI [of _ ?s]) simp
qed

theorem set_prot_in_record_witness:
  "\<exists>s m. records s ! 0 = m \<and> v_end m = 20480 \<and> (\<exists>s' ok. insert_backed 8192 4096 1 (v_flags m) None s = Some (s', ok) \<and>
     set_prot 8192 4096 1 s = Some s')"
proof -
  let ?m = "VMA_EMPTY\<lparr>v_base := 4096, v_len := 16384, v_prot := 3\<rparr>"
  have m: "v_file ?m = None" "v_len ?m \<noteq> 0" "v_base ?m \<le> 8192" "v_end ?m = 20480" "v_end ?m \<le> usize_max"
    by (simp_all add: VMA_EMPTY_def v_end_def usize_max_def)
  obtain s where s: "v_inv (\<lambda>_. 0) s" "0 < length (records s)" "records s ! 0 = ?m" using one_mapping m(1,5) by blast
  have "addref_opt None (vfiles s) = vfiles s" by (simp add: addref_opt_def)
  then obtain s' ok where "insert_backed 8192 4096 1 (v_flags ?m) None s = Some (s', ok)" "set_prot 8192 4096 1 s = Some s'"
    using set_prot_in_record [OF s(1), of 4096 0 ?m 8192 1] s(2,3) m by (auto simp: FRAME_SIZE_def)
  with s(3) m(4) show ?thesis by blast
qed

text \<open>
  Fork shares and exit gives back. A child's list copied from its parent's maps
  every address to what the parent's maps it to; after \<^verbatim>\<open>inherit_files\<close> the registry counts the records of
  both; and when the child tears its list down the registry held_by the parent's references again, no more
  and no fewer. The copy is refused rather than half done.
\<close>

theorem fork_then_exit:
  assumes "v_inv ext p" and "tab_ok c" and "records c = []" and "vfiles c = vfiles p"
    and "\<And>h. held_by h (records p) + ext h \<le> 32000"
  shows "\<exists>c' ok. vcopy_from (records p) c = Some (c', ok) \<and>
    (if ok then amap (records (inherit_files c')) = amap (records p) \<and> v_inv (\<lambda>h. held_by h (records p) + ext h) (inherit_files c') \<and>
       (\<exists>c''. vteardown (inherit_files c') = Some c'' \<and> records c'' = [] \<and> held (vtab c'') = [] \<and>
          refs_are (vfiles c'') (\<lambda>h. held_by h (records p) + ext h))
     else records c' = [])"
proof -
  from vcopy_from_spec [OF assms(2,3), of "records p"] obtain c' ok where
    c: "vcopy_from (records p) c = Some (c', ok)" "ok \<or> records c' = []" by (metis (full_types))
  show ?thesis
  proof (cases ok)
    case True
    note f = fork_spec [OF assms, of c']
    have "v_inv (\<lambda>h. held_by h (records p) + ext h) (inherit_files c')" using f(2) c(1) True by simp
    from vteardown_spec [OF this] obtain c'' where
      "vteardown (inherit_files c') = Some c''" "v_inv (\<lambda>h. held_by h (records p) + ext h) c''" "records c'' = []" "held (vtab c'') = []"
      by blast
    with f c(1) True show ?thesis by (auto simp: v_inv_def held_by_def)
  next
    case False
    with c show ?thesis by auto
  qed
qed

theorem fork_then_exit_witness:
  "\<exists>p c c' ok. v_len (records p ! 0) = 8192 \<and> vcopy_from (records p) c = Some (c', ok) \<and>
    (if ok then amap (records (inherit_files c')) = amap (records p) else records c' = [])"
proof -
  let ?m = "VMA_EMPTY\<lparr>v_base := 4096, v_len := 8192, v_prot := 3\<rparr>"
  have m: "v_file ?m = None" "v_len ?m = 8192" "v_end ?m \<le> usize_max" by (simp_all add: VMA_EMPTY_def v_end_def usize_max_def)
  obtain p where p: "v_inv (\<lambda>_. 0) p" "0 < length (records p)" "records p ! 0 = ?m" "\<And>h. held_by h (records p) = 0" using one_mapping m(1,3) by blast
  let ?c = "p\<lparr>vtab := funded_new\<rparr>"
  have c: "tab_ok ?c" "records ?c = []" "vfiles ?c = vfiles p"
    using p(1) by (simp_all add: v_inv_def tab_ok_def funded_inv_new contents_new)
  from fork_then_exit [OF p(1) c] p(4) obtain c' ok where
    "vcopy_from (records p) ?c = Some (c', ok)" "if ok then amap (records (inherit_files c')) = amap (records p) else records c' = []"
    by (auto split: if_splits)
  moreover have "v_len (records p ! 0) = 8192" using p(3) m(2) by simp
  ultimately show ?thesis by blast
qed

definition unhex :: "string \<Rightarrow> nat" where
  "unhex = foldl (\<lambda>n c. 16 * n + the (find_idx (\<lambda>d. d = c) ''0123456789abcdef'')) 0"

lemma hex_digit: "d < 16 \<Longrightarrow> find_idx (\<lambda>x. x = ''0123456789abcdef'' ! d) ''0123456789abcdef'' = Some d"
proof -
  assume "d < 16"
  then have "d \<in> set [0..<16]" by simp
  moreover have "\<forall>d \<in> set [0..<16]. find_idx (\<lambda>x. x = ''0123456789abcdef'' ! d) ''0123456789abcdef'' = Some d"
    by (simp add: upt_rec)
  ultimately show ?thesis by blast
qed

lemma unhex_hex: "unhex (hex v) = v"
proof (induction v rule: hex_buf.induct)
  case (1 v)
  have d: "the (find_idx (\<lambda>d. d = ''0123456789abcdef'' ! (v mod 16)) ''0123456789abcdef'') = v mod 16" by (simp only: hex_digit) (simp add: hex_digit del: find_idx.simps)
  show ?case
  proof (cases "v div 16 = 0")
    case True
    then show ?thesis using d by (simp add: hex_def hex_buf.simps [of v] unhex_def del: find_idx.simps)
  next
    case False
    then have "unhex (hex v) = 16 * unhex (hex (v div 16)) + v mod 16"
      using d by (simp add: hex_def hex_buf.simps [of v] unhex_def del: find_idx.simps)
    with 1 [OF False] show ?thesis by simp
  qed
qed

lemma hex_no_zero: "0 < v \<Longrightarrow> hd (hex v) \<noteq> CHR ''0''"
  unfolding hex_def hd_rev
proof (induction v rule: hex_buf.induct)
  case (1 v)
  show ?case
  proof (cases "v div 16 = 0")
    case True
    then have v: "v < 16" "v mod 16 = v" by simp_all
    have "''0123456789abcdef'' ! v \<noteq> CHR ''0''"
    proof
      assume "''0123456789abcdef'' ! v = CHR ''0''"
      with hex_digit [OF v(1)] 1(2) show False by simp
    qed
    then show ?thesis using True v(2) by (simp add: hex_buf.simps [of v])
  next
    case False
    then have "0 < v div 16" by simp
    moreover have "hex_buf (v div 16) \<noteq> []" by (simp add: hex_buf.simps [of "v div 16"])
    ultimately show ?thesis using False 1(1) [OF False] by (simp add: hex_buf.simps [of v])
  qed
qed

lemma render_from_lines:
  "\<exists>k \<le> length ms. render_from room out ms = out @ concat (map maps_line (take k ms)) \<and>
     (length out < room \<longrightarrow> length (render_from room out ms) < room) \<and>
     (k < length ms \<longrightarrow> room \<le> length out + length (concat (map maps_line (take (Suc k) ms))))"
proof (induction ms arbitrary: out)
  case Nil
  then show ?case by simp
next
  case (Cons m ms)
  show ?case
  proof (cases "room \<le> length out + length (maps_line m)")
    case True
    then show ?thesis by (intro exI [of _ 0]) (auto simp: Let_def)
  next
    case False
    then have eq: "render_from room out (m # ms) = render_from room (out @ maps_line m) ms" by (simp add: Let_def)
    from Cons.IH [of "out @ maps_line m"] obtain k where k: "k \<le> length ms"
      "render_from room (out @ maps_line m) ms = (out @ maps_line m) @ concat (map maps_line (take k ms))"
      "length (out @ maps_line m) < room \<longrightarrow> length (render_from room (out @ maps_line m) ms) < room"
      "k < length ms \<longrightarrow> room \<le> length (out @ maps_line m) + length (concat (map maps_line (take (Suc k) ms)))" by blast
    then show ?thesis unfolding eq using False by (intro exI [of _ "Suc k"]) (simp add: add.assoc)
  qed
qed

text \<open>
  What \<^verbatim>\<open>render_maps\<close> returns is the lines of the first live records, whole
  lines only and shorter than the buffer, and it stops early only when the next line would reach the
  buffer's end; and the numbers in a line are hexadecimal without leading zeros that read back as the
  addresses.
\<close>

theorem render_maps_whole_lines:
  assumes "0 < room"
  shows "\<exists>k \<le> length (live_recs ms). render_maps room ms = concat (map maps_line (take k (live_recs ms))) \<and>
    length (render_maps room ms) < room \<and>
    (k = length (live_recs ms) \<or> room \<le> length (concat (map maps_line (take (Suc k) (live_recs ms))))) \<and>
    (\<forall>m \<in> set (live_recs ms). unhex (hex (v_base m)) = v_base m \<and> unhex (hex (v_end m)) = v_end m \<and> hd (hex (v_end m)) \<noteq> CHR ''0'')"
proof -
  have pos: "0 < v_end m" if "m \<in> set (live_recs ms)" for m using that by (auto simp: live_recs_def v_end_def)
  from render_from_lines [of "live_recs ms" room "[]"] assms obtain k where
    "k \<le> length (live_recs ms)" "render_maps room ms = concat (map maps_line (take k (live_recs ms)))"
    "length (render_maps room ms) < room"
    "k = length (live_recs ms) \<or> room \<le> length (concat (map maps_line (take (Suc k) (live_recs ms))))"
    by (fastforce simp: render_maps_def)
  then show ?thesis using unhex_hex hex_no_zero pos by blast
qed

theorem render_maps_whole_lines_witness:
  "length (render_maps 64 [VMA_EMPTY\<lparr>v_base := 4096, v_len := 8192, v_prot := 3\<rparr>]) < 64 \<and> unhex (hex 12288) = 12288"
  using render_maps_whole_lines [of 64 "[VMA_EMPTY\<lparr>v_base := 4096, v_len := 8192, v_prot := 3\<rparr>]"] 
  by (auto simp: live_recs_def v_end_def)

text \<open>
  Across records the run of \<^verbatim>\<open>set_prot\<close> compares flags and file but not offsets: over two neighbouring
  records of one file, here an executable's text at offset 0 and its data at offset \<open>20480\<close>, it is the
  whole range, which is then inserted with the offset of the first and at most its file bytes.
\<close>

lemma prot_run_crosses:
  "let text_seg = VMA_EMPTY\<lparr>v_base := 4194304, v_len := 4096, v_file := Some 0, v_file_len := 4000\<rparr>;
       data_seg = VMA_EMPTY\<lparr>v_base := 4198400, v_len := 4096, v_file := Some 0, v_file_off := 20480, v_file_len := 4096\<rparr>
   in prot_run [text_seg, data_seg] 4194304 4202496 0 (Some 0) FRAME_SIZE = 8192 \<and> avail_at text_seg 4194304 = 4000"
  by (simp add: Let_def prot_run.simps vfind_def live_recs_def VMA_EMPTY_def v_end_def FRAME_SIZE_def avail_at_def)

end
