(* ===== verification/Vaspace.thy ===== *)
theory Vaspace
  imports Kmeta Spans
begin

text \<open>
  The address-space allocator of a cell, \<^verbatim>\<open>kernel/src/mm/vaspace.rs\<close>: a funded table of regions, first-fit
  placement with guard gaps, fixed placement, release and split.

  Addresses are naturals; \<^verbatim>\<open>checked_add\<close>, \<^verbatim>\<open>saturating_add\<close> and the wrapping of \<^verbatim>\<open>align_up\<close> are written out, and
  masking with the complement of a power of two minus one is rounding down. The outer option is a panic
  of the table's memory; for the two placement loops it is also not returning, and the theorems show that
  they return.
\<close>

section \<open>Regions\<close>

definition PAGE :: nat where "PAGE = FRAME_SIZE"
definition GUARD_PAGES :: nat where "GUARD_PAGES = 4"
definition VA_FLOOR :: nat where "VA_FLOOR = 1048576"

text \<open>The three values of \<^verbatim>\<open>arch::USER_VA_TOP\<close>.\<close>

datatype isa = X86_64 | Aarch64 | Riscv64

fun USER_VA_TOP :: "isa \<Rightarrow> nat" where
  "USER_VA_TOP X86_64 = 2 ^ 47"
| "USER_VA_TOP Aarch64 = 2 ^ 48"
| "USER_VA_TOP Riscv64 = 2 ^ 38"

datatype region_kind = Image | Interp | Stack | Anon | File | Queue_ring | Channel | Grant | Fixed | DeviceBar

record region =
  r_base :: nat
  r_len :: nat
  r_kind :: region_kind
  r_tag :: u32

definition REGION_FREE :: region where
  "REGION_FREE = \<lparr> r_base = 0, r_len = 0, r_kind = Fixed, r_tag = 0 \<rparr>"

definition rlive :: "region \<Rightarrow> bool" where
  "rlive r \<longleftrightarrow> r_len r \<noteq> 0"

definition rend :: "region \<Rightarrow> nat" where
  "rend r = sat_add (r_base r) (r_len r)"

definition rcontains :: "region \<Rightarrow> nat \<Rightarrow> bool" where
  "rcontains r va \<longleftrightarrow> rlive r \<and> r_base r \<le> va \<and> va < rend r"

datatype va_error = BadLength | OutOfRange | Overlap | Exhausted | NoMetadata

text \<open>A slot of a new frame is all zero: the first kind, and free.\<close>

definition region_ty :: "region elem_ty" where
  "region_ty = \<lparr> ty_size = 24, ty_align = 8, ty_zero = \<lparr> r_base = 0, r_len = 0, r_kind = Image, r_tag = 0 \<rparr> \<rparr>"

record vaspace =
  va_mem :: kmem
  regions :: "region funded"
  high_water :: nat
  va_top :: nat
  va_hint :: nat

definition vaspace_new :: "isa \<Rightarrow> kmem \<Rightarrow> vaspace" where
  "vaspace_new A k = \<lparr> va_mem = k, regions = funded_new, high_water = 0, va_top = USER_VA_TOP A, va_hint = VA_FLOOR \<rparr>"

definition round_up :: "nat \<Rightarrow> nat option" where
  "round_up n = map_option (\<lambda>v. v - v mod PAGE) (checked_add n (PAGE - 1))"

definition align_up :: "nat \<Rightarrow> nat \<Rightarrow> nat" where
  "align_up va al = (let x = wrap_add va (al - 1) in x - x mod al)"

definition is_power_of_two :: "nat \<Rightarrow> bool" where
  "is_power_of_two n \<longleftrightarrow> list_ex (\<lambda>k. n = 2 ^ k) [0..<64]"

section \<open>Queries\<close>

definition rslots :: "vaspace \<Rightarrow> region list" where
  "rslots s = take (high_water s) (contents (regions s))"

definition riter :: "vaspace \<Rightarrow> region list" where
  "riter s = filter rlive (rslots s)"

definition va_len :: "vaspace \<Rightarrow> nat" where
  "va_len s = length (riter s)"

definition va_is_empty :: "vaspace \<Rightarrow> bool" where
  "va_is_empty s \<longleftrightarrow> va_len s = 0"

definition va_find :: "nat \<Rightarrow> vaspace \<Rightarrow> region option" where
  "va_find va s = find (\<lambda>r. rcontains r va) (riter s)"

definition span_free :: "vaspace \<Rightarrow> nat \<Rightarrow> nat \<Rightarrow> bool" where
  "span_free s base n \<longleftrightarrow> \<not> list_ex (\<lambda>r. base < rend r \<and> r_base r < sat_add base n) (riter s)"

definition blocking_end :: "vaspace \<Rightarrow> nat \<Rightarrow> nat \<Rightarrow> nat option" where
  "blocking_end s base n =
     (case filter (\<lambda>r. base < rend r \<and> r_base r < sat_add base n) (riter s) of
        [] \<Rightarrow> None | rs \<Rightarrow> Some (Max (set (map rend rs))))"

section \<open>Placement\<close>

definition put_region :: "nat \<Rightarrow> region \<Rightarrow> vaspace \<Rightarrow> vaspace" where
  "put_region i r s = (case funded_set region_ty i r (regions s) of Some (t, _) \<Rightarrow> s\<lparr>regions := t\<rparr> | None \<Rightarrow> s)"

definition rinsert :: "region \<Rightarrow> vaspace \<Rightarrow> (vaspace \<times> (va_error + unit)) option" where
  "rinsert r s =
     (case find (\<lambda>i. case nth_opt (contents (regions s)) i of Some x \<Rightarrow> \<not> rlive x | None \<Rightarrow> True) [0..<high_water s] of
        Some i \<Rightarrow> Some (put_region i r s, Inr ())
      | None \<Rightarrow>
          do { ((k, t), ok) \<leftarrow> set_growing region_ty (high_water s) r (va_mem s, regions s);
               let s1 = s\<lparr>va_mem := k, regions := t\<rparr>
               in if ok then Some (s1\<lparr>high_water := high_water s + 1\<rparr>, Inr ()) else Some (s1, Inl NoMetadata) })"

definition GUARD :: nat where "GUARD = GUARD_PAGES * PAGE"

definition probe_base :: "nat \<Rightarrow> nat" where
  "probe_base c = max (c - GUARD) VA_FLOOR"

text \<open>One pass of \<^verbatim>\<open>reserve\<close>: the first candidate whose span and guards are free, or none below \<open>hi\<close>.\<close>

partial_function (option) reserve_pass :: "nat \<Rightarrow> nat \<Rightarrow> nat \<Rightarrow> vaspace \<Rightarrow> nat \<Rightarrow> nat option option" where
  "reserve_pass n al hi s c =
     (if c < hi
      then case checked_add c n of
             None \<Rightarrow> Some None
           | Some e \<Rightarrow>
               if hi < sat_add e GUARD then Some None
               else if span_free s (probe_base c) (sat_add e GUARD - probe_base c) then Some (Some c)
               else case blocking_end s (probe_base c) (sat_add e GUARD - probe_base c) of
                      Some b \<Rightarrow> reserve_pass n al hi s (align_up (b + GUARD) al)
                    | None \<Rightarrow> reserve_pass n al hi s (align_up (c + al) al)
      else Some None)"

definition take_span :: "nat \<Rightarrow> nat \<Rightarrow> region_kind \<Rightarrow> u32 \<Rightarrow> vaspace \<Rightarrow> (vaspace \<times> (va_error + nat)) option" where
  "take_span c n kind tag s =
     do { (s1, r) \<leftarrow> rinsert \<lparr> r_base = c, r_len = n, r_kind = kind, r_tag = tag \<rparr> s;
          case r of Inl er \<Rightarrow> Some (s1, Inl er)
          | Inr _ \<Rightarrow> Some (s1\<lparr>va_hint := align_up (sat_add (c + n) GUARD) PAGE\<rparr>, Inr c) }"

definition va_reserve :: "nat \<Rightarrow> nat \<Rightarrow> region_kind \<Rightarrow> u32 \<Rightarrow> vaspace \<Rightarrow> (vaspace \<times> (va_error + nat)) option" where
  "va_reserve n align kind tag s =
     (case round_up n of None \<Rightarrow> Some (s, Inl BadLength)
      | Some n \<Rightarrow>
          if n = 0 then Some (s, Inl BadLength)
          else let al = max align PAGE
               in if \<not> is_power_of_two al then Some (s, Inl BadLength)
                  else do { p1 \<leftarrow> reserve_pass n al (va_top s) s (align_up (max (va_hint s) VA_FLOOR) al);
                            case p1 of Some c \<Rightarrow> take_span c n kind tag s
                            | None \<Rightarrow>
                                do { p2 \<leftarrow> reserve_pass n al (va_hint s) s (align_up (max VA_FLOOR VA_FLOOR) al);
                                     case p2 of Some c \<Rightarrow> take_span c n kind tag s | None \<Rightarrow> Some (s, Inl Exhausted) } })"

partial_function (option) window_pass :: "nat \<Rightarrow> nat \<Rightarrow> nat \<Rightarrow> vaspace \<Rightarrow> nat \<Rightarrow> nat option option" where
  "window_pass n al hi s c =
     (if c < hi
      then case checked_add c n of
             None \<Rightarrow> Some None
           | Some e \<Rightarrow>
               if hi < e then Some None
               else if span_free s (probe_base c) (sat_add e GUARD - probe_base c) then Some (Some c)
               else let b = (case filter (\<lambda>r. c < rend r \<and> r_base r < e) (riter s) of
                               [] \<Rightarrow> e | rs \<Rightarrow> Max (set (map rend rs)))
                    in window_pass n al hi s (align_up (sat_add b GUARD) al)
      else Some None)"

definition reserve_in ::
  "nat \<Rightarrow> nat \<Rightarrow> nat \<Rightarrow> nat \<Rightarrow> region_kind \<Rightarrow> u32 \<Rightarrow> vaspace \<Rightarrow> (vaspace \<times> (va_error + nat)) option" where
  "reserve_in lo hi n align kind tag s =
     (case round_up n of None \<Rightarrow> Some (s, Inl BadLength)
      | Some n \<Rightarrow>
          if n = 0 then Some (s, Inl BadLength)
          else let al = max align PAGE
               in if \<not> is_power_of_two al then Some (s, Inl BadLength)
                  else let hi = min hi (va_top s); lo = max lo VA_FLOOR
                       in if hi \<le> lo then Some (s, Inl OutOfRange)
                          else do { p \<leftarrow> window_pass n al hi s (align_up lo al);
                                    case p of None \<Rightarrow> Some (s, Inl Overlap)
                                    | Some c \<Rightarrow>
                                        do { (s1, r) \<leftarrow> rinsert \<lparr> r_base = c, r_len = n, r_kind = kind, r_tag = tag \<rparr> s;
                                             case r of Inl er \<Rightarrow> Some (s1, Inl er) | Inr _ \<Rightarrow> Some (s1, Inr c) } })"

definition reserve_fixed :: "nat \<Rightarrow> nat \<Rightarrow> region_kind \<Rightarrow> u32 \<Rightarrow> vaspace \<Rightarrow> (vaspace \<times> (va_error + nat)) option" where
  "reserve_fixed base n kind tag s =
     (case round_up n of None \<Rightarrow> Some (s, Inl BadLength)
      | Some n \<Rightarrow>
          if n = 0 then Some (s, Inl BadLength)
          else if base mod PAGE \<noteq> 0 then Some (s, Inl OutOfRange)
          else case checked_add base n of None \<Rightarrow> Some (s, Inl BadLength)
               | Some e \<Rightarrow>
                   if base < VA_FLOOR \<or> va_top s < e then Some (s, Inl OutOfRange)
                   else if \<not> span_free s base n then Some (s, Inl Overlap)
                   else do { (s1, r) \<leftarrow> rinsert \<lparr> r_base = base, r_len = n, r_kind = kind, r_tag = tag \<rparr> s;
                             case r of Inl er \<Rightarrow> Some (s1, Inl er) | Inr _ \<Rightarrow> Some (s1, Inr base) })"

section \<open>Release\<close>

definition release_at :: "nat \<Rightarrow> vaspace \<Rightarrow> vaspace \<times> region option" where
  "release_at base s =
     (case find_idx (\<lambda>r. rlive r \<and> r_base r = base) (rslots s) of
        None \<Rightarrow> (s, None)
      | Some i \<Rightarrow>
          let s1 = put_region i REGION_FREE s
          in (if base < va_hint s1 then s1\<lparr>va_hint := base\<rparr> else s1, Some (rslots s ! i)))"

text \<open>One iteration of the loop of \<^verbatim>\<open>release_range\<close>, with its count.\<close>

definition release_slot_range :: "nat \<Rightarrow> nat \<Rightarrow> nat \<Rightarrow> vaspace \<times> nat \<Rightarrow> (vaspace \<times> nat) option" where
  "release_slot_range base e i = (\<lambda>(s, n).
     case nth_opt (contents (regions s)) i of None \<Rightarrow> Some (s, n)
     | Some r \<Rightarrow>
         if \<not> rlive r \<or> rend r \<le> base \<or> e \<le> r_base r then Some (s, n)
         else if \<not> r_base r < base \<and> \<not> e < rend r then Some (put_region i REGION_FREE s, n + 1)
         else if \<not> e < rend r then Some (put_region i (r\<lparr>r_len := base - r_base r\<rparr>) s, n + 1)
         else if \<not> r_base r < base then Some (put_region i (r\<lparr>r_base := e, r_len := rend r - e\<rparr>) s, n + 1)
         else do { (s1, x) \<leftarrow> rinsert (r\<lparr>r_base := e, r_len := rend r - e\<rparr>) (put_region i (r\<lparr>r_len := base - r_base r\<rparr>) s);
                   case x of Inr _ \<Rightarrow> Some (s1, n + 1)
                   | Inl _ \<Rightarrow> Some (put_region i r s1, n) })"

definition release_range :: "nat \<Rightarrow> nat \<Rightarrow> vaspace \<Rightarrow> (vaspace \<times> nat) option" where
  "release_range base n s =
     (case round_up n of None \<Rightarrow> Some (s, 0)
      | Some n \<Rightarrow>
          do { (s1, affected) \<leftarrow> for_each (release_slot_range base (sat_add base n)) [0..<high_water s] (s, 0);
               Some (if base < va_hint s1 then s1\<lparr>va_hint := max base VA_FLOOR\<rparr> else s1, affected) })"

definition va_release :: "vaspace \<Rightarrow> vaspace option" where
  "va_release s = do { (k, t) \<leftarrow> funded_release (va_mem s, regions s);
     Some (s\<lparr>va_mem := k, regions := t, high_water := 0, va_hint := VA_FLOOR\<rparr>) }"

definition va_init :: "isa \<Rightarrow> owner \<Rightarrow> vaspace \<Rightarrow> vaspace option" where
  "va_init A ow s = do { (k, t) \<leftarrow> funded_release (va_mem s, regions s);
     let (k, t) = funded_set_owner ow (k, t)
     in Some (s\<lparr>va_mem := k, regions := t, high_water := 0, va_hint := VA_FLOOR, va_top := USER_VA_TOP A\<rparr>) }"

definition va_fund :: "nat \<Rightarrow> vaspace \<Rightarrow> (vaspace \<times> bool) option" where
  "va_fund want s = do { ((k, t), ok) \<leftarrow> reserve region_ty want (va_mem s, regions s); Some (s\<lparr>va_mem := k, regions := t\<rparr>, ok) }"

definition va_clear :: "isa \<Rightarrow> vaspace \<Rightarrow> vaspace" where
  "va_clear A s = (foldl (\<lambda>s i. put_region i REGION_FREE s) s [0..<high_water s])
     \<lparr>high_water := 0, va_hint := VA_FLOOR, va_top := USER_VA_TOP A\<rparr>"

definition set_ceiling :: "isa \<Rightarrow> nat \<Rightarrow> vaspace \<Rightarrow> vaspace" where
  "set_ceiling A t s = s\<lparr>va_top := min t (USER_VA_TOP A)\<rparr>"

definition va_invariant_holds :: "vaspace \<Rightarrow> bool" where
  "va_invariant_holds s \<longleftrightarrow> list_all (\<lambda>a.
     \<not> (r_base a < VA_FLOOR \<or> va_top s < rend a \<or> r_base a mod PAGE \<noteq> 0) \<and>
     list_all (\<lambda>b. r_base a = r_base b \<or> \<not> (r_base a < rend b \<and> r_base b < rend a)) (riter s)) (riter s)"

section \<open>The invariant\<close>

definition va_tab :: "vaspace \<Rightarrow> bool" where
  "va_tab s \<longleftrightarrow> km_inv (va_mem s) \<and> funded_inv region_ty (va_mem s) (regions s) \<and> high_water s \<le> cap (regions s)"

definition region_ok :: "nat \<Rightarrow> region \<Rightarrow> bool" where
  "region_ok t r \<longleftrightarrow> VA_FLOOR \<le> r_base r \<and> r_base r + r_len r \<le> t \<and> PAGE dvd r_base r \<and> PAGE dvd r_len r"

definition regs_ok :: "nat \<Rightarrow> region list \<Rightarrow> bool" where
  "regs_ok t rs \<longleftrightarrow> (\<forall>r \<in> set rs. rlive r \<longrightarrow> region_ok t r) \<and> apart_spans rcontains rs"

definition va_inv :: "isa \<Rightarrow> vaspace \<Rightarrow> bool" where
  "va_inv A s \<longleftrightarrow> va_tab s \<and> va_top s \<le> USER_VA_TOP A \<and> VA_FLOOR \<le> va_top s \<and> va_hint s \<le> va_top s \<and>
     regs_ok (va_top s) (rslots s)"

lemma va_consts: "PAGE = 4096" "GUARD = 16384"
  by (simp_all add: PAGE_def GUARD_def GUARD_PAGES_def FRAME_SIZE_def)

lemma USER_VA_TOP_le: "USER_VA_TOP A \<le> 2 ^ 48"
  by (cases A) simp_all

lemma USER_VA_TOP_page: "PAGE dvd USER_VA_TOP A"
  by (cases A) (simp_all add: va_consts)

lemma region_ty_page [simp]: "elems_per_page region_ty = 170" "\<not> rlive (ty_zero region_ty)"
  by (simp_all add: elems_per_page_def region_ty_def FRAME_SIZE_def rlive_def)

lemma REGION_FREE_dead [simp]: "\<not> rlive REGION_FREE" "\<not> rcontains REGION_FREE a"
  by (simp_all add: rlive_def rcontains_def REGION_FREE_def)

lemma va_invD:
  assumes "va_inv A s"
  shows "va_tab s" "va_top s \<le> 2 ^ 48" "va_hint s \<le> 2 ^ 48" "regs_ok (va_top s) (rslots s)" "va_hint s \<le> va_top s"
    "VA_FLOOR \<le> va_top s"
  using assms USER_VA_TOP_le [of A] by (auto simp: va_inv_def)

lemma region_end:
  assumes "regs_ok t rs" and "t \<le> 2 ^ 48" and "r \<in> set rs" and "rlive r"
  shows "rend r = r_base r + r_len r" "region_ok t r" "rend r \<le> t" "r_base r < rend r"
proof -
  show ok: "region_ok t r" using assms by (simp add: regs_ok_def)
  then show e: "rend r = r_base r + r_len r" using assms(2) by (simp add: rend_def sat_add_def region_ok_def usize_max_def)
  show "rend r \<le> t" using ok e by (simp add: region_ok_def)
  show "r_base r < rend r" using e assms(4) by (simp add: rlive_def)
qed

lemma rslots_fields [simp]: "rslots (s\<lparr>va_hint := h\<rparr>) = rslots s" "rslots (s\<lparr>va_top := t\<rparr>) = rslots s"
  by (simp_all add: rslots_def)

lemma slots_length: "va_tab s \<Longrightarrow> length (rslots s) = high_water s"
  using length_contents [of region_ty "va_mem s" "regions s"] by (auto simp: va_tab_def rslots_def)

lemma put_region_view:
  assumes "va_tab s"
  shows "contents (regions (put_region i r s)) = (contents (regions s))[i := r]" "rslots (put_region i r s) = (rslots s)[i := r]"
    "va_tab (put_region i r s)" "high_water (put_region i r s) = high_water s"
    "va_top (put_region i r s) = va_top s" "va_hint (put_region i r s) = va_hint s"
proof -
  from assms funded_set_inv [of region_ty "va_mem s" "regions s" i r] obtain t where
    t: "funded_set region_ty i r (regions s) = Some (t, i < cap (regions s))" "funded_inv region_ty (va_mem s) t"
    "contents t = (contents (regions s))[i := r]" "cap t = cap (regions s)" by (auto simp: va_tab_def)
  then show "contents (regions (put_region i r s)) = (contents (regions s))[i := r]" "rslots (put_region i r s) = (rslots s)[i := r]"
    "va_tab (put_region i r s)" "high_water (put_region i r s) = high_water s"
    "va_top (put_region i r s) = va_top s" "va_hint (put_region i r s) = va_hint s"
    using assms by (simp_all add: put_region_def va_tab_def rslots_def take_update_swap)
qed

text \<open>Where a record goes: over a free slot, or after the last one.\<close>

lemma rinsert_cases:
  assumes tab: "va_tab s"
  obtains (reuse) i where "i < high_water s" and "\<not> rlive (rslots s ! i)" and "rinsert r s = Some (put_region i r s, Inr ())"
  | (grow) s' where "rinsert r s = Some (s', Inr ())" and "va_tab s'" and "rslots s' = rslots s @ [r]"
      and "high_water s' = high_water s + 1" and "va_top s' = va_top s" and "va_hint s' = va_hint s"
  | (full) s' where "rinsert r s = Some (s', Inl NoMetadata)" and "va_tab s'" and "contents (regions s') = contents (regions s)"
      and "high_water s' = high_water s" and "va_top s' = va_top s" and "va_hint s' = va_hint s"
proof -
  let ?c = "contents (regions s)"
  have hw: "high_water s \<le> length ?c" using tab length_contents [of region_ty "va_mem s" "regions s"] by (simp add: va_tab_def)
  show thesis
  proof (cases "find (\<lambda>i. case nth_opt ?c i of Some x \<Rightarrow> \<not> rlive x | None \<Rightarrow> True) [0..<high_water s]")
    case (Some i)
    then have i: "i < high_water s" "case nth_opt ?c i of Some x \<Rightarrow> \<not> rlive x | None \<Rightarrow> True"
      by (auto simp: find_Some_iff)
    then have "\<not> rlive (rslots s ! i)" using hw by (simp add: nth_opt_def rslots_def)
    with i(1) Some reuse show thesis by (simp add: rinsert_def)
  next
    case None
    from tab set_growing_spec [of "va_mem s" region_ty "regions s" "high_water s" r] obtain k t ok where
      g: "set_growing region_ty (high_water s) r (va_mem s, regions s) = Some ((k, t), ok)"
        "table_acct region_ty (va_mem s, regions s) (k, t)" "cap (regions s) \<le> cap t" "ok \<longrightarrow> high_water s < cap t"
        "contents t = (if ok then (?c @ replicate (cap t - cap (regions s)) (ty_zero region_ty))[high_water s := r] else ?c)"
      by (auto simp: va_tab_def)
    have inv: "km_inv k" "funded_inv region_ty k t" using g(2) by (auto simp: table_acct_def)
    show thesis
    proof (cases ok)
      case True
      have len: "length (contents t) = cap t" using length_contents [OF inv(2)] .
      have "take (high_water s + 1) (contents t) = take (high_water s) (contents t) @ [contents t ! high_water s]"
        using g(4) True len by (simp add: take_Suc_conv_app_nth)
      moreover have "take (high_water s) (contents t) = rslots s" using g(5) True hw by (simp add: rslots_def take_update_swap list_update_beyond)
      moreover have "contents t ! high_water s = r" using g(4,5) True len by simp
      ultimately show thesis using None g(1,4) True inv
        by (intro grow [of "s\<lparr>va_mem := k, regions := t, high_water := high_water s + 1\<rparr>"]) (simp_all add: rinsert_def va_tab_def rslots_def Let_def)
    next
      case False
      then show thesis using None g inv tab
        by (intro full [of "s\<lparr>va_mem := k, regions := t\<rparr>"]) (simp_all add: rinsert_def va_tab_def rslots_def Let_def)
    qed
  qed
qed

lemma va_find_span: "va_find a s = span_at rcontains (rslots s) a"
proof -
  have "find (\<lambda>r. rcontains r a) (filter rlive xs) = find (\<lambda>r. rcontains r a) xs" for xs
    by (induction xs) (auto simp: rcontains_def)
  then show ?thesis by (simp add: va_find_def riter_def span_at_def)
qed

lemma va_inv_slots:
  assumes "va_inv A s" and "va_tab s'" and "va_top s' = va_top s" and "va_hint s' \<le> va_top s"
    and "regs_ok (va_top s) (rslots s')"
  shows "va_inv A s'"
  using assms by (simp add: va_inv_def)

lemma regs_ok_write:
  assumes "regs_ok t rs" and "rlive r \<Longrightarrow> region_ok t r"
    and "\<And>j a. j < length rs \<Longrightarrow> j \<noteq> i \<Longrightarrow> rcontains r a \<Longrightarrow> \<not> rcontains (rs ! j) a"
  shows "regs_ok t (rs[i := r])"
proof -
  have "rlive x \<longrightarrow> region_ok t x" if "x \<in> set (rs[i := r])" for x
    using that set_update_subset_insert [of rs i r] assms(1,2) by (auto simp: regs_ok_def)
  moreover have "apart_spans rcontains (rs[i := r])" using assms(1,3) by (intro apart_write) (auto simp: regs_ok_def)
  ultimately show ?thesis by (simp add: regs_ok_def)
qed

text \<open>A region that fits and meets no other can be recorded, or the table cannot grow.\<close>

lemma record_region:
  assumes inv: "va_inv A s" and r: "rlive r" "region_ok (va_top s) r"
    and free: "\<And>j a. j < high_water s \<Longrightarrow> rcontains r a \<Longrightarrow> \<not> rcontains (rslots s ! j) a"
  shows "\<exists>s' x. rinsert r s = Some (s', x) \<and> va_inv A s' \<and> va_top s' = va_top s \<and> va_hint s' = va_hint s \<and>
    (case x of Inl er \<Rightarrow> er = NoMetadata \<and> contents (regions s') = contents (regions s) \<and> high_water s' = high_water s
     | Inr _ \<Rightarrow> (\<forall>a. va_find a s' = (if rcontains r a then Some r else va_find a s)) \<and>
         ((\<exists>i < high_water s. \<not> rlive (rslots s ! i) \<and> rslots s' = (rslots s)[i := r]) \<or> rslots s' = rslots s @ [r]))"
proof -
  note d = va_invD [OF inv]
  have len: "length (rslots s) = high_water s" by (rule slots_length [OF d(1)])
  have ap: "apart_spans rcontains (rslots s)" using d(4) by (simp add: regs_ok_def)
  have nofind: "span_at rcontains (rslots s) a = None" if "rcontains r a" for a
    using free [OF _ that] len by (simp add: span_at_None)
  from d(1) show ?thesis
  proof (cases rule: rinsert_cases [of s r])
    case (reuse i)
    note pv = put_region_view [OF d(1), of i r]
    have ok: "regs_ok (va_top s) ((rslots s)[i := r])" using r free len by (intro regs_ok_write [OF d(4)]) auto
    have "va_inv A (put_region i r s)" using inv pv ok by (simp add: va_inv_def)
    moreover have "va_find a (put_region i r s) = (if rcontains r a then Some r else va_find a s)" for a
      using span_at_write [of rcontains "rslots s" i r a] ap ok reuse(1,2) len unfolding va_find_span pv(2)
      by (simp add: regs_ok_def rcontains_def)
    ultimately show ?thesis using reuse pv by auto
  next
    case (grow s')
    have "apart_spans rcontains (rslots s')" unfolding grow(3) using ap free len by (intro apart_append) auto
    moreover have "\<forall>x \<in> set (rslots s'). rlive x \<longrightarrow> region_ok (va_top s) x" unfolding grow(3) using d(4) r by (auto simp: regs_ok_def)
    ultimately have "va_inv A s'" using inv grow(2,5,6) by (simp add: va_inv_def regs_ok_def)
    moreover have "va_find a s' = (if rcontains r a then Some r else va_find a s)" for a
      unfolding va_find_span grow(3) span_at_append using nofind [of a] by (auto split: option.splits)
    ultimately show ?thesis using grow by auto
  next
    case (full s')
    then have "va_inv A s'" using inv by (simp add: va_inv_def rslots_def)
    with full show ?thesis by auto
  qed
qed

section \<open>Rounding\<close>

lemma round_down_mult: "(a :: nat) dvd x - x mod a"
  by (simp add: minus_mod_eq_mult_div)

lemma round_up_spec: "round_up n = Some m \<Longrightarrow> PAGE dvd m \<and> n \<le> m \<and> m < n + PAGE"
  using mod_less_divisor [of PAGE "n + (PAGE - 1)"] mod_less_eq_dividend [of "n + (PAGE - 1)" PAGE]
  by (auto simp: round_up_def checked_add_def round_down_mult va_consts split: if_splits)

lemma is_power_of_two_iff: "is_power_of_two n \<longleftrightarrow> (\<exists>k < 64. n = 2 ^ k)"
  by (auto simp: is_power_of_two_def list_ex_iff)

lemma power_of_two_page:
  assumes "is_power_of_two al" and "PAGE \<le> al"
  shows "PAGE dvd al" "al \<le> 2 ^ 63"
proof -
  from assms(1) obtain k where k: "k < 64" "al = 2 ^ k" by (auto simp: is_power_of_two_iff)
  have "(2 :: nat) ^ 12 \<le> 2 ^ k" using assms(2) k(2) by (simp add: va_consts)
  then have "12 \<le> k" by (rule power_le_imp_le_exp [rotated]) simp
  then show "PAGE dvd al" using k(2) le_imp_power_dvd [of 12 k "2 :: nat"] by (simp add: va_consts)
  show "al \<le> 2 ^ 63" using k power_increasing [of k 63 "2 :: nat"] by simp
qed

text \<open>Without wrap-around \<^verbatim>\<open>align_up\<close> is the least multiple from its argument up.\<close>

lemma align_up_spec:
  assumes "0 < al" and "va + al \<le> 2 ^ 64"
  shows "va \<le> align_up va al" "al dvd align_up va al" "align_up va al < va + al"
    "\<And>x. va \<le> x \<Longrightarrow> al dvd x \<Longrightarrow> align_up va al \<le> x"
proof -
  let ?x = "va + (al - 1)"
  have w: "align_up va al = ?x - ?x mod al" using assms by (simp add: align_up_def wrap_add_def)
  define m where "m = ?x mod al"
  have m: "m < al" "align_up va al = ?x - m" using assms(1) w by (simp_all add: m_def)
  show "va \<le> align_up va al" "align_up va al < va + al" using m assms(1) by auto
  show d: "al dvd align_up va al" unfolding w by (rule round_down_mult)
  fix x assume x: "va \<le> x" "al dvd x"
  show "align_up va al \<le> x"
  proof (rule ccontr)
    assume "\<not> align_up va al \<le> x"
    then have lt: "x < align_up va al" by simp
    moreover have "al dvd align_up va al - x" using d x(2) by (rule dvd_diff_nat)
    ultimately have "al \<le> align_up va al - x" by (intro dvd_imp_le) simp_all
    with x(1) lt \<open>align_up va al < va + al\<close> show False by simp
  qed
qed

lemma align_up_aligned: "al dvd va \<Longrightarrow> 0 < al \<Longrightarrow> va + al \<le> 2 ^ 64 \<Longrightarrow> align_up va al = va"
  using align_up_spec(1) [of al va] align_up_spec(4) [of al va va] by simp

section \<open>First fit\<close>

definition meets :: "nat \<Rightarrow> nat \<Rightarrow> region \<Rightarrow> bool" where
  "meets lo hi r \<longleftrightarrow> lo < rend r \<and> r_base r < hi"

lemma span_free_iff: "lo + n \<le> usize_max \<Longrightarrow> span_free s lo n \<longleftrightarrow> (\<forall>r \<in> set (riter s). \<not> meets lo (lo + n) r)"
  by (simp add: span_free_def list_ex_iff meets_def)

lemma case_list_ne: "xs \<noteq> [] \<Longrightarrow> (case xs of [] \<Rightarrow> a | y # ys \<Rightarrow> f (y # ys)) = f xs"
  by (cases xs) simp_all

lemma blocking_end_spec:
  assumes "lo + n \<le> usize_max" and "\<not> span_free s lo n"
  obtains r where "r \<in> set (riter s)" and "meets lo (lo + n) r" and "blocking_end s lo n = Some (rend r)"
proof -
  let ?f = "filter (\<lambda>r. lo < rend r \<and> r_base r < sat_add lo n) (riter s)"
  have ne: "?f \<noteq> []" using assms by (simp add: span_free_def list_ex_iff filter_empty_conv)
  have eq: "blocking_end s lo n = Some (Max (set (map rend ?f)))"
    unfolding blocking_end_def by (rule case_list_ne [OF ne])
  have "set (map rend ?f) \<noteq> {}" using ne by (simp only: set_empty map_is_Nil_conv not_False_eq_True)
  then have "Max (set (map rend ?f)) \<in> set (map rend ?f)" by (intro Max_in finite_set)
  then obtain r where "r \<in> set ?f" "Max (set (map rend ?f)) = rend r" by auto
  with that eq assms(1) show thesis by (auto simp: meets_def)
qed

text \<open>The span of \<open>n\<close> bytes at \<open>x\<close> and its guards end by \<open>hi\<close> and meet no region.\<close>

definition va_fits :: "vaspace \<Rightarrow> nat \<Rightarrow> nat \<Rightarrow> nat \<Rightarrow> bool" where
  "va_fits s hi n x \<longleftrightarrow> x + n + GUARD \<le> hi \<and> (\<forall>r \<in> set (riter s). \<not> meets (probe_base x) (x + n + GUARD) r)"

definition least_fit :: "vaspace \<Rightarrow> nat \<Rightarrow> nat \<Rightarrow> nat \<Rightarrow> nat \<Rightarrow> nat option \<Rightarrow> bool" where
  "least_fit s hi n al lo r = (case r of
      Some x \<Rightarrow> lo \<le> x \<and> al dvd x \<and> va_fits s hi n x \<and> (\<forall>y. lo \<le> y \<and> y < x \<and> al dvd y \<longrightarrow> \<not> va_fits s hi n y)
    | None \<Rightarrow> \<forall>y. lo \<le> y \<and> al dvd y \<longrightarrow> \<not> va_fits s hi n y)"

lemma least_fit_skip:
  assumes "least_fit s hi n al c' r" and "c \<le> c'" and "\<And>y. c \<le> y \<Longrightarrow> y < c' \<Longrightarrow> al dvd y \<Longrightarrow> \<not> va_fits s hi n y"
  shows "least_fit s hi n al c r"
  using assms unfolding least_fit_def by (cases r) (auto, (meson not_le order_trans)+)

lemma probe_bounds: "VA_FLOOR \<le> c \<Longrightarrow> probe_base c \<le> c" "c \<le> probe_base c + GUARD" "VA_FLOOR \<le> probe_base c"
  by (auto simp: probe_base_def)

lemma riter_end:
  assumes "va_inv A s" and "r \<in> set (riter s)"
  shows "rend r = r_base r + r_len r" "VA_FLOOR < rend r" "rend r \<le> 2 ^ 48" "rlive r" "PAGE dvd rend r"
proof -
  note d = va_invD [OF assms(1)]
  have r: "r \<in> set (rslots s)" "rlive r" using assms(2) by (auto simp: riter_def)
  note e = region_end [OF d(4,2) r]
  then show "rend r = r_base r + r_len r" "VA_FLOOR < rend r" "rend r \<le> 2 ^ 48" "rlive r" "PAGE dvd rend r"
    using d(2) r(2) by (auto simp: region_ok_def)
qed

lemma reserve_pass_spec:
  assumes inv: "va_inv A s" and hi: "hi \<le> 2 ^ 48" and n: "0 < n" and al: "is_power_of_two al" "PAGE \<le> al"
  shows "VA_FLOOR \<le> c \<Longrightarrow> \<not> al dvd c \<or> (\<exists>r. reserve_pass n al hi s c = Some r \<and> least_fit s hi n al c r)"
proof (induction "2 ^ 49 + 2 ^ 64 - c" arbitrary: c rule: less_induct)
  case less
  note pw = power_of_two_page [OF al]
  show ?case
  proof (cases "al dvd c \<and> c + n + GUARD \<le> hi")
    case False
    have "reserve_pass n al hi s c = Some None" if "al dvd c"
      using False that hi by (subst reserve_pass.simps) (auto simp: checked_add_def sat_add_def usize_max_def)
    moreover have "\<not> va_fits s hi n y" if "\<not> c + n + GUARD \<le> hi" "c \<le> y" for y using that by (simp add: va_fits_def)
    ultimately show ?thesis using False by (auto simp: least_fit_def)
  next
    case True
    let ?lo = "probe_base c" and ?h = "c + n + GUARD"
    have bd: "c < hi" "checked_add c n = Some (c + n)" "sat_add (c + n) GUARD = ?h" "?lo \<le> c"
      using True hi n probe_bounds(1) [OF less(2)] by (auto simp: usize_max_def va_consts)
    have sp: "?lo + (?h - ?lo) = ?h" "?lo + (?h - ?lo) \<le> usize_max" using bd(4) True hi by (auto simp: usize_max_def)
    have step: "reserve_pass n al hi s c = (if span_free s ?lo (?h - ?lo) then Some (Some c)
        else case blocking_end s ?lo (?h - ?lo) of Some b \<Rightarrow> reserve_pass n al hi s (align_up (b + GUARD) al)
             | None \<Rightarrow> reserve_pass n al hi s (align_up (c + al) al))"
      using bd True by (subst reserve_pass.simps) (simp add: checked_add_def)
    show ?thesis
    proof (cases "span_free s ?lo (?h - ?lo)")
      case free: True
      then have "va_fits s hi n c" using True sp span_free_iff [OF sp(2), of s] by (simp add: va_fits_def)
      then show ?thesis using step free True by (auto simp: least_fit_def)
    next
      case False
      from blocking_end_spec [OF sp(2) this] obtain r where
        r: "r \<in> set (riter s)" "meets ?lo ?h r" "blocking_end s ?lo (?h - ?lo) = Some (rend r)" unfolding sp(1) by blast
      let ?c = "align_up (rend r + GUARD) al"
      note e = riter_end [OF inv r(1)]
      have nowrap: "rend r + GUARD + al \<le> 2 ^ 64" using e(3) pw(2) by (simp add: va_consts)
      note au = align_up_spec [OF _ nowrap]
      have al0: "0 < al" using al(2) by (simp add: va_consts)
      have lt: "c < ?c" using au(1) [OF al0] r(2) probe_bounds(2) [of c] by (simp add: meets_def)
      have skip: "\<not> va_fits s hi n y" if "c \<le> y" "y < ?c" "al dvd y" for y
      proof
        assume fit: "va_fits s hi n y"
        have "y < rend r + GUARD" using au(4) [OF al0, of y] that by (meson not_le)
        then have "probe_base y < rend r" using e(2) by (auto simp: probe_base_def)
        moreover have "r_base r < y + n + GUARD" using r(2) that(1) by (simp add: meets_def)
        ultimately show False using fit r(1) by (auto simp: va_fits_def meets_def)
      qed
      have "VA_FLOOR \<le> ?c" using lt less(2) by simp
      moreover have "2 ^ 49 + 2 ^ 64 - ?c < 2 ^ 49 + 2 ^ 64 - c" using lt True hi by (intro diff_less_mono2) simp_all
      ultimately obtain x where "reserve_pass n al hi s ?c = Some x" "least_fit s hi n al ?c x"
        using less(1) au(2) [OF al0] by blast
      moreover have "reserve_pass n al hi s c = reserve_pass n al hi s ?c" using step False r(3) by simp
      ultimately show ?thesis using least_fit_skip [OF _ less_imp_le [OF lt] skip] by auto
    qed
  qed
qed

text \<open>A pass that starts at the first aligned address from \<open>lo\<close> up.\<close>

lemma reserve_pass_from:
  assumes inv: "va_inv A s" and hi: "hi \<le> 2 ^ 48" and n: "0 < n" and al: "is_power_of_two al" "PAGE \<le> al"
    and lo: "VA_FLOOR \<le> lo" "lo \<le> 2 ^ 48"
  shows "\<exists>r. reserve_pass n al hi s (align_up lo al) = Some r \<and> least_fit s hi n al lo r"
proof -
  have al0: "0 < al" "lo + al \<le> 2 ^ 64" using al(2) lo(2) power_of_two_page(2) [OF al] by (simp_all add: va_consts)
  note au = align_up_spec [OF al0]
  from reserve_pass_spec [OF inv hi n al, of "align_up lo al"] au(1,2) lo(1) obtain r where
    r: "reserve_pass n al hi s (align_up lo al) = Some r" "least_fit s hi n al (align_up lo al) r" by auto
  have "least_fit s hi n al lo r"
    by (rule least_fit_skip [OF r(2) au(1)]) (use au(4) in \<open>meson not_le\<close>)
  with r(1) show ?thesis by blast
qed

lemma contains_overlap:
  assumes "va_inv A s" and "r \<in> set (rslots s)" and "rcontains r a" and "lo \<le> a" and "a < hi"
  shows "r \<in> set (riter s)" "meets lo hi r"
  using assms riter_end [of A s r] by (auto simp: rcontains_def riter_def meets_def)

lemma record_span:
  assumes inv: "va_inv A s" and n: "0 < n" "PAGE dvd n" and c: "VA_FLOOR \<le> c" "PAGE dvd c" "c + n \<le> va_top s"
    and free: "\<And>r. r \<in> set (riter s) \<Longrightarrow> \<not> meets c (c + n) r"
    and r_def: "r = \<lparr> r_base = c, r_len = n, r_kind = kind, r_tag = tag \<rparr>"
  shows "\<exists>s' x. rinsert r s = Some (s', x) \<and> va_inv A s' \<and> va_top s' = va_top s \<and> va_hint s' = va_hint s \<and>
    (case x of Inl er \<Rightarrow> er = NoMetadata \<and> rslots s' = rslots s
     | Inr _ \<Rightarrow> \<forall>a. va_find a s' = (if c \<le> a \<and> a < c + n then Some r else va_find a s))"
proof -
  have top: "va_top s \<le> 2 ^ 48" using va_invD(2) [OF inv] .
  have e: "rend r = c + n" using c(3) top by (simp add: r_def rend_def sat_add_def usize_max_def)
  have live: "rlive r" "region_ok (va_top s) r" using n c by (simp_all add: r_def rlive_def region_ok_def)
  have cov: "rcontains r a \<longleftrightarrow> c \<le> a \<and> a < c + n" for a using live(1) e by (auto simp: rcontains_def r_def)
  have "\<not> rcontains (rslots s ! j) a" if "j < high_water s" "rcontains r a" for j a
  proof
    assume "rcontains (rslots s ! j) a"
    moreover have "rslots s ! j \<in> set (rslots s)" using that(1) slots_length [OF va_invD(1) [OF inv]] by (metis nth_mem)
    ultimately show False using contains_overlap [OF inv, of _ a c "c + n"] that(2) free unfolding cov by blast
  qed
  then obtain s' x where "rinsert r s = Some (s', x)" "va_inv A s'" "va_top s' = va_top s" "va_hint s' = va_hint s"
    "case x of Inl er \<Rightarrow> er = NoMetadata \<and> contents (regions s') = contents (regions s) \<and> high_water s' = high_water s
     | Inr _ \<Rightarrow> (\<forall>a. va_find a s' = (if rcontains r a then Some r else va_find a s)) \<and>
         ((\<exists>i < high_water s. \<not> rlive (rslots s ! i) \<and> rslots s' = (rslots s)[i := r]) \<or> rslots s' = rslots s @ [r])"
    using record_region [OF inv live] by blast
  then show ?thesis by (cases x) (auto simp: cov rslots_def)
qed

lemma take_span_spec:
  assumes inv: "va_inv A s" and n: "0 < n" "PAGE dvd n" and c: "VA_FLOOR \<le> c" "PAGE dvd c" and fit: "va_fits s hi n c" "hi \<le> va_top s"
  shows "\<exists>s' x. take_span c n kind tag s = Some (s', x) \<and> va_inv A s' \<and> va_top s' = va_top s \<and>
    (case x of Inl er \<Rightarrow> er = NoMetadata \<and> rslots s' = rslots s
     | Inr y \<Rightarrow> y = c \<and> (\<forall>a. va_find a s' = (if c \<le> a \<and> a < c + n then Some \<lparr> r_base = c, r_len = n, r_kind = kind, r_tag = tag \<rparr> else va_find a s)))"
proof -
  have "\<not> meets c (c + n) r" if "r \<in> set (riter s)" for r
    using fit(1) that probe_bounds(1) [OF c(1)] by (fastforce simp: va_fits_def meets_def)
  moreover have ct: "c + n \<le> va_top s" using fit by (simp add: va_fits_def)
  ultimately obtain s1 x where
    1: "rinsert \<lparr> r_base = c, r_len = n, r_kind = kind, r_tag = tag \<rparr> s = Some (s1, x)" "va_inv A s1" "va_top s1 = va_top s"
      "case x of Inl er \<Rightarrow> er = NoMetadata \<and> rslots s1 = rslots s | Inr _ \<Rightarrow> \<forall>a. va_find a s1 =
        (if c \<le> a \<and> a < c + n then Some \<lparr> r_base = c, r_len = n, r_kind = kind, r_tag = tag \<rparr> else va_find a s)"
    using record_span [OF inv n c ct _ refl] by blast
  have le: "c + n + GUARD \<le> va_top s" "c + n + GUARD \<le> 2 ^ 48"
    using fit(1,2) va_invD(2) [OF inv] by (auto simp: va_fits_def)
  have "PAGE dvd c + n + GUARD" using n(2) c(2) by (simp add: GUARD_def)
  then have h: "align_up (sat_add (c + n) GUARD) PAGE = c + n + GUARD"
    using le(2) by (simp add: sat_add_def usize_max_def align_up_aligned va_consts)
  have "va_inv A (s1\<lparr>va_hint := align_up (sat_add (c + n) GUARD) PAGE\<rparr>)"
    using 1(2,3) le(1) by (simp add: h va_inv_def va_tab_def)
  then show ?thesis using 1 by (cases x) (auto simp: take_span_def va_find_def riter_def)
qed

text \<open>What a placement does: it records the span it returns and nothing else, or it changes no region.\<close>

definition placed_at :: "isa \<Rightarrow> region_kind \<Rightarrow> u32 \<Rightarrow> nat \<Rightarrow> vaspace \<Rightarrow> vaspace \<Rightarrow> va_error + nat \<Rightarrow> bool" where
  "placed_at A kind tag n s s' x \<longleftrightarrow> va_inv A s' \<and> va_top s' = va_top s \<and>
     (case x of Inl _ \<Rightarrow> rslots s' = rslots s
      | Inr c \<Rightarrow> VA_FLOOR \<le> c \<and> PAGE dvd c \<and> c + n \<le> va_top s \<and>
          (\<forall>a. va_find a s' = (if c \<le> a \<and> a < c + n then Some \<lparr> r_base = c, r_len = n, r_kind = kind, r_tag = tag \<rparr> else va_find a s)))"

lemma placed_refuse: "va_inv A s \<Longrightarrow> placed_at A kind tag n s s (Inl er)"
  by (simp add: placed_at_def)

text \<open>The two passes together: the least fit from the hint up, else the least fit below the hint.\<close>

definition first_fit :: "vaspace \<Rightarrow> nat \<Rightarrow> nat \<Rightarrow> nat option \<Rightarrow> bool" where
  "first_fit s n al r \<longleftrightarrow>
     (\<exists>r1. least_fit s (va_top s) n al (max (va_hint s) VA_FLOOR) r1 \<and>
        (if r1 \<noteq> None then r = r1 else least_fit s (va_hint s) n al VA_FLOOR r))"

lemma va_reserve_spec:
  assumes inv: "va_inv A s"
  shows "\<exists>s' x. va_reserve n align kind tag s = Some (s', x) \<and>
    (case round_up n of Some m \<Rightarrow> placed_at A kind tag m s s' x | None \<Rightarrow> s' = s \<and> x = Inl BadLength) \<and>
    (x \<noteq> Inl BadLength \<longrightarrow> (\<exists>m r. round_up n = Some m \<and> 0 < m \<and> is_power_of_two (max align PAGE) \<and>
       first_fit s m (max align PAGE) r \<and> (case r of Some c \<Rightarrow> x = Inr c \<or> x = Inl NoMetadata | None \<Rightarrow> x = Inl Exhausted)))"
proof (cases "round_up n")
  case None
  then show ?thesis by (simp add: va_reserve_def)
next
  case (Some m)
  let ?al = "max align PAGE"
  show ?thesis
  proof (cases "m = 0 \<or> \<not> is_power_of_two ?al")
    case True
    then show ?thesis using Some placed_refuse [OF inv] by (auto simp: va_reserve_def Let_def)
  next
    case False
    then have m: "0 < m" "PAGE dvd m" and al: "is_power_of_two ?al" "PAGE \<le> ?al" using round_up_spec [OF Some] by auto
    have pal: "PAGE dvd ?al" using power_of_two_page(1) [OF al] .
    note d = va_invD [OF inv]
    have lo: "VA_FLOOR \<le> max (va_hint s) VA_FLOOR" "max (va_hint s) VA_FLOOR \<le> 2 ^ 48" using d(3) by (simp_all add: VA_FLOOR_def)
    from reserve_pass_from [OF inv d(2) m(1) al lo] obtain r1 where
      r1: "reserve_pass m ?al (va_top s) s (align_up (max (va_hint s) VA_FLOOR) ?al) = Some r1"
        "least_fit s (va_top s) m ?al (max (va_hint s) VA_FLOOR) r1" by blast
    from reserve_pass_from [OF inv d(3) m(1) al order_refl] obtain r2 where
      r2: "reserve_pass m ?al (va_hint s) s (align_up VA_FLOOR ?al) = Some r2" "least_fit s (va_hint s) m ?al VA_FLOOR r2"
      by (auto simp: VA_FLOOR_def)
    have go: "\<exists>s' x. take_span c m kind tag s = Some (s', x) \<and> placed_at A kind tag m s s' x \<and> (x = Inr c \<or> x = Inl NoMetadata)"
      if "VA_FLOOR \<le> c" "?al dvd c" "va_fits s hi m c" "hi \<le> va_top s" for c hi
    proof -
      have "PAGE dvd c" using pal that(2) by (rule dvd_trans)
      moreover have "c + m \<le> va_top s" using that(3,4) by (simp add: va_fits_def)
      moreover from take_span_spec [OF inv m that(1) \<open>PAGE dvd c\<close> that(3,4), of kind tag] obtain s' x where
        "take_span c m kind tag s = Some (s', x)" "va_inv A s'" "va_top s' = va_top s"
        "case x of Inl er \<Rightarrow> er = NoMetadata \<and> rslots s' = rslots s | Inr y \<Rightarrow> y = c \<and> (\<forall>a. va_find a s' =
          (if c \<le> a \<and> a < c + m then Some \<lparr> r_base = c, r_len = m, r_kind = kind, r_tag = tag \<rparr> else va_find a s))" by blast
      ultimately show ?thesis using that(1) by (cases x) (auto simp: placed_at_def)
    qed
    show ?thesis
    proof (cases r1)
      case (Some c)
      with r1(2) have c: "max (va_hint s) VA_FLOOR \<le> c" "?al dvd c" "va_fits s (va_top s) m c" by (auto simp: least_fit_def)
      with go [of c "va_top s"] obtain s' x where "take_span c m kind tag s = Some (s', x)" "placed_at A kind tag m s s' x"
        "x = Inr c \<or> x = Inl NoMetadata" by auto
      moreover have "first_fit s m ?al (Some c)" using r1(2) Some by (auto simp: first_fit_def)
      ultimately show ?thesis using r1(1) Some \<open>round_up n = Some m\<close> m(1) al(1) by (auto simp: va_reserve_def Let_def)
    next
      case None
      show ?thesis
      proof (cases r2)
        case (Some c)
        with r2(2) have c: "VA_FLOOR \<le> c" "?al dvd c" "va_fits s (va_hint s) m c" by (auto simp: least_fit_def)
        with go [of c "va_hint s"] d(5) obtain s' x where "take_span c m kind tag s = Some (s', x)" "placed_at A kind tag m s s' x"
          "x = Inr c \<or> x = Inl NoMetadata" by auto
        moreover have "first_fit s m ?al (Some c)" using r1(2) r2(2) Some None by (auto simp: first_fit_def)
        ultimately show ?thesis using r1(1) r2(1) Some None \<open>round_up n = Some m\<close> m(1) al(1) by (auto simp: va_reserve_def Let_def)
      next
        case none2: None
        have "first_fit s m ?al None" using r1(2) r2(2) None none2 by (auto simp: first_fit_def)
        then show ?thesis using r1(1) r2(1) None none2 \<open>round_up n = Some m\<close> m(1) al(1) placed_refuse [OF inv]
          by (auto simp: va_reserve_def Let_def)
      qed
    qed
  qed
qed

text \<open>The loop of \<^verbatim>\<open>reserve_in\<close> returns, and what it finds is free with its guards.\<close>

lemma window_pass_spec:
  assumes inv: "va_inv A s" and hi: "hi \<le> 2 ^ 48" and n: "0 < n" and al: "is_power_of_two al" "PAGE \<le> al"
  shows "VA_FLOOR \<le> c \<Longrightarrow> al dvd c \<Longrightarrow> \<exists>r. window_pass n al hi s c = Some r \<and> (case r of None \<Rightarrow> True
    | Some x \<Rightarrow> VA_FLOOR \<le> x \<and> al dvd x \<and> x + n \<le> hi \<and> (\<forall>y \<in> set (riter s). \<not> meets (probe_base x) (x + n + GUARD) y))"
proof (induction "2 ^ 49 + 2 ^ 64 - c" arbitrary: c rule: less_induct)
  case less
  note pw = power_of_two_page [OF al]
  show ?case
  proof (cases "c + n \<le> hi")
    case False
    then have "window_pass n al hi s c = Some None"
      by (subst window_pass.simps) (auto simp: checked_add_def)
    then show ?thesis by simp
  next
    case True
    let ?lo = "probe_base c" and ?h = "c + n + GUARD"
    have bd: "c < hi" "c + n \<le> usize_max" "sat_add (c + n) GUARD = ?h" "?lo \<le> c"
      using True hi n probe_bounds(1) [OF less(2)] by (auto simp: usize_max_def va_consts)
    have sp: "?lo + (?h - ?lo) = ?h" "?lo + (?h - ?lo) \<le> usize_max" using bd(4) True hi by (auto simp: usize_max_def va_consts)
    define b where "b = (case filter (\<lambda>r. c < rend r \<and> r_base r < c + n) (riter s) of [] \<Rightarrow> c + n | rs \<Rightarrow> Max (set (map rend rs)))"
    let ?c = "align_up (sat_add b GUARD) al"
    have step: "window_pass n al hi s c = (if span_free s ?lo (?h - ?lo) then Some (Some c) else window_pass n al hi s ?c)"
      using bd True by (subst window_pass.simps) (simp add: checked_add_def b_def [symmetric])
    show ?thesis
    proof (cases "span_free s ?lo (?h - ?lo)")
      case free: True
      then show ?thesis using step less(2,3) True sp(1) span_free_iff [OF sp(2), of s] by simp
    next
      case False
      have b: "c < b" "b \<le> 2 ^ 48"
      proof -
        let ?f = "filter (\<lambda>r. c < rend r \<and> r_base r < c + n) (riter s)"
        have "c < b \<and> b \<le> 2 ^ 48"
        proof (cases "?f = []")
          case True
          then show ?thesis using n \<open>c + n \<le> hi\<close> hi by (simp add: b_def)
        next
          case False
          then have "b = Max (set (map rend ?f))" unfolding b_def by (rule case_list_ne)
          moreover have "set (map rend ?f) \<noteq> {}" using False by (simp only: set_empty map_is_Nil_conv not_False_eq_True)
          then have "Max (set (map rend ?f)) \<in> set (map rend ?f)" by (intro Max_in finite_set)
          ultimately show ?thesis using riter_end(3) [OF inv] by auto
        qed
        then show "c < b" "b \<le> 2 ^ 48" by simp_all
      qed
      have g: "sat_add b GUARD = b + GUARD" using b(2) by (simp add: sat_add_def usize_max_def va_consts)
      have al0: "0 < al" "b + GUARD + al \<le> 2 ^ 64" using al(2) b(2) pw(2) by (simp_all add: va_consts)
      note au = align_up_spec [OF al0]
      have "c < ?c" using au(1) b(1) by (simp add: g)
      moreover from this have "2 ^ 49 + 2 ^ 64 - ?c < 2 ^ 49 + 2 ^ 64 - c" using True hi by (intro diff_less_mono2) simp_all
      ultimately show ?thesis using less(1) [of ?c] less(2) au(2) step False by (simp add: g)
    qed
  qed
qed

lemma reserve_in_spec:
  assumes inv: "va_inv A s"
  shows "\<exists>s' x. reserve_in lo hi n align kind tag s = Some (s', x) \<and>
    (case round_up n of Some m \<Rightarrow> placed_at A kind tag m s s' x | None \<Rightarrow> s' = s)"
proof (cases "round_up n")
  case None
  then show ?thesis by (simp add: reserve_in_def)
next
  case (Some m)
  let ?al = "max align PAGE" and ?hi = "min hi (va_top s)" and ?lo = "max lo VA_FLOOR"
  show ?thesis
  proof (cases "m = 0 \<or> \<not> is_power_of_two ?al \<or> ?hi \<le> ?lo")
    case True
    then show ?thesis using Some placed_refuse [OF inv] by (auto simp: reserve_in_def Let_def)
  next
    case False
    then have m: "0 < m" "PAGE dvd m" and al: "is_power_of_two ?al" "PAGE \<le> ?al" and lh: "?lo < ?hi"
      using round_up_spec [OF Some] by auto
    note d = va_invD [OF inv]
    have hi: "?hi \<le> 2 ^ 48" using d(2) by simp
    have "?lo \<le> 2 ^ 48" using less_imp_le [OF lh] hi by (rule order_trans)
    then have "?lo + ?al \<le> 2 ^ 48 + 2 ^ 63" by (rule add_mono [OF _ power_of_two_page(2) [OF al]])
    also have "\<dots> \<le> 2 ^ 64" by simp
    finally have al0: "?lo + ?al \<le> 2 ^ 64" .
    have "0 < ?al" by (simp add: va_consts)
    note al0 = this al0
    note au = align_up_spec [OF al0]
    have "VA_FLOOR \<le> align_up ?lo ?al" using au(1) by simp
    from window_pass_spec [OF inv hi m(1) al this au(2)] obtain r where
      r: "window_pass m ?al ?hi s (align_up ?lo ?al) = Some r" "case r of None \<Rightarrow> True | Some x \<Rightarrow> VA_FLOOR \<le> x \<and> ?al dvd x \<and>
        x + m \<le> ?hi \<and> (\<forall>y \<in> set (riter s). \<not> meets (probe_base x) (x + m + GUARD) y)" by blast
    have not_hi: "\<not> ?hi \<le> ?lo" using lh by (simp only: not_le)
    show ?thesis
    proof (cases r)
      case None
      then show ?thesis using r(1) Some m(1) al(1) not_hi placed_refuse [OF inv] by (simp add: reserve_in_def Let_def)
    next
      case (Some c)
      with r(2) have c: "VA_FLOOR \<le> c" "?al dvd c" "c + m \<le> va_top s" "\<forall>y \<in> set (riter s). \<not> meets (probe_base c) (c + m + GUARD) y" by auto
      have pc: "PAGE dvd c" using power_of_two_page(1) [OF al] c(2) by (rule dvd_trans)
      have "\<not> meets c (c + m) y" if "y \<in> set (riter s)" for y
        using c(4) that probe_bounds(1) [OF c(1)] by (fastforce simp: meets_def)
      from record_span [OF inv m c(1) pc c(3) this refl, of kind tag] obtain s' x where
        "rinsert \<lparr> r_base = c, r_len = m, r_kind = kind, r_tag = tag \<rparr> s = Some (s', x)" "va_inv A s'" "va_top s' = va_top s"
        "case x of Inl er \<Rightarrow> er = NoMetadata \<and> rslots s' = rslots s | Inr _ \<Rightarrow> \<forall>a. va_find a s' =
          (if c \<le> a \<and> a < c + m then Some \<lparr> r_base = c, r_len = m, r_kind = kind, r_tag = tag \<rparr> else va_find a s)" by blast
      then show ?thesis using r(1) Some \<open>round_up n = Some m\<close> m(1) al(1) not_hi c(1,3) pc
        by (cases x) (auto simp: reserve_in_def Let_def placed_at_def)
    qed
  qed
qed

lemma reserve_fixed_spec:
  assumes inv: "va_inv A s"
  shows "\<exists>s' x. reserve_fixed base n kind tag s = Some (s', x) \<and>
    (case round_up n of Some m \<Rightarrow> placed_at A kind tag m s s' x \<and> (\<forall>c. x = Inr c \<longrightarrow> c = base) | None \<Rightarrow> s' = s)"
proof (cases "round_up n")
  case None
  then show ?thesis by (simp add: reserve_fixed_def)
next
  case (Some m)
  show ?thesis
  proof (cases "m = 0 \<or> base mod PAGE \<noteq> 0 \<or> usize_max < base + m \<or> base < VA_FLOOR \<or> va_top s < base + m \<or> \<not> span_free s base m")
    case True
    then show ?thesis using Some placed_refuse [OF inv, of kind tag m] by (auto simp: reserve_fixed_def checked_add_def)
  next
    case False
    then have m: "0 < m" "PAGE dvd m" and b: "VA_FLOOR \<le> base" "PAGE dvd base" "base + m \<le> va_top s" "base + m \<le> usize_max" "span_free s base m"
      using round_up_spec [OF Some] by auto
    have "\<not> meets base (base + m) y" if "y \<in> set (riter s)" for y using b(5) span_free_iff [OF b(4)] that by blast
    from record_span [OF inv m b(1,2,3) this refl, of kind tag] obtain s' x where
      "rinsert \<lparr> r_base = base, r_len = m, r_kind = kind, r_tag = tag \<rparr> s = Some (s', x)" "va_inv A s'" "va_top s' = va_top s"
      "case x of Inl er \<Rightarrow> er = NoMetadata \<and> rslots s' = rslots s | Inr _ \<Rightarrow> \<forall>a. va_find a s' =
        (if base \<le> a \<and> a < base + m then Some \<lparr> r_base = base, r_len = m, r_kind = kind, r_tag = tag \<rparr> else va_find a s)" by blast
    then show ?thesis using Some False b(1,2,3) by (cases x) (auto simp: reserve_fixed_def checked_add_def placed_at_def)
  qed
qed

section \<open>Releasing\<close>

text \<open>What is recorded at an address, apart from where its record begins and ends.\<close>

definition rinfo :: "vaspace \<Rightarrow> nat \<Rightarrow> (region_kind \<times> u32) option" where
  "rinfo s a = map_option (\<lambda>r. (r_kind r, r_tag r)) (va_find a s)"

definition hit :: "nat \<Rightarrow> nat \<Rightarrow> vaspace \<Rightarrow> nat set" where
  "hit base e s = {j. j < high_water s \<and> rlive (rslots s ! j) \<and> meets base e (rslots s ! j)}"

lemma finite_hit [simp]: "finite (hit base e s)"
  by (simp add: hit_def)

text \<open>Writing over slot \<open>i\<close> a part of what it holds.\<close>

lemma write_part:
  assumes inv: "va_inv A s" and i: "i < high_water s" and x: "rlive x \<Longrightarrow> region_ok (va_top s) x"
    and sub: "\<And>a. rcontains x a \<Longrightarrow> rcontains (rslots s ! i) a"
    and same: "rlive x \<Longrightarrow> r_kind x = r_kind (rslots s ! i) \<and> r_tag x = r_tag (rslots s ! i)"
  shows "va_inv A (put_region i x s)"
    "rinfo (put_region i x s) a = (if rcontains (rslots s ! i) a \<and> \<not> rcontains x a then None else rinfo s a)"
    "\<not> rlive x \<or> \<not> meets base e x \<Longrightarrow> hit base e (put_region i x s) = hit base e s - {i}"
proof -
  note d = va_invD [OF inv] and pv = put_region_view [OF va_invD(1) [OF inv], of i x]
  have len: "length (rslots s) = high_water s" by (rule slots_length [OF d(1)])
  have ap: "apart_spans rcontains (rslots s)" using d(4) by (simp add: regs_ok_def)
  have ok: "regs_ok (va_top s) ((rslots s)[i := x])"
  proof (rule regs_ok_write [OF d(4) x])
    fix j a assume "j < length (rslots s)" "j \<noteq> i" "rcontains x a"
    with apart_spansD [OF ap, of i j a] sub [of a] i len show "\<not> rcontains (rslots s ! j) a" by metis
  qed
  then show "va_inv A (put_region i x s)" using inv pv by (simp add: va_inv_def)
  have old: "span_at rcontains (rslots s) a = Some (rslots s ! i)" if "rcontains (rslots s ! i) a"
    using span_at_Some [OF ap, of i a] i len that by simp
  have "span_at rcontains ((rslots s)[i := x]) a = (if rcontains x a then Some x else if rcontains (rslots s ! i) a then None
      else span_at rcontains (rslots s) a)"
    using span_at_write [of rcontains "rslots s" i x a] ap ok i len by (simp add: regs_ok_def)
  moreover have "rlive x" if "rcontains x a" using that by (simp add: rcontains_def)
  ultimately show "rinfo (put_region i x s) a = (if rcontains (rslots s ! i) a \<and> \<not> rcontains x a then None else rinfo s a)"
    using old sub [of a] same unfolding rinfo_def va_find_span pv(2)
    by (cases "rcontains x a"; cases "rcontains (rslots s ! i) a") simp_all
  show "hit base e (put_region i x s) = hit base e s - {i}" if "\<not> rlive x \<or> \<not> meets base e x"
  proof -
    have "(rslots s)[i := x] ! j = (if j = i then x else rslots s ! j)" if "j < high_water s" for j
      using that len by (simp add: nth_list_update)
    then show ?thesis using that unfolding hit_def pv(2,4) by (auto split: if_splits)
  qed
qed

definition released_by :: "isa \<Rightarrow> nat \<Rightarrow> nat \<Rightarrow> vaspace \<times> nat \<Rightarrow> vaspace \<times> nat \<Rightarrow> bool" where
  "released_by A base e = (\<lambda>(s, n) (s', n').
     va_inv A s' \<and> va_top s' = va_top s \<and> va_hint s' = va_hint s \<and> high_water s \<le> high_water s' \<and>
     n' + card (hit base e s') = n + card (hit base e s) \<and>
     (\<forall>a. rinfo s' a = rinfo s a \<or> base \<le> a \<and> a < e \<and> rinfo s' a = None))"

lemma released_refl: "va_inv A s \<Longrightarrow> released_by A base e (s, n) (s, n)"
  by (simp add: released_by_def)

lemma released_trans: "released_by A base e x y \<Longrightarrow> released_by A base e y z \<Longrightarrow> released_by A base e x z"
  unfolding released_by_def by (cases x; cases y; cases z) (auto, metis+)

lemma released_part:
  assumes inv: "va_inv A s" and i: "i < high_water s" and x: "rlive x \<Longrightarrow> region_ok (va_top s) x"
    and cov: "\<And>a. rcontains x a \<longleftrightarrow> rcontains (rslots s ! i) a \<and> \<not> (base \<le> a \<and> a < e)"
    and same: "rlive x \<Longrightarrow> r_kind x = r_kind (rslots s ! i) \<and> r_tag x = r_tag (rslots s ! i)"
    and hit: "i \<in> hit base e s" "\<not> rlive x \<or> \<not> meets base e x"
  shows "released_by A base e (s, n) (put_region i x s, n + 1)"
proof -
  note w = write_part [OF inv i x _ same]
  have "va_inv A (put_region i x s)" "hit base e (put_region i x s) = hit base e s - {i}"
    using w(1,3) cov hit(2) by blast+
  moreover have "rinfo (put_region i x s) a = (if rcontains (rslots s ! i) a \<and> \<not> rcontains x a then None else rinfo s a)" for a
    using w(2) cov by blast
  moreover have "Suc (card (hit base e s - {i})) = card (hit base e s)" by (rule card_Suc_Diff1 [OF finite_hit hit(1)])
  ultimately show ?thesis using put_region_view [OF va_invD(1) [OF inv], of i x] cov by (auto simp: released_by_def)
qed

lemma release_split:
  assumes inv: "va_inv A s" and i: "i < high_water s" and r_def: "r = rslots s ! i" and live: "rlive r"
    and ins: "r_base r < base" "e < rend r" "base \<le> e" and al: "PAGE dvd base" "PAGE dvd e"
  shows "\<exists>y. (do { (s1, x) \<leftarrow> rinsert (r\<lparr>r_base := e, r_len := rend r - e\<rparr>) (put_region i (r\<lparr>r_len := base - r_base r\<rparr>) s);
                  case x of Inr _ \<Rightarrow> Some (s1, n + 1) | Inl _ \<Rightarrow> Some (put_region i r s1, n) }) = Some y \<and>
    released_by A base e (s, n) y"
proof -
  let ?h = "r\<lparr>r_len := base - r_base r\<rparr>" and ?t = "r\<lparr>r_base := e, r_len := rend r - e\<rparr>"
  note d = va_invD [OF inv]
  have len: "length (rslots s) = high_water s" by (rule slots_length [OF d(1)])
  have mem: "r \<in> set (rslots s)" using i len r_def by (metis nth_mem)
  note re = region_end [OF d(4,2) mem live]
  have ends: "rend ?h = base" "rend ?t = rend r" using ins re(1,3) d(2) by (auto simp: rend_def sat_add_def usize_max_def)
  have ok: "region_ok (va_top s) ?h" "region_ok (va_top s) ?t" "rlive ?h" "rlive ?t"
    using re ins al by (auto simp: region_ok_def rlive_def)
  have ch: "rcontains ?h a \<longleftrightarrow> rcontains r a \<and> a < base" for a using ends ins ok(3) live by (auto simp: rcontains_def)
  have ct: "rcontains ?t a \<longleftrightarrow> rcontains r a \<and> e \<le> a" for a using ends ins ok(4) live by (auto simp: rcontains_def)
  have miss: "\<not> meets base e ?h" "\<not> meets base e ?t" using ends ins by (auto simp: meets_def)
  have hiti: "i \<in> hit base e s" using i live ins r_def by (simp add: hit_def meets_def)
  let ?s1 = "put_region i ?h s"
  note w = write_part [OF inv i, of ?h, unfolded r_def [symmetric], OF ok(1)]
  have inv1: "va_inv A ?s1" and hit1: "hit base e ?s1 = hit base e s - {i}"
    and info1: "rinfo ?s1 a = (if rcontains r a \<and> \<not> a < base then None else rinfo s a)" for a
    using w(1) w(2) [of a] w(3) [of base e] ch miss(1) by auto
  note pv = put_region_view [OF d(1), of i ?h]
  have slot1: "rslots ?s1 ! j = (if j = i then ?h else rslots s ! j)" if "j < high_water s" for j
    using that len by (simp add: pv(2) nth_list_update)
  have ap: "apart_spans rcontains (rslots s)" using d(4) by (simp add: regs_ok_def)
  have apart1: "\<not> rcontains (rslots ?s1 ! j) a" if "j < high_water ?s1" "rcontains ?t a" for j a
    using that slot1 [of j] ch ct [of a] ins(3) apart_spansD [OF ap, of i j a] i len pv(4) r_def by (cases "j = i") auto
  have ok1: "region_ok (va_top ?s1) ?t" using ok(2) pv(5) by simp
  from record_region [OF inv1 ok(4) ok1 apart1] obtain s2 x where
    2: "rinsert ?t ?s1 = Some (s2, x)" "va_inv A s2" "va_top s2 = va_top s" "va_hint s2 = va_hint s"
      "case x of Inl er \<Rightarrow> er = NoMetadata \<and> contents (regions s2) = contents (regions ?s1) \<and> high_water s2 = high_water ?s1
       | Inr _ \<Rightarrow> (\<forall>a. va_find a s2 = (if rcontains ?t a then Some ?t else va_find a ?s1)) \<and>
         ((\<exists>i < high_water ?s1. \<not> rlive (rslots ?s1 ! i) \<and> rslots s2 = (rslots ?s1)[i := ?t]) \<or> rslots s2 = rslots ?s1 @ [?t])"
    using pv(5,6) by auto
  show ?thesis
  proof (cases x)
    case (Inl er)
    have c2: "contents (regions s2) = (contents (regions s))[i := ?h]" "high_water s2 = high_water s" using 2(5) Inl pv by auto
    note pr = put_region_view [OF va_invD(1) [OF 2(2)], of i r]
    have "rslots s2 = (rslots s)[i := ?h]" by (simp add: rslots_def c2 take_update_swap)
    then have undone: "rslots (put_region i r s2) = rslots s" using r_def unfolding pr(2) by simp
    have "released_by A base e (s, n) (put_region i r s2, n)"
      using inv 2(3,4) pr c2(2) undone by (simp add: released_by_def va_inv_def hit_def rinfo_def va_find_span)
    then show ?thesis using 2(1) Inl by simp
  next
    case (Inr u)
    have find2: "va_find a s2 = (if rcontains ?t a then Some ?t else va_find a ?s1)" for a using 2(5) Inr by simp
    have old: "va_find a s = Some r" if "rcontains r a" for a
      using span_at_Some [OF ap, of i a] that i len r_def unfolding va_find_span by simp
    have info: "rinfo s2 a = rinfo s a \<or> base \<le> a \<and> a < e \<and> rinfo s2 a = None" for a
      using find2 [of a] info1 [of a] ct [of a] old [of a] by (auto simp: rinfo_def)
    have len1: "length (rslots ?s1) = high_water s" using slots_length [OF va_invD(1) [OF inv1]] pv(4) by simp
    have len2: "length (rslots s2) = high_water s2" by (rule slots_length [OF va_invD(1) [OF 2(2)]])
    consider (re) k where "k < high_water s" "\<not> rlive (rslots ?s1 ! k)" "rslots s2 = (rslots ?s1)[k := ?t]"
      | (gr) "rslots s2 = rslots ?s1 @ [?t]" using 2(5) Inr pv(4) by auto
    then have hit2: "hit base e s2 = hit base e ?s1 \<and> high_water s \<le> high_water s2"
    proof cases
      case re
      then have hw: "high_water s2 = high_water s" using len1 len2 by simp
      have "rslots s2 ! j = (if j = k then ?t else rslots ?s1 ! j)" if "j < high_water s" for j
        using re(3) that len1 by (simp add: nth_list_update)
      then show ?thesis using re(2) miss(2) hw pv(4) by (auto simp: hit_def split: if_splits)
    next
      case gr
      then have hw: "high_water s2 = Suc (high_water s)" using len1 len2 by simp
      have "rslots s2 ! j = (if j = high_water s then ?t else rslots ?s1 ! j)" if "j < Suc (high_water s)" for j
        using gr that len1 by (simp add: nth_append)
      then show ?thesis using miss(2) hw pv(4) by (auto simp: hit_def less_Suc_eq split: if_splits)
    qed
    have "Suc (card (hit base e s - {i})) = card (hit base e s)" by (rule card_Suc_Diff1 [OF finite_hit hiti])
    then have "released_by A base e (s, n) (s2, n + 1)" using 2(2,3,4) hit1 hit2 info by (simp add: released_by_def)
    then show ?thesis using 2(1) Inr by simp
  qed
qed

lemma release_slot_range_spec:
  assumes inv: "va_inv A s" and i: "i < high_water s" and al: "PAGE dvd base" "e < 2 ^ 48 \<Longrightarrow> PAGE dvd e" "base \<le> e"
  shows "\<exists>y. release_slot_range base e i (s, n) = Some y \<and> released_by A base e (s, n) y"
proof -
  note d = va_invD [OF inv]
  have len: "length (rslots s) = high_water s" by (rule slots_length [OF d(1)])
  define r where "r = rslots s ! i"
  have get: "nth_opt (contents (regions s)) i = Some r"
    using i len by (simp add: nth_opt_def r_def rslots_def split: if_splits)
  show ?thesis
  proof (cases "rlive r \<and> meets base e r")
    case False
    then show ?thesis using get released_refl [OF inv] by (auto simp: release_slot_range_def meets_def)
  next
    case True
    then have live: "rlive r" "base < rend r" "r_base r < e" by (auto simp: meets_def)
    have mem: "r \<in> set (rslots s)" using i len r_def by (metis nth_mem)
    note re = region_end [OF d(4,2) mem live(1)]
    have hiti: "i \<in> hit base e s" using i True r_def by (simp add: hit_def)
    have pe: "PAGE dvd e" if "e < rend r" using al(2) that re(3) d(2) by simp
    note part = released_part [OF inv i _ _ _ hiti, unfolded r_def [symmetric], where n = n]
    have go: "\<not> (\<not> rlive r \<or> rend r \<le> base \<or> e \<le> r_base r)" using live by simp
    consider (all) "\<not> r_base r < base" "\<not> e < rend r" | (low) "r_base r < base" "\<not> e < rend r"
      | (high) "\<not> r_base r < base" "e < rend r" | (mid) "r_base r < base" "e < rend r" by blast
    then show ?thesis
    proof cases
      case all
      have "released_by A base e (s, n) (put_region i REGION_FREE s, n + 1)"
        by (rule part) (use all in \<open>auto simp: rcontains_def\<close>)
      then show ?thesis using get go all by (simp add: release_slot_range_def)
    next
      case low
      let ?x = "r\<lparr>r_len := base - r_base r\<rparr>"
      have x: "rend ?x = base" "region_ok (va_top s) ?x" "rlive ?x"
        using low re live al by (auto simp: rend_def sat_add_def usize_max_def region_ok_def rlive_def)
      have "released_by A base e (s, n) (put_region i ?x s, n + 1)"
        by (rule part) (use x low live in \<open>auto simp: rcontains_def meets_def\<close>)
      then show ?thesis using get go low by (simp add: release_slot_range_def)
    next
      case high
      let ?x = "r\<lparr>r_base := e, r_len := rend r - e\<rparr>"
      have x: "rend ?x = rend r" "region_ok (va_top s) ?x" "rlive ?x"
        using high re live al pe d(2) by (auto simp: rend_def sat_add_def usize_max_def region_ok_def rlive_def)
      have "released_by A base e (s, n) (put_region i ?x s, n + 1)"
        by (rule part) (use x high live in \<open>auto simp: rcontains_def meets_def\<close>)
      then show ?thesis using get go high by (simp add: release_slot_range_def)
    next
      case mid
      from release_split [OF inv i r_def live(1) mid al(3,1) pe [OF mid(2)], of n] get go mid show ?thesis
        by (simp add: release_slot_range_def)
    qed
  qed
qed

lemma release_slots:
  assumes "va_inv A s" and "\<forall>i \<in> set is. i < high_water s" and al: "PAGE dvd base" "e < 2 ^ 48 \<Longrightarrow> PAGE dvd e" "base \<le> e"
  shows "\<exists>y. for_each (release_slot_range base e) is (s, n) = Some y \<and> released_by A base e (s, n) y"
  using assms(1,2)
proof (induction "is" arbitrary: s n)
  case Nil
  then show ?case using released_refl by simp
next
  case (Cons i "is")
  then have "i < high_water s" by simp
  from release_slot_range_spec [OF Cons.prems(1) this al] obtain s1 n1 where
    1: "release_slot_range base e i (s, n) = Some (s1, n1)" "released_by A base e (s, n) (s1, n1)" by force
  then have "va_inv A s1" "\<forall>i \<in> set is. i < high_water s1" using Cons.prems(2) by (auto simp: released_by_def)
  from Cons.IH [OF this, of n1] 1 released_trans [OF 1(2)] show ?case by auto
qed

lemma release_range_spec:
  assumes inv: "va_inv A s" and al: "PAGE dvd base" "base \<le> usize_max"
  shows "\<exists>s' k. release_range base n s = Some (s', k) \<and> va_inv A s' \<and>
    (case round_up n of None \<Rightarrow> s' = s \<and> k = 0
     | Some m \<Rightarrow> k + card (hit base (sat_add base m) s') = card (hit base (sat_add base m) s) \<and>
         (\<forall>a. rinfo s' a = rinfo s a \<or> base \<le> a \<and> a < base + m \<and> rinfo s' a = None))"
proof (cases "round_up n")
  case None
  then show ?thesis using inv by (simp add: release_range_def)
next
  case (Some m)
  let ?e = "sat_add base m"
  have e: "PAGE dvd ?e" if "?e < 2 ^ 48"
    using that al(1) round_up_spec [OF Some] by (auto simp: sat_add_def usize_max_def min_def split: if_splits)
  have be: "base \<le> ?e" "?e \<le> base + m" using al(2) by (simp_all add: sat_add_def)
  from release_slots [OF inv _ al(1) e be(1), of "[0..<high_water s]" 0] obtain s1 k where
    1: "for_each (release_slot_range base ?e) [0..<high_water s] (s, 0) = Some (s1, k)" "released_by A base ?e (s, 0) (s1, k)" by auto
  let ?s' = "if base < va_hint s1 then s1\<lparr>va_hint := max base VA_FLOOR\<rparr> else s1"
  have i1: "va_inv A s1" "k + card (hit base ?e s1) = card (hit base ?e s)"
    "\<And>a. rinfo s1 a = rinfo s a \<or> base \<le> a \<and> a < base + m \<and> rinfo s1 a = None"
    using 1(2) be(2) by (fastforce simp: released_by_def)+
  have "va_inv A ?s'" using i1(1) by (auto simp: va_inv_def va_tab_def)
  moreover have "hit base ?e ?s' = hit base ?e s1" "rinfo ?s' = rinfo s1"
    by (auto simp: hit_def rinfo_def va_find_span fun_eq_iff)
  moreover have "release_range base n s = Some (?s', k)" using 1(1) Some by (simp add: release_range_def)
  ultimately show ?thesis using i1(2,3) Some by simp
qed

section \<open>Every operation\<close>

datatype va_op =
    VReserve nat nat region_kind u32
  | VReserveIn nat nat nat nat region_kind u32
  | VReserveFixed nat nat region_kind u32
  | VReleaseAt nat
  | VReleaseRange nat nat
  | VFund nat
  | VClear
  | VInit owner
  | VRelease
  | VSetCeiling nat

fun va_exec :: "isa \<Rightarrow> va_op \<Rightarrow> vaspace \<Rightarrow> vaspace option" where
  "va_exec A (VReserve n al kind tag) s = map_option fst (va_reserve n al kind tag s)"
| "va_exec A (VReserveIn lo hi n al kind tag) s = map_option fst (reserve_in lo hi n al kind tag s)"
| "va_exec A (VReserveFixed base n kind tag) s = map_option fst (reserve_fixed base n kind tag s)"
| "va_exec A (VReleaseAt base) s = Some (fst (release_at base s))"
| "va_exec A (VReleaseRange base n) s = map_option fst (release_range base n s)"
| "va_exec A (VFund want) s = map_option fst (va_fund want s)"
| "va_exec A VClear s = Some (va_clear A s)"
| "va_exec A (VInit ow) s = va_init A ow s"
| "va_exec A VRelease s = va_release s"
| "va_exec A (VSetCeiling t) s = Some (set_ceiling A t s)"

text \<open>
  What the callers must see to: a released range begins on a page, and the ceiling is lowered to no less
  than the floor, the regions and the hint. The last is not in the source's comment and is needed, see
  \<open>ceiling_ignored\<close> below.
\<close>

fun va_pre :: "vaspace \<Rightarrow> va_op \<Rightarrow> bool" where
  "va_pre s (VReleaseRange base n) \<longleftrightarrow> PAGE dvd base \<and> base \<le> usize_max"
| "va_pre s (VSetCeiling t) \<longleftrightarrow> VA_FLOOR \<le> t \<and> va_hint s \<le> t \<and> (\<forall>r \<in> set (riter s). rend r \<le> t)"
| "va_pre s _ \<longleftrightarrow> True"

lemma va_inv_empty:
  assumes "km_inv k" and "funded_inv region_ty k t" and "VA_FLOOR \<le> u" and "u \<le> USER_VA_TOP A"
  shows "va_inv A (s\<lparr>va_mem := k, regions := t, high_water := 0, va_hint := VA_FLOOR, va_top := u\<rparr>)"
  using assms by (simp add: va_inv_def va_tab_def rslots_def regs_ok_def apart_spans_def)

lemma USER_VA_TOP_floor: "VA_FLOOR \<le> USER_VA_TOP A"
  by (cases A) (simp_all add: VA_FLOOR_def)

lemma va_release_inv:
  assumes inv: "va_inv A s"
  shows "\<exists>k t. funded_release (va_mem s, regions s) = Some (k, t) \<and> km_inv k \<and> funded_inv region_ty k t"
  using funded_release_spec [of "va_mem s" region_ty "regions s"] inv by (auto simp: va_inv_def va_tab_def table_acct_def)

lemma put_regions_tab:
  assumes "va_tab s"
  shows "va_tab (foldl (\<lambda>s i. put_region i r s) s is)"
  using assms by (induction "is" arbitrary: s) (simp_all add: put_region_view)

lemma release_at_inv:
  assumes inv: "va_inv A s"
  shows "va_inv A (fst (release_at base s))"
proof (cases "find_idx (\<lambda>r. rlive r \<and> r_base r = base) (rslots s)")
  case None
  then show ?thesis using inv by (simp add: release_at_def)
next
  case (Some i)
  note d = va_invD [OF inv]
  have "i < high_water s" using Some slots_length [OF d(1)] by (simp add: find_idx_Some)
  from write_part(1) [OF inv this, of REGION_FREE] have "va_inv A (put_region i REGION_FREE s)" by simp
  then show ?thesis using Some by (auto simp: release_at_def Let_def va_inv_def va_tab_def)
qed

lemma va_exec_inv:
  assumes inv: "va_inv A s" and pre: "va_pre s x"
  shows "\<exists>s'. va_exec A x s = Some s' \<and> va_inv A s'"
proof (cases x)
  case (VReserve n al kind tag)
  from va_reserve_spec [OF inv, of n al kind tag] inv VReserve show ?thesis
    by (auto simp: placed_at_def split: option.splits)
next
  case (VReserveIn lo hi n al kind tag)
  from reserve_in_spec [OF inv, of lo hi n al kind tag] inv VReserveIn show ?thesis
    by (auto simp: placed_at_def split: option.splits)
next
  case (VReserveFixed base n kind tag)
  from reserve_fixed_spec [OF inv, of base n kind tag] inv VReserveFixed show ?thesis
    by (auto simp: placed_at_def split: option.splits)
next
  case (VReleaseAt base)
  then show ?thesis using release_at_inv [OF inv] by simp
next
  case (VReleaseRange base n)
  with release_range_spec [OF inv, of base n] pre show ?thesis by auto
next
  case (VFund want)
  from inv have tab: "km_inv (va_mem s)" "funded_inv region_ty (va_mem s) (regions s)" by (auto simp: va_inv_def va_tab_def)
  from reserve_spec [OF tab, of want] obtain k t ok where
    r: "reserve region_ty want (va_mem s, regions s) = Some ((k, t), ok)" "table_grew region_ty (va_mem s, regions s) (k, t)" by blast
  then have g: "km_inv k" "funded_inv region_ty k t" "cap (regions s) \<le> cap t"
    "contents t = contents (regions s) @ replicate (cap t - cap (regions s)) (ty_zero region_ty)" by (auto simp: table_grew_def)
  have "rslots (s\<lparr>va_mem := k, regions := t\<rparr>) = rslots s"
    using g(4) length_contents [OF tab(2)] inv by (simp add: rslots_def va_inv_def va_tab_def)
  then have "va_inv A (s\<lparr>va_mem := k, regions := t\<rparr>)" using inv g by (simp add: va_inv_def va_tab_def)
  then show ?thesis using r(1) VFund by (simp add: va_fund_def)
next
  case VClear
  let ?s = "foldl (\<lambda>s i. put_region i REGION_FREE s) s [0..<high_water s]"
  have "va_tab ?s" using put_regions_tab inv by (simp add: va_inv_def)
  then have "va_inv A (?s\<lparr>va_mem := va_mem ?s, regions := regions ?s, high_water := 0, va_hint := VA_FLOOR, va_top := USER_VA_TOP A\<rparr>)"
    by (intro va_inv_empty USER_VA_TOP_floor) (auto simp: va_tab_def)
  then show ?thesis using VClear by (simp add: va_clear_def)
next
  case (VInit ow)
  from va_release_inv [OF inv] obtain k t where r: "funded_release (va_mem s, regions s) = Some (k, t)" "km_inv k" "funded_inv region_ty k t" by blast
  obtain k' t' where o: "funded_set_owner ow (k, t) = (k', t')" by force
  have "va_inv A (s\<lparr>va_mem := k', regions := t', high_water := 0, va_hint := VA_FLOOR, va_top := USER_VA_TOP A\<rparr>)"
    using funded_set_owner_inv [OF r(2,3) o] by (intro va_inv_empty USER_VA_TOP_floor) auto
  then show ?thesis using VInit r(1) o by (simp add: va_init_def)
next
  case VRelease
  from va_release_inv [OF inv] obtain k t where r: "funded_release (va_mem s, regions s) = Some (k, t)" "km_inv k" "funded_inv region_ty k t" by blast
  then have "va_inv A (s\<lparr>va_mem := k, regions := t, high_water := 0, va_hint := VA_FLOOR, va_top := va_top s\<rparr>)"
    using inv by (intro va_inv_empty) (auto simp: va_inv_def)
  then show ?thesis using VRelease r(1) by (simp add: va_release_def)
next
  case (VSetCeiling t)
  note d = va_invD [OF inv]
  have "region_ok (min t (USER_VA_TOP A)) r" if "r \<in> set (rslots s)" "rlive r" for r
    using region_end [OF d(4,2) that] pre that VSetCeiling inv by (auto simp: region_ok_def riter_def va_inv_def)
  then show ?thesis using VSetCeiling inv pre USER_VA_TOP_floor [of A]
    by (simp add: set_ceiling_def va_inv_def va_tab_def regs_ok_def)
qed

definition va_step :: "isa \<Rightarrow> vaspace \<Rightarrow> va_op \<Rightarrow> vaspace" where
  "va_step A s x = (case va_exec A x s of Some s' \<Rightarrow> s' | None \<Rightarrow> s)"

interpretation vsm: machine "va_step A" va_pre "va_inv A" for A
proof
  fix s x assume "va_inv A s" "va_pre s x"
  then show "va_inv A (va_step A s x)" using va_exec_inv [of A s x] by (auto simp: va_step_def)
qed

lemma va_inv_new: "km_inv k \<Longrightarrow> va_inv A (vaspace_new A k)"
  using va_inv_empty [OF _ funded_inv_new USER_VA_TOP_floor order_refl, of k A "vaspace_new A k"] by (simp add: vaspace_new_def)

section \<open>Where the source departs from its comments\<close>

text \<open>
  The second pass of \<^verbatim>\<open>reserve\<close> runs up to the hint, not to the ceiling: with a ceiling lowered to 1 GiB
  below a hint at 2 GiB, and the space below full, it answers an address above the ceiling.
\<close>

lemma ceiling_ignored:
  assumes "riter s = [\<lparr> r_base = VA_FLOOR, r_len = 2 ^ 30 - VA_FLOOR, r_kind = Fixed, r_tag = 0 \<rparr>]"
    and "va_top s = 2 ^ 30" and "va_hint s = 2 ^ 31"
  shows "reserve_pass 4096 4096 (va_top s) s (va_hint s) = Some None"
    "reserve_pass 4096 4096 (va_hint s) s VA_FLOOR = Some (Some (va_top s + GUARD))"
proof -
  show "reserve_pass 4096 4096 (va_top s) s (va_hint s) = Some None"
    using assms by (subst reserve_pass.simps) simp
  have b: "blocking_end s VA_FLOOR (VA_FLOOR + 4096 + GUARD - VA_FLOOR) = Some (2 ^ 30)" "\<not> span_free s VA_FLOOR (VA_FLOOR + 4096 + GUARD - VA_FLOOR)"
    by (simp_all add: blocking_end_def span_free_def assms rend_def sat_add_def usize_max_def VA_FLOOR_def va_consts)
  have "reserve_pass 4096 4096 (va_hint s) s VA_FLOOR = reserve_pass 4096 4096 (va_hint s) s (2 ^ 30 + GUARD)"
    using b by (subst reserve_pass.simps)
      (simp add: assms probe_base_def checked_add_def sat_add_def usize_max_def VA_FLOOR_def va_consts align_up_def wrap_add_def)
  also have "\<dots> = Some (Some (2 ^ 30 + GUARD))"
    by (subst reserve_pass.simps)
      (simp add: assms probe_base_def checked_add_def sat_add_def usize_max_def VA_FLOOR_def va_consts span_free_def rend_def)
  finally show "reserve_pass 4096 4096 (va_hint s) s VA_FLOOR = Some (Some (va_top s + GUARD))" by (simp add: assms)
qed

text \<open>
  When only the guard of a candidate is blocked, \<^verbatim>\<open>reserve_in\<close> jumps past the candidate's own end instead of
  past the blocking region, and so refuses a window that has room.
\<close>

lemma window_skips:
  assumes "riter s = [\<lparr> r_base = 2097152, r_len = 4096, r_kind = Fixed, r_tag = 0 \<rparr>]"
  shows "window_pass 4096 4096 2121728 s 2101248 = Some None"
    "span_free s (probe_base 2117632) (2117632 + 4096 + GUARD - probe_base 2117632) \<and> 2117632 + 4096 \<le> (2121728 :: nat)"
proof -
  have e: "rend \<lparr> r_base = 2097152, r_len = 4096, r_kind = Fixed, r_tag = 0 \<rparr> = 2101248"
    by (simp add: rend_def sat_add_def usize_max_def)
  have "window_pass 4096 4096 2121728 s 2101248 = window_pass 4096 4096 2121728 s 2121728"
    by (subst window_pass.simps)
      (simp add: assms e probe_base_def checked_add_def sat_add_def usize_max_def VA_FLOOR_def va_consts align_up_def wrap_add_def span_free_def)
  also have "\<dots> = Some None" by (subst window_pass.simps) simp
  finally show "window_pass 4096 4096 2121728 s 2101248 = Some None" .
  show "span_free s (probe_base 2117632) (2117632 + 4096 + GUARD - probe_base 2117632) \<and> 2117632 + 4096 \<le> (2121728 :: nat)"
    by (simp add: assms e probe_base_def sat_add_def usize_max_def VA_FLOOR_def va_consts span_free_def)
qed

text \<open>\<^verbatim>\<open>invariant_holds\<close> skips pairs with equal bases and so accepts two records of the same span.\<close>

lemma same_base_accepted:
  assumes "riter s = [r, r]" and "region_ok (va_top s) r" and "va_top s \<le> usize_max"
  shows "va_invariant_holds s"
  using assms by (simp add: va_invariant_holds_def region_ok_def rend_def sat_add_def)

section \<open>Properties\<close>



text \<open>
  \<^verbatim>\<open>reserve\<close> always returns. It answers the lowest aligned address from the hint
  up to the ceiling at which the span and both guard gaps are free, else the lowest such address below the
  hint, and says exhausted exactly when neither exists; it records the span it answers and moves nothing else.
\<close>

theorem reserve_first_fit:
  assumes "va_inv A s"
  shows "\<exists>s' x. va_reserve n align kind tag s = Some (s', x) \<and> va_inv A s' \<and>
    (case x of
       Inr c \<Rightarrow> \<exists>m. round_up n = Some m \<and> first_fit s m (max align PAGE) (Some c) \<and>
         (\<forall>a. va_find a s' = (if c \<le> a \<and> a < c + m then Some \<lparr> r_base = c, r_len = m, r_kind = kind, r_tag = tag \<rparr> else va_find a s))
     | Inl er \<Rightarrow> rslots s' = rslots s \<and> (er = BadLength \<or> (\<exists>m r. round_up n = Some m \<and> first_fit s m (max align PAGE) r \<and>
         (if r = None then er = Exhausted else er = NoMetadata))))"
proof -
  from va_reserve_spec [OF assms, of n align kind tag] obtain s' x where
    r: "va_reserve n align kind tag s = Some (s', x)"
      "case round_up n of Some m \<Rightarrow> placed_at A kind tag m s s' x | None \<Rightarrow> s' = s \<and> x = Inl BadLength"
      "x \<noteq> Inl BadLength \<longrightarrow> (\<exists>m r. round_up n = Some m \<and> 0 < m \<and> is_power_of_two (max align PAGE) \<and>
        first_fit s m (max align PAGE) r \<and> (case r of Some c \<Rightarrow> x = Inr c \<or> x = Inl NoMetadata | None \<Rightarrow> x = Inl Exhausted))" by blast
  have "va_inv A s'" using r(2) assms by (auto simp: placed_at_def split: option.splits)
  moreover have "case x of
       Inr c \<Rightarrow> \<exists>m. round_up n = Some m \<and> first_fit s m (max align PAGE) (Some c) \<and>
         (\<forall>a. va_find a s' = (if c \<le> a \<and> a < c + m then Some \<lparr> r_base = c, r_len = m, r_kind = kind, r_tag = tag \<rparr> else va_find a s))
     | Inl er \<Rightarrow> rslots s' = rslots s \<and> (er = BadLength \<or> (\<exists>m r. round_up n = Some m \<and> first_fit s m (max align PAGE) r \<and>
         (if r = None then er = Exhausted else er = NoMetadata)))"
  proof (cases x)
    case (Inl er)
    then have "rslots s' = rslots s" using r(2) by (auto simp: placed_at_def split: option.splits)
    moreover have "er = BadLength \<or> (\<exists>m r. round_up n = Some m \<and> first_fit s m (max align PAGE) r \<and>
         (if r = None then er = Exhausted else er = NoMetadata))" using r(3) Inl by (force split: option.splits)
    ultimately show ?thesis using Inl by simp
  next
    case (Inr c)
    with r(3) obtain m where "round_up n = Some m" "first_fit s m (max align PAGE) (Some c)" by (auto split: option.splits)
    with r(2) Inr show ?thesis by (auto simp: placed_at_def)
  qed
  ultimately show ?thesis using r(1) by blast
qed

theorem reserve_first_fit_witness:
  "\<exists>k s' x. va_reserve 8192 65536 Anon 7 (vaspace_new Riscv64 k) = Some (s', x) \<and> va_inv Riscv64 s'"
proof -
  obtain k where "km_inv k" using boot_memory by blast
  from reserve_first_fit [OF va_inv_new [OF this], of 8192 65536 Anon 7 Riscv64] show ?thesis by blast
qed

text \<open>
  Releasing a page-aligned range never loses a mapping. Every address outside
  the range keeps its record, also of regions cut at either end or in the middle; inside, an address is
  released or, when the table could not take the second half of a split, left as it was; and if the count
  returned is the number of regions the range met, nothing in the range is left.
\<close>

theorem release_range_exact:
  assumes "va_inv A s" and "PAGE dvd base" and "base \<le> usize_max" and "round_up n = Some m"
  shows "\<exists>s' k. release_range base n s = Some (s', k) \<and> va_inv A s' \<and>
    (\<forall>a. rinfo s' a = rinfo s a \<or> base \<le> a \<and> a < base + m \<and> rinfo s' a = None) \<and>
    k \<le> card (hit base (sat_add base m) s) \<and>
    (k = card (hit base (sat_add base m) s) \<longrightarrow> (\<forall>a. base \<le> a \<and> a < sat_add base m \<longrightarrow> rinfo s' a = None))"
proof -
  let ?e = "sat_add base m"
  from release_range_spec [OF assms(1-3), of n] assms(4) obtain s' k where
    r: "release_range base n s = Some (s', k)" "va_inv A s'" "k + card (hit base ?e s') = card (hit base ?e s)"
      "\<forall>a. rinfo s' a = rinfo s a \<or> base \<le> a \<and> a < base + m \<and> rinfo s' a = None" by auto
  have "rinfo s' a = None" if "hit base ?e s' = {}" "base \<le> a" "a < ?e" for a
  proof (rule ccontr)
    assume "rinfo s' a \<noteq> None"
    then obtain x where "span_at rcontains (rslots s') a = Some x" by (auto simp: rinfo_def va_find_span)
    then obtain i where i: "i < length (rslots s')" "rslots s' ! i = x" "rcontains x a" by (rule span_at_SomeD)
    then have "i \<in> hit base ?e s'" using that(2,3) slots_length [OF va_invD(1) [OF r(2)]] by (auto simp: hit_def rcontains_def meets_def)
    with that(1) show False by simp
  qed
  moreover have "hit base ?e s' = {}" if "k = card (hit base ?e s)" using r(3) that by simp
  ultimately show ?thesis using r by (intro exI [of _ s'] exI [of _ k]) auto
qed

theorem release_range_exact_witness:
  "\<exists>k s' n. release_range 4194304 5000 (vaspace_new Aarch64 k) = Some (s', n) \<and> va_inv Aarch64 s'"
proof -
  obtain k where "km_inv k" using boot_memory by blast
  moreover have "round_up 5000 = Some 8192" by (simp add: round_up_def checked_add_def usize_max_def va_consts)
  ultimately show ?thesis using release_range_exact [OF va_inv_new, of k 4194304 5000 8192 Aarch64] by (auto simp: va_consts usize_max_def)
qed

end
