(* ===== verification/Wheel.thy ===== *)
theory Wheel
  imports Kmeta
begin

text \<open>
  The timing wheel, \<^verbatim>\<open>kernel/src/ktimer/wheel.rs\<close>: timers as nodes of a funded table, threaded into one doubly
  linked list per bucket, one overflow list, one list of fired timers in deadline order and one free list.

  Deadlines and ticks are naturals, list links are node indices with \<open>NIL\<close> for none. The outer option is a
  panic (a counter below zero, or the table's memory) or a loop over the links that never ends; the theorems
  show that neither happens. The \<^verbatim>\<open>for\<close> and \<^verbatim>\<open>while\<close> loops over ticks are recursions over their number.
\<close>

section \<open>Timers and the wheel\<close>

definition LEVEL_BITS :: nat where "LEVEL_BITS = 6"
definition SLOTS :: nat where "SLOTS = 2 ^ LEVEL_BITS"
definition LEVELS :: nat where "LEVELS = 4"
definition TICK_SHIFT :: nat where "TICK_SHIFT = 10"
definition TICK_NS :: nat where "TICK_NS = 2 ^ TICK_SHIFT"
definition NIL :: nat where "NIL = 2 ^ 32 - 1"

datatype tstate = TFree | TArmed | TFired

record tnode =
  deadline_ns :: nat
  tnext :: nat
  tprev :: nat
  tgen :: u32
  tstat :: tstate
  ttag :: u64

definition NODE_EMPTY :: tnode where
  "NODE_EMPTY = \<lparr> deadline_ns = 0, tnext = NIL, tprev = NIL, tgen = 0, tstat = TFree, ttag = 0 \<rparr>"

record timer =
  t_index :: nat
  t_generation :: u32

datatype wheel_error = WNoMetadata

definition node_ty :: "tnode elem_ty" where
  "node_ty = \<lparr> ty_size = 32, ty_align = 8,
     ty_zero = \<lparr> deadline_ns = 0, tnext = 0, tprev = 0, tgen = 0, tstat = TFree, ttag = 0 \<rparr> \<rparr>"

text \<open>A bucket is a level and a slot; \<open>None\<close> is the overflow list.\<close>

type_synonym bucket = "(nat \<times> nat) option"

record wheel =
  wmem :: kmem
  wnodes :: "tnode funded"
  heads :: "nat \<times> nat \<Rightarrow> nat"
  overflow :: nat
  fired_head :: nat
  whw :: nat
  wfree :: nat
  now_tick :: nat
  nearest :: nat
  nearest_dirty :: bool
  armed :: nat
  fired_pending :: nat
  arms :: u64
  cancels :: u64
  firings :: u64
  cascades :: u64

definition wheel_new :: "kmem \<Rightarrow> wheel" where
  "wheel_new k = \<lparr> wmem = k, wnodes = funded_new, heads = (\<lambda>_. NIL), overflow = NIL, fired_head = NIL, whw = 0,
     wfree = NIL, now_tick = 0, nearest = usize_max, nearest_dirty = False, armed = 0, fired_pending = 0,
     arms = 0, cancels = 0, firings = 0, cascades = 0 \<rparr>"

definition wheel_release :: "wheel \<Rightarrow> wheel option" where
  "wheel_release s = do { (k, t) \<leftarrow> funded_release (wmem s, wnodes s);
     Some (s\<lparr>wmem := k, wnodes := t, heads := (\<lambda>_. NIL), overflow := NIL, fired_head := NIL, whw := 0, wfree := NIL,
             nearest := usize_max, nearest_dirty := False, armed := 0, fired_pending := 0\<rparr>) }"

definition wheel_init :: "owner \<Rightarrow> nat \<Rightarrow> wheel \<Rightarrow> wheel option" where
  "wheel_init ow now s = do { s1 \<leftarrow> wheel_release s;
     let (k, t) = funded_set_owner ow (wmem s1, wnodes s1)
     in Some (s1\<lparr>wmem := k, wnodes := t, now_tick := now div TICK_NS\<rparr>) }"

definition wnode :: "wheel \<Rightarrow> nat \<Rightarrow> tnode option" where
  "wnode s i = (if i = NIL then None else nth_opt (contents (wnodes s)) i)"

definition set_wnode :: "nat \<Rightarrow> tnode \<Rightarrow> wheel \<Rightarrow> wheel" where
  "set_wnode i n s = (if i \<noteq> NIL then case funded_set node_ty i n (wnodes s) of Some (t, _) \<Rightarrow> s\<lparr>wnodes := t\<rparr> | None \<Rightarrow> s else s)"

text \<open>Read a node, change it, write it back, if it is there.\<close>

definition upd_node :: "nat \<Rightarrow> (tnode \<Rightarrow> tnode) \<Rightarrow> wheel \<Rightarrow> wheel" where
  "upd_node i f s = (case wnode s i of None \<Rightarrow> s | Some n \<Rightarrow> set_wnode i (f n) s)"

definition alloc_node :: "wheel \<Rightarrow> (wheel \<times> nat option) option" where
  "alloc_node s =
     (if wfree s \<noteq> NIL
      then case wnode s (wfree s) of None \<Rightarrow> Some (s, None) | Some n \<Rightarrow> Some (s\<lparr>wfree := tnext n\<rparr>, Some (wfree s))
      else let i = whw s; g = (case nth_opt (contents (wnodes s)) i of Some n \<Rightarrow> tgen n | None \<Rightarrow> 0)
           in do { ((k, t), ok) \<leftarrow> set_growing node_ty i (NODE_EMPTY\<lparr>tgen := g\<rparr>) (wmem s, wnodes s);
                   let s1 = s\<lparr>wmem := k, wnodes := t\<rparr>
                   in if \<not> ok then Some (s1, None) else Some (s1\<lparr>whw := i + 1\<rparr>, Some i) })"

definition locate :: "nat \<Rightarrow> nat \<Rightarrow> bucket" where
  "locate now dt =
     (let delta = dt - now
      in map_option (\<lambda>l. (l, (dt div 2 ^ (LEVEL_BITS * l)) mod SLOTS))
           (find (\<lambda>l. delta < 2 ^ (LEVEL_BITS * (l + 1))) [0..<LEVELS]))"

definition head_of :: "wheel \<Rightarrow> bucket \<Rightarrow> nat" where
  "head_of s b = (case b of Some x \<Rightarrow> heads s x | None \<Rightarrow> overflow s)"

definition set_head :: "bucket \<Rightarrow> nat \<Rightarrow> wheel \<Rightarrow> wheel" where
  "set_head b v s = (case b of Some x \<Rightarrow> s\<lparr>heads := (heads s)(x := v)\<rparr> | None \<Rightarrow> s\<lparr>overflow := v\<rparr>)"

definition link :: "nat \<Rightarrow> bucket \<Rightarrow> wheel \<Rightarrow> wheel" where
  "link i b s =
     (let h = head_of s b;
          s1 = upd_node i (\<lambda>n. n\<lparr>tnext := h, tprev := NIL\<rparr>) s;
          s2 = upd_node h (\<lambda>n. n\<lparr>tprev := i\<rparr>) s1
      in set_head b i s2)"

definition repoint_head :: "nat \<Rightarrow> nat \<Rightarrow> wheel \<Rightarrow> wheel" where
  "repoint_head i nx s =
     (case find (\<lambda>x. heads s x = i) (concat (map (\<lambda>l. map (Pair l) [0..<SLOTS]) [0..<LEVELS])) of
        Some x \<Rightarrow> set_head (Some x) nx s
      | None \<Rightarrow> if overflow s = i then s\<lparr>overflow := nx\<rparr> else s)"

definition unhead :: "nat \<Rightarrow> nat \<Rightarrow> nat \<Rightarrow> wheel \<Rightarrow> wheel" where
  "unhead i deadline nx s =
     (let loc = locate (now_tick s) (deadline div TICK_NS)
      in if loc \<noteq> None \<and> head_of s loc = i then set_head loc nx s
         else if overflow s = i then s\<lparr>overflow := nx\<rparr>
         else repoint_head i nx s)"

definition unlink :: "nat \<Rightarrow> wheel \<Rightarrow> wheel" where
  "unlink i s =
     (case wnode s i of None \<Rightarrow> s
      | Some n \<Rightarrow>
          let p = tprev n; nx = tnext n;
              s1 = (case wnode s p of Some q \<Rightarrow> set_wnode p (q\<lparr>tnext := nx\<rparr>) s | None \<Rightarrow> unhead i (deadline_ns n) nx s);
              s2 = upd_node nx (\<lambda>m. m\<lparr>tprev := p\<rparr>) s1
          in upd_node i (\<lambda>m. m\<lparr>tnext := NIL, tprev := NIL\<rparr>) s2)"

definition arm :: "nat \<Rightarrow> u64 \<Rightarrow> wheel \<Rightarrow> (wheel \<times> (wheel_error + timer)) option" where
  "arm deadline tag s =
     do { (s1, r) \<leftarrow> alloc_node s;
          case r of None \<Rightarrow> Some (s1, Inl WNoMetadata)
          | Some i \<Rightarrow>
              let g = (case wnode s1 i of Some n \<Rightarrow> tgen n + 1 | None \<Rightarrow> 1);
                  s2 = set_wnode i \<lparr> deadline_ns = deadline, tnext = NIL, tprev = NIL, tgen = g, tstat = TArmed, ttag = tag \<rparr> s1;
                  s3 = link i (locate (now_tick s2) (deadline div TICK_NS)) s2;
                  s4 = s3\<lparr>armed := armed s3 + 1, arms := arms s3 + 1, nearest := (if deadline < nearest s3 then deadline else nearest s3)\<rparr>
              in Some (s4, Inr \<lparr> t_index = i, t_generation = g \<rparr>) }"

definition timer_valid :: "timer \<Rightarrow> wheel \<Rightarrow> bool" where
  "timer_valid t s = (case wnode s (t_index t) of Some n \<Rightarrow> tgen n = t_generation t \<and> tstat n \<noteq> TFree | None \<Rightarrow> False)"

definition timer_fired :: "timer \<Rightarrow> wheel \<Rightarrow> bool" where
  "timer_fired t s = (case wnode s (t_index t) of Some n \<Rightarrow> tgen n = t_generation t \<and> tstat n = TFired | None \<Rightarrow> False)"

definition free_node :: "nat \<Rightarrow> wheel \<Rightarrow> wheel" where
  "free_node i s = (case wnode s i of None \<Rightarrow> s
     | Some n \<Rightarrow> (set_wnode i (n\<lparr>tstat := TFree, tgen := tgen n + 1, tnext := wfree s, tprev := NIL, deadline_ns := 0\<rparr>) s)\<lparr>wfree := i\<rparr>)"

text \<open>The search of \<^verbatim>\<open>push_fired\<close> for its place, and that of \<^verbatim>\<open>unlink_fired\<close>.\<close>

partial_function (option) fired_spot :: "wheel \<Rightarrow> nat \<Rightarrow> nat \<Rightarrow> nat \<Rightarrow> (nat \<times> nat) option" where
  "fired_spot s deadline prev cur =
     (if cur \<noteq> NIL
      then case wnode s cur of None \<Rightarrow> Some (prev, cur)
           | Some c \<Rightarrow> if deadline < deadline_ns c then Some (prev, cur) else fired_spot s deadline cur (tnext c)
      else Some (prev, cur))"

definition dec :: "nat \<Rightarrow> nat option" where
  "dec n = (if n = 0 then None else Some (n - 1))"

definition push_fired :: "nat \<Rightarrow> wheel \<Rightarrow> wheel option" where
  "push_fired i s =
     (case wnode s i of None \<Rightarrow> Some s
      | Some n \<Rightarrow>
          let s1 = set_wnode i (n\<lparr>tstat := TFired, tprev := NIL, tnext := NIL\<rparr>) s
          in do { (prev, cur) \<leftarrow> fired_spot s1 (deadline_ns n) NIL (fired_head s1);
                  let s2 = upd_node i (\<lambda>m. m\<lparr>tnext := cur\<rparr>) s1;
                      s3 = (if prev = NIL then s2\<lparr>fired_head := i\<rparr> else upd_node prev (\<lambda>m. m\<lparr>tnext := i\<rparr>) s2)
                  in do { a \<leftarrow> dec (armed s3);
                          Some (s3\<lparr>armed := a, fired_pending := fired_pending s3 + 1, firings := firings s3 + 1\<rparr>) } })"

partial_function (option) unlink_fired_from :: "nat \<Rightarrow> wheel \<Rightarrow> nat \<Rightarrow> nat \<Rightarrow> wheel option" where
  "unlink_fired_from i s prev cur =
     (if cur \<noteq> NIL
      then case wnode s cur of None \<Rightarrow> Some s
           | Some c \<Rightarrow>
               if cur = i
               then Some (if prev = NIL then s\<lparr>fired_head := tnext c\<rparr> else upd_node prev (\<lambda>m. m\<lparr>tnext := tnext c\<rparr>) s)
               else unlink_fired_from i s cur (tnext c)
      else Some s)"

definition unlink_fired :: "nat \<Rightarrow> wheel \<Rightarrow> wheel option" where
  "unlink_fired i s = unlink_fired_from i s NIL (fired_head s)"

definition cancel :: "timer \<Rightarrow> wheel \<Rightarrow> (wheel \<times> bool) option" where
  "cancel t s =
     (case wnode s (t_index t) of None \<Rightarrow> Some (s, False)
      | Some n \<Rightarrow>
          if tgen n \<noteq> t_generation t \<or> tstat n = TFree then Some (s, False)
          else let was = tstat n = TArmed
               in do { s1 \<leftarrow> (if was
                              then let s1 = unlink (t_index t) s
                                   in do { a \<leftarrow> dec (armed s1);
                                           Some (s1\<lparr>armed := a, nearest_dirty := nearest_dirty s1 \<or> deadline_ns n \<le> nearest s1\<rparr>) }
                              else do { s1 \<leftarrow> unlink_fired (t_index t) s; Some (s1\<lparr>fired_pending := fired_pending s1 - 1\<rparr>) });
                       let s2 = free_node (t_index t) s1 in Some (s2\<lparr>cancels := cancels s2 + 1\<rparr>, was) })"

definition nearer :: "nat \<Rightarrow> tnode \<Rightarrow> nat" where
  "nearer best n = (if tstat n = TArmed \<and> deadline_ns n < best then deadline_ns n else best)"

definition recompute_nearest :: "wheel \<Rightarrow> wheel" where
  "recompute_nearest s = s\<lparr>nearest := foldl nearer usize_max (take (whw s) (contents (wnodes s))), nearest_dirty := False\<rparr>"

definition nearest_of :: "wheel \<Rightarrow> wheel \<times> nat option" where
  "nearest_of s = (let s1 = (if nearest_dirty s then recompute_nearest s else s)
     in (s1, if armed s1 = 0 then None else Some (nearest s1)))"

section \<open>Advancing\<close>

partial_function (option) expire_from :: "nat \<Rightarrow> wheel \<Rightarrow> nat \<Rightarrow> nat \<Rightarrow> (wheel \<times> nat) option" where
  "expire_from now s i fired =
     (if i \<noteq> NIL
      then case wnode s i of None \<Rightarrow> Some (s, fired)
           | Some n \<Rightarrow>
               if tstat n = TArmed \<and> deadline_ns n \<le> now
               then do { s1 \<leftarrow> push_fired i (unlink i s); expire_from now s1 (tnext n) (fired + 1) }
               else expire_from now s (tnext n) fired
      else Some (s, fired))"

definition expire_bucket :: "nat \<times> nat \<Rightarrow> nat \<Rightarrow> wheel \<Rightarrow> (wheel \<times> nat) option" where
  "expire_bucket b now s = expire_from now s (heads s b) 0"

definition refile :: "nat \<Rightarrow> nat \<Rightarrow> tnode \<Rightarrow> wheel \<Rightarrow> wheel option" where
  "refile now i n s =
     (if deadline_ns n \<le> now then push_fired i s
      else let s1 = link i (locate (now_tick s) (deadline_ns n div TICK_NS)) s in Some (s1\<lparr>cascades := cascades s1 + 1\<rparr>))"

partial_function (option) refile_from :: "nat \<Rightarrow> wheel \<Rightarrow> nat \<Rightarrow> wheel option" where
  "refile_from now s i =
     (if i \<noteq> NIL
      then case wnode s i of None \<Rightarrow> Some s
           | Some n \<Rightarrow>
               let s1 = upd_node i (\<lambda>m. m\<lparr>tnext := NIL, tprev := NIL\<rparr>) s
               in do { s2 \<leftarrow> (if tstat n = TArmed then refile now i n s1 else Some s1); refile_from now s2 (tnext n) }
      else Some s)"

definition cascade_bucket :: "nat \<times> nat \<Rightarrow> nat \<Rightarrow> wheel \<Rightarrow> wheel option" where
  "cascade_bucket b now s = refile_from now (set_head (Some b) NIL s) (heads s b)"

definition refile_overflow :: "nat \<Rightarrow> wheel \<Rightarrow> wheel option" where
  "refile_overflow now s = refile_from now (s\<lparr>overflow := NIL\<rparr>) (overflow s)"

definition refile_index :: "nat \<Rightarrow> nat \<Rightarrow> wheel \<times> nat \<Rightarrow> (wheel \<times> nat) option" where
  "refile_index now i = (\<lambda>(s, fired).
     case nth_opt (contents (wnodes s)) i of None \<Rightarrow> Some (s, fired)
     | Some n \<Rightarrow>
         if tstat n \<noteq> TArmed then Some (s, fired)
         else do { s1 \<leftarrow> refile now i n (set_wnode i (n\<lparr>tnext := NIL, tprev := NIL\<rparr>) s);
                   Some (s1, if deadline_ns n \<le> now then fired + 1 else fired) })"

definition refile_all :: "nat \<Rightarrow> wheel \<Rightarrow> (wheel \<times> nat) option" where
  "refile_all now s = for_each (refile_index now) [0..<whw s] (s\<lparr>heads := (\<lambda>_. NIL), overflow := NIL\<rparr>, 0)"

text \<open>The cascade when level 0 has gone round: level by level, until one that has not.\<close>

fun cascade_levels :: "nat list \<Rightarrow> nat \<Rightarrow> wheel \<Rightarrow> wheel option" where
  "cascade_levels [] now s = Some s"
| "cascade_levels (l # ls) now s =
     (let higher = (now_tick s div 2 ^ (LEVEL_BITS * l)) mod SLOTS
      in do { s1 \<leftarrow> cascade_bucket (l, higher) now s; if higher \<noteq> 0 then Some s1 else cascade_levels ls now s1 })"

definition tick_once :: "nat \<Rightarrow> wheel \<times> nat \<Rightarrow> (wheel \<times> nat) option" where
  "tick_once now = (\<lambda>(s, fired).
     let s0 = s\<lparr>now_tick := now_tick s + 1\<rparr>; slot = now_tick s0 mod SLOTS
     in do { (s1, f) \<leftarrow> expire_bucket (0, slot) now s0;
             s2 \<leftarrow> (if slot = 0 then Option.bind (cascade_levels [1..<LEVELS] now s1) (refile_overflow now) else Some s1);
             Some (s2, fired + f) })"

primrec ticks :: "nat \<Rightarrow> nat \<Rightarrow> wheel \<times> nat \<Rightarrow> (wheel \<times> nat) option" where
  "ticks 0 now x = Some x"
| "ticks (Suc k) now x = Option.bind (tick_once now x) (ticks k now)"

definition advance :: "nat \<Rightarrow> wheel \<Rightarrow> (wheel \<times> nat) option" where
  "advance now s =
     (let target = now div TICK_NS
      in if SLOTS \<le> target - now_tick s
         then do { (s1, f1) \<leftarrow> refile_all now (s\<lparr>now_tick := target\<rparr>);
                   (s2, f2) \<leftarrow> expire_bucket (0, now_tick s1 mod SLOTS) now s1;
                   Some (s2\<lparr>nearest_dirty := True\<rparr>, f1 + f2) }
         else do { (s1, f1) \<leftarrow> ticks (target - now_tick s) now (s, 0);
                   (s2, f2) \<leftarrow> expire_bucket (0, now_tick s1 mod SLOTS) now s1;
                   Some (if 0 < f1 + f2 then s2\<lparr>nearest_dirty := True\<rparr> else s2, f1 + f2) })"

definition take_fired :: "wheel \<Rightarrow> wheel \<times> (timer \<times> u64) option" where
  "take_fired s =
     (let i = fired_head s
      in if i = NIL then (s, None)
         else case wnode s i of None \<Rightarrow> (s, None)
              | Some n \<Rightarrow>
                  (free_node i (s\<lparr>fired_head := tnext n, fired_pending := fired_pending s - 1\<rparr>),
                   Some (\<lparr> t_index = i, t_generation = tgen n \<rparr>, ttag n)))"

text \<open>
  The checker. A list is walked for at most one step more than there are nodes; \<open>None\<close> is its answer false
  for a cycle or a link to no node.
\<close>

fun walk :: "wheel \<Rightarrow> nat \<Rightarrow> nat \<Rightarrow> tnode list option" where
  "walk s fuel i =
     (if i = NIL then Some []
      else case fuel of 0 \<Rightarrow> None
           | Suc f \<Rightarrow> (case wnode s i of None \<Rightarrow> None | Some n \<Rightarrow> map_option (Cons n) (walk s f (tnext n))))"

definition linked_of :: "wheel \<Rightarrow> nat list \<Rightarrow> nat option" where
  "linked_of s hs = foldr (\<lambda>h r. do { k \<leftarrow> r; ns \<leftarrow> walk s (whw s + 1) h; Some (k + length (filter (\<lambda>n. tstat n = TArmed) ns)) }) hs (Some 0)"

definition all_buckets :: "(nat \<times> nat) list" where
  "all_buckets = concat (map (\<lambda>l. map (Pair l) [0..<SLOTS]) [0..<LEVELS])"

definition wheel_invariant_holds :: "wheel \<Rightarrow> bool" where
  "wheel_invariant_holds s \<longleftrightarrow>
     (let ns = take (whw s) (contents (wnodes s)); am = filter (\<lambda>n. tstat n = TArmed) ns
      in length am = armed s \<and> length (filter (\<lambda>n. tstat n = TFired) ns) = fired_pending s \<and>
         linked_of s (map (heads s) all_buckets @ [overflow s]) = Some (length am) \<and>
         (case walk s (whw s + 1) (fired_head s) of None \<Rightarrow> False
          | Some fs \<Rightarrow> list_all (\<lambda>n. tstat n = TFired) fs \<and> sorted (map deadline_ns fs) \<and> length fs = fired_pending s) \<and>
         (nearest_dirty s \<or> am = [] \<or> nearest s \<le> Min (set (map deadline_ns am))))"

declare walk.simps [simp del]

section \<open>Linked lists\<close>

text \<open>
  \<open>dls g p h xs t\<close>: from \<open>h\<close>, the nodes \<open>xs\<close> are linked forwards and backwards, \<open>p\<close> comes before and \<open>t\<close> after.
  \<open>sls\<close> is the same for forward links only.
\<close>

fun dls :: "(nat \<Rightarrow> tnode option) \<Rightarrow> nat \<Rightarrow> nat \<Rightarrow> nat list \<Rightarrow> nat \<Rightarrow> bool" where
  "dls g p h [] t \<longleftrightarrow> h = t"
| "dls g p h (x # xs) t \<longleftrightarrow> h = x \<and> (case g x of None \<Rightarrow> False | Some n \<Rightarrow> tprev n = p \<and> dls g x (tnext n) xs t)"

fun sls :: "(nat \<Rightarrow> tnode option) \<Rightarrow> nat \<Rightarrow> nat list \<Rightarrow> nat \<Rightarrow> bool" where
  "sls g h [] t \<longleftrightarrow> h = t"
| "sls g h (x # xs) t \<longleftrightarrow> h = x \<and> (case g x of None \<Rightarrow> False | Some n \<Rightarrow> sls g (tnext n) xs t)"

lemma dls_frame: "(\<And>x. x \<in> set xs \<Longrightarrow> g' x = g x) \<Longrightarrow> dls g' p h xs t \<longleftrightarrow> dls g p h xs t"
  by (induction xs arbitrary: p h) (auto split: option.splits)

lemma sls_frame: "(\<And>x. x \<in> set xs \<Longrightarrow> g' x = g x) \<Longrightarrow> sls g' h xs t \<longleftrightarrow> sls g h xs t"
  by (induction xs arbitrary: h) (auto split: option.splits)

lemma dls_frameI: "dls g p h xs t \<Longrightarrow> (\<And>x. x \<in> set xs \<Longrightarrow> g' x = g x) \<Longrightarrow> dls g' p h xs t"
  using dls_frame [of xs g' g p h t] by blast

lemma sls_frameI: "sls g h xs t \<Longrightarrow> (\<And>x. x \<in> set xs \<Longrightarrow> g' x = g x) \<Longrightarrow> sls g' h xs t"
  using sls_frame [of xs g' g h t] by blast

lemma dls_append: "dls g p h (xs @ ys) t \<longleftrightarrow> (\<exists>m. dls g p h xs m \<and> dls g (if xs = [] then p else last xs) m ys t)"
  by (induction xs arbitrary: p h) (auto split: option.splits)

lemma sls_append: "sls g h (xs @ ys) t \<longleftrightarrow> (\<exists>m. sls g h xs m \<and> sls g m ys t)"
  by (induction xs arbitrary: h) (auto split: option.splits)

lemma dls_sls: "dls g p h xs t \<Longrightarrow> sls g h xs t"
  by (induction xs arbitrary: p h) (auto split: option.splits)

text \<open>Changing where the last node of a segment points to.\<close>

lemma dls_retarget:
  assumes "dls g p h xs t" and "distinct xs" and "xs \<noteq> []" and "g (last xs) = Some n"
  shows "dls (g(last xs \<mapsto> n\<lparr>tnext := t'\<rparr>)) p h xs t'"
  using assms
proof (induction xs arbitrary: p h)
  case Nil
  then show ?case by simp
next
  case (Cons x xs)
  show ?case
  proof (cases "xs = []")
    case True
    then show ?thesis using Cons.prems by (auto split: option.splits)
  next
    case False
    then obtain m where m: "g x = Some m" "h = x" "tprev m = p" "dls g x (tnext m) xs t" using Cons.prems(1) by (auto split: option.splits)
    have "last xs \<noteq> x" using Cons.prems(2) False by auto
    with Cons.IH [OF m(4)] Cons.prems False m show ?thesis by auto
  qed
qed

lemma sls_retarget:
  assumes "sls g h xs t" and "distinct xs" and "xs \<noteq> []" and "g (last xs) = Some n"
  shows "sls (g(last xs \<mapsto> n\<lparr>tnext := t'\<rparr>)) h xs t'"
  using assms
proof (induction xs arbitrary: h)
  case Nil
  then show ?case by simp
next
  case (Cons x xs)
  show ?case
  proof (cases "xs = []")
    case True
    then show ?thesis using Cons.prems by (auto split: option.splits)
  next
    case False
    then obtain m where m: "g x = Some m" "h = x" "sls g (tnext m) xs t" using Cons.prems(1) by (auto split: option.splits)
    have "last xs \<noteq> x" using Cons.prems(2) False by auto
    with Cons.IH [OF m(3)] Cons.prems False m show ?thesis by auto
  qed
qed

lemma dls_reprev:
  assumes "dls g p h (x # xs) t" and "x \<notin> set xs" and "g x = Some n"
  shows "dls (g(x \<mapsto> n\<lparr>tprev := p'\<rparr>)) p' h (x # xs) t"
proof -
  have "dls (g(x \<mapsto> n\<lparr>tprev := p'\<rparr>)) x (tnext n) xs t \<longleftrightarrow> dls g x (tnext n) xs t" by (rule dls_frame) (use assms(2) in auto)
  then show ?thesis using assms by simp
qed

lemma dls_cons: "dls g p h (x # xs) t \<longleftrightarrow> h = x \<and> (\<exists>n. g x = Some n \<and> tprev n = p \<and> dls g x (tnext n) xs t)"
  by (auto split: option.splits)

section \<open>The wlists of a wheel\<close>

definition bucket_ok :: "bucket \<Rightarrow> bool" where
  "bucket_ok b = (case b of None \<Rightarrow> True | Some (l, k) \<Rightarrow> l < LEVELS \<and> k < SLOTS)"

definition stat_is :: "(nat \<Rightarrow> tnode option) \<Rightarrow> tstate \<Rightarrow> nat \<Rightarrow> bool" where
  "stat_is g st i \<longleftrightarrow> (\<exists>n. g i = Some n \<and> tstat n = st)"

definition dl :: "(nat \<Rightarrow> tnode option) \<Rightarrow> nat \<Rightarrow> nat" where
  "dl g i = (case g i of Some n \<Rightarrow> deadline_ns n | None \<Rightarrow> 0)"

definition bucket_list :: "(nat \<Rightarrow> tnode option) \<Rightarrow> nat \<Rightarrow> bucket \<Rightarrow> nat list \<Rightarrow> bool" where
  "bucket_list g h b xs \<longleftrightarrow> dls g NIL h xs NIL \<and> distinct xs \<and> (xs \<noteq> [] \<longrightarrow> bucket_ok b) \<and> (\<forall>i \<in> set xs. stat_is g TArmed i)"

definition fired_list :: "(nat \<Rightarrow> tnode option) \<Rightarrow> nat \<Rightarrow> nat list \<Rightarrow> bool" where
  "fired_list g h xs \<longleftrightarrow> sls g h xs NIL \<and> distinct xs \<and> (\<forall>i \<in> set xs. stat_is g TFired i) \<and> sorted (map (dl g) xs)"

definition free_list :: "(nat \<Rightarrow> tnode option) \<Rightarrow> nat \<Rightarrow> nat list \<Rightarrow> bool" where
  "free_list g h xs \<longleftrightarrow> sls g h xs NIL \<and> distinct xs \<and> (\<forall>i \<in> set xs. stat_is g TFree i)"

text \<open>
  Every node below \<open>hw\<close> is in exactly one list, or in \<open>P\<close>, the nodes detached for the moment.
\<close>

definition wlists :: "(nat \<Rightarrow> tnode option) \<Rightarrow> (bucket \<Rightarrow> nat) \<Rightarrow> nat \<Rightarrow> nat \<Rightarrow> nat \<Rightarrow>
  nat set \<Rightarrow> (bucket \<Rightarrow> nat list) \<Rightarrow> nat list \<Rightarrow> nat list \<Rightarrow> bool" where
  "wlists g hf fh fr hw P L F R \<longleftrightarrow>
     (\<forall>b. bucket_list g (hf b) b (L b)) \<and> fired_list g fh F \<and> free_list g fr R \<and>
     (\<forall>b b' x. x \<in> set (L b) \<longrightarrow> x \<in> set (L b') \<longrightarrow> b = b') \<and>
     (\<forall>b x. x \<in> set (L b) \<longrightarrow> x \<notin> set F \<and> x \<notin> set R \<and> x \<notin> P) \<and>
     (\<forall>x. x \<in> set F \<longrightarrow> x \<notin> set R \<and> x \<notin> P) \<and> (\<forall>x. x \<in> set R \<longrightarrow> x \<notin> P) \<and>
     (\<forall>x. x < hw \<longleftrightarrow> (\<exists>b. x \<in> set (L b)) \<or> x \<in> set F \<or> x \<in> set R \<or> x \<in> P)"

lemma wlistsD:
  assumes "wlists g hf fh fr hw P L F R"
  shows "bucket_list g (hf b) b (L b)" "fired_list g fh F" "free_list g fr R"
    "x \<in> set (L b) \<Longrightarrow> x \<in> set (L b') \<Longrightarrow> b = b'" "x \<in> set (L b) \<Longrightarrow> x \<notin> set F \<and> x \<notin> set R \<and> x \<notin> P"
    "x \<in> set F \<Longrightarrow> x \<notin> set R \<and> x \<notin> P" "x \<in> set R \<Longrightarrow> x \<notin> P"
    "x < hw \<longleftrightarrow> (\<exists>b. x \<in> set (L b)) \<or> x \<in> set F \<or> x \<in> set R \<or> x \<in> P"
proof -
  note a = assms [unfolded wlists_def, THEN conjunct1] assms [unfolded wlists_def, THEN conjunct2]
  note b = a(2) [THEN conjunct2] note c = b [THEN conjunct2] note d = c [THEN conjunct2] note e = d [THEN conjunct2]
  note f = e [THEN conjunct2]
  show "bucket_list g (hf b) b (L b)" by (rule a(1) [rule_format])
  show "fired_list g fh F" by (rule a(2) [THEN conjunct1])
  show "free_list g fr R" by (rule b [THEN conjunct1])
  show "x \<in> set (L b) \<Longrightarrow> x \<in> set (L b') \<Longrightarrow> b = b'" by (rule c [THEN conjunct1, rule_format])
  show "x \<in> set (L b) \<Longrightarrow> x \<notin> set F \<and> x \<notin> set R \<and> x \<notin> P" using d [THEN conjunct1] by blast
  show "x \<in> set F \<Longrightarrow> x \<notin> set R \<and> x \<notin> P" using e [THEN conjunct1] by blast
  show "x \<in> set R \<Longrightarrow> x \<notin> P" using f [THEN conjunct1] by blast
  show "x < hw \<longleftrightarrow> (\<exists>b. x \<in> set (L b)) \<or> x \<in> set F \<or> x \<in> set R \<or> x \<in> P" by (rule f [THEN conjunct2, rule_format])
qed

lemma wlistsI:
  assumes "\<And>b. bucket_list g (hf b) b (L b)" and "fired_list g fh F" and "free_list g fr R"
    and "\<And>b b' x. x \<in> set (L b) \<Longrightarrow> x \<in> set (L b') \<Longrightarrow> b = b'"
    and "\<And>b x. x \<in> set (L b) \<Longrightarrow> x \<notin> set F \<and> x \<notin> set R \<and> x \<notin> P"
    and "\<And>x. x \<in> set F \<Longrightarrow> x \<notin> set R \<and> x \<notin> P" and "\<And>x. x \<in> set R \<Longrightarrow> x \<notin> P"
    and "\<And>x. x < hw \<longleftrightarrow> (\<exists>b. x \<in> set (L b)) \<or> x \<in> set F \<or> x \<in> set R \<or> x \<in> P"
  shows "wlists g hf fh fr hw P L F R"
  unfolding wlists_def by (intro conjI allI impI) (use assms in \<open>simp_all\<close>)

lemma bucket_list_frame: "(\<And>x. x \<in> set xs \<Longrightarrow> g' x = g x) \<Longrightarrow> bucket_list g h b xs \<Longrightarrow> bucket_list g' h b xs"
  using dls_frame [of xs g' g NIL h NIL] by (auto simp: bucket_list_def stat_is_def)

lemma fired_list_frame: "(\<And>x. x \<in> set xs \<Longrightarrow> g' x = g x) \<Longrightarrow> fired_list g h xs \<Longrightarrow> fired_list g' h xs"
proof -
  assume eq: "\<And>x. x \<in> set xs \<Longrightarrow> g' x = g x" and fl: "fired_list g h xs"
  have "map (dl g') xs = map (dl g) xs" by (rule map_cong [OF refl]) (simp add: eq dl_def)
  moreover have "sls g' h xs NIL" using fl sls_frame [of xs g' g h NIL] eq by (simp add: fired_list_def)
  moreover have "stat_is g' TFired i" if "i \<in> set xs" for i using fl eq that by (simp add: fired_list_def stat_is_def)
  ultimately show ?thesis using fl unfolding fired_list_def by metis
qed

lemma free_list_frame: "(\<And>x. x \<in> set xs \<Longrightarrow> g' x = g x) \<Longrightarrow> free_list g h xs \<Longrightarrow> free_list g' h xs"
  using sls_frame [of xs g' g h NIL] by (auto simp: free_list_def stat_is_def)

text \<open>Rebuilding one list from its nodes and the detached ones leaves the others alone.\<close>

lemma wlists_bucket:
  assumes ls: "wlists g hf fh fr hw P L F R" and same: "\<And>x. x \<notin> set (L b) \<Longrightarrow> x \<notin> P \<Longrightarrow> g' x = g x"
    and new: "bucket_list g' h b xs" and move: "\<And>x. x \<in> set xs \<or> x \<in> P' \<longleftrightarrow> x \<in> set (L b) \<or> x \<in> P"
    "\<And>x. x \<in> set xs \<Longrightarrow> x \<notin> P'"
  shows "wlists g' (hf(b := h)) fh fr hw P' (L(b := xs)) F R"
proof -
  note d = wlistsD [OF ls]
  let ?L = "L(b := xs)"
  show ?thesis
  proof (rule wlistsI)
    fix c
    show "bucket_list g' ((hf(b := h)) c) c (?L c)"
    proof (cases "c = b")
      case False
      have "bucket_list g' (hf c) c (L c)"
        by (rule bucket_list_frame [OF same d(1)]) (use d(4) [of _ c b] d(5) [of _ c] False in auto)
      with False show ?thesis by simp
    qed (use new in simp)
  next
    show "fired_list g' fh F" by (rule fired_list_frame [OF same d(2)]) (use d(5,6) in blast)+
    show "free_list g' fr R" by (rule free_list_frame [OF same d(3)]) (use d(5,7) in blast)+
  next
    fix c c' x assume x: "x \<in> set (?L c)" "x \<in> set (?L c')"
    have old: "x \<in> set (L b) \<or> x \<in> P" if "x \<in> set xs" using move(1) [of x] that by blast
    show "c = c'"
      using x old d(4) [of x c c'] d(4) [of x b c] d(4) [of x b c'] d(5) [of x c] d(5) [of x c']
      by (cases "c = b"; cases "c' = b") auto
  next
    fix c x assume x: "x \<in> set (?L c)"
    show "x \<notin> set F \<and> x \<notin> set R \<and> x \<notin> P'"
      using x move(1) [of x] move(2) [of x] d(4) [of x b c] d(5) [of x c] d(5) [of x b] d(6) [of x] d(7) [of x]
      by (cases "c = b") auto
  next
    fix x assume "x \<in> set F"
    then show "x \<notin> set R \<and> x \<notin> P'" using d(6) [of x] d(5) [of x b] move(1) [of x] by blast
  next
    fix x assume "x \<in> set R"
    then show "x \<notin> P'" using d(7) [of x] d(5) [of x b] move(1) [of x] by blast
  next
    fix x
    have "(\<exists>c. x \<in> set (?L c)) \<longleftrightarrow> x \<in> set xs \<or> (\<exists>c. c \<noteq> b \<and> x \<in> set (L c))" by (auto split: if_splits)
    moreover have "(\<exists>c. x \<in> set (L c)) \<longleftrightarrow> x \<in> set (L b) \<or> (\<exists>c. c \<noteq> b \<and> x \<in> set (L c))" by auto
    ultimately show "x < hw \<longleftrightarrow> (\<exists>c. x \<in> set (?L c)) \<or> x \<in> set F \<or> x \<in> set R \<or> x \<in> P'"
      using d(8) [of x] move(1) [of x] by blast
  qed
qed

lemma wlists_fired:
  assumes ls: "wlists g hf fh fr hw P L F R" and same: "\<And>x. x \<notin> set F \<Longrightarrow> x \<notin> P \<Longrightarrow> g' x = g x"
    and new: "fired_list g' h xs" and move: "\<And>x. x \<in> set xs \<or> x \<in> P' \<longleftrightarrow> x \<in> set F \<or> x \<in> P" "\<And>x. x \<in> set xs \<Longrightarrow> x \<notin> P'"
  shows "wlists g' hf h fr hw P' L xs R"
proof -
  note d = wlistsD [OF ls]
  show ?thesis
  proof (rule wlistsI)
    show "bucket_list g' (hf b) b (L b)" for b by (rule bucket_list_frame [OF same d(1)]) (use d(5) in blast)+
    show "free_list g' fr R" by (rule free_list_frame [OF same d(3)]) (use d(6,7) in blast)+
    show "x \<notin> set xs \<and> x \<notin> set R \<and> x \<notin> P'" if "x \<in> set (L b)" for b x using d(5) [OF that] move(1) [of x] by blast
    show "x \<notin> set R \<and> x \<notin> P'" if "x \<in> set xs" for x using move [of x] that d(6,7) [of x] by blast
    show "x \<notin> P'" if "x \<in> set R" for x using move(1) [of x] that d(6,7) [of x] by blast
    show "x < hw \<longleftrightarrow> (\<exists>b. x \<in> set (L b)) \<or> x \<in> set xs \<or> x \<in> set R \<or> x \<in> P'" for x using d(8) [of x] move(1) [of x] by blast
  qed (use new d(4) in blast)+
qed

lemma wlists_free:
  assumes ls: "wlists g hf fh fr hw P L F R" and same: "\<And>x. x \<notin> set R \<Longrightarrow> x \<notin> P \<Longrightarrow> g' x = g x"
    and new: "free_list g' h xs" and move: "\<And>x. x \<in> set xs \<or> x \<in> P' \<longleftrightarrow> x \<in> set R \<or> x \<in> P" "\<And>x. x \<in> set xs \<Longrightarrow> x \<notin> P'"
  shows "wlists g' hf fh h hw P' L F xs"
proof -
  note d = wlistsD [OF ls]
  show ?thesis
  proof (rule wlistsI)
    show "bucket_list g' (hf b) b (L b)" for b by (rule bucket_list_frame [OF same d(1)]) (use d(5) in blast)+
    show "fired_list g' fh F" by (rule fired_list_frame [OF same d(2)]) (use d(6) in blast)+
    show "x \<notin> set F \<and> x \<notin> set xs \<and> x \<notin> P'" if "x \<in> set (L b)" for b x using d(5) [OF that] move(1) [of x] by blast
    show "x \<notin> set xs \<and> x \<notin> P'" if "x \<in> set F" for x using move(1) [of x] that d(6) [of x] by blast
    show "x \<notin> P'" if "x \<in> set xs" for x using move(2) that by blast
    show "x < hw \<longleftrightarrow> (\<exists>b. x \<in> set (L b)) \<or> x \<in> set F \<or> x \<in> set xs \<or> x \<in> P'" for x using d(8) [of x] move(1) [of x] by blast
  qed (use new d(4) in blast)+
qed

lemma wlists_detached:
  assumes "wlists g hf fh fr hw P L F R" and "\<And>x. x \<notin> P \<Longrightarrow> g' x = g x"
  shows "wlists g' hf fh fr hw P L F R"
proof -
  have "free_list g' fr R" by (rule free_list_frame [OF assms(2) wlistsD(3) [OF assms(1)]]) (use wlistsD(7) [OF assms(1)] in blast)
  from wlists_free [OF assms(1) _ this, of P] show ?thesis using assms(2) wlistsD(7) [OF assms(1)] by blast
qed

lemma wlists_grow:
  assumes ls: "wlists g hf fh fr hw P L F R" and same: "\<And>x. x < hw \<Longrightarrow> g' x = g x"
  shows "wlists g' hf fh fr (Suc hw) (insert hw P) L F R"
proof -
  note d = wlistsD [OF ls]
  have nhw: "hw \<notin> set (L b)" "hw \<notin> set F" "hw \<notin> set R" for b using d(8) [of hw] by blast+
  show ?thesis
  proof (rule wlistsI)
    show "bucket_list g' (hf b) b (L b)" for b by (rule bucket_list_frame [OF same d(1)]) (use d(8) in blast)
    show "fired_list g' fh F" by (rule fired_list_frame [OF same d(2)]) (use d(8) in blast)
    show "free_list g' fr R" by (rule free_list_frame [OF same d(3)]) (use d(8) in blast)
    show "x \<notin> set F \<and> x \<notin> set R \<and> x \<notin> insert hw P" if "x \<in> set (L b)" for b x using d(5) [OF that] nhw(1) that by blast
    show "x \<notin> set R \<and> x \<notin> insert hw P" if "x \<in> set F" for x using d(6) [OF that] nhw(2) that by blast
    show "x \<notin> insert hw P" if "x \<in> set R" for x using d(7) [OF that] nhw(3) that by blast
    show "x < Suc hw \<longleftrightarrow> (\<exists>b. x \<in> set (L b)) \<or> x \<in> set F \<or> x \<in> set R \<or> x \<in> insert hw P" for x
      using d(8) [of x] by (auto simp: less_Suc_eq)
  qed (use d(4) in blast)
qed

section \<open>Nodes of the table\<close>

definition w_tab :: "wheel \<Rightarrow> bool" where
  "w_tab s \<longleftrightarrow> km_inv (wmem s) \<and> funded_inv node_ty (wmem s) (wnodes s) \<and> whw s \<le> cap (wnodes s)"

text \<open>What of a node is not a link, and the control fields of a wheel.\<close>

definition tcore :: "tnode \<Rightarrow> nat \<times> u32 \<times> tstate \<times> u64" where
  "tcore n = (deadline_ns n, tgen n, tstat n, ttag n)"

definition vw :: "wheel \<Rightarrow> nat \<Rightarrow> (nat \<times> u32 \<times> tstate \<times> u64) option" where
  "vw s i = map_option tcore (wnode s i)"

definition ctl :: "wheel \<Rightarrow> nat \<times> nat \<times> nat \<times> bool" where
  "ctl s = (now_tick s, whw s, nearest s, nearest_dirty s)"

definition cnt :: "wheel \<Rightarrow> nat \<times> nat" where
  "cnt s = (armed s, fired_pending s)"

lemma node_ty_page: "elems_per_page node_ty = 128"
  by (simp add: elems_per_page_def node_ty_def FRAME_SIZE_def)

lemma cap_less_NIL: "funded_inv node_ty k t \<Longrightarrow> cap t < NIL"
  using tab_invD(4) [OF funded_invD(1), of node_ty k t] funded_invD(2) [of node_ty k t]
  by (simp add: node_ty_page NIL_def INLINE_PAGES_def PTRS_PER_DIR_def FRAME_SIZE_def)

lemma w_tabD:
  assumes "w_tab s"
  shows "km_inv (wmem s)" "funded_inv node_ty (wmem s) (wnodes s)" "whw s \<le> cap (wnodes s)" "whw s < NIL"
    "length (contents (wnodes s)) = cap (wnodes s)"
  using assms cap_less_NIL [of "wmem s" "wnodes s"] length_contents [of node_ty "wmem s" "wnodes s"] by (auto simp: w_tab_def)

lemma wnode_NIL [simp]: "wnode s NIL = None"
  by (simp add: wnode_def)

lemma wnode_some: "w_tab s \<Longrightarrow> i < whw s \<Longrightarrow> \<exists>n. wnode s i = Some n"
  using w_tabD(3-5) [of s] by (auto simp: wnode_def nth_opt_def)

lemma wnode_nth: "w_tab s \<Longrightarrow> i < whw s \<Longrightarrow> wnode s i = Some (contents (wnodes s) ! i)"
  using w_tabD(3-5) [of s] by (auto simp: wnode_def nth_opt_def)

lemma set_wnode_fields [simp]:
  "wmem (set_wnode i n s) = wmem s" "heads (set_wnode i n s) = heads s" "overflow (set_wnode i n s) = overflow s"
  "fired_head (set_wnode i n s) = fired_head s" "whw (set_wnode i n s) = whw s" "wfree (set_wnode i n s) = wfree s"
  "now_tick (set_wnode i n s) = now_tick s" "nearest (set_wnode i n s) = nearest s"
  "nearest_dirty (set_wnode i n s) = nearest_dirty s" "armed (set_wnode i n s) = armed s"
  "fired_pending (set_wnode i n s) = fired_pending s"
  by (auto simp: set_wnode_def split: option.splits)

lemma upd_node_fields [simp]:
  "wmem (upd_node i f s) = wmem s" "heads (upd_node i f s) = heads s" "overflow (upd_node i f s) = overflow s"
  "fired_head (upd_node i f s) = fired_head s" "whw (upd_node i f s) = whw s" "wfree (upd_node i f s) = wfree s"
  "now_tick (upd_node i f s) = now_tick s" "nearest (upd_node i f s) = nearest s"
  "nearest_dirty (upd_node i f s) = nearest_dirty s" "armed (upd_node i f s) = armed s"
  "fired_pending (upd_node i f s) = fired_pending s"
  by (auto simp: upd_node_def split: option.splits)

lemma set_head_fields [simp]:
  "wmem (set_head b v s) = wmem s" "wnodes (set_head b v s) = wnodes s"
  "fired_head (set_head b v s) = fired_head s" "whw (set_head b v s) = whw s" "wfree (set_head b v s) = wfree s"
  "now_tick (set_head b v s) = now_tick s" "nearest (set_head b v s) = nearest s"
  "nearest_dirty (set_head b v s) = nearest_dirty s" "armed (set_head b v s) = armed s"
  "fired_pending (set_head b v s) = fired_pending s"
  by (auto simp: set_head_def split: option.splits)

lemma head_of_set_head [simp]: "head_of (set_head b v s) = (head_of s)(b := v)"
  by (auto simp: set_head_def head_of_def fun_eq_iff split: option.splits)

lemma head_of_cong: "heads s' = heads s \<Longrightarrow> overflow s' = overflow s \<Longrightarrow> head_of s' = head_of s"
  by (auto simp: head_of_def fun_eq_iff split: option.splits)

lemma head_of_node [simp]: "head_of (set_wnode i n s) = head_of s" "head_of (upd_node i f s) = head_of s"
  by (rule head_of_cong; simp)+

lemma wnode_cong: "wnodes s' = wnodes s \<Longrightarrow> wnode s' = wnode s"
  by (auto simp: wnode_def)

lemma wnode_upd [simp]:
  "wnode (s\<lparr>wmem := x0\<rparr>) = wnode s" "wnode (s\<lparr>overflow := x1\<rparr>) = wnode s" "wnode (s\<lparr>heads := x2\<rparr>) = wnode s"
  "wnode (s\<lparr>fired_head := x3\<rparr>) = wnode s" "wnode (s\<lparr>whw := x4\<rparr>) = wnode s" "wnode (s\<lparr>wfree := x5\<rparr>) = wnode s"
  "wnode (s\<lparr>now_tick := x6\<rparr>) = wnode s" "wnode (s\<lparr>nearest := x7\<rparr>) = wnode s" "wnode (s\<lparr>nearest_dirty := x8\<rparr>) = wnode s"
  "wnode (s\<lparr>armed := x9\<rparr>) = wnode s" "wnode (s\<lparr>fired_pending := x10\<rparr>) = wnode s" "wnode (s\<lparr>arms := x11\<rparr>) = wnode s"
  "wnode (s\<lparr>cancels := x12\<rparr>) = wnode s" "wnode (s\<lparr>firings := x13\<rparr>) = wnode s" "wnode (s\<lparr>cascades := x14\<rparr>) = wnode s"
  by (simp_all add: wnode_def fun_eq_iff)

lemma head_of_upd [simp]:
  "head_of (s\<lparr>wmem := x0\<rparr>) = head_of s" "head_of (s\<lparr>fired_head := x1\<rparr>) = head_of s" "head_of (s\<lparr>whw := x2\<rparr>) = head_of s"
  "head_of (s\<lparr>wfree := x3\<rparr>) = head_of s" "head_of (s\<lparr>now_tick := x4\<rparr>) = head_of s" "head_of (s\<lparr>nearest := x5\<rparr>) = head_of s"
  "head_of (s\<lparr>nearest_dirty := x6\<rparr>) = head_of s" "head_of (s\<lparr>armed := x7\<rparr>) = head_of s" "head_of (s\<lparr>fired_pending := x8\<rparr>) = head_of s"
  "head_of (s\<lparr>arms := x9\<rparr>) = head_of s" "head_of (s\<lparr>cancels := x10\<rparr>) = head_of s" "head_of (s\<lparr>firings := x11\<rparr>) = head_of s"
  "head_of (s\<lparr>cascades := x12\<rparr>) = head_of s"
  by (simp_all add: head_of_def fun_eq_iff split: option.split)

lemma wnode_set_head [simp]: "wnode (set_head b v s) = wnode s"
  by (rule wnode_cong) simp

lemma w_tab_cong: "wmem s' = wmem s \<Longrightarrow> wnodes s' = wnodes s \<Longrightarrow> whw s' = whw s \<Longrightarrow> w_tab s' = w_tab s"
  by (simp add: w_tab_def)

lemma w_tab_set_head [simp]: "w_tab (set_head b v s) = w_tab s"
  by (rule w_tab_cong) simp_all

lemma set_wnode_view:
  assumes "w_tab s" and "i < whw s"
  shows "wnode (set_wnode i n s) = (wnode s)(i \<mapsto> n)" "w_tab (set_wnode i n s)"
proof -
  note t = w_tabD [OF assms(1)]
  from funded_set_inv [OF t(2), of i n] obtain t' where
    t': "funded_set node_ty i n (wnodes s) = Some (t', i < cap (wnodes s))" "funded_inv node_ty (wmem s) t'"
      "contents t' = (contents (wnodes s))[i := n]" "cap t' = cap (wnodes s)" by blast
  have eq: "set_wnode i n s = s\<lparr>wnodes := t'\<rparr>" using t' assms(2) t(4) by (simp add: set_wnode_def)
  have "i < cap (wnodes s)" "i \<noteq> NIL" using assms(2) t(3,4) by auto
  then show "wnode (set_wnode i n s) = (wnode s)(i \<mapsto> n)"
    using t(5) by (auto simp: eq wnode_def t'(3) nth_opt_def fun_eq_iff)
  show "w_tab (set_wnode i n s)" using t t' by (simp add: eq w_tab_def)
qed

lemma upd_node_NIL [simp]: "upd_node NIL f s = s"
  by (simp add: upd_node_def)

lemma upd_node_view:
  assumes "w_tab s" and "i < whw s" and "wnode s i = Some n"
  shows "wnode (upd_node i f s) = (wnode s)(i \<mapsto> f n)" "w_tab (upd_node i f s)"
  using set_wnode_view [OF assms(1,2), of "f n"] assms(3) by (simp_all add: upd_node_def)

lemma vw_upd: "wnode s' = (wnode s)(i \<mapsto> n') \<Longrightarrow> wnode s i = Some n \<Longrightarrow> tcore n' = tcore n \<Longrightarrow> vw s' = vw s"
  by (auto simp: vw_def fun_eq_iff)

lemma vw_fields [simp]:
  "vw (s\<lparr>wmem := x0\<rparr>) = vw s" "vw (s\<lparr>overflow := x1\<rparr>) = vw s" "vw (s\<lparr>heads := x2\<rparr>) = vw s"
  "vw (s\<lparr>fired_head := x3\<rparr>) = vw s" "vw (s\<lparr>whw := x4\<rparr>) = vw s" "vw (s\<lparr>wfree := x5\<rparr>) = vw s"
  "vw (s\<lparr>now_tick := x6\<rparr>) = vw s" "vw (s\<lparr>nearest := x7\<rparr>) = vw s" "vw (s\<lparr>nearest_dirty := x8\<rparr>) = vw s"
  "vw (s\<lparr>armed := x9\<rparr>) = vw s" "vw (s\<lparr>fired_pending := x10\<rparr>) = vw s" "vw (s\<lparr>arms := x11\<rparr>) = vw s"
  "vw (s\<lparr>cancels := x12\<rparr>) = vw s" "vw (s\<lparr>firings := x13\<rparr>) = vw s" "vw (s\<lparr>cascades := x14\<rparr>) = vw s"
  by (simp_all add: vw_def fun_eq_iff)

lemma stat_is_vw: "stat_is (wnode s) st i \<longleftrightarrow> (\<exists>d gn tg. vw s i = Some (d, gn, st, tg))"
  by (auto simp: stat_is_def vw_def tcore_def)

lemma dl_vw: "dl (wnode s) i = (case vw s i of Some x \<Rightarrow> fst x | None \<Rightarrow> 0)"
  by (auto simp: dl_def vw_def tcore_def split: option.splits)

lemma stat_is_cong: "vw s' i = vw s i \<Longrightarrow> stat_is (wnode s') st i = stat_is (wnode s) st i"
  by (simp add: stat_is_vw)

lemma dl_cong: "vw s' i = vw s i \<Longrightarrow> dl (wnode s') i = dl (wnode s) i"
  by (simp add: dl_vw)

section \<open>The lists of a wheel\<close>

definition wcore :: "wheel \<Rightarrow> nat set \<Rightarrow> (bucket \<Rightarrow> nat list) \<Rightarrow> nat list \<Rightarrow> nat list \<Rightarrow> bool" where
  "wcore s P L F R \<longleftrightarrow> w_tab s \<and> wlists (wnode s) (head_of s) (fired_head s) (wfree s) (whw s) P L F R"

definition first :: "nat list \<Rightarrow> nat" where
  "first xs = (case xs of [] \<Rightarrow> NIL | x # _ \<Rightarrow> x)"

lemma first_simps [simp]: "first [] = NIL" "first (x # xs) = x"
  by (simp_all add: first_def)

lemma dls_first: "dls g p h xs NIL \<Longrightarrow> h = first xs"
  by (cases xs) auto

lemma sls_first: "sls g h xs NIL \<Longrightarrow> h = first xs"
  by (cases xs) auto

lemma wcoreD:
  assumes "wcore s P L F R"
  shows "w_tab s" "wlists (wnode s) (head_of s) (fired_head s) (wfree s) (whw s) P L F R"
  using assms by (simp_all add: wcore_def)

lemma wcore_members:
  assumes "wcore s P L F R"
  shows "x \<in> set (L b) \<Longrightarrow> x < whw s" "x \<in> set F \<Longrightarrow> x < whw s" "x \<in> set R \<Longrightarrow> x < whw s" "x \<in> P \<Longrightarrow> x < whw s"
  using wlistsD(8) [OF wcoreD(2) [OF assms], of x] by blast+

lemma wcore_bucket:
  assumes "wcore s P L F R"
  shows "dls (wnode s) NIL (head_of s b) (L b) NIL" "distinct (L b)" "L b \<noteq> [] \<Longrightarrow> bucket_ok b"
    "x \<in> set (L b) \<Longrightarrow> stat_is (wnode s) TArmed x" "head_of s b = first (L b)"
  using wlistsD(1) [OF wcoreD(2) [OF assms], of b] dls_first by (auto simp: bucket_list_def)

lemma wcore_node:
  assumes "wcore s P L F R" and "x \<in> set (L b) \<or> x \<in> set F \<or> x \<in> set R \<or> x \<in> P"
  shows "\<exists>n. wnode s x = Some n"
  using wnode_some [OF wcoreD(1) [OF assms(1)], of x] wcore_members [OF assms(1)] assms(2) by blast

lemma link_spec:
  assumes w: "wcore s P L F R" and i: "i \<in> P" and st: "stat_is (wnode s) TArmed i" and b: "bucket_ok b"
  shows "wcore (link i b s) (P - {i}) (L(b := i # L b)) F R" "vw (link i b s) = vw s" "ctl (link i b s) = ctl s"
    "cnt (link i b s) = cnt s" "j \<in> P \<Longrightarrow> j \<noteq> i \<Longrightarrow> wnode (link i b s) j = wnode s j"
    "wfree (link i b s) = wfree s" "fired_head (link i b s) = fired_head s"
proof -
  note d = wcoreD [OF w] and bk = wcore_bucket [OF w, where b = b] and mem = wcore_members [OF w]
  note ls = wlistsD [OF d(2)]
  obtain n where n: "wnode s i = Some n" using wcore_node [OF w] i by blast
  let ?h = "head_of s b"
  define s1 where "s1 = upd_node i (\<lambda>n. n\<lparr>tnext := ?h, tprev := NIL\<rparr>) s"
  define s2 where "s2 = upd_node ?h (\<lambda>n. n\<lparr>tprev := i\<rparr>) s1"
  have lk: "link i b s = set_head b i s2" by (simp add: link_def s1_def s2_def Let_def)
  have iL: "i \<notin> set (L b)" using ls(5) i by blast
  note v1 = upd_node_view [OF d(1) mem(4) [OF i] n, of "\<lambda>n. n\<lparr>tnext := ?h, tprev := NIL\<rparr>", folded s1_def]
  have "w_tab s2 \<and> vw s2 = vw s \<and> dls (wnode s2) NIL i (i # L b) NIL \<and> (\<forall>x. x \<noteq> i \<longrightarrow> x \<notin> set (L b) \<longrightarrow> wnode s2 x = wnode s x)"
  proof (cases "L b")
    case Nil
    then have "s2 = s1" using bk(5) by (simp add: s2_def)
    moreover have "vw s1 = vw s" by (rule vw_upd [OF v1(1) n]) (simp add: tcore_def)
    ultimately show ?thesis using v1 Nil bk(5) by simp
  next
    case (Cons x xs)
    then have h: "?h = x" and x: "x < whw s" "x \<noteq> i" using bk(5) mem(1) [of x b] iL by auto
    obtain m where m: "wnode s x = Some m" using wnode_some [OF d(1) x(1)] by blast
    then have m1: "wnode s1 x = Some m" using v1(1) x(2) by simp
    have x1: "x < whw s1" using x(1) by (simp add: s1_def)
    note v2 = upd_node_view [OF v1(2) x1 m1, of "\<lambda>n. n\<lparr>tprev := i\<rparr>", folded s2_def [unfolded h]]
    have "vw s1 = vw s" by (rule vw_upd [OF v1(1) n]) (simp add: tcore_def)
    moreover have "vw s2 = vw s1" by (rule vw_upd [OF v2(1) m1]) (simp add: tcore_def)
    moreover have "dls (wnode s2) i x (L b) NIL"
    proof -
      have "dls ((wnode s)(x \<mapsto> m\<lparr>tprev := i\<rparr>)) i x (x # xs) NIL"
        by (rule dls_reprev [OF bk(1) [unfolded Cons h] _ m]) (use bk(2) Cons in simp)
      moreover have "wnode s2 y = ((wnode s)(x \<mapsto> m\<lparr>tprev := i\<rparr>)) y" if "y \<in> set (x # xs)" for y
        using that iL Cons by (auto simp: v2(1) v1(1))
      ultimately show ?thesis using dls_frame [of "x # xs" "wnode s2" "(wnode s)(x \<mapsto> m\<lparr>tprev := i\<rparr>)" i x NIL]
        unfolding Cons by metis
    qed
    ultimately show ?thesis using v1(1) v2 x h Cons by auto
  qed
  then have s2: "w_tab s2" "vw s2 = vw s" "dls (wnode s2) NIL i (i # L b) NIL"
    "\<And>x. x \<noteq> i \<Longrightarrow> x \<notin> set (L b) \<Longrightarrow> wnode s2 x = wnode s x" by blast+
  have f2: "head_of s2 = head_of s" "fired_head s2 = fired_head s" "wfree s2 = wfree s" "whw s2 = whw s" "ctl s2 = ctl s" "cnt s2 = cnt s"
    by (simp_all add: s2_def s1_def ctl_def cnt_def)
  have stat: "stat_is (wnode s2) TArmed x" if "x \<in> set (i # L b)" for x
    using that st bk(4) [of x] stat_is_cong [of s2 x s TArmed] s2(2) by auto
  have new: "bucket_list (wnode s2) i b (i # L b)"
    unfolding bucket_list_def using s2(3) bk(2) iL b stat by simp
  have "wlists (wnode s2) ((head_of s)(b := i)) (fired_head s) (wfree s) (whw s) (P - {i}) (L(b := i # L b)) F R"
  proof (rule wlists_bucket [OF d(2) _ new])
    show "wnode s2 x = wnode s x" if "x \<notin> set (L b)" "x \<notin> P" for x using that s2(4) [of x] i by auto
  qed (use iL i ls(5) in auto)
  then show "wcore (link i b s) (P - {i}) (L(b := i # L b)) F R" using s2(1) f2 by (simp add: wcore_def lk)
  show "vw (link i b s) = vw s" using s2(2) by (simp add: lk vw_def fun_eq_iff)
  show "ctl (link i b s) = ctl s" "cnt (link i b s) = cnt s" "wfree (link i b s) = wfree s" "fired_head (link i b s) = fired_head s"
    using f2 by (simp_all add: lk ctl_def cnt_def)
  show "j \<in> P \<Longrightarrow> j \<noteq> i \<Longrightarrow> wnode (link i b s) j = wnode s j" using s2(4) ls(5) [of j b] by (auto simp: lk)
qed

text \<open>Only the bucket's own head points at its first node.\<close>

lemma head_unique:
  assumes w: "wcore s P L F R" and "L b = i # xs" and "head_of s c = i"
  shows "c = b"
proof -
  have "i < NIL" using wcore_members(1) [OF w, of i b] assms(2) w_tabD(4) [OF wcoreD(1) [OF w]] by simp
  then have "i \<in> set (L c)" using wcore_bucket(5) [OF w, of c] assms(3) by (cases "L c") auto
  then show ?thesis using wlistsD(4) [OF wcoreD(2) [OF w], of i c b] assms(2) by simp
qed

lemma all_buckets_ok: "x \<in> set all_buckets \<longleftrightarrow> bucket_ok (Some x)"
  by (cases x) (auto simp: all_buckets_def bucket_ok_def image_iff)

lemma unhead_spec:
  assumes w: "wcore s P L F R" and b: "L b = i # xs"
  shows "unhead i d nx s = set_head b nx s"
proof -
  note u = head_unique [OF w b]
  have h: "head_of s b = i" using wcore_bucket(5) [OF w, of b] b by simp
  have over: "overflow s = i \<longleftrightarrow> b = None" using u [of None] h by (auto simp: head_of_def)
  have rep: "repoint_head i nx s = set_head b nx s"
  proof (cases b)
    case None
    have "find (\<lambda>x. heads s x = i) all_buckets = None" using u [of "Some _"] None by (auto simp: find_None_iff head_of_def)
    then show ?thesis using None over by (simp add: repoint_head_def set_head_def flip: all_buckets_def)
  next
    case (Some x)
    have "x \<in> set all_buckets" using wcore_bucket(3) [OF w, of b] b Some by (simp add: all_buckets_ok)
    moreover have "heads s x = i" using h Some by (simp add: head_of_def)
    ultimately obtain y where y: "find (\<lambda>x. heads s x = i) all_buckets = Some y"
      using find_None_iff [of "\<lambda>x. heads s x = i" all_buckets] by blast
    then have "heads s y = i" by (auto simp: find_Some_iff)
    then have yb: "b = Some y" using u [of "Some y"] by (simp add: head_of_def)
    show ?thesis using y unfolding yb by (simp add: repoint_head_def flip: all_buckets_def)
  qed
  let ?loc = "locate (now_tick s) (d div TICK_NS)"
  have "set_head ?loc nx s = set_head b nx s" if "head_of s ?loc = i" using u [OF that] by simp
  then show ?thesis using rep over by (simp add: unhead_def Let_def set_head_def)
qed

text \<open>
  Taking a node out of a doubly linked list: what points to it from before, what points to it from behind, and its own
  links. \<open>quiet\<close>: nothing but links and heads changes.
\<close>

definition quiet :: "wheel \<Rightarrow> wheel \<Rightarrow> bool" where
  "quiet s s' \<longleftrightarrow> w_tab s' \<and> vw s' = vw s \<and> ctl s' = ctl s \<and> cnt s' = cnt s \<and> wfree s' = wfree s \<and> fired_head s' = fired_head s"

lemma quiet_refl: "w_tab s \<Longrightarrow> quiet s s"
  by (simp add: quiet_def)

lemma quiet_trans: "quiet s t \<Longrightarrow> quiet t u \<Longrightarrow> quiet s u"
  by (simp add: quiet_def)

lemma quietD:
  assumes "quiet s s'"
  shows "w_tab s'" "vw s' = vw s" "ctl s' = ctl s" "cnt s' = cnt s" "wfree s' = wfree s" "fired_head s' = fired_head s"
    "whw s' = whw s" "now_tick s' = now_tick s"
  using assms by (simp_all add: quiet_def ctl_def)

lemma quiet_head: "w_tab s \<Longrightarrow> quiet s (set_head b v s)"
  by (simp add: quiet_def ctl_def cnt_def vw_def fun_eq_iff)

lemma quiet_upd:
  assumes "w_tab s" and "i < whw s" and "wnode s i = Some n" and "tcore (f n) = tcore n"
  shows "quiet s (upd_node i f s)" "wnode (upd_node i f s) = (wnode s)(i \<mapsto> f n)"
  using upd_node_view [OF assms(1-3), of f] vw_upd [OF upd_node_view(1) [OF assms(1-3), of f] assms(3,4)]
  by (simp_all add: quiet_def ctl_def cnt_def)

definition unlink_before :: "nat \<Rightarrow> tnode \<Rightarrow> wheel \<Rightarrow> wheel" where
  "unlink_before i n s = (case wnode s (tprev n) of Some q \<Rightarrow> set_wnode (tprev n) (q\<lparr>tnext := tnext n\<rparr>) s
     | None \<Rightarrow> unhead i (deadline_ns n) (tnext n) s)"

lemma unlink_before_spec:
  assumes t: "w_tab s" and dls: "dls (wnode s) NIL (head_of s b) xs i" and dist: "distinct xs"
    and mem: "\<And>x. x \<in> set xs \<Longrightarrow> x < whw s" and unh: "xs = [] \<Longrightarrow> unhead i (deadline_ns n) (tnext n) s = set_head b (tnext n) s"
    and p: "tprev n = (if xs = [] then NIL else last xs)"
  shows "quiet s (unlink_before i n s)" "x \<notin> set xs \<Longrightarrow> wnode (unlink_before i n s) x = wnode s x"
    "dls (wnode (unlink_before i n s)) NIL (head_of (unlink_before i n s) b) xs (tnext n)"
    "c \<noteq> b \<Longrightarrow> head_of (unlink_before i n s) c = head_of s c"
proof -
  let ?s = "unlink_before i n s"
  have "quiet s ?s \<and> (\<forall>x. x \<notin> set xs \<longrightarrow> wnode ?s x = wnode s x) \<and> dls (wnode ?s) NIL (head_of ?s b) xs (tnext n) \<and>
    (\<forall>c. c \<noteq> b \<longrightarrow> head_of ?s c = head_of s c)"
  proof (cases "xs = []")
    case True
    then have "?s = set_head b (tnext n) s" using p unh by (simp add: unlink_before_def)
    then show ?thesis using True quiet_head [OF t] by simp
  next
    case False
    have last: "last xs < whw s" using mem False by simp
    obtain q where q: "wnode s (last xs) = Some q" using wnode_some [OF t last] by blast
    have eq: "?s = upd_node (last xs) (\<lambda>q. q\<lparr>tnext := tnext n\<rparr>) s" using p False q by (simp add: unlink_before_def upd_node_def)
    from quiet_upd [OF t last q, of "\<lambda>q. q\<lparr>tnext := tnext n\<rparr>"] dls_retarget [OF dls dist False q, of "tnext n"] False
    show ?thesis by (auto simp: eq tcore_def)
  qed
  then show "quiet s ?s" "x \<notin> set xs \<Longrightarrow> wnode ?s x = wnode s x" "dls (wnode ?s) NIL (head_of ?s b) xs (tnext n)"
    "c \<noteq> b \<Longrightarrow> head_of ?s c = head_of s c" by blast+
qed

lemma unlink_after:
  assumes t: "w_tab s" and fwd: "dls (wnode s) NIL h xs nx" and bwd: "dls (wnode s) i nx ys NIL" and dist: "distinct (xs @ ys)"
    and mem: "\<And>x. x \<in> set ys \<Longrightarrow> x < whw s" and p: "p = (if xs = [] then NIL else last xs)"
  shows "quiet s (upd_node nx (\<lambda>m. m\<lparr>tprev := p\<rparr>) s)" "x \<notin> set ys \<Longrightarrow> wnode (upd_node nx (\<lambda>m. m\<lparr>tprev := p\<rparr>) s) x = wnode s x"
    "dls (wnode (upd_node nx (\<lambda>m. m\<lparr>tprev := p\<rparr>) s)) NIL h (xs @ ys) NIL"
proof -
  let ?s = "upd_node nx (\<lambda>m. m\<lparr>tprev := p\<rparr>) s"
  have "quiet s ?s \<and> (\<forall>x. x \<notin> set ys \<longrightarrow> wnode ?s x = wnode s x) \<and> dls (wnode ?s) NIL h (xs @ ys) NIL"
  proof (cases ys)
    case Nil
    then have "nx = NIL" using dls_first [OF bwd] by simp
    then show ?thesis using quiet_refl [OF t] fwd Nil by simp
  next
    case (Cons y zs)
    then have nx: "nx = y" "y < whw s" using dls_first [OF bwd] mem by auto
    obtain m where m: "wnode s y = Some m" using wnode_some [OF t nx(2)] by blast
    have q: "quiet s ?s" "wnode ?s = (wnode s)(y \<mapsto> m\<lparr>tprev := p\<rparr>)"
      using quiet_upd [OF t nx(2) m, of "\<lambda>m. m\<lparr>tprev := p\<rparr>"] nx by (simp_all add: tcore_def)
    have "dls (wnode ?s) NIL h xs nx" by (rule dls_frameI [OF fwd]) (use dist Cons in \<open>auto simp: q(2)\<close>)
    moreover have "dls (wnode ?s) p nx ys NIL"
      unfolding q(2) Cons by (rule dls_reprev [OF bwd [unfolded Cons] _ m]) (use dist Cons in simp)
    ultimately have "dls (wnode ?s) NIL h (xs @ ys) NIL" unfolding dls_append p by blast
    with q show ?thesis by (auto simp: Cons)
  qed
  then show "quiet s ?s" "x \<notin> set ys \<Longrightarrow> wnode ?s x = wnode s x" "dls (wnode ?s) NIL h (xs @ ys) NIL" by blast+
qed

lemma unlink_links:
  assumes t: "w_tab s" and dls: "dls (wnode s) NIL (head_of s b) (xs @ i # ys) NIL" and dist: "distinct (xs @ i # ys)"
    and mem: "\<And>x. x \<in> set (xs @ i # ys) \<Longrightarrow> x < whw s" and unh: "\<And>d nx. xs = [] \<Longrightarrow> unhead i d nx s = set_head b nx s"
  shows "quiet s (unlink i s)" "x \<notin> set (xs @ i # ys) \<Longrightarrow> wnode (unlink i s) x = wnode s x"
    "dls (wnode (unlink i s)) NIL (head_of (unlink i s) b) (xs @ ys) NIL" "c \<noteq> b \<Longrightarrow> head_of (unlink i s) c = head_of s c"
proof -
  let ?p = "if xs = [] then NIL else last xs"
  from dls obtain n where n: "wnode s i = Some n" "tprev n = ?p" "dls (wnode s) i (tnext n) ys NIL" "dls (wnode s) NIL (head_of s b) xs i"
    unfolding dls_append dls_cons by blast
  define s1 where "s1 = unlink_before i n s"
  define s2 where "s2 = upd_node (tnext n) (\<lambda>m. m\<lparr>tprev := ?p\<rparr>) s1"
  have u: "unlink i s = upd_node i (\<lambda>m. m\<lparr>tnext := NIL, tprev := NIL\<rparr>) s2"
    unfolding s2_def s1_def unlink_before_def n(2) [symmetric] by (simp add: unlink_def n(1) Let_def)
  have dxs: "distinct xs" and mxs: "\<And>x. x \<in> set xs \<Longrightarrow> x < whw s" using dist mem by auto
  note b1 = unlink_before_spec [OF t n(4) dxs mxs unh n(2), folded s1_def]
  note q1 = quietD [OF b1(1)]
  have "dls (wnode s1) i (tnext n) ys NIL" by (rule dls_frameI [OF n(3)], rule b1(2)) (use dist in auto)
  from unlink_after [OF q1(1) b1(3) this _ _ refl, folded s2_def] dist mem q1(7)
  have b2: "quiet s1 s2" "\<And>x. x \<notin> set ys \<Longrightarrow> wnode s2 x = wnode s1 x" "dls (wnode s2) NIL (head_of s1 b) (xs @ ys) NIL" by auto
  note q2 = quietD [OF b2(1)]
  have i: "i < whw s2" "wnode s2 i = Some n" using mem [of i] q1 q2 b1(2) [of i] b2(2) [of i] n(1) dist by auto
  note b3 = quiet_upd [OF q2(1) i, of "\<lambda>m. m\<lparr>tnext := NIL, tprev := NIL\<rparr>", folded u]
  have q3: "quiet s2 (unlink i s)" by (rule b3(1)) (simp add: tcore_def)
  show "quiet s (unlink i s)" using quiet_trans [OF quiet_trans [OF b1(1) b2(1)] q3] .
  have w3: "wnode (unlink i s) = (wnode s2)(i \<mapsto> n\<lparr>tnext := NIL, tprev := NIL\<rparr>)" by (rule b3(2)) (simp add: tcore_def)
  have h3: "head_of (unlink i s) = head_of s1" by (simp add: u s2_def)
  show "x \<notin> set (xs @ i # ys) \<Longrightarrow> wnode (unlink i s) x = wnode s x" using b1(2) [of x] b2(2) [of x] w3 by simp
  show "c \<noteq> b \<Longrightarrow> head_of (unlink i s) c = head_of s c" using b1(4) h3 by simp
  have "wnode (unlink i s) x = wnode s2 x" if "x \<in> set (xs @ ys)" for x using that dist w3 by auto
  from dls_frameI [OF b2(3) this] show "dls (wnode (unlink i s)) NIL (head_of (unlink i s) b) (xs @ ys) NIL" by (simp add: h3)
qed

lemma wcore_next:
  assumes w: "wcore s P L F R" and b: "L b = xs @ i # ys"
  shows "\<exists>n. wnode s i = Some n \<and> tnext n = first ys \<and> tstat n = TArmed"
proof -
  obtain n where "wnode s i = Some n" "dls (wnode s) i (tnext n) ys NIL"
    using wcore_bucket(1) [OF w, of b] unfolding b dls_append dls_cons by blast
  with dls_first [of "wnode s" i "tnext n" ys] wcore_bucket(4) [OF w, of i b] b show ?thesis by (auto simp: stat_is_def)
qed

lemma unlink_spec:
  assumes w: "wcore s P L F R" and b: "L b = xs @ i # ys"
  shows "wcore (unlink i s) (insert i P) (L(b := xs @ ys)) F R" "quiet s (unlink i s)" "j \<in> P \<Longrightarrow> wnode (unlink i s) j = wnode s j"
proof -
  note d = wcoreD [OF w] and bk = wcore_bucket [OF w, where b = b] and ls = wlistsD [OF wcoreD(2) [OF w]]
  have mem: "x < whw s" if "x \<in> set (xs @ i # ys)" for x using wcore_members(1) [OF w, of x b] that b by simp
  have unh: "unhead i dd nx s = set_head b nx s" if "xs = []" for dd nx using unhead_spec [OF w, of b i ys] b that by simp
  note u = unlink_links [OF d(1) bk(1) [unfolded b] bk(2) [unfolded b] mem unh]
  note q = quietD [OF u(1)]
  have new: "bucket_list (wnode (unlink i s)) (head_of (unlink i s) b) b (xs @ ys)"
    unfolding bucket_list_def using u(3) bk(2-4) stat_is_cong [of "unlink i s" _ s TArmed] q(2) by (auto simp: b)
  have "wlists (wnode (unlink i s)) ((head_of s)(b := head_of (unlink i s) b)) (fired_head s) (wfree s) (whw s) (insert i P) (L(b := xs @ ys)) F R"
    by (rule wlists_bucket [OF d(2) _ new]) (use u(2) bk(2) b ls(5) [of _ b] in auto)
  moreover have "(head_of s)(b := head_of (unlink i s) b) = head_of (unlink i s)" using u(4) by (auto simp: fun_eq_iff)
  ultimately show "wcore (unlink i s) (insert i P) (L(b := xs @ ys)) F R" using q by (simp add: wcore_def)
  show "quiet s (unlink i s)" by (rule u(1))
  have "j \<in> P \<Longrightarrow> j \<notin> set (xs @ i # ys)" using ls(5) [of j b] b by auto
  then show "j \<in> P \<Longrightarrow> wnode (unlink i s) j = wnode s j" using u(2) [of j] by simp
qed

section \<open>The fired list\<close>

lemma wcore_fired:
  assumes "wcore s P L F R"
  shows "sls (wnode s) (fired_head s) F NIL" "distinct F" "x \<in> set F \<Longrightarrow> stat_is (wnode s) TFired x" "sorted (map (dl (wnode s)) F)"
    "fired_head s = first F"
  using wlistsD(2) [OF wcoreD(2) [OF assms]] sls_first by (auto simp: fired_list_def)

lemma fired_spot_spec:
  assumes "sls (wnode s) cur ys NIL" and "\<And>y. y \<in> set ys \<Longrightarrow> y < NIL"
  shows "\<exists>ys1 ys2. ys = ys1 @ ys2 \<and> fired_spot s d prev cur = Some (if ys1 = [] then prev else last ys1, first ys2) \<and>
    (\<forall>y \<in> set ys1. dl (wnode s) y \<le> d) \<and> (ys2 \<noteq> [] \<longrightarrow> d < dl (wnode s) (first ys2))"
  using assms
proof (induction ys arbitrary: prev cur)
  case Nil
  then show ?case by (subst fired_spot.simps) simp
next
  case (Cons y ys)
  then obtain n where n: "wnode s y = Some n" "cur = y" "sls (wnode s) (tnext n) ys NIL" by (auto split: option.splits)
  have y: "y \<noteq> NIL" using Cons.prems(2) [of y] by simp
  show ?case
  proof (cases "d < deadline_ns n")
    case True
    have "fired_spot s d prev cur = Some (prev, cur)" by (subst fired_spot.simps) (use n y True in simp)
    then show ?thesis using n True by (intro exI [of _ "[]"] exI [of _ "y # ys"]) (simp add: dl_def)
  next
    case False
    have eq: "fired_spot s d prev cur = fired_spot s d y (tnext n)" by (subst fired_spot.simps) (use n y False in simp)
    from Cons.IH [OF n(3), of y] Cons.prems(2) obtain ys1 ys2 where
      "ys = ys1 @ ys2" "fired_spot s d y (tnext n) = Some (if ys1 = [] then y else last ys1, first ys2)"
      "\<forall>y \<in> set ys1. dl (wnode s) y \<le> d" "ys2 \<noteq> [] \<longrightarrow> d < dl (wnode s) (first ys2)" by auto
    with eq False n show ?thesis by (intro exI [of _ "y # ys1"] exI [of _ ys2]) (simp add: dl_def)
  qed
qed

lemma sorted_insert_at:
  assumes "sorted (ys1 @ ys2)" and "\<forall>y \<in> set ys1. y \<le> d" and "ys2 \<noteq> [] \<Longrightarrow> d < hd ys2"
  shows "sorted (ys1 @ d # ys2)"
  using assms by (cases ys2) (auto simp: sorted_append)

text \<open>A node that is linked in by forward links between two parts of a list.\<close>

lemma sls_insert:
  assumes sls: "sls g h (ys1 @ ys2) NIL" and dist: "distinct (ys1 @ ys2)" and i: "i \<notin> set (ys1 @ ys2)"
    and gi: "g' i = Some n" "tnext n = first ys2" and same: "\<And>x. x \<noteq> i \<Longrightarrow> ys1 = [] \<or> x \<noteq> last ys1 \<Longrightarrow> g' x = g x"
    and prev: "ys1 \<noteq> [] \<Longrightarrow> \<exists>m. g (last ys1) = Some m \<and> g' (last ys1) = Some (m\<lparr>tnext := i\<rparr>)"
  shows "sls g' (if ys1 = [] then i else h) (ys1 @ i # ys2) NIL"
proof -
  from sls obtain m where m: "sls g h ys1 m" "sls g m ys2 NIL" unfolding sls_append by blast
  have "ys1 \<noteq> [] \<Longrightarrow> last ys1 \<notin> set ys2" using dist last_in_set [of ys1] by (metis disjoint_iff distinct_append)
  then have "sls g' m ys2 NIL" by (intro sls_frameI [OF m(2)] same) (use i in auto)
  then have tl: "sls g' i (i # ys2) NIL" using gi sls_first [OF m(2)] by simp
  show ?thesis
  proof (cases "ys1 = []")
    case False
    then obtain l where l: "g (last ys1) = Some l" "g' (last ys1) = Some (l\<lparr>tnext := i\<rparr>)" using prev by blast
    have "sls (g(last ys1 \<mapsto> l\<lparr>tnext := i\<rparr>)) h ys1 i" by (rule sls_retarget [OF m(1) _ False l(1)]) (use dist in simp)
    then have "sls g' h ys1 i"
    proof (rule sls_frameI)
      fix x assume "x \<in> set ys1"
      then have "x \<noteq> i" using i by auto
      then show "g' x = (g(last ys1 \<mapsto> l\<lparr>tnext := i\<rparr>)) x" using same [of x] l by auto
    qed
    then show ?thesis using tl False unfolding sls_append by auto
  qed (use tl in simp)
qed

definition fire :: "nat \<times> u32 \<times> tstate \<times> u64 \<Rightarrow> nat \<times> u32 \<times> tstate \<times> u64" where
  "fire = (\<lambda>(d, gn, _, tg). (d, gn, TFired, tg))"

lemma push_fired_links:
  assumes w: "wcore s P L F R" and i: "i \<in> P" and n: "wnode s i = Some n"
  shows "\<exists>s3 F'. wcore s3 (P - {i}) L F' R \<and> vw s3 = (vw s)(i \<mapsto> fire (tcore n)) \<and> ctl s3 = ctl s \<and> cnt s3 = cnt s \<and>
    wfree s3 = wfree s \<and> set F' = insert i (set F) \<and> (\<forall>j \<in> P - {i}. wnode s3 j = wnode s j) \<and>
    push_fired i s = do { a \<leftarrow> dec (armed s3); Some (s3\<lparr>armed := a, fired_pending := fired_pending s3 + 1, firings := firings s3 + 1\<rparr>) }"
proof -
  note d = wcoreD [OF w] and f = wcore_fired [OF w] and mem = wcore_members [OF w] and ls = wlistsD [OF wcoreD(2) [OF w]]
  note i' = mem(4) [OF i]
  have NIL: "whw s < NIL" by (rule w_tabD(4) [OF d(1)])
  have iF: "i \<notin> set F" using ls(6) i by blast
  define s1 where "s1 = set_wnode i (n\<lparr>tstat := TFired, tprev := NIL, tnext := NIL\<rparr>) s"
  note v1 = set_wnode_view [OF d(1) i', of "n\<lparr>tstat := TFired, tprev := NIL, tnext := NIL\<rparr>", folded s1_def]
  have "sls (wnode s1) (fired_head s1) F NIL" unfolding s1_def set_wnode_fields by (rule sls_frameI [OF f(1)]) (use iF v1(1) in \<open>auto simp: s1_def\<close>)
  moreover have "y < NIL" if "y \<in> set F" for y using mem(2) [OF that] NIL by simp
  ultimately obtain ys1 ys2 where F: "F = ys1 @ ys2"
    and sp: "fired_spot s1 (deadline_ns n) NIL (fired_head s1) = Some (if ys1 = [] then NIL else last ys1, first ys2)"
    and ord: "\<forall>y \<in> set ys1. dl (wnode s1) y \<le> deadline_ns n" "ys2 \<noteq> [] \<longrightarrow> deadline_ns n < dl (wnode s1) (first ys2)"
    using fired_spot_spec [of s1 "fired_head s1" F "deadline_ns n" NIL] by blast
  define s2 where "s2 = upd_node i (\<lambda>m. m\<lparr>tnext := first ys2\<rparr>) s1"
  have i1: "i < whw s1" "wnode s1 i = Some (n\<lparr>tstat := TFired, tprev := NIL, tnext := NIL\<rparr>)" using i' v1(1) by (simp_all add: s1_def)
  note v2 = upd_node_view [OF v1(2) i1, of "\<lambda>m. m\<lparr>tnext := first ys2\<rparr>", folded s2_def]
  define s3 where "s3 = (if ys1 = [] then s2\<lparr>fired_head := i\<rparr> else upd_node (last ys1) (\<lambda>m. m\<lparr>tnext := i\<rparr>) s2)"
  have g2: "wnode s2 = (wnode s)(i \<mapsto> n\<lparr>tstat := TFired, tprev := NIL, tnext := first ys2\<rparr>)" by (simp add: v2(1) v1(1))
  have g3: "w_tab s3 \<and> wnode s3 i = wnode s2 i \<and> (\<forall>x. x \<noteq> i \<longrightarrow> ys1 = [] \<or> x \<noteq> last ys1 \<longrightarrow> wnode s3 x = wnode s x) \<and>
    (ys1 \<noteq> [] \<longrightarrow> (\<exists>m. wnode s (last ys1) = Some m \<and> wnode s3 (last ys1) = Some (m\<lparr>tnext := i\<rparr>)))"
  proof (cases "ys1 = []")
    case True
    have "w_tab s3" using v2(2) w_tab_cong [of s3 s2] True by (simp add: s3_def)
    moreover have "wnode s3 = wnode s2" by (rule wnode_cong) (simp add: s3_def True)
    ultimately show ?thesis using True g2 by simp
  next
    case False
    then have l: "last ys1 < whw s2" "last ys1 \<noteq> i" using mem(2) [of "last ys1"] iF F by (auto simp: s2_def s1_def)
    obtain m where m: "wnode s2 (last ys1) = Some m" using wnode_some [OF v2(2) l(1)] by blast
    note v3 = upd_node_view [OF v2(2) l(1) m, of "\<lambda>m. m\<lparr>tnext := i\<rparr>"]
    have "s3 = upd_node (last ys1) (\<lambda>m. m\<lparr>tnext := i\<rparr>) s2" using False by (simp add: s3_def)
    then show ?thesis using v3 l m False g2 by auto
  qed
  have same3: "wnode s3 x = wnode s x" if "x \<notin> set F" "x \<noteq> i" for x
    using g3 that F last_in_set [of ys1] by (cases "ys1 = []") auto
  have vw3: "vw s3 = (vw s)(i \<mapsto> fire (tcore n))"
  proof (rule ext)
    fix x
    show "vw s3 x = ((vw s)(i \<mapsto> fire (tcore n))) x"
    proof (cases "x = i")
      case True
      then show ?thesis using g3 g2 by (simp add: vw_def fire_def tcore_def)
    next
      case False
      then show ?thesis using g3 by (cases "ys1 \<noteq> [] \<and> x = last ys1") (auto simp: vw_def tcore_def)
    qed
  qed
  have dls: "dl (wnode s3) = dl (wnode s)" using vw3 n by (auto simp: fun_eq_iff dl_vw vw_def fire_def tcore_def)
  have dl1: "dl (wnode s1) x = dl (wnode s) x" for x using n by (auto simp: dl_def v1(1))
  have h3: "fired_head s3 = (if ys1 = [] then i else fired_head s)" by (simp add: s3_def s2_def s1_def)
  have "fired_list (wnode s3) (fired_head s3) (ys1 @ i # ys2)"
    unfolding fired_list_def
  proof (intro conjI ballI)
    show "sls (wnode s3) (fired_head s3) (ys1 @ i # ys2) NIL" unfolding h3
      by (rule sls_insert [OF f(1) [unfolded F] f(2) [unfolded F]]) (use g3 g2 iF F in auto)
    show "distinct (ys1 @ i # ys2)" using f(2) iF F by auto
    show "stat_is (wnode s3) TFired x" if "x \<in> set (ys1 @ i # ys2)" for x
      using that f(3) [of x] vw3 by (auto simp: stat_is_vw fire_def F split: prod.splits)
    have "ys2 \<noteq> [] \<Longrightarrow> deadline_ns n < hd (map (dl (wnode s)) ys2)" using ord(2) dl1 by (cases ys2) auto
    then have "sorted (map (dl (wnode s)) ys1 @ deadline_ns n # map (dl (wnode s)) ys2)"
      using f(4) ord(1) dl1 F by (intro sorted_insert_at) auto
    moreover have "dl (wnode s) i = deadline_ns n" by (simp add: dl_def n)
    ultimately show "sorted (map (dl (wnode s3)) (ys1 @ i # ys2))" using dls by simp
  qed
  moreover have f3: "head_of s3 = head_of s" "wfree s3 = wfree s" "whw s3 = whw s" "ctl s3 = ctl s" "cnt s3 = cnt s"
    by (simp_all add: s3_def s2_def s1_def ctl_def cnt_def fun_eq_iff head_of_def split: option.split)
  ultimately have "wlists (wnode s3) (head_of s3) (fired_head s3) (wfree s3) (whw s3) (P - {i}) L (ys1 @ i # ys2) R"
    unfolding f3(1-3)
  proof (intro wlists_fired [OF d(2)])
    show "wnode s3 x = wnode s x" if "x \<notin> set F" "x \<notin> P" for x using same3 [OF that(1)] that(2) i by blast
  qed (use i ls(6) in \<open>auto simp: F\<close>)
  moreover have "wnode s3 j = wnode s j" if "j \<in> P - {i}" for j by (rule same3) (use that ls(6) in auto)
  moreover have "push_fired i s = do { a \<leftarrow> dec (armed s3); Some (s3\<lparr>armed := a, fired_pending := fired_pending s3 + 1, firings := firings s3 + 1\<rparr>) }"
  proof -
    have "last ys1 \<noteq> NIL" if "ys1 \<noteq> []" using mem(2) [of "last ys1"] that NIL F by auto
    then show ?thesis using sp unfolding s3_def s2_def by (simp add: push_fired_def n Let_def flip: s1_def)
  qed
  ultimately show ?thesis using vw3 f3 g3 F by (intro exI [of _ s3] exI [of _ "ys1 @ i # ys2"]) (simp add: wcore_def)
qed

section \<open>Counting and firing\<close>

definition aset :: "wheel \<Rightarrow> nat set" where
  "aset s = {i. i < whw s \<and> stat_is (wnode s) TArmed i}"

definition fset_of :: "wheel \<Rightarrow> nat set" where
  "fset_of s = {i. i < whw s \<and> stat_is (wnode s) TFired i}"

definition counted :: "wheel \<Rightarrow> bool" where
  "counted s \<longleftrightarrow> armed s = card (aset s) \<and> fired_pending s = card (fset_of s)"

definition wok :: "wheel \<Rightarrow> nat set \<Rightarrow> (bucket \<Rightarrow> nat list) \<Rightarrow> nat list \<Rightarrow> nat list \<Rightarrow> bool" where
  "wok s P L F R \<longleftrightarrow> wcore s P L F R \<and> counted s"

text \<open>
  What an advance to \<open>now\<close> does to the nodes: some armed ones that are due become fired, nothing else. The lists,
  the current tick and the dirty flag apart, nothing else of the wheel changes.
\<close>

definition moved :: "nat \<Rightarrow> wheel \<Rightarrow> wheel \<Rightarrow> bool" where
  "moved now s s' \<longleftrightarrow> whw s' = whw s \<and> nearest s' = nearest s \<and> wfree s' = wfree s \<and>
     (\<forall>i. vw s' i = vw s i \<or> i \<in> aset s \<and> dl (wnode s) i \<le> now \<and> vw s' i = map_option fire (vw s i))"

lemma finite_aset [simp]: "finite (aset s)" "finite (fset_of s)"
  by (simp_all add: aset_def fset_of_def)

lemma aset_cong: "vw s' = vw s \<Longrightarrow> whw s' = whw s \<Longrightarrow> aset s' = aset s \<and> fset_of s' = fset_of s"
  by (simp add: aset_def fset_of_def stat_is_vw)

lemma counted_cong: "vw s' = vw s \<Longrightarrow> whw s' = whw s \<Longrightarrow> cnt s' = cnt s \<Longrightarrow> counted s' = counted s"
  using aset_cong [of s' s] by (simp add: counted_def cnt_def)

lemma quiet_moved: "quiet s s' \<Longrightarrow> moved now s s'"
  by (simp add: quiet_def moved_def ctl_def)

lemma moved_refl: "moved now s s"
  by (simp add: moved_def)

lemma moved_node:
  "moved now s s' \<Longrightarrow> vw s' i = vw s i \<or> i \<in> aset s \<and> dl (wnode s) i \<le> now \<and> vw s' i = map_option fire (vw s i)"
  by (simp add: moved_def)

lemma moved_dl: "moved now s s' \<Longrightarrow> dl (wnode s') i = dl (wnode s) i"
  using moved_node [of now s s' i] by (cases "vw s i") (auto simp: dl_vw fire_def split: prod.splits)

lemma fire_not_armed: "map_option fire x \<noteq> Some (d, gn, TArmed, tg)"
  by (cases x) (auto simp: fire_def split: prod.splits)

lemma moved_armed: "moved now s s' \<Longrightarrow> i \<in> aset s' \<Longrightarrow> vw s' i = vw s i"
  using fire_not_armed [of "vw s i"] moved_node [of now s s' i] by (auto simp: aset_def stat_is_vw)

lemma moved_aset:
  assumes "moved now s s'"
  shows "aset s' \<subseteq> aset s"
proof
  fix i assume i: "i \<in> aset s'"
  then show "i \<in> aset s" using moved_armed [OF assms i] assms by (simp add: aset_def stat_is_vw moved_def)
qed

lemma moved_trans:
  assumes "moved now s t" and "moved now t u"
  shows "moved now s u"
  unfolding moved_def
proof (intro conjI allI)
  fix i
  from assms(2) consider "vw u i = vw t i" | "i \<in> aset t" "dl (wnode t) i \<le> now" "vw u i = map_option fire (vw t i)"
    unfolding moved_def by blast
  then show "vw u i = vw s i \<or> i \<in> aset s \<and> dl (wnode s) i \<le> now \<and> vw u i = map_option fire (vw s i)"
  proof cases
    case 1
    then show ?thesis using assms(1) by (simp add: moved_def)
  next
    case 2
    then show ?thesis using moved_armed [OF assms(1) 2(1)] moved_aset [OF assms(1)] moved_dl [OF assms(1), of i] by auto
  qed
qed (use assms in \<open>simp_all add: moved_def\<close>)

lemma wok_quiet:
  assumes "wok s P L F R" and "quiet s s'" and "wcore s' P' L' F' R'"
  shows "wok s' P' L' F' R'"
  using assms counted_cong [OF quietD(2,7,4) [OF assms(2)]] by (simp add: wok_def)

lemma push_fired_spec:
  assumes w: "wok s P L F R" and i: "i \<in> P" and st: "stat_is (wnode s) TArmed i" and due: "dl (wnode s) i \<le> now"
  shows "\<exists>s' F'. push_fired i s = Some s' \<and> wok s' (P - {i}) L F' R \<and> moved now s s' \<and> ctl s' = ctl s \<and>
    armed s = armed s' + 1 \<and> (\<forall>j \<in> P - {i}. wnode s' j = wnode s j) \<and> aset s' = aset s - {i}"
proof -
  have c: "wcore s P L F R" "counted s" using w by (simp_all add: wok_def)
  obtain n where n: "wnode s i = Some n" "tstat n = TArmed" using st by (auto simp: stat_is_def)
  have ia: "i \<in> aset s" using st wcore_members(4) [OF c(1) i] by (simp add: aset_def)
  from push_fired_links [OF c(1) i n(1)] obtain s3 F' where p: "wcore s3 (P - {i}) L F' R" "vw s3 = (vw s)(i \<mapsto> fire (tcore n))"
    "ctl s3 = ctl s" "cnt s3 = cnt s" "wfree s3 = wfree s" "\<forall>j \<in> P - {i}. wnode s3 j = wnode s j"
    "push_fired i s = do { a \<leftarrow> dec (armed s3); Some (s3\<lparr>armed := a, fired_pending := fired_pending s3 + 1, firings := firings s3 + 1\<rparr>) }"
    by blast
  have "0 < armed s3" using ia c(2) p(4) card_gt_0_iff [of "aset s"] by (auto simp: counted_def cnt_def)
  then have eq: "push_fired i s = Some (s3\<lparr>armed := armed s3 - 1, fired_pending := fired_pending s3 + 1, firings := firings s3 + 1\<rparr>)"
    (is "_ = Some ?s") by (simp add: p(7) dec_def)
  have hw: "whw ?s = whw s" "ctl ?s = ctl s" using p(3) by (simp_all add: ctl_def)
  have a: "aset ?s = aset s - {i}" "fset_of ?s = insert i (fset_of s)"
    using hw ia by (auto simp: aset_def fset_of_def stat_is_vw fire_def tcore_def p(2))
  have "i \<notin> fset_of s" using n by (auto simp: fset_of_def stat_is_def)
  then have "counted ?s" using a c(2) p(4) ia by (simp add: counted_def cnt_def)
  moreover have "wcore ?s (P - {i}) L F' R" using p(1) by (simp add: wcore_def w_tab_def)
  moreover have "moved now s ?s" using hw p(2,3,5) ia due n by (auto simp: moved_def ctl_def vw_def [of s])
  ultimately show ?thesis using eq a hw p(4,6) \<open>0 < armed s3\<close> by (auto simp: wok_def cnt_def)
qed

lemma wokD:
  assumes "wok s P L F R"
  shows "wcore s P L F R" "counted s" "w_tab s" "whw s < NIL"
  using assms w_tabD(4) [of s] by (auto simp: wok_def wcore_def)

lemma expire_step:
  assumes w: "wok s {} L F R" and b: "L b = zs @ x # xs" and due: "dl (wnode s) x \<le> now"
  shows "\<exists>s' F'. push_fired x (unlink x s) = Some s' \<and> wok s' {} (L(b := zs @ xs)) F' R \<and> moved now s s' \<and> ctl s' = ctl s \<and>
    armed s = armed s' + 1"
proof -
  note u = unlink_spec [OF wokD(1) [OF w] b]
  note q = quietD [OF u(2)]
  have st: "stat_is (wnode s) TArmed x" using wcore_bucket(4) [OF wokD(1) [OF w], of x b] b by simp
  have "stat_is (wnode (unlink x s)) TArmed x" "dl (wnode (unlink x s)) x \<le> now"
    using st due stat_is_cong [of "unlink x s" x s] dl_cong [of "unlink x s" x s] q(2) by simp_all
  from push_fired_spec [OF wok_quiet [OF w u(2,1)] _ this] obtain s' F' where
    "push_fired x (unlink x s) = Some s'" "wok s' ({x} - {x}) (L(b := zs @ xs)) F' R" "moved now (unlink x s) s'"
    "ctl s' = ctl (unlink x s)" "armed (unlink x s) = armed s' + 1" by auto
  then show ?thesis using moved_trans [OF quiet_moved [OF u(2)], of now s'] q by (auto simp: cnt_def)
qed

lemma expire_from_spec:
  assumes "wok s {} L F R" and "L b = zs @ xs"
  shows "\<exists>s' F' f. expire_from now s (first xs) k = Some (s', k + f) \<and>
    wok s' {} (L(b := zs @ filter (\<lambda>x. now < dl (wnode s) x) xs)) F' R \<and> moved now s s' \<and> ctl s' = ctl s \<and> armed s = armed s' + f"
  using assms
proof (induction xs arbitrary: s L F zs k)
  case Nil
  have "L(b := zs) = L" using Nil.prems(2) by auto
  then show ?case using Nil moved_refl by (subst expire_from.simps) auto
next
  case (Cons x xs)
  note w = wokD [OF Cons.prems(1)]
  obtain n where n: "wnode s x = Some n" "tnext n = first xs" "tstat n = TArmed" using wcore_next [OF w(1) Cons.prems(2)] by blast
  have x: "x \<noteq> NIL" using wcore_members(1) [OF w(1), of x b] Cons.prems(2) w(4) by simp
  have d: "dl (wnode s) x = deadline_ns n" using n by (simp add: dl_def)
  show ?case
  proof (cases "deadline_ns n \<le> now")
    case True
    from expire_step [OF Cons.prems, of now] True d obtain s1 F1 where 1: "push_fired x (unlink x s) = Some s1" "wok s1 {} (L(b := zs @ xs)) F1 R"
      "moved now s s1" "ctl s1 = ctl s" "armed s = armed s1 + 1" by auto
    have "expire_from now s (first (x # xs)) k = expire_from now s1 (first xs) (k + 1)"
      by (subst expire_from.simps) (use n x True 1(1) in simp)
    moreover have "(L(b := zs @ xs)) b = zs @ xs" by simp
    from Cons.IH [OF 1(2) this, of "k + 1"] obtain s' F' f where 2: "expire_from now s1 (first xs) (k + 1) = Some (s', k + 1 + f)"
      "wok s' {} (L(b := zs @ filter (\<lambda>x. now < dl (wnode s1) x) xs)) F' R" "moved now s1 s'" "ctl s' = ctl s1" "armed s1 = armed s' + f"
      unfolding fun_upd_upd by blast
    moreover have "filter (\<lambda>x. now < dl (wnode s) x) (x # xs) = filter (\<lambda>x. now < dl (wnode s1) x) xs"
      using moved_dl [OF 1(3)] True d by simp
    moreover have "k + 1 + f = k + (1 + f)" "armed s = armed s' + (1 + f)" using 1(5) 2(5) by simp_all
    ultimately show ?thesis using 1(4) 2(2,4) moved_trans [OF 1(3) 2(3)] 2(1) by metis
  next
    case False
    have "expire_from now s (first (x # xs)) k = expire_from now s (first xs) k" by (subst expire_from.simps) (use n x False in simp)
    with Cons.IH [OF Cons.prems(1), of "zs @ [x]" k] Cons.prems(2) False d show ?thesis by simp
  qed
qed

lemma expire_bucket_spec:
  assumes "wok s {} L F R"
  shows "\<exists>s' F' f. expire_bucket b now s = Some (s', f) \<and> wok s' {} (L(Some b := filter (\<lambda>x. now < dl (wnode s) x) (L (Some b)))) F' R \<and>
    moved now s s' \<and> ctl s' = ctl s \<and> armed s = armed s' + f"
proof -
  have "heads s b = first (L (Some b))" using wcore_bucket(5) [OF wokD(1) [OF assms], of "Some b"] by (simp add: head_of_def)
  with expire_from_spec [OF assms, of "Some b" "[]" "L (Some b)" now 0] show ?thesis by (simp add: expire_bucket_def)
qed

section \<open>Filing again\<close>

lemma find_Some_mem: "find Q xs = Some x \<Longrightarrow> x \<in> set xs \<and> Q x"
  by (auto simp: find_Some_iff)

lemma locate_ok: "bucket_ok (locate T dt)"
  by (auto simp: locate_def Let_def bucket_ok_def SLOTS_def split: option.split dest!: find_Some_mem)

text \<open>Where the detached nodes of an advance go: a due one to the fired list, any other one to its bucket.\<close>

definition refiled :: "nat \<Rightarrow> wheel \<Rightarrow> nat set \<Rightarrow> (bucket \<Rightarrow> nat list) \<Rightarrow> (bucket \<Rightarrow> nat list) \<Rightarrow> bool" where
  "refiled now s P L L' \<longleftrightarrow> (\<forall>b i. i \<in> set (L' b) \<longrightarrow>
     i \<in> set (L b) \<or> i \<in> P \<and> now < dl (wnode s) i \<and> b = locate (now_tick s) (dl (wnode s) i div TICK_NS))"

lemma refiled_trans:
  assumes "refiled now s P L L'" and "refiled now t Q L' L''" and "now_tick t = now_tick s" and "\<And>i. dl (wnode t) i = dl (wnode s) i" and "Q \<subseteq> P"
  shows "refiled now s P L L''"
  using assms unfolding refiled_def by (metis subsetD)

lemma refile_spec:
  assumes w: "wok s P L F R" and i: "i \<in> P" and st: "stat_is (wnode s) TArmed i" and n: "deadline_ns n = dl (wnode s) i"
  shows "\<exists>s' L' F'. refile now i n s = Some s' \<and> wok s' (P - {i}) L' F' R \<and> moved now s s' \<and> ctl s' = ctl s \<and>
    refiled now s {i} L L' \<and> (\<forall>j \<in> P - {i}. wnode s' j = wnode s j) \<and>
    armed s = armed s' + (if deadline_ns n \<le> now then 1 else 0)"
proof (cases "deadline_ns n \<le> now")
  case True
  with push_fired_spec [OF w i st, of now] n obtain s' F' where
    "push_fired i s = Some s'" "wok s' (P - {i}) L F' R" "moved now s s'" "ctl s' = ctl s" "armed s = armed s' + 1"
    "\<forall>j \<in> P - {i}. wnode s' j = wnode s j" by auto
  then show ?thesis using True by (intro exI [of _ s'] exI [of _ L] exI [of _ F']) (simp add: refile_def refiled_def)
next
  case False
  let ?b = "locate (now_tick s) (deadline_ns n div TICK_NS)"
  note l = link_spec [OF wokD(1) [OF w] i st locate_ok [of "now_tick s" "deadline_ns n div TICK_NS"]]
  let ?s = "(link i ?b s)\<lparr>cascades := cascades (link i ?b s) + 1\<rparr>"
  have q: "quiet s ?s" using l wcoreD(1) [OF l(1)] by (simp add: quiet_def ctl_def cnt_def w_tab_def)
  have "wcore ?s (P - {i}) (L(?b := i # L ?b)) F R" using l(1) by (simp add: wcore_def w_tab_def)
  from wok_quiet [OF w q this] have "wok ?s (P - {i}) (L(?b := i # L ?b)) F R" .
  moreover have "refiled now s {i} L (L(?b := i # L ?b))" using False n by (auto simp: refiled_def)
  moreover have "refile now i n s = Some ?s" using False by (simp add: refile_def Let_def)
  ultimately show ?thesis using False l(5) quiet_moved [OF q, of now] quietD(3,4) [OF q] by (auto simp: cnt_def)
qed

lemma detach_node:
  assumes w: "wok s P L F R" and x: "x \<in> P"
  shows "wok (upd_node x (\<lambda>m. m\<lparr>tnext := NIL, tprev := NIL\<rparr>) s) P L F R" (is "wok ?s P L F R")
    "quiet s (upd_node x (\<lambda>m. m\<lparr>tnext := NIL, tprev := NIL\<rparr>) s)"
    "j \<noteq> x \<Longrightarrow> wnode (upd_node x (\<lambda>m. m\<lparr>tnext := NIL, tprev := NIL\<rparr>) s) j = wnode s j"
proof -
  note c = wokD [OF w]
  note x' = wcore_members(4) [OF c(1) x]
  obtain n where n: "wnode s x = Some n" using wnode_some [OF c(3) x'] by blast
  note q = quiet_upd [OF c(3) x' n, of "\<lambda>m. m\<lparr>tnext := NIL, tprev := NIL\<rparr>"]
  show j: "j \<noteq> x \<Longrightarrow> wnode ?s j = wnode s j" for j using q(2) by (simp add: tcore_def)
  show quiet: "quiet s ?s" by (rule q(1)) (simp add: tcore_def)
  have "wlists (wnode ?s) (head_of s) (fired_head s) (wfree s) (whw s) P L F R"
    by (rule wlists_detached [OF wcoreD(2) [OF c(1)]], rule j) (use x in auto)
  then have "wcore ?s P L F R" using quietD(1) [OF quiet] by (simp add: wcore_def)
  then show "wok ?s P L F R" by (rule wok_quiet [OF w quiet])
qed

lemma refile_from_spec:
  assumes "wok s (set xs) L F R" and "distinct xs" and "sls (wnode s) i xs NIL" and "\<And>x. x \<in> set xs \<Longrightarrow> stat_is (wnode s) TArmed x"
  shows "\<exists>s' L' F'. refile_from now s i = Some s' \<and> wok s' {} L' F' R \<and> moved now s s' \<and> ctl s' = ctl s \<and> refiled now s (set xs) L L'"
  using assms
proof (induction xs arbitrary: s L F i)
  case Nil
  then show ?case using moved_refl by (subst refile_from.simps) (auto simp: refiled_def)
next
  case (Cons x xs)
  from Cons.prems(3) Cons.prems(4) [of x] obtain n where
    n: "i = x" "wnode s x = Some n" "tstat n = TArmed" "sls (wnode s) (tnext n) xs NIL"
    by (auto simp: stat_is_def split: option.splits)
  define s1 where "s1 = upd_node x (\<lambda>m. m\<lparr>tnext := NIL, tprev := NIL\<rparr>) s"
  have xin: "x \<in> set (x # xs)" by simp
  note d1 = detach_node [OF Cons.prems(1) xin, folded s1_def]
  note q1 = quietD [OF d1(2)]
  have "stat_is (wnode s1) TArmed x" "deadline_ns n = dl (wnode s1) x"
    using n stat_is_cong [of s1 x s TArmed] dl_cong [of s1 x s] q1(2) by (simp_all add: stat_is_def dl_def)
  from refile_spec [OF d1(1) xin this, of now] obtain s2 L2 F2 where 2: "refile now x n s1 = Some s2"
    "wok s2 (set (x # xs) - {x}) L2 F2 R" "moved now s1 s2" "ctl s2 = ctl s1" "refiled now s1 {x} L L2"
    "\<forall>j \<in> set (x # xs) - {x}. wnode s2 j = wnode s1 j" by blast
  have set: "set (x # xs) - {x} = set xs" and xs: "x \<notin> set xs" using Cons.prems(2) by auto
  have same: "wnode s2 j = wnode s j" if "j \<in> set xs" for j using 2(6) d1(3) [of j] that xs by auto
  have sls: "sls (wnode s2) (tnext n) xs NIL" by (rule sls_frameI [OF n(4) same])
  have st: "stat_is (wnode s2) TArmed j" if "j \<in> set xs" for j using same [OF that] Cons.prems(4) [of j] that by (simp add: stat_is_def)
  from Cons.IH [OF 2(2) [unfolded set] _ sls st] Cons.prems(2) obtain s' L' F' where 3: "refile_from now s2 (tnext n) = Some s'"
    "wok s' {} L' F' R" "moved now s2 s'" "ctl s' = ctl s2" "refiled now s2 (set xs) L2 L'" by auto
  have m: "moved now s s2" by (rule moved_trans [OF quiet_moved [OF d1(2)] 2(3)])
  have "refile_from now s i = refile_from now s2 (tnext n)"
    using wcore_members(4) [OF wokD(1) [OF Cons.prems(1)] xin] wokD(4) [OF Cons.prems(1)] n 2(1)
    by (subst refile_from.simps) (simp add: s1_def)
  moreover have "refiled now s (set (x # xs)) L L'"
  proof -
    have "refiled now s (set (x # xs)) L L2" using 2(5) q1 dl_cong [of s1 _ s] by (auto simp: refiled_def)
    then show ?thesis by (rule refiled_trans [OF _ 3(5)]) (use q1(3) 2(4) moved_dl [OF m] in \<open>auto simp: ctl_def\<close>)
  qed
  ultimately show ?case using 2(4) 3 q1(3) moved_trans [OF m 3(3)] by auto
qed

lemma detach_list:
  assumes w: "wok s {} L F R"
  shows "wok (set_head b NIL s) (set (L b)) (L(b := [])) F R"
proof (rule wok_quiet [OF w quiet_head [OF wokD(3) [OF w]]])
  have "bucket_list (wnode s) NIL b []" by (simp add: bucket_list_def)
  from wlists_bucket [OF wcoreD(2) [OF wokD(1) [OF w]] _ this, of "set (L b)"] wokD(3) [OF w]
  show "wcore (set_head b NIL s) (set (L b)) (L(b := [])) F R" by (simp add: wcore_def)
qed

lemma refile_list_spec:
  assumes w: "wok s {} L F R"
  shows "\<exists>s' L' F'. refile_from now (set_head b NIL s) (head_of s b) = Some s' \<and> wok s' {} L' F' R \<and> moved now s s' \<and>
    ctl s' = ctl s \<and> refiled now s (set (L b)) (L(b := [])) L'"
proof -
  note bk = wcore_bucket [OF wokD(1) [OF w], where b = b] and q = quiet_head [OF wokD(3) [OF w], of b NIL]
  have "sls (wnode (set_head b NIL s)) (head_of s b) (L b) NIL" using dls_sls [OF bk(1)] by simp
  from refile_from_spec [OF detach_list [OF w] bk(2) this, of now] bk(4) obtain s' L' F' where
    "refile_from now (set_head b NIL s) (head_of s b) = Some s'" "wok s' {} L' F' R" "moved now (set_head b NIL s) s'"
    "ctl s' = ctl (set_head b NIL s)" "refiled now (set_head b NIL s) (set (L b)) (L(b := [])) L'" by auto
  moreover have "refiled now (set_head b NIL s) A B C = refiled now s A B C" for A B C by (simp add: refiled_def)
  ultimately show ?thesis using moved_trans [OF quiet_moved [OF q]] quietD(3) [OF q] by metis
qed

lemma refile_indices_spec:
  assumes "wok s (aset s \<inter> set xs) L F R" and "distinct xs" and "\<And>x. x \<in> set xs \<Longrightarrow> x < whw s"
  shows "\<exists>s' L' F' f. for_each (refile_index now) xs (s, k) = Some (s', k + f) \<and> wok s' {} L' F' R \<and> moved now s s' \<and>
    ctl s' = ctl s \<and> refiled now s (aset s) L L' \<and> armed s = armed s' + f"
  using assms
proof (induction xs arbitrary: s L F k)
  case Nil
  then show ?case using moved_refl by (auto simp: refiled_def)
next
  case (Cons x xs)
  let ?P = "aset s \<inter> set (x # xs)"
  note c = wokD [OF Cons.prems(1)]
  have x: "x < whw s" "x \<noteq> NIL" "x \<notin> set xs" using Cons.prems(2) Cons.prems(3) [of x] c(4) by auto
  obtain n where n: "wnode s x = Some n" using wnode_some [OF c(3) x(1)] by blast
  then have nth: "nth_opt (contents (wnodes s)) x = Some n" using x(2) by (simp add: wnode_def)
  show ?case
  proof (cases "tstat n = TArmed")
    case False
    then have "?P = aset s \<inter> set xs" using n by (auto simp: aset_def stat_is_def)
    then have "wok s (aset s \<inter> set xs) L F R" using Cons.prems(1) by simp
    from Cons.IH [OF this, of k] Cons.prems(2,3) show ?thesis using nth False by (simp add: refile_index_def)
  next
    case True
    then have xin: "x \<in> ?P" using n x by (simp add: aset_def stat_is_def)
    define s1 where "s1 = upd_node x (\<lambda>m. m\<lparr>tnext := NIL, tprev := NIL\<rparr>) s"
    have s1: "s1 = set_wnode x (n\<lparr>tnext := NIL, tprev := NIL\<rparr>) s" by (simp add: s1_def upd_node_def n)
    note d1 = detach_node [OF Cons.prems(1) xin, folded s1_def]
    note q1 = quietD [OF d1(2)]
    have "stat_is (wnode s1) TArmed x" "deadline_ns n = dl (wnode s1) x"
      using n True stat_is_cong [of s1 x s TArmed] dl_cong [of s1 x s] q1(2) by (simp_all add: stat_is_def dl_def)
    from refile_spec [OF d1(1) xin this, of now] obtain s2 L2 F2 where 2: "refile now x n s1 = Some s2"
      "wok s2 (?P - {x}) L2 F2 R" "moved now s1 s2" "ctl s2 = ctl s1" "refiled now s1 {x} L L2"
      "\<forall>j \<in> ?P - {x}. wnode s2 j = wnode s1 j" "armed s1 = armed s2 + (if deadline_ns n \<le> now then 1 else 0)" by blast
    have m: "moved now s s2" by (rule moved_trans [OF quiet_moved [OF d1(2)] 2(3)])
    have hw: "whw s2 = whw s" using m by (simp add: moved_def)
    have "aset s2 \<inter> set xs = ?P - {x}"
    proof
      show "aset s2 \<inter> set xs \<subseteq> ?P - {x}" using moved_aset [OF m] x(3) by auto
      show "?P - {x} \<subseteq> aset s2 \<inter> set xs" using 2(6) d1(3) hw by (auto simp: aset_def stat_is_def)
    qed
    then have "wok s2 (aset s2 \<inter> set xs) L2 F2 R" using 2(2) by simp
    from Cons.IH [OF this, of "if deadline_ns n \<le> now then k + 1 else k"] Cons.prems(2,3) hw obtain s' L' F' f where
      3: "for_each (refile_index now) xs (s2, if deadline_ns n \<le> now then k + 1 else k) = Some (s', (if deadline_ns n \<le> now then k + 1 else k) + f)"
      "wok s' {} L' F' R" "moved now s2 s'" "ctl s' = ctl s2" "refiled now s2 (aset s2) L2 L'" "armed s2 = armed s' + f" by auto
    have "refiled now s (aset s) L L'"
    proof -
      have "refiled now s (aset s) L L2" using 2(5) q1 dl_cong [of s1 _ s] xin by (auto simp: refiled_def)
      then show ?thesis by (rule refiled_trans [OF _ 3(5)]) (use q1(3) 2(4) moved_dl [OF m] moved_aset [OF m] in \<open>auto simp: ctl_def\<close>)
    qed
    moreover have "for_each (refile_index now) (x # xs) (s, k) = for_each (refile_index now) xs (s2, if deadline_ns n \<le> now then k + 1 else k)"
      using nth True 2(1) by (simp add: refile_index_def s1)
    ultimately show ?thesis using 2(4,7) 3 q1(3,4) moved_trans [OF m 3(3)]
      by (intro exI [of _ s'] exI [of _ L'] exI [of _ F'] exI [of _ "(if deadline_ns n \<le> now then 1 else 0) + f"]) (auto simp: cnt_def)
  qed
qed

section \<open>Where a timer is filed\<close>

text \<open>
  A timer of tick \<open>dt\<close> in bucket \<open>b\<close> of a wheel at tick \<open>T\<close>: level 0 holds it in the slot of its tick, less than one
  turn ahead; a higher level holds it in a slot that the wheel reaches by the turn of that level; the overflow list only
  what no level reaches.
\<close>

definition filed_at :: "nat \<Rightarrow> bucket \<Rightarrow> nat \<Rightarrow> bool" where
  "filed_at T b dt = (case b of None \<Rightarrow> T div 64 * 64 + 64 ^ 4 \<le> dt
     | Some (l, k) \<Rightarrow> k = dt div 64 ^ l mod 64 \<and>
         (if l = 0 then dt < T + 64 else T div 64 ^ l < dt div 64 ^ l \<and> dt div 64 ^ l \<le> T div 64 ^ l + 64))"

lemma level_span: "2 ^ (LEVEL_BITS * l) = (64 :: nat) ^ l"
  by (simp add: LEVEL_BITS_def power_mult)

lemma SLOTS_64: "SLOTS = 64"
  by (simp add: SLOTS_def LEVEL_BITS_def)

lemma div_ahead:
  assumes "T + m \<le> dt" and "dt < T + 64 * m" and "0 < (m :: nat)"
  shows "T div m < dt div m" "dt div m \<le> T div m + 64"
proof -
  have "(T + m) div m \<le> dt div m" by (rule div_le_mono) (rule assms(1))
  then show "T div m < dt div m" using assms(3) div_add_self2 [of m T] by linarith
  have "dt div m \<le> (T + 64 * m) div m" by (rule div_le_mono) (use assms(2) in simp)
  then show "dt div m \<le> T div m + 64" using assms(3) by simp
qed

lemma locate_filed: "filed_at T (locate T dt) dt"
proof (cases "find (\<lambda>l. dt - T < 2 ^ (LEVEL_BITS * (l + 1))) [0..<LEVELS]")
  case None
  then have all: "\<forall>x < 4. \<not> dt - T < 2 ^ (LEVEL_BITS + LEVEL_BITS * x)" by (auto simp: find_None_iff LEVELS_def)
  have "\<not> dt - T < 2 ^ (LEVEL_BITS + LEVEL_BITS * 3)" by (rule all [rule_format]) simp
  then have "T + 64 ^ 4 \<le> dt" by (simp add: LEVEL_BITS_def)
  moreover have "T div 64 * 64 \<le> T" by simp
  ultimately have "T div 64 * 64 + 64 ^ 4 \<le> dt" by linarith
  then show ?thesis using None by (simp add: locate_def filed_at_def)
next
  case (Some l)
  then obtain "dt - T < 2 ^ (LEVEL_BITS * (l + 1))" and min: "\<And>j. j < l \<Longrightarrow> \<not> dt - T < 2 ^ (LEVEL_BITS * (j + 1))"
    by (auto simp: find_Some_iff LEVELS_def)
  then have up: "dt - T < 64 * 64 ^ l" by (simp add: level_span power_add del: mult_Suc_right)
  have low: "l = 0 \<or> T + 64 ^ l \<le> dt"
  proof (cases l)
    case (Suc j)
    have pos: "0 < (64 :: nat) ^ l" by simp
    from min [of j] Suc have "64 ^ l \<le> dt - T" by (simp add: level_span power_add del: mult_Suc_right)
    with pos show ?thesis by linarith
  qed simp
  show ?thesis
  proof (cases "l = 0")
    case True
    then show ?thesis using Some up by (simp add: locate_def filed_at_def SLOTS_64 level_span)
  next
    case False
    have "dt < T + 64 * 64 ^ l" using up False low by linarith
    with div_ahead [of T "64 ^ l" dt] False low Some show ?thesis by (simp add: locate_def filed_at_def SLOTS_64 level_span)
  qed
qed

text \<open>The lists that the turn to tick \<open>T\<close> has to take apart: those of the levels that have gone round.\<close>

definition turning :: "nat \<Rightarrow> nat \<Rightarrow> bucket set" where
  "turning T l = {Some (m, T div 64 ^ m mod 64) | m. l \<le> m \<and> m < LEVELS \<and> 64 ^ m dvd T}"

lemma div_Suc_dvd: "0 < m \<Longrightarrow> Suc T div m = (if m dvd Suc T then Suc (T div m) else T div m)"
  by (auto simp: div_Suc dvd_eq_mod_eq_0)

lemma filed_tick:
  assumes "filed_at T b dt" and "bucket_ok b" and "b \<notin> turning (Suc T) 1" and "b = None \<Longrightarrow> \<not> 64 dvd Suc T"
  shows "filed_at (Suc T) b dt"
proof (cases b)
  case None
  then show ?thesis using assms(1,4) div_Suc_dvd [of 64 T] by (simp add: filed_at_def)
next
  case (Some x)
  then obtain l k where b: "b = Some (l, k)" by (cases x) auto
  show ?thesis
  proof (cases "l = 0")
    case True
    then show ?thesis using assms(1) b by (simp add: filed_at_def)
  next
    case False
    let ?m = "64 ^ l :: nat"
    have f: "T div ?m < dt div ?m" "dt div ?m \<le> T div ?m + 64" "k = dt div ?m mod 64" using assms(1) b False by (simp_all add: filed_at_def)
    have "Suc (T div ?m) \<noteq> dt div ?m" if "?m dvd Suc T"
    proof
      assume "Suc (T div ?m) = dt div ?m"
      then have "k = Suc T div ?m mod 64" using f(3) that div_Suc_dvd [of ?m T] by simp
      then show False using assms(2,3) b False that by (auto simp: turning_def bucket_ok_def)
    qed
    then show ?thesis using f b False div_Suc_dvd [of ?m T] by (auto simp: filed_at_def)
  qed
qed

lemma turning_step:
  assumes "64 ^ l dvd (T :: nat)"
  shows "T div 64 ^ l mod 64 = 0 \<longleftrightarrow> 64 ^ Suc l dvd T"
proof -
  obtain q where "T = 64 ^ l * q" using assms by (elim dvdE)
  then show ?thesis by (simp add: dvd_eq_mod_eq_0 [symmetric] mult.commute)
qed

lemma turning_none: "\<not> 64 ^ l dvd (T :: nat) \<Longrightarrow> turning T l = {}"
  using power_le_dvd [of "64 :: nat" _ T l] by (auto simp: turning_def)

lemma turning_next: "64 ^ l dvd T \<Longrightarrow> l < LEVELS \<Longrightarrow> turning T l = insert (Some (l, T div 64 ^ l mod 64)) (turning T (Suc l))"
  by (auto simp: turning_def le_less Suc_le_eq)

lemma filed_here: "filed_at T b T \<Longrightarrow> b = Some (0, T mod 64)"
proof (cases b)
  case None
  have "T < T div 64 * 64 + 64" using div_mult_mod_eq [of T 64] mod_less_divisor [of 64 T] by linarith
  then show "filed_at T b T \<Longrightarrow> ?thesis" using None by (simp add: filed_at_def)
qed (auto simp: filed_at_def split: if_splits)

definition filed_but :: "bucket set \<Rightarrow> wheel \<Rightarrow> (bucket \<Rightarrow> nat list) \<Rightarrow> bool" where
  "filed_but Q s L \<longleftrightarrow> (\<forall>b i. b \<notin> Q \<longrightarrow> i \<in> set (L b) \<longrightarrow> filed_at (now_tick s) b (dl (wnode s) i div TICK_NS))"

definition no_due :: "nat \<Rightarrow> wheel \<Rightarrow> nat list \<Rightarrow> bool" where
  "no_due now s xs \<longleftrightarrow> (\<forall>i \<in> set xs. now < dl (wnode s) i)"

lemma filed_refiled:
  assumes "filed_but (insert b Q) s L" and "refiled now s P (L(b := [])) L'" and "moved now s s'" and "now_tick s' = now_tick s"
  shows "filed_but Q s' L'"
  using assms(1,2) locate_filed moved_dl [OF assms(3)] assms(4) unfolding filed_but_def refiled_def
  by (metis fun_upd_apply empty_iff insert_iff list.set(1))

lemma no_due_refiled:
  assumes "no_due now s (L c)" and "refiled now s P (L(b := [])) L'" and "moved now s s'"
  shows "no_due now s' (L' c)"
  using assms(1,2) moved_dl [OF assms(3)] unfolding no_due_def refiled_def
  by (metis fun_upd_apply empty_iff list.set(1))

lemma cascade_bucket_spec:
  assumes "wok s {} L F R"
  shows "\<exists>s' L' F'. cascade_bucket b now s = Some s' \<and> wok s' {} L' F' R \<and> moved now s s' \<and>
    ctl s' = ctl s \<and> refiled now s (set (L (Some b))) (L(Some b := [])) L'"
  using refile_list_spec [OF assms, of now "Some b"] by (simp add: cascade_bucket_def head_of_def)

lemma cascade_levels_spec:
  assumes "wok s {} L F R" and "now_tick s = T" and "64 ^ l dvd T" and "filed_but (insert None (turning T l)) s L" and "no_due now s (L c)"
  shows "\<exists>s' L' F'. cascade_levels [l..<LEVELS] now s = Some s' \<and> wok s' {} L' F' R \<and> moved now s s' \<and> ctl s' = ctl s \<and>
    filed_but {None} s' L' \<and> no_due now s' (L' c)"
  using assms
proof (induction "LEVELS - l" arbitrary: l s L F)
  case 0
  then have "turning T l = {}" "[l..<LEVELS] = []" by (auto simp: turning_def)
  then show ?case using 0 moved_refl by auto
next
  case (Suc k)
  then have l: "l < LEVELS" by simp
  let ?h = "T div 64 ^ l mod 64"
  from cascade_bucket_spec [OF Suc.prems(1), of "(l, ?h)" now] obtain s1 L1 F1 where 1: "cascade_bucket (l, ?h) now s = Some s1"
    "wok s1 {} L1 F1 R" "moved now s s1" "ctl s1 = ctl s" "refiled now s (set (L (Some (l, ?h)))) (L(Some (l, ?h) := [])) L1" by blast
  have T: "now_tick s1 = T" using 1(4) Suc.prems(2) by (simp add: ctl_def)
  have "insert None (turning T l) = insert (Some (l, ?h)) (insert None (turning T (Suc l)))" using turning_next [OF Suc.prems(3) l] by auto
  from filed_refiled [OF Suc.prems(4) [unfolded this] 1(5,3)] have f1: "filed_but (insert None (turning T (Suc l))) s1 L1"
    using T Suc.prems(2) by simp
  have n1: "no_due now s1 (L1 c)" by (rule no_due_refiled [OF Suc.prems(5) 1(5,3)])
  have step: "cascade_levels [l..<LEVELS] now s = (if ?h \<noteq> 0 then Some s1 else cascade_levels [Suc l..<LEVELS] now s1)"
    using 1(1) Suc.prems(2) by (simp add: upt_conv_Cons [OF l] level_span SLOTS_64)
  show ?case
  proof (cases "?h = 0")
    case True
    then have "64 ^ Suc l dvd T" using turning_step [OF Suc.prems(3)] by simp
    moreover have "k = LEVELS - Suc l" using Suc.hyps(2) by simp
    ultimately obtain s' L' F' where
      "cascade_levels [Suc l..<LEVELS] now s1 = Some s'" "wok s' {} L' F' R" "moved now s1 s'" "ctl s' = ctl s1"
      "filed_but {None} s' L'" "no_due now s' (L' c)" using Suc.hyps(1) [OF _ 1(2) T _ f1 n1] by blast
    with step True 1(4) moved_trans [OF 1(3)] show ?thesis by auto
  next
    case False
    then have "turning T (Suc l) = {}" using turning_none turning_step [OF Suc.prems(3)] by simp
    with step False 1 f1 n1 show ?thesis by auto
  qed
qed

lemma refile_overflow_spec:
  assumes "wok s {} L F R" and "filed_but {None} s L" and "no_due now s (L c)"
  shows "\<exists>s' L' F'. refile_overflow now s = Some s' \<and> wok s' {} L' F' R \<and> moved now s s' \<and> ctl s' = ctl s \<and>
    filed_but {} s' L' \<and> no_due now s' (L' c)"
proof -
  have "refile_overflow now s = refile_from now (set_head None NIL s) (head_of s None)"
    by (simp add: refile_overflow_def set_head_def head_of_def)
  with refile_list_spec [OF assms(1), of now None] obtain s' L' F' where r: "refile_overflow now s = Some s'"
    "wok s' {} L' F' R" "moved now s s'" "ctl s' = ctl s" "refiled now s (set (L None)) (L(None := [])) L'" by auto
  have "now_tick s' = now_tick s" using r(4) by (simp add: ctl_def)
  with filed_refiled [OF assms(2) r(5,3)] no_due_refiled [OF assms(3) r(5,3)] r show ?thesis by blast
qed

lemma armed_le: "moved now s s' \<Longrightarrow> counted s \<Longrightarrow> counted s' \<Longrightarrow> armed s' \<le> armed s"
  using card_mono [OF finite_aset(1) moved_aset, of now s s'] by (simp add: counted_def)

lemma tick_once_spec:
  assumes w: "wok s {} L F R" and f: "filed_but {} s L"
  shows "\<exists>s' L' F' k'. tick_once now (s, k) = Some (s', k') \<and> wok s' {} L' F' R \<and> moved now s s' \<and> now_tick s' = Suc (now_tick s) \<and>
    filed_but {} s' L' \<and> no_due now s' (L' (Some (0, Suc (now_tick s) mod 64))) \<and> k \<le> k' \<and> k' + armed s' \<le> k + armed s"
proof -
  let ?T = "Suc (now_tick s)"
  let ?c = "Some (0, ?T mod 64) :: bucket"
  define s0 where "s0 = s\<lparr>now_tick := ?T\<rparr>"
  have c0: "counted s0" using wokD(2) [OF w] by (simp add: s0_def counted_def aset_def fset_of_def)
  have w0: "wok s0 {} L F R" using wokD(1) [OF w] c0 by (simp add: wok_def wcore_def s0_def w_tab_def)
  have m0: "moved now s s0" by (simp add: moved_def s0_def)
  from expire_bucket_spec [OF w0, of "(0, ?T mod 64)" now] obtain s1 F1 e where 1: "expire_bucket (0, ?T mod 64) now s0 = Some (s1, e)"
    "wok s1 {} (L(?c := filter (\<lambda>x. now < dl (wnode s0) x) (L ?c))) F1 R" "moved now s0 s1" "ctl s1 = ctl s0" "armed s0 = armed s1 + e" by blast
  define L1 where "L1 = L(?c := filter (\<lambda>x. now < dl (wnode s0) x) (L ?c))"
  note w1 = 1(2) [folded L1_def]
  have T1: "now_tick s1 = ?T" using 1(4) by (simp add: ctl_def s0_def)
  have dl1: "dl (wnode s1) i = dl (wnode s) i" for i using moved_dl [OF 1(3), of i] by (simp add: s0_def)
  have n1: "no_due now s1 (L1 ?c)" by (simp add: L1_def no_due_def dl1 s0_def)
  have f1: "filed_but (if 64 dvd ?T then insert None (turning ?T 1) else {}) s1 L1"
    unfolding filed_but_def T1 dl1
  proof (intro allI impI)
    fix b i assume b: "b \<notin> (if 64 dvd ?T then insert None (turning ?T 1) else {})" and "i \<in> set (L1 b)"
    then have i: "i \<in> set (L b)" by (auto simp: L1_def split: if_splits)
    have ok: "bucket_ok b" using wcore_bucket(3) [OF wokD(1) [OF w], of b] i by (cases "L b") auto
    have "turning ?T 1 = {}" if "\<not> 64 dvd ?T" using turning_none [of 1 ?T] that by simp
    then show "filed_at ?T b (dl (wnode s) i div TICK_NS)"
      using b i f ok by (intro filed_tick) (auto simp: filed_but_def split: if_splits)
  qed
  have arm: "armed s = armed s1 + e" using 1(5) by (simp add: s0_def)
  show ?thesis
  proof (cases "64 dvd ?T")
    case False
    then have "?T mod 64 \<noteq> 0" by presburger
    then have "tick_once now (s, k) = Some (s1, k + e)" using 1(1) by (simp add: tick_once_def SLOTS_64 Let_def flip: s0_def)
    with False w1 f1 n1 T1 arm moved_trans [OF m0 1(3)] show ?thesis by (intro exI [of _ s1] exI [of _ L1]) auto
  next
    case True
    from cascade_levels_spec [OF w1 T1 _ _ n1, of 1] f1 True obtain s2 L2 F2 where 2: "cascade_levels [1..<LEVELS] now s1 = Some s2"
      "wok s2 {} L2 F2 R" "moved now s1 s2" "ctl s2 = ctl s1" "filed_but {None} s2 L2" "no_due now s2 (L2 ?c)" by auto
    from refile_overflow_spec [OF 2(2,5,6)] obtain s3 L3 F3 where 3: "refile_overflow now s2 = Some s3" "wok s3 {} L3 F3 R"
      "moved now s2 s3" "ctl s3 = ctl s2" "filed_but {} s3 L3" "no_due now s3 (L3 ?c)" by blast
    have "?T mod 64 = 0" using True by presburger
    then have "tick_once now (s, k) = Some (s3, k + e)" using 1(1) 2(1) 3(1) by (simp add: tick_once_def SLOTS_64 Let_def flip: s0_def)
    moreover have m: "moved now s1 s3" by (rule moved_trans [OF 2(3) 3(3)])
    moreover have "armed s3 \<le> armed s1" by (rule armed_le [OF m wokD(2) [OF w1] wokD(2) [OF 3(2)]])
    ultimately show ?thesis using 3 2(4) T1 arm moved_trans [OF moved_trans [OF m0 1(3)] m] by (auto simp: ctl_def)
  qed
qed

section \<open>Advancing the clock\<close>

definition dtick :: "wheel \<Rightarrow> nat \<Rightarrow> nat" where
  "dtick s i = dl (wnode s) i div TICK_NS"

lemma aset_listed:
  assumes w: "wok s {} L F R"
  shows "i \<in> aset s \<longleftrightarrow> (\<exists>b. i \<in> set (L b))"
proof
  note c = wokD(1) [OF w]
  assume i: "i \<in> aset s"
  have "i \<notin> set F" "i \<notin> set R"
    using i wcore_fired(3) [OF c, of i] wlistsD(3) [OF wcoreD(2) [OF c]] by (auto simp: aset_def stat_is_def free_list_def)
  then show "\<exists>b. i \<in> set (L b)" using i wlistsD(8) [OF wcoreD(2) [OF c], of i] by (simp add: aset_def)
next
  assume "\<exists>b. i \<in> set (L b)"
  then show "i \<in> aset s" using wcore_members(1) [OF wokD(1) [OF w]] wcore_bucket(4) [OF wokD(1) [OF w]] by (auto simp: aset_def)
qed

lemma due_elsewhere:
  assumes w: "wok s {} L F R" and f: "filed_but {} s L" and n: "no_due now s (L (Some (0, now_tick s mod 64)))"
    and i: "i \<in> aset s" "dl (wnode s) i \<le> now"
  shows "dtick s i \<noteq> now_tick s"
proof
  assume T: "dtick s i = now_tick s"
  obtain b where b: "i \<in> set (L b)" using i(1) aset_listed [OF w] by blast
  have "filed_at (now_tick s) b (dtick s i)" using f b unfolding filed_but_def dtick_def by blast
  then have "filed_at (now_tick s) b (now_tick s)" using T by simp
  from filed_here [OF this] b n i(2) show False by (auto simp: no_due_def)
qed

text \<open>After an advance, what is due and still armed is not of a tick that the wheel passed since \<open>T0\<close>.\<close>

definition passed :: "nat \<Rightarrow> nat \<Rightarrow> wheel \<Rightarrow> bool" where
  "passed now T0 s \<longleftrightarrow> (\<forall>i \<in> aset s. dl (wnode s) i \<le> now \<longrightarrow> dtick s i \<le> T0 \<or> now_tick s < dtick s i)"

lemma moved_passed:
  assumes "passed now T0 s" and "moved now s s'" and "now_tick s' = now_tick s"
  shows "passed now T0 s'"
  using assms(1,3) moved_aset [OF assms(2)] moved_dl [OF assms(2)] by (auto simp: passed_def dtick_def)

lemma ticks_spec:
  assumes "wok s {} L F R" and "filed_but {} s L" and "passed now T0 s"
  shows "\<exists>s' L' F' k'. ticks d now (s, k) = Some (s', k') \<and> wok s' {} L' F' R \<and> moved now s s' \<and> now_tick s' = now_tick s + d \<and>
    filed_but {} s' L' \<and> passed now T0 s' \<and> k \<le> k' \<and> k' + armed s' \<le> k + armed s"
  using assms
proof (induction d arbitrary: s L F k)
  case 0
  then show ?case using moved_refl by auto
next
  case (Suc d)
  from tick_once_spec [OF Suc.prems(1,2), of now k] obtain s1 L1 F1 k1 where 1: "tick_once now (s, k) = Some (s1, k1)"
    "wok s1 {} L1 F1 R" "moved now s s1" "now_tick s1 = Suc (now_tick s)" "filed_but {} s1 L1"
    "no_due now s1 (L1 (Some (0, Suc (now_tick s) mod 64)))" "k \<le> k1" "k1 + armed s1 \<le> k + armed s" by blast
  have "passed now T0 s1" unfolding passed_def
  proof (intro ballI impI)
    fix i assume i: "i \<in> aset s1" "dl (wnode s1) i \<le> now"
    have "dtick s1 i = dtick s i" using moved_dl [OF 1(3)] by (simp add: dtick_def)
    moreover have "dtick s i \<le> T0 \<or> now_tick s < dtick s i"
      using Suc.prems(3) i moved_aset [OF 1(3)] moved_dl [OF 1(3), of i] by (auto simp: passed_def)
    moreover have "dtick s1 i \<noteq> now_tick s1" by (rule due_elsewhere [OF 1(2,5) _ i]) (use 1(4,6) in simp)
    ultimately show "dtick s1 i \<le> T0 \<or> now_tick s1 < dtick s1 i" using 1(4) by auto
  qed
  from Suc.IH [OF 1(2,5) this, of k1] obtain s' L' F' k' where "ticks d now (s1, k1) = Some (s', k')" "wok s' {} L' F' R" "moved now s1 s'"
    "now_tick s' = now_tick s1 + d" "filed_but {} s' L'" "passed now T0 s'" "k1 \<le> k'" "k' + armed s' \<le> k1 + armed s1" by blast
  with 1 moved_trans [OF 1(3)] show ?case by (intro exI [of _ s'] exI [of _ L'] exI [of _ F'] exI [of _ k']) auto
qed

lemma detach_all:
  assumes w: "wok s {} L F R"
  shows "wok (s\<lparr>heads := (\<lambda>_. NIL), overflow := NIL\<rparr>) (aset s) (\<lambda>_. []) F R"
proof -
  let ?s = "s\<lparr>heads := (\<lambda>_. NIL), overflow := NIL\<rparr>"
  note c = wokD [OF w]
  note d = wlistsD [OF wcoreD(2) [OF c(1)]]
  have h: "head_of ?s = (\<lambda>_. NIL)" by (auto simp: head_of_def fun_eq_iff split: option.split)
  have "wlists (wnode s) (\<lambda>_. NIL) (fired_head s) (wfree s) (whw s) (aset s) (\<lambda>_. []) F R"
  proof (rule wlistsI)
    show "bucket_list (wnode s) NIL b []" for b by (simp add: bucket_list_def)
    show "x \<notin> set R \<and> x \<notin> aset s" if "x \<in> set F" for x using that d(5,6) [of x] aset_listed [OF w, of x] by blast
    show "x \<notin> aset s" if "x \<in> set R" for x using that d(5) [of x] aset_listed [OF w, of x] by blast
    show "x < whw s \<longleftrightarrow> (\<exists>b. x \<in> set []) \<or> x \<in> set F \<or> x \<in> set R \<or> x \<in> aset s" for x
      using d(8) [of x] aset_listed [OF w, of x] by auto
  qed (use d(2,3) in simp_all)
  then have "wcore ?s (aset s) (\<lambda>_. []) F R" using c(3) h by (simp add: wcore_def w_tab_def)
  moreover have "counted ?s" using c(2) by (simp add: counted_def aset_def fset_of_def)
  ultimately show ?thesis by (simp add: wok_def)
qed

lemma refile_all_spec:
  assumes w: "wok s {} L F R"
  shows "\<exists>s' L' F' f. refile_all now s = Some (s', f) \<and> wok s' {} L' F' R \<and> moved now s s' \<and> ctl s' = ctl s \<and>
    refiled now s (aset s) (\<lambda>_. []) L' \<and> armed s = armed s' + f"
proof -
  let ?s = "s\<lparr>heads := (\<lambda>_. NIL), overflow := NIL\<rparr>"
  have "aset ?s = aset s" by (simp add: aset_def)
  then have P: "aset ?s \<inter> set [0..<whw s] = aset s" by (auto simp: aset_def)
  have w': "wok ?s (aset ?s \<inter> set [0..<whw s]) (\<lambda>_. []) F R" using detach_all [OF w] unfolding P .
  from refile_indices_spec [OF w', of now 0] obtain s' L' F' f where r: "for_each (refile_index now) [0..<whw s] (?s, 0) = Some (s', f)"
    "wok s' {} L' F' R" "moved now ?s s'" "ctl s' = ctl ?s" "refiled now ?s (aset ?s) (\<lambda>_. []) L'" "armed ?s = armed s' + f" by auto
  have "moved now s s'" using r(3) by (simp add: moved_def aset_def)
  moreover have "refiled now s (aset s) (\<lambda>_. []) L'" using r(5) by (simp add: refiled_def aset_def)
  ultimately show ?thesis using r by (auto simp: refile_all_def ctl_def)
qed

lemma filed_subset: "filed_but {} s L \<Longrightarrow> moved now s s' \<Longrightarrow> now_tick s' = now_tick s \<Longrightarrow> (\<And>b. set (L' b) \<subseteq> set (L b)) \<Longrightarrow> filed_but {} s' L'"
  using moved_dl [of now s s'] unfolding filed_but_def by (metis subsetD)

text \<open>The state between operations.\<close>

definition rest_free :: "wheel \<Rightarrow> bool" where
  "rest_free s \<longleftrightarrow> (\<forall>i st. whw s \<le> i \<longrightarrow> stat_is (wnode s) st i \<longrightarrow> st = TFree)"

definition wready :: "wheel \<Rightarrow> bool" where
  "wready s \<longleftrightarrow> (\<exists>L F R. wok s {} L F R \<and> filed_but {} s L) \<and> (\<forall>i \<in> aset s. nearest s \<le> dl (wnode s) i) \<and> rest_free s"

lemma rest_free_cong: "(\<And>i. whw s \<le> i \<Longrightarrow> vw s' i = vw s i) \<Longrightarrow> whw s' = whw s \<Longrightarrow> rest_free s \<Longrightarrow> rest_free s'"
  by (auto simp: rest_free_def stat_is_vw)

lemma wready_moved:
  assumes "wready s" and "moved now s s'" and "wok s' {} L F R" and "filed_but {} s' L"
  shows "wready s'"
proof -
  have n: "nearest s' = nearest s" using assms(2) by (simp add: moved_def)
  have "rest_free s'" by (rule rest_free_cong [of s]) (use assms(1,2) moved_node [OF assms(2)] in \<open>auto simp: wready_def moved_def aset_def\<close>)
  with n show ?thesis using assms moved_aset [OF assms(2)] moved_dl [OF assms(2)] by (auto simp: wready_def)
qed

lemma wok_fields [simp]:
  "wok (s\<lparr>nearest_dirty := x1\<rparr>) P L F R = wok s P L F R" "wok (s\<lparr>now_tick := x2\<rparr>) P L F R = wok s P L F R"
  "wok (s\<lparr>nearest := x3\<rparr>) P L F R = wok s P L F R" "wok (s\<lparr>arms := x4\<rparr>) P L F R = wok s P L F R"
  "wok (s\<lparr>cancels := x5\<rparr>) P L F R = wok s P L F R"
  by (simp_all add: wok_def wcore_def w_tab_def counted_def aset_def fset_of_def)

lemma filed_dirty [simp]: "filed_but Q (s\<lparr>nearest_dirty := x\<rparr>) L = filed_but Q s L"
  by (simp add: filed_but_def)

lemma advance_bulk:
  assumes r: "wready s" and bulk: "SLOTS \<le> now div TICK_NS - now_tick s"
  shows "\<exists>s' f. advance now s = Some (s', f) \<and> wready s' \<and> moved now s s' \<and> now_tick s' = now div TICK_NS \<and>
    armed s = armed s' + f \<and> (\<forall>i \<in> aset s'. now < dl (wnode s') i)"
proof -
  obtain L F R where w: "wok s {} L F R" using r by (auto simp: wready_def)
  define s0 where "s0 = s\<lparr>now_tick := now div TICK_NS\<rparr>"
  have w0: "wok s0 {} L F R" using w by (simp add: s0_def)
  have m0: "moved now s s0" by (simp add: s0_def moved_def)
  from refile_all_spec [OF w0, of now] obtain s1 L1 F1 f1 where 1: "refile_all now s0 = Some (s1, f1)" "wok s1 {} L1 F1 R"
    "moved now s0 s1" "ctl s1 = ctl s0" "refiled now s0 (aset s0) (\<lambda>_. []) L1" "armed s0 = armed s1 + f1" by blast
  have T1: "now_tick s1 = now div TICK_NS" using 1(4) by (simp add: ctl_def s0_def)
  have T10: "now_tick s1 = now_tick s0" using 1(4) by (simp add: ctl_def)
  have new: "now < dl (wnode s1) i \<and> b = locate (now_tick s1) (dl (wnode s1) i div TICK_NS)" if "i \<in> set (L1 b)" for b i
    using 1(5) that moved_dl [OF 1(3), of i] T10 unfolding refiled_def by auto
  then have f1: "filed_but {} s1 L1" using locate_filed unfolding filed_but_def by metis
  from expire_bucket_spec [OF 1(2), of "(0, now_tick s1 mod SLOTS)" now] obtain s2 F2 f2 where
    2: "expire_bucket (0, now_tick s1 mod SLOTS) now s1 = Some (s2, f2)"
    "wok s2 {} (L1(Some (0, now_tick s1 mod SLOTS) := filter (\<lambda>x. now < dl (wnode s1) x) (L1 (Some (0, now_tick s1 mod SLOTS))))) F2 R"
    "moved now s1 s2" "ctl s2 = ctl s1" "armed s1 = armed s2 + f2" by blast
  have T2: "now_tick s2 = now_tick s1" using 2(4) by (simp add: ctl_def)
  let ?s = "s2\<lparr>nearest_dirty := True\<rparr>"
  have f2: "filed_but {} s2 (L1(Some (0, now_tick s1 mod SLOTS) := filter (\<lambda>x. now < dl (wnode s1) x) (L1 (Some (0, now_tick s1 mod SLOTS)))))"
    by (rule filed_subset [OF f1 2(3) T2]) auto
  have m: "moved now s ?s" using moved_trans [OF moved_trans [OF m0 1(3)] 2(3)] by (simp add: moved_def)
  have adv: "advance now s = Some (?s, f1 + f2)" using bulk 1(1) 2(1) by (simp add: advance_def Let_def flip: s0_def)
  have rdy: "wready ?s" using wready_moved [OF r m, OF _ _] 2(2) f2 by simp
  have "now < dl (wnode ?s) i" if "i \<in> aset ?s" for i
  proof -
    have "i \<in> aset s1" using that moved_aset [OF 2(3)] by (auto simp: aset_def)
    then obtain b where "i \<in> set (L1 b)" using aset_listed [OF 1(2)] by blast
    then show ?thesis using new moved_dl [OF 2(3), of i] by simp
  qed
  with adv rdy m 1(6) 2(5) T1 T2 show ?thesis by (auto simp: s0_def)
qed

lemma advance_step:
  assumes r: "wready s" and near: "now div TICK_NS - now_tick s < SLOTS"
  shows "\<exists>s' f. advance now s = Some (s', f) \<and> wready s' \<and> moved now s s' \<and> now_tick s' = max (now_tick s) (now div TICK_NS) \<and>
    f + armed s' \<le> armed s \<and> (\<forall>i \<in> aset s'. dl (wnode s') i \<le> now \<longrightarrow> dtick s' i \<le> now_tick s \<and> dtick s' i \<noteq> now_tick s')"
proof -
  obtain L F R where w: "wok s {} L F R" "filed_but {} s L" using r by (auto simp: wready_def)
  have p: "passed now (now_tick s) s" by (auto simp: passed_def)
  from ticks_spec [OF w p, of "now div TICK_NS - now_tick s" 0] obtain s1 L1 F1 f1 where
    1: "ticks (now div TICK_NS - now_tick s) now (s, 0) = Some (s1, f1)" "wok s1 {} L1 F1 R" "moved now s s1"
    "now_tick s1 = now_tick s + (now div TICK_NS - now_tick s)" "filed_but {} s1 L1" "passed now (now_tick s) s1" "f1 + armed s1 \<le> armed s" by auto
  let ?c = "Some (0, now_tick s1 mod SLOTS) :: bucket"
  from expire_bucket_spec [OF 1(2), of "(0, now_tick s1 mod SLOTS)" now] obtain s2 F2 f2 where
    2: "expire_bucket (0, now_tick s1 mod SLOTS) now s1 = Some (s2, f2)"
    "wok s2 {} (L1(?c := filter (\<lambda>x. now < dl (wnode s1) x) (L1 ?c))) F2 R" "moved now s1 s2" "ctl s2 = ctl s1" "armed s1 = armed s2 + f2" by blast
  define L2 where "L2 = L1(?c := filter (\<lambda>x. now < dl (wnode s1) x) (L1 ?c))"
  note w2 = 2(2) [folded L2_def]
  have T2: "now_tick s2 = now_tick s1" using 2(4) by (simp add: ctl_def)
  have f2: "filed_but {} s2 L2" by (rule filed_subset [OF 1(5) 2(3) T2]) (auto simp: L2_def)
  have n2: "no_due now s2 (L2 (Some (0, now_tick s2 mod 64)))"
    using moved_dl [OF 2(3)] by (simp add: no_due_def L2_def T2 SLOTS_64)
  define s3 where "s3 = (if 0 < f1 + f2 then s2\<lparr>nearest_dirty := True\<rparr> else s2)"
  have adv: "advance now s = Some (s3, f1 + f2)" using near 1(1) 2(1) by (simp add: advance_def Let_def s3_def)
  have m: "moved now s s3" using moved_trans [OF 1(3) 2(3)] by (simp add: moved_def s3_def)
  have "wready s3" by (rule wready_moved [OF r m, of L2 F2 R]) (use w2 f2 in \<open>simp_all add: s3_def\<close>)
  moreover have "dtick s3 i \<le> now_tick s \<and> dtick s3 i \<noteq> now_tick s3" if i: "i \<in> aset s3" "dl (wnode s3) i \<le> now" for i
  proof -
    have s3: "aset s3 = aset s2" "wnode s3 = wnode s2" "now_tick s3 = now_tick s2" by (simp_all add: s3_def aset_def)
    have i2: "i \<in> aset s2" "dl (wnode s2) i \<le> now" using i s3 by simp_all
    have "dtick s2 i \<le> now div TICK_NS" using i2(2) by (simp add: dtick_def div_le_mono)
    then have "dtick s2 i \<le> now_tick s2" using 1(4) T2 by simp
    moreover have "dtick s2 i \<le> now_tick s \<or> now_tick s2 < dtick s2 i"
      using moved_passed [OF 1(6) 2(3) T2] i2 by (simp add: passed_def)
    moreover have "dtick s2 i \<noteq> now_tick s2" by (rule due_elsewhere [OF w2 f2 n2 i2])
    ultimately show ?thesis using s3 by (simp add: dtick_def)
  qed
  ultimately show ?thesis using adv m 1(4,7) 2(5) T2 by (auto simp: s3_def)
qed

section \<open>Arming, cancelling and collecting\<close>

lemma wcore_free:
  assumes "wcore s P L F R"
  shows "sls (wnode s) (wfree s) R NIL" "distinct R" "x \<in> set R \<Longrightarrow> stat_is (wnode s) TFree x" "wfree s = first R"
  using wlistsD(3) [OF wcoreD(2) [OF assms]] sls_first by (auto simp: free_list_def)

lemma alloc_reuse:
  assumes w: "wcore s {} L F R" and R: "R = i # R'"
  shows "\<exists>s1. alloc_node s = Some (s1, Some i) \<and> wcore s1 {i} L F R' \<and> wnode s1 = wnode s \<and> ctl s1 = ctl s \<and> cnt s1 = cnt s \<and>
    stat_is (wnode s) TFree i \<and> i < whw s"
proof -
  note f = wcore_free [OF w] and m = wcore_members(3) [OF w, of i]
  obtain n where n: "wnode s i = Some n" "sls (wnode s) (tnext n) R' NIL" using f(1) R by (auto split: option.splits)
  let ?s = "s\<lparr>wfree := tnext n\<rparr>"
  have i: "wfree s = i" "i \<noteq> NIL" "i < whw s" using f(4) m R w_tabD(4) [OF wcoreD(1) [OF w]] by auto
  have "free_list (wnode s) (tnext n) R'" using f n(2) R by (simp add: free_list_def)
  from wlists_free [OF wcoreD(2) [OF w] _ this, of "{i}"] f(2) R wcoreD(1) [OF w]
  have "wcore ?s {i} L F R'" by (auto simp: wcore_def w_tab_def)
  moreover have "alloc_node s = Some (?s, Some i)" using i n(1) by (simp add: alloc_node_def)
  ultimately show ?thesis using f(3) R i by (auto simp: ctl_def cnt_def)
qed

lemma alloc_grow:
  assumes w: "wcore s {} L F []" and rf: "rest_free s"
  shows "\<exists>s1 r. alloc_node s = Some (s1, r) \<and> (\<forall>j < whw s. wnode s1 j = wnode s j) \<and> rest_free s1 \<and> now_tick s1 = now_tick s \<and>
    nearest s1 = nearest s \<and> cnt s1 = cnt s \<and>
    (case r of None \<Rightarrow> wcore s1 {} L F [] \<and> whw s1 = whw s | Some i \<Rightarrow> i = whw s \<and> whw s1 = Suc i \<and> wcore s1 {i} L F [])"
proof -
  note t = w_tabD [OF wcoreD(1) [OF w]]
  let ?g = "case nth_opt (contents (wnodes s)) (whw s) of Some n \<Rightarrow> tgen n | None \<Rightarrow> 0"
  from set_growing_spec [OF t(1,2), of "whw s" "NODE_EMPTY\<lparr>tgen := ?g\<rparr>"] obtain k' t' ok where
    g: "set_growing node_ty (whw s) (NODE_EMPTY\<lparr>tgen := ?g\<rparr>) (wmem s, wnodes s) = Some ((k', t'), ok)"
      "table_acct node_ty (wmem s, wnodes s) (k', t')" "cap (wnodes s) \<le> cap t'" "ok \<Longrightarrow> whw s < cap t'"
      "contents t' = (if ok then (contents (wnodes s) @ replicate (cap t' - cap (wnodes s)) (ty_zero node_ty))[whw s := NODE_EMPTY\<lparr>tgen := ?g\<rparr>]
         else contents (wnodes s))" by blast
  have k': "km_inv k'" "funded_inv node_ty k' t'" using g(2) by (simp_all add: table_acct_def)
  let ?s = "s\<lparr>wmem := k', wnodes := t', whw := (if ok then Suc (whw s) else whw s)\<rparr>"
  have NIL: "wfree s = NIL" using wcore_free(4) [OF w] by simp
  have al: "alloc_node s = Some (?s, if ok then Some (whw s) else None)"
    using NIL g(1) by (cases ok) (simp_all add: alloc_node_def Let_def)
  have old: "wnode ?s j = wnode s j" if "j < whw s" for j
    using that t(3,5) by (auto simp: wnode_def g(5) nth_opt_def nth_append)
  have tab: "w_tab ?s" using k' g(3) g(4) t(3) by (auto simp: w_tab_def)
  have rf': "rest_free ?s"
    unfolding rest_free_def
  proof (intro allI impI)
    fix j st assume j: "whw ?s \<le> j" and st: "stat_is (wnode ?s) st j"
    show "st = TFree"
    proof (cases "j < cap (wnodes s)")
      case True
      then have "wnode ?s j = wnode s j" using j t(5) by (auto simp: wnode_def g(5) nth_opt_def nth_append split: if_splits)
      moreover have "whw s \<le> j" using j by (simp split: if_splits)
      ultimately show ?thesis using rf st unfolding rest_free_def stat_is_def by metis
    next
      case False
      then show ?thesis using st j t(5) unfolding stat_is_def wnode_def
        by (auto simp: g(5) nth_opt_def nth_append node_ty_def split: if_splits)
    qed
  qed
  have h: "head_of ?s = head_of s" by (rule head_of_cong) simp_all
  show ?thesis
  proof (cases ok)
    case True
    have "wlists (wnode ?s) (head_of s) (fired_head s) (wfree s) (Suc (whw s)) (insert (whw s) {}) L F []"
      by (rule wlists_grow [OF wcoreD(2) [OF w] old])
    then have "wcore ?s {whw s} L F []" using tab h True by (simp add: wcore_def)
    with al old rf' True show ?thesis by (intro exI [of _ ?s] exI [of _ "Some (whw s)"]) (auto simp: cnt_def)
  next
    case False
    then have "wnode ?s = wnode s" by (auto simp: wnode_def g(5) fun_eq_iff)
    then have "wcore ?s {} L F []" using wcoreD(2) [OF w] tab h False by (simp add: wcore_def)
    with al old rf' False show ?thesis by (intro exI [of _ ?s] exI [of _ None]) (auto simp: cnt_def)
  qed
qed

lemma alloc_node_spec:
  assumes w: "wcore s {} L F R" and rf: "rest_free s"
  shows "\<exists>s1 r R'. alloc_node s = Some (s1, r) \<and> (\<forall>j < whw s. wnode s1 j = wnode s j) \<and> rest_free s1 \<and> now_tick s1 = now_tick s \<and>
    nearest s1 = nearest s \<and> cnt s1 = cnt s \<and>
    (case r of None \<Rightarrow> wcore s1 {} L F R' \<and> whw s1 = whw s
     | Some i \<Rightarrow> whw s1 = max (whw s) (Suc i) \<and> i \<le> whw s \<and> (i < whw s \<longrightarrow> stat_is (wnode s) TFree i) \<and> wcore s1 {i} L F R')"
proof (cases R)
  case Nil
  from alloc_grow [OF w [unfolded Nil] rf] obtain s1 r where a: "alloc_node s = Some (s1, r)" "\<forall>j < whw s. wnode s1 j = wnode s j" "rest_free s1"
    "now_tick s1 = now_tick s" "nearest s1 = nearest s" "cnt s1 = cnt s"
    "case r of None \<Rightarrow> wcore s1 {} L F [] \<and> whw s1 = whw s | Some i \<Rightarrow> i = whw s \<and> whw s1 = Suc i \<and> wcore s1 {i} L F []" by blast
  then show ?thesis by (intro exI [of _ s1] exI [of _ r] exI [of _ "[]"]) (auto split: option.splits)
next
  case (Cons i R')
  from alloc_reuse [OF w Cons] obtain s1 where a: "alloc_node s = Some (s1, Some i)" "wcore s1 {i} L F R'" "wnode s1 = wnode s" "ctl s1 = ctl s"
    "cnt s1 = cnt s" "stat_is (wnode s) TFree i" "i < whw s" by blast
  then have "rest_free s1" using rf by (simp add: rest_free_def ctl_def)
  with a show ?thesis by (intro exI [of _ s1] exI [of _ "Some i"] exI [of _ R']) (auto simp: ctl_def)
qed

lemma wreadyD:
  assumes "wready s"
  shows "\<exists>L F R. wok s {} L F R \<and> filed_but {} s L" "rest_free s" "i \<in> aset s \<Longrightarrow> nearest s \<le> dl (wnode s) i" "w_tab s" "counted s"
  using assms by (auto simp: wready_def dest: wokD)

lemma wreadyI:
  assumes "wcore s {} L F R" and "counted s" and "filed_but {} s L" and "\<And>i. i \<in> aset s \<Longrightarrow> nearest s \<le> dl (wnode s) i" and "rest_free s"
  shows "wready s"
  using assms unfolding wready_def wok_def by blast

lemma arm_node:
  assumes w: "wcore s {i} L F R"
  shows "wcore (set_wnode i n s) {i} L F R" "wnode (set_wnode i n s) = (wnode s)(i \<mapsto> n)"
proof -
  note v = set_wnode_view [OF wcoreD(1) [OF w] wcore_members(4) [OF w, of i], of n]
  show "wnode (set_wnode i n s) = (wnode s)(i \<mapsto> n)" using v(1) by simp
  have "wlists (wnode (set_wnode i n s)) (head_of s) (fired_head s) (wfree s) (whw s) {i} L F R"
    by (rule wlists_detached [OF wcoreD(2) [OF w]]) (use v(1) in simp)
  then show "wcore (set_wnode i n s) {i} L F R" using v(2) by (simp add: wcore_def)
qed

lemma arm_spec:
  assumes r: "wready s"
  shows "\<exists>s' x. arm d tag s = Some (s', x) \<and> wready s' \<and> now_tick s' = now_tick s \<and>
    (case x of Inl _ \<Rightarrow> whw s' = whw s \<and> aset s' = aset s \<and> fset_of s' = fset_of s \<and> (\<forall>j < whw s. vw s' j = vw s j)
     | Inr t \<Rightarrow> t_index t \<notin> aset s \<union> fset_of s \<and> vw s' (t_index t) = Some (d, t_generation t, TArmed, tag) \<and>
         aset s' = insert (t_index t) (aset s) \<and> fset_of s' = fset_of s \<and> (\<forall>j < whw s. j \<noteq> t_index t \<longrightarrow> vw s' j = vw s j))"
proof -
  obtain L F R where w: "wok s {} L F R" "filed_but {} s L" using wreadyD(1) [OF r] by blast
  note c = wokD [OF w(1)]
  from alloc_node_spec [OF c(1) wreadyD(2) [OF r]] obtain s1 x R' where
    a: "alloc_node s = Some (s1, x)" "\<And>j. j < whw s \<Longrightarrow> wnode s1 j = wnode s j" "rest_free s1" "now_tick s1 = now_tick s"
      "nearest s1 = nearest s" "cnt s1 = cnt s"
      "case x of None \<Rightarrow> wcore s1 {} L F R' \<and> whw s1 = whw s
       | Some i \<Rightarrow> whw s1 = max (whw s) (Suc i) \<and> i \<le> whw s \<and> (i < whw s \<longrightarrow> stat_is (wnode s) TFree i) \<and> wcore s1 {i} L F R'" by blast
  show ?thesis
  proof (cases x)
    case None
    then have w1: "wcore s1 {} L F R'" "whw s1 = whw s" using a(7) by simp_all
    have vw: "vw s1 j = vw s j" if "j < whw s" for j using a(2) [OF that] by (simp add: vw_def)
    have as: "aset s1 = aset s" "fset_of s1 = fset_of s" using a(2) w1(2) by (auto simp: aset_def fset_of_def stat_is_def)
    have dl: "dl (wnode s1) i = dl (wnode s) i" if "i < whw s" for i using a(2) [OF that] by (simp add: dl_def)
    have "wready s1"
    proof (rule wreadyI [OF w1(1)])
      show "counted s1" using c(2) as a(6) by (simp add: counted_def cnt_def)
      show "filed_but {} s1 L" using w(2) dl wcore_members(1) [OF c(1)] a(4) by (simp add: filed_but_def)
      show "nearest s1 \<le> dl (wnode s1) i" if "i \<in> aset s1" for i
        using that a(5) dl [of i] wreadyD(3) [OF r, of i] unfolding as(1) by (auto simp: aset_def)
    qed (rule a(3))
    then show ?thesis using a None as vw w1(2) by (intro exI [of _ s1] exI [of _ "Inl WNoMetadata"]) (simp add: arm_def)
  next
    case (Some i)
    then have w1: "wcore s1 {i} L F R'" "whw s1 = max (whw s) (Suc i)" "i \<le> whw s" "i < whw s \<Longrightarrow> stat_is (wnode s) TFree i"
      using a(7) by simp_all
    obtain n where n: "wnode s1 i = Some n" using wcore_node [OF w1(1), of i] by blast
    let ?n = "\<lparr> deadline_ns = d, tnext = NIL, tprev = NIL, tgen = tgen n + 1, tstat = TArmed, ttag = tag \<rparr>"
    let ?b = "locate (now_tick s) (d div TICK_NS)"
    define s2 where "s2 = set_wnode i ?n s1"
    note w2 = arm_node [OF w1(1), of ?n, folded s2_def]
    have "stat_is (wnode s2) TArmed i" by (simp add: stat_is_def w2(2))
    note l = link_spec [OF w2(1) _ this locate_ok [of "now_tick s" "d div TICK_NS"]]
    define s4 where "s4 = (link i ?b s2)\<lparr>armed := armed (link i ?b s2) + 1, arms := arms (link i ?b s2) + 1,
      nearest := (if d < nearest (link i ?b s2) then d else nearest (link i ?b s2))\<rparr>"
    have f2: "now_tick s2 = now_tick s" "whw s2 = whw s1" "nearest s2 = nearest s" "cnt s2 = cnt s" using a(4-6) by (simp_all add: s2_def cnt_def)
    have arm: "arm d tag s = Some (s4, Inr \<lparr> t_index = i, t_generation = tgen n + 1 \<rparr>)"
      using a(1) Some n f2(1) by (simp add: arm_def Let_def s4_def s2_def)
    have f4: "now_tick s4 = now_tick s" "whw s4 = whw s1" "nearest s4 = min d (nearest s)" "armed s4 = armed s + 1" "fired_pending s4 = fired_pending s"
      using l(3,4) f2 by (simp_all add: s4_def ctl_def cnt_def)
    have vi: "vw s4 i = Some (d, tgen n + 1, TArmed, tag)" using l(2) by (simp add: s4_def vw_def w2(2) tcore_def fun_eq_iff)
    have vj: "vw s4 j = vw s1 j" if "j \<noteq> i" for j using l(2) that by (simp add: s4_def vw_def w2(2) fun_eq_iff)
    have vs: "vw s4 j = vw s j" if "j \<noteq> i" "j < whw s" for j using vj [OF that(1)] a(2) [OF that(2)] by (simp add: vw_def)
    have hw: "j < whw s \<or> j = i" if "j < whw s4" for j using that f4(2) w1(2,3) by auto
    have iw: "i < whw s4" "whw s \<le> whw s4" using f4(2) w1(2) by auto
    have new: "i \<notin> aset s \<union> fset_of s" using w1(4) by (auto simp: aset_def fset_of_def stat_is_def)
    have st4: "stat_is (wnode s4) st j \<longleftrightarrow> (if j = i then st = TArmed else stat_is (wnode s) st j)" if "j < whw s4" for st j
      using vi vs [of j] hw [OF that] by (cases "j = i") (auto simp: stat_is_vw simp del: eq_commute)
    have a4: "x \<in> aset s4 \<longleftrightarrow> x = i \<or> x \<in> aset s" "x \<in> fset_of s4 \<longleftrightarrow> x \<in> fset_of s" for x
      using st4 [of x] hw [of x] iw new by (cases "x = i"; auto simp: aset_def fset_of_def)+
    then have as: "aset s4 = insert i (aset s)" "fset_of s4 = fset_of s" by blast+
    have dl4: "dl (wnode s4) j = (if j = i then d else dl (wnode s) j)" if "j \<in> insert i (aset s)" for j
      using that vi vs [of j] by (auto simp: dl_vw aset_def)
    have "wready s4"
    proof (rule wreadyI)
      show "wcore s4 {} (L(?b := i # L ?b)) F R'" using l(1) by (simp add: s4_def wcore_def w_tab_def)
      show "counted s4" using c(2) as new f4(4,5) by (simp add: counted_def)
      have "dl (wnode s4) j = dl (wnode s) j" if "j \<in> set (L c)" for j c
      proof -
        have "j \<in> aset s" using that aset_listed [OF w(1)] by blast
        then show ?thesis using dl4 [of j] new by auto
      qed
      then show "filed_but {} s4 (L(?b := i # L ?b))"
        using w(2) dl4 [of i] locate_filed [of "now_tick s" "d div TICK_NS"] f4(1) by (auto simp: filed_but_def)
      show "nearest s4 \<le> dl (wnode s4) j" if "j \<in> aset s4" for j
        using that as(1) dl4 [of j] f4(3) wreadyD(3) [OF r, of j] new by auto
      show "rest_free s4" using a(3) f4(2) vj iw(1) by (auto simp: rest_free_def stat_is_vw)
    qed
    then show ?thesis using arm f4(1) new vi as vs by (intro exI [of _ s4] exI [of _ "Inr \<lparr> t_index = i, t_generation = tgen n + 1 \<rparr>"]) simp
  qed
qed

lemma free_node_spec:
  assumes w: "wcore s {i} L F R" and n: "wnode s i = Some n"
  shows "wcore (free_node i s) {} L F (i # R)" "vw (free_node i s) = (vw s)(i \<mapsto> (0, tgen n + 1, TFree, ttag n))"
    "ctl (free_node i s) = ctl s" "cnt (free_node i s) = cnt s"
proof -
  note ls = wlistsD [OF wcoreD(2) [OF w]] and f = wcore_free [OF w]
  let ?n = "n\<lparr>tstat := TFree, tgen := tgen n + 1, tnext := wfree s, tprev := NIL, deadline_ns := 0\<rparr>"
  note v = set_wnode_view [OF wcoreD(1) [OF w] wcore_members(4) [OF w, of i], of ?n]
  have eq: "free_node i s = (set_wnode i ?n s)\<lparr>wfree := i\<rparr>" by (simp add: free_node_def n)
  have g: "wnode (free_node i s) = (wnode s)(i \<mapsto> ?n)" using v(1) by (simp add: eq)
  have iR: "i \<notin> set R" using ls(7) [of i] by blast
  have "sls (wnode (free_node i s)) (wfree s) R NIL" by (rule sls_frameI [OF f(1)]) (use iR g in auto)
  then have "free_list (wnode (free_node i s)) i (i # R)"
    using f(2,3) iR g by (auto simp: free_list_def stat_is_def)
  from wlists_free [OF wcoreD(2) [OF w] _ this, of "{}"] g v(2) show "wcore (free_node i s) {} L F (i # R)"
    by (auto simp: wcore_def w_tab_def eq)
  show "vw (free_node i s) = (vw s)(i \<mapsto> (0, tgen n + 1, TFree, ttag n))" using g by (auto simp: vw_def fun_eq_iff tcore_def)
  show "ctl (free_node i s) = ctl s" "cnt (free_node i s) = cnt s" by (simp_all add: eq ctl_def cnt_def)
qed

text \<open>The search for a fired node, and its removal.\<close>

lemma unlink_fired_from_spec:
  assumes "sls (wnode s) cur (xs @ i # ys) NIL" and "i \<notin> set xs" and "\<And>x. x \<in> set (xs @ i # ys) \<Longrightarrow> x < NIL" and "wnode s i = Some n"
  shows "unlink_fired_from i s prev cur = Some (let p = (if xs = [] then prev else last xs) in
    if p = NIL then s\<lparr>fired_head := tnext n\<rparr> else upd_node p (\<lambda>m. m\<lparr>tnext := tnext n\<rparr>) s)"
  using assms
proof (induction xs arbitrary: prev cur)
  case Nil
  then show ?case by (subst unlink_fired_from.simps) (auto simp: Let_def)
next
  case (Cons x xs)
  then obtain m where m: "wnode s x = Some m" "cur = x" "sls (wnode s) (tnext m) (xs @ i # ys) NIL" by (auto split: option.splits)
  have "x < NIL" "x \<noteq> i" using Cons.prems(2) Cons.prems(3) [of x] by auto
  then have "unlink_fired_from i s prev cur = unlink_fired_from i s x (tnext m)" by (subst unlink_fired_from.simps) (simp add: m)
  with Cons.IH [OF m(3) _ _ Cons.prems(4), of x] Cons.prems(2,3) show ?case by simp
qed

lemma unlink_fired_spec:
  assumes w: "wcore s {} L F R" and F: "F = xs @ i # ys"
  shows "\<exists>s'. unlink_fired i s = Some s' \<and> wcore s' {i} L (xs @ ys) R \<and> vw s' = vw s \<and> ctl s' = ctl s \<and> cnt s' = cnt s"
proof -
  note f = wcore_fired [OF w] and t = wcoreD(1) [OF w]
  have mem: "x < whw s" "x < NIL" if "x \<in> set F" for x using wcore_members(2) [OF w that] w_tabD(4) [OF t] by simp_all
  obtain n where n: "wnode s i = Some n" using wnode_some [OF t mem(1) [of i]] F by auto
  from f(1) obtain m where m: "sls (wnode s) (fired_head s) xs m" "sls (wnode s) m (i # ys) NIL" unfolding F sls_append by blast
  then have tl: "m = i" "sls (wnode s) (tnext n) ys NIL" using n by auto
  define s' where "s' = (if xs = [] then s\<lparr>fired_head := tnext n\<rparr> else upd_node (last xs) (\<lambda>m. m\<lparr>tnext := tnext n\<rparr>) s)"
  have "last xs \<noteq> NIL" if "xs \<noteq> []" using mem(2) [of "last xs"] that F by auto
  then have u: "unlink_fired i s = Some s'"
    using unlink_fired_from_spec [OF f(1) [unfolded F] _ _ n, of NIL] mem(2) f(2) F by (auto simp: unlink_fired_def s'_def Let_def)
  have "quiet s (s'\<lparr>fired_head := fired_head s\<rparr>) \<and> sls (wnode s') (fired_head s') xs (tnext n) \<and> (\<forall>x. x \<notin> set xs \<longrightarrow> wnode s' x = wnode s x)"
  proof (cases "xs = []")
    case True
    then show ?thesis using t by (simp add: s'_def quiet_def ctl_def cnt_def w_tab_def)
  next
    case False
    have l: "last xs < whw s" using mem(1) [of "last xs"] False F by auto
    obtain q where q: "wnode s (last xs) = Some q" using wnode_some [OF t l] by blast
    note v = quiet_upd [OF t l q, of "\<lambda>m. m\<lparr>tnext := tnext n\<rparr>"]
    have dx: "distinct xs" using f(2) F by simp
    have e: "s' = upd_node (last xs) (\<lambda>m. m\<lparr>tnext := tnext n\<rparr>) s" using False by (simp add: s'_def)
    have fh: "fired_head s' = fired_head s" by (simp add: e)
    then have e': "s'\<lparr>fired_head := fired_head s\<rparr> = s'" by simp
    have g: "quiet s s'" "wnode s' = (wnode s)(last xs \<mapsto> q\<lparr>tnext := tnext n\<rparr>)" unfolding e by (rule v; simp add: tcore_def)+
    show ?thesis unfolding e' g(2) fh using g(1) sls_retarget [OF m(1) dx False q, of "tnext n"] False by auto
  qed
  then have q: "quiet s (s'\<lparr>fired_head := fired_head s\<rparr>)" "sls (wnode s') (fired_head s') xs (tnext n)"
    "\<And>x. x \<notin> set xs \<Longrightarrow> wnode s' x = wnode s x" by blast+
  have vw: "vw s' = vw s" using quietD(2) [OF q(1)] by simp
  have dl: "dl (wnode s') = dl (wnode s)" using vw by (simp add: fun_eq_iff dl_vw)
  have "sls (wnode s') (tnext n) ys NIL" by (rule sls_frameI [OF tl(2) q(3)]) (use f(2) F in auto)
  then have "fired_list (wnode s') (fired_head s') (xs @ ys)"
    using q(2) f(2,3,4) F vw by (auto simp: fired_list_def sls_append dl stat_is_vw sorted_append)
  then have "wlists (wnode s') (head_of s) (fired_head s') (wfree s) (whw s) {i} L (xs @ ys) R"
    by (rule wlists_fired [OF wcoreD(2) [OF w], rotated]) (use q(3) f(2) F in auto)
  moreover have "head_of s' = head_of s" "wfree s' = wfree s" "whw s' = whw s" by (simp_all add: s'_def)
  ultimately show ?thesis using u vw quietD [OF q(1)] by (auto simp: wcore_def w_tab_def ctl_def cnt_def)
qed

lemma freed_ready:
  assumes r: "wready s" and w: "wcore s' {} L F R" and v: "vw s' = (vw s)(i \<mapsto> (0, gn, TFree, tg))"
    and f: "whw s' = whw s" "now_tick s' = now_tick s" "nearest s' = nearest s" and i: "i \<in> aset s \<union> fset_of s"
    and c: "armed s' = armed s - (if i \<in> aset s then 1 else 0)" "fired_pending s' = fired_pending s - (if i \<in> aset s then 0 else 1)"
    and L: "wok s {} L0 F0 R0" "filed_but {} s L0" "\<And>b. set (L b) \<subseteq> set (L0 b)"
  shows "wready s'" "aset s' = aset s - {i}" "fset_of s' = fset_of s - {i}"
proof -
  have iw: "i < whw s" using i by (auto simp: aset_def fset_of_def)
  show as: "aset s' = aset s - {i}" "fset_of s' = fset_of s - {i}" using v f(1) by (auto simp: aset_def fset_of_def stat_is_vw)
  have dj: "i \<in> aset s \<Longrightarrow> i \<notin> fset_of s" by (auto simp: aset_def fset_of_def stat_is_def)
  have dl: "dl (wnode s') j = dl (wnode s) j" if "j \<noteq> i" for j using v that by (simp add: dl_vw)
  show "wready s'"
  proof (rule wreadyI [OF w])
    show "counted s'" using wreadyD(5) [OF r] c i dj unfolding counted_def as
      by (cases "i \<in> aset s") (simp_all add: card_Diff_singleton_if)
    show "filed_but {} s' L" unfolding filed_but_def f(2)
    proof (intro allI impI)
      fix b j assume j: "j \<in> set (L b)"
      have "stat_is (wnode s') TArmed j" by (rule wcore_bucket(4) [OF w j])
      then have "j \<noteq> i" using v by (auto simp: stat_is_vw)
      then show "filed_at (now_tick s) b (dl (wnode s') j div TICK_NS)" using L(2) L(3) [of b] j dl by (auto simp: filed_but_def)
    qed
    show "nearest s' \<le> dl (wnode s') j" if "j \<in> aset s'" for j using that as(1) f(3) wreadyD(3) [OF r, of j] dl [of j] by auto
    show "rest_free s'" by (rule rest_free_cong [of s]) (use iw v f(1) wreadyD(2) [OF r] in auto)
  qed
qed

lemma valid_member:
  assumes r: "wready s" and n: "wnode s i = Some n" and st: "tstat n \<noteq> TFree"
  shows "i < whw s" "tstat n = TArmed \<Longrightarrow> i \<in> aset s" "tstat n \<noteq> TArmed \<Longrightarrow> i \<in> fset_of s"
proof -
  have "stat_is (wnode s) (tstat n) i" by (simp add: stat_is_def n)
  then show w: "i < whw s" using wreadyD(2) [OF r] st unfolding rest_free_def by (meson not_le)
  show "tstat n = TArmed \<Longrightarrow> i \<in> aset s" using w n by (simp add: aset_def stat_is_def)
  show "tstat n \<noteq> TArmed \<Longrightarrow> i \<in> fset_of s" using w n st by (cases "tstat n") (auto simp: fset_of_def stat_is_def)
qed

lemma fset_listed:
  assumes w: "wok s {} L F R"
  shows "i \<in> fset_of s \<longleftrightarrow> i \<in> set F"
proof
  note c = wokD(1) [OF w]
  assume i: "i \<in> fset_of s"
  have "i \<notin> set R" using i wcore_free(3) [OF c, of i] by (auto simp: fset_of_def stat_is_def)
  moreover have "i \<notin> set (L b)" for b using i wcore_bucket(4) [OF c, of i b] by (auto simp: fset_of_def stat_is_def)
  ultimately show "i \<in> set F" using i wlistsD(8) [OF wcoreD(2) [OF c], of i] by (auto simp: fset_of_def)
next
  assume "i \<in> set F"
  then show "i \<in> fset_of s" using wcore_members(2) [OF wokD(1) [OF w]] wcore_fired(3) [OF wokD(1) [OF w]] by (auto simp: fset_of_def)
qed

lemma cancel_armed:
  assumes r: "wready s" and n: "wnode s i = Some n" and st: "tstat n = TArmed"
  shows "\<exists>s'. cancel \<lparr> t_index = i, t_generation = tgen n \<rparr> s = Some (s', True) \<and> wready s' \<and> now_tick s' = now_tick s \<and> whw s' = whw s \<and>
    vw s' = (vw s)(i \<mapsto> (0, tgen n + 1, TFree, ttag n)) \<and> aset s' = aset s - {i} \<and> fset_of s' = fset_of s"
proof -
  obtain L F R where w: "wok s {} L F R" "filed_but {} s L" using wreadyD(1) [OF r] by blast
  have ia: "i \<in> aset s" using valid_member [OF r n] st by simp
  then obtain b xs ys where b: "L b = xs @ i # ys" using aset_listed [OF w(1), of i] by (metis in_set_conv_decomp)
  note u = unlink_spec [OF wokD(1) [OF w(1)] b]
  note q = quietD [OF u(2)]
  have vi: "vw (unlink i s) i = Some (tcore n)" using q(2) n by (simp add: vw_def)
  then obtain m where m: "wnode (unlink i s) i = Some m" "tcore m = tcore n" by (auto simp: vw_def)
  have pos: "0 < armed s" using ia wokD(2) [OF w(1)] card_gt_0_iff [of "aset s"] by (auto simp: counted_def)
  define s1 where "s1 = (unlink i s)\<lparr>armed := armed s - 1, nearest_dirty := nearest_dirty (unlink i s) \<or> deadline_ns n \<le> nearest (unlink i s)\<rparr>"
  have w1: "wcore s1 {i} (L(b := xs @ ys)) F R" using u(1) by (simp add: s1_def wcore_def w_tab_def)
  have m1: "wnode s1 i = Some m" using m(1) by (simp add: s1_def)
  note f = free_node_spec [OF w1 m1]
  let ?s = "(free_node i s1)\<lparr>cancels := cancels (free_node i s1) + 1\<rparr>"
  have cn: "cancel \<lparr> t_index = i, t_generation = tgen n \<rparr> s = Some (?s, True)"
    using n st pos q(4) by (simp add: cancel_def Let_def dec_def s1_def cnt_def)
  have v: "vw ?s = (vw s)(i \<mapsto> (0, tgen n + 1, TFree, ttag n))" using f(2) q(2) m(2) by (simp add: s1_def tcore_def)
  have flds: "whw ?s = whw s" "now_tick ?s = now_tick s" "nearest ?s = nearest s" "armed ?s = armed s - 1" "fired_pending ?s = fired_pending s"
    using f(3,4) q(3,4) by (simp_all add: s1_def ctl_def cnt_def)
  have wc: "wcore ?s {} (L(b := xs @ ys)) F (i # R)" using f(1) by (simp add: wcore_def w_tab_def)
  have sub: "set ((L(b := xs @ ys)) c) \<subseteq> set (L c)" for c using b by auto
  note fr = freed_ready [OF r wc v flds(1-3) _ _ _ w sub]
  have "i \<notin> fset_of s" using st n by (auto simp: fset_of_def stat_is_def)
  then show ?thesis using cn fr ia flds v by (intro exI [of _ ?s]) simp
qed

lemma cancel_fired:
  assumes r: "wready s" and n: "wnode s i = Some n" and st: "tstat n = TFired"
  shows "\<exists>s'. cancel \<lparr> t_index = i, t_generation = tgen n \<rparr> s = Some (s', False) \<and> wready s' \<and> now_tick s' = now_tick s \<and> whw s' = whw s \<and>
    vw s' = (vw s)(i \<mapsto> (0, tgen n + 1, TFree, ttag n)) \<and> aset s' = aset s \<and> fset_of s' = fset_of s - {i}"
proof -
  obtain L F R where w: "wok s {} L F R" "filed_but {} s L" using wreadyD(1) [OF r] by blast
  have fi: "i \<in> fset_of s" "i \<notin> aset s" using valid_member [OF r n] st n by (auto simp: aset_def stat_is_def)
  then obtain xs ys where F: "F = xs @ i # ys" using fset_listed [OF w(1), of i] by (metis in_set_conv_decomp)
  from unlink_fired_spec [OF wokD(1) [OF w(1)] F] obtain s0 where
    u: "unlink_fired i s = Some s0" "wcore s0 {i} L (xs @ ys) R" "vw s0 = vw s" "ctl s0 = ctl s" "cnt s0 = cnt s" by blast
  have "vw s0 i = Some (tcore n)" using u(3) n by (simp add: vw_def)
  then obtain m where m: "wnode s0 i = Some m" "tcore m = tcore n" by (auto simp: vw_def)
  define s1 where "s1 = s0\<lparr>fired_pending := fired_pending s0 - 1\<rparr>"
  have w1: "wcore s1 {i} L (xs @ ys) R" using u(2) by (simp add: s1_def wcore_def w_tab_def)
  have m1: "wnode s1 i = Some m" using m(1) by (simp add: s1_def)
  note f = free_node_spec [OF w1 m1]
  let ?s = "(free_node i s1)\<lparr>cancels := cancels (free_node i s1) + 1\<rparr>"
  have cn: "cancel \<lparr> t_index = i, t_generation = tgen n \<rparr> s = Some (?s, False)" using n st u(1) by (simp add: cancel_def Let_def s1_def)
  have v: "vw ?s = (vw s)(i \<mapsto> (0, tgen n + 1, TFree, ttag n))" using f(2) u(3) m(2) by (simp add: s1_def tcore_def)
  have flds: "whw ?s = whw s" "now_tick ?s = now_tick s" "nearest ?s = nearest s" "armed ?s = armed s" "fired_pending ?s = fired_pending s - 1"
    using f(3,4) u(4,5) by (simp_all add: s1_def ctl_def cnt_def)
  have wc: "wcore ?s {} L (xs @ ys) (i # R)" using f(1) by (simp add: wcore_def w_tab_def)
  note fr = freed_ready [OF r wc v flds(1-3) _ _ _ w order_refl]
  then show ?thesis using cn fi flds v by (intro exI [of _ ?s]) simp
qed

lemma cancel_stale: "\<not> timer_valid t s \<Longrightarrow> cancel t s = Some (s, False)"
  by (auto simp: timer_valid_def cancel_def split: option.splits)

lemma take_fired_spec:
  assumes r: "wready s"
  shows "\<exists>s' x. take_fired s = (s', x) \<and> wready s' \<and> now_tick s' = now_tick s \<and> whw s' = whw s \<and>
    (case x of None \<Rightarrow> s' = s \<and> fset_of s = {}
     | Some (t, tag) \<Rightarrow> (\<exists>d. vw s (t_index t) = Some (d, t_generation t, TFired, tag) \<and> (\<forall>j \<in> fset_of s. d \<le> dl (wnode s) j) \<and>
          vw s' = (vw s)(t_index t \<mapsto> (0, t_generation t + 1, TFree, tag))) \<and>
         t_index t \<in> fset_of s \<and> aset s' = aset s \<and> fset_of s' = fset_of s - {t_index t})"
proof -
  obtain L F R where w: "wok s {} L F R" "filed_but {} s L" using wreadyD(1) [OF r] by blast
  note c = wokD [OF w(1)] and f = wcore_fired [OF wokD(1) [OF w(1)]]
  show ?thesis
  proof (cases F)
    case Nil
    then have "fset_of s = {}" using fset_listed [OF w(1)] by auto
    then show ?thesis using r f(5) Nil by (intro exI [of _ s] exI [of _ None]) (simp add: take_fired_def)
  next
    case (Cons i ys)
    have fi: "i \<in> fset_of s" using fset_listed [OF w(1), of i] Cons by simp
    then obtain n where n: "wnode s i = Some n" "tstat n = TFired" and iw: "i < whw s" by (auto simp: fset_of_def stat_is_def)
    have ia: "i \<notin> aset s" using n by (auto simp: aset_def stat_is_def)
    have tl: "sls (wnode s) (tnext n) ys NIL" using f(1) n Cons by simp
    define s1 where "s1 = s\<lparr>fired_head := tnext n, fired_pending := fired_pending s - 1\<rparr>"
    have "fired_list (wnode s) (tnext n) ys" using tl f(2-4) Cons by (simp add: fired_list_def)
    from wlists_fired [OF wcoreD(2) [OF c(1)] _ this, of "{i}"] f(2) Cons c(3)
    have w1: "wcore s1 {i} L ys R" by (auto simp: s1_def wcore_def w_tab_def)
    have n1: "wnode s1 i = Some n" using n by (simp add: s1_def)
    note fn = free_node_spec [OF w1 n1]
    let ?s = "free_node i s1"
    have tk: "take_fired s = (?s, Some (\<lparr> t_index = i, t_generation = tgen n \<rparr>, ttag n))"
      using f(5) Cons n iw c(4) by (simp add: take_fired_def Let_def s1_def)
    have v: "vw ?s = (vw s)(i \<mapsto> (0, tgen n + 1, TFree, ttag n))" using fn(2) by (simp add: s1_def)
    have flds: "whw ?s = whw s" "now_tick ?s = now_tick s" "nearest ?s = nearest s" "armed ?s = armed s" "fired_pending ?s = fired_pending s - 1"
      using fn(3,4) by (simp_all add: s1_def ctl_def cnt_def)
    note fr = freed_ready [OF r fn(1) v flds(1-3) _ _ _ w order_refl]
    have "deadline_ns n \<le> dl (wnode s) j" if "j \<in> fset_of s" for j
      using that fset_listed [OF w(1), of j] f(4) Cons n by (auto simp: dl_def)
    then show ?thesis using tk fr fi ia flds v n
      by (intro exI [of _ ?s] exI [of _ "Some (\<lparr> t_index = i, t_generation = tgen n \<rparr>, ttag n)"]) (simp add: vw_def [of s] tcore_def)
  qed
qed

section \<open>The nearest deadline, and the checker\<close>

lemma foldl_nearer_le: "foldl nearer b ns \<le> b"
  by (induction ns arbitrary: b) (auto simp: nearer_def intro: order_trans less_imp_le)

lemma foldl_nearer_low: "n \<in> set ns \<Longrightarrow> tstat n = TArmed \<Longrightarrow> foldl nearer b ns \<le> deadline_ns n"
proof (induction ns arbitrary: b)
  case (Cons m ns)
  show ?case
  proof (cases "m = n")
    case True
    then have "nearer b m \<le> deadline_ns n" using Cons.prems(2) by (simp add: nearer_def)
    then show ?thesis using foldl_nearer_le [of "nearer b m" ns] by simp
  next
    case False
    then show ?thesis using Cons.IH [of "nearer b m"] Cons.prems by simp
  qed
qed simp

lemma foldl_nearer_hit: "foldl nearer b ns = b \<or> (\<exists>n \<in> set ns. tstat n = TArmed \<and> deadline_ns n = foldl nearer b ns)"
proof (induction ns arbitrary: b)
  case (Cons m ns)
  show ?case using Cons.IH [of "nearer b m"] by (auto simp: nearer_def split: if_splits)
qed simp

definition table_nodes :: "wheel \<Rightarrow> tnode list" where
  "table_nodes s = take (whw s) (contents (wnodes s))"

lemma table_nodes:
  assumes "w_tab s"
  shows "length (table_nodes s) = whw s" "i < whw s \<Longrightarrow> wnode s i = Some (table_nodes s ! i)"
    "n \<in> set (table_nodes s) \<longleftrightarrow> (\<exists>i < whw s. wnode s i = Some n)"
proof -
  show l: "length (table_nodes s) = whw s" using w_tabD(3,5) [OF assms] by (simp add: table_nodes_def)
  show nth: "wnode s i = Some (table_nodes s ! i)" if "i < whw s" for i using wnode_nth [OF assms that] that by (simp add: table_nodes_def)
  show "n \<in> set (table_nodes s) \<longleftrightarrow> (\<exists>i < whw s. wnode s i = Some n)" using l nth by (auto simp: in_set_conv_nth)
qed

lemma armed_nodes:
  assumes "w_tab s"
  shows "deadline_ns ` {n \<in> set (table_nodes s). tstat n = TArmed} = dl (wnode s) ` aset s"
proof (intro set_eqI iffI)
  fix d assume "d \<in> deadline_ns ` {n \<in> set (table_nodes s). tstat n = TArmed}"
  then obtain n i where "i < whw s" "wnode s i = Some n" "tstat n = TArmed" "d = deadline_ns n" using table_nodes(3) [OF assms] by blast
  then show "d \<in> dl (wnode s) ` aset s" by (intro image_eqI [of _ _ i]) (simp_all add: aset_def stat_is_def dl_def)
next
  fix d assume "d \<in> dl (wnode s) ` aset s"
  then obtain i n where "i < whw s" "wnode s i = Some n" "tstat n = TArmed" "d = deadline_ns n" by (auto simp: aset_def stat_is_def dl_def)
  then show "d \<in> deadline_ns ` {n \<in> set (table_nodes s). tstat n = TArmed}" using table_nodes(3) [OF assms, of n] by blast
qed

lemma nearest_of_spec:
  assumes r: "wready s"
  shows "\<exists>s' x. nearest_of s = (s', x) \<and> wready s' \<and> vw s' = vw s \<and> now_tick s' = now_tick s \<and> whw s' = whw s \<and> aset s' = aset s \<and> fset_of s' = fset_of s \<and>
    (case x of None \<Rightarrow> aset s = {} | Some m \<Rightarrow> aset s \<noteq> {} \<and> (\<forall>i \<in> aset s. m \<le> dl (wnode s) i) \<and>
      (nearest_dirty s \<longrightarrow> m = usize_max \<or> (\<exists>i \<in> aset s. dl (wnode s) i = m)))"
proof -
  obtain L F R where w: "wok s {} L F R" "filed_but {} s L" using wreadyD(1) [OF r] by blast
  define s' where "s' = (if nearest_dirty s then recompute_nearest s else s)"
  let ?m = "foldl nearer usize_max (table_nodes s)"
  have dirty: "nearest s' = ?m" if "nearest_dirty s" using that by (simp add: s'_def recompute_nearest_def table_nodes_def)
  have eq: "deadline_ns ` {n \<in> set (table_nodes s). tstat n = TArmed} = dl (wnode s) ` aset s" by (rule armed_nodes [OF wokD(3) [OF w(1)]])
  have low: "?m \<le> dl (wnode s) i" if "i \<in> aset s" for i
  proof -
    have "dl (wnode s) i \<in> deadline_ns ` {n \<in> set (table_nodes s). tstat n = TArmed}" unfolding eq using that by blast
    then show ?thesis using foldl_nearer_low by auto
  qed
  have hit: "?m = usize_max \<or> (\<exists>i \<in> aset s. dl (wnode s) i = ?m)"
  proof (cases "?m = usize_max")
    case False
    then have "?m \<in> deadline_ns ` {n \<in> set (table_nodes s). tstat n = TArmed}" using foldl_nearer_hit [of usize_max "table_nodes s"] by (auto simp: image_iff)
    then show ?thesis unfolding eq by auto
  qed simp
  have near: "nearest s' \<le> dl (wnode s) i" if "i \<in> aset s" for i
    using low [OF that] wreadyD(3) [OF r that] dirty by (cases "nearest_dirty s") (simp_all add: s'_def)
  have flds: "wok s' {} L F R" "vw s' = vw s" "wnode s' = wnode s" "now_tick s' = now_tick s" "whw s' = whw s" "aset s' = aset s" "fset_of s' = fset_of s"
    "armed s' = armed s" using w(1) by (simp_all add: s'_def recompute_nearest_def aset_def fset_of_def)
  have "filed_but {} s' L" using w(2) flds(3,4) by (simp add: filed_but_def)
  moreover have "rest_free s'" using wreadyD(2) [OF r] flds(3,5) by (simp add: rest_free_def)
  ultimately have rdy: "wready s'" using flds(1,3,6) near unfolding wready_def by auto
  have "armed s = 0 \<longleftrightarrow> aset s = {}" using wokD(2) [OF w(1)] by (simp add: counted_def)
  then show ?thesis using flds rdy near hit dirty
    by (intro exI [of _ s'] exI [of _ "if armed s' = 0 then None else Some (nearest s')"]) (simp add: nearest_of_def Let_def flip: s'_def)
qed

lemma the_node: "stat_is g st x \<Longrightarrow> tstat (the (g x)) = st \<and> deadline_ns (the (g x)) = dl g x"
  by (auto simp: stat_is_def dl_def)

lemma walk_spec:
  assumes "sls (wnode s) h xs NIL" and "length xs \<le> fuel" and "\<And>x. x \<in> set xs \<Longrightarrow> x \<noteq> NIL"
  shows "walk s fuel h = Some (map (\<lambda>x. the (wnode s x)) xs)"
  using assms
proof (induction xs arbitrary: h fuel)
  case Nil
  then show ?case by (subst walk.simps) simp
next
  case (Cons x xs)
  then obtain n f where n: "h = x" "wnode s x = Some n" "sls (wnode s) (tnext n) xs NIL" "fuel = Suc f" "x \<noteq> NIL"
    by (cases fuel) (auto split: option.splits)
  with Cons.IH [OF n(3), of f] Cons.prems(2,3) show ?case by (subst walk.simps) simp
qed

lemma list_of_table:
  assumes "wcore s {} L F R" and "distinct xs" and "\<And>x. x \<in> set xs \<Longrightarrow> x < whw s"
  shows "length xs \<le> whw s + 1" "x \<in> set xs \<Longrightarrow> x \<noteq> NIL"
proof -
  have "card (set xs) \<le> card {..<whw s}" by (rule card_mono) (use assms(3) in auto)
  then show "length xs \<le> whw s + 1" using distinct_card [OF assms(2)] by simp
  show "x \<in> set xs \<Longrightarrow> x \<noteq> NIL" using assms(3) [of x] w_tabD(4) [OF wcoreD(1) [OF assms(1)]] by auto
qed

lemma linked_of_sum:
  assumes w: "wcore s {} L F R"
  shows "linked_of s (map (head_of s) bs) = Some (sum_list (map (\<lambda>b. length (L b)) bs))"
proof (induction bs)
  case (Cons b bs)
  note bk = wcore_bucket [OF w, where b = b]
  have mem: "x < whw s" if "x \<in> set (L b)" for x using wcore_members(1) [OF w that] .
  have wk: "walk s (whw s + 1) (head_of s b) = Some (map (\<lambda>x. the (wnode s x)) (L b))"
    by (rule walk_spec [OF dls_sls [OF bk(1)] list_of_table [OF w bk(2) mem]])
  have "filter (\<lambda>n. tstat n = TArmed) (map (\<lambda>x. the (wnode s x)) (L b)) = map (\<lambda>x. the (wnode s x)) (L b)"
    by (rule filter_True) (use bk(4) in \<open>auto simp: the_node\<close>)
  then show ?case using Cons wk by (simp add: linked_of_def)
qed (simp add: linked_of_def)

lemma distinct_all_buckets: "distinct all_buckets"
  unfolding all_buckets_def product_concat_map [symmetric] by (intro distinct_product distinct_upt)

lemma buckets_cover:
  assumes w: "wok s {} L F R"
  shows "sum_list (map (\<lambda>b. length (L b)) (map Some all_buckets @ [None])) = card (aset s)"
proof -
  note c = wokD(1) [OF w]
  let ?B = "map Some all_buckets @ [None]"
  have dB: "distinct ?B" using distinct_all_buckets by (simp add: distinct_map)
  have "aset s = (\<Union>b \<in> set ?B. set (L b))"
  proof -
    have "b \<in> set ?B" if "i \<in> set (L b)" for i b
    proof (cases b)
      case (Some x)
      have "L b \<noteq> []" using that by auto
      then show ?thesis using wcore_bucket(3) [OF c, of b] all_buckets_ok [of x] Some by simp
    qed simp
    then have "i \<in> aset s \<longleftrightarrow> (\<exists>b \<in> set ?B. i \<in> set (L b))" for i unfolding aset_listed [OF w] by metis
    then show ?thesis by (intro set_eqI) (simp only: UN_iff)
  qed
  moreover have "card (\<Union>b \<in> set ?B. set (L b)) = (\<Sum>b \<in> set ?B. card (set (L b)))"
    by (rule card_UN_disjoint) (use wlistsD(4) [OF wcoreD(2) [OF c]] in blast)+
  moreover have "(\<Sum>b \<in> set ?B. card (set (L b))) = sum_list (map (\<lambda>b. length (L b)) ?B)"
    unfolding sum.distinct_set_conv_list [OF dB] distinct_card [OF wcore_bucket(2) [OF c]] ..
  ultimately show ?thesis by simp
qed

lemma count_nodes:
  assumes "w_tab s"
  shows "length (filter (\<lambda>n. tstat n = st) (table_nodes s)) = card {i. i < whw s \<and> stat_is (wnode s) st i}"
proof -
  have "{i. i < length (table_nodes s) \<and> tstat (table_nodes s ! i) = st} = {i. i < whw s \<and> stat_is (wnode s) st i}"
    using table_nodes(1,2) [OF assms] by (auto simp: stat_is_def)
  then show ?thesis by (simp add: length_filter_conv_card)
qed

lemma wready_invariant_holds:
  assumes r: "wready s"
  shows "wheel_invariant_holds s"
proof -
  obtain L F R where w: "wok s {} L F R" "filed_but {} s L" using wreadyD(1) [OF r] by blast
  note c = wokD [OF w(1)] and f = wcore_fired [OF wokD(1) [OF w(1)]]
  have cn: "length (filter (\<lambda>n. tstat n = TArmed) (table_nodes s)) = armed s" "length (filter (\<lambda>n. tstat n = TFired) (table_nodes s)) = fired_pending s"
    using c(2) count_nodes [OF c(3)] by (simp_all add: counted_def aset_def fset_of_def)
  have heads: "map (heads s) all_buckets @ [overflow s] = map (head_of s) (map Some all_buckets @ [None])" by (simp add: head_of_def)
  have lk: "linked_of s (map (heads s) all_buckets @ [overflow s]) = Some (armed s)"
    unfolding heads linked_of_sum [OF c(1)] buckets_cover [OF w(1)] using c(2) by (simp add: counted_def)
  have mem: "x < whw s" if "x \<in> set F" for x using wcore_members(2) [OF c(1) that] .
  have wk: "walk s (whw s + 1) (fired_head s) = Some (map (\<lambda>x. the (wnode s x)) F)"
    by (rule walk_spec [OF f(1) list_of_table [OF c(1) f(2) mem]])
  have dls: "map deadline_ns (map (\<lambda>x. the (wnode s x)) F) = map (dl (wnode s)) F" using the_node [OF f(3)] by simp
  have fp: "length F = fired_pending s"
  proof -
    have "fset_of s = set F" using fset_listed [OF w(1)] by (intro set_eqI)
    then show ?thesis using c(2) distinct_card [OF f(2)] by (simp add: counted_def)
  qed
  have fired: "list_all (\<lambda>n. tstat n = TFired) (map (\<lambda>x. the (wnode s x)) F)" using f(3) by (auto simp: list_all_iff the_node)
  let ?am = "filter (\<lambda>n. tstat n = TArmed) (table_nodes s)"
  have near: "?am = [] \<or> nearest s \<le> Min (set (map deadline_ns ?am))"
  proof -
    have "nearest s \<le> d" if "d \<in> set (map deadline_ns ?am)" for d
      using that armed_nodes [OF c(3)] wreadyD(3) [OF r] by auto
    then show ?thesis by (cases ?am) (simp_all add: Min_ge_iff)
  qed
  have ord: "sorted (map deadline_ns (map (\<lambda>x. the (wnode s x)) F))" unfolding dls by (rule f(4))
  show ?thesis
    unfolding wheel_invariant_holds_def Let_def table_nodes_def [symmetric] wk option.case cn lk
    using fired ord fp near by (simp del: map_map)
qed

section \<open>Operation sequences\<close>

lemma empty_ready:
  assumes "w_tab s" and "whw s = 0" and "head_of s = (\<lambda>_. NIL)" and "fired_head s = NIL" and "wfree s = NIL" and "cnt s = (0, 0)"
    and "cap (wnodes s) = 0"
  shows "wready s" "aset s = {}" "fset_of s = {}"
proof -
  have "wnode s i = None" for i using w_tabD(5) [OF assms(1)] assms(7) by (simp add: wnode_def nth_opt_def)
  then have n: "\<not> stat_is (wnode s) st i" for st i by (simp add: stat_is_def)
  show as: "aset s = {}" "fset_of s = {}" using n by (simp_all add: aset_def fset_of_def)
  show "wready s"
  proof (rule wreadyI)
    have "wlists (wnode s) (\<lambda>_. NIL) NIL NIL 0 {} (\<lambda>_. []) [] []"
      by (rule wlistsI) (simp_all add: bucket_list_def fired_list_def free_list_def)
    then show "wcore s {} (\<lambda>_. []) [] []" using assms by (simp add: wcore_def)
    show "counted s" using as assms(6) by (simp add: counted_def cnt_def)
  qed (simp_all add: filed_but_def as rest_free_def n)
qed

lemma wheel_new_ready: "km_inv k \<Longrightarrow> wready (wheel_new k) \<and> fset_of (wheel_new k) = {}"
proof -
  assume k: "km_inv k"
  have "funded_inv node_ty k funded_new" by (rule funded_inv_new) (simp add: node_ty_page)
  then have "w_tab (wheel_new k)" using k by (simp add: w_tab_def wheel_new_def)
  moreover have "head_of (wheel_new k) = (\<lambda>_. NIL)" by (auto simp: head_of_def wheel_new_def split: option.split)
  ultimately show ?thesis using empty_ready [of "wheel_new k"] by (simp add: wheel_new_def cnt_def funded_new_def)
qed

lemma wheel_release_spec:
  assumes "w_tab s"
  shows "\<exists>s'. wheel_release s = Some s' \<and> w_tab s' \<and> whw s' = 0 \<and> head_of s' = (\<lambda>_. NIL) \<and> fired_head s' = NIL \<and> wfree s' = NIL \<and>
    cnt s' = (0, 0) \<and> cap (wnodes s') = 0"
proof -
  from funded_release_spec [OF w_tabD(1,2) [OF assms]] obtain k t where
    r: "funded_release (wmem s, wnodes s) = Some (k, t)" "km_inv k" "funded_inv node_ty k t" "cap t = 0" by (auto simp: table_acct_def)
  then show ?thesis by (auto simp: wheel_release_def cnt_def w_tab_def head_of_def split: option.split)
qed

lemma wheel_init_spec:
  assumes "w_tab s"
  shows "\<exists>s'. wheel_init ow now s = Some s' \<and> wready s' \<and> aset s' = {} \<and> fset_of s' = {}"
proof -
  from wheel_release_spec [OF assms] obtain s1 where
    1: "wheel_release s = Some s1" "w_tab s1" "whw s1 = 0" "head_of s1 = (\<lambda>_. NIL)" "fired_head s1 = NIL" "wfree s1 = NIL" "cnt s1 = (0, 0)" "cap (wnodes s1) = 0"
    by blast
  obtain k t where kt: "funded_set_owner ow (wmem s1, wnodes s1) = (k, t)" by fastforce
  note o = funded_set_owner_inv [OF w_tabD(1,2) [OF 1(2)] kt]
  have "cap t = cap (wnodes s1)" using kt by (auto simp: funded_set_owner_def)
  let ?s = "s1\<lparr>wmem := k, wnodes := t, now_tick := now div TICK_NS\<rparr>"
  have "w_tab ?s" "head_of ?s = (\<lambda>_. NIL)"
    using o(1,2) 1(3,4) head_of_cong [of ?s s1] by (simp_all add: w_tab_def)
  moreover have "wheel_init ow now s = Some ?s" using 1(1) kt by (simp add: wheel_init_def)
  ultimately show ?thesis using empty_ready [of ?s] 1 \<open>cap t = cap (wnodes s1)\<close> by (auto simp: cnt_def)
qed

datatype wheel_op = WArm nat u64 | WCancel timer | WAdvance nat | WTake | WNearest | WInit owner nat | WRelease

fun wheel_step :: "wheel_op \<Rightarrow> wheel \<Rightarrow> wheel option" where
  "wheel_step (WArm d tag) s = map_option fst (arm d tag s)"
| "wheel_step (WCancel t) s = map_option fst (cancel t s)"
| "wheel_step (WAdvance now) s = map_option fst (advance now s)"
| "wheel_step WTake s = Some (fst (take_fired s))"
| "wheel_step WNearest s = Some (fst (nearest_of s))"
| "wheel_step (WInit ow now) s = wheel_init ow now s"
| "wheel_step WRelease s = wheel_release s"

text \<open>The latest time that an advance of the sequence was given.\<close>

fun latest :: "wheel_op list \<Rightarrow> nat" where
  "latest [] = 0"
| "latest (WAdvance now # ops) = max now (latest ops)"
| "latest (_ # ops) = latest ops"

definition fired_by :: "nat \<Rightarrow> wheel \<Rightarrow> bool" where
  "fired_by T s \<longleftrightarrow> (\<forall>i \<in> fset_of s. dl (wnode s) i \<le> T)"

lemma fired_by_mono: "fired_by T s \<Longrightarrow> T \<le> T' \<Longrightarrow> fired_by T' s"
  by (auto simp: fired_by_def intro: order_trans)

lemma fired_by_kept:
  assumes "fired_by T s" and "\<And>i. i \<in> fset_of s' \<Longrightarrow> i \<in> fset_of s \<and> vw s' i = vw s i"
  shows "fired_by T s'"
  using assms dl_cong [of s' _ s] by (auto simp: fired_by_def)

lemma fired_by_moved:
  assumes "fired_by T s" and "moved now s s'"
  shows "fired_by (max now T) s'"
  unfolding fired_by_def
proof
  fix i assume i: "i \<in> fset_of s'"
  from moved_node [OF assms(2), of i] show "dl (wnode s') i \<le> max now T"
  proof (elim disjE conjE)
    assume "vw s' i = vw s i"
    then have "i \<in> fset_of s" using i assms(2) by (simp add: fset_of_def stat_is_vw moved_def)
    then show ?thesis using assms(1) moved_dl [OF assms(2), of i] by (auto simp: fired_by_def)
  qed (use moved_dl [OF assms(2), of i] in simp)
qed

lemma advance_total: "wready s \<Longrightarrow> \<exists>s' f. advance now s = Some (s', f) \<and> wready s' \<and> moved now s s'"
  using advance_bulk [of s now] advance_step [of s now] by (cases "SLOTS \<le> now div TICK_NS - now_tick s") (auto simp: not_le)

lemma cancel_total:
  assumes "wready s"
  shows "\<exists>s' b. cancel t s = Some (s', b) \<and> wready s' \<and> fset_of s' \<subseteq> fset_of s \<and> (\<forall>i \<in> fset_of s'. vw s' i = vw s i)"
proof (cases "timer_valid t s")
  case False
  then show ?thesis using cancel_stale assms by auto
next
  case True
  then obtain n where n: "wnode s (t_index t) = Some n" "t = \<lparr> t_index = t_index t, t_generation = tgen n \<rparr>" "tstat n \<noteq> TFree"
    by (cases t) (auto simp: timer_valid_def split: option.splits)
  have "t_index t \<notin> fset_of s" if "tstat n = TArmed" using that n(1) by (auto simp: fset_of_def stat_is_def)
  then show ?thesis using cancel_armed [OF assms n(1)] cancel_fired [OF assms n(1)] n(2,3) by (cases "tstat n") auto
qed

lemma wheel_step_ready:
  assumes r: "wready s" and f: "fired_by T s"
  shows "\<exists>s'. wheel_step x s = Some s' \<and> wready s' \<and> fired_by (max (latest [x]) T) s'"
proof (cases x)
  case (WArm d tag)
  from arm_spec [OF r, of d tag] obtain s' y where a: "arm d tag s = Some (s', y)" "wready s'"
    and y: "case y of Inl _ \<Rightarrow> whw s' = whw s \<and> aset s' = aset s \<and> fset_of s' = fset_of s \<and> (\<forall>j < whw s. vw s' j = vw s j)
     | Inr t \<Rightarrow> t_index t \<notin> aset s \<union> fset_of s \<and> vw s' (t_index t) = Some (d, t_generation t, TArmed, tag) \<and>
         aset s' = insert (t_index t) (aset s) \<and> fset_of s' = fset_of s \<and> (\<forall>j < whw s. j \<noteq> t_index t \<longrightarrow> vw s' j = vw s j)"
    by blast
  have "fset_of s' = fset_of s" using y by (cases y) simp_all
  moreover have "vw s' j = vw s j" if "j \<in> fset_of s" for j
  proof -
    have "j < whw s" using that by (simp add: fset_of_def)
    then show ?thesis using y that by (cases y) auto
  qed
  ultimately show ?thesis using a fired_by_kept [OF f, of s'] WArm by auto
next
  case (WCancel t)
  from cancel_total [OF r, of t] show ?thesis using fired_by_kept [OF f] WCancel by fastforce
next
  case (WAdvance now)
  from advance_total [OF r, of now] show ?thesis using fired_by_moved [OF f] WAdvance by fastforce
next
  case WTake
  from take_fired_spec [OF r] obtain s' y where t: "take_fired s = (s', y)" "wready s'" "fset_of s' \<subseteq> fset_of s" "\<And>i. i \<in> fset_of s' \<Longrightarrow> vw s' i = vw s i"
    by (fastforce split: option.splits)
  then show ?thesis using fired_by_kept [OF f, of s'] WTake by auto
next
  case WNearest
  from nearest_of_spec [OF r] show ?thesis using fired_by_kept [OF f] WNearest by fastforce
next
  case (WInit ow now)
  from wheel_init_spec [OF wreadyD(4) [OF r], of ow now] show ?thesis using WInit by (auto simp: fired_by_def)
next
  case WRelease
  from wheel_release_spec [OF wreadyD(4) [OF r]] obtain s' where s': "wheel_release s = Some s'" "wready s'" "fset_of s' = {}"
    using empty_ready by metis
  then show ?thesis using WRelease by (auto simp: fired_by_def)
qed

lemma latest_Cons: "latest (x # ops) = max (latest [x]) (latest ops)"
  by (cases x) simp_all

lemma wheel_run_ready:
  assumes "wready s" and "fired_by T s"
  shows "\<exists>s'. for_each wheel_step ops s = Some s' \<and> wready s' \<and> fired_by (max T (latest ops)) s'"
  using assms
proof (induction ops arbitrary: s T)
  case (Cons x ops)
  from wheel_step_ready [OF Cons.prems, of x] obtain s1 where 1: "wheel_step x s = Some s1" "wready s1" "fired_by (max (latest [x]) T) s1" by blast
  from Cons.IH [OF 1(2,3)] show ?case using 1(1) by (simp add: latest_Cons [of x ops] max.left_commute max.assoc)
qed simp

lemma wheel_run_new:
  assumes "km_inv k"
  shows "\<exists>s. for_each wheel_step ops (wheel_new k) = Some s \<and> wready s \<and> fired_by (latest ops) s"
  using wheel_run_ready [of "wheel_new k" 0 ops] wheel_new_ready [OF assms] by (auto simp: fired_by_def)

section \<open>Properties\<close>

lemma timer_vw:
  "timer_valid t s \<longleftrightarrow> (case vw s (t_index t) of Some (_, gn, st, _) \<Rightarrow> gn = t_generation t \<and> st \<noteq> TFree | None \<Rightarrow> False)"
  "timer_fired t s \<longleftrightarrow> (case vw s (t_index t) of Some (_, gn, st, _) \<Rightarrow> gn = t_generation t \<and> st = TFired | None \<Rightarrow> False)"
  by (auto simp: timer_valid_def timer_fired_def vw_def tcore_def split: option.splits)

lemma valid_listed:
  assumes "wready s" and "timer_valid u s"
  shows "t_index u \<in> aset s \<union> fset_of s" "t_index u < whw s"
proof -
  obtain n where n: "wnode s (t_index u) = Some n" "tstat n \<noteq> TFree" using assms(2) by (auto simp: timer_valid_def split: option.splits)
  from valid_member [OF assms(1) n] show "t_index u \<in> aset s \<union> fset_of s" "t_index u < whw s" by blast+
qed

lemma timer_same:
  assumes r: "wready s" and r': "wready s'" and sub: "aset s' \<union> fset_of s' \<subseteq> insert i (aset s \<union> fset_of s)"
    and v: "\<And>j. j < whw s \<Longrightarrow> j \<noteq> i \<Longrightarrow> vw s' j = vw s j" and u: "t_index u \<noteq> i"
  shows "timer_valid u s' = timer_valid u s" "timer_fired u s' = timer_fired u s"
proof -
  have fv: "timer_fired u x \<Longrightarrow> timer_valid u x" for x by (auto simp: timer_vw split: option.splits)
  have inn': "t_index u < whw s" if "timer_valid u s'" using valid_listed(1) [OF r' that] sub u by (auto simp: aset_def fset_of_def)
  have inn: "t_index u < whw s" if "timer_valid u s" by (rule valid_listed(2) [OF r that])
  show "timer_valid u s' = timer_valid u s" "timer_fired u s' = timer_fired u s"
    using v [of "t_index u"] u inn inn' fv [of s] fv [of s'] by (cases "t_index u < whw s"; auto simp: timer_vw)+
qed

lemma armed_member:
  assumes "wready s" and "wnode s i = Some n" and "tstat n = TArmed"
  shows "i \<in> aset s" "dl (wnode s) i = deadline_ns n"
  using valid_member(2) [OF assms(1,2)] assms(2,3) by (simp_all add: dl_def)

text \<open>
  C15: from an empty wheel, every sequence of arm, cancel, advance, collect, query, init and release runs to its end (no
  counter goes below zero and no walk along the links fails to stop); then the wheel's own invariant check answers true,
  and the nearest-deadline query answers none exactly when nothing is armed, and otherwise a time no later than any armed
  deadline, so that the hardware timer is never set too late.
\<close>

theorem wheel_run_sound:
  assumes "km_inv k"
  shows "\<exists>s. for_each wheel_step ops (wheel_new k) = Some s \<and> wheel_invariant_holds s \<and>
    (case snd (nearest_of s) of None \<Rightarrow> armed s = 0
     | Some m \<Rightarrow> 0 < armed s \<and> (\<forall>i n. wnode s i = Some n \<longrightarrow> tstat n = TArmed \<longrightarrow> m \<le> deadline_ns n))"
proof -
  from wheel_run_new [OF assms, of ops] obtain s where s: "for_each wheel_step ops (wheel_new k) = Some s" "wready s" by blast
  from nearest_of_spec [OF s(2)] obtain s' x where
    n: "nearest_of s = (s', x)" and x: "case x of None \<Rightarrow> aset s = {} | Some m \<Rightarrow> aset s \<noteq> {} \<and> (\<forall>i \<in> aset s. m \<le> dl (wnode s) i) \<and>
      (nearest_dirty s \<longrightarrow> m = usize_max \<or> (\<exists>i \<in> aset s. dl (wnode s) i = m))" by blast
  have "armed s = card (aset s)" using wreadyD(5) [OF s(2)] by (simp add: counted_def)
  moreover have "m \<le> deadline_ns n" if "x = Some m" "wnode s i = Some n" "tstat n = TArmed" for m i n
    using x that armed_member [OF s(2) that(2,3)] by auto
  ultimately show ?thesis
    using s n x wready_invariant_holds [OF s(2)] by (intro exI [of _ s]) (auto simp: card_gt_0_iff split: option.splits)
qed

theorem wheel_run_sound_witness:
  "\<exists>k s. km_inv k \<and> for_each wheel_step [WInit OWNER_KERNEL 0, WArm 5000 7, WArm 90000 8, WAdvance 6000, WTake] (wheel_new k) = Some s \<and>
    wheel_invariant_holds s"
proof -
  obtain k where k: "km_inv k" using boot_memory by blast
  from wheel_run_sound [OF k, of "[WInit OWNER_KERNEL 0, WArm 5000 7, WArm 90000 8, WAdvance 6000, WTake]"] k show ?thesis by blast
qed

text \<open>
  C16: in any reachable wheel, an advance to \<open>now\<close> returns, and fires nothing before its deadline: each node keeps its
  deadline, generation and tag, and changes at most from armed to fired, when it is due. Nothing due of a tick that the
  wheel had not reached yet stays armed, whatever level or list it was filed in: what is due and left is of a tick
  at or before the one the wheel started from (and not of the tick it is at now). After a jump of a whole turn nothing
  due is left at all, and the number returned is the number of timers that fired.
\<close>

theorem advance_fires_due:
  assumes "km_inv k" and "for_each wheel_step ops (wheel_new k) = Some s"
  shows "\<exists>s' fired. advance now s = Some (s', fired) \<and>
    (\<forall>i n. wnode s' i = Some n \<longrightarrow> tstat n = TArmed \<longrightarrow> deadline_ns n \<le> now \<longrightarrow>
       now div TICK_NS - now_tick s < SLOTS \<and> deadline_ns n div TICK_NS \<le> now_tick s \<and> deadline_ns n div TICK_NS \<noteq> now_tick s') \<and>
    (\<forall>i n. wnode s i = Some n \<longrightarrow> (\<exists>n'. wnode s' i = Some n' \<and>
       (tcore n' = tcore n \<or> tstat n = TArmed \<and> deadline_ns n \<le> now \<and> tcore n' = (deadline_ns n, tgen n, TFired, ttag n)))) \<and>
    (SLOTS \<le> now div TICK_NS - now_tick s \<longrightarrow> fired + armed s' = armed s)"
proof -
  have r: "wready s" using wheel_run_new [OF assms(1), of ops] assms(2) by auto
  obtain s' fired where a: "advance now s = Some (s', fired)" "wready s'" "moved now s s'"
    and left: "\<And>i. i \<in> aset s' \<Longrightarrow> dl (wnode s') i \<le> now \<Longrightarrow>
      now div TICK_NS - now_tick s < SLOTS \<and> dtick s' i \<le> now_tick s \<and> dtick s' i \<noteq> now_tick s'"
    and cnt: "SLOTS \<le> now div TICK_NS - now_tick s \<Longrightarrow> fired + armed s' = armed s"
  proof (cases "SLOTS \<le> now div TICK_NS - now_tick s")
    case True
    from advance_bulk [OF r True] that show ?thesis by (metis add.commute not_le)
  next
    case False
    then have "now div TICK_NS - now_tick s < SLOTS" by simp
    from advance_step [OF r this] that False show ?thesis by (metis not_le)
  qed
  have node: "\<exists>n'. wnode s' i = Some n' \<and>
       (tcore n' = tcore n \<or> tstat n = TArmed \<and> deadline_ns n \<le> now \<and> tcore n' = (deadline_ns n, tgen n, TFired, ttag n))"
    if "wnode s i = Some n" for i n
    using moved_node [OF a(3), of i] that by (auto simp: vw_def aset_def stat_is_def dl_def fire_def tcore_def)
  have "now div TICK_NS - now_tick s < SLOTS \<and> deadline_ns n div TICK_NS \<le> now_tick s \<and> deadline_ns n div TICK_NS \<noteq> now_tick s'"
    if "wnode s' i = Some n" "tstat n = TArmed" "deadline_ns n \<le> now" for i n
    using left [of i] armed_member [OF a(2) that(1,2)] that(3) by (simp add: dtick_def)
  with a(1) node cnt show ?thesis by blast
qed

theorem advance_fires_due_witness:
  "\<exists>k s s' fired. km_inv k \<and> for_each wheel_step [WInit OWNER_KERNEL 0, WArm 5000 7, WArm 700000 8] (wheel_new k) = Some s \<and>
    advance 900000 s = Some (s', fired)"
proof -
  obtain k where k: "km_inv k" using boot_memory by blast
  obtain s where s: "for_each wheel_step [WInit OWNER_KERNEL 0, WArm 5000 7, WArm 700000 8] (wheel_new k) = Some s"
    using wheel_run_new [OF k] by blast
  from advance_fires_due [OF k s, of 900000] k s show ?thesis by blast
qed

text \<open>
  In any reachable wheel, collecting hands out a fired timer with its own handle and tag, with the earliest deadline of
  all fired ones, and one that the clock has passed: its deadline is at most the latest time any advance was given. It
  answers none only when no timer is waiting. After that the handle is stale, and cancelling it changes nothing.
\<close>

theorem take_fired_order:
  assumes "km_inv k" and "for_each wheel_step ops (wheel_new k) = Some s" and "take_fired s = (s', x)"
  shows "case x of None \<Rightarrow> s' = s \<and> fired_pending s = 0
    | Some (t, tag) \<Rightarrow> timer_fired t s \<and>
        (\<exists>n. wnode s (t_index t) = Some n \<and> ttag n = tag \<and> deadline_ns n \<le> latest ops \<and>
           (\<forall>j m. wnode s j = Some m \<longrightarrow> tstat m = TFired \<longrightarrow> deadline_ns n \<le> deadline_ns m)) \<and>
        fired_pending s' + 1 = fired_pending s \<and> armed s' = armed s \<and> \<not> timer_valid t s' \<and> cancel t s' = Some (s', False)"
proof -
  obtain r: "wready s" and fb: "fired_by (latest ops) s" using wheel_run_new [OF assms(1), of ops] assms(2) by auto
  from take_fired_spec [OF r] assms(3) have r': "wready s'" and x: "case x of None \<Rightarrow> s' = s \<and> fset_of s = {}
     | Some (t, tag) \<Rightarrow> (\<exists>d. vw s (t_index t) = Some (d, t_generation t, TFired, tag) \<and> (\<forall>j \<in> fset_of s. d \<le> dl (wnode s) j) \<and>
          vw s' = (vw s)(t_index t \<mapsto> (0, t_generation t + 1, TFree, tag))) \<and>
         t_index t \<in> fset_of s \<and> aset s' = aset s \<and> fset_of s' = fset_of s - {t_index t}" by auto
  have c: "fired_pending s = card (fset_of s)" "armed s = card (aset s)" "fired_pending s' = card (fset_of s')" "armed s' = card (aset s')"
    using wreadyD(5) [OF r] wreadyD(5) [OF r'] by (simp_all add: counted_def)
  show ?thesis
  proof (cases x)
    case None
    then show ?thesis using x c(1) by simp
  next
    case (Some y)
    obtain t tag where y: "y = (t, tag)" by (cases y) auto
    let ?i = "t_index t"
    from x Some y obtain d where d: "vw s ?i = Some (d, t_generation t, TFired, tag)" "\<And>j. j \<in> fset_of s \<Longrightarrow> d \<le> dl (wnode s) j"
      "vw s' = (vw s)(?i \<mapsto> (0, t_generation t + 1, TFree, tag))" "?i \<in> fset_of s" "aset s' = aset s" "fset_of s' = fset_of s - {?i}" by auto
    from d(1) obtain n where n: "wnode s ?i = Some n" "tcore n = (d, t_generation t, TFired, tag)" by (auto simp: vw_def)
    then have nf: "deadline_ns n = d" "tgen n = t_generation t" "tstat n = TFired" "ttag n = tag" by (simp_all add: tcore_def)
    have "d \<le> latest ops" using fb d(4) n nf by (auto simp: fired_by_def dl_def)
    moreover have "d \<le> deadline_ns m" if "wnode s j = Some m" "tstat m = TFired" for j m
      using d(2) [of j] valid_member(3) [OF r that(1)] that by (simp add: dl_def)
    moreover have "fired_pending s' + 1 = fired_pending s"
      unfolding c(1,3) d(6) using card_Suc_Diff1 [OF finite_aset(2) d(4)] by simp
    moreover have stale: "\<not> timer_valid t s'"
      using d(3) by (simp add: timer_vw)
    moreover have "timer_fired t s" using n nf by (simp add: timer_fired_def)
    ultimately show ?thesis using Some y n nf c d(5) cancel_stale [OF stale] by auto
  qed
qed

theorem take_fired_order_witness:
  "\<exists>k s s' x. km_inv k \<and> for_each wheel_step [WInit OWNER_KERNEL 0, WArm 5000 7, WAdvance 5000] (wheel_new k) = Some s \<and>
    take_fired s = (s', x) \<and>
    (case x of None \<Rightarrow> s' = s \<and> fired_pending s = 0 | Some (t, tag) \<Rightarrow> timer_fired t s \<and> \<not> timer_valid t s')"
proof -
  obtain k where k: "km_inv k" using boot_memory by blast
  obtain s where s: "for_each wheel_step [WInit OWNER_KERNEL 0, WArm 5000 7, WAdvance 5000] (wheel_new k) = Some s"
    using wheel_run_new [OF k] by blast
  obtain s' x where t: "take_fired s = (s', x)" by fastforce
  from take_fired_order [OF k s t] have "case x of None \<Rightarrow> s' = s \<and> fired_pending s = 0 | Some (t, tag) \<Rightarrow> timer_fired t s \<and> \<not> timer_valid t s'"
    by (auto split: option.splits)
  with k s t show ?thesis by blast
qed

text \<open>
  In any reachable wheel, a handle that arming returns was not valid before and is valid after; cancelling it reports that
  the timer was armed, makes the handle stale, and leaves the armed and fired timers, and the validity of every handle
  to another node, as they were before it was armed. When the table cannot grow, arming changes no timer.
\<close>

theorem arm_then_cancel:
  assumes "km_inv k" and "for_each wheel_step ops (wheel_new k) = Some s" and "arm d tag s = Some (s1, x)"
  shows "case x of Inl _ \<Rightarrow> \<forall>u. timer_valid u s1 = timer_valid u s
    | Inr t \<Rightarrow> \<not> timer_valid t s \<and> timer_valid t s1 \<and>
        (\<exists>s2. cancel t s1 = Some (s2, True) \<and> \<not> timer_valid t s2 \<and> armed s2 = armed s \<and> fired_pending s2 = fired_pending s \<and>
           (\<forall>u. t_index u \<noteq> t_index t \<longrightarrow> timer_valid u s2 = timer_valid u s \<and> timer_fired u s2 = timer_fired u s))"
proof -
  have r: "wready s" using wheel_run_new [OF assms(1), of ops] assms(2) by auto
  from arm_spec [OF r, of d tag] assms(3) have r1: "wready s1"
    and y: "case x of Inl _ \<Rightarrow> whw s1 = whw s \<and> aset s1 = aset s \<and> fset_of s1 = fset_of s \<and> (\<forall>j < whw s. vw s1 j = vw s j)
     | Inr t \<Rightarrow> t_index t \<notin> aset s \<union> fset_of s \<and> vw s1 (t_index t) = Some (d, t_generation t, TArmed, tag) \<and>
         aset s1 = insert (t_index t) (aset s) \<and> fset_of s1 = fset_of s \<and> (\<forall>j < whw s. j \<noteq> t_index t \<longrightarrow> vw s1 j = vw s j)"
    by auto
  show ?thesis
  proof (cases x)
    case (Inl e)
    have "timer_valid u s1 = timer_valid u s" for u
      by (rule timer_same(1) [OF r r1, of "Suc (t_index u)"]) (use y Inl in auto)
    then show ?thesis using Inl by simp
  next
    case (Inr t)
    let ?i = "t_index t"
    from y Inr have t: "?i \<notin> aset s" "?i \<notin> fset_of s" "vw s1 ?i = Some (d, t_generation t, TArmed, tag)" "aset s1 = insert ?i (aset s)"
      "fset_of s1 = fset_of s" "\<And>j. j < whw s \<Longrightarrow> j \<noteq> ?i \<Longrightarrow> vw s1 j = vw s j" by auto
    from t(3) obtain n where n: "wnode s1 ?i = Some n" "tcore n = (d, t_generation t, TArmed, tag)" by (auto simp: vw_def)
    then have nf: "tgen n = t_generation t" "tstat n = TArmed" "t = \<lparr> t_index = ?i, t_generation = tgen n \<rparr>" by (simp_all add: tcore_def)
    from cancel_armed [OF r1 n(1) nf(2)] nf(3) obtain s2 where c: "cancel t s1 = Some (s2, True)" "wready s2"
      "vw s2 = (vw s1)(?i \<mapsto> (0, tgen n + 1, TFree, ttag n))" "aset s2 = aset s1 - {?i}" "fset_of s2 = fset_of s1" by metis
    have as: "aset s2 = aset s" "fset_of s2 = fset_of s" using c(4,5) t(1,4,5) by auto
    have "timer_valid u s2 = timer_valid u s \<and> timer_fired u s2 = timer_fired u s" if "t_index u \<noteq> ?i" for u
      using timer_same [OF r c(2), of ?i u] as that t(6) c(3) by auto
    moreover have "armed s2 = armed s" "fired_pending s2 = fired_pending s"
      using wreadyD(5) [OF r] wreadyD(5) [OF c(2)] as by (simp_all add: counted_def)
    moreover have "\<not> timer_valid t s" using valid_listed(1) [OF r, of t] t(1,2) by blast
    moreover have "timer_valid t s1" "\<not> timer_valid t s2" using t(3) c(3) nf(1) by (simp_all add: timer_vw)
    ultimately show ?thesis using Inr c(1) by auto
  qed
qed

theorem arm_then_cancel_witness:
  "\<exists>k s s1 x. km_inv k \<and> for_each wheel_step [WInit OWNER_KERNEL 0, WArm 5000 7, WAdvance 5000] (wheel_new k) = Some s \<and>
    arm 9000 3 s = Some (s1, x) \<and>
    (case x of Inl _ \<Rightarrow> \<forall>u. timer_valid u s1 = timer_valid u s | Inr t \<Rightarrow> \<not> timer_valid t s \<and> timer_valid t s1)"
proof -
  obtain k where k: "km_inv k" using boot_memory by blast
  obtain s where s: "for_each wheel_step [WInit OWNER_KERNEL 0, WArm 5000 7, WAdvance 5000] (wheel_new k) = Some s" "wready s"
    using wheel_run_new [OF k] by blast
  obtain s1 x where a: "arm 9000 3 s = Some (s1, x)" using arm_spec [OF s(2)] by blast
  from arm_then_cancel [OF k s(1) a] have "case x of Inl _ \<Rightarrow> \<forall>u. timer_valid u s1 = timer_valid u s | Inr t \<Rightarrow> \<not> timer_valid t s \<and> timer_valid t s1"
    by (auto split: sum.splits)
  with k s(1) a show ?thesis by blast
qed

end
