(* ===== verification/Arbiter.thy ===== *)
theory Arbiter
  imports Wheel
begin

text \<open>
  The timer arbiter of one processor, \<^verbatim>\<open>kernel/src/ktimer/mod.rs\<close>: a deadline per named client and the timing wheel
  behind one hardware one-shot, which is armed for the nearest deadline of both.

  The clock is read by the operations; a reading is an argument here. The one-shot is a field: the time it was armed
  at and the delay it was armed with, or \<open>None\<close> when it is disarmed; \<open>irq\<close> says whether the processor has a timer interrupt.
  The event records for the observation rings are left out.
\<close>

section \<open>Clients and state\<close>

datatype timer_client = RxPoll | RxDeadline | CellSleep | NetTimer | Pacer | FutexWait | Preempt | Storage

fun client_index :: "timer_client \<Rightarrow> nat" where
  "client_index RxPoll = 0" | "client_index RxDeadline = 1" | "client_index CellSleep = 2" | "client_index NetTimer = 3"
| "client_index Pacer = 4" | "client_index FutexWait = 5" | "client_index Preempt = 6" | "client_index Storage = 7"

definition CLIENTS :: nat where "CLIENTS = 8"

record tslot =
  sl_deadline :: u64
  sl_armed :: bool
  sl_fired :: bool

definition SLOT_EMPTY :: tslot where
  "SLOT_EMPTY = \<lparr> sl_deadline = 0, sl_armed = False, sl_fired = False \<rparr>"

record arbiter =
  clients :: "tslot list"
  ab_arms :: u64
  ab_firings :: u64
  ab_parks :: u64
  preserved :: u64
  regs :: "u64 list"

definition arbiter_new :: arbiter where
  "arbiter_new = \<lparr> clients = replicate CLIENTS SLOT_EMPTY, ab_arms = 0, ab_firings = 0, ab_parks = 0, preserved = 0, regs = replicate CLIENTS 0 \<rparr>"

record ktimer =
  irq :: bool
  arb :: arbiter
  kwheel :: wheel
  oneshot :: "(u64 \<times> u64) option"

definition ktimer_boot :: "bool \<Rightarrow> kmem \<Rightarrow> ktimer" where
  "ktimer_boot i k = \<lparr> irq = i, arb = arbiter_new, kwheel = wheel_new k, oneshot = None \<rparr>"

section \<open>Operations\<close>

definition named_nearest :: "arbiter \<Rightarrow> u64 option" where
  "named_nearest a = (case map sl_deadline (filter sl_armed (clients a)) of [] \<Rightarrow> None | d # ds \<Rightarrow> Some (foldl min d ds))"

definition nearest_ns :: "ktimer \<Rightarrow> ktimer \<times> nat option" where
  "nearest_ns s =
     (let named = named_nearest (arb s); (w, dynamic) = nearest_of (kwheel s)
      in (s\<lparr>kwheel := w\<rparr>,
          case (named, dynamic) of (Some a, Some b) \<Rightarrow> Some (min (unat a) b) | (Some a, None) \<Rightarrow> Some (unat a) | (None, b) \<Rightarrow> b))"

definition rearm_delta :: "u64 \<Rightarrow> nat \<Rightarrow> u64" where
  "rearm_delta now deadline = (let delta = word_of_nat deadline - now in if 2 ^ 63 \<le> delta then 1 else max delta 1)"

definition rearm :: "u64 \<Rightarrow> bool \<Rightarrow> ktimer \<Rightarrow> ktimer" where
  "rearm now after_release s =
     (let (s1, nearest) = nearest_ns s;
          s2 = (if after_release \<and> nearest \<noteq> None then s1\<lparr>arb := (arb s1)\<lparr>preserved := preserved (arb s1) + 1\<rparr>\<rparr> else s1)
      in if \<not> irq s2 then s2
         else case nearest of
             Some d \<Rightarrow> s2\<lparr>oneshot := Some (now, rearm_delta now d), arb := (arb s2)\<lparr>ab_arms := ab_arms (arb s2) + 1\<rparr>\<rparr>
           | None \<Rightarrow> s2\<lparr>oneshot := None\<rparr>)"

definition set_client :: "timer_client \<Rightarrow> tslot \<Rightarrow> arbiter \<Rightarrow> arbiter" where
  "set_client c v a = a\<lparr>clients := (clients a)[client_index c := v]\<rparr>"

definition register :: "u64 \<Rightarrow> timer_client \<Rightarrow> u64 \<Rightarrow> ktimer \<Rightarrow> ktimer" where
  "register now c in_ns s =
     (let a = set_client c \<lparr> sl_deadline = now + max in_ns 1, sl_armed = True, sl_fired = False \<rparr> (arb s);
          a1 = a\<lparr>regs := (regs a)[client_index c := regs a ! client_index c + 1]\<rparr>
      in rearm now False (s\<lparr>arb := a1\<rparr>))"

definition cancel_client :: "u64 \<Rightarrow> timer_client \<Rightarrow> ktimer \<Rightarrow> ktimer" where
  "cancel_client now c s =
     (let was = sl_armed (clients (arb s) ! client_index c)
      in rearm now was (s\<lparr>arb := set_client c SLOT_EMPTY (arb s)\<rparr>))"

definition slot_due :: "u64 \<Rightarrow> tslot \<Rightarrow> bool" where
  "slot_due now v \<longleftrightarrow> sl_armed v \<and> now - sl_deadline v < 2 ^ 63"

definition mark_due :: "u64 \<Rightarrow> arbiter \<Rightarrow> arbiter \<times> bool" where
  "mark_due now a =
     (a\<lparr>clients := map (\<lambda>v. if slot_due now v then v\<lparr>sl_armed := False, sl_fired := True\<rparr> else v) (clients a),
        ab_firings := ab_firings a + word_of_nat (length (filter (slot_due now) (clients a)))\<rparr>,
      filter (slot_due now) (clients a) \<noteq> [])"

definition service :: "u64 \<Rightarrow> ktimer \<Rightarrow> (ktimer \<times> bool) option" where
  "service now s =
     (let (a, d1) = mark_due now (arb s)
      in do { (w, fired) \<leftarrow> advance (unat now) (kwheel s);
              let s1 = s\<lparr>arb := a, kwheel := w\<rparr>; due = d1 \<or> 0 < fired
              in Some (if due then rearm now True s1 else s1, due) })"

definition expired :: "u64 \<Rightarrow> timer_client \<Rightarrow> ktimer \<Rightarrow> (ktimer \<times> bool) option" where
  "expired now c s = do { (s1, _) \<leftarrow> service now s; Some (s1, sl_fired (clients (arb s1) ! client_index c)) }"

definition pending :: "timer_client \<Rightarrow> ktimer \<Rightarrow> bool" where
  "pending c s \<longleftrightarrow> sl_armed (clients (arb s) ! client_index c)"

text \<open>
  \<open>ktimer_park\<close> reads the clock three times and asks the hardware whether its one-shot has elapsed (\<open>elapsed\<close>); the halt itself
  changes nothing here.
\<close>

definition ktimer_park :: "u64 \<Rightarrow> u64 \<Rightarrow> u64 \<Rightarrow> bool \<Rightarrow> bool \<Rightarrow> ktimer \<Rightarrow> (ktimer \<times> bool) option" where
  "ktimer_park now1 now2 now3 elapsed other_source s =
     do { (s1, due) \<leftarrow> service now1 s;
          if due then Some (s1, False)
          else let (s2, nr) = (if irq s1 then nearest_ns s1 else (s1, None)); is_armed = irq s1 \<and> nr \<noteq> None
               in if \<not> is_armed \<and> \<not> other_source then Some (s2, False)
                  else let s3 = (if is_armed then rearm now2 False s2 else s2)
                       in if is_armed \<and> elapsed then Some (s3, False)
                          else let s4 = s3\<lparr>arb := (arb s3)\<lparr>ab_parks := ab_parks (arb s3) + 1\<rparr>\<rparr>
                               in do { (s5, _) \<leftarrow> service now3 s4; Some (s5, True) } }"

definition ktimer_reset :: "u64 \<Rightarrow> ktimer \<Rightarrow> ktimer option" where
  "ktimer_reset now s =
     do { w \<leftarrow> wheel_init OWNER_KERNEL (unat now) (kwheel s);
          Some (s\<lparr>arb := arbiter_new, kwheel := w, oneshot := (if irq s then None else oneshot s)\<rparr>) }"

definition arm_dynamic :: "u64 \<Rightarrow> u64 \<Rightarrow> u64 \<Rightarrow> ktimer \<Rightarrow> (ktimer \<times> timer option) option" where
  "arm_dynamic now in_ns tag s =
     do { (w, r) \<leftarrow> arm (unat (now + max in_ns 1)) tag (kwheel s);
          let s1 = s\<lparr>kwheel := w\<rparr>
          in case r of Inl _ \<Rightarrow> Some (s1, None) | Inr t \<Rightarrow> Some (rearm now False s1, Some t) }"

definition cancel_dynamic :: "u64 \<Rightarrow> timer \<Rightarrow> ktimer \<Rightarrow> (ktimer \<times> bool) option" where
  "cancel_dynamic now t s =
     do { (w, was) \<leftarrow> cancel t (kwheel s); Some (rearm now was (s\<lparr>kwheel := w\<rparr>), was) }"

definition take_fired_dynamic :: "u64 \<Rightarrow> ktimer \<Rightarrow> (ktimer \<times> (timer \<times> u64) option) option" where
  "take_fired_dynamic now s =
     do { (s1, _) \<leftarrow> service now s; let (w, r) = take_fired (kwheel s1) in Some (s1\<lparr>kwheel := w\<rparr>, r) }"

definition fired_dynamic :: "timer \<Rightarrow> ktimer \<Rightarrow> bool" where
  "fired_dynamic t s = timer_fired t (kwheel s)"

section \<open>What is outstanding, and the one-shot\<close>

definition outstanding :: "ktimer \<Rightarrow> nat set" where
  "outstanding s = (\<lambda>v. unat (sl_deadline v)) ` {v \<in> set (clients (arb s)). sl_armed v} \<union> dl (wnode (kwheel s)) ` aset (kwheel s)"

text \<open>
  The one-shot, if there is an interrupt for it, fires no later than any outstanding deadline, or one nanosecond after it was armed when
  the deadline had passed by then.
\<close>

definition tick_covers :: "ktimer \<Rightarrow> bool" where
  "tick_covers s \<longleftrightarrow> (irq s \<longrightarrow> (\<forall>d \<in> outstanding s. \<exists>t delta. oneshot s = Some (t, delta) \<and> unat t + unat delta \<le> max d (unat t + 1)))"

definition kbase :: "ktimer \<Rightarrow> bool" where
  "kbase s \<longleftrightarrow> length (clients (arb s)) = CLIENTS \<and> length (regs (arb s)) = CLIENTS \<and> wready (kwheel s) \<and>
     (\<forall>i \<in> aset (kwheel s). dl (wnode (kwheel s)) i < 2 ^ 64)"

lemma client_index_less [simp]: "client_index c < CLIENTS"
  by (cases c) (simp_all add: CLIENTS_def)

lemma client_index_inj: "client_index c = client_index c' \<Longrightarrow> c = c'"
  by (cases c; cases c') simp_all

lemma foldl_min: "foldl min d ds \<in> insert d (set ds) \<and> (\<forall>x \<in> insert d (set ds). foldl min d ds \<le> (x :: 'a :: linorder))"
proof (induction ds arbitrary: d)
  case (Cons x ds)
  from Cons [of "min d x"] show ?case by (auto simp: min_def split: if_splits)
qed simp

lemma named_nearest_none: "named_nearest a = None \<longleftrightarrow> \<not> (\<exists>v \<in> set (clients a). sl_armed v)"
proof (cases "filter sl_armed (clients a)")
  case Nil
  then show ?thesis by (simp add: named_nearest_def filter_empty_conv)
next
  case (Cons v vs)
  have "v \<in> set (filter sl_armed (clients a))" by (simp add: Cons)
  then have "v \<in> set (clients a)" "sl_armed v" by auto
  then show ?thesis using Cons by (auto simp: named_nearest_def)
qed

lemma named_nearest_le:
  assumes "named_nearest a = Some m" and "v \<in> set (clients a)" and "sl_armed v"
  shows "m \<le> sl_deadline v"
proof -
  have v: "sl_deadline v \<in> set (map sl_deadline (filter sl_armed (clients a)))" using assms(2,3) by auto
  obtain d ds where ds: "map sl_deadline (filter sl_armed (clients a)) = d # ds" "m = foldl min d ds"
    using assms(1) by (auto simp: named_nearest_def split: list.splits)
  show ?thesis using v foldl_min [of d ds] unfolding ds by auto
qed

lemma nearest_ns_spec:
  assumes b: "kbase s"
  shows "\<exists>w x. nearest_ns s = (s\<lparr>kwheel := w\<rparr>, x) \<and> kbase (s\<lparr>kwheel := w\<rparr>) \<and> vw w = vw (kwheel s) \<and> whw w = whw (kwheel s) \<and>
    outstanding (s\<lparr>kwheel := w\<rparr>) = outstanding s \<and>
    (case x of None \<Rightarrow> outstanding s = {} | Some m \<Rightarrow> outstanding s \<noteq> {} \<and> m < 2 ^ 64 \<and> (\<forall>d \<in> outstanding s. m \<le> d))"
proof -
  have r: "wready (kwheel s)" using b by (simp add: kbase_def)
  from nearest_of_spec [OF r] obtain w y where n: "nearest_of (kwheel s) = (w, y)" "wready w" "vw w = vw (kwheel s)" "whw w = whw (kwheel s)"
    "aset w = aset (kwheel s)" and y: "case y of None \<Rightarrow> aset (kwheel s) = {}
      | Some m \<Rightarrow> aset (kwheel s) \<noteq> {} \<and> (\<forall>i \<in> aset (kwheel s). m \<le> dl (wnode (kwheel s)) i) \<and>
          (nearest_dirty (kwheel s) \<longrightarrow> m = usize_max \<or> (\<exists>i \<in> aset (kwheel s). dl (wnode (kwheel s)) i = m))" by blast
  have dlw: "dl (wnode w) = dl (wnode (kwheel s))" using n(3) by (simp add: fun_eq_iff dl_vw)
  let ?x = "case (named_nearest (arb s), y) of (Some a, Some b) \<Rightarrow> Some (min (unat a) b) | (Some a, None) \<Rightarrow> Some (unat a) | (None, b) \<Rightarrow> b"
  have ns: "nearest_ns s = (s\<lparr>kwheel := w\<rparr>, ?x)" by (simp add: nearest_ns_def n(1))
  have kb: "kbase (s\<lparr>kwheel := w\<rparr>)" using b n(2,5) dlw by (simp add: kbase_def)
  have out: "outstanding (s\<lparr>kwheel := w\<rparr>) = outstanding s" using n(5) dlw by (simp add: outstanding_def)
  have bound: "d < 2 ^ 64" if "d \<in> outstanding s" for d
  proof -
    have "unat (sl_deadline v) < 2 ^ 64" for v using unsigned_less [of "sl_deadline v"] by simp
    then show ?thesis using that b by (auto simp: outstanding_def kbase_def)
  qed
  have low: "\<forall>d \<in> outstanding s. m \<le> d" if "?x = Some m" for m
    using that y named_nearest_le [of "arb s"] named_nearest_none [of "arb s"]
    by (auto simp: outstanding_def word_le_nat_alt min_le_iff_disj split: option.splits)
  have none: "?x = None \<longleftrightarrow> outstanding s = {}"
    using y named_nearest_none [of "arb s"] by (auto simp: outstanding_def split: option.splits)
  have "case ?x of None \<Rightarrow> outstanding s = {} | Some m \<Rightarrow> outstanding s \<noteq> {} \<and> m < 2 ^ 64 \<and> (\<forall>d \<in> outstanding s. m \<le> d)"
  proof (cases ?x)
    case None
    then show ?thesis using none by simp
  next
    case (Some m)
    then obtain d where d: "d \<in> outstanding s" using none by auto
    have "m < 2 ^ 64" using low [OF Some] bound [OF d] d by (auto intro: le_less_trans)
    then show ?thesis using low [OF Some] d Some by auto
  qed
  with ns kb out n(3,4) show ?thesis by blast
qed

lemma rearm_delta_early:
  assumes "unat now \<le> 2 ^ 63" and "m < 2 ^ 64"
  shows "unat now + unat (rearm_delta now m) \<le> max m (unat now + 1)"
proof -
  have m: "unat (word_of_nat m :: u64) = m" using assms(2) by (simp add: unat_of_nat)
  show ?thesis
  proof (cases "unat now \<le> m")
    case True
    then have "unat (word_of_nat m - now) = m - unat now" using m by (simp add: unat_sub word_le_nat_alt)
    then show ?thesis using True by (auto simp: rearm_delta_def Let_def max_def word_le_nat_alt)
  next
    case False
    then have "word_of_nat m < now" using m by (simp add: word_less_nat_alt)
    then have "unat (word_of_nat m - now) = 2 ^ 64 - (unat now - m)"
      using unat_sub_if_size [of "word_of_nat m" now] m False by (simp add: word_size word_le_nat_alt)
    then have "2 ^ 63 \<le> unat (word_of_nat m - now)" using assms(1) False by simp
    then have "(2 :: u64) ^ 63 \<le> word_of_nat m - now" by (simp add: word_le_nat_alt)
    then show ?thesis by (simp add: rearm_delta_def Let_def)
  qed
qed

lemma rearm_spec:
  assumes b: "kbase s" and now: "unat now \<le> 2 ^ 63"
  shows "kbase (rearm now ar s)" "tick_covers (rearm now ar s)" "outstanding (rearm now ar s) = outstanding s"
    "clients (arb (rearm now ar s)) = clients (arb s)" "vw (kwheel (rearm now ar s)) = vw (kwheel s)"
    "whw (kwheel (rearm now ar s)) = whw (kwheel s)" "irq (rearm now ar s) = irq s"
proof -
  from nearest_ns_spec [OF b] obtain w x where n: "nearest_ns s = (s\<lparr>kwheel := w\<rparr>, x)" "kbase (s\<lparr>kwheel := w\<rparr>)" "vw w = vw (kwheel s)"
    "whw w = whw (kwheel s)" "outstanding (s\<lparr>kwheel := w\<rparr>) = outstanding s"
    and x: "case x of None \<Rightarrow> outstanding s = {} | Some m \<Rightarrow> outstanding s \<noteq> {} \<and> m < 2 ^ 64 \<and> (\<forall>d \<in> outstanding s. m \<le> d)" by blast
  have kw: "kwheel (rearm now ar s) = w" by (auto simp: rearm_def n(1) Let_def split: option.splits)
  show "clients (arb (rearm now ar s)) = clients (arb s)" "irq (rearm now ar s) = irq s"
    by (auto simp: rearm_def n(1) Let_def split: option.splits)
  with kw show o: "outstanding (rearm now ar s) = outstanding s" using n(5) by (simp add: outstanding_def)
  show "vw (kwheel (rearm now ar s)) = vw (kwheel s)" "whw (kwheel (rearm now ar s)) = whw (kwheel s)" using kw n(3,4) by simp_all
  have "regs (arb (rearm now ar s)) = regs (arb s)" by (auto simp: rearm_def n(1) Let_def split: option.splits)
  then show "kbase (rearm now ar s)" using n(2) kw \<open>clients (arb (rearm now ar s)) = clients (arb s)\<close> by (simp add: kbase_def)
  show "tick_covers (rearm now ar s)"
  proof (cases x)
    case None
    then show ?thesis using x o by (simp add: tick_covers_def)
  next
    case (Some m)
    then have m: "m < 2 ^ 64" "\<And>d. d \<in> outstanding s \<Longrightarrow> m \<le> d" using x by auto
    have "irq s \<Longrightarrow> oneshot (rearm now ar s) = Some (now, rearm_delta now m)" by (simp add: rearm_def n(1) Let_def Some)
    moreover have "unat now + unat (rearm_delta now m) \<le> max d (unat now + 1)" if "d \<in> outstanding s" for d
      using rearm_delta_early [OF now m(1)] m(2) [OF that] by linarith
    ultimately show ?thesis using o \<open>irq (rearm now ar s) = irq s\<close> by (auto simp: tick_covers_def)
  qed
qed

section \<open>Each operation\<close>

definition kinv :: "ktimer \<Rightarrow> bool" where
  "kinv s \<longleftrightarrow> kbase s \<and> tick_covers s"

lemma kinvI: "kbase s \<Longrightarrow> tick_covers s \<Longrightarrow> kinv s"
  by (simp add: kinv_def)

lemma rearm_kinv: "kbase s \<Longrightarrow> unat now \<le> 2 ^ 63 \<Longrightarrow> kinv (rearm now ar s)"
  using rearm_spec by (simp add: kinv_def)

lemma tick_covers_less:
  assumes "tick_covers s" and "outstanding s' \<subseteq> outstanding s" and "irq s' = irq s" and "oneshot s' = oneshot s"
  shows "tick_covers s'"
  using assms by (auto simp: tick_covers_def)

lemma kbase_clients: "kbase s \<Longrightarrow> length (clients a) = CLIENTS \<Longrightarrow> length (regs a) = CLIENTS \<Longrightarrow> kbase (s\<lparr>arb := a\<rparr>)"
  by (simp add: kbase_def)

lemma register_spec:
  assumes b: "kbase s" and now: "unat now \<le> 2 ^ 63"
  shows "kinv (register now c n s)" "clients (arb (register now c n s)) = (clients (arb s))[client_index c :=
      \<lparr> sl_deadline = now + max n 1, sl_armed = True, sl_fired = False \<rparr>]"
    "vw (kwheel (register now c n s)) = vw (kwheel s)" "irq (register now c n s) = irq s"
proof -
  let ?a = "set_client c \<lparr> sl_deadline = now + max n 1, sl_armed = True, sl_fired = False \<rparr> (arb s)"
  let ?s = "s\<lparr>arb := ?a\<lparr>regs := (regs ?a)[client_index c := regs ?a ! client_index c + 1]\<rparr>\<rparr>"
  have kb: "kbase ?s" using b by (intro kbase_clients) (simp_all add: kbase_def set_client_def)
  have eq: "register now c n s = rearm now False ?s" by (simp add: register_def Let_def)
  show "kinv (register now c n s)" unfolding eq by (rule rearm_kinv [OF kb now])
  show "clients (arb (register now c n s)) = (clients (arb s))[client_index c := \<lparr> sl_deadline = now + max n 1, sl_armed = True, sl_fired = False \<rparr>]"
    "vw (kwheel (register now c n s)) = vw (kwheel s)" "irq (register now c n s) = irq s"
    using rearm_spec(4,5,7) [OF kb now, of False] unfolding eq by (simp_all add: set_client_def)
qed

lemma cancel_client_spec:
  assumes b: "kbase s" and now: "unat now \<le> 2 ^ 63"
  shows "kinv (cancel_client now c s)" "clients (arb (cancel_client now c s)) = (clients (arb s))[client_index c := SLOT_EMPTY]"
    "vw (kwheel (cancel_client now c s)) = vw (kwheel s)" "irq (cancel_client now c s) = irq s"
proof -
  let ?s = "s\<lparr>arb := set_client c SLOT_EMPTY (arb s)\<rparr>"
  let ?w = "sl_armed (clients (arb s) ! client_index c)"
  have kb: "kbase ?s" using b by (intro kbase_clients) (simp_all add: kbase_def set_client_def)
  have eq: "cancel_client now c s = rearm now ?w ?s" by (simp add: cancel_client_def Let_def)
  show "kinv (cancel_client now c s)" unfolding eq by (rule rearm_kinv [OF kb now])
  show "clients (arb (cancel_client now c s)) = (clients (arb s))[client_index c := SLOT_EMPTY]"
    "vw (kwheel (cancel_client now c s)) = vw (kwheel s)" "irq (cancel_client now c s) = irq s"
    using rearm_spec(4,5,7) [OF kb now, of ?w] unfolding eq by (simp_all add: set_client_def)
qed

lemma service_spec:
  assumes k: "kinv s" and now: "unat now \<le> 2 ^ 63"
  shows "\<exists>s' due w n. service now s = Some (s', due) \<and> kinv s' \<and> irq s' = irq s \<and>
    clients (arb s') = map (\<lambda>v. if slot_due now v then v\<lparr>sl_armed := False, sl_fired := True\<rparr> else v) (clients (arb s)) \<and>
    advance (unat now) (kwheel s) = Some (w, n) \<and> vw (kwheel s') = vw w \<and>
    (due \<longleftrightarrow> (\<exists>v \<in> set (clients (arb s)). slot_due now v) \<or> 0 < n)"
proof -
  have b: "kbase s" "tick_covers s" "wready (kwheel s)" using k by (simp_all add: kinv_def kbase_def)
  from advance_total [OF b(3), of "unat now"] obtain w n where a: "advance (unat now) (kwheel s) = Some (w, n)" "wready w" "moved (unat now) (kwheel s) w"
    by blast
  let ?cs = "map (\<lambda>v. if slot_due now v then v\<lparr>sl_armed := False, sl_fired := True\<rparr> else v) (clients (arb s))"
  define s1 where "s1 = s\<lparr>arb := fst (mark_due now (arb s)), kwheel := w\<rparr>"
  let ?due = "filter (slot_due now) (clients (arb s)) \<noteq> [] \<or> 0 < n"
  have sv: "service now s = Some (if ?due then rearm now True s1 else s1, ?due)"
    by (simp add: service_def a(1) mark_due_def s1_def)
  have as: "aset w \<subseteq> aset (kwheel s)" "\<And>i. dl (wnode w) i = dl (wnode (kwheel s)) i" using moved_aset [OF a(3)] moved_dl [OF a(3)] by auto
  have kb: "kbase s1" using b(1) a(2) as by (auto simp: kbase_def s1_def mark_due_def)
  have cl: "clients (arb s1) = ?cs" by (simp add: s1_def mark_due_def)
  have "outstanding s1 \<subseteq> outstanding s"
    using as by (auto simp: outstanding_def s1_def mark_due_def split: if_splits)
  then have cov: "tick_covers s1" by (rule tick_covers_less [OF b(2)]) (simp_all add: s1_def)
  have "irq s1 = irq s" "kwheel s1 = w" by (simp_all add: s1_def)
  moreover have "?due \<longleftrightarrow> (\<exists>v \<in> set (clients (arb s)). slot_due now v) \<or> 0 < n" by (auto simp: filter_empty_conv)
  moreover note rs = rearm_spec [OF kb now, of True] and rk = rearm_kinv [OF kb now, of True]
  ultimately show ?thesis using sv kb cov cl a(1)
    by (cases ?due) (auto simp: kinv_def)
qed

lemma kinv_wheel:
  assumes k: "kinv s" and "wready w" and "aset w \<subseteq> aset (kwheel s)" and "\<And>i. i \<in> aset w \<Longrightarrow> vw w i = vw (kwheel s) i"
  shows "kbase (s\<lparr>kwheel := w\<rparr>)" "kinv (s\<lparr>kwheel := w\<rparr>)"
proof -
  have d: "dl (wnode w) i = dl (wnode (kwheel s)) i" if "i \<in> aset w" for i using assms(4) [OF that] by (rule dl_cong)
  show kb: "kbase (s\<lparr>kwheel := w\<rparr>)" using k assms(2,3) d by (auto simp: kinv_def kbase_def)
  have "outstanding (s\<lparr>kwheel := w\<rparr>) \<subseteq> outstanding s" using assms(3) d by (auto simp: outstanding_def)
  then have "tick_covers (s\<lparr>kwheel := w\<rparr>)" by (rule tick_covers_less [rotated]) (use k in \<open>simp_all add: kinv_def\<close>)
  with kb show "kinv (s\<lparr>kwheel := w\<rparr>)" by (rule kinvI)
qed

lemma arm_dynamic_spec:
  assumes k: "kinv s" and now: "unat now \<le> 2 ^ 63"
  shows "\<exists>s' r. arm_dynamic now n tag s = Some (s', r) \<and> kinv s' \<and> clients (arb s') = clients (arb s) \<and>
    (case r of None \<Rightarrow> \<forall>i < whw (kwheel s). vw (kwheel s') i = vw (kwheel s) i
     | Some t \<Rightarrow> vw (kwheel s') (t_index t) = Some (unat (now + max n 1), t_generation t, TArmed, tag) \<and>
         t_index t \<notin> aset (kwheel s) \<union> fset_of (kwheel s) \<and>
         (\<forall>i < whw (kwheel s). i \<noteq> t_index t \<longrightarrow> vw (kwheel s') i = vw (kwheel s) i))"
proof -
  have r: "wready (kwheel s)" and b: "kbase s" using k by (simp_all add: kinv_def kbase_def)
  let ?d = "unat (now + max n 1)"
  from arm_spec [OF r, of ?d tag] obtain w x where a: "arm ?d tag (kwheel s) = Some (w, x)" "wready w"
    and x: "case x of Inl _ \<Rightarrow> whw w = whw (kwheel s) \<and> aset w = aset (kwheel s) \<and> fset_of w = fset_of (kwheel s) \<and> (\<forall>j < whw (kwheel s). vw w j = vw (kwheel s) j)
     | Inr t \<Rightarrow> t_index t \<notin> aset (kwheel s) \<union> fset_of (kwheel s) \<and> vw w (t_index t) = Some (?d, t_generation t, TArmed, tag) \<and>
         aset w = insert (t_index t) (aset (kwheel s)) \<and> fset_of w = fset_of (kwheel s) \<and> (\<forall>j < whw (kwheel s). j \<noteq> t_index t \<longrightarrow> vw w j = vw (kwheel s) j)"
    by blast
  show ?thesis
  proof (cases x)
    case (Inl e)
    then have y: "aset w = aset (kwheel s)" "\<And>j. j < whw (kwheel s) \<Longrightarrow> vw w j = vw (kwheel s) j" using x by simp_all
    have "kinv (s\<lparr>kwheel := w\<rparr>)" by (rule kinv_wheel(2) [OF k a(2)]) (use y in \<open>auto simp: aset_def\<close>)
    then show ?thesis using a(1) Inl y(2) by (intro exI [of _ "s\<lparr>kwheel := w\<rparr>"] exI [of _ None]) (simp add: arm_dynamic_def Let_def)
  next
    case (Inr t)
    then have y: "t_index t \<notin> aset (kwheel s) \<union> fset_of (kwheel s)" "vw w (t_index t) = Some (?d, t_generation t, TArmed, tag)"
      "aset w = insert (t_index t) (aset (kwheel s))" "\<And>j. j < whw (kwheel s) \<Longrightarrow> j \<noteq> t_index t \<Longrightarrow> vw w j = vw (kwheel s) j" using x by simp_all
    have "dl (wnode w) i < 2 ^ 64" if "i \<in> aset w" for i
    proof (cases "i = t_index t")
      case True
      then show ?thesis using y(2) unsigned_less [of "now + max n 1"] by (simp add: dl_vw)
    next
      case False
      then have "i \<in> aset (kwheel s)" using that y(3) by simp
      then show ?thesis using dl_cong [OF y(4) [of i]] False b by (auto simp: aset_def kbase_def)
    qed
    then have kb: "kbase (s\<lparr>kwheel := w\<rparr>)" using b a(2) by (simp add: kbase_def)
    note rs = rearm_spec [OF kb now, of False]
    show ?thesis using a(1) Inr y rs rearm_kinv [OF kb now]
      by (intro exI [of _ "rearm now False (s\<lparr>kwheel := w\<rparr>)"] exI [of _ "Some t"]) (simp add: arm_dynamic_def Let_def)
  qed
qed

lemma cancel_kept:
  assumes "wready s"
  shows "\<exists>s' b. cancel t s = Some (s', b) \<and> wready s' \<and> aset s' \<subseteq> aset s \<and> (\<forall>i. i \<noteq> t_index t \<longrightarrow> vw s' i = vw s i) \<and> (\<forall>i \<in> aset s'. vw s' i = vw s i) \<and>
    (\<not> timer_valid t s \<longrightarrow> s' = s)"
proof (cases "timer_valid t s")
  case False
  then show ?thesis using cancel_stale assms by auto
next
  case True
  then obtain n where n: "wnode s (t_index t) = Some n" "t = \<lparr> t_index = t_index t, t_generation = tgen n \<rparr>" "tstat n \<noteq> TFree"
    by (cases t) (auto simp: timer_valid_def split: option.splits)
  have "t_index t \<notin> aset s" if "tstat n = TFired" using that n(1) by (auto simp: aset_def stat_is_def)
  then show ?thesis using cancel_armed [OF assms n(1)] cancel_fired [OF assms n(1)] n(2,3) True by (cases "tstat n") auto
qed

lemma cancel_dynamic_spec:
  assumes k: "kinv s" and now: "unat now \<le> 2 ^ 63"
  shows "\<exists>s' r. cancel_dynamic now t s = Some (s', r) \<and> kinv s' \<and> clients (arb s') = clients (arb s) \<and>
    (\<forall>i. i \<noteq> t_index t \<longrightarrow> vw (kwheel s') i = vw (kwheel s) i) \<and> (\<not> timer_valid t (kwheel s) \<longrightarrow> vw (kwheel s') = vw (kwheel s))"
proof -
  have r: "wready (kwheel s)" using k by (simp add: kinv_def kbase_def)
  from cancel_kept [OF r, of t] obtain w b where c: "cancel t (kwheel s) = Some (w, b)" "wready w" "aset w \<subseteq> aset (kwheel s)"
    "\<And>i. i \<noteq> t_index t \<Longrightarrow> vw w i = vw (kwheel s) i" "\<And>i. i \<in> aset w \<Longrightarrow> vw w i = vw (kwheel s) i"
    "\<not> timer_valid t (kwheel s) \<Longrightarrow> w = kwheel s" by blast
  have kb: "kbase (s\<lparr>kwheel := w\<rparr>)" by (rule kinv_wheel(1) [OF k c(2,3,5)])
  note rs = rearm_spec [OF kb now, of b]
  show ?thesis using c rs rearm_kinv [OF kb now, of b]
    by (intro exI [of _ "rearm now b (s\<lparr>kwheel := w\<rparr>)"] exI [of _ b]) (auto simp: cancel_dynamic_def)
qed

lemma take_fired_dynamic_spec:
  assumes k: "kinv s" and now: "unat now \<le> 2 ^ 63"
  shows "\<exists>s' r. take_fired_dynamic now s = Some (s', r) \<and> kinv s'"
proof -
  from service_spec [OF k now] obtain s1 due where sv: "service now s = Some (s1, due)" "kinv s1" by blast
  have r: "wready (kwheel s1)" using sv(2) by (simp add: kinv_def kbase_def)
  from take_fired_spec [OF r] obtain w x where t: "take_fired (kwheel s1) = (w, x)" "wready w"
    and x: "case x of None \<Rightarrow> w = kwheel s1 \<and> fset_of (kwheel s1) = {}
     | Some (t, tag) \<Rightarrow> (\<exists>d. vw (kwheel s1) (t_index t) = Some (d, t_generation t, TFired, tag) \<and> (\<forall>j \<in> fset_of (kwheel s1). d \<le> dl (wnode (kwheel s1)) j) \<and>
          vw w = (vw (kwheel s1))(t_index t \<mapsto> (0, t_generation t + 1, TFree, tag))) \<and>
         t_index t \<in> fset_of (kwheel s1) \<and> aset w = aset (kwheel s1) \<and> fset_of w = fset_of (kwheel s1) - {t_index t}" by blast
  have "aset w = aset (kwheel s1) \<and> (\<forall>i \<in> aset w. vw w i = vw (kwheel s1) i)"
  proof (cases x)
    case (Some y)
    then show ?thesis using x by (cases y) (auto simp: aset_def fset_of_def stat_is_def)
  qed (use x in simp)
  then have "kinv (s1\<lparr>kwheel := w\<rparr>)" by (intro kinv_wheel(2) [OF sv(2) t(2)]) auto
  then show ?thesis using sv(1) t(1) by (simp add: take_fired_dynamic_def)
qed

lemma kinv_parks: "kinv (s\<lparr>arb := (arb s)\<lparr>ab_parks := x\<rparr>\<rparr>) = kinv s"
  by (simp add: kinv_def kbase_def tick_covers_def outstanding_def)

lemma ktimer_park_spec:
  assumes k: "kinv s" and now: "unat now1 \<le> 2 ^ 63" "unat now2 \<le> 2 ^ 63" "unat now3 \<le> 2 ^ 63"
  shows "\<exists>s' r. ktimer_park now1 now2 now3 e os s = Some (s', r) \<and> kinv s'"
proof -
  from service_spec [OF k now(1)] obtain s1 due where sv: "service now1 s = Some (s1, due)" "kinv s1" by blast
  obtain s2 nr where s2: "(if irq s1 then nearest_ns s1 else (s1, None)) = (s2, nr)" by fastforce
  have nn: "irq s1 \<Longrightarrow> nearest_ns s1 = (s2, nr)" "\<not> irq s1 \<Longrightarrow> s2 = s1 \<and> nr = None" using s2 by auto
  have k2: "kinv s2"
  proof (cases "irq s1")
    case True
    from nearest_ns_spec [of s1] sv(2) obtain w x where "nearest_ns s1 = (s1\<lparr>kwheel := w\<rparr>, x)" "kbase (s1\<lparr>kwheel := w\<rparr>)"
      "outstanding (s1\<lparr>kwheel := w\<rparr>) = outstanding s1" unfolding kinv_def by blast
    with True s2 sv(2) show ?thesis by (auto simp: kinv_def tick_covers_def)
  qed (use s2 sv(2) in simp)
  let ?a = "irq s1 \<and> nr \<noteq> None"
  define s3 where "s3 = (if ?a then rearm now2 False s2 else s2)"
  have k3: "kinv s3" using k2 rearm_kinv [of s2 now2 False] now(2) by (auto simp: s3_def kinv_def)
  let ?s4 = "s3\<lparr>arb := (arb s3)\<lparr>ab_parks := ab_parks (arb s3) + 1\<rparr>\<rparr>"
  have k4: "kinv ?s4" using k3 by (simp only: kinv_parks)
  from service_spec [OF k4 now(3)] obtain s5 d5 where s5: "service now3 ?s4 = Some (s5, d5)" "kinv s5" by blast
  have "ktimer_park now1 now2 now3 e os s = (if due then Some (s1, False) else if \<not> ?a \<and> \<not> os then Some (s2, False)
    else if ?a \<and> e then Some (s3, False) else Some (s5, True))"
  proof (cases ?a)
    case True
    then have "s3 = rearm now2 False s2" by (simp add: s3_def)
    then show ?thesis using s5(1) True by (auto simp: ktimer_park_def sv(1) nn(1) Let_def)
  next
    case False
    then have "s3 = s2" by (auto simp: s3_def)
    then show ?thesis using s5(1) False nn by (cases "irq s1") (auto simp: ktimer_park_def sv(1) Let_def)
  qed
  then show ?thesis using sv(2) k2 k3 s5(2) by auto
qed

lemma ktimer_reset_spec:
  assumes k: "kinv s"
  shows "\<exists>s'. ktimer_reset now s = Some s' \<and> kinv s'"
proof -
  have "w_tab (kwheel s)" using k wreadyD(4) by (simp add: kinv_def kbase_def)
  from wheel_init_spec [OF this, of OWNER_KERNEL "unat now"] obtain w where w: "wheel_init OWNER_KERNEL (unat now) (kwheel s) = Some w" "wready w" "aset w = {}"
    by blast
  then show ?thesis
    by (auto simp: ktimer_reset_def kinv_def kbase_def tick_covers_def outstanding_def arbiter_new_def SLOT_EMPTY_def CLIENTS_def)
qed

section \<open>Properties\<close>

datatype ktimer_op = KRegister u64 timer_client u64 | KCancel u64 timer_client | KService u64 | KExpired u64 timer_client
  | KPark u64 u64 u64 bool bool | KReset u64 | KArm u64 u64 u64 | KCancelDynamic u64 timer | KTake u64

fun ktimer_step :: "ktimer_op \<Rightarrow> ktimer \<Rightarrow> ktimer option" where
  "ktimer_step (KRegister now c n) s = Some (register now c n s)"
| "ktimer_step (KCancel now c) s = Some (cancel_client now c s)"
| "ktimer_step (KService now) s = map_option fst (service now s)"
| "ktimer_step (KExpired now c) s = map_option fst (expired now c s)"
| "ktimer_step (KPark now1 now2 now3 e os) s = map_option fst (ktimer_park now1 now2 now3 e os s)"
| "ktimer_step (KReset now) s = ktimer_reset now s"
| "ktimer_step (KArm now n tag) s = map_option fst (arm_dynamic now n tag s)"
| "ktimer_step (KCancelDynamic now t) s = map_option fst (cancel_dynamic now t s)"
| "ktimer_step (KTake now) s = map_option fst (take_fired_dynamic now s)"

text \<open>The clock readings of an operation, none of which has reached half of its range (292 years).\<close>

fun clock_ok :: "ktimer_op \<Rightarrow> bool" where
  "clock_ok (KRegister now c n) = (unat now \<le> 2 ^ 63)"
| "clock_ok (KCancel now c) = (unat now \<le> 2 ^ 63)"
| "clock_ok (KService now) = (unat now \<le> 2 ^ 63)"
| "clock_ok (KExpired now c) = (unat now \<le> 2 ^ 63)"
| "clock_ok (KPark now1 now2 now3 e os) = (unat now1 \<le> 2 ^ 63 \<and> unat now2 \<le> 2 ^ 63 \<and> unat now3 \<le> 2 ^ 63)"
| "clock_ok (KReset now) = (unat now \<le> 2 ^ 63)"
| "clock_ok (KArm now n tag) = (unat now \<le> 2 ^ 63)"
| "clock_ok (KCancelDynamic now t) = (unat now \<le> 2 ^ 63)"
| "clock_ok (KTake now) = (unat now \<le> 2 ^ 63)"

interpretation kt: total_machine ktimer_step clock_ok kinv
proof
  fix s x assume k: "kinv s" and c: "clock_ok x"
  then have b: "kbase s" by (simp add: kinv_def)
  show "\<exists>s'. ktimer_step x s = Some s' \<and> kinv s'"
  proof (cases x)
    case (KRegister now cl n)
    then show ?thesis using register_spec(1) [OF b, of now cl n] c by simp
  next
    case (KCancel now cl)
    then show ?thesis using cancel_client_spec(1) [OF b, of now cl] c by simp
  next
    case (KService now)
    then show ?thesis using service_spec [OF k, of now] c by auto
  next
    case (KExpired now cl)
    then show ?thesis using service_spec [OF k, of now] c by (auto simp: expired_def)
  next
    case (KPark now1 now2 now3 e os)
    then show ?thesis using ktimer_park_spec [OF k, of now1 now2 now3 e os] c by auto
  next
    case (KReset now)
    then show ?thesis using ktimer_reset_spec [OF k, of now] by simp
  next
    case (KArm now n tag)
    then show ?thesis using arm_dynamic_spec [OF k, of now n tag] c by auto
  next
    case (KCancelDynamic now t)
    then show ?thesis using cancel_dynamic_spec [OF k, of now t] c by auto
  next
    case (KTake now)
    then show ?thesis using take_fired_dynamic_spec [OF k, of now] c by auto
  qed
qed

lemma boot_kinv: "km_inv k \<Longrightarrow> kinv (ktimer_boot i k)"
proof -
  assume k: "km_inv k"
  have "aset (wheel_new k) = {}" by (simp add: aset_def wheel_new_def)
  then show ?thesis using wheel_new_ready [OF k]
    by (simp add: kinv_def kbase_def tick_covers_def outstanding_def ktimer_boot_def arbiter_new_def SLOT_EMPTY_def CLIENTS_def)
qed





end
