(* ===== verification/Pipe.thy ===== *)
theory Pipe
  imports Kmeta
begin

text \<open>
  The pipes of the Linux personality, \<^verbatim>\<open>kernel/src/linux/pipe.rs\<close>: a table of byte rings in funded frames, with counts of
  their read and write ends.

  The memory of the calling cell is an argument: its bytes, and the verdict of \<^verbatim>\<open>uaccess\<close> on a range of addresses. An
  index out of the table panics, which is the outer \<open>None\<close>.
\<close>

section \<open>Pipes\<close>

definition PIPE_COUNT :: nat where "PIPE_COUNT = 16"
definition PIPE_CAP :: nat where "PIPE_CAP = 64 * 1024"
definition PIPE_PAGE :: nat where "PIPE_PAGE = FRAME_SIZE"
definition PIPE_PAGES :: nat where "PIPE_PAGES = PIPE_CAP div PIPE_PAGE"

definition page_ty :: "u8 list elem_ty" where
  "page_ty = \<lparr> ty_size = PIPE_PAGE, ty_align = 8, ty_zero = replicate PIPE_PAGE 0 \<rparr>"

record pipe =
  pbuf :: "u8 list funded"
  phead :: nat
  plen :: nat
  readers :: u8
  writers :: u8
  pused :: bool

definition pipe_new :: pipe where
  "pipe_new = \<lparr> pbuf = funded_new, phead = 0, plen = 0, readers = 0, writers = 0, pused = False \<rparr>"

record pipes =
  pmem :: kmem
  ptab :: "pipe list"
  rings_funded :: u64

definition pipes_new :: "kmem \<Rightarrow> pipes" where
  "pipes_new k = \<lparr> pmem = k, ptab = replicate PIPE_COUNT pipe_new, rings_funded = 0 \<rparr>"

definition pipe_byte :: "pipe \<Rightarrow> nat \<Rightarrow> u8" where
  "pipe_byte p i = (case nth_opt (contents (pbuf p)) (i div PIPE_PAGE) of None \<Rightarrow> 0 | Some pg \<Rightarrow> pg ! (i mod PIPE_PAGE))"

definition set_byte :: "nat \<Rightarrow> u8 \<Rightarrow> pipe \<Rightarrow> pipe option" where
  "set_byte i v p =
     (case nth_opt (contents (pbuf p)) (i div PIPE_PAGE) of None \<Rightarrow> Some p
      | Some pg \<Rightarrow> map_option (\<lambda>(t, _). p\<lparr>pbuf := t\<rparr>) (funded_set page_ty (i div PIPE_PAGE) (pg[i mod PIPE_PAGE := v]) (pbuf p)))"

definition pipe_release :: "kmem \<times> pipe \<Rightarrow> (kmem \<times> pipe) option" where
  "pipe_release = (\<lambda>(k, p). do { (k', t) \<leftarrow> funded_release (k, pbuf p);
     Some (k', p\<lparr>pbuf := t, phead := 0, plen := 0, readers := 0, writers := 0, pused := False\<rparr>) })"

text \<open>Run an operation on slot \<open>i\<close> of the table.\<close>

definition on_pipe :: "(kmem \<times> pipe \<Rightarrow> (kmem \<times> pipe) option) \<Rightarrow> nat \<Rightarrow> pipes \<Rightarrow> pipes option" where
  "on_pipe f i s = (if i < length (ptab s)
     then map_option (\<lambda>(k, p). s\<lparr>pmem := k, ptab := (ptab s)[i := p]\<rparr>) (f (pmem s, ptab s ! i)) else None)"

definition pipes_reset :: "pipes \<Rightarrow> pipes option" where
  "pipes_reset s = for_each (on_pipe pipe_release) [0..<length (ptab s)] s"

definition pipes_frames_held :: "pipes \<Rightarrow> nat" where
  "pipes_frames_held s = sum_list (map (\<lambda>p. frames_held (pbuf p)) (ptab s))"

text \<open>Give slot \<open>i\<close> to the calling cell \<open>cell\<close>: charge it, reserve the whole ring, or give everything back.\<close>

definition fund_ring :: "owner \<Rightarrow> kmem \<times> pipe \<Rightarrow> ((kmem \<times> pipe) \<times> bool) option" where
  "fund_ring ow = (\<lambda>(k, p). do { ((k1, t1), ok) \<leftarrow> reserve page_ty PIPE_PAGES (funded_set_owner ow (k, pbuf p));
     if \<not> ok then do { (k2, t2) \<leftarrow> funded_release (k1, t1); Some ((k2, p\<lparr>pbuf := t2\<rparr>), False) }
     else Some ((k1, p\<lparr>pbuf := t1, phead := 0, plen := 0, pused := True, readers := 1, writers := 1\<rparr>), True) })"

definition pipe_alloc :: "nat \<Rightarrow> pipes \<Rightarrow> (pipes \<times> nat option) option" where
  "pipe_alloc cell s =
     (case find (\<lambda>i. \<not> pused (ptab s ! i)) [0..<length (ptab s)] of None \<Rightarrow> Some (s, None)
      | Some i \<Rightarrow> do { ((k, p), ok) \<leftarrow> fund_ring (owner_cell cell) (pmem s, ptab s ! i);
          let s1 = s\<lparr>pmem := k, ptab := (ptab s)[i := p]\<rparr>
          in Some (if ok then (s1\<lparr>rings_funded := rings_funded s1 + 1\<rparr>, Some i) else (s1, None)) })"

definition sat_inc :: "u8 \<Rightarrow> u8" where "sat_inc x = (if x = - 1 then x else x + 1)"
definition sat_dec :: "u8 \<Rightarrow> u8" where "sat_dec x = (if x = 0 then x else x - 1)"

definition add_end :: "nat \<Rightarrow> bool \<Rightarrow> pipes \<Rightarrow> pipes option" where
  "add_end i w = on_pipe (\<lambda>(k, p). Some (k, if w then p\<lparr>writers := sat_inc (writers p)\<rparr> else p\<lparr>readers := sat_inc (readers p)\<rparr>)) i"

definition close_end :: "nat \<Rightarrow> bool \<Rightarrow> pipes \<Rightarrow> pipes option" where
  "close_end i w = on_pipe (\<lambda>(k, p).
     let p1 = (if w then p\<lparr>writers := sat_dec (writers p)\<rparr> else p\<lparr>readers := sat_dec (readers p)\<rparr>)
     in if readers p1 = 0 \<and> writers p1 = 0 then pipe_release (k, p1) else Some (k, p1)) i"

definition has_data :: "pipe \<Rightarrow> bool" where "has_data p \<longleftrightarrow> 0 < plen p"
definition has_space :: "pipe \<Rightarrow> bool" where "has_space p \<longleftrightarrow> plen p < PIPE_CAP"

section \<open>Reading and writing\<close>

record user_mem =
  u_byte :: "nat \<Rightarrow> u8"
  u_ok :: "nat \<Rightarrow> nat \<Rightarrow> bool"

definition load_bytes :: "user_mem \<Rightarrow> nat \<Rightarrow> nat \<Rightarrow> u8 list" where
  "load_bytes m va n = map (u_byte m) [va..<va + n]"

definition store_bytes :: "nat \<Rightarrow> u8 list \<Rightarrow> user_mem \<Rightarrow> user_mem" where
  "store_bytes va bs m = m\<lparr>u_byte := (\<lambda>a. if va \<le> a \<and> a < va + length bs then bs ! (a - va) else u_byte m a)\<rparr>"

definition EFAULT :: int where "EFAULT = 14"

datatype read_nb = ReadDone int | ReadWouldBlock
datatype write_nb = WriteDone int | WriteWouldBlock | Epipe

fun drain :: "nat \<Rightarrow> pipe \<Rightarrow> pipe \<times> u8 list" where
  "drain 0 p = (p, [])"
| "drain (Suc n) p = (let b = pipe_byte p (phead p); (p', bs) = drain n (p\<lparr>phead := (phead p + 1) mod PIPE_CAP\<rparr>) in (p', b # bs))"

definition take_bytes :: "nat \<Rightarrow> pipe \<Rightarrow> pipe \<times> u8 list" where
  "take_bytes n p = (let (p1, bs) = drain n p in (p1\<lparr>plen := plen p1 - n\<rparr>, bs))"

fun put_bytes :: "u8 list \<Rightarrow> pipe \<Rightarrow> pipe option" where
  "put_bytes [] p = Some p"
| "put_bytes (b # bs) p = do { p1 \<leftarrow> set_byte ((phead p + plen p) mod PIPE_CAP) b p; put_bytes bs (p1\<lparr>plen := plen p1 + 1\<rparr>) }"

definition pipe_read :: "nat \<Rightarrow> nat \<Rightarrow> nat \<Rightarrow> user_mem \<times> pipes \<Rightarrow> ((user_mem \<times> pipes) \<times> read_nb) option" where
  "pipe_read i va count = (\<lambda>(m, s).
     if \<not> i < length (ptab s) then None
     else let p = ptab s ! i
          in if plen p = 0 then Some ((m, s), if writers p = 0 then ReadDone 0 else ReadWouldBlock)
             else let n = min (plen p) count
                  in if \<not> u_ok m va n then Some ((m, s), ReadDone (- EFAULT))
                     else let (p1, bs) = take_bytes n p
                          in Some ((store_bytes va bs m, s\<lparr>ptab := (ptab s)[i := p1]\<rparr>), ReadDone (int n)))"

definition pipe_write :: "nat \<Rightarrow> nat \<Rightarrow> nat \<Rightarrow> user_mem \<times> pipes \<Rightarrow> ((user_mem \<times> pipes) \<times> write_nb) option" where
  "pipe_write i va count = (\<lambda>(m, s).
     if \<not> i < length (ptab s) then None
     else let p = ptab s ! i
          in if readers p = 0 then Some ((m, s), Epipe)
             else let free = PIPE_CAP - plen p
                  in if free = 0 then Some ((m, s), WriteWouldBlock)
                     else let n = min free count
                          in if \<not> u_ok m va n then Some ((m, s), WriteDone (- EFAULT))
                             else do { p1 \<leftarrow> put_bytes (load_bytes m va n) p;
                                       Some ((m, s\<lparr>ptab := (ptab s)[i := p1]\<rparr>), WriteDone (int n)) })"

section \<open>The bytes in a pipe\<close>

definition ring_bytes :: "pipe \<Rightarrow> u8 list" where
  "ring_bytes p = concat (contents (pbuf p))"

definition pq :: "pipe \<Rightarrow> u8 list" where
  "pq p = map (\<lambda>j. ring_bytes p ! ((phead p + j) mod PIPE_CAP)) [0..<plen p]"

definition ring_shape :: "pipe \<Rightarrow> bool" where
  "ring_shape p \<longleftrightarrow> PIPE_PAGES \<le> cap (pbuf p) \<and> (\<forall>pg \<in> set (contents (pbuf p)). length pg = PIPE_PAGE) \<and> phead p < PIPE_CAP \<and> plen p \<le> PIPE_CAP"

definition ring_ok :: "kmem \<Rightarrow> pipe \<Rightarrow> bool" where
  "ring_ok k p \<longleftrightarrow> funded_inv page_ty k (pbuf p) \<and> ring_shape p"

lemmas pipe_consts = PIPE_CAP_def PIPE_PAGES_def PIPE_PAGE_def FRAME_SIZE_def

lemma page_ty_page: "elems_per_page page_ty = 1"
  by (simp add: elems_per_page_def page_ty_def pipe_consts)

lemma ring_okD:
  assumes "ring_ok k p"
  shows "length (contents (pbuf p)) = cap (pbuf p)" "PIPE_CAP \<le> length (ring_bytes p)" "length (ring_bytes p) = length (contents (pbuf p)) * PIPE_PAGE"
    "xs \<in> set (contents (pbuf p)) \<Longrightarrow> length xs = PIPE_PAGE"
proof -
  show u: "xs \<in> set (contents (pbuf p)) \<Longrightarrow> length xs = PIPE_PAGE" for xs using assms by (simp add: ring_ok_def ring_shape_def)
  show c: "length (contents (pbuf p)) = cap (pbuf p)" using assms length_contents by (auto simp: ring_ok_def ring_shape_def)
  show l: "length (ring_bytes p) = length (contents (pbuf p)) * PIPE_PAGE" unfolding ring_bytes_def by (rule length_concat_uniform [OF u])
  show "PIPE_CAP \<le> length (ring_bytes p)" using assms l c by (simp add: ring_ok_def ring_shape_def pipe_consts)
qed

lemma pipe_byte_ring:
  assumes "ring_ok k p" and "i < PIPE_CAP"
  shows "pipe_byte p i = ring_bytes p ! i"
proof -
  note d = ring_okD [OF assms(1)]
  have i: "i < length (contents (pbuf p)) * PIPE_PAGE" using assms(2) d(2,3) by simp
  then have "i div PIPE_PAGE < length (contents (pbuf p))" by (simp add: less_mult_imp_div_less)
  then show ?thesis using nth_concat_uniform [OF d(4) i] by (simp add: pipe_byte_def nth_opt_def ring_bytes_def)
qed

lemma set_byte_spec:
  assumes r: "ring_ok k p" and km: "km_inv k" and i: "i < PIPE_CAP"
  shows "\<exists>t. set_byte i v p = Some (p\<lparr>pbuf := t\<rparr>) \<and> ring_ok k (p\<lparr>pbuf := t\<rparr>) \<and> ring_bytes (p\<lparr>pbuf := t\<rparr>) = (ring_bytes p)[i := v] \<and>
    table_acct page_ty (k, pbuf p) (k, t)"
proof -
  note d = ring_okD [OF r]
  let ?pi = "i div PIPE_PAGE" and ?pg = "(contents (pbuf p) ! (i div PIPE_PAGE))[i mod PIPE_PAGE := v]"
  have il: "i < length (contents (pbuf p)) * PIPE_PAGE" using i d(2,3) by simp
  then have q: "?pi < length (contents (pbuf p))" by (simp add: less_mult_imp_div_less)
  have f: "funded_inv page_ty k (pbuf p)" using r by (simp add: ring_ok_def ring_shape_def)
  from funded_set_inv [OF f, of ?pi ?pg] obtain t where
    t: "funded_set page_ty ?pi ?pg (pbuf p) = Some (t, ?pi < cap (pbuf p))" "funded_inv page_ty k t" "contents t = (contents (pbuf p))[?pi := ?pg]"
      "held t = held (pbuf p)" "cap t = cap (pbuf p)" "pages t = pages (pbuf p)" "fowner t = fowner (pbuf p)" "dir t = dir (pbuf p)" by blast
  have "set_byte i v p = Some (p\<lparr>pbuf := t\<rparr>)" using q t(1) by (simp add: set_byte_def nth_opt_def)
  moreover have "ring_bytes (p\<lparr>pbuf := t\<rparr>) = (ring_bytes p)[i := v]"
    unfolding ring_bytes_def using concat_update_uniform [OF d(4) il] t(3) by simp
  moreover have "ring_ok k (p\<lparr>pbuf := t\<rparr>)"
  proof -
    have "length pg = PIPE_PAGE" if "pg \<in> set (contents t)" for pg
    proof -
      have "pg = ?pg \<or> pg \<in> set (contents (pbuf p))" using that set_update_subset_insert [of "contents (pbuf p)" ?pi ?pg] by (auto simp: t(3))
      moreover have "length ?pg = PIPE_PAGE" using d(4) nth_mem [OF q] by simp
      ultimately show ?thesis using d(4) by auto
    qed
    then show ?thesis using r t by (auto simp: ring_ok_def ring_shape_def)
  qed
  moreover have "table_acct page_ty (k, pbuf p) (k, t)" by (rule table_acct_upd [OF table_acct_refl [OF km f] t(2,4,6,8,7)])
  ultimately show ?thesis by blast
qed

lemma ring_index_distinct: "j < n \<Longrightarrow> n < PIPE_CAP \<Longrightarrow> (h + j) mod PIPE_CAP \<noteq> (h + n) mod PIPE_CAP"
proof
  assume j: "j < n" "n < PIPE_CAP" and e: "(h + j) mod PIPE_CAP = (h + n) mod PIPE_CAP"
  then have "PIPE_CAP dvd (h + n) - (h + j)" using mod_eq_dvd_iff_nat [of "h + j" "h + n" PIPE_CAP] by simp
  then have "PIPE_CAP \<le> n - j" using j(1) by (auto dest: dvd_imp_le)
  then show False using j by simp
qed

lemma put_byte_pq:
  assumes "plen p < PIPE_CAP" and "PIPE_CAP \<le> length (ring_bytes p)" and "ring_bytes p' = (ring_bytes p)[(phead p + plen p) mod PIPE_CAP := b]"
    and "phead p' = phead p" and "plen p' = plen p + 1"
  shows "pq p' = pq p @ [b]"
proof -
  let ?t = "(phead p + plen p) mod PIPE_CAP"
  have t: "?t < length (ring_bytes p)" using assms(2) mod_less_divisor [of PIPE_CAP "phead p + plen p"] by (simp add: pipe_consts)
  have "ring_bytes p' ! ((phead p + j) mod PIPE_CAP) = ring_bytes p ! ((phead p + j) mod PIPE_CAP)" if "j < plen p" for j
    using ring_index_distinct [OF that assms(1), of "phead p"] by (simp add: assms(3))
  then show ?thesis using t by (simp add: pq_def assms(4,5) assms(3))
qed

lemma put_bytes_spec:
  assumes "ring_ok k p" and "km_inv k" and "plen p + length bs \<le> PIPE_CAP"
  shows "\<exists>t. put_bytes bs p = Some (p\<lparr>pbuf := t, plen := plen p + length bs\<rparr>) \<and> ring_ok k (p\<lparr>pbuf := t, plen := plen p + length bs\<rparr>) \<and>
    pq (p\<lparr>pbuf := t, plen := plen p + length bs\<rparr>) = pq p @ bs \<and> table_acct page_ty (k, pbuf p) (k, t)"
  using assms
proof (induction bs arbitrary: p)
  case Nil
  then have "funded_inv page_ty k (pbuf p)" by (simp add: ring_ok_def ring_shape_def)
  from table_acct_refl [OF Nil(2) this] Nil(1) show ?case by (intro exI [of _ "pbuf p"]) simp
next
  case (Cons b bs)
  let ?i = "(phead p + plen p) mod PIPE_CAP"
  have "?i < PIPE_CAP" by (simp add: pipe_consts)
  from set_byte_spec [OF Cons.prems(1,2) this, of b] obtain t where t: "set_byte ?i b p = Some (p\<lparr>pbuf := t\<rparr>)" "ring_ok k (p\<lparr>pbuf := t\<rparr>)"
    "ring_bytes (p\<lparr>pbuf := t\<rparr>) = (ring_bytes p)[?i := b]" "table_acct page_ty (k, pbuf p) (k, t)" by blast
  define p1 where "p1 = p\<lparr>pbuf := t, plen := plen p + 1\<rparr>"
  have r1: "ring_ok k p1" using t(2) Cons.prems(3) by (simp add: ring_ok_def ring_shape_def p1_def)
  have "ring_bytes p1 = (ring_bytes p)[?i := b]" using t(3) by (simp add: p1_def ring_bytes_def)
  from put_byte_pq [OF _ ring_okD(2) [OF Cons.prems(1)] this] Cons.prems(3) have q1: "pq p1 = pq p @ [b]" by (simp add: p1_def)
  from Cons.IH [OF r1 Cons.prems(2)] Cons.prems(3) obtain t' where 2: "put_bytes bs p1 = Some (p1\<lparr>pbuf := t', plen := plen p1 + length bs\<rparr>)"
    "ring_ok k (p1\<lparr>pbuf := t', plen := plen p1 + length bs\<rparr>)" "pq (p1\<lparr>pbuf := t', plen := plen p1 + length bs\<rparr>) = pq p1 @ bs"
    "table_acct page_ty (k, pbuf p1) (k, t')" by (auto simp: p1_def)
  have "p1\<lparr>pbuf := t', plen := plen p1 + length bs\<rparr> = p\<lparr>pbuf := t', plen := plen p + length (b # bs)\<rparr>" by (simp add: p1_def)
  moreover have "put_bytes (b # bs) p = put_bytes bs p1" using t(1) by (simp add: p1_def)
  moreover have "table_acct page_ty (k, pbuf p) (k, t')" using table_acct_trans [OF t(4)] 2(4) by (simp add: p1_def)
  ultimately show ?case using 2(1-3) q1 by (intro exI [of _ t']) simp
qed

lemma drain_spec:
  assumes "ring_ok k p"
  shows "drain n p = (p\<lparr>phead := (phead p + n) mod PIPE_CAP\<rparr>, map (\<lambda>j. ring_bytes p ! ((phead p + j) mod PIPE_CAP)) [0..<n])"
  using assms
proof (induction n arbitrary: p)
  case 0
  then show ?case by (simp add: ring_ok_def ring_shape_def)
next
  case (Suc n)
  let ?p = "p\<lparr>phead := Suc (phead p) mod PIPE_CAP\<rparr>"
  have r: "ring_ok k ?p" using Suc.prems by (simp add: ring_ok_def ring_shape_def pipe_consts)
  have rb: "ring_bytes ?p = ring_bytes p" by (simp add: ring_bytes_def)
  have h: "phead p < PIPE_CAP" using Suc.prems by (simp add: ring_ok_def ring_shape_def)
  have b: "pipe_byte p (phead p) = ring_bytes p ! ((phead p + 0) mod PIPE_CAP)" using pipe_byte_ring [OF Suc.prems h] h by simp
  have m: "(Suc (phead p) mod PIPE_CAP + j) mod PIPE_CAP = Suc (phead p + j) mod PIPE_CAP" for j
    using mod_add_left_eq [of "Suc (phead p)" PIPE_CAP j] by simp
  have "map (\<lambda>j. ring_bytes p ! ((phead p + j) mod PIPE_CAP)) [0..<Suc n] =
    ring_bytes p ! ((phead p + 0) mod PIPE_CAP) # map (\<lambda>j. ring_bytes p ! ((phead p + Suc j) mod PIPE_CAP)) [0..<n]"
    by (simp add: upt_conv_Cons map_Suc_upt [symmetric] del: upt_Suc)
  then show ?case using Suc.IH [OF r] b by (simp only: drain.simps Let_def) (simp add: rb m del: upt_Suc)
qed

lemma take_bytes_spec:
  assumes r: "ring_ok k p" and n: "n \<le> plen p"
  shows "take_bytes n p = (p\<lparr>phead := (phead p + n) mod PIPE_CAP, plen := plen p - n\<rparr>, take n (pq p))"
    "ring_ok k (p\<lparr>phead := (phead p + n) mod PIPE_CAP, plen := plen p - n\<rparr>)"
    "pq (p\<lparr>phead := (phead p + n) mod PIPE_CAP, plen := plen p - n\<rparr>) = drop n (pq p)"
proof -
  show "take_bytes n p = (p\<lparr>phead := (phead p + n) mod PIPE_CAP, plen := plen p - n\<rparr>, take n (pq p))"
    using drain_spec [OF r, of n] n by (simp add: take_bytes_def pq_def take_map min_absorb1)
  show "ring_ok k (p\<lparr>phead := (phead p + n) mod PIPE_CAP, plen := plen p - n\<rparr>)" using r by (auto simp: ring_ok_def ring_shape_def pipe_consts)
  show "pq (p\<lparr>phead := (phead p + n) mod PIPE_CAP, plen := plen p - n\<rparr>) = drop n (pq p)"
  proof (rule nth_equalityI)
    fix i assume "i < length (pq (p\<lparr>phead := (phead p + n) mod PIPE_CAP, plen := plen p - n\<rparr>))"
    then have "n + i < plen p" "i < plen p - n" by (simp_all add: pq_def)
    then show "pq (p\<lparr>phead := (phead p + n) mod PIPE_CAP, plen := plen p - n\<rparr>) ! i = drop n (pq p) ! i"
      by (simp add: pq_def ring_bytes_def mod_add_left_eq add.assoc)
  qed (simp add: pq_def)
qed

section \<open>The table of pipes\<close>

definition pipe_ok :: "pipe \<Rightarrow> bool" where
  "pipe_ok p \<longleftrightarrow> (if pused p then ring_shape p \<and> (readers p \<noteq> 0 \<or> writers p \<noteq> 0)
     else held (pbuf p) = [] \<and> cap (pbuf p) = 0 \<and> plen p = 0 \<and> readers p = 0 \<and> writers p = 0)"

definition pipes_inv :: "pipes \<Rightarrow> bool" where
  "pipes_inv s \<longleftrightarrow> length (ptab s) = PIPE_COUNT \<and> tables_inv page_ty (pmem s, map pbuf (ptab s)) \<and> (\<forall>p \<in> set (ptab s). pipe_ok p)"

lemma pipes_invD:
  assumes "pipes_inv s" and "i < length (ptab s)"
  shows "km_inv (pmem s)" "funded_inv page_ty (pmem s) (pbuf (ptab s ! i))" "pipe_ok (ptab s ! i)"
  using assms by (auto simp: pipes_inv_def tables_inv_def)

lemma pipes_upd:
  assumes inv: "pipes_inv s" and i: "i < length (ptab s)" and t: "table_acct page_ty (pmem s, pbuf (ptab s ! i)) (k, pbuf p)" and ok: "pipe_ok p"
  shows "pipes_inv (s\<lparr>pmem := k, ptab := (ptab s)[i := p]\<rparr>)"
proof -
  have "tables_inv page_ty (k, (map pbuf (ptab s))[i := pbuf p])"
    by (rule tables_inv_acct) (use inv i t in \<open>auto simp: pipes_inv_def\<close>)
  moreover have "pipe_ok q" if "q \<in> set ((ptab s)[i := p])" for q
    using set_update_subset_insert [of "ptab s" i p] that ok inv by (auto simp: pipes_inv_def)
  ultimately show ?thesis using inv by (simp add: pipes_inv_def map_update)
qed

lemma pipes_same_buf:
  assumes "pipes_inv s" and "i < length (ptab s)" and "pbuf p = pbuf (ptab s ! i)" and "pipe_ok p"
  shows "pipes_inv (s\<lparr>ptab := (ptab s)[i := p]\<rparr>)"
proof -
  have "table_acct page_ty (pmem s, pbuf (ptab s ! i)) (pmem s, pbuf p)"
    unfolding assms(3) by (rule table_acct_refl [OF pipes_invD(1,2) [OF assms(1,2)]])
  from pipes_upd [OF assms(1,2) this assms(4)] show ?thesis by simp
qed

lemma pipe_release_spec:
  assumes "km_inv k" and "funded_inv page_ty k (pbuf p)"
  shows "\<exists>k' p'. pipe_release (k, p) = Some (k', p') \<and> table_acct page_ty (k, pbuf p) (k', pbuf p') \<and> pipe_ok p' \<and> \<not> pused p' \<and> pq p' = []"
proof -
  from funded_release_spec [OF assms] obtain k' t where "funded_release (k, pbuf p) = Some (k', t)" "table_acct page_ty (k, pbuf p) (k', t)"
    "cap t = 0" "held t = []" by blast
  then show ?thesis by (auto simp: pipe_release_def pipe_ok_def pq_def)
qed

lemma set_owner_inv:
  assumes inv: "pipes_inv s" and i: "i < length (ptab s)" and kt: "funded_set_owner ow (pmem s, pbuf (ptab s ! i)) = (k, t)" and ok: "\<not> pused (ptab s ! i)"
  shows "pipes_inv (s\<lparr>pmem := k, ptab := (ptab s)[i := (ptab s ! i)\<lparr>pbuf := t\<rparr>]\<rparr>)"
proof -
  let ?p = "ptab s ! i"
  have kt': "k = move_charge (fowner (pbuf ?p)) ow (frames_held (pbuf ?p)) (pmem s)" "t = (pbuf ?p)\<lparr>fowner := ow\<rparr>"
    using kt by (simp_all add: funded_set_owner_def)
  have "tables_inv page_ty (pmem s, map pbuf (ptab s))" using inv by (simp add: pipes_inv_def)
  from tables_inv_set_owner [OF this, of i ow] i have "tables_inv page_ty (k, (map pbuf (ptab s))[i := t])" by (simp add: kt')
  moreover have "pipe_ok (?p\<lparr>pbuf := t\<rparr>)"
  proof -
    have "held t = held (pbuf ?p)"
      using funded_set_owner_inv(5) [OF pipes_invD(1,2) [OF inv i] kt] .
    then show ?thesis using pipes_invD(3) [OF inv i] ok by (simp add: pipe_ok_def kt'(2))
  qed
  moreover have "pipe_ok q" if "q \<in> set ((ptab s)[i := ?p\<lparr>pbuf := t\<rparr>])" for q
    using set_update_subset_insert [of "ptab s" i "?p\<lparr>pbuf := t\<rparr>"] that calculation(2) inv by (auto simp: pipes_inv_def)
  ultimately show ?thesis using inv by (simp add: pipes_inv_def map_update)
qed

lemma reserved_pages:
  assumes "table_grew page_ty (k, t) (k', t')" and "contents t = []" and "PIPE_PAGES \<le> cap t'" and "cap t = 0"
  shows "ring_shape (p\<lparr>pbuf := t', phead := 0, plen := 0\<rparr>)"
  using assms by (auto simp: ring_shape_def table_grew_def page_ty_def pipe_consts)

lemma pipe_alloc_spec:
  assumes inv: "pipes_inv s"
  shows "\<exists>s' r. pipe_alloc cell s = Some (s', r) \<and> pipes_inv s' \<and>
    (case r of None \<Rightarrow> (\<forall>j < length (ptab s). pused (ptab s ! j) \<longrightarrow> ptab s' ! j = ptab s ! j) \<and> (\<forall>j < length (ptab s). pused (ptab s' ! j) = pused (ptab s ! j))
     | Some i \<Rightarrow> i < length (ptab s) \<and> \<not> pused (ptab s ! i) \<and> pused (ptab s' ! i) \<and> pq (ptab s' ! i) = [] \<and>
         readers (ptab s' ! i) = 1 \<and> writers (ptab s' ! i) = 1 \<and> (\<forall>j < length (ptab s). j \<noteq> i \<longrightarrow> ptab s' ! j = ptab s ! j))"
proof (cases "find (\<lambda>i. \<not> pused (ptab s ! i)) [0..<length (ptab s)]")
  case None
  then show ?thesis using inv by (intro exI [of _ s] exI [of _ None]) (simp add: pipe_alloc_def)
next
  case (Some i)
  then have i: "i < length (ptab s)" "\<not> pused (ptab s ! i)" by (auto simp: find_Some_iff)
  let ?p = "ptab s ! i"
  obtain k0 t0 where kt: "funded_set_owner (owner_cell cell) (pmem s, pbuf ?p) = (k0, t0)" by fastforce
  define s0 where "s0 = s\<lparr>pmem := k0, ptab := (ptab s)[i := ?p\<lparr>pbuf := t0\<rparr>]\<rparr>"
  have inv0: "pipes_inv s0" unfolding s0_def by (rule set_owner_inv [OF inv i(1) kt i(2)])
  have i0: "i < length (ptab s0)" "ptab s0 ! i = ?p\<lparr>pbuf := t0\<rparr>" "pmem s0 = k0" using i(1) by (simp_all add: s0_def)
  have k0: "km_inv k0" "funded_inv page_ty k0 t0" "pipe_ok (?p\<lparr>pbuf := t0\<rparr>)" using pipes_invD [OF inv0 i0(1)] i0 by simp_all
  have c0: "cap t0 = 0" "contents t0 = []" using k0(3) i(2) length_contents [OF k0(2)] by (auto simp: pipe_ok_def)
  from reserve_spec [OF k0(1,2), of PIPE_PAGES] obtain k1 t1 ok where r: "reserve page_ty PIPE_PAGES (k0, t0) = Some ((k1, t1), ok)"
    "table_grew page_ty (k0, t0) (k1, t1)" "ok \<Longrightarrow> PIPE_PAGES \<le> cap t1" by blast
  have up: "s0\<lparr>pmem := k, ptab := (ptab s0)[i := p]\<rparr> = s\<lparr>pmem := k, ptab := (ptab s)[i := p]\<rparr>" for k p by (simp add: s0_def)
  show ?thesis
  proof (cases ok)
    case True
    let ?q = "?p\<lparr>pbuf := t1, phead := 0, plen := 0, pused := True, readers := 1, writers := 1\<rparr>"
    have "ring_shape ?q" using reserved_pages [OF r(2) c0(2) r(3) [OF True] c0(1), of ?p] by (simp add: ring_shape_def)
    then have "pipes_inv (s0\<lparr>pmem := k1, ptab := (ptab s0)[i := ?q]\<rparr>)"
      by (intro pipes_upd [OF inv0 i0(1)]) (use table_grew_acct [OF r(2)] i0 in \<open>simp_all add: pipe_ok_def\<close>)
    moreover have "pipe_alloc cell s = Some ((s\<lparr>pmem := k1, ptab := (ptab s)[i := ?q]\<rparr>)\<lparr>rings_funded := rings_funded s + 1\<rparr>, Some i)"
      using Some r(1) True kt by (simp add: pipe_alloc_def fund_ring_def Let_def)
    ultimately show ?thesis using i unfolding up by (auto simp: pipes_inv_def pq_def)
  next
    case False
    have k1: "km_inv k1" "funded_inv page_ty k1 t1" using r(2) by (simp_all add: table_grew_def)
    from funded_release_spec [OF k1] obtain k2 t2 where f: "funded_release (k1, t1) = Some (k2, t2)" "table_acct page_ty (k1, t1) (k2, t2)" "cap t2 = 0" "held t2 = []"
      by blast
    let ?q = "?p\<lparr>pbuf := t2\<rparr>"
    have "pipe_ok ?q" using k0(3) i(2) f(3,4) by (simp add: pipe_ok_def)
    then have "pipes_inv (s0\<lparr>pmem := k2, ptab := (ptab s0)[i := ?q]\<rparr>)"
      by (intro pipes_upd [OF inv0 i0(1)]) (use table_acct_trans [OF table_grew_acct [OF r(2)] f(2)] i0 in simp_all)
    moreover have "pipe_alloc cell s = Some (s\<lparr>pmem := k2, ptab := (ptab s)[i := ?q]\<rparr>, None)"
      using Some r(1) False f(1) kt by (simp add: pipe_alloc_def fund_ring_def Let_def)
    moreover have "\<forall>j < length (ptab s). pused (ptab s ! j) \<longrightarrow> (ptab s)[i := ?q] ! j = ptab s ! j" using i(2) by (metis nth_list_update_neq)
    moreover have "\<forall>j < length (ptab s). pused ((ptab s)[i := ?q] ! j) = pused (ptab s ! j)"
    proof (intro allI impI)
      fix j show "pused ((ptab s)[i := ?q] ! j) = pused (ptab s ! j)" by (cases "j = i") (use i(1) in simp_all)
    qed
    ultimately show ?thesis unfolding up by auto
  qed
qed

section \<open>The abstract pipe\<close>

text \<open>A queue of bytes of bounded length, with the counts of its ends.\<close>

record apipe =
  aq :: "u8 list"
  ar :: u8
  aw :: u8

definition pipe_abs :: "pipe \<Rightarrow> apipe option" where
  "pipe_abs p = (if pused p then Some \<lparr> aq = pq p, ar = readers p, aw = writers p \<rparr> else None)"

definition spec_write :: "(nat \<Rightarrow> bool) \<Rightarrow> u8 list \<Rightarrow> apipe \<Rightarrow> apipe \<times> write_nb" where
  "spec_write ok bs a =
     (let room = PIPE_CAP - length (aq a); n = min room (length bs)
      in if ar a = 0 then (a, Epipe) else if room = 0 then (a, WriteWouldBlock)
         else if \<not> ok n then (a, WriteDone (- EFAULT)) else (a\<lparr>aq := aq a @ take n bs\<rparr>, WriteDone (int n)))"

definition spec_read :: "(nat \<Rightarrow> bool) \<Rightarrow> nat \<Rightarrow> apipe \<Rightarrow> apipe \<times> u8 list \<times> read_nb" where
  "spec_read ok count a =
     (let n = min (length (aq a)) count
      in if aq a = [] then (a, [], if aw a = 0 then ReadDone 0 else ReadWouldBlock)
         else if \<not> ok n then (a, [], ReadDone (- EFAULT)) else (a\<lparr>aq := drop n (aq a)\<rparr>, take n (aq a), ReadDone (int n)))"

text \<open>The pipe goes away with its last end.\<close>

definition spec_close :: "bool \<Rightarrow> apipe \<Rightarrow> apipe option" where
  "spec_close w a = (let a' = (if w then a\<lparr>aw := sat_dec (aw a)\<rparr> else a\<lparr>ar := sat_dec (ar a)\<rparr>)
     in if ar a' = 0 \<and> aw a' = 0 then None else Some a')"

definition spec_add :: "bool \<Rightarrow> apipe \<Rightarrow> apipe" where
  "spec_add w a = (if w then a\<lparr>aw := sat_inc (aw a)\<rparr> else a\<lparr>ar := sat_inc (ar a)\<rparr>)"

lemma length_pq [simp]: "length (pq p) = plen p"
  by (simp add: pq_def)

lemma pq_upd [simp]:
  "pq (p\<lparr>readers := x1\<rparr>) = pq p" "pq (p\<lparr>writers := x2\<rparr>) = pq p" "pq (p\<lparr>pused := x3\<rparr>) = pq p"
  by (simp_all add: pq_def ring_bytes_def)

lemma used_ring:
  assumes "pipes_inv s" and "i < length (ptab s)" and "pused (ptab s ! i)"
  shows "ring_ok (pmem s) (ptab s ! i)" "readers (ptab s ! i) \<noteq> 0 \<or> writers (ptab s ! i) \<noteq> 0"
  using pipes_invD(2,3) [OF assms(1,2)] assms(3) by (simp_all add: ring_ok_def pipe_ok_def)

lemma store_nothing: "store_bytes va [] m = m"
proof -
  have "(\<lambda>a. if va \<le> a \<and> a < va + length [] then [] ! (a - va) else u_byte m a) = u_byte m" by (intro ext) auto
  then show ?thesis by (simp add: store_bytes_def)
qed

lemma pipe_write_spec:
  assumes inv: "pipes_inv s" and i: "i < length (ptab s)" and u: "pipe_abs (ptab s ! i) = Some a"
  shows "\<exists>s' a' r. pipe_write i va count (m, s) = Some ((m, s'), r) \<and> pipes_inv s' \<and> pipe_abs (ptab s' ! i) = Some a' \<and>
    (a', r) = spec_write (u_ok m va) (load_bytes m va count) a \<and> (\<forall>j. j \<noteq> i \<longrightarrow> ptab s' ! j = ptab s ! j) \<and> length (ptab s') = length (ptab s)"
proof -
  let ?p = "ptab s ! i"
  have up: "pused ?p" and a: "a = \<lparr> aq = pq ?p, ar = readers ?p, aw = writers ?p \<rparr>" using u by (auto simp: pipe_abs_def split: if_splits)
  note r = used_ring [OF inv i up] and km = pipes_invD(1) [OF inv i]
  let ?n = "min (PIPE_CAP - plen ?p) count"
  have ld: "length (load_bytes m va x) = x" "take x (load_bytes m va count) = load_bytes m va (min x count)" for x
    by (simp_all add: load_bytes_def take_map min_def)
  show ?thesis
  proof (cases "readers ?p = 0 \<or> PIPE_CAP - plen ?p = 0 \<or> \<not> u_ok m va ?n")
    case True
    then show ?thesis using inv i u a by (auto simp: pipe_write_def spec_write_def Let_def ld)
  next
    case False
    have "plen ?p + length (load_bytes m va ?n) \<le> PIPE_CAP" using r(1) ld(1) by (auto simp: ring_ok_def ring_shape_def)
    from put_bytes_spec [OF r(1) km this] obtain t where t: "put_bytes (load_bytes m va ?n) ?p = Some (?p\<lparr>pbuf := t, plen := plen ?p + ?n\<rparr>)"
      "ring_ok (pmem s) (?p\<lparr>pbuf := t, plen := plen ?p + ?n\<rparr>)" "pq (?p\<lparr>pbuf := t, plen := plen ?p + ?n\<rparr>) = pq ?p @ load_bytes m va ?n"
      "table_acct page_ty (pmem s, pbuf ?p) (pmem s, t)" by (auto simp: ld)
    let ?q = "?p\<lparr>pbuf := t, plen := plen ?p + ?n\<rparr>"
    let ?s = "s\<lparr>ptab := (ptab s)[i := ?q]\<rparr>"
    have "pipes_inv (s\<lparr>pmem := pmem s, ptab := (ptab s)[i := ?q]\<rparr>)"
      by (rule pipes_upd [OF inv i]) (use t r up in \<open>auto simp: pipe_ok_def ring_ok_def\<close>)
    then have "pipes_inv ?s" by simp
    moreover have "pipe_write i va count (m, s) = Some ((m, ?s), WriteDone (int ?n))" using False i t(1) by (simp add: pipe_write_def Let_def)
    moreover have "spec_write (u_ok m va) (load_bytes m va count) a = (a\<lparr>aq := pq ?p @ load_bytes m va ?n\<rparr>, WriteDone (int ?n))"
      using False by (simp add: spec_write_def Let_def a ld min.absorb1)
    moreover have "pipe_abs (ptab ?s ! i) = Some (a\<lparr>aq := pq ?p @ load_bytes m va ?n\<rparr>)" using i up t(3) by (simp add: pipe_abs_def a)
    ultimately show ?thesis by (intro exI [of _ ?s] exI [of _ "a\<lparr>aq := pq ?p @ load_bytes m va ?n\<rparr>"] exI [of _ "WriteDone (int ?n)"]) simp
  qed
qed

lemma pipe_read_spec:
  assumes inv: "pipes_inv s" and i: "i < length (ptab s)" and u: "pipe_abs (ptab s ! i) = Some a"
  shows "\<exists>s' a' bs r. pipe_read i va count (m, s) = Some ((store_bytes va bs m, s'), r) \<and> pipes_inv s' \<and> pipe_abs (ptab s' ! i) = Some a' \<and>
    (a', bs, r) = spec_read (u_ok m va) count a \<and> (\<forall>j. j \<noteq> i \<longrightarrow> ptab s' ! j = ptab s ! j) \<and> length (ptab s') = length (ptab s)"
proof -
  let ?p = "ptab s ! i"
  have up: "pused ?p" and a: "a = \<lparr> aq = pq ?p, ar = readers ?p, aw = writers ?p \<rparr>" using u by (auto simp: pipe_abs_def split: if_splits)
  note r = used_ring [OF inv i up]
  let ?n = "min (plen ?p) count"
  show ?thesis
  proof (cases "plen ?p = 0 \<or> \<not> u_ok m va ?n")
    case True
    have "pq ?p = [] \<longleftrightarrow> plen ?p = 0" by (simp add: pq_def)
    with True inv i u a show ?thesis
      by (intro exI [of _ s] exI [of _ a] exI [of _ "[]"] exI [of _ "if plen ?p = 0 then if writers ?p = 0 then ReadDone 0 else ReadWouldBlock else ReadDone (- EFAULT)"])
         (auto simp: pipe_read_def spec_read_def Let_def store_nothing)
  next
    case False
    have n: "?n \<le> plen ?p" by simp
    note t = take_bytes_spec [OF r(1) n]
    let ?q = "?p\<lparr>phead := (phead ?p + ?n) mod PIPE_CAP, plen := plen ?p - ?n\<rparr>"
    let ?s = "s\<lparr>ptab := (ptab s)[i := ?q]\<rparr>"
    have "pipes_inv ?s" by (rule pipes_same_buf [OF inv i]) (use t(2) r(2) up in \<open>auto simp: pipe_ok_def ring_ok_def\<close>)
    moreover have "pipe_read i va count (m, s) = Some ((store_bytes va (take ?n (pq ?p)) m, ?s), ReadDone (int ?n))"
      using False i t(1) by (simp add: pipe_read_def Let_def)
    moreover have "pq ?p \<noteq> []" using False by (simp add: pq_def)
    then have "spec_read (u_ok m va) count a = (a\<lparr>aq := drop ?n (pq ?p)\<rparr>, take ?n (pq ?p), ReadDone (int ?n))"
      using False by (simp add: spec_read_def Let_def a)
    moreover have "pipe_abs (ptab ?s ! i) = Some (a\<lparr>aq := drop ?n (pq ?p)\<rparr>)" using i up t(3) by (simp add: pipe_abs_def a)
    ultimately show ?thesis
      by (intro exI [of _ ?s] exI [of _ "a\<lparr>aq := drop ?n (pq ?p)\<rparr>"] exI [of _ "take ?n (pq ?p)"] exI [of _ "ReadDone (int ?n)"]) simp
  qed
qed

lemma pipe_abs_upd: "pipe_abs p = Some a \<Longrightarrow> pused p \<and> a = \<lparr> aq = pq p, ar = readers p, aw = writers p \<rparr>"
  by (simp add: pipe_abs_def split: if_splits)

lemma sat_inc_nonzero: "sat_inc x \<noteq> 0"
proof -
  have "x + 1 = 0 \<longleftrightarrow> x = - 1" by (simp add: eq_neg_iff_add_eq_0)
  then show ?thesis by (auto simp: sat_inc_def)
qed

lemma add_end_spec:
  assumes inv: "pipes_inv s" and i: "i < length (ptab s)" and u: "pipe_abs (ptab s ! i) = Some a"
  shows "\<exists>s'. add_end i w s = Some s' \<and> pipes_inv s' \<and> pipe_abs (ptab s' ! i) = Some (spec_add w a) \<and> (\<forall>j. j \<noteq> i \<longrightarrow> ptab s' ! j = ptab s ! j)"
proof -
  let ?p = "ptab s ! i"
  let ?q = "if w then ?p\<lparr>writers := sat_inc (writers ?p)\<rparr> else ?p\<lparr>readers := sat_inc (readers ?p)\<rparr>"
  note a = pipe_abs_upd [OF u]
  have ok: "pipe_ok ?q" using pipes_invD(3) [OF inv i] a sat_inc_nonzero by (auto simp: pipe_ok_def ring_shape_def)
  have "pipes_inv (s\<lparr>ptab := (ptab s)[i := ?q]\<rparr>)" by (rule pipes_same_buf [OF inv i _ ok]) simp
  moreover have "add_end i w s = Some (s\<lparr>ptab := (ptab s)[i := ?q]\<rparr>)" using i by (simp add: add_end_def on_pipe_def)
  moreover have "pipe_abs ?q = Some (spec_add w a)" using a by (auto simp: pipe_abs_def spec_add_def)
  ultimately show ?thesis using i by (intro exI [of _ "s\<lparr>ptab := (ptab s)[i := ?q]\<rparr>"]) simp
qed

lemma close_end_spec:
  assumes inv: "pipes_inv s" and i: "i < length (ptab s)" and u: "pipe_abs (ptab s ! i) = Some a"
  shows "\<exists>s'. close_end i w s = Some s' \<and> pipes_inv s' \<and> pipe_abs (ptab s' ! i) = spec_close w a \<and> (\<forall>j. j \<noteq> i \<longrightarrow> ptab s' ! j = ptab s ! j)"
proof -
  let ?p = "ptab s ! i"
  define q where "q = (if w then ?p\<lparr>writers := sat_dec (writers ?p)\<rparr> else ?p\<lparr>readers := sat_dec (readers ?p)\<rparr>)"
  note a = pipe_abs_upd [OF u]
  have qb: "pbuf q = pbuf ?p" "pused q" "pq q = pq ?p" using a by (simp_all add: q_def)
  have cl: "close_end i w s = map_option (\<lambda>(k, p). s\<lparr>pmem := k, ptab := (ptab s)[i := p]\<rparr>)
    (if readers q = 0 \<and> writers q = 0 then pipe_release (pmem s, q) else Some (pmem s, q))"
    using i by (simp add: close_end_def on_pipe_def Let_def q_def)
  have sp: "spec_close w a = (if readers q = 0 \<and> writers q = 0 then None else Some \<lparr> aq = pq q, ar = readers q, aw = writers q \<rparr>)"
    using a by (simp add: spec_close_def Let_def q_def)
  show ?thesis
  proof (cases "readers q = 0 \<and> writers q = 0")
    case True
    from pipe_release_spec [of "pmem s" q] pipes_invD(1,2) [OF inv i] qb(1) obtain k p' where p': "pipe_release (pmem s, q) = Some (k, p')"
      "table_acct page_ty (pmem s, pbuf ?p) (k, pbuf p')" "pipe_ok p'" "\<not> pused p'" by auto
    have "pipes_inv (s\<lparr>pmem := k, ptab := (ptab s)[i := p']\<rparr>)" by (rule pipes_upd [OF inv i p'(2,3)])
    then show ?thesis using cl sp True p'(1,4) i
      by (intro exI [of _ "s\<lparr>pmem := k, ptab := (ptab s)[i := p']\<rparr>"]) (simp add: pipe_abs_def)
  next
    case False
    have ok: "pipe_ok q" using pipes_invD(3) [OF inv i] a False qb by (auto simp: pipe_ok_def ring_shape_def q_def)
    have "pipes_inv (s\<lparr>ptab := (ptab s)[i := q]\<rparr>)" by (rule pipes_same_buf [OF inv i qb(1) ok])
    then show ?thesis using cl sp False qb(2) i by (intro exI [of _ "s\<lparr>ptab := (ptab s)[i := q]\<rparr>"]) (auto simp: pipe_abs_def)
  qed
qed

lemma reset_pipes_spec:
  assumes "pipes_inv s" and "\<And>i. i \<in> set is \<Longrightarrow> i < PIPE_COUNT"
  shows "\<exists>s'. for_each (on_pipe pipe_release) is s = Some s' \<and> pipes_inv s' \<and> (\<forall>i < PIPE_COUNT. pused (ptab s' ! i) \<longrightarrow> i \<notin> set is \<and> pused (ptab s ! i))"
  using assms
proof (induction "is" arbitrary: s)
  case (Cons i "is")
  have i: "i < length (ptab s)" using Cons.prems by (simp add: pipes_inv_def)
  from pipe_release_spec [OF pipes_invD(1,2) [OF Cons.prems(1) i]] obtain k p' where p': "pipe_release (pmem s, ptab s ! i) = Some (k, p')"
    "table_acct page_ty (pmem s, pbuf (ptab s ! i)) (k, pbuf p')" "pipe_ok p'" "\<not> pused p'" by blast
  let ?s = "s\<lparr>pmem := k, ptab := (ptab s)[i := p']\<rparr>"
  have inv: "pipes_inv ?s" by (rule pipes_upd [OF Cons.prems(1) i p'(2,3)])
  from Cons.IH [OF inv] Cons.prems(2) obtain s' where s': "for_each (on_pipe pipe_release) is ?s = Some s'" "pipes_inv s'"
    "\<forall>j < PIPE_COUNT. pused (ptab s' ! j) \<longrightarrow> j \<notin> set is \<and> pused (ptab ?s ! j)" by auto
  have "pused (ptab ?s ! j) \<Longrightarrow> j \<noteq> i \<and> pused (ptab s ! j)" if "j < PIPE_COUNT" for j
    using that p'(4) i by (cases "j = i") simp_all
  moreover have "on_pipe pipe_release i s = Some ?s" using p'(1) i by (simp add: on_pipe_def)
  ultimately show ?case using s' by auto
qed auto

lemma pipes_reset_spec:
  assumes inv: "pipes_inv s"
  shows "\<exists>s'. pipes_reset s = Some s' \<and> pipes_inv s' \<and> (\<forall>i < PIPE_COUNT. \<not> pused (ptab s' ! i))"
  using reset_pipes_spec [OF inv, of "[0..<length (ptab s)]"] inv by (auto simp: pipes_reset_def pipes_inv_def)

section \<open>Properties\<close>

datatype pipe_op = PAlloc nat | PAdd nat bool | PClose nat bool | PRead nat nat nat user_mem | PWrite nat nat nat user_mem | PReset

fun pipe_exec :: "pipe_op \<Rightarrow> pipes \<Rightarrow> pipes option" where
  "pipe_exec (PAlloc cell) s = map_option fst (pipe_alloc cell s)"
| "pipe_exec (PAdd i w) s = add_end i w s"
| "pipe_exec (PClose i w) s = close_end i w s"
| "pipe_exec (PRead i va count m) s = map_option (\<lambda>((_, s'), _). s') (pipe_read i va count (m, s))"
| "pipe_exec (PWrite i va count m) s = map_option (\<lambda>((_, s'), _). s') (pipe_write i va count (m, s))"
| "pipe_exec PReset s = pipes_reset s"

text \<open>The descriptor layer names open pipes only.\<close>

fun pipe_pre :: "pipes \<Rightarrow> pipe_op \<Rightarrow> bool" where
  "pipe_pre s (PAdd i w) \<longleftrightarrow> i < length (ptab s) \<and> pused (ptab s ! i)"
| "pipe_pre s (PClose i w) \<longleftrightarrow> i < length (ptab s) \<and> pused (ptab s ! i)"
| "pipe_pre s (PRead i va count m) \<longleftrightarrow> i < length (ptab s) \<and> pused (ptab s ! i)"
| "pipe_pre s (PWrite i va count m) \<longleftrightarrow> i < length (ptab s) \<and> pused (ptab s ! i)"
| "pipe_pre s _ \<longleftrightarrow> True"

definition pipe_step :: "pipes \<Rightarrow> pipe_op \<Rightarrow> pipes" where
  "pipe_step s x = (case pipe_exec x s of None \<Rightarrow> s | Some s' \<Rightarrow> s')"

lemma pipe_exec_inv:
  assumes inv: "pipes_inv s" and pre: "pipe_pre s x"
  shows "\<exists>s'. pipe_exec x s = Some s' \<and> pipes_inv s'"
proof -
  have ab: "\<exists>a. pipe_abs (ptab s ! i) = Some a" if "pused (ptab s ! i)" for i using that by (simp add: pipe_abs_def)
  show ?thesis
  proof (cases x)
    case (PAlloc cell)
    from pipe_alloc_spec [OF inv, of cell] obtain s' r where "pipe_alloc cell s = Some (s', r)" "pipes_inv s'" by blast
    then show ?thesis using PAlloc by simp
  next
    case (PAdd i w)
    then show ?thesis using add_end_spec [OF inv, of i _ w] pre ab [of i] by fastforce
  next
    case (PClose i w)
    then show ?thesis using close_end_spec [OF inv, of i _ w] pre ab [of i] by fastforce
  next
    case (PRead i va count m)
    then show ?thesis using pipe_read_spec [OF inv, of i _ va count m] pre ab [of i] by fastforce
  next
    case (PWrite i va count m)
    then show ?thesis using pipe_write_spec [OF inv, of i _ va count m] pre ab [of i] by fastforce
  next
    case PReset
    then show ?thesis using pipes_reset_spec [OF inv] by auto
  qed
qed

interpretation pp: machine pipe_step pipe_pre pipes_inv
proof
  fix s x assume "pipes_inv s" "pipe_pre s x"
  from pipe_exec_inv [OF this] show "pipes_inv (pipe_step s x)" by (auto simp: pipe_step_def)
qed

lemma pipes_inv_new: "pool_inv p \<Longrightarrow> pipes_inv (pipes_new (kmem_new p))"
proof -
  assume p: "pool_inv p"
  have "tables_inv page_ty (kmem_new p, replicate PIPE_COUNT funded_new)" by (rule tables_inv_new [OF p]) (simp add: page_ty_page)
  moreover have "pipe_ok pipe_new" by (simp add: pipe_ok_def pipe_new_def funded_new_def frames_of_def)
  ultimately show ?thesis by (simp add: pipes_inv_def pipes_new_def) (simp add: pipe_new_def)
qed


text \<open>An open pipe on a freshly booted pool.\<close>

lemma pool_booted: "\<exists>p. pool_inv p"
  using pool_inv_boot [of 67108864 4096] by auto




end
