(* ===== verification/Fdobjects.thy ===== *)
theory Fdobjects
  imports Pipe
begin

text \<open>
  The objects behind event, timer and epoll descriptors of the Linux personality: \<^verbatim>\<open>kernel/src/linux/eventfd.rs\<close>,
  \<^verbatim>\<open>timerfd.rs\<close> and \<^verbatim>\<open>epoll.rs\<close>. Each is a fixed table of objects with a count of the descriptors that name them.

  What \<^verbatim>\<open>uaccess\<close> answers for the caller's buffer is an argument: the word it reads, if any, or whether the word can be stored. The clock
  reading of the cell is an argument too. An index out of the table, and an overflow, panic: the outer \<open>None\<close>.
\<close>

definition ENOENT :: int where "ENOENT = 2"
definition EAGAIN :: int where "EAGAIN = 11"
definition ENOMEM :: int where "ENOMEM = 12"
definition EEXIST :: int where "EEXIST = 17"
definition EINVAL :: int where "EINVAL = 22"

definition sat_dec16 :: "u16 \<Rightarrow> u16" where "sat_dec16 x = (if x = 0 then x else x - 1)"

text \<open>Change object \<open>i\<close> of a table.\<close>

definition on_obj :: "nat \<Rightarrow> ('o \<Rightarrow> 'o) \<Rightarrow> 'o list \<Rightarrow> 'o list option" where
  "on_obj i f t = (if i < length t then Some (t[i := f (t ! i)]) else None)"

section \<open>Event counters\<close>

definition EVENTFDS :: nat where "EVENTFDS = 16"
definition EV_MAX_COUNT :: u64 where "EV_MAX_COUNT = - 2"

record eventfd =
  ev_used :: bool
  ev_refs :: u16
  ev_semaphore :: bool
  ev_count :: u64

definition eventfd_new :: eventfd where
  "eventfd_new = \<lparr> ev_used = False, ev_refs = 0, ev_semaphore = False, ev_count = 0 \<rparr>"

definition eventfd_reset :: "eventfd list \<Rightarrow> eventfd list" where
  "eventfd_reset t = map (\<lambda>_. eventfd_new) t"

definition eventfd_create :: "u64 \<Rightarrow> bool \<Rightarrow> eventfd list \<Rightarrow> eventfd list \<times> nat option" where
  "eventfd_create initval sem t =
     (case find_idx (\<lambda>e. \<not> ev_used e) t of None \<Rightarrow> (t, None)
      | Some i \<Rightarrow> (t[i := \<lparr> ev_used = True, ev_refs = 1, ev_semaphore = sem, ev_count = min initval EV_MAX_COUNT \<rparr>], Some i))"

definition eventfd_addref :: "nat \<Rightarrow> eventfd list \<Rightarrow> eventfd list option" where
  "eventfd_addref i = on_obj i (\<lambda>e. e\<lparr>ev_refs := sat_inc16 (ev_refs e)\<rparr>)"

definition eventfd_close :: "nat \<Rightarrow> eventfd list \<Rightarrow> eventfd list option" where
  "eventfd_close i = on_obj i (\<lambda>e. let e1 = e\<lparr>ev_refs := sat_dec16 (ev_refs e)\<rparr> in if ev_refs e1 = 0 then eventfd_new else e1)"

definition ev_readable :: "eventfd \<Rightarrow> bool" where "ev_readable e \<longleftrightarrow> 0 < ev_count e"
definition ev_writable :: "eventfd \<Rightarrow> bool" where "ev_writable e \<longleftrightarrow> ev_count e < EV_MAX_COUNT"

datatype word_read = WordDone u64 | WordWouldBlock

definition eventfd_read :: "bool \<Rightarrow> nat \<Rightarrow> nat \<Rightarrow> eventfd list \<Rightarrow> (eventfd list \<times> (int + word_read)) option" where
  "eventfd_read dst_ok i count t =
     (if count < 8 then Some (t, Inl (- EINVAL))
      else if \<not> i < length t then None
      else let e = t ! i
           in if ev_count e = 0 then Some (t, Inr WordWouldBlock)
              else let val = (if ev_semaphore e then 1 else ev_count e)
                   in if \<not> dst_ok then Some (t, Inl (- EFAULT))
                      else Some (t[i := (if ev_semaphore e then e\<lparr>ev_count := ev_count e - 1\<rparr> else e\<lparr>ev_count := 0\<rparr>)], Inr (WordDone val)))"

definition eventfd_write :: "u64 option \<Rightarrow> nat \<Rightarrow> nat \<Rightarrow> eventfd list \<Rightarrow> (eventfd list \<times> int) option" where
  "eventfd_write src i count t =
     (if count < 8 then Some (t, - EINVAL)
      else case src of None \<Rightarrow> Some (t, - EFAULT)
           | Some add \<Rightarrow>
               if add = - 1 then Some (t, - EINVAL)
               else if \<not> i < length t then None
               else let e = t ! i
                    in if unat (ev_count e) + unat add < 2 ^ 64 \<and> ev_count e + add \<le> EV_MAX_COUNT
                       then Some (t[i := e\<lparr>ev_count := ev_count e + add\<rparr>], 8) else Some (t, - EAGAIN))"

section \<open>Timers\<close>

definition TIMERFDS :: nat where "TIMERFDS = 16"
definition CLOCK_REALTIME :: u64 where "CLOCK_REALTIME = 0"
definition CLOCK_MONOTONIC :: u64 where "CLOCK_MONOTONIC = 1"

record timerfd =
  tf_used :: bool
  tf_refs :: u16
  tf_realtime :: bool
  tf_deadline :: nat
  tf_interval :: nat

definition timerfd_new :: timerfd where
  "timerfd_new = \<lparr> tf_used = False, tf_refs = 0, tf_realtime = False, tf_deadline = 0, tf_interval = 0 \<rparr>"

definition sat64 :: "nat \<Rightarrow> nat" where "sat64 n = min n (2 ^ 64 - 1)"

definition count_at :: "nat \<Rightarrow> timerfd \<Rightarrow> nat" where
  "count_at now e = (if tf_deadline e = 0 \<or> now < tf_deadline e then 0
     else if tf_interval e = 0 then 1 else 1 + (now - tf_deadline e) div tf_interval e)"

definition timerfd_reset :: "timerfd list \<Rightarrow> timerfd list" where
  "timerfd_reset t = map (\<lambda>_. timerfd_new) t"

definition timerfd_create :: "u64 \<Rightarrow> timerfd list \<Rightarrow> timerfd list \<times> nat option" where
  "timerfd_create clockid t =
     (if clockid \<noteq> CLOCK_MONOTONIC \<and> clockid \<noteq> CLOCK_REALTIME then (t, None)
      else case find_idx (\<lambda>e. \<not> tf_used e) t of None \<Rightarrow> (t, None)
           | Some i \<Rightarrow> (t[i := \<lparr> tf_used = True, tf_refs = 1, tf_realtime = (clockid = CLOCK_REALTIME), tf_deadline = 0, tf_interval = 0 \<rparr>], Some i))"

definition timerfd_addref :: "nat \<Rightarrow> timerfd list \<Rightarrow> timerfd list option" where
  "timerfd_addref i = on_obj i (\<lambda>e. e\<lparr>tf_refs := sat_inc16 (tf_refs e)\<rparr>)"

definition timerfd_close :: "nat \<Rightarrow> timerfd list \<Rightarrow> timerfd list option" where
  "timerfd_close i = on_obj i (\<lambda>e. let e1 = e\<lparr>tf_refs := sat_dec16 (tf_refs e)\<rparr> in if tf_refs e1 = 0 then timerfd_new else e1)"

record itspec =
  it_value :: nat
  it_interval :: nat

definition timerfd_gettime :: "nat \<Rightarrow> timerfd \<Rightarrow> itspec" where
  "timerfd_gettime now e =
     \<lparr> it_value = (if tf_deadline e = 0 then 0
         else if now < tf_deadline e then tf_deadline e - now
         else if tf_interval e \<noteq> 0 then tf_interval e - (now - tf_deadline e) mod tf_interval e
         else 0), it_interval = tf_interval e \<rparr>"

text \<open>The clock is read once for the answer, at \<open>now\<close>, and again for the new deadline, at \<open>now'\<close>.\<close>

definition timerfd_settime :: "nat \<Rightarrow> nat \<Rightarrow> nat \<Rightarrow> bool \<Rightarrow> nat \<Rightarrow> nat \<Rightarrow> timerfd list \<Rightarrow> (timerfd list \<times> itspec) option" where
  "timerfd_settime now now' i abstime value interval t =
     (if \<not> i < length t then None
      else let e = t ! i; prev = timerfd_gettime now e;
               e1 = (if value = 0 then e\<lparr>tf_deadline := 0, tf_interval := 0\<rparr>
                     else e\<lparr>tf_deadline := (if abstime then value else sat64 (now' + value)), tf_interval := interval\<rparr>)
           in Some (t[i := e1], prev))"

definition timerfd_readable :: "nat \<Rightarrow> timerfd \<Rightarrow> bool" where
  "timerfd_readable now e \<longleftrightarrow> 0 < count_at now e"

datatype ticks_read = TicksDone nat | TicksWouldBlock

definition timerfd_read :: "nat \<Rightarrow> bool \<Rightarrow> nat \<Rightarrow> nat \<Rightarrow> timerfd list \<Rightarrow> (timerfd list \<times> (int + ticks_read)) option" where
  "timerfd_read now dst_ok i count t =
     (if count < 8 then Some (t, Inl (- EINVAL))
      else if \<not> i < length t then None
      else let e = t ! i; n = count_at now e
           in if n = 0 then Some (t, Inr TicksWouldBlock)
              else if \<not> dst_ok then Some (t, Inl (- EFAULT))
              else if tf_interval e = 0 then Some (t[i := e\<lparr>tf_deadline := 0\<rparr>], Inr (TicksDone n))
              else if 2 ^ 64 \<le> n * tf_interval e then None
              else Some (t[i := e\<lparr>tf_deadline := sat64 (tf_deadline e + n * tf_interval e)\<rparr>], Inr (TicksDone n)))"

section \<open>Epoll instances\<close>

definition EPOLLIN :: u32 where "EPOLLIN = 1"
definition EPOLLOUT :: u32 where "EPOLLOUT = 4"
definition EPOLLS :: nat where "EPOLLS = 8"
definition WATCH :: nat where "WATCH = 32"
definition EPOLL_CTL_ADD :: u64 where "EPOLL_CTL_ADD = 1"
definition EPOLL_CTL_DEL :: u64 where "EPOLL_CTL_DEL = 2"
definition EPOLL_CTL_MOD :: u64 where "EPOLL_CTL_MOD = 3"

record watch =
  w_active :: bool
  w_fd :: int
  w_events :: u32
  w_data :: u64

definition watch_new :: watch where
  "watch_new = \<lparr> w_active = False, w_fd = 0, w_events = 0, w_data = 0 \<rparr>"

record epoll =
  ep_used :: bool
  ep_refs :: u16
  ep_w :: "watch list"

definition epoll_new :: epoll where
  "epoll_new = \<lparr> ep_used = False, ep_refs = 0, ep_w = replicate WATCH watch_new \<rparr>"

definition epoll_reset :: "epoll list \<Rightarrow> epoll list" where
  "epoll_reset t = map (\<lambda>_. epoll_new) t"

definition epoll_create :: "epoll list \<Rightarrow> epoll list \<times> nat option" where
  "epoll_create t =
     (case find_idx (\<lambda>e. \<not> ep_used e) t of None \<Rightarrow> (t, None) | Some i \<Rightarrow> (t[i := epoll_new\<lparr>ep_used := True, ep_refs := 1\<rparr>], Some i))"

definition epoll_addref :: "nat \<Rightarrow> epoll list \<Rightarrow> epoll list option" where
  "epoll_addref i = on_obj i (\<lambda>e. e\<lparr>ep_refs := sat_inc16 (ep_refs e)\<rparr>)"

definition epoll_close :: "nat \<Rightarrow> epoll list \<Rightarrow> epoll list option" where
  "epoll_close i = on_obj i (\<lambda>e. let e1 = e\<lparr>ep_refs := sat_dec16 (ep_refs e)\<rparr> in if ep_refs e1 = 0 then epoll_new else e1)"

definition watches :: "int \<Rightarrow> watch \<Rightarrow> bool" where
  "watches fd w \<longleftrightarrow> w_active w \<and> w_fd w = fd"

definition ctl_instance :: "u64 \<Rightarrow> int \<Rightarrow> u32 \<Rightarrow> u64 \<Rightarrow> epoll \<Rightarrow> epoll \<times> int" where
  "ctl_instance op fd events data e =
     (let masked = events AND (EPOLLIN OR EPOLLOUT); ws = ep_w e
      in if op = EPOLL_CTL_ADD
         then (if list_ex (watches fd) ws then (e, - EEXIST)
               else case find_idx (\<lambda>w. \<not> w_active w) ws of None \<Rightarrow> (e, - ENOMEM)
                    | Some k \<Rightarrow> (e\<lparr>ep_w := ws[k := \<lparr> w_active = True, w_fd = fd, w_events = masked, w_data = data \<rparr>]\<rparr>, 0))
         else if op = EPOLL_CTL_MOD
         then (case find_idx (watches fd) ws of None \<Rightarrow> (e, - ENOENT)
               | Some k \<Rightarrow> (e\<lparr>ep_w := ws[k := (ws ! k)\<lparr>w_events := masked, w_data := data\<rparr>]\<rparr>, 0))
         else if op = EPOLL_CTL_DEL
         then (case find_idx (watches fd) ws of None \<Rightarrow> (e, - ENOENT) | Some k \<Rightarrow> (e\<lparr>ep_w := ws[k := watch_new]\<rparr>, 0))
         else (e, - EINVAL))"

definition epoll_ctl :: "nat \<Rightarrow> u64 \<Rightarrow> int \<Rightarrow> u32 \<Rightarrow> u64 \<Rightarrow> epoll list \<Rightarrow> (epoll list \<times> int) option" where
  "epoll_ctl i op fd events data t =
     (if \<not> i < length t then None
      else let (e, r) = ctl_instance op fd events data (t ! i) in Some (t[i := e], r))"

definition epoll_snapshot :: "epoll \<Rightarrow> (int \<times> u32 \<times> u64) list" where
  "epoll_snapshot e = map (\<lambda>w. (w_fd w, w_events w, w_data w)) (filter w_active (ep_w e))"

section \<open>Objects and the descriptors that name them\<close>

text \<open>
  The three tables share one contract: an object is opened with one descriptor, a duplicate adds one, a close drops one and frees the
  object with the last, and nothing else touches the counts. The state of the machine is the table together with the list of
  the open descriptors, each given by the object it names.
\<close>

datatype ('x, 'u) ref_op = ROpen 'x | RDup nat | RClose nat | RUse nat 'u | RReset

fun ref_exec :: "('x \<Rightarrow> 'o list \<Rightarrow> 'o list \<times> nat option) \<Rightarrow> (nat \<Rightarrow> 'o list \<Rightarrow> 'o list option) \<Rightarrow> (nat \<Rightarrow> 'o list \<Rightarrow> 'o list option) \<Rightarrow>
    (nat \<Rightarrow> 'u \<Rightarrow> 'o list \<Rightarrow> 'o list option) \<Rightarrow> ('o list \<Rightarrow> 'o list) \<Rightarrow> ('x, 'u) ref_op \<Rightarrow> 'o list \<times> nat list \<Rightarrow> ('o list \<times> nat list) option" where
  "ref_exec create add close use reset (ROpen x) (t, ds) = (case create x t of (t', None) \<Rightarrow> Some (t', ds) | (t', Some i) \<Rightarrow> Some (t', i # ds))"
| "ref_exec create add close use reset (RDup i) (t, ds) = map_option (\<lambda>t'. (t', i # ds)) (add i t)"
| "ref_exec create add close use reset (RClose i) (t, ds) = map_option (\<lambda>t'. (t', remove1 i ds)) (close i t)"
| "ref_exec create add close use reset (RUse i u) (t, ds) = map_option (\<lambda>t'. (t', ds)) (use i u t)"
| "ref_exec create add close use reset RReset (t, ds) = Some (reset t, [])"

text \<open>Only open descriptors are duplicated, closed and used, and no object has more of them than its 16-bit count can hold.\<close>

fun ref_pre :: "('u \<Rightarrow> bool) \<Rightarrow> 'o list \<times> nat list \<Rightarrow> ('x, 'u) ref_op \<Rightarrow> bool" where
  "ref_pre okuse (t, ds) (RDup i) \<longleftrightarrow> i \<in> set ds \<and> count_list ds i < 65535"
| "ref_pre okuse (t, ds) (RClose i) \<longleftrightarrow> i \<in> set ds"
| "ref_pre okuse (t, ds) (RUse i u) \<longleftrightarrow> i \<in> set ds \<and> okuse u"
| "ref_pre okuse (t, ds) _ \<longleftrightarrow> True"

definition ref_step :: "('x \<Rightarrow> 'o list \<Rightarrow> 'o list \<times> nat option) \<Rightarrow> (nat \<Rightarrow> 'o list \<Rightarrow> 'o list option) \<Rightarrow> (nat \<Rightarrow> 'o list \<Rightarrow> 'o list option) \<Rightarrow>
    (nat \<Rightarrow> 'u \<Rightarrow> 'o list \<Rightarrow> 'o list option) \<Rightarrow> ('o list \<Rightarrow> 'o list) \<Rightarrow> 'o list \<times> nat list \<Rightarrow> ('x, 'u) ref_op \<Rightarrow> 'o list \<times> nat list" where
  "ref_step create add close use reset s x = (case ref_exec create add close use reset x s of None \<Rightarrow> s | Some s' \<Rightarrow> s')"

definition tracked :: "('o \<Rightarrow> bool) \<Rightarrow> ('o \<Rightarrow> bool) \<Rightarrow> ('o \<Rightarrow> u16) \<Rightarrow> 'o list \<times> nat list \<Rightarrow> bool" where
  "tracked used ok refs = (\<lambda>(t, ds). set ds \<subseteq> {..<length t} \<and>
     (\<forall>i < length t. ok (t ! i) \<and> (used (t ! i) \<longleftrightarrow> i \<in> set ds) \<and> unat (refs (t ! i)) = count_list ds i))"

definition ref_inv :: "('o \<Rightarrow> bool) \<Rightarrow> ('o \<Rightarrow> bool) \<Rightarrow> ('o \<Rightarrow> u16) \<Rightarrow> 'o \<Rightarrow> 'o list \<times> nat list \<Rightarrow> bool" where
  "ref_inv used ok refs blank = (\<lambda>(t, ds). set ds \<subseteq> {..<length t} \<and>
     (\<forall>i < length t. unat (refs (t ! i)) = count_list ds i \<and> ok (t ! i) \<and> (if i \<in> set ds then used (t ! i) else t ! i = blank)))"

lemma ref_invD:
  assumes "ref_inv used ok refs blank (t, ds)"
  shows "i \<in> set ds \<Longrightarrow> i < length t" "i < length t \<Longrightarrow> unat (refs (t ! i)) = count_list ds i"
    "i \<in> set ds \<Longrightarrow> used (t ! i)" "i < length t \<Longrightarrow> i \<notin> set ds \<Longrightarrow> t ! i = blank" "i < length t \<Longrightarrow> ok (t ! i)"
  using assms by (auto simp: ref_inv_def)

lemma ref_inv_upd:
  assumes "ref_inv used ok refs blank (t, ds)" and i: "i < length t"
    and o: "unat (refs ob) = count_list ds' i" "if i \<in> set ds' then used ob else ob = blank" "ok ob"
    and ds: "\<And>j. j \<noteq> i \<Longrightarrow> count_list ds' j = count_list ds j"
  shows "ref_inv used ok refs blank (t[i := ob], ds')"
proof -
  have "j \<in> set ds' \<longleftrightarrow> j \<in> set ds" if "j \<noteq> i" for j using ds [OF that] by (metis count_list_0_iff)
  with assms show ?thesis by (fastforce simp: ref_inv_def nth_list_update)
qed

lemma count_list_remove1: "count_list (remove1 x xs) y = (if x = y then count_list xs y - 1 else count_list xs y)"
proof (induction xs)
  case (Cons a xs)
  then show ?case by (cases "a = y \<and> y \<in> set xs") (auto simp: count_list_0_iff Suc_pred' count_notin dest: count_list_0_iff [THEN iffD1])
qed simp

lemma unat_sat_dec16: "unat (sat_dec16 x) = unat x - 1"
  by (simp add: sat_dec16_def unat_minus_one)

locale ref_table =
  fixes used ok :: "'o \<Rightarrow> bool" and refs :: "'o \<Rightarrow> u16" and blank :: 'o
    and create :: "'x \<Rightarrow> 'o list \<Rightarrow> 'o list \<times> nat option"
    and add close :: "nat \<Rightarrow> 'o list \<Rightarrow> 'o list option"
    and use :: "nat \<Rightarrow> 'u \<Rightarrow> 'o list \<Rightarrow> 'o list option" and okuse :: "'u \<Rightarrow> bool"
    and reset :: "'o list \<Rightarrow> 'o list"
  assumes blank_free: "\<not> used blank" "refs blank = 0" "ok blank"
    and create_law: "create x t = (t', r) \<Longrightarrow> (case r of None \<Rightarrow> t' = t
       | Some i \<Rightarrow> i < length t \<and> \<not> used (t ! i) \<and> (\<exists>ob. t' = t[i := ob] \<and> used ob \<and> refs ob = 1 \<and> ok ob))"
    and add_law: "i < length t \<Longrightarrow> ok (t ! i) \<Longrightarrow> \<exists>ob. ok ob \<and> add i t = Some (t[i := ob]) \<and> used ob = used (t ! i) \<and> refs ob = sat_inc16 (refs (t ! i))"
    and close_law: "i < length t \<Longrightarrow> ok (t ! i) \<Longrightarrow> \<exists>ob. ok ob \<and> close i t = Some (t[i := ob]) \<and> refs ob = sat_dec16 (refs (t ! i)) \<and>
       (if refs ob = 0 then ob = blank else used ob = used (t ! i))"
    and use_law: "i < length t \<Longrightarrow> ok (t ! i) \<Longrightarrow> okuse u \<Longrightarrow> \<exists>ob. ok ob \<and> use i u t = Some (t[i := ob]) \<and> used ob = used (t ! i) \<and> refs ob = refs (t ! i)"
    and reset_law: "reset t = replicate (length t) blank"
begin

lemma exec_inv:
  assumes inv: "ref_inv used ok refs blank (t, ds)" and pre: "ref_pre okuse (t, ds) x"
  shows "\<exists>s'. ref_exec create add close use reset x (t, ds) = Some s' \<and> ref_inv used ok refs blank s'"
proof (cases x)
  case (ROpen y)
  obtain t' r where c: "create y t = (t', r)" by fastforce
  note law = create_law [OF c]
  show ?thesis
  proof (cases r)
    case (Some i)
    with law obtain ob where i: "i < length t" "\<not> used (t ! i)" "t' = t[i := ob]" "used ob" "refs ob = 1" "ok ob" by auto
    have "i \<notin> set ds" using ref_invD(3) [OF inv] i(2) by blast
    then have "ref_inv used ok refs blank (t[i := ob], i # ds)"
      by (intro ref_inv_upd [OF inv i(1)]) (simp_all add: i count_notin)
    with ROpen c Some i(3) show ?thesis by simp
  qed (use ROpen c inv law in simp)
next
  case (RDup i)
  then have i: "i < length t" "i \<in> set ds" "count_list ds i < 65535" using pre ref_invD(1) [OF inv] by auto
  from add_law [OF i(1) ref_invD(5) [OF inv i(1)]] obtain ob where ob: "add i t = Some (t[i := ob])" "used ob = used (t ! i)" "refs ob = sat_inc16 (refs (t ! i))" "ok ob" by blast
  have "ref_inv used ok refs blank (t[i := ob], i # ds)"
    by (rule ref_inv_upd [OF inv i(1)]) (use ob i ref_invD(2,3) [OF inv, of i] in \<open>simp_all add: unat_sat_inc16\<close>)
  with RDup ob(1) show ?thesis by simp
next
  case (RClose i)
  then have i: "i < length t" "i \<in> set ds" using pre ref_invD(1) [OF inv] by auto
  from close_law [OF i(1) ref_invD(5) [OF inv i(1)]] obtain ob where ob: "close i t = Some (t[i := ob])" "refs ob = sat_dec16 (refs (t ! i))"
    "if refs ob = 0 then ob = blank else used ob = used (t ! i)" "ok ob" by blast
  have n: "unat (refs ob) = count_list (remove1 i ds) i"
    using ob(2) ref_invD(2) [OF inv i(1)] by (simp add: unat_sat_dec16 count_list_remove1)
  have z: "refs ob = 0 \<longleftrightarrow> i \<notin> set (remove1 i ds)" by (metis n count_list_0_iff unat_eq_zero)
  have "ref_inv used ok refs blank (t[i := ob], remove1 i ds)"
    by (rule ref_inv_upd [OF inv i(1) n]) (use ob(3,4) z ref_invD(3) [OF inv i(2)] in \<open>auto simp: count_list_remove1\<close>)
  with RClose ob(1) show ?thesis by simp
next
  case (RUse i u)
  then have i: "i < length t" "i \<in> set ds" "okuse u" using pre ref_invD(1) [OF inv] by auto
  from use_law [OF i(1) ref_invD(5) [OF inv i(1)] i(3)] obtain ob where ob: "use i u t = Some (t[i := ob])" "used ob = used (t ! i)" "refs ob = refs (t ! i)" "ok ob" by blast
  have "ref_inv used ok refs blank (t[i := ob], ds)"
    by (rule ref_inv_upd [OF inv i(1)]) (use ob i ref_invD(2,3) [OF inv, of i] in simp_all)
  with RUse ob(1) show ?thesis by simp
next
  case RReset
  then show ?thesis by (simp add: ref_inv_def reset_law blank_free)
qed

sublocale rm: machine "ref_step create add close use reset" "ref_pre okuse" "ref_inv used ok refs blank"
proof
  fix s and x :: "('x, 'u) ref_op" assume "ref_inv used ok refs blank s" "ref_pre okuse s x"
  then show "ref_inv used ok refs blank (ref_step create add close use reset s x)"
    using exec_inv [of "fst s" "snd s" x] by (auto simp: ref_step_def)
qed

lemma objects_tracked:
  assumes "ok_run (ref_step create add close use reset) (ref_pre okuse) (replicate n blank, []) ops"
    and "run_ops (ref_step create add close use reset) (replicate n blank, []) ops = (t, ds)"
  shows "tracked used ok refs (t, ds) \<and> (\<forall>x. ref_pre okuse (t, ds) x \<longrightarrow> ref_exec create add close use reset x (t, ds) \<noteq> None) \<and>
    (\<forall>x t' i. create x t = (t', Some i) \<longrightarrow> i \<notin> set ds)"
proof -
  have "ref_inv used ok refs blank (replicate n blank, [])" by (simp add: ref_inv_def blank_free)
  from rm.run_inv [OF this assms(1)] assms(2) have inv: "ref_inv used ok refs blank (t, ds)" by simp
  have "tracked used ok refs (t, ds)" using ref_invD [OF inv] blank_free(1) by (auto simp: tracked_def)
  moreover have "i \<notin> set ds" if "create x t = (t', Some i)" for x t' i using create_law [OF that] ref_invD(3) [OF inv] by auto
  moreover have "ref_exec create add close use reset x (t, ds) \<noteq> None" if "ref_pre okuse (t, ds) x" for x using exec_inv [OF inv that] by auto
  ultimately show ?thesis by blast
qed

end

text \<open>The uses of the objects, and the interpretation of the contract for each table.\<close>

datatype ev_use = EvRead bool nat | EvWrite "u64 option" nat

fun eventfd_use :: "nat \<Rightarrow> ev_use \<Rightarrow> eventfd list \<Rightarrow> eventfd list option" where
  "eventfd_use i (EvRead dst_ok count) t = map_option fst (eventfd_read dst_ok i count t)"
| "eventfd_use i (EvWrite src count) t = map_option fst (eventfd_write src i count t)"

datatype tf_use = TfRead nat bool nat | TfSet nat nat bool nat nat

fun timerfd_use :: "nat \<Rightarrow> tf_use \<Rightarrow> timerfd list \<Rightarrow> timerfd list option" where
  "timerfd_use i (TfRead now dst_ok count) t = map_option fst (timerfd_read now dst_ok i count t)"
| "timerfd_use i (TfSet now now' abstime value interval) t = map_option fst (timerfd_settime now now' i abstime value interval t)"

fun timerfd_use_ok :: "tf_use \<Rightarrow> bool" where
  "timerfd_use_ok (TfRead now dst_ok count) \<longleftrightarrow> now < 2 ^ 63"
| "timerfd_use_ok (TfSet now now' abstime value interval) \<longleftrightarrow> value < 2 ^ 64 \<and> interval < 2 ^ 64"

datatype ep_use = EpCtl u64 int u32 u64

fun epoll_use :: "nat \<Rightarrow> ep_use \<Rightarrow> epoll list \<Rightarrow> epoll list option" where
  "epoll_use i (EpCtl op fd events data) t = map_option fst (epoll_ctl i op fd events data t)"

definition eventfd_ok :: "eventfd \<Rightarrow> bool" where "eventfd_ok e \<longleftrightarrow> ev_count e \<le> EV_MAX_COUNT"
definition timerfd_ok :: "timerfd \<Rightarrow> bool" where "timerfd_ok e \<longleftrightarrow> tf_deadline e < 2 ^ 64 \<and> tf_interval e < 2 ^ 64"
definition epoll_ok :: "epoll \<Rightarrow> bool" where
  "epoll_ok e \<longleftrightarrow> length (ep_w e) = WATCH \<and>
     (\<forall>j < WATCH. \<forall>k < WATCH. w_active (ep_w e ! j) \<and> w_active (ep_w e ! k) \<and> w_fd (ep_w e ! j) = w_fd (ep_w e ! k) \<longrightarrow> j = k)"

lemma word_pred_le: "w \<noteq> 0 \<Longrightarrow> w - 1 \<le> w" for w :: "'a::len word"
  by (simp add: word_le_nat_alt unat_minus_one)

lemma on_objI:
  "i < length t \<Longrightarrow> ok (f (t ! i)) \<Longrightarrow> Q (f (t ! i)) \<Longrightarrow> \<exists>ob. ok ob \<and> on_obj i f t = Some (t[i := ob]) \<and> Q ob"
  by (auto simp: on_obj_def)

lemma slot_updI:
  "r = Some (t[i := ob]) \<Longrightarrow> ok ob \<Longrightarrow> Q ob \<Longrightarrow> \<exists>ob. ok ob \<and> r = Some (t[i := ob]) \<and> Q ob"
  by blast

lemma eventfd_use_law:
  assumes "i < length t" "eventfd_ok (t ! i)"
  shows "\<exists>ob. eventfd_ok ob \<and> eventfd_use i u t = Some (t[i := ob]) \<and> ev_used ob = ev_used (t ! i) \<and> ev_refs ob = ev_refs (t ! i)"
proof (cases u)
  case (EvRead dst_ok count)
  define ob where "ob = (if count < 8 \<or> ev_count (t ! i) = 0 \<or> \<not> dst_ok then t ! i
    else (t ! i)\<lparr>ev_count := (if ev_semaphore (t ! i) then ev_count (t ! i) - 1 else 0)\<rparr>)"
  have "ev_count (t ! i) \<noteq> 0 \<Longrightarrow> ev_count (t ! i) - 1 \<le> EV_MAX_COUNT"
    using assms(2) word_pred_le [of "ev_count (t ! i)"] unfolding eventfd_ok_def by (meson order_trans)
  then show ?thesis
    by (intro slot_updI [where ob = ob]) (use EvRead assms in \<open>simp_all add: ob_def eventfd_read_def Let_def eventfd_ok_def\<close>)
next
  case (EvWrite src count)
  define ob where "ob = (case src of None \<Rightarrow> t ! i | Some a \<Rightarrow>
    if count < 8 \<or> a = - 1 \<or> \<not> (unat (ev_count (t ! i)) + unat a < 2 ^ 64 \<and> ev_count (t ! i) + a \<le> EV_MAX_COUNT) then t ! i
    else (t ! i)\<lparr>ev_count := ev_count (t ! i) + a\<rparr>)"
  show ?thesis
    by (rule slot_updI [where ob = ob]) (use EvWrite assms in \<open>cases src; simp add: ob_def eventfd_write_def Let_def eventfd_ok_def; fail\<close>)+
qed

interpretation evt: ref_table ev_used eventfd_ok ev_refs eventfd_new "\<lambda>(v, sem). eventfd_create v sem" eventfd_addref eventfd_close eventfd_use "\<lambda>_. True" eventfd_reset
proof
  fix i t assume t: "i < length t" "eventfd_ok (t ! i)"
  show "\<exists>ob. eventfd_ok ob \<and> eventfd_addref i t = Some (t[i := ob]) \<and> ev_used ob = ev_used (t ! i) \<and> ev_refs ob = sat_inc16 (ev_refs (t ! i))"
    unfolding eventfd_addref_def by (rule on_objI) (use t in \<open>simp_all add: eventfd_ok_def\<close>)
  show "\<exists>ob. eventfd_ok ob \<and> eventfd_close i t = Some (t[i := ob]) \<and> ev_refs ob = sat_dec16 (ev_refs (t ! i)) \<and>
      (if ev_refs ob = 0 then ob = eventfd_new else ev_used ob = ev_used (t ! i))"
    unfolding eventfd_close_def by (rule on_objI) (use t in \<open>simp_all add: eventfd_ok_def eventfd_new_def\<close>)
next
  fix i t u assume "i < length t" "eventfd_ok (t ! i)"
  then show "\<exists>ob. eventfd_ok ob \<and> eventfd_use i u t = Some (t[i := ob]) \<and> ev_used ob = ev_used (t ! i) \<and> ev_refs ob = ev_refs (t ! i)"
    by (rule eventfd_use_law)
qed (auto simp: eventfd_new_def eventfd_ok_def eventfd_create_def eventfd_reset_def map_replicate_const scan_simps split: prod.splits option.splits)

lemma sat64_less: "sat64 n < 2 ^ 64"
  by (simp add: sat64_def min_def)

lemma timerfd_ticks_fit:
  assumes "now < 2 ^ 63" "tf_interval e < 2 ^ 64"
  shows "count_at now e * tf_interval e < 2 ^ 64"
proof (cases "tf_interval e = 0 \<or> count_at now e = 0 \<or> now - tf_deadline e < tf_interval e")
  case True
  then show ?thesis using assms(2) by (auto simp: count_at_def)
next
  case False
  have "(now - tf_deadline e) div tf_interval e * tf_interval e \<le> now - tf_deadline e" by simp
  moreover have "count_at now e * tf_interval e = tf_interval e + (now - tf_deadline e) div tf_interval e * tf_interval e"
    using False by (auto simp: count_at_def split: if_splits)
  ultimately have "count_at now e * tf_interval e \<le> 2 * now" using False by linarith
  with assms(1) show ?thesis by simp
qed

lemma timerfd_use_law:
  assumes t: "i < length t" "timerfd_ok (t ! i)" and u: "timerfd_use_ok u"
  shows "\<exists>ob. timerfd_ok ob \<and> timerfd_use i u t = Some (t[i := ob]) \<and> tf_used ob = tf_used (t ! i) \<and> tf_refs ob = tf_refs (t ! i)"
proof (cases u)
  case (TfRead now dst_ok count)
  have fit: "\<not> 2 ^ 64 \<le> count_at now (t ! i) * tf_interval (t ! i)"
    using timerfd_ticks_fit [of now "t ! i"] t(2) u TfRead by (simp add: timerfd_ok_def)
  define ob where "ob = (let e = t ! i; n = count_at now e in if count < 8 \<or> n = 0 \<or> \<not> dst_ok then e
    else e\<lparr>tf_deadline := (if tf_interval e = 0 then 0 else sat64 (tf_deadline e + n * tf_interval e))\<rparr>)"
  from fit show ?thesis
    by (intro slot_updI [where ob = ob]) (use TfRead t in \<open>simp_all add: ob_def timerfd_read_def Let_def timerfd_ok_def sat64_less [simplified]\<close>)
next
  case (TfSet now now' abstime val interval)
  define ob where "ob = (if val = 0 then (t ! i)\<lparr>tf_deadline := 0, tf_interval := 0\<rparr>
    else (t ! i)\<lparr>tf_deadline := (if abstime then val else sat64 (now' + val)), tf_interval := interval\<rparr>)"
  show ?thesis
    by (rule slot_updI [where ob = ob]) (use TfSet t u in \<open>simp_all add: ob_def timerfd_settime_def Let_def timerfd_ok_def sat64_less [simplified]\<close>)
qed

interpretation tft: ref_table tf_used timerfd_ok tf_refs timerfd_new timerfd_create timerfd_addref timerfd_close timerfd_use timerfd_use_ok timerfd_reset
proof
  fix i t assume t: "i < length t" "timerfd_ok (t ! i)"
  show "\<exists>ob. timerfd_ok ob \<and> timerfd_addref i t = Some (t[i := ob]) \<and> tf_used ob = tf_used (t ! i) \<and> tf_refs ob = sat_inc16 (tf_refs (t ! i))"
    unfolding timerfd_addref_def by (rule on_objI) (use t in \<open>simp_all add: timerfd_ok_def\<close>)
  show "\<exists>ob. timerfd_ok ob \<and> timerfd_close i t = Some (t[i := ob]) \<and> tf_refs ob = sat_dec16 (tf_refs (t ! i)) \<and>
      (if tf_refs ob = 0 then ob = timerfd_new else tf_used ob = tf_used (t ! i))"
    unfolding timerfd_close_def by (rule on_objI) (use t in \<open>simp_all add: timerfd_ok_def timerfd_new_def\<close>)
next
  fix i t u assume "i < length t" "timerfd_ok (t ! i)" "timerfd_use_ok u"
  then show "\<exists>ob. timerfd_ok ob \<and> timerfd_use i u t = Some (t[i := ob]) \<and> tf_used ob = tf_used (t ! i) \<and> tf_refs ob = tf_refs (t ! i)"
    by (rule timerfd_use_law)
qed (auto simp: timerfd_new_def timerfd_ok_def timerfd_create_def timerfd_reset_def map_replicate_const scan_simps split: if_splits option.splits)

section \<open>An epoll instance is a finite map\<close>

text \<open>The map an instance stands for, and what \<^verbatim>\<open>epoll_ctl\<close> means on it.\<close>

definition epoll_abs :: "epoll \<Rightarrow> int \<Rightarrow> (u32 \<times> u64) option" where
  "epoll_abs e fd = map_option (\<lambda>k. (w_events (ep_w e ! k), w_data (ep_w e ! k))) (find_idx (watches fd) (ep_w e))"

definition spec_ctl :: "u64 \<Rightarrow> int \<Rightarrow> u32 \<Rightarrow> u64 \<Rightarrow> (int \<Rightarrow> (u32 \<times> u64) option) \<Rightarrow> (int \<Rightarrow> (u32 \<times> u64) option) \<times> int" where
  "spec_ctl op fd events data m =
     (let v = (events AND (EPOLLIN OR EPOLLOUT), data)
      in if op = EPOLL_CTL_ADD
         then (if fd \<in> dom m then (m, - EEXIST) else if WATCH \<le> card (dom m) then (m, - ENOMEM) else (m(fd \<mapsto> v), 0))
         else if op = EPOLL_CTL_MOD then (if fd \<in> dom m then (m(fd \<mapsto> v), 0) else (m, - ENOENT))
         else if op = EPOLL_CTL_DEL then (if fd \<in> dom m then (m(fd := None), 0) else (m, - ENOENT))
         else (m, - EINVAL))"

lemma epoll_okD:
  assumes "epoll_ok e"
  shows "length (ep_w e) = WATCH"
    "\<lbrakk>j < WATCH; k < WATCH; watches fd (ep_w e ! j); watches fd (ep_w e ! k)\<rbrakk> \<Longrightarrow> j = k"
  using assms by (auto simp: epoll_ok_def watches_def)

lemma epoll_abs_Some:
  assumes "epoll_ok e"
  shows "epoll_abs e fd = Some v \<longleftrightarrow> (\<exists>k < WATCH. watches fd (ep_w e ! k) \<and> v = (w_events (ep_w e ! k), w_data (ep_w e ! k)))"
proof
  assume "epoll_abs e fd = Some v"
  then show "\<exists>k < WATCH. watches fd (ep_w e ! k) \<and> v = (w_events (ep_w e ! k), w_data (ep_w e ! k))"
    using epoll_okD(1) [OF assms] by (auto simp: epoll_abs_def scan_simps)
next
  assume "\<exists>k < WATCH. watches fd (ep_w e ! k) \<and> v = (w_events (ep_w e ! k), w_data (ep_w e ! k))"
  then obtain k where k: "k < WATCH" "watches fd (ep_w e ! k)" "v = (w_events (ep_w e ! k), w_data (ep_w e ! k))" by blast
  have "\<not> watches fd (ep_w e ! j)" if "j < k" for j using epoll_okD(2) [OF assms, of j k fd] k that by auto
  then have "find_idx (watches fd) (ep_w e) = Some k" using k epoll_okD(1) [OF assms] by (simp add: find_idx_Some)
  with k show "epoll_abs e fd = Some v" by (simp add: epoll_abs_def)
qed

lemma epoll_abs_None:
  assumes "epoll_ok e"
  shows "epoll_abs e fd = None \<longleftrightarrow> (\<forall>k < WATCH. \<not> watches fd (ep_w e ! k))"
  using epoll_okD(1) [OF assms] by (simp add: epoll_abs_def find_idx_None_nth)

lemma active_distinct:
  assumes "\<And>j k. \<lbrakk>j < length ws; k < length ws; w_active (ws ! j); w_active (ws ! k); w_fd (ws ! j) = w_fd (ws ! k)\<rbrakk> \<Longrightarrow> j = k"
  shows "distinct (map w_fd (filter w_active ws))"
  using assms
proof (induction ws)
  case (Cons w ws)
  have "distinct (map w_fd (filter w_active ws))"
  proof (rule Cons.IH)
    fix j k assume "j < length ws" "k < length ws" "w_active (ws ! j)" "w_active (ws ! k)" "w_fd (ws ! j) = w_fd (ws ! k)"
    then show "j = k" using Cons.prems [of "Suc j" "Suc k"] by simp
  qed
  moreover have "w_fd w \<noteq> w_fd v" if "w_active w" "v \<in> set ws" "w_active v" for v
  proof -
    from that(2) obtain k where "k < length ws" "ws ! k = v" by (auto simp: in_set_conv_nth)
    then show ?thesis using Cons.prems [of 0 "Suc k"] that by auto
  qed
  ultimately show ?case by auto
qed simp

lemma snapshot_distinct: "epoll_ok e \<Longrightarrow> distinct (map fst (epoll_snapshot e))"
  using active_distinct [of "ep_w e"] by (simp add: epoll_ok_def epoll_snapshot_def comp_def)

lemma snapshot_graph:
  assumes ok: "epoll_ok e"
  shows "(fd, ev, d) \<in> set (epoll_snapshot e) \<longleftrightarrow> epoll_abs e fd = Some (ev, d)"
  unfolding epoll_abs_Some [OF ok]
  using epoll_okD(1) [OF ok] by (auto simp: epoll_snapshot_def in_set_conv_nth watches_def)

lemma snapshot_dom: "epoll_ok e \<Longrightarrow> dom (epoll_abs e) = fst ` set (epoll_snapshot e)"
  using snapshot_graph [of e] by (force simp: dom_def)

lemma card_dom: "epoll_ok e \<Longrightarrow> card (dom (epoll_abs e)) = length (filter w_active (ep_w e))"
  using distinct_card [OF snapshot_distinct, of e] by (simp add: snapshot_dom) (simp add: epoll_snapshot_def)

lemma epoll_upd:
  assumes ok: "epoll_ok e" and k: "k < WATCH" and old: "w_active (ep_w e ! k) \<longrightarrow> w_fd (ep_w e ! k) = fd"
    and free: "\<And>j. j < WATCH \<Longrightarrow> j \<noteq> k \<Longrightarrow> \<not> watches fd (ep_w e ! j)" and w: "w_active w \<longrightarrow> w_fd w = fd"
  shows "epoll_ok (e\<lparr>ep_w := (ep_w e)[k := w]\<rparr>) \<and>
    epoll_abs (e\<lparr>ep_w := (ep_w e)[k := w]\<rparr>) = (epoll_abs e)(fd := if w_active w then Some (w_events w, w_data w) else None)"
proof -
  let ?e = "e\<lparr>ep_w := (ep_w e)[k := w]\<rparr>"
  note len = epoll_okD(1) [OF ok]
  have "a = b" if ab: "a < WATCH" "b < WATCH" "w_active (ep_w ?e ! a)" "w_active (ep_w ?e ! b)" "w_fd (ep_w ?e ! a) = w_fd (ep_w ?e ! b)" for a b
    using ab free [of a] free [of b] w k len epoll_okD(2) [OF ok, of a b "w_fd (ep_w e ! a)"]
    by (cases "a = k"; cases "b = k") (simp_all add: watches_def)
  then have ok': "epoll_ok ?e" using len by (simp add: epoll_ok_def)
  have "epoll_abs ?e fd' = ((epoll_abs e)(fd := if w_active w then Some (w_events w, w_data w) else None)) fd'" for fd'
  proof (cases "fd' = fd")
    case True
    show ?thesis
    proof (cases "w_active w")
      case act: True
      then have "watches fd (ep_w ?e ! k)" using w k len by (simp add: watches_def)
      then have "epoll_abs ?e fd = Some (w_events w, w_data w)"
        unfolding epoll_abs_Some [OF ok'] using k len by (intro exI [of _ k]) simp
      with True act show ?thesis by simp
    next
      case False
      then have "epoll_abs ?e fd = None" unfolding epoll_abs_None [OF ok'] using free k len by (auto simp: watches_def nth_list_update)
      with True False show ?thesis by simp
    qed
  next
    case False
    then have "watches fd' (ep_w ?e ! j) \<longleftrightarrow> watches fd' (ep_w e ! j)" "watches fd' (ep_w e ! j) \<Longrightarrow> ep_w ?e ! j = ep_w e ! j" if "j < WATCH" for j
      using old w k len that by (cases "j = k"; auto simp: watches_def)+
    then have "epoll_abs ?e fd' = Some v \<longleftrightarrow> epoll_abs e fd' = Some v" for v
      unfolding epoll_abs_Some [OF ok'] epoll_abs_Some [OF ok] by metis
    then have "epoll_abs ?e fd' = epoll_abs e fd'" by (metis not_Some_eq)
    with False show ?thesis by simp
  qed
  with ok' show ?thesis by blast
qed

lemma epoll_lookup:
  assumes ok: "epoll_ok e"
  shows "fd \<in> dom (epoll_abs e) \<longleftrightarrow> find_idx (watches fd) (ep_w e) \<noteq> None"
    "fd \<in> dom (epoll_abs e) \<longleftrightarrow> list_ex (watches fd) (ep_w e)"
    "find_idx (watches fd) (ep_w e) = Some k \<Longrightarrow> k < WATCH \<and> w_active (ep_w e ! k) \<and> w_fd (ep_w e ! k) = fd"
    "find_idx (watches fd) (ep_w e) = Some k \<Longrightarrow> j < WATCH \<Longrightarrow> j \<noteq> k \<Longrightarrow> \<not> watches fd (ep_w e ! j)"
    "fd \<notin> dom (epoll_abs e) \<Longrightarrow> j < WATCH \<Longrightarrow> \<not> watches fd (ep_w e ! j)"
    "find_idx (\<lambda>w. \<not> w_active w) (ep_w e) = None \<longleftrightarrow> WATCH \<le> card (dom (epoll_abs e))"
proof -
  note len = epoll_okD(1) [OF ok]
  have dom: "fd \<in> dom (epoll_abs e) \<longleftrightarrow> (\<exists>k < WATCH. watches fd (ep_w e ! k))" using epoll_abs_None [OF ok, of fd] by (auto simp: dom_def)
  show "fd \<in> dom (epoll_abs e) \<longleftrightarrow> find_idx (watches fd) (ep_w e) \<noteq> None" using dom len by (simp add: find_idx_None_nth)
  show "fd \<in> dom (epoll_abs e) \<longleftrightarrow> list_ex (watches fd) (ep_w e)" using dom len by (simp add: list_ex_length)
  show "k < WATCH \<and> w_active (ep_w e ! k) \<and> w_fd (ep_w e ! k) = fd" if "find_idx (watches fd) (ep_w e) = Some k"
    using that len by (auto simp: find_idx_Some watches_def)
  show "\<not> watches fd (ep_w e ! j)" if "find_idx (watches fd) (ep_w e) = Some k" "j < WATCH" "j \<noteq> k"
    using that len epoll_okD(2) [OF ok, of j k fd] by (auto simp: find_idx_Some)
  show "\<not> watches fd (ep_w e ! j)" if "fd \<notin> dom (epoll_abs e)" "j < WATCH" using that dom by blast
  show "find_idx (\<lambda>w. \<not> w_active w) (ep_w e) = None \<longleftrightarrow> WATCH \<le> card (dom (epoll_abs e))"
    using len length_filter_less [of _ "ep_w e" w_active] by (auto simp: card_dom [OF ok] find_idx_None not_le [symmetric])
qed

lemma ctl_add_spec:
  assumes ok: "epoll_ok e" and c: "ctl_instance EPOLL_CTL_ADD fd events data e = (e', r)"
  shows "epoll_ok e' \<and> spec_ctl EPOLL_CTL_ADD fd events data (epoll_abs e) = (epoll_abs e', r) \<and> ep_used e' = ep_used e \<and> ep_refs e' = ep_refs e"
proof (cases "fd \<in> dom (epoll_abs e) \<or> WATCH \<le> card (dom (epoll_abs e))")
  case True
  with c ok epoll_lookup(2,6) [OF ok] show ?thesis by (auto simp: ctl_instance_def spec_ctl_def Let_def split: if_splits option.splits)
next
  case False
  then obtain k where k: "find_idx (\<lambda>w. \<not> w_active w) (ep_w e) = Some k" using epoll_lookup(6) [OF ok] by blast
  let ?w = "\<lparr> w_active = True, w_fd = fd, w_events = events AND (EPOLLIN OR EPOLLOUT), w_data = data \<rparr>"
  have e': "e' = e\<lparr>ep_w := (ep_w e)[k := ?w]\<rparr>" "r = 0" using c k False epoll_lookup(2) [OF ok, of fd] by (simp_all add: ctl_instance_def Let_def)
  have "k < WATCH" "\<not> w_active (ep_w e ! k)" using k epoll_okD(1) [OF ok] by (simp_all add: find_idx_Some)
  with epoll_upd [OF ok, of k fd ?w] epoll_lookup(5) [OF ok, of fd] False have "epoll_ok e' \<and> epoll_abs e' = (epoll_abs e)(fd \<mapsto> (w_events ?w, data))"
    unfolding e' by simp
  with False e' show ?thesis by (simp add: spec_ctl_def Let_def)
qed

lemma ctl_instance_spec:
  assumes ok: "epoll_ok e" and c: "ctl_instance op fd events data e = (e', r)"
  shows "epoll_ok e' \<and> spec_ctl op fd events data (epoll_abs e) = (epoll_abs e', r) \<and> ep_used e' = ep_used e \<and> ep_refs e' = ep_refs e"
proof (cases "op = EPOLL_CTL_ADD")
  case True
  then show ?thesis using ctl_add_spec [OF ok] c by simp
next
  case add: False
  show ?thesis
  proof (cases "find_idx (watches fd) (ep_w e)")
    case None
    with add c ok epoll_lookup(1) [OF ok, of fd] show ?thesis by (auto simp: ctl_instance_def spec_ctl_def Let_def split: if_splits)
  next
    case (Some k)
    note hit = epoll_lookup(3) [OF ok Some] epoll_lookup(4) [OF ok Some]
    have mem: "fd \<in> dom (epoll_abs e)" using epoll_lookup(1) [OF ok, of fd] Some by simp
    let ?m = "(ep_w e ! k)\<lparr>w_events := events AND (EPOLLIN OR EPOLLOUT), w_data := data\<rparr>"
    consider (mod) "op = EPOLL_CTL_MOD" | (del) "op \<noteq> EPOLL_CTL_MOD" "op = EPOLL_CTL_DEL" | (bad) "op \<noteq> EPOLL_CTL_MOD" "op \<noteq> EPOLL_CTL_DEL" by blast
    then show ?thesis
    proof cases
      case mod
      then have "e' = e\<lparr>ep_w := (ep_w e)[k := ?m]\<rparr>" "r = 0" using add c Some by (simp_all add: ctl_instance_def Let_def)
      with epoll_upd [OF ok, of k fd ?m] hit mem add mod show ?thesis by (simp add: spec_ctl_def Let_def)
    next
      case del
      then have "e' = e\<lparr>ep_w := (ep_w e)[k := watch_new]\<rparr>" "r = 0" using add c Some by (simp_all add: ctl_instance_def Let_def)
      with epoll_upd [OF ok, of k fd watch_new] hit mem add del show ?thesis by (simp add: spec_ctl_def Let_def watch_new_def)
    qed (use add c ok in \<open>simp add: ctl_instance_def spec_ctl_def Let_def\<close>)
  qed
qed

lemma epoll_use_law:
  assumes t: "i < length t" "epoll_ok (t ! i)"
  shows "\<exists>ob. epoll_ok ob \<and> epoll_use i u t = Some (t[i := ob]) \<and> ep_used ob = ep_used (t ! i) \<and> ep_refs ob = ep_refs (t ! i)"
proof (cases u)
  case (EpCtl op fd events data)
  obtain e' r where c: "ctl_instance op fd events data (t ! i) = (e', r)" by fastforce
  show ?thesis
    by (rule slot_updI [where ob = e']) (use ctl_instance_spec [OF t(2) c] c EpCtl t in \<open>simp_all add: epoll_ctl_def\<close>)
qed

lemma epoll_new_ok: "epoll_ok epoll_new"
  by (simp add: epoll_ok_def epoll_new_def watch_new_def)

interpretation ept: ref_table ep_used epoll_ok ep_refs epoll_new "\<lambda>_::unit. epoll_create" epoll_addref epoll_close epoll_use "\<lambda>_. True" epoll_reset
proof
  fix i t assume t: "i < length t" "epoll_ok (t ! i)"
  show "\<exists>ob. epoll_ok ob \<and> epoll_addref i t = Some (t[i := ob]) \<and> ep_used ob = ep_used (t ! i) \<and> ep_refs ob = sat_inc16 (ep_refs (t ! i))"
    unfolding epoll_addref_def by (rule on_objI) (use t in \<open>simp_all add: epoll_ok_def\<close>)
  show "\<exists>ob. epoll_ok ob \<and> epoll_close i t = Some (t[i := ob]) \<and> ep_refs ob = sat_dec16 (ep_refs (t ! i)) \<and>
      (if ep_refs ob = 0 then ob = epoll_new else ep_used ob = ep_used (t ! i))"
    unfolding epoll_close_def by (rule on_objI) (use t epoll_new_ok in \<open>simp_all add: Let_def epoll_ok_def\<close>, simp add: epoll_new_def)
next
  fix i t u assume "i < length t" "epoll_ok (t ! i)"
  then show "\<exists>ob. epoll_ok ob \<and> epoll_use i u t = Some (t[i := ob]) \<and> ep_used ob = ep_used (t ! i) \<and> ep_refs ob = ep_refs (t ! i)"
    by (rule epoll_use_law)
next
  fix t t' r assume "epoll_create t = (t', r)"
  then show "case r of None \<Rightarrow> t' = t | Some i \<Rightarrow> i < length t \<and> \<not> ep_used (t ! i) \<and> (\<exists>ob. t' = t[i := ob] \<and> ep_used ob \<and> ep_refs ob = 1 \<and> epoll_ok ob)"
    using epoll_new_ok by (auto simp: epoll_create_def epoll_ok_def scan_simps split: option.splits)
qed (use epoll_new_ok in \<open>auto simp: epoll_new_def epoll_reset_def map_replicate_const\<close>)

section \<open>Properties\<close>

abbreviation ev_step where "ev_step \<equiv> ref_step (\<lambda>(v, sem). eventfd_create v sem) eventfd_addref eventfd_close eventfd_use eventfd_reset"
abbreviation tf_step where "tf_step \<equiv> ref_step timerfd_create timerfd_addref timerfd_close timerfd_use timerfd_reset"
abbreviation ep_step where "ep_step \<equiv> ref_step (\<lambda>_::unit. epoll_create) epoll_addref epoll_close epoll_use epoll_reset"

text \<open>
  C19: in every state that opening, duplicating, closing and using event, timer and epoll descriptors can reach, every object of the three
  tables is well-formed (an event count below the ceiling, deadlines within 64 bits, at most one watch per descriptor), its reference count is the number of
  open descriptors that name it, and it is in use exactly while there is one; a new object is never one that an open descriptor names, and no operation on an
  open descriptor panics.
\<close>

theorem descriptors_keep_objects:
  assumes "ok_run ev_step (ref_pre (\<lambda>_. True)) (replicate EVENTFDS eventfd_new, []) evs" and "run_ops ev_step (replicate EVENTFDS eventfd_new, []) evs = (te, de)"
    and "ok_run tf_step (ref_pre timerfd_use_ok) (replicate TIMERFDS timerfd_new, []) tfs" and "run_ops tf_step (replicate TIMERFDS timerfd_new, []) tfs = (tt, dt)"
    and "ok_run ep_step (ref_pre (\<lambda>_. True)) (replicate EPOLLS epoll_new, []) eps" and "run_ops ep_step (replicate EPOLLS epoll_new, []) eps = (tp, dp)"
  shows "tracked ev_used eventfd_ok ev_refs (te, de) \<and> (\<forall>v sem t' i. eventfd_create v sem te = (t', Some i) \<longrightarrow> i \<notin> set de) \<and>
      (\<forall>i \<in> set de. \<forall>u. eventfd_use i u te \<noteq> None \<and> eventfd_close i te \<noteq> None) \<and>
    tracked tf_used timerfd_ok tf_refs (tt, dt) \<and> (\<forall>c t' i. timerfd_create c tt = (t', Some i) \<longrightarrow> i \<notin> set dt) \<and>
      (\<forall>i \<in> set dt. \<forall>u. timerfd_use_ok u \<longrightarrow> timerfd_use i u tt \<noteq> None \<and> timerfd_close i tt \<noteq> None) \<and>
    tracked ep_used epoll_ok ep_refs (tp, dp) \<and> (\<forall>t' i. epoll_create tp = (t', Some i) \<longrightarrow> i \<notin> set dp) \<and>
      (\<forall>i \<in> set dp. \<forall>u. epoll_use i u tp \<noteq> None \<and> epoll_close i tp \<noteq> None)"
proof -
  have "eventfd_use i u te \<noteq> None \<and> eventfd_close i te \<noteq> None" if "i \<in> set de" for i u
    using evt.objects_tracked [OF assms(1,2), THEN conjunct2, THEN conjunct1, rule_format, of "RUse i u"]
      evt.objects_tracked [OF assms(1,2), THEN conjunct2, THEN conjunct1, rule_format, of "RClose i"] that by simp
  moreover have "timerfd_use i u tt \<noteq> None \<and> timerfd_close i tt \<noteq> None" if "i \<in> set dt" "timerfd_use_ok u" for i u
    using tft.objects_tracked [OF assms(3,4), THEN conjunct2, THEN conjunct1, rule_format, of "RUse i u"]
      tft.objects_tracked [OF assms(3,4), THEN conjunct2, THEN conjunct1, rule_format, of "RClose i"] that by simp
  moreover have "epoll_use i u tp \<noteq> None \<and> epoll_close i tp \<noteq> None" if "i \<in> set dp" for i u
    using ept.objects_tracked [OF assms(5,6), THEN conjunct2, THEN conjunct1, rule_format, of "RUse i u"]
      ept.objects_tracked [OF assms(5,6), THEN conjunct2, THEN conjunct1, rule_format, of "RClose i"] that by simp
  moreover note evt.objects_tracked [OF assms(1,2)] tft.objects_tracked [OF assms(3,4)] ept.objects_tracked [OF assms(5,6)]
  ultimately show ?thesis by (auto simp del: not_None_eq)
qed

text \<open>The conservation law of an event counter: the values read and written so far go with the table.\<close>

fun ev_io :: "nat \<Rightarrow> ev_use \<Rightarrow> eventfd list \<times> nat \<times> nat \<Rightarrow> (eventfd list \<times> nat \<times> nat) option" where
  "ev_io i (EvRead dst_ok count) (t, taken, given) =
     map_option (\<lambda>(t', r). (t', taken + (case r of Inr (WordDone v) \<Rightarrow> unat v | _ \<Rightarrow> 0), given)) (eventfd_read dst_ok i count t)"
| "ev_io i (EvWrite src count) (t, taken, given) =
     map_option (\<lambda>(t', r). (t', taken, given + (if r = 8 then unat (the src) else 0))) (eventfd_write src i count t)"

definition ev_conserved :: "nat \<Rightarrow> eventfd list \<Rightarrow> eventfd list \<times> nat \<times> nat \<Rightarrow> bool" where
  "ev_conserved i t0 = (\<lambda>(t, taken, given). i < length t \<and> length t = length t0 \<and> eventfd_ok (t ! i) \<and> ev_semaphore (t ! i) = ev_semaphore (t0 ! i) \<and>
     unat (ev_count (t ! i)) + taken = unat (ev_count (t0 ! i)) + given \<and> (\<forall>j. j \<noteq> i \<longrightarrow> t ! j = t0 ! j))"

lemma ev_count_add:
  assumes "unat (c :: u64) + unat a < 2 ^ 64"
  shows "unat (c + a) = unat c + unat a"
  using assms by (simp add: unat_word_ariths)

lemma eventfd_fits: "unat (c :: u64) + unat a < 2 ^ 64 \<and> c + a \<le> EV_MAX_COUNT \<longleftrightarrow> unat c + unat a \<le> 2 ^ 64 - 2"
proof -
  have m: "unat EV_MAX_COUNT = 2 ^ 64 - 2" by (simp add: EV_MAX_COUNT_def)
  show ?thesis using ev_count_add [of c a] by (auto simp: word_le_nat_alt m)
qed

interpretation evc: total_machine "ev_io i" "\<lambda>_. True" "ev_conserved i t0" for i t0
proof
  fix s u assume inv: "ev_conserved i t0 s"
  obtain t taken given where s: "s = (t, taken, given)" by (cases s)
  note c = inv [unfolded s ev_conserved_def, simplified]
  show "\<exists>s'. ev_io i u s = Some s' \<and> ev_conserved i t0 s'"
  proof (cases u)
    case (EvRead dst_ok count)
    have "ev_count (t ! i) \<noteq> 0 \<Longrightarrow> 0 < unat (ev_count (t ! i)) \<and> ev_count (t ! i) - 1 \<le> EV_MAX_COUNT"
      using c word_pred_le [of "ev_count (t ! i)"] unfolding eventfd_ok_def by (metis order_trans unat_gt_0)
    with EvRead show ?thesis using c
      by (auto simp: s ev_conserved_def eventfd_read_def eventfd_ok_def Let_def unat_minus_one nth_list_update split: if_splits)
  next
    case (EvWrite src count)
    show ?thesis
    proof (cases src)
      case (Some a)
      let ?fits = "unat (ev_count (t ! i)) + unat a < 2 ^ 64 \<and> ev_count (t ! i) + a \<le> EV_MAX_COUNT"
      show ?thesis
      proof (cases "count < 8 \<or> a = - 1 \<or> \<not> ?fits")
        case True
        then have "ev_io i u s = Some s" using c by (auto simp: s EvWrite Some eventfd_write_def Let_def EINVAL_def EAGAIN_def)
        with inv show ?thesis by simp
      next
        case False
        then have "ev_io i u s = Some (t[i := (t ! i)\<lparr>ev_count := ev_count (t ! i) + a\<rparr>], taken, given + unat a)"
          using c by (simp add: s EvWrite Some eventfd_write_def Let_def)
        with False c show ?thesis by (simp add: ev_conserved_def eventfd_ok_def ev_count_add)
      qed
    qed (use inv in \<open>simp add: s EvWrite eventfd_write_def EINVAL_def EFAULT_def\<close>)
  qed
qed

text \<open>
  Whatever is read from and written to an event descriptor, in any order and with any buffers, nothing panics, the other objects stay as they are, and
  the count never loses or gains anything: it is the initial count plus the accepted writes minus the values handed out, and stays below the ceiling. A read
  blocks exactly when the count is zero and otherwise hands out the whole count (one, for a semaphore); a write is accepted exactly when the sum fits.
\<close>

theorem eventfd_conserves:
  assumes "i < length t0" and "eventfd_ok (t0 ! i)"
  shows "\<exists>t taken given. for_each (ev_io i) ops (t0, 0, 0) = Some (t, taken, given) \<and>
     unat (ev_count (t ! i)) + taken = unat (ev_count (t0 ! i)) + given \<and> unat (ev_count (t ! i)) \<le> 2 ^ 64 - 2 \<and> (\<forall>j. j \<noteq> i \<longrightarrow> t ! j = t0 ! j) \<and>
     (\<forall>count \<ge> 8. eventfd_read True i count t =
        (if ev_count (t ! i) = 0 then Some (t, Inr WordWouldBlock)
         else let v = (if ev_semaphore (t0 ! i) then 1 else ev_count (t ! i)) in Some (t[i := (t ! i)\<lparr>ev_count := ev_count (t ! i) - v\<rparr>], Inr (WordDone v)))) \<and>
     (\<forall>count \<ge> 8. \<forall>a. a \<noteq> - 1 \<longrightarrow> eventfd_write (Some a) i count t =
        (if unat (ev_count (t ! i)) + unat a \<le> 2 ^ 64 - 2 then Some (t[i := (t ! i)\<lparr>ev_count := ev_count (t ! i) + a\<rparr>], 8) else Some (t, - EAGAIN)))"
proof -
  have "ev_conserved i t0 (t0, 0, 0)" using assms by (simp add: ev_conserved_def)
  from evc.run_total [OF this, of ops] obtain t taken given where f: "for_each (ev_io i) ops (t0, 0, 0) = Some (t, taken, given)"
    and inv: "ev_conserved i t0 (t, taken, given)" by (auto simp: list_all_iff)
  note c = inv [unfolded ev_conserved_def, simplified]
  have "unat (ev_count (t ! i)) \<le> 2 ^ 64 - 2" using c by (simp add: eventfd_ok_def word_le_nat_alt EV_MAX_COUNT_def)
  moreover have "eventfd_read True i count t = (if ev_count (t ! i) = 0 then Some (t, Inr WordWouldBlock)
     else let v = (if ev_semaphore (t0 ! i) then 1 else ev_count (t ! i)) in Some (t[i := (t ! i)\<lparr>ev_count := ev_count (t ! i) - v\<rparr>], Inr (WordDone v)))"
    if "8 \<le> count" for count using that c by (simp add: eventfd_read_def Let_def)
  moreover have "eventfd_write (Some a) i count t =
      (if unat (ev_count (t ! i)) + unat a \<le> 2 ^ 64 - 2 then Some (t[i := (t ! i)\<lparr>ev_count := ev_count (t ! i) + a\<rparr>], 8) else Some (t, - EAGAIN))"
    if "8 \<le> count" "a \<noteq> - 1" for count a
    using that c unfolding eventfd_write_def Let_def eventfd_fits by simp
  ultimately show ?thesis using f c by (intro exI [of _ t] exI [of _ taken] exI [of _ given]) (simp add: Let_def)
qed

section \<open>Ticks of a timer\<close>

text \<open>Reading a timer at the given times: the number of ticks handed out so far goes with the table.\<close>

fun tf_reads :: "nat \<Rightarrow> nat \<Rightarrow> timerfd list \<times> nat \<Rightarrow> (timerfd list \<times> nat) option" where
  "tf_reads i now (t, ticks) =
     map_option (\<lambda>(t', r). (t', ticks + (case r of Inr (TicksDone n) \<Rightarrow> n | _ \<Rightarrow> 0))) (timerfd_read now True i 8 t)"

lemma count_at_card:
  assumes "tf_deadline e \<noteq> 0"
  shows "count_at now e = card {k. (tf_interval e = 0 \<longrightarrow> k = 0) \<and> tf_deadline e + k * tf_interval e \<le> now}"
proof -
  let ?S = "{k. (tf_interval e = 0 \<longrightarrow> k = 0) \<and> tf_deadline e + k * tf_interval e \<le> now}"
  consider (early) "now < tf_deadline e" | (once) "tf_deadline e \<le> now" "tf_interval e = 0" | (many) "tf_deadline e \<le> now" "0 < tf_interval e" by fastforce
  then show ?thesis
  proof cases
    case early
    then have "?S = {}" by auto
    with early show ?thesis by (simp add: count_at_def)
  next
    case once
    then have "?S = {0}" by auto
    with once assms show ?thesis by (simp add: count_at_def)
  next
    case many
    have "k \<in> ?S \<longleftrightarrow> k \<le> (now - tf_deadline e) div tf_interval e" for k
      unfolding less_eq_div_iff_mult_less_eq [OF many(2)] using many le_diff_conv2 [OF many(1), of "k * tf_interval e"] by (simp add: add.commute)
    then have "?S = {..(now - tf_deadline e) div tf_interval e}" by (intro set_eqI) (simp only: atMost_iff)
    then have "card ?S = Suc ((now - tf_deadline e) div tf_interval e)" by (simp only: card_atMost)
    moreover have "count_at now e = Suc ((now - tf_deadline e) div tf_interval e)" using many assms by (simp add: count_at_def)
    ultimately show ?thesis by (simp only:)
  qed
qed

lemma count_at_split:
  assumes "tf_deadline e \<noteq> 0" "0 < tf_interval e" "tf_deadline e \<le> now" "now \<le> now'"
  shows "count_at now' e = count_at now e + count_at now' (e\<lparr>tf_deadline := tf_deadline e + count_at now e * tf_interval e\<rparr>)"
proof -
  let ?d = "tf_deadline e" and ?p = "tf_interval e" and ?n = "count_at now e"
  have n: "?n = 1 + (now - ?d) div ?p" using assms by (simp add: count_at_def)
  show ?thesis
  proof (cases "now' < ?d + ?n * ?p")
    case True
    then have "now' - ?d < ?n * ?p" using assms by linarith
    then have "(now' - ?d) div ?p < ?n" by (simp add: div_less_iff_less_mult assms(2))
    moreover have "(now - ?d) div ?p \<le> (now' - ?d) div ?p" using assms by (intro div_le_mono) simp
    ultimately have "(now' - ?d) div ?p = (now - ?d) div ?p" using n by simp
    then show ?thesis using True assms n by (simp add: count_at_def)
  next
    case False
    then obtain q where q: "now' = ?d + ?n * ?p + q" by (metis le_Suc_ex not_less)
    have "(now' - ?d) div ?p = ?n + q div ?p" using assms(2) by (simp add: q)
    then show ?thesis using q assms False by (simp add: count_at_def)
  qed
qed

definition ticks_so_far :: "nat \<Rightarrow> timerfd list \<Rightarrow> nat \<Rightarrow> timerfd list \<times> nat \<Rightarrow> bool" where
  "ticks_so_far i t0 now = (\<lambda>(t, ticks). length t = length t0 \<and> tf_interval (t ! i) = tf_interval (t0 ! i) \<and> (\<forall>j. j \<noteq> i \<longrightarrow> t ! j = t0 ! j) \<and>
     (\<forall>now' \<ge> now. ticks + count_at now' (t ! i) = count_at now' (t0 ! i)))"

lemma count_at_bound: "tf_deadline e \<le> now \<Longrightarrow> count_at now e * tf_interval e \<le> now - tf_deadline e + tf_interval e"
proof (cases "tf_deadline e = 0 \<or> tf_interval e = 0")
  case False
  assume "tf_deadline e \<le> now"
  with False have "count_at now e * tf_interval e = tf_interval e + (now - tf_deadline e) div tf_interval e * tf_interval e" by (simp add: count_at_def)
  with div_times_less_eq_dividend [of "now - tf_deadline e" "tf_interval e"] show ?thesis by linarith
qed (auto simp: count_at_def)

lemma tf_reads_step:
  assumes i: "i < length t0" and p: "tf_interval (t0 ! i) < 2 ^ 63" and inv: "ticks_so_far i t0 m (t, ticks)" and m: "m \<le> now" "now < 2 ^ 63"
  shows "\<exists>t' k. tf_reads i now (t, ticks) = Some (t', k) \<and> ticks_so_far i t0 now (t', k) \<and> count_at now (t' ! i) = 0"
proof -
  let ?e = "t ! i"
  note c = inv [unfolded ticks_so_far_def, simplified]
  have inv': "ticks_so_far i t0 now (t, ticks)" using c m(1) by (auto simp: ticks_so_far_def)
  show ?thesis
  proof (cases "count_at now ?e = 0")
    case True
    then show ?thesis using inv' c i by (simp add: timerfd_read_def)
  next
    case False
    then have d: "tf_deadline ?e \<noteq> 0" "tf_deadline ?e \<le> now" by (auto simp: count_at_def split: if_splits)
    have fit: "count_at now ?e * tf_interval ?e < 2 ^ 64" by (rule timerfd_ticks_fit) (use m p c in simp_all)
    have "tf_deadline ?e + count_at now ?e * tf_interval ?e < 2 ^ 64" using count_at_bound [OF d(2)] d(2) m(2) p c by simp
    then have sat: "sat64 (tf_deadline ?e + count_at now ?e * tf_interval ?e) = tf_deadline ?e + count_at now ?e * tf_interval ?e" by (simp add: sat64_def)
    define e' where "e' = ?e\<lparr>tf_deadline := (if tf_interval ?e = 0 then 0 else tf_deadline ?e + count_at now ?e * tf_interval ?e)\<rparr>"
    have read: "tf_reads i now (t, ticks) = Some (t[i := e'], ticks + count_at now ?e)"
      using False fit i c [THEN conjunct1] by (simp add: timerfd_read_def Let_def e'_def sat)
    have split: "count_at now' ?e = count_at now ?e + count_at now' e'" if "now \<le> now'" for now'
      using count_at_split [OF d(1) _ d(2) that] d that by (cases "tf_interval ?e = 0") (simp_all add: e'_def count_at_def)
    have "ticks + count_at now ?e + count_at now' e' = count_at now' (t0 ! i)" if "now \<le> now'" for now'
    proof -
      have "ticks + count_at now' ?e = count_at now' (t0 ! i)" using c that m(1) by (meson order_trans)
      then show ?thesis unfolding split [OF that] by simp
    qed
    moreover have "tf_interval e' = tf_interval (t0 ! i)" using c by (simp add: e'_def)
    ultimately have "ticks_so_far i t0 now (t[i := e'], ticks + count_at now ?e)" using c i by (simp add: ticks_so_far_def)
    moreover have "count_at now (t[i := e'] ! i) = 0" using split [of now] i c by simp
    ultimately show ?thesis using read by blast
  qed
qed

lemma tf_reads_run:
  assumes i: "i < length t0" and p: "tf_interval (t0 ! i) < 2 ^ 63"
  shows "ticks_so_far i t0 m s \<Longrightarrow> sorted (m # nows) \<Longrightarrow> \<forall>now \<in> set nows. now < 2 ^ 63 \<Longrightarrow> nows \<noteq> [] \<Longrightarrow>
    \<exists>t' k. for_each (tf_reads i) nows s = Some (t', k) \<and> ticks_so_far i t0 (last nows) (t', k) \<and> count_at (last nows) (t' ! i) = 0"
proof (induction nows arbitrary: m s)
  case (Cons now nows)
  obtain t ticks where s: "s = (t, ticks)" by (cases s)
  from tf_reads_step [OF i p, of m t ticks now] Cons.prems s obtain t' k
    where t': "tf_reads i now s = Some (t', k)" "ticks_so_far i t0 now (t', k)" "count_at now (t' ! i) = 0" by auto
  show ?case
  proof (cases "nows = []")
    case False
    from Cons.IH [OF t'(2)] Cons.prems False show ?thesis by (simp add: t'(1))
  qed (use t' in simp)
qed simp

text \<open>
  C21: a timer that is set to go off \<open>v\<close> nanoseconds from now and then every \<open>p\<close> nanoseconds (once, for \<open>p = 0\<close>) reports \<open>v\<close> and \<open>p\<close> when asked at once; and however often it
  is read after that, at times that do not run backwards, the ticks handed out add up to the number of expiries up to the last read: none is lost and none is counted
  twice. A second read at the same time would block, no other timer changes, and nothing overflows while the clock and the period stay below \<open>2^63\<close>.
\<close>

theorem timerfd_ticks:
  assumes "i < length t" and "0 < v" and "now + v < 2 ^ 64" and "p < 2 ^ 63" and "sorted nows" and "\<forall>n \<in> set nows. n < 2 ^ 63" and "nows \<noteq> []"
  shows "\<exists>t1 t'. timerfd_settime now now i False v p t = Some (t1, timerfd_gettime now (t ! i)) \<and>
     timerfd_gettime now (t1 ! i) = \<lparr> it_value = v, it_interval = p \<rparr> \<and>
     for_each (tf_reads i) nows (t1, 0) = Some (t', card {k. (p = 0 \<longrightarrow> k = 0) \<and> now + v + k * p \<le> last nows}) \<and>
     timerfd_read (last nows) True i 8 t' = Some (t', Inr TicksWouldBlock) \<and> (\<forall>j. j \<noteq> i \<longrightarrow> t' ! j = t ! j)"
proof -
  define t1 where "t1 = t[i := (t ! i)\<lparr>tf_deadline := now + v, tf_interval := p\<rparr>]"
  have set: "timerfd_settime now now i False v p t = Some (t1, timerfd_gettime now (t ! i))"
    using assms by (simp add: timerfd_settime_def Let_def t1_def sat64_def)
  have t1: "tf_deadline (t1 ! i) = now + v" "tf_interval (t1 ! i) = p" "i < length t1" "\<And>j. j \<noteq> i \<Longrightarrow> t1 ! j = t ! j" using assms(1) by (simp_all add: t1_def)
  have start: "ticks_so_far i t1 0 (t1, 0)" by (simp add: ticks_so_far_def)
  have p: "tf_interval (t1 ! i) < 2 ^ 63" using assms(4) t1(2) by (simp only:)
  from tf_reads_run [OF t1(3) p start _ assms(6,7)] assms(5) obtain t' k where r: "for_each (tf_reads i) nows (t1, 0) = Some (t', k)"
    "ticks_so_far i t1 (last nows) (t', k)" "count_at (last nows) (t' ! i) = 0" by auto
  note c = r(2) [unfolded ticks_so_far_def, simplified]
  have "k = count_at (last nows) (t1 ! i)" using c r(3) by (metis add.right_neutral order_refl)
  also have "\<dots> = card {k. (p = 0 \<longrightarrow> k = 0) \<and> now + v + k * p \<le> last nows}"
    using count_at_card [of "t1 ! i" "last nows"] assms(2) unfolding t1(1,2) by simp
  finally have k: "k = card {k. (p = 0 \<longrightarrow> k = 0) \<and> now + v + k * p \<le> last nows}" .
  have "timerfd_gettime now (t1 ! i) = \<lparr> it_value = v, it_interval = p \<rparr>" using assms(2) t1(1,2) by (simp add: timerfd_gettime_def)
  moreover have "timerfd_read (last nows) True i 8 t' = Some (t', Inr TicksWouldBlock)" using r(3) c t1(3) by (simp add: timerfd_read_def)
  moreover have "t' ! j = t ! j" if "j \<noteq> i" for j using c t1(4) that by simp
  ultimately show ?thesis using set r(1) unfolding k by blast
qed

theorem timerfd_ticks_witness:
  "\<exists>t'. for_each (tf_reads 3) [150, 320, 320, 900] ((replicate TIMERFDS timerfd_new)[3 := timerfd_new\<lparr>tf_deadline := 200, tf_interval := 50\<rparr>], 0) = Some (t', 15) \<and>
     timerfd_read 900 True 3 8 t' = Some (t', Inr TicksWouldBlock)"
proof -
  have 1: "3 < length (replicate TIMERFDS timerfd_new)" by (simp add: TIMERFDS_def)
  have 2: "timerfd_settime 100 100 3 False 100 50 (replicate TIMERFDS timerfd_new) =
      Some ((replicate TIMERFDS timerfd_new)[3 := timerfd_new\<lparr>tf_deadline := 200, tf_interval := 50\<rparr>], timerfd_gettime 100 timerfd_new)"
    by (simp add: timerfd_settime_def TIMERFDS_def sat64_def Let_def)
  have "{k. 200 + k * 50 \<le> 900} = {..14 :: nat}" by auto
  then have "card {k. ((50 :: nat) = 0 \<longrightarrow> k = 0) \<and> 100 + 100 + k * 50 \<le> (900 :: nat)} = 15" by simp
  with timerfd_ticks [OF 1, of 100 100 50 "[150, 320, 320, 900]"] 2 show ?thesis by simp blast
qed

theorem eventfd_conserves_witness:
  "\<exists>t taken given. for_each (ev_io 0) [EvWrite (Some 5) 8, EvRead True 8, EvRead True 8] (replicate EVENTFDS eventfd_new, 0, 0) = Some (t, taken, given) \<and>
     unat (ev_count (t ! 0)) + taken = given"
proof -
  have "0 < length (replicate EVENTFDS eventfd_new)" "eventfd_ok (replicate EVENTFDS eventfd_new ! 0)" by (simp_all add: EVENTFDS_def eventfd_ok_def eventfd_new_def)
  from eventfd_conserves [OF this, of "[EvWrite (Some 5) 8, EvRead True 8, EvRead True 8]"] show ?thesis
    by (elim exE conjE) (simp add: EVENTFDS_def eventfd_new_def)
qed

theorem descriptors_keep_objects_witness:
  "\<exists>te de. run_ops ev_step (replicate EVENTFDS eventfd_new, []) [ROpen (3, False), RDup 0, RUse 0 (EvRead True 8), RClose 0] = (te, de) \<and> tracked ev_used eventfd_ok ev_refs (te, de)"
proof -
  let ?ops = "[ROpen (3, False), RDup 0, RUse 0 (EvRead True 8), RClose 0]"
  obtain te de where run: "run_ops ev_step (replicate EVENTFDS eventfd_new, []) ?ops = (te, de)" by fastforce
  define t1 where "t1 = (replicate EVENTFDS eventfd_new)[0 := \<lparr> ev_used = True, ev_refs = 1, ev_semaphore = False, ev_count = 3 \<rparr>]"
  have "find_idx (\<lambda>e. \<not> ev_used e) (replicate EVENTFDS eventfd_new) = Some 0" "min 3 EV_MAX_COUNT = 3"
    by (simp add: EVENTFDS_def eventfd_new_def find_idx_Some) (simp add: EV_MAX_COUNT_def)
  then have s1: "ev_step (replicate EVENTFDS eventfd_new, []) (ROpen (3, False)) = (t1, [0])"
    by (simp add: ref_step_def eventfd_create_def t1_def)
  have "0 < length t1" by (simp add: t1_def EVENTFDS_def)
  then obtain t2 where s2: "ev_step (t1, [0]) (RDup 0) = (t2, [0, 0])" by (simp add: ref_step_def eventfd_addref_def on_obj_def)
  obtain t3 where s3: "ev_step (t2, [0, 0]) (RUse 0 (EvRead True 8)) = (t3, [0, 0])"
    by (cases "eventfd_use 0 (EvRead True 8) t2") (simp_all add: ref_step_def del: eventfd_use.simps)
  have ok: "ok_run ev_step (ref_pre (\<lambda>_. True)) (replicate EVENTFDS eventfd_new, []) ?ops"
    unfolding ok_run.simps s1 s2 s3 by simp
  from descriptors_keep_objects [OF ok run, of "[]" _ _ "[]"] run show ?thesis by auto
qed

section \<open>Epoll as a map\<close>

text \<open>
  C20: an epoll instance is a map from descriptors to the events and the data asked for: after any sequence of control calls it stands for the map
  that results from carrying the calls out on maps, with the same answers (adding a watched descriptor, changing or removing one that is not watched, a full table and an unknown
  operation are refused and change nothing), and a snapshot lists each watched descriptor once, with its events and data. Other instances are untouched.
\<close>

fun ep_calls :: "nat \<Rightarrow> ep_use \<Rightarrow> epoll list \<times> int list \<Rightarrow> (epoll list \<times> int list) option" where
  "ep_calls i (EpCtl op fd events data) (t, rs) = map_option (\<lambda>(t', r). (t', rs @ [r])) (epoll_ctl i op fd events data t)"

fun spec_calls :: "ep_use list \<Rightarrow> (int \<Rightarrow> (u32 \<times> u64) option) \<times> int list \<Rightarrow> (int \<Rightarrow> (u32 \<times> u64) option) \<times> int list" where
  "spec_calls [] s = s"
| "spec_calls (EpCtl op fd events data # us) (m, rs) = (let (m', r) = spec_ctl op fd events data m in spec_calls us (m', rs @ [r]))"

lemma ep_calls_run:
  "i < length t \<Longrightarrow> epoll_ok (t ! i) \<Longrightarrow> \<exists>t' rs'. for_each (ep_calls i) us (t, rs) = Some (t', rs') \<and> length t' = length t \<and> epoll_ok (t' ! i) \<and>
     spec_calls us (epoll_abs (t ! i), rs) = (epoll_abs (t' ! i), rs') \<and> (\<forall>j. j \<noteq> i \<longrightarrow> t' ! j = t ! j)"
proof (induction us arbitrary: t rs)
  case (Cons u us)
  obtain op fd events data where u: "u = EpCtl op fd events data" by (cases u)
  obtain e r where c: "ctl_instance op fd events data (t ! i) = (e, r)" by fastforce
  note spec = ctl_instance_spec [OF Cons.prems(2) c]
  have i': "i < length (t[i := e])" "epoll_ok (t[i := e] ! i)" using Cons.prems spec by simp_all
  from Cons.IH [OF i', of "rs @ [r]"] obtain t' rs' where "for_each (ep_calls i) us (t[i := e], rs @ [r]) = Some (t', rs')" "length t' = length t" "epoll_ok (t' ! i)"
    "spec_calls us (epoll_abs e, rs @ [r]) = (epoll_abs (t' ! i), rs')" "\<forall>j. j \<noteq> i \<longrightarrow> t' ! j = t[i := e] ! j" using Cons.prems(1) by auto
  then show ?case using Cons.prems(1) c spec by (intro exI [of _ t'] exI [of _ rs']) (simp add: u epoll_ctl_def)
qed simp

theorem epoll_is_map:
  assumes "i < length t" and "epoll_ok (t ! i)"
  shows "\<exists>t' rs. for_each (ep_calls i) us (t, []) = Some (t', rs) \<and> spec_calls us (epoll_abs (t ! i), []) = (epoll_abs (t' ! i), rs) \<and>
     distinct (map fst (epoll_snapshot (t' ! i))) \<and> (\<forall>fd ev d. (fd, ev, d) \<in> set (epoll_snapshot (t' ! i)) \<longleftrightarrow> epoll_abs (t' ! i) fd = Some (ev, d)) \<and>
     length (epoll_snapshot (t' ! i)) \<le> WATCH \<and> (\<forall>j. j \<noteq> i \<longrightarrow> t' ! j = t ! j)"
proof -
  from ep_calls_run [OF assms, of us "[]"] obtain t' rs where r: "for_each (ep_calls i) us (t, []) = Some (t', rs)" "epoll_ok (t' ! i)"
    "spec_calls us (epoll_abs (t ! i), []) = (epoll_abs (t' ! i), rs)" "\<forall>j. j \<noteq> i \<longrightarrow> t' ! j = t ! j" by blast
  have "length (epoll_snapshot (t' ! i)) \<le> WATCH" using epoll_okD(1) [OF r(2)] length_filter_le [of w_active "ep_w (t' ! i)"] by (simp add: epoll_snapshot_def)
  with r snapshot_distinct [OF r(2)] snapshot_graph [OF r(2)] show ?thesis by blast
qed

theorem epoll_is_map_witness:
  "\<exists>t' rs. for_each (ep_calls 0) [EpCtl EPOLL_CTL_ADD 7 1 42, EpCtl EPOLL_CTL_ADD 7 1 43, EpCtl EPOLL_CTL_DEL 9 0 0] (replicate EPOLLS epoll_new, []) = Some (t', rs) \<and>
     epoll_abs (t' ! 0) 7 = Some (1, 42) \<and> rs = [0, - EEXIST, - ENOENT]"
proof -
  let ?us = "[EpCtl EPOLL_CTL_ADD 7 1 42, EpCtl EPOLL_CTL_ADD 7 1 43, EpCtl EPOLL_CTL_DEL 9 0 0]"
  have new: "epoll_abs epoll_new = Map.empty"
    by (rule ext) (simp add: epoll_abs_def epoll_new_def watch_new_def watches_def find_idx_None)
  have spec: "spec_calls ?us (Map.empty, []) = ([7 \<mapsto> (1, 42)], [0, - EEXIST, - ENOENT])"
    by (simp add: spec_ctl_def EPOLL_CTL_ADD_def EPOLL_CTL_DEL_def EPOLL_CTL_MOD_def WATCH_def EPOLLIN_def EPOLLOUT_def Let_def)
  have "0 < length (replicate EPOLLS epoll_new)" "epoll_ok (replicate EPOLLS epoll_new ! 0)" by (simp_all add: EPOLLS_def epoll_new_ok)
  from epoll_is_map [OF this, of ?us] obtain t' rs where r: "for_each (ep_calls 0) ?us (replicate EPOLLS epoll_new, []) = Some (t', rs)"
    "spec_calls ?us (epoll_abs epoll_new, []) = (epoll_abs (t' ! 0), rs)" by (auto simp: EPOLLS_def)
  from r(2) have "epoll_abs (t' ! 0) = [7 \<mapsto> (1, 42)]" "rs = [0, - EEXIST, - ENOENT]" unfolding new spec by simp_all
  with r(1) show ?thesis by simp
qed

end
