(* ===== verification/Obsring.thy ===== *)
theory Obsring
  imports Rheo_Prelude
begin

text \<open>
  The event ring of one processor, \<^verbatim>\<open>kernel/src/obs/ring.rs\<close>, with the record layout of \<^verbatim>\<open>abi/src/obs.rs\<close>.

  The block the ring adopts is modelled by its 64-bit words. A store past the end of the block, and a failed debug assertion, is
  the outer \<open>None\<close>. The translation of the block's address to a physical one is an argument, as in the code. The stores of a
  record are single steps, so that the same definitions serve the whole operation and the interleaving with a reader on another processor.
\<close>

section \<open>Records and headers\<close>

definition RING_EVENTS :: nat where "RING_EVENTS = 2048"
definition WORDS :: nat where "WORDS = 4"
definition RING_PAGES :: nat where "RING_PAGES = RING_EVENTS * 32 div 4096"

record obs_event =
  o_tick :: u64
  o_a :: u64
  o_b :: u64
  o_seq :: u32
  o_owner :: u16
  o_window :: u8
  o_kind :: u8

record obs_hdr =
  h_head :: u64
  h_unfunded :: u64
  h_capacity :: u32
  h_cpu :: u32
  h_base_va :: u64
  h_base_pa :: u64

record obs_ring =
  o_hdr :: obs_hdr
  o_block :: "u64 list"

definition hdr_new :: obs_hdr where
  "hdr_new = \<lparr> h_head = 0, h_unfunded = 0, h_capacity = 0, h_cpu = 0, h_base_va = 0, h_base_pa = 0 \<rparr>"

definition ring_new :: obs_ring where
  "ring_new = \<lparr> o_hdr = hdr_new, o_block = [] \<rparr>"

definition pack_meta :: "u8 \<Rightarrow> u8 \<Rightarrow> u16 \<Rightarrow> u64" where
  "pack_meta window kind own = push_bit 56 (ucast kind) OR push_bit 48 (ucast window) OR push_bit 32 (ucast own)"

definition seq_of :: "u64 \<Rightarrow> u32" where
  "seq_of n = ucast ((n + 1) AND 0xffffffff)"

text \<open>Reading the four words of a slot as a record, by the field offsets the code asserts.\<close>

definition decode_words :: "u64 list \<Rightarrow> obs_event" where
  "decode_words ws = \<lparr> o_tick = ws ! 0, o_a = ws ! 1, o_b = ws ! 2, o_seq = ucast (ws ! 3), o_owner = ucast (drop_bit 32 (ws ! 3)),
     o_window = ucast (drop_bit 48 (ws ! 3)), o_kind = ucast (drop_bit 56 (ws ! 3)) \<rparr>"

section \<open>Operations\<close>

definition obs_fund :: "(u64 \<Rightarrow> u64) \<Rightarrow> u64 list \<Rightarrow> u32 \<Rightarrow> u64 \<Rightarrow> obs_ring \<Rightarrow> obs_ring option" where
  "obs_fund phys zeroed cpu va r =
     (if h_capacity (o_hdr r) \<noteq> 0 \<or> va = 0 then Some r
      else if va mod 32 \<noteq> 0 then None
      else Some (r\<lparr>o_hdr := (o_hdr r)\<lparr>h_base_va := va, h_base_pa := phys va, h_cpu := cpu, h_capacity := of_nat RING_EVENTS\<rparr>, o_block := zeroed\<rparr>))"

definition obs_release :: "obs_ring \<Rightarrow> obs_ring \<times> u64" where
  "obs_release r = (r\<lparr>o_hdr := (o_hdr r)\<lparr>h_capacity := 0, h_base_va := 0, h_base_pa := 0, h_head := 0, h_unfunded := 0\<rparr>, o_block := []\<rparr>, h_base_va (o_hdr r))"

definition obs_funded :: "obs_ring \<Rightarrow> bool" where "obs_funded r \<longleftrightarrow> h_capacity (o_hdr r) \<noteq> 0"
definition obs_written :: "obs_ring \<Rightarrow> u64" where "obs_written r = h_head (o_hdr r)"
definition obs_held :: "obs_ring \<Rightarrow> nat" where "obs_held r = min (unat (obs_written r)) (unat (h_capacity (o_hdr r)))"
definition obs_oldest :: "obs_ring \<Rightarrow> u64" where
  "obs_oldest r = (if obs_written r < of_nat (obs_held r) then 0 else obs_written r - of_nat (obs_held r))"

definition slot_of :: "u64 \<Rightarrow> u64 \<Rightarrow> nat" where
  "slot_of c n = unat (n AND (c - 1))"

text \<open>The words of a record, and the store of one of them.\<close>

definition event_words :: "u64 \<Rightarrow> u64 \<Rightarrow> u64 \<Rightarrow> u64 \<Rightarrow> u64 \<Rightarrow> u64 list" where
  "event_words n tick meta a b = [tick, a, b, meta OR ucast (seq_of n)]"

definition put_word :: "nat \<Rightarrow> u64 list \<Rightarrow> nat \<Rightarrow> u64 list \<Rightarrow> u64 list option" where
  "put_word slot ws j blk = (if slot * WORDS + j < length blk then Some (blk[slot * WORDS + j := ws ! j]) else None)"

definition push_packed :: "u64 \<Rightarrow> u64 \<Rightarrow> u64 \<Rightarrow> u64 \<Rightarrow> obs_ring \<Rightarrow> obs_ring option" where
  "push_packed tick meta a b r =
     (let c = ucast (h_capacity (o_hdr r)) :: u64
      in if c = 0 then Some (r\<lparr>o_hdr := (o_hdr r)\<lparr>h_unfunded := h_unfunded (o_hdr r) + 1\<rparr>\<rparr>)
         else let n = h_head (o_hdr r); slot = slot_of c n
              in if \<not> slot < unat (h_capacity (o_hdr r)) then None
                 else do {
                   blk \<leftarrow> for_each (put_word slot (event_words n tick meta a b)) [0, 1, 2, 3] (o_block r);
                   Some (r\<lparr>o_block := blk, o_hdr := (o_hdr r)\<lparr>h_head := n + 1\<rparr>\<rparr>) })"

definition obs_push :: "u64 \<Rightarrow> u8 \<Rightarrow> u8 \<Rightarrow> u16 \<Rightarrow> u64 \<Rightarrow> u64 \<Rightarrow> obs_ring \<Rightarrow> obs_ring option" where
  "obs_push tick window kind own a b = push_packed tick (pack_meta window kind own) a b"

text \<open>The bounds check of a reader, and what it makes of the four words it read.\<close>

definition in_bounds :: "u64 \<Rightarrow> u64 \<Rightarrow> u64 \<Rightarrow> bool" where
  "in_bounds c h n \<longleftrightarrow> \<not> (c = 0 \<or> h \<le> n \<or> (if h < n then 0 else h - n) > c)"

definition accept :: "u64 \<Rightarrow> u64 list \<Rightarrow> obs_event option" where
  "accept n ws = (let e = decode_words ws in if o_seq e \<noteq> seq_of n then None else Some e)"

definition obs_get :: "u64 \<Rightarrow> obs_ring \<Rightarrow> obs_event option option" where
  "obs_get n r =
     (let c = ucast (h_capacity (o_hdr r)); slot = slot_of c n
      in if \<not> in_bounds c (obs_written r) n then Some None
         else if \<not> slot * WORDS + 3 < length (o_block r) then None
         else Some (accept n (take WORDS (drop (slot * WORDS) (o_block r)))))"

section \<open>Bits of a record\<close>

lemma seq_of_take: "seq_of n = ucast (n + 1)"
proof -
  have "(0xffffffff :: u64) = mask 32" by (simp add: mask_eq_exp_minus_1)
  then have "bit (0xffffffff :: u64) k" if "k < 32" for k using that by (simp only: bit_mask_iff) simp
  then show ?thesis by (intro bit_word_eqI) (simp add: seq_of_def bit_simps)
qed

lemma decode_event_words:
  "decode_words (event_words n tick (pack_meta window kind own) a b) =
    \<lparr> o_tick = tick, o_a = a, o_b = b, o_seq = seq_of n, o_owner = own, o_window = window, o_kind = kind \<rparr>"
proof -
  let ?w = "pack_meta window kind own OR ucast (seq_of n)"
  have "ucast ?w = seq_of n" by (rule bit_word_eqI) (auto simp: pack_meta_def bit_simps)
  moreover have "ucast (drop_bit 32 ?w) = own" by (rule bit_word_eqI) (auto simp: pack_meta_def bit_simps dest: bit_imp_le_length)
  moreover have "ucast (drop_bit 48 ?w) = window" by (rule bit_word_eqI) (auto simp: pack_meta_def bit_simps dest: bit_imp_le_length)
  moreover have "ucast (drop_bit 56 ?w) = kind" by (rule bit_word_eqI) (auto simp: pack_meta_def bit_simps dest: bit_imp_le_length)
  ultimately show ?thesis by (simp add: decode_words_def event_words_def)
qed

lemma slot_2048: "slot_of 2048 n = unat n mod RING_EVENTS"
proof -
  have "(2047 :: u64) = mask 11" by (simp add: mask_eq_exp_minus_1)
  then have "n AND 2047 = take_bit 11 n" by (simp only: take_bit_eq_mask)
  then show ?thesis by (simp add: slot_of_def RING_EVENTS_def take_bit_eq_mod unat_mod)
qed

lemma put_word_nth:
  assumes "put_word slot ws j blk = Some blk'"
  shows "length blk' = length blk" "blk' ! i = (if i = slot * WORDS + j then ws ! j else blk ! i)"
  using assms by (auto simp: put_word_def nth_list_update split: if_splits)

lemma put_words:
  assumes "slot * WORDS + 3 < length blk"
  shows "for_each (put_word slot ws) [0, 1, 2, 3] blk =
    Some (blk[slot * WORDS := ws ! 0, slot * WORDS + 1 := ws ! 1, slot * WORDS + 2 := ws ! 2, slot * WORDS + 3 := ws ! 3])"
  using assms by (simp add: put_word_def)

section \<open>The ring keeps the latest records\<close>

type_synonym emit = "u64 \<times> u8 \<times> u8 \<times> u16 \<times> u64 \<times> u64"

fun emit_push :: "emit \<Rightarrow> obs_ring \<Rightarrow> obs_ring option" where
  "emit_push (tick, window, kind, own, a, b) = obs_push tick window kind own a b"

fun emit_words :: "nat \<Rightarrow> emit \<Rightarrow> u64 list" where
  "emit_words k (tick, window, kind, own, a, b) = event_words (of_nat k) tick (pack_meta window kind own) a b"

fun emit_event :: "nat \<Rightarrow> emit \<Rightarrow> obs_event" where
  "emit_event k (tick, window, kind, own, a, b) =
     \<lparr> o_tick = tick, o_a = a, o_b = b, o_seq = of_nat (Suc k), o_owner = own, o_window = window, o_kind = kind \<rparr>"

lemma ucast_of_nat64: "(ucast (of_nat m :: u64) :: u32) = of_nat m"
  by (rule bit_word_eqI) (simp add: bit_simps bit_of_nat_iff)

lemma seq_of_nat: "seq_of (of_nat k) = of_nat (Suc k)"
  using ucast_of_nat64 [of "Suc k"] by (simp add: seq_of_take add.commute)

lemma decode_emit: "decode_words (emit_words k x) = emit_event k x"
  by (cases x) (simp add: decode_event_words seq_of_nat del: of_nat_Suc)

lemma length_emit_words [simp]: "length (emit_words k x) = 4"
  by (cases x) (simp add: event_words_def)

text \<open>The slot of record \<open>k\<close>, by words.\<close>

definition at_slot :: "u64 list \<Rightarrow> nat \<Rightarrow> u64 list" where
  "at_slot blk k = take WORDS (drop (k mod RING_EVENTS * WORDS) blk)"

definition obs_inv :: "emit list \<Rightarrow> obs_ring \<Rightarrow> bool" where
  "obs_inv evs r \<longleftrightarrow> h_capacity (o_hdr r) = of_nat RING_EVENTS \<and> h_head (o_hdr r) = of_nat (length evs) \<and> length (o_block r) = RING_EVENTS * WORDS \<and>
     (\<forall>k < length evs. length evs \<le> k + RING_EVENTS \<longrightarrow> at_slot (o_block r) k = emit_words k (evs ! k))"

lemma obs_inv_push:
  assumes inv: "obs_inv evs r" and len: "length evs < 2 ^ 64"
  shows "\<exists>r'. emit_push x r = Some r' \<and> obs_inv (evs @ [x]) r' \<and> h_unfunded (o_hdr r') = h_unfunded (o_hdr r)"
proof -
  obtain tick window kind own a b where x: "x = (tick, window, kind, own, a, b)" by (cases x)
  let ?n = "length evs" and ?ws = "emit_words (length evs) x"
  let ?s = "?n mod RING_EVENTS"
  have c: "h_capacity (o_hdr r) = 2048" "h_head (o_hdr r) = of_nat ?n" "length (o_block r) = RING_EVENTS * WORDS"
    using inv by (simp_all add: obs_inv_def RING_EVENTS_def)
  have slot: "slot_of 2048 (of_nat ?n) = ?s" using len by (simp add: slot_2048 unat_of_nat)
  have s: "?s < RING_EVENTS" by (simp add: RING_EVENTS_def)
  then have room: "?s * WORDS + 3 < length (o_block r)" unfolding c(3) by (simp add: WORDS_def)
  define blk where "blk = (o_block r)[?s * WORDS := ?ws ! 0, ?s * WORDS + 1 := ?ws ! 1, ?s * WORDS + 2 := ?ws ! 2, ?s * WORDS + 3 := ?ws ! 3]"
  have "event_words (of_nat ?n) tick (pack_meta window kind own) a b = ?ws" by (simp add: x)
  then have push: "emit_push x r = Some (r\<lparr>o_block := blk, o_hdr := (o_hdr r)\<lparr>h_head := of_nat ?n + 1\<rparr>\<rparr>)"
    using s put_words [OF room, of ?ws] by (simp add: x obs_push_def push_packed_def c slot Let_def blk_def RING_EVENTS_def)
  have here: "at_slot blk ?n = ?ws"
    using room by (intro nth_equalityI) (auto simp: at_slot_def blk_def WORDS_def nth_list_update numeral_eq_Suc less_Suc_eq)
  have other: "at_slot blk k = at_slot (o_block r) k" if "k mod RING_EVENTS \<noteq> ?s" for k
  proof -
    have "blk ! i = o_block r ! i" if "i div WORDS \<noteq> ?s" for i using that by (auto simp: blk_def WORDS_def nth_list_update)
    then show ?thesis using that by (intro nth_equalityI) (auto simp: at_slot_def blk_def WORDS_def)
  qed
  have "at_slot blk k = emit_words k ((evs @ [x]) ! k)" if "k < Suc ?n" "Suc ?n \<le> k + RING_EVENTS" for k
  proof (cases "k = ?n")
    case False
    then have "k < ?n" using that by simp
    moreover have "k mod RING_EVENTS \<noteq> ?s"
    proof
      assume "k mod RING_EVENTS = ?s"
      then have "RING_EVENTS dvd ?n - k" using \<open>k < ?n\<close> by (metis less_imp_le mod_eq_dvd_iff_nat)
      then show False using that \<open>k < ?n\<close> by (auto dest: dvd_imp_le)
    qed
    ultimately show ?thesis using inv other that by (simp add: obs_inv_def nth_append)
  qed (use here in simp)
  then show ?thesis using push c by (auto simp: obs_inv_def blk_def RING_EVENTS_def add.commute)
qed

lemma obs_inv_pushes:
  "obs_inv evs r \<Longrightarrow> length evs + length xs < 2 ^ 64 \<Longrightarrow>
     \<exists>r'. for_each emit_push xs r = Some r' \<and> obs_inv (evs @ xs) r' \<and> h_unfunded (o_hdr r') = h_unfunded (o_hdr r)"
proof (induction xs arbitrary: evs r)
  case (Cons x xs)
  from obs_inv_push [OF Cons.prems(1), of x] Cons.prems(2) obtain r1 where r1: "emit_push x r = Some r1" "obs_inv (evs @ [x]) r1" "h_unfunded (o_hdr r1) = h_unfunded (o_hdr r)" by auto
  from Cons.IH [OF r1(2)] Cons.prems(2) r1 show ?case by simp
qed simp

lemma in_bounds_nat:
  assumes "h < 2 ^ 64" "k < 2 ^ 64"
  shows "in_bounds 2048 (of_nat h) (of_nat k) \<longleftrightarrow> k < h \<and> h \<le> k + RING_EVENTS"
proof -
  have u: "unat (of_nat h :: u64) = h" "unat (of_nat k :: u64) = k" using assms by (simp_all add: unat_of_nat)
  have "\<not> (of_nat h :: u64) \<le> of_nat k \<Longrightarrow> unat ((of_nat h :: u64) - of_nat k) = h - k"
    using u by (simp add: unat_sub word_le_nat_alt)
  then show ?thesis using u by (auto simp: in_bounds_def word_le_nat_alt word_less_nat_alt RING_EVENTS_def)
qed

lemma obs_get_inv:
  assumes inv: "obs_inv evs r" and len: "length evs < 2 ^ 64" "k < 2 ^ 64"
  shows "obs_get (of_nat k) r = Some (if k < length evs \<and> length evs \<le> k + RING_EVENTS then Some (emit_event k (evs ! k)) else None)"
proof -
  have c: "h_capacity (o_hdr r) = 2048" "obs_written r = of_nat (length evs)" "length (o_block r) = RING_EVENTS * WORDS"
    using inv by (simp_all add: obs_inv_def RING_EVENTS_def obs_written_def)
  have slot: "slot_of 2048 (of_nat k) = k mod RING_EVENTS" using len by (simp add: slot_2048 unat_of_nat)
  show ?thesis
  proof (cases "k < length evs \<and> length evs \<le> k + RING_EVENTS")
    case True
    then have at: "take WORDS (drop (k mod RING_EVENTS * WORDS) (o_block r)) = emit_words k (evs ! k)"
      using inv by (simp add: obs_inv_def at_slot_def)
    have "k mod RING_EVENTS < RING_EVENTS" by (simp add: RING_EVENTS_def)
    then have "k mod RING_EVENTS * WORDS + 3 < RING_EVENTS * WORDS" by (simp add: WORDS_def)
    moreover have "o_seq (emit_event k (evs ! k)) = seq_of (of_nat k)" by (cases "evs ! k") (simp add: seq_of_nat)
    ultimately show ?thesis using True in_bounds_nat [OF len] by (simp add: obs_get_def c slot Let_def at accept_def decode_emit)
  qed (use in_bounds_nat [OF len] in \<open>simp add: obs_get_def c Let_def\<close>)
qed

text \<open>
  C24: a ring that has adopted a zeroed block takes any number of records without a stray store and without counting any as lost. After that it holds the last
  2048 of them: reading record \<open>k\<close> gives exactly what was recorded as number \<open>k\<close>, its 32-bit sequence number included, as long as fewer than
  2048 records followed it, and nothing for records overwritten or not yet written. The sequence numbers may have recycled any number of times.
\<close>

theorem ring_keeps_latest:
  assumes "length zeroed = RING_EVENTS * WORDS" and "va \<noteq> 0" and "va mod 32 = 0" and "length evs < 2 ^ 64"
  shows "\<exists>r0 r. obs_fund phys zeroed cpu va ring_new = Some r0 \<and> for_each emit_push evs r0 = Some r \<and>
     obs_written r = of_nat (length evs) \<and> obs_oldest r = of_nat (length evs - RING_EVENTS) \<and> h_unfunded (o_hdr r) = 0 \<and>
     (\<forall>k < 2 ^ 64. obs_get (of_nat k) r =
        Some (if k < length evs \<and> length evs \<le> k + RING_EVENTS then Some (emit_event k (evs ! k)) else None))"
proof -
  define r0 where "r0 = ring_new\<lparr>o_hdr := hdr_new\<lparr>h_base_va := va, h_base_pa := phys va, h_cpu := cpu, h_capacity := of_nat RING_EVENTS\<rparr>, o_block := zeroed\<rparr>"
  have fund: "obs_fund phys zeroed cpu va ring_new = Some r0" using assms by (simp add: obs_fund_def r0_def ring_new_def hdr_new_def)
  have "obs_inv [] r0" using assms(1) by (simp add: obs_inv_def r0_def hdr_new_def)
  from obs_inv_pushes [OF this, of evs] assms(4) obtain r where r: "for_each emit_push evs r0 = Some r" "obs_inv evs r" "h_unfunded (o_hdr r) = 0"
    by (auto simp: r0_def hdr_new_def)
  have w: "obs_written r = of_nat (length evs)" "unat (obs_written r) = length evs" "unat (h_capacity (o_hdr r)) = RING_EVENTS"
    using r(2) assms(4) by (simp_all add: obs_inv_def obs_written_def unat_of_nat RING_EVENTS_def)
  have "obs_oldest r = of_nat (length evs - RING_EVENTS)"
    using w assms(4) by (simp add: obs_oldest_def obs_held_def word_less_nat_alt unat_of_nat min_def of_nat_diff)
  with fund r w(1) obs_get_inv [OF r(2) assms(4)] show ?thesis by blast
qed

theorem ring_keeps_latest_witness:
  "\<exists>r0 r. obs_fund id (replicate (RING_EVENTS * WORDS) 0) 3 4096 ring_new = Some r0 \<and>
     for_each emit_push [(7, 1, 2, 9, 5, 6), (8, 1, 3, 9, 0, 0)] r0 = Some r \<and> obs_get (of_nat 1) r = Some (Some (emit_event 1 (8, 1, 3, 9, 0, 0)))"
proof -
  define evs :: "emit list" where "evs = [(7, 1, 2, 9, 5, 6), (8, 1, 3, 9, 0, 0)]"
  have p: "length (replicate (RING_EVENTS * WORDS) (0 :: u64)) = RING_EVENTS * WORDS" "(4096 :: u64) \<noteq> 0" "(4096 :: u64) mod 32 = 0" "length evs < 2 ^ 64" by (simp_all add: evs_def)
  have len: "1 < length evs" "evs ! 1 = (8, 1, 3, 9, 0, 0)" by (simp_all add: evs_def)
  from ring_keeps_latest [OF p, of id 3] obtain r0 r where r: "obs_fund id (replicate (RING_EVENTS * WORDS) 0) 3 4096 ring_new = Some r0" "for_each emit_push evs r0 = Some r"
    "\<forall>k < 2 ^ 64. obs_get (of_nat k) r = Some (if k < length evs \<and> length evs \<le> k + RING_EVENTS then Some (emit_event k (evs ! k)) else None)"
    by (elim exE conjE) (rule that)
  have "length evs \<le> 1 + RING_EVENTS" by (simp add: evs_def RING_EVENTS_def)
  with r(3) [rule_format, of 1] len have "obs_get (of_nat 1) r = Some (Some (emit_event 1 (8, 1, 3, 9, 0, 0)))" by (simp del: emit_event.simps)
  with r(1,2) show ?thesis unfolding evs_def by blast
qed

section \<open>A reader on another processor\<close>

text \<open>
  The writer stores the four words of a record one after the other and then publishes the head; the reader loads the head, checks the bounds, loads the four
  words in any order and checks the sequence number. Records are numbered from zero, \<open>evs k\<close> is what is recorded as number \<open>k\<close>.
\<close>

datatype obs_reader = RIdle | RReading nat "u64 option list" | RDone nat "obs_event option"

record obs_race =
  rc_block :: "u64 list"
  rc_head :: nat
  rc_stored :: nat
  rc_reader :: obs_reader

definition race_init :: obs_race where
  "race_init = \<lparr> rc_block = replicate (RING_EVENTS * WORDS) 0, rc_head = 0, rc_stored = 0, rc_reader = RIdle \<rparr>"

inductive race_step :: "(nat \<Rightarrow> emit) \<Rightarrow> obs_race \<Rightarrow> obs_race \<Rightarrow> bool" for evs where
  w_word: "rc_stored s < WORDS \<Longrightarrow>
    put_word (slot_of 2048 (of_nat (rc_head s))) (emit_words (rc_head s) (evs (rc_head s))) (rc_stored s) (rc_block s) = Some blk \<Longrightarrow>
    race_step evs s (s\<lparr>rc_block := blk, rc_stored := Suc (rc_stored s)\<rparr>)"
| w_head: "rc_stored s = WORDS \<Longrightarrow> race_step evs s (s\<lparr>rc_head := Suc (rc_head s), rc_stored := 0\<rparr>)"
| r_start: "rc_reader s = RIdle \<Longrightarrow> n < 2 ^ 64 \<Longrightarrow> in_bounds 2048 (of_nat (rc_head s)) (of_nat n) \<Longrightarrow>
    race_step evs s (s\<lparr>rc_reader := RReading n (replicate WORDS None)\<rparr>)"
| r_none: "rc_reader s = RIdle \<Longrightarrow> n < 2 ^ 64 \<Longrightarrow> \<not> in_bounds 2048 (of_nat (rc_head s)) (of_nat n) \<Longrightarrow>
    race_step evs s (s\<lparr>rc_reader := RDone n None\<rparr>)"
| r_word: "rc_reader s = RReading n ws \<Longrightarrow> j < WORDS \<Longrightarrow> ws ! j = None \<Longrightarrow>
    race_step evs s (s\<lparr>rc_reader := RReading n (ws[j := Some (rc_block s ! (slot_of 2048 (of_nat n) * WORDS + j))])\<rparr>)"
| r_accept: "rc_reader s = RReading n (map Some ws) \<Longrightarrow> race_step evs s (s\<lparr>rc_reader := RDone n (accept (of_nat n) ws)\<rparr>)"
| r_again: "rc_reader s = RDone n a \<Longrightarrow> race_step evs s (s\<lparr>rc_reader := RIdle\<rparr>)"

inductive_simps race_step_simps: "race_step evs s s'"

text \<open>The slot of record \<open>n\<close> has not been touched since: the writer has not begun record \<open>n + 2048\<close>.\<close>

definition untouched :: "obs_race \<Rightarrow> nat \<Rightarrow> bool" where
  "untouched s n \<longleftrightarrow> rc_head s + (if rc_stored s = 0 then 0 else 1) \<le> n + RING_EVENTS"

definition race_inv :: "(nat \<Rightarrow> emit) \<Rightarrow> obs_race \<Rightarrow> bool" where
  "race_inv evs s \<longleftrightarrow> length (rc_block s) = RING_EVENTS * WORDS \<and> rc_stored s \<le> WORDS \<and>
     (\<forall>k < rc_head s. untouched s k \<longrightarrow> (\<forall>j < WORDS. rc_block s ! (k mod RING_EVENTS * WORDS + j) = emit_words k (evs k) ! j)) \<and>
     (\<forall>j < rc_stored s. rc_block s ! (rc_head s mod RING_EVENTS * WORDS + j) = emit_words (rc_head s) (evs (rc_head s)) ! j) \<and>
     (case rc_reader s of RIdle \<Rightarrow> True
      | RReading n ws \<Rightarrow> n < rc_head s \<and> n < 2 ^ 64 \<and> length ws = WORDS \<and> (untouched s n \<longrightarrow> (\<forall>j < WORDS. ws ! j = None \<or> ws ! j = Some (emit_words n (evs n) ! j)))
      | RDone n a \<Rightarrow> (case a of None \<Rightarrow> True | Some e \<Rightarrow> untouched s n \<longrightarrow> e = emit_event n (evs n)))"

lemma slot_race: "n < 2 ^ 64 \<Longrightarrow> slot_of 2048 (of_nat n) = n mod RING_EVENTS"
  by (simp add: slot_2048 unat_of_nat)

lemma untouched_other_slot:
  assumes "k < h" "Suc h \<le> k + RING_EVENTS" "i < WORDS" "j < WORDS"
  shows "k mod RING_EVENTS * WORDS + i \<noteq> h mod RING_EVENTS * WORDS + j"
proof
  assume eq: "k mod RING_EVENTS * WORDS + i = h mod RING_EVENTS * WORDS + j"
  have "(k mod RING_EVENTS * WORDS + i) div WORDS = k mod RING_EVENTS" "(h mod RING_EVENTS * WORDS + j) div WORDS = h mod RING_EVENTS"
    using assms(3,4) by (simp_all add: WORDS_def)
  with eq have "k mod RING_EVENTS = h mod RING_EVENTS" by simp
  then have "RING_EVENTS dvd h - k" using assms(1) by (metis less_imp_le mod_eq_dvd_iff_nat)
  then show False using assms(1,2) by (auto dest: dvd_imp_le)
qed

lemma race_inv_word:
  assumes inv: "race_inv evs s" and h: "rc_head s < 2 ^ 64" and st: "rc_stored s < WORDS"
    and put: "put_word (slot_of 2048 (of_nat (rc_head s))) (emit_words (rc_head s) (evs (rc_head s))) (rc_stored s) (rc_block s) = Some blk"
  shows "race_inv evs (s\<lparr>rc_block := blk, rc_stored := Suc (rc_stored s)\<rparr>)"
proof -
  let ?s = "s\<lparr>rc_block := blk, rc_stored := Suc (rc_stored s)\<rparr>" and ?h = "rc_head s"
  note c = inv [unfolded race_inv_def]
  note nth = put_word_nth [OF put [unfolded slot_race [OF h]]]
  have un: "untouched ?s k \<Longrightarrow> untouched s k \<and> Suc ?h \<le> k + RING_EVENTS" for k by (auto simp: untouched_def)
  have kept: "blk ! (k mod RING_EVENTS * WORDS + j) = emit_words k (evs k) ! j" if "k < ?h" "untouched ?s k" "j < WORDS" for k j
    using c un [OF that(2)] untouched_other_slot [OF that(1) _ that(3) st] that by (simp add: nth(2))
  have "blk ! (?h mod RING_EVENTS * WORDS + j) = emit_words ?h (evs ?h) ! j" if "j < Suc (rc_stored s)" for j
    using c that by (cases "j = rc_stored s") (simp_all add: nth(2))
  then show ?thesis using c st kept un nth(1) by (auto simp: race_inv_def split: obs_reader.splits option.splits)
qed

lemma race_inv_head:
  assumes inv: "race_inv evs s" and st: "rc_stored s = WORDS"
  shows "race_inv evs (s\<lparr>rc_head := Suc (rc_head s), rc_stored := 0\<rparr>)"
proof -
  let ?s = "s\<lparr>rc_head := Suc (rc_head s), rc_stored := 0\<rparr>"
  note c = inv [unfolded race_inv_def]
  have un: "untouched ?s k \<longleftrightarrow> untouched s k" for k using st by (auto simp: untouched_def WORDS_def)
  have "rc_block s ! (k mod RING_EVENTS * WORDS + j) = emit_words k (evs k) ! j" if "k < Suc (rc_head s)" "untouched s k" "j < WORDS" for k j
    using c that st by (cases "k = rc_head s") simp_all
  then show ?thesis using c un by (auto simp: race_inv_def split: obs_reader.splits option.splits)
qed

lemma accept_exact:
  assumes "length ws = WORDS" "\<forall>j < WORDS. ws ! j = emit_words n x ! j"
  shows "accept (of_nat n) ws = Some (emit_event n x)"
proof -
  have "ws = emit_words n x" using assms by (intro nth_equalityI) (simp_all add: WORDS_def)
  then show ?thesis by (cases x) (simp add: accept_def decode_event_words seq_of_nat Let_def del: of_nat_Suc)
qed

lemma race_inv_step:
  assumes "race_step evs s s'" "race_inv evs s" "rc_head s < 2 ^ 64"
  shows "race_inv evs s'"
  using assms
proof (cases rule: race_step.cases)
  case (w_word blk)
  then show ?thesis using race_inv_word assms(2,3) by blast
next
  case w_head
  then show ?thesis using race_inv_head assms(2) by blast
next
  case (r_start n)
  then have "n < rc_head s" using in_bounds_nat [OF assms(3), of n] by simp
  then show ?thesis using r_start assms(2) by (auto simp: race_inv_def untouched_def)
next
  case (r_word n ws j)
  have "untouched s n \<Longrightarrow> rc_block s ! (slot_of 2048 (of_nat n) * WORDS + j) = emit_words n (evs n) ! j"
    using r_word assms(2) by (simp add: race_inv_def slot_race)
  then show ?thesis using r_word assms(2) by (auto simp: race_inv_def untouched_def nth_list_update)
next
  case (r_accept n ws)
  have "accept (of_nat n) ws = Some (emit_event n (evs n))" if "untouched s n"
    by (rule accept_exact) (use r_accept assms(2) that in \<open>auto simp: race_inv_def\<close>)
  then show ?thesis using r_accept assms(2) by (auto simp: race_inv_def untouched_def split: option.splits)
qed (auto simp: race_inv_def untouched_def)

lemma race_init_inv: "race_inv evs race_init"
  by (simp add: race_inv_def race_init_def)

lemma race_head_mono: "race_step evs s s' \<Longrightarrow> rc_head s \<le> rc_head s'"
  by (auto simp: race_step_simps)

lemma race_reach_inv:
  assumes "rtranclp (race_step evs) race_init s" "rc_head s < 2 ^ 64"
  shows "race_inv evs s"
  using assms
proof (induction rule: rtranclp_induct)
  case (step s s')
  then show ?case using race_inv_step race_head_mono [OF step.hyps(2)] by fastforce
qed (rule race_init_inv)

text \<open>Some executions: the writer records \<open>m\<close> records while no reader is active; a reader reads a slot without interruption.\<close>

lemma writer_word:
  assumes "race_inv evs s" "rc_head s < 2 ^ 64" "rc_stored s < WORDS"
  shows "\<exists>blk. race_step evs s (s\<lparr>rc_block := blk, rc_stored := Suc (rc_stored s)\<rparr>) \<and>
    put_word (rc_head s mod RING_EVENTS) (emit_words (rc_head s) (evs (rc_head s))) (rc_stored s) (rc_block s) = Some blk"
proof -
  have "rc_head s mod RING_EVENTS < RING_EVENTS" by (simp add: RING_EVENTS_def)
  then have "rc_head s mod RING_EVENTS * WORDS + rc_stored s < length (rc_block s)"
    using assms by (simp add: race_inv_def WORDS_def)
  then show ?thesis using race_step.w_word [OF assms(3)] slot_race [OF assms(2)] by (auto simp: put_word_def)
qed

lemma writer_words:
  assumes "rtranclp (race_step evs) race_init s" "rc_head s < 2 ^ 64" "rc_stored s = 0" "j \<le> WORDS"
  shows "\<exists>blk. rtranclp (race_step evs) race_init (s\<lparr>rc_block := blk, rc_stored := j\<rparr>)"
  using assms(4)
proof (induction j)
  case 0
  have "s\<lparr>rc_block := rc_block s, rc_stored := 0\<rparr> = s" using assms(3) by simp
  then show ?case using assms(1) by metis
next
  case (Suc j)
  then obtain blk where b: "rtranclp (race_step evs) race_init (s\<lparr>rc_block := blk, rc_stored := j\<rparr>)" by auto
  from writer_word [OF race_reach_inv [OF b]] Suc.prems assms(2) obtain blk' where
    "race_step evs (s\<lparr>rc_block := blk, rc_stored := j\<rparr>) (s\<lparr>rc_block := blk', rc_stored := Suc j\<rparr>)" by auto
  with b show ?case by (blast intro: rtranclp.rtrancl_into_rtrancl)
qed

lemma writer_run: "m < 2 ^ 64 \<Longrightarrow> \<exists>s. rtranclp (race_step evs) race_init s \<and> rc_head s = m \<and> rc_stored s = 0 \<and> rc_reader s = RIdle"
proof (induction m)
  case 0
  then show ?case by (intro exI [of _ race_init]) (simp add: race_init_def)
next
  case (Suc m)
  then obtain s where s: "rtranclp (race_step evs) race_init s" "rc_head s = m" "rc_stored s = 0" "rc_reader s = RIdle" by auto
  from writer_words [OF s(1), of WORDS] Suc.prems s obtain blk where b: "rtranclp (race_step evs) race_init (s\<lparr>rc_block := blk, rc_stored := WORDS\<rparr>)" by auto
  have "race_step evs (s\<lparr>rc_block := blk, rc_stored := WORDS\<rparr>) (s\<lparr>rc_block := blk, rc_head := Suc m, rc_stored := 0\<rparr>)"
    using race_step.w_head [of "s\<lparr>rc_block := blk, rc_stored := WORDS\<rparr>" evs] s(2) by simp
  with b have "rtranclp (race_step evs) race_init (s\<lparr>rc_block := blk, rc_head := Suc m, rc_stored := 0\<rparr>)" by (rule rtranclp.rtrancl_into_rtrancl)
  with s show ?case by (intro exI [of _ "s\<lparr>rc_block := blk, rc_head := Suc m, rc_stored := 0\<rparr>"]) simp
qed

lemma race_inv_slot0:
  assumes "race_inv evs s" "0 < rc_head s" "untouched s 0" "j < WORDS"
  shows "rc_block s ! j = emit_words 0 (evs 0) ! j"
proof -
  have "\<forall>k < rc_head s. untouched s k \<longrightarrow> (\<forall>j < WORDS. rc_block s ! (k mod RING_EVENTS * WORDS + j) = emit_words k (evs k) ! j)"
    using assms(1) unfolding race_inv_def by (elim conjE)
  from this [rule_format, OF assms(2,3,4)] show ?thesis by simp
qed

lemma reader_run:
  assumes r: "rc_reader s = RReading n (replicate WORDS None)" and n: "n < 2 ^ 64"
  shows "rtranclp (race_step evs) s
    (s\<lparr>rc_reader := RDone n (accept (of_nat n) (map (\<lambda>j. rc_block s ! (n mod RING_EVENTS * WORDS + j)) [0, 1, 2, 3]))\<rparr>)"
proof -
  let ?w = "\<lambda>j. rc_block s ! (n mod RING_EVENTS * WORDS + j)"
  have st: "race_step evs (s\<lparr>rc_reader := RReading n ws\<rparr>) (s\<lparr>rc_reader := RReading n (ws[j := Some (?w j)])\<rparr>)" if "j < WORDS" "ws ! j = None" for ws j
    using race_step.r_word [of "s\<lparr>rc_reader := RReading n ws\<rparr>" n ws j evs] that slot_race [OF n] by simp
  have s0: "s = s\<lparr>rc_reader := RReading n [None, None, None, None]\<rparr>" using r by (simp add: WORDS_def numeral_eq_Suc)
  have 1: "race_step evs s (s\<lparr>rc_reader := RReading n [Some (?w 0), None, None, None]\<rparr>)"
    by (subst s0) (use st [of 0 "[None, None, None, None]"] in \<open>simp add: WORDS_def\<close>)
  have 2: "race_step evs (s\<lparr>rc_reader := RReading n [Some (?w 0), None, None, None]\<rparr>) (s\<lparr>rc_reader := RReading n [Some (?w 0), Some (?w 1), None, None]\<rparr>)"
    using st [of 1 "[Some (?w 0), None, None, None]"] by (simp add: WORDS_def)
  have 3: "race_step evs (s\<lparr>rc_reader := RReading n [Some (?w 0), Some (?w 1), None, None]\<rparr>) (s\<lparr>rc_reader := RReading n [Some (?w 0), Some (?w 1), Some (?w 2), None]\<rparr>)"
    using st [of 2 "[Some (?w 0), Some (?w 1), None, None]"] by (simp add: WORDS_def numeral_eq_Suc)
  have 4: "race_step evs (s\<lparr>rc_reader := RReading n [Some (?w 0), Some (?w 1), Some (?w 2), None]\<rparr>) (s\<lparr>rc_reader := RReading n (map Some (map ?w [0, 1, 2, 3]))\<rparr>)"
    using st [of 3 "[Some (?w 0), Some (?w 1), Some (?w 2), None]"] by (simp add: WORDS_def numeral_eq_Suc)
  have 5: "race_step evs (s\<lparr>rc_reader := RReading n (map Some (map ?w [0, 1, 2, 3]))\<rparr>) (s\<lparr>rc_reader := RDone n (accept (of_nat n) (map ?w [0, 1, 2, 3]))\<rparr>)"
    using race_step.r_accept [of "s\<lparr>rc_reader := RReading n (map Some (map ?w [0, 1, 2, 3]))\<rparr>" n "map ?w [0, 1, 2, 3]" evs] by simp
  from 1 2 3 4 5 show ?thesis by (meson r_into_rtranclp rtranclp_trans)
qed

text \<open>
  C25: however a reader on another processor interleaves with the writer, a record it accepts as number \<open>n\<close> is exactly the record that was written as number \<open>n\<close>,
  provided the writer has not begun to reuse the slot, that is, record \<open>n + 2048\<close>, by then.
\<close>

theorem racing_reader_exact:
  assumes "rtranclp (race_step evs) race_init s" and "rc_head s < 2 ^ 64" and "rc_reader s = RDone n (Some e)" and "untouched s n"
  shows "e = emit_event n (evs n)"
  using race_reach_inv [OF assms(1,2)] assms(3,4) by (simp add: race_inv_def)

theorem racing_reader_exact_witness:
  "\<exists>s e. rtranclp (race_step (\<lambda>k. (of_nat k, 1, 2, 3, 4, 5))) race_init s \<and> rc_reader s = RDone 0 (Some e) \<and> e = emit_event 0 (0, 1, 2, 3, 4, 5)"
proof -
  let ?evs = "\<lambda>k. (of_nat k, 1, 2, 3, 4, 5)"
  obtain s where s: "rtranclp (race_step ?evs) race_init s" "rc_head s = 1" "rc_stored s = 0" "rc_reader s = RIdle" using writer_run [of 1 ?evs] by auto
  let ?r = "s\<lparr>rc_reader := RReading 0 (replicate WORDS None)\<rparr>"
  have "race_step ?evs s ?r" using race_step.r_start [of s 0 ?evs] s(2,4) in_bounds_nat [of 1 0] by (simp add: RING_EVENTS_def)
  with s(1) have r: "rtranclp (race_step ?evs) race_init ?r" by (rule rtranclp.rtrancl_into_rtrancl)
  have inv: "race_inv ?evs s" using race_reach_inv [OF s(1)] s(2) by simp
  have un: "untouched s 0" using s by (simp add: untouched_def RING_EVENTS_def)
  then have "\<forall>j < WORDS. rc_block s ! j = emit_words 0 (?evs 0) ! j" using race_inv_slot0 [OF inv] s(2) by simp
  then have "accept (of_nat 0) (map (\<lambda>j. rc_block s ! j) [0, 1, 2, 3]) = Some (emit_event 0 (?evs 0))"
    by (intro accept_exact) (auto simp: WORDS_def numeral_eq_Suc less_Suc_eq)
  with reader_run [of ?r 0 ?evs] have "rtranclp (race_step ?evs) ?r (s\<lparr>rc_reader := RDone 0 (Some (emit_event 0 (?evs 0)))\<rparr>)" by (simp del: emit_event.simps)
  with r have d: "rtranclp (race_step ?evs) race_init (s\<lparr>rc_reader := RDone 0 (Some (emit_event 0 (?evs 0)))\<rparr>)" by (rule rtranclp_trans)
  have "emit_event 0 (?evs 0) = emit_event 0 (0, 1, 2, 3, 4, 5)" using racing_reader_exact [OF d, of 0] s(2) un by (simp add: untouched_def)
  with d show ?thesis by fastforce
qed

text \<open>
  C33: without that proviso the sequence number does not protect a reader, although it is there for that: the writer stores the sequence number last, so while it overwrites a slot
  the old number is still in place. There is an execution in which a reader accepts, as record 0, a record that has the sequence number of record 0 and the tick of record 2048.
\<close>

theorem torn_read:
  "\<exists>s e. rtranclp (race_step (\<lambda>k. (of_nat k, 1, 2, 3, 4, 5))) race_init s \<and> rc_reader s = RDone 0 (Some e) \<and>
     o_seq e = seq_of 0 \<and> o_tick e = 2048 \<and> e \<noteq> emit_event 0 (0, 1, 2, 3, 4, 5)"
proof -
  let ?evs = "\<lambda>k. (of_nat k, 1, 2, 3, 4, 5)"
  obtain s where s: "rtranclp (race_step ?evs) race_init s" "rc_head s = RING_EVENTS" "rc_stored s = 0" "rc_reader s = RIdle"
    using writer_run [of RING_EVENTS ?evs] by (auto simp: RING_EVENTS_def)
  let ?r = "s\<lparr>rc_reader := RReading 0 (replicate WORDS None)\<rparr>"
  have "race_step ?evs s ?r" using race_step.r_start [of s 0 ?evs] s(2,4) in_bounds_nat [of RING_EVENTS 0] by (simp add: RING_EVENTS_def)
  with s(1) have r: "rtranclp (race_step ?evs) race_init ?r" by (rule rtranclp.rtrancl_into_rtrancl)
  have inv: "race_inv ?evs ?r" using race_reach_inv [OF r] s(2) by (simp add: RING_EVENTS_def)
  have un: "untouched ?r 0" using s by (simp add: untouched_def)
  then have old: "\<forall>j < WORDS. rc_block s ! j = emit_words 0 (?evs 0) ! j"
    using race_inv_slot0 [OF inv] s(2) by (simp add: RING_EVENTS_def)
  from writer_word [OF inv] s obtain blk where w: "race_step ?evs ?r (?r\<lparr>rc_block := blk, rc_stored := 1\<rparr>)"
    and put: "put_word 0 (emit_words RING_EVENTS (?evs RING_EVENTS)) 0 (rc_block s) = Some blk" by (auto simp: RING_EVENTS_def WORDS_def)
  let ?t = "?r\<lparr>rc_block := blk, rc_stored := 1\<rparr>"
  let ?ws = "map (\<lambda>j. blk ! j) [0, 1, 2, 3]"
  have ws: "?ws = event_words 0 2048 (pack_meta 1 2 3) 4 5"
    using old put_word_nth(2) [OF put] by (simp add: WORDS_def event_words_def RING_EVENTS_def)
  define e where "e = \<lparr> o_tick = 2048, o_a = 4, o_b = 5, o_seq = seq_of 0, o_owner = (3 :: u16), o_window = (1 :: u8), o_kind = (2 :: u8) \<rparr>"
  have acc: "accept (of_nat 0) ?ws = Some e" unfolding ws by (simp add: accept_def decode_event_words e_def)
  from reader_run [of ?t 0 ?evs] have "rtranclp (race_step ?evs) ?t (?t\<lparr>rc_reader := RDone 0 (accept (of_nat 0) ?ws)\<rparr>)" by simp
  with rtranclp.rtrancl_into_rtrancl [OF r w] have "rtranclp (race_step ?evs) race_init (?t\<lparr>rc_reader := RDone 0 (Some e)\<rparr>)"
    unfolding acc by (rule rtranclp_trans)
  moreover have "o_seq e = seq_of 0 \<and> o_tick e = 2048 \<and> e \<noteq> emit_event 0 (0, 1, 2, 3, 4, 5)" by (simp add: e_def)
  ultimately show ?thesis by (intro exI [of _ "?t\<lparr>rc_reader := RDone 0 (Some e)\<rparr>"] exI [of _ e]) simp
qed

end
