(* ===== verification/Logring.thy ===== *)
theory Logring
  imports Queue
begin

text \<open>
  The kernel's own log, \<^verbatim>\<open>kernel/src/telemetry.rs\<close>: one ring of records per processor that folds repeats and counts losses in place, and
  the merge of the rings by time stamp; and the console on top of it, \<^verbatim>\<open>kernel/src/console.rs\<close>, which writes whole messages into the ring
  of its processor and drains all rings to the serial line. The serial line is the list of bytes sent to it. The processor and its clock
  reading are arguments, as in the source.
\<close>

section \<open>Records and rings\<close>

datatype level = LError | LWarn | LInfo | LTrace

fun level_code :: "level \<Rightarrow> nat" where
  "level_code LError = 0"
| "level_code LWarn = 1"
| "level_code LInfo = 2"
| "level_code LTrace = 3"

lemma level_code_inject [simp]: "level_code a = level_code b \<longleftrightarrow> a = b"
  by (cases a; cases b) auto

instantiation level :: linorder
begin

definition less_eq_level :: "level \<Rightarrow> level \<Rightarrow> bool" where
  "less_eq_level a b \<longleftrightarrow> level_code a \<le> level_code b"

definition less_level :: "level \<Rightarrow> level \<Rightarrow> bool" where
  "less_level a b \<longleftrightarrow> level_code a < level_code b"

instance by standard (auto simp: less_eq_level_def less_level_def)

end

definition PAYLOAD_MAX :: nat where "PAYLOAD_MAX = 96"

definition LOG_SLOTS :: nat where "LOG_SLOTS = 64"

definition MAX_RING_CPUS :: nat where "MAX_RING_CPUS = 8"

record log_record =
  ts_ns :: u64
  l_cpu :: u16
  l_len :: u16
  l_level :: level
  truncated :: bool
  repeats :: u16
  lost :: u16
  payload :: "u8 list"

definition RECORD_EMPTY :: log_record where
  "RECORD_EMPTY = \<lparr> ts_ns = 0, l_cpu = 0, l_len = 0, l_level = LInfo, truncated = False, repeats = 0, lost = 0, payload = replicate PAYLOAD_MAX 0 \<rparr>"

definition record_bytes :: "log_record \<Rightarrow> u8 list" where
  "record_bytes r = take (min (unat (l_len r)) PAYLOAD_MAX) (payload r)"

record log_ring =
  l_head :: u32
  l_tail :: u32
  dropped :: u32
  written :: u32
  coalesced :: u32
  l_slots :: "log_record list"

definition RING_EMPTY :: log_ring where
  "RING_EMPTY = \<lparr> l_head = 0, l_tail = 0, dropped = 0, written = 0, coalesced = 0, l_slots = replicate LOG_SLOTS RECORD_EMPTY \<rparr>"

definition ring_counters :: "log_ring \<Rightarrow> u32 \<times> u32 \<times> u32" where
  "ring_counters r = (written r, dropped r, coalesced r)"

text \<open>The index of the newest record the consumer has not taken.\<close>

definition newest_unread :: "log_ring \<Rightarrow> nat option" where
  "newest_unread r = (if l_head r = l_tail r then None else Some (unat (l_head r - 1) AND (LOG_SLOTS - 1)))"

definition log_pending :: "log_ring \<Rightarrow> nat" where
  "log_pending r = unat (l_head r - l_tail r)"

definition folds :: "level \<Rightarrow> u16 \<Rightarrow> u8 list \<Rightarrow> nat \<Rightarrow> log_record \<Rightarrow> bool" where
  "folds level cpu bytes claimed r \<longleftrightarrow>
     (let n = min (length bytes) PAYLOAD_MAX
      in l_level r = level \<and> l_cpu r = cpu \<and> \<not> truncated r \<and> claimed \<le> PAYLOAD_MAX \<and> unat (l_len r) = n \<and>
         take n (payload r) = take n bytes)"

definition amend :: "nat \<Rightarrow> (log_record \<Rightarrow> log_record) \<Rightarrow> log_ring \<Rightarrow> log_ring" where
  "amend i f r = r\<lparr>l_slots := (l_slots r)[i := f (l_slots r ! i)]\<rparr>"

definition fill :: "level \<Rightarrow> u16 \<Rightarrow> u64 \<Rightarrow> u8 list \<Rightarrow> nat \<Rightarrow> log_record \<Rightarrow> log_record" where
  "fill level cpu ts bytes claimed slot =
     (let n = min (length bytes) PAYLOAD_MAX
      in slot\<lparr>ts_ns := ts, l_cpu := cpu, l_len := of_nat n, l_level := level, truncated := PAYLOAD_MAX < claimed,
              repeats := 0, lost := 0, payload := take n bytes @ drop n (payload slot)\<rparr>)"

definition log_push_claimed :: "level \<Rightarrow> u16 \<Rightarrow> u64 \<Rightarrow> u8 list \<Rightarrow> nat \<Rightarrow> log_ring \<Rightarrow> log_ring \<times> bool" where
  "log_push_claimed level cpu ts bytes claimed r =
     (case newest_unread r of
        Some i \<Rightarrow>
          if folds level cpu bytes claimed (l_slots r ! i)
          then ((amend i (\<lambda>e. e\<lparr>repeats := sat_inc16 (repeats e)\<rparr>) r)\<lparr>coalesced := coalesced r + 1\<rparr>, True)
          else if LOG_SLOTS \<le> log_pending r
          then (amend i (\<lambda>e. e\<lparr>lost := sat_inc16 (lost e)\<rparr>) (r\<lparr>dropped := dropped r + 1\<rparr>), False)
          else ((amend (unat (l_head r) AND (LOG_SLOTS - 1)) (fill level cpu ts bytes claimed) r)\<lparr>l_head := l_head r + 1, written := written r + 1\<rparr>, True)
      | None \<Rightarrow>
          if LOG_SLOTS \<le> log_pending r then (r\<lparr>dropped := dropped r + 1\<rparr>, False)
          else ((amend (unat (l_head r) AND (LOG_SLOTS - 1)) (fill level cpu ts bytes claimed) r)\<lparr>l_head := l_head r + 1, written := written r + 1\<rparr>, True))"

definition log_push :: "level \<Rightarrow> u16 \<Rightarrow> u64 \<Rightarrow> u8 list \<Rightarrow> log_ring \<Rightarrow> log_ring \<times> bool" where
  "log_push level cpu ts bytes r = log_push_claimed level cpu ts bytes (length bytes) r"

definition log_peek :: "log_ring \<Rightarrow> log_record option" where
  "log_peek r = (if l_head r = l_tail r then None else Some (l_slots r ! (unat (l_tail r) AND (LOG_SLOTS - 1))))"

definition log_pop :: "log_ring \<Rightarrow> log_ring \<times> log_record option" where
  "log_pop r = (if l_head r = l_tail r then (r, None)
     else (r\<lparr>l_tail := l_tail r + 1\<rparr>, Some (l_slots r ! (unat (l_tail r) AND (LOG_SLOTS - 1)))))"

definition log_reset :: "log_ring \<Rightarrow> log_ring" where
  "log_reset r = r\<lparr>l_head := 0, l_tail := 0, dropped := 0, written := 0, coalesced := 0\<rparr>"

definition seek_for_test :: "u32 \<Rightarrow> u32 \<Rightarrow> log_ring \<Rightarrow> log_ring" where
  "seek_for_test h t r = r\<lparr>l_head := h, l_tail := t\<rparr>"

section \<open>The rings of all processors\<close>

record log_rings =
  rings :: "log_ring list"
  threshold :: level
  buffered :: bool
  bypassed :: u32

definition RINGS_EMPTY :: log_rings where
  "RINGS_EMPTY = \<lparr> rings = replicate MAX_RING_CPUS RING_EMPTY, threshold = LInfo, buffered = False, bypassed = 0 \<rparr>"

definition set_buffered :: "bool \<Rightarrow> log_rings \<Rightarrow> log_rings" where
  "set_buffered on s = s\<lparr>buffered := on\<rparr>"

definition set_threshold :: "level \<Rightarrow> log_rings \<Rightarrow> log_rings" where
  "set_threshold level s = s\<lparr>threshold := level\<rparr>"

definition wants :: "level \<Rightarrow> log_rings \<Rightarrow> bool" where
  "wants level s \<longleftrightarrow> buffered s \<and> level \<le> threshold s"

definition rings_push_claimed :: "level \<Rightarrow> u16 \<Rightarrow> u64 \<Rightarrow> u8 list \<Rightarrow> nat \<Rightarrow> log_rings \<Rightarrow> log_rings \<times> bool" where
  "rings_push_claimed level cpu ts bytes claimed s =
     (if \<not> buffered s then (s\<lparr>bypassed := bypassed s + 1\<rparr>, False)
      else if threshold s < level then (s, False)
      else if length (rings s) \<le> unat cpu
      then (s\<lparr>rings := (rings s)[0 := (rings s ! 0)\<lparr>dropped := dropped (rings s ! 0) + 1\<rparr>]\<rparr>, False)
      else let (r, ok) = log_push_claimed level cpu ts bytes claimed (rings s ! unat cpu)
           in (s\<lparr>rings := (rings s)[unat cpu := r]\<rparr>, ok))"

definition rings_push :: "level \<Rightarrow> u16 \<Rightarrow> u64 \<Rightarrow> u8 list \<Rightarrow> log_rings \<Rightarrow> log_rings \<times> bool" where
  "rings_push level cpu ts bytes s = rings_push_claimed level cpu ts bytes (length bytes) s"

definition oldest_step :: "log_rings \<Rightarrow> (nat \<times> u64) option \<Rightarrow> nat \<Rightarrow> (nat \<times> u64) option" where
  "oldest_step s best i =
     (case log_peek (rings s ! i) of None \<Rightarrow> best
      | Some rec \<Rightarrow> (case best of Some (_, ts) \<Rightarrow> if ts \<le> ts_ns rec then best else Some (i, ts_ns rec) | None \<Rightarrow> Some (i, ts_ns rec)))"

definition pop_oldest :: "log_rings \<Rightarrow> log_rings \<times> log_record option" where
  "pop_oldest s =
     (case foldl (oldest_step s) None [0..<length (rings s)] of None \<Rightarrow> (s, None)
      | Some (i, _) \<Rightarrow> let (r, rec) = log_pop (rings s ! i) in (s\<lparr>rings := (rings s)[i := r]\<rparr>, rec))"

definition rings_counters :: "log_rings \<Rightarrow> u32 \<times> u32 \<times> u32 \<times> u32" where
  "rings_counters s = (sum_list (map written (rings s)), sum_list (map dropped (rings s)), sum_list (map coalesced (rings s)), bypassed s)"

definition rings_pending :: "log_rings \<Rightarrow> nat" where
  "rings_pending s = sum_list (map log_pending (rings s))"

definition rings_reset :: "log_rings \<Rightarrow> log_rings" where
  "rings_reset s = s\<lparr>rings := map log_reset (rings s), bypassed := 0, buffered := False, threshold := LInfo\<rparr>"

section \<open>The console\<close>

text \<open>The serial line expects a carriage return before a line feed.\<close>

fun serial_bytes :: "u8 list \<Rightarrow> u8 list" where
  "serial_bytes [] = []"
| "serial_bytes (b # bs) = (if b = 10 then [13, b] else [b]) @ serial_bytes bs"

text \<open>The sink that formats into a fixed buffer: the bytes so far and whether there were more.\<close>

fun buffered_write_str :: "u8 list \<times> bool \<Rightarrow> u8 list \<Rightarrow> u8 list \<times> bool" where
  "buffered_write_str (buf, over) [] = (buf, over)"
| "buffered_write_str (buf, over) (b # bs) =
     (if length buf = PAYLOAD_MAX then (buf, True) else buffered_write_str (buf @ [b], over) bs)"

text \<open>A message reaches the console in pieces. The answer is what goes straight to the serial line.\<close>

definition console_write :: "u8 list list \<Rightarrow> u16 \<Rightarrow> u64 \<Rightarrow> log_rings \<Rightarrow> log_rings \<times> u8 list" where
  "console_write pieces cpu now s =
     (if buffered s
      then let (buf, over) = foldl buffered_write_str ([], False) pieces;
               claimed = (if over then PAYLOAD_MAX + 1 else length buf)
           in (fst (rings_push_claimed LInfo cpu now buf claimed s), [])
      else (s, concat (map serial_bytes pieces)))"

definition write_raw :: "u8 list list \<Rightarrow> u8 list" where
  "write_raw pieces = concat (map serial_bytes pieces)"

text \<open>The decimal digits, last one first found. \<open>digits\<close> is the array from the index reached so far on.\<close>

function decimal :: "nat \<Rightarrow> u8 list \<Rightarrow> u8 list" where
  "decimal n digits = (let ds = (48 + of_nat (n mod 10)) # digits in if n div 10 = 0 then ds else decimal (n div 10) ds)"
  by auto
termination by (relation "measure fst") auto

definition fold_note :: "string \<Rightarrow> nat \<Rightarrow> string \<Rightarrow> u8 list" where
  "fold_note prefix v suffix = ascii prefix @ decimal v [] @ ascii suffix"

definition crlf :: string where "crlf = [CHR 0x0D, CHR 0x0A]"

definition render :: "log_record \<Rightarrow> u8 list" where
  "render rec = serial_bytes (record_bytes rec)
     @ (if truncated rec then ascii (''[truncated]'' @ crlf) else [])
     @ (if 0 < repeats rec then fold_note ''  [repeated '' (unat (repeats rec)) ('' more times]'' @ crlf) else [])
     @ (if 0 < lost rec then fold_note ''  ['' (unat (lost rec)) ('' records lost here]'' @ crlf) else [])"

section \<open>Taking the oldest record\<close>

text \<open>The ring without its counters is a ring of the queue pairs, with the same masked indices.\<close>

definition as_ring :: "log_ring \<Rightarrow> log_record ring" where
  "as_ring r = \<lparr> entries = l_slots r, head = l_head r, rtail = l_tail r \<rparr>"

lemma as_ring_simps [simp]: "entries (as_ring r) = l_slots r" "head (as_ring r) = l_head r" "rtail (as_ring r) = l_tail r"
  "ring_len (as_ring r) = log_pending r"
  by (simp_all add: as_ring_def ring_len_def log_pending_def)

lemma pending_pop: "l_head r \<noteq> l_tail r \<Longrightarrow> log_pending (r\<lparr>l_tail := l_tail r + 1\<rparr>) = log_pending r - 1 \<and> 0 < log_pending r"
  using ring_len_pop [of "as_ring r"] by (simp add: ring_len_def log_pending_def)

lemma pending_0 [simp]: "log_pending r = 0 \<longleftrightarrow> l_head r = l_tail r"
  by (simp add: log_pending_def unat_eq_0)

lemma pending_empty [simp]: "l_head r = l_tail r \<Longrightarrow> log_pending r = 0"
  by (simp only: pending_0)

lemma oldest_is_scan: "oldest_step s = scan_best (<) (\<lambda>i. map_option ts_ns (log_peek (rings s ! i)))"
  by (auto simp: fun_eq_iff oldest_step_def scan_best_def not_less split: option.splits)

text \<open>Where \<open>pop_oldest\<close> takes its record: the head with the least time stamp, of the lowest processor among several.\<close>

lemma pop_oldest_cases:
  obtains (empty) "pop_oldest s = (s, None)" "\<And>i. i < length (rings s) \<Longrightarrow> log_pending (rings s ! i) = 0"
  | (taken) i rec where "i < length (rings s)" "log_peek (rings s ! i) = Some rec"
      "pop_oldest s = (s\<lparr>rings := (rings s)[i := (rings s ! i)\<lparr>l_tail := l_tail (rings s ! i) + 1\<rparr>]\<rparr>, Some rec)"
      "\<And>j rec'. j < length (rings s) \<Longrightarrow> log_peek (rings s ! j) = Some rec' \<Longrightarrow> ts_ns rec \<le> ts_ns rec' \<and> (j < i \<longrightarrow> ts_ns rec < ts_ns rec')"
proof -
  let ?key = "\<lambda>i. map_option ts_ns (log_peek (rings s ! i))"
  define best where "best = foldl (oldest_step s) None [0..<length (rings s)]"
  have scan: "case best of None \<Rightarrow> \<forall>x \<in> set [0..<length (rings s)]. ?key x = None | Some (x, k) \<Rightarrow> first_best (<) ?key [0..<length (rings s)] x k"
    unfolding best_def oldest_is_scan by (rule least.scan_first_best)
  show ?thesis
  proof (cases best)
    case None
    with scan have "log_pending (rings s ! i) = 0" if "i < length (rings s)" for i
      using that by (auto simp: log_peek_def split: if_splits)
    moreover have "pop_oldest s = (s, None)" using None by (simp add: pop_oldest_def best_def)
    ultimately show ?thesis using empty by blast
  next
    case (Some p)
    obtain i k where p: "p = (i, k)" by force
    with scan Some obtain ys zs where f: "[0..<length (rings s)] = ys @ i # zs" "?key i = Some k"
      "\<forall>y \<in> set ys. \<forall>k'. ?key y = Some k' \<longrightarrow> k < k'" "\<forall>z \<in> set zs. \<forall>k'. ?key z = Some k' \<longrightarrow> \<not> k' < k"
      by (auto simp: first_best_def)
    from f(2) obtain rec where rec: "log_peek (rings s ! i) = Some rec" "ts_ns rec = k" by auto
    have i: "i < length (rings s)" using f(1) by (metis atLeastLessThan_iff in_set_conv_decomp set_upt)
    show ?thesis
    proof (rule taken [OF i rec(1)])
      show "pop_oldest s = (s\<lparr>rings := (rings s)[i := (rings s ! i)\<lparr>l_tail := l_tail (rings s ! i) + 1\<rparr>]\<rparr>, Some rec)"
        using Some p rec(1) by (simp add: pop_oldest_def best_def log_pop_def log_peek_def split: if_splits)
      fix j rec'
      assume j: "j < length (rings s)" "log_peek (rings s ! j) = Some rec'"
      then have "j \<in> set (ys @ i # zs)" unfolding f(1) [symmetric] by simp
      then consider "j \<in> set ys" | "j = i" | "j \<in> set zs" by auto
      then show "ts_ns rec \<le> ts_ns rec' \<and> (j < i \<longrightarrow> ts_ns rec < ts_ns rec')"
      proof cases
        case 1
        with f(3) j(2) rec(2) show ?thesis by fastforce
      next
        case 2
        with rec j(2) show ?thesis by simp
      next
        case 3
        then have "i < j" using f(1) by (metis sorted_wrt_append sorted_wrt_upt sorted_wrt.simps(2))
        moreover have "\<not> ts_ns rec' < k" using f(4) 3 j(2) by fastforce
        ultimately show ?thesis using rec(2) by simp
      qed
    qed
  qed
qed

lemma sum_list_update_less:
  assumes "i < length xs" and "f y < f (xs ! i)"
  shows "sum_list (map f (xs[i := y])) < (sum_list (map f xs) :: nat)"
  using assms by (induction xs arbitrary: i) (auto split: nat.splits)

lemma pop_oldest_less: "pop_oldest s = (s', Some rec) \<Longrightarrow> rings_pending s' < rings_pending s"
proof (cases s rule: pop_oldest_cases)
  case (taken i r)
  assume "pop_oldest s = (s', Some rec)"
  moreover have "l_head (rings s ! i) \<noteq> l_tail (rings s ! i)" using taken(2) by (auto simp: log_peek_def)
  ultimately show ?thesis using taken pending_pop [of "rings s ! i"]
    by (auto simp: rings_pending_def intro!: sum_list_update_less)
qed simp

text \<open>The drain: the records in the order they are taken, and the bytes \<open>flush\<close> sends for them.\<close>

function drain_rings :: "log_rings \<Rightarrow> log_rings \<times> log_record list" where
  "drain_rings s = (case pop_oldest s of (s', None) \<Rightarrow> (s', [])
     | (s', Some rec) \<Rightarrow> let (s2, recs) = drain_rings s' in (s2, rec # recs))"
  by auto
termination by (relation "measure rings_pending") (auto dest!: pop_oldest_less [OF sym])

declare drain_rings.simps [simp del]

definition flush :: "log_rings \<Rightarrow> log_rings \<times> u8 list" where
  "flush s = (let (s', recs) = drain_rings s in (s', concat (map render recs)))"

section \<open>One ring\<close>

text \<open>
  What a consumer sees of a record: only the bytes its length covers. A ring stands for the list of the records that are not yet taken,
  oldest first.
\<close>

definition entry :: "log_record \<Rightarrow> log_record" where
  "entry e = e\<lparr>payload := record_bytes e\<rparr>"

definition unread :: "log_ring \<Rightarrow> log_record list" where
  "unread r = map entry (ring_list (as_ring r))"

definition log_ok :: "log_ring \<Rightarrow> bool" where
  "log_ok r \<longleftrightarrow> length (l_slots r) = LOG_SLOTS \<and> log_pending r \<le> LOG_SLOTS \<and> (\<forall>e \<in> set (l_slots r). length (payload e) = PAYLOAD_MAX)"

definition fresh :: "level \<Rightarrow> u16 \<Rightarrow> u64 \<Rightarrow> u8 list \<Rightarrow> nat \<Rightarrow> log_record" where
  "fresh level cpu ts bytes claimed =
     \<lparr> ts_ns = ts, l_cpu = cpu, l_len = of_nat (min (length bytes) PAYLOAD_MAX), l_level = level, truncated = PAYLOAD_MAX < claimed,
       repeats = 0, lost = 0, payload = take PAYLOAD_MAX bytes \<rparr>"

text \<open>The bounded log on lists.\<close>

definition put :: "level \<Rightarrow> u16 \<Rightarrow> u64 \<Rightarrow> u8 list \<Rightarrow> nat \<Rightarrow> log_record list \<Rightarrow> log_record list \<times> bool" where
  "put level cpu ts bytes claimed q =
     (if q \<noteq> [] \<and> folds level cpu bytes claimed (last q) then (q[length q - 1 := (last q)\<lparr>repeats := sat_inc16 (repeats (last q))\<rparr>], True)
      else if LOG_SLOTS \<le> length q then (q[length q - 1 := (last q)\<lparr>lost := sat_inc16 (lost (last q))\<rparr>], False)
      else (q @ [fresh level cpu ts bytes claimed], True))"

lemma pow2_slots [simp]: "pow2 LOG_SLOTS"
  unfolding pow2_def by (rule exI [of _ 6]) (simp add: LOG_SLOTS_def)

lemma log_mask [simp]: "n AND (LOG_SLOTS - Suc 0) = n mod LOG_SLOTS"
  using mask_index [OF pow2_slots] by simp

lemma length_unread [simp]: "length (unread r) = log_pending r"
  by (simp add: unread_def ring_list_def)

lemma unread_Nil [simp]: "unread r = [] \<longleftrightarrow> l_head r = l_tail r"
  by (simp add: length_0_conv [symmetric] del: length_0_conv)

lemma entry_simps [simp]: "ts_ns (entry e) = ts_ns e" "l_cpu (entry e) = l_cpu e" "l_level (entry e) = l_level e" "truncated (entry e) = truncated e"
  "repeats (entry e) = repeats e" "lost (entry e) = lost e" "l_len (entry e) = l_len e" "payload (entry e) = record_bytes e"
  "record_bytes (entry e) = record_bytes e" "entry (e\<lparr>repeats := n\<rparr>) = (entry e)\<lparr>repeats := n\<rparr>" "entry (e\<lparr>lost := n\<rparr>) = (entry e)\<lparr>lost := n\<rparr>"
  "render (entry e) = render e"
  by (simp_all add: entry_def record_bytes_def render_def)

lemma folds_entry [simp]: "folds level cpu bytes claimed (entry e) = folds level cpu bytes claimed e"
  by (auto simp: folds_def record_bytes_def Let_def min_def)

lemma entry_fill:
  assumes "length (payload e) = PAYLOAD_MAX"
  shows "entry (fill level cpu ts bytes claimed e) = fresh level cpu ts bytes claimed" "length (payload (fill level cpu ts bytes claimed e)) = PAYLOAD_MAX"
proof -
  have "unat (of_nat (min (length bytes) PAYLOAD_MAX) :: u16) = min (length bytes) PAYLOAD_MAX"
    by (simp add: unsigned_of_nat take_bit_nat_eq_self PAYLOAD_MAX_def)
  then show "entry (fill level cpu ts bytes claimed e) = fresh level cpu ts bytes claimed"
    by (simp add: entry_def fill_def fresh_def record_bytes_def Let_def min_def)
  show "length (payload (fill level cpu ts bytes claimed e)) = PAYLOAD_MAX" using assms by (simp add: fill_def Let_def)
qed

lemma amend_simps [simp]: "l_head (amend i f r) = l_head r" "l_tail (amend i f r) = l_tail r" "log_pending (amend i f r) = log_pending r"
  "l_slots (amend i f r) = (l_slots r)[i := f (l_slots r ! i)]" "dropped (amend i f r) = dropped r" "written (amend i f r) = written r"
  "coalesced (amend i f r) = coalesced r"
  by (simp_all add: amend_def log_pending_def)

text \<open>The slot of the newest record is the last of the list.\<close>

lemma newest_index:
  assumes "l_head r \<noteq> l_tail r"
  shows "newest_unread r = Some ((unat (l_tail r) + (log_pending r - 1)) mod LOG_SLOTS)"
proof -
  have "unat (l_head r - l_tail r - 1) = log_pending r - 1" unfolding log_pending_def by (rule unat_minus_one) (use assms in simp)
  then show ?thesis using assms unat_add_mod [OF pow2_slots, of "l_tail r" "l_head r - l_tail r - 1"]
    by (simp add: newest_unread_def algebra_simps)
qed

lemma ring_list_amend:
  assumes ok: "log_ok r" and k: "k < log_pending r" and i: "i = (unat (l_tail r) + k) mod LOG_SLOTS"
  shows "l_slots r ! i = ring_list (as_ring r) ! k"
    "ring_list (as_ring (amend i f r)) = (ring_list (as_ring r))[k := f (ring_list (as_ring r) ! k)]"
proof -
  have n: "length (l_slots r) = LOG_SLOTS" "k < LOG_SLOTS" "log_pending r \<le> LOG_SLOTS" using ok k by (auto simp: log_ok_def)
  show at: "l_slots r ! i = ring_list (as_ring r) ! k" using k n by (simp add: ring_list_def i)
  have "i < LOG_SLOTS" by (simp add: i LOG_SLOTS_def)
  moreover have "(unat (l_tail r) + j) mod LOG_SLOTS = i \<longleftrightarrow> j = k" if "j < log_pending r" for j
    using mod_offset_inj [of j LOG_SLOTS k "unat (l_tail r)"] that n i by auto
  ultimately show "ring_list (as_ring (amend i f r)) = (ring_list (as_ring r))[k := f (ring_list (as_ring r) ! k)]"
    using n k at by (intro nth_equalityI) (auto simp: ring_list_def nth_list_update)
qed

lemma log_ok_amend:
  assumes "log_ok r" and "\<And>e. length (payload e) = PAYLOAD_MAX \<Longrightarrow> length (payload (f e)) = PAYLOAD_MAX"
  shows "log_ok (amend i f r)"
proof (cases "i < length (l_slots r)")
  case True
  then have "length (payload (f (l_slots r ! i))) = PAYLOAD_MAX" using assms by (auto simp: log_ok_def)
  then have "\<forall>e \<in> set ((l_slots r)[i := f (l_slots r ! i)]). length (payload e) = PAYLOAD_MAX"
    using assms(1) set_update_subset_insert by (fastforce simp: log_ok_def)
  then show ?thesis using assms(1) by (simp add: log_ok_def)
qed (use assms in \<open>simp add: log_ok_def list_update_beyond\<close>)

lemma push_new:
  assumes ok: "log_ok r" and room: "log_pending r < LOG_SLOTS"
    and r': "r' = (amend (unat (l_head r) mod LOG_SLOTS) (fill level cpu ts bytes claimed) r)\<lparr>l_head := l_head r + 1, written := w\<rparr>"
  shows "log_ok r' \<and> unread r' = unread r @ [fresh level cpu ts bytes claimed]"
proof -
  let ?R = "as_ring r" and ?i = "unat (l_head r) mod LOG_SLOTS"
  define e where "e = fill level cpu ts bytes claimed (l_slots r ! ?i)"
  define R1 where "R1 = ?R\<lparr>entries := (entries ?R)[unat (head ?R) mod length (entries ?R) := e]\<rparr>"
  have len: "length (l_slots r) = LOG_SLOTS" and i: "?i < LOG_SLOTS" using ok by (simp_all add: log_ok_def LOG_SLOTS_def)
  have view: "as_ring r' = R1\<lparr>head := head R1 + 1\<rparr>" by (simp add: r' as_ring_def R1_def len e_def)
  have l1: "ring_list R1 = ring_list ?R" unfolding R1_def by (rule ring_list_write) (use len room in simp_all)
  have "ring_len R1 < length (entries R1)" "pow2 (length (entries R1))" using room len by (simp_all add: R1_def ring_len_def log_pending_def)
  note pub = ring_list_publish [OF this(2,1)]
  have "entries R1 ! (unat (head R1) mod length (entries R1)) = e" using len i by (simp add: R1_def)
  then have l2: "ring_list (as_ring r') = ring_list ?R @ [e]" using pub(1) l1 by (simp add: view)
  have e: "entry e = fresh level cpu ts bytes claimed" "length (payload e) = PAYLOAD_MAX"
    using entry_fill [of "l_slots r ! ?i"] ok i len by (simp_all add: e_def log_ok_def)
  have "log_pending r' = log_pending r + 1" using pub(2) by (simp add: R1_def ring_len_def log_pending_def r')
  moreover have "log_ok (amend ?i (fill level cpu ts bytes claimed) r)" by (rule log_ok_amend [OF ok]) (rule entry_fill(2))
  ultimately have "log_ok r'" using room by (simp add: log_ok_def r')
  with l2 e show ?thesis by (simp add: unread_def)
qed

text \<open>An amended newest record.\<close>

lemma amend_newest:
  assumes ok: "log_ok r" and ne: "l_head r \<noteq> l_tail r" and i: "newest_unread r = Some i"
    and f: "\<And>e. entry (f e) = f (entry e)" "\<And>e. length (payload (f e)) = length (payload e)"
  shows "entry (l_slots r ! i) = last (unread r)" "log_ok (amend i f r)"
    "unread (amend i f r) = (unread r)[log_pending r - 1 := f (last (unread r))]"
proof -
  have k: "log_pending r - 1 < log_pending r" using ne by (metis One_nat_def diff_less neq0_conv pending_0 zero_less_one)
  have "i = (unat (l_tail r) + (log_pending r - 1)) mod LOG_SLOTS" using newest_index [OF ne] i by simp
  note a = ring_list_amend [OF ok k this]
  have lst: "last (unread r) = entry (ring_list (as_ring r) ! (log_pending r - 1))"
    using k ne by (simp add: last_conv_nth unread_def ring_list_def)
  then show "entry (l_slots r ! i) = last (unread r)" using a(1) by simp
  show "log_ok (amend i f r)" by (rule log_ok_amend [OF ok]) (simp add: f)
  show "unread (amend i f r) = (unread r)[log_pending r - 1 := f (last (unread r))]"
    unfolding unread_def a(2) lst [unfolded unread_def] by (simp add: map_update f)
qed

lemma unread_counters [simp]: "unread (r\<lparr>coalesced := c\<rparr>) = unread r" "unread (r\<lparr>dropped := d\<rparr>) = unread r"
  "log_ok (r\<lparr>coalesced := c\<rparr>) = log_ok r" "log_ok (r\<lparr>dropped := d\<rparr>) = log_ok r"
  "newest_unread (r\<lparr>dropped := d\<rparr>) = newest_unread r" "log_pending (r\<lparr>dropped := d\<rparr>) = log_pending r"
  by (simp_all add: unread_def as_ring_def log_ok_def log_pending_def newest_unread_def)

text \<open>Pushing refines the bounded log, and every push is counted once.\<close>

lemma push_put:
  assumes ok: "log_ok r" and push: "log_push_claimed level cpu ts bytes claimed r = (r', done')"
  shows "log_ok r' \<and> put level cpu ts bytes claimed (unread r) = (unread r', done') \<and>
    dropped r' = dropped r + of_bool (\<not> done') \<and> written r' - of_nat (log_pending r') = written r - of_nat (log_pending r) \<and>
    written r' + coalesced r' = written r + coalesced r + of_bool done'"
proof (cases "l_head r = l_tail r")
  case True
  then have p: "log_pending r = 0" "unread r = []" by simp_all
  then have room: "log_pending r < LOG_SLOTS" unfolding p(1) by (simp add: LOG_SLOTS_def)
  have r': "r' = (amend (unat (l_head r) mod LOG_SLOTS) (fill level cpu ts bytes claimed) r)\<lparr>l_head := l_head r + 1, written := written r + 1\<rparr>" "done'"
    using push True room by (simp_all add: log_push_claimed_def newest_unread_def)
  from push_new [OF ok room r'(1)] have n: "log_ok r'" "unread r' = [fresh level cpu ts bytes claimed]" using p by simp_all
  then have "log_pending r' = 1" by (metis length_unread length_Cons list.size(3) One_nat_def)
  with n p room r' show ?thesis by (simp add: put_def)
next
  case ne: False
  then obtain i where i: "newest_unread r = Some i" by (simp add: newest_unread_def)
  have at: "entry (l_slots r ! i) = last (unread r)" by (rule amend_newest [OF ok ne i, where f = "\<lambda>e. e"]) simp_all
  have fold: "folds level cpu bytes claimed (l_slots r ! i) = folds level cpu bytes claimed (last (unread r))" unfolding at [symmetric] by simp
  consider "folds level cpu bytes claimed (l_slots r ! i)" | "\<not> folds level cpu bytes claimed (l_slots r ! i)" "LOG_SLOTS \<le> log_pending r"
    | "\<not> folds level cpu bytes claimed (l_slots r ! i)" "log_pending r < LOG_SLOTS" by linarith
  then show ?thesis
  proof cases
    case 1
    have "r' = (amend i (\<lambda>e. e\<lparr>repeats := sat_inc16 (repeats e)\<rparr>) r)\<lparr>coalesced := coalesced r + 1\<rparr>" "done'"
      using push 1 by (simp_all add: log_push_claimed_def i)
    with amend_newest [OF ok ne i, where f = "\<lambda>e. e\<lparr>repeats := sat_inc16 (repeats e)\<rparr>"] 1 ne show ?thesis
      by (simp add: put_def fold log_pending_def)
  next
    case 2
    have "r' = amend i (\<lambda>e. e\<lparr>lost := sat_inc16 (lost e)\<rparr>) (r\<lparr>dropped := dropped r + 1\<rparr>)" "\<not> done'"
      using push 2 by (simp_all add: log_push_claimed_def i)
    with amend_newest [of "r\<lparr>dropped := dropped r + 1\<rparr>" i "\<lambda>e. e\<lparr>lost := sat_inc16 (lost e)\<rparr>"] ok i 2 ne show ?thesis
      by (simp add: put_def fold)
  next
    case 3
    have r': "r' = (amend (unat (l_head r) mod LOG_SLOTS) (fill level cpu ts bytes claimed) r)\<lparr>l_head := l_head r + 1, written := written r + 1\<rparr>" "done'"
      using push 3 by (simp_all add: log_push_claimed_def i)
    from push_new [OF ok 3(2) r'(1)] have n: "log_ok r'" "unread r' = unread r @ [fresh level cpu ts bytes claimed]" by simp_all
    then have "log_pending r' = Suc (log_pending r)" by (metis length_unread length_append_singleton)
    with n 3 r' show ?thesis by (simp add: put_def fold)
  qed
qed

lemma log_pop_unread:
  assumes ok: "log_ok r"
  shows "l_head r = l_tail r \<Longrightarrow> log_pop r = (r, None)"
    "l_head r \<noteq> l_tail r \<Longrightarrow> \<exists>e. log_peek r = Some e \<and> log_pop r = (r\<lparr>l_tail := l_tail r + 1\<rparr>, Some e) \<and>
       log_ok (r\<lparr>l_tail := l_tail r + 1\<rparr>) \<and> unread r = entry e # unread (r\<lparr>l_tail := l_tail r + 1\<rparr>)"
proof -
  show "l_head r = l_tail r \<Longrightarrow> log_pop r = (r, None)" by (simp add: log_pop_def)
  assume ne: "l_head r \<noteq> l_tail r"
  let ?r = "r\<lparr>l_tail := l_tail r + 1\<rparr>"
  have len: "length (l_slots r) = LOG_SLOTS" using ok by (simp add: log_ok_def)
  have view: "as_ring ?r = (as_ring r)\<lparr>rtail := rtail (as_ring r) + 1\<rparr>" by (simp add: as_ring_def)
  have "unread r = entry (l_slots r ! (unat (l_tail r) mod LOG_SLOTS)) # unread ?r"
    using ring_list_release [of "as_ring r"] ne by (simp add: unread_def len view)
  moreover have "log_ok ?r" using ok pending_pop [OF ne] by (auto simp: log_ok_def)
  ultimately show "\<exists>e. log_peek r = Some e \<and> log_pop r = (?r, Some e) \<and> log_ok ?r \<and> unread r = entry e # unread ?r"
    using ne by (simp add: log_peek_def log_pop_def)
qed

section \<open>Every message is accounted for\<close>

text \<open>
  The messages offered to a ring, each with the answer it got. A run of them stands behind one record: the first one is the record,
  the accepted ones after it are its repeats, the refused ones its losses.
\<close>

type_synonym log_msg = "level \<times> u16 \<times> u64 \<times> u8 list \<times> nat"

definition same_line :: "log_msg \<Rightarrow> log_msg \<Rightarrow> bool" where
  "same_line = (\<lambda>(l, c, _, b, cl) (l', c', _, b', cl'). l = l' \<and> c = c' \<and> take PAYLOAD_MAX b = take PAYLOAD_MAX b' \<and> cl \<le> PAYLOAD_MAX \<and> cl' \<le> PAYLOAD_MAX)"

definition stands_for :: "log_msg \<Rightarrow> log_record \<Rightarrow> bool" where
  "stands_for = (\<lambda>(l, c, ts, b, cl) e. l_level e = l \<and> l_cpu e = c \<and> ts_ns e = ts \<and> record_bytes e = take PAYLOAD_MAX b \<and> truncated e = (PAYLOAD_MAX < cl))"

definition seg_ok :: "(log_msg \<times> bool) list \<Rightarrow> log_record \<Rightarrow> bool" where
  "seg_ok seg e \<longleftrightarrow> (\<exists>m rest. seg = (m, True) # rest \<and> stands_for m e \<and> list_all (same_line m \<circ> fst) (filter snd rest) \<and>
     unat (repeats e) = min 0xFFFF (length (filter snd rest)) \<and> unat (lost e) = min 0xFFFF (length (filter (Not \<circ> snd) rest)))"

lemma record_bytes_upd [simp]: "record_bytes (e\<lparr>repeats := n\<rparr>) = record_bytes e" "record_bytes (e\<lparr>lost := n\<rparr>) = record_bytes e"
  by (simp_all add: record_bytes_def)

lemma folds_same_line:
  assumes "folds l c b cl e" and "stands_for m e"
  shows "same_line m (l, c, ts, b, cl)"
proof -
  let ?n = "min (length b) PAYLOAD_MAX"
  have "unat (l_len e) = ?n" "take ?n (payload e) = take ?n b" using assms(1) by (auto simp: folds_def Let_def)
  then have "record_bytes e = take PAYLOAD_MAX b" by (auto simp: record_bytes_def min_def)
  with assms show ?thesis by (auto simp: folds_def Let_def same_line_def stands_for_def)
qed

lemma seg_repeat:
  assumes seg: "seg_ok seg e" and f: "folds l c b cl e"
  shows "seg_ok (seg @ [((l, c, ts, b, cl), True)]) (e\<lparr>repeats := sat_inc16 (repeats e)\<rparr>)"
proof -
  from seg obtain m rest where s: "seg = (m, True) # rest" "stands_for m e" "list_all (same_line m \<circ> fst) (filter snd rest)"
    "unat (repeats e) = min 0xFFFF (length (filter snd rest))" "unat (lost e) = min 0xFFFF (length (filter (Not \<circ> snd) rest))"
    unfolding seg_ok_def by blast
  have "stands_for m (e\<lparr>repeats := sat_inc16 (repeats e)\<rparr>)" using s(2) by (auto simp: stands_for_def)
  then show ?thesis unfolding seg_ok_def using s folds_same_line [OF f s(2)]
    by (intro exI [of _ m] exI [of _ "rest @ [((l, c, ts, b, cl), True)]"]) (simp add: unat_sat_inc16)
qed

lemma seg_lost:
  assumes seg: "seg_ok seg e"
  shows "seg_ok (seg @ [(m', False)]) (e\<lparr>lost := sat_inc16 (lost e)\<rparr>)"
proof -
  from seg obtain m rest where s: "seg = (m, True) # rest" "stands_for m e" "list_all (same_line m \<circ> fst) (filter snd rest)"
    "unat (repeats e) = min 0xFFFF (length (filter snd rest))" "unat (lost e) = min 0xFFFF (length (filter (Not \<circ> snd) rest))"
    unfolding seg_ok_def by blast
  have "stands_for m (e\<lparr>lost := sat_inc16 (lost e)\<rparr>)" using s(2) by (auto simp: stands_for_def)
  then show ?thesis unfolding seg_ok_def using s
    by (intro exI [of _ m] exI [of _ "rest @ [(m', False)]"]) (simp add: unat_sat_inc16)
qed

lemma seg_fresh: "seg_ok [((l, c, ts, b, cl), True)] (fresh l c ts b cl)"
proof -
  have "unat (of_nat (min (length b) PAYLOAD_MAX) :: u16) = min (length b) PAYLOAD_MAX"
    by (simp add: unsigned_of_nat take_bit_nat_eq_self PAYLOAD_MAX_def)
  moreover have "take (min (length b) PAYLOAD_MAX) b = take PAYLOAD_MAX b" by (simp add: min_def)
  ultimately show ?thesis by (simp add: seg_ok_def stands_for_def fresh_def record_bytes_def)
qed

lemma put_segs:
  assumes segs: "list_all2 seg_ok segs (old @ q)" and put: "put l c ts b cl q = (q', ok)"
  shows "\<exists>segs'. concat segs' = concat segs @ [((l, c, ts, b, cl), ok)] \<and> list_all2 seg_ok segs' (old @ q')"
proof -
  let ?m = "(l, c, ts, b, cl)"
  have amend: "\<exists>segs'. concat segs' = concat segs @ [(?m, ok)] \<and> list_all2 seg_ok segs' (old @ q[length q - 1 := f (last q)])"
    if "q \<noteq> []" and step: "\<And>seg. seg_ok seg (last q) \<Longrightarrow> seg_ok (seg @ [(?m, ok)]) (f (last q))" for f
  proof -
    from \<open>q \<noteq> []\<close> obtain q0 e where q: "q = q0 @ [e]" by (metis rev_exhaust)
    from segs obtain s0 s where s: "segs = s0 @ [s]" "list_all2 seg_ok s0 (old @ q0)" "seg_ok s e"
      unfolding q append_assoc [symmetric] list_all2_append2 by (auto simp: list_all2_Cons2)
    have "list_all2 seg_ok (s0 @ [s @ [(?m, ok)]]) ((old @ q0) @ [f e])" by (rule list_all2_appendI [OF s(2)]) (use step [of s] s(3) q in simp)
    then show ?thesis using s(1) by (intro exI [of _ "s0 @ [s @ [(?m, ok)]]"]) (simp add: q)
  qed
  have pos: "0 < LOG_SLOTS" by (simp add: LOG_SLOTS_def)
  consider (rep) "q \<noteq> []" "folds l c b cl (last q)" "q' = q[length q - 1 := (last q)\<lparr>repeats := sat_inc16 (repeats (last q))\<rparr>]" "ok"
    | (los) "q \<noteq> []" "q' = q[length q - 1 := (last q)\<lparr>lost := sat_inc16 (lost (last q))\<rparr>]" "\<not> ok"
    | (new) "q' = q @ [fresh l c ts b cl]" "ok"
    using put pos by (cases "q = []") (auto simp: put_def split: if_splits)
  then show ?thesis
  proof cases
    case rep
    with amend [of "\<lambda>e. e\<lparr>repeats := sat_inc16 (repeats e)\<rparr>"] seg_repeat [OF _ rep(2)] show ?thesis by simp
  next
    case los
    with amend [of "\<lambda>e. e\<lparr>lost := sat_inc16 (lost e)\<rparr>"] seg_lost show ?thesis by simp
  next
    case new
    with segs seg_fresh show ?thesis unfolding append_assoc [symmetric] new(1)
      by (intro exI [of _ "segs @ [[(?m, True)]]"]) (simp add: list_all2_appendI del: append_assoc)
  qed
qed

text \<open>A ring, the messages offered to it with their answers, and the records taken from it.\<close>

type_synonym log_hist = "log_ring \<times> (log_msg \<times> bool) list \<times> log_record list"

datatype log_op = LPush level u16 u64 "u8 list" nat | LPop

fun log_step :: "log_hist \<Rightarrow> log_op \<Rightarrow> log_hist" where
  "log_step (r, offered, taken) (LPush l c ts b cl) = (let (r', ok) = log_push_claimed l c ts b cl r in (r', offered @ [((l, c, ts, b, cl), ok)], taken))"
| "log_step (r, offered, taken) LPop = (case log_pop r of (r', None) \<Rightarrow> (r', offered, taken) | (r', Some e) \<Rightarrow> (r', offered, taken @ [entry e]))"

definition accounted :: "log_hist \<Rightarrow> bool" where
  "accounted = (\<lambda>(r, offered, taken). log_ok r \<and> (\<exists>segs. concat segs = offered \<and> list_all2 seg_ok segs (taken @ unread r)) \<and>
     dropped r = of_nat (length (filter (Not \<circ> snd) offered)) \<and> written r = of_nat (length taken + log_pending r) \<and>
     written r + coalesced r = of_nat (length (filter snd offered)))"

lemma accounted_step:
  assumes "accounted s"
  shows "accounted (log_step s x)"
proof -
  obtain r offered taken where s: "s = (r, offered, taken)" by (rule prod_cases3)
  with assms obtain segs where a: "log_ok r" "concat segs = offered" "list_all2 seg_ok segs (taken @ unread r)"
    "dropped r = of_nat (length (filter (Not \<circ> snd) offered))" "written r = of_nat (length taken + log_pending r)"
    "written r + coalesced r = of_nat (length (filter snd offered))" by (auto simp: accounted_def)
  show ?thesis
  proof (cases x)
    case (LPush l c ts b cl)
    obtain r' ok where push: "log_push_claimed l c ts b cl r = (r', ok)" by force
    from push_put [OF a(1) push] have p: "log_ok r'" "put l c ts b cl (unread r) = (unread r', ok)" "dropped r' = dropped r + of_bool (\<not> ok)"
      "written r' - of_nat (log_pending r') = written r - of_nat (log_pending r)" "written r' + coalesced r' = written r + coalesced r + of_bool ok" by blast+
    from put_segs [OF a(3) p(2)] a(2) have "\<exists>segs'. concat segs' = offered @ [((l, c, ts, b, cl), ok)] \<and> list_all2 seg_ok segs' (taken @ unread r')" by simp
    moreover have "written r' = of_nat (length taken + log_pending r')" using p(4) a(5) by (simp add: algebra_simps)
    ultimately show ?thesis using p(1,3,5) a(4,6) unfolding s LPush log_step.simps push accounted_def by simp
  next
    case LPop
    show ?thesis
    proof (cases "l_head r = l_tail r")
      case True
      then show ?thesis using assms log_pop_unread(1) [OF a(1)] by (simp add: s LPop)
    next
      case False
      let ?r = "r\<lparr>l_tail := l_tail r + 1\<rparr>"
      from log_pop_unread(2) [OF a(1) False] obtain e where e: "log_pop r = (?r, Some e)" "log_ok ?r" "unread r = entry e # unread ?r" by blast
      have "log_pending r = Suc (log_pending ?r)" using e(3) by (metis length_unread length_Cons)
      with e a show ?thesis unfolding s LPop log_step.simps accounted_def by auto
    qed
  qed
qed

interpretation lm: machine log_step "\<lambda>_ _. True" accounted
  by unfold_locales (rule accounted_step)

lemma unread_start: "log_ok (seek_for_test c c RING_EMPTY)" "unread (seek_for_test c c RING_EMPTY) = []"
  by (auto simp: log_ok_def seek_for_test_def RING_EMPTY_def RECORD_EMPTY_def)

section \<open>Properties\<close>

text \<open>
  C29: a log ring loses nothing silently. Wherever its 32-bit counters start, after any sequence of pushes and pops the messages offered to it can be cut into consecutive
  runs, one for each record taken from it or still in it, in order: the first message of a run was accepted and is the record (its time, level, processor, first 96 bytes, and whether there
  were more), the other accepted ones repeat it and their number is \<open>repeats\<close>, the number of refused ones is \<open>lost\<close> (both saturate at 65535). The ring's counters of
  written, dropped and folded messages are exact modulo their width. A push is refused exactly when 64 records are unread and the message does not repeat the newest one.
\<close>

theorem log_accounts:
  fixes c :: u32
  shows "case run_ops log_step (seek_for_test c c RING_EMPTY, [], []) ops of (r, offered, taken) \<Rightarrow>
     (\<exists>segs. concat segs = offered \<and>
        list_all2 (\<lambda>seg e. \<exists>m rest. seg = (m, True) # rest \<and> stands_for m e \<and> list_all (same_line m \<circ> fst) (filter snd rest) \<and>
          unat (repeats e) = min 0xFFFF (length (filter snd rest)) \<and> unat (lost e) = min 0xFFFF (length (filter (Not \<circ> snd) rest)))
        segs (taken @ unread r)) \<and>
     ring_counters r = (of_nat (length taken + log_pending r), of_nat (length (filter (Not \<circ> snd) offered)),
                        of_nat (length (filter snd offered)) - of_nat (length taken + log_pending r)) \<and>
     log_pending r \<le> LOG_SLOTS \<and>
     (\<forall>l cpu ts b cl. snd (log_push_claimed l cpu ts b cl r) \<longleftrightarrow> log_pending r < LOG_SLOTS \<or> folds l cpu b cl (last (unread r)))"
proof -
  let ?s = "(seek_for_test c c RING_EMPTY, [], [])"
  obtain r offered taken where run: "run_ops log_step ?s ops = (r, offered, taken)" by (rule prod_cases3)
  have "l_head (fst ?s) = l_tail (fst ?s) \<and> dropped (fst ?s) = 0 \<and> written (fst ?s) = 0 \<and> coalesced (fst ?s) = 0"
    by (simp add: seek_for_test_def RING_EMPTY_def)
  then have "accounted ?s" using unread_start [of c] by (simp add: accounted_def exI [of _ "[]"])
  then have "accounted (run_ops log_step ?s ops)" by (rule lm.run_inv) simp
  then have a: "log_ok r" "\<exists>segs. concat segs = offered \<and> list_all2 seg_ok segs (taken @ unread r)"
    "dropped r = of_nat (length (filter (Not \<circ> snd) offered))" "written r = of_nat (length taken + log_pending r)"
    "written r + coalesced r = of_nat (length (filter snd offered))" unfolding run accounted_def prod.case by blast+
  have push: "snd (log_push_claimed l cpu ts b cl r) \<longleftrightarrow> log_pending r < LOG_SLOTS \<or> folds l cpu b cl (last (unread r))" for l cpu ts b cl
  proof -
    obtain r' ok where p: "log_push_claimed l cpu ts b cl r = (r', ok)" by force
    have "put l cpu ts b cl (unread r) = (unread r', ok)" using push_put [OF a(1) p] by blast
    moreover have "0 < LOG_SLOTS" by (simp add: LOG_SLOTS_def)
    ultimately show ?thesis using p by (auto simp: put_def not_less split: if_splits)
  qed
  have "coalesced r = of_nat (length (filter snd offered)) - of_nat (length taken + log_pending r)" using a(4,5) by (simp add: algebra_simps)
  then show ?thesis unfolding run using a push by (simp add: ring_counters_def log_ok_def seg_ok_def [abs_def])
qed

section \<open>The merge of all rings\<close>

definition earlier :: "log_record \<Rightarrow> log_record \<Rightarrow> bool" where
  "earlier a b \<longleftrightarrow> ts_ns a < ts_ns b \<or> ts_ns a = ts_ns b \<and> l_cpu a \<le> l_cpu b"

definition own_ring :: "nat \<Rightarrow> log_ring \<Rightarrow> bool" where
  "own_ring i r \<longleftrightarrow> log_ok r \<and> (\<forall>e \<in> set (unread r). unat (l_cpu e) = i) \<and> sorted (map ts_ns (unread r))"

definition rings_ok :: "log_rings \<Rightarrow> bool" where
  "rings_ok s \<longleftrightarrow> length (rings s) = MAX_RING_CPUS \<and> (\<forall>i < MAX_RING_CPUS. own_ring i (rings s ! i))"

lemma rings_okD: "rings_ok s \<Longrightarrow> i < MAX_RING_CPUS \<Longrightarrow> own_ring i (rings s ! i)" "rings_ok s \<Longrightarrow> length (rings s) = MAX_RING_CPUS"
  by (simp_all add: rings_ok_def)

lemma rings_ok_upd:
  assumes "rings_ok s" and "own_ring i r"
  shows "rings_ok (s\<lparr>rings := (rings s)[i := r]\<rparr>)"
proof -
  have "own_ring j ((rings s)[i := r] ! j)" if "j < MAX_RING_CPUS" for j
    using assms that by (cases "j = i") (simp_all add: rings_ok_def)
  then show ?thesis using assms(1) by (simp add: rings_ok_def)
qed

lemma own_ring_pop:
  assumes own: "own_ring i r" and e: "log_peek r = Some e"
  shows "own_ring i (r\<lparr>l_tail := l_tail r + 1\<rparr>)" "unread r = entry e # unread (r\<lparr>l_tail := l_tail r + 1\<rparr>)" "unat (l_cpu e) = i"
    "\<And>x. x \<in> set (unread r) \<Longrightarrow> ts_ns e \<le> ts_ns x"
proof -
  have "l_head r \<noteq> l_tail r" using e by (auto simp: log_peek_def)
  with log_pop_unread(2) [of r] own e have u: "log_ok (r\<lparr>l_tail := l_tail r + 1\<rparr>)" "unread r = entry e # unread (r\<lparr>l_tail := l_tail r + 1\<rparr>)"
    by (auto simp: own_ring_def)
  then show "own_ring i (r\<lparr>l_tail := l_tail r + 1\<rparr>)" "unread r = entry e # unread (r\<lparr>l_tail := l_tail r + 1\<rparr>)" "unat (l_cpu e) = i"
    "\<And>x. x \<in> set (unread r) \<Longrightarrow> ts_ns e \<le> ts_ns x"
    using own by (auto simp: own_ring_def)
qed

text \<open>The drain empties every ring, gives each its own records back in order, and puts all of them in order of time and processor.\<close>

lemma drain_merges:
  "rings_ok s \<Longrightarrow> drain_rings s = (s', recs) \<Longrightarrow>
     (\<forall>i < MAX_RING_CPUS. unread (rings s' ! i) = [] \<and> filter (\<lambda>e. unat (l_cpu e) = i) (map entry recs) = unread (rings s ! i)) \<and>
     (\<forall>e \<in> set recs. unat (l_cpu e) < MAX_RING_CPUS) \<and> sorted_wrt earlier recs \<and> rings_ok s'"
proof (induction s arbitrary: recs rule: drain_rings.induct)
  case (1 s)
  note ok = \<open>rings_ok s\<close>
  note len = rings_okD(2) [OF ok]
  show ?case
  proof (cases s rule: pop_oldest_cases)
    case empty
    have "drain_rings s = (s, [])" by (subst drain_rings.simps) (simp add: empty(1))
    then have "s' = s" "recs = []" using "1.prems"(2) by simp_all
    moreover have "unread (rings s ! i) = []" if "i < MAX_RING_CPUS" for i
      using empty(2) [of i] that len length_unread [of "rings s ! i"] by (metis length_0_conv)
    ultimately show ?thesis using ok by (simp del: unread_Nil)
  next
    case (taken i e)
    let ?r = "(rings s ! i)\<lparr>l_tail := l_tail (rings s ! i) + 1\<rparr>"
    define s1 where "s1 = s\<lparr>rings := (rings s)[i := ?r]\<rparr>"
    have "drain_rings s = (let (s2, recs) = drain_rings s1 in (s2, e # recs))" by (subst drain_rings.simps) (simp add: taken(3) s1_def)
    with "1.prems"(2) obtain recs1 where d: "drain_rings s1 = (s', recs1)" "recs = e # recs1" by (cases "drain_rings s1") simp
    have i: "i < MAX_RING_CPUS" using taken(1) len by simp
    note own = own_ring_pop [OF rings_okD(1) [OF ok i] taken(2)]
    have ok1: "rings_ok s1" unfolding s1_def by (rule rings_ok_upd [OF ok own(1)])
    from "1.IH" [OF taken(3) [folded s1_def, symmetric] _ ok1 d(1)]
    have IH: "\<And>j. j < MAX_RING_CPUS \<Longrightarrow> unread (rings s' ! j) = []"
      "\<And>j. j < MAX_RING_CPUS \<Longrightarrow> filter (\<lambda>e. unat (l_cpu e) = j) (map entry recs1) = unread (rings s1 ! j)"
      "\<And>e. e \<in> set recs1 \<Longrightarrow> unat (l_cpu e) < MAX_RING_CPUS" "sorted_wrt earlier recs1" "rings_ok s'" by simp_all
    have ring1: "unread (rings s1 ! j) = (if j = i then unread ?r else unread (rings s ! j))" if "j < MAX_RING_CPUS" for j
      using that len by (simp add: s1_def nth_list_update)
    have returned: "filter (\<lambda>e. unat (l_cpu e) = j) (map entry recs) = unread (rings s ! j)" if "j < MAX_RING_CPUS" for j
      using IH(2) [OF that] ring1 [OF that] own(2,3) by (auto simp: d(2))
    have first: "earlier e x" if x: "x \<in> set recs1" for x
    proof -
      define j where "j = unat (l_cpu x)"
      have j: "j < MAX_RING_CPUS" using IH(3) [OF x] by (simp add: j_def)
      have "entry x \<in> set (filter (\<lambda>e. unat (l_cpu e) = j) (map entry recs))" using x by (simp add: d(2) j_def)
      then have xs: "entry x \<in> set (unread (rings s ! j))" using returned [OF j] by simp
      then have "l_head (rings s ! j) \<noteq> l_tail (rings s ! j)" unfolding unread_Nil [symmetric] by (metis empty_iff list.set(1))
      then obtain h where h: "log_peek (rings s ! j) = Some h" by (simp add: log_peek_def)
      have "ts_ns h \<le> ts_ns x" using own_ring_pop(4) [OF rings_okD(1) [OF ok j] h xs] by simp
      moreover have "ts_ns e \<le> ts_ns h \<and> (j < i \<longrightarrow> ts_ns e < ts_ns h)" using taken(4) [OF _ h] j len by simp
      moreover have "l_cpu e \<le> l_cpu x \<longleftrightarrow> \<not> j < i" using own(3) by (simp add: j_def word_le_nat_alt not_less)
      ultimately show ?thesis unfolding earlier_def by (cases "j < i") auto
    qed
    show ?thesis using IH first returned own(3) i by (auto simp: d(2))
  qed
qed

text \<open>Everything that happens to the rings. The clock of a processor does not run behind the records it has written.\<close>

datatype rings_op = RPush level u16 u64 "u8 list" nat | RTake | RWrite "u8 list list" u16 u64 | RFlush | RBuffered bool | RThreshold level | RReset

fun rings_step :: "log_rings \<Rightarrow> rings_op \<Rightarrow> log_rings" where
  "rings_step s (RPush l c ts b cl) = fst (rings_push_claimed l c ts b cl s)"
| "rings_step s RTake = fst (pop_oldest s)"
| "rings_step s (RWrite pieces c now) = fst (console_write pieces c now s)"
| "rings_step s RFlush = fst (flush s)"
| "rings_step s (RBuffered on) = set_buffered on s"
| "rings_step s (RThreshold l) = set_threshold l s"
| "rings_step s RReset = rings_reset s"

definition clock_after :: "log_rings \<Rightarrow> u16 \<Rightarrow> u64 \<Rightarrow> bool" where
  "clock_after s c ts \<longleftrightarrow> (unat c < length (rings s) \<longrightarrow> list_all (\<lambda>e. ts_ns e \<le> ts) (unread (rings s ! unat c)))"

fun rings_pre :: "log_rings \<Rightarrow> rings_op \<Rightarrow> bool" where
  "rings_pre s (RPush l c ts b cl) = clock_after s c ts"
| "rings_pre s (RWrite pieces c now) = clock_after s c now"
| "rings_pre s _ = True"

lemma put_own:
  assumes "put l c ts b cl q = (q', ok)" and "\<forall>e \<in> set q. unat (l_cpu e) = unat c \<and> ts_ns e \<le> ts" and "sorted (map ts_ns q)"
  shows "(\<forall>e \<in> set q'. unat (l_cpu e) = unat c) \<and> sorted (map ts_ns q')"
proof -
  have upd: "(\<forall>e \<in> set (q[length q - 1 := x]). unat (l_cpu e) = unat c) \<and> sorted (map ts_ns (q[length q - 1 := x]))"
    if "q \<noteq> []" "l_cpu x = l_cpu (last q)" "ts_ns x = ts_ns (last q)" for x
  proof -
    from \<open>q \<noteq> []\<close> obtain q0 e where "q = q0 @ [e]" by (metis rev_exhaust)
    with assms that show ?thesis by (auto simp: sorted_append)
  qed
  have pos: "q = [] \<Longrightarrow> \<not> LOG_SLOTS \<le> length q" by (simp add: LOG_SLOTS_def)
  consider "q \<noteq> []" "q' = q[length q - 1 := (last q)\<lparr>repeats := sat_inc16 (repeats (last q))\<rparr>]"
    | "q \<noteq> []" "q' = q[length q - 1 := (last q)\<lparr>lost := sat_inc16 (lost (last q))\<rparr>]" | "q' = q @ [fresh l c ts b cl]"
    using assms(1) pos by (cases "q = []") (auto simp: put_def split: if_splits)
  then show ?thesis
  proof cases
    case 1
    show ?thesis unfolding 1(2) by (rule upd [OF 1(1)]) simp_all
  next
    case 2
    show ?thesis unfolding 2(2) by (rule upd [OF 2(1)]) simp_all
  next
    case 3
    then show ?thesis using assms by (auto simp: sorted_append fresh_def)
  qed
qed

lemma own_ring_push:
  assumes own: "own_ring i r" and push: "log_push_claimed l c ts b cl r = (r', ok)" and i: "unat c = i" and ts: "list_all (\<lambda>e. ts_ns e \<le> ts) (unread r)"
  shows "own_ring i r'"
proof -
  have o: "log_ok r" "\<forall>e \<in> set (unread r). unat (l_cpu e) = unat c \<and> ts_ns e \<le> ts" "sorted (map ts_ns (unread r))"
    using own i ts by (auto simp: own_ring_def list_all_iff)
  from push_put [OF o(1) push] have p: "log_ok r'" "put l c ts b cl (unread r) = (unread r', ok)" by blast+
  with put_own [OF p(2) o(2,3)] show ?thesis using i by (simp add: own_ring_def)
qed

lemma rings_ok_push:
  assumes ok: "rings_ok s" and ts: "clock_after s c ts"
  shows "rings_ok (fst (rings_push_claimed l c ts b cl s))"
proof -
  have 0: "0 < MAX_RING_CPUS" by (simp add: MAX_RING_CPUS_def)
  have len: "length (rings s) = MAX_RING_CPUS" by (rule rings_okD(2) [OF ok])
  obtain r' d where push: "log_push_claimed l c ts b cl (rings s ! unat c) = (r', d)" by force
  have "own_ring 0 (rings s ! 0)" by (rule rings_okD(1) [OF ok 0])
  then have "own_ring 0 ((rings s ! 0)\<lparr>dropped := n\<rparr>)" for n by (simp add: own_ring_def)
  then have drop: "rings_ok (s\<lparr>rings := (rings s)[0 := (rings s ! 0)\<lparr>dropped := n\<rparr>]\<rparr>)" for n by (rule rings_ok_upd [OF ok])
  have "rings_ok (s\<lparr>rings := (rings s)[unat c := r']\<rparr>)" if c: "unat c < MAX_RING_CPUS"
    by (rule rings_ok_upd [OF ok own_ring_push [OF rings_okD(1) [OF ok c] push refl]]) (use ts c len in \<open>simp add: clock_after_def\<close>)
  moreover have "rings_ok (s\<lparr>bypassed := n\<rparr>)" for n using ok by (simp add: rings_ok_def)
  ultimately show ?thesis using ok drop len push by (simp add: rings_push_claimed_def)
qed

lemma rings_ok_empty: "rings_ok RINGS_EMPTY" "i < MAX_RING_CPUS \<Longrightarrow> unread (rings RINGS_EMPTY ! i) = []"
  by (simp_all add: rings_ok_def RINGS_EMPTY_def own_ring_def log_ok_def RING_EMPTY_def RECORD_EMPTY_def unread_def ring_list_def)

lemma own_ring_reset: "own_ring i r \<Longrightarrow> own_ring i (log_reset r)"
  by (auto simp: own_ring_def log_ok_def log_reset_def unread_def ring_list_def)

lemma rings_ok_step:
  assumes ok: "rings_ok s" and pre: "rings_pre s x"
  shows "rings_ok (rings_step s x)"
proof (cases x)
  case RTake
  show ?thesis
  proof (cases s rule: pop_oldest_cases)
    case (taken i e)
    then show ?thesis using RTake rings_ok_upd [OF ok own_ring_pop(1)] rings_okD [OF ok] by simp
  qed (use ok RTake in simp)
next
  case RFlush
  obtain s' recs where "drain_rings s = (s', recs)" by force
  with drain_merges [OF ok this] show ?thesis by (simp add: RFlush flush_def)
next
  case (RWrite pieces c now)
  then show ?thesis using ok rings_ok_push pre by (simp add: console_write_def split: prod.split)
next
  case RReset
  then show ?thesis using ok own_ring_reset by (simp add: rings_reset_def rings_ok_def)
qed (use ok rings_ok_push pre in \<open>simp_all add: set_buffered_def set_threshold_def rings_ok_def\<close>)

interpretation rgm: machine rings_step rings_pre rings_ok
  by unfold_locales (rule rings_ok_step)

text \<open>
  C30: a flush terminates and prints every buffered record exactly once. Whatever the processors have logged, written to the console, taken or reset before, and for any setting of
  the flag and the threshold, provided no processor's clock runs behind its own unread records, \<open>flush\<close> leaves every ring empty and sends the renderings
  of a list of records that restricted to one processor is what its ring held, in that order, and that as a whole is ordered by time stamp, ties by processor.
\<close>

theorem flush_merges:
  assumes run: "ok_run rings_step rings_pre RINGS_EMPTY ops" and s: "s = run_ops rings_step RINGS_EMPTY ops"
  shows "\<exists>recs. snd (flush s) = concat (map render recs) \<and> sorted_wrt earlier recs \<and> list_all (\<lambda>e. unat (l_cpu e) < MAX_RING_CPUS) recs \<and>
    list_all (\<lambda>i. filter (\<lambda>e. unat (l_cpu e) = i) recs = unread (rings s ! i) \<and> unread (rings (fst (flush s)) ! i) = []) [0..<MAX_RING_CPUS]"
proof -
  have ok: "rings_ok s" unfolding s by (rule rgm.run_inv [OF rings_ok_empty(1) run])
  obtain s' recs where d: "drain_rings s = (s', recs)" by force
  have "concat (map render (map entry recs)) = concat (map render recs)" by (induction recs) simp_all
  moreover have "sorted_wrt earlier (map entry recs) = sorted_wrt earlier recs" by (simp add: sorted_wrt_map earlier_def [abs_def])
  ultimately show ?thesis using drain_merges [OF ok d]
    by (intro exI [of _ "map entry recs"]) (simp add: flush_def d list_all_iff del: unread_Nil)
qed

theorem flush_merges_witness:
  "\<exists>recs. snd (flush (run_ops rings_step RINGS_EMPTY [RBuffered True, RWrite [[65], [66]] 1 5, RWrite [[67]] 0 3])) = concat (map render recs) \<and> sorted_wrt earlier recs \<and>
     list_all (\<lambda>e. unat (l_cpu e) < MAX_RING_CPUS) recs \<and>
     list_all (\<lambda>i. filter (\<lambda>e. unat (l_cpu e) = i) recs = unread (rings (run_ops rings_step RINGS_EMPTY [RBuffered True, RWrite [[65], [66]] 1 5, RWrite [[67]] 0 3]) ! i) \<and>
       unread (rings (fst (flush (run_ops rings_step RINGS_EMPTY [RBuffered True, RWrite [[65], [66]] 1 5, RWrite [[67]] 0 3]))) ! i) = []) [0..<MAX_RING_CPUS]"
proof (rule flush_merges [OF _ refl])
  show "ok_run rings_step rings_pre RINGS_EMPTY [RBuffered True, RWrite [[65], [66]] 1 5, RWrite [[67]] 0 3]" by code_simp
qed

text \<open>The number in a note reads back, and the buffer of twenty digits is enough for every 64-bit value.\<close>

definition read_decimal :: "u8 list \<Rightarrow> nat" where
  "read_decimal ds = foldl (\<lambda>v d. 10 * v + (unat d - 48)) 0 ds"

declare decimal.simps [simp del]

lemma decimal_eq: "decimal n ds = (if n < 10 then [] else decimal (n div 10) []) @ (48 + of_nat (n mod 10)) # ds"
proof (induction n arbitrary: ds rule: less_induct)
  case (less n)
  show ?case
  proof (cases "n < 10")
    case True
    then show ?thesis by (simp add: decimal.simps [of n])
  next
    case False
    then have m: "n div 10 < n" "n div 10 \<noteq> 0" by (simp_all add: div_eq_0_iff)
    then have "decimal n ds = decimal (n div 10) ((48 + of_nat (n mod 10)) # ds)" by (subst decimal.simps) (simp add: Let_def)
    also have "\<dots> = decimal (n div 10) [] @ (48 + of_nat (n mod 10)) # ds" using less [OF m(1)] by simp
    finally show ?thesis using False by simp
  qed
qed

lemma digit_value: "k < 10 \<Longrightarrow> unat (48 + of_nat k :: u8) - 48 = k"
proof -
  assume k: "k < 10"
  then have "unat (of_nat k :: u8) = k" by (simp add: unsigned_of_nat take_bit_nat_eq_self)
  with k show ?thesis by (simp add: unat_word_ariths)
qed

lemma decimal_reads_back: "read_decimal (decimal n []) = n"
proof (induction n rule: less_induct)
  case (less n)
  show ?case
  proof (cases "n < 10")
    case True
    then show ?thesis by (simp add: decimal_eq [of n] read_decimal_def digit_value)
  next
    case False
    then have "read_decimal (decimal (n div 10) []) = n div 10" by (intro less) simp
    with False show ?thesis by (simp add: decimal_eq [of n] read_decimal_def digit_value)
  qed
qed

lemma decimal_length: "n < 10 ^ k \<Longrightarrow> 0 < k \<Longrightarrow> length (decimal n []) \<le> k"
proof (induction k arbitrary: n)
  case (Suc k)
  show ?case
  proof (cases "n < 10")
    case True
    then show ?thesis by (simp add: decimal_eq [of n])
  next
    case False
    then have "k \<noteq> 0" using Suc.prems(1) by (cases k) auto
    moreover have "n div 10 < 10 ^ k" using Suc.prems(1) by (simp add: div_less_iff_less_mult mult.commute)
    ultimately show ?thesis using Suc.IH [of "n div 10"] False by (simp add: decimal_eq [of n])
  qed
qed simp

lemma note_fits: "length (decimal (unat (v :: u64)) []) \<le> 20"
  by (rule decimal_length) (use unsigned_less [of v, where 'a = nat] in simp_all)

section \<open>Buffered and direct output\<close>

lemma buffered_write_str_take:
  "length buf \<le> PAYLOAD_MAX \<Longrightarrow> buffered_write_str (buf, over) bs = (take PAYLOAD_MAX (buf @ bs), over \<or> PAYLOAD_MAX < length buf + length bs)"
  by (induction "(buf, over)" bs arbitrary: buf rule: buffered_write_str.induct) auto

lemma buffered_pieces:
  "length buf \<le> PAYLOAD_MAX \<Longrightarrow> foldl buffered_write_str (buf, over) pieces =
     (take PAYLOAD_MAX (buf @ concat pieces), over \<or> PAYLOAD_MAX < length buf + length (concat pieces))"
proof (induction pieces arbitrary: buf over)
  case (Cons p pieces)
  let ?b = "take PAYLOAD_MAX (buf @ p)" and ?o = "over \<or> PAYLOAD_MAX < length buf + length p"
  have "foldl buffered_write_str (buf, over) (p # pieces) = foldl buffered_write_str (?b, ?o) pieces"
    using buffered_write_str_take [OF Cons.prems] by simp
  also have "\<dots> = (take PAYLOAD_MAX (?b @ concat pieces), ?o \<or> PAYLOAD_MAX < length ?b + length (concat pieces))"
    by (rule Cons.IH) simp
  also have "\<dots> = (take PAYLOAD_MAX (buf @ concat (p # pieces)), over \<or> PAYLOAD_MAX < length buf + length (concat (p # pieces)))"
    by (cases "length buf + length p \<le> PAYLOAD_MAX") (auto simp: min_def)
  finally show ?case .
qed simp

lemma serial_bytes_append: "serial_bytes (xs @ ys) = serial_bytes xs @ serial_bytes ys"
  by (induction xs) simp_all

lemma serial_bytes_concat: "concat (map serial_bytes pieces) = serial_bytes (concat pieces)"
  by (induction pieces) (simp_all add: serial_bytes_append)

lemma render_fresh: "length b \<le> PAYLOAD_MAX \<Longrightarrow> render (fresh l c ts b (length b)) = serial_bytes b"
proof -
  assume b: "length b \<le> PAYLOAD_MAX"
  then have "unat (of_nat (length b) :: u16) = length b" by (simp add: unsigned_of_nat take_bit_nat_eq_self PAYLOAD_MAX_def)
  with b show ?thesis by (simp add: render_def fresh_def record_bytes_def min_absorb1)
qed

text \<open>One processor writes a sequence of messages, each with its clock reading.\<close>

definition write_all :: "u16 \<Rightarrow> (u8 list list \<times> u64) list \<Rightarrow> log_rings \<Rightarrow> log_rings" where
  "write_all c writes s = foldl (\<lambda>s (pieces, now). fst (console_write pieces c now s)) s writes"

definition logged :: "u16 \<Rightarrow> u8 list list \<times> u64 \<Rightarrow> log_record" where
  "logged c = (\<lambda>(pieces, now). fresh LInfo c now (concat pieces) (length (concat pieces)))"

lemma console_write_appends:
  assumes ok: "rings_ok s" and c: "unat c < MAX_RING_CPUS" and b: "buffered s" "threshold s = LInfo" and fits: "length (concat pieces) \<le> PAYLOAD_MAX"
    and room: "log_pending (rings s ! unat c) < LOG_SLOTS"
    and new: "unread (rings s ! unat c) = [] \<or> record_bytes (last (unread (rings s ! unat c))) \<noteq> concat pieces"
    and s': "s' = fst (console_write pieces c now s)"
  shows "unread (rings s' ! unat c) = unread (rings s ! unat c) @ [logged c (pieces, now)] \<and> buffered s' \<and> threshold s' = LInfo \<and> length (rings s') = length (rings s) \<and>
    list_all (\<lambda>i. i \<noteq> unat c \<longrightarrow> rings s' ! i = rings s ! i) [0..<MAX_RING_CPUS]"
proof -
  let ?r = "rings s ! unat c" and ?b = "concat pieces"
  have len: "length (rings s) = MAX_RING_CPUS" by (rule rings_okD(2) [OF ok])
  obtain r' d where push: "log_push_claimed LInfo c now ?b (length ?b) ?r = (r', d)" by force
  have "log_ok ?r" using rings_okD(1) [OF ok c] by (simp add: own_ring_def)
  from push_put [OF this push] have p: "put LInfo c now ?b (length ?b) (unread ?r) = (unread r', d)" by blast
  have "\<not> (unread ?r \<noteq> [] \<and> folds LInfo c ?b (length ?b) (last (unread ?r)))"
    using new fits by (auto simp: folds_def record_bytes_def Let_def min_absorb1 simp del: unread_Nil)
  with p room have r': "unread r' = unread ?r @ [logged c (pieces, now)]" by (auto simp: put_def logged_def)
  have "s' = s\<lparr>rings := (rings s)[unat c := r']\<rparr>"
    using push b c len fits buffered_pieces [of "[]" False pieces] by (simp add: s' console_write_def rings_push_claimed_def)
  with r' c len b show ?thesis by (simp add: list_all_iff)
qed

text \<open>What is in the rings after the writes.\<close>

definition fits :: "u8 list list \<times> u64 \<Rightarrow> bool" where
  "fits = (\<lambda>(pieces, _). length (concat pieces) \<le> PAYLOAD_MAX)"

lemma write_all_unread:
  assumes c: "unat c < MAX_RING_CPUS" and s: "s = set_buffered True RINGS_EMPTY"
  shows "length writes \<le> LOG_SLOTS \<Longrightarrow> list_all fits writes \<Longrightarrow> distinct_adj (map (concat \<circ> fst) writes) \<Longrightarrow> sorted (map snd writes) \<Longrightarrow>
    rings_ok (write_all c writes s) \<and> buffered (write_all c writes s) \<and> threshold (write_all c writes s) = LInfo \<and>
    (\<forall>i < MAX_RING_CPUS. unread (rings (write_all c writes s) ! i) = (if i = unat c then map (logged c) writes else []))"
proof (induction writes rule: rev_induct)
  case Nil
  have "rings_ok s" using rings_ok_empty(1) by (simp add: s set_buffered_def rings_ok_def)
  then show ?case using rings_ok_empty(2) by (simp add: write_all_def s set_buffered_def RINGS_EMPTY_def del: unread_Nil)
next
  case (snoc w writes)
  obtain pieces now where w: "w = (pieces, now)" by force
  define s1 where "s1 = write_all c writes s"
  define s2 where "s2 = fst (console_write pieces c now s1)"
  have IH: "rings_ok s1" "buffered s1" "threshold s1 = LInfo" "\<And>i. i < MAX_RING_CPUS \<Longrightarrow> unread (rings s1 ! i) = (if i = unat c then map (logged c) writes else [])"
    using snoc by (simp_all add: s1_def distinct_adj_append_iff sorted_append del: unread_Nil)
  have u: "unread (rings s1 ! unat c) = map (logged c) writes" using IH(4) [OF c] by simp
  have pend: "log_pending (rings s1 ! unat c) < LOG_SLOTS" using u snoc.prems(1) length_unread [of "rings s1 ! unat c"] by simp
  have "record_bytes (last (map (logged c) writes)) \<noteq> concat pieces" if ne: "writes \<noteq> []"
  proof -
    from ne obtain ws p t where ws: "writes = ws @ [(p, t)]" by (metis rev_exhaust surj_pair)
    then have p: "length (concat p) \<le> PAYLOAD_MAX" "concat p \<noteq> concat pieces" using snoc.prems(2,3) w by (simp_all add: fits_def distinct_adj_append_iff)
    then have "unat (of_nat (length (concat p)) :: u16) = length (concat p)" by (simp add: unsigned_of_nat take_bit_nat_eq_self PAYLOAD_MAX_def)
    then have "record_bytes (logged c (p, t)) = concat p" using p(1) by (simp add: logged_def fresh_def record_bytes_def min_absorb1)
    with p(2) ws show ?thesis by simp
  qed
  then have new: "unread (rings s1 ! unat c) = [] \<or> record_bytes (last (unread (rings s1 ! unat c))) \<noteq> concat pieces" using u by auto
  have fit: "length (concat pieces) \<le> PAYLOAD_MAX" using snoc.prems(2) w by (simp add: fits_def)
  note a = console_write_appends [OF IH(1) c IH(2,3) fit pend new s2_def]
  have "clock_after s1 c now" using snoc.prems(4) w by (auto simp: clock_after_def u logged_def fresh_def list_all_iff sorted_append)
  then have "rings_ok s2" using rings_ok_step [OF IH(1), of "RWrite pieces c now"] by (simp add: s2_def)
  moreover have "write_all c (writes @ [w]) s = s2" by (simp add: write_all_def s2_def s1_def w)
  ultimately show ?case using a IH(4) u w by (simp add: list_all_iff del: unread_Nil)
qed



end
