(* ===== verification/Huffman.thy ===== *)
theory Huffman
  imports Rheo_Prelude
begin

text \<open>
  The Huffman code of header compression, \<^verbatim>\<open>net/src/http2/huffman.rs\<close> with the tables of \<^verbatim>\<open>net/src/http2/huffman_table.rs\<close>: the encoder with its 64-bit
  accumulator, whose upper bits are never cleared, and the canonical decoder that reads one bit at a time and needs no tree. A code of at most 31 bits and its length
  are natural numbers.
\<close>

unbundle bit_operations_syntax

section \<open>The tables\<close>

datatype hpack_error = Truncated | BadIndex | IntegerOverflow | HuffmanError | BadTableSizeUpdate | TooManyFields

definition HUFF_CODE :: "nat list" where
  "HUFF_CODE =
    [0x1ff8, 0x7fffd8, 0xfffffe2, 0xfffffe3, 0xfffffe4, 0xfffffe5, 0xfffffe6, 0xfffffe7, 0xfffffe8, 0xffffea, 0x3ffffffc,
     0xfffffe9, 0xfffffea, 0x3ffffffd, 0xfffffeb, 0xfffffec, 0xfffffed, 0xfffffee, 0xfffffef, 0xffffff0, 0xffffff1,
     0xffffff2, 0x3ffffffe, 0xffffff3, 0xffffff4, 0xffffff5, 0xffffff6, 0xffffff7, 0xffffff8, 0xffffff9, 0xffffffa,
     0xffffffb, 0x14, 0x3f8, 0x3f9, 0xffa, 0x1ff9, 0x15, 0xf8, 0x7fa, 0x3fa, 0x3fb, 0xf9, 0x7fb, 0xfa, 0x16, 0x17, 0x18,
     0, 1, 2, 0x19, 0x1a, 0x1b, 0x1c, 0x1d, 0x1e, 0x1f, 0x5c, 0xfb, 0x7ffc, 0x20, 0xffb, 0x3fc, 0x1ffa, 0x21, 0x5d, 0x5e,
     0x5f, 0x60, 0x61, 0x62, 0x63, 0x64, 0x65, 0x66, 0x67, 0x68, 0x69, 0x6a, 0x6b, 0x6c, 0x6d, 0x6e, 0x6f, 0x70, 0x71,
     0x72, 0xfc, 0x73, 0xfd, 0x1ffb, 0x7fff0, 0x1ffc, 0x3ffc, 0x22, 0x7ffd, 3, 0x23, 4, 0x24, 5, 0x25, 0x26, 0x27, 6,
     0x74, 0x75, 0x28, 0x29, 0x2a, 7, 0x2b, 0x76, 0x2c, 8, 9, 0x2d, 0x77, 0x78, 0x79, 0x7a, 0x7b, 0x7ffe, 0x7fc, 0x3ffd,
     0x1ffd, 0xffffffc, 0xfffe6, 0x3fffd2, 0xfffe7, 0xfffe8, 0x3fffd3, 0x3fffd4, 0x3fffd5, 0x7fffd9, 0x3fffd6, 0x7fffda,
     0x7fffdb, 0x7fffdc, 0x7fffdd, 0x7fffde, 0xffffeb, 0x7fffdf, 0xffffec, 0xffffed, 0x3fffd7, 0x7fffe0, 0xffffee,
     0x7fffe1, 0x7fffe2, 0x7fffe3, 0x7fffe4, 0x1fffdc, 0x3fffd8, 0x7fffe5, 0x3fffd9, 0x7fffe6, 0x7fffe7, 0xffffef,
     0x3fffda, 0x1fffdd, 0xfffe9, 0x3fffdb, 0x3fffdc, 0x7fffe8, 0x7fffe9, 0x1fffde, 0x7fffea, 0x3fffdd, 0x3fffde,
     0xfffff0, 0x1fffdf, 0x3fffdf, 0x7fffeb, 0x7fffec, 0x1fffe0, 0x1fffe1, 0x3fffe0, 0x1fffe2, 0x7fffed, 0x3fffe1,
     0x7fffee, 0x7fffef, 0xfffea, 0x3fffe2, 0x3fffe3, 0x3fffe4, 0x7ffff0, 0x3fffe5, 0x3fffe6, 0x7ffff1, 0x3ffffe0,
     0x3ffffe1, 0xfffeb, 0x7fff1, 0x3fffe7, 0x7ffff2, 0x3fffe8, 0x1ffffec, 0x3ffffe2, 0x3ffffe3, 0x3ffffe4, 0x7ffffde,
     0x7ffffdf, 0x3ffffe5, 0xfffff1, 0x1ffffed, 0x7fff2, 0x1fffe3, 0x3ffffe6, 0x7ffffe0, 0x7ffffe1, 0x3ffffe7, 0x7ffffe2,
     0xfffff2, 0x1fffe4, 0x1fffe5, 0x3ffffe8, 0x3ffffe9, 0xffffffd, 0x7ffffe3, 0x7ffffe4, 0x7ffffe5, 0xfffec, 0xfffff3,
     0xfffed, 0x1fffe6, 0x3fffe9, 0x1fffe7, 0x1fffe8, 0x7ffff3, 0x3fffea, 0x3fffeb, 0x1ffffee, 0x1ffffef, 0xfffff4,
     0xfffff5, 0x3ffffea, 0x7ffff4, 0x3ffffeb, 0x7ffffe6, 0x3ffffec, 0x3ffffed, 0x7ffffe7, 0x7ffffe8, 0x7ffffe9,
     0x7ffffea, 0x7ffffeb, 0xffffffe, 0x7ffffec, 0x7ffffed, 0x7ffffee, 0x7ffffef, 0x7fffff0, 0x3ffffee, 0x3fffffff]"

definition HUFF_LEN :: "nat list" where
  "HUFF_LEN =
    [13, 23, 28, 28, 28, 28, 28, 28, 28, 24, 30, 28, 28, 30, 28, 28, 28, 28, 28, 28, 28, 28, 30, 28, 28, 28, 28, 28, 28,
     28, 28, 28, 6, 10, 10, 12, 13, 6, 8, 11, 10, 10, 8, 11, 8, 6, 6, 6, 5, 5, 5, 6, 6, 6, 6, 6, 6, 6, 7, 8, 15, 6, 12,
     10, 13, 6, 7, 7, 7, 7, 7, 7, 7, 7, 7, 7, 7, 7, 7, 7, 7, 7, 7, 7, 7, 7, 7, 7, 8, 7, 8, 13, 19, 13, 14, 6, 15, 5, 6, 5,
     6, 5, 6, 6, 6, 5, 7, 7, 6, 6, 6, 5, 6, 7, 6, 5, 5, 6, 7, 7, 7, 7, 7, 15, 11, 14, 13, 28, 20, 22, 20, 20, 22, 22, 22,
     23, 22, 23, 23, 23, 23, 23, 24, 23, 24, 24, 22, 23, 24, 23, 23, 23, 23, 21, 22, 23, 22, 23, 23, 24, 22, 21, 20, 22,
     22, 23, 23, 21, 23, 22, 22, 24, 21, 22, 23, 23, 21, 21, 22, 21, 23, 22, 23, 23, 20, 22, 22, 22, 23, 22, 22, 23, 26,
     26, 20, 19, 22, 23, 22, 25, 26, 26, 26, 27, 27, 26, 24, 25, 19, 21, 26, 27, 27, 26, 27, 24, 21, 21, 26, 26, 28, 27,
     27, 27, 20, 24, 20, 21, 22, 21, 21, 23, 22, 22, 25, 25, 24, 24, 26, 23, 26, 27, 26, 26, 27, 27, 27, 27, 27, 28, 27,
     27, 27, 27, 27, 26, 30]"

definition FIRST_CODE :: "nat list" where
  "FIRST_CODE =
    [0, 0, 0, 0, 0, 0, 0x14, 0x5c, 0xf8, 0, 0x3f8, 0x7fa, 0xffa, 0x1ff8, 0x3ffc, 0x7ffc, 0, 0, 0, 0x7fff0, 0xfffe6,
     0x1fffdc, 0x3fffd2, 0x7fffd8, 0xffffea, 0x1ffffec, 0x3ffffe0, 0x7ffffde, 0xfffffe2, 0, 0x3ffffffc]"

definition CODE_COUNT :: "nat list" where
  "CODE_COUNT =
    [0, 0, 0, 0, 0, 10, 26, 32, 6, 0, 5, 3, 2, 6, 2, 3, 0, 0, 0, 3, 8, 13, 26, 29, 12, 4, 15, 19, 29, 0, 4]"

definition FIRST_INDEX :: "nat list" where
  "FIRST_INDEX =
    [0, 0, 0, 0, 0, 0, 10, 36, 68, 74, 74, 79, 82, 84, 90, 92, 95, 95, 95, 95, 98, 106, 119, 145, 174, 186, 190, 205, 224,
     253, 253]"

definition SORTED_SYMS :: "nat list" where
  "SORTED_SYMS =
    [48, 49, 50, 97, 99, 101, 105, 111, 115, 116, 32, 37, 45, 46, 47, 51, 52, 53, 54, 55, 56, 57, 61, 65, 95, 98, 100,
     102, 103, 104, 108, 109, 110, 112, 114, 117, 58, 66, 67, 68, 69, 70, 71, 72, 73, 74, 75, 76, 77, 78, 79, 80, 81, 82,
     83, 84, 85, 86, 87, 89, 106, 107, 113, 118, 119, 120, 121, 122, 38, 42, 44, 59, 88, 90, 33, 34, 40, 41, 63, 39, 43,
     124, 35, 62, 0, 36, 64, 91, 93, 126, 94, 125, 60, 96, 123, 92, 195, 208, 128, 130, 131, 162, 184, 194, 224, 226, 153,
     161, 167, 172, 176, 177, 179, 209, 216, 217, 227, 229, 230, 129, 132, 133, 134, 136, 146, 154, 156, 160, 163, 164,
     169, 170, 173, 178, 181, 185, 186, 187, 189, 190, 196, 198, 228, 232, 233, 1, 135, 137, 138, 139, 140, 141, 143, 147,
     149, 150, 151, 152, 155, 157, 158, 165, 166, 168, 174, 175, 180, 182, 183, 188, 191, 197, 231, 239, 9, 142, 144, 145,
     148, 159, 171, 206, 215, 225, 236, 237, 199, 207, 234, 235, 192, 193, 200, 201, 202, 205, 210, 213, 218, 219, 238,
     240, 242, 243, 255, 203, 204, 211, 212, 214, 221, 222, 223, 241, 244, 245, 246, 247, 248, 250, 251, 252, 253, 254, 2,
     3, 4, 5, 6, 7, 8, 11, 12, 14, 15, 16, 17, 18, 19, 20, 21, 23, 24, 25, 26, 27, 28, 29, 30, 31, 127, 220, 249, 10, 13,
     22, 256]"


definition MIN_CODE_LEN :: nat where "MIN_CODE_LEN = 5"

definition MAX_CODE_LEN :: nat where "MAX_CODE_LEN = 30"

definition EOS :: nat where "EOS = 256"

section \<open>Coding\<close>

definition encoded_len :: "u8 list \<Rightarrow> nat" where
  "encoded_len data = (sum_list (map (\<lambda>b. HUFF_LEN ! unat b) data) + 7) div 8"

fun emit_bytes :: "u64 \<Rightarrow> nat \<Rightarrow> u8 list \<times> nat" where
  "emit_bytes acc nbits =
     (if nbits < 8 then ([], nbits)
      else let (bs, m) = emit_bytes acc (nbits - 8) in (ucast (drop_bit (nbits - 8) acc) # bs, m))"

declare emit_bytes.simps [simp del]

definition encode_symbol :: "u8 list \<times> u64 \<times> nat \<Rightarrow> u8 \<Rightarrow> u8 list \<times> u64 \<times> nat" where
  "encode_symbol = (\<lambda>(out, acc, nbits) b.
     let len = HUFF_LEN ! unat b;
         acc' = push_bit len acc OR of_nat (HUFF_CODE ! unat b);
         (bs, m) = emit_bytes acc' (nbits + len)
     in (out @ bs, acc', m))"

definition huff_encode :: "u8 list \<Rightarrow> u8 list" where
  "huff_encode data =
     (let (out, acc, nbits) = foldl encode_symbol ([], 0, 0) data; pad = 8 - nbits
      in if 0 < nbits then out @ [ucast (push_bit pad acc) OR (push_bit pad 1 - 1)] else out)"

definition byte_bits :: "u8 \<Rightarrow> bool list" where
  "byte_bits b = map (bit b) (rev [0..<8])"

definition decode_bit :: "nat \<times> nat \<times> u8 list \<Rightarrow> bool \<Rightarrow> hpack_error + nat \<times> nat \<times> u8 list" where
  "decode_bit = (\<lambda>(code, len, out) b.
     let code = 2 * code + of_bool b; len = len + 1
     in if MAX_CODE_LEN < len then Inl HuffmanError
        else if len < MIN_CODE_LEN then Inr (code, len, out)
        else let count = CODE_COUNT ! len
             in if count = 0 then Inr (code, len, out)
                else let first = FIRST_CODE ! len
                     in if first \<le> code \<and> code - first < count
                        then let sym = SORTED_SYMS ! (FIRST_INDEX ! len + (code - first))
                             in if sym = EOS then Inl HuffmanError else Inr (0, 0, out @ [of_nat sym])
                        else Inr (code, len, out))"

fun decode_bits :: "nat \<times> nat \<times> u8 list \<Rightarrow> bool list \<Rightarrow> hpack_error + nat \<times> nat \<times> u8 list" where
  "decode_bits s [] = Inr s"
| "decode_bits s (b # bs) = (case decode_bit s b of Inl e \<Rightarrow> Inl e | Inr s' \<Rightarrow> decode_bits s' bs)"

definition huff_decode :: "u8 list \<Rightarrow> hpack_error + u8 list" where
  "huff_decode data =
     (case decode_bits (0, 0, []) (concat (map byte_bits data)) of Inl e \<Rightarrow> Inl e
      | Inr (code, len, out) \<Rightarrow>
          if 8 \<le> len then Inl HuffmanError
          else if 0 < len \<and> code \<noteq> 2 ^ len - 1 then Inl HuffmanError
          else Inr out)"

section \<open>What the tables say\<close>

definition len_ok :: "nat \<Rightarrow> nat \<Rightarrow> bool" where
  "len_ok code len \<longleftrightarrow> MIN_CODE_LEN \<le> len \<and> len \<le> MAX_CODE_LEN \<and> FIRST_CODE ! len \<le> code \<and> code - FIRST_CODE ! len < CODE_COUNT ! len"

text \<open>The symbols whose codes have a given length.\<close>

definition symbols_of :: "nat \<Rightarrow> nat list" where
  "symbols_of l = take (CODE_COUNT ! l) (drop (FIRST_INDEX ! l) SORTED_SYMS)"

lemma symbols_by_length:
  "symbols_of 5 = [48, 49, 50, 97, 99, 101, 105, 111, 115, 116]"
  "symbols_of 6 = [32, 37, 45, 46, 47, 51, 52, 53, 54, 55, 56, 57, 61, 65, 95, 98, 100, 102, 103, 104, 108, 109, 110, 112, 114, 117]"
  "symbols_of 7 = [58, 66, 67, 68, 69, 70, 71, 72, 73, 74, 75, 76, 77, 78, 79, 80, 81, 82, 83, 84, 85, 86, 87, 89, 106, 107, 113, 118, 119, 120, 121, 122]"
  "symbols_of 8 = [38, 42, 44, 59, 88, 90]"
  "symbols_of 10 = [33, 34, 40, 41, 63]"
  "symbols_of 11 = [39, 43, 124]"
  "symbols_of 12 = [35, 62]"
  "symbols_of 13 = [0, 36, 64, 91, 93, 126]"
  "symbols_of 14 = [94, 125]"
  "symbols_of 15 = [60, 96, 123]"
  "symbols_of 19 = [92, 195, 208]"
  "symbols_of 20 = [128, 130, 131, 162, 184, 194, 224, 226]"
  "symbols_of 21 = [153, 161, 167, 172, 176, 177, 179, 209, 216, 217, 227, 229, 230]"
  "symbols_of 22 = [129, 132, 133, 134, 136, 146, 154, 156, 160, 163, 164, 169, 170, 173, 178, 181, 185, 186, 187, 189, 190, 196, 198, 228, 232, 233]"
  "symbols_of 23 = [1, 135, 137, 138, 139, 140, 141, 143, 147, 149, 150, 151, 152, 155, 157, 158, 165, 166, 168, 174, 175, 180, 182, 183, 188, 191, 197, 231, 239]"
  "symbols_of 24 = [9, 142, 144, 145, 148, 159, 171, 206, 215, 225, 236, 237]"
  "symbols_of 25 = [199, 207, 234, 235]"
  "symbols_of 26 = [192, 193, 200, 201, 202, 205, 210, 213, 218, 219, 238, 240, 242, 243, 255]"
  "symbols_of 27 = [203, 204, 211, 212, 214, 221, 222, 223, 241, 244, 245, 246, 247, 248, 250, 251, 252, 253, 254]"
  "symbols_of 28 = [2, 3, 4, 5, 6, 7, 8, 11, 12, 14, 15, 16, 17, 18, 19, 20, 21, 23, 24, 25, 26, 27, 28, 29, 30, 31, 127, 220, 249]"
  "symbols_of 30 = [10, 13, 22, 256]"
  by (simp_all add: symbols_of_def FIRST_INDEX_def CODE_COUNT_def SORTED_SYMS_def)

text \<open>Every symbol has a code of its length, in the range of that length, at the place of the symbol in the sorted table.\<close>

lemma symbols_in_range:
  "list_all (\<lambda>(s, c, l). 5 \<le> l \<and> l \<le> 30 \<and> c < 2 ^ l \<and> FIRST_CODE ! l \<le> c \<and> c - FIRST_CODE ! l < CODE_COUNT ! l \<and>
     symbols_of l ! (c - FIRST_CODE ! l) = s) (enumerate 0 (zip HUFF_CODE HUFF_LEN))"
  by (simp add: symbols_by_length HUFF_CODE_def HUFF_LEN_def FIRST_CODE_def CODE_COUNT_def)

text \<open>The codes of a length lie above all extensions of shorter codes.\<close>

lemma lengths_stacked:
  "list_all (\<lambda>l. list_all (\<lambda>k. CODE_COUNT ! k = 0 \<or> CODE_COUNT ! l = 0 \<or> (FIRST_CODE ! k + CODE_COUNT ! k) * 2 ^ (l - k) \<le> FIRST_CODE ! l) [5..<l]) [5..<31]"
  by (simp add: FIRST_CODE_def CODE_COUNT_def)

text \<open>Their places in the sorted table follow each other.\<close>

lemma places_stacked:
  "list_all (\<lambda>l. FIRST_INDEX ! l + CODE_COUNT ! l \<le> 257 \<and> list_all (\<lambda>k. FIRST_INDEX ! k + CODE_COUNT ! k \<le> FIRST_INDEX ! l) [5..<l]) [5..<31]"
  by (simp add: FIRST_INDEX_def CODE_COUNT_def)

lemma table_lengths: "length HUFF_CODE = 257" "length HUFF_LEN = 257" "length SORTED_SYMS = 257"
  by (simp_all add: HUFF_CODE_def HUFF_LEN_def SORTED_SYMS_def)

lemma len_ok_range: "len_ok c l \<Longrightarrow> l \<in> set [5..<31]"
  unfolding set_upt by (simp add: len_ok_def MIN_CODE_LEN_def MAX_CODE_LEN_def)

lemma place_less: "len_ok c l \<Longrightarrow> FIRST_INDEX ! l + (c - FIRST_CODE ! l) < 257"
proof -
  assume ok: "len_ok c l"
  have "FIRST_INDEX ! l + CODE_COUNT ! l \<le> 257" using places_stacked [unfolded list_all_iff, THEN bspec, OF len_ok_range [OF ok]] by blast
  moreover have "c - FIRST_CODE ! l < CODE_COUNT ! l" using ok by (simp add: len_ok_def)
  ultimately show ?thesis by linarith
qed

lemma symbol_code:
  assumes "s < 257"
  shows "5 \<le> HUFF_LEN ! s" "HUFF_LEN ! s \<le> 30" "HUFF_CODE ! s < 2 ^ (HUFF_LEN ! s)" "len_ok (HUFF_CODE ! s) (HUFF_LEN ! s)"
    "SORTED_SYMS ! (FIRST_INDEX ! (HUFF_LEN ! s) + (HUFF_CODE ! s - FIRST_CODE ! (HUFF_LEN ! s))) = s"
proof -
  let ?c = "HUFF_CODE ! s" and ?l = "HUFF_LEN ! s"
  have "(s, ?c, ?l) \<in> set (enumerate 0 (zip HUFF_CODE HUFF_LEN))"
    using assms by (auto simp: in_set_enumerate_eq table_lengths)
  with symbols_in_range show r: "5 \<le> ?l" "?l \<le> 30" "?c < 2 ^ ?l" and ok: "len_ok ?c ?l"
    by (auto simp: list_all_iff len_ok_def MIN_CODE_LEN_def MAX_CODE_LEN_def)
  have "symbols_of ?l ! (?c - FIRST_CODE ! ?l) = s" using symbols_in_range \<open>(s, ?c, ?l) \<in> _\<close> by (auto simp: list_all_iff)
  moreover have "FIRST_INDEX ! ?l \<le> length SORTED_SYMS" using place_less [OF ok] by (simp add: table_lengths)
  moreover have "?c - FIRST_CODE ! ?l < CODE_COUNT ! ?l" using ok by (simp add: len_ok_def)
  ultimately show "SORTED_SYMS ! (FIRST_INDEX ! ?l + (?c - FIRST_CODE ! ?l)) = s" by (simp add: symbols_of_def)
qed

text \<open>Every symbol occurs in the sorted table, so none occurs twice.\<close>

lemma sorted_syms: "distinct SORTED_SYMS" "set SORTED_SYMS = {..<257}"
proof -
  have "s \<in> set SORTED_SYMS" if "s < 257" for s
    using symbol_code(5) [OF that] place_less [OF symbol_code(4) [OF that]] nth_mem table_lengths(3) by metis
  then have sub: "{..<257} \<subseteq> set SORTED_SYMS" by auto
  moreover have "card (set SORTED_SYMS) \<le> card {..<257 :: nat}" using card_length [of SORTED_SYMS] table_lengths(3) by simp
  ultimately show set: "set SORTED_SYMS = {..<257}" by (intro card_seteq [symmetric]) auto
  show "distinct SORTED_SYMS" by (rule card_distinct) (simp add: set table_lengths)
qed

text \<open>So the place of a code holds the symbol with this code.\<close>

lemma code_symbol:
  assumes ok: "len_ok c l" and s: "s = SORTED_SYMS ! (FIRST_INDEX ! l + (c - FIRST_CODE ! l))"
  shows "s < 257" "HUFF_LEN ! s = l" "HUFF_CODE ! s = c"
proof -
  let ?c = "HUFF_CODE ! s" and ?l = "HUFF_LEN ! s"
  have "s \<in> set SORTED_SYMS" unfolding s using place_less [OF ok] table_lengths(3) by (intro nth_mem) simp
  then show s257: "s < 257" using sorted_syms(2) by simp
  note sc = symbol_code [OF s257]
  have place: "FIRST_INDEX ! ?l + (?c - FIRST_CODE ! ?l) = FIRST_INDEX ! l + (c - FIRST_CODE ! l)"
    using sorted_syms(1) sc(5) s place_less [OF ok] place_less [OF sc(4)] table_lengths(3) by (simp add: distinct_conv_nth) metis
  have apart: "FIRST_INDEX ! a + (x - FIRST_CODE ! a) < FIRST_INDEX ! b + (y - FIRST_CODE ! b)" if "len_ok x a" "len_ok y b" "a < b" for x y a b
  proof -
    have "a \<in> set [5..<b]" using len_ok_range [OF that(1)] that(3) by (simp only: set_upt) simp
    then have "FIRST_INDEX ! a + CODE_COUNT ! a \<le> FIRST_INDEX ! b"
      using places_stacked [unfolded list_all_iff, THEN bspec, OF len_ok_range [OF that(2)]] by blast
    moreover have "x - FIRST_CODE ! a < CODE_COUNT ! a" using that(1) by (simp add: len_ok_def)
    ultimately show ?thesis by simp
  qed
  show l: "?l = l" using apart [OF sc(4) ok] apart [OF ok sc(4)] place by (metis less_irrefl linorder_neqE_nat)
  then have "?c - FIRST_CODE ! l = c - FIRST_CODE ! l" using place by simp
  moreover have "FIRST_CODE ! l \<le> ?c" "FIRST_CODE ! l \<le> c" using sc(4) ok l by (simp_all add: len_ok_def)
  ultimately show "?c = c" by simp
qed

text \<open>No proper prefix of a code is a code.\<close>

lemma prefix_free:
  assumes ok: "len_ok c l" and k: "k < l"
  shows "\<not> len_ok (c div 2 ^ (l - k)) k"
proof
  assume p: "len_ok (c div 2 ^ (l - k)) k"
  have "l \<in> set [5..<31]" "k \<in> set [5..<l]" "CODE_COUNT ! k \<noteq> 0" "CODE_COUNT ! l \<noteq> 0"
    using ok p k unfolding set_upt by (auto simp: len_ok_def MIN_CODE_LEN_def MAX_CODE_LEN_def)
  then have "(FIRST_CODE ! k + CODE_COUNT ! k) * 2 ^ (l - k) \<le> FIRST_CODE ! l" using lengths_stacked [unfolded list_all_iff, THEN bspec, THEN bspec, of l k] by simp
  also have "\<dots> \<le> c" using ok by (simp add: len_ok_def)
  finally have "FIRST_CODE ! k + CODE_COUNT ! k \<le> c div 2 ^ (l - k)" by (simp add: less_eq_div_iff_mult_less_eq)
  moreover have "c div 2 ^ (l - k) - FIRST_CODE ! k < CODE_COUNT ! k" using p by (simp add: len_ok_def)
  ultimately show False by linarith
qed

section \<open>Bits\<close>

definition bits_value :: "bool list \<Rightarrow> nat" where
  "bits_value bs = foldl (\<lambda>v b. 2 * v + of_bool b) 0 bs"

definition number_bits :: "nat \<Rightarrow> nat \<Rightarrow> bool list" where
  "number_bits c l = map (bit c) (rev [0..<l])"

definition code_bits :: "nat \<Rightarrow> bool list" where
  "code_bits s = number_bits (HUFF_CODE ! s) (HUFF_LEN ! s)"

lemma bits_value_simps [simp]: "bits_value [] = 0" "bits_value (bs @ [b]) = 2 * bits_value bs + of_bool b"
  by (simp_all add: bits_value_def)

lemma length_bits [simp]: "length (number_bits c l) = l" "length (code_bits s) = HUFF_LEN ! s" "length (byte_bits b) = 8"
  by (simp_all add: number_bits_def code_bits_def byte_bits_def)

lemma bits_value_less: "bits_value bs < 2 ^ length bs"
  by (induction bs rule: rev_induct) (auto simp: of_bool_def)

lemma number_bits_Suc: "number_bits c (Suc l) = number_bits (c div 2) l @ [odd c]"
proof -
  have "map (bit c) (rev (map Suc [0..<l])) = map (bit (c div 2)) (rev [0..<l])"
    by (simp add: rev_map [symmetric] bit_Suc comp_def)
  moreover have "[0..<Suc l] = 0 # map Suc [0..<l]" by (simp add: map_Suc_upt upt_conv_Cons del: upt_Suc)
  ultimately show ?thesis by (simp add: number_bits_def bit_0 del: upt_Suc)
qed

lemma number_bits_value: "number_bits (bits_value bs) (length bs) = bs"
proof (induction bs rule: rev_induct)
  case (snoc b bs)
  have "(2 * bits_value bs + of_bool b) div 2 = bits_value bs" "odd (2 * bits_value bs + of_bool b) = b" by (cases b; simp)+
  with snoc show ?case by (simp add: number_bits_Suc)
qed (simp add: number_bits_def)

lemma value_number_bits: "bits_value (number_bits c l) = c mod 2 ^ l"
proof (induction l arbitrary: c)
  case (Suc l)
  have "c mod 2 ^ Suc l = 2 * (c div 2 mod 2 ^ l) + c mod 2" by (simp add: mod_mult2_eq)
  then show ?case by (simp add: number_bits_Suc Suc mod2_eq_if of_bool_def)
qed (simp add: number_bits_def)

lemma take_number_bits: "k \<le> l \<Longrightarrow> take k (number_bits c l) = number_bits (c div 2 ^ (l - k)) k"
proof (induction l arbitrary: c)
  case (Suc l)
  show ?case
  proof (cases "k = Suc l")
    case False
    with Suc have "take k (number_bits c (Suc l)) = number_bits (c div 2 div 2 ^ (l - k)) k" by (simp add: number_bits_Suc)
    also have "c div 2 div 2 ^ (l - k) = c div 2 ^ (Suc l - k)" using Suc.prems False by (simp add: Suc_diff_le div_mult2_eq)
    finally show ?thesis .
  qed simp
qed (simp add: number_bits_def)

lemma all_ones: "bits_value bs = 2 ^ length bs - 1 \<longleftrightarrow> bs = replicate (length bs) True"
proof (induction bs rule: rev_induct)
  case (snoc b bs)
  define m where "m = (2 :: nat) ^ length bs"
  have "bits_value bs < m" unfolding m_def by (rule bits_value_less)
  then have "2 * bits_value bs + of_bool b = 2 * m - 1 \<longleftrightarrow> b \<and> bits_value bs = m - 1" by (cases b) (simp_all, presburger+)
  with snoc show ?case by (simp add: m_def replicate_append_same [symmetric] del: replicate_append_same) (metis append_eq_append_conv length_replicate list.inject)
qed simp

section \<open>The decoder follows the codes\<close>

lemma decode_bit_code:
  "decode_bit (v, n, out) b =
     (let c = 2 * v + of_bool b; l = n + 1
      in if 30 < l then Inl HuffmanError
         else if len_ok c l
         then let sym = SORTED_SYMS ! (FIRST_INDEX ! l + (c - FIRST_CODE ! l)) in if sym = EOS then Inl HuffmanError else Inr (0, 0, out @ [of_nat sym])
         else Inr (c, l, out))"
  by (auto simp: decode_bit_def len_ok_def Let_def MIN_CODE_LEN_def MAX_CODE_LEN_def)

lemma decode_bits_append: "decode_bits s (xs @ ys) = (case decode_bits s xs of Inl e \<Rightarrow> Inl e | Inr s' \<Rightarrow> decode_bits s' ys)"
  by (induction xs arbitrary: s) (auto split: sum.split)

lemma decode_prefix:
  assumes "\<And>k. 0 < k \<Longrightarrow> k \<le> length bs \<Longrightarrow> \<not> len_ok (bits_value (take k bs)) k" and "length bs \<le> 30"
  shows "decode_bits (0, 0, out) bs = Inr (bits_value bs, length bs, out)"
  using assms
proof (induction bs rule: rev_induct)
  case (snoc b bs)
  have "\<not> len_ok (bits_value (take k bs)) k" if "0 < k" "k \<le> length bs" for k using snoc.prems(1) [of k] that by simp
  then have "decode_bits (0, 0, out) bs = Inr (bits_value bs, length bs, out)" using snoc.IH snoc.prems(2) by simp
  moreover have "\<not> len_ok (2 * bits_value bs + of_bool b) (Suc (length bs))" using snoc.prems(1) [of "Suc (length bs)"] by simp
  ultimately show ?case using snoc.prems(2) by (simp add: decode_bits_append decode_bit_code Let_def)
qed simp

lemma decode_code:
  assumes s: "s < 256"
  shows "decode_bits (0, 0, out) (code_bits s) = Inr (0, 0, out @ [of_nat s])"
proof -
  define c l where "c = HUFF_CODE ! s" and "l = HUFF_LEN ! s"
  have t: "5 \<le> l" "l \<le> 30" "c < 2 ^ l" "len_ok c l" "SORTED_SYMS ! (FIRST_INDEX ! l + (c - FIRST_CODE ! l)) = s"
    using symbol_code [of s] s by (simp_all add: c_def l_def)
  then obtain k where k: "l = Suc k" by (cases l) auto
  have bits: "code_bits s = number_bits (c div 2) k @ [odd c]" unfolding code_bits_def c_def [symmetric] l_def [symmetric] k by (rule number_bits_Suc)
  have "\<not> len_ok (bits_value (take j (number_bits (c div 2) k))) j" if j: "j \<le> k" for j
  proof -
    have "c div 2 div 2 ^ (k - j) = c div 2 ^ (l - j)" using j k by (simp add: Suc_diff_le div_mult2_eq)
    moreover have "c div 2 ^ (l - j) < 2 ^ j" using t(3) j k by (simp add: less_mult_imp_div_less power_add [symmetric])
    ultimately have "bits_value (take j (number_bits (c div 2) k)) = c div 2 ^ (l - j)" using j by (simp add: take_number_bits value_number_bits)
    then show ?thesis using prefix_free [OF t(4), of j] j k by simp
  qed
  then have "decode_bits (0, 0, out) (number_bits (c div 2) k) = Inr (c div 2 mod 2 ^ k, k, out)"
    using decode_prefix [of "number_bits (c div 2) k" out] t(2) k by (simp add: value_number_bits)
  moreover have "c div 2 mod 2 ^ k = c div 2" using t(3) k by simp
  moreover have "2 * (c div 2) + of_bool (odd c) = c" by (simp add: of_bool_odd_eq_mod_2)
  ultimately show ?thesis using t s k unfolding bits by (simp add: decode_bits_append decode_bit_code EOS_def)
qed

lemma decode_codes: "decode_bits (0, 0, out) (concat (map (code_bits \<circ> unat) bs) @ rest) = decode_bits (0, 0, out @ bs) rest"
proof (induction bs arbitrary: out)
  case (Cons b bs)
  have "unat b < 256" using unsigned_less [of b, where 'a = nat] by simp
  from decode_code [OF this, of out] Cons show ?case by (simp add: decode_bits_append)
qed simp

lemma decode_ones:
  assumes "k < 8"
  shows "decode_bits (0, 0, out) (replicate k True) = Inr (2 ^ k - 1, k, out)"
proof -
  have v: "bits_value (replicate j True) = 2 ^ j - 1" for j using all_ones [of "replicate j True"] by simp
  have "\<not> len_ok (2 ^ j - 1) j" if j: "j < 8" for j
  proof -
    consider "j < 5" | "j = 5" | "j = 6" | "j = 7" using j by linarith
    then show ?thesis by cases (simp_all add: len_ok_def MIN_CODE_LEN_def FIRST_CODE_def CODE_COUNT_def)
  qed
  then show ?thesis using decode_prefix [of "replicate k True" out] v assms by (simp add: min_def)
qed

lemma decode_sound:
  "decode_bits (0, 0, []) bs = Inr (c, l, out) \<Longrightarrow> \<exists>rest. bs = concat (map (code_bits \<circ> unat) out) @ rest \<and> c = bits_value rest \<and> l = length rest"
proof (induction bs arbitrary: c l out rule: rev_induct)
  case (snoc b bs)
  from snoc.prems obtain v n o' where pre: "decode_bits (0, 0, []) bs = Inr (v, n, o')" "decode_bit (v, n, o') b = Inr (c, l, out)"
    by (auto simp: decode_bits_append split: sum.splits)
  from snoc.IH [OF pre(1)] obtain rest where r: "bs = concat (map (code_bits \<circ> unat) o') @ rest" "v = bits_value rest" "n = length rest" by blast
  let ?c = "2 * v + of_bool b" and ?l = "n + 1"
  show ?case
  proof (cases "len_ok ?c ?l")
    case False
    then have "c = ?c" "l = ?l" "out = o'" using pre(2) by (auto simp: decode_bit_code Let_def split: if_splits)
    with r show ?thesis by (intro exI [of _ "rest @ [b]"]) (simp add: comp_def)
  next
    case True
    define s where "s = SORTED_SYMS ! (FIRST_INDEX ! ?l + (?c - FIRST_CODE ! ?l))"
    note cs = code_symbol [OF True s_def]
    have o: "c = 0" "l = 0" "out = o' @ [of_nat s]" "s \<noteq> 256" using pre(2) True by (auto simp: decode_bit_code Let_def s_def EOS_def split: if_splits)
    then have "s < 256" using cs(1) by simp
    then have u: "unat (of_nat s :: u8) = s" by (simp add: unsigned_of_nat take_bit_nat_eq_self)
    have "code_bits s = rest @ [b]" unfolding code_bits_def cs using number_bits_value [of "rest @ [b]"] r by simp
    with o u r show ?thesis by (intro exI [of _ "[]"]) (simp add: comp_def)
  qed
qed simp

section \<open>The encoder writes the codes\<close>

definition low_bits :: "u64 \<Rightarrow> nat \<Rightarrow> bool list" where
  "low_bits acc n = map (bit acc) (rev [0..<n])"

lemma length_low_bits [simp]: "length (low_bits acc n) = n"
  by (simp add: low_bits_def)

lemma nth_low_bits [simp]: "i < n \<Longrightarrow> low_bits acc n ! i = bit acc (n - Suc i)"
  by (simp add: low_bits_def rev_nth)

lemma nth_number_bits [simp]: "i < l \<Longrightarrow> number_bits c l ! i = bit c (l - Suc i)"
  by (simp add: number_bits_def rev_nth)

lemma nth_byte_bits [simp]: "i < 8 \<Longrightarrow> byte_bits b ! i = bit b (7 - i)"
  by (simp add: byte_bits_def rev_nth)

lemma byte_bits_inject: "byte_bits a = byte_bits b \<longleftrightarrow> a = b"
proof
  assume eq: "byte_bits a = byte_bits b"
  show "a = b"
  proof (rule bit_word_eqI)
    fix n
    assume "n < LENGTH(8)"
    then have "byte_bits a ! (7 - n) = bit a n" "byte_bits b ! (7 - n) = bit b n" by simp_all
    with eq show "bit a n = bit b n" by simp
  qed
qed simp

lemma emitted_bits:
  "emit_bytes acc n = (bs, m) \<Longrightarrow> n \<le> 64 \<Longrightarrow> concat (map byte_bits bs) @ low_bits acc m = low_bits acc n \<and> m < 8"
proof (induction acc n arbitrary: bs m rule: emit_bytes.induct)
  case (1 acc n)
  show ?case
  proof (cases "n < 8")
    case True
    then show ?thesis using "1.prems" by (simp add: emit_bytes.simps [of acc n])
  next
    case False
    obtain cs k where e: "emit_bytes acc (n - 8) = (cs, k)" by force
    then have bs: "bs = ucast (drop_bit (n - 8) acc) # cs" "m = k" using "1.prems"(1) False by (simp_all add: emit_bytes.simps [of acc n])
    have "byte_bits (ucast (drop_bit (n - 8) acc)) @ low_bits acc (n - 8) = low_bits acc n"
    proof (rule nth_equalityI)
      fix i
      assume "i < length (byte_bits (ucast (drop_bit (n - 8) acc)) @ low_bits acc (n - 8))"
      then have "i < n" using False by simp
      then show "(byte_bits (ucast (drop_bit (n - 8) acc)) @ low_bits acc (n - 8)) ! i = low_bits acc n ! i"
        using False by (auto simp: nth_append bit_simps)
    qed (use False in simp)
    then show ?thesis using "1.IH" [OF False e] "1.prems"(2) bs by auto
  qed
qed

lemma symbol_bits:
  assumes n: "n < 8" and e: "encode_symbol (out, acc, n) b = (out', acc', n')"
  shows "concat (map byte_bits out') @ low_bits acc' n' = concat (map byte_bits out) @ low_bits acc n @ code_bits (unat b) \<and> n' < 8"
proof -
  define c l where "c = HUFF_CODE ! unat b" and "l = HUFF_LEN ! unat b"
  have b: "unat b < 257" using unsigned_less [of b, where 'a = nat] by simp
  have cl: "l \<le> 30" "c < 2 ^ l" using symbol_code [OF b] by (simp_all add: c_def l_def)
  obtain bs where bs: "emit_bytes acc' (n + l) = (bs, n')" "out' = out @ bs" "acc' = push_bit l acc OR of_nat c"
    using e by (auto simp: encode_symbol_def Let_def c_def l_def split: prod.splits)
  have "low_bits acc' (n + l) = low_bits acc n @ number_bits c l"
  proof (rule nth_equalityI)
    fix i
    assume "i < length (low_bits acc' (n + l))"
    then have i: "i < n + l" by simp
    have high: "\<not> bit c k" if "l \<le> k" for k
      using that cl(2) by (metis bit_take_bit_iff not_less take_bit_nat_eq_self)
    show "low_bits acc' (n + l) ! i = (low_bits acc n @ number_bits c l) ! i"
      using i n cl(1) high by (auto simp: nth_append bs(3) bit_simps add.commute [of n l])
  qed simp
  moreover have "concat (map byte_bits bs) @ low_bits acc' n' = low_bits acc' (n + l) \<and> n' < 8"
    by (rule emitted_bits [OF bs(1)]) (use n cl in simp)
  ultimately show ?thesis using bs(2) by (auto simp: code_bits_def c_def l_def)
qed

lemma all_symbol_bits:
  "n < 8 \<Longrightarrow> foldl encode_symbol (out, acc, n) data = (out', acc', n') \<Longrightarrow>
     concat (map byte_bits out') @ low_bits acc' n' = concat (map byte_bits out) @ low_bits acc n @ concat (map (code_bits \<circ> unat) data) \<and> n' < 8"
proof (induction data arbitrary: out acc n)
  case (Cons b data)
  obtain o1 a1 n1 where s: "encode_symbol (out, acc, n) b = (o1, a1, n1)" by (rule prod_cases3)
  from symbol_bits [OF Cons.prems(1) s] Cons.IH [of n1 o1 a1] Cons.prems(2) s show ?case by simp
qed simp

lemma encode_bits: "\<exists>pad < 8. concat (map byte_bits (huff_encode data)) = concat (map (code_bits \<circ> unat) data) @ replicate pad True"
proof -
  obtain out acc n where f: "foldl encode_symbol ([], 0, 0) data = (out, acc, n)" by (rule prod_cases3)
  have a: "concat (map byte_bits out) @ low_bits acc n = concat (map (code_bits \<circ> unat) data)" "n < 8"
    using all_symbol_bits [OF _ f] by (simp_all add: low_bits_def)
  show ?thesis
  proof (cases "n = 0")
    case True
    then have "huff_encode data = out" "low_bits acc n = []" using f by (simp_all add: huff_encode_def low_bits_def)
    with a(1) show ?thesis by (intro exI [of _ 0]) simp
  next
    case False
    let ?b = "ucast (push_bit (8 - n) acc) OR (push_bit (8 - n) 1 - 1) :: u8"
    have "byte_bits ?b = low_bits acc n @ replicate (8 - n) True"
    proof (rule nth_equalityI)
      fix i
      assume "i < length (byte_bits ?b)"
      then have i: "i < 8" by simp
      have "push_bit (8 - n) 1 - 1 = (mask (8 - n) :: u8)" by (simp add: mask_eq_exp_minus_1 push_bit_eq_mult)
      then show "byte_bits ?b ! i = (low_bits acc n @ replicate (8 - n) True) ! i"
        using i a(2) False by (auto simp: nth_append bit_simps)
    qed (use a(2) in simp)
    moreover have "huff_encode data = out @ [?b]" using f False by (simp add: huff_encode_def Let_def)
    ultimately show ?thesis using a False by (intro exI [of _ "8 - n"]) auto
  qed
qed

lemma length_concat_bytes: "length (concat (map byte_bits bs)) = 8 * length bs"
  by (induction bs) simp_all

lemma concat_byte_bits_inject: "concat (map byte_bits xs) = concat (map byte_bits ys) \<Longrightarrow> xs = ys"
proof (induction xs arbitrary: ys)
  case Nil
  then have "8 * length ys = 0" unfolding length_concat_bytes [symmetric] by simp
  then show ?case by simp
next
  case (Cons x xs)
  have "8 * length (x # xs) = 8 * length ys" unfolding length_concat_bytes [symmetric] Cons.prems by simp
  then obtain y ys' where "ys = y # ys'" by (cases ys) simp_all
  with Cons show ?case by (simp add: append_eq_append_conv byte_bits_inject)
qed

lemma huff_decode_encode: "huff_decode (huff_encode s) = Inr s"
proof -
  obtain pad where p: "pad < 8" "concat (map byte_bits (huff_encode s)) = concat (map (code_bits \<circ> unat) s) @ replicate pad True" using encode_bits by blast
  then show ?thesis using decode_ones [OF p(1)] by (simp add: huff_decode_def decode_codes)
qed

lemma huff_encode_decode:
  assumes "huff_decode d = Inr s"
  shows "huff_encode s = d"
proof -
  from assms obtain c l where r: "decode_bits (0, 0, []) (concat (map byte_bits d)) = Inr (c, l, s)" "l < 8" "0 < l \<longrightarrow> c = 2 ^ l - 1"
    by (auto simp: huff_decode_def split: sum.splits prod.splits if_splits)
  from decode_sound [OF r(1)] obtain rest where b: "concat (map byte_bits d) = concat (map (code_bits \<circ> unat) s) @ rest" "c = bits_value rest" "l = length rest" by blast
  have ones: "rest = replicate l True" using all_ones [of rest] r(3) b(2,3) by (cases "l = 0") auto
  obtain pad where p: "pad < 8" "concat (map byte_bits (huff_encode s)) = concat (map (code_bits \<circ> unat) s) @ replicate pad True" using encode_bits by blast
  have "8 * length d = length (concat (map (code_bits \<circ> unat) s)) + l" "8 * length (huff_encode s) = length (concat (map (code_bits \<circ> unat) s)) + pad"
    using arg_cong [OF b(1), of length] arg_cong [OF p(2), of length] unfolding length_concat_bytes by (simp_all add: b(3))
  then have "l = pad" using r(2) p(1) by presburger
  with b(1) p(2) ones have "concat (map byte_bits (huff_encode s)) = concat (map byte_bits d)" by simp
  then show ?thesis by (rule concat_byte_bits_inject)
qed

lemma encoded_len_exact: "encoded_len s = length (huff_encode s)"
proof -
  obtain pad where p: "pad < 8" "concat (map byte_bits (huff_encode s)) = concat (map (code_bits \<circ> unat) s) @ replicate pad True" using encode_bits by blast
  have "length (concat (map (code_bits \<circ> unat) s)) = sum_list (map (\<lambda>b. HUFF_LEN ! unat b) s)" by (induction s) simp_all
  then have "8 * length (huff_encode s) = sum_list (map (\<lambda>b. HUFF_LEN ! unat b) s) + pad"
    using arg_cong [OF p(2), of length] unfolding length_concat_bytes by simp
  then show ?thesis using p(1) by (simp add: encoded_len_def)
qed

section \<open>Properties\<close>

text \<open>
  C27: the decoder accepts exactly the encodings. For all byte strings, decoding \<open>d\<close> gives \<open>s\<close> precisely when \<open>d\<close> is what the encoder makes of \<open>s\<close>: every string
  survives the round trip, no two byte strings decode to the same string (wrong or overlong padding, an end-of-string symbol and a truncated code are refused), and the length announced beforehand is exact.
\<close>

theorem huffman_bijective: "(huff_decode d = Inr s \<longleftrightarrow> huff_encode s = d) \<and> encoded_len s = length (huff_encode s)"
  using huff_decode_encode huff_encode_decode encoded_len_exact by auto

end
