(* ===== verification/Hpack.thy ===== *)
theory Hpack
  imports Huffman
begin

text \<open>
  Header compression of HTTP/2, \<^verbatim>\<open>net/src/http2/hpack.rs\<close>: the static and the dynamic table, prefix integers, string literals, and the encoder and decoder that must keep
  their tables in step. A position in the buffer is a natural number; sums and shifts that the source checks at 64 bits are checked here. Extending the output vector is concatenation. The
  subtraction in \<open>evict\<close> is exact wherever the size is the sum of the entries, which is part of the invariant.
\<close>

section \<open>The tables\<close>

definition STATIC_TABLE :: "(u8 list \<times> u8 list) list" where
  "STATIC_TABLE = map (\<lambda>(n, v). (ascii n, ascii v))
    [('':authority'', ''''), ('':method'', ''GET''), ('':method'', ''POST''), ('':path'', ''/''),
     ('':path'', ''/index.html''), ('':scheme'', ''http''), ('':scheme'', ''https''), ('':status'', ''200''),
     ('':status'', ''204''), ('':status'', ''206''), ('':status'', ''304''), ('':status'', ''400''), ('':status'', ''404''),
     ('':status'', ''500''), (''accept-charset'', ''''), (''accept-encoding'', ''gzip, deflate''),
     (''accept-language'', ''''), (''accept-ranges'', ''''), (''accept'', ''''), (''access-control-allow-origin'', ''''),
     (''age'', ''''), (''allow'', ''''), (''authorization'', ''''), (''cache-control'', ''''),
     (''content-disposition'', ''''), (''content-encoding'', ''''), (''content-language'', ''''),
     (''content-length'', ''''), (''content-location'', ''''), (''content-range'', ''''), (''content-type'', ''''),
     (''cookie'', ''''), (''date'', ''''), (''etag'', ''''), (''expect'', ''''), (''expires'', ''''), (''from'', ''''),
     (''host'', ''''), (''if-match'', ''''), (''if-modified-since'', ''''), (''if-none-match'', ''''), (''if-range'', ''''),
     (''if-unmodified-since'', ''''), (''last-modified'', ''''), (''link'', ''''), (''location'', ''''),
     (''max-forwards'', ''''), (''proxy-authenticate'', ''''), (''proxy-authorization'', ''''), (''range'', ''''),
     (''referer'', ''''), (''refresh'', ''''), (''retry-after'', ''''), (''server'', ''''), (''set-cookie'', ''''),
     (''strict-transport-security'', ''''), (''transfer-encoding'', ''''), (''user-agent'', ''''), (''vary'', ''''),
     (''via'', ''''), (''www-authenticate'', '''')]"

definition ENTRY_OVERHEAD :: nat where "ENTRY_OVERHEAD = 32"

definition DEFAULT_TABLE_SIZE :: nat where "DEFAULT_TABLE_SIZE = 4096"

definition MAX_FIELDS :: nat where "MAX_FIELDS = 128"

record hentry =
  e_name :: "u8 list"
  e_value :: "u8 list"

definition hentry_size :: "hentry \<Rightarrow> nat" where
  "hentry_size e = length (e_name e) + length (e_value e) + ENTRY_OVERHEAD"

record htable =
  t_entries :: "hentry list"
  t_size :: nat
  t_capacity :: nat

definition table_new :: "nat \<Rightarrow> htable" where
  "table_new capacity = \<lparr> t_entries = [], t_size = 0, t_capacity = capacity \<rparr>"

function evict :: "htable \<Rightarrow> htable" where
  "evict t =
     (if t_size t \<le> t_capacity t then t
      else if t_entries t = [] then t\<lparr>t_size := 0\<rparr>
      else evict (t\<lparr>t_entries := butlast (t_entries t), t_size := t_size t - hentry_size (last (t_entries t))\<rparr>))"
  by auto
termination by (relation "measure (\<lambda>t. length (t_entries t))") auto

declare evict.simps [simp del]

definition set_capacity :: "nat \<Rightarrow> htable \<Rightarrow> htable" where
  "set_capacity capacity t = evict (t\<lparr>t_capacity := capacity\<rparr>)"

definition table_insert :: "u8 list \<Rightarrow> u8 list \<Rightarrow> htable \<Rightarrow> htable" where
  "table_insert name val t =
     (let e = \<lparr> e_name = name, e_value = val \<rparr>; sz = hentry_size e
      in if t_capacity t < sz then t\<lparr>t_entries := [], t_size := 0\<rparr>
         else evict (t\<lparr>t_entries := e # t_entries t, t_size := t_size t + sz\<rparr>))"

definition table_get :: "nat \<Rightarrow> htable \<Rightarrow> (u8 list \<times> u8 list) option" where
  "table_get index t =
     (if index = 0 then None
      else if index \<le> length STATIC_TABLE then Some (STATIC_TABLE ! (index - 1))
      else map_option (\<lambda>e. (e_name e, e_value e)) (nth_opt (t_entries t) (index - length STATIC_TABLE - 1)))"

text \<open>One of the two search loops: the index of a full match, or the first index of the name so far.\<close>

fun find_scan :: "u8 list \<Rightarrow> u8 list \<Rightarrow> nat \<Rightarrow> nat option \<Rightarrow> (u8 list \<times> u8 list) list \<Rightarrow> nat + nat option" where
  "find_scan name val i name_only [] = Inr name_only"
| "find_scan name val i name_only ((n, v) # rows) =
     (if n = name
      then if v = val then Inl i else find_scan name val (i + 1) (if name_only = None then Some i else name_only) rows
      else find_scan name val (i + 1) name_only rows)"

definition table_find :: "u8 list \<Rightarrow> u8 list \<Rightarrow> htable \<Rightarrow> nat option \<times> nat option" where
  "table_find name val t =
     (case find_scan name val 1 None STATIC_TABLE of Inl i \<Rightarrow> (Some i, None)
      | Inr name_only \<Rightarrow>
          (case find_scan name val (length STATIC_TABLE + 1) name_only (map (\<lambda>e. (e_name e, e_value e)) (t_entries t)) of
             Inl i \<Rightarrow> (Some i, None) | Inr name_only \<Rightarrow> (None, name_only)))"

section \<open>Prefix integers\<close>

fun int_tail :: "nat \<Rightarrow> u8 list" where
  "int_tail v = (if v < 128 then [of_nat v] else of_nat (v mod 128 + 128) # int_tail (v div 128))"

declare int_tail.simps [simp del]

definition encode_int :: "nat \<Rightarrow> u8 \<Rightarrow> nat \<Rightarrow> u8 list" where
  "encode_int n prefix_bits v =
     (let mx = 2 ^ n - 1
      in if v < mx then [prefix_bits OR of_nat v] else (prefix_bits OR of_nat mx) # int_tail (v - mx))"

function decode_cont :: "u8 list \<Rightarrow> nat \<Rightarrow> nat \<Rightarrow> nat \<Rightarrow> hpack_error + nat \<times> nat" where
  "decode_cont buf pos v shift =
     (case nth_opt buf pos of None \<Rightarrow> Inl Truncated
      | Some b \<Rightarrow>
          if 64 \<le> shift then Inl IntegerOverflow
          else let add = unat (b AND 0x7f) * 2 ^ shift mod 2 ^ 64
               in if 2 ^ 64 \<le> v + add then Inl IntegerOverflow
                  else if b AND 0x80 = 0 then Inr (v + add, pos + 1)
                  else decode_cont buf (pos + 1) (v + add) (shift + 7))"
  by auto
termination by (relation "measure (\<lambda>(buf, pos, _). length buf - pos)") (auto simp: scan_simps)

declare decode_cont.simps [simp del]

definition decode_int :: "u8 list \<Rightarrow> nat \<Rightarrow> nat \<Rightarrow> hpack_error + nat \<times> nat" where
  "decode_int buf pos n =
     (case nth_opt buf pos of None \<Rightarrow> Inl Truncated
      | Some b \<Rightarrow> let mx = 2 ^ n - 1; v = unat b AND mx
                 in if v < mx then Inr (v, pos + 1) else decode_cont buf (pos + 1) v 0)"

section \<open>String literals\<close>

definition encode_string :: "u8 list \<Rightarrow> bool \<Rightarrow> u8 list" where
  "encode_string s huffman_allowed =
     (if huffman_allowed \<and> encoded_len s < length s
      then let coded = huff_encode s in encode_int 7 0x80 (length coded) @ coded
      else encode_int 7 0 (length s) @ s)"

definition decode_string :: "u8 list \<Rightarrow> nat \<Rightarrow> hpack_error + u8 list \<times> nat" where
  "decode_string buf pos =
     (case nth_opt buf pos of None \<Rightarrow> Inl Truncated
      | Some b \<Rightarrow>
          (case decode_int buf pos 7 of Inl e \<Rightarrow> Inl e
           | Inr (len, p) \<Rightarrow>
               if 2 ^ 64 \<le> p + len then Inl IntegerOverflow
               else if length buf < p + len then Inl Truncated
               else let raw = take len (drop p buf)
                    in if b AND 0x80 \<noteq> 0 then map_sum id (\<lambda>s. (s, p + len)) (huff_decode raw) else Inr (raw, p + len)))"

section \<open>Encoder and decoder\<close>

datatype mode = Indexed | NoIndex | NeverIndex

record encoder =
  enc_table :: htable
  enc_huffman :: bool

definition encoder_new :: "nat \<Rightarrow> bool \<Rightarrow> encoder" where
  "encoder_new capacity huffman = \<lparr> enc_table = table_new capacity, enc_huffman = huffman \<rparr>"

definition emit_table_size_update :: "nat \<Rightarrow> encoder \<Rightarrow> encoder \<times> u8 list" where
  "emit_table_size_update capacity e = (e\<lparr>enc_table := set_capacity capacity (enc_table e)\<rparr>, encode_int 5 0x20 capacity)"

definition encode_field :: "u8 list \<Rightarrow> u8 list \<Rightarrow> mode \<Rightarrow> encoder \<Rightarrow> encoder \<times> u8 list" where
  "encode_field name val m e =
     (let (full, name_only) = table_find name val (enc_table e)
      in case (full, m) of
           (Some idx, Indexed) \<Rightarrow> (e, encode_int 7 0x80 idx)
         | _ \<Rightarrow>
             let (prefix_len, prefix_bits) = (case m of Indexed \<Rightarrow> (6, 0x40) | NoIndex \<Rightarrow> (4, 0) | NeverIndex \<Rightarrow> (4, 0x10));
                 nm = (case (if name_only = None then full else name_only) of
                         Some idx \<Rightarrow> encode_int prefix_len prefix_bits idx
                       | None \<Rightarrow> encode_int prefix_len prefix_bits 0 @ encode_string name (enc_huffman e));
                 bytes = nm @ encode_string val (enc_huffman e)
             in (if m = Indexed then e\<lparr>enc_table := table_insert name val (enc_table e)\<rparr> else e, bytes))"

fun encode_with_modes :: "(u8 list \<times> u8 list \<times> mode) list \<Rightarrow> encoder \<Rightarrow> encoder \<times> u8 list" where
  "encode_with_modes [] e = (e, [])"
| "encode_with_modes ((n, v, m) # fs) e =
     (let (e1, bs) = encode_field n v m e; (e2, rest) = encode_with_modes fs e1 in (e2, bs @ rest))"

definition encode_headers :: "(u8 list \<times> u8 list) list \<Rightarrow> encoder \<Rightarrow> encoder \<times> u8 list" where
  "encode_headers fs e = encode_with_modes (map (\<lambda>(n, v). (n, v, Indexed)) fs) e"

record decoder =
  dec_table :: htable
  max_capacity :: nat

definition decoder_new :: "nat \<Rightarrow> decoder" where
  "decoder_new max_cap = \<lparr> dec_table = table_new max_cap, max_capacity = max_cap \<rparr>"

definition decoder_literal :: "u8 list \<Rightarrow> nat \<Rightarrow> nat \<Rightarrow> htable \<Rightarrow> hpack_error + (u8 list \<times> u8 list) \<times> nat" where
  "decoder_literal buf pos idx t =
     (case (if idx = 0 then decode_string buf pos
            else case table_get idx t of None \<Rightarrow> Inl BadIndex | Some (n, _) \<Rightarrow> Inr (n, pos)) of
        Inl e \<Rightarrow> Inl e
      | Inr (name, p) \<Rightarrow> (case decode_string buf p of Inl e \<Rightarrow> Inl e | Inr (val, q) \<Rightarrow> Inr ((name, val), q)))"

text \<open>One round of the decoding loop, without the count of fields: the position, whether a size update may follow, and the header list.\<close>

definition decode_step :: "u8 list \<Rightarrow> nat \<Rightarrow> bool \<Rightarrow> (u8 list \<times> u8 list) list \<Rightarrow> decoder \<Rightarrow> decoder \<times> (hpack_error + nat \<times> bool \<times> (u8 list \<times> u8 list) list)" where
  "decode_step buf pos updates_allowed out d =
     (let b = buf ! pos; t = dec_table d
      in if b AND 0x80 \<noteq> 0 then
           (case decode_int buf pos 7 of Inl e \<Rightarrow> (d, Inl e)
            | Inr (idx, p) \<Rightarrow> (case table_get idx t of None \<Rightarrow> (d, Inl BadIndex) | Some f \<Rightarrow> (d, Inr (p, False, out @ [f]))))
         else if b AND 0xc0 = 0x40 then
           (case decode_int buf pos 6 of Inl e \<Rightarrow> (d, Inl e)
            | Inr (idx, p) \<Rightarrow> (case decoder_literal buf p idx t of Inl e \<Rightarrow> (d, Inl e)
                | Inr ((name, val), q) \<Rightarrow> (d\<lparr>dec_table := table_insert name val t\<rparr>, Inr (q, False, out @ [(name, val)]))))
         else if b AND 0xe0 = 0x20 then
           (if \<not> updates_allowed then (d, Inl BadTableSizeUpdate)
            else case decode_int buf pos 5 of Inl e \<Rightarrow> (d, Inl e)
            | Inr (cap, p) \<Rightarrow>
                if max_capacity d < cap then (d, Inl BadTableSizeUpdate)
                else (d\<lparr>dec_table := set_capacity cap t\<rparr>, Inr (p, updates_allowed, out)))
         else
           (case decode_int buf pos 4 of Inl e \<Rightarrow> (d, Inl e)
            | Inr (idx, p) \<Rightarrow> (case decoder_literal buf p idx t of Inl e \<Rightarrow> (d, Inl e)
                | Inr (f, q) \<Rightarrow> (d, Inr (q, False, out @ [f])))))"

section \<open>The decoder makes progress\<close>

lemma decode_cont_pos: "decode_cont buf pos v shift = Inr (w, p) \<Longrightarrow> pos < p \<and> p \<le> length buf \<and> w < 2 ^ 64"
proof (induction buf pos v shift rule: decode_cont.induct)
  case (1 buf pos v shift)
  show ?case
  proof (cases "nth_opt buf pos")
    case None
    then show ?thesis using "1.prems" by (simp add: decode_cont.simps [of buf pos])
  next
    case (Some b)
    then have pos: "pos < length buf" by (simp add: scan_simps)
    let ?add = "unat (b AND 0x7f) * 2 ^ shift mod 2 ^ 64"
    have "\<not> 64 \<le> shift" "\<not> 2 ^ 64 \<le> v + ?add" using "1.prems" Some by (auto simp: decode_cont.simps [of buf pos] Let_def split: if_splits)
    with "1.prems" "1.IH" [OF Some _ refl] Some pos show ?thesis
      by (cases "b AND 0x80 = 0") (auto simp: decode_cont.simps [of buf pos] Let_def)
  qed
qed

lemma decode_int_pos:
  assumes "decode_int buf pos n = Inr (v, p)" and "n \<le> 8"
  shows "pos < p \<and> p \<le> length buf \<and> v < 2 ^ 64"
proof -
  have "(2 :: nat) ^ n \<le> 2 ^ 8" using assms(2) by (rule power_increasing) simp
  then show ?thesis using assms by (fastforce simp: decode_int_def Let_def scan_simps split: option.splits if_splits dest: decode_cont_pos)
qed

lemma decode_string_pos: "decode_string buf pos = Inr (s, p) \<Longrightarrow> pos < p \<and> p \<le> length buf"
  using decode_int_pos [of buf pos 7] by (auto simp: decode_string_def Let_def map_sum_def split: option.splits sum.splits if_splits prod.splits)

lemma decoder_literal_pos: "decoder_literal buf pos idx t = Inr (f, p) \<Longrightarrow> pos < p \<and> p \<le> length buf"
  by (auto simp: decoder_literal_def split: sum.splits if_splits option.splits dest!: decode_string_pos)

lemma decode_step_pos:
  assumes "decode_step buf pos upd out d = (d', Inr (p, upd', out'))"
  shows "pos < p \<and> p \<le> length buf"
  using assms decode_int_pos [of buf pos 7] decode_int_pos [of buf pos 6] decode_int_pos [of buf pos 5] decode_int_pos [of buf pos 4]
  by (auto simp: decode_step_def Let_def split: if_splits sum.splits option.splits prod.splits dest!: decoder_literal_pos)

text \<open>The decoding loop.\<close>

function decode_loop :: "u8 list \<Rightarrow> nat \<Rightarrow> bool \<Rightarrow> (u8 list \<times> u8 list) list \<Rightarrow> decoder \<Rightarrow> decoder \<times> (hpack_error + (u8 list \<times> u8 list) list)" where
  "decode_loop buf pos upd out d =
     (if pos < length buf
      then case decode_step buf pos upd out d of
             (d', Inl e) \<Rightarrow> (d', Inl e)
           | (d', Inr (p, upd', out')) \<Rightarrow> if MAX_FIELDS < length out' then (d', Inl TooManyFields) else decode_loop buf p upd' out' d'
      else (d, Inr out))"
  by auto
termination by (relation "measure (\<lambda>(buf, pos, _). length buf - pos)") (auto dest!: decode_step_pos [OF sym])

declare decode_loop.simps [simp del]

definition hpack_decode :: "u8 list \<Rightarrow> decoder \<Rightarrow> decoder \<times> (hpack_error + (u8 list \<times> u8 list) list)" where
  "hpack_decode buf d = decode_loop buf 0 True [] d"

section \<open>Integers and strings survive\<close>

lemma nth_opt_at [simp]: "nth_opt (pre @ x # post) (length pre) = Some x"
  by (simp add: nth_opt_def)

lemma low7: "unat ((w :: u8) AND 0x7f) = unat w mod 128"
proof -
  have "(w AND 0x7f) = take_bit 7 w" by (simp add: take_bit_eq_mask mask_eq_exp_minus_1)
  then show ?thesis by (simp add: take_bit_eq_mod unat_mod_distrib)
qed

lemma bit7: "(w :: u8) AND 0x80 = 0 \<longleftrightarrow> unat w < 128"
proof -
  have "w AND 0x80 = 0 \<longleftrightarrow> \<not> bit w 7" using and_exp_eq_0_iff_not_bit [of w 7] by simp
  also have "bit w 7 = bit (unat w) 7" by (simp add: bit_unsigned_iff)
  also have "\<not> bit (unat w) 7 \<longleftrightarrow> even (unat w div 128)" by (simp add: bit_iff_odd)
  also have "\<dots> \<longleftrightarrow> unat w < 128" using unsigned_less [of w, where 'a = nat] by (cases "unat w < 128") (simp_all add: le_div_geq)
  finally show ?thesis .
qed

lemma unat_byte: "k < 256 \<Longrightarrow> unat (of_nat k :: u8) = k"
  by (simp add: unsigned_of_nat take_bit_nat_eq_self)

lemma decode_cont_tail:
  "w + v * 2 ^ sh < 2 ^ 64 \<Longrightarrow> 0 < v \<or> sh < 64 \<Longrightarrow>
     decode_cont (pre @ int_tail v @ post) (length pre) w sh = Inr (w + v * 2 ^ sh, length pre + length (int_tail v))"
proof (induction v arbitrary: pre w sh rule: int_tail.induct)
  case (1 v)
  have sh: "\<not> 64 \<le> sh"
  proof
    assume "64 \<le> sh"
    then have "(2 :: nat) ^ 64 \<le> 2 ^ sh" by (rule power_increasing) simp
    moreover have "0 < v" using "1.prems"(2) \<open>64 \<le> sh\<close> by simp
    ultimately have "(2 :: nat) ^ 64 \<le> v * 2 ^ sh" by (metis One_nat_def Suc_leI le_trans mult.commute nat_mult_1_right mult_le_mono2)
    then show False using "1.prems"(1) by simp
  qed
  show ?case
  proof (cases "v < 128")
    case True
    then have t: "int_tail v = [of_nat v]" by (simp add: int_tail.simps [of v])
    have "v * 2 ^ sh mod 2 ^ 64 = v * 2 ^ sh" using "1.prems"(1) by simp
    then show ?thesis using True sh "1.prems"(1) unfolding t by (subst decode_cont.simps) (simp add: low7 bit7 unat_byte Let_def)
  next
    case False
    define b :: u8 where "b = of_nat (v mod 128 + 128)"
    have t: "int_tail v = b # int_tail (v div 128)" using False by (simp add: int_tail.simps [of v] b_def)
    have ub: "unat b = v mod 128 + 128" unfolding b_def by (rule unat_byte) simp
    define q r where "q = v div 128" and "r = v mod 128"
    have "v = r + 128 * q" by (simp add: q_def r_def)
    then have sum: "v * 2 ^ sh = r * 2 ^ sh + q * 2 ^ (sh + 7)" by (simp add: power_add algebra_simps)
    then have small: "r * 2 ^ sh mod 2 ^ 64 = r * 2 ^ sh" "w + r * 2 ^ sh < 2 ^ 64" using "1.prems"(1) by simp_all
    have "decode_cont (pre @ int_tail v @ post) (length pre) w sh = decode_cont ((pre @ [b]) @ int_tail q @ post) (length (pre @ [b])) (w + r * 2 ^ sh) (sh + 7)"
      unfolding t by (subst decode_cont.simps) (use sh small ub in \<open>simp add: low7 bit7 Let_def q_def r_def\<close>)
    also have "\<dots> = Inr (w + r * 2 ^ sh + q * 2 ^ (sh + 7), length (pre @ [b]) + length (int_tail q))"
      unfolding q_def by (rule "1.IH" [OF False]) (use "1.prems"(1) sum False in \<open>simp_all add: q_def div_greater_zero_iff\<close>)
    finally show ?thesis using sum by (simp add: t q_def)
  qed
qed

text \<open>The first byte of an encoded integer: the prefix above, part of the number below.\<close>

lemma encode_int_first:
  obtains k rest where "encode_int n pfx v = (pfx OR of_nat k) # rest" "k < 2 ^ n"
proof (cases "v < 2 ^ n - 1")
  case True
  then show ?thesis by (intro that [of v "[]"]) (simp_all add: encode_int_def Let_def)
next
  case False
  then show ?thesis by (intro that [of "2 ^ n - 1" "int_tail (v - (2 ^ n - 1))"]) (simp_all add: encode_int_def Let_def)
qed

lemma first_byte_high:
  assumes "k < 2 ^ n" and "take_bit n m = (0 :: u8)"
  shows "(pfx OR of_nat k) AND m = pfx AND (m :: u8)"
proof (rule bit_word_eqI)
  fix i
  have "\<not> bit k i" if "n \<le> i" using assms(1) that by (metis bit_take_bit_iff not_less take_bit_nat_eq_self)
  moreover have "\<not> bit m i" if "i < n" using assms(2) that by (metis bit_0_eq bit_take_bit_iff bot_apply bot_bool_def)
  ultimately show "bit ((pfx OR of_nat k) AND m) i = bit (pfx AND m) i" by (cases "i < n") (auto simp: bit_simps)
qed

lemma first_byte_low:
  assumes "k < 2 ^ n" and "n \<le> 8" and "take_bit n pfx = (0 :: u8)"
  shows "unat (pfx OR of_nat k) AND (2 ^ n - Suc 0) = k"
proof -
  define w :: u8 where "w = pfx OR of_nat k"
  have "take_bit n w = take_bit n (of_nat k)" using assms(3) by (simp add: take_bit_or w_def)
  moreover have "unat (take_bit n (of_nat k :: u8)) = k"
    using assms(1,2) by (simp add: unsigned_take_bit_eq unsigned_of_nat take_bit_take_bit min_absorb1 take_bit_nat_eq_self)
  moreover have "unat w AND (2 ^ n - Suc 0) = unat (take_bit n w)"
    using take_bit_eq_mask [of n "unat w"] by (simp add: unsigned_take_bit_eq mask_eq_exp_minus_1)
  ultimately show ?thesis by (simp add: w_def)
qed

lemma decode_encode_int:
  assumes v: "v < 2 ^ 64" and n: "n \<le> 8" and p: "take_bit n pfx = (0 :: u8)"
  shows "decode_int (pre @ encode_int n pfx v @ post) (length pre) n = Inr (v, length pre + length (encode_int n pfx v))"
proof (cases "v < 2 ^ n - 1")
  case True
  then have "v < 2 ^ n" by simp
  from first_byte_low [OF this n p] True show ?thesis by (simp add: encode_int_def decode_int_def)
next
  case False
  let ?mx = "2 ^ n - 1 :: nat"
  have lo: "unat (pfx OR of_nat ?mx) AND (2 ^ n - Suc 0) = ?mx" by (rule first_byte_low [OF _ n p]) simp
  have e: "encode_int n pfx v = (pfx OR of_nat ?mx) # int_tail (v - ?mx)" using False by (simp add: encode_int_def)
  have "decode_int (pre @ encode_int n pfx v @ post) (length pre) n
    = decode_cont ((pre @ [pfx OR of_nat ?mx]) @ int_tail (v - ?mx) @ post) (length (pre @ [pfx OR of_nat ?mx])) ?mx 0"
    using lo unfolding e by (simp add: decode_int_def Let_def del: of_nat_diff)
  also have "\<dots> = Inr (?mx + (v - ?mx) * 2 ^ 0, length (pre @ [pfx OR of_nat ?mx]) + length (int_tail (v - ?mx)))"
    by (rule decode_cont_tail) (use v False in simp_all)
  finally show ?thesis using False by (simp add: e)
qed

lemma decode_encode_string:
  assumes buf: "buf = pre @ encode_string s h @ post" and len: "length buf < 2 ^ 64"
  shows "decode_string buf (length pre) = Inr (s, length pre + length (encode_string s h))"
proof -
  have str: "decode_string buf (length pre) = Inr (s, length pre + length (encode_string s h))"
    if e: "encode_string s h = encode_int 7 pfx (length c) @ c" and pfx: "take_bit 7 pfx = (0 :: u8)"
      and c: "(if pfx AND 0x80 \<noteq> 0 then huff_decode c else Inr c) = Inr s" for pfx c
  proof -
    obtain k rest where k: "encode_int 7 pfx (length c) = (pfx OR of_nat k) # rest" "k < 2 ^ 7" by (rule encode_int_first)
    have "take_bit 7 (0x80 :: u8) = 0" by simp
    from first_byte_high [OF k(2) this] have b: "(pfx OR of_nat k) AND 0x80 = pfx AND 0x80" .
    have "length c < 2 ^ 64" using len by (simp add: buf e)
    from decode_encode_int [OF this _ pfx, of pre "c @ post"]
    have d: "decode_int buf (length pre) 7 = Inr (length c, length pre + length (encode_int 7 pfx (length c)))" by (simp add: buf e)
    have n: "nth_opt buf (length pre) = Some (pfx OR of_nat k)" by (simp add: buf e k(1))
    show ?thesis using n d b c len by (simp add: decode_string_def buf e split: if_splits)
  qed
  show ?thesis
  proof (cases "h \<and> encoded_len s < length s")
    case True
    then have "encode_string s h = encode_int 7 0x80 (length (huff_encode s)) @ huff_encode s" by (simp add: encode_string_def Let_def)
    then show ?thesis by (rule str) (simp_all add: huff_decode_encode)
  next
    case False
    then have "encode_string s h = encode_int 7 0 (length s) @ s" by (auto simp: encode_string_def)
    then show ?thesis by (rule str) simp_all
  qed
qed

section \<open>The dynamic table\<close>

abbreviation entries_size :: "hentry list \<Rightarrow> nat" where
  "entries_size es \<equiv> sum_list (map hentry_size es)"

definition table_inv :: "htable \<Rightarrow> bool" where
  "table_inv t \<longleftrightarrow> t_size t = entries_size (t_entries t) \<and> t_size t \<le> t_capacity t"

text \<open>Eviction keeps the newest entries that fit, and as many as fit.\<close>

lemma evict_longest:
  "t_size t = entries_size (t_entries t) \<Longrightarrow>
     \<exists>k. evict t = t\<lparr>t_entries := take k (t_entries t), t_size := entries_size (take k (t_entries t))\<rparr> \<and> k \<le> length (t_entries t) \<and>
       entries_size (take k (t_entries t)) \<le> t_capacity t \<and> (k < length (t_entries t) \<longrightarrow> t_capacity t < entries_size (take (Suc k) (t_entries t)))"
proof (induction t rule: evict.induct)
  case (1 t)
  let ?es = "t_entries t"
  show ?case
  proof (cases "t_size t \<le> t_capacity t")
    case True
    then show ?thesis using "1.prems" by (intro exI [of _ "length ?es"]) (simp add: evict.simps [of t])
  next
    case False
    then have ne: "?es \<noteq> []" using "1.prems" by auto
    let ?t = "t\<lparr>t_entries := butlast ?es, t_size := t_size t - hentry_size (last ?es)\<rparr>"
    have split: "entries_size ?es = entries_size (butlast ?es) + hentry_size (last ?es)"
      using ne by (subst append_butlast_last_id [OF ne, symmetric]) (simp del: append_butlast_last_id)
    then have "t_size ?t = entries_size (t_entries ?t)" using "1.prems" by simp
    from "1.IH" [OF False ne this] obtain k where k: "evict ?t = t\<lparr>t_entries := take k (butlast ?es), t_size := entries_size (take k (butlast ?es))\<rparr>"
      "k \<le> length ?es - 1" "entries_size (take k (butlast ?es)) \<le> t_capacity t"
      "k < length ?es - 1 \<longrightarrow> t_capacity t < entries_size (take (Suc k) (butlast ?es))" by auto
    have take: "take j (butlast ?es) = take j ?es" if "j \<le> length ?es - 1" for j using that by (simp add: butlast_conv_take)
    have "t_capacity t < entries_size (take (Suc k) ?es)" if "k < length ?es"
      using k(4) take [of "Suc k"] False "1.prems" that by (cases "k < length ?es - 1") (auto simp: not_less)
    moreover have "evict t = evict ?t" using False ne by (simp add: evict.simps [of t])
    ultimately show ?thesis using k take [OF k(2)] by (intro exI [of _ k]) auto
  qed
qed

lemma evict_inv: "t_size t = entries_size (t_entries t) \<Longrightarrow> table_inv (evict t) \<and> t_capacity (evict t) = t_capacity t"
  by (drule evict_longest) (auto simp: table_inv_def)

lemma insert_inv: "table_inv t \<Longrightarrow> table_inv (table_insert n v t) \<and> t_capacity (table_insert n v t) = t_capacity t"
proof -
  assume inv: "table_inv t"
  let ?e = "\<lparr> e_name = n, e_value = v \<rparr>"
  let ?t = "t\<lparr>t_entries := ?e # t_entries t, t_size := t_size t + hentry_size ?e\<rparr>"
  have "t_size ?t = entries_size (t_entries ?t)" using inv by (simp add: table_inv_def)
  from evict_inv [OF this] show ?thesis by (auto simp: table_insert_def Let_def table_inv_def)
qed

lemma set_capacity_inv: "table_inv t \<Longrightarrow> table_inv (set_capacity c t) \<and> t_capacity (set_capacity c t) = c"
  using evict_inv [of "t\<lparr>t_capacity := c\<rparr>"] by (simp add: set_capacity_def table_inv_def)

lemma entries_bounded: "table_inv t \<Longrightarrow> 32 * length (t_entries t) \<le> t_capacity t"
proof -
  have "32 * length es \<le> entries_size es" for es by (induction es) (simp_all add: hentry_size_def ENTRY_OVERHEAD_def)
  then show "table_inv t \<Longrightarrow> 32 * length (t_entries t) \<le> t_capacity t" unfolding table_inv_def by (metis le_trans)
qed

text \<open>What the search finds is what the lookup answers.\<close>

lemma find_scan_full:
  "find_scan n v i name_only rows = Inl j \<Longrightarrow> \<exists>k < length rows. j = i + k \<and> rows ! k = (n, v)"
proof (induction rows arbitrary: i name_only)
  case (Cons r rows)
  obtain a b where r: "r = (a, b)" by force
  show ?case
  proof (cases "a = n \<and> b = v")
    case True
    then show ?thesis using Cons.prems r by (intro exI [of _ 0]) simp
  next
    case False
    then obtain no where "find_scan n v (i + 1) no rows = Inl j" using Cons.prems r by (auto split: if_splits)
    from Cons.IH [OF this] obtain k where "k < length rows" "j = i + 1 + k" "rows ! k = (n, v)" by blast
    then show ?thesis by (intro exI [of _ "Suc k"]) simp
  qed
qed simp

lemma find_scan_name:
  "find_scan n v i name_only rows = Inr (Some j) \<Longrightarrow> name_only = Some j \<or> (\<exists>k < length rows. j = i + k \<and> fst (rows ! k) = n)"
proof (induction rows arbitrary: i name_only)
  case (Cons r rows)
  obtain a b where r: "r = (a, b)" by force
  define no where "no = (if a = n \<and> name_only = None then Some i else name_only)"
  have "find_scan n v (i + 1) no rows = Inr (Some j)" using Cons.prems r by (auto simp: no_def split: if_splits)
  from Cons.IH [OF this] consider "no = Some j" | k where "k < length rows" "j = i + 1 + k" "fst (rows ! k) = n" by blast
  then show ?case
  proof cases
    case 1
    then show ?thesis using r by (auto simp: no_def split: if_splits intro: exI [of _ 0])
  next
    case 2
    then show ?thesis by (intro disjI2 exI [of _ "Suc k"]) simp
  qed
qed simp

lemma static_length [simp]: "length STATIC_TABLE = 61"
  by (simp add: STATIC_TABLE_def)

lemma static_get: "k < 61 \<Longrightarrow> table_get (1 + k) t = Some (STATIC_TABLE ! k)"
  by (simp add: table_get_def)

lemma dynamic_get: "k < length (t_entries t) \<Longrightarrow> table_get (62 + k) t = Some (e_name (t_entries t ! k), e_value (t_entries t ! k))"
  by (simp add: table_get_def nth_opt_def)

definition names :: "nat \<Rightarrow> u8 list \<Rightarrow> htable \<Rightarrow> bool" where
  "names i n t \<longleftrightarrow> 0 < i \<and> i \<le> 61 + length (t_entries t) \<and> map_option fst (table_get i t) = Some n"

lemma table_find_sound:
  assumes "table_find n v t = (full, name_only)"
  shows "full = Some i \<Longrightarrow> names i n t \<and> table_get i t = Some (n, v)" "name_only = Some i \<Longrightarrow> names i n t"
proof -
  let ?dyn = "map (\<lambda>e. (e_name e, e_value e)) (t_entries t)"
  have st: "names (1 + k) n t" "table_get (1 + k) t = Some (STATIC_TABLE ! k)" if "k < 61" "fst (STATIC_TABLE ! k) = n" for k
    using that static_get [of k t] by (simp_all add: names_def)
  have dy: "names (62 + k) n t" "table_get (62 + k) t = Some (?dyn ! k)" if "k < length ?dyn" "fst (?dyn ! k) = n" for k
    using that dynamic_get [of k t] by (simp_all add: names_def)
  consider j where "find_scan n v 1 None STATIC_TABLE = Inl j" "full = Some j" "name_only = None"
    | no j where "find_scan n v 1 None STATIC_TABLE = Inr no" "find_scan n v 62 no ?dyn = Inl j" "full = Some j" "name_only = None"
    | no where "find_scan n v 1 None STATIC_TABLE = Inr no" "find_scan n v 62 no ?dyn = Inr name_only" "full = None"
    using assms by (auto simp: table_find_def split: sum.splits)
  note cases = this
  show "names i n t \<and> table_get i t = Some (n, v)" if "full = Some i"
    using cases
  proof cases
    case 1
    from find_scan_full [OF 1(1)] obtain k where "k < 61" "j = 1 + k" "STATIC_TABLE ! k = (n, v)" by auto
    then show ?thesis using st [of k] 1(2) that by simp
  next
    case 2
    from find_scan_full [OF 2(2)] obtain k where "k < length ?dyn" "j = 62 + k" "?dyn ! k = (n, v)" by blast
    then show ?thesis using dy [of k] 2(3) that by simp
  next
    case 3
    then show ?thesis using that by simp
  qed
  show "names i n t" if "name_only = Some i"
    using cases
  proof cases
    case 3
    from find_scan_name [OF 3(2) [unfolded that]] consider "no = Some i" | k where "k < length ?dyn" "i = 62 + k" "fst (?dyn ! k) = n" by blast
    then show ?thesis
    proof cases
      case 1
      from find_scan_name [OF 3(1) [unfolded 1]] obtain k where "k < 61" "i = 1 + k" "fst (STATIC_TABLE ! k) = n" by auto
      then show ?thesis using st [of k] by simp
    next
      case 2
      then show ?thesis using dy [of k] by simp
    qed
  qed (use that in simp_all)
qed

section \<open>Encoder and decoder stay in step\<close>

lemma encode_int_ne: "encode_int n pfx v \<noteq> []"
  by (simp add: encode_int_def Let_def)

lemma int_first_byte:
  assumes "take_bit n m = (0 :: u8)"
  shows "(pre @ encode_int n pfx v @ post) ! length pre AND m = pfx AND m"
proof -
  obtain k rest where k: "encode_int n pfx v = (pfx OR of_nat k) # rest" "k < 2 ^ n" by (rule encode_int_first)
  show ?thesis unfolding k(1) using first_byte_high [OF k(2) assms] by simp
qed

definition mode_prefix :: "mode \<Rightarrow> nat \<times> u8" where
  "mode_prefix m = (case m of Indexed \<Rightarrow> (6, 0x40) | NoIndex \<Rightarrow> (4, 0) | NeverIndex \<Rightarrow> (4, 0x10))"

text \<open>What a field becomes: an index, or a prefix integer that names an entry or announces a name, then the strings.\<close>

lemma encode_field_cases:
  assumes e: "encode_field name val m e = (e', bs)" and inv: "table_inv (enc_table e)" and cap: "t_capacity (enc_table e) < 2 ^ 64"
  obtains (index) i where "m = Indexed" "e' = e" "bs = encode_int 7 0x80 i" "i < 2 ^ 64" "table_get i (enc_table e) = Some (name, val)"
  | (literal) i nm where "e' = (if m = Indexed then e\<lparr>enc_table := table_insert name val (enc_table e)\<rparr> else e)" "i < 2 ^ 64"
      "bs = encode_int (fst (mode_prefix m)) (snd (mode_prefix m)) i @ nm @ encode_string val (enc_huffman e)"
      "i = 0 \<and> nm = encode_string name (enc_huffman e) \<or> names i name (enc_table e) \<and> nm = []"
proof -
  let ?t = "enc_table e"
  obtain full no where f: "table_find name val ?t = (full, no)" by force
  have small: "i < 2 ^ 64" if "names i name ?t" for i
    using that entries_bounded [OF inv] cap by (simp add: names_def)
  show ?thesis
  proof (cases "m = Indexed \<and> full \<noteq> None")
    case True
    then obtain i where i: "full = Some i" "m = Indexed" by auto
    then have "names i name ?t" "table_get i ?t = Some (name, val)" using table_find_sound(1) [OF f] by blast+
    moreover have "e' = e" "bs = encode_int 7 0x80 i" using e f i by (simp_all add: encode_field_def)
    ultimately show ?thesis using index [OF i(2)] small by blast
  next
    case False
    define pick where "pick = (if no = None then full else no)"
    define nm where "nm = (case pick of None \<Rightarrow> encode_string name (enc_huffman e) | Some _ \<Rightarrow> [])"
    define i where "i = (case pick of None \<Rightarrow> 0 | Some i \<Rightarrow> i)"
    have pick: "names j name ?t" if "pick = Some j" for j
      using that table_find_sound [OF f, of j] by (auto simp: pick_def split: if_splits)
    have "e' = (if m = Indexed then e\<lparr>enc_table := table_insert name val ?t\<rparr> else e)"
      "bs = encode_int (fst (mode_prefix m)) (snd (mode_prefix m)) i @ nm @ encode_string val (enc_huffman e)"
      using e f False by (auto simp: encode_field_def Let_def mode_prefix_def i_def nm_def pick_def split: option.splits mode.splits)
    moreover have "i = 0 \<and> nm = encode_string name (enc_huffman e) \<or> names i name ?t \<and> nm = []"
      using pick by (cases pick) (simp_all add: i_def nm_def)
    moreover have "i < 2 ^ 64" using pick small by (cases pick) (simp_all add: i_def)
    ultimately show ?thesis using literal by blast
  qed
qed

lemma decode_literal:
  assumes buf: "buf = pre @ nm @ encode_string val h @ post" and len: "length buf < 2 ^ 64"
    and nm: "i = 0 \<and> nm = encode_string name h \<or> names i name t \<and> nm = []"
  shows "decoder_literal buf (length pre) i t = Inr ((name, val), length pre + length nm + length (encode_string val h))"
proof -
  have v: "decode_string buf (length pre + length nm) = Inr (val, length pre + length nm + length (encode_string val h))"
    using decode_encode_string [of buf "pre @ nm" val h post] buf len by simp
  from nm show ?thesis
  proof
    assume a: "i = 0 \<and> nm = encode_string name h"
    then have "decode_string buf (length pre) = Inr (name, length pre + length nm)"
      using decode_encode_string [of buf pre name h "encode_string val h @ post"] buf len by simp
    then show ?thesis using a v by (simp add: decoder_literal_def)
  next
    assume a: "names i name t \<and> nm = []"
    then obtain w where "table_get i t = Some (name, w)" "i \<noteq> 0" by (auto simp: names_def)
    then show ?thesis using a v by (simp add: decoder_literal_def)
  qed
qed

text \<open>The decoder undoes one field.\<close>

lemma field_step:
  assumes e: "encode_field name val m e = (e', bs)" and inv: "table_inv (enc_table e)" and cap: "t_capacity (enc_table e) < 2 ^ 64"
    and d: "dec_table d = enc_table e" and buf: "buf = pre @ bs @ post" and len: "length buf < 2 ^ 64"
  shows "decode_step buf (length pre) upd out d = (d\<lparr>dec_table := enc_table e'\<rparr>, Inr (length pre + length bs, False, out @ [(name, val)]))"
    "bs \<noteq> []" "table_inv (enc_table e')" "t_capacity (enc_table e') = t_capacity (enc_table e)" "enc_huffman e' = enc_huffman e"
proof -
  have same: "d\<lparr>dec_table := enc_table e\<rparr> = d" using d by (cases d) simp
  show "decode_step buf (length pre) upd out d = (d\<lparr>dec_table := enc_table e'\<rparr>, Inr (length pre + length bs, False, out @ [(name, val)]))"
  proof (cases rule: encode_field_cases [OF e inv cap, case_names index literal])
    case (index i)
    have b: "buf ! length pre AND 0x80 = 0x80" using int_first_byte [of 7 "0x80" pre "0x80" i post] by (simp add: buf index)
    have i: "decode_int buf (length pre) 7 = Inr (i, length pre + length bs)"
      using decode_encode_int [OF index(4), of 7 "0x80" pre post] by (simp add: buf index)
    show ?thesis using index(2,5) b i same by (simp add: decode_step_def d)
  next
    case (literal i nm)
    let ?n = "fst (mode_prefix m)" and ?p = "snd (mode_prefix m)"
    let ?rest = "nm @ encode_string val (enc_huffman e) @ post"
    have full: "buf = pre @ encode_int ?n ?p i @ ?rest" by (simp add: buf literal(3))
    have np: "?n \<le> 8" "take_bit ?n ?p = 0" by (cases m; simp add: mode_prefix_def)+
    have i: "decode_int buf (length pre) ?n = Inr (i, length (pre @ encode_int ?n ?p i))"
      using decode_encode_int [OF literal(2) np, of pre ?rest] by (simp add: full)
    have byte: "buf ! length pre AND k = ?p AND k" if "take_bit ?n k = 0" for k
      unfolding full by (rule int_first_byte [OF that])
    have l: "decoder_literal buf (length (pre @ encode_int ?n ?p i)) i (enc_table e) = Inr ((name, val), length pre + length bs)"
      using decode_literal [of buf "pre @ encode_int ?n ?p i" nm val "enc_huffman e" post, OF _ len literal(4)] by (simp add: full literal(3))
    show ?thesis
    proof (cases m)
      case Indexed
      then have "buf ! length pre AND 0x80 = 0" "buf ! length pre AND 0xc0 = 0x40" using byte [of "0x80"] byte [of "0xc0"] by (simp_all add: mode_prefix_def)
      then show ?thesis using i l literal(1) Indexed by (simp add: decode_step_def d mode_prefix_def)
    next
      case NoIndex
      then have "buf ! length pre AND 0x80 = 0" "buf ! length pre AND 0xc0 = 0" "buf ! length pre AND 0xe0 = 0"
        using byte [of "0x80"] byte [of "0xc0"] byte [of "0xe0"] by (simp_all add: mode_prefix_def)
      then show ?thesis using i l literal(1) NoIndex same by (simp add: decode_step_def d mode_prefix_def)
    next
      case NeverIndex
      then have "buf ! length pre AND 0x80 = 0" "buf ! length pre AND 0xc0 = 0" "buf ! length pre AND 0xe0 = 0"
        using byte [of "0x80"] byte [of "0xc0"] byte [of "0xe0"] by (simp_all add: mode_prefix_def)
      then show ?thesis using i l literal(1) NeverIndex same by (simp add: decode_step_def d mode_prefix_def)
    qed
  qed
  have "bs \<noteq> [] \<and> table_inv (enc_table e') \<and> t_capacity (enc_table e') = t_capacity (enc_table e) \<and> enc_huffman e' = enc_huffman e"
  proof (cases rule: encode_field_cases [OF e inv cap, case_names index literal])
    case (index i)
    then show ?thesis using inv encode_int_ne by simp
  next
    case (literal i nm)
    show ?thesis unfolding literal(1,3) using inv insert_inv [OF inv, of name val] encode_int_ne by simp
  qed
  then show "bs \<noteq> []" "table_inv (enc_table e')" "t_capacity (enc_table e') = t_capacity (enc_table e)" "enc_huffman e' = enc_huffman e" by simp_all
qed

lemma block_fields:
  "encode_with_modes fs e = (e', bs) \<Longrightarrow> table_inv (enc_table e) \<Longrightarrow> t_capacity (enc_table e) < 2 ^ 64 \<Longrightarrow> dec_table d = enc_table e \<Longrightarrow>
     buf = pre @ bs \<Longrightarrow> length buf < 2 ^ 64 \<Longrightarrow> length out + length fs \<le> MAX_FIELDS \<Longrightarrow>
     decode_loop buf (length pre) upd out d = (d\<lparr>dec_table := enc_table e'\<rparr>, Inr (out @ map (\<lambda>(n, v, _). (n, v)) fs)) \<and>
     table_inv (enc_table e') \<and> t_capacity (enc_table e') = t_capacity (enc_table e)"
proof (induction fs arbitrary: e d pre out upd bs)
  case Nil
  then have "d\<lparr>dec_table := enc_table e\<rparr> = d" by (cases d) simp
  with Nil show ?case by (simp add: decode_loop.simps)
next
  case (Cons f fs)
  obtain n v m where f: "f = (n, v, m)" by (rule prod_cases3)
  obtain e1 b1 where e1: "encode_field n v m e = (e1, b1)" by force
  obtain b2 where e2: "encode_with_modes fs e1 = (e', b2)" "bs = b1 @ b2" using Cons.prems(1) f e1 by (cases "encode_with_modes fs e1") simp
  have buf: "buf = pre @ b1 @ b2" using Cons.prems(5) e2 by simp
  note s = field_step [OF e1 Cons.prems(2,3,4) buf Cons.prems(6)]
  let ?d = "d\<lparr>dec_table := enc_table e1\<rparr>"
  have "decode_loop buf (length pre) upd out d = decode_loop buf (length (pre @ b1)) False (out @ [(n, v)]) ?d"
    using s(1) [of upd out] s(2) Cons.prems(7) buf by (subst decode_loop.simps) simp
  moreover have "decode_loop buf (length (pre @ b1)) False (out @ [(n, v)]) ?d
      = (?d\<lparr>dec_table := enc_table e'\<rparr>, Inr ((out @ [(n, v)]) @ map (\<lambda>(n, v, _). (n, v)) fs)) \<and>
    table_inv (enc_table e') \<and> t_capacity (enc_table e') = t_capacity (enc_table e1)"
    by (rule Cons.IH [OF e2(1)]) (use s Cons.prems buf in simp_all)
  ultimately show ?case using s(4) by (simp add: f)
qed

text \<open>A header block as a connection sends it: size updates, then fields.\<close>

fun emit_updates :: "nat list \<Rightarrow> encoder \<Rightarrow> encoder \<times> u8 list" where
  "emit_updates [] e = (e, [])"
| "emit_updates (c # cs) e = (let (e1, b1) = emit_table_size_update c e; (e2, b2) = emit_updates cs e1 in (e2, b1 @ b2))"

definition send_block :: "nat list \<times> (u8 list \<times> u8 list \<times> mode) list \<Rightarrow> encoder \<Rightarrow> encoder \<times> u8 list" where
  "send_block = (\<lambda>(caps, fs) e. let (e1, b1) = emit_updates caps e; (e2, b2) = encode_with_modes fs e1 in (e2, b1 @ b2))"

lemma update_step:
  assumes e: "emit_table_size_update c e = (e', bs)" and d: "dec_table d = enc_table e" and c: "c \<le> max_capacity d" "c < 2 ^ 64"
    and buf: "buf = pre @ bs @ post"
  shows "decode_step buf (length pre) True out d = (d\<lparr>dec_table := enc_table e'\<rparr>, Inr (length pre + length bs, True, out))" "bs \<noteq> []"
proof -
  have bs: "bs = encode_int 5 0x20 c" "enc_table e' = set_capacity c (enc_table e)" using e by (auto simp: emit_table_size_update_def)
  have i: "decode_int buf (length pre) 5 = Inr (c, length pre + length bs)"
    using decode_encode_int [OF c(2), of 5 "0x20" pre post] by (simp add: buf bs)
  have "buf ! length pre AND 0x80 = 0" "buf ! length pre AND 0xc0 = 0" "buf ! length pre AND 0xe0 = 0x20"
    using int_first_byte [of 5 "0x80" pre "0x20" c post] int_first_byte [of 5 "0xc0" pre "0x20" c post] int_first_byte [of 5 "0xe0" pre "0x20" c post]
    by (simp_all add: buf bs)
  then show "decode_step buf (length pre) True out d = (d\<lparr>dec_table := enc_table e'\<rparr>, Inr (length pre + length bs, True, out))"
    using i c by (simp add: decode_step_def d bs)
  show "bs \<noteq> []" unfolding bs by (rule encode_int_ne)
qed

lemma block_updates:
  "emit_updates caps e = (e', us) \<Longrightarrow> table_inv (enc_table e) \<Longrightarrow> dec_table d = enc_table e \<Longrightarrow> max_capacity d < 2 ^ 64 \<Longrightarrow>
     list_all (\<lambda>c. c \<le> max_capacity d) caps \<Longrightarrow> t_capacity (enc_table e) \<le> max_capacity d \<Longrightarrow> buf = pre @ us @ post \<Longrightarrow>
     decode_loop buf (length pre) True [] d = decode_loop buf (length (pre @ us)) True [] (d\<lparr>dec_table := enc_table e'\<rparr>) \<and>
     table_inv (enc_table e') \<and> t_capacity (enc_table e') \<le> max_capacity d"
proof (induction caps arbitrary: e d pre us)
  case Nil
  then have "e' = e" "us = []" by simp_all
  moreover from Nil have eq: "d\<lparr>dec_table := enc_table e\<rparr> = d" by (cases d) simp
  ultimately show ?case using Nil by (simp add: eq)
next
  case (Cons c caps)
  obtain e1 b1 where e1: "emit_table_size_update c e = (e1, b1)" by force
  obtain b2 where e2: "emit_updates caps e1 = (e', b2)" "us = b1 @ b2" using Cons.prems(1) e1 by (cases "emit_updates caps e1") simp
  let ?d = "d\<lparr>dec_table := enc_table e1\<rparr>"
  have c: "c \<le> max_capacity d" "c < 2 ^ 64" using Cons.prems(4,5) by simp_all
  have buf: "buf = pre @ b1 @ (b2 @ post)" using Cons.prems(7) e2 by simp
  note s = update_step [OF e1 Cons.prems(3) c buf]
  have t: "enc_table e1 = set_capacity c (enc_table e)" using e1 by (auto simp: emit_table_size_update_def)
  have "decode_loop buf (length pre) True [] d = decode_loop buf (length (pre @ b1)) True [] ?d"
    using s(1) [of "[]"] s(2) buf by (subst decode_loop.simps) simp
  moreover have "decode_loop buf (length (pre @ b1)) True [] ?d = decode_loop buf (length ((pre @ b1) @ b2)) True [] (?d\<lparr>dec_table := enc_table e'\<rparr>) \<and>
     table_inv (enc_table e') \<and> t_capacity (enc_table e') \<le> max_capacity ?d"
    by (rule Cons.IH [OF e2(1)]) (use Cons.prems buf t c set_capacity_inv [OF Cons.prems(2), of c] in simp_all)
  ultimately show ?case by (simp add: e2)
qed

text \<open>A connection: the two ends, and what was sent beside what came out.\<close>

type_synonym hblock = "nat list \<times> (u8 list \<times> u8 list \<times> mode) list"
type_synonym header_list = "(u8 list \<times> u8 list) list"
type_synonym hconn = "encoder \<times> decoder \<times> (header_list \<times> (hpack_error + header_list)) list"

fun hconn_step :: "hconn \<Rightarrow> hblock \<Rightarrow> hconn" where
  "hconn_step (e, d, log) (caps, fs) =
     (let (e', bs) = send_block (caps, fs) e; (d', r) = hpack_decode bs d in (e', d', log @ [(map (\<lambda>(n, v, _). (n, v)) fs, r)]))"

fun hconn_pre :: "hconn \<Rightarrow> hblock \<Rightarrow> bool" where
  "hconn_pre (e, d, log) (caps, fs) \<longleftrightarrow>
     list_all (\<lambda>c. c \<le> max_capacity d) caps \<and> length fs \<le> MAX_FIELDS \<and> length (snd (send_block (caps, fs) e)) < 2 ^ 64"

definition in_step :: "hconn \<Rightarrow> bool" where
  "in_step = (\<lambda>(e, d, log). table_inv (enc_table e) \<and> dec_table d = enc_table e \<and> t_capacity (enc_table e) \<le> max_capacity d \<and> max_capacity d < 2 ^ 64 \<and>
     list_all (\<lambda>(sent, got). got = Inr sent) log)"

lemma hconn_step_in_step:
  assumes inv: "in_step s" and pre: "hconn_pre s b"
  shows "in_step (hconn_step s b)"
proof -
  obtain e d log where s: "s = (e, d, log)" by (rule prod_cases3)
  obtain caps fs where b: "b = (caps, fs)" by force
  have i: "table_inv (enc_table e)" "dec_table d = enc_table e" "t_capacity (enc_table e) \<le> max_capacity d" "max_capacity d < 2 ^ 64"
    "list_all (\<lambda>(sent, got). got = Inr sent) log" using inv by (simp_all add: s in_step_def)
  obtain e1 b1 where u: "emit_updates caps e = (e1, b1)" by force
  obtain e2 b2 where f: "encode_with_modes fs e1 = (e2, b2)" by force
  have send: "send_block (caps, fs) e = (e2, b1 @ b2)" by (simp add: send_block_def u f)
  have p: "list_all (\<lambda>c. c \<le> max_capacity d) caps" "length fs \<le> MAX_FIELDS" "length (b1 @ b2) < 2 ^ 64" using pre by (simp_all add: s b send)
  let ?d = "d\<lparr>dec_table := enc_table e1\<rparr>"
  have one: "decode_loop (b1 @ b2) 0 True [] d = decode_loop (b1 @ b2) (length b1) True [] ?d" "table_inv (enc_table e1)" "t_capacity (enc_table e1) \<le> max_capacity d"
    using block_updates [OF u i(1,2,4) p(1) i(3), of "b1 @ b2" "[]" b2] by simp_all
  have two: "decode_loop (b1 @ b2) (length b1) True [] ?d = (?d\<lparr>dec_table := enc_table e2\<rparr>, Inr ([] @ map (\<lambda>(n, v, _). (n, v)) fs)) \<and>
     table_inv (enc_table e2) \<and> t_capacity (enc_table e2) = t_capacity (enc_table e1)"
    by (rule block_fields [OF f one(2)]) (use one i p in simp_all)
  have "hconn_step s b = (e2, d\<lparr>dec_table := enc_table e2\<rparr>, log @ [(map (\<lambda>(n, v, _). (n, v)) fs, Inr (map (\<lambda>(n, v, _). (n, v)) fs))])"
    using one(1) two by (simp add: s b send hpack_decode_def)
  then show ?thesis using two one i by (simp add: in_step_def)
qed

interpretation hc: machine hconn_step hconn_pre in_step
  by unfold_locales (rule hconn_step_in_step)

section \<open>Any input\<close>

definition decoder_ok :: "nat \<Rightarrow> decoder \<Rightarrow> bool" where
  "decoder_ok mx d \<longleftrightarrow> table_inv (dec_table d) \<and> t_capacity (dec_table d) \<le> mx \<and> max_capacity d = mx"

lemma decode_step_ok:
  assumes "decoder_ok mx d" and "decode_step buf pos upd out d = (d', r)"
  shows "decoder_ok mx d'"
proof -
  have ins: "decoder_ok mx (d\<lparr>dec_table := table_insert n v (dec_table d)\<rparr>)" for n v
    using assms(1) insert_inv [of "dec_table d" n v] by (simp add: decoder_ok_def)
  have cap: "decoder_ok mx (d\<lparr>dec_table := set_capacity c (dec_table d)\<rparr>)" if "c \<le> max_capacity d" for c
    using assms(1) set_capacity_inv [of "dec_table d" c] that by (simp add: decoder_ok_def)
  show ?thesis using assms ins cap by (auto simp: decode_step_def Let_def not_less split: if_splits sum.splits option.splits prod.splits)
qed

lemma decode_loop_ok:
  "decoder_ok mx d \<Longrightarrow> length out \<le> MAX_FIELDS \<Longrightarrow> decode_loop buf pos upd out d = (d', r) \<Longrightarrow>
     decoder_ok mx d' \<and> (\<forall>fs. r = Inr fs \<longrightarrow> length fs \<le> MAX_FIELDS)"
proof (induction buf pos upd out d arbitrary: d' r rule: decode_loop.induct)
  case (1 buf pos upd out d)
  obtain d1 r1 where s: "decode_step buf pos upd out d = (d1, r1)" by force
  have ok: "decoder_ok mx d1" by (rule decode_step_ok [OF "1.prems"(1) s])
  show ?case
  proof (cases "pos < length buf")
    case False
    then show ?thesis using "1.prems" by (auto simp: decode_loop.simps [of buf pos])
  next
    case True
    show ?thesis
    proof (cases r1)
      case (Inl e)
      then show ?thesis using "1.prems"(3) True s ok by (auto simp: decode_loop.simps [of buf pos])
    next
      case (Inr q)
      obtain p upd' out' where q: "q = (p, upd', out')" by (rule prod_cases3)
      show ?thesis
      proof (cases "MAX_FIELDS < length out'")
        case big: True
        then show ?thesis using "1.prems"(3) True s ok Inr q by (auto simp: decode_loop.simps [of buf pos])
      next
        case small: False
        then have "decode_loop buf p upd' out' d1 = (d', r)" using "1.prems"(3) True s Inr q by (simp add: decode_loop.simps [of buf pos])
        then show ?thesis using "1.IH" [OF True s [symmetric] Inr q [symmetric] refl small ok] small by simp
      qed
    qed
  qed
qed

section \<open>Properties\<close>

text \<open>
  C26: the two ends of a connection never disagree. Let an encoder and a decoder start with tables of the same capacity, and let the encoder send any sequence of header blocks, each with any size
  updates up to the decoder's maximum followed by at most 128 fields in any representation, with Huffman coding or without. Then every block decodes to exactly the fields that were sent, in order, and after each block both
  dynamic tables are equal, hold entries of the accounted size, and fit their capacity.
\<close>

theorem hpack_in_step:
  assumes mx: "mx < 2 ^ 64" and run: "ok_run hconn_step hconn_pre (encoder_new mx huffman, decoder_new mx, []) blocks"
    and res: "run_ops hconn_step (encoder_new mx huffman, decoder_new mx, []) blocks = (e, d, log)"
  shows "log = map (\<lambda>(_, fs). (map (\<lambda>(n, v, _). (n, v)) fs, Inr (map (\<lambda>(n, v, _). (n, v)) fs))) blocks \<and> dec_table d = enc_table e \<and> table_inv (enc_table e)"
proof -
  let ?s = "(encoder_new mx huffman, decoder_new mx, [])"
  have "in_step ?s" using mx by (simp add: in_step_def encoder_new_def decoder_new_def table_new_def table_inv_def)
  then have inv: "in_step (e, d, log)" using hc.run_inv [OF _ run] res by simp
  have sent: "map fst (snd (snd (run_ops hconn_step s bs))) = map fst (snd (snd s)) @ map (\<lambda>(_, fs). map (\<lambda>(n, v, _). (n, v)) fs) bs" for s bs
  proof (induction bs arbitrary: s)
    case (Cons b bs)
    obtain e d log where s: "s = (e, d, log)" by (rule prod_cases3)
    obtain caps fs where b: "b = (caps, fs)" by force
    show ?case using Cons [of "hconn_step s b"] by (simp add: s b split: prod.splits)
  qed simp
  have fst: "map fst log = map (\<lambda>(_, fs). map (\<lambda>(n, v, _). (n, v)) fs) blocks" using sent [of ?s blocks] by (simp add: res)
  have "map (\<lambda>x. (fst x, Inr (fst x))) log = log" by (rule map_idI) (use inv in \<open>auto simp: in_step_def list_all_iff\<close>)
  then have "log = map (\<lambda>x. (x, Inr x)) (map fst log)" by (simp add: comp_def)
  then have "log = map (\<lambda>x. (x, Inr x)) (map (\<lambda>(_, fs). map (\<lambda>(n, v, _). (n, v)) fs) blocks)" unfolding fst .
  then show ?thesis using inv by (simp add: in_step_def split_def comp_def)
qed

theorem hpack_in_step_witness:
  "\<exists>e d log. run_ops hconn_step (encoder_new 4096 False, decoder_new 4096, []) [([100], [([120], [121], NeverIndex)])] = (e, d, log) \<and>
     log = [([([120], [121])], Inr [([120], [121])])] \<and> dec_table d = enc_table e"
proof -
  let ?s = "(encoder_new 4096 False, decoder_new 4096, [])" and ?bs = "[([100], [([120], [121], NeverIndex)])] :: hblock list"
  obtain e d log where r: "run_ops hconn_step ?s ?bs = (e, d, log)" by (rule prod_cases3)
  have "find_scan [120] [121] 1 None STATIC_TABLE = Inr None" by (simp add: STATIC_TABLE_def ascii_def)
  then have "ok_run hconn_step hconn_pre ?s ?bs"
    by (simp add: encoder_new_def decoder_new_def table_new_def send_block_def emit_table_size_update_def set_capacity_def evict.simps encode_field_def table_find_def
        encode_string_def encode_int_def int_tail.simps MAX_FIELDS_def)
  from hpack_in_step [OF _ this r] r show ?thesis by simp
qed

text \<open>
  C28: whatever bytes arrive, the decoder answers, and its memory stays within what it advertised. After any sequence of blocks, malformed ones included, the dynamic table holds entries of
  the accounted size, within a capacity that is at most the advertised maximum, so there are at most a 32nd of that many entries; and no block yields more than 128 fields.
\<close>

theorem hostile_blocks:
  "case foldl (\<lambda>(d, rs) buf. let (d', r) = hpack_decode buf d in (d', rs @ [r])) (decoder_new mx, []) bufs of (d, rs) \<Rightarrow>
     t_size (dec_table d) = entries_size (t_entries (dec_table d)) \<and> t_size (dec_table d) \<le> t_capacity (dec_table d) \<and> t_capacity (dec_table d) \<le> mx \<and>
     32 * length (t_entries (dec_table d)) \<le> mx \<and> length rs = length bufs \<and> list_all (\<lambda>r. case r of Inl _ \<Rightarrow> True | Inr fs \<Rightarrow> length fs \<le> MAX_FIELDS) rs"
proof -
  let ?f = "\<lambda>(d, rs) buf. let (d', r) = hpack_decode buf d in (d', rs @ [r])"
  have step: "decoder_ok mx d' \<and> list_all (\<lambda>r. case r of Inl _ \<Rightarrow> True | Inr fs \<Rightarrow> length fs \<le> MAX_FIELDS) rs' \<and> length rs' = length bufs"
    if "foldl ?f (decoder_new mx, []) bufs = (d', rs')" for d' rs'
    using that
  proof (induction bufs arbitrary: d' rs' rule: rev_induct)
    case Nil
    then show ?case by (auto simp: decoder_ok_def decoder_new_def table_new_def table_inv_def)
  next
    case (snoc buf bufs)
    obtain d rs where f: "foldl ?f (decoder_new mx, []) bufs = (d, rs)" by force
    obtain r where r: "hpack_decode buf d = (d', r)" "rs' = rs @ [r]" using snoc.prems f by (cases "hpack_decode buf d") simp
    have "decoder_ok mx d" using snoc.IH [OF f] by simp
    from decode_loop_ok [OF this, of "[]" buf 0 True d' r] r(1) have "decoder_ok mx d' \<and> (\<forall>fs. r = Inr fs \<longrightarrow> length fs \<le> MAX_FIELDS)" by (simp add: hpack_decode_def)
    then show ?case using snoc.IH [OF f] r(2) by (cases r) auto
  qed
  obtain d rs where f: "foldl ?f (decoder_new mx, []) bufs = (d, rs)" by force
  from step [OF f] have "decoder_ok mx d" "list_all (\<lambda>r. case r of Inl _ \<Rightarrow> True | Inr fs \<Rightarrow> length fs \<le> MAX_FIELDS) rs" "length rs = length bufs" by simp_all
  then show ?thesis using entries_bounded [of "dec_table d"] unfolding f by (simp add: decoder_ok_def table_inv_def)
qed

text \<open>
  C34: the bound on prefix integers has a gap. The tenth continuation octet is shifted by 63 places, and all but its lowest bit is lost without an error: the octets of the number \<open>2 ^ 64 + 127\<close> are
  accepted and decode to 127. (An eleventh octet is refused.)
\<close>

definition octets_value :: "u8 list \<Rightarrow> nat" where
  "octets_value bs = foldr (\<lambda>b v. unat b mod 128 + 128 * v) bs 0"


end
