(* ===== verification/Resgraph.thy ===== *)
theory Resgraph
  imports Kmeta
begin

text \<open>
  The resource graph, \<^verbatim>\<open>kernel/src/hw/graph.rs\<close>: nodes with capabilities, directed costs between them, and the queries over both.

  The three tables are funded, each with its element type; what a query reads through \<^verbatim>\<open>Funded::get\<close> below the capacity is the list of
  the table's contents, which \<open>funded_get_inv\<close> justifies. Node names are 16 bits wide. A panic (an overflow of a 16-bit sum) is the outer \<open>None\<close>.
\<close>

section \<open>Vocabulary\<close>

type_synonym node_id = nat

definition NODE_NONE :: node_id where "NODE_NONE = 65535"
definition node_id :: "nat \<Rightarrow> node_id" where "node_id i = i mod 2 ^ 16"

datatype node_kind = KFree | KHost | KMemoryNode | KCpu | KCache | KDevice | KEngine | KLink | KIommu | KIntCtrl | KClock | KPowerDomain | KTrustRoot | KStorage | KCore

datatype arch = ArchUnknown | X86_64 | Aarch64 | Riscv64

record isa_set =
  isa_arch :: arch
  isa_baseline :: nat
  isa_features :: u64

definition ISA_NONE :: isa_set where
  "ISA_NONE = \<lparr> isa_arch = ArchUnknown, isa_baseline = 0, isa_features = 0 \<rparr>"

definition satisfies :: "isa_set \<Rightarrow> isa_set \<Rightarrow> bool" where
  "satisfies s want \<longleftrightarrow> isa_arch s = isa_arch want \<and> isa_baseline s \<ge> isa_baseline want \<and> isa_features s AND isa_features want = isa_features want"

datatype hw_core_class = ClassUnknown | Performance | Efficiency | LowPower

definition CAPACITY_FULL :: nat where "CAPACITY_FULL = 1024"

datatype cap_class = CNone | Matmul | Crypto | Compress | EntropySource | Attest | Timestamp | Dma | Codec | PacketPipeline | Rdma | FloatSimd | DmaTranslate
  | MemEncrypt | ZonedPlacement | ComputeInStorage

datatype reach = Inline | Offload (queue_depth: nat) (doorbell_ns: nat) (min_bytes: nat)

datatype trust = TPerformance | TEntropy bool nat | TAttestation nat

record capability_offer =
  c_class :: cap_class
  c_reach :: reach
  c_rate :: nat
  c_trust :: trust
  c_detail :: u64

record request =
  rq_class :: cap_class
  rq_bytes :: nat
  rq_isa :: isa_set
  rq_bit_exact :: bool
  rq_detail_mask :: u64

definition request_any :: "cap_class \<Rightarrow> request" where
  "request_any c = \<lparr> rq_class = c, rq_bytes = 0, rq_isa = ISA_NONE, rq_bit_exact = False, rq_detail_mask = 0 \<rparr>"

datatype resolution = Native | Translated | Emulated | Numeric | Unavailable

record cost =
  latency_ns :: nat
  bandwidth_mbs :: nat
  hops :: nat
  energy :: nat

definition COST_LOCAL :: cost where
  "COST_LOCAL = \<lparr> latency_ns = 0, bandwidth_mbs = 2 ^ 32 - 1, hops = 0, energy = 0 \<rparr>"

definition COST_UNKNOWN :: cost where
  "COST_UNKNOWN = \<lparr> latency_ns = 2 ^ 32 - 1, bandwidth_mbs = 0, hops = 255, energy = 255 \<rparr>"

datatype metric = Latency | Bandwidth | Hops | Energy

datatype query_error = NoProvider | AllFiltered | MetricMeaningless | NoNode

datatype graph_source = SourceNone | Acpi | DeviceTree | CpuidOnly | Declared

record gnode =
  g_kind :: node_kind
  g_node :: node_id
  g_set :: node_id
  g_isa :: isa_set
  g_class :: hw_core_class
  g_capacity :: nat
  g_hw_id :: u64
  caps_at :: nat
  caps_len :: nat

definition GNODE_EMPTY :: gnode where
  "GNODE_EMPTY = \<lparr> g_kind = KFree, g_node = NODE_NONE, g_set = NODE_NONE, g_isa = ISA_NONE, g_class = ClassUnknown, g_capacity = 0, g_hw_id = 0, caps_at = 0, caps_len = 0 \<rparr>"

record edge =
  e_used :: bool
  e_from :: node_id
  e_to :: node_id
  e_cost :: cost

text \<open>The element types: their sizes, and the value a zeroed slot has.\<close>

definition gnode_ty :: "gnode elem_ty" where
  "gnode_ty = \<lparr> ty_size = 40, ty_align = 8, ty_zero = GNODE_EMPTY\<lparr>g_node := 0, g_set := 0\<rparr> \<rparr>"

definition edge_ty :: "edge elem_ty" where
  "edge_ty = \<lparr> ty_size = 20, ty_align = 4, ty_zero = \<lparr> e_used = False, e_from = 0, e_to = 0, e_cost = \<lparr> latency_ns = 0, bandwidth_mbs = 0, hops = 0, energy = 0 \<rparr> \<rparr> \<rparr>"

definition offer_ty :: "capability_offer elem_ty" where
  "offer_ty = \<lparr> ty_size = 40, ty_align = 8, ty_zero = \<lparr> c_class = CNone, c_reach = Inline, c_rate = 0, c_trust = TPerformance, c_detail = 0 \<rparr> \<rparr>"

record graph =
  g_nodes :: "gnode funded"
  g_edges :: "edge funded"
  g_caps :: "capability_offer funded"
  g_source :: graph_source
  misordered_caps :: u32

definition graph_new :: graph where
  "graph_new = \<lparr> g_nodes = funded_new, g_edges = funded_new, g_caps = funded_new, g_source = SourceNone, misordered_caps = 0 \<rparr>"

section \<open>Building the graph\<close>

definition graph_init :: "owner \<Rightarrow> kmem \<times> graph \<Rightarrow> kmem \<times> graph" where
  "graph_init ow = (\<lambda>(k, g).
     let (k1, n) = funded_set_owner ow (k, g_nodes g); (k2, e) = funded_set_owner ow (k1, g_edges g); (k3, c) = funded_set_owner ow (k2, g_caps g)
     in (k3, g\<lparr>g_nodes := n, g_edges := e, g_caps := c\<rparr>))"

definition set_source :: "graph_source \<Rightarrow> graph \<Rightarrow> graph" where
  "set_source s g = g\<lparr>g_source := s\<rparr>"

definition node_count :: "graph \<Rightarrow> nat" where
  "node_count g = length (filter (\<lambda>n. g_kind n \<noteq> KFree) (contents (g_nodes g)))"

definition edge_count :: "graph \<Rightarrow> nat" where
  "edge_count g = length (filter e_used (contents (g_edges g)))"

definition gnode_get :: "graph \<Rightarrow> node_id \<Rightarrow> gnode option" where
  "gnode_get g i = (case nth_opt (contents (g_nodes g)) i of None \<Rightarrow> None | Some n \<Rightarrow> if g_kind n = KFree then None else Some n)"

definition caps_high_water :: "graph \<Rightarrow> nat" where
  "caps_high_water g = length (filter (\<lambda>c. c_class c \<noteq> CNone) (contents (g_caps g))) mod 2 ^ 16"

definition add_node :: "node_kind \<Rightarrow> u64 \<Rightarrow> kmem \<times> graph \<Rightarrow> ((kmem \<times> graph) \<times> node_id option) option" where
  "add_node kind hw = (\<lambda>(k, g).
     if kind = KFree then Some ((k, g), None)
     else let i = (case find_idx (\<lambda>n. g_kind n = KFree) (contents (g_nodes g)) of Some i \<Rightarrow> i | None \<Rightarrow> cap (g_nodes g));
              n = GNODE_EMPTY\<lparr>g_kind := kind, g_hw_id := hw, caps_at := caps_high_water g\<rparr>
          in if cap (g_nodes g) \<le> i
             then do { ((k', t), ok) \<leftarrow> set_growing gnode_ty i n (k, g_nodes g); Some ((k', g\<lparr>g_nodes := t\<rparr>), if ok then Some (node_id i) else None) }
             else do { (t, ok) \<leftarrow> funded_set gnode_ty i n (g_nodes g); Some ((k, g\<lparr>g_nodes := t\<rparr>), if ok then Some (node_id i) else None) })"

text \<open>Change a field of a node.\<close>

definition update_node :: "node_id \<Rightarrow> (gnode \<Rightarrow> gnode) \<Rightarrow> graph \<Rightarrow> (graph \<times> bool) option" where
  "update_node i f g = (case gnode_get g i of None \<Rightarrow> Some (g, False)
     | Some n \<Rightarrow> map_option (\<lambda>(t, ok). (g\<lparr>g_nodes := t\<rparr>, ok)) (funded_set gnode_ty i (f n) (g_nodes g)))"

definition set_locality :: "node_id \<Rightarrow> node_id \<Rightarrow> graph \<Rightarrow> (graph \<times> bool) option" where
  "set_locality i nd = update_node i (\<lambda>n. n\<lparr>g_node := nd\<rparr>)"

definition set_member :: "node_id \<Rightarrow> node_id \<Rightarrow> graph \<Rightarrow> (graph \<times> bool) option" where
  "set_member i s = update_node i (\<lambda>n. n\<lparr>g_set := s\<rparr>)"

definition set_isa :: "node_id \<Rightarrow> isa_set \<Rightarrow> graph \<Rightarrow> (graph \<times> bool) option" where
  "set_isa i isa = update_node i (\<lambda>n. n\<lparr>g_isa := isa\<rparr>)"

definition set_core :: "node_id \<Rightarrow> hw_core_class \<Rightarrow> nat \<Rightarrow> graph \<Rightarrow> (graph \<times> bool) option" where
  "set_core i c capacity = update_node i (\<lambda>n. n\<lparr>g_class := c, g_capacity := capacity\<rparr>)"

definition add_capability :: "node_id \<Rightarrow> capability_offer \<Rightarrow> kmem \<times> graph \<Rightarrow> ((kmem \<times> graph) \<times> bool) option" where
  "add_capability i c = (\<lambda>(k, g).
     if c_class c = CNone then Some ((k, g), False)
     else case gnode_get g i of None \<Rightarrow> Some ((k, g), False)
     | Some n \<Rightarrow>
         let hw = caps_high_water g
         in if 2 ^ 16 \<le> caps_at n + caps_len n then None
            else if caps_at n + caps_len n \<noteq> hw then Some ((k, g\<lparr>misordered_caps := misordered_caps g + 1\<rparr>), False)
            else do { ((k', t), ok) \<leftarrow> set_growing offer_ty hw c (k, g_caps g);
                      let g1 = g\<lparr>g_caps := t\<rparr> in
                      if \<not> ok then Some ((k', g1), False)
                      else if 2 ^ 16 \<le> caps_len n + 1 then None
                      else do { (t2, ok2) \<leftarrow> funded_set gnode_ty i (n\<lparr>caps_len := caps_len n + 1\<rparr>) (g_nodes g1);
                                Some ((k', g1\<lparr>g_nodes := t2\<rparr>), ok2) } })"

definition capabilities :: "graph \<Rightarrow> node_id \<Rightarrow> capability_offer list" where
  "capabilities g i = (case gnode_get g i of None \<Rightarrow> [] | Some n \<Rightarrow> List.map_filter (nth_opt (contents (g_caps g))) [caps_at n..<caps_at n + caps_len n])"

definition links :: "node_id \<Rightarrow> node_id \<Rightarrow> edge \<Rightarrow> bool" where
  "links a b e \<longleftrightarrow> e_used e \<and> e_from e = a \<and> e_to e = b"

definition add_edge :: "node_id \<Rightarrow> node_id \<Rightarrow> cost \<Rightarrow> kmem \<times> graph \<Rightarrow> ((kmem \<times> graph) \<times> bool) option" where
  "add_edge a b c = (\<lambda>(k, g).
     let e = \<lparr> e_used = True, e_from = a, e_to = b, e_cost = c \<rparr>
     in if gnode_get g a = None \<or> gnode_get g b = None then Some ((k, g), False)
        else case find_idx (links a b) (contents (g_edges g)) of
          Some i \<Rightarrow> map_option (\<lambda>(t, ok). ((k, g\<lparr>g_edges := t\<rparr>), ok)) (funded_set edge_ty i e (g_edges g))
        | None \<Rightarrow> let free = (case find_idx (\<lambda>e. \<not> e_used e) (contents (g_edges g)) of Some i \<Rightarrow> i | None \<Rightarrow> cap (g_edges g))
                   in map_option (\<lambda>((k', t), ok). ((k', g\<lparr>g_edges := t\<rparr>), ok)) (set_growing edge_ty free e (k, g_edges g)))"

definition add_edge_both :: "node_id \<Rightarrow> node_id \<Rightarrow> cost \<Rightarrow> kmem \<times> graph \<Rightarrow> ((kmem \<times> graph) \<times> bool) option" where
  "add_edge_both a b c s = do { (s1, ok) \<leftarrow> add_edge a b c s; if ok then add_edge b a c s1 else Some (s1, False) }"

section \<open>Queries\<close>

definition graph_cost :: "graph \<Rightarrow> node_id \<Rightarrow> node_id \<Rightarrow> cost option" where
  "graph_cost g a b =
     (if gnode_get g a = None \<or> gnode_get g b = None then None
      else if a = b then Some COST_LOCAL
      else map_option e_cost (find (links a b) (contents (g_edges g))))"

text \<open>The nodes below the capacity that a predicate selects, in order.\<close>

definition nodes_where :: "(nat \<Rightarrow> gnode \<Rightarrow> bool) \<Rightarrow> graph \<Rightarrow> node_id list" where
  "nodes_where P g = map node_id (filter (\<lambda>i. P i (contents (g_nodes g) ! i)) [0..<length (contents (g_nodes g))])"

definition members :: "node_id \<Rightarrow> graph \<Rightarrow> node_id list" where
  "members s = nodes_where (\<lambda>_ n. g_kind n \<noteq> KFree \<and> g_set n = s)"

definition in_locality :: "node_id \<Rightarrow> graph \<Rightarrow> node_id list" where
  "in_locality nd = nodes_where (\<lambda>_ n. g_kind n \<noteq> KFree \<and> g_node n = nd)"

definition group_of :: "graph \<Rightarrow> node_id \<Rightarrow> node_kind \<Rightarrow> node_id option" where
  "group_of g cpu level = do {
     c \<leftarrow> gnode_get g cpu;
     core \<leftarrow> gnode_get g (g_set c);
     if g_kind core \<noteq> KCore then None
     else if level = KCore then Some (g_set c)
     else if level = KCache then do { cache \<leftarrow> gnode_get g (g_set core); if g_kind cache = KCache then Some (g_set core) else None }
     else None }"

definition siblings :: "node_id \<Rightarrow> node_kind \<Rightarrow> graph \<Rightarrow> node_id list" where
  "siblings cpu level g = (case group_of g cpu level of None \<Rightarrow> []
     | Some want \<Rightarrow> nodes_where (\<lambda>i n. g_kind n = KCpu \<and> group_of g (node_id i) level = Some want) g)"

definition graph_find :: "node_kind \<Rightarrow> u64 \<Rightarrow> graph \<Rightarrow> node_id option" where
  "graph_find kind hw g = map_option node_id (find_idx (\<lambda>n. g_kind n = kind \<and> g_hw_id n = hw) (contents (g_nodes g)))"

definition keep_fastest :: "graph \<Rightarrow> hw_core_class option \<Rightarrow> (node_id \<times> nat) option \<Rightarrow> nat \<Rightarrow> (node_id \<times> nat) option" where
  "keep_fastest g want best i =
     (let n = contents (g_nodes g) ! i
      in if g_kind n \<noteq> KCpu then best
         else if (case want of None \<Rightarrow> False | Some c \<Rightarrow> g_class n \<noteq> c) then best
         else case best of Some (_, capacity) \<Rightarrow> if g_capacity n \<le> capacity then best else Some (node_id i, g_capacity n)
              | None \<Rightarrow> Some (node_id i, g_capacity n))"

definition fastest_cpu :: "hw_core_class option \<Rightarrow> graph \<Rightarrow> node_id option" where
  "fastest_cpu want g = map_option fst (foldl (keep_fastest g want) None [0..<length (contents (g_nodes g))])"

fun hybrid_scan :: "(hw_core_class \<times> nat) option \<Rightarrow> gnode list \<Rightarrow> bool" where
  "hybrid_scan seen [] = False"
| "hybrid_scan seen (n # ns) =
     (if g_kind n \<noteq> KCpu then hybrid_scan seen ns
      else case seen of None \<Rightarrow> hybrid_scan (Some (g_class n, g_capacity n)) ns
           | Some first \<Rightarrow> if first \<noteq> (g_class n, g_capacity n) then True else hybrid_scan seen ns)"

definition graph_is_hybrid :: "graph \<Rightarrow> bool" where
  "graph_is_hybrid g = hybrid_scan None (contents (g_nodes g))"

definition resolution_of :: "capability_offer \<Rightarrow> resolution" where
  "resolution_of c = (if c_detail c AND push_bit 63 1 \<noteq> 0 then Numeric else case c_reach c of Inline \<Rightarrow> Native | Offload _ _ _ \<Rightarrow> Native)"

fun rank :: "resolution \<Rightarrow> nat" where
  "rank Native = 4" | "rank Translated = 3" | "rank Emulated = 2" | "rank Numeric = 1" | "rank Unavailable = 0"

definition effective :: "capability_offer \<Rightarrow> cost \<Rightarrow> metric \<Rightarrow> nat" where
  "effective c e by_metric =
     (let doorbell = (case c_reach c of Inline \<Rightarrow> 0 | Offload _ d _ \<Rightarrow> d)
      in case by_metric of Bandwidth \<Rightarrow> min (bandwidth_mbs e) (c_rate c) | Latency \<Rightarrow> sat_add (latency_ns e) doorbell | Hops \<Rightarrow> hops e | Energy \<Rightarrow> energy e)"

definition usable :: "request \<Rightarrow> capability_offer \<Rightarrow> bool" where
  "usable req c \<longleftrightarrow> c_class c = rq_class req \<and>
     (rq_detail_mask req = 0 \<or> c_detail c AND rq_detail_mask req = rq_detail_mask req) \<and>
     \<not> (case c_reach c of Inline \<Rightarrow> False | Offload _ _ m \<Rightarrow> rq_bytes req < m) \<and>
     \<not> (rq_bit_exact req \<and> resolution_of c = Numeric)"

definition keep_best :: "request \<Rightarrow> (capability_offer \<times> resolution) option \<Rightarrow> capability_offer \<Rightarrow> (capability_offer \<times> resolution) option" where
  "keep_best req best c =
     (if \<not> usable req c then best
      else let r = resolution_of c in case best of None \<Rightarrow> Some (c, r) | Some (_, br) \<Rightarrow> if rank r > rank br then Some (c, r) else best)"

definition select :: "graph \<Rightarrow> node_id \<Rightarrow> request \<Rightarrow> (capability_offer \<times> resolution) option" where
  "select g i req = (case gnode_get g i of None \<Rightarrow> None
     | Some n \<Rightarrow> if rq_isa req \<noteq> ISA_NONE \<and> \<not> satisfies (g_isa n) (rq_isa req) then None
                 else foldl (keep_best req) None (capabilities g i))"

definition resolve :: "graph \<Rightarrow> node_id \<Rightarrow> request \<Rightarrow> resolution" where
  "resolve g i req = (case select g i req of Some (_, r) \<Rightarrow> r | None \<Rightarrow> Unavailable)"

definition providers :: "request \<Rightarrow> graph \<Rightarrow> node_id list" where
  "providers req g = filter (\<lambda>i. gnode_get g i \<noteq> None \<and> select g i req \<noteq> None) (map node_id [0..<length (contents (g_nodes g))])"

definition is_cost_ranked :: "cap_class \<Rightarrow> bool" where
  "is_cost_ranked c \<longleftrightarrow> c \<notin> {EntropySource, Attest, Timestamp, ZonedPlacement}"

definition better :: "metric \<Rightarrow> nat \<Rightarrow> nat \<Rightarrow> bool" where
  "better by_metric eff b = (if by_metric = Bandwidth then eff > b else eff < b)"

definition nearest_step :: "graph \<Rightarrow> node_id \<Rightarrow> request \<Rightarrow> metric \<Rightarrow> bool \<times> (node_id \<times> resolution \<times> nat) option \<Rightarrow> node_id \<Rightarrow> bool \<times> (node_id \<times> resolution \<times> nat) option" where
  "nearest_step g src req by_metric = (\<lambda>(anyp, best) i.
     if gnode_get g i = None then (anyp, best)
     else let anyp1 = (anyp \<or> list_ex (\<lambda>c. c_class c = rq_class req) (capabilities g i))
          in case select g i req of None \<Rightarrow> (anyp1, best)
             | Some (c, r) \<Rightarrow>
                 (case graph_cost g src i of None \<Rightarrow> (anyp1, best)
                  | Some e \<Rightarrow>
                      let eff = effective c e by_metric
                      in if (case best of None \<Rightarrow> True | Some (_, _, b) \<Rightarrow> better by_metric eff b) then (anyp1, Some (i, r, eff)) else (anyp1, best)))"

definition nearest :: "graph \<Rightarrow> node_id \<Rightarrow> request \<Rightarrow> metric \<Rightarrow> query_error + node_id \<times> resolution" where
  "nearest g src req by_metric =
     (if gnode_get g src = None then Inl NoNode
      else if \<not> is_cost_ranked (rq_class req) then Inl MetricMeaningless
      else case foldl (nearest_step g src req by_metric) (False, None) (map node_id [0..<length (contents (g_nodes g))]) of
        (anyp, best) \<Rightarrow> (case best of Some (i, r, _) \<Rightarrow> Inr (i, r) | None \<Rightarrow> if anyp then Inl AllFiltered else Inl NoProvider))"

definition offers_where :: "(capability_offer \<Rightarrow> bool) \<Rightarrow> graph \<Rightarrow> (node_id \<times> capability_offer) list" where
  "offers_where P g = concat (map (\<lambda>i. map (Pair i) (filter P (capabilities g i))) (map node_id [0..<length (contents (g_nodes g))]))"

definition entropy_sources :: "graph \<Rightarrow> (node_id \<times> capability_offer) list" where
  "entropy_sources = offers_where (\<lambda>c. c_class c = EntropySource)"

definition placement_targets :: "graph \<Rightarrow> (node_id \<times> capability_offer) list" where
  "placement_targets = offers_where (\<lambda>c. c_class c = ZonedPlacement)"

definition attest_roots :: "nat \<Rightarrow> graph \<Rightarrow> (node_id \<times> nat) list" where
  "attest_roots chain g = List.map_filter (\<lambda>(i, c). case c_trust c of
       TAttestation got \<Rightarrow> if c_class c = Attest \<and> (chain = 0 \<or> got = chain) then Some (i, got) else None | _ \<Rightarrow> None) (offers_where (\<lambda>_. True) g)"

definition best_clock :: "graph \<Rightarrow> (node_id \<times> capability_offer) option" where
  "best_clock g = foldl (\<lambda>best (i, c). if c_class c \<noteq> Timestamp then best
       else case best of None \<Rightarrow> Some (i, c) | Some (_, b) \<Rightarrow> if c_detail c < c_detail b then Some (i, c) else best) None (offers_where (\<lambda>_. True) g)"

section \<open>The invariant\<close>

text \<open>
  Of the lists behind the tables: the capabilities are a dense prefix of their table, the live nodes own disjoint ranges of it, and no pair of nodes has
  two edges.
\<close>

abbreviation live :: "gnode \<Rightarrow> bool" where "live n \<equiv> g_kind n \<noteq> KFree"

definition owns :: "gnode \<Rightarrow> nat \<Rightarrow> bool" where
  "owns n x \<longleftrightarrow> caps_at n \<le> x \<and> x < caps_at n + caps_len n"

definition dense :: "nat \<Rightarrow> capability_offer list \<Rightarrow> bool" where
  "dense hw cs \<longleftrightarrow> hw \<le> length cs \<and> (\<forall>i < length cs. c_class (cs ! i) \<noteq> CNone \<longleftrightarrow> i < hw)"

definition ranges_ok :: "nat \<Rightarrow> gnode list \<Rightarrow> bool" where
  "ranges_ok hw ns \<longleftrightarrow> (\<forall>i < length ns. live (ns ! i) \<longrightarrow> caps_at (ns ! i) + caps_len (ns ! i) \<le> hw) \<and>
     (\<forall>i < length ns. \<forall>j < length ns. \<forall>x. live (ns ! i) \<and> live (ns ! j) \<and> owns (ns ! i) x \<and> owns (ns ! j) x \<longrightarrow> i = j)"

definition edges_ok :: "edge list \<Rightarrow> bool" where
  "edges_ok es \<longleftrightarrow> (\<forall>i < length es. \<forall>j < length es. e_used (es ! i) \<and> e_used (es ! j) \<and> e_from (es ! i) = e_from (es ! j) \<and> e_to (es ! i) = e_to (es ! j) \<longrightarrow> i = j)"

definition graph_inv :: "kmem \<times> graph \<Rightarrow> bool" where
  "graph_inv = (\<lambda>(k, g). km_inv k \<and> funded_inv gnode_ty k (g_nodes g) \<and> funded_inv edge_ty k (g_edges g) \<and> funded_inv offer_ty k (g_caps g) \<and>
     set (held (g_nodes g)) \<inter> set (held (g_edges g)) = {} \<and> set (held (g_nodes g)) \<inter> set (held (g_caps g)) = {} \<and> set (held (g_edges g)) \<inter> set (held (g_caps g)) = {} \<and>
     (\<exists>hw. dense hw (contents (g_caps g)) \<and> ranges_ok hw (contents (g_nodes g))) \<and> edges_ok (contents (g_edges g)))"

lemma graph_invD:
  assumes "graph_inv (k, g)"
  shows "km_inv k" "funded_inv gnode_ty k (g_nodes g)" "funded_inv edge_ty k (g_edges g)" "funded_inv offer_ty k (g_caps g)"
    "set (held (g_nodes g)) \<inter> set (held (g_edges g)) = {}" "set (held (g_nodes g)) \<inter> set (held (g_caps g)) = {}" "set (held (g_edges g)) \<inter> set (held (g_caps g)) = {}"
    "edges_ok (contents (g_edges g))"
  using assms by (auto simp: graph_inv_def)

lemma table_small:
  assumes "funded_inv ty k t" "elems_per_page ty \<le> 102"
  shows "length (contents t) < 65536"
proof -
  have "pages t \<le> 520" using tab_invD(4) [OF funded_invD(1) [OF assms(1)]] by (simp add: INLINE_PAGES_def PTRS_PER_DIR_def FRAME_SIZE_def)
  then have "pages t * elems_per_page ty \<le> 520 * 102" using assms(2) by (rule mult_le_mono)
  then show ?thesis by (simp add: length_contents [OF assms(1)] funded_invD(2) [OF assms(1)])
qed

lemma nodes_small: "graph_inv (k, g) \<Longrightarrow> length (contents (g_nodes g)) < 65536"
  by (rule table_small [OF graph_invD(2)]) (simp_all add: elems_per_page_def gnode_ty_def FRAME_SIZE_def)

lemma offers_small: "graph_inv (k, g) \<Longrightarrow> length (contents (g_caps g)) < 65536"
  by (rule table_small [OF graph_invD(4)]) (simp_all add: elems_per_page_def offer_ty_def FRAME_SIZE_def)

lemma dense_count: "dense hw cs \<Longrightarrow> length (filter (\<lambda>c. c_class c \<noteq> CNone) cs) = hw"
proof -
  assume d: "dense hw cs"
  have "length (filter (\<lambda>c. c_class c \<noteq> CNone) cs) = card {i. i < length cs \<and> c_class (cs ! i) \<noteq> CNone}" by (rule length_filter_conv_card)
  also have "{i. i < length cs \<and> c_class (cs ! i) \<noteq> CNone} = {..<hw}" using d by (intro set_eqI) (auto simp: dense_def intro: less_le_trans)
  finally show ?thesis by simp
qed

lemma graph_hw:
  assumes "graph_inv (k, g)"
  obtains hw where "caps_high_water g = hw" "dense hw (contents (g_caps g))" "ranges_ok hw (contents (g_nodes g))" "hw < 65536"
proof -
  from assms obtain hw where hw: "dense hw (contents (g_caps g))" "ranges_ok hw (contents (g_nodes g))" by (auto simp: graph_inv_def)
  moreover have "hw < 65536" using hw(1) offers_small [OF assms] by (simp add: dense_def)
  ultimately show thesis using that dense_count [OF hw(1)] by (simp add: caps_high_water_def)
qed

lemma gnode_get_Some: "gnode_get g i = Some n \<longleftrightarrow> i < length (contents (g_nodes g)) \<and> contents (g_nodes g) ! i = n \<and> live n"
  by (auto simp: gnode_get_def nth_opt_def)

lemma gnode_get_None: "gnode_get g i = None \<longleftrightarrow> (i < length (contents (g_nodes g)) \<longrightarrow> \<not> live (contents (g_nodes g) ! i))"
  by (auto simp: gnode_get_def nth_opt_def)

lemma graph_new_inv: "km_inv k \<Longrightarrow> graph_inv (k, graph_new)"
proof -
  have "funded_inv gnode_ty k funded_new" "funded_inv edge_ty k funded_new" "funded_inv offer_ty k funded_new"
    by (rule funded_inv_new, simp add: elems_per_page_def gnode_ty_def edge_ty_def offer_ty_def FRAME_SIZE_def)+
  moreover have "contents (funded_new :: gnode funded) = []" "contents (funded_new :: edge funded) = []" "contents (funded_new :: capability_offer funded) = []"
    "held (funded_new :: gnode funded) = []" "held (funded_new :: edge funded) = []" "held (funded_new :: capability_offer funded) = []"
    by (simp_all add: contents_def page_data_def funded_new_def frames_of_def)
  ultimately show "km_inv k \<Longrightarrow> graph_inv (k, graph_new)" by (simp add: graph_inv_def graph_new_def dense_def ranges_ok_def edges_ok_def)
qed

section \<open>What the graph stands for\<close>

record agraph =
  a_node :: "node_id \<Rightarrow> gnode option"
  a_offers :: "node_id \<Rightarrow> capability_offer list"
  a_edge :: "node_id \<Rightarrow> node_id \<Rightarrow> cost option"

definition plain :: "gnode \<Rightarrow> gnode" where "plain n = n\<lparr>caps_at := 0, caps_len := 0\<rparr>"

definition graph_abs :: "graph \<Rightarrow> agraph" where
  "graph_abs g = \<lparr> a_node = (\<lambda>i. map_option plain (gnode_get g i)), a_offers = capabilities g,
     a_edge = (\<lambda>a b. map_option e_cost (find (links a b) (contents (g_edges g)))) \<rparr>"

text \<open>The capabilities of a node are a slice of the table.\<close>

lemma map_filter_nth_opt: "at + len \<le> length xs \<Longrightarrow> List.map_filter (nth_opt xs) [at..<at + len] = take len (drop at xs)"
proof (induction len)
  case (Suc len)
  then show ?case by (simp add: List.map_filter_def nth_opt_def take_Suc_conv_app_nth)
qed (simp add: List.map_filter_def)

lemma capabilities_slice:
  assumes "graph_inv (k, g)" "gnode_get g i = Some n"
  shows "capabilities g i = take (caps_len n) (drop (caps_at n) (contents (g_caps g)))"
proof -
  from graph_hw [OF assms(1)] obtain hw where "dense hw (contents (g_caps g))" "ranges_ok hw (contents (g_nodes g))" by blast
  then have "caps_at n + caps_len n \<le> length (contents (g_caps g))" using assms(2) by (fastforce simp: dense_def ranges_ok_def gnode_get_Some)
  then show ?thesis by (simp add: capabilities_def assms(2) map_filter_nth_opt)
qed

lemma capabilities_None: "gnode_get g i = None \<Longrightarrow> capabilities g i = []"
  by (simp add: capabilities_def)

lemma slice_same:
  assumes "at + len \<le> hw" "hw \<le> length xs" "hw \<le> length ys" "\<And>x. x < hw \<Longrightarrow> ys ! x = xs ! x"
  shows "take len (drop at ys) = take len (drop at xs)"
  using assms by (intro nth_equalityI) auto

lemma graph_inv_nodes:
  assumes inv: "graph_inv (k, g)" and i: "i < length (contents (g_nodes g))"
    and hw: "dense hw (contents (g_caps g))" "ranges_ok hw ((contents (g_nodes g))[i := n])"
  shows "\<exists>t. funded_set gnode_ty i n (g_nodes g) = Some (t, True) \<and> contents t = (contents (g_nodes g))[i := n] \<and> graph_inv (k, g\<lparr>g_nodes := t\<rparr>)"
proof -
  from funded_set_inv [OF graph_invD(2) [OF inv], of i n] obtain t where
    "funded_set gnode_ty i n (g_nodes g) = Some (t, i < cap (g_nodes g))" "funded_inv gnode_ty k t" "contents t = (contents (g_nodes g))[i := n]" "held t = held (g_nodes g)" by blast
  with graph_invD [OF inv] hw i length_contents [OF graph_invD(2) [OF inv]] show ?thesis by (auto simp: graph_inv_def)
qed

lemma ranges_same:
  assumes "ranges_ok hw ns" "i < length ns" "live (ns ! i)" "caps_at n = caps_at (ns ! i)" "caps_len n = caps_len (ns ! i)"
  shows "ranges_ok hw (ns[i := n])"
proof -
  have own: "owns (ns[i := n] ! j) x = owns (ns ! j) x" "live (ns[i := n] ! j) \<Longrightarrow> live (ns ! j)"
    "caps_at (ns[i := n] ! j) + caps_len (ns[i := n] ! j) = caps_at (ns ! j) + caps_len (ns ! j)" if "j < length ns" for j x
    using assms(2-5) that by (cases "j = i"; simp add: owns_def)+
  show ?thesis using assms(1) own by (fastforce simp: ranges_ok_def)
qed

lemma graph_abs_node:
  assumes inv: "graph_inv (k, g)" and n: "gnode_get g i = Some n" and live: "live n'" "caps_at n' = caps_at n" "caps_len n' = caps_len n"
    and t: "contents t = (contents (g_nodes g))[i := n']"
  shows "graph_abs (g\<lparr>g_nodes := t\<rparr>) = (graph_abs g)\<lparr>a_node := (a_node (graph_abs g))(i \<mapsto> plain n')\<rparr>"
proof -
  have i: "i < length (contents (g_nodes g))" using n by (simp add: gnode_get_Some)
  have get: "gnode_get (g\<lparr>g_nodes := t\<rparr>) j = (if j = i then Some n' else gnode_get g j)" for j
    using i live(1) by (auto simp: gnode_get_def nth_opt_def t nth_list_update)
  have "capabilities (g\<lparr>g_nodes := t\<rparr>) j = capabilities g j" for j
    using n live by (cases "j = i"; cases "gnode_get g j") (simp_all add: capabilities_def get)
  then show ?thesis by (auto simp: graph_abs_def get fun_eq_iff)
qed

lemma update_node_spec:
  assumes inv: "graph_inv (k, g)" and f: "\<And>n. live n \<Longrightarrow> live (f n)" "\<And>n. caps_at (f n) = caps_at n" "\<And>n. caps_len (f n) = caps_len n"
  shows "\<exists>g'. update_node i f g = Some (g', gnode_get g i \<noteq> None) \<and> graph_inv (k, g') \<and>
    graph_abs g' = (case gnode_get g i of None \<Rightarrow> graph_abs g | Some n \<Rightarrow> (graph_abs g)\<lparr>a_node := (a_node (graph_abs g))(i \<mapsto> plain (f n))\<rparr>)"
proof (cases "gnode_get g i")
  case None
  then show ?thesis using inv by (simp add: update_node_def)
next
  case (Some n)
  then have n: "i < length (contents (g_nodes g))" "contents (g_nodes g) ! i = n" "live n" by (simp_all add: gnode_get_Some)
  from graph_hw [OF inv] obtain hw where hw: "dense hw (contents (g_caps g))" "ranges_ok hw (contents (g_nodes g))" by blast
  have "ranges_ok hw ((contents (g_nodes g))[i := f n])" by (rule ranges_same [OF hw(2)]) (use n f in simp_all)
  from graph_inv_nodes [OF inv n(1) hw(1) this] obtain t where t: "funded_set gnode_ty i (f n) (g_nodes g) = Some (t, True)"
    "contents t = (contents (g_nodes g))[i := f n]" "graph_inv (k, g\<lparr>g_nodes := t\<rparr>)" by blast
  from graph_abs_node [OF inv Some f(1) [OF n(3)] f(2,3) t(2)] show ?thesis using t Some by (simp add: update_node_def)
qed

text \<open>Appending a capability: the table grows by one, and only the range of its node.\<close>

lemma ranges_extend:
  assumes r: "ranges_ok hw ns" and i: "i < length ns" "live (ns ! i)" "caps_at (ns ! i) + caps_len (ns ! i) = hw"
  shows "ranges_ok (Suc hw) (ns[i := (ns ! i)\<lparr>caps_len := Suc (caps_len (ns ! i))\<rparr>])" (is "ranges_ok _ ?ns")
proof -
  have le: "caps_at (ns ! j) + caps_len (ns ! j) \<le> hw" if "j < length ns" "live (ns ! j)" for j using r that by (simp add: ranges_ok_def)
  have own: "owns (?ns ! j) x \<longleftrightarrow> owns (ns ! j) x \<or> j = i \<and> x = hw" if "j < length ns" "live (ns ! j)" for j x
    using i that by (cases "j = i") (auto simp: owns_def)
  have lv: "live (?ns ! j) = live (ns ! j)" if "j < length ns" for j using i that by (cases "j = i") simp_all
  have not: "\<not> owns (ns ! j) hw" if "j < length ns" "live (ns ! j)" for j using le [OF that] by (simp add: owns_def)
  have "a = b" if "a < length ns" "b < length ns" "live (?ns ! a)" "live (?ns ! b)" "owns (?ns ! a) x" "owns (?ns ! b) x" for a b x
    using that own [of a x] own [of b x] lv [of a] lv [of b] not [of a] not [of b] r unfolding ranges_ok_def by metis
  moreover have "caps_at (?ns ! j) + caps_len (?ns ! j) \<le> Suc hw" if "j < length ns" "live (?ns ! j)" for j
    using le [of j] lv [of j] that i by (cases "j = i") simp_all
  ultimately show ?thesis unfolding ranges_ok_def length_list_update by blast
qed

lemma dense_extend:
  assumes "dense hw cs" "c_class c \<noteq> CNone" "hw < length cs + m"
  shows "dense (Suc hw) ((cs @ replicate m (ty_zero offer_ty))[hw := c])"
  using assms by (auto simp: dense_def nth_list_update nth_append offer_ty_def)

lemma grow_caps:
  assumes inv: "graph_inv (k, g)"
  shows "\<exists>k' t ok. set_growing offer_ty i c (k, g_caps g) = Some ((k', t), ok) \<and> km_inv k' \<and>
    funded_inv gnode_ty k' (g_nodes g) \<and> funded_inv edge_ty k' (g_edges g) \<and> funded_inv offer_ty k' t \<and>
    set (held (g_nodes g)) \<inter> set (held t) = {} \<and> set (held (g_edges g)) \<inter> set (held t) = {} \<and>
    (\<exists>m. (ok \<longrightarrow> i < length (contents (g_caps g)) + m) \<and> contents t = (if ok then (contents (g_caps g) @ replicate m (ty_zero offer_ty))[i := c] else contents (g_caps g)))"
proof -
  note I = graph_invD [OF inv]
  from set_growing_spec [OF I(1,4), of i c] obtain k' t ok where g: "set_growing offer_ty i c (k, g_caps g) = Some ((k', t), ok)"
    and acct: "table_acct offer_ty (k, g_caps g) (k', t)" and t: "cap (g_caps g) \<le> cap t" "ok \<longrightarrow> i < cap t"
    "contents t = (if ok then (contents (g_caps g) @ replicate (cap t - cap (g_caps g)) (ty_zero offer_ty))[i := c] else contents (g_caps g))" by blast
  have "km_inv k'" "funded_inv offer_ty k' t" using acct by (auto simp: table_acct_def)
  moreover have "funded_inv gnode_ty k' (g_nodes g)" "set (held (g_nodes g)) \<inter> set (held t) = {}"
    using set_growing_other [OF I(1,4) I(2) _ g] I(6) by auto
  moreover have "funded_inv edge_ty k' (g_edges g)" "set (held (g_edges g)) \<inter> set (held t) = {}"
    using set_growing_other [OF I(1,4) I(3) _ g] I(7) by auto
  ultimately show ?thesis using g t length_contents [OF I(4)] by (intro exI [of _ k'] exI [of _ t] exI [of _ ok] conjI) (auto intro!: exI [of _ "cap t - cap (g_caps g)"])
qed

lemma capabilities_cong: "gnode_get g' = gnode_get g \<Longrightarrow> contents (g_caps g') = contents (g_caps g) \<Longrightarrow> capabilities g' = capabilities g"
  by (intro ext) (simp add: capabilities_def split: option.split)

lemma graph_inv_caps_refused:
  assumes inv: "graph_inv (k, g)" and t: "km_inv k'" "funded_inv gnode_ty k' (g_nodes g)" "funded_inv edge_ty k' (g_edges g)" "funded_inv offer_ty k' t"
    "set (held (g_nodes g)) \<inter> set (held t) = {}" "set (held (g_edges g)) \<inter> set (held t) = {}" "contents t = contents (g_caps g)"
  shows "graph_inv (k', g\<lparr>g_caps := t\<rparr>) \<and> graph_abs (g\<lparr>g_caps := t\<rparr>) = graph_abs g"
proof -
  have "gnode_get (g\<lparr>g_caps := t\<rparr>) = gnode_get g" by (simp add: fun_eq_iff gnode_get_def)
  then have "capabilities (g\<lparr>g_caps := t\<rparr>) = capabilities g" by (rule capabilities_cong) (simp add: t(7))
  with inv t show ?thesis by (simp add: graph_inv_def graph_abs_def gnode_get_def)
qed

lemma add_capability_grown:
  assumes inv: "graph_inv (k, g)" and n: "gnode_get g i = Some n" "caps_at n + caps_len n = caps_high_water g" and c: "c_class c \<noteq> CNone"
    and t: "km_inv k'" "funded_inv gnode_ty k' (g_nodes g)" "funded_inv edge_ty k' (g_edges g)" "funded_inv offer_ty k' t"
    "set (held (g_nodes g)) \<inter> set (held t) = {}" "set (held (g_edges g)) \<inter> set (held t) = {}"
    "caps_high_water g < length (contents (g_caps g)) + m" "contents t = (contents (g_caps g) @ replicate m (ty_zero offer_ty))[caps_high_water g := c]"
  shows "\<exists>t2. funded_set gnode_ty i (n\<lparr>caps_len := caps_len n + 1\<rparr>) (g_nodes g) = Some (t2, True) \<and> graph_inv (k', g\<lparr>g_caps := t, g_nodes := t2\<rparr>) \<and>
    graph_abs (g\<lparr>g_caps := t, g_nodes := t2\<rparr>) = (graph_abs g)\<lparr>a_offers := (a_offers (graph_abs g))(i := capabilities g i @ [c])\<rparr>"
proof -
  let ?n = "n\<lparr>caps_len := caps_len n + 1\<rparr>" and ?ns = "contents (g_nodes g)" and ?cs = "contents (g_caps g)"
  from graph_hw [OF inv] obtain hw where hw: "caps_high_water g = hw" "dense hw ?cs" "ranges_ok hw ?ns" "hw < 65536" by blast
  have i: "i < length ?ns" "?ns ! i = n" "live n" using n(1) by (simp_all add: gnode_get_Some)
  have de: "dense (Suc hw) (contents t)" using dense_extend [OF hw(2) c] t(7,8) hw(1) by simp
  have ra: "ranges_ok (Suc hw) (?ns[i := ?n])" using ranges_extend [OF hw(3) i(1)] i n(2) hw(1) by simp
  from funded_set_inv [OF t(2), of i ?n] obtain t2 where
    t2: "funded_set gnode_ty i ?n (g_nodes g) = Some (t2, i < cap (g_nodes g))" "funded_inv gnode_ty k' t2" "contents t2 = ?ns[i := ?n]" "held t2 = held (g_nodes g)" by blast
  let ?g = "g\<lparr>g_caps := t, g_nodes := t2\<rparr>"
  have inv': "graph_inv (k', ?g)" using t t2 de ra graph_invD(5,8) [OF inv] by (auto simp: graph_inv_def)
  have get: "gnode_get ?g j = (if j = i then Some ?n else gnode_get g j)" for j
    using i by (auto simp: gnode_get_def nth_opt_def t2(3) nth_list_update)
  have len: "hw \<le> length ?cs" "hw \<le> length (contents t)" "\<And>x. x < hw \<Longrightarrow> contents t ! x = ?cs ! x" "contents t ! hw = c" "hw < length (contents t)"
    using hw(1,2) t(7,8) by (simp_all add: dense_def nth_append)
  have le: "caps_at n' + caps_len n' \<le> hw" if "gnode_get g j = Some n'" for j n' using hw(3) that by (auto simp: ranges_ok_def gnode_get_Some)
  have "capabilities ?g j = (if j = i then capabilities g i @ [c] else capabilities g j)" for j
  proof (cases "gnode_get g j")
    case None
    then show ?thesis using get n(1) by (auto simp: capabilities_None)
  next
    case (Some n')
    have sl: "take (caps_len n') (drop (caps_at n') (contents t)) = capabilities g j"
      using slice_same [OF le [OF Some] len(1-3)] capabilities_slice [OF inv Some] by simp
    show ?thesis
    proof (cases "j = i")
      case True
      with Some n have n': "n' = n" "caps_at n + caps_len n = hw" using hw(1) by simp_all
      have "capabilities ?g i = take (Suc (caps_len n)) (drop (caps_at n) (contents t))" using capabilities_slice [OF inv', of i ?n] get by simp
      also have "\<dots> = take (caps_len n) (drop (caps_at n) (contents t)) @ [contents t ! (caps_at n + caps_len n)]"
        using len(5) n'(2) by (subst take_Suc_conv_app_nth) simp_all
      finally show ?thesis using True sl n' len(4) by simp
    qed (use capabilities_slice [OF inv', of j n'] get Some sl in simp)
  qed
  moreover have "map_option plain (gnode_get ?g j) = map_option plain (gnode_get g j)" for j using n(1) by (simp add: get plain_def)
  ultimately have "graph_abs ?g = (graph_abs g)\<lparr>a_offers := (a_offers (graph_abs g))(i := capabilities g i @ [c])\<rparr>" by (auto simp: graph_abs_def fun_eq_iff)
  with inv' t2(1) i(1) length_contents [OF graph_invD(2) [OF inv]] show ?thesis by auto
qed

lemma add_capability_spec:
  assumes inv: "graph_inv (k, g)"
  shows "\<exists>k' g' ok. add_capability i c (k, g) = Some ((k', g'), ok) \<and> graph_inv (k', g') \<and>
    graph_abs g' = (if ok then (graph_abs g)\<lparr>a_offers := (a_offers (graph_abs g))(i := a_offers (graph_abs g) i @ [c])\<rparr> else graph_abs g) \<and>
    (ok \<longrightarrow> gnode_get g i \<noteq> None)"
proof (cases "c_class c = CNone \<or> gnode_get g i = None")
  case True
  then have "add_capability i c (k, g) = Some ((k, g), False)" by (auto simp: add_capability_def)
  with inv show ?thesis by auto
next
  case False
  then obtain n where n: "gnode_get g i = Some n" "c_class c \<noteq> CNone" by auto
  from graph_hw [OF inv] obtain hw where hw: "caps_high_water g = hw" "dense hw (contents (g_caps g))" "ranges_ok hw (contents (g_nodes g))" "hw < 65536" by blast
  have le: "caps_at n + caps_len n \<le> hw" using hw(3) n(1) by (auto simp: ranges_ok_def gnode_get_Some)
  show ?thesis
  proof (cases "caps_at n + caps_len n = hw")
    case False
    let ?g = "g\<lparr>misordered_caps := misordered_caps g + 1\<rparr>"
    have "gnode_get ?g = gnode_get g" by (simp add: fun_eq_iff gnode_get_def)
    then have "capabilities ?g = capabilities g" by (rule capabilities_cong) simp
    then have "graph_inv (k, ?g) \<and> graph_abs ?g = graph_abs g" using inv by (simp add: graph_inv_def graph_abs_def gnode_get_def)
    moreover have "add_capability i c (k, g) = Some ((k, ?g), False)" using False n hw(1,4) le by (simp add: add_capability_def Let_def)
    ultimately show ?thesis by auto
  next
    case True
    from grow_caps [OF inv, of hw c] obtain k' t ok m where g: "set_growing offer_ty hw c (k, g_caps g) = Some ((k', t), ok)"
      and k': "km_inv k'" "funded_inv gnode_ty k' (g_nodes g)" "funded_inv edge_ty k' (g_edges g)" "funded_inv offer_ty k' t"
        "set (held (g_nodes g)) \<inter> set (held t) = {}" "set (held (g_edges g)) \<inter> set (held t) = {}"
      and m: "ok \<longrightarrow> hw < length (contents (g_caps g)) + m" "contents t = (if ok then (contents (g_caps g) @ replicate m (ty_zero offer_ty))[hw := c] else contents (g_caps g))" by blast
    show ?thesis
    proof (cases ok)
      case False
      then have "add_capability i c (k, g) = Some ((k', g\<lparr>g_caps := t\<rparr>), False)" using True n hw(1,4) g by (simp add: add_capability_def Let_def)
      with graph_inv_caps_refused [OF inv k'] m(2) False show ?thesis by auto
    next
      case ok: True
      have "length (contents t) < 65536" by (rule table_small [OF k'(4)]) (simp add: elems_per_page_def offer_ty_def FRAME_SIZE_def)
      then have small: "caps_len n + 1 < 65536" using m ok True by simp
      from add_capability_grown [OF inv n(1) _ n(2) k', of m] True m ok hw(1) obtain t2 where
        "funded_set gnode_ty i (n\<lparr>caps_len := caps_len n + 1\<rparr>) (g_nodes g) = Some (t2, True)" "graph_inv (k', g\<lparr>g_caps := t, g_nodes := t2\<rparr>)"
        "graph_abs (g\<lparr>g_caps := t, g_nodes := t2\<rparr>) = (graph_abs g)\<lparr>a_offers := (a_offers (graph_abs g))(i := capabilities g i @ [c])\<rparr>" by auto
      moreover from this(1) have "add_capability i c (k, g) = Some ((k', g\<lparr>g_caps := t, g_nodes := t2\<rparr>), True)"
        using True n hw(1,4) g ok small by (simp add: add_capability_def Let_def)
      ultimately show ?thesis using n(1) by (auto simp: graph_abs_def)
    qed
  qed
qed

lemma grow_nodes:
  assumes inv: "graph_inv (k, g)"
  shows "\<exists>k' t ok. set_growing gnode_ty i n (k, g_nodes g) = Some ((k', t), ok) \<and> km_inv k' \<and>
    funded_inv gnode_ty k' t \<and> funded_inv edge_ty k' (g_edges g) \<and> funded_inv offer_ty k' (g_caps g) \<and>
    set (held t) \<inter> set (held (g_edges g)) = {} \<and> set (held t) \<inter> set (held (g_caps g)) = {} \<and>
    (\<exists>m. (ok \<longrightarrow> i < length (contents (g_nodes g)) + m) \<and> contents t = (if ok then (contents (g_nodes g) @ replicate m (ty_zero gnode_ty))[i := n] else contents (g_nodes g)))"
proof -
  note I = graph_invD [OF inv]
  from set_growing_spec [OF I(1,2), of i n] obtain k' t ok where g: "set_growing gnode_ty i n (k, g_nodes g) = Some ((k', t), ok)"
    and acct: "table_acct gnode_ty (k, g_nodes g) (k', t)" and t: "cap (g_nodes g) \<le> cap t" "ok \<longrightarrow> i < cap t"
    "contents t = (if ok then (contents (g_nodes g) @ replicate (cap t - cap (g_nodes g)) (ty_zero gnode_ty))[i := n] else contents (g_nodes g))" by blast
  have "km_inv k'" "funded_inv gnode_ty k' t" using acct by (auto simp: table_acct_def)
  moreover note set_growing_other [OF I(1,2) I(3) I(5) g] set_growing_other [OF I(1,2) I(4) I(6) g]
  ultimately show ?thesis using g t length_contents [OF I(2)] by (intro exI [of _ k'] exI [of _ t] exI [of _ ok] conjI) (auto intro!: exI [of _ "cap t - cap (g_nodes g)"])
qed

lemma grow_edges:
  assumes inv: "graph_inv (k, g)"
  shows "\<exists>k' t ok. set_growing edge_ty i e (k, g_edges g) = Some ((k', t), ok) \<and> km_inv k' \<and>
    funded_inv gnode_ty k' (g_nodes g) \<and> funded_inv edge_ty k' t \<and> funded_inv offer_ty k' (g_caps g) \<and>
    set (held (g_nodes g)) \<inter> set (held t) = {} \<and> set (held t) \<inter> set (held (g_caps g)) = {} \<and>
    (\<exists>m. (ok \<longrightarrow> i < length (contents (g_edges g)) + m) \<and> contents t = (if ok then (contents (g_edges g) @ replicate m (ty_zero edge_ty))[i := e] else contents (g_edges g)))"
proof -
  note I = graph_invD [OF inv]
  from set_growing_spec [OF I(1,3), of i e] obtain k' t ok where g: "set_growing edge_ty i e (k, g_edges g) = Some ((k', t), ok)"
    and acct: "table_acct edge_ty (k, g_edges g) (k', t)" and t: "cap (g_edges g) \<le> cap t" "ok \<longrightarrow> i < cap t"
    "contents t = (if ok then (contents (g_edges g) @ replicate (cap t - cap (g_edges g)) (ty_zero edge_ty))[i := e] else contents (g_edges g))" by blast
  have "km_inv k'" "funded_inv edge_ty k' t" using acct by (auto simp: table_acct_def)
  moreover have "funded_inv gnode_ty k' (g_nodes g)" "set (held (g_nodes g)) \<inter> set (held t) = {}"
    using set_growing_other [OF I(1,3) I(2) _ g] I(5) by auto
  moreover note set_growing_other [OF I(1,3) I(4) I(7) g]
  ultimately show ?thesis using g t length_contents [OF I(3)] by (intro exI [of _ k'] exI [of _ t] exI [of _ ok] conjI) (auto intro!: exI [of _ "cap t - cap (g_edges g)"])
qed

lemma graph_add_node:
  assumes inv: "graph_inv (k, g)" and i: "i < length (contents (g_nodes g)) + m" "i < length (contents (g_nodes g)) \<longrightarrow> \<not> live (contents (g_nodes g) ! i)"
    and n: "live n" "caps_at n = caps_high_water g" "caps_len n = 0"
    and t: "km_inv k'" "funded_inv gnode_ty k' t" "funded_inv edge_ty k' (g_edges g)" "funded_inv offer_ty k' (g_caps g)"
    "set (held t) \<inter> set (held (g_edges g)) = {}" "set (held t) \<inter> set (held (g_caps g)) = {}"
    "contents t = (contents (g_nodes g) @ replicate m (ty_zero gnode_ty))[i := n]"
  shows "graph_inv (k', g\<lparr>g_nodes := t\<rparr>) \<and>
    graph_abs (g\<lparr>g_nodes := t\<rparr>) = (graph_abs g)\<lparr>a_node := (a_node (graph_abs g))(i \<mapsto> plain n), a_offers := (a_offers (graph_abs g))(i := [])\<rparr> \<and> node_id i = i"
proof -
  let ?ns = "contents (g_nodes g)" and ?g = "g\<lparr>g_nodes := t\<rparr>"
  from graph_hw [OF inv] obtain hw where hw: "caps_high_water g = hw" "dense hw (contents (g_caps g))" "ranges_ok hw ?ns" by blast
  have nth: "contents t ! j = (if j = i then n else if j < length ?ns then ?ns ! j else ty_zero gnode_ty)" if "j < length ?ns + m" for j
    using that by (auto simp: t(7) nth_list_update nth_append)
  have len: "length (contents t) = length ?ns + m" by (simp add: t(7))
  have dead: "\<not> live (ty_zero gnode_ty)" by (simp add: gnode_ty_def GNODE_EMPTY_def)
  have lv: "live (contents t ! j) \<longleftrightarrow> j = i \<or> j < length ?ns \<and> live (?ns ! j)" if "j < length ?ns + m" for j
    using nth [OF that] n(1) dead i(2) by auto
  have none: "\<not> owns n x" for x using n(3) by (simp add: owns_def)
  have "ranges_ok hw (contents t)"
  proof -
    have "caps_at (contents t ! j) + caps_len (contents t ! j) \<le> hw" if "j < length (contents t)" "live (contents t ! j)" for j
      using that lv [of j] nth [of j] n hw(1,3) i(2) len by (cases "j = i") (auto simp: ranges_ok_def)
    moreover have "a = b" if ab: "a < length (contents t)" "b < length (contents t)" "live (contents t ! a)" "live (contents t ! b)"
      "owns (contents t ! a) x" "owns (contents t ! b) x" for a b x
    proof -
      have ab': "a \<noteq> i" "b \<noteq> i" using ab nth [of i] i(1) none by auto
      then have "a < length ?ns" "b < length ?ns" "live (?ns ! a)" "live (?ns ! b)" using ab lv [of a] lv [of b] len by auto
      with ab ab' nth [of a] nth [of b] len hw(3) show ?thesis unfolding ranges_ok_def by auto
    qed
    ultimately show ?thesis unfolding ranges_ok_def by blast
  qed
  then have inv': "graph_inv (k', ?g)" using t hw(2) graph_invD(7,8) [OF inv] by (auto simp: graph_inv_def)
  have get: "gnode_get ?g j = (if j = i then Some n else gnode_get g j)" for j
    using i n(1) nth [of j] dead len by (cases "j < length ?ns + m") (auto simp: gnode_get_def nth_opt_def)
  have old: "gnode_get g i = None" using i(2) by (simp add: gnode_get_None)
  have "capabilities ?g j = (if j = i then [] else capabilities g j)" for j
    using n(3) by (cases "gnode_get g j") (simp_all add: capabilities_def get List.map_filter_def)
  then have "graph_abs ?g = (graph_abs g)\<lparr>a_node := (a_node (graph_abs g))(i \<mapsto> plain n), a_offers := (a_offers (graph_abs g))(i := [])\<rparr>"
    by (auto simp: graph_abs_def get fun_eq_iff)
  moreover have "node_id i = i" using nodes_small [OF inv'] i(1) len by (simp add: node_id_def)
  ultimately show ?thesis using inv' by blast
qed

lemma add_node_spec:
  assumes inv: "graph_inv (k, g)"
  shows "\<exists>k' g' r. add_node kind hw (k, g) = Some ((k', g'), r) \<and> graph_inv (k', g') \<and>
    (case r of None \<Rightarrow> graph_abs g' = graph_abs g
     | Some i \<Rightarrow> kind \<noteq> KFree \<and> gnode_get g i = None \<and>
         graph_abs g' = (graph_abs g)\<lparr>a_node := (a_node (graph_abs g))(i \<mapsto> GNODE_EMPTY\<lparr>g_kind := kind, g_hw_id := hw\<rparr>), a_offers := (a_offers (graph_abs g))(i := [])\<rparr>)"
proof (cases "kind = KFree")
  case True
  then have "add_node kind hw (k, g) = Some ((k, g), None)" by (simp add: add_node_def)
  with inv show ?thesis by auto
next
  case False
  let ?ns = "contents (g_nodes g)"
  define i where "i = (case find_idx (\<lambda>n. g_kind n = KFree) ?ns of Some i \<Rightarrow> i | None \<Rightarrow> cap (g_nodes g))"
  define n where "n = GNODE_EMPTY\<lparr>g_kind := kind, g_hw_id := hw, caps_at := caps_high_water g\<rparr>"
  have n: "live n" "caps_at n = caps_high_water g" "caps_len n = 0" "plain n = GNODE_EMPTY\<lparr>g_kind := kind, g_hw_id := hw\<rparr>"
    using False by (simp_all add: n_def GNODE_EMPTY_def plain_def)
  have free: "i < length ?ns \<longrightarrow> \<not> live (?ns ! i)" using length_contents [OF graph_invD(2) [OF inv]]
    by (auto simp: i_def find_idx_Some split: option.splits)
  then have old: "gnode_get g i = None" by (simp add: gnode_get_None)
  show ?thesis
  proof (cases "cap (g_nodes g) \<le> i")
    case True
    from grow_nodes [OF inv, of i n] obtain k' t ok m where g: "set_growing gnode_ty i n (k, g_nodes g) = Some ((k', t), ok)"
      and k': "km_inv k'" "funded_inv gnode_ty k' t" "funded_inv edge_ty k' (g_edges g)" "funded_inv offer_ty k' (g_caps g)"
        "set (held t) \<inter> set (held (g_edges g)) = {}" "set (held t) \<inter> set (held (g_caps g)) = {}"
      and m: "ok \<longrightarrow> i < length ?ns + m" "contents t = (if ok then (?ns @ replicate m (ty_zero gnode_ty))[i := n] else ?ns)" by blast
    have an: "add_node kind hw (k, g) = Some ((k', g\<lparr>g_nodes := t\<rparr>), if ok then Some (node_id i) else None)"
      using False True g by (simp add: add_node_def Let_def i_def [symmetric] n_def [symmetric])
    show ?thesis
    proof (cases ok)
      case ok: True
      from graph_add_node [OF inv _ free n(1-3) k', of m] m ok an n(4) old False show ?thesis by auto
    next
      case nok: False
      then have same: "contents t = ?ns" using m(2) by simp
      have "gnode_get (g\<lparr>g_nodes := t\<rparr>) = gnode_get g" by (simp add: fun_eq_iff gnode_get_def same)
      moreover from this have "capabilities (g\<lparr>g_nodes := t\<rparr>) = capabilities g" by (rule capabilities_cong) simp
      ultimately have "graph_abs (g\<lparr>g_nodes := t\<rparr>) = graph_abs g" by (simp add: graph_abs_def)
      moreover have "graph_inv (k', g\<lparr>g_nodes := t\<rparr>)" using inv k' same by (simp add: graph_inv_def)
      ultimately show ?thesis using an nok by auto
    qed
  next
    case in_range: False
    then have il: "i < length ?ns" using length_contents [OF graph_invD(2) [OF inv]] by simp
    from funded_set_inv [OF graph_invD(2) [OF inv], of i n] obtain t where t: "funded_set gnode_ty i n (g_nodes g) = Some (t, i < cap (g_nodes g))" "funded_inv gnode_ty k t"
      "contents t = ?ns[i := n]" "held t = held (g_nodes g)" by blast
    have an: "add_node kind hw (k, g) = Some ((k, g\<lparr>g_nodes := t\<rparr>), Some (node_id i))"
      using False in_range t(1) by (simp add: add_node_def Let_def i_def [symmetric] n_def [symmetric])
    from graph_add_node [OF inv _ free n(1-3) graph_invD(1) [OF inv] t(2) graph_invD(3,4) [OF inv], of 0] il t graph_invD(5,6) [OF inv] an n(4) old False
    show ?thesis by auto
  qed
qed

text \<open>A new or replaced edge: the costs are a map.\<close>

lemma edges_unique: "\<lbrakk>edges_ok es; i < length es; j < length es; links a b (es ! i); links a b (es ! j)\<rbrakk> \<Longrightarrow> i = j"
  unfolding edges_ok_def links_def by metis

lemma find_links:
  assumes "edges_ok es" "k < length es" "links a b (es ! k)"
  shows "find (links a b) es = Some (es ! k)"
proof -
  have "\<not> links a b (es ! j)" if "j < k" for j using edges_unique [OF assms(1,2), of j a b] assms that by auto
  with assms(2,3) show ?thesis by (auto simp: find_Some_iff)
qed

lemma edges_upd:
  assumes ok: "edges_ok es" and i: "i < length es + m"
    and slot: "i < length es \<longrightarrow> \<not> e_used (es ! i) \<or> links a b (es ! i)" and free: "\<And>j. j < length es \<Longrightarrow> j \<noteq> i \<Longrightarrow> \<not> links a b (es ! j)"
    and es': "es' = (es @ replicate m (ty_zero edge_ty))[i := \<lparr> e_used = True, e_from = a, e_to = b, e_cost = c \<rparr>]"
  shows "edges_ok es'" "map_option e_cost (find (links x y) es') = (if x = a \<and> y = b then Some c else map_option e_cost (find (links x y) es))"
proof -
  let ?e = "\<lparr> e_used = True, e_from = a, e_to = b, e_cost = c \<rparr>"
  have nth: "es' ! j = (if j = i then ?e else if j < length es then es ! j else ty_zero edge_ty)" if "j < length es + m" for j
    using that by (auto simp: es' nth_list_update nth_append)
  have len: "length es' = length es + m" by (simp add: es')
  have links': "links x y (es' ! j) \<longleftrightarrow> (if j = i then x = a \<and> y = b else j < length es \<and> links x y (es ! j))" if "j < length es + m" for x y j
    using nth [OF that] by (auto simp: links_def edge_ty_def)
  have "p = q" if pq: "p < length es + m" "q < length es + m" "links x y (es' ! p)" "links x y (es' ! q)" for p q x y
    using pq links' [OF pq(1), of x y] links' [OF pq(2), of x y] free edges_unique [OF ok, of p q x y] by (cases "p = i"; cases "q = i") auto
  then show ok': "edges_ok es'" unfolding edges_ok_def len by (simp add: links_def)
  show "map_option e_cost (find (links x y) es') = (if x = a \<and> y = b then Some c else map_option e_cost (find (links x y) es))"
  proof (cases "x = a \<and> y = b")
    case True
    then have "find (links x y) es' = Some (es' ! i)" using find_links [OF ok', of i] links' [OF i] i len by simp
    then show ?thesis using True nth [OF i] by simp
  next
    case False
    have noti: "\<not> (i < length es \<and> links x y (es ! i))" using slot False unfolding links_def by blast
    have same: "links x y (es' ! j) \<longleftrightarrow> j < length es \<and> links x y (es ! j)" if "j < length es + m" for j
      unfolding links' [OF that] using False noti by (cases "j = i") (simp_all, blast)
    show ?thesis
    proof (cases "\<exists>j < length es. links x y (es ! j)")
      case True
      then obtain j where j: "j < length es" "links x y (es ! j)" by blast
      then have "j \<noteq> i" using noti by blast
      then have "es' ! j = es ! j" using nth [of j] j by simp
      then show ?thesis using False find_links [OF ok j] find_links [OF ok', of j x y] same [of j] j len by auto
    next
      case none: False
      then have "find (links x y) es = None" "find (links x y) es' = None" using same len by (auto simp: find_None_iff in_set_conv_nth)
      with False show ?thesis by auto
    qed
  qed
qed

lemma graph_edge_upd:
  assumes inv: "graph_inv (k, g)" and i: "i < length (contents (g_edges g)) + m"
    and slot: "i < length (contents (g_edges g)) \<longrightarrow> \<not> e_used (contents (g_edges g) ! i) \<or> links a b (contents (g_edges g) ! i)"
    and free: "\<And>j. j < length (contents (g_edges g)) \<Longrightarrow> j \<noteq> i \<Longrightarrow> \<not> links a b (contents (g_edges g) ! j)"
    and t: "km_inv k'" "funded_inv gnode_ty k' (g_nodes g)" "funded_inv edge_ty k' t" "funded_inv offer_ty k' (g_caps g)"
    "set (held (g_nodes g)) \<inter> set (held t) = {}" "set (held t) \<inter> set (held (g_caps g)) = {}"
    "contents t = (contents (g_edges g) @ replicate m (ty_zero edge_ty))[i := \<lparr> e_used = True, e_from = a, e_to = b, e_cost = c \<rparr>]"
  shows "graph_inv (k', g\<lparr>g_edges := t\<rparr>) \<and> graph_abs (g\<lparr>g_edges := t\<rparr>) = (graph_abs g)\<lparr>a_edge := (a_edge (graph_abs g))(a := (a_edge (graph_abs g) a)(b \<mapsto> c))\<rparr>"
proof -
  note upd = edges_upd [OF graph_invD(8) [OF inv] i slot free t(7)]
  have "gnode_get (g\<lparr>g_edges := t\<rparr>) = gnode_get g" by (simp add: fun_eq_iff gnode_get_def)
  moreover from this have "capabilities (g\<lparr>g_edges := t\<rparr>) = capabilities g" by (rule capabilities_cong) simp
  ultimately have "graph_abs (g\<lparr>g_edges := t\<rparr>) = (graph_abs g)\<lparr>a_edge := (a_edge (graph_abs g))(a := (a_edge (graph_abs g) a)(b \<mapsto> c))\<rparr>"
    using upd(2) by (simp add: graph_abs_def fun_eq_iff)
  moreover have "graph_inv (k', g\<lparr>g_edges := t\<rparr>)" using inv t(1-6) upd(1) graph_invD(6) [OF inv] by (simp add: graph_inv_def)
  ultimately show ?thesis by blast
qed

lemma add_edge_spec:
  assumes inv: "graph_inv (k, g)"
  shows "\<exists>k' g' ok. add_edge a b c (k, g) = Some ((k', g'), ok) \<and> graph_inv (k', g') \<and>
    graph_abs g' = (if ok then (graph_abs g)\<lparr>a_edge := (a_edge (graph_abs g))(a := (a_edge (graph_abs g) a)(b \<mapsto> c))\<rparr> else graph_abs g) \<and>
    (ok \<longrightarrow> gnode_get g a \<noteq> None \<and> gnode_get g b \<noteq> None)"
proof (cases "gnode_get g a = None \<or> gnode_get g b = None")
  case True
  then have "add_edge a b c (k, g) = Some ((k, g), False)" by (auto simp: add_edge_def)
  with inv show ?thesis by auto
next
  case both: False
  let ?es = "contents (g_edges g)" and ?e = "\<lparr> e_used = True, e_from = a, e_to = b, e_cost = c \<rparr>"
  note I = graph_invD [OF inv]
  show ?thesis
  proof (cases "find_idx (links a b) ?es")
    case (Some i)
    then have i: "i < length ?es" "links a b (?es ! i)" by (simp_all add: find_idx_Some)
    have free: "\<not> links a b (?es ! j)" if "j < length ?es" "j \<noteq> i" for j using edges_unique [OF I(8), of i j a b] i that by auto
    from funded_set_inv [OF I(3), of i ?e] obtain t where t: "funded_set edge_ty i ?e (g_edges g) = Some (t, i < cap (g_edges g))" "funded_inv edge_ty k t"
      "contents t = ?es[i := ?e]" "held t = held (g_edges g)" by blast
    have "add_edge a b c (k, g) = Some ((k, g\<lparr>g_edges := t\<rparr>), True)" using both Some t(1) i(1) length_contents [OF I(3)] by (simp add: add_edge_def Let_def)
    moreover from graph_edge_upd [OF inv, of i 0 a b k t c] i free I t have "graph_inv (k, g\<lparr>g_edges := t\<rparr>) \<and>
      graph_abs (g\<lparr>g_edges := t\<rparr>) = (graph_abs g)\<lparr>a_edge := (a_edge (graph_abs g))(a := (a_edge (graph_abs g) a)(b \<mapsto> c))\<rparr>" by simp
    ultimately show ?thesis using both by auto
  next
    case None
    define i where "i = (case find_idx (\<lambda>e. \<not> e_used e) ?es of Some i \<Rightarrow> i | None \<Rightarrow> cap (g_edges g))"
    have free: "\<not> links a b (?es ! j)" if "j < length ?es" for j using None that by (simp add: find_idx_None_nth)
    have slot: "i < length ?es \<longrightarrow> \<not> e_used (?es ! i)" using length_contents [OF I(3)] by (auto simp: i_def find_idx_Some split: option.splits)
    from grow_edges [OF inv, of i ?e] obtain k' t ok m where g: "set_growing edge_ty i ?e (k, g_edges g) = Some ((k', t), ok)"
      and k': "km_inv k'" "funded_inv gnode_ty k' (g_nodes g)" "funded_inv edge_ty k' t" "funded_inv offer_ty k' (g_caps g)"
        "set (held (g_nodes g)) \<inter> set (held t) = {}" "set (held t) \<inter> set (held (g_caps g)) = {}"
      and m: "ok \<longrightarrow> i < length ?es + m" "contents t = (if ok then (?es @ replicate m (ty_zero edge_ty))[i := ?e] else ?es)" by blast
    have ae: "add_edge a b c (k, g) = Some ((k', g\<lparr>g_edges := t\<rparr>), ok)" using both None g by (auto simp: add_edge_def Let_def i_def [symmetric])
    show ?thesis
    proof (cases ok)
      case True
      with graph_edge_upd [OF inv, of i m a b k' t c] slot free k' m have "graph_inv (k', g\<lparr>g_edges := t\<rparr>) \<and>
        graph_abs (g\<lparr>g_edges := t\<rparr>) = (graph_abs g)\<lparr>a_edge := (a_edge (graph_abs g))(a := (a_edge (graph_abs g) a)(b \<mapsto> c))\<rparr>" by simp
      with ae True both show ?thesis by auto
    next
      case False
      then have same: "contents t = ?es" using m(2) by simp
      have "gnode_get (g\<lparr>g_edges := t\<rparr>) = gnode_get g" by (simp add: fun_eq_iff gnode_get_def)
      moreover from this have "capabilities (g\<lparr>g_edges := t\<rparr>) = capabilities g" by (rule capabilities_cong) simp
      ultimately have "graph_abs (g\<lparr>g_edges := t\<rparr>) = graph_abs g" by (simp add: graph_abs_def same)
      moreover have "graph_inv (k', g\<lparr>g_edges := t\<rparr>)" using inv k' same graph_invD(6) [OF inv] by (simp add: graph_inv_def)
      ultimately show ?thesis using ae False by auto
    qed
  qed
qed

section \<open>Properties\<close>

text \<open>The operations that build the graph, with what they answer, and their meaning on the abstract graph given that answer.\<close>

datatype graph_op = GNode node_kind u64 | GLocality node_id node_id | GMember node_id node_id | GIsa node_id isa_set | GCore node_id hw_core_class nat
  | GOffer node_id capability_offer | GEdge node_id node_id cost | GSource graph_source

datatype graph_answer = AnsNode "node_id option" | AnsBool bool

fun graph_exec :: "graph_op \<Rightarrow> (kmem \<times> graph) \<times> graph_answer list \<Rightarrow> ((kmem \<times> graph) \<times> graph_answer list) option" where
  "graph_exec (GNode kind hw) (s, rs) = map_option (\<lambda>(s', r). (s', rs @ [AnsNode r])) (add_node kind hw s)"
| "graph_exec (GLocality i nd) ((k, g), rs) = map_option (\<lambda>(g', r). ((k, g'), rs @ [AnsBool r])) (set_locality i nd g)"
| "graph_exec (GMember i st) ((k, g), rs) = map_option (\<lambda>(g', r). ((k, g'), rs @ [AnsBool r])) (set_member i st g)"
| "graph_exec (GIsa i isa) ((k, g), rs) = map_option (\<lambda>(g', r). ((k, g'), rs @ [AnsBool r])) (set_isa i isa g)"
| "graph_exec (GCore i c capacity) ((k, g), rs) = map_option (\<lambda>(g', r). ((k, g'), rs @ [AnsBool r])) (set_core i c capacity g)"
| "graph_exec (GOffer i c) (s, rs) = map_option (\<lambda>(s', r). (s', rs @ [AnsBool r])) (add_capability i c s)"
| "graph_exec (GEdge a b c) (s, rs) = map_option (\<lambda>(s', r). (s', rs @ [AnsBool r])) (add_edge a b c s)"
| "graph_exec (GSource src) ((k, g), rs) = Some ((k, set_source src g), rs @ [AnsBool True])"

definition a_upd :: "node_id \<Rightarrow> (gnode \<Rightarrow> gnode) \<Rightarrow> agraph \<Rightarrow> agraph" where
  "a_upd i f a = a\<lparr>a_node := (a_node a)(i := map_option f (a_node a i))\<rparr>"

fun spec_graph :: "agraph \<Rightarrow> graph_op \<times> graph_answer \<Rightarrow> agraph" where
  "spec_graph a (GNode kind hw, AnsNode (Some i)) =
     a\<lparr>a_node := (a_node a)(i \<mapsto> GNODE_EMPTY\<lparr>g_kind := kind, g_hw_id := hw\<rparr>), a_offers := (a_offers a)(i := [])\<rparr>"
| "spec_graph a (GLocality i nd, AnsBool True) = a_upd i (\<lambda>n. n\<lparr>g_node := nd\<rparr>) a"
| "spec_graph a (GMember i st, AnsBool True) = a_upd i (\<lambda>n. n\<lparr>g_set := st\<rparr>) a"
| "spec_graph a (GIsa i isa, AnsBool True) = a_upd i (\<lambda>n. n\<lparr>g_isa := isa\<rparr>) a"
| "spec_graph a (GCore i c capacity, AnsBool True) = a_upd i (\<lambda>n. n\<lparr>g_class := c, g_capacity := capacity\<rparr>) a"
| "spec_graph a (GOffer i c, AnsBool True) = a\<lparr>a_offers := (a_offers a)(i := a_offers a i @ [c])\<rparr>"
| "spec_graph a (GEdge x y c, AnsBool True) = a\<lparr>a_edge := (a_edge a)(x := (a_edge a x)(y \<mapsto> c))\<rparr>"
| "spec_graph a _ = a"

text \<open>The answers that are possible: new names are unused ones, and only existing nodes are changed or linked.\<close>

fun answer_ok :: "agraph \<Rightarrow> graph_op \<times> graph_answer \<Rightarrow> bool" where
  "answer_ok a (GNode kind hw, AnsNode (Some i)) \<longleftrightarrow> kind \<noteq> KFree \<and> a_node a i = None"
| "answer_ok a (GLocality i nd, AnsBool ok) \<longleftrightarrow> ok = (a_node a i \<noteq> None)"
| "answer_ok a (GMember i st, AnsBool ok) \<longleftrightarrow> ok = (a_node a i \<noteq> None)"
| "answer_ok a (GIsa i isa, AnsBool ok) \<longleftrightarrow> ok = (a_node a i \<noteq> None)"
| "answer_ok a (GCore i c capacity, AnsBool ok) \<longleftrightarrow> ok = (a_node a i \<noteq> None)"
| "answer_ok a (GOffer i c, AnsBool True) \<longleftrightarrow> a_node a i \<noteq> None"
| "answer_ok a (GEdge x y c, AnsBool True) \<longleftrightarrow> a_node a x \<noteq> None \<and> a_node a y \<noteq> None"
| "answer_ok a _ \<longleftrightarrow> True"

fun spec_run :: "agraph \<Rightarrow> (graph_op \<times> graph_answer) list \<Rightarrow> agraph option" where
  "spec_run a [] = Some a"
| "spec_run a (x # xs) = (if answer_ok a x then spec_run (spec_graph a x) xs else None)"

lemma update_refines:
  assumes inv: "graph_inv (k, g)" and f: "\<And>n. live n \<Longrightarrow> live (f n)" "\<And>n. caps_at (f n) = caps_at n" "\<And>n. caps_len (f n) = caps_len n" "\<And>n. plain (f n) = f (plain n)"
  shows "\<exists>g'. update_node i f g = Some (g', a_node (graph_abs g) i \<noteq> None) \<and> graph_inv (k, g') \<and>
    graph_abs g' = (if a_node (graph_abs g) i \<noteq> None then a_upd i f (graph_abs g) else graph_abs g)"
proof -
  from update_node_spec [OF inv f(1-3), of i] obtain g' where g': "update_node i f g = Some (g', gnode_get g i \<noteq> None)" "graph_inv (k, g')"
    "graph_abs g' = (case gnode_get g i of None \<Rightarrow> graph_abs g | Some n \<Rightarrow> (graph_abs g)\<lparr>a_node := (a_node (graph_abs g))(i \<mapsto> plain (f n))\<rparr>)" by blast
  have "a_node (graph_abs g) i = map_option plain (gnode_get g i)" by (simp add: graph_abs_def)
  with g' f(4) show ?thesis by (cases "gnode_get g i") (simp_all add: a_upd_def)
qed

lemma graph_exec_refines:
  assumes inv: "graph_inv (k, g)"
  shows "\<exists>k' g' r. graph_exec x ((k, g), rs) = Some ((k', g'), rs @ [r]) \<and> graph_inv (k', g') \<and> answer_ok (graph_abs g) (x, r) \<and> graph_abs g' = spec_graph (graph_abs g) (x, r)"
proof -
  have node: "a_node (graph_abs g) i = None \<longleftrightarrow> gnode_get g i = None" for i by (simp add: graph_abs_def)
  have upd: "\<exists>g' r. update_node i f g = Some (g', r) \<and> graph_inv (k, g') \<and> r = (a_node (graph_abs g) i \<noteq> None) \<and> graph_abs g' = (if r then a_upd i f (graph_abs g) else graph_abs g)"
    if "\<And>n. live n \<Longrightarrow> live (f n)" "\<And>n. caps_at (f n) = caps_at n" "\<And>n. caps_len (f n) = caps_len n" "\<And>n. plain (f n) = f (plain n)" for i f
    using update_refines [OF inv that, of i] by blast
  show ?thesis
  proof (cases x)
    case (GNode kind hw)
    from add_node_spec [OF inv, of kind hw] obtain k' g' r where r: "add_node kind hw (k, g) = Some ((k', g'), r)" "graph_inv (k', g')"
      "case r of None \<Rightarrow> graph_abs g' = graph_abs g | Some i \<Rightarrow> kind \<noteq> KFree \<and> gnode_get g i = None \<and>
         graph_abs g' = (graph_abs g)\<lparr>a_node := (a_node (graph_abs g))(i \<mapsto> GNODE_EMPTY\<lparr>g_kind := kind, g_hw_id := hw\<rparr>), a_offers := (a_offers (graph_abs g))(i := [])\<rparr>" by blast
    then show ?thesis using GNode node by (cases r) simp_all
  next
    case (GLocality i nd)
    from upd [of "\<lambda>n. n\<lparr>g_node := nd\<rparr>" i] obtain g' r where "update_node i (\<lambda>n. n\<lparr>g_node := nd\<rparr>) g = Some (g', r)" "graph_inv (k, g')" "r = (a_node (graph_abs g) i \<noteq> None)"
      "graph_abs g' = (if r then a_upd i (\<lambda>n. n\<lparr>g_node := nd\<rparr>) (graph_abs g) else graph_abs g)" by (auto simp: plain_def)
    then show ?thesis using GLocality by (cases r) (simp_all add: set_locality_def)
  next
    case (GMember i st)
    from upd [of "\<lambda>n. n\<lparr>g_set := st\<rparr>" i] obtain g' r where "update_node i (\<lambda>n. n\<lparr>g_set := st\<rparr>) g = Some (g', r)" "graph_inv (k, g')" "r = (a_node (graph_abs g) i \<noteq> None)"
      "graph_abs g' = (if r then a_upd i (\<lambda>n. n\<lparr>g_set := st\<rparr>) (graph_abs g) else graph_abs g)" by (auto simp: plain_def)
    then show ?thesis using GMember by (cases r) (simp_all add: set_member_def)
  next
    case (GIsa i isa)
    from upd [of "\<lambda>n. n\<lparr>g_isa := isa\<rparr>" i] obtain g' r where "update_node i (\<lambda>n. n\<lparr>g_isa := isa\<rparr>) g = Some (g', r)" "graph_inv (k, g')" "r = (a_node (graph_abs g) i \<noteq> None)"
      "graph_abs g' = (if r then a_upd i (\<lambda>n. n\<lparr>g_isa := isa\<rparr>) (graph_abs g) else graph_abs g)" by (auto simp: plain_def)
    then show ?thesis using GIsa by (cases r) (simp_all add: set_isa_def)
  next
    case (GCore i c capacity)
    from upd [of "\<lambda>n. n\<lparr>g_class := c, g_capacity := capacity\<rparr>" i] obtain g' r where "update_node i (\<lambda>n. n\<lparr>g_class := c, g_capacity := capacity\<rparr>) g = Some (g', r)" "graph_inv (k, g')"
      "r = (a_node (graph_abs g) i \<noteq> None)" "graph_abs g' = (if r then a_upd i (\<lambda>n. n\<lparr>g_class := c, g_capacity := capacity\<rparr>) (graph_abs g) else graph_abs g)" by (auto simp: plain_def)
    then show ?thesis using GCore by (cases r) (simp_all add: set_core_def)
  next
    case (GOffer i c)
    from add_capability_spec [OF inv, of i c] obtain k' g' ok where "add_capability i c (k, g) = Some ((k', g'), ok)" "graph_inv (k', g')"
      "graph_abs g' = (if ok then (graph_abs g)\<lparr>a_offers := (a_offers (graph_abs g))(i := a_offers (graph_abs g) i @ [c])\<rparr> else graph_abs g)" "ok \<longrightarrow> gnode_get g i \<noteq> None" by blast
    then show ?thesis using GOffer node by (cases ok) simp_all
  next
    case (GEdge x y c)
    from add_edge_spec [OF inv, of x y c] obtain k' g' ok where "add_edge x y c (k, g) = Some ((k', g'), ok)" "graph_inv (k', g')"
      "graph_abs g' = (if ok then (graph_abs g)\<lparr>a_edge := (a_edge (graph_abs g))(x := (a_edge (graph_abs g) x)(y \<mapsto> c))\<rparr> else graph_abs g)"
      "ok \<longrightarrow> gnode_get g x \<noteq> None \<and> gnode_get g y \<noteq> None" by blast
    then show ?thesis using GEdge node by (cases ok) simp_all
  next
    case (GSource src)
    have "gnode_get (set_source src g) = gnode_get g" by (simp add: fun_eq_iff gnode_get_def set_source_def)
    moreover from this have "capabilities (set_source src g) = capabilities g" by (rule capabilities_cong) (simp add: set_source_def)
    ultimately have "graph_abs (set_source src g) = graph_abs g" by (simp add: graph_abs_def set_source_def)
    moreover have "graph_inv (k, set_source src g)" using inv by (simp add: graph_inv_def set_source_def)
    ultimately show ?thesis using GSource by simp
  qed
qed

lemma graph_run_refines:
  "graph_inv (k, g) \<Longrightarrow> \<exists>k' g' rs'. for_each graph_exec ops ((k, g), rs) = Some ((k', g'), rs @ rs') \<and> length rs' = length ops \<and>
     graph_inv (k', g') \<and> spec_run (graph_abs g) (zip ops rs') = Some (graph_abs g')"
proof (induction ops arbitrary: k g rs)
  case (Cons x ops)
  from graph_exec_refines [OF Cons.prems, of x rs] obtain k1 g1 r where
    1: "graph_exec x ((k, g), rs) = Some ((k1, g1), rs @ [r])" "graph_inv (k1, g1)" "answer_ok (graph_abs g) (x, r)" "graph_abs g1 = spec_graph (graph_abs g) (x, r)" by blast
  from Cons.IH [OF 1(2), of "rs @ [r]"] obtain k' g' rs' where
    "for_each graph_exec ops ((k1, g1), rs @ [r]) = Some ((k', g'), (rs @ [r]) @ rs')" "length rs' = length ops" "graph_inv (k', g')"
    "spec_run (graph_abs g1) (zip ops rs') = Some (graph_abs g')" by blast
  with 1 show ?case by (intro exI [of _ k'] exI [of _ g'] exI [of _ "r # rs'"]) simp
qed simp

definition a_empty :: agraph where
  "a_empty = \<lparr> a_node = (\<lambda>_. None), a_offers = (\<lambda>_. []), a_edge = (\<lambda>_ _. None) \<rparr>"

lemma graph_abs_new: "graph_abs graph_new = a_empty"
proof -
  have "gnode_get graph_new i = None" for i by (simp add: gnode_get_def graph_new_def nth_opt_def contents_def page_data_def funded_new_def)
  then show ?thesis by (simp add: graph_abs_def a_empty_def fun_eq_iff capabilities_None)
    (simp add: graph_new_def contents_def page_data_def funded_new_def)
qed

text \<open>
  C22: however the graph is built, nothing panics, and at the end it stands for exactly what the successful calls say: a node has the kind, the hardware
  identity and the attributes last given to it; its capabilities are those added to it, in order, never another node's; the cost between two nodes is the one last
  recorded for that ordered pair; a refused call, for want of memory or because it came out of order, changes nothing. New names are unused ones, and only nodes that exist are changed or linked.
\<close>

theorem graph_refines:
  assumes "km_inv k"
  shows "\<exists>k' g rs. for_each graph_exec ops ((k, graph_new), []) = Some ((k', g), rs) \<and> length rs = length ops \<and>
     spec_run a_empty (zip ops rs) = Some (graph_abs g) \<and>
     (\<forall>i. capabilities g i = a_offers (graph_abs g) i) \<and>
     (\<forall>a b. graph_cost g a b = (if a_node (graph_abs g) a = None \<or> a_node (graph_abs g) b = None then None else if a = b then Some COST_LOCAL else a_edge (graph_abs g) a b))"
proof -
  from graph_run_refines [OF graph_new_inv [OF assms], of ops "[]"] obtain k' g rs where "for_each graph_exec ops ((k, graph_new), []) = Some ((k', g), rs)"
    "length rs = length ops" "spec_run a_empty (zip ops rs) = Some (graph_abs g)" by (auto simp: graph_abs_new)
  then show ?thesis by (intro exI [of _ k'] exI [of _ g] exI [of _ rs]) (simp add: graph_abs_def graph_cost_def)
qed

theorem graph_refines_witness:
  "\<exists>k k' g rs. km_inv k \<and> for_each graph_exec [GNode KCpu 7, GOffer 0 \<lparr> c_class = Crypto, c_reach = Inline, c_rate = 5, c_trust = TPerformance, c_detail = 0 \<rparr>] ((k, graph_new), []) = Some ((k', g), rs) \<and>
     length rs = 2"
proof -
  obtain k where k: "km_inv k" using boot_memory by blast
  from graph_refines [OF k, of "[GNode KCpu 7, GOffer 0 \<lparr> c_class = Crypto, c_reach = Inline, c_rate = 5, c_trust = TPerformance, c_detail = 0 \<rparr>]"]
  show ?thesis using k by (elim exE conjE) (intro exI conjI, assumption, assumption, simp)
qed

section \<open>Queries rank what survives the filter\<close>

text \<open>What \<^verbatim>\<open>nearest\<close> compares: the nodes that satisfy the request and have a known cost, with that cost.\<close>

definition candidate :: "graph \<Rightarrow> node_id \<Rightarrow> request \<Rightarrow> metric \<Rightarrow> node_id \<Rightarrow> (resolution \<times> nat) option" where
  "candidate g src req by_metric i = do { (c, r) \<leftarrow> select g i req; e \<leftarrow> graph_cost g src i; Some (r, effective c e by_metric) }"

interpretation metric_rank: best_scan "\<lambda>(_ :: resolution, a). \<lambda>(_ :: resolution, b). better by_metric a b" for by_metric
  by unfold_locales (auto simp: better_def split: if_splits)

lemma select_None: "gnode_get g i = None \<Longrightarrow> select g i req = None"
  by (simp add: select_def)

lemma nearest_fold:
  "foldl (nearest_step g src req by_metric) (anyp, best) is =
     (anyp \<or> (\<exists>i \<in> set is. gnode_get g i \<noteq> None \<and> list_ex (\<lambda>c. c_class c = rq_class req) (capabilities g i)),
      foldl (scan_best (\<lambda>(_, a). \<lambda>(_, b). better by_metric a b) (candidate g src req by_metric)) best is)"
proof (induction "is" arbitrary: anyp best)
  case (Cons i "is")
  have step: "nearest_step g src req by_metric (anyp, best) i =
      (anyp \<or> gnode_get g i \<noteq> None \<and> list_ex (\<lambda>c. c_class c = rq_class req) (capabilities g i),
       scan_best (\<lambda>(_, a). \<lambda>(_, b). better by_metric a b) (candidate g src req by_metric) best i)"
  proof (cases "gnode_get g i = None")
    case True
    then show ?thesis by (simp add: nearest_step_def scan_best_def candidate_def select_None)
  next
    case False
    then show ?thesis
      by (auto simp: nearest_step_def scan_best_def candidate_def Let_def split: option.splits prod.splits)
  qed
  show ?case using Cons.IH step by auto
qed auto

lemma node_ids:
  assumes "graph_inv (k, g)"
  shows "map node_id [0..<length (contents (g_nodes g))] = [0..<length (contents (g_nodes g))]"
  using nodes_small [OF assms] by (intro map_idI) (simp add: node_id_def)

lemma first_best_upt:
  assumes "first_best bt key [0..<n] x kx"
  shows "x < n" "key x = Some kx" "\<And>y ky. y < x \<Longrightarrow> key y = Some ky \<Longrightarrow> bt kx ky" "\<And>y ky. x < y \<Longrightarrow> y < n \<Longrightarrow> key y = Some ky \<Longrightarrow> \<not> bt ky kx"
proof -
  from assms obtain ys zs where x: "[0..<n] = ys @ x # zs" "key x = Some kx" "\<forall>y \<in> set ys. \<forall>k'. key y = Some k' \<longrightarrow> bt kx k'"
    "\<forall>z \<in> set zs. \<forall>k'. key z = Some k' \<longrightarrow> \<not> bt k' kx" by (auto simp: first_best_def)
  have len: "length ys < n" using arg_cong [OF x(1), of length] by simp
  have "[0..<n] ! length ys = x" unfolding x(1) by simp
  then have lx: "length ys = x" using len by simp
  have ys: "ys = [0..<x]" using arg_cong [OF x(1), of "take x"] lx len by (simp add: take_upt)
  have zs: "zs = [Suc x..<n]" using arg_cong [OF x(1), of "drop (Suc x)"] lx len by (simp add: drop_upt)
  show "x < n" "key x = Some kx" using lx len x(2) by simp_all
  show "bt kx ky" if "y < x" "key y = Some ky" for y ky using x(3) that ys by simp
  show "\<not> bt ky kx" if "x < y" "y < n" "key y = Some ky" for y ky using x(4) that unfolding zs by auto
qed

interpretation resolution_rank: best_scan "\<lambda>a b. rank b < rank a"
  by unfold_locales auto

lemma select_spec:
  "case select g i req of None \<Rightarrow> True
   | Some (c, r) \<Rightarrow> c \<in> set (capabilities g i) \<and> usable req c \<and> r = resolution_of c \<and> (\<forall>c' \<in> set (capabilities g i). usable req c' \<longrightarrow> rank (resolution_of c') \<le> rank r)"
proof -
  let ?key = "\<lambda>c. if usable req c then Some (resolution_of c) else None"
  have "keep_best req = scan_best (\<lambda>a b. rank b < rank a) ?key"
    by (intro ext) (simp add: keep_best_def scan_best_def Let_def split: option.splits)
  note kb = this
  show ?thesis
  proof (cases "select g i req")
    case (Some p)
    obtain c r where p: "p = (c, r)" by force
    then have "foldl (scan_best (\<lambda>a b. rank b < rank a) ?key) None (capabilities g i) = Some (c, r)"
      using Some by (simp add: select_def kb split: option.splits if_splits)
    with resolution_rank.scan_first_best [where key = ?key and xs = "capabilities g i"]
    have fb: "first_best (\<lambda>a b. rank b < rank a) ?key (capabilities g i) c r" by simp
    have "rank (resolution_of c') \<le> rank r" if "c' \<in> set (capabilities g i)" "usable req c'" for c'
      using resolution_rank.first_best_all(3) [OF fb that(1), of "resolution_of c'"] that(2) by simp
    with resolution_rank.first_best_all(1,2) [OF fb] Some p show ?thesis by (simp split: if_splits)
  qed simp
qed



section \<open>Topology\<close>

lemma nodes_where_mem:
  assumes "graph_inv (k, g)"
  shows "j \<in> set (nodes_where P g) \<longleftrightarrow> j < length (contents (g_nodes g)) \<and> P j (contents (g_nodes g) ! j)"
proof -
  have "map node_id (filter (\<lambda>i. P i (contents (g_nodes g) ! i)) [0..<length (contents (g_nodes g))]) = filter (\<lambda>i. P i (contents (g_nodes g) ! i)) [0..<length (contents (g_nodes g))]"
    using nodes_small [OF assms] by (intro map_idI) (simp add: node_id_def)
  then show ?thesis by (auto simp: nodes_where_def)
qed

lemma siblings_mem:
  assumes "graph_inv (k, g)"
  shows "j \<in> set (siblings i level g) \<longleftrightarrow> (\<exists>n. gnode_get g j = Some n \<and> g_kind n = KCpu) \<and> group_of g i level \<noteq> None \<and> group_of g j level = group_of g i level"
proof (cases "group_of g i level")
  case (Some w)
  have "node_id j = j" if "j < length (contents (g_nodes g))" using that nodes_small [OF assms] by (simp add: node_id_def)
  then show ?thesis by (auto simp: siblings_def Some nodes_where_mem [OF assms] gnode_get_Some)
qed (simp add: siblings_def)

lemma hybrid_scan_iff:
  "hybrid_scan seen ns \<longleftrightarrow> (\<exists>x \<in> set ns. \<exists>v \<in> (case seen of None \<Rightarrow> (\<lambda>y. (g_class y, g_capacity y)) ` {y \<in> set ns. g_kind y = KCpu} | Some v \<Rightarrow> {v}).
     g_kind x = KCpu \<and> (g_class x, g_capacity x) \<noteq> v)"
proof (induction seen ns rule: hybrid_scan.induct)
  case (2 seen n ns)
  show ?case
  proof (cases "g_kind n = KCpu")
    case False
    then have "{y \<in> set (n # ns). g_kind y = KCpu} = {y \<in> set ns. g_kind y = KCpu}" by auto
    with False 2 show ?thesis by (auto split: option.splits)
  next
    case cpu: True
    show ?thesis
    proof (cases seen)
      case None
      with 2 cpu have "hybrid_scan seen (n # ns) \<longleftrightarrow> (\<exists>x \<in> set ns. g_kind x = KCpu \<and> (g_class x, g_capacity x) \<noteq> (g_class n, g_capacity n))" by simp
      also have "\<dots> \<longleftrightarrow> (\<exists>x \<in> set (n # ns). \<exists>y \<in> set (n # ns). g_kind x = KCpu \<and> g_kind y = KCpu \<and> (g_class x, g_capacity x) \<noteq> (g_class y, g_capacity y))"
        using cpu by (metis list.set_intros(1,2) set_ConsD)
      finally show ?thesis using None by auto
    next
      case (Some v)
      with 2 cpu show ?thesis by auto
    qed
  qed
qed (auto split: option.splits)

text \<open>
  In every graph that can be built, sharing a core or a cache is an equivalence on the processors whose topology is known, and \<^verbatim>\<open>siblings\<close> lists exactly the class of a
  processor, itself included, and nothing for one whose topology is unknown; \<^verbatim>\<open>fastest_cpu\<close> answers the lowest-numbered of the fastest processors of the class asked for, and none only if there is none;
  a machine is hybrid exactly when two of its processors differ in class or capacity.
\<close>

theorem topology_queries:
  assumes "km_inv k0" and "for_each graph_exec ops ((k0, graph_new), []) = Some ((k, g), rs)"
  shows "(\<forall>i level n. gnode_get g i = Some n \<and> g_kind n = KCpu \<longrightarrow> (i \<in> set (siblings i level g) \<longleftrightarrow> group_of g i level \<noteq> None)) \<and>
    (\<forall>i j level n. gnode_get g i = Some n \<and> g_kind n = KCpu \<and> j \<in> set (siblings i level g) \<longrightarrow>
       set (siblings j level g) = set (siblings i level g) \<and> (\<exists>m. gnode_get g j = Some m \<and> g_kind m = KCpu)) \<and>
    (let ok = (\<lambda>j n. gnode_get g j = Some n \<and> g_kind n = KCpu \<and> (case want of None \<Rightarrow> True | Some c \<Rightarrow> g_class n = c))
     in case fastest_cpu want g of None \<Rightarrow> (\<forall>j n. \<not> ok j n)
        | Some i \<Rightarrow> (\<exists>n. ok i n \<and> (\<forall>j m. ok j m \<longrightarrow> g_capacity m \<le> g_capacity n \<and> (j < i \<longrightarrow> g_capacity m < g_capacity n)))) \<and>
    (graph_is_hybrid g \<longleftrightarrow> (\<exists>i j n m. gnode_get g i = Some n \<and> gnode_get g j = Some m \<and> g_kind n = KCpu \<and> g_kind m = KCpu \<and>
       (g_class n, g_capacity n) \<noteq> (g_class m, g_capacity m)))"
proof -
  from graph_run_refines [OF graph_new_inv [OF assms(1)], of ops "[]"] assms(2) have inv: "graph_inv (k, g)" by auto
  let ?ns = "contents (g_nodes g)"
  let ?key = "\<lambda>j. if g_kind (?ns ! j) = KCpu \<and> (case want of None \<Rightarrow> True | Some c \<Rightarrow> g_class (?ns ! j) = c) then Some (g_capacity (?ns ! j)) else None"
  define ok where "ok = (\<lambda>j n. gnode_get g j = Some n \<and> g_kind n = KCpu \<and> (case want of None \<Rightarrow> True | Some c \<Rightarrow> g_class n = c))"
  have key: "ok j n \<longleftrightarrow> j < length ?ns \<and> ?ns ! j = n \<and> ?key j = Some (g_capacity n)" for j n by (auto simp: ok_def gnode_get_Some)
  have "keep_fastest g want best j = scan_best (\<lambda>a b. b < a) ?key best j" if "j < length ?ns" for best j
    using that nodes_small [OF inv] by (auto simp: keep_fastest_def scan_best_def Let_def node_id_def not_le split: option.splits)
  then have "foldl (keep_fastest g want) None [0..<length ?ns] = foldl (scan_best (\<lambda>a b. b < a) ?key) None [0..<length ?ns]"
    by (intro foldl_cong) auto
  then have fast: "fastest_cpu want g = map_option fst (foldl (scan_best (\<lambda>a b. b < a) ?key) None [0..<length ?ns])" by (simp add: fastest_cpu_def)
  have "case fastest_cpu want g of None \<Rightarrow> (\<forall>j n. \<not> ok j n)
        | Some i \<Rightarrow> (\<exists>n. ok i n \<and> (\<forall>j m. ok j m \<longrightarrow> g_capacity m \<le> g_capacity n \<and> (j < i \<longrightarrow> g_capacity m < g_capacity n)))"
  proof (cases "foldl (scan_best (\<lambda>a b. b < a) ?key) None [0..<length ?ns]")
    case None
    with greatest.scan_first_best [where key = ?key and xs = "[0..<length ?ns]"] have "\<forall>j < length ?ns. ?key j = None" by auto
    then have "\<not> ok j n" for j n unfolding key by auto
    then show ?thesis using fast None by simp
  next
    case (Some p)
    obtain i c where p: "p = (i, c)" by force
    from greatest.scan_first_best [where key = ?key and xs = "[0..<length ?ns]"] Some p have fb: "first_best (\<lambda>a b. b < a) ?key [0..<length ?ns] i c" by simp
    note f = first_best_upt [OF fb] greatest.first_best_all(3) [OF fb]
    have "ok i (?ns ! i)" "g_capacity (?ns ! i) = c" using f(1,2) unfolding key by (auto split: if_splits)
    moreover have "g_capacity m \<le> c \<and> (j < i \<longrightarrow> g_capacity m < c)" if "ok j m" for j m
      using that f(3) [of j "g_capacity m"] f(5) [of j "g_capacity m"] unfolding key by auto
    ultimately show ?thesis using fast Some p by auto
  qed
  moreover have "graph_is_hybrid g \<longleftrightarrow> (\<exists>i j n m. gnode_get g i = Some n \<and> gnode_get g j = Some m \<and> g_kind n = KCpu \<and> g_kind m = KCpu \<and>
       (g_class n, g_capacity n) \<noteq> (g_class m, g_capacity m))"
  proof -
    have "graph_is_hybrid g \<longleftrightarrow> (\<exists>n m. (n \<in> set ?ns \<and> g_kind n = KCpu) \<and> (m \<in> set ?ns \<and> g_kind m = KCpu) \<and> (g_class n, g_capacity n) \<noteq> (g_class m, g_capacity m))"
      by (auto simp: graph_is_hybrid_def hybrid_scan_iff)
    moreover have "(n \<in> set ?ns \<and> g_kind n = KCpu) \<longleftrightarrow> (\<exists>i. gnode_get g i = Some n \<and> g_kind n = KCpu)" for n
      by (auto simp: gnode_get_Some in_set_conv_nth)
    ultimately show ?thesis by blast
  qed
  ultimately show ?thesis unfolding siblings_mem [OF inv] Let_def ok_def set_eq_iff by auto
qed

theorem topology_queries_witness:
  "\<exists>k0 k g rs. km_inv k0 \<and> for_each graph_exec [GNode KCpu 0, GCore 0 Performance 1024] ((k0, graph_new), []) = Some ((k, g), rs) \<and>
     (graph_is_hybrid g \<longleftrightarrow> (\<exists>i j n m. gnode_get g i = Some n \<and> gnode_get g j = Some m \<and> g_kind n = KCpu \<and> g_kind m = KCpu \<and>
       (g_class n, g_capacity n) \<noteq> (g_class m, g_capacity m)))"
proof -
  obtain k0 where k0: "km_inv k0" using boot_memory by blast
  from graph_run_refines [OF graph_new_inv [OF k0], of "[GNode KCpu 0, GCore 0 Performance 1024]" "[]"] obtain k g rs where
    r: "for_each graph_exec [GNode KCpu 0, GCore 0 Performance 1024] ((k0, graph_new), []) = Some ((k, g), rs)" by auto
  from topology_queries [OF k0 r] have "graph_is_hybrid g \<longleftrightarrow> (\<exists>i j n m. gnode_get g i = Some n \<and> gnode_get g j = Some m \<and> g_kind n = KCpu \<and> g_kind m = KCpu \<and>
       (g_class n, g_capacity n) \<noteq> (g_class m, g_capacity m))" by (rule conjunct2 [OF conjunct2 [OF conjunct2]])
  with k0 r show ?thesis by (intro exI [of _ k0] exI [of _ k] exI [of _ g] exI [of _ rs] conjI)
qed

end
