(* ===== verification/Hetero.thy ===== *)
theory Hetero
  imports Runqueue Resgraph
begin

text \<open>
  Placement on machines whose processors are not equally fast, \<^verbatim>\<open>kernel/src/sched/hetero.rs\<close>: the capacity table, the class of
  an entity by its observed bursts, and the choice of a processor.

  The atomics of the module are one record; its operations run one at a time. Of the machine inventory only the class and the capacity of each processor matter here.
\<close>

definition MAX_CPUS :: nat where "MAX_CPUS = 64"

datatype thread_class = TUnknown | TCompute | TBursty
datatype hint_source = Observed | ThreadDirector

record class_hint =
  hint_class :: thread_class
  hint_source :: hint_source

record hetero =
  CAPACITY :: "nat list"
  CLASS :: "nat list"
  HYBRID :: bool
  PLACEMENTS :: u64
  MISPLACED :: u64
  MISMATCHED_STEALS :: u64

definition hetero_new :: hetero where
  "hetero_new = \<lparr> CAPACITY = replicate MAX_CPUS 0, CLASS = replicate MAX_CPUS 0, HYBRID = False, PLACEMENTS = 0, MISPLACED = 0, MISMATCHED_STEALS = 0 \<rparr>"

definition COMPUTE_SCORE :: nat where "COMPUTE_SCORE = 8"

definition classify :: "burst \<Rightarrow> class_hint" where
  "classify b = \<lparr> hint_class = (if yields b = 0 then TUnknown else if COMPUTE_SCORE \<le> burst_score b then TCompute else TBursty), hint_source = Observed \<rparr>"

record cpu_info =
  ci_class :: hw_core_class
  ci_capacity :: nat

fun class_code :: "hw_core_class \<Rightarrow> nat" where
  "class_code ClassUnknown = 0" | "class_code Performance = 1" | "class_code Efficiency = 2" | "class_code LowPower = 3"

definition cpu_capacity :: "cpu_info \<Rightarrow> nat" where
  "cpu_capacity c = (if ci_capacity c = 0 then CAPACITY_FULL else ci_capacity c)"

fun load_cpus :: "nat \<Rightarrow> cpu_info list \<Rightarrow> (nat \<times> nat) option \<Rightarrow> bool \<Rightarrow> hetero \<Rightarrow> hetero \<times> bool" where
  "load_cpus i [] seen hybrid h = (h, hybrid)"
| "load_cpus i (c # cs) seen hybrid h =
     (let v = (class_code (ci_class c), cpu_capacity c);
          h1 = h\<lparr>CAPACITY := (CAPACITY h)[i := snd v], CLASS := (CLASS h)[i := fst v]\<rparr>
      in case seen of None \<Rightarrow> load_cpus (Suc i) cs (Some v) hybrid h1
         | Some first \<Rightarrow> load_cpus (Suc i) cs seen (if first \<noteq> v then True else hybrid) h1)"

definition load_from_inventory :: "cpu_info list \<Rightarrow> hetero \<Rightarrow> hetero" where
  "load_from_inventory cpus h =
     (let n = min (length cpus) MAX_CPUS; (h1, hybrid) = load_cpus 0 (take n cpus) None False h
      in h1\<lparr>CAPACITY := take n (CAPACITY h1) @ replicate (MAX_CPUS - n) 0, HYBRID := hybrid\<rparr>)"

definition capacity_of :: "hetero \<Rightarrow> nat \<Rightarrow> nat" where
  "capacity_of h cpu = (if MAX_CPUS \<le> cpu then 0 else CAPACITY h ! cpu)"

definition class_of :: "hetero \<Rightarrow> nat \<Rightarrow> hw_core_class" where
  "class_of h cpu = (if MAX_CPUS \<le> cpu then ClassUnknown
     else if CLASS h ! cpu = 1 then Performance else if CLASS h ! cpu = 2 then Efficiency else if CLASS h ! cpu = 3 then LowPower else ClassUnknown)"

definition tier_matches :: "hetero \<Rightarrow> nat \<Rightarrow> thread_class \<Rightarrow> bool" where
  "tier_matches h cpu want = (if \<not> HYBRID h then True
     else case want of TBursty \<Rightarrow> capacity_of h cpu < CAPACITY_FULL | _ \<Rightarrow> capacity_of h cpu = CAPACITY_FULL)"

definition pick_step :: "hetero \<Rightarrow> bool \<Rightarrow> u64 \<Rightarrow> (nat \<times> nat) option \<Rightarrow> nat \<Rightarrow> (nat \<times> nat) option" where
  "pick_step h prefer_fast idle best cpu =
     (if idle AND push_bit (cpu mod 64) 1 = 0 \<or> 64 \<le> cpu then best
      else let c = capacity_of h cpu
           in if c = 0 then best
              else if (case best of None \<Rightarrow> True | Some (_, b) \<Rightarrow> if prefer_fast then c > b else c < b) then Some (cpu, c) else best)"

definition pick_cpu :: "thread_class \<Rightarrow> u64 \<Rightarrow> hetero \<Rightarrow> hetero \<times> nat option" where
  "pick_cpu want idle h =
     (case map_option fst (foldl (pick_step h (want \<noteq> TBursty) idle) None [0..<MAX_CPUS]) of
        None \<Rightarrow> (h, None)
      | Some c \<Rightarrow> (let h1 = h\<lparr>PLACEMENTS := PLACEMENTS h + 1\<rparr>
                   in (if \<not> tier_matches h1 c want then h1\<lparr>MISPLACED := MISPLACED h1 + 1\<rparr> else h1, Some c)))"

definition tier_suits :: "hetero \<Rightarrow> nat \<Rightarrow> thread_class \<Rightarrow> bool" where
  "tier_suits = tier_matches"

definition steal_is_matched :: "nat \<Rightarrow> thread_class \<Rightarrow> hetero \<Rightarrow> hetero \<times> bool" where
  "steal_is_matched thief want h =
     (let ok = tier_matches h thief want in (if \<not> ok then h\<lparr>MISMATCHED_STEALS := MISMATCHED_STEALS h + 1\<rparr> else h, ok))"

definition hetero_stats :: "hetero \<Rightarrow> u64 \<times> u64 \<times> u64" where
  "hetero_stats h = (PLACEMENTS h, MISPLACED h, MISMATCHED_STEALS h)"

definition reset_stats :: "hetero \<Rightarrow> hetero" where
  "reset_stats h = h\<lparr>PLACEMENTS := 0, MISPLACED := 0, MISMATCHED_STEALS := 0\<rparr>"

section \<open>The capacity table\<close>

lemma load_cpus_spec:
  assumes "i + length cs \<le> MAX_CPUS" "length (CAPACITY h) = MAX_CPUS" "load_cpus i cs seen hybrid h = (h', hy)"
  shows "length (CAPACITY h') = MAX_CPUS" "\<And>j. CAPACITY h' ! j = (if i \<le> j \<and> j < i + length cs then cpu_capacity (cs ! (j - i)) else CAPACITY h ! j)"
    "hetero_stats h' = hetero_stats h"
    "hy \<longleftrightarrow> hybrid \<or> (\<exists>c \<in> set cs. \<exists>v \<in> (case seen of None \<Rightarrow> (\<lambda>c. (class_code (ci_class c), cpu_capacity c)) ` set cs | Some v \<Rightarrow> {v}).
       (class_code (ci_class c), cpu_capacity c) \<noteq> v)"
proof -
  have "length (CAPACITY h') = MAX_CPUS \<and> (\<forall>j. CAPACITY h' ! j = (if i \<le> j \<and> j < i + length cs then cpu_capacity (cs ! (j - i)) else CAPACITY h ! j)) \<and>
    hetero_stats h' = hetero_stats h \<and>
    (hy \<longleftrightarrow> hybrid \<or> (\<exists>c \<in> set cs. \<exists>v \<in> (case seen of None \<Rightarrow> (\<lambda>c. (class_code (ci_class c), cpu_capacity c)) ` set cs | Some v \<Rightarrow> {v}).
       (class_code (ci_class c), cpu_capacity c) \<noteq> v))"
    using assms
  proof (induction cs arbitrary: i seen hybrid h)
    case Nil
    then show ?case by (auto split: option.splits)
  next
    case (Cons c cs)
    let ?v = "(class_code (ci_class c), cpu_capacity c)"
    let ?h = "h\<lparr>CAPACITY := (CAPACITY h)[i := snd ?v], CLASS := (CLASS h)[i := fst ?v]\<rparr>"
    let ?seen = "case seen of None \<Rightarrow> Some ?v | Some _ \<Rightarrow> seen"
    let ?hy = "case seen of None \<Rightarrow> hybrid | Some first \<Rightarrow> if first \<noteq> ?v then True else hybrid"
    have run: "load_cpus (Suc i) cs ?seen ?hy ?h = (h', hy)" using Cons.prems(3) by (cases seen) (simp_all add: Let_def)
    have "length (CAPACITY ?h) = MAX_CPUS" "Suc i + length cs \<le> MAX_CPUS" using Cons.prems by simp_all
    note IH = Cons.IH [OF this(2,1) run]
    have "CAPACITY h' ! j = (if i \<le> j \<and> j < i + length (c # cs) then cpu_capacity ((c # cs) ! (j - i)) else CAPACITY h ! j)" for j
      using IH Cons.prems by (auto simp: nth_list_update nth_Cons')
    moreover have "hetero_stats h' = hetero_stats h" using IH by (simp add: hetero_stats_def)
    moreover have "hy \<longleftrightarrow> hybrid \<or> (\<exists>c' \<in> set (c # cs). \<exists>v \<in> (case seen of None \<Rightarrow> (\<lambda>c. (class_code (ci_class c), cpu_capacity c)) ` set (c # cs) | Some v \<Rightarrow> {v}).
       (class_code (ci_class c'), cpu_capacity c') \<noteq> v)"
    proof (cases seen)
      case None
      with IH have "hy \<longleftrightarrow> hybrid \<or> (\<exists>c' \<in> set cs. (class_code (ci_class c'), cpu_capacity c') \<noteq> ?v)" by simp
      also have "(\<exists>c' \<in> set cs. (class_code (ci_class c'), cpu_capacity c') \<noteq> ?v) \<longleftrightarrow>
        (\<exists>x \<in> set (c # cs). \<exists>y \<in> set (c # cs). (class_code (ci_class x), cpu_capacity x) \<noteq> (class_code (ci_class y), cpu_capacity y))"
        by (metis list.set_intros(1,2) set_ConsD)
      finally show ?thesis using None by simp
    next
      case (Some v)
      with IH show ?thesis by auto
    qed
    ultimately show ?case using IH by blast
  qed
  then show "length (CAPACITY h') = MAX_CPUS" "\<And>j. CAPACITY h' ! j = (if i \<le> j \<and> j < i + length cs then cpu_capacity (cs ! (j - i)) else CAPACITY h ! j)"
    "hetero_stats h' = hetero_stats h" "hy \<longleftrightarrow> hybrid \<or> (\<exists>c \<in> set cs. \<exists>v \<in> (case seen of None \<Rightarrow> (\<lambda>c. (class_code (ci_class c), cpu_capacity c)) ` set cs | Some v \<Rightarrow> {v}).
       (class_code (ci_class c), cpu_capacity c) \<noteq> v)" by blast+
qed

lemma cpu_capacity_nz [simp]: "cpu_capacity c \<noteq> 0"
  by (simp add: cpu_capacity_def CAPACITY_FULL_def)

lemma class_code_inj: "class_code a = class_code b \<longleftrightarrow> a = b"
  by (cases a; cases b) simp_all

lemma load_spec:
  assumes h: "length (CAPACITY h) = MAX_CPUS" and n: "length cpus \<le> MAX_CPUS"
  shows "capacity_of (load_from_inventory cpus h) j = (if j < length cpus then cpu_capacity (cpus ! j) else 0)"
    "HYBRID (load_from_inventory cpus h) \<longleftrightarrow> (\<exists>c \<in> set cpus. \<exists>d \<in> set cpus. (ci_class c, cpu_capacity c) \<noteq> (ci_class d, cpu_capacity d))"
    "hetero_stats (load_from_inventory cpus h) = hetero_stats h"
proof -
  obtain h1 hy where l: "load_cpus 0 cpus None False h = (h1, hy)" by fastforce
  note s = load_cpus_spec [OF _ h l]
  have load: "load_from_inventory cpus h = h1\<lparr>CAPACITY := take (length cpus) (CAPACITY h1) @ replicate (MAX_CPUS - length cpus) 0, HYBRID := hy\<rparr>"
    using n l by (simp add: load_from_inventory_def min_def Let_def)
  have len: "length (CAPACITY h1) = MAX_CPUS" using s(1) n by simp
  show "capacity_of (load_from_inventory cpus h) j = (if j < length cpus then cpu_capacity (cpus ! j) else 0)"
    using s(2) [of j] n len by (auto simp: load capacity_of_def nth_append)
  show "HYBRID (load_from_inventory cpus h) \<longleftrightarrow> (\<exists>c \<in> set cpus. \<exists>d \<in> set cpus. (ci_class c, cpu_capacity c) \<noteq> (ci_class d, cpu_capacity d))"
    using s(4) n by (simp add: load class_code_inj)
  show "hetero_stats (load_from_inventory cpus h) = hetero_stats h" using s(3) n by (simp add: load hetero_stats_def)
qed

interpretation tier_scan: best_scan "\<lambda>a b :: nat. if want = TBursty then a < b else b < a" for want
  by unfold_locales (auto split: if_splits)

section \<open>Properties\<close>

text \<open>
  After the table has been loaded from an inventory of at most 64 processors, \<^verbatim>\<open>pick_cpu\<close> answers a present processor of the set it is given, the fastest for compute-bound or unjudged work
  and the slowest for bursty work, the lowest-numbered of several, and nothing only when the set holds no present processor. It counts every placement, and as misplaced exactly those on the wrong
  tier. On a machine of equal processors the answer is the lowest-numbered one of the set, and no placement or steal counts as mismatched.
\<close>

theorem pick_cpu_best:
  assumes "length (CAPACITY h0) = MAX_CPUS" and "length cpus \<le> MAX_CPUS" and "load_from_inventory cpus h0 = h" and "pick_cpu want idle h = (h', r)"
  shows "(case r of None \<Rightarrow> h' = h \<and> (\<forall>j < length cpus. \<not> bit idle j)
     | Some c \<Rightarrow> c < length cpus \<and> bit idle c \<and>
         (\<forall>j < length cpus. bit idle j \<longrightarrow>
            (if want = TBursty then cpu_capacity (cpus ! c) \<le> cpu_capacity (cpus ! j) \<and> (j < c \<longrightarrow> cpu_capacity (cpus ! c) < cpu_capacity (cpus ! j))
             else cpu_capacity (cpus ! j) \<le> cpu_capacity (cpus ! c) \<and> (j < c \<longrightarrow> cpu_capacity (cpus ! j) < cpu_capacity (cpus ! c)))) \<and>
         PLACEMENTS h' = PLACEMENTS h + 1 \<and> MISPLACED h' = MISPLACED h + (if tier_suits h c want then 0 else 1)) \<and>
    ((\<forall>c \<in> set cpus. \<forall>d \<in> set cpus. ci_class c = ci_class d \<and> cpu_capacity c = cpu_capacity d) \<longrightarrow>
       r = find (bit idle) [0..<length cpus] \<and> MISPLACED h' = MISPLACED h \<and> (\<forall>thief. steal_is_matched thief want h = (h, True)))"
proof -
  note load = load_spec [OF assms(1,2), unfolded assms(3)]
  let ?key = "\<lambda>j. if bit idle j \<and> j < length cpus then Some (cpu_capacity (cpus ! j)) else None"
  let ?bt = "\<lambda>a b :: nat. if want = TBursty then a < b else b < a"
  have step: "pick_step h (want \<noteq> TBursty) idle best j = scan_best ?bt ?key best j" if "j < MAX_CPUS" for best j
  proof -
    have "idle AND push_bit (j mod 64) 1 = 0 \<or> 64 \<le> j \<longleftrightarrow> \<not> bit idle j" using that by (simp add: MAX_CPUS_def bit_iff_and_push_bit_not_eq_0)
    then show ?thesis by (auto simp: pick_step_def scan_best_def Let_def load(1) split: option.splits)
  qed
  then have fold: "foldl (pick_step h (want \<noteq> TBursty) idle) None [0..<MAX_CPUS] = foldl (scan_best ?bt ?key) None [0..<MAX_CPUS]" by (intro foldl_cong) auto
  define uni where "uni \<longleftrightarrow> (\<forall>c \<in> set cpus. \<forall>d \<in> set cpus. ci_class c = ci_class d \<and> cpu_capacity c = cpu_capacity d)"
  have hy: "uni \<Longrightarrow> \<not> HYBRID h" using load(2) unfolding uni_def by blast
  show ?thesis
  proof (cases "foldl (scan_best ?bt ?key) None [0..<MAX_CPUS]")
    case None
    with tier_scan.scan_first_best [where want = want and key = ?key and xs = "[0..<MAX_CPUS]"] assms(2) have none: "\<not> bit idle j" if "j < length cpus" for j
      using that by (auto split: if_splits)
    have r: "r = None" "h' = h" using assms(4) by (simp_all add: pick_cpu_def fold None)
    moreover have "find (bit idle) [0..<length cpus] = None" using none by (simp add: find_None_iff)
    moreover have "steal_is_matched thief want h = (h, True)" if uni for thief using hy [OF that] by (simp add: steal_is_matched_def tier_matches_def)
    ultimately show ?thesis using none unfolding uni_def [symmetric] by simp
  next
    case (Some p)
    obtain c b where p: "p = (c, b)" by force
    from tier_scan.scan_first_best [where want = want and key = ?key and xs = "[0..<MAX_CPUS]"] Some p have fb: "first_best ?bt ?key [0..<MAX_CPUS] c b" by simp
    note f = first_best_upt [OF fb] tier_scan.first_best_all(3) [OF fb]
    have c: "c < length cpus" "bit idle c" "b = cpu_capacity (cpus ! c)" using f(2) by (auto split: if_splits)
    have best: "if want = TBursty then cpu_capacity (cpus ! c) \<le> cpu_capacity (cpus ! j) \<and> (j < c \<longrightarrow> cpu_capacity (cpus ! c) < cpu_capacity (cpus ! j))
        else cpu_capacity (cpus ! j) \<le> cpu_capacity (cpus ! c) \<and> (j < c \<longrightarrow> cpu_capacity (cpus ! j) < cpu_capacity (cpus ! c))"
      if "j < length cpus" "bit idle j" for j
      using f(3) [of j "cpu_capacity (cpus ! j)"] f(5) [of j "cpu_capacity (cpus ! j)"] that c(3) assms(2) by (auto split: if_splits)
    have tm: "tier_matches (h\<lparr>PLACEMENTS := x\<rparr>) c want = tier_matches h c want" for x by (cases want) (simp_all add: tier_matches_def capacity_of_def)
    have r: "r = Some c" "PLACEMENTS h' = PLACEMENTS h + 1" "MISPLACED h' = MISPLACED h + (if tier_suits h c want then 0 else 1)"
      using assms(4) by (auto simp: pick_cpu_def fold Some p Let_def tm tier_suits_def split: if_splits)
    have un: "r = find (bit idle) [0..<length cpus] \<and> MISPLACED h' = MISPLACED h \<and> (\<forall>thief. steal_is_matched thief want h = (h, True))"
      if u: uni
    proof -
      have "\<not> bit idle j" if "j < c" for j
      proof -
        have "cpu_capacity (cpus ! j) = cpu_capacity (cpus ! c)" using u that c(1) unfolding uni_def by simp
        then show ?thesis using best [of j] that c(1) by (auto split: if_splits)
      qed
      then have "find (bit idle) [0..<length cpus] = Some c" using c(1,2) by (simp add: find_upt_Some)
      then show ?thesis using r hy [OF u] by (simp add: tier_suits_def tier_matches_def steal_is_matched_def)
    qed
    from c best r un show ?thesis unfolding uni_def [symmetric] by simp
  qed
qed

theorem pick_cpu_best_witness:
  "\<exists>h' r. pick_cpu TCompute 7 (load_from_inventory [\<lparr> ci_class = Efficiency, ci_capacity = 400 \<rparr>, \<lparr> ci_class = Performance, ci_capacity = 0 \<rparr>] hetero_new) = (h', r) \<and>
     (case r of None \<Rightarrow> False | Some c \<Rightarrow> c < 2 \<and> bit (7 :: u64) c)"
proof -
  let ?cpus = "[\<lparr> ci_class = Efficiency, ci_capacity = 400 \<rparr>, \<lparr> ci_class = Performance, ci_capacity = 0 \<rparr>]"
  have 1: "length (CAPACITY hetero_new) = MAX_CPUS" by (simp add: hetero_new_def)
  have 2: "length ?cpus \<le> MAX_CPUS" by (simp add: MAX_CPUS_def)
  obtain h' r where p: "pick_cpu TCompute 7 (load_from_inventory ?cpus hetero_new) = (h', r)" by fastforce
  have "bit (7 :: u64) 0" by simp
  then show ?thesis using pick_cpu_best [OF 1 2 refl p, THEN conjunct1] p by (cases r) (auto simp: numeral_2_eq_2)
qed

lemma score_at_threshold: "score_of (2 ^ 29) = 9" "score_of (2 ^ 29 - 1) = 7"
  by (simp_all add: score_of_def PENALTY_OFFSET_BITS_def PENALTY_SCALE_def SCORE_MAX_def drop_bit_eq_div bit_length.simps)



end
