(* ===== verification/Spec2Isabelle.thy ===== *)
theory Spec2Isabelle
  imports Queue Entity Runqueue Admission Vma Vaspace Arbiter Fdobjects Obsring Logring Hpack Hetero
begin

text \<open>
  \<^bold>\<open>A verification library for the core of the rheo kernel.\<close>

  rheo is an operating system for heterogeneous machines. Cells (processes) hold capabilities in per-cell
  tables and talk to services through queue pairs; a cell runs on execution entities that processors enter and
  leave; a ready queue per processor orders them by virtual deadline; memory for the kernel's own tables is
  taken frame by frame from a pool and charged to the cell that caused it; timers are multiplexed on one
  hardware one-shot per processor; a Linux personality keeps mappings, pipes and event descriptors on top of the same
  ledger. The library models these components from their Rust sources (all paths below are under \<^verbatim>\<open>src/\<close>) as
  executable HOL functions on explicit state, one theory per component, and proves what each promises.

  \<^bold>\<open>The parts, and how they build on each other.\<close>

  \<^descr>[Prelude] (\<^verbatim>\<open>Rheo_Prelude\<close>) The machine integers, saturating and checked operations, bounds-checked reads,
  first-match scans (\<open>find_idx\<close>, the shape of every slot search of the kernel), scans that keep the first best
  element (locale \<open>best_scan\<close>), lists cut into pages, loops with a panic, and runs of operation sequences: the
  locale \<open>machine\<close> turns a preserved invariant and the absence of panics in one step into the same for every run
  (\<open>total_machine\<close> for steps that cannot panic).

  \<^descr>[Free frames] (\<^verbatim>\<open>Bitmap\<close>, \<^verbatim>\<open>kernel/src/mm/bitmap.rs\<close>) \<open>find_in\<close>, \<open>find_from\<close>, \<open>find_run\<close>, word at a time as in the
  source, each equal to a bit-by-bit reference.

  \<^descr>[Frame pool] (\<^verbatim>\<open>Frames\<close>, \<^verbatim>\<open>kernel/src/mm/frames.rs\<close>) The bitmap, the reference counts, the used count, the NUMA
  ranges and the contents of frames in one record \<open>pool\<close>; allocation on a node or anywhere, contiguous runs, sharing,
  copy on write, freeing. The used count and the counts agree with the bitmap after every run. The
  locale \<open>frame_source\<close> is the contract its clients use (a frame handed out was free, freeing undoes it); the pool
  and the metadata ledger both interpret it.

  \<^descr>[Metadata memory] (\<^verbatim>\<open>Kmeta\<close>, \<^verbatim>\<open>kernel/src/mm/kmeta.rs\<close>) The per-owner ledger \<open>alloc_frame\<close>, \<open>free_frame\<close>, and the tables
  \<open>Funded\<close> and \<open>Elastic\<close> made of its frames: directories, growth, shrinking, all-or-nothing reservation. A table refines
  the list of its elements (locale \<open>slot_table\<close>, interpreted by both), and in any system of tables on one
  ledger every owner is charged exactly the frames its tables hold. Capability tables, entities, ready queues, mappings, regions, timers and the resource graph live in these tables.

  \<^descr>[Capabilities] (\<^verbatim>\<open>Capability\<close>, \<^verbatim>\<open>kernel/src/capability/mod.rs\<close>) Objects with revocation epochs, handles packed from slot
  and generation, the per-cell table with \<open>grant_check\<close>, derivation, delegation, drop and fork copy. Over every run of any number of
  cells: authority is never forged or widened, revocation is final, a stale handle stays refused.

  \<^descr>[Queue pairs] (\<^verbatim>\<open>Queue\<close>, \<^verbatim>\<open>kernel/src/queue/mod.rs\<close>) The ring sequentially (locale \<open>bounded_fifo\<close>) and as a step relation in
  which every load and store of producer and consumer is a step; submission, the entry gate that asks the
  capability table, the kernel's drain. The services behind the opcodes are an argument.

  \<^descr>[Entities] (\<^verbatim>\<open>Entity\<close>, \<^verbatim>\<open>kernel/src/sched/entity.rs\<close>) The table that decides which processor is inside a context: creation,
  enter, leave, park, wake, steal, floating-point areas, the built-in checker.

  \<^descr>[Ready queue] (\<^verbatim>\<open>Runqueue\<close>, \<^verbatim>\<open>kernel/src/sched/vcore.rs\<close>, \<^verbatim>\<open>kernel/src/sched/bore.rs\<close>) Vcores with lag, deadline and weight, burst scores, the
  eligibility clock, the single walk that picks; every cached total stays exact, the pick is least in the documented order, and waiting work becomes eligible.

  \<^descr>[Contracts] (\<^verbatim>\<open>Admission\<close>, \<^verbatim>\<open>kernel/src/sched/mod.rs\<close>, \<^verbatim>\<open>kernel/src/lease.rs\<close>) Admission per machine and cell, reservation as the
  system call composes them, leases with fencing tokens.

  \<^descr>[Heterogeneous placement] (\<^verbatim>\<open>Resgraph\<close>, \<^verbatim>\<open>kernel/src/hw/graph.rs\<close>; \<^verbatim>\<open>Hetero\<close>, \<^verbatim>\<open>kernel/src/sched/hetero.rs\<close>) The resource graph over
  three funded tables refines a map of nodes, capabilities and costs; its queries answer the best candidate. The capacity table
  and the choice of a processor for an entity use the burst score of the ready queue.

  \<^descr>[Address spaces] (\<^verbatim>\<open>Spans\<close>; \<^verbatim>\<open>Vma\<close>, \<^verbatim>\<open>kernel/src/linux/vma.rs\<close>; \<^verbatim>\<open>Vaspace\<close>, \<^verbatim>\<open>kernel/src/mm/vaspace.rs\<close>) Tables of disjoint address spans. The
  mapping list of a Linux cell refines an update of an address map, splits and merges included, with one file reference per record; the
  region allocator is first fit with guards, and its tables stay well formed.

  \<^descr>[Timers] (\<^verbatim>\<open>Wheel\<close>, \<^verbatim>\<open>kernel/src/ktimer/wheel.rs\<close>; \<^verbatim>\<open>Arbiter\<close>, \<^verbatim>\<open>kernel/src/ktimer/mod.rs\<close>) The hierarchical wheel with its doubly linked lists
  in a funded table, and the arbiter that multiplexes named clients and the wheel on one one-shot. No list walk
  is endless, due timers fire and none fires early, and the one-shot covers every outstanding deadline.

  \<^descr>[Descriptors] (\<^verbatim>\<open>Pipe\<close>, \<^verbatim>\<open>kernel/src/linux/pipe.rs\<close>; \<^verbatim>\<open>Fdobjects\<close>, \<^verbatim>\<open>eventfd.rs\<close>, \<^verbatim>\<open>timerfd.rs\<close>, \<^verbatim>\<open>epoll.rs\<close> beside it) Pipes refine bounded byte
  queues and account for their frames; the locale \<open>ref_table\<close> states what the reference-counted object tables share and is interpreted by all three; the counter, the timer and the watch list each meet a reference description.

  \<^descr>[Event rings] (\<^verbatim>\<open>Obsring\<close>, \<^verbatim>\<open>kernel/src/obs/ring.rs\<close>) The overwriting ring of one processor, word by word, and every interleaving of its
  writer with a reader on another processor.

  \<^descr>[Log and console] (\<^verbatim>\<open>Logring\<close>, \<^verbatim>\<open>kernel/src/telemetry.rs\<close>, \<^verbatim>\<open>kernel/src/console.rs\<close>) The log ring of each processor, a view of the queue pair's ring whose newest
  record absorbs repeats and losses, the merge by time stamp, and the console that writes into it and drains it.

  \<^descr>[Header compression] (\<^verbatim>\<open>Huffman\<close>, \<^verbatim>\<open>net/src/http2/huffman.rs\<close> with \<^verbatim>\<open>huffman_table.rs\<close>; \<^verbatim>\<open>Hpack\<close>, \<^verbatim>\<open>net/src/http2/hpack.rs\<close>) The one part of the user-space network stack: the
  canonical Huffman code, whose decoder accepts exactly the encodings, and the table-driven codec whose two ends stay in step over any sequence of blocks and whose decoder stays within its limits on any input.

  \<^bold>\<open>How the code is rendered.\<close>

  \<^item> A struct is a record, an enum a datatype, with the names of the source where they do not clash with HOL. Static
  variables are fields of the state of their component.
  \<^item> An integer whose wrap-around, bits or saturation matter is a word of its width (handles, ring indices, deadlines,
  counters); a \<^verbatim>\<open>usize\<close> that only counts or indexes is a natural number, and where the source saturates or
  checks at the width the operation is written out (\<open>sat_add\<close>, \<open>checked_add\<close>).
  \<^item> A panic (an out-of-range index, an \<^verbatim>\<open>unwrap\<close> of nothing, an arithmetic overflow in a build that
  checks it) is \<open>None\<close> of the outer option of an operation; an error result of the source is \<open>Inl\<close> of a sum or \<open>None\<close> of an inner
  option. Where a release build would wrap instead, the operation is the wrapping one and the range in which the two agree
  is part of the statement. That an operation does not panic is proved, not assumed.
  \<^item> A loop is a structural recursion over the slots it visits, or a function with a termination proof. The walks over
  the linked lists of the wheel, which an inconsistent table could make endless, are partial functions into an option, so that
  not returning is \<open>None\<close> like a panic; that they return on every reachable wheel is part of the properties. Only the checker of the
  wheel counts its steps (one more than there are nodes), because its source does.
  \<^item> A component that iterates over a funded table for reading takes the list \<open>contents\<close> of the table; \<open>funded_get_inv\<close> shows that on
  a well-formed table the directory walk of \<open>funded_get\<close> answers exactly the element of that list. Writes go through the directories.
  \<^item> An operation guarded by a lock is one atomic step. Where the source is lock-free by design (the queue ring, the
  event ring) each load and store is a step of its own, in program order.
  \<^item> The clock, the memory of a user process, the answers of a service and of the hardware are arguments.

  \<^bold>\<open>How the proofs are arranged.\<close> Every component has an invariant, a lemma per operation that it keeps the invariant
  and never panics, an operation datatype with its step function, and an interpretation of \<open>machine\<close> (or a
  relation and rule induction). The properties at the end of each theory are statements about whole runs, obtained from
  the interpretation and the lemmas. Laws between components are stated in locales
  (\<open>frame_source\<close>, \<open>slot_table\<close>, \<open>bounded_fifo\<close>, \<open>ref_table\<close>, \<open>best_scan\<close>) and every one is interpreted on the definitions that
  model the code. Hypotheses of a property are the contracts of the callers (an open descriptor is passed, a clock reading is below the
  half range, fewer operations than a counter holds); each is instantiated in the witness that follows it.

  \<^bold>\<open>Departures of the code from its comments.\<close> Some statements are shaped by what the code does rather than by what its comments say: the range in which handle packing
  is exact, the tick that \<open>advance\<close> has already passed, the protection change that loses a record on a full table, the
  adjacent guard regions, the threshold of compute-bound work, the torn read of the event ring, and the prefix integer that wraps.

  \<^bold>\<open>Not modelled.\<close>

  \<^item> Page tables, traps, interrupt controllers, drivers, the IOMMU and the boot code (\<^verbatim>\<open>kernel/src/arch\<close>, \<^verbatim>\<open>kernel/src/hw\<close> apart from the graph): unsafe
  accesses to hardware whose meaning is not in the sources.
  \<^item> The system-call dispatch of \<^verbatim>\<open>kernel/src/user.rs\<close> and \<^verbatim>\<open>kernel/src/linux/mod.rs\<close>, the descriptor table, processes, threads, signals and sockets
  of the Linux personality: they compose the components above with registers and user memory.
  \<^item> Flat combining in \<^verbatim>\<open>frames.rs\<close>, spin locks and memory orderings weaker than sequential consistency.
  \<^item> Metrics and trace emission inside modelled operations: write-only counters that no operation reads.
  \<^item> The service side of queue opcodes and files, and user space apart from header compression: the rest of the network stack, the runtime, the C library, the JSON
  parser, programs, the build tool.
\<close>

end
